(* ===== verification/Prelude.thy ===== *)
theory Prelude
  imports Main "HOL-Library.Word" "HOL-Library.Char_ord" "HOL-Library.List_Lexorder"
    "HOL-Library.While_Combinator"
begin

text \<open>
  Shared vocabulary of the development: machine words, the \<open>Result\<close> type of the Rust code with
  panics as a separate error, checked indexing, and Rust's three-valued \<open>Ordering\<close> with its
  lexicographic lifting to lists. The collection \<open>res_simps\<close> holds the facts that unfold the
  error monad.
\<close>

named_theorems res_simps \<open>unfolding rules of the error monad\<close>

type_synonym u64 = "64 word"
type_synonym u32 = "32 word"
type_synonym i64 = int

text \<open>
  \<open>Err\<close> is a value of Rust's \<open>Err(String)\<close>; \<open>Panic\<close> stands for an index out of range, a failed
  \<open>unwrap\<close> or an \<open>unreachable!()\<close>; \<open>Diverge\<close> is the answer of a model with fuel that ran out, for
  code that did not return within that many recursive calls.
\<close>

datatype error = Err string | Panic | Diverge

type_synonym 'a res = "error + 'a"

definition rbind :: "'a res \<Rightarrow> ('a \<Rightarrow> 'b res) \<Rightarrow> 'b res" where
  "rbind m f = (case m of Inl e \<Rightarrow> Inl e | Inr x \<Rightarrow> f x)"

lemma rbind_Inl [simp, res_simps]: "rbind (Inl e) f = Inl e"
  by (simp add: rbind_def)

lemma rbind_Inr [simp, res_simps]: "rbind (Inr x) f = f x"
  by (simp add: rbind_def)

lemma rbind_eq_Inr [res_simps]: "rbind m f = Inr y \<longleftrightarrow> (\<exists>x. m = Inr x \<and> f x = Inr y)"
  by (cases m) auto

lemma rbind_eq_Inl [res_simps]:
  "rbind m f = Inl e \<longleftrightarrow> m = Inl e \<or> (\<exists>x. m = Inr x \<and> f x = Inl e)"
  by (cases m) auto

lemma rbind_assoc: "rbind (rbind m f) g = rbind m (\<lambda>x. rbind (f x) g)"
  by (cases m) auto

lemma rbind_cong [fundef_cong]:
  "m = m' \<Longrightarrow> (\<And>x. m' = Inr x \<Longrightarrow> f x = f' x) \<Longrightarrow> rbind m f = rbind m' f'"
  by (cases m') auto

definition rmap :: "('a \<Rightarrow> 'b) \<Rightarrow> 'a res \<Rightarrow> 'b res" where
  "rmap f m = rbind m (\<lambda>x. Inr (f x))"

lemma rmap_simps [simp, res_simps]: "rmap f (Inl e) = Inl e" "rmap f (Inr x) = Inr (f x)"
  by (simp_all add: rmap_def)

text \<open>\<open>Option::ok_or\<close>, \<open>iter().map(f).collect::<Result<Vec<_>>>()\<close> and indexing with a bounds check.\<close>

definition ok_or :: "'a option \<Rightarrow> error \<Rightarrow> 'a res" where
  "ok_or m e = (case m of None \<Rightarrow> Inl e | Some x \<Rightarrow> Inr x)"

lemma ok_or_simps [simp, res_simps]: "ok_or None e = Inl e" "ok_or (Some x) e = Inr x"
  by (simp_all add: ok_or_def)

lemma ok_or_eq_Inr [res_simps]: "ok_or m e = Inr x \<longleftrightarrow> m = Some x"
  by (cases m) auto

definition ensure_res :: "bool \<Rightarrow> error \<Rightarrow> unit res" where
  "ensure_res b e = (if b then Inr () else Inl e)"

lemma ensure_res_eq_Inr [res_simps]: "ensure_res b e = Inr u \<longleftrightarrow> b"
  by (simp add: ensure_res_def)

lemma ensure_res_simps [simp]: "ensure_res True e = Inr ()" "ensure_res False e = Inl e"
  by (simp_all add: ensure_res_def)

fun rmapM :: "('a \<Rightarrow> 'b res) \<Rightarrow> 'a list \<Rightarrow> 'b list res" where
  "rmapM f [] = Inr []"
| "rmapM f (x # xs) = rbind (f x) (\<lambda>y. rbind (rmapM f xs) (\<lambda>ys. Inr (y # ys)))"

lemma rmapM_cong [fundef_cong]:
  "xs = ys \<Longrightarrow> (\<And>x. x \<in> set ys \<Longrightarrow> f x = g x) \<Longrightarrow> rmapM f xs = rmapM g ys"
  by (induction ys arbitrary: xs) (auto simp: rbind_def split: sum.splits)

lemma rmapM_Inr: "rmapM f xs = Inr ys \<Longrightarrow> list_all2 (\<lambda>x y. f x = Inr y) xs ys"
  by (induction xs arbitrary: ys) (auto simp: res_simps)

lemma rmapM_mem: "rmapM f xs = Inr ys \<Longrightarrow> y \<in> set ys \<Longrightarrow> \<exists>x \<in> set xs. f x = Inr y"
  by (induction xs arbitrary: ys) (auto simp: rbind_eq_Inr)

lemma rmapM_length: "rmapM f xs = Inr ys \<Longrightarrow> length ys = length xs"
  using list_all2_lengthD [OF rmapM_Inr] by metis

lemma rmapM_map: "(\<And>x. x \<in> set xs \<Longrightarrow> f x = Inr (g x)) \<Longrightarrow> rmapM f xs = Inr (map g xs)"
  by (induction xs) auto

lemma rmapM_append:
  "rmapM f (xs @ ys) = rbind (rmapM f xs) (\<lambda>a. rbind (rmapM f ys) (\<lambda>b. Inr (a @ b)))"
  by (induction xs) (auto simp: rbind_def split: sum.splits)

fun rfold :: "('a \<Rightarrow> 's \<Rightarrow> 's res) \<Rightarrow> 'a list \<Rightarrow> 's \<Rightarrow> 's res" where
  "rfold f [] s = Inr s"
| "rfold f (x # xs) s = rbind (f x s) (rfold f xs)"

lemma rfold_cong [fundef_cong]:
  "xs = ys \<Longrightarrow> s = t \<Longrightarrow> (\<And>x u. x \<in> set ys \<Longrightarrow> f x u = g x u) \<Longrightarrow> rfold f xs s = rfold g ys t"
proof (induction ys arbitrary: xs s t)
  case (Cons y ys)
  then have "rfold f ys = rfold g ys" by (intro ext) simp
  with Cons show ?case by simp
qed simp

lemma rfold_append: "rfold f (xs @ ys) s = rbind (rfold f xs s) (rfold f ys)"
  by (induction xs arbitrary: s) (auto simp: rbind_def split: sum.splits)

lemma rfold_invariant:
  assumes "rfold f xs s = Inr t" and "P s"
    and "\<And>x a b. x \<in> set xs \<Longrightarrow> P a \<Longrightarrow> f x a = Inr b \<Longrightarrow> P b"
  shows "P t"
  using assms by (induction xs arbitrary: s) (auto simp: res_simps)

text \<open>A map over a list that threads a state.\<close>

fun smapM :: "('a \<Rightarrow> 's \<Rightarrow> ('s \<times> 'b) res) \<Rightarrow> 'a list \<Rightarrow> 's \<Rightarrow> ('s \<times> 'b list) res" where
  "smapM f [] s = Inr (s, [])"
| "smapM f (x # xs) s =
     rbind (f x s) (\<lambda>(s, y). rbind (smapM f xs s) (\<lambda>(s, ys). Inr (s, y # ys)))"

lemma smapM_cong [fundef_cong]:
  "xs = ys \<Longrightarrow> s = t \<Longrightarrow> (\<And>x u. x \<in> set ys \<Longrightarrow> f x u = g x u) \<Longrightarrow> smapM f xs s = smapM g ys t"
proof (induction ys arbitrary: xs s t)
  case (Cons y ys)
  then have "smapM f ys = smapM g ys" by (intro ext) simp
  with Cons show ?case by simp
qed simp

lemma smapM_invariant:
  assumes "smapM f xs s = Inr (t, ys)" and "P s"
    and "\<And>x a b y. x \<in> set xs \<Longrightarrow> P a \<Longrightarrow> f x a = Inr (b, y) \<Longrightarrow> P b"
  shows "P t"
  using assms
proof (induction xs arbitrary: s ys)
  case (Cons x xs)
  from Cons.prems(1) obtain a y ys' where "f x s = Inr (a, y)" "smapM f xs a = Inr (t, ys')"
    by (auto simp: rbind_eq_Inr)
  then show ?case
    using Cons.IH [of a ys'] Cons.prems(2,3) by (metis list.set_intros(1) list.set_intros(2))
qed simp

definition idx :: "'a list \<Rightarrow> nat \<Rightarrow> 'a res" where
  "idx xs i = (if i < length xs then Inr (xs ! i) else Inl Panic)"

lemma idx_eq_Inr [res_simps]: "idx xs i = Inr x \<longleftrightarrow> i < length xs \<and> xs ! i = x"
  by (auto simp: idx_def)

lemma idx_in [simp]: "i < length xs \<Longrightarrow> idx xs i = Inr (xs ! i)"
  by (simp add: idx_def)

text \<open>\<open>ensures P m\<close>: if \<open>m\<close> succeeds, its value satisfies \<open>P\<close>. The rules follow the code of \<open>m\<close>.\<close>

definition ensures :: "('a \<Rightarrow> bool) \<Rightarrow> 'a res \<Rightarrow> bool" where
  "ensures P m \<longleftrightarrow> (\<forall>x. m = Inr x \<longrightarrow> P x)"

lemma ensures_simps [simp]: "ensures P (Inl e)" "ensures P (Inr x) \<longleftrightarrow> P x"
  by (simp_all add: ensures_def)

lemma ensures_bind: "(\<And>x. m = Inr x \<Longrightarrow> ensures P (f x)) \<Longrightarrow> ensures P (rbind m f)"
  by (auto simp: ensures_def rbind_eq_Inr)

lemma ensures_map: "(\<And>x. m = Inr x \<Longrightarrow> P (f x)) \<Longrightarrow> ensures P (rmap f m)"
  by (auto simp: ensures_def rmap_def rbind_eq_Inr)

lemma ensuresD: "ensures P m \<Longrightarrow> m = Inr x \<Longrightarrow> P x"
  by (simp add: ensures_def)

lemma ensuresI: "(\<And>x. m = Inr x \<Longrightarrow> P x) \<Longrightarrow> ensures P m"
  by (simp add: ensures_def)

definition get_at :: "'a list \<Rightarrow> nat \<Rightarrow> 'a option" where
  "get_at xs i = (if i < length xs then Some (xs ! i) else None)"

lemma get_at_Some [simp]: "get_at xs i = Some x \<longleftrightarrow> i < length xs \<and> xs ! i = x"
  by (auto simp: get_at_def)

subsection \<open>Rust's Ordering\<close>

datatype ordering = Less | Equal | Greater

fun reverse_ord :: "ordering \<Rightarrow> ordering" where
  "reverse_ord Less = Greater"
| "reverse_ord Equal = Equal"
| "reverse_ord Greater = Less"

fun then_ord :: "ordering \<Rightarrow> ordering \<Rightarrow> ordering" where
  "then_ord Equal d = d"
| "then_ord Less d = Less"
| "then_ord Greater d = Greater"

definition cmp_lin :: "'a::linorder \<Rightarrow> 'a \<Rightarrow> ordering" where
  "cmp_lin x y = (if x < y then Less else if x = y then Equal else Greater)"

lemma cmp_lin_iff [simp]:
  "cmp_lin x y = Less \<longleftrightarrow> x < y" "cmp_lin x y = Equal \<longleftrightarrow> x = y" "cmp_lin x y = Greater \<longleftrightarrow> y < x"
  by (auto simp: cmp_lin_def)

lemma cmp_lin_refl [simp]: "cmp_lin x x = Equal"
  by (simp add: cmp_lin_def)

lemma then_ord_assoc: "then_ord (then_ord a b) c = then_ord a (then_ord b c)"
  by (cases a) auto

lemma then_ord_Equal [simp]: "then_ord c Equal = c"
  by (cases c) auto

lemma then_ord_eq_Equal [simp]: "then_ord c d = Equal \<longleftrightarrow> c = Equal \<and> d = Equal"
  by (cases c) auto

lemma then_ord_eq_Less [simp]: "then_ord c d = Less \<longleftrightarrow> c = Less \<or> c = Equal \<and> d = Less"
  by (cases c) auto

lemma then_ord_eq_Greater [simp]:
  "then_ord c d = Greater \<longleftrightarrow> c = Greater \<or> c = Equal \<and> d = Greater"
  by (cases c) auto

lemma reverse_then [simp]: "reverse_ord (then_ord c d) = then_ord (reverse_ord c) (reverse_ord d)"
  by (cases c) auto

lemma reverse_cmp_lin [simp]: "reverse_ord (cmp_lin x y) = cmp_lin y x"
  by (cases x y rule: linorder_cases) (auto simp: cmp_lin_def)

lemma reverse_ord_eq [simp]:
  "reverse_ord c = Less \<longleftrightarrow> c = Greater" "reverse_ord c = Equal \<longleftrightarrow> c = Equal"
  "reverse_ord c = Greater \<longleftrightarrow> c = Less"
  by (cases c; simp)+

text \<open>The derived order of a \<open>Vec\<close>: lexicographic, a proper prefix is less.\<close>

fun lex_cmp :: "('a \<Rightarrow> 'a \<Rightarrow> ordering) \<Rightarrow> 'a list \<Rightarrow> 'a list \<Rightarrow> ordering" where
  "lex_cmp f [] [] = Equal"
| "lex_cmp f [] (y # ys) = Less"
| "lex_cmp f (x # xs) [] = Greater"
| "lex_cmp f (x # xs) (y # ys) = then_ord (f x y) (lex_cmp f xs ys)"

lemma lex_cmp_cong [fundef_cong]:
  "xs = xs' \<Longrightarrow> ys = ys' \<Longrightarrow> (\<And>x y. x \<in> set xs' \<Longrightarrow> y \<in> set ys' \<Longrightarrow> f x y = g x y) \<Longrightarrow>
   lex_cmp f xs ys = lex_cmp g xs' ys'"
proof -
  have "(\<And>x y. x \<in> set xs' \<Longrightarrow> y \<in> set ys' \<Longrightarrow> f x y = g x y) \<Longrightarrow> lex_cmp f xs' ys' = lex_cmp g xs' ys'"
    for xs' ys'
    by (induction f xs' ys' rule: lex_cmp.induct) auto
  then show "xs = xs' \<Longrightarrow> ys = ys' \<Longrightarrow> (\<And>x y. x \<in> set xs' \<Longrightarrow> y \<in> set ys' \<Longrightarrow> f x y = g x y) \<Longrightarrow>
    lex_cmp f xs ys = lex_cmp g xs' ys'"
    by blast
qed

lemma lex_cmp_eq:
  "(\<And>x y. x \<in> set xs \<Longrightarrow> f x y = Equal \<longleftrightarrow> x = y) \<Longrightarrow> lex_cmp f xs ys = Equal \<longleftrightarrow> xs = ys"
  by (induction f xs ys rule: lex_cmp.induct) auto

lemma lex_cmp_sym:
  "(\<And>x y. x \<in> set xs \<Longrightarrow> f y x = reverse_ord (f x y)) \<Longrightarrow>
   lex_cmp f ys xs = reverse_ord (lex_cmp f xs ys)"
  by (induction f xs ys rule: lex_cmp.induct) auto

lemma lex_cmp_trans:
  assumes "\<And>x y. x \<in> set xs \<Longrightarrow> f x y = Equal \<longleftrightarrow> x = y"
    and "\<And>y z. y \<in> set ys \<Longrightarrow> f y z = Equal \<longleftrightarrow> y = z"
    and "\<And>x y z. x \<in> set xs \<Longrightarrow> f x y = Less \<Longrightarrow> f y z = Less \<Longrightarrow> f x z = Less"
    and "lex_cmp f xs ys = Less" "lex_cmp f ys zs = Less"
  shows "lex_cmp f xs zs = Less"
  using assms
proof (induction xs arbitrary: ys zs)
  case Nil
  show ?case
    using Nil.prems(4,5) by (cases ys; cases zs) simp_all
next
  case (Cons x xs)
  from Cons.prems(4) obtain y ys' where ys: "ys = y # ys'" by (cases ys) auto
  with Cons.prems(5) obtain z zs' where zs: "zs = z # zs'" by (cases zs) auto
  have IH: "lex_cmp f xs ys' = Less \<Longrightarrow> lex_cmp f ys' zs' = Less \<Longrightarrow> lex_cmp f xs zs' = Less"
  proof (rule Cons.IH [of ys' zs'])
    show "f u v = Equal \<longleftrightarrow> u = v" if "u \<in> set xs" for u v
      by (rule Cons.prems(1)) (simp add: that)
    show "f u v = Equal \<longleftrightarrow> u = v" if "u \<in> set ys'" for u v
      by (rule Cons.prems(2)) (simp add: that ys)
    show "f u w = Less" if "u \<in> set xs" "f u v = Less" "f v w = Less" for u v w
      by (rule Cons.prems(3) [OF _ that(2,3)]) (simp add: that(1))
  qed
  have eq1: "f x y = Equal \<longleftrightarrow> x = y"
    by (rule Cons.prems(1)) simp
  have eq2: "f y z = Equal \<longleftrightarrow> y = z"
    by (rule Cons.prems(2)) (simp add: ys)
  have tr: "f x y = Less \<Longrightarrow> f y z = Less \<Longrightarrow> f x z = Less"
    by (rule Cons.prems(3)) simp_all
  have "f x y = Less \<or> x = y \<and> f x y = Equal \<and> lex_cmp f xs ys' = Less"
    using Cons.prems(4) eq1 unfolding ys lex_cmp.simps then_ord_eq_Less by blast
  moreover have "f y z = Less \<or> y = z \<and> f y z = Equal \<and> lex_cmp f ys' zs' = Less"
    using Cons.prems(5) eq2 unfolding ys zs lex_cmp.simps then_ord_eq_Less by blast
  ultimately show ?case
    using IH tr unfolding zs lex_cmp.simps then_ord_eq_Less by blast
qed

text \<open>
  The contract of Rust's \<open>Ord\<close> trait, for a comparison that agrees with equality. The
  comparisons of keys, values and recipe arguments below are instances.
\<close>

locale ord_contract =
  fixes cmp :: "'a \<Rightarrow> 'a \<Rightarrow> ordering"
  assumes cmp_eq: "cmp x y = Equal \<longleftrightarrow> x = y"
    and cmp_sym: "cmp y x = reverse_ord (cmp x y)"
    and cmp_trans: "cmp x y = Less \<Longrightarrow> cmp y z = Less \<Longrightarrow> cmp x z = Less"
begin

lemma cmp_refl [simp]: "cmp x x = Equal"
  by (simp add: cmp_eq)

lemma cmp_cases: "cmp x y = Less \<or> x = y \<or> cmp y x = Less"
  using cmp_sym [of y x] cmp_eq [of x y] by (cases "cmp x y") auto

lemma cmp_Greater: "cmp x y = Greater \<longleftrightarrow> cmp y x = Less"
  using cmp_sym [of x y] by auto

lemma le_trans: "cmp x y \<noteq> Greater \<Longrightarrow> cmp y z \<noteq> Greater \<Longrightarrow> cmp x z \<noteq> Greater"
  by (metis cmp_cases cmp_trans cmp_Greater)

lemma le_antisym: "cmp x y \<noteq> Greater \<Longrightarrow> cmp y x \<noteq> Greater \<Longrightarrow> x = y"
  by (metis cmp_cases cmp_Greater)

lemma le_linear: "cmp x y \<noteq> Greater \<or> cmp y x \<noteq> Greater"
  using cmp_trans [of x y x] cmp_refl [of x] by (auto simp: cmp_Greater)

lemma less_le: "cmp x y = Less \<longleftrightarrow> cmp x y \<noteq> Greater \<and> \<not> cmp y x \<noteq> Greater"
  using cmp_trans [of x y x] cmp_refl [of x] by (auto simp: cmp_Greater)

lemma lex_contract: "ord_contract (lex_cmp cmp)"
proof
  show "lex_cmp cmp x y = Equal \<longleftrightarrow> x = y" for x y
    by (rule lex_cmp_eq) (rule cmp_eq)
  show "lex_cmp cmp y x = reverse_ord (lex_cmp cmp x y)" for x y
    by (rule lex_cmp_sym) (rule cmp_sym)
  show "lex_cmp cmp x y = Less \<Longrightarrow> lex_cmp cmp y z = Less \<Longrightarrow> lex_cmp cmp x z = Less" for x y z
    by (rule lex_cmp_trans [of _ _ y]) (auto simp: cmp_eq intro: cmp_trans)
qed

end

interpretation lin: ord_contract cmp_lin
  by unfold_locales auto

end
