(* ===== verification/Json.thy ===== *)
theory Json
  imports Prelude
begin

text \<open>
  The document type the runtime reads its artifact from (\<open>serde_json::Value\<close>, written \<open>J\<close> in the
  code). Only its public shape and the accessors the code calls are used: indexing by a field name
  or position gives \<open>JNull\<close> when absent, and the \<open>as_\<close> accessors return \<open>None\<close> on another shape.
  Integer numbers are \<open>JNum\<close>; any other number is kept as its text in \<open>JFloat\<close>. Parsing of text is
  not modelled. The field list of an object is in the key order of the map that holds it.
\<close>

datatype json = JNull | JBool bool | JNum int | JFloat string | JStr string | JArr "json list"
  | JObj "(string \<times> json) list"

fun jget :: "json \<Rightarrow> string \<Rightarrow> json option" where
  "jget (JObj kvs) k = map_of kvs k"
| "jget _ k = None"

definition jfield :: "json \<Rightarrow> string \<Rightarrow> json" where
  "jfield j k = (case jget j k of None \<Rightarrow> JNull | Some v \<Rightarrow> v)"

fun jat :: "json \<Rightarrow> nat \<Rightarrow> json" where
  "jat (JArr xs) i = (if i < length xs then xs ! i else JNull)"
| "jat _ i = JNull"

fun as_str :: "json \<Rightarrow> string option" where
  "as_str (JStr s) = Some s"
| "as_str _ = None"

fun as_array :: "json \<Rightarrow> json list option" where
  "as_array (JArr xs) = Some xs"
| "as_array _ = None"

fun as_bool :: "json \<Rightarrow> bool option" where
  "as_bool (JBool b) = Some b"
| "as_bool _ = None"

fun as_u64 :: "json \<Rightarrow> nat option" where
  "as_u64 (JNum n) = (if 0 \<le> n \<and> n < 2 ^ 64 then Some (nat n) else None)"
| "as_u64 _ = None"

fun as_i64 :: "json \<Rightarrow> int option" where
  "as_i64 (JNum n) = (if - (2 ^ 63) \<le> n \<and> n < 2 ^ 63 then Some n else None)"
| "as_i64 _ = None"

lemma as_str_Some [simp]: "as_str j = Some s \<longleftrightarrow> j = JStr s"
  by (cases j) auto

lemma as_array_Some [simp]: "as_array j = Some xs \<longleftrightarrow> j = JArr xs"
  by (cases j) auto

lemma as_u64_Some: "as_u64 j = Some n \<longleftrightarrow> j = JNum (int n) \<and> int n < 2 ^ 64"
  by (cases j) auto

text \<open>The size of a document bounds the recursion of every walk over it.\<close>

lemma size_map_of: "map_of kvs k = Some v \<Longrightarrow> size v < size_list (size_prod (\<lambda>_. 0) size) kvs"
  by (induction kvs) (auto split: if_splits)

lemma size_jget: "jget j k = Some v \<Longrightarrow> size v < size j"
  by (cases j) (auto dest!: size_map_of)

lemma size_jfield_le: "size (jfield j k) \<le> size j"
proof (cases "jget j k")
  case (Some v)
  then show ?thesis using size_jget [OF Some] by (simp add: jfield_def)
qed (simp add: jfield_def)

lemma size_arr_mem: "x \<in> set xs \<Longrightarrow> size x < size (JArr xs)"
  by (auto dest: size_list_estimation' [where f = size, OF _ order_refl])

lemma size_jfield_arr: "jfield j k = JArr xs \<Longrightarrow> x \<in> set xs \<Longrightarrow> size x < size j"
  using size_arr_mem [of x xs] size_jfield_le [of j k] by simp

lemma size_jfield_array: "as_array (jfield j k) = Some xs \<Longrightarrow> x \<in> set xs \<Longrightarrow> size x < size j"
  by (auto dest: size_jfield_arr)

text \<open>\<open>array\<close> and \<open>string\<close> of \<open>program.rs\<close>.\<close>

definition j_array :: "json \<Rightarrow> json list res" where
  "j_array j = ok_or (as_array j) (Err ''expected array'')"

definition j_string :: "json \<Rightarrow> string res" where
  "j_string j = ok_or (as_str j) (Err ''expected string'')"

lemma j_array_Inr [res_simps]: "j_array j = Inr xs \<longleftrightarrow> j = JArr xs"
  by (simp add: j_array_def res_simps)

lemma j_string_Inr [res_simps]: "j_string j = Inr s \<longleftrightarrow> j = JStr s"
  by (simp add: j_string_def res_simps)

end
