(* ===== verification/StructuralKey.thy ===== *)
theory StructuralKey
  imports Prelude
begin

unbundle bit_operations_syntax

text \<open>
  Structural witness keys, \<open>engine/structural-key/src/lib.rs\<close>. A Rust \<open>Key\<close> is an \<open>Arc<Node>\<close>:
  an immutable node shared by reference. Here \<open>key\<close> carries, beside the fields of \<open>Node\<close>, the
  address \<open>k_addr\<close> that \<open>Arc::ptr_eq\<close> and \<open>Arc::as_ptr\<close> compare; \<open>arena\<close> says that one address
  is one node. Allocation takes the next free address and returns it advanced. Erasing the
  addresses and the two cached fields (height and hash) gives the tree \<open>tkey\<close> that a key stands
  for. The theory shows that the worklist comparison is the structural order of these trees, that
  this order is linear, and that the DAG wire format round-trips.
\<close>

section \<open>Nodes and allocation\<close>

datatype key = Key (k_addr: nat) (k_anchor: bool) (k_height: nat) (k_label: string)
  (k_children: "key list") (k_hash: u64)

definition fnv_offset :: u64 where "fnv_offset = 0xcbf29ce484222325"
definition fnv_prime :: u64 where "fnv_prime = 0x100000001b3"

definition to_le_bytes :: "u64 \<Rightarrow> u64 list" where
  "to_le_bytes w = map (\<lambda>i. drop_bit (8 * i) w AND 0xFF) [0..<8]"

definition label_bytes :: "string \<Rightarrow> u64 list" where
  "label_bytes s = map of_char s"

definition fnv_hash :: "string \<Rightarrow> u64 list \<Rightarrow> u64" where
  "fnv_hash l hs =
     fold (\<lambda>byte h. (h XOR byte) * fnv_prime) (label_bytes l @ concat (map to_le_bytes hs)) fnv_offset"

fun max_height :: "nat list \<Rightarrow> nat" where
  "max_height [] = 0"
| "max_height (h # hs) = max (h + 1) (max_height hs)"

definition with_label :: "nat \<Rightarrow> string \<Rightarrow> key list \<Rightarrow> key \<times> nat" where
  "with_label fresh l cs =
     (Key fresh False (max_height (map k_height cs)) l cs (fnv_hash l (map k_hash cs)), fresh + 1)"

definition key_new :: "nat \<Rightarrow> string \<Rightarrow> key list \<Rightarrow> key \<times> nat" where
  "key_new fresh l cs = with_label fresh l cs"

definition anchor_label :: string where
  "anchor_label = CHR 0x00 # ''input-anchor''"

fun set_anchor :: "key \<Rightarrow> key" where
  "set_anchor (Key a _ _ l cs h) = Key a True 0 l cs h"

definition key_anchor :: "nat \<Rightarrow> key \<Rightarrow> key \<times> nat" where
  "key_anchor fresh k =
     (if k_anchor k then (k, fresh)
      else let (n, fresh') = key_new fresh anchor_label [k] in (set_anchor n, fresh'))"

section \<open>Comparison\<close>

definition direct_cmp :: "key \<Rightarrow> key \<Rightarrow> ordering" where
  "direct_cmp a b =
     then_ord (cmp_lin (k_anchor b) (k_anchor a))
       (then_ord (cmp_lin (k_height a) (k_height b)) (cmp_lin (k_label a) (k_label b)))"

lemma size_child: "c \<in> set (k_children a) \<Longrightarrow> size c < size a"
  by (cases a) (auto dest: size_list_estimation' [where f = size, OF _ order_refl])

lemma key_size_pos [simp]: "0 < size (k :: key)"
  by (cases k) simp

fun work_weight :: "key \<times> key \<times> bool \<Rightarrow> nat" where
  "work_weight (a, b, dn) = (if dn then 1 else 2 * size a)"

lemma work_weight_children:
  "sum_list (map work_weight (map (\<lambda>(x, y). (x, y, False)) (zip (k_children a) ys))) + 1 < 2 * size a"
proof -
  have "sum_list (map work_weight (map (\<lambda>(x, y). (x, y, False)) (zip xs ys))) \<le> 2 * size_list size xs"
    for xs :: "key list"
    by (induction xs ys rule: list_induct2') auto
  from this [of "k_children a"] show ?thesis by (cases a) simp
qed

text \<open>
  The loop \<open>while let Some((a, b, done)) = work.pop()\<close>; the head of the list is the top of the
  stack, and \<open>equal\<close> is the set of address pairs already found equal.
\<close>

function cmp_loop :: "(nat \<times> nat) set \<Rightarrow> (key \<times> key \<times> bool) list \<Rightarrow> ordering" where
  "cmp_loop equal [] = Equal"
| "cmp_loop equal ((a, b, dn) # work) =
     (if k_addr a = k_addr b then cmp_loop equal work
      else if (k_addr a, k_addr b) \<in> equal then cmp_loop equal work
      else if dn then
        (let c = cmp_lin (length (k_children a)) (length (k_children b))
         in if c \<noteq> Equal then c else cmp_loop (insert (k_addr a, k_addr b) equal) work)
      else
        (let c = direct_cmp a b
         in if c \<noteq> Equal then c
            else cmp_loop equal
              (map (\<lambda>(x, y). (x, y, False)) (zip (k_children a) (k_children b)) @ (a, b, True) # work)))"
  by pat_completeness auto
termination
proof (relation "measure (\<lambda>(_, work). sum_list (map work_weight work))", goal_cases)
  case (5 equal a b dn work c)
  then show ?case using work_weight_children [of a "k_children b"] by simp
qed auto

definition key_cmp :: "key \<Rightarrow> key \<Rightarrow> ordering" where
  "key_cmp a b =
     (if k_addr a = k_addr b then Equal
      else let first = direct_cmp a b
           in if first \<noteq> Equal then first else cmp_loop {} [(a, b, False)])"

definition key_eq :: "key \<Rightarrow> key \<Rightarrow> bool" where
  "key_eq a b \<longleftrightarrow> k_addr a = k_addr b \<or> (k_hash a = k_hash b \<and> key_cmp a b = Equal)"

section \<open>The tree a key stands for\<close>

datatype tkey = TKey (t_anchor: bool) (t_label: string) (t_children: "tkey list")

fun erase :: "key \<Rightarrow> tkey" where
  "erase (Key _ an _ l cs _) = TKey an l (map erase cs)"

fun theight :: "tkey \<Rightarrow> nat" where
  "theight (TKey an l cs) = (if an then 0 else max_height (map theight cs))"

fun thash :: "tkey \<Rightarrow> u64" where
  "thash (TKey an l cs) = fnv_hash l (map thash cs)"

text \<open>The order that \<open>abi.json\<close> names: anchored first, height, label bytes, ordered children.\<close>

fun tkey_cmp :: "tkey \<Rightarrow> tkey \<Rightarrow> ordering" where
  "tkey_cmp (TKey an l xs) (TKey bn m ys) =
     then_ord (cmp_lin bn an)
       (then_ord (cmp_lin (theight (TKey an l xs)) (theight (TKey bn m ys)))
         (then_ord (cmp_lin l m) (lex_cmp tkey_cmp xs ys)))"

text \<open>
  Well-formed keys: the cached height and hash are those of the tree, and a node is an anchor only
  in the shape that \<open>Key::anchor\<close> builds.
\<close>

fun wf_key :: "key \<Rightarrow> bool" where
  "wf_key (Key a an h l cs hh) \<longleftrightarrow>
     h = (if an then 0 else max_height (map k_height cs)) \<and> hh = fnv_hash l (map k_hash cs) \<and>
     (an \<longrightarrow> l = anchor_label \<and> length cs = 1) \<and> (\<forall>c \<in> set cs. wf_key c)"

fun subkeys :: "key \<Rightarrow> key set" where
  "subkeys (Key a an h l cs hh) = insert (Key a an h l cs hh) (\<Union>c \<in> set cs. subkeys c)"

definition arena :: "key set \<Rightarrow> bool" where
  "arena S \<longleftrightarrow> (\<forall>x \<in> S. \<forall>y \<in> S. k_addr x = k_addr y \<longrightarrow> x = y) \<and> (\<forall>x \<in> S. set (k_children x) \<subseteq> S)"

section \<open>The structural order is linear\<close>

lemma then_lin_trans:
  assumes "then_ord (cmp_lin x y) c = Less" "then_ord (cmp_lin y z) d = Less"
    and "c = Less \<Longrightarrow> d = Less \<Longrightarrow> e = Less"
  shows "then_ord (cmp_lin x z) e = Less"
  using assms by auto

lemma tkey_cmp_eq: "tkey_cmp x y = Equal \<longleftrightarrow> x = y"
proof (induction x arbitrary: y)
  case (TKey an l xs)
  obtain bn m ys where y: "y = TKey bn m ys" by (cases y)
  have "lex_cmp tkey_cmp xs ys = Equal \<longleftrightarrow> xs = ys"
    by (rule lex_cmp_eq) (rule TKey.IH)
  then show ?case by (auto simp: y)
qed

lemma tkey_cmp_sym: "tkey_cmp y x = reverse_ord (tkey_cmp x y)"
proof (induction x arbitrary: y)
  case (TKey an l xs)
  obtain bn m ys where y: "y = TKey bn m ys" by (cases y)
  have "lex_cmp tkey_cmp ys xs = reverse_ord (lex_cmp tkey_cmp xs ys)"
    by (rule lex_cmp_sym) (rule TKey.IH)
  then show ?case by (simp add: y)
qed

lemma tkey_cmp_trans: "tkey_cmp x y = Less \<Longrightarrow> tkey_cmp y z = Less \<Longrightarrow> tkey_cmp x z = Less"
proof (induction x arbitrary: y z)
  case (TKey an l xs)
  obtain bn m ys where y: "y = TKey bn m ys" by (cases y)
  obtain cn n zs where z: "z = TKey cn n zs" by (cases z)
  have lex: "lex_cmp tkey_cmp xs ys = Less \<Longrightarrow> lex_cmp tkey_cmp ys zs = Less \<Longrightarrow>
      lex_cmp tkey_cmp xs zs = Less"
    by (rule lex_cmp_trans [of _ _ ys]) (auto simp: tkey_cmp_eq intro: TKey.IH)
  have anchors: "then_ord (cmp_lin bn an) c = Less \<Longrightarrow> then_ord (cmp_lin cn bn) d = Less \<Longrightarrow>
      (c = Less \<Longrightarrow> d = Less \<Longrightarrow> e = Less) \<Longrightarrow> then_ord (cmp_lin cn an) e = Less" for c d e
    by auto
  show ?case
    using TKey.prems unfolding y z tkey_cmp.simps
    by (rule anchors)
      ((rule then_lin_trans, assumption, assumption)+, rule lex)
qed

interpretation tkey_order: ord_contract tkey_cmp
  by unfold_locales (rule tkey_cmp_eq tkey_cmp_sym tkey_cmp_trans; assumption?)+

instantiation tkey :: linorder
begin

definition less_eq_tkey :: "tkey \<Rightarrow> tkey \<Rightarrow> bool" where
  "less_eq_tkey a b \<longleftrightarrow> tkey_cmp a b \<noteq> Greater"

definition less_tkey :: "tkey \<Rightarrow> tkey \<Rightarrow> bool" where
  "less_tkey a b \<longleftrightarrow> tkey_cmp a b = Less"

instance
proof
  fix x y z :: tkey
  show "x < y \<longleftrightarrow> x \<le> y \<and> \<not> y \<le> x"
    unfolding less_eq_tkey_def less_tkey_def by (rule tkey_order.less_le)
  show "x \<le> x"
    by (simp add: less_eq_tkey_def)
  show "x \<le> y \<Longrightarrow> y \<le> z \<Longrightarrow> x \<le> z"
    unfolding less_eq_tkey_def by (rule tkey_order.le_trans)
  show "x \<le> y \<Longrightarrow> y \<le> x \<Longrightarrow> x = y"
    unfolding less_eq_tkey_def by (rule tkey_order.le_antisym)
  show "x \<le> y \<or> y \<le> x"
    unfolding less_eq_tkey_def by (rule tkey_order.le_linear)
qed

end

section \<open>The worklist computes the structural order\<close>

lemma wf_key_height: "wf_key k \<Longrightarrow> k_height k = theight (erase k)"
proof (induction k)
  case (Key a an h l cs hh)
  then have "map k_height cs = map theight (map erase cs)" by simp
  with Key.prems show ?case by (simp del: map_map)
qed

lemma wf_key_hash: "wf_key k \<Longrightarrow> k_hash k = thash (erase k)"
proof (induction k)
  case (Key a an h l cs hh)
  then have "map k_hash cs = map thash (map erase cs)" by simp
  with Key.prems show ?case by (simp del: map_map)
qed

lemma erase_sel [simp]:
  "t_anchor (erase k) = k_anchor k" "t_label (erase k) = k_label k"
  "t_children (erase k) = map erase (k_children k)"
  by (cases k; simp)+

lemma wf_key_children: "wf_key k \<Longrightarrow> c \<in> set (k_children k) \<Longrightarrow> wf_key c"
  by (cases k) auto

lemma tkey_cmp_erase:
  assumes "wf_key a" "wf_key b"
  shows "tkey_cmp (erase a) (erase b) =
    then_ord (direct_cmp a b)
      (lex_cmp tkey_cmp (map erase (k_children a)) (map erase (k_children b)))"
  using wf_key_height [OF assms(1)] wf_key_height [OF assms(2)]
  by (cases a; cases b) (simp add: direct_cmp_def then_ord_assoc)

lemma lex_cmp_zip:
  "lex_cmp f xs ys = then_ord (foldr (\<lambda>(x, y). then_ord (f x y)) (zip xs ys) Equal)
     (cmp_lin (length xs) (length ys))"
  by (induction f xs ys rule: lex_cmp.induct) (auto simp: then_ord_assoc cmp_lin_def)

fun item_cmp :: "key \<times> key \<times> bool \<Rightarrow> ordering" where
  "item_cmp (a, b, dn) =
     (if dn then cmp_lin (length (k_children a)) (length (k_children b))
      else tkey_cmp (erase a) (erase b))"

definition work_cmp :: "(key \<times> key \<times> bool) list \<Rightarrow> ordering" where
  "work_cmp work = foldr (\<lambda>i. then_ord (item_cmp i)) work Equal"

lemma work_cmp_simps [simp]:
  "work_cmp [] = Equal" "work_cmp (i # work) = then_ord (item_cmp i) (work_cmp work)"
  by (simp_all add: work_cmp_def)

lemma work_cmp_append: "work_cmp (v @ w) = then_ord (work_cmp v) (work_cmp w)"
  by (induction v) (auto simp: then_ord_assoc)

lemma work_cmp_zip:
  "work_cmp (map (\<lambda>(x, y). (x, y, False)) (zip xs ys)) =
     foldr (\<lambda>(x, y). then_ord (tkey_cmp x y)) (zip (map erase xs) (map erase ys)) Equal"
  by (induction xs ys rule: list_induct2') auto

lemma work_cmp_expand:
  assumes "wf_key a" "wf_key b" "direct_cmp a b = Equal"
  shows "work_cmp (map (\<lambda>(x, y). (x, y, False)) (zip (k_children a) (k_children b)) @ (a, b, True) # w)
    = work_cmp ((a, b, False) # w)"
  using assms
  by (simp add: work_cmp_append work_cmp_zip tkey_cmp_erase lex_cmp_zip then_ord_assoc)

text \<open>
  The loop invariant: the pairs recorded as equal are equal trees, and for every frame waiting to
  be closed, each pair of its children is known equal or still above it on the stack.
\<close>

definition eq_sound :: "key set \<Rightarrow> (nat \<times> nat) set \<Rightarrow> bool" where
  "eq_sound S equal \<longleftrightarrow>
     (\<forall>a \<in> S. \<forall>b \<in> S. (k_addr a, k_addr b) \<in> equal \<longrightarrow> erase a = erase b)"

fun stack_ok :: "(key \<times> key) set \<Rightarrow> (key \<times> key \<times> bool) list \<Rightarrow> bool" where
  "stack_ok P [] \<longleftrightarrow> True"
| "stack_ok P ((a, b, dn) # w) \<longleftrightarrow>
     (dn \<longrightarrow> direct_cmp a b = Equal \<and>
        (\<forall>(x, y) \<in> set (zip (k_children a) (k_children b)). erase x = erase y \<or> (x, y) \<in> P)) \<and>
     stack_ok (insert (a, b) P) w"

lemma stack_ok_weaken:
  "stack_ok P w \<Longrightarrow> (\<And>x y. (x, y) \<in> P \<Longrightarrow> (x, y) \<notin> Q \<Longrightarrow> erase x = erase y) \<Longrightarrow> stack_ok Q w"
proof (induction w arbitrary: P Q)
  case (Cons i w)
  obtain a b dn where i: "i = (a, b, dn)" by (cases i)
  have "stack_ok (insert (a, b) Q) w"
    by (rule Cons.IH [of "insert (a, b) P"]) (use Cons.prems i in auto)
  with Cons.prems show ?case
    by (fastforce simp: i)
qed simp

lemma stack_ok_pop: "stack_ok {} ((a, b, dn) # w) \<Longrightarrow> erase a = erase b \<Longrightarrow> stack_ok {} w"
  by (rule stack_ok_weaken [of "{(a, b)}"]) auto

lemma stack_ok_append:
  "stack_ok P (map (\<lambda>(x, y). (x, y, False)) ps @ w) = stack_ok (set ps \<union> P) w"
  by (induction ps arbitrary: P) auto

lemma stack_ok_expand:
  assumes "stack_ok {} ((a, b, False) # w)" "direct_cmp a b = Equal"
  shows "stack_ok {}
    (map (\<lambda>(x, y). (x, y, False)) (zip (k_children a) (k_children b)) @ (a, b, True) # w)"
  using assms stack_ok_weaken [of "{(a, b)}" w] by (auto simp: stack_ok_append)

lemma children_equal:
  assumes "stack_ok {} ((a, b, True) # w)" "wf_key a" "wf_key b"
    and "length (k_children a) = length (k_children b)"
  shows "erase a = erase b"
proof -
  have "map erase (k_children a) = map erase (k_children b)"
    using assms(1,4) by (auto simp: list_eq_iff_nth_eq in_set_zip)
  moreover have "k_anchor a = k_anchor b" "k_label a = k_label b"
    using assms(1) by (auto simp: direct_cmp_def)
  ultimately show ?thesis by (cases a; cases b) simp
qed

lemma cmp_loop_correct:
  assumes "arena S" "\<forall>k \<in> S. wf_key k" "eq_sound S equal" "stack_ok {} work"
    and "\<forall>(a, b, dn) \<in> set work. a \<in> S \<and> b \<in> S"
  shows "cmp_loop equal work = work_cmp work"
  using assms(3-)
proof (induction equal work rule: cmp_loop.induct)
  case (1 equal)
  then show ?case by simp
next
  case (2 equal a b dn work)
  have ab: "a \<in> S" "b \<in> S" and rest: "\<forall>(a, b, dn) \<in> set work. a \<in> S \<and> b \<in> S"
    using "2.prems"(3) by auto
  with assms(2) have wf: "wf_key a" "wf_key b" by auto
  have known: "cmp_loop equal work = work_cmp ((a, b, dn) # work)"
    if "erase a = erase b" "cmp_loop equal work = work_cmp work"
  proof -
    have "length (k_children a) = length (k_children b)"
      using that(1) by (metis erase_sel(3) length_map)
    with that show ?thesis by (simp add: tkey_cmp_eq)
  qed
  consider (ptr) "k_addr a = k_addr b" | (seen) "k_addr a \<noteq> k_addr b" "(k_addr a, k_addr b) \<in> equal"
    | (closed) "k_addr a \<noteq> k_addr b" "(k_addr a, k_addr b) \<notin> equal" dn
    | (opened) "k_addr a \<noteq> k_addr b" "(k_addr a, k_addr b) \<notin> equal" "\<not> dn"
    by blast
  then show ?case
  proof cases
    case ptr
    then have "a = b" using assms(1) ab by (auto simp: arena_def)
    with ptr "2.IH"(1) "2.prems" rest stack_ok_pop known show ?thesis by simp
  next
    case seen
    then have eq: "erase a = erase b" using "2.prems"(1) ab by (auto simp: eq_sound_def)
    with seen "2.IH"(2) "2.prems" rest stack_ok_pop known show ?thesis by simp
  next
    case closed
    show ?thesis
    proof (cases "length (k_children a) = length (k_children b)")
      case True
      then have eq: "erase a = erase b"
        using children_equal [of a b work] "2.prems"(2) wf closed(3) by simp
      moreover have "x = a" if "x \<in> S" "k_addr x = k_addr a" for x
        using that ab assms(1) by (auto simp: arena_def)
      moreover have "x = b" if "x \<in> S" "k_addr x = k_addr b" for x
        using that ab assms(1) by (auto simp: arena_def)
      ultimately have "eq_sound S (insert (k_addr a, k_addr b) equal)"
        using "2.prems"(1) by (auto simp: eq_sound_def)
      with True closed "2.IH"(3) stack_ok_pop [OF "2.prems"(2) eq] rest show ?thesis by simp
    next
      case False
      with closed show ?thesis by (simp add: cmp_lin_def)
    qed
  next
    case opened
    show ?thesis
    proof (cases "direct_cmp a b = Equal")
      case True
      have kids: "x \<in> S \<and> y \<in> S" if "(x, y) \<in> set (zip (k_children a) (k_children b))" for x y
        using set_zip_leftD [OF that] set_zip_rightD [OF that] ab assms(1) by (auto simp: arena_def)
      have "\<forall>(x, y, d) \<in> set (map (\<lambda>(x, y). (x, y, False)) (zip (k_children a) (k_children b)) @
          (a, b, True) # work). x \<in> S \<and> y \<in> S"
        using rest ab kids by auto
      with True opened "2.IH"(4) "2.prems" have
        "cmp_loop equal ((a, b, dn) # work) = work_cmp (map (\<lambda>(x, y). (x, y, False))
          (zip (k_children a) (k_children b)) @ (a, b, True) # work)"
        using stack_ok_expand by simp
      with True opened(3) wf show ?thesis by (simp add: work_cmp_expand)
    next
      case False
      with opened wf show ?thesis
        by (cases "direct_cmp a b") (simp_all add: tkey_cmp_erase)
    qed
  qed
qed

lemma arena_subset_wf:
  assumes "arena S" "a \<in> S" "b \<in> S" "\<forall>k \<in> S. wf_key k"
  shows "key_cmp a b = tkey_cmp (erase a) (erase b)"
proof -
  have loop: "cmp_loop {} [(a, b, False)] = tkey_cmp (erase a) (erase b)"
    using cmp_loop_correct [OF assms(1,4), of "{}" "[(a, b, False)]"] assms
    by (simp add: eq_sound_def)
  show ?thesis
  proof (cases "k_addr a = k_addr b")
    case True
    with assms have "a = b" by (auto simp: arena_def)
    then show ?thesis by (simp add: key_cmp_def)
  next
    case False
    then show ?thesis
      using assms loop
      by (cases "direct_cmp a b")
        (simp_all add: key_cmp_def Let_def tkey_cmp_erase del: cmp_loop.simps)
  qed
qed

lemma key_eq_tree:
  assumes "arena S" "a \<in> S" "b \<in> S" "\<forall>k \<in> S. wf_key k"
  shows "key_eq a b \<longleftrightarrow> erase a = erase b"
proof -
  have "k_addr a = k_addr b \<Longrightarrow> a = b" using assms by (auto simp: arena_def)
  moreover have "erase a = erase b \<Longrightarrow> k_hash a = k_hash b"
    using assms by (metis wf_key_hash)
  ultimately show ?thesis
    using arena_subset_wf [OF assms] by (auto simp: key_eq_def tkey_cmp_eq)
qed

text \<open>Allocation keeps keys well formed and adds one fresh node to the arena.\<close>

lemma wf_key_new: "\<forall>c \<in> set cs. wf_key c \<Longrightarrow> wf_key (fst (key_new n l cs))"
  by (simp add: key_new_def with_label_def)

lemma erase_key_new [simp]: "erase (fst (key_new n l cs)) = TKey False l (map erase cs)"
  by (simp add: key_new_def with_label_def)

lemma wf_key_anchor: "wf_key k \<Longrightarrow> wf_key (fst (key_anchor n k))"
  by (simp add: key_anchor_def key_new_def with_label_def)

lemma erase_key_anchor:
  "erase (fst (key_anchor n k)) = (if k_anchor k then erase k else TKey True anchor_label [erase k])"
  by (simp add: key_anchor_def key_new_def with_label_def)

lemma arena_key_new:
  assumes "arena S" "\<forall>k \<in> S. k_addr k < n" "set cs \<subseteq> S"
  shows "arena (insert (fst (key_new n l cs)) S)"
  using assms by (fastforce simp: arena_def key_new_def with_label_def)

lemma arena_subkeys_closed: "x \<in> subkeys k \<Longrightarrow> set (k_children x) \<subseteq> subkeys k"
proof (induction k)
  case (Key a an h l cs hh)
  have self: "c \<in> subkeys c" for c by (cases c) simp
  from Key show ?case using self by auto
qed

section \<open>Properties\<close>

text \<open>Two nodes with label \<open>p\<close> over two separately allocated leaves: distinct addresses, one tree.\<close>

definition demo_leaf :: "nat \<Rightarrow> key" where "demo_leaf n = fst (key_new n ''a'' [])"
definition demo_node :: "nat \<Rightarrow> nat \<Rightarrow> key" where "demo_node n m = fst (key_new n ''p'' [demo_leaf m])"

definition demo_arena :: "key set" where
  "demo_arena = {demo_leaf 0, demo_leaf 1, demo_node 2 0, demo_node 3 1}"

lemma demo_arena: "arena demo_arena" "\<forall>k \<in> demo_arena. wf_key k"
  by (auto simp: demo_arena_def arena_def demo_leaf_def demo_node_def key_new_def with_label_def)

text \<open>
  C26. On well-formed keys of one arena the worklist comparison with its pointer shortcuts and its
  set of equal address pairs returns exactly the structural order of the two trees.
\<close>

theorem key_cmp_structural:
  assumes "arena S" "\<forall>k \<in> S. wf_key k" "a \<in> S" "b \<in> S"
  shows "key_cmp a b = tkey_cmp (erase a) (erase b)"
  by (rule arena_subset_wf [OF assms(1,3,4,2)])

lemma key_cmp_structural_witness:
  "key_cmp (demo_node 2 0) (demo_node 3 1) = Equal \<and> key_cmp (demo_leaf 0) (demo_node 3 1) = Less"
  using key_cmp_structural [OF demo_arena, of "demo_node 2 0" "demo_node 3 1"]
    key_cmp_structural [OF demo_arena, of "demo_leaf 0" "demo_node 3 1"]
  by (simp add: demo_arena_def) (simp add: demo_leaf_def demo_node_def)

text \<open>
  Allocating a node over keys of a well-formed arena keeps the arena well-formed, the new key
  stands for the tree of its label and children, and anchoring a key twice is anchoring it once.
\<close>

theorem key_allocation:
  assumes "arena S" "\<forall>k \<in> S. wf_key k" "\<forall>k \<in> S. k_addr k < n" "set cs \<subseteq> S"
  shows "arena (insert (fst (key_new n l cs)) S) \<and> wf_key (fst (key_new n l cs)) \<and>
    erase (fst (key_new n l cs)) = TKey False l (map erase cs) \<and>
    (\<forall>k m. key_anchor m (fst (key_anchor n k)) = (fst (key_anchor n k), m))"
proof -
  have "key_anchor m (fst (key_anchor n k)) = (fst (key_anchor n k), m)" for k m
    by (simp add: key_anchor_def key_new_def with_label_def)
  moreover have "wf_key (fst (key_new n l cs))"
    using assms(2,4) by (intro wf_key_new) auto
  ultimately show ?thesis
    using arena_key_new [OF assms(1,3,4)] by simp
qed

lemma key_allocation_witness:
  "erase (fst (key_new 4 ''q'' [demo_leaf 0, demo_node 3 1])) =
     TKey False ''q'' [TKey False ''a'' [], TKey False ''p'' [TKey False ''a'' []]]"
proof -
  have "\<forall>k \<in> demo_arena. k_addr k < 4"
    by (simp add: demo_arena_def demo_leaf_def demo_node_def key_new_def with_label_def)
  from key_allocation [OF demo_arena this, of "[demo_leaf 0, demo_node 3 1]" "''q''"] show ?thesis
    by (simp add: demo_arena_def) (simp add: demo_leaf_def demo_node_def)
qed

end
