(* ===== verification/KeyWire.thy ===== *)
theory KeyWire
  imports StructuralKey
begin

text \<open>
  The wire form of structural keys (\<open>to_wire\<close>, \<open>from_wire\<close>): a list of nodes in dependency order,
  each naming its children by position. Writing shares equal nodes through a table of signatures;
  reading rejects forward references and malformed anchors. The lemmas show that writing never
  fails, that the result holds each distinct subtree exactly once, and that reading it back gives
  a key of the same tree.
\<close>

record wire_node =
  w_anchor :: bool
  w_label :: string
  w_children :: "nat list"

record wire_key =
  w_nodes :: "wire_node list"
  w_root :: nat

type_synonym wire_sig = "bool \<times> string \<times> nat list"

record wire_state =
  ws_ids :: "nat \<rightharpoonup> nat"
  ws_nodes :: "wire_node list"
  ws_shared :: "wire_sig \<rightharpoonup> nat"

definition sig_node :: "wire_sig \<Rightarrow> wire_node" where
  "sig_node sg = \<lparr>w_anchor = fst sg, w_label = fst (snd sg), w_children = snd (snd sg)\<rparr>"

text \<open>\<open>shared.entry(signature).or_insert_with(...)\<close> followed by \<open>ids.insert(ptr, at)\<close>.\<close>

definition wire_share :: "wire_state \<Rightarrow> nat \<Rightarrow> wire_sig \<Rightarrow> wire_state" where
  "wire_share st ptr sg =
     (case ws_shared st sg of
        Some at \<Rightarrow> st\<lparr>ws_ids := (ws_ids st)(ptr \<mapsto> at)\<rparr>
      | None \<Rightarrow>
          (let i = length (ws_nodes st)
           in st\<lparr>ws_nodes := ws_nodes st @ [sig_node sg], ws_shared := (ws_shared st)(sg \<mapsto> i),
                 ws_ids := (ws_ids st)(ptr \<mapsto> i)\<rparr>))"

lemma size_children: "size_list size (k_children k) < size k"
  by (cases k) simp

fun wire_weight :: "key \<times> bool \<Rightarrow> nat" where
  "wire_weight (k, ready) = (if ready then 1 else 2 * size k)"

lemma wire_weight_children:
  "sum_list (map wire_weight (map (\<lambda>c. (c, False)) (k_children k))) + 1 < 2 * size k"
proof -
  have "sum_list (map wire_weight (map (\<lambda>c. (c, False)) cs)) \<le> 2 * size_list size cs" for cs
    by (induction cs) auto
  from this [of "k_children k"] show ?thesis using size_children [of k] by linarith
qed

function wire_loop :: "wire_state \<Rightarrow> (key \<times> bool) list \<Rightarrow> wire_state res" where
  "wire_loop st [] = Inr st"
| "wire_loop st ((k, ready) # work) =
     (if ws_ids st (k_addr k) \<noteq> None then wire_loop st work
      else if \<not> ready then wire_loop st (map (\<lambda>c. (c, False)) (k_children k) @ (k, True) # work)
      else
        (case rmapM (\<lambda>c. ok_or (ws_ids st (k_addr c)) Panic) (k_children k) of
           Inl e \<Rightarrow> Inl e
         | Inr children \<Rightarrow>
             wire_loop (wire_share st (k_addr k) (k_anchor k, k_label k, children)) work))"
  by pat_completeness auto
termination
proof (relation "measure (\<lambda>(_, work). sum_list (map wire_weight work))", goal_cases)
  case (3 st k ready work)
  then show ?case using wire_weight_children [of k] by simp
qed auto

definition wire_init :: wire_state where
  "wire_init = \<lparr>ws_ids = Map.empty, ws_nodes = [], ws_shared = Map.empty\<rparr>"

definition to_wire :: "key \<Rightarrow> wire_key res" where
  "to_wire k =
     rbind (wire_loop wire_init [(k, False)]) (\<lambda>st.
     rbind (ok_or (ws_ids st (k_addr k)) Panic) (\<lambda>r.
     Inr \<lparr>w_nodes = ws_nodes st, w_root = r\<rparr>))"

fun from_nodes :: "nat \<Rightarrow> key list \<Rightarrow> wire_node list \<Rightarrow> (key list \<times> nat) res" where
  "from_nodes fresh keys [] = Inr (keys, fresh)"
| "from_nodes fresh keys (n # ns) =
     (if \<exists>i \<in> set (w_children n). length keys \<le> i then Inl (Err ''invalid key DAG order'')
      else
        (let (k, fresh') = key_new fresh (w_label n) (map (\<lambda>i. keys ! i) (w_children n))
         in if w_anchor n then
              (if k_label k \<noteq> anchor_label \<or> length (k_children k) \<noteq> 1
               then Inl (Err ''invalid key anchor'')
               else from_nodes fresh' (keys @ [set_anchor k]) ns)
            else from_nodes fresh' (keys @ [k]) ns))"

definition from_wire :: "nat \<Rightarrow> wire_key \<Rightarrow> (key \<times> nat) res" where
  "from_wire fresh w =
     rbind (from_nodes fresh [] (w_nodes w)) (\<lambda>(keys, fresh').
       if w_root w < length keys then Inr (keys ! w_root w, fresh')
       else Inl (Err ''invalid key root''))"

section \<open>The trees a node list denotes\<close>

fun node_trees :: "tkey list \<Rightarrow> wire_node list \<Rightarrow> tkey list" where
  "node_trees ts [] = ts"
| "node_trees ts (n # ns) =
     node_trees (ts @ [TKey (w_anchor n) (w_label n) (map (\<lambda>i. ts ! i) (w_children n))]) ns"

fun nodes_ok :: "nat \<Rightarrow> wire_node list \<Rightarrow> bool" where
  "nodes_ok j [] \<longleftrightarrow> True"
| "nodes_ok j (n # ns) \<longleftrightarrow>
     (\<forall>i \<in> set (w_children n). i < j) \<and>
     (w_anchor n \<longrightarrow> w_label n = anchor_label \<and> length (w_children n) = 1) \<and> nodes_ok (j + 1) ns"

lemma length_node_trees [simp]: "length (node_trees ts ns) = length ts + length ns"
  by (induction ts ns rule: node_trees.induct) auto

lemma node_trees_append: "node_trees ts (ms @ ns) = node_trees (node_trees ts ms) ns"
  by (induction ms arbitrary: ts) auto

lemma node_trees_prefix: "i < length ts \<Longrightarrow> node_trees ts ns ! i = ts ! i"
  by (induction ts ns rule: node_trees.induct) (auto simp: nth_append)

lemma nodes_ok_append: "nodes_ok j (ms @ ns) \<longleftrightarrow> nodes_ok j ms \<and> nodes_ok (j + length ms) ns"
  by (induction ms arbitrary: j) auto

lemma nodes_ok_nth:
  "nodes_ok j ns \<Longrightarrow> i < length ns \<Longrightarrow>
   (\<forall>c \<in> set (w_children (ns ! i)). c < j + i) \<and>
   (w_anchor (ns ! i) \<longrightarrow> w_label (ns ! i) = anchor_label \<and> length (w_children (ns ! i)) = 1)"
  by (induction j ns arbitrary: i rule: nodes_ok.induct) (force simp: nth_Cons split: nat.splits)+

lemma node_trees_nth:
  assumes "nodes_ok (length ts) ns" "i < length ns"
  shows "node_trees ts ns ! (length ts + i) =
    TKey (w_anchor (ns ! i)) (w_label (ns ! i)) (map (\<lambda>c. node_trees ts ns ! c) (w_children (ns ! i)))"
  using assms
proof (induction ts ns arbitrary: i rule: node_trees.induct)
  case (2 ts n ns)
  show ?case
  proof (cases i)
    case 0
    have "map (\<lambda>c. node_trees ts (n # ns) ! c) (w_children n) = map (\<lambda>c. ts ! c) (w_children n)"
      using "2.prems" by (intro map_cong refl node_trees_prefix) auto
    then show ?thesis
      using 0 node_trees_prefix [of "length ts" "ts @ [TKey (w_anchor n) (w_label n)
        (map (\<lambda>i. ts ! i) (w_children n))]" ns] by simp
  next
    case (Suc i')
    then show ?thesis using "2.IH" [of i'] "2.prems" by simp
  qed
qed simp

lemma nodes_ok_iff_from_nodes:
  "(\<exists>keys' fresh'. from_nodes fresh keys ns = Inr (keys', fresh')) \<longleftrightarrow> nodes_ok (length keys) ns"
proof (induction fresh keys ns rule: from_nodes.induct)
  case (2 fresh keys n ns)
  show ?case
  proof (cases "\<exists>i \<in> set (w_children n). length keys \<le> i")
    case True
    then have "\<not> (\<forall>i \<in> set (w_children n). i < length keys)" by (simp add: not_less)
    with True show ?thesis by simp
  next
    case False
    then have "\<forall>i \<in> set (w_children n). i < length keys" by auto
    with False 2 show ?thesis
      by (auto simp: key_new_def with_label_def)
  qed
qed simp

lemma from_nodes_trees:
  "from_nodes fresh keys ns = Inr (keys', fresh') \<Longrightarrow> \<forall>k \<in> set keys. wf_key k \<Longrightarrow>
   map erase keys' = node_trees (map erase keys) ns \<and> (\<forall>k \<in> set keys'. wf_key k)"
proof (induction fresh keys ns rule: from_nodes.induct)
  case (2 fresh keys n ns)
  define k where "k = fst (key_new fresh (w_label n) (map (\<lambda>i. keys ! i) (w_children n)))"
  from 2(3) have bound: "\<forall>i \<in> set (w_children n). i < length keys"
    by (auto split: if_splits simp: not_le)
  have k: "key_new fresh (w_label n) (map (\<lambda>i. keys ! i) (w_children n)) = (k, fresh + 1)"
    by (simp add: k_def key_new_def with_label_def)
  have wf: "wf_key k"
    unfolding k_def using bound 2(4) by (intro wf_key_new) auto
  have ek: "erase k = TKey False (w_label n) (map (\<lambda>i. map erase keys ! i) (w_children n))"
    unfolding k_def using bound by (auto simp: map_eq_conv)
  define k' where "k' = (if w_anchor n then set_anchor k else k)"
  from 2(3) have anch: "w_anchor n \<longrightarrow> k_label k = anchor_label \<and> length (k_children k) = 1"
    by (auto simp: k split: if_splits)
  have k': "wf_key k'" "erase k' = TKey (w_anchor n) (w_label n)
      (map (\<lambda>i. map erase keys ! i) (w_children n))"
    using wf ek anch by (cases k; auto simp: k'_def)+
  have rest: "from_nodes (fresh + 1) (keys @ [k']) ns = Inr (keys', fresh')"
    using 2(3) by (auto simp: k k'_def split: if_splits)
  have "map erase keys' = node_trees (map erase (keys @ [k'])) ns \<and> (\<forall>k \<in> set keys'. wf_key k)"
  proof (cases "w_anchor n")
    case True
    then show ?thesis
      using 2(1) [OF _ k [symmetric] refl] bound anch rest k'(1) 2(4) by (auto simp: k'_def not_le)
  next
    case False
    then show ?thesis
      using 2(2) [OF _ k [symmetric] refl] bound rest k'(1) 2(4) by (auto simp: k'_def not_le)
  qed
  then show ?case by (simp add: k'(2))
qed simp

section \<open>Writing\<close>

definition node_sig :: "wire_node \<Rightarrow> wire_sig" where
  "node_sig n = (w_anchor n, w_label n, w_children n)"

lemma node_sig_sig_node [simp]: "node_sig (sig_node sg) = sg" "sig_node (node_sig n) = n"
  by (cases sg; simp add: node_sig_def sig_node_def) (simp add: node_sig_def sig_node_def)

text \<open>
  Invariant of the writer over the keys \<open>S\<close> of an arena: the nodes are in dependency order, the
  signature table is exactly the inverse of the node list, each visited address names the position
  of its tree, the trees are distinct and all come from \<open>S\<close>.
\<close>

definition wire_inv :: "key set \<Rightarrow> wire_state \<Rightarrow> bool" where
  "wire_inv S st \<longleftrightarrow>
     nodes_ok 0 (ws_nodes st) \<and>
     (\<forall>sg i. ws_shared st sg = Some i \<longleftrightarrow> i < length (ws_nodes st) \<and> node_sig (ws_nodes st ! i) = sg) \<and>
     (\<forall>k \<in> S. \<forall>i. ws_ids st (k_addr k) = Some i \<longrightarrow>
        i < length (ws_nodes st) \<and> node_trees [] (ws_nodes st) ! i = erase k) \<and>
     distinct (node_trees [] (ws_nodes st)) \<and>
     set (node_trees [] (ws_nodes st)) \<subseteq> erase ` S"

lemma wire_inv_init: "wire_inv S wire_init"
  by (simp add: wire_inv_def wire_init_def)

lemma wire_tree_nth:
  assumes "nodes_ok 0 ns" "i < length ns"
  shows "node_trees [] ns ! i =
    TKey (w_anchor (ns ! i)) (w_label (ns ! i)) (map (\<lambda>c. node_trees [] ns ! c) (w_children (ns ! i)))"
  using node_trees_nth [of "[]" ns i] assms by simp

lemma wire_fresh_tree:
  assumes inv: "wire_inv S st" and new: "ws_shared st (an, l, cs) = None"
    and bound: "\<forall>c \<in> set cs. c < length (ws_nodes st)"
  shows "TKey an l (map (\<lambda>c. node_trees [] (ws_nodes st) ! c) cs) \<notin> set (node_trees [] (ws_nodes st))"
proof
  let ?ts = "node_trees [] (ws_nodes st)" and ?ns = "ws_nodes st"
  assume "TKey an l (map ((!) ?ts) cs) \<in> set ?ts"
  then obtain j where j: "j < length ?ns" "?ts ! j = TKey an l (map ((!) ?ts) cs)"
    by (auto simp: in_set_conv_nth)
  from inv have ok: "nodes_ok 0 ?ns" and dist: "distinct ?ts" by (auto simp: wire_inv_def)
  have same: "w_anchor (?ns ! j) = an" "w_label (?ns ! j) = l"
    "map ((!) ?ts) (w_children (?ns ! j)) = map ((!) ?ts) cs"
    using wire_tree_nth [OF ok j(1)] j(2) by auto
  have "\<forall>c \<in> set (w_children (?ns ! j)). c < length ?ts"
    using nodes_ok_nth [OF ok j(1)] j(1) by auto
  moreover have "inj_on ((!) ?ts) {..<length ?ts}"
    using dist by (simp add: inj_on_nth)
  ultimately have "w_children (?ns ! j) = cs"
    using same(3) bound by (intro inj_on_map_eq_map [THEN iffD1, OF _ same(3)])
      (auto elim!: inj_on_subset)
  with same j(1) inv have "ws_shared st (an, l, cs) = Some j"
    by (auto simp: wire_inv_def node_sig_def)
  with new show False by simp
qed

lemma wire_share_inv:
  assumes inv: "wire_inv S st" and arena: "arena S" and k: "k \<in> S" "wf_key k"
    and cs: "rmapM (\<lambda>c. ok_or (ws_ids st (k_addr c)) Panic) (k_children k) = Inr cs"
  shows "wire_inv S (wire_share st (k_addr k) (k_anchor k, k_label k, cs))"
    and "dom (ws_ids (wire_share st (k_addr k) (k_anchor k, k_label k, cs))) =
      insert (k_addr k) (dom (ws_ids st))"
proof -
  let ?ts = "node_trees [] (ws_nodes st)" and ?sg = "(k_anchor k, k_label k, cs)"
  let ?st = "wire_share st (k_addr k) ?sg"
  show "dom (ws_ids ?st) = insert (k_addr k) (dom (ws_ids st))"
    by (auto simp: wire_share_def Let_def split: option.splits)
  from cs have "list_all2 (\<lambda>c i. ws_ids st (k_addr c) = Some i) (k_children k) cs"
    by (auto dest!: rmapM_Inr simp: ok_or_eq_Inr)
  moreover have "set (k_children k) \<subseteq> S" using arena k(1) by (auto simp: arena_def)
  ultimately have "list_all2 (\<lambda>c i. i < length (ws_nodes st) \<and> ?ts ! i = erase c) (k_children k) cs"
    using inv by (auto simp: wire_inv_def list_all2_conv_all_nth) (metis nth_mem subsetD)+
  then have bound: "\<forall>c \<in> set cs. c < length (ws_nodes st)"
    and kids: "map ((!) ?ts) cs = map erase (k_children k)" and len: "length cs = length (k_children k)"
    by (auto simp: list_all2_conv_all_nth in_set_conv_nth list_eq_iff_nth_eq)
  have tree: "TKey (k_anchor k) (k_label k) (map ((!) ?ts) cs) = erase k"
    unfolding kids by (cases k) simp
  have uniq: "x = k" if "x \<in> S" "k_addr x = k_addr k" for x
    using that arena k(1) by (auto simp: arena_def)
  have shape: "k_anchor k \<longrightarrow> k_label k = anchor_label \<and> length cs = 1"
    using k(2) len by (cases k) auto
  show "wire_inv S ?st"
  proof (cases "ws_shared st ?sg")
    case (Some at)
    then have at: "at < length (ws_nodes st)" "node_sig (ws_nodes st ! at) = ?sg"
      using inv by (auto simp: wire_inv_def)
    moreover have "?ts ! at = erase k"
      using wire_tree_nth [of "ws_nodes st" at] at inv tree
      by (simp add: wire_inv_def node_sig_def)
    moreover have "?st = st\<lparr>ws_ids := (ws_ids st)(k_addr k \<mapsto> at)\<rparr>"
      using Some by (simp add: wire_share_def)
    ultimately show ?thesis
      using inv uniq by (auto simp: wire_inv_def)
  next
    case None
    have nts: "node_trees [] (ws_nodes st @ [sig_node ?sg]) = ?ts @ [erase k]"
      using tree by (simp add: node_trees_append sig_node_def)
    have new: "erase k \<notin> set ?ts"
      using wire_fresh_tree [OF inv None bound] tree by simp
    have ok: "nodes_ok 0 (ws_nodes st @ [sig_node ?sg])"
      using inv bound shape by (auto simp: wire_inv_def nodes_ok_append sig_node_def)
    have sh: "((ws_shared st)(?sg \<mapsto> length (ws_nodes st))) sg = Some i \<longleftrightarrow>
        i < length (ws_nodes st @ [sig_node ?sg]) \<and> node_sig ((ws_nodes st @ [sig_node ?sg]) ! i) = sg"
      for sg i
    proof -
      have tab: "ws_shared st sg' = Some j \<longleftrightarrow> j < length (ws_nodes st) \<and> node_sig (ws_nodes st ! j) = sg'"
        for sg' j using inv unfolding wire_inv_def by blast
      have notin: "node_sig (ws_nodes st ! j) \<noteq> ?sg" if "j < length (ws_nodes st)" for j
        using tab [of ?sg j] None that by auto
      show ?thesis
        using tab [of sg i] notin [of i] by (cases "sg = ?sg") (auto simp: nth_append less_Suc_eq)
    qed
    have ids: "i < length (ws_nodes st @ [sig_node ?sg]) \<and> (?ts @ [erase k]) ! i = erase x"
      if "x \<in> S" "((ws_ids st)(k_addr k \<mapsto> length (ws_nodes st))) (k_addr x) = Some i" for x i
      using that inv uniq by (auto simp: wire_inv_def nth_append split: if_splits)
    show ?thesis
      using inv None ok sh ids new k(1)
      unfolding wire_inv_def wire_share_def Let_def
      by (simp add: nts del: fun_upd_apply)
  qed
qed

text \<open>Frames on the stack: the children of an opened key are visited or still above it.\<close>

fun frames_ok :: "nat set \<Rightarrow> (key \<times> bool) list \<Rightarrow> bool" where
  "frames_ok P [] \<longleftrightarrow> True"
| "frames_ok P ((k, ready) # w) \<longleftrightarrow>
     (ready \<longrightarrow> k_addr ` set (k_children k) \<subseteq> P) \<and> frames_ok (insert (k_addr k) P) w"

lemma frames_ok_mono: "frames_ok P w \<Longrightarrow> P \<subseteq> Q \<Longrightarrow> frames_ok Q w"
proof (induction w arbitrary: P Q)
  case (Cons i w)
  obtain k ready where i: "i = (k, ready)" by (cases i)
  from Cons.prems(2) have "insert (k_addr k) P \<subseteq> insert (k_addr k) Q" by blast
  with Cons show ?case by (auto simp: i)
qed simp

lemma frames_ok_append:
  "frames_ok P (map (\<lambda>c. (c, False)) cs @ w) = frames_ok (k_addr ` set cs \<union> P) w"
  by (induction cs arbitrary: P) (auto simp: insert_commute)

lemma wire_loop_correct:
  assumes "arena S" "\<forall>k \<in> S. wf_key k" "wire_inv S st" "fst ` set work \<subseteq> S"
    and "frames_ok (dom (ws_ids st)) work"
  shows "\<exists>st'. wire_loop st work = Inr st' \<and> wire_inv S st' \<and>
    dom (ws_ids st) \<union> k_addr ` fst ` set work \<subseteq> dom (ws_ids st')"
  using assms(3-)
proof (induction st work rule: wire_loop.induct)
  case (2 st k ready work)
  have kS: "k \<in> S" "set (k_children k) \<subseteq> S" and wf: "wf_key k"
    using 2(5) assms(1,2) by (auto simp: arena_def)
  consider (seen) "ws_ids st (k_addr k) \<noteq> None" | (opened) "ws_ids st (k_addr k) = None" "\<not> ready"
    | (closed) "ws_ids st (k_addr k) = None" ready by blast
  then show ?case
  proof cases
    case seen
    then have kd: "k_addr k \<in> dom (ws_ids st)" by auto
    then have ins: "insert (k_addr k) (dom (ws_ids st)) = dom (ws_ids st)" by auto
    have "frames_ok (dom (ws_ids st)) work" using 2(6) by (simp add: ins)
    with seen "2.IH"(1) "2.prems"(1,2) obtain st' where "wire_loop st work = Inr st'" "wire_inv S st'"
      "dom (ws_ids st) \<union> k_addr ` fst ` set work \<subseteq> dom (ws_ids st')" by auto
    with seen kd show ?thesis by (auto simp del: domIff)
  next
    case opened
    have "frames_ok (dom (ws_ids st)) (map (\<lambda>c. (c, False)) (k_children k) @ (k, True) # work)"
      using 2(6) opened frames_ok_mono [of "insert (k_addr k) (dom (ws_ids st))" work]
      by (auto simp: frames_ok_append)
    moreover have "fst ` set (map (\<lambda>c. (c, False)) (k_children k) @ (k, True) # work) \<subseteq> S"
      using 2(5) kS by auto
    ultimately obtain st' where st': "wire_loop st (map (\<lambda>c. (c, False)) (k_children k) @ (k, True) # work) = Inr st'"
      "wire_inv S st'" and D: "dom (ws_ids st) \<union> k_addr ` fst ` set (map (\<lambda>c. (c, False)) (k_children k) @ (k, True) # work)
        \<subseteq> dom (ws_ids st')"
      using "2.IH"(2) opened "2.prems"(1) by auto
    have "dom (ws_ids st) \<union> k_addr ` fst ` set ((k, ready) # work) \<subseteq> dom (ws_ids st')"
      by (rule order_trans [OF _ D]) auto
    with opened st' show ?thesis by auto
  next
    case closed
    then have "\<forall>c \<in> set (k_children k). ws_ids st (k_addr c) \<noteq> None"
      using 2(6) by auto
    then have known: "ok_or (ws_ids st (k_addr c)) Panic = Inr (the (ws_ids st (k_addr c)))"
      if "c \<in> set (k_children k)" for c
      using that by auto
    define cs where "cs = map (\<lambda>c. the (ws_ids st (k_addr c))) (k_children k)"
    have cs: "rmapM (\<lambda>c. ok_or (ws_ids st (k_addr c)) Panic) (k_children k) = Inr cs"
      unfolding cs_def by (rule rmapM_map) (rule known)
    note share = wire_share_inv [OF "2.prems"(1) assms(1) kS(1) wf cs]
    with closed "2.IH"(3) [OF _ _ cs] "2.prems" cs show ?thesis by auto
  qed
qed simp

lemma to_wire_correct:
  assumes "arena S" "\<forall>k \<in> S. wf_key k" "k \<in> S"
  shows "\<exists>w. to_wire k = Inr w \<and> nodes_ok 0 (w_nodes w) \<and> w_root w < length (w_nodes w) \<and>
    node_trees [] (w_nodes w) ! w_root w = erase k \<and> distinct (node_trees [] (w_nodes w)) \<and>
    set (node_trees [] (w_nodes w)) \<subseteq> erase ` S"
proof -
  from wire_loop_correct [OF assms(1,2) wire_inv_init, of "[(k, False)]"] assms(3)
  obtain st where st: "wire_loop wire_init [(k, False)] = Inr st" "wire_inv S st"
    "k_addr k \<in> dom (ws_ids st)" by auto
  then obtain r where "ws_ids st (k_addr k) = Some r" by auto
  with st assms(3) show ?thesis by (auto simp: to_wire_def wire_inv_def)
qed

lemma from_wire_tree:
  assumes "nodes_ok 0 (w_nodes w)" "w_root w < length (w_nodes w)"
  obtains k n' where "from_wire n w = Inr (k, n')" "wf_key k" "erase k = node_trees [] (w_nodes w) ! w_root w"
proof -
  from nodes_ok_iff_from_nodes [of n "[]" "w_nodes w"] assms(1) obtain keys n' where
    fn: "from_nodes n [] (w_nodes w) = Inr (keys, n')" by auto
  from from_nodes_trees [OF fn] have t: "map erase keys = node_trees [] (w_nodes w)"
    "\<forall>k \<in> set keys. wf_key k" by auto
  have len: "length keys = length (w_nodes w)" using arg_cong [OF t(1), of length] by simp
  then have "erase (keys ! w_root w) = node_trees [] (w_nodes w) ! w_root w"
    using t(1) assms(2) by (metis nth_map)
  with that [of "keys ! w_root w" n'] show thesis
    using fn len assms(2) t(2) by (simp add: from_wire_def)
qed

section \<open>Properties\<close>

lemma node_trees_closed:
  assumes "nodes_ok 0 ns" "t \<in> set (node_trees [] ns)"
  shows "set (t_children t) \<subseteq> set (node_trees [] ns)"
proof -
  from assms(2) obtain i where i: "i < length ns" "t = node_trees [] ns ! i"
    by (auto simp: in_set_conv_nth)
  have "c < length ns" if "c \<in> set (w_children (ns ! i))" for c
    using nodes_ok_nth [OF assms(1) i(1)] that i(1) by fastforce
  then show ?thesis
    using wire_tree_nth [OF assms(1) i(1)] i by (auto intro!: nth_mem)
qed

lemma subkeys_trees:
  "erase k \<in> T \<Longrightarrow> (\<And>t. t \<in> T \<Longrightarrow> set (t_children t) \<subseteq> T) \<Longrightarrow> erase ` subkeys k \<subseteq> T"
proof (induction k)
  case (Key a an h l cs hh)
  have "erase ` subkeys c \<subseteq> T" if "c \<in> set cs" for c
    using Key.IH [OF that] Key.prems(1) Key.prems(2) [OF Key.prems(1)] Key.prems(2) that by auto
  with Key.prems(1) show ?case by auto
qed

lemma wf_key_subkeys: "wf_key k \<Longrightarrow> x \<in> subkeys k \<Longrightarrow> wf_key x"
  by (induction k) auto

lemma self_subkeys [simp]: "k \<in> subkeys k"
  by (cases k) simp

text \<open>
  Writing a well-formed key never fails, lists the nodes in dependency order, and stores every
  distinct subtree exactly once, so the number of wire nodes is the number of distinct subtrees
  even where the unfolded tree is exponentially larger.
\<close>

lemma to_wire_shares:
  assumes "arena (subkeys k)" "wf_key k"
  shows "\<exists>w. to_wire k = Inr w \<and> nodes_ok 0 (w_nodes w) \<and>
    node_trees [] (w_nodes w) ! w_root w = erase k \<and> w_root w < length (w_nodes w) \<and>
    length (w_nodes w) = card (erase ` subkeys k)"
proof -
  from to_wire_correct [OF assms(1) _ self_subkeys] wf_key_subkeys [OF assms(2)]
  obtain w where w: "to_wire k = Inr w" "nodes_ok 0 (w_nodes w)" "w_root w < length (w_nodes w)"
    "node_trees [] (w_nodes w) ! w_root w = erase k" "distinct (node_trees [] (w_nodes w))"
    "set (node_trees [] (w_nodes w)) \<subseteq> erase ` subkeys k" by blast
  have "erase k \<in> set (node_trees [] (w_nodes w))"
    using w(3,4) by (metis nth_mem length_node_trees list.size(3) add_0)
  from subkeys_trees [OF this node_trees_closed [OF w(2)]]
  have "set (node_trees [] (w_nodes w)) = erase ` subkeys k" using w(6) by blast
  then have "card (erase ` subkeys k) = length (w_nodes w)"
    using distinct_card [OF w(5)] by simp
  with w show ?thesis by auto
qed

definition demo_pair :: key where
  "demo_pair = fst (key_new 4 ''q'' [demo_node 2 0, demo_node 3 1])"

lemma demo_pair_arena: "arena (subkeys demo_pair)" "wf_key demo_pair"
  by code_simp+

lemma to_wire_shares_witness: "\<exists>w. to_wire demo_pair = Inr w \<and> length (w_nodes w) = 3"
proof -
  have "card (erase ` subkeys demo_pair) = 3"
    by code_simp
  then show ?thesis
    using to_wire_shares [OF demo_pair_arena] by auto
qed

text \<open>
  C27. Writing a well-formed key never fails, lists the nodes in dependency order, and stores every
  distinct subtree exactly once, so the number of wire nodes is the number of distinct subtrees even
  where the unfolded tree is exponentially larger; and reading what was written, at any allocation
  counter, gives a well-formed key that stands for the same tree.
\<close>

theorem wire_roundtrip:
  assumes "arena (subkeys k)" "wf_key k"
  shows "\<exists>w. to_wire k = Inr w \<and> nodes_ok 0 (w_nodes w) \<and>
    node_trees [] (w_nodes w) ! w_root w = erase k \<and> w_root w < length (w_nodes w) \<and>
    length (w_nodes w) = card (erase ` subkeys k) \<and>
    (\<exists>k' m. from_wire n w = Inr (k', m) \<and> wf_key k' \<and> erase k' = erase k)"
proof -
  from to_wire_shares [OF assms] obtain w where w: "to_wire k = Inr w" "nodes_ok 0 (w_nodes w)" "w_root w < length (w_nodes w)"
    "node_trees [] (w_nodes w) ! w_root w = erase k" "length (w_nodes w) = card (erase ` subkeys k)" by blast
  from from_wire_tree [OF w(2,3), of n] w show ?thesis by metis
qed

lemma wire_roundtrip_witness:
  "\<exists>w k' m. to_wire demo_pair = Inr w \<and> from_wire 7 w = Inr (k', m) \<and> erase k' = erase demo_pair"
  using wire_roundtrip [OF demo_pair_arena, of 7] by blast

text \<open>
  Reading a wire key succeeds exactly when every node names only earlier nodes, every anchor
  has the anchor label and one child, and the root is in range.
\<close>

theorem from_wire_accepts:
  "(\<exists>k m. from_wire n w = Inr (k, m)) \<longleftrightarrow> nodes_ok 0 (w_nodes w) \<and> w_root w < length (w_nodes w)"
proof
  assume "\<exists>k m. from_wire n w = Inr (k, m)"
  then obtain keys m where f: "from_nodes n [] (w_nodes w) = Inr (keys, m)" "w_root w < length keys"
    by (auto simp: from_wire_def res_simps split: prod.splits if_splits)
  then have "map erase keys = node_trees [] (w_nodes w)"
    using from_nodes_trees [OF f(1)] by simp
  then have "length keys = length (w_nodes w)" by (metis length_map length_node_trees list.size(3) add_0)
  then show "nodes_ok 0 (w_nodes w) \<and> w_root w < length (w_nodes w)"
    using nodes_ok_iff_from_nodes [of n "[]" "w_nodes w"] f by auto
next
  assume "nodes_ok 0 (w_nodes w) \<and> w_root w < length (w_nodes w)"
  then show "\<exists>k m. from_wire n w = Inr (k, m)" using from_wire_tree [of w n] by metis
qed

end
