(* ===== verification/KeyText.thy ===== *)
theory KeyText
  imports Json KeyWire
begin

text \<open>
  Keys of base values and the text forms of keys in \<open>engine/structural-key/src/lib.rs\<close>
  (\<open>base_i64\<close>, \<open>base_string\<close>, \<open>base_f64\<close>, \<open>decode_legacy\<close>) and the ABI check \<open>signature\<close>.
  Only the tree a key stands for is built here. What the code takes from outside \<open>src/\<close> is the
  record \<open>host\<close>: \<open>serde_json\<close>'s reading of a text as a document and as a \<open>WireKey\<close>; and the
  \<open>Debug\<close> escaping of a string, which depends on Unicode tables.
\<close>

record host =
  h_json :: "string \<Rightarrow> json option"
  h_wire :: "string \<Rightarrow> wire_key option"
  h_debug :: "string \<Rightarrow> string"

section \<open>Numerals\<close>

definition digit_char :: "nat \<Rightarrow> char" where
  "digit_char d = (if d < 10 then char_of (48 + d) else char_of (87 + d))"

fun show_nat :: "nat \<Rightarrow> string" where
  "show_nat n = (if n < 10 then [digit_char n] else show_nat (n div 10) @ [digit_char (n mod 10)])"

declare show_nat.simps [simp del]

definition show_int :: "int \<Rightarrow> string" where
  "show_int n = (if n < 0 then CHR ''-'' # show_nat (nat (- n)) else show_nat (nat n))"

definition hex16 :: "u64 \<Rightarrow> string" where
  "hex16 b = map (\<lambda>i. digit_char (unat (drop_bit (4 * i) b AND 15))) (rev [0..<16])"

lemma of_char_digit: "d < 16 \<Longrightarrow> (of_char (digit_char d) :: nat) = (if d < 10 then 48 + d else 87 + d)"
  by (simp add: digit_char_def)

lemma digit_char_inj: "d < 16 \<Longrightarrow> e < 16 \<Longrightarrow> digit_char d = digit_char e \<Longrightarrow> d = e"
proof -
  assume d: "d < 16" and e: "e < 16" and eq: "digit_char d = digit_char e"
  have "(if d < 10 then 48 + d else 87 + d) = (if e < 10 then 48 + e else 87 + e)"
    unfolding of_char_digit [OF d, symmetric] of_char_digit [OF e, symmetric] eq ..
  then show "d = e" using d e by presburger
qed

lemma show_nat_not_Nil [simp]: "show_nat n \<noteq> []" "[] \<noteq> show_nat n"
  by (subst show_nat.simps; simp)+

lemma show_nat_inj: "show_nat m = show_nat n \<Longrightarrow> m = n"
proof (induction m arbitrary: n rule: less_induct)
  case (less m)
  show ?case
  proof (cases "m < 10 \<or> n < 10")
    case True
    have "m < 10 \<and> n < 10"
    proof (rule ccontr)
      assume "\<not> (m < 10 \<and> n < 10)"
      then show False
        using True less.prems show_nat.simps [of m] show_nat.simps [of n] by (auto split: if_splits)
    qed
    then show ?thesis
      using less.prems digit_char_inj [of m n] by (simp add: show_nat.simps)
  next
    case False
    then have "show_nat (m div 10) = show_nat (n div 10)" "digit_char (m mod 10) = digit_char (n mod 10)"
      using less.prems show_nat.simps [of m] show_nat.simps [of n] by auto
    moreover have "m div 10 < m" using False by simp
    ultimately have "m div 10 = n div 10" "m mod 10 = n mod 10"
      using less.IH digit_char_inj [of "m mod 10" "n mod 10"] by auto
    then show ?thesis by (metis div_mult_mod_eq)
  qed
qed

lemma show_nat_first: "hd (show_nat n) \<noteq> CHR ''-''"
proof (induction n rule: show_nat.induct)
  case (1 n)
  have d: "digit_char d \<noteq> CHR ''-''" if "d < 10" for d
    using of_char_digit [of d] that by (auto simp: of_char_eq_iff [symmetric])
  show ?case
  proof (cases "n < 10")
    case True
    then show ?thesis using d by (subst show_nat.simps) simp
  next
    case False
    then show ?thesis using 1 by (subst show_nat.simps) (simp add: hd_append)
  qed
qed

lemma show_int_inj: "show_int m = show_int n \<Longrightarrow> m = n"
  using show_nat_first [of "nat m"] show_nat_first [of "nat n"]
  by (auto simp: show_int_def split: if_splits dest!: show_nat_inj) (metis list.sel(1))+

section \<open>Base keys\<close>

definition tkey_new :: "string \<Rightarrow> tkey list \<Rightarrow> tkey" where
  "tkey_new l cs = TKey False l cs"

definition tkey_anchor :: "tkey \<Rightarrow> tkey" where
  "tkey_anchor k = (if t_anchor k then k else TKey True anchor_label [k])"

definition base_i64 :: "i64 \<Rightarrow> tkey" where
  "base_i64 x = tkey_new (''i64:'' @ show_int x) []"

definition base_string :: "host \<Rightarrow> string \<Rightarrow> tkey" where
  "base_string h x = tkey_new (''String:'' @ h_debug h x) []"

definition f64_is_nan :: "u64 \<Rightarrow> bool" where
  "f64_is_nan b \<longleftrightarrow> b AND 0x7FF0000000000000 = 0x7FF0000000000000 \<and> b AND 0x000FFFFFFFFFFFFF \<noteq> 0"

definition f64_is_zero :: "u64 \<Rightarrow> bool" where
  "f64_is_zero b \<longleftrightarrow> b AND 0x7FFFFFFFFFFFFFFF = 0"

definition f64_key_bits :: "u64 \<Rightarrow> u64" where
  "f64_key_bits b = (if f64_is_nan b then 0x7FF8000000000000 else if f64_is_zero b then 0 else b)"

definition base_f64 :: "u64 \<Rightarrow> tkey" where
  "base_f64 bits = tkey_new (''f64:'' @ hex16 (f64_key_bits bits)) []"

section \<open>Decoding\<close>

text \<open>\<open>u8::from_str_radix(pair, 16)\<close>: an optional plus sign, then hexadecimal digits.\<close>

definition hex_digit :: "char \<Rightarrow> nat option" where
  "hex_digit c =
     (let n = of_char c :: nat
      in if 48 \<le> n \<and> n \<le> 57 then Some (n - 48)
         else if 97 \<le> n \<and> n \<le> 102 then Some (n - 87)
         else if 65 \<le> n \<and> n \<le> 70 then Some (n - 55) else None)"

definition hex_byte :: "char \<Rightarrow> char \<Rightarrow> char option" where
  "hex_byte a b =
     (if a = CHR ''+'' then map_option char_of (hex_digit b)
      else case (hex_digit a, hex_digit b) of
             (Some x, Some y) \<Rightarrow> Some (char_of (16 * x + y)) | _ \<Rightarrow> None)"

fun hex_bytes :: "string \<Rightarrow> string option" where
  "hex_bytes [] = Some []"
| "hex_bytes [c] = None"
| "hex_bytes (a # b # cs) =
     (case (hex_byte a b, hex_bytes cs) of (Some x, Some xs) \<Rightarrow> Some (x # xs) | _ \<Rightarrow> None)"

definition strip_prefix :: "string \<Rightarrow> string \<Rightarrow> string option" where
  "strip_prefix p s = (if take (length p) s = p then Some (drop (length p) s) else None)"

text \<open>The UTF-8 encodings of the characters that \<open>str::trim_start\<close> removes.\<close>

definition white_space :: "nat list list" where
  "white_space =
     [[9], [10], [11], [12], [13], [32], [0xC2, 0x85], [0xC2, 0xA0], [0xE1, 0x9A, 0x80]] @
     map (\<lambda>n. [0xE2, 0x80, n]) ([0x80..<0x8B] @ [0xA8, 0xA9, 0xAF]) @
     [[0xE2, 0x81, 0x9F], [0xE3, 0x80, 0x80]]"

function trim_start :: "string \<Rightarrow> string" where
  "trim_start s =
     (case find (\<lambda>w. take (length w) (map of_char s) = w \<and> w \<noteq> [] \<and> s \<noteq> []) white_space of
        None \<Rightarrow> s | Some w \<Rightarrow> trim_start (drop (length w) s))"
  by pat_completeness auto
termination
  by (relation "measure length") (auto simp: find_Some_iff)

declare trim_start.simps [simp del]

fun legacy_tree :: "json \<Rightarrow> tkey option" where
  "legacy_tree (JArr [JBool anchor, JStr label, JArr cs]) =
     (case those (map legacy_tree cs) of
        None \<Rightarrow> None
      | Some children \<Rightarrow>
          if anchor \<and> (label \<noteq> anchor_label \<or> length children \<noteq> 1) then None
          else Some (TKey anchor label children))"
| "legacy_tree _ = None"

definition wire_tree :: "wire_key \<Rightarrow> tkey option" where
  "wire_tree w = (case from_wire 0 w of Inl _ \<Rightarrow> None | Inr (k, _) \<Rightarrow> Some (erase k))"

definition decode_legacy :: "host \<Rightarrow> string \<Rightarrow> tkey option" where
  "decode_legacy h text =
     (case strip_prefix ''dag-v1:'' text of
        Some hex \<Rightarrow>
          (if length hex mod 2 \<noteq> 0 then None
           else case hex_bytes hex of
                  None \<Rightarrow> None
                | Some bytes \<Rightarrow> Option.bind (h_wire h bytes) wire_tree)
      | None \<Rightarrow>
          (case trim_start text of
             c # _ \<Rightarrow> if c = CHR ''{'' then Option.bind (h_wire h text) wire_tree
                      else Option.bind (h_json h text) legacy_tree
           | [] \<Rightarrow> Option.bind (h_json h text) legacy_tree))"

text \<open>Trees whose anchors have the shape that \<open>Key::anchor\<close> builds.\<close>

fun wf_tkey :: "tkey \<Rightarrow> bool" where
  "wf_tkey (TKey an l cs) \<longleftrightarrow> (an \<longrightarrow> l = anchor_label \<and> length cs = 1) \<and> (\<forall>c \<in> set cs. wf_tkey c)"

lemma wf_tkey_erase: "wf_key k \<Longrightarrow> wf_tkey (erase k)"
  by (induction k) auto

lemma those_Some: "those xs = Some ys \<longleftrightarrow> xs = map Some ys"
  by (induction xs arbitrary: ys) (auto split: option.splits)

lemma wf_legacy_tree: "legacy_tree j = Some t \<Longrightarrow> wf_tkey t"
proof (induction j arbitrary: t rule: legacy_tree.induct)
  case (1 anchor label cs)
  from "1.prems" obtain ts where ts: "map legacy_tree cs = map Some ts" and
    t: "t = TKey anchor label ts" "anchor \<longrightarrow> label = anchor_label \<and> length ts = 1"
    by (auto simp: those_Some split: option.splits if_splits)
  have "wf_tkey u" if "u \<in> set ts" for u
  proof -
    from that have "Some u \<in> legacy_tree ` set cs" using arg_cong [OF ts, of set] by auto
    then obtain c where "c \<in> set cs" "legacy_tree c = Some u" by auto
    then show ?thesis by (rule "1.IH")
  qed
  then show ?case using t by auto
qed simp_all

lemma from_nodes_wf_result: "from_wire n w = Inr (k, n') \<Longrightarrow> wf_key k"
proof -
  assume "from_wire n w = Inr (k, n')"
  then obtain keys where "from_nodes n [] (w_nodes w) = Inr (keys, n')" "k \<in> set keys"
    by (auto simp: from_wire_def res_simps split: prod.splits if_splits)
  with from_nodes_trees [of n "[]" "w_nodes w" keys n'] show "wf_key k" by auto
qed

lemma wf_wire_tree: "wire_tree w = Some t \<Longrightarrow> wf_tkey t"
  by (cases "from_wire 0 w") (auto simp: wire_tree_def intro: wf_tkey_erase from_nodes_wf_result)

lemma wf_decode_legacy: "decode_legacy h text = Some t \<Longrightarrow> wf_tkey t"
  by (auto simp: decode_legacy_def bind_eq_Some_conv
      intro: wf_legacy_tree wf_wire_tree split: option.splits if_splits list.splits)

section \<open>The ABI check\<close>

text \<open>The primitive signatures of \<open>abi.json\<close>; \<open>$T\<close> stands for any one type.\<close>

definition key_sort :: string where
  "key_sort = ''CellStructuralKey''"

definition abi_primitives :: "(string \<times> json) list" where
  "abi_primitives =
    [(''cell-key-min'', JArr [JArr [JStr key_sort, JStr key_sort], JStr key_sort]),
     (''cell-key-anchor'', JArr [JArr [JStr key_sort], JStr key_sort]),
     (''cell-key-cmp'', JArr [JArr [JStr key_sort, JStr key_sort], JStr ''i64'']),
     (''cell-key-prefer-left'', JArr [JArr [JStr ''i64'', JStr ''i64'', JStr key_sort, JStr key_sort], JStr ''bool'']),
     (''cell-key-select'', JArr [JArr [JStr ''$T'', JStr ''$T'', JStr ''bool''], JStr ''$T'']),
     (''cell-key-base-i64'', JArr [JArr [JStr ''i64''], JStr key_sort]),
     (''cell-key-base-f64'', JArr [JArr [JStr ''f64''], JStr key_sort]),
     (''cell-key-base-bool'', JArr [JArr [JStr ''bool''], JStr key_sort]),
     (''cell-key-base-Unit'', JArr [JArr [JStr ''Unit''], JStr key_sort]),
     (''cell-key-base-String'', JArr [JArr [JStr ''String''], JStr key_sort]),
     (''cell-key-decode'', JArr [JArr [JStr ''String''], JStr key_sort])]"

definition key_signature :: "json \<Rightarrow> json \<Rightarrow> bool" where
  "key_signature call spec =
     (case (as_str (jfield call ''primitive''), as_array (jfield call ''inputs'')) of
        (Some name, Some inputs) \<Rightarrow>
          (case map_of abi_primitives name of
             Some s \<Rightarrow>
               (case as_array (jat s 0) of
                  None \<Rightarrow> False
                | Some expected \<Rightarrow>
                    length inputs = length expected \<and>
                    (let ty = (if jat s 1 = JStr ''$T'' then jfield call ''output'' else jat s 1)
                     in jfield call ''output'' = ty \<and>
                        (\<forall>(x, y) \<in> set (zip inputs expected).
                           x = (if y = JStr ''$T'' then ty else y))))
           | None \<Rightarrow>
               (case as_array (jfield spec ''nodes'') of
                  None \<Rightarrow> False
                | Some ns \<Rightarrow>
                    (\<exists>n \<in> set ns. jfield n ''primitive'' = JStr name \<and>
                       as_u64 (jfield n ''arity'') = Some (length inputs) \<and>
                       (\<forall>s \<in> set inputs. s = JStr key_sort) \<and>
                       jfield call ''output'' = JStr key_sort)))
      | _ \<Rightarrow> False)"

section \<open>Properties\<close>

text \<open>
  Base keys of integers are faithful: two 64-bit integers have the same key only if they are
  equal, and the key is never an anchor.
\<close>

theorem base_i64_faithful: "(base_i64 a = base_i64 b \<longleftrightarrow> a = b) \<and> \<not> t_anchor (base_i64 a)"
  by (auto simp: base_i64_def tkey_new_def dest: show_int_inj)

text \<open>
  Whatever document, hexadecimal text or legacy tree is decoded, the key that comes out is well
  formed: its anchors have the anchor label and exactly one child.
\<close>

theorem decoded_keys_wf:
  assumes "decode_legacy h text = Some t"
  shows "wf_tkey t"
  by (rule wf_decode_legacy [OF assms])

definition demo_host :: host where
  "demo_host = \<lparr>h_json = (\<lambda>s. if s = ''[true,..]''
       then Some (JArr [JBool True, JStr anchor_label, JArr [JArr [JBool False, JStr ''x'', JArr []]]])
       else None),
     h_wire = (\<lambda>_. None), h_debug = (\<lambda>s. s)\<rparr>"

lemma decoded_keys_wf_witness:
  "decode_legacy demo_host ''[true,..]'' = Some (TKey True anchor_label [TKey False ''x'' []]) \<and>
   wf_tkey (TKey True anchor_label [TKey False ''x'' []])"
proof -
  have "decode_legacy demo_host ''[true,..]'' = Some (TKey True anchor_label [TKey False ''x'' []])"
    by code_simp
  with decoded_keys_wf [OF this] show ?thesis by simp
qed

end
