(* ===== verification/Values.thy ===== *)
theory Values
  imports KeyText "HOL-Library.Signed_Division"
begin

text \<open>
  Runtime values, \<open>engine/cell-runtime/src/value.rs\<close>: the value type with its derived order, the
  union-find roots of equality identities, canonicalisation, and the primitive operations with
  their checked 64-bit arithmetic and sorted-set containers. A key inside a value is the tree it
  stands for, which is what Rust's \<open>==\<close> and \<open>cmp\<close> on keys observe (theory \<open>StructuralKey\<close>).
\<close>

datatype val = VEq u64 | VInt i64 | VText string | VFloat i64 | VSet "val list" | VKey tkey

fun vrank :: "val \<Rightarrow> nat" where
  "vrank (VEq _) = 0" | "vrank (VInt _) = 1" | "vrank (VText _) = 2"
| "vrank (VFloat _) = 3" | "vrank (VSet _) = 4" | "vrank (VKey _) = 5"

fun value_cmp :: "val \<Rightarrow> val \<Rightarrow> ordering" where
  "value_cmp (VEq a) (VEq b) = cmp_lin a b"
| "value_cmp (VInt a) (VInt b) = cmp_lin a b"
| "value_cmp (VText a) (VText b) = cmp_lin a b"
| "value_cmp (VFloat a) (VFloat b) = cmp_lin a b"
| "value_cmp (VSet a) (VSet b) = lex_cmp value_cmp a b"
| "value_cmp (VKey a) (VKey b) = tkey_cmp a b"
| "value_cmp a b = cmp_lin (vrank a) (vrank b)"

lemma value_cmp_eq: "value_cmp x y = Equal \<longleftrightarrow> x = y"
proof (induction x arbitrary: y)
  case (VSet xs)
  have "lex_cmp value_cmp xs ys = Equal \<longleftrightarrow> xs = ys" for ys
    by (rule lex_cmp_eq) (rule VSet.IH)
  then show ?case by (cases y) auto
qed (case_tac y; auto simp: tkey_cmp_eq)+

lemma value_cmp_sym: "value_cmp y x = reverse_ord (value_cmp x y)"
proof (induction x arbitrary: y)
  case (VSet xs)
  have "lex_cmp value_cmp ys xs = reverse_ord (lex_cmp value_cmp xs ys)" for ys
    by (rule lex_cmp_sym) (rule VSet.IH)
  then show ?case by (cases y) auto
next
  case (VKey k)
  show ?case
  proof (cases y)
    case (VKey k')
    then show ?thesis by simp (rule tkey_cmp_sym)
  qed auto
qed (case_tac y; auto)+

lemma value_cmp_rank: "value_cmp x y = Less \<Longrightarrow> vrank x \<le> vrank y"
  by (cases x; cases y) auto

lemma value_cmp_less_rank: "vrank x < vrank y \<Longrightarrow> value_cmp x y = Less"
  by (cases x; cases y) auto

lemma value_cmp_trans: "value_cmp x y = Less \<Longrightarrow> value_cmp y z = Less \<Longrightarrow> value_cmp x z = Less"
proof (induction x arbitrary: y z)
  case (VSet xs)
  show ?case
  proof (cases "vrank (VSet xs) < vrank z")
    case True
    then show ?thesis by (rule value_cmp_less_rank)
  next
    case False
    with value_cmp_rank [OF VSet.prems(1)] value_cmp_rank [OF VSet.prems(2)]
    have "vrank y = 4" "vrank z = 4" by auto
    then obtain ys zs where y: "y = VSet ys" and z: "z = VSet zs" by (cases y; cases z) auto
    have "lex_cmp value_cmp xs ys = Less \<Longrightarrow> lex_cmp value_cmp ys zs = Less \<Longrightarrow>
        lex_cmp value_cmp xs zs = Less"
      by (rule lex_cmp_trans [of _ _ ys]) (auto simp: value_cmp_eq intro: VSet.IH)
    with VSet.prems show ?thesis by (simp add: y z)
  qed
qed (case_tac y; case_tac z; auto intro: tkey_cmp_trans)+

interpretation value_order: ord_contract value_cmp
  by unfold_locales (rule value_cmp_eq value_cmp_sym value_cmp_trans; assumption?)+

instantiation val :: linorder
begin

definition less_eq_val :: "val \<Rightarrow> val \<Rightarrow> bool" where
  "less_eq_val a b \<longleftrightarrow> value_cmp a b \<noteq> Greater"

definition less_val :: "val \<Rightarrow> val \<Rightarrow> bool" where
  "less_val a b \<longleftrightarrow> value_cmp a b = Less"

instance
proof
  fix x y z :: val
  show "x < y \<longleftrightarrow> x \<le> y \<and> \<not> y \<le> x"
    unfolding less_eq_val_def less_val_def by (rule value_order.less_le)
  show "x \<le> x"
    by (simp add: less_eq_val_def)
  show "x \<le> y \<Longrightarrow> y \<le> z \<Longrightarrow> x \<le> z"
    unfolding less_eq_val_def by (rule value_order.le_trans)
  show "x \<le> y \<Longrightarrow> y \<le> x \<Longrightarrow> x = y"
    unfolding less_eq_val_def by (rule value_order.le_antisym)
  show "x \<le> y \<or> y \<le> x"
    unfolding less_eq_val_def by (rule value_order.le_linear)
qed

end

section \<open>Sorted containers\<close>

definition sort_dedup :: "'a::linorder list \<Rightarrow> 'a list" where
  "sort_dedup xs = remdups_adj (sort xs)"

lemma sort_dedup_set [simp]: "set (sort_dedup xs) = set xs"
  by (simp add: sort_dedup_def)

lemma sort_dedup_strict: "sorted_wrt (<) (sort_dedup xs)"
proof -
  have "sorted ys \<Longrightarrow> sorted_wrt (<) (remdups_adj ys)" for ys :: "'a list"
    by (induction ys rule: remdups_adj.induct) auto
  then show ?thesis by (simp add: sort_dedup_def)
qed

lemma sort_dedup_eq: "sort_dedup xs = sorted_list_of_set (set xs)"
  using strict_sorted_equal [OF sort_dedup_strict [of xs] strict_sorted_list_of_set [of "set xs"]]
  by simp

lemma sort_dedup_id: "sorted_wrt (<) xs \<Longrightarrow> sort_dedup xs = xs"
  using strict_sorted_equal [OF sort_dedup_strict [of xs]] by simp

section \<open>Roots and canonical values\<close>

type_synonym parents = "u64 \<rightharpoonup> u64"

definition root :: "parents \<Rightarrow> u64 \<Rightarrow> u64" where
  "root p x = while (\<lambda>x. p x \<noteq> None \<and> p x \<noteq> Some x) (\<lambda>x. the (p x)) x"

function canon :: "val \<Rightarrow> parents \<Rightarrow> val" where
  "canon (VEq x) p = VEq (root p x)"
| "canon (VSet xs) p = VSet (sort_dedup (map (\<lambda>x. canon x p) xs))"
| "canon (VInt n) p = VInt n"
| "canon (VText s) p = VText s"
| "canon (VFloat n) p = VFloat n"
| "canon (VKey k) p = VKey k"
  by pat_completeness auto
termination
  by (relation "measure (\<lambda>(v, _). size v)")
    (auto simp: less_Suc_eq_le dest: size_list_estimation' [where f = size, OF _ order_refl])

text \<open>
  Parent links go from a larger identity to a smaller one: \<open>union\<close> links the larger root to the
  smaller, and \<open>restore\<close> rejects any other link.
\<close>

definition decreasing :: "parents \<Rightarrow> bool" where
  "decreasing p \<longleftrightarrow> (\<forall>x y. p x = Some y \<longrightarrow> y < x)"

lemma decreasing_induct [consumes 1, case_names root link]:
  assumes "decreasing p"
    and "\<And>x. p x = None \<Longrightarrow> P x" and "\<And>x y. p x = Some y \<Longrightarrow> P y \<Longrightarrow> P x"
  shows "P x"
proof (induction x rule: measure_induct_rule [where f = unat])
  case (less x)
  show ?case
  proof (cases "p x")
    case None
    then show ?thesis by (rule assms(2))
  next
    case (Some y)
    with assms(1) have "unat y < unat x" by (simp add: decreasing_def word_less_nat_alt)
    with Some less assms(3) show ?thesis by blast
  qed
qed

lemma root_unfold: "decreasing p \<Longrightarrow> root p x = (case p x of None \<Rightarrow> x | Some y \<Rightarrow> root p y)"
  unfolding root_def by (subst while_unfold) (auto simp: decreasing_def split: option.splits)

lemma root_None [simp]: "p x = None \<Longrightarrow> root p x = x"
  unfolding root_def by (subst while_unfold) simp

lemma root_Some: "decreasing p \<Longrightarrow> p x = Some y \<Longrightarrow> root p x = root p y"
  by (simp add: root_unfold [of p x])

lemma root_loop_returns:
  "decreasing p \<Longrightarrow>
   \<exists>r. while_option (\<lambda>x. p x \<noteq> None \<and> p x \<noteq> Some x) (\<lambda>x. the (p x)) x = Some r"
  by (rule measure_while_option_Some [where P = "\<lambda>_. True" and f = unat])
    (auto simp: decreasing_def word_less_nat_alt)

lemma root_is_root:
  assumes dec: "decreasing p"
  shows "p (root p x) = None"
  using dec by (induction x rule: decreasing_induct) (simp_all add: root_Some [OF dec])

lemma root_idem [simp]: "decreasing p \<Longrightarrow> root p (root p x) = root p x"
  by (simp add: root_is_root)

lemma root_le: "decreasing p \<Longrightarrow> root p x \<le> x"
proof -
  assume dec: "decreasing p"
  then show ?thesis
  proof (induction x rule: decreasing_induct)
    case (link x y)
    with dec have "y < x" by (simp add: decreasing_def)
    with link dec show ?case by (simp add: root_unfold [of p x])
  qed simp
qed

lemma decreasing_empty [simp]: "decreasing Map.empty"
  by (simp add: decreasing_def)

lemma decreasing_link: "decreasing p \<Longrightarrow> lo < hi \<Longrightarrow> decreasing (p(hi \<mapsto> lo))"
  by (simp add: decreasing_def)

text \<open>Linking one root below another moves exactly the displaced class.\<close>

lemma root_link:
  assumes "decreasing p" "p hi = None" "p lo = None" "lo < hi"
  shows "root (p(hi \<mapsto> lo)) x = (if root p x = hi then lo else root p x)"
proof -
  let ?p = "p(hi \<mapsto> lo)"
  have dec: "decreasing ?p" using assms by (simp add: decreasing_link)
  from assms(1) show ?thesis
  proof (induction x rule: decreasing_induct)
    case (root x)
    have "root ?p lo = lo" using assms(3,4) by simp
    moreover have "root ?p hi = root ?p lo" by (rule root_Some [OF dec]) simp
    ultimately have "root ?p hi = lo" by metis
    moreover have "root p x = x" using root by simp
    moreover have "root ?p x = x" if "x \<noteq> hi" using root that by simp
    ultimately show ?case by metis
  next
    case (link x y)
    then have "x \<noteq> hi" using assms(2) by auto
    then have "?p x = Some y" using link(1) by simp
    show ?case
      unfolding root_Some [OF dec \<open>?p x = Some y\<close>] root_Some [OF assms(1) link(1)] by (rule link(2))
  qed
qed

text \<open>\<open>q\<close> extends \<open>p\<close> when it only merges classes further.\<close>

definition coarser :: "parents \<Rightarrow> parents \<Rightarrow> bool" where
  "coarser p q \<longleftrightarrow> (\<forall>x. root q (root p x) = root q x)"

lemma coarser_refl: "decreasing p \<Longrightarrow> coarser p p"
  by (simp add: coarser_def)

lemma coarser_trans: "coarser p q \<Longrightarrow> coarser q r \<Longrightarrow> coarser p r"
  unfolding coarser_def by metis

lemma coarser_link:
  assumes "decreasing p" "p hi = None" "p lo = None" "lo < hi"
  shows "coarser p (p(hi \<mapsto> lo))"
  using root_link [OF assms] root_idem [OF assms(1)] by (simp add: coarser_def)

lemma canon_coarser: "coarser p q \<Longrightarrow> canon (canon v p) q = canon v q"
proof (induction v p rule: canon.induct)
  case (2 xs p)
  then have "map (\<lambda>x. canon x q) (map (\<lambda>x. canon x p) xs) = map (\<lambda>x. canon x q) xs" by simp
  then have "(\<lambda>x. canon x q) ` set (map (\<lambda>x. canon x p) xs) = (\<lambda>x. canon x q) ` set xs"
    by (metis set_map)
  then show ?case by (simp add: sort_dedup_eq)
qed (auto simp: coarser_def)

lemma canon_idem [simp]: "decreasing p \<Longrightarrow> canon (canon v p) p = canon v p"
  by (rule canon_coarser) (rule coarser_refl)

text \<open>Every set of a value is strictly sorted and every number fits its width.\<close>

definition in_i64 :: "int \<Rightarrow> bool" where
  "in_i64 n \<longleftrightarrow> - (2 ^ 63) \<le> n \<and> n < 2 ^ 63"

function wf_value :: "val \<Rightarrow> bool" where
  "wf_value (VEq x) \<longleftrightarrow> True"
| "wf_value (VInt n) \<longleftrightarrow> in_i64 n"
| "wf_value (VText s) \<longleftrightarrow> True"
| "wf_value (VFloat n) \<longleftrightarrow> in_i64 n"
| "wf_value (VSet xs) \<longleftrightarrow> sorted_wrt (<) xs \<and> (\<forall>x \<in> set xs. wf_value x)"
| "wf_value (VKey k) \<longleftrightarrow> wf_tkey k"
  by pat_completeness auto
termination
  by (relation "measure size")
    (auto simp: less_Suc_eq_le dest: size_list_estimation' [where f = size, OF _ order_refl])

lemma wf_canon: "wf_value v \<Longrightarrow> wf_value (canon v p)"
proof (induction v p rule: canon.induct)
  case (2 xs p)
  then show ?case by (auto simp: sort_dedup_strict)
qed simp_all

section \<open>Properties\<close>

text \<open>
  C35. Following parent links that go to smaller identities terminates, and ends in an identity
  without a parent that is not larger than the start.
\<close>

theorem root_terminates:
  assumes "decreasing p"
  shows "while_option (\<lambda>x. p x \<noteq> None \<and> p x \<noteq> Some x) (\<lambda>x. the (p x)) x = Some (root p x) \<and>
    p (root p x) = None \<and> root p (root p x) = root p x \<and> root p x \<le> x"
proof -
  from root_loop_returns [OF assms, of x] obtain r where
    r: "while_option (\<lambda>x. p x \<noteq> None \<and> p x \<noteq> Some x) (\<lambda>x. the (p x)) x = Some r" by blast
  then have "root p x = r" unfolding root_def while_def by simp
  with r show ?thesis
    using root_is_root [OF assms, of x] root_le [OF assms, of x] root_idem [OF assms, of x] by blast
qed

definition demo_parents :: parents where
  "demo_parents = [5 \<mapsto> 3, 3 \<mapsto> 1]"

lemma demo_decreasing: "decreasing demo_parents"
  by (auto simp: decreasing_def demo_parents_def)

lemma root_terminates_witness: "demo_parents (root demo_parents 5) = None \<and> root demo_parents 5 \<le> 5"
  using root_terminates [OF demo_decreasing, of 5] by blast

text \<open>
  Linking the larger of two roots to the smaller moves exactly the identities of the larger
  class to the smaller root and no other identity.
\<close>

theorem link_moves_one_class:
  assumes "decreasing p" "p hi = None" "p lo = None" "lo < hi"
  shows "decreasing (p(hi \<mapsto> lo)) \<and>
    root (p(hi \<mapsto> lo)) x = (if root p x = hi then lo else root p x)"
  using decreasing_link [OF assms(1,4)] root_link [OF assms] by blast

lemma demo_root: "root demo_parents 5 = 1" "root demo_parents 7 = 7" "root demo_parents 1 = 1"
proof -
  have p: "demo_parents 5 = Some 3" "demo_parents 3 = Some 1" "demo_parents 1 = None"
    "demo_parents 7 = None"
    by (simp_all add: demo_parents_def)
  show "root demo_parents 5 = 1"
    using root_Some [OF demo_decreasing p(1)] root_Some [OF demo_decreasing p(2)] p(3) by simp
  show "root demo_parents 7 = 7" "root demo_parents 1 = 1" using p by simp_all
qed

lemma link_moves_one_class_witness:
  "root (demo_parents(1 \<mapsto> 0)) 5 = 0 \<and> root (demo_parents(1 \<mapsto> 0)) 7 = 7"
proof -
  have p: "demo_parents 1 = None" "demo_parents 0 = None" "(0 :: u64) < 1"
    by (simp_all add: demo_parents_def)
  show ?thesis
    using link_moves_one_class [OF demo_decreasing p, of 5]
      link_moves_one_class [OF demo_decreasing p, of 7] demo_root by simp
qed

text \<open>
  C36. Canonical values are stable: canonicalising keeps a value well formed (sets strictly sorted),
  does nothing the second time, and after further unions gives the same value whether or not the
  value had been canonicalised before them.
\<close>

theorem canon_stable:
  assumes "decreasing p" "p hi = None" "p lo = None" "lo < hi"
  shows "canon (canon v p) p = canon v p \<and>
    canon (canon v p) (p(hi \<mapsto> lo)) = canon v (p(hi \<mapsto> lo)) \<and> (wf_value v \<longrightarrow> wf_value (canon v p))"
  using canon_idem [OF assms(1)] canon_coarser [OF coarser_link [OF assms]] wf_canon by blast

lemma canon_stable_witness:
  "canon (canon (VSet [VEq 5, VEq 7]) demo_parents) (demo_parents(1 \<mapsto> 0)) =
   canon (VSet [VEq 5, VEq 7]) (demo_parents(1 \<mapsto> 0))"
proof -
  have p: "demo_parents 1 = None" "demo_parents 0 = None" "(0 :: u64) < 1"
    by (simp_all add: demo_parents_def)
  show ?thesis using canon_stable [OF demo_decreasing p] by blast
qed

end
