(* ===== verification/Primitives.thy ===== *)
theory Primitives
  imports Values
begin

text \<open>
  The primitive operations \<open>primitive\<close> and the literals of \<open>engine/cell-runtime/src/value.rs\<close>.
  Arithmetic is checked 64-bit: an overflow gives \<open>None\<close> ("no result"), not an error. Containers
  are kept sorted and duplicate free. An argument index out of range is a panic.
\<close>

definition integer :: "val \<Rightarrow> i64 res" where
  "integer v = (case v of VInt x \<Rightarrow> Inr x | _ \<Rightarrow> Inl (Err ''expected integer''))"

definition checked :: "int \<Rightarrow> int option" where
  "checked n = (if in_i64 n then Some n else None)"

definition checked_div :: "int \<Rightarrow> int \<Rightarrow> int option" where
  "checked_div a b = (if b = 0 then None else checked (a sdiv b))"

definition checked_rem :: "int \<Rightarrow> int \<Rightarrow> int option" where
  "checked_rem a b = (if b = 0 \<or> a = - (2 ^ 63) \<and> b = -1 then None else Some (a smod b))"

definition bool_value :: "bool \<Rightarrow> val" where
  "bool_value b = VInt (if b then 1 else 0)"

text \<open>\<open>if output == "Unit" { Ok(yes.then_some(Value::Int(0))) } else { Ok(Some(Int(yes))) }\<close>\<close>

definition test_result :: "string \<Rightarrow> bool \<Rightarrow> val option" where
  "test_result output yes =
     (if output = ''Unit'' then (if yes then Some (VInt 0) else None) else Some (bool_value yes))"

definition arg_at :: "val list \<Rightarrow> nat \<Rightarrow> val res" where
  "arg_at args i = idx args i"

definition key_arg :: "val list \<Rightarrow> nat \<Rightarrow> tkey res" where
  "key_arg args i =
     (case get_at args i of Some (VKey k) \<Rightarrow> Inr k | _ \<Rightarrow> Inl (Err ''expected structural key''))"

definition set_arg :: "val list \<Rightarrow> nat \<Rightarrow> val list res" where
  "set_arg args i =
     rbind (arg_at args i) (\<lambda>v. case v of VSet xs \<Rightarrow> Inr xs | _ \<Rightarrow> Inl (Err ''set expected''))"

definition starts_with :: "string \<Rightarrow> string \<Rightarrow> bool" where
  "starts_with p s \<longleftrightarrow> take (length p) s = p"

definition key_node_primitive :: "string \<Rightarrow> val list \<Rightarrow> json \<Rightarrow> val res" where
  "key_node_primitive name args nodes =
     rbind (ok_or (Option.bind (as_array nodes) (find (\<lambda>n. jfield n ''primitive'' = JStr name)))
       (Err ''undeclared key node primitive'')) (\<lambda>n.
     if as_u64 (jfield n ''arity'') \<noteq> Some (length args) then Inl (Err ''key node arity'')
     else rbind (ok_or (as_str (jfield n ''label'')) (Err ''key node label'')) (\<lambda>l.
     rbind (rmapM (key_arg args) [0..<length args]) (\<lambda>ks. Inr (VKey (tkey_new l ks)))))"

definition key_primitive :: "host \<Rightarrow> string \<Rightarrow> val list \<Rightarrow> json \<Rightarrow> val option res" where
  "key_primitive h name args nodes =
     (if name = ''cell-key-decode'' then
        rbind (arg_at args 0) (\<lambda>v. case v of
          VText x \<Rightarrow> Inr (map_option VKey (decode_legacy h x))
        | _ \<Rightarrow> Inl (Err ''key decode input''))
      else if name = ''cell-key-min'' then
        rbind (key_arg args 0) (\<lambda>a. rbind (key_arg args 1) (\<lambda>b.
        Inr (Some (VKey (if b < a then b else a)))))
      else if name = ''cell-key-anchor'' then
        rbind (key_arg args 0) (\<lambda>a. Inr (Some (VKey (tkey_anchor a))))
      else if name = ''cell-key-cmp'' then
        rbind (key_arg args 0) (\<lambda>a. rbind (key_arg args 1) (\<lambda>b.
        Inr (Some (VInt (case tkey_cmp a b of Less \<Rightarrow> -1 | Equal \<Rightarrow> 0 | Greater \<Rightarrow> 1)))))
      else if name = ''cell-key-prefer-left'' then
        rbind (arg_at args 0) (\<lambda>a0. rbind (integer a0) (\<lambda>x.
        rbind (arg_at args 1) (\<lambda>a1. rbind (integer a1) (\<lambda>y.
        if x > y then Inr (Some (bool_value True))
        else if x \<noteq> y then Inr (Some (bool_value False))
        else rbind (key_arg args 2) (\<lambda>k. rbind (key_arg args 3) (\<lambda>l.
          Inr (Some (bool_value (k \<le> l)))))))))
      else if name = ''cell-key-select'' then
        rbind (arg_at args 2) (\<lambda>c. rbind (integer c) (\<lambda>n.
        rbind (arg_at args (if n \<noteq> 0 then 0 else 1)) (\<lambda>v. Inr (Some v))))
      else if name = ''cell-key-base-i64'' then
        rbind (arg_at args 0) (\<lambda>v. rbind (integer v) (\<lambda>n. Inr (Some (VKey (base_i64 n)))))
      else if name = ''cell-key-base-f64'' then
        rbind (arg_at args 0) (\<lambda>v. case v of
          VFloat x \<Rightarrow> Inr (Some (VKey (base_f64 (of_int x))))
        | _ \<Rightarrow> Inl (Err ''float key input''))
      else if name = ''cell-key-base-String'' then
        rbind (arg_at args 0) (\<lambda>v. case v of
          VText x \<Rightarrow> Inr (Some (VKey (base_string h x)))
        | _ \<Rightarrow> Inl (Err ''string key input''))
      else if name = ''cell-key-base-bool'' then
        rbind (arg_at args 0) (\<lambda>v. rbind (integer v) (\<lambda>n.
        Inr (Some (VKey (tkey_new (''bool:'' @ (if n \<noteq> 0 then ''true'' else ''false'')) [])))))
      else if name = ''cell-key-base-Unit'' then Inr (Some (VKey (tkey_new ''Unit:()'' [])))
      else rmap Some (key_node_primitive name args nodes))"

definition arith_op :: "string \<Rightarrow> int \<Rightarrow> int \<Rightarrow> int option" where
  "arith_op name a b =
     (if name = ''+'' then checked (a + b)
      else if name = ''-'' then checked (a - b)
      else if name = ''*'' then checked (a * b)
      else if name = ''/'' then checked_div a b
      else if name = ''%'' then checked_rem a b
      else if name = ''min'' then Some (min a b)
      else Some (max a b))"

definition two_ints :: "val list \<Rightarrow> (int \<Rightarrow> int \<Rightarrow> 'a res) \<Rightarrow> 'a res" where
  "two_ints args f =
     rbind (arg_at args 0) (\<lambda>x. rbind (integer x) (\<lambda>a.
     rbind (arg_at args 1) (\<lambda>y. rbind (integer y) (\<lambda>b. f a b))))"

definition set_op :: "string \<Rightarrow> val list \<Rightarrow> val list \<Rightarrow> val list" where
  "set_op name a b =
     sort_dedup (if name = ''set-union'' then a @ b
       else filter (\<lambda>x. (x \<in> set b) = (name = ''set-intersect'')) a)"

definition plain_primitive :: "string \<Rightarrow> val list \<Rightarrow> string \<Rightarrow> val option res" where
  "plain_primitive name args output =
     (if name = ''='' \<or> name = ''!='' then
        rbind (arg_at args 0) (\<lambda>a. rbind (arg_at args 1) (\<lambda>b.
        Inr (test_result output ((a = b) = (name = ''='')))))
      else if name \<in> {''<'', ''<='', ''>'', ''>=''} then
        two_ints args (\<lambda>a b. Inr (test_result output
          (if name = ''<'' then a < b else if name = ''<='' then a \<le> b
           else if name = ''>'' then a > b else a \<ge> b)))
      else if name \<in> {''+'', ''-'', ''*'', ''/'', ''%'', ''min'', ''max''} then
        two_ints args (\<lambda>a b. Inr (map_option VInt (arith_op name a b)))
      else if name = ''not'' then
        rbind (arg_at args 0) (\<lambda>v. rbind (integer v) (\<lambda>a. Inr (Some (bool_value (a = 0)))))
      else if name \<in> {''and'', ''or'', ''xor'', ''implies''} then
        two_ints args (\<lambda>x y. let a = x \<noteq> 0; b = y \<noteq> 0 in Inr (Some (bool_value
          (if name = ''and'' then a \<and> b else if name = ''or'' then a \<or> b
           else if name = ''xor'' then a \<noteq> b else \<not> a \<or> b))))
      else if name = ''set-of'' \<or> name = ''set-empty'' then Inr (Some (VSet (sort_dedup args)))
      else if name = ''set-insert'' \<or> name = ''set-remove'' then
        rbind (set_arg args 0) (\<lambda>xs.
        if name = ''set-insert'' then rbind (arg_at args 1) (\<lambda>x. Inr (Some (VSet (sort_dedup (xs @ [x])))))
        else if xs = [] then Inr (Some (VSet []))
        else rbind (arg_at args 1) (\<lambda>x. Inr (Some (VSet (filter (\<lambda>y. y \<noteq> x) xs)))))
      else if name \<in> {''set-union'', ''set-intersect'', ''set-diff''} then
        rbind (arg_at args 0) (\<lambda>x. rbind (arg_at args 1) (\<lambda>y.
        case (x, y) of (VSet a, VSet b) \<Rightarrow> Inr (Some (VSet (set_op name a b)))
        | _ \<Rightarrow> Inl (Err ''set expected'')))
      else if name = ''set-contains'' \<or> name = ''set-not-contains'' then
        rbind (set_arg args 0) (\<lambda>xs. rbind (arg_at args 1) (\<lambda>x.
        Inr (if (x \<in> set xs) = (name = ''set-contains'') then Some (VInt 0) else None)))
      else if name = ''set-length'' then
        rbind (set_arg args 0) (\<lambda>xs. Inr (Some (VInt (sint (of_nat (length xs) :: u64)))))
      else Inl (Err (''unsupported primitive '' @ name)))"

definition primitive :: "host \<Rightarrow> string \<Rightarrow> val list \<Rightarrow> string \<Rightarrow> json \<Rightarrow> val option res" where
  "primitive h name args output nodes =
     (if starts_with ''cell-key-'' name then key_primitive h name args nodes
      else plain_primitive (case strip_prefix ''bool-'' name of None \<Rightarrow> name | Some n \<Rightarrow> n) args output)"

definition literal :: "json \<Rightarrow> val res" where
  "literal j =
     rbind (ok_or (as_str (jfield (jfield j ''sort'') ''kind'')) (Err ''literal sort'')) (\<lambda>kind.
     let n = jfield j ''literal'' in
       if kind = ''String'' then rmap VText (ok_or (as_str n) (Err ''string literal''))
       else if kind = ''f64'' then rmap VFloat (ok_or (as_i64 n) (Err ''float bits''))
       else if kind = ''i64'' \<or> kind = ''bool'' \<or> kind = ''Unit'' then
         rmap VInt (ok_or (as_i64 n) (Err ''integer literal''))
       else Inl (Err (''unsupported literal '' @ kind)))"

section \<open>Results are well formed\<close>

lemma integer_Inr [res_simps]: "integer v = Inr n \<longleftrightarrow> v = VInt n"
  by (auto simp: integer_def split: val.splits)

lemma key_arg_Inr [res_simps]: "key_arg args i = Inr k \<longleftrightarrow> i < length args \<and> args ! i = VKey k"
  by (auto simp: key_arg_def get_at_def split: option.splits val.splits if_splits)

lemma set_arg_Inr [res_simps]: "set_arg args i = Inr xs \<longleftrightarrow> i < length args \<and> args ! i = VSet xs"
  by (auto simp: set_arg_def arg_at_def res_simps split: val.splits)

lemma in_i64_bool [simp]: "in_i64 0" "in_i64 1" "in_i64 (-1)"
  by (simp_all add: in_i64_def)

lemma wf_bool_value [simp]: "wf_value (bool_value b)"
  by (simp add: bool_value_def)

lemma wf_test_result: "test_result output b = Some v \<Longrightarrow> wf_value v"
  by (auto simp: test_result_def split: if_splits)

lemma wf_tkey_anchor: "wf_tkey k \<Longrightarrow> wf_tkey (tkey_anchor k)"
  by (simp add: tkey_anchor_def)

lemma wf_base_keys [simp]: "wf_tkey (base_i64 n)" "wf_tkey (base_f64 b)" "wf_tkey (base_string h s)"
  "wf_tkey (tkey_new l [])"
  by (simp_all add: base_i64_def base_f64_def base_string_def tkey_new_def)

lemma wf_key_node:
  assumes "\<forall>a \<in> set args. wf_value a" "key_node_primitive name args nodes = Inr v"
  shows "wf_value v"
proof -
  from assms(2) obtain l ks where ks: "rmapM (key_arg args) [0..<length args] = Inr ks"
    and v: "v = VKey (tkey_new l ks)"
    by (auto simp: key_node_primitive_def res_simps split: if_splits)
  have "wf_tkey k" if "k \<in> set ks" for k
  proof -
    from rmapM_Inr [OF ks] that obtain i where "i < length args" "args ! i = VKey k"
      by (auto simp: list_all2_conv_all_nth in_set_conv_nth res_simps)
    then show ?thesis using assms(1) by (metis nth_mem wf_value.simps(6))
  qed
  then show ?thesis by (simp add: v tkey_new_def)
qed

lemma wf_args: "\<forall>a \<in> set args. wf_value a \<Longrightarrow> i < length args \<Longrightarrow> args ! i = v \<Longrightarrow> wf_value v"
  by auto

lemma wf_key_primitive:
  assumes wf: "\<forall>a \<in> set args. wf_value a" and run: "key_primitive h name args nodes = Inr (Some v)"
  shows "wf_value v"
proof -
  have arg: "wf_value (args ! 0)" if "args \<noteq> []"
    using wf that by simp
  have key0: "wf_tkey k" if "args \<noteq> []" "args ! 0 = VKey k" for k
    using arg [OF that(1)] that(2) by simp
  have arg1: "wf_value (args ! Suc 0)" if "Suc 0 < length args"
    using wf that by simp
  have key1: "wf_tkey k" if "Suc 0 < length args" "args ! Suc 0 = VKey k" for k
    using arg1 [OF that(1)] that(2) by simp
  have ord: "wf_value (VInt (case c of Less \<Rightarrow> -1 | Equal \<Rightarrow> 0 | Greater \<Rightarrow> 1))" for c
    by (cases c) simp_all
  show ?thesis
    using run arg key0 arg1 key1 ord wf_key_node [OF wf, of name nodes v]
    by (auto simp: key_primitive_def res_simps arg_at_def rmap_def wf_tkey_anchor
        intro: wf_decode_legacy split: if_splits val.splits)
qed

lemma checked_Some [simp]: "checked n = Some m \<longleftrightarrow> m = n \<and> in_i64 n"
  by (auto simp: checked_def)

lemma smod_bounds: "b \<noteq> 0 \<Longrightarrow> \<bar>a smod b\<bar> < \<bar>b :: int\<bar>"
  using smod_int_range [of b a] by auto

lemma arith_op_in_i64:
  assumes "in_i64 a" "in_i64 b" "arith_op name a b = Some n"
  shows "in_i64 n"
proof -
  have "in_i64 (a smod b)" if "b \<noteq> 0"
    using smod_bounds [OF that, of a] assms(2) by (auto simp: in_i64_def)
  then show ?thesis
    using assms by (auto simp: arith_op_def checked_div_def checked_rem_def min_def max_def split: if_splits)
qed

lemma in_i64_sint [simp]: "in_i64 (sint (w :: u64))"
  using sint_greater_eq [of w] sint_less [of w] by (simp add: in_i64_def)

lemma wf_VSet: "wf_value (VSet xs) \<longleftrightarrow> sorted_wrt (<) xs \<and> (\<forall>x \<in> set xs. wf_value x)"
  by simp

lemma set_op_set [simp]:
  "set (set_op ''set-union'' a b) = set a \<union> set b"
  "set (set_op ''set-intersect'' a b) = set a \<inter> set b"
  "set (set_op ''set-diff'' a b) = set a - set b"
  by (auto simp: set_op_def)

lemma wf_set_op:
  "wf_value (VSet a) \<Longrightarrow> wf_value (VSet b) \<Longrightarrow> wf_value (VSet (set_op name a b))"
  by (auto simp: set_op_def sort_dedup_strict split: if_splits)

lemma two_ints_Inr:
  assumes "\<forall>a \<in> set args. wf_value a" "two_ints args f = Inr v"
  shows "\<exists>a b. in_i64 a \<and> in_i64 b \<and> f a b = Inr v"
proof -
  from assms(2) obtain a b where "0 < length args" "args ! 0 = VInt a" "1 < length args"
    "args ! 1 = VInt b" "f a b = Inr v"
    by (auto simp: two_ints_def res_simps arg_at_def)
  with assms(1) show ?thesis by (metis nth_mem wf_value.simps(2))
qed

lemma wf_plain_primitive:
  assumes wf: "\<forall>a \<in> set args. wf_value a" and run: "plain_primitive name args output = Inr (Some v)"
  shows "wf_value v"
proof -
  have arg: "wf_value (args ! i)" if "i < length args" for i
    using wf that by simp
  have int2: "wf_value v" if "two_ints args f = Inr (Some v)"
    "\<And>a b. in_i64 a \<Longrightarrow> in_i64 b \<Longrightarrow> f a b = Inr (Some v) \<Longrightarrow> wf_value v" for f
    using two_ints_Inr [OF wf that(1)] that(2) by blast
  have set: "sorted_wrt (<) xs \<and> (\<forall>x \<in> set xs. wf_value x)" if "i < length args" "args ! i = VSet xs" for i xs
    using arg [OF that(1)] that(2) by simp
  consider "name \<in> {''='', ''!=''}"
    | "name \<in> {''<'', ''<='', ''>'', ''>=''}"
    | "name \<in> {''+'', ''-'', ''*'', ''/'', ''%'', ''min'', ''max''}"
    | "name \<in> {''and'', ''or'', ''xor'', ''implies''}"
    | "name \<in> {''set-insert'', ''set-remove''}" | "name \<in> {''set-union'', ''set-intersect'', ''set-diff''}"
    | "name \<in> {''not'', ''set-of'', ''set-empty'', ''set-contains'', ''set-not-contains'', ''set-length''}"
    using run by (simp add: plain_primitive_def split: if_splits) blast+
  then show ?thesis
  proof cases
    case 1
    then show ?thesis
      using run by (auto simp: plain_primitive_def res_simps dest: wf_test_result)
  next
    case 2
    then have "two_ints args (\<lambda>a b. Inr (test_result output
          (if name = ''<'' then a < b else if name = ''<='' then a \<le> b
           else if name = ''>'' then a > b else a \<ge> b))) = Inr (Some v)"
      using run by (elim insertE emptyE; simp add: plain_primitive_def)
    then show ?thesis by (rule int2) (simp add: wf_test_result)
  next
    case 3
    then have "two_ints args (\<lambda>a b. Inr (map_option VInt (arith_op name a b))) = Inr (Some v)"
      using run by (elim insertE emptyE; simp add: plain_primitive_def)
    then show ?thesis by (rule int2) (auto dest: arith_op_in_i64)
  next
    case 4
    then have "two_ints args (\<lambda>x y. let a = x \<noteq> 0; b = y \<noteq> 0 in Inr (Some (bool_value
          (if name = ''and'' then a \<and> b else if name = ''or'' then a \<or> b
           else if name = ''xor'' then a \<noteq> b else \<not> a \<or> b)))) = Inr (Some v)"
      using run by (elim insertE emptyE; simp add: plain_primitive_def)
    then show ?thesis by (rule int2) (auto simp: Let_def)
  next
    case 5
    then obtain xs where xs: "0 < length args" "args ! 0 = VSet xs"
      and v: "1 < length args \<and> v = VSet (sort_dedup (xs @ [args ! 1])) \<or> (\<exists>P. v = VSet (filter P xs))"
      using run
      by (elim insertE emptyE; simp add: plain_primitive_def res_simps arg_at_def split: if_splits)
        (blast, metis filter.simps(1))
    have "wf_value (VSet (filter P xs))" for P
      using set [OF xs] by (simp add: sorted_wrt_filter)
    moreover have "wf_value (VSet (sort_dedup (xs @ [args ! 1])))" if "1 < length args"
      using set [OF xs] arg [OF that] by (auto simp: sort_dedup_strict)
    ultimately show ?thesis using v by blast
  next
    case 6
    then obtain a b where ab: "0 < length args" "args ! 0 = VSet a" "1 < length args" "args ! 1 = VSet b"
      "v = VSet (set_op name a b)"
      using run by (auto simp: plain_primitive_def res_simps arg_at_def split: val.splits)
    then show ?thesis using wf_set_op arg by metis
  next
    case 7
    have "wf_value (VSet (sort_dedup args))"
      using wf by (simp add: sort_dedup_strict)
    moreover from 7 have "v = VSet (sort_dedup args) \<or> v = VInt 0 \<or> (\<exists>b. v = bool_value b) \<or>
        (\<exists>w :: u64. v = VInt (sint w))"
      using run
      by (elim insertE emptyE; simp add: plain_primitive_def res_simps split: if_splits) blast+
    ultimately show ?thesis by auto
  qed
qed

section \<open>Properties\<close>

text \<open>
  C37. A primitive applied to well-formed values gives a well-formed value: integers stay in the
  64-bit range, sets stay strictly sorted, keys keep the shape of their anchors.
\<close>

theorem primitive_wf:
  assumes "\<forall>a \<in> set args. wf_value a" "primitive h name args output nodes = Inr (Some v)"
  shows "wf_value v"
  using assms(2) wf_key_primitive [OF assms(1)] wf_plain_primitive [OF assms(1)]
  by (auto simp: primitive_def split: if_splits)

lemma primitive_wf_witness:
  "primitive demo_host ''set-insert'' [VSet [VInt 1, VInt 4], VInt 2] ''S'' JNull =
     Inr (Some (VSet [VInt 1, VInt 2, VInt 4])) \<and> wf_value (VSet [VInt 1, VInt 2, VInt 4])"
proof -
  have run: "primitive demo_host ''set-insert'' [VSet [VInt 1, VInt 4], VInt 2] ''S'' JNull =
     Inr (Some (VSet [VInt 1, VInt 2, VInt 4]))"
    by code_simp
  have "\<forall>a \<in> set [VSet [VInt 1, VInt 4], VInt 2]. wf_value a"
    by (simp add: in_i64_def less_val_def)
  from primitive_wf [OF this run] run show ?thesis by blast
qed

lemma primitive_plain:
  "name \<in> {''/'', ''%'', ''+'', ''-'', ''*''} \<Longrightarrow>
   primitive h name [VInt a, VInt b] output nodes = Inr (map_option VInt (arith_op name a b))"
  by (elim insertE emptyE; simp add: primitive_def starts_with_def strip_prefix_def
      plain_primitive_def two_ints_def arg_at_def integer_def)

text \<open>
  C38. Integer division has no result exactly for divisor zero and for the one overflowing quotient;
  otherwise the quotient and the remainder satisfy the division equation, the remainder is smaller
  than the divisor and the quotient is in range.
\<close>

theorem division_exact:
  assumes "in_i64 a" "in_i64 b"
  shows "if b = 0 \<or> a = - (2 ^ 63) \<and> b = -1
    then primitive h ''/'' [VInt a, VInt b] output nodes = Inr None \<and>
         primitive h ''%'' [VInt a, VInt b] output nodes = Inr None
    else \<exists>q r. primitive h ''/'' [VInt a, VInt b] output nodes = Inr (Some (VInt q)) \<and>
         primitive h ''%'' [VInt a, VInt b] output nodes = Inr (Some (VInt r)) \<and>
         a = q * b + r \<and> \<bar>r\<bar> < \<bar>b\<bar> \<and> in_i64 q \<and> in_i64 r"
proof (cases "b = 0 \<or> a = - (2 ^ 63) \<and> b = -1")
  case True
  moreover have "\<not> in_i64 (- (2 ^ 63) sdiv -1)" by (simp add: in_i64_def)
  ultimately show ?thesis
    by (auto simp: primitive_plain arith_op_def checked_div_def checked_rem_def checked_def)
next
  case False
  have q: "in_i64 (a sdiv b)"
  proof (cases "b = 1 \<or> b = -1")
    case True
    then show ?thesis using assms False by (auto simp: in_i64_def)
  next
    case nontrivial: False
    have "\<bar>a sdiv b\<bar> \<le> \<bar>a\<bar> div 2"
    proof -
      have "\<bar>a sdiv b\<bar> = \<bar>a\<bar> div \<bar>b\<bar>"
        using False by (auto simp: signed_divide_int_def abs_mult abs_sgn_eq pos_imp_zdiv_nonneg_iff)
      also have "\<dots> \<le> \<bar>a\<bar> div 2"
        using nontrivial False by (intro zdiv_mono2) auto
      finally show ?thesis .
    qed
    then show ?thesis using assms(1) by (auto simp: in_i64_def)
  qed
  moreover have "a = (a sdiv b) * b + a smod b"
    by (simp add: sdiv_mult_smod_eq)
  ultimately show ?thesis
    using False smod_bounds [of b a] arith_op_in_i64 [OF assms, of "''%''"]
    by (auto simp: primitive_plain arith_op_def checked_div_def checked_rem_def)
qed

lemma division_exact_witness:
  "primitive demo_host ''/'' [VInt (-7), VInt 2] ''i64'' JNull = Inr (Some (VInt (-3))) \<and>
   (\<exists>q r. primitive demo_host ''/'' [VInt (-7), VInt 2] ''i64'' JNull = Inr (Some (VInt q)) \<and>
     -7 = q * 2 + r \<and> \<bar>r\<bar> < \<bar>2\<bar>)"
proof -
  have "in_i64 (-7)" "in_i64 2" by (simp_all add: in_i64_def)
  from division_exact [OF this, of demo_host "''i64''" JNull] show ?thesis
    by (auto simp: primitive_plain arith_op_def checked_div_def in_i64_def signed_divide_int_def)
qed

lemma primitive_set_op:
  "name \<in> {''set-union'', ''set-intersect'', ''set-diff''} \<Longrightarrow>
   primitive h name [VSet a, VSet b] output nodes = Inr (Some (VSet (set_op name a b)))"
  by (elim insertE emptyE; simp add: primitive_def starts_with_def strip_prefix_def
      plain_primitive_def arg_at_def)

text \<open>
  On sorted sets the three set primitives compute union, intersection and difference, and two
  results are the same value exactly when they have the same elements, so the laws of set algebra
  hold for the values themselves.
\<close>

theorem set_primitives:
  assumes "wf_value (VSet a)" "wf_value (VSet b)"
  shows "\<exists>u i d.
    primitive h ''set-union'' [VSet a, VSet b] output nodes = Inr (Some (VSet u)) \<and>
    primitive h ''set-intersect'' [VSet a, VSet b] output nodes = Inr (Some (VSet i)) \<and>
    primitive h ''set-diff'' [VSet a, VSet b] output nodes = Inr (Some (VSet d)) \<and>
    set u = set a \<union> set b \<and> set i = set a \<inter> set b \<and> set d = set a - set b \<and>
    (u = a \<longleftrightarrow> set b \<subseteq> set a) \<and> (i = a \<longleftrightarrow> set a \<subseteq> set b) \<and> (d = [] \<longleftrightarrow> set a \<subseteq> set b)"
proof -
  let ?f = "\<lambda>n. set_op n a b"
  have a: "a = sorted_list_of_set (set a)"
    using assms(1) by (metis sort_dedup_eq sort_dedup_id wf_VSet)
  have f: "?f n = sorted_list_of_set (set (?f n))" for n
    by (simp add: set_op_def sort_dedup_eq)
  have eq: "?f n = a \<longleftrightarrow> set (?f n) = set a" for n
    using a f [of n] by metis
  have nil: "?f n = [] \<longleftrightarrow> set (?f n) = {}" for n
    by simp
  show ?thesis
    by (intro exI conjI; (rule primitive_set_op)?; (simp add: eq nil)?; blast?)
qed

lemma set_primitives_witness:
  "\<exists>u. primitive demo_host ''set-union'' [VSet [VInt 1, VInt 2], VSet [VInt 2]] ''S'' JNull =
     Inr (Some (VSet u)) \<and> u = [VInt 1, VInt 2]"
proof -
  have "wf_value (VSet [VInt 1, VInt 2])" "wf_value (VSet [VInt 2])"
    by (simp_all add: in_i64_def less_val_def)
  from set_primitives [OF this, of demo_host "''S''" JNull] show ?thesis by auto
qed

end
