(* ===== verification/Recipe.thy ===== *)
theory Recipe
  imports Primitives
begin

text \<open>
  The recipe program that the engine executes, \<open>engine/cell-runtime/src/program.rs\<close>, with the
  types of the plans it carries (\<open>views.rs\<close>, \<open>congruence.rs\<close>, \<open>merge_programs.rs\<close>,
  \<open>known_results.rs\<close>). Positions and slots are \<open>nat\<close>. The plans \<open>multi_stage\<close>,
  \<open>entry_schedule\<close> and \<open>compositions\<close> are not fields of the record: theories that use them
  (\<open>Multistage\<close>, \<open>EntrySchedule\<close>, \<open>Compositions\<close>) parse them and pass them beside the program.
\<close>

datatype arg = Slot nat | Literal val

datatype call = CTable nat | CPrim string string

record atom =
  a_call :: call
  a_args :: "arg list"

datatype op = OpCopy nat arg | OpLet nat call "arg list" | OpSet nat "arg list" arg
  | OpUnion arg arg | OpHide nat "arg list" bool | OpPanic

record table =
  t_name :: string
  t_schema :: "json list"
  t_constructor :: bool
  t_virtual :: bool
  t_merge :: json
  t_internal :: bool

record template =
  tm_name :: string
  tm_sorts :: "json list"
  tm_defs :: "nat \<rightharpoonup> nat"
  tm_ops :: "op list"
  tm_parent_columns :: "nat \<rightharpoonup> nat"

record rule =
  r_constructor_only :: bool
  r_template :: nat
  r_query :: "atom list"
  r_inputs :: "nat list"
  r_seminaive :: bool
  r_direct :: "nat option"

text \<open>Plans: reference views, local congruence, merge programs, known results.\<close>

record carrier =
  ca_atom :: nat
  ca_table :: nat
  ca_columns :: "arg list"

record layout =
  l_reference_only :: bool
  l_slots :: "nat \<rightharpoonup> nat \<times> nat"
  l_carriers :: "carrier list"

record views =
  v_layouts :: "nat \<rightharpoonup> layout"
  v_markers :: "nat set"
  v_exports :: "nat \<rightharpoonup> (nat \<rightharpoonup> (nat \<times> nat) list)"

record cmerge =
  cm_left :: nat
  cm_right :: nat
  cm_requires :: "nat set"

record cgroup =
  cg_guards :: "(arg \<times> arg) list"
  cg_merges :: "cmerge list"
  cg_requires :: "nat set"

record congruence =
  cc_templates :: "nat \<rightharpoonup> cgroup list"
  cc_reorder_safe :: bool

record merge_prog =
  mp_operations :: "op list"
  mp_result :: arg

record merge_programs =
  mp_merges :: "nat \<rightharpoonup> merge_prog"
  mp_entries :: "nat \<times> nat \<rightharpoonup> nat list"

datatype source = SQuery nat | SEffect nat

record known_plans =
  kp_static_slots :: "arg option list list"
  kp_static_skip :: "bool list list"
  kp_values :: "nat \<rightharpoonup> arg option list"
  kp_rules :: "nat \<rightharpoonup> source option list"
  kp_queries :: "nat set"
  kp_remember :: "nat \<rightharpoonup> nat set"

record program =
  p_known_results :: known_plans
  p_merge_programs :: merge_programs
  p_views :: views
  p_congruence :: congruence
  p_tables :: "table list"
  p_templates :: "template list"
  p_rules :: "rule list"
  p_sets :: "string \<rightharpoonup> nat list"
  p_control :: "json list"
  p_initial :: "json list"
  p_table_templates :: "nat list"
  p_artifact :: json

definition no_known :: known_plans where
  "no_known = \<lparr>kp_static_slots = [], kp_static_skip = [], kp_values = Map.empty,
     kp_rules = Map.empty, kp_queries = {}, kp_remember = Map.empty\<rparr>"

definition no_merges :: merge_programs where
  "no_merges = \<lparr>mp_merges = Map.empty, mp_entries = Map.empty\<rparr>"

definition no_views :: views where
  "no_views = \<lparr>v_layouts = Map.empty, v_markers = {}, v_exports = Map.empty\<rparr>"

definition no_congruence :: congruence where
  "no_congruence = \<lparr>cc_templates = Map.empty, cc_reorder_safe = False\<rparr>"

section \<open>The order of arguments\<close>

fun arg_cmp :: "arg \<Rightarrow> arg \<Rightarrow> ordering" where
  "arg_cmp (Slot i) (Slot j) = cmp_lin i j"
| "arg_cmp (Slot i) (Literal w) = Less"
| "arg_cmp (Literal v) (Slot j) = Greater"
| "arg_cmp (Literal v) (Literal w) = value_cmp v w"

interpretation arg_order: ord_contract arg_cmp
proof
  fix x y z :: arg
  show "arg_cmp x y = Equal \<longleftrightarrow> x = y"
    by (cases x; cases y) (auto simp: value_cmp_eq)
  show "arg_cmp y x = reverse_ord (arg_cmp x y)"
    by (cases x; cases y) (auto intro: value_cmp_sym)
  show "arg_cmp x y = Less \<Longrightarrow> arg_cmp y z = Less \<Longrightarrow> arg_cmp x z = Less"
    by (cases x; cases y; cases z) (auto intro: value_cmp_trans)
qed

instantiation arg :: linorder
begin

definition less_eq_arg :: "arg \<Rightarrow> arg \<Rightarrow> bool" where
  "less_eq_arg a b \<longleftrightarrow> arg_cmp a b \<noteq> Greater"

definition less_arg :: "arg \<Rightarrow> arg \<Rightarrow> bool" where
  "less_arg a b \<longleftrightarrow> arg_cmp a b = Less"

instance
proof
  fix x y z :: arg
  show "x < y \<longleftrightarrow> x \<le> y \<and> \<not> y \<le> x"
    unfolding less_eq_arg_def less_arg_def by (rule arg_order.less_le)
  show "x \<le> x"
    by (simp add: less_eq_arg_def)
  show "x \<le> y \<Longrightarrow> y \<le> z \<Longrightarrow> x \<le> z"
    unfolding less_eq_arg_def by (rule arg_order.le_trans)
  show "x \<le> y \<Longrightarrow> y \<le> x \<Longrightarrow> x = y"
    unfolding less_eq_arg_def by (rule arg_order.le_antisym)
  show "x \<le> y \<or> y \<le> x"
    unfolding less_eq_arg_def by (rule arg_order.le_linear)
qed

end

section \<open>Reading arguments and calls\<close>

definition load_arg :: "json \<Rightarrow> arg res" where
  "load_arg j =
     (case as_u64 (jfield j ''slot'') of
        Some i \<Rightarrow> Inr (Slot i)
      | None \<Rightarrow> rmap Literal (literal j))"

definition load_args :: "json \<Rightarrow> arg list res" where
  "load_args j = rbind (j_array j) (rmapM load_arg)"

definition load_call :: "json \<Rightarrow> (string \<rightharpoonup> nat) \<Rightarrow> call res" where
  "load_call j names =
     (case as_str (jfield j ''table'') of
        Some t \<Rightarrow> rmap CTable (ok_or (names t) (Err ''unknown operator''))
      | None \<Rightarrow>
          rbind (j_string (jfield j ''primitive'')) (\<lambda>p.
          rbind (j_string (jfield j ''output'')) (\<lambda>out. Inr (CPrim p out))))"

section \<open>Reading tables\<close>

definition sort_kind :: "json \<Rightarrow> string option" where
  "sort_kind s = as_str (jfield s ''kind'')"

definition supported_kinds :: "string list" where
  "supported_kinds =
     [''eq'', ''i64'', ''bool'', ''Unit'', ''String'', ''set'', ''f64'', ''structural_key'']"

definition load_table :: "json \<Rightarrow> table list \<times> (string \<rightharpoonup> nat) \<Rightarrow> (table list \<times> (string \<rightharpoonup> nat)) res" where
  "load_table t st =
     (let (tables, names) = st in
      rbind (j_array (jfield t ''schema'')) (\<lambda>schema.
      if schema = [] then Inl (Err ''empty schema'')
      else rbind (ensure_res (\<forall>s \<in> set schema. sort_kind s \<in> Some ` set supported_kinds)
        (Err ''unsupported sort'')) (\<lambda>_.
      rbind (j_string (jfield t ''name'')) (\<lambda>name.
      if names name \<noteq> None then Inl (Err ''duplicate operator'')
      else
        let constructor = (jfield t ''kind'' = JStr ''constructor'');
            virtual_fact = (constructor \<or>
              (jfield (last schema) ''kind'' = JStr ''Unit'' \<and> jfield t ''merge_expr'' = JNull))
        in Inr (tables @ [\<lparr>t_name = name, t_schema = schema, t_constructor = constructor,
                 t_virtual = virtual_fact, t_merge = jfield t ''merge_expr'',
                 t_internal = (case as_bool (jfield t ''internal'') of None \<Rightarrow> False | Some b \<Rightarrow> b)\<rparr>],
               names(name \<mapsto> length tables))))))"

section \<open>Reading rules\<close>

definition load_effect :: "json \<Rightarrow> (string \<rightharpoonup> nat) \<Rightarrow> nat \<Rightarrow> op res" where
  "load_effect e names dst =
     rbind (j_string (jfield e ''op'')) (\<lambda>o'.
       if o' = ''copy'' then rmap (OpCopy dst) (load_arg (jfield e ''arg''))
       else if o' = ''let'' then
         rbind (load_call (jfield e ''call'') names) (\<lambda>c.
         rbind (load_args (jfield e ''args'')) (\<lambda>aa. Inr (OpLet dst c aa)))
       else if o' = ''set'' then
         rbind (j_string (jfield (jfield e ''call'') ''table'')) (\<lambda>n.
         rbind (ok_or (names n) (Err ''set operator'')) (\<lambda>t.
         rbind (load_args (jfield e ''args'')) (\<lambda>aa.
         rbind (load_arg (jfield e ''value'')) (\<lambda>v. Inr (OpSet t aa v)))))
       else if o' = ''union'' then
         rbind (load_args (jfield e ''args'')) (\<lambda>aa.
         case aa of [a, b] \<Rightarrow> Inr (OpUnion a b) | _ \<Rightarrow> Inl (Err ''union arity''))
       else if o' = ''subsume'' \<or> o' = ''delete'' then
         rbind (j_string (jfield (jfield e ''call'') ''table'')) (\<lambda>n.
         rbind (ok_or (names n) (Err ''visibility operator'')) (\<lambda>t.
         rbind (load_args (jfield e ''args'')) (\<lambda>aa.
         Inr (OpHide t aa (jfield e ''op'' = JStr ''delete'')))))
       else if o' = ''panic'' then Inr OpPanic
       else Inl (Err ''unsupported effect''))"

fun op_dst :: "op \<Rightarrow> nat option" where
  "op_dst (OpCopy d _) = Some d"
| "op_dst (OpLet d _ _) = Some d"
| "op_dst _ = None"

definition load_op :: "(string \<rightharpoonup> nat) \<Rightarrow> nat \<Rightarrow> json \<Rightarrow> op list \<times> (nat \<rightharpoonup> nat) \<Rightarrow> (op list \<times> (nat \<rightharpoonup> nat)) res" where
  "load_op names nsorts e st =
     (let (ops, defs) = st;
          dst = (case as_u64 (jfield e ''dst'') of None \<Rightarrow> 0 | Some d \<Rightarrow> d)
      in rbind (load_effect e names dst) (\<lambda>op.
         case op_dst op of
           None \<Rightarrow> Inr (ops @ [op], defs)
         | Some d \<Rightarrow>
             if nsorts \<le> d \<or> defs d \<noteq> None then Inl (Err ''invalid SSA definition'')
             else Inr (ops @ [op], defs(d \<mapsto> length ops))))"

definition load_atom :: "(string \<rightharpoonup> nat) \<Rightarrow> json \<Rightarrow> atom res" where
  "load_atom names a =
     rbind (load_call (jfield a ''call'') names) (\<lambda>c.
     rbind (load_args (jfield a ''args'')) (\<lambda>aa. Inr \<lparr>a_call = c, a_args = aa\<rparr>))"

fun is_table_call :: "call \<Rightarrow> bool" where
  "is_table_call (CTable _) = True"
| "is_table_call (CPrim _ _) = False"

text \<open>\<open>parent_columns.entry(slot).or_insert(col)\<close> over the columns in order.\<close>

definition first_columns :: "arg list \<Rightarrow> nat \<rightharpoonup> nat" where
  "first_columns aa =
     fold (\<lambda>(col, a) m. case a of Slot s \<Rightarrow> (if m s = None then m(s \<mapsto> col) else m) | Literal _ \<Rightarrow> m)
       (enumerate 0 aa) Map.empty"

definition query_direct :: "atom list \<Rightarrow> nat option" where
  "query_direct query =
     (case filter (\<lambda>i. is_table_call (a_call (query ! i))) [0..<length query] of
        [i] \<Rightarrow> Some i | _ \<Rightarrow> None)"

definition parent_columns :: "table list \<Rightarrow> atom list \<Rightarrow> nat option \<Rightarrow> nat \<rightharpoonup> nat" where
  "parent_columns tables query direct =
     (case direct of
        None \<Rightarrow> Map.empty
      | Some i \<Rightarrow>
          (case a_call (query ! i) of
             CTable t \<Rightarrow> if t_virtual (tables ! t) then first_columns (a_args (query ! i)) else Map.empty
           | CPrim _ _ \<Rightarrow> Map.empty))"

definition constructor_only :: "table list \<Rightarrow> op list \<Rightarrow> bool" where
  "constructor_only tables ops \<longleftrightarrow>
     (\<forall>op \<in> set ops. case op of
        OpCopy _ _ \<Rightarrow> True
      | OpLet _ (CTable t) _ \<Rightarrow> t_virtual (tables ! t) \<and> t_constructor (tables ! t)
      | _ \<Rightarrow> False)"

definition load_rule :: "table list \<Rightarrow> (string \<rightharpoonup> nat) \<Rightarrow> json \<Rightarrow> rule list \<times> template list \<Rightarrow> (rule list \<times> template list) res" where
  "load_rule tables names r st =
     (let (rules, templates) = st in
      rbind (j_array (jfield r ''slots'')) (\<lambda>slots.
      let sorts = map (\<lambda>s. jfield s ''sort'') slots;
          inputs = filter (\<lambda>i. jfield (slots ! i) ''definition'' = JStr ''query'') [0..<length slots] in
      rbind (j_array (jfield r ''query'')) (\<lambda>atoms.
      rbind (rmapM (load_atom names) atoms) (\<lambda>query.
      rbind (j_array (jfield r ''effects'')) (\<lambda>effects.
      rbind (rfold (load_op names (length sorts)) effects ([], Map.empty)) (\<lambda>(ops, defs).
      let direct = query_direct query;
          metadata = jfield r ''metadata'' in
      Inr (rules @ [\<lparr>r_constructor_only = constructor_only tables ops,
             r_template = length templates, r_query = query, r_inputs = inputs,
             r_seminaive = (case as_bool (jfield metadata ''seminaive'') of None \<Rightarrow> True | Some b \<Rightarrow> b),
             r_direct = direct\<rparr>],
           templates @ [\<lparr>tm_name = (case as_str (jfield metadata ''name'') of None \<Rightarrow> ''rule'' | Some n \<Rightarrow> n),
             tm_sorts = sorts, tm_defs = defs, tm_ops = ops,
             tm_parent_columns = parent_columns tables query direct\<rparr>])))))))"

text \<open>The template that imports one row of a table.\<close>

definition import_template :: "nat \<Rightarrow> table \<Rightarrow> template" where
  "import_template tid t =
     (let dst = length (t_schema t) - 1 in
      \<lparr>tm_name = ''import/'' @ t_name t, tm_sorts = t_schema t, tm_defs = [dst \<mapsto> 0],
       tm_ops = [OpLet dst (CTable tid) (map Slot [0..<dst])], tm_parent_columns = Map.empty\<rparr>)"

definition load_set :: "nat \<Rightarrow> json \<Rightarrow> (string \<rightharpoonup> nat list) \<Rightarrow> (string \<rightharpoonup> nat list) res" where
  "load_set nrules s sets =
     rbind (j_array (jfield s ''rule_ids'')) (\<lambda>js.
     rbind (rmapM (\<lambda>i. ok_or (as_u64 i) (Err ''invalid rule ID'')) js) (\<lambda>ids.
     if \<exists>i \<in> set ids. nrules \<le> i then Inl (Err ''rule ID out of bounds'')
     else rbind (j_string (jfield s ''name'')) (\<lambda>n. Inr (sets(n \<mapsto> ids)))))"

end
