(* ===== verification/Loader.thy ===== *)
theory Loader
  imports Recipe
begin

text \<open>
  Loading and checking a program, \<open>engine/cell-runtime/src/program.rs\<close>: \<open>Program::load\<close> as far as
  the checked core (tables, rules, templates, rulesets), \<open>Program::validate\<close>, and
  \<open>verify_source\<close>, which compares the decoded recipe with the typed source embedded in the
  artifact. Error texts that print a document are cut to their fixed part. Environment variables
  are a function argument.
\<close>

section \<open>Objects\<close>

text \<open>Object fields are kept in key order; \<open>a[k] = v\<close> panics unless \<open>a\<close> is an object or null.\<close>

fun put_field :: "string \<Rightarrow> json \<Rightarrow> (string \<times> json) list \<Rightarrow> (string \<times> json) list" where
  "put_field k v [] = [(k, v)]"
| "put_field k v ((k', v') # kvs) =
     (if k < k' then (k, v) # (k', v') # kvs
      else if k = k' then (k, v) # kvs else (k', v') # put_field k v kvs)"

definition del_field :: "string \<Rightarrow> (string \<times> json) list \<Rightarrow> (string \<times> json) list" where
  "del_field k kvs = filter (\<lambda>(k', _). k' \<noteq> k) kvs"

fun set_field :: "string \<Rightarrow> json \<Rightarrow> json \<Rightarrow> json res" where
  "set_field k v (JObj kvs) = Inr (JObj (put_field k v kvs))"
| "set_field k v JNull = Inr (JObj [(k, v)])"
| "set_field k v _ = Inl Panic"

lemma map_of_put_field [simp]: "map_of (put_field k v kvs) = (map_of kvs)(k \<mapsto> v)"
  by (induction kvs) auto

section \<open>verify_source\<close>

definition primitive_supported :: "json \<Rightarrow> json \<Rightarrow> bool" where
  "primitive_supported j spec =
     (case (as_str (jfield j ''primitive''), as_array (jfield j ''inputs''), as_str (jfield j ''output'')) of
        (Some name, Some inputs, Some output) \<Rightarrow>
          (let base = (case strip_prefix ''bool-'' name of None \<Rightarrow> name | Some n \<Rightarrow> n);
               i64 = JStr ''i64''; b = JStr ''bool'' in
           if starts_with ''cell-key-'' base then key_signature j spec
           else if base \<in> {''+'', ''-'', ''*'', ''/'', ''%'', ''min'', ''max''} then
             inputs = [i64, i64] \<and> output = ''i64''
           else if base \<in> {''<'', ''<='', ''>'', ''>=''} then
             inputs = [i64, i64] \<and> (output = ''Unit'' \<or> output = ''bool'')
           else if base = ''='' \<or> base = ''!='' then
             (case inputs of [x, y] \<Rightarrow> x = y \<and> (output = ''Unit'' \<or> output = ''bool'') | _ \<Rightarrow> False)
           else if base = ''not'' then inputs = [b] \<and> output = ''bool''
           else if base \<in> {''and'', ''or'', ''xor'', ''implies''} then inputs = [b, b] \<and> output = ''bool''
           else base \<in> {''set-of'', ''set-empty'', ''set-insert'', ''set-remove'', ''set-union'',
             ''set-intersect'', ''set-diff'', ''set-contains'', ''set-not-contains'', ''set-length''})
      | _ \<Rightarrow> True)"

text \<open>\<open>inspect\<close> leaves the set of unsupported primitives empty.\<close>

fun all_supported :: "json \<Rightarrow> json \<Rightarrow> bool" where
  "all_supported spec (JArr xs) \<longleftrightarrow> (\<forall>x \<in> set xs. all_supported spec x)"
| "all_supported spec (JObj kvs) \<longleftrightarrow>
     primitive_supported (JObj kvs) spec \<and> (\<forall>kv \<in> set kvs. all_supported spec (snd kv))"
| "all_supported spec _ \<longleftrightarrow> True"

definition decode_arg :: "json list \<Rightarrow> json \<Rightarrow> json res" where
  "decode_arg slots v =
     (case as_u64 (jfield v ''slot'') of
        Some i \<Rightarrow>
          rbind (ok_or (get_at slots i) (Err ''invalid source slot'')) (\<lambda>s.
          Inr (JObj [(''sort'', jfield s ''sort''), (''var'', jfield s ''name'')]))
      | None \<Rightarrow> Inr v)"

definition decode_args :: "json list \<Rightarrow> json list \<Rightarrow> json res" where
  "decode_args slots aa = rmap JArr (rmapM (decode_arg slots) aa)"

definition decode_atom :: "json list \<Rightarrow> json \<Rightarrow> json res" where
  "decode_atom slots a =
     rbind (j_array (jfield a ''args'')) (\<lambda>aa.
     rbind (decode_args slots aa) (\<lambda>d. set_field ''args'' d a))"

definition decode_named :: "json list \<Rightarrow> json \<Rightarrow> string \<Rightarrow> json \<Rightarrow> json res" where
  "decode_named slots effect k a =
     (if jfield effect k = JNull then Inr a
      else rbind (decode_arg slots (jfield effect k)) (\<lambda>d. set_field k d a))"

definition decode_effect :: "json list \<Rightarrow> json \<Rightarrow> json res" where
  "decode_effect slots effect =
     (case effect of
        JObj kvs \<Rightarrow>
          rbind (case as_array (jfield effect ''args'') of
             None \<Rightarrow> Inr (JObj (del_field ''kind'' kvs))
           | Some aa \<Rightarrow> rbind (decode_args slots aa) (\<lambda>d.
               set_field ''args'' d (JObj (del_field ''kind'' kvs)))) (\<lambda>a1.
          rbind (decode_named slots effect ''value'' a1) (\<lambda>a2.
          rbind (decode_named slots effect ''arg'' a2) (\<lambda>a3.
          case as_u64 (jfield effect ''dst'') of
            None \<Rightarrow> Inr a3
          | Some dst \<Rightarrow>
              rbind (ok_or (get_at slots dst) (Err ''definition slot'')) (\<lambda>s.
              set_field ''dst'' (jfield s ''name'') a3))))
      | _ \<Rightarrow> Inl (Err ''effect object''))"

definition decode_rule :: "json \<Rightarrow> json res" where
  "decode_rule r =
     rbind (j_array (jfield r ''slots'')) (\<lambda>slots.
     rbind (j_array (jfield r ''query'')) (\<lambda>query.
     rbind (rmapM (decode_atom slots) query) (\<lambda>body.
     rbind (j_array (jfield r ''effects'')) (\<lambda>effects.
     rbind (rmapM (decode_effect slots) effects) (\<lambda>head.
     rbind (set_field ''body'' (JArr body) (jfield r ''metadata'')) (\<lambda>out.
     set_field ''head'' (JArr head) out))))))"

definition decode_set :: "json list \<Rightarrow> json \<Rightarrow> json res" where
  "decode_set decoded set' =
     (case set' of
        JObj kvs \<Rightarrow>
          rbind (j_array (jfield set' ''rule_ids'')) (\<lambda>ids.
          rbind (rmapM (\<lambda>i. rbind (ok_or (as_u64 i) (Err ''rule ID'')) (\<lambda>n.
            ok_or (get_at decoded n) (Err ''rule missing''))) ids) (\<lambda>rs.
          set_field ''rules'' (JArr rs) (JObj (del_field ''rule_ids'' kvs))))
      | _ \<Rightarrow> Inl Panic)"

definition verify_source :: "json \<Rightarrow> unit res" where
  "verify_source j =
     (let ir = jfield j ''recipe''; core = jfield j ''source_core'' in
      if \<not> all_supported (jfield core ''structural_key'') core
      then Inl (Err ''unsupported primitive capabilities before execution'')
      else if jfield ir ''tables'' \<noteq> jfield core ''tables'' \<or>
        jfield ir ''control'' \<noteq> jfield core ''schedule'' \<or>
        jfield j ''initial'' \<noteq> jfield core ''initial''
      then Inl (Err ''source schema, schedule or initial facts differ'')
      else
        rbind (j_array (jfield ir ''rules'')) (\<lambda>rules.
        rbind (rmapM decode_rule rules) (\<lambda>decoded.
        rbind (j_array (jfield ir ''rulesets'')) (\<lambda>sets.
        rbind (j_array (jfield core ''rulesets'')) (\<lambda>source_sets.
        if length sets \<noteq> length source_sets then Inl (Err ''rulesets differ'')
        else rfold (\<lambda>(s, expected) _.
            rbind (decode_set decoded s) (\<lambda>d.
            if d \<noteq> expected then Inl (Err ''recipe query/effect differs from source'') else Inr ()))
          (zip sets source_sets) ())))))"

section \<open>validate\<close>

definition check_arg :: "nat \<Rightarrow> nat set \<Rightarrow> arg \<Rightarrow> unit res" where
  "check_arg nsorts defined a =
     (case a of
        Slot i \<Rightarrow> if nsorts \<le> i \<or> i \<notin> defined then Inl (Err ''undefined slot'') else Inr ()
      | Literal _ \<Rightarrow> Inr ())"

definition check_args :: "nat \<Rightarrow> nat set \<Rightarrow> arg list \<Rightarrow> unit res" where
  "check_args nsorts defined aa = rfold (\<lambda>a _. check_arg nsorts defined a) aa ()"

definition validate_atom :: "table list \<Rightarrow> json list \<Rightarrow> nat set \<Rightarrow> atom \<Rightarrow> unit res" where
  "validate_atom tables sorts defined a =
     rbind (check_args (length sorts) defined (a_args a)) (\<lambda>_.
     case a_call a of
       CPrim _ _ \<Rightarrow> Inr ()
     | CTable i \<Rightarrow>
         rbind (idx tables i) (\<lambda>t.
         if length (a_args a) \<noteq> length (t_schema t) then Inl (Err ''query arity'')
         else rfold (\<lambda>(v, s) _. case v of
             Slot k \<Rightarrow> rbind (idx sorts k) (\<lambda>sort.
               if sort \<noteq> s then Inl (Err ''query type mismatch'') else Inr ())
           | Literal _ \<Rightarrow> Inr ()) (zip (a_args a) (t_schema t)) ()))"

fun validate_op :: "table list \<Rightarrow> json list \<Rightarrow> op \<Rightarrow> nat set \<Rightarrow> nat set res" where
  "validate_op tables sorts (OpCopy dst a) defined =
     rbind (check_arg (length sorts) defined a) (\<lambda>_. Inr (insert dst defined))"
| "validate_op tables sorts (OpLet dst c aa) defined =
     rbind (check_args (length sorts) defined aa) (\<lambda>_.
     rbind (case c of
         CPrim _ _ \<Rightarrow> Inr ()
       | CTable i \<Rightarrow> rbind (idx tables i) (\<lambda>t.
           if length aa + 1 \<noteq> length (t_schema t) then Inl (Err ''construct/read type or arity'')
           else rbind (idx sorts dst) (\<lambda>s.
             if s \<noteq> last (t_schema t) then Inl (Err ''construct/read type or arity'') else Inr ()))) (\<lambda>_.
     Inr (insert dst defined)))"
| "validate_op tables sorts (OpSet i aa v) defined =
     rbind (check_args (length sorts) defined aa) (\<lambda>_.
     rbind (check_arg (length sorts) defined v) (\<lambda>_.
     rbind (idx tables i) (\<lambda>t.
     if length aa + 1 \<noteq> length (t_schema t) then Inl (Err ''set arity'') else Inr defined)))"
| "validate_op tables sorts (OpUnion a b) defined =
     rbind (check_arg (length sorts) defined a) (\<lambda>_.
     rbind (check_arg (length sorts) defined b) (\<lambda>_.
     case (a, b) of
       (Slot x, Slot y) \<Rightarrow>
         rbind (idx sorts x) (\<lambda>s. rbind (idx sorts y) (\<lambda>s'.
         if s \<noteq> s' \<or> jfield s ''kind'' \<noteq> JStr ''eq'' then Inl (Err ''invalid union type'')
         else Inr defined))
     | _ \<Rightarrow> Inl (Err ''union literals unsupported'')))"
| "validate_op tables sorts (OpHide i aa _) defined =
     rbind (check_args (length sorts) defined aa) (\<lambda>_.
     rbind (idx tables i) (\<lambda>t.
     if length aa + 1 \<noteq> length (t_schema t) then Inl (Err ''visibility arity'') else Inr defined))"
| "validate_op tables sorts OpPanic defined = Inr defined"

definition validate_rule :: "table list \<Rightarrow> template list \<Rightarrow> rule \<Rightarrow> unit res" where
  "validate_rule tables templates r =
     rbind (idx templates (r_template r)) (\<lambda>t.
     rbind (rfold (\<lambda>a _. validate_atom tables (tm_sorts t) (set (r_inputs r)) a) (r_query r) ()) (\<lambda>_.
     rbind (rfold (validate_op tables (tm_sorts t)) (tm_ops t) (set (r_inputs r))) (\<lambda>_.
     Inr ())))"

definition validate :: "program \<Rightarrow> unit res" where
  "validate p = rfold (\<lambda>r _. validate_rule (p_tables p) (p_templates p) r) (p_rules p) ()"

section \<open>load\<close>

definition load_core :: "json \<Rightarrow> program res" where
  "load_core j =
     (let ir = jfield j ''recipe'' in
      rbind (j_array (jfield ir ''tables'')) (\<lambda>ts.
      rbind (rfold load_table ts ([], Map.empty)) (\<lambda>(tables, names).
      rbind (j_array (jfield ir ''rules'')) (\<lambda>rs.
      rbind (rfold (load_rule tables names) rs ([], [])) (\<lambda>(rules, templates).
      let imports = map (\<lambda>(tid, t). import_template tid t) (enumerate 0 tables) in
      rbind (j_array (jfield ir ''rulesets'')) (\<lambda>ss.
      rbind (rfold (load_set (length rules)) ss Map.empty) (\<lambda>sets.
      rbind (j_array (jfield ir ''control'')) (\<lambda>control.
      rbind (j_array (jfield j ''initial'')) (\<lambda>initial.
      Inr \<lparr>p_known_results = no_known, p_merge_programs = no_merges, p_views = no_views,
        p_congruence = no_congruence, p_tables = tables, p_templates = templates @ imports,
        p_rules = rules, p_sets = sets, p_control = control, p_initial = initial,
        p_table_templates = map (\<lambda>i. length templates + i) [0..<length tables],
        p_artifact = j\<rparr>)))))))))"

text \<open>\<open>load(j, compiling)\<close> up to and including \<open>validate\<close>; the plans are parsed afterwards.\<close>

definition load_checked :: "(string \<Rightarrow> string option) \<Rightarrow> json \<Rightarrow> bool \<Rightarrow> program res" where
  "load_checked env j compiling =
     (if jfield j ''schema'' \<noteq> JStr ''eggfuse-cell-runtime/v1''
      then Inl (Err ''unsupported Cell runtime artifact'')
      else if \<not> compiling \<and> env ''CELL_CPU_UNION_GRAFT'' = Some ''1'' \<and>
        jfield (jfield j ''multi_stage'') ''union_entries'' = JNull
      then Inl (Err ''union graft requires compiler union_entries; re-emit the CPU device artifact'')
      else if jfield (jfield j ''recipe'') ''schema'' \<noteq> JStr ''eggfuse-recipe/v1'' \<or>
        jfield (jfield j ''recipe'') ''scope'' \<noteq> JStr ''original_program''
      then Inl (Err ''expected original-program Recipe IR'')
      else
        rbind (verify_source j) (\<lambda>_.
        rbind (load_core j) (\<lambda>p.
        rbind (validate p) (\<lambda>_. Inr p))))"

section \<open>What a loaded program guarantees\<close>

fun op_args :: "op \<Rightarrow> arg list" where
  "op_args (OpCopy _ a) = [a]"
| "op_args (OpLet _ _ aa) = aa"
| "op_args (OpSet _ aa v) = aa @ [v]"
| "op_args (OpUnion a b) = [a, b]"
| "op_args (OpHide _ aa _) = aa"
| "op_args OpPanic = []"

text \<open>Each operation names a table of the program with the table's arity.\<close>

fun op_arity :: "table list \<Rightarrow> op \<Rightarrow> bool" where
  "op_arity tables (OpLet _ (CTable i) aa) \<longleftrightarrow> i < length tables \<and> length aa + 1 = length (t_schema (tables ! i))"
| "op_arity tables (OpSet i aa _) \<longleftrightarrow> i < length tables \<and> length aa + 1 = length (t_schema (tables ! i))"
| "op_arity tables (OpHide i aa _) \<longleftrightarrow> i < length tables \<and> length aa + 1 = length (t_schema (tables ! i))"
| "op_arity tables _ \<longleftrightarrow> True"

definition slots_in :: "nat \<Rightarrow> nat set \<Rightarrow> arg list \<Rightarrow> bool" where
  "slots_in nsorts D aa \<longleftrightarrow> (\<forall>i. Slot i \<in> set aa \<longrightarrow> i < nsorts \<and> i \<in> D)"

text \<open>\<open>defs\<close> is exactly the index of the defining operation of each slot.\<close>

definition ssa_defs :: "op list \<Rightarrow> (nat \<rightharpoonup> nat) \<Rightarrow> bool" where
  "ssa_defs ops defs \<longleftrightarrow> (\<forall>d k. defs d = Some k \<longleftrightarrow> k < length ops \<and> op_dst (ops ! k) = Some d)"

definition defined_before :: "op list \<Rightarrow> nat \<Rightarrow> nat set" where
  "defined_before ops k = {d. \<exists>m < k. m < length ops \<and> op_dst (ops ! m) = Some d}"

definition well_scoped :: "table list \<Rightarrow> nat set \<Rightarrow> template \<Rightarrow> bool" where
  "well_scoped tables D t \<longleftrightarrow>
     (\<forall>k < length (tm_ops t).
        op_arity tables (tm_ops t ! k) \<and>
        slots_in (length (tm_sorts t)) (D \<union> defined_before (tm_ops t) k) (op_args (tm_ops t ! k)))"

definition wf_query_atom :: "table list \<Rightarrow> nat \<Rightarrow> nat set \<Rightarrow> atom \<Rightarrow> bool" where
  "wf_query_atom tables nsorts D a \<longleftrightarrow> slots_in nsorts D (a_args a) \<and>
     (case a_call a of CTable i \<Rightarrow> i < length tables \<and> length (a_args a) = length (t_schema (tables ! i))
      | CPrim _ _ \<Rightarrow> True)"

definition wf_rule :: "program \<Rightarrow> rule \<Rightarrow> bool" where
  "wf_rule p r \<longleftrightarrow> r_template r < length (p_rules p) \<and> r_template r < length (p_templates p) \<and>
     (let t = p_templates p ! r_template r in
        ssa_defs (tm_ops t) (tm_defs t) \<and> well_scoped (p_tables p) (set (r_inputs r)) t \<and>
        (\<forall>a \<in> set (r_query r). wf_query_atom (p_tables p) (length (tm_sorts t)) (set (r_inputs r)) a))"

definition wf_program :: "program \<Rightarrow> bool" where
  "wf_program p \<longleftrightarrow>
     distinct (map t_name (p_tables p)) \<and> (\<forall>t \<in> set (p_tables p). t_schema t \<noteq> []) \<and>
     length (p_templates p) = length (p_rules p) + length (p_tables p) \<and>
     p_table_templates p = map (\<lambda>i. length (p_rules p) + i) [0..<length (p_tables p)] \<and>
     (\<forall>i < length (p_tables p).
        p_templates p ! (length (p_rules p) + i) = import_template i (p_tables p ! i)) \<and>
     (\<forall>i < length (p_rules p). r_template (p_rules p ! i) = i \<and> wf_rule p (p_rules p ! i)) \<and>
     (\<forall>n ids. p_sets p n = Some ids \<longrightarrow> (\<forall>i \<in> set ids. i < length (p_rules p)))"

lemma check_arg_Inr [res_simps]:
  "check_arg n D a = Inr u \<longleftrightarrow> (\<forall>i. a = Slot i \<longrightarrow> i < n \<and> i \<in> D)"
  by (auto simp: check_arg_def split: arg.splits)

lemma check_args_Inr [res_simps]: "check_args n D aa = Inr u \<longleftrightarrow> slots_in n D aa"
proof -
  have "rfold (\<lambda>a _. check_arg n D a) aa u' = Inr u \<longleftrightarrow> slots_in n D aa" for u'
    by (induction aa arbitrary: u') (auto simp: res_simps slots_in_def)
  then show ?thesis by (simp add: check_args_def)
qed

lemma slots_in_append [simp]: "slots_in n D (xs @ ys) \<longleftrightarrow> slots_in n D xs \<and> slots_in n D ys"
  by (auto simp: slots_in_def)

lemma slots_in_single [simp]: "slots_in n D [a] \<longleftrightarrow> (\<forall>i. a = Slot i \<longrightarrow> i < n \<and> i \<in> D)"
  by (auto simp: slots_in_def)

lemma slots_in_Nil [simp]: "slots_in n D []"
  by (simp add: slots_in_def)

lemma slots_in_Cons: "slots_in n D (a # aa) \<longleftrightarrow> slots_in n D [a] \<and> slots_in n D aa"
  by (auto simp: slots_in_def)

lemma validate_op_Inr:
  "validate_op tables sorts op D = Inr D' \<Longrightarrow>
   op_arity tables op \<and> slots_in (length sorts) D (op_args op) \<and>
   D' = D \<union> (case op_dst op of None \<Rightarrow> {} | Some d \<Rightarrow> {d})"
  by (cases "(tables, sorts, op, D)" rule: validate_op.cases)
    (auto simp: res_simps slots_in_Cons [of _ _ _ "[_]"] split: call.splits if_splits arg.splits)

lemma defined_before_Suc:
  "defined_before (op # ops) (Suc k) =
    (case op_dst op of None \<Rightarrow> {} | Some d \<Rightarrow> {d}) \<union> defined_before ops k"
  by (auto simp: defined_before_def less_Suc_eq_0_disj split: option.splits)

lemma validate_ops_scoped:
  "rfold (validate_op tables sorts) ops D = Inr D' \<Longrightarrow> k < length ops \<Longrightarrow>
   op_arity tables (ops ! k) \<and> slots_in (length sorts) (D \<union> defined_before ops k) (op_args (ops ! k))"
proof (induction ops arbitrary: D k)
  case (Cons op ops)
  then obtain E where E: "validate_op tables sorts op D = Inr E"
    "rfold (validate_op tables sorts) ops E = Inr D'" by (auto simp: res_simps)
  note op = validate_op_Inr [OF E(1)]
  show ?case
  proof (cases k)
    case 0
    then show ?thesis using op by (simp add: defined_before_def)
  next
    case (Suc k')
    then have "op_arity tables (ops ! k') \<and>
        slots_in (length sorts) (E \<union> defined_before ops k') (op_args (ops ! k'))"
      using Cons.IH [OF E(2), of k'] Cons.prems(2) by simp
    then show ?thesis using op Suc by (simp add: defined_before_Suc Un_assoc)
  qed
qed simp

lemma rfold_all_Inr: "rfold (\<lambda>x _. f x) xs u = Inr v \<Longrightarrow> x \<in> set xs \<Longrightarrow> \<exists>w. f x = Inr w"
  by (induction xs arbitrary: u) (auto simp: res_simps)

definition tables_inv :: "table list \<times> (string \<rightharpoonup> nat) \<Rightarrow> bool" where
  "tables_inv st \<longleftrightarrow>
     (let (tables, names) = st in
      distinct (map t_name tables) \<and> (\<forall>n. names n = None \<longleftrightarrow> n \<notin> t_name ` set tables) \<and>
      (\<forall>t \<in> set tables. t_schema t \<noteq> []))"

lemma load_table_inv: "load_table t st = Inr st' \<Longrightarrow> tables_inv st \<Longrightarrow> tables_inv st'"
  by (auto simp: load_table_def tables_inv_def res_simps Let_def split: prod.splits if_splits)

definition ops_inv :: "op list \<times> (nat \<rightharpoonup> nat) \<Rightarrow> bool" where
  "ops_inv st \<longleftrightarrow> ssa_defs (fst st) (snd st)"

lemma load_op_inv:
  assumes "load_op names n e st = Inr st'" "ops_inv st"
  shows "ops_inv st'"
proof -
  obtain ops defs where st: "st = (ops, defs)" by (cases st)
  from assms(1) obtain op where "(case op_dst op of
      None \<Rightarrow> Inr (ops @ [op], defs)
    | Some d \<Rightarrow> if n \<le> d \<or> defs d \<noteq> None then Inl (Err ''invalid SSA definition'')
                else Inr (ops @ [op], defs(d \<mapsto> length ops))) = Inr st'"
    unfolding load_op_def st by (auto simp: res_simps Let_def)
  then have
    st': "st' = (ops @ [op], case op_dst op of None \<Rightarrow> defs | Some d \<Rightarrow> defs(d \<mapsto> length ops))"
    and fresh: "\<forall>d. op_dst op = Some d \<longrightarrow> defs d = None"
    by (cases "op_dst op"; auto split: if_splits)+
  have old: "defs d = Some k \<longleftrightarrow> k < length ops \<and> op_dst (ops ! k) = Some d" for d k
    using assms(2) by (simp add: ops_inv_def ssa_defs_def st)
  have "(case op_dst op of None \<Rightarrow> defs | Some d \<Rightarrow> defs(d \<mapsto> length ops)) d = Some k \<longleftrightarrow>
      k < length (ops @ [op]) \<and> op_dst ((ops @ [op]) ! k) = Some d" for d k
    using old [of d k] old [of d] fresh
    by (cases "k < length ops") (auto simp: nth_append less_Suc_eq split: option.splits)
  then show ?thesis by (simp add: ops_inv_def ssa_defs_def st')
qed

definition rules_inv :: "rule list \<times> template list \<Rightarrow> bool" where
  "rules_inv st \<longleftrightarrow>
     (let (rules, templates) = st in
      length templates = length rules \<and>
      (\<forall>i < length rules. r_template (rules ! i) = i \<and>
         ssa_defs (tm_ops (templates ! i)) (tm_defs (templates ! i))))"

lemma load_rule_inv:
  assumes "load_rule tables names r st = Inr st'" "rules_inv st"
  shows "rules_inv st'"
proof -
  obtain rules templates where st: "st = (rules, templates)" by (cases st)
  from assms(1) obtain effects n ops defs ru tm where
    fold: "rfold (load_op names n) effects ([], Map.empty) = Inr (ops, defs)"
    and st': "st' = (rules @ [ru], templates @ [tm])" and new: "r_template ru = length templates"
      "tm_ops tm = ops" "tm_defs tm = defs"
    by (auto simp: load_rule_def st res_simps Let_def split: prod.splits)
  have "ops_inv (ops, defs)"
    by (rule rfold_invariant [OF fold]) (simp add: ops_inv_def ssa_defs_def, erule (1) load_op_inv)
  then show ?thesis
    using assms(2) new by (auto simp: rules_inv_def st st' nth_append ops_inv_def less_Suc_eq)
qed

lemma load_set_inv:
  "load_set n s sets = Inr sets' \<Longrightarrow> (\<forall>m ids. sets m = Some ids \<longrightarrow> (\<forall>i \<in> set ids. i < n)) \<Longrightarrow>
   (\<forall>m ids. sets' m = Some ids \<longrightarrow> (\<forall>i \<in> set ids. i < n))"
  by (auto simp: load_set_def res_simps not_le split: if_splits)

lemma load_core_shape:
  assumes "load_core j = Inr p"
  shows "distinct (map t_name (p_tables p))" "\<forall>t \<in> set (p_tables p). t_schema t \<noteq> []"
    and "length (p_templates p) = length (p_rules p) + length (p_tables p)"
    and "p_table_templates p = map (\<lambda>i. length (p_rules p) + i) [0..<length (p_tables p)]"
    and "\<forall>i < length (p_tables p).
        p_templates p ! (length (p_rules p) + i) = import_template i (p_tables p ! i)"
    and "\<forall>i < length (p_rules p). r_template (p_rules p ! i) = i \<and>
        ssa_defs (tm_ops (p_templates p ! i)) (tm_defs (p_templates p ! i))"
    and "\<forall>n ids. p_sets p n = Some ids \<longrightarrow> (\<forall>i \<in> set ids. i < length (p_rules p))"
proof -
  from assms obtain ts names rs templates ss control initial where
    T: "rfold load_table ts ([], Map.empty) = Inr (p_tables p, names)"
    and R: "rfold (load_rule (p_tables p) names) rs ([], []) = Inr (p_rules p, templates)"
    and S: "rfold (load_set (length (p_rules p))) ss Map.empty = Inr (p_sets p)"
    and tm: "p_templates p = templates @ map (\<lambda>(tid, t). import_template tid t) (enumerate 0 (p_tables p))"
    and tt: "p_table_templates p = map (\<lambda>i. length templates + i) [0..<length (p_tables p)]"
    by (auto simp: load_core_def Let_def res_simps split: prod.splits)
  have "tables_inv (p_tables p, names)"
    by (rule rfold_invariant [OF T]) (simp add: tables_inv_def, erule (1) load_table_inv)
  then show "distinct (map t_name (p_tables p))" "\<forall>t \<in> set (p_tables p). t_schema t \<noteq> []"
    by (auto simp: tables_inv_def)
  have "rules_inv (p_rules p, templates)"
    by (rule rfold_invariant [OF R]) (simp add: rules_inv_def, erule (1) load_rule_inv)
  then have len: "length templates = length (p_rules p)" and
    ru: "\<forall>i < length (p_rules p). r_template (p_rules p ! i) = i \<and>
        ssa_defs (tm_ops (templates ! i)) (tm_defs (templates ! i))"
    by (auto simp: rules_inv_def)
  show "length (p_templates p) = length (p_rules p) + length (p_tables p)"
    "p_table_templates p = map (\<lambda>i. length (p_rules p) + i) [0..<length (p_tables p)]"
    "\<forall>i < length (p_tables p).
        p_templates p ! (length (p_rules p) + i) = import_template i (p_tables p ! i)"
    "\<forall>i < length (p_rules p). r_template (p_rules p ! i) = i \<and>
        ssa_defs (tm_ops (p_templates p ! i)) (tm_defs (p_templates p ! i))"
    using len ru by (auto simp: tm tt nth_append nth_enumerate_eq)
  show "\<forall>n ids. p_sets p n = Some ids \<longrightarrow> (\<forall>i \<in> set ids. i < length (p_rules p))"
    by (rule rfold_invariant [OF S]) (simp, erule (1) load_set_inv)
qed

lemma validate_rule_wf:
  assumes "validate_rule (p_tables p) (p_templates p) r = Inr u"
    and "r_template r < length (p_rules p)"
    and "ssa_defs (tm_ops (p_templates p ! r_template r)) (tm_defs (p_templates p ! r_template r))"
  shows "wf_rule p r"
proof -
  let ?t = "p_templates p ! r_template r"
  from assms(1) obtain u1 D where q: "rfold (\<lambda>a _. validate_atom (p_tables p) (tm_sorts ?t)
      (set (r_inputs r)) a) (r_query r) () = Inr u1"
    and o: "rfold (validate_op (p_tables p) (tm_sorts ?t)) (tm_ops ?t) (set (r_inputs r)) = Inr D"
    and i: "r_template r < length (p_templates p)"
    by (auto simp: validate_rule_def res_simps)
  have "wf_query_atom (p_tables p) (length (tm_sorts ?t)) (set (r_inputs r)) a" if "a \<in> set (r_query r)" for a
    using rfold_all_Inr [OF q that]
    by (auto simp: validate_atom_def wf_query_atom_def res_simps split: call.splits if_splits)
  with validate_ops_scoped [OF o] assms i show ?thesis
    by (simp add: wf_rule_def well_scoped_def Let_def)
qed

lemma load_checked_wf:
  assumes "load_checked env j c = Inr p"
  shows "wf_program p"
proof -
  from assms have core: "load_core j = Inr p" and val: "validate p = Inr ()"
    by (auto simp: load_checked_def res_simps split: if_splits)
  note shape = load_core_shape [OF core]
  have "wf_rule p (p_rules p ! i)" if "i < length (p_rules p)" for i
  proof -
    have "p_rules p ! i \<in> set (p_rules p)" using that by simp
    from rfold_all_Inr [OF val [unfolded validate_def] this] obtain u where
      "validate_rule (p_tables p) (p_templates p) (p_rules p ! i) = Inr u" by blast
    then show ?thesis
      by (rule validate_rule_wf) (use shape(6) that in auto)
  qed
  with shape show ?thesis by (simp add: wf_program_def)
qed

end
