(* ===== verification/Demo.thy ===== *)
theory Demo
  imports Loader
begin

text \<open>
  A small artifact used by the witnesses: one equality sort, constructors \<open>f\<close> and \<open>g\<close>, a relation
  \<open>r\<close>, and one rule \<open>r(a, b) \<Longrightarrow> f(a), f(b), g(f(a)), g(f(b))\<close>, with its decoded recipe and the
  typed source it comes from; and that an accepted program is well formed.
\<close>

definition eq_sort :: json where
  "eq_sort = JObj [(''kind'', JStr ''eq''), (''name'', JStr ''E'')]"

definition unit_sort :: json where
  "unit_sort = JObj [(''kind'', JStr ''Unit'')]"

definition unit_literal :: json where
  "unit_literal = JObj [(''literal'', JNum 0), (''sort'', unit_sort)]"

definition slot_ref :: "int \<Rightarrow> json" where
  "slot_ref i = JObj [(''slot'', JNum i)]"

definition var_ref :: "string \<Rightarrow> json" where
  "var_ref v = JObj [(''sort'', eq_sort), (''var'', JStr v)]"

definition demo_table :: "string \<Rightarrow> string \<Rightarrow> json list \<Rightarrow> json" where
  "demo_table kind name schema =
     JObj [(''kind'', JStr kind), (''name'', JStr name), (''schema'', JArr schema)]"

definition demo_slot :: "string \<Rightarrow> string \<Rightarrow> json" where
  "demo_slot name how =
     JObj [(''definition'', JStr how), (''name'', JStr name), (''sort'', eq_sort)]"

definition table_call :: "string \<Rightarrow> json" where
  "table_call name = JObj [(''table'', JStr name)]"

definition let_effect :: "string \<Rightarrow> json list \<Rightarrow> json \<Rightarrow> json" where
  "let_effect c args dst =
     JObj [(''args'', JArr args), (''call'', table_call c), (''dst'', dst), (''op'', JStr ''let'')]"

definition demo_tables :: json where
  "demo_tables = JArr [demo_table ''constructor'' ''f'' [eq_sort, eq_sort],
     demo_table ''constructor'' ''g'' [eq_sort, eq_sort],
     demo_table ''relation'' ''r'' [eq_sort, eq_sort, unit_sort]]"

definition demo_rule :: json where
  "demo_rule = JObj
     [(''effects'', JArr [let_effect ''f'' [slot_ref 0] (JNum 2), let_effect ''f'' [slot_ref 1] (JNum 3),
        let_effect ''g'' [slot_ref 2] (JNum 4), let_effect ''g'' [slot_ref 3] (JNum 5)]),
      (''metadata'', JObj [(''name'', JStr ''pair'')]),
      (''query'', JArr [JObj [(''args'', JArr [slot_ref 0, slot_ref 1, unit_literal]),
         (''call'', table_call ''r'')]]),
      (''slots'', JArr [demo_slot ''a'' ''query'', demo_slot ''b'' ''query'', demo_slot ''c'' ''effect'',
         demo_slot ''d'' ''effect'', demo_slot ''e'' ''effect'', demo_slot ''h'' ''effect''])]"

definition demo_source_rule :: json where
  "demo_source_rule = JObj
     [(''body'', JArr [JObj [(''args'', JArr [var_ref ''a'', var_ref ''b'', unit_literal]),
         (''call'', table_call ''r'')]]),
      (''head'', JArr [let_effect ''f'' [var_ref ''a''] (JStr ''c''),
         let_effect ''f'' [var_ref ''b''] (JStr ''d''), let_effect ''g'' [var_ref ''c''] (JStr ''e''),
         let_effect ''g'' [var_ref ''d''] (JStr ''h'')]),
      (''name'', JStr ''pair'')]"

definition demo_recipe :: json where
  "demo_recipe = JObj
     [(''control'', JArr []), (''rules'', JArr [demo_rule]),
      (''rulesets'', JArr [JObj [(''name'', JStr ''main''), (''rule_ids'', JArr [JNum 0])]]),
      (''schema'', JStr ''eggfuse-recipe/v1''), (''scope'', JStr ''original_program''),
      (''tables'', demo_tables)]"

definition demo_artifact :: json where
  "demo_artifact = JObj
     [(''initial'', JArr []), (''recipe'', demo_recipe), (''schema'', JStr ''eggfuse-cell-runtime/v1''),
      (''source_core'', JObj [(''initial'', JArr []),
         (''rulesets'', JArr [JObj [(''name'', JStr ''main''), (''rules'', JArr [demo_source_rule])]]),
         (''schedule'', JArr []), (''tables'', demo_tables)])]"

definition demo_load :: "program res" where
  "demo_load = load_checked (\<lambda>_. None) demo_artifact False"

definition demo_program :: program where
  "demo_program = (case demo_load of Inr p \<Rightarrow> p)"

lemma demo_load_ok: "\<not> isl demo_load"
  by code_simp

lemma demo_loads: "load_checked (\<lambda>_. None) demo_artifact False = Inr demo_program"
  using demo_load_ok by (cases demo_load) (simp_all add: demo_program_def demo_load_def)

lemma demo_wf: "wf_program demo_program"
  by (rule load_checked_wf [OF demo_loads])

lemma demo_rules: "length (p_rules demo_program) = 1"
  by code_simp

lemma demo_inputs: "r_inputs (p_rules demo_program ! 0) = [0, 1]"
  by code_simp

lemma demo_defs: "tm_defs (p_templates demo_program ! 0) 0 = None" "tm_defs (p_templates demo_program ! 0) 1 = None"
  by code_simp+

section \<open>Properties of loading\<close>

text \<open>
  C23. A program that the loader accepts is well formed: tables have distinct names and nonempty
  schemas, every rule's template is in SSA form with exact definition positions, every operation
  and query atom names an existing table with its arity and only slots that are inputs or earlier
  results, each table has its import template, and rulesets name only existing rules.
\<close>

theorem loaded_program_wf:
  assumes "load_checked env j compiling = Inr p"
  shows "wf_program p"
  by (rule load_checked_wf [OF assms])

lemma loaded_program_wf_witness: "wf_program demo_program \<and> length (p_rules demo_program) = 1"
  using loaded_program_wf [OF demo_loads] demo_rules by blast

end
