(* ===== verification/CongruencePlan.thy ===== *)
theory CongruencePlan
  imports Demo "HOL-Library.Product_Lexorder"
begin

text \<open>
  Local congruence plans, \<open>engine/cell-runtime/src/congruence.rs\<close>: \<open>norm\<close> follows copies, \<open>prove\<close>
  derives the guards under which two constructor results of one recipe are equal, and \<open>parse\<close>
  accepts a plan only when every merge in it carries exactly the derived proof. The recursion of
  the code is modelled with fuel; \<open>Diverge\<close> is its absence of a result, and the lemmas at the end
  show that the fuel used is enough for recipes in SSA form. Positions of operations are \<open>nat\<close>, so the
  cast to \<open>u32\<close> in a proof is not modelled. Soundness is against an arbitrary
  interpretation of the constructors and of the slots.
\<close>

type_synonym proof_set = "(arg \<times> arg) set \<times> nat set"
type_synonym proof_memo = "arg \<times> arg \<rightharpoonup> proof_set option"

fun norm :: "nat \<Rightarrow> template \<Rightarrow> arg \<Rightarrow> arg res" where
  "norm 0 t a = Inl Diverge"
| "norm (Suc n) t a =
     (case a of
        Literal _ \<Rightarrow> Inr a
      | Slot i \<Rightarrow>
          (case tm_defs t i of
             None \<Rightarrow> Inr a
           | Some k \<Rightarrow>
               rbind (idx (tm_ops t) k) (\<lambda>op. case op of OpCopy _ from \<Rightarrow> norm n t from | _ \<Rightarrow> Inr a)))"

text \<open>The constructor operation that defines an argument: its position, table and arguments.\<close>

definition constructor_of :: "program \<Rightarrow> template \<Rightarrow> arg \<Rightarrow> (nat \<times> nat \<times> arg list) option res" where
  "constructor_of p t a =
     (case a of
        Literal _ \<Rightarrow> Inr None
      | Slot i \<Rightarrow>
          (case tm_defs t i of
             None \<Rightarrow> Inr None
           | Some k \<Rightarrow>
               rbind (idx (tm_ops t) k) (\<lambda>op. case op of
                 OpLet _ (CTable tb) aa \<Rightarrow>
                   rbind (idx (p_tables p) tb) (\<lambda>table.
                   Inr (if t_constructor table then Some (k, tb, aa) else None))
               | _ \<Rightarrow> Inr None)))"

definition order_pair :: "arg \<Rightarrow> arg \<Rightarrow> arg \<times> arg" where
  "order_pair a b = (if a \<le> b then (a, b) else (b, a))"

definition leaf_proof :: "arg \<times> arg \<Rightarrow> proof_set option" where
  "leaf_proof pair =
     (case pair of (Literal _, Literal _) \<Rightarrow> None | _ \<Rightarrow> Some ({pair}, {}))"

function prove :: "nat \<Rightarrow> program \<Rightarrow> template \<Rightarrow> arg \<Rightarrow> arg \<Rightarrow> proof_memo \<Rightarrow> (proof_set option \<times> proof_memo) res"
  and prove_args :: "nat \<Rightarrow> program \<Rightarrow> template \<Rightarrow> (arg \<times> arg) list \<Rightarrow> proof_set \<Rightarrow> proof_memo
    \<Rightarrow> (proof_set option \<times> proof_memo) res" where
  "prove 0 p t a b memo = Inl Diverge"
| "prove (Suc n) p t a b memo =
     rbind (norm (Suc n) t a) (\<lambda>a'. rbind (norm (Suc n) t b) (\<lambda>b'.
     let pair = order_pair a' b' in
     if fst pair = snd pair then Inr (Some ({}, {}), memo)
     else case memo pair of
       Some pr \<Rightarrow> Inr (pr, memo)
     | None \<Rightarrow>
         rbind (constructor_of p t (fst pair)) (\<lambda>ca. rbind (constructor_of p t (snd pair)) (\<lambda>cb.
         rbind (case (ca, cb) of
             (Some (i, x, aa), Some (j, y, bb)) \<Rightarrow>
               if x = y then prove_args n p t (zip aa bb) ({}, {i, j}) memo
               else Inr (leaf_proof pair, memo)
           | _ \<Rightarrow> Inr (leaf_proof pair, memo)) (\<lambda>(pr, memo').
         Inr (pr, memo'(pair \<mapsto> pr)))))))"
| "prove_args n p t [] acc memo = Inr (Some acc, memo)"
| "prove_args n p t (ab # rest) acc memo =
     rbind (prove n p t (fst ab) (snd ab) memo) (\<lambda>(pr, memo').
     case pr of
       None \<Rightarrow> Inr (None, memo')
     | Some gr \<Rightarrow> prove_args n p t rest (fst acc \<union> fst gr, snd acc \<union> snd gr) memo')"
  by pat_completeness auto
termination
  by (relation "measures [\<lambda>x. case x of Inl (n, _) \<Rightarrow> n | Inr (n, _) \<Rightarrow> n,
      \<lambda>x. case x of Inl _ \<Rightarrow> 0 | Inr (_, _, _, xs, _) \<Rightarrow> Suc (length xs)]") auto

text \<open>Enough fuel for a template in SSA form (lemma \<open>prove_returns\<close>).\<close>

definition plan_fuel :: "template \<Rightarrow> nat" where
  "plan_fuel t = length (tm_ops t) + 2"

section \<open>Accepting a plan\<close>

definition merge_var :: "json \<Rightarrow> nat \<Rightarrow> string \<Rightarrow> bool" where
  "merge_var a i v \<longleftrightarrow> jfield (jat a i) ''var'' = JStr v"

definition old_new_args :: "json \<Rightarrow> bool" where
  "old_new_args a \<longleftrightarrow>
     (case as_array a of None \<Rightarrow> False | Some xs \<Rightarrow> length xs = 2) \<and>
     (merge_var a 0 ''old'' \<and> merge_var a 1 ''new'' \<or> merge_var a 0 ''new'' \<and> merge_var a 1 ''old'')"

definition table_reorder_safe :: "json \<Rightarrow> nat \<Rightarrow> table \<Rightarrow> bool" where
  "table_reorder_safe artifact i t =
     (t_virtual t \<or>
      (let c = jat (jfield (jfield artifact ''merge_contracts'') ''tables'') i in
       if c \<noteq> JNull then jfield c ''kind'' = JStr ''lattice'' \<or> jfield c ''kind'' = JStr ''key-min''
       else t_schema t \<noteq> [] \<and> jfield (last (t_schema t)) ''kind'' = JStr ''i64'' \<and>
         as_str (jfield (jfield (t_merge t) ''call'') ''primitive'') \<in> {Some ''min'', Some ''max''} \<and>
         old_new_args (jfield (t_merge t) ''args'')))"

definition parse_guard :: "json \<Rightarrow> (arg \<times> arg) res" where
  "parse_guard g =
     rbind (j_array g) (\<lambda>aa.
     if length aa \<noteq> 2 then Inl (Err ''congruence guard arity'')
     else rbind (load_arg (aa ! 0)) (\<lambda>a. rbind (load_arg (aa ! 1)) (\<lambda>b. Inr (order_pair a b))))"

definition congruence_dst :: "program \<Rightarrow> template \<Rightarrow> nat \<Rightarrow> arg res" where
  "congruence_dst p t op =
     (case get_at (tm_ops t) op of
        Some (OpLet slot (CTable table) _) \<Rightarrow>
          rbind (idx (p_tables p) table) (\<lambda>tb.
          if t_constructor tb then Inr (Slot slot) else Inl (Err ''congruence is not a constructor''))
      | _ \<Rightarrow> Inl (Err ''congruence is not a constructor''))"

definition parse_merge :: "program \<Rightarrow> template \<Rightarrow> (arg \<times> arg) set \<Rightarrow> json \<Rightarrow> cmerge list \<times> proof_memo
    \<Rightarrow> (cmerge list \<times> proof_memo) res" where
  "parse_merge p t guards m st =
     (let (merges, memo) = st in
      rbind (ok_or (as_u64 (jfield m ''left'')) (Err ''congruence left'')) (\<lambda>left.
      rbind (ok_or (as_u64 (jfield m ''right'')) (Err ''congruence right'')) (\<lambda>right.
      rbind (congruence_dst p t left) (\<lambda>a. rbind (congruence_dst p t right) (\<lambda>b.
      rbind (prove (plan_fuel t) p t a b memo) (\<lambda>(pr, memo').
      rbind (ok_or pr (Err ''invalid congruence proof'')) (\<lambda>(expected, required).
      rbind (j_array (jfield m ''requires'')) (\<lambda>rs.
      rbind (rmapM (\<lambda>x. case as_u64 x of
          Some v \<Rightarrow> if int v < 2 ^ 32 then Inr v else Inl (Err ''congruence prerequisite'')
        | None \<Rightarrow> Inl (Err ''congruence prerequisite'')) rs) (\<lambda>requires.
      if expected \<noteq> guards \<or> required \<noteq> set requires \<or> left = right \<or>
        left \<notin> required \<or> right \<notin> required
      then Inl (Err ''congruence proof differs from constructor wiring'')
      else Inr (merges @ [\<lparr>cm_left = left, cm_right = right, cm_requires = set requires\<rparr>], memo'))))))))))"

definition parse_group :: "program \<Rightarrow> template \<Rightarrow> json \<Rightarrow> cgroup list \<times> proof_memo \<Rightarrow> (cgroup list \<times> proof_memo) res" where
  "parse_group p t g st =
     (let (groups, memo) = st in
      rbind (j_array (jfield g ''guards'')) (\<lambda>gs.
      rbind (rmapM parse_guard gs) (\<lambda>guards.
      rbind (j_array (jfield g ''merges'')) (\<lambda>ms.
      rbind (rfold (parse_merge p t (set guards)) ms ([], memo)) (\<lambda>(merges, memo').
      Inr (groups @ [\<lparr>cg_guards = sorted_list_of_set (set guards), cg_merges = merges,
             cg_requires = \<Union> (set (map cm_requires merges))\<rparr>], memo'))))))"

definition parse_entry :: "program \<Rightarrow> json \<Rightarrow> congruence \<Rightarrow> congruence res" where
  "parse_entry p entry out =
     rbind (ok_or (as_u64 (jfield entry ''rule'')) (Err ''congruence rule'')) (\<lambda>rid.
     rbind (ok_or (get_at (p_rules p) rid) (Err ''congruence rule range'')) (\<lambda>r.
     rbind (idx (p_templates p) (r_template r)) (\<lambda>t.
     rbind (j_array (jfield entry ''groups'')) (\<lambda>gs.
     rbind (rfold (parse_group p t) gs ([], Map.empty)) (\<lambda>(groups, memo).
     if cc_templates out (r_template r) \<noteq> None then Inl (Err ''duplicate congruence template'')
     else Inr (out\<lparr>cc_templates := (cc_templates out)(r_template r \<mapsto> groups)\<rparr>))))))"

definition parse_congruence :: "program \<Rightarrow> json \<Rightarrow> congruence res" where
  "parse_congruence p raw =
     (if raw = JNull then Inr no_congruence
      else if jfield raw ''schema'' \<noteq> JStr ''eggfuse-local-congruence/v1'' then Inl (Err ''congruence schema'')
      else
        let safe = (\<forall>(i, t) \<in> set (enumerate 0 (p_tables p)). table_reorder_safe (p_artifact p) i t) in
        rbind (j_array (jfield raw ''templates'')) (\<lambda>es.
        rfold (parse_entry p) es (no_congruence\<lparr>cc_reorder_safe := safe\<rparr>)))"

section \<open>Soundness\<close>

text \<open>
  \<open>vals\<close> gives each slot a value and \<open>interp\<close> each constructor table a function of its key. The
  fact of an operation holds when its result slot has the value that the operation gives it.
\<close>

fun arg_val :: "(nat \<Rightarrow> val) \<Rightarrow> arg \<Rightarrow> val" where
  "arg_val vals (Slot i) = vals i"
| "arg_val vals (Literal v) = v"

fun fact_holds :: "(nat \<Rightarrow> val) \<Rightarrow> (nat \<Rightarrow> val list \<Rightarrow> val) \<Rightarrow> op \<Rightarrow> bool" where
  "fact_holds vals interp (OpLet d (CTable tb) aa) \<longleftrightarrow> vals d = interp tb (map (arg_val vals) aa)"
| "fact_holds vals interp (OpCopy d a) \<longleftrightarrow> vals d = arg_val vals a"
| "fact_holds vals interp _ \<longleftrightarrow> True"

definition copies_hold :: "(nat \<Rightarrow> val) \<Rightarrow> template \<Rightarrow> bool" where
  "copies_hold vals t \<longleftrightarrow> (\<forall>d a. OpCopy d a \<in> set (tm_ops t) \<longrightarrow> vals d = arg_val vals a)"

definition proof_holds :: "(nat \<Rightarrow> val) \<Rightarrow> (nat \<Rightarrow> val list \<Rightarrow> val) \<Rightarrow> template \<Rightarrow> proof_set \<Rightarrow> bool" where
  "proof_holds vals interp t pr \<longleftrightarrow>
     (\<forall>(a, b) \<in> fst pr. arg_val vals a = arg_val vals b) \<and>
     (\<forall>k \<in> snd pr. fact_holds vals interp (tm_ops t ! k))"

definition derives :: "(nat \<Rightarrow> val) \<Rightarrow> (nat \<Rightarrow> val list \<Rightarrow> val) \<Rightarrow> template \<Rightarrow> proof_set option \<Rightarrow>
    arg \<Rightarrow> arg \<Rightarrow> bool" where
  "derives vals interp t pr a b \<longleftrightarrow>
     (case pr of None \<Rightarrow> True | Some gr \<Rightarrow> proof_holds vals interp t gr \<longrightarrow> arg_val vals a = arg_val vals b)"

definition memo_sound :: "(nat \<Rightarrow> val) \<Rightarrow> (nat \<Rightarrow> val list \<Rightarrow> val) \<Rightarrow> template \<Rightarrow> proof_memo \<Rightarrow> bool" where
  "memo_sound vals interp t memo \<longleftrightarrow>
     (\<forall>a b pr. memo (a, b) = Some pr \<longrightarrow> derives vals interp t pr a b)"

definition arities :: "program \<Rightarrow> template \<Rightarrow> bool" where
  "arities p t \<longleftrightarrow> (\<forall>k < length (tm_ops t). op_arity (p_tables p) (tm_ops t ! k))"

lemma memo_sound_empty [simp]: "memo_sound vals interp t Map.empty"
  by (simp add: memo_sound_def)

lemma memo_sound_upd:
  "memo_sound vals interp t memo \<Longrightarrow> derives vals interp t pr a b \<Longrightarrow>
   memo_sound vals interp t (memo((a, b) \<mapsto> pr))"
  by (simp add: memo_sound_def)

lemma proof_holds_Un:
  "proof_holds vals interp t (G \<union> G', R \<union> R') \<longleftrightarrow>
   proof_holds vals interp t (G, R) \<and> proof_holds vals interp t (G', R')"
  by (auto simp: proof_holds_def)

lemma norm_val:
  "copies_hold vals t \<Longrightarrow> ssa_defs (tm_ops t) (tm_defs t) \<Longrightarrow> norm n t a = Inr a' \<Longrightarrow>
   arg_val vals a' = arg_val vals a"
proof (induction n t a rule: norm.induct)
  case (2 n t a)
  show ?case
  proof (cases "\<exists>i k d b. a = Slot i \<and> tm_defs t i = Some k \<and> k < length (tm_ops t) \<and> tm_ops t ! k = OpCopy d b")
    case True
    then obtain i k d b where k: "a = Slot i" "tm_defs t i = Some k" "k < length (tm_ops t)"
      "tm_ops t ! k = OpCopy d b" by blast
    then have "d = i" using 2(3) by (auto simp: ssa_defs_def)
    then have "vals i = arg_val vals b"
      using 2(2) k by (metis copies_hold_def nth_mem)
    moreover have "norm n t b = Inr a'" using 2(4) k by simp
    ultimately show ?thesis
      using 2(1) [OF k(1,2) _ k(4)] 2(2,3) k by simp
  next
    case False
    then show ?thesis using 2(4)
      by (auto split: arg.splits option.splits op.splits simp: res_simps)
  qed
qed simp

lemma constructor_of_SomeD:
  "constructor_of p t a = Inr (Some (k, tb, aa)) \<Longrightarrow> ssa_defs (tm_ops t) (tm_defs t) \<Longrightarrow>
   \<exists>i. a = Slot i \<and> k < length (tm_ops t) \<and> tm_ops t ! k = OpLet i (CTable tb) aa"
  by (auto simp: constructor_of_def ssa_defs_def res_simps split: arg.splits option.splits op.splits call.splits if_splits)

lemma order_pair_val:
  "arg_val vals (fst (order_pair a b)) = arg_val vals (snd (order_pair a b)) \<longleftrightarrow>
   arg_val vals a = arg_val vals b"
  by (auto simp: order_pair_def)

declare prove.simps [simp del] prove_args.simps [simp del]

definition args_sound :: "(nat \<Rightarrow> val) \<Rightarrow> (nat \<Rightarrow> val list \<Rightarrow> val) \<Rightarrow> template \<Rightarrow> (arg \<times> arg) list
    \<Rightarrow> proof_set option \<Rightarrow> bool" where
  "args_sound vals interp t prs pr \<longleftrightarrow>
     (case pr of None \<Rightarrow> True
      | Some gr \<Rightarrow> proof_holds vals interp t gr \<longrightarrow>
          (\<forall>(a, b) \<in> set prs. arg_val vals a = arg_val vals b))"

lemma derives_pair:
  assumes "derives vals interp t pr (fst (order_pair a' b')) (snd (order_pair a' b'))"
    and "arg_val vals a' = arg_val vals a" "arg_val vals b' = arg_val vals b"
  shows "derives vals interp t pr a b"
  using assms order_pair_val [of vals a' b'] by (auto simp: derives_def split: option.splits)

lemma constructor_congruence:
  assumes "constructor_of p t a = Inr (Some (i, x, aa))" "constructor_of p t b = Inr (Some (j, x, bb))"
    and "ssa_defs (tm_ops t) (tm_defs t)" "arities p t"
    and "proof_holds vals interp t gr" "{i, j} \<subseteq> snd gr"
    and "\<forall>(a, b) \<in> set (zip aa bb). arg_val vals a = arg_val vals b"
  shows "arg_val vals a = arg_val vals b"
proof -
  from constructor_of_SomeD [OF assms(1,3)] constructor_of_SomeD [OF assms(2,3)] obtain d e where
    d: "a = Slot d" "i < length (tm_ops t)" "tm_ops t ! i = OpLet d (CTable x) aa"
    and e: "b = Slot e" "j < length (tm_ops t)" "tm_ops t ! j = OpLet e (CTable x) bb" by blast
  have "length aa = length bb"
    using assms(4) d(2,3) e(2,3) unfolding arities_def by (metis add_right_cancel op_arity.simps(1))
  then have "map (arg_val vals) aa = map (arg_val vals) bb"
    using assms(7) by (auto simp: list_eq_iff_nth_eq set_zip)
  moreover have "fact_holds vals interp (tm_ops t ! i)" "fact_holds vals interp (tm_ops t ! j)"
    using assms(5,6) by (auto simp: proof_holds_def)
  ultimately show ?thesis using d e by simp
qed

lemma prove_args_grows:
  "prove_args n p t prs acc memo = Inr (Some gr, memo') \<Longrightarrow> fst acc \<subseteq> fst gr \<and> snd acc \<subseteq> snd gr"
proof (induction prs arbitrary: acc memo)
  case (Cons ab prs)
  then show ?case
    by (fastforce simp: prove_args.simps res_simps split: prod.splits option.splits)
qed (simp add: prove_args.simps)

lemma prove_sound_aux:
  assumes "copies_hold vals t" "ssa_defs (tm_ops t) (tm_defs t)" "arities p t"
  shows "prove n p t a b memo = Inr (pr, memo') \<Longrightarrow> memo_sound vals interp t memo \<Longrightarrow>
      memo_sound vals interp t memo' \<and> derives vals interp t pr a b"
    and "prove_args n p t prs acc memo = Inr (pr, memo') \<Longrightarrow> memo_sound vals interp t memo \<Longrightarrow>
      memo_sound vals interp t memo' \<and> args_sound vals interp t prs pr"
  using assms
proof (induction n p t a b memo and n p t prs acc memo arbitrary: pr memo' and pr memo'
    rule: prove_prove_args.induct)
  case (1 p t a b memo)
  then show ?case by (simp add: prove.simps)
next
  case (2 n p t a b memo)
  from 2(2) obtain a' b' where n: "norm (Suc n) t a = Inr a'" "norm (Suc n) t b = Inr b'"
    by (auto simp: prove.simps res_simps)
  note val = norm_val [OF 2(4,5) n(1)] norm_val [OF 2(4,5) n(2)]
  define pair where "pair = order_pair a' b'"
  obtain u v where uv: "pair = (u, v)" by (cases pair)
  note pairI = derives_pair [OF _ val, folded pair_def, unfolded uv fst_conv snd_conv]
  note run = 2(2) [unfolded prove.simps n rbind_Inr Let_def, folded pair_def, unfolded uv fst_conv snd_conv]
  show ?case
  proof (cases "u = v \<or> memo (u, v) \<noteq> None")
    case True
    have "derives vals interp t (Some ({}, {})) u u"
      by (simp add: derives_def)
    then have "memo' = memo \<and> derives vals interp t pr u v"
      using run 2(3) True by (auto simp: memo_sound_def split: if_splits)
    then show ?thesis using 2(3) pairI by blast
  next
    case False
    then obtain ca cb where c: "constructor_of p t u = Inr ca" "constructor_of p t v = Inr cb"
      using run by (auto simp: res_simps)
    show ?thesis
    proof (cases "\<exists>i j x aa bb. ca = Some (i, x, aa) \<and> cb = Some (j, x, bb)")
      case True
      then obtain i j x aa bb where s: "ca = Some (i, x, aa)" "cb = Some (j, x, bb)" by blast
      then obtain m where m: "prove_args n p t (zip aa bb) ({}, {i, j}) memo = Inr (pr, m)"
        and memo': "memo' = m((u, v) \<mapsto> pr)"
        using run c False by (auto simp: res_simps split: prod.splits)
      have "memo_sound vals interp t m \<and> args_sound vals interp t (zip aa bb) pr"
        by (rule 2(1) [OF n pair_def]) (use uv False c s m 2(3-6) in simp_all)
      moreover have "{i, j} \<subseteq> snd gr" if "pr = Some gr" for gr
        using prove_args_grows [OF m [unfolded that]] by simp
      ultimately have "derives vals interp t pr u v"
        using constructor_congruence [OF c(1) [unfolded s] c(2) [unfolded s] 2(5,6), of vals interp]
        by (auto simp: derives_def args_sound_def split: option.splits)
      then show ?thesis
        using memo' pairI memo_sound_upd \<open>memo_sound vals interp t m \<and> _\<close> by blast
    next
      case False
      then have "pr = leaf_proof (u, v)" "memo' = memo((u, v) \<mapsto> pr)"
        using run c \<open>\<not> (u = v \<or> memo (u, v) \<noteq> None)\<close>
        by (auto simp: res_simps split: prod.splits option.splits if_splits)
      moreover have "derives vals interp t (leaf_proof (u, v)) u v"
        by (auto simp: derives_def leaf_proof_def proof_holds_def split: arg.splits option.splits)
      ultimately show ?thesis using 2(3) pairI memo_sound_upd by blast
    qed
  qed
next
  case (3 n p t acc memo)
  then show ?case by (auto simp: prove_args.simps args_sound_def split: option.splits)
next
  case (4 n p t ab rest acc memo)
  from 4(3) obtain pr1 m1 where one: "prove n p t (fst ab) (snd ab) memo = Inr (pr1, m1)"
    by (auto simp: prove_args.simps res_simps)
  from 4(1) [OF one 4(4) 4(5-7)] have s1: "memo_sound vals interp t m1"
    "derives vals interp t pr1 (fst ab) (snd ab)" by simp_all
  show ?case
  proof (cases pr1)
    case None
    then show ?thesis using 4(3) one s1 by (auto simp: prove_args.simps args_sound_def)
  next
    case (Some gr)
    then have rest: "prove_args n p t rest (fst acc \<union> fst gr, snd acc \<union> snd gr) m1 = Inr (pr, memo')"
      using 4(3) one by (simp add: prove_args.simps)
    from 4(2) [OF one refl Some rest s1(1) 4(5-7)] have s2: "memo_sound vals interp t memo'"
      "args_sound vals interp t rest pr" by simp_all
    moreover have "proof_holds vals interp t gr" if "pr = Some gr'" "proof_holds vals interp t gr'" for gr'
      using prove_args_grows [OF rest [unfolded that(1)]] that(2) by (auto simp: proof_holds_def)
    ultimately show ?thesis
      using s1(2) Some by (auto simp: args_sound_def derives_def split: option.splits)
  qed
qed

section \<open>Enough fuel\<close>

text \<open>
  The rank of an argument is one more than the position of its defining operation. In a template
  whose operations read only inputs and earlier results, and never redefine an input, the
  arguments of an operation have a smaller rank than its result.
\<close>

definition arg_rank :: "template \<Rightarrow> arg \<Rightarrow> nat" where
  "arg_rank t a = (case a of Literal _ \<Rightarrow> 0
     | Slot i \<Rightarrow> (case tm_defs t i of None \<Rightarrow> 0 | Some k \<Rightarrow> Suc k))"

definition ssa_template :: "program \<Rightarrow> nat set \<Rightarrow> template \<Rightarrow> bool" where
  "ssa_template p D t \<longleftrightarrow> ssa_defs (tm_ops t) (tm_defs t) \<and> well_scoped (p_tables p) D t \<and>
     (\<forall>d \<in> D. tm_defs t d = None)"

lemma ssa_template_arities: "ssa_template p D t \<Longrightarrow> arities p t"
  by (simp add: ssa_template_def well_scoped_def arities_def)

lemma arg_rank_le: "ssa_template p D t \<Longrightarrow> arg_rank t a \<le> length (tm_ops t)"
  by (auto simp: arg_rank_def ssa_template_def ssa_defs_def split: arg.splits option.splits)

lemma arg_rank_args:
  assumes "ssa_template p D t" "k < length (tm_ops t)" "a \<in> set (op_args (tm_ops t ! k))"
  shows "arg_rank t a \<le> k"
proof (cases a)
  case (Slot i)
  have "slots_in (length (tm_sorts t)) (D \<union> defined_before (tm_ops t) k) (op_args (tm_ops t ! k))"
    using assms(1,2) by (simp add: ssa_template_def well_scoped_def)
  then have "i \<in> D \<union> defined_before (tm_ops t) k"
    using assms(3) Slot by (auto simp: slots_in_def)
  then show ?thesis
  proof
    assume "i \<in> D"
    then show ?thesis using assms(1) Slot by (simp add: ssa_template_def arg_rank_def)
  next
    assume "i \<in> defined_before (tm_ops t) k"
    then obtain m where "m < k" "m < length (tm_ops t)" "op_dst (tm_ops t ! m) = Some i"
      by (auto simp: defined_before_def)
    then have "tm_defs t i = Some m" using assms(1) by (simp add: ssa_template_def ssa_defs_def)
    then show ?thesis using \<open>m < k\<close> Slot by (simp add: arg_rank_def)
  qed
qed (simp add: arg_rank_def)

lemma norm_returns:
  "ssa_template p D t \<Longrightarrow> arg_rank t a < n \<Longrightarrow> \<exists>a'. norm n t a = Inr a' \<and> arg_rank t a' \<le> arg_rank t a"
proof (induction n t a rule: norm.induct)
  case (2 n t a)
  show ?case
  proof (cases "\<exists>i k d b. a = Slot i \<and> tm_defs t i = Some k \<and> k < length (tm_ops t) \<and> tm_ops t ! k = OpCopy d b")
    case True
    then obtain i k d b where k: "a = Slot i" "tm_defs t i = Some k" "k < length (tm_ops t)"
      "tm_ops t ! k = OpCopy d b" by blast
    have "arg_rank t b \<le> k"
      by (rule arg_rank_args [OF 2(2) k(3)]) (simp add: k)
    then show ?thesis
      using 2(1) [OF k(1,2) _ k(4) 2(2)] 2(3) k by (fastforce simp: arg_rank_def)
  next
    case False
    have "k < length (tm_ops t)" if "tm_defs t i = Some k" for i k
      using that 2(2) by (auto simp: ssa_template_def ssa_defs_def)
    then show ?thesis using False
      by (auto split: arg.splits option.splits op.splits)
  qed
qed simp

lemma constructor_of_returns:
  assumes "ssa_template p D t"
  shows "\<exists>c. constructor_of p t a = Inr c"
proof -
  have op: "k < length (tm_ops t) \<and> (tm_ops t ! k = OpLet d (CTable tb) aa \<longrightarrow> tb < length (p_tables p))"
    if "tm_defs t i = Some k" for i k d tb aa
  proof -
    have k: "k < length (tm_ops t)" using that assms by (auto simp: ssa_template_def ssa_defs_def)
    then have "op_arity (p_tables p) (tm_ops t ! k)"
      using ssa_template_arities [OF assms] by (simp add: arities_def)
    with k show ?thesis by auto
  qed
  show ?thesis
    using op by (fastforce simp: constructor_of_def split: arg.splits option.splits op.splits call.splits)
qed

lemma constructor_of_rank:
  assumes "ssa_template p D t" "constructor_of p t a = Inr (Some (k, tb, aa))"
  shows "arg_rank t a = Suc k" "\<And>b. b \<in> set aa \<Longrightarrow> arg_rank t b \<le> k"
proof -
  have ssa: "ssa_defs (tm_ops t) (tm_defs t)" using assms(1) by (simp add: ssa_template_def)
  from constructor_of_SomeD [OF assms(2) ssa] obtain i where i: "a = Slot i" "k < length (tm_ops t)"
    "tm_ops t ! k = OpLet i (CTable tb) aa" by blast
  then have "tm_defs t i = Some k" using ssa by (simp add: ssa_defs_def)
  then show "arg_rank t a = Suc k" by (simp add: arg_rank_def i)
  show "arg_rank t b \<le> k" if "b \<in> set aa" for b
    by (rule arg_rank_args [OF assms(1) i(2)]) (simp add: i that)
qed

lemma prove_returns_aux:
  assumes "ssa_template p D t"
  shows "arg_rank t a < n \<Longrightarrow> arg_rank t b < n \<Longrightarrow> \<exists>r. prove n p t a b memo = Inr r"
    and "\<forall>(a, b) \<in> set prs. arg_rank t a < n \<and> arg_rank t b < n \<Longrightarrow>
      \<exists>r. prove_args n p t prs acc memo = Inr r"
  using assms
proof (induction n p t a b memo and n p t prs acc memo rule: prove_prove_args.induct)
  case (2 n p t a b memo)
  from norm_returns [OF 2(4) 2(2)] norm_returns [OF 2(4) 2(3)] obtain a' b' where
    n: "norm (Suc n) t a = Inr a'" "norm (Suc n) t b = Inr b'"
    and r: "arg_rank t a' \<le> n" "arg_rank t b' \<le> n" using 2(2,3) by fastforce
  define pair where "pair = order_pair a' b'"
  obtain u v where uv: "pair = (u, v)" by (cases pair)
  have r': "arg_rank t u \<le> n" "arg_rank t v \<le> n"
    using r uv by (auto simp: pair_def order_pair_def split: if_splits)
  from constructor_of_returns [OF 2(4)] obtain cu cv where
    c: "constructor_of p t u = Inr cu" "constructor_of p t v = Inr cv" by blast
  note run = prove.simps(2) [of n p t a b memo, unfolded n rbind_Inr Let_def, folded pair_def, unfolded uv fst_conv snd_conv c rbind_Inr]
  show ?case
  proof (cases "u \<noteq> v \<and> memo (u, v) = None \<and> (\<exists>i j x aa bb. cu = Some (i, x, aa) \<and> cv = Some (j, x, bb))")
    case True
    then obtain i j x aa bb where s: "cu = Some (i, x, aa)" "cv = Some (j, x, bb)" by blast
    have "arg_rank t e < n \<and> arg_rank t f < n" if "(e, f) \<in> set (zip aa bb)" for e f
      using constructor_of_rank [OF 2(4) c(1) [unfolded s]] constructor_of_rank [OF 2(4) c(2) [unfolded s]]
        r' set_zip_leftD [OF that] set_zip_rightD [OF that] by fastforce
    then have all: "\<forall>(e, f) \<in> set (zip aa bb). arg_rank t e < n \<and> arg_rank t f < n" by blast
    have "\<exists>r. prove_args n p t (zip aa bb) ({}, {i, j}) memo = Inr r"
      by (rule 2(1) [OF n pair_def _ _ _ _ refl refl refl refl refl refl refl refl _ 2(4)])
        (use uv True c s all in simp_all)
    then show ?thesis using run True s by auto
  next
    case False
    then show ?thesis using run by (auto split: option.splits)
  qed
next
  case (4 n p t ab rest acc memo)
  obtain a b where ab: "ab = (a, b)" by (cases ab)
  from 4 obtain pr m where one: "prove n p t a b memo = Inr (pr, m)" by (fastforce simp: ab)
  show ?case
  proof (cases pr)
    case None
    then show ?thesis using one by (simp add: prove_args.simps ab)
  next
    case (Some gr)
    then have "\<exists>r. prove_args n p t rest (fst acc \<union> fst gr, snd acc \<union> snd gr) m = Inr r"
      using 4(2) [of "(pr, m)" pr m gr] one 4(3,4) by (auto simp: ab)
    then show ?thesis using one Some by (simp add: prove_args.simps ab)
  qed
qed (simp_all add: prove_args.simps)

section \<open>Accepted plans are sound\<close>

definition merge_sound :: "(nat \<Rightarrow> val) \<Rightarrow> (nat \<Rightarrow> val list \<Rightarrow> val) \<Rightarrow> template \<Rightarrow> (arg \<times> arg) set
    \<Rightarrow> cmerge \<Rightarrow> bool" where
  "merge_sound vals interp t guards m \<longleftrightarrow>
     (proof_holds vals interp t (guards, cm_requires m) \<longrightarrow>
      (\<exists>a b x y aa bb. get_at (tm_ops t) (cm_left m) = Some (OpLet a (CTable x) aa) \<and>
         get_at (tm_ops t) (cm_right m) = Some (OpLet b (CTable y) bb) \<and> vals a = vals b))"

lemma congruence_dst_Inr:
  "congruence_dst p t k = Inr a \<Longrightarrow> \<exists>d x aa. get_at (tm_ops t) k = Some (OpLet d (CTable x) aa) \<and> a = Slot d"
  by (auto simp: congruence_dst_def res_simps split: option.splits op.splits call.splits if_splits)

lemma parse_merge_sound:
  assumes "parse_merge p t guards m (ms, memo) = Inr (ms', memo')"
    and "copies_hold vals t" "ssa_defs (tm_ops t) (tm_defs t)" "arities p t" "memo_sound vals interp t memo"
  shows "memo_sound vals interp t memo' \<and> (\<exists>cm. ms' = ms @ [cm] \<and> merge_sound vals interp t guards cm)"
proof -
  from assms(1) obtain l r a b gr rq where
    a: "congruence_dst p t l = Inr a" and b: "congruence_dst p t r = Inr b"
    and pr: "prove (plan_fuel t) p t a b memo = Inr (Some gr, memo')"
    and gr: "fst gr = guards" "snd gr = set rq"
    and ms': "ms' = ms @ [\<lparr>cm_left = l, cm_right = r, cm_requires = set rq\<rparr>]"
    by (auto simp: parse_merge_def res_simps split: prod.splits if_splits)
  from prove_sound_aux(1) [OF assms(2-4) pr assms(5)]
  have s: "memo_sound vals interp t memo'" "derives vals interp t (Some gr) a b" by simp_all
  have "arg_val vals a = arg_val vals b" if "proof_holds vals interp t (guards, set rq)"
    using s(2) that gr by (cases gr) (simp add: derives_def)
  then have "merge_sound vals interp t guards \<lparr>cm_left = l, cm_right = r, cm_requires = set rq\<rparr>"
    using congruence_dst_Inr [OF a] congruence_dst_Inr [OF b] by (auto simp: merge_sound_def simp del: get_at_Some)
  with s(1) ms' show ?thesis by blast
qed

definition group_sound :: "(nat \<Rightarrow> val) \<Rightarrow> (nat \<Rightarrow> val list \<Rightarrow> val) \<Rightarrow> template \<Rightarrow> cgroup \<Rightarrow> bool" where
  "group_sound vals interp t g \<longleftrightarrow>
     (\<forall>m \<in> set (cg_merges g). merge_sound vals interp t (set (cg_guards g)) m)"

lemma parse_group_sound:
  assumes "parse_group p t g (gs, memo) = Inr (gs', memo')"
    and "copies_hold vals t" "ssa_defs (tm_ops t) (tm_defs t)" "arities p t" "memo_sound vals interp t memo"
  shows "memo_sound vals interp t memo' \<and> (\<exists>cg. gs' = gs @ [cg] \<and> group_sound vals interp t cg)"
proof -
  from assms(1) obtain guards raw ms where
    f: "rfold (parse_merge p t (set guards)) raw ([], memo) = Inr (ms, memo')"
    and gs': "gs' = gs @ [\<lparr>cg_guards = sorted_list_of_set (set guards), cg_merges = ms,
             cg_requires = \<Union> (set (map cm_requires ms))\<rparr>]"
    by (auto simp: parse_group_def res_simps split: prod.splits)
  let ?P = "\<lambda>st. memo_sound vals interp t (snd st) \<and>
    (\<forall>m \<in> set (fst st). merge_sound vals interp t (set guards) m)"
  have "?P (ms, memo')"
  proof (rule rfold_invariant [OF f])
    show "?P ([], memo)" using assms(5) by simp
    fix x a b
    assume "?P a" "parse_merge p t (set guards) x a = Inr b"
    then show "?P b"
      using parse_merge_sound [OF _ assms(2-4), of "set guards" x "fst a" "snd a" "fst b" "snd b" interp]
      by auto
  qed
  then show ?thesis using gs' by (simp add: group_sound_def)
qed

lemma parse_entry_sound:
  assumes "parse_entry p e out = Inr out'" "wf_program p"
    and "\<forall>i gs. cc_templates out i = Some gs \<longrightarrow>
      (\<forall>g \<in> set gs. \<forall>vals interp. copies_hold vals (p_templates p ! i) \<longrightarrow> group_sound vals interp (p_templates p ! i) g)"
  shows "\<forall>i gs. cc_templates out' i = Some gs \<longrightarrow>
      (\<forall>g \<in> set gs. \<forall>vals interp. copies_hold vals (p_templates p ! i) \<longrightarrow> group_sound vals interp (p_templates p ! i) g)"
proof -
  from assms(1) obtain rid raw gs memo where rid: "rid < length (p_rules p)"
    and f: "rfold (parse_group p (p_templates p ! r_template (p_rules p ! rid))) raw ([], Map.empty) = Inr (gs, memo)"
    and out': "out' = out\<lparr>cc_templates := (cc_templates out)(r_template (p_rules p ! rid) \<mapsto> gs)\<rparr>"
    by (auto simp: parse_entry_def res_simps split: prod.splits if_splits)
  define t where "t = p_templates p ! r_template (p_rules p ! rid)"
  have "wf_rule p (p_rules p ! rid)" using assms(2) rid by (simp add: wf_program_def)
  then have wf: "ssa_defs (tm_ops t) (tm_defs t)" "arities p t"
    by (simp_all add: wf_rule_def Let_def t_def well_scoped_def arities_def)
  have "\<forall>g \<in> set gs. group_sound vals interp t g" if copies: "copies_hold vals t" for vals interp
  proof -
    let ?P = "\<lambda>st. memo_sound vals interp t (snd st) \<and> (\<forall>g \<in> set (fst st). group_sound vals interp t g)"
    have "?P (gs, memo)"
    proof (rule rfold_invariant [OF f [folded t_def]])
      show "?P ([], Map.empty)" by simp
      fix x a b
      assume "?P a" "parse_group p t x a = Inr b"
      then show "?P b"
        using parse_group_sound [OF _ copies wf, of x "fst a" "snd a" "fst b" "snd b" interp] by auto
    qed
    then show ?thesis by simp
  qed
  then show ?thesis using assms(3) by (auto simp: out' t_def)
qed

lemma parse_congruence_inv:
  assumes "parse_congruence p raw = Inr cc" "wf_program p"
  shows "\<forall>i gs. cc_templates cc i = Some gs \<longrightarrow>
      (\<forall>g \<in> set gs. \<forall>vals interp. copies_hold vals (p_templates p ! i) \<longrightarrow> group_sound vals interp (p_templates p ! i) g)"
    (is "?P cc")
proof (cases "raw = JNull")
  case True
  then show ?thesis using assms(1) by (auto simp: parse_congruence_def no_congruence_def)
next
  case False
  then obtain es safe where
    f: "rfold (parse_entry p) es (no_congruence\<lparr>cc_reorder_safe := safe\<rparr>) = Inr cc"
    using assms(1) by (auto simp: parse_congruence_def res_simps Let_def split: if_splits)
  show ?thesis
    by (rule rfold_invariant [OF f])
      (simp add: no_congruence_def, erule parse_entry_sound [OF _ assms(2), rotated])
qed

text \<open>
  C6. A local congruence plan that the engine accepts is sound: for every assignment of values to
  the slots of a recipe and every interpretation of the constructors, if the copies hold, the
  guards of a group hold and the constructor facts that a merge requires hold, then the two
  results that the merge unites are equal.
\<close>

theorem accepted_congruence_sound:
  assumes "wf_program p" "parse_congruence p raw = Inr cc"
    and "cc_templates cc i = Some groups" "g \<in> set groups" "m \<in> set (cg_merges g)"
    and "copies_hold vals (p_templates p ! i)"
    and "\<forall>(a, b) \<in> set (cg_guards g). arg_val vals a = arg_val vals b"
    and "\<forall>k \<in> cm_requires m. fact_holds vals interp (tm_ops (p_templates p ! i) ! k)"
  shows "\<exists>a b x y aa bb. get_at (tm_ops (p_templates p ! i)) (cm_left m) = Some (OpLet a (CTable x) aa) \<and>
     get_at (tm_ops (p_templates p ! i)) (cm_right m) = Some (OpLet b (CTable y) bb) \<and> vals a = vals b"
proof -
  have "group_sound vals interp (p_templates p ! i) g"
    using parse_congruence_inv [OF assms(2,1)] assms(3,4,6) by blast
  then have "merge_sound vals interp (p_templates p ! i) (set (cg_guards g)) m"
    using assms(5) by (simp add: group_sound_def)
  then show ?thesis
    using assms(7,8) by (simp add: merge_sound_def proof_holds_def)
qed

definition demo_congruence :: json where
  "demo_congruence = JObj
     [(''schema'', JStr ''eggfuse-local-congruence/v1''),
      (''templates'', JArr [JObj [(''groups'', JArr [JObj
         [(''guards'', JArr [JArr [slot_ref 0, slot_ref 1]]),
          (''merges'', JArr [
             JObj [(''left'', JNum 0), (''requires'', JArr [JNum 0, JNum 1]), (''right'', JNum 1)],
             JObj [(''left'', JNum 2), (''requires'', JArr [JNum 0, JNum 1, JNum 2, JNum 3]), (''right'', JNum 3)]])]]),
         (''rule'', JNum 0)]])]"

definition demo_group :: cgroup where
  "demo_group = \<lparr>cg_guards = [(Slot 0, Slot 1)],
     cg_merges = [\<lparr>cm_left = 0, cm_right = 1, cm_requires = {0, 1}\<rparr>,
                  \<lparr>cm_left = 2, cm_right = 3, cm_requires = {0, 1, 2, 3}\<rparr>],
     cg_requires = {0, 1, 2, 3}\<rparr>"

lemma demo_parsed:
  "(case parse_congruence demo_program demo_congruence of Inr cc \<Rightarrow> cc_templates cc 0 = Some [demo_group] | Inl _ \<Rightarrow> False)"
  by code_simp

lemma demo_ops: "tm_ops (p_templates demo_program ! 0) =
   [OpLet 2 (CTable 0) [Slot 0], OpLet 3 (CTable 0) [Slot 1],
    OpLet 4 (CTable 1) [Slot 2], OpLet 5 (CTable 1) [Slot 3]]"
  by code_simp

definition demo_vals :: "nat \<Rightarrow> val" where
  "demo_vals i = VEq (if i < 2 then 1 else if i < 4 then 2 else 3)"

definition demo_interp :: "nat \<Rightarrow> val list \<Rightarrow> val" where
  "demo_interp table aa = VEq (if table = 0 then 2 else 3)"

lemma accepted_congruence_sound_witness:
  "\<exists>a b x y aa bb. get_at (tm_ops (p_templates demo_program ! 0)) 2 = Some (OpLet a (CTable x) aa) \<and>
     get_at (tm_ops (p_templates demo_program ! 0)) 3 = Some (OpLet b (CTable y) bb) \<and>
     demo_vals a = demo_vals b"
proof -
  obtain cc where cc: "parse_congruence demo_program demo_congruence = Inr cc"
    "cc_templates cc 0 = Some [demo_group]"
    using demo_parsed by (auto split: sum.splits)
  have nth: "k \<in> {0, 1, 2, 3} \<Longrightarrow> fact_holds demo_vals demo_interp (tm_ops (p_templates demo_program ! 0) ! k)" for k
    by (auto simp: demo_ops demo_vals_def demo_interp_def)
  have copies: "copies_hold demo_vals (p_templates demo_program ! 0)"
    by (auto simp: copies_hold_def demo_ops)
  show ?thesis
    using accepted_congruence_sound [OF demo_wf cc, of demo_group
        "\<lparr>cm_left = 2, cm_right = 3, cm_requires = {0, 1, 2, 3}\<rparr>" demo_vals demo_interp] nth copies
    by (simp add: demo_group_def demo_vals_def)
qed

text \<open>
  C33. In a recipe in SSA form the derivation of a congruence proof returns: with the fuel that the
  plan uses it neither runs out of fuel nor panics, whatever the two arguments and the memo.
\<close>

theorem prove_returns:
  assumes "ssa_template p D t"
  shows "\<exists>r. prove (plan_fuel t) p t a b memo = Inr r"
  using prove_returns_aux(1) [OF assms, of a "plan_fuel t" b memo]
    arg_rank_le [OF assms, of a] arg_rank_le [OF assms, of b] by (simp add: plan_fuel_def)

lemma demo_ssa: "ssa_template demo_program {0, 1} (p_templates demo_program ! 0)"
proof -
  have "wf_rule demo_program (p_rules demo_program ! 0)" "r_template (p_rules demo_program ! 0) = 0"
    using demo_wf demo_rules by (auto simp: wf_program_def)
  then show ?thesis
    using demo_inputs demo_defs by (auto simp: wf_rule_def ssa_template_def Let_def)
qed

lemma prove_returns_witness:
  "\<exists>r. prove (plan_fuel (p_templates demo_program ! 0)) demo_program (p_templates demo_program ! 0) (Slot 4) (Slot 5) Map.empty = Inr r"
  by (rule prove_returns [OF demo_ssa])

section \<open>Cycles of copies\<close>

text \<open>
  \<open>load\<close> rejects a second effect with the same destination, but neither it nor \<open>validate\<close> compares
  a destination with the inputs of the query. The rule \<open>r(a, b) \<Longrightarrow> a := copy a\<close> passes all checks, and its
  slot is then defined as a copy of itself.
\<close>

text \<open>The argument that a copy reads defines the slot it writes.\<close>

definition copy_steps :: "template \<Rightarrow> (arg \<times> arg) set" where
  "copy_steps t = {(Slot d, b) | d b. OpCopy d b \<in> set (tm_ops t)}"

lemma norm_copy:
  assumes "ssa_defs (tm_ops t) (tm_defs t)" "(a, b) \<in> copy_steps t"
  shows "norm (Suc n) t a = norm n t b"
proof -
  from assms(2) obtain d k where k: "a = Slot d" "k < length (tm_ops t)" "tm_ops t ! k = OpCopy d b"
    by (auto simp: copy_steps_def in_set_conv_nth)
  then have "tm_defs t d = Some k" using assms(1) by (simp add: ssa_defs_def)
  with k show ?thesis by (simp add: idx_eq_Inr)
qed

lemma norm_stops:
  assumes "ssa_defs (tm_ops t) (tm_defs t)" "\<nexists>b. (a, b) \<in> copy_steps t"
  shows "norm (Suc n) t a = Inr a"
proof (cases a)
  case (Slot d)
  show ?thesis
  proof (cases "tm_defs t d")
    case (Some k)
    then have k: "k < length (tm_ops t)" "op_dst (tm_ops t ! k) = Some d" using assms(1) by (auto simp: ssa_defs_def)
    have "tm_ops t ! k \<noteq> OpCopy d b" for b
      using assms(2) k(1) unfolding copy_steps_def Slot by (metis (mono_tags, lifting) mem_Collect_eq nth_mem)
    with k Some Slot show ?thesis by (cases "tm_ops t ! k") (auto simp: res_simps)
  qed (simp add: Slot)
qed simp

text \<open>Following copies returns exactly when no cycle of copies is ahead.\<close>

lemma cycle_diverges:
  assumes "ssa_defs (tm_ops t) (tm_defs t)" "(s, s) \<in> (copy_steps t)\<^sup>+" "(a, s) \<in> (copy_steps t)\<^sup>*"
  shows "norm n t a = Inl Diverge"
  using assms(3)
proof (induction n arbitrary: a)
  case (Suc n)
  have "(a, s) \<in> (copy_steps t)\<^sup>+" using assms(2) Suc.prems by (rule rtrancl_trancl_trancl [rotated])
  then obtain b where "(a, b) \<in> copy_steps t" "(b, s) \<in> (copy_steps t)\<^sup>*" by (blast dest: tranclD)
  with Suc.IH norm_copy [OF assms(1)] show ?case by simp
qed simp

lemma finite_copy_steps: "finite (copy_steps t)"
proof -
  let ?f = "\<lambda>op. case op of OpCopy d b \<Rightarrow> (Slot d, b) | _ \<Rightarrow> (Slot 0, Slot 0)"
  have "(Slot d, b) \<in> ?f ` set (tm_ops t)" if "OpCopy d b \<in> set (tm_ops t)" for d b
    by (rule image_eqI [OF _ that]) simp
  then have "copy_steps t \<subseteq> ?f ` set (tm_ops t)" by (auto simp: copy_steps_def)
  then show ?thesis by (rule finite_subset) simp
qed

lemma no_cycle_returns:
  assumes ssa: "ssa_defs (tm_ops t) (tm_defs t)"
    and no: "\<And>s. (a, s) \<in> (copy_steps t)\<^sup>* \<Longrightarrow> (s, s) \<notin> (copy_steps t)\<^sup>+"
  shows "\<exists>n b. norm n t a = Inr b"
proof -
  let ?R = "{(x, y) \<in> copy_steps t. (a, x) \<in> (copy_steps t)\<^sup>*}"
  have sub: "?R\<^sup>+ \<subseteq> (copy_steps t)\<^sup>+" by (rule trancl_mono_subset) auto
  have "(s, s) \<notin> ?R\<^sup>+" for s
  proof
    assume c: "(s, s) \<in> ?R\<^sup>+"
    then have "(a, s) \<in> (copy_steps t)\<^sup>*" by (auto elim: converse_tranclE)
    with no c sub show False by blast
  qed
  moreover have "finite ?R" by (rule finite_subset [OF _ finite_copy_steps [of t]]) auto
  ultimately have wf: "wf (?R\<inverse>)" by (intro finite_acyclic_wf_converse) (simp_all add: acyclic_def)
  have "(a, x) \<in> (copy_steps t)\<^sup>* \<longrightarrow> (\<exists>n b. norm n t x = Inr b)" for x
  proof (rule wf_induct [OF wf, of _ x])
    fix x assume ih: "\<forall>y. (y, x) \<in> ?R\<inverse> \<longrightarrow> (a, y) \<in> (copy_steps t)\<^sup>* \<longrightarrow> (\<exists>n b. norm n t y = Inr b)"
    show "(a, x) \<in> (copy_steps t)\<^sup>* \<longrightarrow> (\<exists>n b. norm n t x = Inr b)"
    proof
      assume x: "(a, x) \<in> (copy_steps t)\<^sup>*"
      show "\<exists>n b. norm n t x = Inr b"
      proof (cases "\<exists>y. (x, y) \<in> copy_steps t")
        case True
        then obtain y where y: "(x, y) \<in> copy_steps t" by blast
        with x ih have "\<exists>n b. norm n t y = Inr b" by (auto intro: rtrancl_into_rtrancl)
        with norm_copy [OF ssa y] show ?thesis by metis
      qed (use norm_stops [OF ssa] in blast)
    qed
  qed
  then show ?thesis by blast
qed

text \<open>In a scoped template a copy reads an input or an earlier result, so a cycle writes an input.\<close>

lemma cycle_writes_input:
  assumes ssa: "ssa_defs (tm_ops t) (tm_defs t)" and sc: "well_scoped tables D t"
    and s: "(a, s) \<in> (copy_steps t)\<^sup>*" "(s, s) \<in> (copy_steps t)\<^sup>+"
  shows "\<exists>d \<in> D. (a, Slot d) \<in> (copy_steps t)\<^sup>* \<and> (Slot d, Slot d) \<in> (copy_steps t)\<^sup>+"
proof (rule ccontr)
  assume none: "\<not> ?thesis"
  let ?on = "\<lambda>k. \<exists>d. tm_defs t d = Some k \<and> (a, Slot d) \<in> (copy_steps t)\<^sup>* \<and> (Slot d, Slot d) \<in> (copy_steps t)\<^sup>+"
  have on: "\<exists>d k. s = Slot d \<and> tm_defs t d = Some k" if "(s, s) \<in> (copy_steps t)\<^sup>+" for s
  proof -
    from that obtain b where "(s, b) \<in> copy_steps t" by (auto elim: converse_tranclE)
    then obtain d k where "s = Slot d" "k < length (tm_ops t)" "tm_ops t ! k = OpCopy d b"
      by (auto simp: copy_steps_def in_set_conv_nth)
    with ssa show ?thesis by (auto simp: ssa_defs_def)
  qed
  have "?on k" if "s = Slot d" "tm_defs t d = Some k" for d k using s that by blast
  then obtain k where "?on k" using on [OF s(2)] by blast
  then show False
  proof (induction k rule: less_induct)
    case (less k)
    then obtain d where d: "tm_defs t d = Some k" "(a, Slot d) \<in> (copy_steps t)\<^sup>*" "(Slot d, Slot d) \<in> (copy_steps t)\<^sup>+" by blast
    from d(3) obtain b where b: "(Slot d, b) \<in> copy_steps t" "(b, Slot d) \<in> (copy_steps t)\<^sup>*" by (blast dest: tranclD)
    then have cyc: "(b, b) \<in> (copy_steps t)\<^sup>+" by (rule rtrancl_into_trancl1 [rotated])
    have reach: "(a, b) \<in> (copy_steps t)\<^sup>*" using d(2) b(1) by (rule rtrancl_into_rtrancl)
    from on [OF cyc] obtain e m where e: "b = Slot e" "tm_defs t e = Some m" by blast
    from b(1) obtain k' where "k' < length (tm_ops t)" "tm_ops t ! k' = OpCopy d b"
      by (auto simp: copy_steps_def in_set_conv_nth)
    moreover from this have "tm_defs t d = Some k'" using ssa by (simp add: ssa_defs_def)
    then have "k' = k" using d(1) by simp
    ultimately have k: "k < length (tm_ops t)" "tm_ops t ! k = OpCopy d b" by simp_all
    then have "e \<in> D \<union> defined_before (tm_ops t) k"
      using sc e(1) by (auto simp: well_scoped_def)
    moreover have "e \<notin> D" using none reach cyc e(1) by blast
    ultimately obtain m' where "m' < k" "m' < length (tm_ops t)" "op_dst (tm_ops t ! m') = Some e"
      by (auto simp: defined_before_def)
    then have "m' < k" "tm_defs t e = Some m'" using ssa by (auto simp: ssa_defs_def)
    then show False using less.IH reach cyc e(1) by blast
  qed
qed

text \<open>
  C34. Following the copies of a loaded rule can fail to end, for a reason that is known exactly: the
  recursion of \<open>norm\<close> from an argument returns for no number of steps if and only if the copies lead from it
  to an input slot of the rule that copies lead back to itself. \<open>load\<close> does not refuse such a rule: the
  witness is an artifact that is loaded whole, source check included.
\<close>

theorem norm_diverges_iff_input_copied:
  assumes "load_checked env j compiling = Inr p" "i < length (p_rules p)"
  shows "(\<forall>n. norm n (p_templates p ! i) a = Inl Diverge) \<longleftrightarrow>
    (\<exists>d \<in> set (r_inputs (p_rules p ! i)). (a, Slot d) \<in> (copy_steps (p_templates p ! i))\<^sup>* \<and>
       (Slot d, Slot d) \<in> (copy_steps (p_templates p ! i))\<^sup>+)"
proof -
  let ?t = "p_templates p ! i"
  from load_checked_wf [OF assms(1)] assms(2) have "wf_rule p (p_rules p ! i)" "r_template (p_rules p ! i) = i"
    by (auto simp: wf_program_def)
  then have wf: "ssa_defs (tm_ops ?t) (tm_defs ?t)" "well_scoped (p_tables p) (set (r_inputs (p_rules p ! i))) ?t"
    by (simp_all add: wf_rule_def Let_def)
  show ?thesis
    using no_cycle_returns [OF wf(1), of a] cycle_writes_input [OF wf] cycle_diverges [OF wf(1)]
    by (metis sum.distinct(1))
qed

definition self_copy_rule :: json where
  "self_copy_rule = JObj
     [(''effects'', JArr [JObj [(''arg'', slot_ref 0), (''dst'', JNum 0), (''op'', JStr ''copy'')]]),
      (''metadata'', JObj []),
      (''query'', JArr [JObj [(''args'', JArr [slot_ref 0, slot_ref 1, unit_literal]), (''call'', table_call ''r'')]]),
      (''slots'', JArr [demo_slot ''a'' ''query'', demo_slot ''b'' ''query''])]"

definition self_copy_source :: json where
  "self_copy_source = JObj
     [(''body'', JArr [JObj [(''args'', JArr [var_ref ''a'', var_ref ''b'', unit_literal]), (''call'', table_call ''r'')]]),
      (''head'', JArr [JObj [(''arg'', var_ref ''a''), (''dst'', JStr ''a''), (''op'', JStr ''copy'')]])]"

definition self_copy_artifact :: json where
  "self_copy_artifact = JObj
     [(''initial'', JArr []),
      (''recipe'', JObj [(''control'', JArr []), (''rules'', JArr [self_copy_rule]),
         (''rulesets'', JArr [JObj [(''name'', JStr ''main''), (''rule_ids'', JArr [JNum 0])]]),
         (''schema'', JStr ''eggfuse-recipe/v1''), (''scope'', JStr ''original_program''), (''tables'', demo_tables)]),
      (''schema'', JStr ''eggfuse-cell-runtime/v1''),
      (''source_core'', JObj [(''initial'', JArr []),
         (''rulesets'', JArr [JObj [(''name'', JStr ''main''), (''rules'', JArr [self_copy_source])]]),
         (''schedule'', JArr []), (''tables'', demo_tables)])]"

lemma self_copy_facts:
  "(case load_checked (\<lambda>_. None) self_copy_artifact False of
      Inl _ \<Rightarrow> False
    | Inr p \<Rightarrow> length (p_rules p) = 1 \<and> r_inputs (p_rules p ! 0) = [0, 1] \<and> tm_ops (p_templates p ! 0) = [OpCopy 0 (Slot 0)])"
  by code_simp

lemma norm_diverges_iff_input_copied_witness:
  "\<exists>p. load_checked (\<lambda>_. None) self_copy_artifact False = Inr p \<and> (\<forall>n. norm n (p_templates p ! 0) (Slot 0) = Inl Diverge)"
proof -
  obtain p where p: "load_checked (\<lambda>_. None) self_copy_artifact False = Inr p" "length (p_rules p) = 1"
    "r_inputs (p_rules p ! 0) = [0, 1]" "tm_ops (p_templates p ! 0) = [OpCopy 0 (Slot 0)]"
    using self_copy_facts by (auto split: sum.splits)
  have "copy_steps (p_templates p ! 0) = {(Slot 0, Slot 0)}" by (auto simp: copy_steps_def p(4))
  then have "\<forall>n. norm n (p_templates p ! 0) (Slot 0) = Inl Diverge"
    using norm_diverges_iff_input_copied [OF p(1), of 0 "Slot 0"] p(2,3) by auto
  with p(1) show ?thesis by blast
qed

end
