(* ===== verification/MergePrograms.thy ===== *)
theory MergePrograms
  imports Recipe "HOL-Library.Product_Lexorder"
begin

text \<open>
  The compiler of merge expressions, \<open>engine/cell-runtime/src/merge_programs.rs\<close>: \<open>lower\<close> flattens an
  expression into typed three-address code, \<open>compile\<close> adds the relays and the fixed entry orders of
  the rules that read constructed tables, and \<open>parse\<close> accepts exactly what \<open>compile\<close> gives. Objects
  are written with their fields in key order.
\<close>

section \<open>Lowering one expression\<close>

record lowering =
  lw_sorts :: "json list"
  lw_ops :: "json list"
  lw_built :: "string set"

definition slot_json :: "nat \<Rightarrow> json" where
  "slot_json i = JObj [(''slot'', JNum (int i))]"

definition arg_type :: "json list \<Rightarrow> json \<Rightarrow> json res" where
  "arg_type sorts a =
     (case as_u64 (jfield a ''slot'') of Some i \<Rightarrow> idx sorts i | None \<Rightarrow> Inr (jfield a ''sort''))"

definition lower_var :: "json \<Rightarrow> string \<Rightarrow> lowering \<Rightarrow> (lowering \<times> json) res" where
  "lower_var e v st =
     rbind (if v = ''old'' then Inr 0 else if v = ''new'' then Inr 1 else Inl (Err ''merge parameter'')) (\<lambda>i.
     if jfield e ''sort'' = JNull then Inr (st, slot_json i)
     else rbind (idx (lw_sorts st) i) (\<lambda>s.
       if jfield e ''sort'' \<noteq> s then Inl (Err ''merge parameter type'') else Inr (st, slot_json i)))"

text \<open>\<open>args.iter().zip(&t.schema).any(|(a, s)| atype(a) != *s)\<close>\<close>

fun types_differ :: "json list \<Rightarrow> (json \<times> json) list \<Rightarrow> bool res" where
  "types_differ sorts [] = Inr False"
| "types_differ sorts ((a, s) # rest) =
     rbind (arg_type sorts a) (\<lambda>t. if t \<noteq> s then Inr True else types_differ sorts rest)"

definition last_sort :: "table \<Rightarrow> json res" where
  "last_sort t = (if t_schema t = [] then Inl Panic else Inr (last (t_schema t)))"

text \<open>The sort of a call's result and its kind; a virtual table becomes constructed.\<close>

definition lower_call :: "table list \<Rightarrow> (string \<rightharpoonup> json) \<Rightarrow> json \<Rightarrow> json list \<Rightarrow> lowering
    \<Rightarrow> (lowering \<times> json \<times> string) res" where
  "lower_call tables types e args st =
     (case as_str (jfield (jfield e ''call'') ''table'') of
        Some name \<Rightarrow>
          rbind (ok_or (find (\<lambda>t. t_name t = name) tables) (Err ''merge table'')) (\<lambda>t.
          rbind (if length args + 1 \<noteq> length (t_schema t) then Inr True
            else types_differ (lw_sorts st) (zip args (t_schema t))) (\<lambda>bad.
          if bad then Inl (Err ''merge argument type'')
          else rbind (last_sort t) (\<lambda>out.
            if t_virtual t then Inr (st\<lparr>lw_built := insert name (lw_built st)\<rparr>, out, ''construct'')
            else Inr (st, out, ''read''))))
      | None \<Rightarrow>
          rbind (rmapM (\<lambda>a. rmap (\<lambda>t. jfield t ''name'') (arg_type (lw_sorts st) a)) args) (\<lambda>names.
          rbind (j_array (jfield (jfield e ''call'') ''inputs'')) (\<lambda>inputs.
          if names \<noteq> inputs then Inl (Err ''merge primitive inputs'')
          else rbind (ok_or (as_str (jfield (jfield e ''call'') ''output'')) (Err ''merge primitive output'')) (\<lambda>o'.
          rbind (ok_or (types o') (Err ''unknown merge type'')) (\<lambda>out. Inr (st, out, ''compute''))))))"

definition op_json :: "nat \<Rightarrow> json \<Rightarrow> json list \<Rightarrow> string \<Rightarrow> json" where
  "op_json dst c args kind =
     JObj [(''args'', JArr args), (''call'', c), (''dst'', JNum (int dst)), (''kind'', JStr kind)]"

definition lower_emit :: "json \<Rightarrow> json list \<Rightarrow> lowering \<times> json \<times> string \<Rightarrow> (lowering \<times> json) res" where
  "lower_emit e args r =
     (let (st, out, kind) = r in
      if jfield e ''sort'' \<noteq> JNull \<and> jfield e ''sort'' \<noteq> out then Inl (Err ''merge output type'')
      else let dst = length (lw_sorts st) in
        Inr (st\<lparr>lw_sorts := lw_sorts st @ [out], lw_ops := lw_ops st @ [op_json dst (jfield e ''call'') args kind]\<rparr>,
             slot_json dst))"

function lower :: "table list \<Rightarrow> (string \<rightharpoonup> json) \<Rightarrow> json \<Rightarrow> lowering \<Rightarrow> (lowering \<times> json) res" where
  "lower tables types e st =
     (case as_str (jfield e ''var'') of
        Some v \<Rightarrow> lower_var e v st
      | None \<Rightarrow>
          if jget e ''literal'' \<noteq> None then Inr (st, e)
          else case as_array (jfield e ''args'') of
            None \<Rightarrow> Inl (Err ''expected array'')
          | Some aa \<Rightarrow>
              rbind (smapM (lower tables types) aa st) (\<lambda>(st1, args).
              rbind (lower_call tables types e args st1) (lower_emit e args)))"
  by pat_completeness auto
termination
  by (relation "measure (\<lambda>(_, _, e, _). size e)") (auto dest: size_jfield_arr)

declare lower.simps [simp del]

section \<open>Merge programs of the tables\<close>

definition add_type :: "json \<Rightarrow> (string \<rightharpoonup> json) \<Rightarrow> (string \<rightharpoonup> json) res" where
  "add_type s types = rbind (ok_or (as_str (jfield s ''name'')) Panic) (\<lambda>n. Inr (types(n \<mapsto> s)))"

definition add_base_type :: "string \<Rightarrow> (string \<rightharpoonup> json) \<Rightarrow> (string \<rightharpoonup> json)" where
  "add_base_type n types =
     (if types n = None then types(n \<mapsto> JObj [(''kind'', JStr n), (''name'', JStr n)]) else types)"

definition merge_types :: "program \<Rightarrow> (string \<rightharpoonup> json) res" where
  "merge_types p =
     rbind (rfold add_type (concat (map t_schema (p_tables p))) Map.empty) (\<lambda>m1.
     rbind (rfold add_type (concat (map tm_sorts (p_templates p))) m1) (\<lambda>m2.
     Inr (fold add_base_type [''i64'', ''bool'', ''Unit'', ''String'', ''f64''] m2)))"

definition result_type :: "json list \<Rightarrow> json \<Rightarrow> json res" where
  "result_type = arg_type"

definition merge_equal_inputs :: "table \<Rightarrow> string" where
  "merge_equal_inputs t =
     (if as_str (jfield (jfield (t_merge t) ''call'') ''table'') \<noteq> None then ''return_old'' else ''evaluate'')"

definition program_json :: "table \<Rightarrow> json list \<Rightarrow> json list \<Rightarrow> json \<Rightarrow> json" where
  "program_json t sorts ops result =
     JObj [(''equal_inputs'', JStr (merge_equal_inputs t)), (''operations'', JArr ops), (''result'', result),
       (''slots'', JArr sorts), (''table'', JStr (t_name t))]"

definition compile_table :: "table list \<Rightarrow> (string \<rightharpoonup> json) \<Rightarrow> table \<Rightarrow> json list \<times> string set
    \<Rightarrow> (json list \<times> string set) res" where
  "compile_table tables types t st =
     (let (programs, built) = st in
      if t_constructor t \<or> t_merge t = JNull then Inr st
      else rbind (last_sort t) (\<lambda>s.
        rbind (lower tables types (t_merge t) \<lparr>lw_sorts = [s, s], lw_ops = [], lw_built = built\<rparr>) (\<lambda>(lw, result).
        rbind (result_type (lw_sorts lw) result) (\<lambda>rt.
        if rt \<noteq> s then Inl (Err ''merge result type'')
        else Inr (programs @ [program_json t (lw_sorts lw) (lw_ops lw) result], lw_built lw)))))"

section \<open>Relays\<close>

definition reads_built :: "table list \<Rightarrow> string set \<Rightarrow> atom \<Rightarrow> bool res" where
  "reads_built tables built a =
     (case a_call a of CTable t \<Rightarrow> rmap (\<lambda>x. t_name x \<in> built) (idx tables t) | CPrim _ _ \<Rightarrow> Inr False)"

fun any_reads :: "table list \<Rightarrow> string set \<Rightarrow> atom list \<Rightarrow> bool res" where
  "any_reads tables built [] = Inr False"
| "any_reads tables built (a # as) =
     rbind (reads_built tables built a) (\<lambda>b. if b then Inr True else any_reads tables built as)"

definition unit_marker :: "table \<Rightarrow> bool res" where
  "unit_marker t =
     (if t_constructor t then Inr False
      else rbind (last_sort t) (\<lambda>s. Inr (jfield s ''kind'' = JStr ''Unit'' \<and>
        (t_merge t = JNull \<or> t_merge t = JObj [(''var'', JStr ''old'')]))))"

text \<open>The unit markers a rule sets, when that is all it does.\<close>

fun relay_targets :: "table list \<Rightarrow> op list \<Rightarrow> string list \<Rightarrow> string list option res" where
  "relay_targets tables [] acc = Inr (Some acc)"
| "relay_targets tables (e # es) acc =
     (case e of
        OpCopy _ _ \<Rightarrow> relay_targets tables es acc
      | OpSet t _ (Literal (VInt n)) \<Rightarrow>
          if n = 0 then
            rbind (idx tables t) (\<lambda>tb. rbind (unit_marker tb) (\<lambda>ok.
            if ok then relay_targets tables es (acc @ [t_name tb]) else Inr None))
          else Inr None
      | _ \<Rightarrow> Inr None)"

type_synonym relays = "string set \<times> json list \<times> bool"

definition add_relay :: "nat \<Rightarrow> string \<Rightarrow> relays \<Rightarrow> relays" where
  "add_relay rid name st =
     (let (built, rs, fresh) = st in
      if name \<in> built then st
      else (insert name built, rs @ [JObj [(''rule'', JNum (int rid)), (''table'', JStr name)]], True))"

definition relay_rule :: "program \<Rightarrow> nat \<times> rule \<Rightarrow> relays \<Rightarrow> relays res" where
  "relay_rule p ridr st =
     (let (rid, r) = ridr in
      rbind (any_reads (p_tables p) (fst st) (r_query r)) (\<lambda>b.
      if \<not> b then Inr st
      else rbind (idx (p_templates p) (r_template r)) (\<lambda>tm.
        rbind (relay_targets (p_tables p) (tm_ops tm) []) (\<lambda>ts.
        Inr (case ts of None \<Rightarrow> st | Some names \<Rightarrow> fold (add_relay rid) names st)))))"

definition relay_pass :: "program \<Rightarrow> string set \<Rightarrow> json list \<Rightarrow> relays res" where
  "relay_pass p built rs = rfold (relay_rule p) (enumerate 0 (p_rules p)) (built, rs, False)"

text \<open>The passes repeat until one adds no table; \<open>compile\<close> gives as much fuel as there are tables.\<close>

fun relay_loop :: "nat \<Rightarrow> program \<Rightarrow> string set \<Rightarrow> json list \<Rightarrow> (string set \<times> json list) res" where
  "relay_loop 0 p built rs = Inl Diverge"
| "relay_loop (Suc n) p built rs =
     rbind (relay_pass p built rs) (\<lambda>(built', rs', fresh).
     if fresh then relay_loop n p built' rs' else Inr (built', rs'))"

section \<open>Entry orders\<close>

definition slots_of :: "arg list \<Rightarrow> nat set" where
  "slots_of aa = set (List.map_filter (\<lambda>a. case a of Slot s \<Rightarrow> Some s | Literal _ \<Rightarrow> None) aa)"

definition slot_unknown :: "nat set \<Rightarrow> arg \<Rightarrow> bool" where
  "slot_unknown known a = (case a of Slot s \<Rightarrow> s \<notin> known | Literal _ \<Rightarrow> False)"

text \<open>All key columns known, or the result of a constructor of an equality sort.\<close>

definition key_known :: "nat set \<Rightarrow> atom \<Rightarrow> bool res" where
  "key_known known q =
     (if a_args q = [] then Inl Panic
      else Inr (list_all (\<lambda>a. \<not> slot_unknown known a) (butlast (a_args q))))"

definition result_known :: "table list \<Rightarrow> nat set \<Rightarrow> atom \<Rightarrow> bool res" where
  "result_known tables known q =
     (case a_call q of
        CPrim _ _ \<Rightarrow> Inr False
      | CTable t \<Rightarrow>
          rbind (idx tables t) (\<lambda>tb.
          if \<not> t_constructor tb then Inr False
          else rbind (last_sort tb) (\<lambda>s.
            Inr (jfield s ''kind'' = JStr ''eq'' \<and> \<not> slot_unknown known (last (a_args q))))))"

definition atom_rank :: "table list \<Rightarrow> atom list \<Rightarrow> nat set \<Rightarrow> nat \<Rightarrow> (nat \<times> nat) option res" where
  "atom_rank tables query known i =
     rbind (idx query i) (\<lambda>q.
     rbind (key_known known q) (\<lambda>full.
     rbind (result_known tables known q) (\<lambda>inverse.
     Inr (if full \<or> inverse
       then Some (case a_call q of CPrim _ _ \<Rightarrow> 0 | CTable _ \<Rightarrow> if full then 1 else 2, i) else None))))"

definition next_atom :: "table list \<Rightarrow> atom list \<Rightarrow> nat set \<Rightarrow> nat list \<Rightarrow> (nat \<times> nat) option res" where
  "next_atom tables query known remaining =
     rmap (\<lambda>rs. let cs = List.map_filter id rs in if cs = [] then None else Some (Min (set cs)))
       (rmapM (atom_rank tables query known) remaining)"

fun entry_order :: "nat \<Rightarrow> table list \<Rightarrow> atom list \<Rightarrow> nat set \<Rightarrow> nat list \<Rightarrow> nat list
    \<Rightarrow> (nat list \<times> nat list) res" where
  "entry_order 0 tables query known remaining order = Inr (order, remaining)"
| "entry_order (Suc n) tables query known remaining order =
     rbind (next_atom tables query known remaining) (\<lambda>nx. case nx of
       None \<Rightarrow> Inr (order, remaining)
     | Some (_, i) \<Rightarrow>
         rbind (idx query i) (\<lambda>q.
         entry_order n tables query (known \<union> slots_of (a_args q)) (remove1 i remaining) (order @ [i])))"

definition nats_json :: "nat list \<Rightarrow> json" where
  "nats_json ns = JArr (map (\<lambda>n. JNum (int n)) ns)"

definition compile_anchor :: "program \<Rightarrow> string set \<Rightarrow> nat \<Rightarrow> atom list \<Rightarrow> nat \<times> atom \<Rightarrow> json list \<times> json list
    \<Rightarrow> (json list \<times> json list) res" where
  "compile_anchor p built rid query ia st =
     (let (anchor, a) = ia; (entries, unsupported) = st in
      rbind (reads_built (p_tables p) built a) (\<lambda>b.
      if \<not> b then Inr st
      else
        let remaining = filter (\<lambda>i. i \<noteq> anchor) [0..<length query] in
        rbind (entry_order (length remaining) (p_tables p) query (slots_of (a_args a)) remaining []) (\<lambda>(order, rest).
        Inr (if rest = []
          then (entries @ [JObj [(''anchor'', JNum (int anchor)), (''atoms'', nats_json order), (''rule'', JNum (int rid))]],
                unsupported)
          else (entries, unsupported @ [JObj [(''anchor'', JNum (int anchor)), (''residual'', nats_json rest),
                  (''rule'', JNum (int rid))]])))))"

definition compile_entries :: "program \<Rightarrow> string set \<Rightarrow> (json list \<times> json list) res" where
  "compile_entries p built =
     rfold (\<lambda>(rid, r). rfold (compile_anchor p built rid (r_query r)) (enumerate 0 (r_query r)))
       (enumerate 0 (p_rules p)) ([], [])"

section \<open>The whole plan\<close>

definition contract_json :: json where
  "contract_json = JObj
     [(''effects'', JStr ''original complete RHS; no winner-only reduction''),
      (''invalidation'', JStr ''read current canonical visible ports; late rows use original delta entries''),
      (''old_value'', JStr ''read by the existing ordered set/repair commit''),
      (''operands'', JStr ''typed local slots; exact integers; full constructor alternatives''),
      (''publication'', JStr ''original Run StagePatch and repair boundaries''),
      (''terminal_cell_substitution'', JBool False)]"

definition compile_merges :: "program \<Rightarrow> json res" where
  "compile_merges p =
     rbind (merge_types p) (\<lambda>types.
     rbind (rfold (compile_table (p_tables p) types) (p_tables p) ([], {})) (\<lambda>(programs, built0).
     rbind (relay_loop (Suc (length (p_tables p))) p built0 []) (\<lambda>(built, relays).
     rbind (compile_entries p built) (\<lambda>(entries, unsupported).
     Inr (JObj
       [(''contract'', contract_json), (''control'', JArr (p_control p)), (''entries'', JArr entries),
        (''programs'', JArr programs),
        (''recipe_sha256'', jfield (jfield (p_artifact p) ''recipe'') ''sha256''),
        (''relays'', JArr relays), (''schema'', JStr ''eggfuse-merge-programs/v1''),
        (''unsupported'', JArr unsupported)])))))"

definition parse_operation :: "(string \<rightharpoonup> nat) \<Rightarrow> json \<Rightarrow> op res" where
  "parse_operation names o' =
     rbind (ok_or (as_u64 (jfield o' ''dst'')) Panic) (\<lambda>dst.
     rbind (load_call (jfield o' ''call'') names) (\<lambda>c.
     rbind (load_args (jfield o' ''args'')) (\<lambda>aa. Inr (OpLet dst c aa))))"

definition table_names :: "table list \<Rightarrow> string \<rightharpoonup> nat" where
  "table_names ts = fold (\<lambda>(i, t) m. m(t_name t \<mapsto> i)) (enumerate 0 ts) Map.empty"

definition table_index :: "table list \<Rightarrow> json \<Rightarrow> nat res" where
  "table_index ts name = ok_or (find (\<lambda>i. as_str name = Some (t_name (ts ! i))) [0..<length ts]) Panic"

definition parse_program :: "program \<Rightarrow> json \<Rightarrow> merge_programs \<Rightarrow> merge_programs res" where
  "parse_program p m out =
     rbind (table_index (p_tables p) (jfield m ''table'')) (\<lambda>t.
     rbind (j_array (jfield m ''operations'')) (\<lambda>os.
     rbind (rmapM (parse_operation (table_names (p_tables p))) os) (\<lambda>ops.
     rbind (load_arg (jfield m ''result'')) (\<lambda>r.
     Inr (out\<lparr>mp_merges := (mp_merges out)(t \<mapsto> \<lparr>mp_operations = ops, mp_result = r\<rparr>)\<rparr>)))))"

definition nat_of_json :: "json \<Rightarrow> nat res" where
  "nat_of_json j = ok_or (as_u64 j) Panic"

definition parse_entry_order :: "json \<Rightarrow> merge_programs \<Rightarrow> merge_programs res" where
  "parse_entry_order e out =
     rbind (nat_of_json (jfield e ''rule'')) (\<lambda>r.
     rbind (nat_of_json (jfield e ''anchor'')) (\<lambda>a.
     rbind (j_array (jfield e ''atoms'')) (\<lambda>xs.
     rbind (rmapM nat_of_json xs) (\<lambda>order.
     Inr (out\<lparr>mp_entries := (mp_entries out)((r, a) \<mapsto> order)\<rparr>)))))"

definition parse_merges :: "program \<Rightarrow> json \<Rightarrow> merge_programs res" where
  "parse_merges p raw =
     (if raw = JNull then Inr no_merges
      else rbind (compile_merges p) (\<lambda>c.
        if raw \<noteq> c then Inl (Err ''merge execution recipe differs from typed source/control'')
        else
          rbind (j_array (jfield raw ''programs'')) (\<lambda>ms.
          rbind (rfold (parse_program p) ms no_merges) (\<lambda>out1.
          rbind (j_array (jfield raw ''entries'')) (\<lambda>es. rfold parse_entry_order es out1)))))"

end
