(* ===== verification/Lineage.thy ===== *)
theory Lineage
  imports Values "HOL-Library.Product_Lexorder"
begin

text \<open>
  Union causes, \<open>Lineage\<close> of \<open>engine/cell-runtime/src/union_graft.rs\<close>: every union records an event
  with the two roots it joined, and each displaced identity remembers its event. \<open>explain\<close> walks the
  parent links of two identities and returns the events between them; \<open>record\<close> appends an event with
  the causes of its canonicalisation; \<open>validate\<close> is the check of a restored checkpoint. The walks
  follow parent links without a bound in the code; here they carry fuel, one more than the identity
  they start at, which is enough because links go to smaller identities (\<open>explain_complete\<close>).
  Depths are \<open>nat\<close> where the code has \<open>u32\<close>.
\<close>

type_synonym fact_ref = "nat \<times> nat"

datatype cause = Apply nat nat nat | Congruence fact_ref fact_ref "nat list" bool
  | LocalCongruence | External

record event =
  e_epoch :: nat
  e_left :: u64
  e_right :: u64
  e_representative :: u64
  e_requested :: "u64 \<times> u64"
  e_canon_parents :: "nat list"
  e_canon_complete :: bool
  e_depth :: "nat option"
  e_cause :: cause

record lineage =
  ln_events :: "event list"
  ln_causes :: "u64 \<rightharpoonup> nat"

definition no_lineage :: lineage where
  "no_lineage = \<lparr>ln_events = [], ln_causes = Map.empty\<rparr>"

section \<open>Operations\<close>

text \<open>\<open>collect::<Option<Vec<_>>>()\<close> of the depths; an index out of range panics.\<close>

definition depths :: "event list \<Rightarrow> nat list \<Rightarrow> nat list option res" where
  "depths es ps = rmap those (rmapM (\<lambda>p. rmap e_depth (idx es p)) ps)"

definition local_depth :: "event list \<Rightarrow> cause \<Rightarrow> nat option res" where
  "local_depth es c =
     (case c of
        Apply _ _ _ \<Rightarrow> Inr (Some 0)
      | Congruence _ _ ps complete \<Rightarrow>
          (if complete \<and> ps \<noteq> [] then rmap (map_option (\<lambda>ds. 1 + Max (set ds))) (depths es ps)
           else Inr None)
      | _ \<Rightarrow> Inr None)"

definition canonical_depth :: "event list \<Rightarrow> bool \<Rightarrow> nat list \<Rightarrow> nat option res" where
  "canonical_depth es complete ps =
     (if complete then rmap (map_option (\<lambda>ds. if ds = [] then 0 else Max (set ds))) (depths es ps)
      else Inr None)"

definition zip_max :: "nat option \<Rightarrow> nat option \<Rightarrow> nat option" where
  "zip_max x y = (case (x, y) of (Some a, Some b) \<Rightarrow> Some (max a b) | _ \<Rightarrow> None)"

definition validate_event :: "event list \<Rightarrow> nat \<times> event \<Rightarrow> unit res" where
  "validate_event es ie =
     (let (i, e) = ie in
      if e_left e = e_right e \<or> e_representative e \<noteq> min (e_left e) (e_right e)
      then Inl (Err ''invalid union lineage endpoints'')
      else if \<exists>p \<in> set (e_canon_parents e). i \<le> p
      then Inl (Err ''forward union canonicalization cause'')
      else if (case e_cause e of Congruence _ _ ps _ \<Rightarrow> \<exists>p \<in> set ps. i \<le> p | _ \<Rightarrow> False)
      then Inl (Err ''cyclic or forward union cause'')
      else
        rbind (local_depth es (e_cause e)) (\<lambda>local.
        rbind (canonical_depth es (e_canon_complete e) (e_canon_parents e)) (\<lambda>canonical.
        if e_depth e \<noteq> zip_max local canonical then Inl (Err ''union cause depth differs'')
        else Inr ())))"

text \<open>The second loop runs over the entries of \<open>parent_causes\<close>; it only checks, so their order is free.\<close>

definition cause_ok :: "event list \<Rightarrow> parents \<Rightarrow> u64 \<Rightarrow> nat \<Rightarrow> bool" where
  "cause_ok es p x i \<longleftrightarrow>
     i < length es \<and> x = max (e_left (es ! i)) (e_right (es ! i)) \<and>
     p x = Some (e_representative (es ! i))"

definition validate_lineage :: "lineage \<Rightarrow> parents \<Rightarrow> bool" where
  "validate_lineage l p \<longleftrightarrow>
     (\<exists>u. rfold (\<lambda>ie _. validate_event (ln_events l) ie) (enumerate 0 (ln_events l)) () = Inr u) \<and>
     (\<forall>x i. ln_causes l x = Some i \<longrightarrow> cause_ok (ln_events l) p x i)"

fun explain_up :: "nat \<Rightarrow> parents \<Rightarrow> (u64 \<rightharpoonup> nat) \<Rightarrow> u64 \<Rightarrow> nat list \<Rightarrow> (u64 \<rightharpoonup> nat)
    \<Rightarrow> (nat list \<times> (u64 \<rightharpoonup> nat)) option res" where
  "explain_up 0 p c x path seen = Inl Diverge"
| "explain_up (Suc n) p c x path seen =
     (let seen' = seen(x \<mapsto> length path) in
      case p x of
        None \<Rightarrow> Inr (Some (path, seen'))
      | Some y \<Rightarrow>
          (case c x of
             None \<Rightarrow> Inr None
           | Some i \<Rightarrow> explain_up n p c y (path @ [i]) seen'))"

fun explain_down :: "nat \<Rightarrow> parents \<Rightarrow> (u64 \<rightharpoonup> nat) \<Rightarrow> u64 \<Rightarrow> nat list \<Rightarrow> (u64 \<rightharpoonup> nat) \<Rightarrow> nat list
    \<Rightarrow> nat list option res" where
  "explain_down 0 p c x path seen other = Inl Diverge"
| "explain_down (Suc n) p c x path seen other =
     (case seen x of
        Some k \<Rightarrow> Inr (Some (sort_dedup (take k path @ other)))
      | None \<Rightarrow>
          (case c x of
             None \<Rightarrow> Inr None
           | Some i \<Rightarrow>
               (case p x of
                  None \<Rightarrow> Inr None
                | Some y \<Rightarrow> explain_down n p c y path seen (other @ [i]))))"

definition explain :: "lineage \<Rightarrow> u64 \<Rightarrow> u64 \<Rightarrow> parents \<Rightarrow> nat list option res" where
  "explain l a b p =
     rbind (explain_up (Suc (unat a)) p (ln_causes l) a [] Map.empty) (\<lambda>up.
     case up of
       None \<Rightarrow> Inr None
     | Some (path, seen) \<Rightarrow> explain_down (Suc (unat b)) p (ln_causes l) b path seen [])"

text \<open>One of the two requested identities: its canonicalisation causes join the set.\<close>

definition canon_cause :: "lineage \<Rightarrow> parents \<Rightarrow> u64 \<times> u64 \<Rightarrow> nat set \<times> bool \<Rightarrow> (nat set \<times> bool) res" where
  "canon_cause l p rc st =
     (let (raw, canonical) = rc; (ps, complete) = st in
      if raw = canonical then Inr st
      else rbind (explain l raw canonical p) (\<lambda>ids. case ids of
        Some is \<Rightarrow> Inr (ps \<union> set is, complete) | None \<Rightarrow> Inr (ps, False)))"

definition record_union :: "lineage \<Rightarrow> nat \<Rightarrow> u64 \<times> u64 \<Rightarrow> u64 \<Rightarrow> u64 \<Rightarrow> cause \<Rightarrow> parents \<Rightarrow> lineage res" where
  "record_union l epoch requested a b cause p =
     rbind (rfold (canon_cause l p) [(fst requested, a), (snd requested, b)] ({}, True)) (\<lambda>(ps, complete).
     rbind (local_depth (ln_events l) cause) (\<lambda>local.
     rbind (canonical_depth (ln_events l) complete (sorted_list_of_set ps)) (\<lambda>canonical.
     Inr \<lparr>ln_events = ln_events l @
            [\<lparr>e_epoch = epoch, e_left = a, e_right = b, e_representative = min a b,
              e_requested = requested, e_canon_parents = sorted_list_of_set ps,
              e_canon_complete = complete, e_depth = zip_max local canonical, e_cause = cause\<rparr>],
          ln_causes = (ln_causes l)(max a b \<mapsto> length (ln_events l))\<rparr>)))"

text \<open>The cause of a congruence between two facts with keys \<open>a\<close> and \<open>b\<close>.\<close>

definition congruence_step :: "lineage \<Rightarrow> parents \<Rightarrow> val \<times> val \<Rightarrow> nat set \<times> bool \<Rightarrow> (nat set \<times> bool) res" where
  "congruence_step l p vw st =
     (let (v, w) = vw; (support, complete) = st in
      if v = w then Inr st
      else case (v, w) of
        (VEq x, VEq y) \<Rightarrow>
          rbind (explain l x y p) (\<lambda>ids. case ids of
            Some is \<Rightarrow> Inr (support \<union> set is, complete) | None \<Rightarrow> Inr (support, False))
      | _ \<Rightarrow> Inr (support, False))"

definition congruence_cause :: "lineage \<Rightarrow> fact_ref \<Rightarrow> fact_ref \<Rightarrow> val list \<Rightarrow> val list \<Rightarrow> parents \<Rightarrow> cause res" where
  "congruence_cause l left right a b p =
     rbind (rfold (congruence_step l p) (zip a b) ({}, length a = length b)) (\<lambda>(support, complete).
     Inr (Congruence left right (sorted_list_of_set support) complete))"

section \<open>Explanations connect\<close>

definition event_links :: "event list \<Rightarrow> nat set \<Rightarrow> (u64 \<times> u64) set" where
  "event_links es I = {(x, y). \<exists>i \<in> I. i < length es \<and> {x, y} = {e_left (es ! i), e_right (es ! i)}}"

definition connects :: "event list \<Rightarrow> nat set \<Rightarrow> u64 \<Rightarrow> u64 \<Rightarrow> bool" where
  "connects es I x y \<longleftrightarrow> (x, y) \<in> (event_links es I)\<^sup>*"

lemma connects_refl [simp]: "connects es I x x"
  by (simp add: connects_def)

lemma connects_mono: "connects es I x y \<Longrightarrow> I \<subseteq> J \<Longrightarrow> connects es J x y"
  unfolding connects_def by (rule rtrancl_mono [THEN subsetD]) (auto simp: event_links_def)

lemma connects_sym: "connects es I x y \<Longrightarrow> connects es I y x"
proof -
  have "sym (event_links es I)" by (auto simp: sym_def event_links_def insert_commute)
  then show "connects es I x y \<Longrightarrow> connects es I y x"
    unfolding connects_def by (metis sym_rtrancl symD)
qed

lemma connects_trans: "connects es I x y \<Longrightarrow> connects es I y z \<Longrightarrow> connects es I x z"
  unfolding connects_def by (rule rtrancl_trans)

definition events_ok :: "event list \<Rightarrow> bool" where
  "events_ok es \<longleftrightarrow> (\<forall>i < length es. e_representative (es ! i) = min (e_left (es ! i)) (e_right (es ! i)))"

definition causes_ok :: "lineage \<Rightarrow> parents \<Rightarrow> bool" where
  "causes_ok l p \<longleftrightarrow> events_ok (ln_events l) \<and>
     (\<forall>x i. ln_causes l x = Some i \<longrightarrow> cause_ok (ln_events l) p x i)"

lemma cause_link:
  assumes "causes_ok l p" "ln_causes l x = Some i" "p x = Some y"
  shows "i < length (ln_events l) \<and> connects (ln_events l) {i} x y"
proof -
  from assms have "cause_ok (ln_events l) p x i" by (simp add: causes_ok_def)
  then have i: "i < length (ln_events l)"
    and "x = max (e_left (ln_events l ! i)) (e_right (ln_events l ! i))"
    and "y = min (e_left (ln_events l ! i)) (e_right (ln_events l ! i))"
    using assms(1,3) by (auto simp: cause_ok_def causes_ok_def events_ok_def)
  then have "{x, y} = {e_left (ln_events l ! i), e_right (ln_events l ! i)}"
    by (auto simp: max_def min_def)
  with i have "(x, y) \<in> event_links (ln_events l) {i}" by (auto simp: event_links_def)
  with i show ?thesis by (simp add: connects_def r_into_rtrancl)
qed

definition up_inv :: "lineage \<Rightarrow> u64 \<Rightarrow> nat list \<Rightarrow> (u64 \<rightharpoonup> nat) \<Rightarrow> bool" where
  "up_inv l a path seen \<longleftrightarrow> set path \<subseteq> {..<length (ln_events l)} \<and>
     (\<forall>z k. seen z = Some k \<longrightarrow> k \<le> length path \<and> connects (ln_events l) (set (take k path)) a z)"

lemma explain_up_sound:
  "explain_up n p (ln_causes l) x path seen = Inr (Some (path', seen')) \<Longrightarrow> causes_ok l p \<Longrightarrow>
   up_inv l a path seen \<Longrightarrow> connects (ln_events l) (set path) a x \<Longrightarrow> up_inv l a path' seen'"
proof (induction n arbitrary: x path seen)
  case (Suc n)
  have seen: "up_inv l a path (seen(x \<mapsto> length path))"
    using Suc.prems(3,4) by (simp add: up_inv_def)
  show ?case
  proof (cases "p x")
    case None
    then show ?thesis using Suc.prems(1) seen by auto
  next
    case (Some y)
    then obtain i where i: "ln_causes l x = Some i"
      and rec: "explain_up n p (ln_causes l) y (path @ [i]) (seen(x \<mapsto> length path)) = Inr (Some (path', seen'))"
      using Suc.prems(1) by (simp split: option.splits)
    note link = cause_link [OF Suc.prems(2) i Some]
    have "up_inv l a (path @ [i]) (seen(x \<mapsto> length path))"
      unfolding up_inv_def
    proof (intro conjI allI impI)
      show "set (path @ [i]) \<subseteq> {..<length (ln_events l)}"
        using seen link by (simp add: up_inv_def)
      fix z k
      assume "(seen(x \<mapsto> length path)) z = Some k"
      then have k: "k \<le> length path" "connects (ln_events l) (set (take k path)) a z"
        using seen unfolding up_inv_def by blast+
      then show "k \<le> length (path @ [i])" "connects (ln_events l) (set (take k (path @ [i]))) a z"
        by simp_all
    qed
    moreover have "connects (ln_events l) (set (path @ [i])) a y"
      using connects_mono [OF Suc.prems(4), of "set (path @ [i])"]
        connects_mono [OF link [THEN conjunct2], of "set (path @ [i])"]
      by (metis connects_trans set_append subset_insertI2 Un_upper1 Un_upper2 list.simps(15) set_empty2)
    ultimately show ?thesis by (rule Suc.IH [OF rec Suc.prems(2)])
  qed
qed simp

lemma explain_down_sound:
  "explain_down n p (ln_causes l) x path seen other = Inr (Some ids) \<Longrightarrow> causes_ok l p \<Longrightarrow>
   up_inv l a path seen \<Longrightarrow> set other \<subseteq> {..<length (ln_events l)} \<Longrightarrow>
   connects (ln_events l) (set other) b x \<Longrightarrow>
   set ids \<subseteq> {..<length (ln_events l)} \<and> connects (ln_events l) (set ids) a b"
proof (induction n arbitrary: x other)
  case (Suc n)
  show ?case
  proof (cases "seen x")
    case (Some k)
    then have ids: "set ids = set (take k path) \<union> set other" using Suc.prems(1) by auto
    have "connects (ln_events l) (set (take k path)) a x" "set path \<subseteq> {..<length (ln_events l)}"
      using Suc.prems(3) Some by (auto simp: up_inv_def)
    moreover from this have "set (take k path) \<subseteq> {..<length (ln_events l)}"
      using set_take_subset [of k path] by blast
    ultimately show ?thesis
      unfolding ids using Suc.prems(4,5) connects_sym connects_trans connects_mono
      by (meson Un_least Un_upper1 Un_upper2)
  next
    case None
    then obtain i y where i: "ln_causes l x = Some i" "p x = Some y"
      and rec: "explain_down n p (ln_causes l) y path seen (other @ [i]) = Inr (Some ids)"
      using Suc.prems(1) by (simp split: option.splits)
    note link = cause_link [OF Suc.prems(2) i]
    have "connects (ln_events l) (set (other @ [i])) b x" "connects (ln_events l) (set (other @ [i])) x y"
      using connects_mono [OF Suc.prems(5)] connects_mono [OF link [THEN conjunct2]] by auto
    then have "connects (ln_events l) (set (other @ [i])) b y" by (rule connects_trans)
    then show ?thesis
      using Suc.IH [OF rec Suc.prems(2,3)] Suc.prems(4) link by auto
  qed
qed simp

lemma explain_sound:
  assumes "explain l a b p = Inr (Some ids)" "causes_ok l p"
  shows "set ids \<subseteq> {..<length (ln_events l)} \<and> connects (ln_events l) (set ids) a b"
proof -
  from assms(1) obtain path seen where
    up: "explain_up (Suc (unat a)) p (ln_causes l) a [] Map.empty = Inr (Some (path, seen))" and
    down: "explain_down (Suc (unat b)) p (ln_causes l) b path seen [] = Inr (Some ids)"
    by (auto simp: explain_def res_simps split: option.splits simp del: explain_up.simps explain_down.simps)
  have "up_inv l a path seen"
    by (rule explain_up_sound [OF up assms(2)]) (simp_all add: up_inv_def)
  from explain_down_sound [OF down assms(2) this, where b = b] show ?thesis by simp
qed

section \<open>Explanations exist\<close>

definition all_caused :: "lineage \<Rightarrow> parents \<Rightarrow> bool" where
  "all_caused l p \<longleftrightarrow> dom p \<subseteq> dom (ln_causes l)"

lemma explain_up_returns:
  "decreasing p \<Longrightarrow> dom p \<subseteq> dom c \<Longrightarrow> unat x < n \<Longrightarrow>
   \<exists>path' seen'. explain_up n p c x path seen = Inr (Some (path', seen')) \<and> root p x \<in> dom seen' \<and>
     dom seen \<subseteq> dom seen'"
proof (induction n arbitrary: x path seen)
  case (Suc n)
  show ?case
  proof (cases "p x")
    case None
    then show ?thesis by auto
  next
    case (Some y)
    then obtain i where i: "c x = Some i" using Suc.prems(2) by blast
    have "unat y < n" using Suc.prems(1,3) Some by (fastforce simp: decreasing_def word_less_nat_alt)
    from Suc.IH [OF Suc.prems(1,2) this, of "path @ [i]" "seen(x \<mapsto> length path)"] obtain path' seen' where
      "explain_up n p c y (path @ [i]) (seen(x \<mapsto> length path)) = Inr (Some (path', seen'))"
      "root p y \<in> dom seen'" "dom (seen(x \<mapsto> length path)) \<subseteq> dom seen'" by blast
    then show ?thesis using Some i root_Some [OF Suc.prems(1) Some] by simp
  qed
qed simp

lemma explain_down_returns:
  "decreasing p \<Longrightarrow> dom p \<subseteq> dom c \<Longrightarrow> root p x \<in> dom seen \<Longrightarrow> unat x < n \<Longrightarrow>
   \<exists>ids. explain_down n p c x path seen other = Inr (Some ids)"
proof (induction n arbitrary: x other)
  case (Suc n)
  show ?case
  proof (cases "seen x")
    case None
    then have "p x \<noteq> None" using Suc.prems(3) root_None [of p x] by fastforce
    then obtain y i where y: "p x = Some y" "c x = Some i" using Suc.prems(2) by blast
    have "unat y < n" using Suc.prems(1,4) y by (fastforce simp: decreasing_def word_less_nat_alt)
    moreover have "root p y \<in> dom seen" using Suc.prems(3) root_Some [OF Suc.prems(1) y(1)] by simp
    ultimately show ?thesis using Suc.IH [OF Suc.prems(1,2), of y "other @ [i]"] None y by simp
  qed simp
qed simp

lemma explain_complete:
  assumes "decreasing p" "all_caused l p" "root p a = root p b"
  shows "\<exists>ids. explain l a b p = Inr (Some ids)"
proof -
  from explain_up_returns [OF assms(1) assms(2) [unfolded all_caused_def], of a "Suc (unat a)" "[]" Map.empty]
  obtain path seen where
    up: "explain_up (Suc (unat a)) p (ln_causes l) a [] Map.empty = Inr (Some (path, seen))"
    "root p a \<in> dom seen" by auto
  have "root p b \<in> dom seen" using up(2) assms(3) by simp
  from explain_down_returns [OF assms(1) assms(2) [unfolded all_caused_def] this, of "Suc (unat b)" path "[]"]
  show ?thesis using up by (auto simp: explain_def simp del: explain_up.simps explain_down.simps)
qed

lemma explain_down_total:
  "decreasing p \<Longrightarrow> unat x < n \<Longrightarrow> \<exists>r. explain_down n p c x path seen other = Inr r"
proof (induction n arbitrary: x other)
  case (Suc n)
  have "unat y < n" if "p x = Some y" for y
    using Suc.prems that by (fastforce simp: decreasing_def word_less_nat_alt)
  then show ?case using Suc.IH [OF Suc.prems(1)] by (simp split: option.splits)
qed simp

lemma explain_up_total: "decreasing p \<Longrightarrow> unat x < n \<Longrightarrow> \<exists>r. explain_up n p c x path seen = Inr r"
proof (induction n arbitrary: x path seen)
  case (Suc n)
  have "unat y < n" if "p x = Some y" for y
    using Suc.prems that by (fastforce simp: decreasing_def word_less_nat_alt)
  then show ?case using Suc.IH [OF Suc.prems(1)] by (simp add: Let_def split: option.splits)
qed simp

lemma explain_total:
  assumes "decreasing p"
  shows "\<exists>r. explain l a b p = Inr r"
proof -
  from explain_up_total [OF assms, of a "Suc (unat a)" "ln_causes l" "[]" Map.empty] obtain r where
    r: "explain_up (Suc (unat a)) p (ln_causes l) a [] Map.empty = Inr r" by blast
  show ?thesis
    using explain_down_total [OF assms, of b "Suc (unat b)" "ln_causes l"] r
    by (auto simp: explain_def simp del: explain_up.simps explain_down.simps split: option.splits)
qed

section \<open>Recording keeps a lineage valid\<close>

lemma those_map_Some [simp]: "those (map (\<lambda>x. Some (f x)) xs) = Some (map f xs)"
  by (induction xs) auto

lemma depths_append:
  "\<forall>p \<in> set ps. p < length es \<Longrightarrow> depths (es @ ys) ps = depths es ps"
proof -
  assume b: "\<forall>p \<in> set ps. p < length es"
  have "rmapM (\<lambda>p. rmap e_depth (idx (es @ ys) p)) ps = rmapM (\<lambda>p. rmap e_depth (idx es p)) ps"
    by (rule rmapM_cong) (use b in \<open>auto simp: nth_append\<close>)
  then show ?thesis by (simp add: depths_def)
qed

lemma depths_total: "\<forall>p \<in> set ps. p < length es \<Longrightarrow> \<exists>r. depths es ps = Inr r"
  using rmapM_map [of ps "\<lambda>p. rmap e_depth (idx es p)" "\<lambda>p. e_depth (es ! p)"]
  by (auto simp: depths_def)

definition cause_below :: "nat \<Rightarrow> cause \<Rightarrow> bool" where
  "cause_below n c \<longleftrightarrow> (case c of Congruence _ _ ps _ \<Rightarrow> \<forall>p \<in> set ps. p < n | _ \<Rightarrow> True)"

lemma local_depth_append: "cause_below (length es) c \<Longrightarrow> local_depth (es @ ys) c = local_depth es c"
  by (auto simp: local_depth_def cause_below_def depths_append split: cause.splits)

lemma canonical_depth_append:
  "\<forall>p \<in> set ps. p < length es \<Longrightarrow> canonical_depth (es @ ys) b ps = canonical_depth es b ps"
  by (simp add: canonical_depth_def depths_append)

lemma local_depth_total: "cause_below (length es) c \<Longrightarrow> \<exists>r. local_depth es c = Inr r"
  using depths_total [of _ es] by (auto simp: local_depth_def cause_below_def split: cause.splits) fastforce

lemma canonical_depth_total: "\<forall>p \<in> set ps. p < length es \<Longrightarrow> \<exists>r. canonical_depth es b ps = Inr r"
  using depths_total [of ps es] by (auto simp: canonical_depth_def)

definition event_ok :: "event list \<Rightarrow> nat \<Rightarrow> event \<Rightarrow> bool" where
  "event_ok es i e \<longleftrightarrow> e_left e \<noteq> e_right e \<and> e_representative e = min (e_left e) (e_right e) \<and>
     (\<forall>p \<in> set (e_canon_parents e). p < i) \<and> cause_below i (e_cause e) \<and>
     (\<exists>x y. local_depth es (e_cause e) = Inr x \<and>
        canonical_depth es (e_canon_complete e) (e_canon_parents e) = Inr y \<and> e_depth e = zip_max x y)"

lemma validate_event_ok: "validate_event es (i, e) = Inr u \<longleftrightarrow> event_ok es i e"
proof -
  have "(case e_cause e of Congruence _ _ ps _ \<Rightarrow> \<exists>p \<in> set ps. i \<le> p | _ \<Rightarrow> False) \<longleftrightarrow>
      \<not> cause_below i (e_cause e)"
    by (auto simp: cause_below_def not_less split: cause.splits)
  moreover have "(\<exists>p \<in> set (e_canon_parents e). i \<le> p) \<longleftrightarrow> \<not> (\<forall>p \<in> set (e_canon_parents e). p < i)"
    by (auto simp: not_less)
  ultimately show ?thesis
    by (simp add: validate_event_def event_ok_def res_simps) blast
qed

lemma rfold_unit: "(\<exists>v. rfold (\<lambda>x _. f x) xs u = Inr v) \<longleftrightarrow> (\<forall>x \<in> set xs. \<exists>w. f x = Inr w)"
  by (induction xs arbitrary: u) (auto simp: res_simps)

lemma validate_lineage_ok:
  "validate_lineage l p \<longleftrightarrow> (\<forall>i < length (ln_events l). event_ok (ln_events l) i (ln_events l ! i)) \<and>
     (\<forall>x i. ln_causes l x = Some i \<longrightarrow> cause_ok (ln_events l) p x i)"
  unfolding validate_lineage_def rfold_unit
  by (auto simp: in_set_enumerate_eq validate_event_ok) (metis fst_conv snd_conv validate_event_ok
      in_set_enumerate_eq [of "(_, _)" 0, simplified])

lemma event_ok_append: "event_ok es i e \<Longrightarrow> i \<le> length es \<Longrightarrow> event_ok (es @ ys) i e"
proof -
  assume ok: "event_ok es i e" and i: "i \<le> length es"
  then have "cause_below (length es) (e_cause e)" "\<forall>p \<in> set (e_canon_parents e). p < length es"
    by (auto simp: event_ok_def cause_below_def split: cause.splits)
  then show ?thesis
    using ok by (simp add: event_ok_def local_depth_append canonical_depth_append)
qed

lemma validate_causes_ok: "validate_lineage l p \<Longrightarrow> causes_ok l p"
  by (simp add: validate_lineage_ok causes_ok_def events_ok_def event_ok_def)

lemma canon_cause_step:
  assumes "causes_ok l p" "decreasing p" "fst st \<subseteq> {..<length (ln_events l)}"
  shows "\<exists>st'. canon_cause l p rc st = Inr st' \<and> fst st' \<subseteq> {..<length (ln_events l)}"
proof -
  obtain raw c where rc: "rc = (raw, c)" by (cases rc)
  obtain ps b where st: "st = (ps, b)" by (cases st)
  from explain_total [OF assms(2), of l raw c] obtain r where r: "explain l raw c p = Inr r" by blast
  have "set ids \<subseteq> {..<length (ln_events l)}" if "r = Some ids" for ids
    using explain_sound [OF r [unfolded that] assms(1)] by blast
  then show ?thesis
    using assms(3) by (auto simp: canon_cause_def rc st r split: option.splits)
qed

lemma record_union_valid:
  assumes valid: "validate_lineage l p" and dec: "decreasing p" and roots: "p a = None" "p b = None" "a \<noteq> b"
    and cause: "cause_below (length (ln_events l)) cause"
  shows "\<exists>l'. record_union l epoch requested a b cause p = Inr l' \<and>
    validate_lineage l' (p(max a b \<mapsto> min a b)) \<and> length (ln_events l') = Suc (length (ln_events l)) \<and>
    dom (ln_causes l') = insert (max a b) (dom (ln_causes l))"
proof -
  let ?es = "ln_events l"
  note ok = validate_causes_ok [OF valid]
  from canon_cause_step [OF ok dec, of "({}, True)" "(fst requested, a)"] obtain st where
    st: "canon_cause l p (fst requested, a) ({}, True) = Inr st" "fst st \<subseteq> {..<length ?es}" by auto
  from canon_cause_step [OF ok dec st(2), of "(snd requested, b)"] obtain ps complete where
    ps: "canon_cause l p (snd requested, b) st = Inr (ps, complete)" "ps \<subseteq> {..<length ?es}" by auto
  have fin: "finite ps" using ps(2) finite_subset by blast
  have below: "\<forall>q \<in> set (sorted_list_of_set ps). q < length ?es" using ps(2) fin by auto
  from local_depth_total [OF cause] canonical_depth_total [OF below] obtain x y where
    xy: "local_depth ?es cause = Inr x" "canonical_depth ?es complete (sorted_list_of_set ps) = Inr y" by blast
  define e where "e = \<lparr>e_epoch = epoch, e_left = a, e_right = b, e_representative = min a b,
      e_requested = requested, e_canon_parents = sorted_list_of_set ps,
      e_canon_complete = complete, e_depth = zip_max x y, e_cause = cause\<rparr>"
  define l' where "l' = \<lparr>ln_events = ?es @ [e], ln_causes = (ln_causes l)(max a b \<mapsto> length ?es)\<rparr>"
  have run: "record_union l epoch requested a b cause p = Inr l'"
    using st ps xy by (simp add: record_union_def l'_def e_def)
  have new: "event_ok ?es (length ?es) e"
    using roots(3) below cause xy by (simp add: event_ok_def e_def)
  have "event_ok (?es @ [e]) i ((?es @ [e]) ! i)" if "i < Suc (length ?es)" for i
    using that event_ok_append [OF new, of "[e]"] event_ok_append [of ?es i "?es ! i" "[e]"] valid
    by (cases "i = length ?es") (auto simp: nth_append validate_lineage_ok)
  moreover have "cause_ok (?es @ [e]) (p(max a b \<mapsto> min a b)) z i"
    if "((ln_causes l)(max a b \<mapsto> length ?es)) z = Some i" for z i
  proof (cases "z = max a b")
    case True
    then have "i = length ?es" using that by simp
    then show ?thesis using True by (simp add: cause_ok_def e_def)
  next
    case False
    then have "cause_ok ?es p z i" using that valid by (simp add: validate_lineage_ok)
    then have c: "i < length ?es" "z = max (e_left (?es ! i)) (e_right (?es ! i))"
      "p z = Some (e_representative (?es ! i))"
      unfolding cause_ok_def by blast+
    have nth: "(?es @ [e]) ! i = ?es ! i" using c(1) by (simp add: nth_append)
    have upd: "(p(max a b \<mapsto> min a b)) z = p z" using False by simp
    show ?thesis
      unfolding cause_ok_def nth upd by (intro conjI c(2,3)) (use c(1) in simp)
  qed
  ultimately show ?thesis
    using run by (auto simp: validate_lineage_ok l'_def)
qed

lemma explain_up_class:
  "explain_up n p c x path seen = Inr (Some (path', seen')) \<Longrightarrow> decreasing p \<Longrightarrow>
   \<forall>z \<in> dom seen. root p z = root p x \<Longrightarrow> \<forall>z \<in> dom seen'. root p z = root p x"
proof (induction n arbitrary: x path seen)
  case (Suc n)
  show ?case
  proof (cases "p x")
    case None
    then have "seen' = seen(x \<mapsto> length path)" using Suc.prems(1) by auto
    then have "dom seen' = insert x (dom seen)" by (simp del: fun_upd_apply)
    then show ?thesis using Suc.prems(3) by simp
  next
    case (Some y)
    note r = root_Some [OF Suc.prems(2) Some]
    obtain i where "explain_up n p c y (path @ [i]) (seen(x \<mapsto> length path)) = Inr (Some (path', seen'))"
      using Suc.prems(1) Some by (auto split: option.splits)
    note rec = Suc.IH [OF this Suc.prems(2)]
    have "dom (seen(x \<mapsto> length path)) = insert x (dom seen)" by (simp del: fun_upd_apply)
    then have "\<forall>z \<in> dom (seen(x \<mapsto> length path)). root p z = root p y"
      using Suc.prems(3) r by (metis insertE)
    from rec [OF this] show ?thesis using r by metis
  qed
qed simp

lemma explain_down_class:
  "explain_down n p c x path seen other = Inr (Some ids) \<Longrightarrow> decreasing p \<Longrightarrow>
   \<exists>z \<in> dom seen. root p z = root p x"
proof (induction n arbitrary: x other)
  case (Suc n)
  show ?case
  proof (cases "seen x")
    case None
    then obtain i y where "p x = Some y"
      "explain_down n p c y path seen (other @ [i]) = Inr (Some ids)"
      using Suc.prems(1) by (auto split: option.splits)
    then show ?thesis using Suc.IH Suc.prems(2) root_Some [OF Suc.prems(2)] by metis
  qed auto
qed simp

lemma explain_class:
  assumes "explain l a b p = Inr (Some ids)" "decreasing p"
  shows "root p a = root p b"
proof -
  from assms(1) obtain path seen where
    up: "explain_up (Suc (unat a)) p (ln_causes l) a [] Map.empty = Inr (Some (path, seen))" and
    down: "explain_down (Suc (unat b)) p (ln_causes l) b path seen [] = Inr (Some ids)"
    by (auto simp: explain_def res_simps split: option.splits simp del: explain_up.simps explain_down.simps)
  from explain_up_class [OF up assms(2)] explain_down_class [OF down assms(2)] show ?thesis by auto
qed

section \<open>Congruence causes\<close>

definition pair_explained :: "event list \<Rightarrow> nat set \<Rightarrow> val \<times> val \<Rightarrow> bool" where
  "pair_explained es I vw \<longleftrightarrow> fst vw = snd vw \<or>
     (\<exists>x y. vw = (VEq x, VEq y) \<and> connects es I x y)"

lemma congruence_step_sound:
  assumes "congruence_step l p vw (S, c) = Inr (S', c')" "causes_ok l p" "S \<subseteq> {..<length (ln_events l)}"
  shows "S \<subseteq> S' \<and> S' \<subseteq> {..<length (ln_events l)} \<and> (c' \<longrightarrow> c \<and> pair_explained (ln_events l) S' vw)"
proof (cases "fst vw = snd vw")
  case True
  then show ?thesis using assms by (simp add: congruence_step_def pair_explained_def split_beta)
next
  case False
  show ?thesis
  proof (cases "\<exists>x y. vw = (VEq x, VEq y)")
    case True
    then obtain x y where vw: "vw = (VEq x, VEq y)" by blast
    then obtain r where r: "explain l x y p = Inr r"
      and st: "(S', c') = (case r of Some is \<Rightarrow> (S \<union> set is, c) | None \<Rightarrow> (S, False))"
      using assms(1) False by (auto simp: congruence_step_def res_simps split: option.splits)
    show ?thesis
    proof (cases r)
      case (Some ids)
      from explain_sound [OF r [unfolded Some] assms(2)] have
        "set ids \<subseteq> {..<length (ln_events l)}" "connects (ln_events l) (S \<union> set ids) x y"
        using connects_mono by blast+
      then show ?thesis using st Some assms(3) vw by (simp add: pair_explained_def)
    qed (use st assms(3) in simp)
  next
    case False
    then have "S' = S \<and> \<not> c'"
      using assms(1) \<open>fst vw \<noteq> snd vw\<close> by (cases vw) (auto simp: congruence_step_def split: val.splits)
    then show ?thesis using assms(3) by simp
  qed
qed

lemma congruence_fold_sound:
  "rfold (congruence_step l p) vws (S, c) = Inr (S', c') \<Longrightarrow> causes_ok l p \<Longrightarrow>
   S \<subseteq> {..<length (ln_events l)} \<Longrightarrow>
   S \<subseteq> S' \<and> S' \<subseteq> {..<length (ln_events l)} \<and>
   (c' \<longrightarrow> c \<and> (\<forall>vw \<in> set vws. pair_explained (ln_events l) S' vw))"
proof (induction vws arbitrary: S c)
  case (Cons vw vws)
  obtain S1 c1 where one: "congruence_step l p vw (S, c) = Inr (S1, c1)"
    and rest: "rfold (congruence_step l p) vws (S1, c1) = Inr (S', c')"
    using Cons.prems(1) by (auto simp: res_simps)
  note s1 = congruence_step_sound [OF one Cons.prems(2,3)]
  note s2 = Cons.IH [OF rest Cons.prems(2)]
  have "pair_explained (ln_events l) S1 vw \<Longrightarrow> S1 \<subseteq> S' \<Longrightarrow> pair_explained (ln_events l) S' vw"
    using connects_mono by (auto simp: pair_explained_def)
  with s1 s2 show ?case by auto
qed simp

section \<open>Properties\<close>

text \<open>
  C8. Recording a union of two different roots succeeds, keeps the lineage valid for the parent map
  with the new link, and gives the displaced identity a cause.
\<close>

theorem record_keeps_lineage_valid:
  assumes "validate_lineage l p" "decreasing p" "p a = None" "p b = None" "a \<noteq> b"
    and "cause_below (length (ln_events l)) cause"
  shows "\<exists>l'. record_union l epoch requested a b cause p = Inr l' \<and>
    validate_lineage l' (p(max a b \<mapsto> min a b)) \<and> dom (ln_causes l') = insert (max a b) (dom (ln_causes l))"
  using record_union_valid [OF assms] by blast

definition demo_lineage :: lineage where
  "demo_lineage = (case record_union no_lineage 1 (3, 1) 3 1 (Apply 0 7 2) Map.empty of Inr l \<Rightarrow> l)"

lemma demo_lineage_valid: "validate_lineage demo_lineage [3 \<mapsto> 1]" "dom (ln_causes demo_lineage) = {3}"
proof -
  have "validate_lineage no_lineage Map.empty"
    by (simp add: validate_lineage_ok no_lineage_def)
  moreover have m: "max 3 1 = (3 :: u64)" "min 3 1 = (1 :: u64)" by simp_all
  ultimately obtain l where l: "record_union no_lineage 1 (3, 1) 3 1 (Apply 0 7 2) Map.empty = Inr l"
    "validate_lineage l [3 \<mapsto> 1]" "dom (ln_causes l) = insert 3 (dom (ln_causes no_lineage))"
    using record_union_valid [of no_lineage Map.empty 3 1 "Apply 0 7 2" 1 "(3, 1)", unfolded m]
    by (fastforce simp: cause_below_def)
  moreover have "dom (ln_causes no_lineage) = {}" by (simp add: no_lineage_def)
  ultimately show "validate_lineage demo_lineage [3 \<mapsto> 1]" "dom (ln_causes demo_lineage) = {3}"
    by (simp_all add: demo_lineage_def)
qed

lemma record_keeps_lineage_valid_witness:
  "\<exists>l'. record_union demo_lineage 2 (5, 3) 5 1 LocalCongruence [3 \<mapsto> 1] = Inr l' \<and>
    validate_lineage l' ([3 \<mapsto> 1, 5 \<mapsto> 1])"
proof -
  have "decreasing [3 \<mapsto> 1]" by (simp add: decreasing_def)
  moreover have "max 5 1 = (5 :: u64)" "min 5 1 = (1 :: u64)" by simp_all
  ultimately show ?thesis
    using record_keeps_lineage_valid [OF demo_lineage_valid(1), of 5 1 LocalCongruence 2 "(5, 3)"]
    by (fastforce simp: cause_below_def)
qed

text \<open>
  C11. In a valid lineage whose displaced identities all have causes, an explanation exists exactly
  when the two identities have the same root, and the events it lists connect the two identities.
\<close>

theorem explanation_exact:
  assumes "validate_lineage l p" "decreasing p" "all_caused l p"
  shows "((\<exists>ids. explain l a b p = Inr (Some ids)) \<longleftrightarrow> root p a = root p b) \<and>
    (\<forall>ids. explain l a b p = Inr (Some ids) \<longrightarrow>
       set ids \<subseteq> {..<length (ln_events l)} \<and> connects (ln_events l) (set ids) a b)"
  using explain_complete [OF assms(2,3)] explain_class [OF _ assms(2)]
    explain_sound [OF _ validate_causes_ok [OF assms(1)]] by blast

lemma explanation_exact_witness: "\<exists>ids. explain demo_lineage 3 1 [3 \<mapsto> 1] = Inr (Some ids)"
proof -
  have dec: "decreasing [3 \<mapsto> 1]" by (simp add: decreasing_def)
  have "all_caused demo_lineage [3 \<mapsto> 1]" by (simp add: all_caused_def demo_lineage_valid(2))
  from explanation_exact [OF demo_lineage_valid(1) dec this, of 3 1] show ?thesis
    using root_Some [OF dec, of 3 1] by simp
qed

text \<open>
  C31. A congruence cause marked complete really supports the congruence: the keys have the same
  length and each pair of fields is equal or is two identities connected by the listed events.
\<close>

theorem complete_cause_supports:
  assumes "validate_lineage l p"
    and "congruence_cause l left right a b p = Inr (Congruence left right ps True)"
  shows "length a = length b \<and> cause_below (length (ln_events l)) (Congruence left right ps True) \<and>
    (\<forall>vw \<in> set (zip a b). pair_explained (ln_events l) (set ps) vw)"
proof -
  from assms(2) obtain S where
    f: "rfold (congruence_step l p) (zip a b) ({}, length a = length b) = Inr (S, True)"
    and ps: "ps = sorted_list_of_set S"
    by (auto simp: congruence_cause_def res_simps)
  from congruence_fold_sound [OF f validate_causes_ok [OF assms(1)]] have
    "S \<subseteq> {..<length (ln_events l)}" "length a = length b"
    "\<forall>vw \<in> set (zip a b). pair_explained (ln_events l) S vw" by auto
  moreover from this(1) have "finite S" using finite_subset by blast
  ultimately show ?thesis by (auto simp: ps cause_below_def)
qed

lemma complete_cause_supports_witness:
  "\<exists>ps. congruence_cause demo_lineage (1, 0) (2, 0) [VEq 3, VInt 4] [VEq 1, VInt 4] [3 \<mapsto> 1] =
     Inr (Congruence (1, 0) (2, 0) ps True) \<and>
   pair_explained (ln_events demo_lineage) (set ps) (VEq 3, VEq 1)"
proof -
  have dec: "decreasing [3 \<mapsto> 1]" by (simp add: decreasing_def)
  have "all_caused demo_lineage [3 \<mapsto> 1]" by (simp add: all_caused_def demo_lineage_valid(2))
  from explain_complete [OF dec this, of 3 1] obtain ids where
    "explain demo_lineage 3 1 [3 \<mapsto> 1] = Inr (Some ids)"
    using root_Some [OF dec, of 3 1] by auto
  then have "congruence_cause demo_lineage (1, 0) (2, 0) [VEq 3, VInt 4] [VEq 1, VInt 4] [3 \<mapsto> 1] =
      Inr (Congruence (1, 0) (2, 0) (sorted_list_of_set (set ids)) True)"
    by (simp add: congruence_cause_def congruence_step_def)
  with complete_cause_supports [OF demo_lineage_valid(1) this] show ?thesis by auto
qed

end
