(* ===== verification/GraphState.thy ===== *)
theory GraphState
  imports Lineage Recipe
begin

text \<open>
  The state of the engine's graph, \<open>Graph\<close> of \<open>engine/cell-runtime/src/graph.rs\<close>, and its read
  operations: facts are read by decoding the recipe of their Cell, so a slot is a stored value, a
  projection of a provider or parent fact, a copy, or the identity of a constructor result.

  Counters that no decision of the code reads (\<open>Stats\<close>, \<open>known_stats\<close>, \<open>view_stats\<close>,
  \<open>congruence_stats\<close>, \<open>key_lookup_calls\<close>) are left out, except \<open>unions\<close> and \<open>function_updates\<close>, which
  operations compare. The survey of union impact and the composition cursors are off. The fields
  \<open>g_host\<close>, \<open>g_hashkey\<close> and \<open>g_fuel\<close> are constants of the model: the text formats, the hasher of the
  standard library, and the bound on the recursion of a read (\<open>Diverge\<close> when it is exhausted).
\<close>

section \<open>Types\<close>

datatype dependency = DFact fact_ref | DFunction nat

fun dep_cmp :: "dependency \<Rightarrow> dependency \<Rightarrow> ordering" where
  "dep_cmp (DFact f) (DFact g) = cmp_lin f g"
| "dep_cmp (DFact f) (DFunction j) = Less"
| "dep_cmp (DFunction i) (DFact g) = Greater"
| "dep_cmp (DFunction i) (DFunction j) = cmp_lin i j"

interpretation dep_order: ord_contract dep_cmp
proof
  fix x y z :: dependency
  show "dep_cmp x y = Equal \<longleftrightarrow> x = y" by (cases x; cases y) auto
  show "dep_cmp y x = reverse_ord (dep_cmp x y)" by (cases x; cases y) auto
  show "dep_cmp x y = Less \<Longrightarrow> dep_cmp y z = Less \<Longrightarrow> dep_cmp x z = Less"
    by (cases x; cases y; cases z) (auto simp del: less_prod_def)
qed

instantiation dependency :: linorder
begin

definition less_eq_dependency :: "dependency \<Rightarrow> dependency \<Rightarrow> bool" where
  "less_eq_dependency a b \<longleftrightarrow> dep_cmp a b \<noteq> Greater"

definition less_dependency :: "dependency \<Rightarrow> dependency \<Rightarrow> bool" where
  "less_dependency a b \<longleftrightarrow> dep_cmp a b = Less"

instance
proof
  fix x y z :: dependency
  show "x < y \<longleftrightarrow> x \<le> y \<and> \<not> y \<le> x"
    unfolding less_eq_dependency_def less_dependency_def by (rule dep_order.less_le)
  show "x \<le> x"
    by (simp add: less_eq_dependency_def)
  show "x \<le> y \<Longrightarrow> y \<le> z \<Longrightarrow> x \<le> z"
    unfolding less_eq_dependency_def by (rule dep_order.le_trans)
  show "x \<le> y \<Longrightarrow> y \<le> x \<Longrightarrow> x = y"
    unfolding less_eq_dependency_def by (rule dep_order.le_antisym)
  show "x \<le> y \<or> y \<le> x"
    unfolding less_eq_dependency_def by (rule dep_order.le_linear)
qed

end

record row =
  rw_table :: nat
  rw_values :: "val list"
  rw_hidden :: bool
  rw_epoch :: nat
  rw_witness :: dependency

record marker_row =
  mk_table :: nat
  mk_values :: "val list"
  mk_canonical :: bool

record fact_state =
  fs_marker_row :: "marker_row option"
  fs_entry :: "fact_ref option"
  fs_hidden :: bool
  fs_epoch :: nat
  fs_born :: nat
  fs_hash :: u64

record cell =
  c_known_results :: "nat \<rightharpoonup> fact_ref"
  c_completed_prefix :: nat
  c_started_epoch :: nat
  c_completed :: bool
  c_template :: nat
  c_parent :: "fact_ref option"
  c_values :: "nat \<rightharpoonup> val"
  c_facts :: "nat \<rightharpoonup> fact_state"
  c_recipe_depth :: nat
  c_providers :: "nat \<rightharpoonup> fact_ref"

record func =
  fn_table :: nat
  fn_key :: "val list"
  fn_value :: val
  fn_epoch :: nat
  fn_live :: bool
  fn_origin :: "fact_ref option"

datatype known_mode = KOff | KObserve | KOn | KValue | KStatic

text \<open>What continuations need of a Cell that was absorbed into another one.\<close>

record retired =
  rt_completed :: bool
  rt_template :: nat
  rt_depth :: nat

record graph =
  g_host :: host
  g_hashkey :: "nat \<Rightarrow> val list \<Rightarrow> u64"
  g_fuel :: nat
  g_known_mode :: known_mode
  g_merge_programs_enabled :: bool
  g_program :: program
  g_views_enabled :: bool
  g_marker_fields_copied :: bool
  g_absorption_enabled :: bool
  g_fact_forwards :: "fact_ref \<rightharpoonup> fact_ref"
  g_reference_users :: "fact_ref \<rightharpoonup> nat"
  g_absorption_candidates :: "(nat \<times> nat) set"
  g_cells :: "nat \<rightharpoonup> cell"
  g_functions :: "func list"
  g_parents :: parents
  g_epoch :: nat
  g_changed :: bool
  g_unions :: nat
  g_function_updates :: nat
  g_pending_unions :: "(u64 \<times> u64) list"
  g_lineage_enabled :: bool
  g_lineage :: lineage
  g_active_cause :: "cause option"
  g_pending_causes :: "cause list"
  g_old_keys :: "dependency \<rightharpoonup> val list"
  g_union_roots :: "u64 set"
  g_events :: "dependency list"
  g_anchors :: "(string \<times> string \<times> u64) list"
  g_next_cell :: nat
  g_query_versions :: "nat list"
  g_query_changes :: "dependency \<rightharpoonup> nat"
  g_receipt_tracking :: bool
  g_receipt_forwards :: "dependency \<rightharpoonup> dependency"
  g_congruence_enabled :: bool
  g_congruence_dirty :: "nat set"
  g_operators :: "fact_ref set list"
  g_function_operators :: "nat set list"
  g_intern :: "u64 \<rightharpoonup> fact_ref set"
  g_function_keys :: "nat \<times> val list \<rightharpoonup> nat"
  g_uses :: "u64 \<rightharpoonup> dependency set"
  g_dependencies :: "dependency \<rightharpoonup> u64 set"
  g_dirty :: "dependency set"
  g_dirty_markers :: "fact_ref set"
  g_dirty_facts :: "fact_ref set list"
  g_deletion_epochs :: "nat list"
  g_parent_users :: "nat \<rightharpoonup> nat"
  g_garbage :: "nat set"
  g_retired :: "nat \<rightharpoonup> retired"

abbreviation canon_in :: "graph \<Rightarrow> val \<Rightarrow> val" where
  "canon_in g v \<equiv> canon v (g_parents g)"

abbreviation g_tables :: "graph \<Rightarrow> table list" where
  "g_tables g \<equiv> p_tables (g_program g)"

abbreviation g_templates :: "graph \<Rightarrow> template list" where
  "g_templates g \<equiv> p_templates (g_program g)"

section \<open>References\<close>

text \<open>\<open>views::resolve\<close>: follow relocations. A relocation goes to a Cell with a larger number.\<close>

definition resolve :: "(fact_ref \<rightharpoonup> fact_ref) \<Rightarrow> fact_ref \<Rightarrow> fact_ref" where
  "resolve m f = while (\<lambda>f. m f \<noteq> None) (\<lambda>f. the (m f)) f"

definition resolve_reference :: "graph \<Rightarrow> fact_ref \<Rightarrow> fact_ref" where
  "resolve_reference g f = resolve (g_fact_forwards g) f"

definition views_carrier :: "views \<Rightarrow> nat \<Rightarrow> nat \<Rightarrow> nat \<Rightarrow> carrier option" where
  "views_carrier v template op base =
     (if op < base then None
      else case v_layouts v template of
             None \<Rightarrow> None | Some l \<Rightarrow> get_at (l_carriers l) (op - base))"

definition carrier_at :: "graph \<Rightarrow> nat \<Rightarrow> nat \<Rightarrow> carrier option res" where
  "carrier_at g template op =
     rbind (idx (g_templates g) template) (\<lambda>t.
     Inr (views_carrier (p_views (g_program g)) template op (length (tm_ops t))))"

definition carrier_of :: "graph \<Rightarrow> fact_ref \<Rightarrow> carrier option res" where
  "carrier_of g f =
     (case g_cells g (fst f) of
        None \<Rightarrow> Inr None | Some c \<Rightarrow> carrier_at g (c_template c) (snd f))"

section \<open>Reading slots\<close>

text \<open>\<open>((cell as u64) << 32) | (i as u64 + 1)\<close>\<close>

definition cell_eq :: "nat \<Rightarrow> nat \<Rightarrow> u64" where
  "cell_eq cell i = push_bit 32 (of_nat cell) OR (of_nat i + 1)"

definition provider_slot :: "graph \<Rightarrow> cell \<Rightarrow> nat \<Rightarrow> (fact_ref \<times> nat) option" where
  "provider_slot g c i =
     (case v_layouts (p_views (g_program g)) (c_template c) of
        None \<Rightarrow> None
      | Some l \<Rightarrow>
          (case l_slots l i of
             None \<Rightarrow> None
           | Some (atom, col) \<Rightarrow> map_option (\<lambda>f. (f, col)) (c_providers c atom)))"

definition static_slot :: "graph \<Rightarrow> cell \<Rightarrow> nat \<Rightarrow> arg option" where
  "static_slot g c i =
     (if g_known_mode g = KStatic then
        (case get_at (kp_static_slots (p_known_results (g_program g))) (c_template c) of
           None \<Rightarrow> None
         | Some slots \<Rightarrow> (case get_at slots i of None \<Rightarrow> None | Some a \<Rightarrow> a))
      else None)"

definition parent_slot :: "cell \<Rightarrow> template \<Rightarrow> nat \<Rightarrow> (fact_ref \<times> nat) option" where
  "parent_slot c t i =
     (case (c_parent c, tm_parent_columns t i) of (Some f, Some col) \<Rightarrow> Some (f, col) | _ \<Rightarrow> None)"

definition defined_slot :: "graph \<Rightarrow> nat \<Rightarrow> nat \<Rightarrow> nat \<Rightarrow> val res" where
  "defined_slot g cell i tb =
     rbind (idx (g_tables g) tb) (\<lambda>t.
     if \<not> t_virtual t then Inl (Err ''unready computed/function slot'')
     else Inr (if t_constructor t then VEq (root (g_parents g) (cell_eq cell i)) else VInt 0))"

text \<open>
  The functions \<open>argument_in\<close>, \<open>slot_in\<close>, \<open>fact_column\<close> and \<open>argument\<close> call each other. Each is a
  step over the requests it makes; \<open>read\<close> answers a request by iterating the steps.
\<close>

datatype request = RArgIn nat cell arg | RSlotIn nat cell nat | RColumn fact_ref nat | RArg nat arg

definition argument_in_step :: "(request \<Rightarrow> val res) \<Rightarrow> graph \<Rightarrow> nat \<Rightarrow> cell \<Rightarrow> arg \<Rightarrow> val res" where
  "argument_in_step rd g cell c a =
     (case a of Literal v \<Rightarrow> Inr (canon_in g v) | Slot i \<Rightarrow> rd (RSlotIn cell c i))"

definition slot_in_step :: "(request \<Rightarrow> val res) \<Rightarrow> graph \<Rightarrow> nat \<Rightarrow> cell \<Rightarrow> nat \<Rightarrow> val res" where
  "slot_in_step rd g cell c i =
     (case c_values c i of
        Some v \<Rightarrow> Inr (canon_in g v)
      | None \<Rightarrow>
     (case provider_slot g c i of
        Some (f, col) \<Rightarrow> rd (RColumn f col)
      | None \<Rightarrow>
     (case static_slot g c i of
        Some a \<Rightarrow> rd (RArgIn cell c a)
      | None \<Rightarrow>
        rbind (idx (g_templates g) (c_template c)) (\<lambda>t.
        case parent_slot c t i of
          Some (f, col) \<Rightarrow> rd (RColumn f col)
        | None \<Rightarrow>
            rbind (ok_or (tm_defs t i) (Err ''unready slot'')) (\<lambda>k.
            rbind (idx (tm_ops t) k) (\<lambda>op.
            case op of
              OpCopy _ a \<Rightarrow> rd (RArgIn cell c a)
            | OpLet _ (CTable tb) _ \<Rightarrow> defined_slot g cell i tb
            | _ \<Rightarrow> Inl (Err ''unready computed/function slot'')))))))"

text \<open>The argument of an operation that stands in a column of its fact; the last column is the result.\<close>

definition op_column :: "op \<Rightarrow> nat \<Rightarrow> arg res" where
  "op_column op col =
     (case op of
        OpLet dst (CTable tb) args \<Rightarrow>
          if col = length args then Inr (Slot dst) else ok_or (get_at args col) (Err ''parent column'')
      | OpSet tb args v \<Rightarrow>
          if col = length args then Inr v else ok_or (get_at args col) (Err ''parent column'')
      | _ \<Rightarrow> Inl (Err ''invalid parent fact''))"

definition fact_column_step :: "(request \<Rightarrow> val res) \<Rightarrow> graph \<Rightarrow> fact_ref \<Rightarrow> nat \<Rightarrow> val res" where
  "fact_column_step rd g f0 col =
     (let f = resolve_reference g f0 in
      rbind (carrier_of g f) (\<lambda>ca.
      case ca of
        Some ca \<Rightarrow>
          rbind (ok_or (get_at (ca_columns ca) col) (Err ''carrier column'')) (\<lambda>a. rd (RArg (fst f) a))
      | None \<Rightarrow>
          rbind (ok_or (g_cells g (fst f)) (Err ''expired parent Cell'')) (\<lambda>c.
          rbind (idx (g_templates g) (c_template c)) (\<lambda>t.
          rbind (ok_or (get_at (tm_ops t) (snd f)) (Err ''invalid retained fact position'')) (\<lambda>op.
          rbind (op_column op col) (\<lambda>a. rd (RArg (fst f) a)))))))"

definition argument_step :: "(request \<Rightarrow> val res) \<Rightarrow> graph \<Rightarrow> nat \<Rightarrow> arg \<Rightarrow> val res" where
  "argument_step rd g cell a =
     (case a of
        Literal v \<Rightarrow> Inr (canon_in g v)
      | Slot i \<Rightarrow>
          rbind (ok_or (g_cells g cell) (Err ''expired Cell reference'')) (\<lambda>c. rd (RSlotIn cell c i)))"

fun read_step :: "(request \<Rightarrow> val res) \<Rightarrow> graph \<Rightarrow> request \<Rightarrow> val res" where
  "read_step rd g (RArgIn cell c a) = argument_in_step rd g cell c a"
| "read_step rd g (RSlotIn cell c i) = slot_in_step rd g cell c i"
| "read_step rd g (RColumn f col) = fact_column_step rd g f col"
| "read_step rd g (RArg cell a) = argument_step rd g cell a"

primrec read :: "nat \<Rightarrow> graph \<Rightarrow> request \<Rightarrow> val res" where
  "read 0 g r = Inl Diverge"
| "read (Suc n) g r = read_step (read n g) g r"

definition argument :: "graph \<Rightarrow> nat \<Rightarrow> arg \<Rightarrow> val res" where
  "argument g cell a = read (g_fuel g) g (RArg cell a)"

definition argument_in :: "graph \<Rightarrow> nat \<Rightarrow> cell \<Rightarrow> arg \<Rightarrow> val res" where
  "argument_in g cell c a = read (g_fuel g) g (RArgIn cell c a)"

definition fact_column :: "graph \<Rightarrow> fact_ref \<Rightarrow> nat \<Rightarrow> val res" where
  "fact_column g f col = read (g_fuel g) g (RColumn f col)"

definition slot :: "graph \<Rightarrow> nat \<Rightarrow> nat \<Rightarrow> val res" where
  "slot g cell i = argument g cell (Slot i)"

definition arguments :: "graph \<Rightarrow> nat \<Rightarrow> arg list \<Rightarrow> val list res" where
  "arguments g cell aa = rmapM (argument g cell) aa"

definition arguments_in :: "graph \<Rightarrow> nat \<Rightarrow> cell \<Rightarrow> arg list \<Rightarrow> val list res" where
  "arguments_in g cell c aa = rmapM (argument_in g cell c) aa"

section \<open>Reading rows\<close>

text \<open>The table and the columns that a fact position stands for.\<close>

definition fact_columns :: "graph \<Rightarrow> cell \<Rightarrow> nat \<Rightarrow> (nat \<times> arg list) res" where
  "fact_columns g c op =
     rbind (carrier_at g (c_template c) op) (\<lambda>ca.
     case ca of
       Some ca \<Rightarrow> Inr (ca_table ca, ca_columns ca)
     | None \<Rightarrow>
         rbind (idx (g_templates g) (c_template c)) (\<lambda>t.
         rbind (ok_or (get_at (tm_ops t) op) (Err ''invalid live fact position'')) (\<lambda>e.
         case e of
           OpLet dst (CTable tb) aa \<Rightarrow> Inr (tb, aa @ [Slot dst])
         | OpSet tb aa v \<Rightarrow> Inr (tb, aa @ [v])
         | _ \<Rightarrow> Inl (Err ''invalid fact recipe position''))))"

definition fact :: "graph \<Rightarrow> fact_ref \<Rightarrow> row option res" where
  "fact g f =
     (case g_cells g (fst f) of
        None \<Rightarrow> Inr None
      | Some c \<Rightarrow>
     (case c_facts c (snd f) of
        None \<Rightarrow> Inr None
      | Some s \<Rightarrow>
     (case fs_marker_row s of
        Some m \<Rightarrow>
          Inr (Some \<lparr>rw_table = mk_table m,
            rw_values = (if mk_canonical m then mk_values m else map (canon_in g) (mk_values m)),
            rw_hidden = fs_hidden s, rw_epoch = fs_epoch s, rw_witness = DFact f\<rparr>)
      | None \<Rightarrow>
          rbind (fact_columns g c (snd f)) (\<lambda>(tb, cols).
          rbind (arguments_in g (fst f) c cols) (\<lambda>vs.
          Inr (Some \<lparr>rw_table = tb, rw_values = vs, rw_hidden = fs_hidden s,
            rw_epoch = fs_epoch s, rw_witness = DFact f\<rparr>))))))"

definition function_row :: "graph \<Rightarrow> nat \<Rightarrow> row option" where
  "function_row g i =
     (case get_at (g_functions g) i of
        None \<Rightarrow> None
      | Some f \<Rightarrow>
          (if \<not> fn_live f then None
           else Some \<lparr>rw_table = fn_table f, rw_values = map (canon_in g) (fn_key f) @ [canon_in g (fn_value f)],
             rw_hidden = False, rw_epoch = fn_epoch f, rw_witness = DFunction i\<rparr>))"

definition row_of :: "graph \<Rightarrow> dependency \<Rightarrow> row option res" where
  "row_of g w = (case w of DFact f \<Rightarrow> fact g f | DFunction i \<Rightarrow> Inr (function_row g i))"

fun op_table :: "op \<Rightarrow> nat option" where
  "op_table (OpLet _ (CTable t) _) = Some t"
| "op_table (OpSet t _ _) = Some t"
| "op_table _ = None"

definition position_table :: "graph \<Rightarrow> cell \<Rightarrow> nat \<Rightarrow> nat option res" where
  "position_table g c op =
     rbind (carrier_at g (c_template c) op) (\<lambda>ca.
     case ca of
       Some ca \<Rightarrow> Inr (Some (ca_table ca))
     | None \<Rightarrow>
         rbind (idx (g_templates g) (c_template c)) (\<lambda>t.
         Inr (case get_at (tm_ops t) op of None \<Rightarrow> None | Some e \<Rightarrow> op_table e)))"

definition live_table :: "graph \<Rightarrow> dependency \<Rightarrow> nat option res" where
  "live_table g w =
     (case w of
        DFunction i \<Rightarrow>
          Inr (case get_at (g_functions g) i of
                 None \<Rightarrow> None | Some f \<Rightarrow> if fn_live f then Some (fn_table f) else None)
      | DFact f \<Rightarrow>
          (case g_cells g (fst f) of
             None \<Rightarrow> Inr None
           | Some c \<Rightarrow>
          (case c_facts c (snd f) of
             None \<Rightarrow> Inr None
           | Some s \<Rightarrow>
               (case fs_marker_row s of
                  Some m \<Rightarrow> Inr (Some (mk_table m)) | None \<Rightarrow> position_table g c (snd f)))))"

definition dependency_table :: "graph \<Rightarrow> dependency \<Rightarrow> nat option res" where
  "dependency_table g w =
     (case w of
        DFunction i \<Rightarrow> Inr (map_option fn_table (get_at (g_functions g) i))
      | DFact f \<Rightarrow>
          (case g_cells g (fst f) of
             None \<Rightarrow> Inr None | Some c \<Rightarrow> position_table g c (snd f)))"

definition origin :: "graph \<Rightarrow> dependency \<Rightarrow> fact_ref option" where
  "origin g w =
     (case w of
        DFact f \<Rightarrow> Some f
      | DFunction i \<Rightarrow>
          (case get_at (g_functions g) i of
             None \<Rightarrow> None | Some f \<Rightarrow> if fn_live f then fn_origin f else None))"

text \<open>Receipts: \<open>receipt_visible\<close> and \<open>resolve_receipt\<close>, whose loop has no bound in the code.\<close>

definition receipt_visible :: "graph \<Rightarrow> dependency \<Rightarrow> nat \<Rightarrow> bool res" where
  "receipt_visible g w table =
     (case w of
        DFact f \<Rightarrow>
          rbind (live_table g w) (\<lambda>lt.
          Inr (lt = Some table \<and>
            (case g_cells g (fst f) of
               None \<Rightarrow> False
             | Some c \<Rightarrow> (case c_facts c (snd f) of None \<Rightarrow> False | Some s \<Rightarrow> \<not> fs_hidden s))))
      | DFunction i \<Rightarrow>
          Inr (case get_at (g_functions g) i of
                 None \<Rightarrow> False | Some f \<Rightarrow> fn_live f \<and> fn_table f = table))"

definition receipt_step :: "graph \<Rightarrow> dependency \<Rightarrow> dependency option" where
  "receipt_step g w =
     (let moved = (case w of DFact f \<Rightarrow> DFact (resolve_reference g f) | _ \<Rightarrow> w) in
      if moved \<noteq> w then Some moved else g_receipt_forwards g w)"

definition resolve_receipt :: "graph \<Rightarrow> dependency \<Rightarrow> dependency" where
  "resolve_receipt g w = while (\<lambda>w. receipt_step g w \<noteq> None) (\<lambda>w. the (receipt_step g w)) w"

end
