(* ===== verification/GraphIndex.thy ===== *)
theory GraphIndex
  imports GraphState
begin

text \<open>
  Lookups and indexes of \<open>engine/cell-runtime/src/graph.rs\<close>: the witnesses and candidates of a table,
  the keyed lookup through the hash buckets, and \<open>subscribe\<close>, which maintains the reverse index
  \<open>uses\<close> from identities to the facts that mention them. Sets are iterated in their order.
\<close>

section \<open>Reading the indexes\<close>

definition witnesses :: "graph \<Rightarrow> nat \<Rightarrow> dependency list res" where
  "witnesses g table =
     rbind (idx (g_tables g) table) (\<lambda>t.
     if t_virtual t then rmap (\<lambda>s. map DFact (sorted_list_of_set s)) (idx (g_operators g) table)
     else rmap (\<lambda>s. map DFunction (sorted_list_of_set s)) (idx (g_function_operators g) table))"

definition witness_count :: "graph \<Rightarrow> nat \<Rightarrow> nat res" where
  "witness_count g table =
     rbind (idx (g_tables g) table) (\<lambda>t.
     if t_virtual t then rmap card (idx (g_operators g) table)
     else rmap card (idx (g_function_operators g) table))"

text \<open>\<open>min_by_key\<close>: the first element with the least key.\<close>

fun min_by_key :: "('a \<Rightarrow> nat) \<Rightarrow> 'a list \<Rightarrow> 'a option" where
  "min_by_key f [] = None"
| "min_by_key f (x # xs) =
     (case min_by_key f xs of None \<Rightarrow> Some x | Some y \<Rightarrow> if f y < f x then Some y else Some x)"

definition uses_of :: "graph \<Rightarrow> u64 \<Rightarrow> dependency set" where
  "uses_of g x = (case g_uses g x of None \<Rightarrow> {} | Some s \<Rightarrow> s)"

definition bound_uses :: "graph \<Rightarrow> val option list \<Rightarrow> dependency set option" where
  "bound_uses g bound =
     min_by_key card (List.map_filter
       (\<lambda>v. case v of Some (VEq x) \<Rightarrow> Some (uses_of g (root (g_parents g) x)) | _ \<Rightarrow> None) bound)"

definition candidate_count :: "graph \<Rightarrow> nat \<Rightarrow> val option list \<Rightarrow> nat res" where
  "candidate_count g table bound =
     rbind (witness_count g table) (\<lambda>all.
     Inr (case bound_uses g bound of None \<Rightarrow> all | Some u \<Rightarrow> min all (card u)))"

fun rfilter :: "('a \<Rightarrow> bool res) \<Rightarrow> 'a list \<Rightarrow> 'a list res" where
  "rfilter p [] = Inr []"
| "rfilter p (x # xs) = rbind (p x) (\<lambda>b. rbind (rfilter p xs) (\<lambda>ys. Inr (if b then x # ys else ys)))"

definition candidate_in :: "graph \<Rightarrow> nat \<Rightarrow> dependency \<Rightarrow> bool res" where
  "candidate_in g table w =
     (case w of
        DFact f \<Rightarrow>
          (case g_cells g (fst f) of
             None \<Rightarrow> Inr False
           | Some c \<Rightarrow>
               rbind (carrier_of g f) (\<lambda>ca. case ca of
                 Some ca \<Rightarrow> Inr (ca_table ca = table)
               | None \<Rightarrow>
                   rbind (idx (g_templates g) (c_template c)) (\<lambda>t.
                   rbind (idx (tm_ops t) (snd f)) (\<lambda>op. Inr (op_table op = Some table)))))
      | DFunction i \<Rightarrow>
          rbind (idx (g_functions g) i) (\<lambda>f. Inr (fn_live f \<and> fn_table f = table)))"

definition candidates :: "graph \<Rightarrow> nat \<Rightarrow> val option list \<Rightarrow> dependency list res" where
  "candidates g table bound =
     (case bound_uses g bound of
        None \<Rightarrow> witnesses g table
      | Some u \<Rightarrow>
          rbind (witness_count g table) (\<lambda>n.
          if card u < n then rfilter (candidate_in g table) (sorted_list_of_set u)
          else witnesses g table))"

section \<open>Lookup\<close>

text \<open>\<open>row.values[..n]\<close>\<close>

definition row_prefix :: "row \<Rightarrow> nat \<Rightarrow> val list res" where
  "row_prefix r n = (if n \<le> length (rw_values r) then Inr (take n (rw_values r)) else Inl Panic)"

fun find_fact :: "graph \<Rightarrow> nat \<Rightarrow> val list \<Rightarrow> fact_ref list \<Rightarrow> row option res" where
  "find_fact g t key [] = Inr None"
| "find_fact g t key (f # fs) =
     rbind (fact g f) (\<lambda>r. case r of
       None \<Rightarrow> find_fact g t key fs
     | Some r \<Rightarrow>
         if rw_table r \<noteq> t then find_fact g t key fs
         else rbind (row_prefix r (length key)) (\<lambda>k.
           if k = key then Inr (Some r) else find_fact g t key fs))"

definition bucket :: "graph \<Rightarrow> u64 \<Rightarrow> fact_ref set" where
  "bucket g h = (case g_intern g h of None \<Rightarrow> {} | Some s \<Rightarrow> s)"

definition lookup :: "graph \<Rightarrow> nat \<Rightarrow> val list \<Rightarrow> row option res" where
  "lookup g table key0 =
     (let key = map (canon_in g) key0 in
      rbind (idx (g_tables g) table) (\<lambda>t.
      if \<not> t_virtual t then
        Inr (case g_function_keys g (table, key) of None \<Rightarrow> None | Some i \<Rightarrow> function_row g i)
      else
        rbind (idx (g_dirty_facts g) table) (\<lambda>dirty.
        find_fact g table key (sorted_list_of_set (bucket g (g_hashkey g table key) \<union> dirty)))))"

section \<open>Subscriptions\<close>

function value_refs :: "val \<Rightarrow> u64 set" where
  "value_refs (VEq x) = {x}"
| "value_refs (VSet xs) = (\<Union>x \<in> set xs. value_refs x)"
| "value_refs (VInt n) = {}"
| "value_refs (VText s) = {}"
| "value_refs (VFloat n) = {}"
| "value_refs (VKey k) = {}"
  by pat_completeness auto
termination
  by (relation "measure size")
    (auto simp: less_Suc_eq_le dest: size_list_estimation' [where f = size, OF _ order_refl])

definition values_refs :: "val list \<Rightarrow> u64 set" where
  "values_refs vs = (\<Union>v \<in> set vs. value_refs v)"

definition remove_uses :: "dependency \<Rightarrow> u64 set \<Rightarrow> (u64 \<rightharpoonup> dependency set) \<Rightarrow> (u64 \<rightharpoonup> dependency set)" where
  "remove_uses d ids uses = (\<lambda>x. if x \<in> ids then map_option (\<lambda>s. s - {d}) (uses x) else uses x)"

definition add_uses :: "dependency \<Rightarrow> u64 set \<Rightarrow> (u64 \<rightharpoonup> dependency set) \<Rightarrow> (u64 \<rightharpoonup> dependency set)" where
  "add_uses d ids uses =
     (\<lambda>x. if x \<in> ids then Some (insert d (case uses x of None \<Rightarrow> {} | Some s \<Rightarrow> s)) else uses x)"

definition touch :: "nat \<Rightarrow> dependency \<Rightarrow> graph \<Rightarrow> graph res" where
  "touch table d g =
     rbind (idx (g_query_versions g) table) (\<lambda>v.
     Inr (g\<lparr>g_query_versions := (g_query_versions g)[table := v + 1],
            g_query_changes := (g_query_changes g)(d \<mapsto> table)\<rparr>))"

definition subscribe :: "dependency \<Rightarrow> val list \<Rightarrow> graph \<Rightarrow> graph res" where
  "subscribe d vs g =
     rbind (dependency_table g d) (\<lambda>tb.
     rbind (case tb of None \<Rightarrow> Inr g | Some table \<Rightarrow> touch table d g) (\<lambda>g1.
     let uses1 = (case g_dependencies g1 d of
            None \<Rightarrow> g_uses g1
          | Some old \<Rightarrow> remove_uses d (root (g_parents g1) ` old) (g_uses g1));
         refs = values_refs (map (canon_in g1) vs)
     in Inr (g1\<lparr>g_uses := add_uses d refs uses1,
               g_dependencies := (g_dependencies g1)(d \<mapsto> refs)\<rparr>)))"

definition push_event :: "dependency \<Rightarrow> graph \<Rightarrow> graph" where
  "push_event d g = g\<lparr>g_events := g_events g @ [d]\<rparr>"

text \<open>Complete visible rows that mention an identity, in the given tables.\<close>

fun neighbor_rows :: "graph \<Rightarrow> nat set \<Rightarrow> dependency list \<Rightarrow> row list res" where
  "neighbor_rows g tables [] = Inr []"
| "neighbor_rows g tables (d # ds) =
     rbind (dependency_table g d) (\<lambda>tb.
     rbind (case tb of
         None \<Rightarrow> Inr []
       | Some t \<Rightarrow>
           if t \<in> tables then
             rmap (\<lambda>r. case r of None \<Rightarrow> [] | Some r \<Rightarrow> if rw_hidden r then [] else [r]) (row_of g d)
           else Inr []) (\<lambda>rs.
     rbind (neighbor_rows g tables ds) (\<lambda>rest. Inr (rs @ rest))))"

definition equality_neighbors :: "graph \<Rightarrow> u64 \<Rightarrow> nat set \<Rightarrow> row list res" where
  "equality_neighbors g x tables =
     neighbor_rows g tables (sorted_list_of_set (uses_of g (root (g_parents g) x)))"

section \<open>Every read is canonical\<close>

definition canonical_res :: "parents \<Rightarrow> val res \<Rightarrow> bool" where
  "canonical_res p r \<longleftrightarrow> (\<forall>v. r = Inr v \<longrightarrow> canon v p = v)"

lemma canonical_res_simps [simp]:
  "canonical_res p (Inl e)" "canonical_res p (Inr v) \<longleftrightarrow> canon v p = v"
  by (auto simp: canonical_res_def)

lemma canonical_res_bind: "(\<And>x. m = Inr x \<Longrightarrow> canonical_res p (f x)) \<Longrightarrow> canonical_res p (rbind m f)"
  by (cases m) auto

lemma canonical_read:
  assumes "decreasing (g_parents g)"
  shows "canonical_res (g_parents g) (read n g r)"
proof (induction n arbitrary: r)
  case (Suc n)
  have rd: "canonical_res (g_parents g) (read n g r)" for r by (rule Suc.IH)
  note bind = canonical_res_bind [where p = "g_parents g"]
  show ?case
  proof (cases r)
    case (RArgIn cell c a)
    then show ?thesis using assms rd by (auto simp: argument_in_step_def split: arg.splits)
  next
    case (RSlotIn cell c i)
    then show ?thesis using assms rd
      by (auto simp: slot_in_step_def defined_slot_def intro!: bind
          split: option.splits prod.splits op.splits call.splits)
  next
    case (RColumn f col)
    then show ?thesis using rd
      by (auto simp: fact_column_step_def Let_def intro!: bind split: option.splits)
  next
    case (RArg cell a)
    then show ?thesis using assms rd by (auto simp: argument_step_def intro!: bind split: arg.splits)
  qed
qed simp

definition canonical_values :: "graph \<Rightarrow> val list \<Rightarrow> bool" where
  "canonical_values g vs \<longleftrightarrow> map (canon_in g) vs = vs"

text \<open>A copied marker row that is flagged canonical holds canonical values.\<close>

definition markers_canonical :: "graph \<Rightarrow> bool" where
  "markers_canonical g \<longleftrightarrow>
     (\<forall>id c op s m. g_cells g id = Some c \<longrightarrow> c_facts c op = Some s \<longrightarrow> fs_marker_row s = Some m \<longrightarrow>
        mk_canonical m \<longrightarrow> canonical_values g (mk_values m))"

lemma arguments_in_canonical:
  assumes "decreasing (g_parents g)" "arguments_in g cell c aa = Inr vs"
  shows "canonical_values g vs"
proof -
  have "canon_in g v = v" if v: "v \<in> set vs" for v
  proof -
    from rmapM_mem [OF assms(2) [unfolded arguments_in_def] v] obtain a where
      a: "read (g_fuel g) g (RArgIn cell c a) = Inr v" by (auto simp: argument_in_def)
    have "canonical_res (g_parents g) (read (g_fuel g) g (RArgIn cell c a))"
      by (rule canonical_read [OF assms(1)])
    then show ?thesis unfolding a by simp
  qed
  then show ?thesis by (simp add: canonical_values_def map_idI)
qed

lemma fact_canonical:
  assumes "decreasing (g_parents g)" "markers_canonical g" "fact g f = Inr (Some r)"
  shows "canonical_values g (rw_values r) \<and> rw_witness r = DFact f"
proof -
  obtain c s where c: "g_cells g (fst f) = Some c" "c_facts c (snd f) = Some s"
    using assms(3) by (auto simp: fact_def split: option.splits)
  show ?thesis
  proof (cases "fs_marker_row s")
    case (Some m)
    then show ?thesis using assms c
      by (auto simp: fact_def markers_canonical_def canonical_values_def)
  next
    case None
    then obtain tb cols vs where "arguments_in g (fst f) c cols = Inr vs"
      "r = \<lparr>rw_table = tb, rw_values = vs, rw_hidden = fs_hidden s, rw_epoch = fs_epoch s, rw_witness = DFact f\<rparr>"
      using assms(3) c by (auto simp: fact_def res_simps)
    then show ?thesis using arguments_in_canonical [OF assms(1)] by simp
  qed
qed

lemma function_row_canonical:
  assumes "decreasing (g_parents g)" "function_row g i = Some r"
  shows "canonical_values g (rw_values r) \<and> rw_witness r = DFunction i"
  using assms by (auto simp: function_row_def canonical_values_def split: option.splits if_splits)

lemma find_fact_Cons_Inr:
  assumes "find_fact g t key (f # fs) = Inr out"
  obtains (found) r where "fact g f = Inr (Some r)" "rw_table r = t" "take (length key) (rw_values r) = key"
      "out = Some r"
  | (skip) "\<And>r. fact g f = Inr (Some r) \<Longrightarrow> rw_table r = t \<Longrightarrow> take (length key) (rw_values r) \<noteq> key"
      "find_fact g t key fs = Inr out"
proof -
  from assms obtain x where x: "fact g f = Inr x" by (auto simp: rbind_eq_Inr)
  show thesis
  proof (cases x)
    case None
    with assms x show thesis by (intro skip) simp_all
  next
    case (Some r)
    show thesis
    proof (cases "rw_table r = t \<and> take (length key) (rw_values r) = key")
      case True
      then show thesis
        using assms x Some by (intro found) (auto simp: row_prefix_def split: if_splits)
    next
      case False
      then show thesis
        using assms x Some by (intro skip) (auto simp: row_prefix_def split: if_splits)
    qed
  qed
qed

lemma find_fact_sound:
  "find_fact g t key fs = Inr (Some r) \<Longrightarrow>
   \<exists>f \<in> set fs. fact g f = Inr (Some r) \<and> rw_table r = t \<and> take (length key) (rw_values r) = key"
proof (induction fs)
  case (Cons f fs)
  from Cons.prems show ?case
    by (cases rule: find_fact_Cons_Inr) (use Cons.IH in auto)
qed simp

lemma find_fact_None:
  "find_fact g t key fs = Inr None \<Longrightarrow> f \<in> set fs \<Longrightarrow> fact g f = Inr (Some r) \<Longrightarrow> rw_table r = t \<Longrightarrow>
   take (length key) (rw_values r) \<noteq> key"
proof (induction fs)
  case (Cons f' fs)
  from Cons.prems(1) show ?case
  proof (cases rule: find_fact_Cons_Inr)
    case skip
    then show ?thesis using Cons by (cases "f = f'") auto
  qed simp
qed simp

end
