(* ===== verification/GraphWrite.thy ===== *)
theory GraphWrite
  imports GraphIndex
begin

text \<open>
  The operations of \<open>engine/cell-runtime/src/graph.rs\<close> that change the graph inside a run: Cells and
  their references, activation and retirement of facts, constructor requests with the known-result
  plans, unions, merges, sets and hides. An operation returns the new state with its result; an
  error or a panic ends the run, so it carries no state.
\<close>

definition modify_cell :: "nat \<Rightarrow> (cell \<Rightarrow> cell) \<Rightarrow> graph \<Rightarrow> graph res" where
  "modify_cell cid f g =
     (case g_cells g cid of
        None \<Rightarrow> Inl Panic | Some c \<Rightarrow> Inr (g\<lparr>g_cells := (g_cells g)(cid \<mapsto> f c)\<rparr>))"

definition get_cell :: "graph \<Rightarrow> nat \<Rightarrow> cell res" where
  "get_cell g cid = ok_or (g_cells g cid) Panic"

definition get_fact :: "graph \<Rightarrow> fact_ref \<Rightarrow> fact_state res" where
  "get_fact g f = rbind (get_cell g (fst f)) (\<lambda>c. ok_or (c_facts c (snd f)) Panic)"

definition modify_fact :: "fact_ref \<Rightarrow> (fact_state \<Rightarrow> fact_state) \<Rightarrow> graph \<Rightarrow> graph res" where
  "modify_fact f u g =
     rbind (get_fact g f) (\<lambda>s. modify_cell (fst f) (\<lambda>c. c\<lparr>c_facts := (c_facts c)(snd f \<mapsto> u s)\<rparr>) g)"

definition last_value :: "row \<Rightarrow> val res" where
  "last_value r = (if rw_values r = [] then Inl Panic else Inr (last (rw_values r)))"

definition row_key :: "row \<Rightarrow> val list" where
  "row_key r = butlast (rw_values r)"

section \<open>Cells and references\<close>

definition users :: "('k \<rightharpoonup> nat) \<Rightarrow> 'k \<Rightarrow> nat" where
  "users m k = (case m k of Some n \<Rightarrow> n | None \<Rightarrow> 0)"

definition add_user :: "'k \<Rightarrow> ('k \<rightharpoonup> nat) \<Rightarrow> ('k \<rightharpoonup> nat)" where
  "add_user k m = m(k \<mapsto> Suc (users m k))"

definition retain_reference :: "fact_ref \<Rightarrow> graph \<Rightarrow> graph" where
  "retain_reference f0 g =
     (let f = resolve_reference g f0 in
      g\<lparr>g_reference_users := add_user f (g_reference_users g),
        g_parent_users := add_user (fst f) (g_parent_users g)\<rparr>)"

text \<open>Decrementing a missing or zero count is a panic (\<open>expect\<close>, checked subtraction).\<close>

definition drop_one :: "('k \<rightharpoonup> nat) \<Rightarrow> 'k \<Rightarrow> ('k \<rightharpoonup> nat) res" where
  "drop_one m k =
     (case m k of None \<Rightarrow> Inl Panic | Some n \<Rightarrow> if n = 0 then Inl Panic else Inr (m(k \<mapsto> n - 1)))"

definition release_reference :: "fact_ref \<Rightarrow> graph \<Rightarrow> graph res" where
  "release_reference f0 g =
     (let f = resolve_reference g f0 in
      rbind (drop_one (g_reference_users g) f) (\<lambda>ru.
      let ru = (if ru f = Some 0 then ru(f := None) else ru) in
      rbind (drop_one (g_parent_users g) (fst f)) (\<lambda>pu.
      Inr (g\<lparr>g_reference_users := ru, g_parent_users := pu,
             g_garbage := insert (fst f) (g_garbage g)\<rparr>))))"

definition reserve_cell_id :: "graph \<Rightarrow> (graph \<times> nat) res" where
  "reserve_cell_id g =
     (let cid = g_next_cell g in
      if int cid + 1 \<ge> 2 ^ 32 then Inl (Err ''Cell identity exhausted'')
      else Inr (g\<lparr>g_next_cell := cid + 1\<rparr>, cid))"

text \<open>\<open>columns.is_empty()\<close>; the keys are slots of the template.\<close>

definition no_parent_columns :: "template \<Rightarrow> bool" where
  "no_parent_columns t \<longleftrightarrow> list_all (\<lambda>i. tm_parent_columns t i = None) [0..<length (tm_sorts t)]"

definition new_cell :: "graph \<Rightarrow> nat \<Rightarrow> (nat \<rightharpoonup> val) \<Rightarrow> fact_ref option \<Rightarrow> cell res" where
  "new_cell g template vals parent0 =
     rbind (idx (g_templates g) template) (\<lambda>t.
     let parent = (if no_parent_columns t then None else parent0);
         vals = (if parent \<noteq> None then (\<lambda>i. if tm_parent_columns t i \<noteq> None then None else vals i) else vals)
     in Inr \<lparr>c_known_results = Map.empty, c_completed_prefix = 0, c_started_epoch = g_epoch g,
          c_completed = False, c_template = template, c_parent = parent, c_values = vals,
          c_facts = Map.empty, c_recipe_depth = 0, c_providers = Map.empty\<rparr>)"

definition store_cell :: "nat \<Rightarrow> cell \<Rightarrow> graph \<Rightarrow> graph" where
  "store_cell cid c g =
     (let g1 = (case c_parent c of None \<Rightarrow> g | Some f \<Rightarrow> retain_reference f g)
      in g1\<lparr>g_cells := (g_cells g1)(cid \<mapsto> c)\<rparr>)"

definition linked_frame :: "nat \<Rightarrow> (nat \<rightharpoonup> val) \<Rightarrow> fact_ref option \<Rightarrow> graph \<Rightarrow> (graph \<times> nat) res" where
  "linked_frame template vals parent g =
     rbind (reserve_cell_id g) (\<lambda>(g1, cid).
     rbind (new_cell g1 template vals parent) (\<lambda>c. Inr (store_cell cid c g1, cid)))"

definition frame :: "nat \<Rightarrow> (nat \<rightharpoonup> val) \<Rightarrow> graph \<Rightarrow> (graph \<times> nat) res" where
  "frame template vals g = linked_frame template vals None g"

section \<open>Facts\<close>

definition add_to :: "'a \<Rightarrow> nat \<Rightarrow> 'a set list \<Rightarrow> 'a set list res" where
  "add_to x i ss = rbind (idx ss i) (\<lambda>s. Inr (ss[i := insert x s]))"

definition remove_from :: "'a \<Rightarrow> nat \<Rightarrow> 'a set list \<Rightarrow> 'a set list res" where
  "remove_from x i ss = rbind (idx ss i) (\<lambda>s. Inr (ss[i := s - {x}]))"

definition bucket_add :: "(u64 \<rightharpoonup> fact_ref set) \<Rightarrow> u64 \<Rightarrow> fact_ref \<Rightarrow> (u64 \<rightharpoonup> fact_ref set)" where
  "bucket_add m h f = m(h \<mapsto> insert f (case m h of None \<Rightarrow> {} | Some s \<Rightarrow> s))"

definition bucket_remove :: "(u64 \<rightharpoonup> fact_ref set) \<Rightarrow> u64 \<Rightarrow> fact_ref \<Rightarrow> (u64 \<rightharpoonup> fact_ref set)" where
  "bucket_remove m h f = (case m h of None \<Rightarrow> m | Some s \<Rightarrow> m(h \<mapsto> s - {f}))"

definition activate :: "fact_ref \<Rightarrow> nat \<Rightarrow> val list \<Rightarrow> val \<Rightarrow> bool \<Rightarrow> graph \<Rightarrow> graph res" where
  "activate f t key v hidden g =
     (let h = g_hashkey g t key; vs = key @ [v];
          marker = (if g_marker_fields_copied g \<and> t \<in> v_markers (p_views (g_program g))
            then Some \<lparr>mk_table = t, mk_values = vs, mk_canonical = True\<rparr> else None)
      in rbind (modify_cell (fst f) (\<lambda>c. c\<lparr>c_facts := (c_facts c)(snd f \<mapsto>
             \<lparr>fs_marker_row = marker, fs_entry = None, fs_hidden = hidden, fs_epoch = g_epoch g,
              fs_born = g_epoch g, fs_hash = h\<rparr>)\<rparr>) g) (\<lambda>g1.
         rbind (add_to f t (g_operators g1)) (\<lambda>ops.
         let g2 = g1\<lparr>g_operators := ops, g_intern := bucket_add (g_intern g1) h f\<rparr> in
         rbind (subscribe (DFact f) vs g2) (\<lambda>g3.
         Inr ((push_event (DFact f) g3)\<lparr>g_changed := True\<rparr>)))))"

definition insert_constructor :: "nat \<Rightarrow> nat \<Rightarrow> nat \<Rightarrow> val list \<Rightarrow> nat \<Rightarrow> graph \<Rightarrow> (graph \<times> val) res" where
  "insert_constructor cell op t key dst g =
     rbind (slot g cell dst) (\<lambda>v.
     rbind (activate (cell, op) t key v False g) (\<lambda>g1. Inr (g1, v)))"

definition retire :: "fact_ref \<Rightarrow> graph \<Rightarrow> graph res" where
  "retire f g =
     rbind (fact g f) (\<lambda>r. case r of
       None \<Rightarrow> Inr g
     | Some r \<Rightarrow>
         rbind (touch (rw_table r) (DFact f) g) (\<lambda>g1.
         rbind (get_fact g1 f) (\<lambda>s.
         rbind (modify_cell (fst f) (\<lambda>c. c\<lparr>c_facts := (c_facts c)(snd f := None)\<rparr>) g1) (\<lambda>g2.
         rbind (remove_from f (rw_table r) (g_operators g2)) (\<lambda>ops.
         rbind (subscribe (DFact f) []
           (g2\<lparr>g_operators := ops, g_intern := bucket_remove (g_intern g2) (fs_hash s) f\<rparr>)) (\<lambda>g3.
         Inr (g3\<lparr>g_garbage := insert (fst f) (g_garbage g3)\<rparr>)))))))"

section \<open>Constructor requests\<close>

definition known_active :: "graph \<Rightarrow> bool" where
  "known_active g \<longleftrightarrow> g_known_mode g = KObserve \<or> g_known_mode g = KOn"

definition plan_at :: "(nat \<rightharpoonup> 'a option list) \<Rightarrow> nat \<Rightarrow> nat \<Rightarrow> 'a option" where
  "plan_at m template op =
     (case m template of None \<Rightarrow> None
      | Some xs \<Rightarrow> (case get_at xs op of None \<Rightarrow> None | Some x \<Rightarrow> x))"

text \<open>\<open>rules[&template][op].unwrap()\<close>\<close>

definition plan_index :: "graph \<Rightarrow> nat \<Rightarrow> nat \<Rightarrow> source res" where
  "plan_index g template op = ok_or (plan_at (kp_rules (p_known_results (g_program g))) template op) Panic"

definition source_complete :: "graph \<Rightarrow> cell \<Rightarrow> source \<Rightarrow> bool res" where
  "source_complete g c src =
     (case src of
        SQuery _ \<Rightarrow> Inr True
      | SEffect i \<Rightarrow>
          if c_facts c i \<noteq> None then Inr True
          else rbind (idx (g_templates g) (c_template c)) (\<lambda>t. rbind (idx (tm_ops t) i) (\<lambda>op.
            Inr (case op of OpLet d _ _ \<Rightarrow> c_values c d \<noteq> None | _ \<Rightarrow> False))))"

text \<open>The value projection that modes \<open>observe\<close> and \<open>on\<close> evaluate; only its failure matters here.\<close>

definition known_value :: "graph \<Rightarrow> nat \<Rightarrow> cell \<Rightarrow> nat \<Rightarrow> nat \<Rightarrow> unit res" where
  "known_value g cell c op t =
     (if \<not> known_active g then Inr ()
      else case plan_at (kp_values (p_known_results (g_program g))) (c_template c) op of
        None \<Rightarrow> Inr ()
      | Some a \<Rightarrow>
          rbind (plan_index g (c_template c) op) (\<lambda>src.
          rbind (source_complete g c src) (\<lambda>complete.
          rbind (idx (g_deletion_epochs g) t) (\<lambda>e.
          if e \<ge> c_started_epoch c \<or> \<not> complete then Inr ()
          else rbind (idx (g_dirty_facts g) t) (\<lambda>dirty.
            if dirty = {} then rmap (\<lambda>_. ()) (argument g cell a) else Inr ())))))"

definition known_reference :: "graph \<Rightarrow> nat \<Rightarrow> cell \<Rightarrow> nat \<Rightarrow> fact_ref option" where
  "known_reference g cell c op =
     (case plan_at (kp_rules (p_known_results (g_program g))) (c_template c) op of
        None \<Rightarrow> None
      | Some (SQuery _) \<Rightarrow> c_known_results c op
      | Some (SEffect i) \<Rightarrow>
          (case c_known_results c i of
             Some f \<Rightarrow> Some f
           | None \<Rightarrow> if c_facts c i \<noteq> None then Some (cell, i) else None))"

definition known_hint :: "graph \<Rightarrow> nat \<Rightarrow> cell \<Rightarrow> nat \<Rightarrow> nat \<Rightarrow> val list \<Rightarrow> row option res" where
  "known_hint g cell c op t key =
     (if \<not> known_active g then Inr None
      else case known_reference g cell c op of
        None \<Rightarrow> Inr None
      | Some f \<Rightarrow>
          rbind (idx (g_dirty_facts g) t) (\<lambda>dirty.
          if dirty \<noteq> {} then Inr None
          else rbind (fact g (resolve_reference g f)) (\<lambda>r. case r of
            None \<Rightarrow> Inr None
          | Some r \<Rightarrow>
              if rw_table r \<noteq> t then Inr None
              else rbind (row_prefix r (length key)) (\<lambda>k. Inr (if k = key then Some r else None)))))"

definition known_remember :: "graph \<Rightarrow> cell \<Rightarrow> nat \<Rightarrow> bool" where
  "known_remember g c op \<longleftrightarrow> known_active g \<and>
     ((case kp_remember (p_known_results (g_program g)) (c_template c) of
         None \<Rightarrow> False | Some s \<Rightarrow> op \<in> s) \<or>
      plan_at (kp_rules (p_known_results (g_program g))) (c_template c) op \<noteq> None)"

record constructed =
  k_value :: val
  k_visible :: bool
  k_receipt :: dependency

definition construct_inner :: "nat \<Rightarrow> nat \<Rightarrow> nat \<Rightarrow> arg list \<Rightarrow> nat \<Rightarrow> graph \<Rightarrow> (graph \<times> constructed) res" where
  "construct_inner cell op t aa dst g =
     rbind (get_cell g cell) (\<lambda>c.
     rbind (known_value g cell c op t) (\<lambda>_.
     rbind (arguments g cell aa) (\<lambda>key.
     rbind (known_hint g cell c op t key) (\<lambda>hint.
     rbind (if g_known_mode g = KOn \<and> hint \<noteq> None then Inr hint else lookup g t key) (\<lambda>r.
     case r of
       Some r \<Rightarrow>
         rbind (case rw_witness r of
             DFact f \<Rightarrow>
               if known_remember g c op
               then modify_cell cell (\<lambda>c. c\<lparr>c_known_results := (c_known_results c)(op \<mapsto> f)\<rparr>) g
               else Inr g
           | DFunction _ \<Rightarrow> Inr g) (\<lambda>g1.
         rbind (last_value r) (\<lambda>v.
         rbind (modify_cell cell (\<lambda>c. c\<lparr>c_values := (c_values c)(dst \<mapsto> v)\<rparr>) g1) (\<lambda>g2.
         Inr (g2, \<lparr>k_value = v, k_visible = (\<not> rw_hidden r), k_receipt = rw_witness r\<rparr>))))
     | None \<Rightarrow>
         rbind (insert_constructor cell op t key dst g) (\<lambda>(g1, v).
         rbind (if known_remember g c op
           then modify_cell cell (\<lambda>c. c\<lparr>c_known_results := (c_known_results c)(op \<mapsto> (cell, op))\<rparr>) g1
           else Inr g1) (\<lambda>g2.
         Inr (g2, \<lparr>k_value = v, k_visible = True, k_receipt = DFact (cell, op)\<rparr>))))))))"

definition construct :: "nat \<Rightarrow> nat \<Rightarrow> nat \<Rightarrow> arg list \<Rightarrow> nat \<Rightarrow> graph \<Rightarrow> (graph \<times> val) res" where
  "construct cell op t aa dst g =
     rbind (construct_inner cell op t aa dst g) (\<lambda>(g1, k). Inr (g1, k_value k))"

definition reuse_result_slot :: "nat \<Rightarrow> nat \<Rightarrow> nat \<Rightarrow> arg \<Rightarrow> graph \<Rightarrow> (graph \<times> bool) res" where
  "reuse_result_slot cell t dst a g =
     rbind (idx (g_deletion_epochs g) t) (\<lambda>e.
     if e \<ge> g_epoch g then Inr (g, False)
     else rbind (idx (g_dirty_facts g) t) (\<lambda>dirty.
     if dirty \<noteq> {} then Inr (g, False)
     else rbind (argument g cell a) (\<lambda>v.
       rbind (modify_cell cell (\<lambda>c. c\<lparr>c_values := (c_values c)(dst \<mapsto> v)\<rparr>) g) (\<lambda>g1.
       Inr (g1, True)))))"

definition dynamic_construct :: "nat \<Rightarrow> val list \<Rightarrow> graph \<Rightarrow> (graph \<times> val) res" where
  "dynamic_construct t args g =
     rbind (lookup g t args) (\<lambda>r. case r of
       Some r \<Rightarrow> rbind (last_value r) (\<lambda>v. Inr (g, v))
     | None \<Rightarrow>
         rbind (idx (p_table_templates (g_program g)) t) (\<lambda>template.
         rbind (frame template (\<lambda>i. get_at args i) g) (\<lambda>(g1, cell).
         construct cell 0 t (map Slot [0..<length args]) (length args) g1)))"

text \<open>
  The read-only prefix of a constructor-only right-hand side. The Cell is stored at the first
  operation whose key is new; the result is that operation's position, or nothing on a full hit.
\<close>

fun rhs_prefix :: "nat \<Rightarrow> (nat \<times> op) list \<Rightarrow> cell \<Rightarrow> graph \<Rightarrow> (graph \<times> (nat \<times> nat) option) res" where
  "rhs_prefix cid [] c g = Inr (g, None)"
| "rhs_prefix cid ((k, op) # ops) c g =
     (case op of
        OpCopy _ _ \<Rightarrow> rhs_prefix cid ops c g
      | OpLet dst (CTable t) aa \<Rightarrow>
          rbind (arguments_in g cid c aa) (\<lambda>key.
          rbind (lookup g t key) (\<lambda>r. case r of
            Some r \<Rightarrow>
              rbind (last_value r) (\<lambda>v.
              rhs_prefix cid ops (c\<lparr>c_values := (c_values c)(dst \<mapsto> v)\<rparr>) g)
          | None \<Rightarrow>
              rbind (insert_constructor cid k t key dst (store_cell cid c g)) (\<lambda>(g1, _).
              Inr (g1, Some (cid, k + 1)))))
      | _ \<Rightarrow> Inl (Err ''unexpected operation in constructor-only RHS''))"

definition start_constructor_rhs :: "nat \<Rightarrow> (nat \<rightharpoonup> val) \<Rightarrow> fact_ref option \<Rightarrow> graph
    \<Rightarrow> (graph \<times> (nat \<times> nat) option) res" where
  "start_constructor_rhs template vals parent g =
     rbind (reserve_cell_id g) (\<lambda>(g1, cid).
     rbind (new_cell g1 template vals parent) (\<lambda>c.
     rbind (idx (g_templates g1) template) (\<lambda>t.
     rhs_prefix cid (enumerate 0 (tm_ops t)) c g1)))"

end
