(* ===== verification/GraphUnion.thy ===== *)
theory GraphUnion
  imports GraphWrite
begin

text \<open>
  Unions, merge functions, sets and hides of \<open>engine/cell-runtime/src/graph.rs\<close>. A union links the
  larger root to the smaller and marks every fact that mentions the displaced identity. A merge runs
  the compiled merge program or the merge expression of the table; \<open>merge_contracts\<close> of the artifact
  say when equal inputs skip it.
\<close>

section \<open>Unions\<close>

definition enqueue_union :: "val \<Rightarrow> val \<Rightarrow> graph \<Rightarrow> graph res" where
  "enqueue_union a b g =
     (case (a, b) of
        (VEq x, VEq y) \<Rightarrow>
          Inr (g\<lparr>g_pending_unions := g_pending_unions g @ [(x, y)],
                 g_pending_causes := (if g_lineage_enabled g
                   then g_pending_causes g @ [case g_active_cause g of None \<Rightarrow> External | Some c \<Rightarrow> c]
                   else g_pending_causes g)\<rparr>)
      | _ \<Rightarrow> Inl (Err ''union requires equality values''))"

definition is_marker_fact :: "graph \<Rightarrow> nat option \<Rightarrow> bool" where
  "is_marker_fact g table \<longleftrightarrow> g_views_enabled g \<and>
     (case table of None \<Rightarrow> False | Some t \<Rightarrow> t \<in> v_markers (p_views (g_program g)))"

definition stale_marker :: "fact_ref \<Rightarrow> graph \<Rightarrow> graph" where
  "stale_marker f g =
     (if \<not> g_marker_fields_copied g then g
      else case g_cells g (fst f) of
        None \<Rightarrow> g
      | Some c \<Rightarrow>
     (case c_facts c (snd f) of
        None \<Rightarrow> g
      | Some s \<Rightarrow>
          g\<lparr>g_cells := (g_cells g)(fst f \<mapsto> c\<lparr>c_facts := (c_facts c)(snd f \<mapsto>
             s\<lparr>fs_marker_row := map_option (\<lambda>m. m\<lparr>mk_canonical := False\<rparr>) (fs_marker_row s)\<rparr>)\<rparr>)\<rparr>))"

definition congruence_affects :: "graph \<Rightarrow> nat \<Rightarrow> bool" where
  "congruence_affects g cell \<longleftrightarrow> g_congruence_enabled g \<and>
     (case g_cells g cell of
        None \<Rightarrow> False | Some c \<Rightarrow> cc_templates (p_congruence (g_program g)) (c_template c) \<noteq> None)"

definition mark_one :: "dependency \<Rightarrow> graph \<Rightarrow> graph res" where
  "mark_one d g =
     rbind (dependency_table g d) (\<lambda>table.
     case d of
       DFunction i \<Rightarrow> Inr (g\<lparr>g_dirty := insert d (g_dirty g)\<rparr>)
     | DFact f \<Rightarrow>
         let g1 = (if is_marker_fact g table then g\<lparr>g_dirty_markers := insert f (g_dirty_markers g)\<rparr>
                   else g\<lparr>g_dirty := insert d (g_dirty g)\<rparr>);
             g2 = stale_marker f g1;
             g3 = (if congruence_affects g2 (fst f)
                   then g2\<lparr>g_congruence_dirty := insert (fst f) (g_congruence_dirty g2)\<rparr> else g2)
         in (case table of
               None \<Rightarrow> Inr g3
             | Some t \<Rightarrow> rbind (add_to f t (g_dirty_facts g3)) (\<lambda>df. Inr (g3\<lparr>g_dirty_facts := df\<rparr>))))"

definition mark_affected :: "dependency set \<Rightarrow> graph \<Rightarrow> graph res" where
  "mark_affected ds g = rfold mark_one (sorted_list_of_set ds) g"

text \<open>Save the keys that a union displaces, for the causes of the congruences it triggers.\<close>

definition save_old_key :: "u64 \<Rightarrow> dependency \<Rightarrow> graph \<Rightarrow> graph res" where
  "save_old_key hi d g =
     (if g_old_keys g d \<noteq> None then Inr g
      else rbind (row_of g d) (\<lambda>r. case r of
        None \<Rightarrow> Inr g
      | Some r \<Rightarrow>
          if hi \<in> values_refs (row_key r) then Inr (g\<lparr>g_old_keys := (g_old_keys g)(d \<mapsto> row_key r)\<rparr>)
          else Inr g))"

definition record_lineage :: "u64 \<times> u64 \<Rightarrow> u64 \<Rightarrow> u64 \<Rightarrow> cause \<Rightarrow> graph \<Rightarrow> graph res" where
  "record_lineage requested a b cause g =
     rbind (rfold (save_old_key (max a b)) (sorted_list_of_set (uses_of g (max a b))) g) (\<lambda>g1.
     rbind (record_union (g_lineage g1) (g_epoch g1) requested a b cause (g_parents g1)) (\<lambda>l.
     Inr (g1\<lparr>g_lineage := l, g_union_roots := insert (min a b) (insert (max a b) (g_union_roots g1))\<rparr>)))"

definition union_roots :: "u64 \<Rightarrow> u64 \<Rightarrow> graph \<Rightarrow> graph res" where
  "union_roots lo hi g =
     (let affected = uses_of g hi;
          g1 = g\<lparr>g_parents := (g_parents g)(hi \<mapsto> lo), g_uses := (g_uses g)(hi := None)\<rparr>
      in rbind (mark_affected affected g1) (\<lambda>g2.
         Inr (g2\<lparr>g_uses := (g_uses g2)(lo \<mapsto> affected \<union> uses_of g2 lo),
                g_unions := g_unions g2 + 1, g_changed := True\<rparr>)))"

definition union_ids :: "u64 \<Rightarrow> u64 \<Rightarrow> cause \<Rightarrow> graph \<Rightarrow> graph res" where
  "union_ids a0 b0 cause g =
     (let a = root (g_parents g) a0; b = root (g_parents g) b0 in
      if a = b then Inr g
      else
        rbind (if g_lineage_enabled g then record_lineage (a0, b0) a b cause g else Inr g) (\<lambda>g1.
        union_roots (min a b) (max a b) g1))"

text \<open>One pair of a batch: the links are installed first and the facts marked once at the end.\<close>

definition batch_link :: "u64 \<times> u64 \<Rightarrow> graph \<times> dependency set \<Rightarrow> graph \<times> dependency set" where
  "batch_link ab st =
     (let (g, affected) = st;
          a = root (g_parents g) (fst ab); b = root (g_parents g) (snd ab) in
      if a = b then st
      else
        let lo = min a b; hi = max a b; source = uses_of g hi; target = uses_of g lo in
        (g\<lparr>g_parents := (g_parents g)(hi \<mapsto> lo),
           g_uses := (g_uses g)(hi := None, lo \<mapsto> target \<union> source),
           g_unions := g_unions g + 1, g_changed := True\<rparr>,
         affected \<union> source \<union> target))"

definition union_local_batch :: "(u64 \<times> u64) list \<Rightarrow> graph \<Rightarrow> graph res" where
  "union_local_batch pairs g =
     (if g_lineage_enabled g then rfold (\<lambda>(a, b). union_ids a b LocalCongruence) pairs g
      else let (g1, affected) = fold batch_link pairs (g, {}) in mark_affected affected g1)"

section \<open>Merges\<close>

definition key_nodes :: "graph \<Rightarrow> json" where
  "key_nodes g = jfield (jfield (jfield (p_artifact (g_program g)) ''source_core'') ''structural_key'') ''nodes''"

definition run_primitive :: "graph \<Rightarrow> string \<Rightarrow> val list \<Rightarrow> string \<Rightarrow> val res" where
  "run_primitive g name args output =
     rbind (primitive (g_host g) name args output (key_nodes g)) (\<lambda>r.
     ok_or r (Err ''merge arithmetic failed''))"

definition lattice_names :: "string list" where
  "lattice_names = [''min'', ''max'', ''or'', ''and'', ''cell-key-min'']"

definition old_new_pair :: "json list \<Rightarrow> bool" where
  "old_new_pair a \<longleftrightarrow> length a = 2 \<and>
     (jfield (a ! 0) ''var'' = JStr ''old'' \<and> jfield (a ! 1) ''var'' = JStr ''new'' \<or>
      jfield (a ! 0) ''var'' = JStr ''new'' \<and> jfield (a ! 1) ''var'' = JStr ''old'')"

definition port_combine :: "graph \<Rightarrow> table \<Rightarrow> val \<Rightarrow> val \<Rightarrow> val option res" where
  "port_combine g t old new =
     (case as_str (jfield (jfield (t_merge t) ''call'') ''primitive'') of
        None \<Rightarrow> Inl (Err ''ambiguous non-lattice merge read'')
      | Some name \<Rightarrow>
          if name \<notin> set lattice_names then Inl (Err ''ambiguous non-lattice merge read'')
          else
            rbind (ok_or (as_array (jfield (t_merge t) ''args'')) (Err ''invalid lattice merge'')) (\<lambda>a.
            if \<not> old_new_pair a then Inl (Err ''ambiguous merge port requires a pure lattice contract'')
            else rbind (if t_schema t = [] then Inl Panic
                else ok_or (as_str (jfield (last (t_schema t)) ''name'')) Panic) (\<lambda>out.
              primitive (g_host g) name [old, new] out (key_nodes g))))"

definition port_step :: "graph \<Rightarrow> table \<Rightarrow> val list \<Rightarrow> nat \<Rightarrow> val option \<Rightarrow> val option res" where
  "port_step g t key i result =
     (case function_row g i of
        None \<Rightarrow> Inr result
      | Some r \<Rightarrow>
          rbind (row_prefix r (length key)) (\<lambda>k.
          if k \<noteq> key then Inr result
          else rbind (last_value r) (\<lambda>v.
            case result of
              None \<Rightarrow> Inr (Some v)
            | Some old \<Rightarrow> if old = v then Inr result else port_combine g t old v)))"

definition read_merge_port :: "graph \<Rightarrow> nat \<Rightarrow> val list \<Rightarrow> val res" where
  "read_merge_port g t args =
     (let key = map (canon_in g) args in
      rbind (idx (g_function_operators g) t) (\<lambda>fs.
      rbind (idx (g_tables g) t) (\<lambda>table.
      rbind (rfold (port_step g table key) (sorted_list_of_set fs) None) (\<lambda>r.
      ok_or r (Err (''unready merge port '' @ t_name table))))))"

text \<open>A merge operator: a virtual table is requested, a function table is read as a port.\<close>

definition merge_table :: "nat \<Rightarrow> val list \<Rightarrow> graph \<Rightarrow> (graph \<times> val) res" where
  "merge_table t args g =
     rbind (idx (g_tables g) t) (\<lambda>table.
     if t_virtual table then dynamic_construct t args g
     else rbind (read_merge_port g t args) (\<lambda>v. Inr (g, v)))"

definition table_position :: "table list \<Rightarrow> string \<Rightarrow> nat option" where
  "table_position ts name = find (\<lambda>i. t_name (ts ! i) = name) [0..<length ts]"

function merge_expression :: "json \<Rightarrow> val \<Rightarrow> val \<Rightarrow> graph \<Rightarrow> (graph \<times> val) res" where
  "merge_expression e old new g =
     (case as_str (jfield e ''var'') of
        Some v \<Rightarrow>
          if v = ''old'' then Inr (g, old) else if v = ''new'' then Inr (g, new)
          else Inl (Err ''unknown merge variable'')
      | None \<Rightarrow>
          if jfield e ''literal'' \<noteq> JNull then rmap (\<lambda>v. (g, v)) (literal e)
          else case as_array (jfield e ''args'') of
            None \<Rightarrow> Inl (Err ''expected array'')
          | Some aa \<Rightarrow>
              rbind (smapM (\<lambda>a g. merge_expression a old new g) aa g) (\<lambda>(g1, args).
              case as_str (jfield (jfield e ''call'') ''table'') of
                Some name \<Rightarrow>
                  rbind (ok_or (table_position (g_tables g1) name) (Err ''merge operator'')) (\<lambda>t.
                  merge_table t args g1)
              | None \<Rightarrow>
                  rbind (j_string (jfield (jfield e ''call'') ''primitive'')) (\<lambda>name.
                  rbind (j_string (jfield (jfield e ''call'') ''output'')) (\<lambda>out.
                  rmap (\<lambda>v. (g1, v)) (run_primitive g1 name args out)))))"
  by pat_completeness auto
termination
  by (relation "measure (\<lambda>(e, _). size e)") (auto dest: size_jfield_arr)

declare merge_expression.simps [simp del]

definition operand :: "val list \<Rightarrow> arg \<Rightarrow> val res" where
  "operand vs a = (case a of Slot s \<Rightarrow> idx vs s | Literal v \<Rightarrow> Inr v)"

definition merge_call :: "call \<Rightarrow> val list \<Rightarrow> graph \<Rightarrow> (graph \<times> val) res" where
  "merge_call c args g =
     (case c of
        CTable t \<Rightarrow> merge_table t args g
      | CPrim name out \<Rightarrow> rmap (\<lambda>v. (g, v)) (run_primitive g name args out))"

fun run_merge_ops :: "op list \<Rightarrow> val list \<Rightarrow> graph \<Rightarrow> (graph \<times> val list) res" where
  "run_merge_ops [] vs g = Inr (g, vs)"
| "run_merge_ops (op # ops) vs g =
     (case op of
        OpLet dst c aa \<Rightarrow>
          rbind (rmapM (operand vs) aa) (\<lambda>args.
          rbind (merge_call c args g) (\<lambda>(g1, v).
          if dst \<noteq> length vs then Inl (Err ''merge SSA order'')
          else run_merge_ops ops (vs @ [v]) g1))
      | _ \<Rightarrow> Inl (Err ''invalid merge instruction''))"

definition run_merge_program :: "merge_prog \<Rightarrow> val \<Rightarrow> val \<Rightarrow> graph \<Rightarrow> (graph \<times> val) res" where
  "run_merge_program m old new g =
     (if mp_operations m = [] then
        (case mp_result m of
           Literal v \<Rightarrow> Inr (g, v)
         | Slot s \<Rightarrow> if s = 0 then Inr (g, old) else if s = 1 then Inr (g, new)
             else Inl (Err ''merge result slot''))
      else
        rbind (run_merge_ops (mp_operations m) [old, new] g) (\<lambda>(g1, vs).
        rbind (operand vs (mp_result m)) (\<lambda>v. Inr (g1, v))))"

definition equal_returns_old :: "graph \<Rightarrow> nat \<Rightarrow> table \<Rightarrow> bool" where
  "equal_returns_old g t table =
     (let mc = jfield (p_artifact (g_program g)) ''merge_contracts'' in
      if mc = JNull then as_str (jfield (jfield (t_merge table) ''call'') ''table'') \<noteq> None
      else jfield (jat (jfield mc ''tables'') t) ''equal_inputs'' = JStr ''return_old'')"

definition merge_value :: "nat \<Rightarrow> val \<Rightarrow> val \<Rightarrow> graph \<Rightarrow> (graph \<times> val) res" where
  "merge_value t old new g =
     rbind (idx (g_tables g) t) (\<lambda>table.
     if old = new \<and> equal_returns_old g t table then Inr (g, old)
     else if t_merge table = JNull then
       (if old = new then Inr (g, old)
        else Inl (Err (''conflicting function '' @ t_name table @ '' without merge'')))
     else if g_merge_programs_enabled g then
       rbind (ok_or (mp_merges (p_merge_programs (g_program g)) t) (Err ''missing compiled merge'')) (\<lambda>m.
       run_merge_program m old new g)
     else merge_expression (t_merge table) old new g)"

section \<open>Functions\<close>

definition modify_function :: "nat \<Rightarrow> (func \<Rightarrow> func) \<Rightarrow> graph \<Rightarrow> graph res" where
  "modify_function i u g =
     rbind (idx (g_functions g) i) (\<lambda>f. Inr (g\<lparr>g_functions := (g_functions g)[i := u f]\<rparr>))"

definition subscribe_function :: "nat \<Rightarrow> graph \<Rightarrow> graph res" where
  "subscribe_function i g =
     rbind (ok_or (function_row g i) Panic) (\<lambda>r. subscribe (rw_witness r) (rw_values r) g)"

definition set_function_inner :: "nat \<Rightarrow> val list \<Rightarrow> val \<Rightarrow> graph \<Rightarrow> (graph \<times> nat) res" where
  "set_function_inner t key0 v0 g =
     (let key = map (canon_in g) key0; v = canon_in g v0 in
      case g_function_keys g (t, key) of
        Some i \<Rightarrow>
          rbind (idx (g_functions g) i) (\<lambda>f.
          let old = canon_in g (fn_value f) in
          rbind (merge_value t old v g) (\<lambda>(g1, nxt).
          if nxt = old then Inr (g1, i)
          else
            rbind (modify_function i (\<lambda>f. f\<lparr>fn_value := nxt, fn_epoch := g_epoch g1\<rparr>) g1) (\<lambda>g2.
            rbind (subscribe_function i (push_event (DFunction i)
              (g2\<lparr>g_changed := True, g_function_updates := g_function_updates g2 + 1\<rparr>))) (\<lambda>g3.
            Inr (g3, i)))))
      | None \<Rightarrow>
          let i = length (g_functions g);
              g1 = g\<lparr>g_functions := g_functions g @ [\<lparr>fn_table = t, fn_key = key, fn_value = v,
                       fn_epoch = g_epoch g, fn_live = True, fn_origin = None\<rparr>]\<rparr>
          in rbind (add_to i t (g_function_operators g1)) (\<lambda>fo.
             rbind (subscribe_function i (push_event (DFunction i)
               (g1\<lparr>g_function_operators := fo, g_function_keys := (g_function_keys g1)((t, key) \<mapsto> i),
                   g_changed := True, g_function_updates := g_function_updates g1 + 1\<rparr>))) (\<lambda>g2.
             Inr (g2, i))))"

definition function_origin :: "nat \<Rightarrow> fact_ref option \<Rightarrow> graph \<Rightarrow> graph res" where
  "function_origin i new g =
     rbind (idx (g_functions g) i) (\<lambda>f.
     if fn_origin f = new then Inr g
     else
       rbind (case fn_origin f of
           None \<Rightarrow> Inr g
         | Some old \<Rightarrow>
             rbind (drop_one (g_parent_users g) (fst old)) (\<lambda>pu.
             Inr (g\<lparr>g_parent_users := pu, g_garbage := insert (fst old) (g_garbage g)\<rparr>))) (\<lambda>g1.
       let g2 = (case new of None \<Rightarrow> g1 | Some n \<Rightarrow> g1\<lparr>g_parent_users := add_user (fst n) (g_parent_users g1)\<rparr>)
       in modify_function i (\<lambda>f. f\<lparr>fn_origin := new\<rparr>) g2))"

record set_done =
  sd_visible :: bool
  sd_receipt :: dependency

definition set_inner :: "nat \<Rightarrow> nat \<Rightarrow> nat \<Rightarrow> arg list \<Rightarrow> arg \<Rightarrow> graph \<Rightarrow> (graph \<times> set_done) res" where
  "set_inner cell op t aa a g =
     rbind (arguments g cell aa) (\<lambda>key.
     rbind (argument g cell a) (\<lambda>v.
     rbind (idx (g_tables g) t) (\<lambda>table.
     if \<not> t_virtual table then
       rbind (set_function_inner t key v g) (\<lambda>(g1, i).
       rbind (if g_function_updates g1 \<noteq> g_function_updates g then function_origin i (Some (cell, op)) g1
         else Inr g1) (\<lambda>g2.
       Inr (g2, \<lparr>sd_visible = True, sd_receipt = DFunction i\<rparr>)))
     else
       rbind (lookup g t key) (\<lambda>r. case r of
         Some old \<Rightarrow>
           rbind (last_value old) (\<lambda>ov.
           rbind (if t_constructor table then enqueue_union ov v g
             else if ov \<noteq> v then Inl (Err ''relation output conflict'') else Inr g) (\<lambda>g1.
           Inr (g1, \<lparr>sd_visible = (\<not> rw_hidden old \<and> (\<not> t_constructor table \<or> ov = v)),
                    sd_receipt = rw_witness old\<rparr>)))
       | None \<Rightarrow>
           rbind (activate (cell, op) t key v False g) (\<lambda>g1.
           Inr (g1, \<lparr>sd_visible = True, sd_receipt = DFact (cell, op)\<rparr>))))))"

section \<open>Hiding\<close>

definition hide_row :: "fact_ref \<Rightarrow> nat \<Rightarrow> bool \<Rightarrow> graph \<Rightarrow> (graph \<times> bool) res" where
  "hide_row f t delete g =
     rbind (get_fact g f) (\<lambda>s.
     if delete then
       rbind (retire f g) (\<lambda>g1. Inr (g1\<lparr>g_changed := True\<rparr>, fs_born s < g_epoch g))
     else if fs_hidden s then Inr (g, fs_born s < g_epoch g)
     else
       rbind (touch t (DFact f) g) (\<lambda>g1.
       rbind (modify_fact f (\<lambda>s. s\<lparr>fs_hidden := True, fs_epoch := g_epoch g1\<rparr>) g1) (\<lambda>g2.
       Inr ((push_event (DFact f) g2)\<lparr>g_changed := True\<rparr>, fs_born s < g_epoch g))))"

definition delete_function :: "nat \<Rightarrow> nat \<Rightarrow> val list \<Rightarrow> graph \<Rightarrow> (graph \<times> bool) res" where
  "delete_function i t key g =
     rbind (modify_function i (\<lambda>f. f\<lparr>fn_live := False\<rparr>) g) (\<lambda>g1.
     rbind (function_origin i None g1) (\<lambda>g2.
     rbind (touch t (DFunction i) g2) (\<lambda>g3.
     rbind (remove_from i t (g_function_operators g3)) (\<lambda>fo.
     rbind (subscribe (DFunction i) []
       (g3\<lparr>g_function_operators := fo, g_function_keys := (g_function_keys g3)((t, key) := None)\<rparr>)) (\<lambda>g4.
     Inr (g4\<lparr>g_changed := True\<rparr>, True))))))"

text \<open>
  A subsume of an absent key constructs it and tries again; \<open>fuel\<close> bounds the tries, and the second
  one finds the fact just constructed.
\<close>

fun hide :: "nat \<Rightarrow> nat \<Rightarrow> val list \<Rightarrow> bool \<Rightarrow> graph \<Rightarrow> (graph \<times> bool) res" where
  "hide 0 t key delete g = Inl Diverge"
| "hide (Suc n) t key delete g0 =
     rbind (if delete then
         rbind (idx (g_deletion_epochs g0) t) (\<lambda>_.
         Inr (g0\<lparr>g_deletion_epochs := (g_deletion_epochs g0)[t := g_epoch g0]\<rparr>))
       else Inr g0) (\<lambda>g.
     rbind (lookup g t key) (\<lambda>r. case r of
       None \<Rightarrow>
         if delete then Inr (g, False)
         else rbind (dynamic_construct t key g) (\<lambda>(g1, _).
           rbind (hide n t key False g1) (\<lambda>(g2, _). Inr (g2, False)))
     | Some r \<Rightarrow>
         (case rw_witness r of
            DFact f \<Rightarrow> hide_row f t delete g
          | DFunction i \<Rightarrow>
              if \<not> delete then Inl (Err ''function subsume unsupported'')
              else delete_function i t key g)))"

section \<open>Garbage\<close>

text \<open>
  Fact positions are below the operations and carriers of the template, provider atoms below the
  atoms of its carriers, so the two maps of a Cell are walked up to these bounds.
\<close>

definition fact_bound :: "graph \<Rightarrow> cell \<Rightarrow> nat" where
  "fact_bound g c =
     (case get_at (g_templates g) (c_template c) of None \<Rightarrow> 0 | Some t \<Rightarrow> length (tm_ops t)) +
     (case v_layouts (p_views (g_program g)) (c_template c) of None \<Rightarrow> 0 | Some l \<Rightarrow> length (l_carriers l))"

definition provider_bound :: "graph \<Rightarrow> cell \<Rightarrow> nat" where
  "provider_bound g c =
     (case v_layouts (p_views (g_program g)) (c_template c) of
        None \<Rightarrow> 0 | Some l \<Rightarrow> foldr (\<lambda>ca n. max (ca_atom ca + 1) n) (l_carriers l) 0)"

definition retire_empty :: "nat \<Rightarrow> graph \<Rightarrow> graph res" where
  "retire_empty cell g =
     (case g_cells g cell of
        None \<Rightarrow> Inr g
      | Some c \<Rightarrow>
          if users (g_parent_users g) cell \<noteq> 0 \<or>
             \<not> list_all (\<lambda>op. c_facts c op = None) [0..<fact_bound g c] then Inr g
          else
            rbind (case c_parent c of None \<Rightarrow> Inr (g\<lparr>g_cells := (g_cells g)(cell := None)\<rparr>)
              | Some f \<Rightarrow> release_reference f (g\<lparr>g_cells := (g_cells g)(cell := None)\<rparr>)) (\<lambda>g1.
            rbind (rfold (\<lambda>atom g. case c_providers c atom of
                None \<Rightarrow> Inr g | Some f \<Rightarrow> release_reference f g)
              [0..<provider_bound g c] g1) (\<lambda>g2.
            Inr (g2\<lparr>g_parent_users := (g_parent_users g2)(cell := None)\<rparr>))))"

end
