(* ===== verification/GraphRepair.thy ===== *)
theory GraphRepair
  imports GraphUnion
begin

text \<open>
  The repair loop of \<open>engine/cell-runtime/src/graph.rs\<close>: pending unions first, then local congruence
  plans, then one dirty fact or function at a time, until nothing is left. The loop carries fuel.
\<close>

section \<open>Repairing one dependency\<close>

definition congruence_lineage :: "fact_ref \<Rightarrow> row \<Rightarrow> row \<Rightarrow> graph \<Rightarrow> graph res" where
  "congruence_lineage f r other g =
     (if \<not> g_lineage_enabled g then Inr g
      else
        let a = (case g_old_keys g (DFact f) of None \<Rightarrow> row_key r | Some k \<Rightarrow> k);
            b = (case g_old_keys g (rw_witness other) of None \<Rightarrow> row_key other | Some k \<Rightarrow> k)
        in case rw_witness other of
             DFact right \<Rightarrow>
               rbind (congruence_cause (g_lineage g) f right a b (g_parents g)) (\<lambda>c.
               Inr (g\<lparr>g_active_cause := Some c\<rparr>))
           | DFunction _ \<Rightarrow> Inr g)"

definition forward_receipt :: "dependency \<Rightarrow> dependency \<Rightarrow> graph \<Rightarrow> graph" where
  "forward_receipt old new g =
     (if g_receipt_tracking g then g\<lparr>g_receipt_forwards := (g_receipt_forwards g)(old \<mapsto> new)\<rparr> else g)"

text \<open>A dirty fact met another fact with its key.\<close>

definition collide :: "fact_ref \<Rightarrow> row \<Rightarrow> row \<Rightarrow> graph \<Rightarrow> graph res" where
  "collide f r other g =
     rbind (idx (g_tables g) (rw_table r)) (\<lambda>table.
     rbind (if t_constructor table then
         rbind (congruence_lineage f r other g) (\<lambda>g1.
         rbind (last_value r) (\<lambda>v. rbind (last_value other) (\<lambda>w.
         rbind (enqueue_union v w g1) (\<lambda>g2. Inr (g2\<lparr>g_active_cause := None\<rparr>)))))
       else Inr g) (\<lambda>g1.
     rbind (case rw_witness other of
         DFact keep \<Rightarrow>
           rbind (touch (rw_table r) (rw_witness other) g1) (\<lambda>g2.
           rbind (modify_fact keep
             (\<lambda>s. s\<lparr>fs_hidden := fs_hidden s \<or> rw_hidden r, fs_epoch := g_epoch g2\<rparr>) g2) (\<lambda>g3.
           Inr (push_event (rw_witness other) g3)))
       | DFunction _ \<Rightarrow> Inr g1) (\<lambda>g2.
     retire f (forward_receipt (DFact f) (rw_witness other) g2))))"

definition refresh_marker :: "row \<Rightarrow> marker_row \<Rightarrow> marker_row" where
  "refresh_marker r m = m\<lparr>mk_values := rw_values r, mk_canonical := True\<rparr>"

definition repair_fact :: "fact_ref \<Rightarrow> graph \<Rightarrow> graph res" where
  "repair_fact f g =
     rbind (fact g f) (\<lambda>r. case r of
       None \<Rightarrow> Inr g
     | Some r \<Rightarrow>
         let key = row_key r; h = g_hashkey g (rw_table r) key in
         rbind (get_fact g f) (\<lambda>s.
         let g1 = g\<lparr>g_intern := bucket_remove (g_intern g) (fs_hash s) f\<rparr> in
         rbind (find_fact g1 (rw_table r) key (sorted_list_of_set (bucket g1 h))) (\<lambda>found.
         rbind (case found of
             Some other \<Rightarrow> collide f r other g1
           | None \<Rightarrow>
               rbind (modify_fact f (\<lambda>s. s\<lparr>fs_hash := h, fs_epoch := g_epoch g1,
                   fs_marker_row := map_option (refresh_marker r) (fs_marker_row s)\<rparr>)
                 (g1\<lparr>g_intern := bucket_add (g_intern g1) h f\<rparr>)) (\<lambda>g2.
               rbind (subscribe (DFact f) (rw_values r) g2) (\<lambda>g3. Inr (push_event (DFact f) g3)))) (\<lambda>g4.
         Inr (g4\<lparr>g_old_keys := (g_old_keys g4)(DFact f := None)\<rparr>)))))"

text \<open>Function \<open>i\<close> met function \<open>j\<close>, which owns the canonical key.\<close>

definition join_functions :: "nat \<Rightarrow> nat \<Rightarrow> row \<Rightarrow> graph \<Rightarrow> graph res" where
  "join_functions i j r g =
     rbind (idx (g_functions g) j) (\<lambda>fj.
     rbind (last_value r) (\<lambda>v.
     rbind (merge_value (rw_table r) (canon_in g (fn_value fj)) v g) (\<lambda>(g1, nxt).
     rbind (modify_function j (\<lambda>f. f\<lparr>fn_value := nxt, fn_epoch := g_epoch g1\<rparr>) g1) (\<lambda>g2.
     rbind (modify_function i (\<lambda>f. f\<lparr>fn_live := False\<rparr>) g2) (\<lambda>g3.
     rbind (function_origin i None (forward_receipt (DFunction i) (DFunction j) g3)) (\<lambda>g4.
     rbind (remove_from i (rw_table r) (g_function_operators g4)) (\<lambda>fo.
     rbind (subscribe (DFunction i) [] (g4\<lparr>g_function_operators := fo\<rparr>)) (\<lambda>g5.
     rbind (subscribe_function j g5) (\<lambda>g6.
     Inr (push_event (DFunction j) g6))))))))))"

definition repair_function :: "nat \<Rightarrow> graph \<Rightarrow> graph res" where
  "repair_function i g =
     (case function_row g i of
        None \<Rightarrow> Inr g
      | Some r \<Rightarrow>
          rbind (idx (g_functions g) i) (\<lambda>f.
          let key = row_key r; oldkey = (rw_table r, fn_key f);
              g1 = (if g_function_keys g oldkey = Some i
                then g\<lparr>g_function_keys := (g_function_keys g)(oldkey := None)\<rparr> else g);
              own = (\<lambda>_. rbind (last_value r) (\<lambda>v.
                rbind (modify_function i (\<lambda>f. f\<lparr>fn_key := key, fn_value := v, fn_epoch := g_epoch g1\<rparr>) g1) (\<lambda>g2.
                rbind (subscribe (DFunction i) (rw_values r)
                  (g2\<lparr>g_function_keys := (g_function_keys g2)((rw_table r, key) \<mapsto> i)\<rparr>)) (\<lambda>g3.
                Inr (push_event (DFunction i) g3)))))
          in case g_function_keys g1 (rw_table r, key) of
               Some j \<Rightarrow> if j \<noteq> i then join_functions i j r g1 else own ()
             | None \<Rightarrow> own ()))"

section \<open>Local congruence\<close>

text \<open>An unready port is an error value, which never authorises a shortcut; a panic still ends the run.\<close>

definition guard_equal :: "val res \<Rightarrow> val res \<Rightarrow> bool res" where
  "guard_equal x y =
     (case x of
        Inl (Err _) \<Rightarrow> (case y of Inl (Err _) \<Rightarrow> Inr False | Inl e \<Rightarrow> Inl e | Inr _ \<Rightarrow> Inr False)
      | Inl e \<Rightarrow> Inl e
      | Inr v \<Rightarrow> (case y of Inl (Err _) \<Rightarrow> Inr False | Inl e \<Rightarrow> Inl e | Inr w \<Rightarrow> Inr (v = w)))"

fun guards_equal :: "graph \<Rightarrow> nat \<Rightarrow> (arg \<times> arg) list \<Rightarrow> bool res" where
  "guards_equal g cell [] = Inr True"
| "guards_equal g cell ((a, b) # gs) =
     rbind (guard_equal (argument g cell a) (argument g cell b)) (\<lambda>eq.
     if eq then guards_equal g cell gs else Inr False)"

definition facts_ready :: "cell \<Rightarrow> nat set \<Rightarrow> bool" where
  "facts_ready c ops \<longleftrightarrow>
     (\<forall>op \<in> ops. case c_facts c op of None \<Rightarrow> False | Some s \<Rightarrow> \<not> fs_hidden s)"

type_synonym local_plan = "(u64 \<times> u64) list \<times> parents"

text \<open>One proved merge: its two results are queued, and its two facts joined as duplicates.\<close>

definition plan_merge :: "graph \<Rightarrow> nat \<Rightarrow> cell \<Rightarrow> bool \<Rightarrow> cmerge \<Rightarrow> local_plan \<Rightarrow> local_plan res" where
  "plan_merge g cell c ready m st =
     (let (pairs, dups) = st in
      if \<not> ready \<and> \<not> facts_ready c (cm_requires m) then Inr st
      else
        rbind (idx (g_templates g) (c_template c)) (\<lambda>t.
        rbind (idx (tm_ops t) (cm_left m)) (\<lambda>lop. rbind (idx (tm_ops t) (cm_right m)) (\<lambda>rop.
        case (lop, rop) of
          (OpLet a _ _, OpLet b _ _) \<Rightarrow>
            rbind (slot g cell a) (\<lambda>va. rbind (slot g cell b) (\<lambda>vb.
            case (va, vb) of
              (VEq x, VEq y) \<Rightarrow>
                let l = root dups (of_nat (cm_left m)); r = root dups (of_nat (cm_right m)) in
                Inr (if x \<noteq> y then pairs @ [(x, y)] else pairs,
                     if l \<noteq> r then dups(max l r \<mapsto> min l r) else dups)
            | _ \<Rightarrow> Inl Panic))
        | _ \<Rightarrow> Inl Panic))))"

definition plan_group :: "graph \<Rightarrow> nat \<Rightarrow> cell \<Rightarrow> cgroup \<Rightarrow> local_plan \<Rightarrow> local_plan res" where
  "plan_group g cell c grp st =
     rbind (guards_equal g cell (cg_guards grp)) (\<lambda>eq.
     if \<not> eq then Inr st
     else rfold (plan_merge g cell c (facts_ready c (cg_requires grp))) (cg_merges grp) st)"

definition coalesce :: "nat \<Rightarrow> parents \<Rightarrow> nat \<Rightarrow> graph \<Rightarrow> graph res" where
  "coalesce cell dups op g =
     (if dups (of_nat op) = None then Inr g
      else
        let keep = (cell, unat (root dups (of_nat op))); old = (cell, op) in
        rbind (dependency_table g (DFact old)) (\<lambda>tb.
        rbind (ok_or tb (Err ''missing proved constructor'')) (\<lambda>table.
        rbind (get_cell g cell) (\<lambda>c.
        rbind (ok_or (c_facts c (snd keep)) (Err ''missing local survivor'')) (\<lambda>_.
        rbind (modify_fact keep (\<lambda>s. s\<lparr>fs_epoch := g_epoch g\<rparr>) g) (\<lambda>g1.
        rbind (touch table (DFact keep) (push_event (DFact keep) g1)) (\<lambda>g2.
        rbind (retire old g2) (\<lambda>g3.
        rbind (remove_from old table (g_dirty_facts g3)) (\<lambda>df.
        Inr (forward_receipt (DFact old) (DFact keep)
          (g3\<lparr>g_dirty := g_dirty g3 - {DFact old}, g_dirty_markers := g_dirty_markers g3 - {old},
              g_dirty_facts := df\<rparr>)))))))))))"

definition repair_local_congruence :: "nat \<Rightarrow> graph \<Rightarrow> graph res" where
  "repair_local_congruence cell g =
     (case g_cells g cell of
        None \<Rightarrow> Inr g
      | Some c \<Rightarrow>
     (case cc_templates (p_congruence (g_program g)) (c_template c) of
        None \<Rightarrow> Inr g
      | Some groups \<Rightarrow>
          rbind (rfold (plan_group g cell c) groups ([], Map.empty)) (\<lambda>(pairs, dups).
          rbind (if pairs \<noteq> [] then union_local_batch pairs g else Inr g) (\<lambda>g1.
          rbind (idx (g_templates g) (c_template c)) (\<lambda>t.
          rfold (coalesce cell dups) [0..<length (tm_ops t)] g1)))))"

section \<open>The loop\<close>

fun union_pending :: "(u64 \<times> u64) list \<Rightarrow> cause list \<Rightarrow> graph \<Rightarrow> graph res" where
  "union_pending [] causes g = Inr g"
| "union_pending ((a, b) # pairs) causes g =
     rbind (union_ids a b (case causes of [] \<Rightarrow> External | c # _ \<Rightarrow> c) g) (union_pending pairs (drop 1 causes))"

definition pop_dirty :: "graph \<Rightarrow> (graph \<times> dependency) option" where
  "pop_dirty g =
     (if g_dirty g \<noteq> {} then
        let d = Min (g_dirty g) in Some (g\<lparr>g_dirty := g_dirty g - {d}\<rparr>, d)
      else if g_dirty_markers g \<noteq> {} then
        let f = Min (g_dirty_markers g) in Some (g\<lparr>g_dirty_markers := g_dirty_markers g - {f}\<rparr>, DFact f)
      else None)"

definition repair_dependency :: "dependency \<Rightarrow> graph \<Rightarrow> graph res" where
  "repair_dependency d g =
     (case d of
        DFact f \<Rightarrow>
          rbind (dependency_table g d) (\<lambda>tb.
          rbind (case tb of
              None \<Rightarrow> Inr g
            | Some t \<Rightarrow> rbind (remove_from f t (g_dirty_facts g)) (\<lambda>df. Inr (g\<lparr>g_dirty_facts := df\<rparr>))) (\<lambda>g1.
          repair_fact f g1))
      | DFunction i \<Rightarrow> repair_function i g)"

text \<open>One turn of the loop; \<open>None\<close> when it ends.\<close>

definition repair_step :: "graph \<Rightarrow> graph option res" where
  "repair_step g =
     (if g_pending_unions g \<noteq> [] then
        rmap Some (union_pending (g_pending_unions g) (g_pending_causes g)
          (g\<lparr>g_pending_unions := [], g_pending_causes := []\<rparr>))
      else if g_congruence_dirty g \<noteq> {} then
        let cell = Min (g_congruence_dirty g) in
        rmap Some (repair_local_congruence cell (g\<lparr>g_congruence_dirty := g_congruence_dirty g - {cell}\<rparr>))
      else case pop_dirty g of
        None \<Rightarrow> Inr None
      | Some (g1, d) \<Rightarrow> rmap Some (repair_dependency d g1))"

fun repair_loop :: "nat \<Rightarrow> graph \<Rightarrow> graph res" where
  "repair_loop 0 g = Inl Diverge"
| "repair_loop (Suc n) g =
     rbind (repair_step g) (\<lambda>r. case r of None \<Rightarrow> Inr g | Some g1 \<Rightarrow> repair_loop n g1)"

definition repair :: "nat \<Rightarrow> graph \<Rightarrow> graph res" where
  "repair n g = rbind (repair_loop n g) (\<lambda>g1. Inr (g1\<lparr>g_old_keys := Map.empty\<rparr>))"

text \<open>\<open>collect_garbage\<close> retires the marked Cells; releasing a Cell marks the owners it held.\<close>

fun collect_garbage :: "nat \<Rightarrow> graph \<Rightarrow> graph res" where
  "collect_garbage 0 g = Inl Diverge"
| "collect_garbage (Suc n) g =
     (if g_garbage g = {} then Inr g
      else let cell = Min (g_garbage g) in
        rbind (retire_empty cell (g\<lparr>g_garbage := g_garbage g - {cell}\<rparr>)) (collect_garbage n))"

end
