(* ===== verification/GraphClasses.thy ===== *)
theory GraphClasses
  imports GraphRepair
begin

text \<open>
  What the operations of the graph do to its equality classes. Only \<open>union_roots\<close> and \<open>batch_link\<close>
  change the parent map, only \<open>record_lineage\<close> the lineage, and only the repair loop takes unions off
  the queue; every other operation keeps all of these, which \<open>kept\<close> states and the lemmas \<open>kept_*\<close>
  show, one per operation. The rest is by the steps of the repair loop.
\<close>

named_theorems keeps \<open>operations that keep the classes\<close>

section \<open>Operations that keep the classes\<close>

text \<open>The causes that wait for a union speak of recorded events.\<close>

definition causes_below :: "graph \<Rightarrow> bool" where
  "causes_below g \<longleftrightarrow> (g_lineage_enabled g \<and> causes_ok (g_lineage g) (g_parents g) \<longrightarrow>
     (\<forall>c \<in> set (g_pending_causes g). cause_below (length (ln_events (g_lineage g))) c) \<and>
     (\<forall>c. g_active_cause g = Some c \<longrightarrow> cause_below (length (ln_events (g_lineage g))) c))"

text \<open>The reverse index: a subscribed fact is found under the current root of what it mentions.\<close>

definition uses_ok :: "graph \<Rightarrow> bool" where
  "uses_ok g \<longleftrightarrow> (\<forall>d ids x. g_dependencies g d = Some ids \<longrightarrow> x \<in> ids \<longrightarrow>
     d \<in> uses_of g (root (g_parents g) x))"

definition kept :: "graph \<Rightarrow> graph \<Rightarrow> bool" where
  "kept g h \<longleftrightarrow> g_parents h = g_parents g \<and> g_lineage h = g_lineage g \<and>
     g_lineage_enabled h = g_lineage_enabled g \<and> g_program h = g_program g \<and> g_epoch h = g_epoch g \<and>
     set (g_pending_unions g) \<subseteq> set (g_pending_unions h) \<and> (causes_below g \<longrightarrow> causes_below h) \<and>
     (decreasing (g_parents g) \<and> uses_ok g \<longrightarrow> uses_ok h)"

lemma kept_refl [simp]: "kept g g"
  by (simp add: kept_def)

lemma kept_trans: "kept g h \<Longrightarrow> kept h k \<Longrightarrow> kept g k"
  by (auto simp: kept_def)

lemma kept_update [simp]:
  "kept g (h\<lparr>g_cells := x1\<rparr>) = kept g h" "kept g (h\<lparr>g_events := x2\<rparr>) = kept g h"
  "kept g (h\<lparr>g_changed := x3\<rparr>) = kept g h" "kept g (h\<lparr>g_garbage := x4\<rparr>) = kept g h"
  "kept g (h\<lparr>g_query_versions := x7\<rparr>) = kept g h"
  "kept g (h\<lparr>g_query_changes := x8\<rparr>) = kept g h" "kept g (h\<lparr>g_operators := x9\<rparr>) = kept g h"
  "kept g (h\<lparr>g_intern := x10\<rparr>) = kept g h" "kept g (h\<lparr>g_functions := x11\<rparr>) = kept g h"
  "kept g (h\<lparr>g_function_operators := x12\<rparr>) = kept g h"
  "kept g (h\<lparr>g_function_keys := x13\<rparr>) = kept g h" "kept g (h\<lparr>g_dirty := x14\<rparr>) = kept g h"
  "kept g (h\<lparr>g_dirty_markers := x15\<rparr>) = kept g h"
  "kept g (h\<lparr>g_dirty_facts := x16\<rparr>) = kept g h"
  "kept g (h\<lparr>g_deletion_epochs := x17\<rparr>) = kept g h"
  "kept g (h\<lparr>g_parent_users := x18\<rparr>) = kept g h"
  "kept g (h\<lparr>g_reference_users := x19\<rparr>) = kept g h"
  "kept g (h\<lparr>g_next_cell := x20\<rparr>) = kept g h"
  "kept g (h\<lparr>g_old_keys := x23\<rparr>) = kept g h"
  "kept g (h\<lparr>g_union_roots := x24\<rparr>) = kept g h"
  "kept g (h\<lparr>g_receipt_forwards := x25\<rparr>) = kept g h"
  "kept g (h\<lparr>g_congruence_dirty := x26\<rparr>) = kept g h"
  "kept g (h\<lparr>g_unions := x27\<rparr>) = kept g h"
  "kept g (h\<lparr>g_function_updates := x28\<rparr>) = kept g h" "kept (g\<lparr>g_cells := x1\<rparr>) h = kept g h"
  "kept (g\<lparr>g_events := x2\<rparr>) h = kept g h" "kept (g\<lparr>g_changed := x3\<rparr>) h = kept g h"
  "kept (g\<lparr>g_garbage := x4\<rparr>) h = kept g h"
  "kept (g\<lparr>g_query_versions := x7\<rparr>) h = kept g h"
  "kept (g\<lparr>g_query_changes := x8\<rparr>) h = kept g h" "kept (g\<lparr>g_operators := x9\<rparr>) h = kept g h"
  "kept (g\<lparr>g_intern := x10\<rparr>) h = kept g h" "kept (g\<lparr>g_functions := x11\<rparr>) h = kept g h"
  "kept (g\<lparr>g_function_operators := x12\<rparr>) h = kept g h"
  "kept (g\<lparr>g_function_keys := x13\<rparr>) h = kept g h" "kept (g\<lparr>g_dirty := x14\<rparr>) h = kept g h"
  "kept (g\<lparr>g_dirty_markers := x15\<rparr>) h = kept g h"
  "kept (g\<lparr>g_dirty_facts := x16\<rparr>) h = kept g h"
  "kept (g\<lparr>g_deletion_epochs := x17\<rparr>) h = kept g h"
  "kept (g\<lparr>g_parent_users := x18\<rparr>) h = kept g h"
  "kept (g\<lparr>g_reference_users := x19\<rparr>) h = kept g h"
  "kept (g\<lparr>g_next_cell := x20\<rparr>) h = kept g h"
  "kept (g\<lparr>g_old_keys := x23\<rparr>) h = kept g h"
  "kept (g\<lparr>g_union_roots := x24\<rparr>) h = kept g h"
  "kept (g\<lparr>g_receipt_forwards := x25\<rparr>) h = kept g h"
  "kept (g\<lparr>g_congruence_dirty := x26\<rparr>) h = kept g h"
  "kept (g\<lparr>g_unions := x27\<rparr>) h = kept g h"
  "kept (g\<lparr>g_function_updates := x28\<rparr>) h = kept g h"
  by (simp_all add: kept_def causes_below_def uses_ok_def uses_of_def)

lemma uses_ok_update [simp]:
  "uses_ok (g\<lparr>g_pending_unions := x1\<rparr>) = uses_ok g" "uses_ok (g\<lparr>g_pending_causes := x2\<rparr>) = uses_ok g"
  "uses_ok (g\<lparr>g_active_cause := x3\<rparr>) = uses_ok g"
  by (simp_all add: uses_ok_def uses_of_def)

lemma kept_no_active: "kept g h \<Longrightarrow> kept g (h\<lparr>g_active_cause := None\<rparr>)"
proof -
  have "causes_below h \<Longrightarrow> causes_below (h\<lparr>g_active_cause := None\<rparr>)"
    unfolding causes_below_def by simp
  then show "kept g h \<Longrightarrow> kept g (h\<lparr>g_active_cause := None\<rparr>)"
    unfolding kept_def by simp
qed

lemma kept_push [simp]: "kept g (push_event d h) = kept g h"
  by (simp add: push_event_def)

lemma kept_push_left [simp]: "kept (push_event d g) h = kept g h"
  by (simp add: push_event_def)

lemma kept_retain [simp]: "kept g (retain_reference f h) = kept g h"
  by (simp add: retain_reference_def Let_def)

lemma kept_store [simp]: "kept g (store_cell i c h) = kept g h"
  by (simp add: store_cell_def Let_def split: option.splits)

lemma kept_store_left [simp]: "kept (store_cell i c g) h = kept g h"
  by (simp add: store_cell_def retain_reference_def Let_def split: option.splits)

lemma kept_forward [simp]: "kept g (forward_receipt a b h) = kept g h"
  by (simp add: forward_receipt_def)

lemma kept_forward_left [simp]: "kept (forward_receipt a b g) h = kept g h"
  by (simp add: forward_receipt_def)

text \<open>
  \<open>keeping m g\<close>: the operation \<open>m\<close> on \<open>g\<close> keeps the classes. A state result is the graph itself or
  the first component. A proof follows the code: the rules \<open>keep_bind\<close> and \<open>keep_fst_bind\<close> pass an
  operation on the state, \<open>ensures_bind\<close> a read.
\<close>

abbreviation keeping :: "graph res \<Rightarrow> graph \<Rightarrow> bool" where
  "keeping m g \<equiv> ensures (kept g) m"

abbreviation keeping_fst :: "(graph \<times> 'a) res \<Rightarrow> graph \<Rightarrow> bool" where
  "keeping_fst m g \<equiv> ensures (\<lambda>r. kept g (fst r)) m"

lemma keep_bind: "keeping m h \<Longrightarrow> kept g h \<Longrightarrow> (\<And>k. kept g k \<Longrightarrow> keeping (f k) g) \<Longrightarrow> keeping (rbind m f) g"
  by (auto simp: ensures_def rbind_eq_Inr intro: kept_trans)

lemma keep_bind_fst:
  "keeping m h \<Longrightarrow> kept g h \<Longrightarrow> (\<And>k. kept g k \<Longrightarrow> keeping_fst (f k) g) \<Longrightarrow> keeping_fst (rbind m f) g"
  by (simp add: ensures_def rbind_eq_Inr) (blast intro: kept_trans)

lemma keep_fst_bind:
  "keeping_fst m h \<Longrightarrow> kept g h \<Longrightarrow> (\<And>k x. kept g k \<Longrightarrow> keeping (f (k, x)) g) \<Longrightarrow> keeping (rbind m f) g"
  by (cases m) (simp_all, metis kept_trans prod.collapse)

lemma keep_fst_bind_fst:
  "keeping_fst m h \<Longrightarrow> kept g h \<Longrightarrow> (\<And>k x. kept g k \<Longrightarrow> keeping_fst (f (k, x)) g) \<Longrightarrow>
   keeping_fst (rbind m f) g"
  by (cases m) (simp_all, metis kept_trans prod.collapse)

lemmas keep_seq = keep_bind keep_bind_fst keep_fst_bind keep_fst_bind_fst

lemma keep_at: "keeping m h \<Longrightarrow> kept g h \<Longrightarrow> keeping m g"
  by (auto simp: ensures_def intro: kept_trans)

lemma keep_fst_at: "keeping_fst m h \<Longrightarrow> kept g h \<Longrightarrow> keeping_fst m g"
  by (auto simp: ensures_def intro: kept_trans)

lemma ensures_if:
  "(b \<Longrightarrow> ensures P x) \<Longrightarrow> (\<not> b \<Longrightarrow> ensures P y) \<Longrightarrow> ensures P (if b then x else y)"
  by simp

lemma keep_rfold:
  assumes "\<And>x k. x \<in> set xs \<Longrightarrow> keeping (f x k) k"
  shows "keeping (rfold f xs g) g"
  using assms
proof (induction xs arbitrary: g)
  case (Cons x xs)
  have "keeping (rfold f xs k) k" for k by (rule Cons.IH) (simp add: Cons.prems)
  then show ?case
    unfolding rfold.simps using Cons.prems by (intro keep_bind [where h = g]) (auto intro: keep_at)
qed simp

lemma keep_smapM:
  assumes "\<And>x k. x \<in> set xs \<Longrightarrow> keeping_fst (f x k) k"
  shows "keeping_fst (smapM f xs g) g"
proof (rule ensuresI)
  fix r assume "smapM f xs g = Inr r"
  then have "smapM f xs g = Inr (fst r, snd r)" by simp
  then show "kept g (fst r)"
    by (rule smapM_invariant [where P = "kept g"])
      (use assms in \<open>auto simp: ensures_def intro: kept_trans\<close>)
qed

text \<open>An option or branch on the way: the state so far or an operation on it.\<close>

lemma kept_modify_cell [keeps]: "keeping (modify_cell i u g) g"
  by (auto simp: modify_cell_def split: option.split)

lemma kept_modify_fact [keeps]: "keeping (modify_fact f u g) g"
  by (auto simp: modify_fact_def intro!: ensures_bind keeps)

lemma kept_modify_function [keeps]: "keeping (modify_function i u g) g"
  by (auto simp: modify_function_def intro!: ensures_bind)

lemma kept_touch [keeps]: "keeping (touch t d g) g"
  by (auto simp: touch_def intro!: ensures_bind)

lemma kept_release [keeps]: "keeping (release_reference f g) g"
  by (auto simp: release_reference_def Let_def intro!: ensures_bind)

lemma kept_reserve [keeps]: "keeping_fst (reserve_cell_id g) g"
  by (auto simp: reserve_cell_id_def Let_def)

lemma value_refs_canon: "decreasing p \<Longrightarrow> x \<in> value_refs (canon v p) \<Longrightarrow> root p x = x"
proof (induction v p rule: canon.induct)
  case (2 xs p)
  then show ?case by fastforce
qed simp_all

lemma values_refs_canon: "decreasing p \<Longrightarrow> x \<in> values_refs (map (\<lambda>v. canon v p) vs) \<Longrightarrow> root p x = x"
  by (auto simp: values_refs_def value_refs_canon)

text \<open>The index after a subscription, as \<open>uses_of\<close> reads it.\<close>

lemma in_add_uses:
  "d' \<in> (case add_uses d ids m x of None \<Rightarrow> {} | Some s \<Rightarrow> s) \<longleftrightarrow>
   d' = d \<and> x \<in> ids \<or> d' \<in> (case m x of None \<Rightarrow> {} | Some s \<Rightarrow> s)"
  by (auto simp: add_uses_def split: option.splits)

lemma in_remove_uses:
  "d' \<in> (case remove_uses d ids m x of None \<Rightarrow> {} | Some s \<Rightarrow> s) \<longleftrightarrow>
   d' \<in> (case m x of None \<Rightarrow> {} | Some s \<Rightarrow> s) \<and> (d' \<noteq> d \<or> x \<notin> ids)"
  by (auto simp: remove_uses_def split: option.splits)

lemma kept_resubscribe:
  assumes "kept g h"
  shows "kept g (h\<lparr>
     g_uses := add_uses d (values_refs (map (canon_in h) vs))
       (case g_dependencies h d of None \<Rightarrow> g_uses h
        | Some old \<Rightarrow> remove_uses d (root (g_parents h) ` old) (g_uses h)),
     g_dependencies := (g_dependencies h)(d \<mapsto> values_refs (map (canon_in h) vs))\<rparr>)" (is "kept g ?k")
proof -
  have "uses_ok ?k" if dec: "decreasing (g_parents h)" and ok: "uses_ok h"
    unfolding uses_ok_def
  proof (intro allI impI)
    fix d' ids x assume d': "g_dependencies ?k d' = Some ids" and x: "x \<in> ids"
    let ?r = "root (g_parents h) x"
    show "d' \<in> uses_of ?k (root (g_parents ?k) x)"
    proof (cases "d' = d")
      case True
      with d' x values_refs_canon [OF dec, of x vs] show ?thesis
        by (simp add: uses_of_def in_add_uses)
    next
      case False
      with d' x ok have "d' \<in> uses_of h ?r" by (auto simp: uses_ok_def)
      with False show ?thesis
        by (cases "g_dependencies h d") (simp_all add: uses_of_def in_add_uses in_remove_uses)
    qed
  qed
  moreover have "causes_below ?k = causes_below h" by (simp add: causes_below_def)
  ultimately show ?thesis using assms unfolding kept_def by simp
qed

lemma kept_subscribe [keeps]: "keeping (subscribe d vs g) g"
proof -
  have t: "keeping (case tb of None \<Rightarrow> Inr g | Some t \<Rightarrow> touch t d g) g" for tb
    by (auto intro: keeps split: option.split)
  show ?thesis
    unfolding subscribe_def Let_def
    by (rule ensures_bind, rule keep_bind, rule t) (simp_all only: kept_refl ensures_simps kept_resubscribe)
qed

lemma kept_frame [keeps]: "keeping_fst (frame t vs g) g"
  unfolding frame_def linked_frame_def
  by (rule keep_fst_bind_fst, rule keeps) (auto intro!: ensures_bind)

lemma kept_activate [keeps]: "keeping (activate f t key v h g) g"
  unfolding activate_def Let_def
  by (rule keep_bind, rule keeps, simp, rule ensures_bind, rule keep_bind, rule keeps) simp_all

lemma kept_insert_constructor [keeps]: "keeping_fst (insert_constructor cell op t key dst g) g"
  unfolding insert_constructor_def
  by (rule ensures_bind, rule keep_bind_fst, rule keeps) simp_all

lemma kept_retire [keeps]: "keeping (retire f g) g"
  unfolding retire_def
  apply (rule ensures_bind)
  apply (simp split: option.split)
  apply (intro allI impI)
  apply (rule keep_bind, rule keeps, simp, rule ensures_bind, rule keep_bind, rule keeps, simp,
      rule ensures_bind, rule keep_bind, rule keeps)
   apply simp_all
  done

lemma kept_enqueue [keeps]: "keeping (enqueue_union a b g) g"
  by (auto simp: enqueue_union_def kept_def causes_below_def cause_below_def [of _ External]
      split: val.split option.split)

lemma kept_construct_inner [keeps]: "keeping_fst (construct_inner cell op t aa dst g) g"
proof -
  have found: "keeping_fst (rbind (last_value r) (\<lambda>v. rbind (modify_cell cell (u v) g1) (\<lambda>g2. Inr (g2, w v)))) g"
    if "kept g g1" for g1 r u w
    by (rule ensures_bind, rule keep_bind_fst, rule keeps, rule that) simp_all
  have remember: "keeping_fst (rbind (modify_cell cell u g) f) g"
    if "\<And>g1. kept g g1 \<Longrightarrow> keeping_fst (f g1) g" for u f
    by (rule keep_bind_fst, rule keeps, simp, rule that)
  have new: "keeping_fst (rbind (insert_constructor cell op t key dst g) (\<lambda>(g1, v).
      rbind (if b then modify_cell cell u g1 else Inr g1) (\<lambda>g2. Inr (g2, w v)))) g" for key u w b
    by (rule keep_fst_bind_fst, rule keeps, simp, simp, rule impI)
      (auto intro!: keep_bind_fst [OF kept_modify_cell])
  show ?thesis
    unfolding construct_inner_def
    by (intro ensures_bind) (auto intro!: found remember new split: option.split dependency.split)
qed

lemma kept_construct [keeps]: "keeping_fst (construct cell op t aa dst g) g"
  unfolding construct_def by (rule keep_fst_bind_fst, rule keeps) simp_all

lemma kept_dynamic_construct [keeps]: "keeping_fst (dynamic_construct t args g) g"
proof -
  have "keeping_fst (rbind (frame template vs g) (\<lambda>(g1, cell). construct cell 0 t aa dst g1)) g"
    for template vs aa dst
    by (rule keep_fst_bind_fst, rule keeps, simp, simp, rule keep_fst_at, rule keeps)
  then show ?thesis
    unfolding dynamic_construct_def
    by (intro ensures_bind) (auto split: option.split intro!: ensures_bind [where m = "last_value r" for r]
      ensures_bind [where m = "idx (p_table_templates q) t" for q])
qed

section \<open>Merges, sets and hides\<close>

lemma kept_merge_table [keeps]: "keeping_fst (merge_table t args g) g"
  by (auto simp: merge_table_def intro!: ensures_bind intro: keeps)

lemma kept_merge_expression [keeps]: "keeping_fst (merge_expression e old new g) g"
proof (induction e arbitrary: g rule: measure_induct_rule [where f = size])
  case (less e)
  have args: "keeping_fst (smapM (\<lambda>a g. merge_expression a old new g) aa k) k"
    if "as_array (jfield e ''args'') = Some aa" for aa k
    by (rule keep_smapM, rule less.IH) (use that in \<open>auto dest: size_jfield_arr\<close>)
  have call: "keeping_fst (rbind (smapM (\<lambda>a g. merge_expression a old new g) aa g) f) g"
    if "as_array (jfield e ''args'') = Some aa" "\<And>k vs. kept g k \<Longrightarrow> keeping_fst (f (k, vs)) g" for aa f
    by (rule keep_fst_bind_fst, rule args, rule that(1), simp, rule that(2))
  have table: "keeping_fst (rbind (ok_or x er) (\<lambda>t. merge_table t vs k)) g" if "kept g k" for x er vs k
    by (rule ensures_bind, rule keep_fst_at, rule keeps, rule that)
  have prim: "keeping_fst (rbind (j_string x) (\<lambda>name. rbind (j_string y) (\<lambda>out.
      rmap (\<lambda>v. (k, v)) (run_primitive k name vs out)))) g" if "kept g k" for x y vs k
    by (intro ensures_bind ensures_map) (simp add: that)
  show ?case
    unfolding merge_expression.simps [of e]
    by (auto intro!: ensures_map call table prim split: option.split)
qed

lemma kept_merge_call [keeps]: "keeping_fst (merge_call c args g) g"
  by (auto simp: merge_call_def intro: keeps intro!: ensures_map split: call.split)

lemma kept_run_merge_ops [keeps]: "keeping_fst (run_merge_ops ops vs g) g"
proof (induction ops arbitrary: vs g)
  case (Cons e ops)
  have "keeping_fst (rbind (rmapM (operand vs) aa) (\<lambda>args. rbind (merge_call c args g) (\<lambda>(g1, v).
      if dst \<noteq> length vs then Inl er else run_merge_ops ops (vs @ [v]) g1))) g" for c aa dst er
    by (rule ensures_bind, rule keep_fst_bind_fst, rule keeps) (auto intro: keep_fst_at Cons.IH)
  then show ?case by (auto split: op.split)
qed simp

lemma kept_run_merge_program [keeps]: "keeping_fst (run_merge_program m old new g) g"
proof -
  have "keeping_fst (rbind (run_merge_ops ops vs g) (\<lambda>(g1, vs). rbind (operand vs a) (\<lambda>v. Inr (g1, v)))) g"
    for ops vs a
    by (rule keep_fst_bind_fst, rule keeps) (auto intro!: ensures_bind)
  then show ?thesis by (auto simp: run_merge_program_def split: arg.split)
qed

lemma kept_merge_value [keeps]: "keeping_fst (merge_value t old new g) g"
  by (auto simp: merge_value_def intro!: ensures_bind intro: keeps)

lemma kept_subscribe_function [keeps]: "keeping (subscribe_function i g) g"
  by (auto simp: subscribe_function_def intro!: ensures_bind intro: keeps)

lemma kept_set_function [keeps]: "keeping_fst (set_function_inner t key v g) g"
proof -
  have upd: "keeping_fst (rbind (modify_function i u k) (\<lambda>g2. rbind (subscribe_function i (push_event d
      (g2\<lparr>g_changed := True, g_function_updates := n g2\<rparr>))) (\<lambda>g3. Inr (g3, i)))) g"
    if "kept g k" for i u k d n
    by (rule keep_bind_fst, rule keeps, rule that, rule keep_bind_fst, rule keeps) simp_all
  have old: "keeping_fst (rbind (merge_value t old w g) (\<lambda>(g1, nxt). if nxt = old then Inr (g1, i)
      else rbind (modify_function i (u g1 nxt) g1) (\<lambda>g2. rbind (subscribe_function i (push_event d
      (g2\<lparr>g_changed := True, g_function_updates := n g2\<rparr>))) (\<lambda>g3. Inr (g3, i))))) g"
    for old w i u d n
    by (rule keep_fst_bind_fst, rule keeps) (auto intro: upd)
  have new: "keeping_fst (rbind (subscribe_function i k) (\<lambda>g2. Inr (g2, i))) g" if "kept g k" for i k
    by (rule keep_bind_fst, rule keeps, rule that) simp
  show ?thesis
    unfolding set_function_inner_def Let_def
    by (auto split: option.split intro!: old new ensures_bind [where m = "idx q i" for q i]
      ensures_bind [where m = "add_to i t q" for q i])
qed

lemma kept_function_origin [keeps]: "keeping (function_origin i new g) g"
proof -
  have last: "keeping (modify_function i u k) g" if "kept g k" for u k
    by (rule keep_at, rule keeps, rule that)
  show ?thesis
    unfolding function_origin_def Let_def
    by (rule ensures_bind)
      (auto intro!: keep_bind [where h = g] last ensures_bind [where m = "drop_one q n" for q n]
        split: option.split)
qed

lemma kept_set_inner [keeps]: "keeping_fst (set_inner cell op t aa a g) g"
proof -
  have fn: "keeping_fst (rbind (set_function_inner t key v g) (\<lambda>(g1, i).
      rbind (if b g1 then function_origin i n g1 else Inr g1) (\<lambda>g2. Inr (g2, w i)))) g" for key v b n w
    by (rule keep_fst_bind_fst, rule keeps, simp, simp, rule impI)
      (auto intro!: keep_bind_fst [OF kept_function_origin])
  have old: "keeping_fst (rbind (if c then enqueue_union x y g else if d then Inl e else Inr g)
      (\<lambda>g1. Inr (g1, w))) g" for c d e x y w
    by (auto intro!: keep_bind_fst [OF kept_enqueue])
  have new: "keeping_fst (rbind (activate f t key v False g) (\<lambda>g1. Inr (g1, w))) g" for f key v w
    by (rule keep_bind_fst, rule keeps) simp_all
  show ?thesis
    unfolding set_inner_def
    by (intro ensures_bind) (auto split: option.split simp del: rbind_Inr
      intro!: fn old new ensures_bind [where m = "lookup g t key" for key] ensures_bind [where m = "last_value r" for r])
qed

lemma kept_hide_row [keeps]: "keeping_fst (hide_row f t delete g) g"
proof -
  have retired: "keeping_fst (rbind (retire f g) (\<lambda>g1. Inr (g1\<lparr>g_changed := True\<rparr>, b))) g" for b
    by (rule keep_bind_fst, rule keeps) simp_all
  have hidden: "keeping_fst (rbind (touch t d g) (\<lambda>g1. rbind (modify_fact f (u g1) g1) (\<lambda>g2.
      Inr ((push_event d g2)\<lparr>g_changed := True\<rparr>, b)))) g" for d u b
    by (rule keep_bind_fst, rule keeps, simp, rule keep_bind_fst, rule keeps) simp_all
  show ?thesis
    unfolding hide_row_def by (rule ensures_bind) (auto intro: retired hidden)
qed

lemma kept_delete_function [keeps]: "keeping_fst (delete_function i t key g) g"
  unfolding delete_function_def
  by (rule keep_bind_fst, rule keeps, simp, rule keep_bind_fst, rule keeps, assumption,
      rule keep_bind_fst, rule keeps, assumption, rule ensures_bind, rule keep_bind_fst, rule keeps) simp_all

lemma kept_hide [keeps]: "keeping_fst (hide n t key delete g) g"
proof (induction n arbitrary: delete g)
  case (Suc n)
  have new: "keeping_fst (rbind (dynamic_construct t key k) (\<lambda>(g1, v). rbind (hide n t key False g1)
      (\<lambda>(g2, x). Inr (g2, False)))) k" for k
    by (rule keep_fst_bind_fst, rule keeps, simp, simp, rule keep_fst_bind_fst, rule Suc.IH) simp_all
  have found: "keeping_fst (rbind (lookup k t key) (\<lambda>r. case r of None \<Rightarrow> if delete then Inr (k, False)
        else rbind (dynamic_construct t key k) (\<lambda>(g1, v). rbind (hide n t key False g1) (\<lambda>(g2, x). Inr (g2, False)))
      | Some r \<Rightarrow> (case rw_witness r of DFact f \<Rightarrow> hide_row f t delete k
        | DFunction i \<Rightarrow> if \<not> delete then Inl er else delete_function i t key k))) g" if "kept g k" for k er
    by (rule ensures_bind)
      (auto split: option.split dependency.split intro: that keep_fst_at [OF new] keep_fst_at [OF kept_hide_row]
        keep_fst_at [OF kept_delete_function])
  show ?case
    unfolding hide.simps
    by (rule keep_bind_fst [where h = g], simp add: ensures_bind, simp, rule found)
qed simp

section \<open>Marking and repairing\<close>

lemma kept_stale_marker [simp]: "kept g (stale_marker f h) = kept g h"
  by (simp add: stale_marker_def split: option.split)

lemma kept_mark_one [keeps]: "keeping (mark_one d g) g"
  by (auto simp: mark_one_def Let_def intro!: ensures_bind split: dependency.split option.split)

lemma kept_mark_affected [keeps]: "keeping (mark_affected ds g) g"
  unfolding mark_affected_def by (rule keep_rfold, rule keeps)

lemma kept_save_old_key [keeps]: "keeping (save_old_key hi d g) g"
  by (auto simp: save_old_key_def intro!: ensures_bind split: option.split)

lemma congruence_cause_below:
  assumes "congruence_cause l f f' a b p = Inr c" "causes_ok l p"
  shows "cause_below (length (ln_events l)) c"
proof -
  obtain S b' where "rfold (congruence_step l p) (zip a b) ({}, length a = length b) = Inr (S, b')"
    and c: "c = Congruence f f' (sorted_list_of_set S) b'"
    using assms(1) by (auto simp: congruence_cause_def rbind_eq_Inr)
  from congruence_fold_sound [OF this(1) assms(2)] have S: "S \<subseteq> {..<length (ln_events l)}" by simp
  then show ?thesis
    using finite_subset [OF S] by (auto simp: c cause_below_def)
qed

lemma kept_congruence_lineage [keeps]: "keeping (congruence_lineage f r other g) g"
  by (auto simp: congruence_lineage_def Let_def kept_def causes_below_def congruence_cause_below
      intro!: ensures_bind split: dependency.split)

lemma kept_collide [keeps]: "keeping (collide f r other g) g"
proof -
  have joined: "keeping (rbind (congruence_lineage f r other g) (\<lambda>g1. rbind (last_value r) (\<lambda>v.
      rbind (last_value other) (\<lambda>w. rbind (enqueue_union v w g1) (\<lambda>g2. Inr (g2\<lparr>g_active_cause := None\<rparr>)))))) g"
    by (rule keep_bind, rule keeps, simp, rule ensures_bind, rule ensures_bind, rule keep_bind, rule keeps)
      (simp_all add: kept_no_active)
  have kept: "keeping (rbind (touch t d k) (\<lambda>g2. rbind (modify_fact x (u g2) g2) (\<lambda>g3. Inr (push_event e g3)))) k"
    for t d k x u e
    by (rule keep_bind, rule keeps, simp, rule keep_bind, rule keeps) simp_all
  have rest: "keeping (rbind (case w of DFact keep \<Rightarrow> rbind (touch t d k) (\<lambda>g2.
        rbind (modify_fact keep (u g2) g2) (\<lambda>g3. Inr (push_event e g3))) | DFunction i \<Rightarrow> Inr k)
      (\<lambda>g2. retire f (forward_receipt a b g2))) g" if "kept g k" for w t d u e a b k
    by (rule keep_bind [OF _ that], simp add: kept split: dependency.split, rule keep_at, rule keeps) simp
  show ?thesis
    unfolding collide_def
    by (rule ensures_bind, rule keep_bind [where h = g], simp add: joined, simp, rule rest)
qed

lemma kept_repair_fact [keeps]: "keeping (repair_fact f g) g"
proof -
  have own: "keeping (rbind (modify_fact f u k) (\<lambda>g2. rbind (subscribe d vs g2) (\<lambda>g3. Inr (push_event d g3)))) k"
    for u k d vs
    by (rule keep_bind, rule keeps, simp, rule keep_bind, rule keeps) simp_all
  have cases: "keeping (rbind (case found of Some other \<Rightarrow> collide f r other k | None \<Rightarrow>
        rbind (modify_fact f u k1) (\<lambda>g2. rbind (subscribe d vs g2) (\<lambda>g3. Inr (push_event d g3))))
      (\<lambda>g4. Inr (g4\<lparr>g_old_keys := old g4\<rparr>))) g" if "kept g k" "kept g k1" for found r k k1 u d vs old
  proof (rule keep_bind [where h = g])
    show "keeping (case found of Some other \<Rightarrow> collide f r other k | None \<Rightarrow>
        rbind (modify_fact f u k1) (\<lambda>g2. rbind (subscribe d vs g2) (\<lambda>g3. Inr (push_event d g3)))) g"
      using keep_at [OF own that(2)] keep_at [OF kept_collide that(1)] by (simp split: option.split)
  qed simp_all
  show ?thesis
    unfolding repair_fact_def Let_def
    by (rule ensures_bind, simp split: option.split, intro allI impI, rule ensures_bind, rule ensures_bind, rule cases)
      simp_all
qed

lemma kept_join_functions [keeps]: "keeping (join_functions i j r g) g"
proof -
  have last: "keeping (rbind (subscribe d [] k) (\<lambda>g5. rbind (subscribe_function j g5) (\<lambda>g6.
      Inr (push_event e g6)))) g" if "kept g k" for d k e
    by (rule keep_bind, rule keeps, rule that, rule keep_bind, rule keeps) simp_all
  show ?thesis
    unfolding join_functions_def
    by (rule ensures_bind, rule ensures_bind, rule keep_fst_bind, rule keeps, simp, simp only: prod.case,
        rule keep_bind, rule keeps, assumption, rule keep_bind, rule keeps, assumption,
        rule keep_bind, rule keeps, simp, rule ensures_bind, rule last) simp
qed

lemma kept_repair_function [keeps]: "keeping (repair_function i g) g"
proof -
  have own: "keeping (rbind (last_value r) (\<lambda>v. rbind (modify_function i (u v) k) (\<lambda>g2.
      rbind (subscribe d vs (g2\<lparr>g_function_keys := w g2\<rparr>)) (\<lambda>g3. Inr (push_event d g3))))) g"
    if "kept g k" for r u k d vs w
    by (rule ensures_bind, rule keep_bind, rule keeps, rule that, rule keep_bind, rule keeps) simp_all
  show ?thesis
    unfolding repair_function_def Let_def
    by (auto split: option.split intro!: ensures_bind [where m = "idx q i" for q] own keeps
        keep_at [OF kept_join_functions])
qed

lemma kept_repair_dependency [keeps]: "keeping (repair_dependency d g) g"
proof -
  have fact: "keeping (rbind (case tb of None \<Rightarrow> Inr g | Some t \<Rightarrow> rbind (remove_from f t x) (\<lambda>df.
      Inr (g\<lparr>g_dirty_facts := df\<rparr>))) (repair_fact f)) g" for tb f x
    by (rule keep_bind [where h = g]) (auto intro!: ensures_bind intro: keep_at [OF kept_repair_fact] split: option.split)
  show ?thesis
    unfolding repair_dependency_def
    by (auto split: dependency.split intro: keeps intro!: ensures_bind [where m = "dependency_table g x" for x] fact)
qed

lemma kept_coalesce [keeps]: "keeping (coalesce cell dups op g) g"
proof -
  have run: "keeping (rbind (modify_fact keep u g) (\<lambda>g1. rbind (touch t d (push_event d g1)) (\<lambda>g2.
      rbind (retire old g2) (\<lambda>g3. rbind (w g3) (\<lambda>df. Inr (forward_receipt a b (g3\<lparr>g_dirty := x1 g3,
        g_dirty_markers := x2 g3, g_dirty_facts := df\<rparr>))))))) g" for keep u t d old w a b x1 x2
    by (rule keep_bind, rule keeps, simp, rule keep_bind, rule keeps, simp, rule keep_bind, rule keeps,
        assumption, rule ensures_bind) simp
  show ?thesis
    unfolding coalesce_def Let_def
    by (auto intro!: run ensures_bind [where m = "ok_or q e" for q e] ensures_bind [where m = "dependency_table g q" for q]
        ensures_bind [where m = "get_cell g q" for q])
qed

lemma kept_retire_empty [keeps]: "keeping (retire_empty cell g) g"
proof -
  have providers: "keeping (rfold (\<lambda>atom g. case m atom of None \<Rightarrow> Inr g | Some f \<Rightarrow> release_reference f g) xs k) k"
    for m xs k
    by (rule keep_rfold) (simp add: keeps split: option.split)
  have run: "keeping (rbind (case pa of None \<Rightarrow> Inr k | Some f \<Rightarrow> release_reference f k) (\<lambda>g1.
      rbind (rfold (\<lambda>atom g. case m atom of None \<Rightarrow> Inr g | Some f \<Rightarrow> release_reference f g) xs g1) (\<lambda>g2.
      Inr (g2\<lparr>g_parent_users := w g2\<rparr>)))) g" if "kept g k" for pa k m xs w
    by (rule keep_bind [where h = k], simp add: keeps split: option.split, rule that, rule keep_bind, rule providers)
      simp_all
  show ?thesis
    unfolding retire_empty_def
    by (cases "g_cells g cell", simp, simp only: option.case, rule ensures_if, simp, rule run, simp)
qed

end
