(* ===== verification/GraphInvariant.thy ===== *)
theory GraphInvariant
  imports GraphClasses
begin

text \<open>
  The invariant of the equality classes, \<open>classes_ok\<close>: the parent map decreases, the lineage is valid
  and explains every link, and the reverse index finds each subscribed fact under its current roots.
  Unions and the repair loop advance the classes (\<open>advances\<close>): they only become coarser, and a queued
  union is performed or still queued.
\<close>

section \<open>The invariant\<close>

definition lineage_ok :: "graph \<Rightarrow> bool" where
  "lineage_ok g \<longleftrightarrow> (g_lineage_enabled g \<longrightarrow>
     validate_lineage (g_lineage g) (g_parents g) \<and> all_caused (g_lineage g) (g_parents g))"

definition classes_ok :: "graph \<Rightarrow> bool" where
  "classes_ok g \<longleftrightarrow> decreasing (g_parents g) \<and> lineage_ok g \<and> causes_below g \<and> uses_ok g"

definition same_class :: "graph \<Rightarrow> u64 \<Rightarrow> u64 \<Rightarrow> bool" where
  "same_class g x y \<longleftrightarrow> root (g_parents g) x = root (g_parents g) y"

definition advances :: "graph \<Rightarrow> graph \<Rightarrow> bool" where
  "advances g h \<longleftrightarrow> classes_ok h \<and> coarser (g_parents g) (g_parents h) \<and>
     g_lineage_enabled h = g_lineage_enabled g \<and> g_program h = g_program g \<and>
     length (ln_events (g_lineage g)) \<le> length (ln_events (g_lineage h)) \<and>
     (\<forall>x y. (x, y) \<in> set (g_pending_unions g) \<longrightarrow> (x, y) \<in> set (g_pending_unions h) \<or> same_class h x y)"

lemma same_class_coarser: "same_class g x y \<Longrightarrow> coarser (g_parents g) (g_parents h) \<Longrightarrow> same_class h x y"
  unfolding same_class_def coarser_def by metis

lemma advances_refl: "classes_ok g \<Longrightarrow> advances g g"
  by (simp add: advances_def classes_ok_def coarser_refl)

lemma advances_trans: "advances g h \<Longrightarrow> advances h k \<Longrightarrow> advances g k"
  unfolding advances_def using same_class_coarser [of h _ _ k]
  by (auto intro: coarser_trans) blast+

lemma kept_advances:
  assumes "classes_ok g" "kept g h"
  shows "advances g h"
  using assms by (auto simp: advances_def classes_ok_def kept_def lineage_ok_def intro: coarser_refl)

lemma keeping_advances: "classes_ok g \<Longrightarrow> keeping m g \<Longrightarrow> ensures (advances g) m"
  by (auto simp: ensures_def intro: kept_advances)

lemma advances_ok: "advances g h \<Longrightarrow> classes_ok h"
  by (simp add: advances_def)

lemma cause_below_mono: "cause_below n c \<Longrightarrow> n \<le> m \<Longrightarrow> cause_below m c"
  by (auto simp: cause_below_def split: cause.splits)

section \<open>Marking\<close>

definition is_dirty :: "graph \<Rightarrow> dependency \<Rightarrow> bool" where
  "is_dirty g d \<longleftrightarrow> d \<in> g_dirty g \<or> (\<exists>f. d = DFact f \<and> f \<in> g_dirty_markers g)"

definition marks :: "graph \<Rightarrow> graph \<Rightarrow> bool" where
  "marks g h \<longleftrightarrow> kept g h \<and> g_uses h = g_uses g \<and> g_dependencies h = g_dependencies g \<and>
     g_dirty g \<subseteq> g_dirty h \<and> g_dirty_markers g \<subseteq> g_dirty_markers h"

lemma marks_refl: "marks g g"
  by (simp add: marks_def)

lemma marks_trans: "marks g h \<Longrightarrow> marks h k \<Longrightarrow> marks g k"
  by (auto simp: marks_def intro: kept_trans)

lemma marks_dirty: "marks g h \<Longrightarrow> is_dirty g d \<Longrightarrow> is_dirty h d"
  by (auto simp: marks_def is_dirty_def)

lemma stale_marker_fields [simp]:
  "g_uses (stale_marker f g) = g_uses g" "g_dependencies (stale_marker f g) = g_dependencies g"
  "g_dirty (stale_marker f g) = g_dirty g" "g_dirty_markers (stale_marker f g) = g_dirty_markers g"
  by (simp_all add: stale_marker_def split: option.split)

lemma mark_one_marks: "ensures (\<lambda>h. marks g h \<and> is_dirty h d) (mark_one d g)"
proof -
  have k: "keeping (mark_one d g) g" by (rule keeps)
  have "ensures (\<lambda>h. g_uses h = g_uses g \<and> g_dependencies h = g_dependencies g \<and>
     g_dirty g \<subseteq> g_dirty h \<and> g_dirty_markers g \<subseteq> g_dirty_markers h \<and> is_dirty h d) (mark_one d g)"
    by (auto simp: mark_one_def Let_def is_dirty_def intro!: ensures_bind split: dependency.split option.split)
  with k show ?thesis by (auto simp: ensures_def marks_def)
qed

lemma mark_list_marks: "ensures (\<lambda>h. marks g h \<and> (\<forall>d \<in> set ds. is_dirty h d)) (rfold mark_one ds g)"
proof (induction ds arbitrary: g)
  case (Cons d ds)
  show ?case
  proof (rule ensuresI)
    fix h assume "rfold mark_one (d # ds) g = Inr h"
    then obtain k where k: "mark_one d g = Inr k" "rfold mark_one ds k = Inr h" by (auto simp: rbind_eq_Inr)
    from ensuresD [OF mark_one_marks k(1)] ensuresD [OF Cons.IH k(2)]
    show "marks g h \<and> (\<forall>d' \<in> set (d # ds). is_dirty h d')"
      by (auto intro: marks_trans marks_dirty)
  qed
qed (simp add: marks_refl)

lemma mark_affected_marks: "ensures (\<lambda>h. marks g h \<and> (finite ds \<longrightarrow> (\<forall>d \<in> ds. is_dirty h d))) (mark_affected ds g)"
  using mark_list_marks [of g "sorted_list_of_set ds"]
  by (cases "finite ds") (simp_all add: mark_affected_def ensures_def)

section \<open>Unions\<close>

lemma uses_of_update [simp]:
  "uses_of (g\<lparr>g_uses := m\<rparr>) x = (case m x of None \<Rightarrow> {} | Some s \<Rightarrow> s)"
  by (simp add: uses_of_def)

text \<open>The index stays complete when the uses of the displaced root move to the other root.\<close>

lemma uses_ok_link:
  assumes "decreasing p" "p hi = None" "p lo = None" "lo < hi"
    and "\<forall>d ids x. deps d = Some ids \<longrightarrow> x \<in> ids \<longrightarrow> d \<in> u (root p x)"
    and "u hi \<union> u lo \<subseteq> v lo" "\<And>x. x \<noteq> hi \<Longrightarrow> u x \<subseteq> v x"
  shows "\<forall>d ids x. deps d = Some ids \<longrightarrow> x \<in> ids \<longrightarrow> d \<in> v (root (p(hi \<mapsto> lo)) x)"
proof (intro allI impI)
  fix d ids x assume "deps d = Some ids" "x \<in> ids"
  with assms(5) have d: "d \<in> u (root p x)" by blast
  show "d \<in> v (root (p(hi \<mapsto> lo)) x)"
    using d assms(6) assms(7) [of "root p x"] by (cases "root p x = hi") (auto simp: root_link [OF assms(1-4)])
qed

lemma union_roots_spec:
  assumes "decreasing (g_parents g)" "g_parents g hi = None" "g_parents g lo = None" "lo < hi" "uses_ok g"
  shows "ensures (\<lambda>h. g_parents h = (g_parents g)(hi \<mapsto> lo) \<and> uses_ok h \<and> g_lineage h = g_lineage g \<and>
    g_lineage_enabled h = g_lineage_enabled g \<and> g_program h = g_program g \<and>
    set (g_pending_unions g) \<subseteq> set (g_pending_unions h) \<and>
    (causes_below (g\<lparr>g_parents := (g_parents g)(hi \<mapsto> lo)\<rparr>) \<longrightarrow> causes_below h) \<and>
    (finite (uses_of g hi) \<longrightarrow> (\<forall>d \<in> uses_of g hi. is_dirty h d))) (union_roots lo hi g)"
proof (rule ensuresI)
  fix h assume h: "union_roots lo hi g = Inr h"
  let ?g1 = "g\<lparr>g_parents := (g_parents g)(hi \<mapsto> lo), g_uses := (g_uses g)(hi := None)\<rparr>"
  obtain k where m: "mark_affected (uses_of g hi) ?g1 = Inr k" and hk: "h = k\<lparr>
      g_uses := (g_uses k)(lo \<mapsto> uses_of g hi \<union> uses_of k lo), g_unions := g_unions k + 1, g_changed := True\<rparr>"
    using h by (auto simp: union_roots_def Let_def rbind_eq_Inr)
  from ensuresD [OF mark_affected_marks m] have mk: "marks ?g1 k"
    and d: "finite (uses_of g hi) \<longrightarrow> (\<forall>d \<in> uses_of g hi. is_dirty k d)" by blast+
  then have u: "g_uses k = (g_uses g)(hi := None)" "g_dependencies k = g_dependencies g"
    by (simp_all add: marks_def)
  from mk have p: "g_parents k = (g_parents g)(hi \<mapsto> lo)" by (simp add: marks_def kept_def)
  have "\<forall>d ids x. g_dependencies g d = Some ids \<longrightarrow> x \<in> ids \<longrightarrow>
      d \<in> uses_of h (root ((g_parents g)(hi \<mapsto> lo)) x)"
    by (rule uses_ok_link [OF assms(1-4), where u = "uses_of g"])
      (use assms(4,5) in \<open>auto simp: uses_ok_def hk u uses_of_def\<close>)
  then have "uses_ok h" by (simp add: uses_ok_def hk u(2) p)
  moreover have "is_dirty h d = is_dirty k d" for d by (simp add: is_dirty_def hk)
  moreover have "causes_below h = causes_below k" by (simp add: causes_below_def hk)
  moreover have "causes_below ?g1 = causes_below (g\<lparr>g_parents := (g_parents g)(hi \<mapsto> lo)\<rparr>)"
    by (simp add: causes_below_def)
  ultimately show "g_parents h = (g_parents g)(hi \<mapsto> lo) \<and> uses_ok h \<and> g_lineage h = g_lineage g \<and>
    g_lineage_enabled h = g_lineage_enabled g \<and> g_program h = g_program g \<and>
    set (g_pending_unions g) \<subseteq> set (g_pending_unions h) \<and>
    (causes_below (g\<lparr>g_parents := (g_parents g)(hi \<mapsto> lo)\<rparr>) \<longrightarrow> causes_below h) \<and>
    (finite (uses_of g hi) \<longrightarrow> (\<forall>d \<in> uses_of g hi. is_dirty h d))"
    using mk d by (simp add: marks_def kept_def hk)
qed

lemma record_lineage_uses: "ensures (\<lambda>h. g_uses h = g_uses g) (record_lineage rq a b cause g)"
proof -
  have "ensures (\<lambda>h. g_uses h = g_uses k) (save_old_key x d k)" for x d k
    by (auto simp: save_old_key_def intro!: ensures_bind split: option.split)
  then have step: "save_old_key x d k = Inr h \<Longrightarrow> g_uses h = g_uses k" for x d k h
    by (simp add: ensures_def)
  have "g_uses h = g_uses g" if "rfold (save_old_key x) ds g = Inr h" for x ds h
    by (rule rfold_invariant [OF that, where P = "\<lambda>k. g_uses k = g_uses g"]) (simp_all add: step)
  then show ?thesis
    unfolding record_lineage_def by (auto intro!: ensures_bind)
qed

lemma record_lineage_spec:
  assumes ok: "classes_ok g" "g_lineage_enabled g" and ab: "g_parents g a = None" "g_parents g b = None" "a \<noteq> b"
    and cause: "cause_below (length (ln_events (g_lineage g))) cause"
  shows "ensures (\<lambda>h. kept g (h\<lparr>g_lineage := g_lineage g\<rparr>) \<and>
    validate_lineage (g_lineage h) ((g_parents g)(max a b \<mapsto> min a b)) \<and>
    length (ln_events (g_lineage h)) = Suc (length (ln_events (g_lineage g))) \<and>
    dom (ln_causes (g_lineage h)) = insert (max a b) (dom (ln_causes (g_lineage g)))) (record_lineage rq a b cause g)"
proof (rule ensuresI)
  fix h assume "record_lineage rq a b cause g = Inr h"
  then obtain k l where k: "rfold (save_old_key (max a b)) (sorted_list_of_set (uses_of g (max a b))) g = Inr k"
    and l: "record_union (g_lineage k) (g_epoch k) rq a b cause (g_parents k) = Inr l"
    and h: "h = k\<lparr>g_lineage := l, g_union_roots := insert (min a b) (insert (max a b) (g_union_roots k))\<rparr>"
    by (auto simp: record_lineage_def rbind_eq_Inr)
  have kk: "kept g k" by (rule ensuresD [OF keep_rfold [OF kept_save_old_key] k])
  then have same: "g_lineage k = g_lineage g" "g_parents k = g_parents g" by (simp_all add: kept_def)
  have "validate_lineage (g_lineage g) (g_parents g)" "decreasing (g_parents g)"
    using ok by (simp_all add: classes_ok_def lineage_ok_def)
  from record_union_valid [OF this ab cause, of "g_epoch k" rq] l
  have "validate_lineage l ((g_parents g)(max a b \<mapsto> min a b)) \<and>
      length (ln_events l) = Suc (length (ln_events (g_lineage g))) \<and>
      dom (ln_causes l) = insert (max a b) (dom (ln_causes (g_lineage g)))"
    by (auto simp: same)
  moreover have "h\<lparr>g_lineage := g_lineage g\<rparr> = k\<lparr>g_union_roots := g_union_roots h\<rparr>"
    by (simp add: h same(1) [symmetric])
  ultimately show "kept g (h\<lparr>g_lineage := g_lineage g\<rparr>) \<and>
    validate_lineage (g_lineage h) ((g_parents g)(max a b \<mapsto> min a b)) \<and>
    length (ln_events (g_lineage h)) = Suc (length (ln_events (g_lineage g))) \<and>
    dom (ln_causes (g_lineage h)) = insert (max a b) (dom (ln_causes (g_lineage g)))"
    using kk by (simp add: h)
qed

lemma causes_below_record:
  assumes "kept g (h\<lparr>g_lineage := g_lineage g\<rparr>)" "classes_ok g" "g_lineage_enabled g"
    and "length (ln_events (g_lineage g)) \<le> length (ln_events (g_lineage h))"
  shows "causes_below (h\<lparr>g_parents := p\<rparr>)"
proof -
  have "causes_ok (g_lineage g) (g_parents g)"
    using assms(2,3) by (simp add: classes_ok_def lineage_ok_def validate_causes_ok)
  moreover have "causes_below (h\<lparr>g_lineage := g_lineage g\<rparr>)" "g_parents h = g_parents g" "g_lineage_enabled h"
    using assms(1-3) by (simp_all add: kept_def classes_ok_def)
  ultimately show ?thesis
    using cause_below_mono [OF _ assms(4)] by (simp add: causes_below_def)
qed

text \<open>The state in which the link is installed: recorded when the lineage is on.\<close>

lemma union_recorded:
  assumes run: "(if g_lineage_enabled g then record_lineage rq a b cause g else Inr g) = Inr k" and ok: "classes_ok g"
    and ab: "g_parents g a = None" "g_parents g b = None" "a \<noteq> b"
    and cause: "g_lineage_enabled g \<Longrightarrow> cause_below (length (ln_events (g_lineage g))) cause"
  shows "g_parents k = g_parents g" "g_program k = g_program g" "g_lineage_enabled k = g_lineage_enabled g"
    "uses_ok k" "g_uses k = g_uses g" "length (ln_events (g_lineage g)) \<le> length (ln_events (g_lineage k))"
    "set (g_pending_unions g) \<subseteq> set (g_pending_unions k)"
    "causes_below (k\<lparr>g_parents := (g_parents g)(max a b \<mapsto> min a b)\<rparr>)"
    "g_lineage_enabled k \<Longrightarrow> validate_lineage (g_lineage k) ((g_parents g)(max a b \<mapsto> min a b)) \<and>
      all_caused (g_lineage k) ((g_parents g)(max a b \<mapsto> min a b))"
proof -
  have "g_parents k = g_parents g \<and> g_program k = g_program g \<and>
    g_lineage_enabled k = g_lineage_enabled g \<and> uses_ok k \<and> g_uses k = g_uses g \<and>
    length (ln_events (g_lineage g)) \<le> length (ln_events (g_lineage k)) \<and>
    set (g_pending_unions g) \<subseteq> set (g_pending_unions k) \<and>
    causes_below (k\<lparr>g_parents := (g_parents g)(max a b \<mapsto> min a b)\<rparr>) \<and>
    (g_lineage_enabled k \<longrightarrow> validate_lineage (g_lineage k) ((g_parents g)(max a b \<mapsto> min a b)) \<and>
      all_caused (g_lineage k) ((g_parents g)(max a b \<mapsto> min a b)))"
  proof (cases "g_lineage_enabled g")
    case False
    with run ok show ?thesis by (simp add: classes_ok_def causes_below_def)
  next
    case True
    with run have k: "record_lineage rq a b cause g = Inr k" by simp
    note spec = ensuresD [OF record_lineage_spec [OF ok True ab cause [OF True]] k]
    then have kept: "kept g (k\<lparr>g_lineage := g_lineage g\<rparr>)"
      and len: "length (ln_events (g_lineage g)) \<le> length (ln_events (g_lineage k))" by simp_all
    have "uses_ok (k\<lparr>g_lineage := g_lineage g\<rparr>) = uses_ok k" by (simp add: uses_ok_def uses_of_def)
    with spec kept len ensuresD [OF record_lineage_uses k] ok causes_below_record [OF kept ok True len]
    show ?thesis using True by (auto simp: kept_def classes_ok_def lineage_ok_def all_caused_def)
  qed
  then show "g_parents k = g_parents g" "g_program k = g_program g" "g_lineage_enabled k = g_lineage_enabled g"
    "uses_ok k" "g_uses k = g_uses g" "length (ln_events (g_lineage g)) \<le> length (ln_events (g_lineage k))"
    "set (g_pending_unions g) \<subseteq> set (g_pending_unions k)"
    "causes_below (k\<lparr>g_parents := (g_parents g)(max a b \<mapsto> min a b)\<rparr>)"
    "g_lineage_enabled k \<Longrightarrow> validate_lineage (g_lineage k) ((g_parents g)(max a b \<mapsto> min a b)) \<and>
      all_caused (g_lineage k) ((g_parents g)(max a b \<mapsto> min a b))"
    by blast+
qed

definition linked :: "parents \<Rightarrow> u64 \<Rightarrow> u64 \<Rightarrow> parents" where
  "linked p a b =
     (if root p a = root p b then p else p(max (root p a) (root p b) \<mapsto> min (root p a) (root p b)))"

lemma linked_facts:
  assumes "decreasing p"
  shows "decreasing (linked p a b)" "coarser p (linked p a b)"
    "root (linked p a b) x =
      (if root p x = root p a \<or> root p x = root p b then min (root p a) (root p b) else root p x)"
proof -
  let ?a = "root p a" and ?b = "root p b"
  have r: "p ?a = None" "p ?b = None" by (simp_all add: root_is_root assms)
  have "?a \<noteq> ?b \<Longrightarrow> min ?a ?b < max ?a ?b" "p (max ?a ?b) = None" "p (min ?a ?b) = None"
    using r by (auto simp: min_def max_def)
  note l = this
  show "decreasing (linked p a b)" "coarser p (linked p a b)"
    using decreasing_link [OF assms l(1)] coarser_link [OF assms l(2,3,1)] assms
    by (simp_all add: linked_def coarser_refl)
  show "root (linked p a b) x =
      (if root p x = ?a \<or> root p x = ?b then min ?a ?b else root p x)"
    using root_link [OF assms l(2,3,1), of x] by (auto simp: linked_def min_def max_def)
qed

text \<open>The effect of one union.\<close>

definition unioned :: "u64 \<Rightarrow> u64 \<Rightarrow> graph \<Rightarrow> graph \<Rightarrow> bool" where
  "unioned a b g h \<longleftrightarrow> g_parents h = linked (g_parents g) a b \<and> uses_ok h \<and> lineage_ok h \<and> causes_below h \<and>
     g_lineage_enabled h = g_lineage_enabled g \<and> g_program h = g_program g \<and>
     length (ln_events (g_lineage g)) \<le> length (ln_events (g_lineage h)) \<and>
     set (g_pending_unions g) \<subseteq> set (g_pending_unions h)"

definition displaced :: "parents \<Rightarrow> u64 \<Rightarrow> u64 \<Rightarrow> u64" where
  "displaced p a b = max (root p a) (root p b)"

lemma union_ids_spec:
  assumes ok: "classes_ok g"
    and cause: "g_lineage_enabled g \<Longrightarrow> cause_below (length (ln_events (g_lineage g))) cause"
  shows "ensures (\<lambda>h. unioned a b g h \<and> (\<not> same_class g a b \<longrightarrow> finite (uses_of g (displaced (g_parents g) a b)) \<longrightarrow>
    (\<forall>d \<in> uses_of g (displaced (g_parents g) a b). is_dirty h d))) (union_ids a b cause g)"
proof (rule ensuresI)
  fix h assume run: "union_ids a b cause g = Inr h"
  let ?p = "g_parents g" and ?G = "length (ln_events (g_lineage g))"
  let ?a = "root ?p a" and ?b = "root ?p b"
  show "unioned a b g h \<and> (\<not> same_class g a b \<longrightarrow> finite (uses_of g (displaced ?p a b)) \<longrightarrow>
    (\<forall>d \<in> uses_of g (displaced ?p a b). is_dirty h d))"
  proof (cases "?a = ?b")
    case True
    with run ok show ?thesis
      by (simp add: union_ids_def Let_def unioned_def linked_def classes_ok_def same_class_def)
  next
    case False
    have dec: "decreasing ?p" and u: "uses_ok g" using ok by (simp_all add: classes_ok_def)
    have r: "?p ?a = None" "?p ?b = None" by (simp_all add: root_is_root dec)
    have l: "?p (max ?a ?b) = None" "?p (min ?a ?b) = None" "min ?a ?b < max ?a ?b"
      using r False by (auto simp: min_def max_def)
    have lk: "linked ?p a b = ?p(max ?a ?b \<mapsto> min ?a ?b)" by (simp add: linked_def False)
    from run False obtain k where
      k: "(if g_lineage_enabled g then record_lineage (a, b) ?a ?b cause g else Inr g) = Inr k"
      and h: "union_roots (min ?a ?b) (max ?a ?b) k = Inr h"
      by (auto simp: union_ids_def Let_def rbind_eq_Inr)
    note base = union_recorded [OF k ok r False cause]
    from base(1) l have l': "g_parents k (max ?a ?b) = None" "g_parents k (min ?a ?b) = None" by simp_all
    from base(1) dec have dec': "decreasing (g_parents k)" by simp
    from ensuresD [OF union_roots_spec [OF dec' l' l(3) base(4)] h] base
    have "unioned a b g h" "finite (uses_of g (max ?a ?b)) \<longrightarrow> (\<forall>d \<in> uses_of g (max ?a ?b). is_dirty h d)"
      by (auto simp: unioned_def lk lineage_ok_def uses_of_def)
    then show ?thesis by (simp add: displaced_def)
  qed
qed

lemma unioned_ok: "classes_ok g \<Longrightarrow> unioned a b g h \<Longrightarrow> classes_ok h"
  by (simp add: classes_ok_def unioned_def linked_facts)

lemma unioned_same_class: "classes_ok g \<Longrightarrow> unioned a b g h \<Longrightarrow> same_class h a b"
  by (simp add: classes_ok_def unioned_def same_class_def linked_facts)

lemma unioned_advances:
  assumes ok: "classes_ok g" and u: "unioned a b g h"
  shows "advances g h"
  using unioned_ok [OF ok u] u ok linked_facts(2) [of "g_parents g" a b]
  by (auto simp: advances_def unioned_def classes_ok_def)

lemma union_advances:
  assumes "classes_ok g" "union_ids a b cause g = Inr h"
    and "g_lineage_enabled g \<Longrightarrow> cause_below (length (ln_events (g_lineage g))) cause"
  shows "advances g h \<and> same_class h a b"
  using ensuresD [OF union_ids_spec [OF assms(1,3)] assms(2)] unioned_advances [OF assms(1)]
    unioned_same_class [OF assms(1)] by blast

section \<open>Batches\<close>

text \<open>A link of a batch, and the marking at its end.\<close>

lemma batch_link_advances:
  assumes ok: "classes_ok g" "\<not> g_lineage_enabled g" and st: "batch_link (a, b) (g, A) = (h, B)"
  shows "advances g h \<and> same_class h a b \<and> A \<subseteq> B \<and> \<not> g_lineage_enabled h"
proof (cases "same_class g a b")
  case True
  with ok st show ?thesis by (auto simp: batch_link_def same_class_def intro: advances_refl)
next
  case False
  let ?p = "g_parents g" let ?a = "root ?p a" and ?b = "root ?p b"
  have dec: "decreasing ?p" and u: "uses_ok g" using ok by (simp_all add: classes_ok_def)
  have ne: "?a \<noteq> ?b" using False by (simp add: same_class_def)
  have r: "?p ?a = None" "?p ?b = None" by (simp_all add: root_is_root dec)
  have l: "?p (max ?a ?b) = None" "?p (min ?a ?b) = None" "min ?a ?b < max ?a ?b"
    using r ne by (auto simp: min_def max_def)
  have h: "h = g\<lparr>g_parents := ?p(max ?a ?b \<mapsto> min ?a ?b),
      g_uses := (g_uses g)(max ?a ?b := None, min ?a ?b \<mapsto> uses_of g (min ?a ?b) \<union> uses_of g (max ?a ?b)),
      g_unions := g_unions g + 1, g_changed := True\<rparr>" and B: "A \<subseteq> B"
    using st ne by (auto simp: batch_link_def Let_def)
  have "\<forall>d ids x. g_dependencies g d = Some ids \<longrightarrow> x \<in> ids \<longrightarrow>
      d \<in> uses_of h (root (?p(max ?a ?b \<mapsto> min ?a ?b)) x)"
    by (rule uses_ok_link [OF dec l, where u = "uses_of g"])
      (use u l(3) in \<open>auto simp: uses_ok_def h uses_of_def\<close>)
  then have "uses_ok h" by (simp add: uses_ok_def h)
  moreover have "causes_below h" "lineage_ok h" using ok(2) by (simp_all add: causes_below_def lineage_ok_def h)
  ultimately have "unioned a b g h" using ne ok(2) by (simp add: unioned_def linked_def h)
  then show ?thesis
    using unioned_advances [OF ok(1)] unioned_same_class [OF ok(1)] B ok(2) by (simp add: unioned_def)
qed

lemma batch_links_advance:
  "classes_ok g \<Longrightarrow> \<not> g_lineage_enabled g \<Longrightarrow> fold batch_link pairs (g, A) = (h, B) \<Longrightarrow>
   advances g h \<and> (\<forall>(a, b) \<in> set pairs. same_class h a b)"
proof (induction pairs arbitrary: g A)
  case Nil
  then show ?case by (auto intro: advances_refl)
next
  case (Cons ab pairs)
  obtain a b where ab: "ab = (a, b)" by (cases ab)
  obtain k C where k: "batch_link (a, b) (g, A) = (k, C)" by (cases "batch_link (a, b) (g, A)")
  note one = batch_link_advances [OF Cons.prems(1,2) k]
  from Cons.prems(3) k ab have "fold batch_link pairs (k, C) = (h, B)" by simp
  with Cons.IH [of k C] one advances_ok [of g k]
  have rest: "advances k h \<and> (\<forall>(a, b) \<in> set pairs. same_class h a b)" by blast
  with one have "same_class h a b" by (auto simp: advances_def intro: same_class_coarser)
  with rest one show ?case by (auto simp: ab intro: advances_trans)
qed

lemma union_list_advances:
  "classes_ok g \<Longrightarrow> rfold (\<lambda>(a, b). union_ids a b LocalCongruence) pairs g = Inr h \<Longrightarrow>
   advances g h \<and> (\<forall>(a, b) \<in> set pairs. same_class h a b)"
proof (induction pairs arbitrary: g)
  case Nil
  then show ?case by (simp add: advances_refl)
next
  case (Cons ab pairs)
  then obtain a b k where ab: "ab = (a, b)" and k: "union_ids a b LocalCongruence g = Inr k"
    and rest: "rfold (\<lambda>(a, b). union_ids a b LocalCongruence) pairs k = Inr h"
    by (cases ab) (auto simp: rbind_eq_Inr)
  from union_advances [OF Cons.prems(1) k] have one: "advances g k \<and> same_class k a b"
    by (simp add: cause_below_def)
  with Cons.IH [OF _ rest] advances_ok [of g k]
  have r: "advances k h \<and> (\<forall>(a, b) \<in> set pairs. same_class h a b)" by blast
  with one have "same_class h a b" by (auto simp: advances_def intro: same_class_coarser)
  with r one show ?case by (auto simp: ab intro: advances_trans)
qed

lemma local_batch_advances:
  assumes ok: "classes_ok g" and run: "union_local_batch pairs g = Inr h"
  shows "advances g h \<and> (\<forall>(a, b) \<in> set pairs. same_class h a b)"
proof (cases "g_lineage_enabled g")
  case True
  with run union_list_advances [OF ok] show ?thesis by (simp add: union_local_batch_def)
next
  case False
  obtain k A where k: "fold batch_link pairs (g, {}) = (k, A)" by (cases "fold batch_link pairs (g, {})")
  with run False have m: "mark_affected A k = Inr h" by (simp add: union_local_batch_def)
  note links = batch_links_advance [OF ok False k]
  then have "advances k h" using ensuresD [OF keeping_advances [OF _ kept_mark_affected] m] advances_ok [of g k] by blast
  moreover from this have "\<forall>(a, b) \<in> set pairs. same_class h a b"
    using links same_class_coarser [of k _ _ h] by (fastforce simp: advances_def)
  ultimately show ?thesis using links advances_trans by blast
qed

end
