(* ===== verification/GraphSettle.thy ===== *)
theory GraphSettle
  imports GraphInvariant
begin

text \<open>
  The repair loop and garbage collection as wholes. Repair keeps \<open>classes_ok\<close>, leaves no work behind
  and has performed every queued union; its result does not depend on the fuel. Garbage collection
  terminates.
\<close>

section \<open>Steps of the repair loop\<close>

lemma union_pending_advances:
  "classes_ok g \<Longrightarrow> (g_lineage_enabled g \<Longrightarrow> \<forall>c \<in> set causes. cause_below (length (ln_events (g_lineage g))) c) \<Longrightarrow>
   union_pending pairs causes g = Inr h \<Longrightarrow> advances g h \<and> (\<forall>(a, b) \<in> set pairs. same_class h a b)"
proof (induction pairs causes g rule: union_pending.induct)
  case (1 causes g)
  then show ?case by (auto intro: advances_refl)
next
  case (2 a b pairs causes g)
  let ?c = "case causes of [] \<Rightarrow> External | c # _ \<Rightarrow> c"
  from 2(4) obtain k where k: "union_ids a b ?c g = Inr k"
    and rest: "union_pending pairs (drop 1 causes) k = Inr h" by (auto simp: rbind_eq_Inr)
  have c: "g_lineage_enabled g \<Longrightarrow> cause_below (length (ln_events (g_lineage g))) ?c"
    using 2(3) by (auto simp: cause_below_def [of _ External] split: list.split)
  from union_advances [OF 2(2) k c] have one: "advances g k" "same_class k a b" by auto
  have "\<forall>c \<in> set (drop 1 causes). cause_below (length (ln_events (g_lineage k))) c" if "g_lineage_enabled k"
    using 2(3) that one(1) cause_below_mono by (auto simp: advances_def dest!: in_set_dropD)
  from "2.IH" [OF k advances_ok [OF one(1)] this rest]
  have r: "advances k h" "\<forall>(a, b) \<in> set pairs. same_class h a b" by auto
  from one r(1) have "same_class h a b" by (auto simp: advances_def intro: same_class_coarser)
  with r one show ?case by (auto intro: advances_trans)
qed

lemma local_congruence_advances:
  assumes ok: "classes_ok g"
  shows "ensures (advances g) (repair_local_congruence cell g)"
proof -
  have co: "ensures (advances g) (rfold (coalesce cell dups) ops k)" if "advances g k" for dups ops k
  proof -
    have "keeping (rfold (coalesce cell dups) ops k) k" by (rule keep_rfold, rule keeps)
    from keeping_advances [OF advances_ok [OF that] this] that show ?thesis
      by (auto simp: ensures_def intro: advances_trans)
  qed
  have un: "advances g k" if "(if pairs \<noteq> [] then union_local_batch pairs g else Inr g) = Inr k" for pairs k
    using that local_batch_advances [OF ok] advances_refl [OF ok] by (auto split: if_splits)
  show ?thesis
    unfolding repair_local_congruence_def
    by (auto split: option.split intro!: ensures_bind advances_refl ok dest!: un intro: co)
qed

lemma pop_dirty_kept: "pop_dirty g = Some (k, d) \<Longrightarrow> kept g k"
  by (auto simp: pop_dirty_def Let_def split: if_splits)

lemma pop_dirty_None: "pop_dirty g = None \<longleftrightarrow> g_dirty g = {} \<and> g_dirty_markers g = {}"
  by (auto simp: pop_dirty_def Let_def)

definition quiet :: "graph \<Rightarrow> bool" where
  "quiet g \<longleftrightarrow> g_pending_unions g = [] \<and> g_congruence_dirty g = {} \<and> g_dirty g = {} \<and> g_dirty_markers g = {}"

lemma repair_step_ends: "repair_step g = Inr None \<longleftrightarrow> quiet g"
  using pop_dirty_None [of g]
  by (auto simp: repair_step_def quiet_def rmap_def rbind_eq_Inr Let_def split: option.splits)

lemma repair_step_advances:
  assumes ok: "classes_ok g" and step: "repair_step g = Inr (Some h)"
  shows "advances g h"
proof (cases "g_pending_unions g = []")
  case False
  let ?g = "g\<lparr>g_pending_unions := [], g_pending_causes := []\<rparr>"
  from step False have run: "union_pending (g_pending_unions g) (g_pending_causes g) ?g = Inr h"
    by (simp add: repair_step_def rmap_def rbind_eq_Inr)
  have "classes_ok ?g" using ok by (simp add: classes_ok_def lineage_ok_def causes_below_def)
  moreover have "\<forall>c \<in> set (g_pending_causes g). cause_below (length (ln_events (g_lineage ?g))) c"
    if "g_lineage_enabled ?g"
    using ok that by (simp add: classes_ok_def lineage_ok_def causes_below_def validate_causes_ok)
  ultimately have "advances ?g h" "\<forall>(a, b) \<in> set (g_pending_unions g). same_class h a b"
    using union_pending_advances [OF _ _ run] by auto
  then show ?thesis by (auto simp: advances_def)
next
  case True
  note empty = True
  show ?thesis
  proof (cases "g_congruence_dirty g = {}")
    case False
    let ?c = "Min (g_congruence_dirty g)"
    let ?g = "g\<lparr>g_congruence_dirty := g_congruence_dirty g - {?c}\<rparr>"
    from step empty False have run: "repair_local_congruence ?c ?g = Inr h"
      by (simp add: repair_step_def rmap_def rbind_eq_Inr Let_def)
    have k: "advances g ?g" by (rule kept_advances [OF ok]) simp
    from ensuresD [OF local_congruence_advances [OF advances_ok [OF k]] run] k show ?thesis
      by (blast intro: advances_trans)
  next
    case True
    with step empty obtain k d where k: "pop_dirty g = Some (k, d)" and run: "repair_dependency d k = Inr h"
      by (auto simp: repair_step_def rmap_def rbind_eq_Inr split: option.splits)
    have a: "advances g k" by (rule kept_advances [OF ok pop_dirty_kept [OF k]])
    from ensuresD [OF keeping_advances [OF advances_ok [OF a] kept_repair_dependency] run] a show ?thesis
      by (blast intro: advances_trans)
  qed
qed

lemma repair_loop_settles:
  "classes_ok g \<Longrightarrow> repair_loop n g = Inr h \<Longrightarrow> advances g h \<and> quiet h"
proof (induction n arbitrary: g)
  case (Suc n)
  from Suc.prems(2) obtain r where r: "repair_step g = Inr r"
    and rest: "(case r of None \<Rightarrow> Inr g | Some k \<Rightarrow> repair_loop n k) = Inr h" by (auto simp: rbind_eq_Inr)
  show ?case
  proof (cases r)
    case None
    with r rest Suc.prems(1) show ?thesis by (simp add: repair_step_ends advances_refl)
  next
    case (Some k)
    with r have a: "advances g k" using repair_step_advances [OF Suc.prems(1)] by simp
    with Suc.IH [of k] rest Some advances_ok [OF a] have "advances k h" "quiet h" by simp_all
    with a show ?thesis by (blast intro: advances_trans)
  qed
qed simp

lemma repair_loop_more: "repair_loop n g \<noteq> Inl Diverge \<Longrightarrow> repair_loop (n + k) g = repair_loop n g"
proof (induction n arbitrary: g)
  case (Suc n)
  show ?case
  proof (cases "repair_step g")
    case (Inr r)
    with Suc show ?thesis by (cases r) simp_all
  qed simp
qed simp

section \<open>Garbage collection\<close>

text \<open>A step either finds the Cell in use or removes it; then its owners become candidates.\<close>

definition released :: "graph \<Rightarrow> graph \<Rightarrow> bool" where
  "released g h \<longleftrightarrow> g_cells h = g_cells g \<and> (finite (g_garbage g) \<longrightarrow> finite (g_garbage h))"

lemma released_trans: "released g h \<Longrightarrow> released h k \<Longrightarrow> released g k"
  by (simp add: released_def)

lemma release_released: "ensures (released g) (release_reference f g)"
  by (auto simp: release_reference_def released_def Let_def intro!: ensures_bind)

lemma release_no_diverge: "release_reference f g \<noteq> Inl Diverge"
  by (auto simp: release_reference_def drop_one_def Let_def rbind_eq_Inl split: option.splits if_splits)

lemma release_list:
  "rfold (\<lambda>atom g. case m atom of None \<Rightarrow> Inr g | Some f \<Rightarrow> release_reference f g) xs g \<noteq> Inl Diverge \<and>
   ensures (released g) (rfold (\<lambda>atom g. case m atom of None \<Rightarrow> Inr g | Some f \<Rightarrow> release_reference f g) xs g)"
proof (induction xs arbitrary: g)
  case (Cons x xs)
  have "rbind (release_reference f g) k \<noteq> Inl Diverge \<and> ensures (released g) (rbind (release_reference f g) k)"
    if "\<And>h. k h \<noteq> Inl Diverge \<and> ensures (released h) (k h)" for f k
    using that release_no_diverge [of f g] release_released [of g f]
    by (cases "release_reference f g") (auto simp: ensures_def intro: released_trans)
  with Cons.IH show ?case by (simp split: option.split)
qed (simp add: released_def)

lemma retire_empty_shrinks:
  "retire_empty cell g \<noteq> Inl Diverge \<and>
   ensures (\<lambda>h. h = g \<or> cell \<in> dom (g_cells g) \<and> g_cells h = (g_cells g)(cell := None) \<and>
     (finite (g_garbage g) \<longrightarrow> finite (g_garbage h))) (retire_empty cell g)"
proof (cases "g_cells g cell")
  case None
  then show ?thesis by (simp add: retire_empty_def)
next
  case (Some c)
  let ?g = "g\<lparr>g_cells := (g_cells g)(cell := None)\<rparr>"
  let ?rel = "\<lambda>h. rfold (\<lambda>atom g. case c_providers c atom of None \<Rightarrow> Inr g | Some f \<Rightarrow> release_reference f g)
      [0..<provider_bound g c] h"
  let ?first = "case c_parent c of None \<Rightarrow> Inr ?g | Some f \<Rightarrow> release_reference f ?g"
  let ?last = "\<lambda>k. Inr (k\<lparr>g_parent_users := (g_parent_users k)(cell := None)\<rparr>)"
  have first: "?first \<noteq> Inl Diverge" "ensures (released ?g) ?first"
    using release_no_diverge release_released by (auto simp: released_def split: option.split)
  have "rbind ?first (\<lambda>k. rbind (?rel k) ?last) \<noteq> Inl Diverge \<and>
      ensures (\<lambda>h. g_cells h = g_cells ?g \<and> (finite (g_garbage g) \<longrightarrow> finite (g_garbage h)))
        (rbind ?first (\<lambda>k. rbind (?rel k) ?last))"
  proof (cases ?first)
    case (Inr k)
    with first have "released ?g k" by (simp add: ensures_def)
    with release_list [of "c_providers c" "[0..<provider_bound g c]" k] Inr show ?thesis
      by (cases "?rel k") (auto simp: released_def ensures_def)
  qed (use first in auto)
  with Some show ?thesis
    by (simp add: retire_empty_def) (auto simp: ensures_def)
qed

lemma collect_more: "collect_garbage n g \<noteq> Inl Diverge \<Longrightarrow> n \<le> m \<Longrightarrow> collect_garbage m g = collect_garbage n g"
proof (induction n arbitrary: g m)
  case (Suc n)
  then obtain m' where m: "m = Suc m'" "n \<le> m'" by (cases m) auto
  show ?case
  proof (cases "g_garbage g = {}")
    case False
    with Suc.prems have "rbind (retire_empty (Min (g_garbage g)) (g\<lparr>g_garbage := g_garbage g - {Min (g_garbage g)}\<rparr>))
        (collect_garbage n) \<noteq> Inl Diverge" by (simp add: Let_def)
    with False m Suc.IH [OF _ m(2)] show ?thesis
      by (cases "retire_empty (Min (g_garbage g)) (g\<lparr>g_garbage := g_garbage g - {Min (g_garbage g)}\<rparr>)")
        (simp_all add: Let_def)
  qed (simp add: m)
qed simp

lemma collect_returns:
  "finite (dom (g_cells g)) \<Longrightarrow> finite (g_garbage g) \<Longrightarrow> \<exists>n. collect_garbage n g \<noteq> Inl Diverge"
proof (induction "(card (dom (g_cells g)), card (g_garbage g))" arbitrary: g
    rule: wf_induct_rule [OF wf_lex_prod [OF wf_less_than wf_less_than]])
  case (1 g)
  show ?case
  proof (cases "g_garbage g = {}")
    case True
    then have "collect_garbage 1 g \<noteq> Inl Diverge" by simp
    then show ?thesis by blast
  next
    case False
    let ?c = "Min (g_garbage g)"
    let ?g = "g\<lparr>g_garbage := g_garbage g - {?c}\<rparr>"
    have c: "?c \<in> g_garbage g" using False "1.prems" by simp
    have step: "collect_garbage (Suc n) g = rbind (retire_empty ?c ?g) (collect_garbage n)" for n
      using False by (simp add: Let_def)
    show ?thesis
    proof (cases "retire_empty ?c ?g")
      case (Inl e)
      with retire_empty_shrinks [of ?c ?g] step [of 0] show ?thesis by (metis rbind_Inl)
    next
      case (Inr h)
      with retire_empty_shrinks [of ?c ?g] "1.prems"
      have "h = ?g \<or> ?c \<in> dom (g_cells g) \<and> g_cells h = (g_cells g)(?c := None) \<and> finite (g_garbage h)"
        by (auto simp: ensures_def)
      then have "((card (dom (g_cells h)), card (g_garbage h)), card (dom (g_cells g)), card (g_garbage g))
          \<in> less_than <*lex*> less_than \<and> finite (dom (g_cells h)) \<and> finite (g_garbage h)"
      proof
        assume "h = ?g"
        then show ?thesis using "1.prems" card_Diff1_less [OF "1.prems"(2) c] by simp
      next
        assume h: "?c \<in> dom (g_cells g) \<and> g_cells h = (g_cells g)(?c := None) \<and> finite (g_garbage h)"
        then have "card (dom (g_cells h)) < card (dom (g_cells g))"
          using card_Diff1_less [OF "1.prems"(1) conjunct1 [OF h]] by (simp only: dom_fun_upd if_True refl)
        with h "1.prems" show ?thesis by simp
      qed
      then have "((card (dom (g_cells h)), card (g_garbage h)), card (dom (g_cells g)), card (g_garbage g))
          \<in> less_than <*lex*> less_than" and fin: "finite (dom (g_cells h))" "finite (g_garbage h)"
        by blast+
      with "1.hyps" [OF _ fin] obtain n where "collect_garbage n h \<noteq> Inl Diverge" by blast
      with step [of n] Inr show ?thesis by (metis rbind_Inr)
    qed
  qed
qed

lemma collect_empties: "collect_garbage n g = Inr h \<Longrightarrow> g_garbage h = {}"
  by (induction n arbitrary: g) (auto simp: Let_def rbind_eq_Inr split: if_splits)

end
