(* ===== verification/GraphNew.thy ===== *)
theory GraphNew
  imports GraphSettle Demo
begin

text \<open>
  A new graph, \<open>Graph::new_with_reference_views\<close> of \<open>engine/cell-runtime/src/graph.rs\<close>: the empty
  state under the environment variables, then the initial rows of the artifact, then a repair.
  \<open>env\<close> reads an environment variable; \<open>wire\<close> is \<open>serde\<close>'s reading of a document as a \<open>WireKey\<close>.
\<close>

section \<open>Importing values\<close>

text \<open>\<open>str::parse::<i64>\<close>\<close>

definition digit_value :: "char \<Rightarrow> int option" where
  "digit_value c = (let n = (of_char c :: int) in if 48 \<le> n \<and> n \<le> 57 then Some (n - 48) else None)"

fun digits_value :: "int \<Rightarrow> string \<Rightarrow> int option" where
  "digits_value acc [] = Some acc"
| "digits_value acc (c # cs) =
     (case digit_value c of None \<Rightarrow> None | Some d \<Rightarrow> digits_value (10 * acc + d) cs)"

definition digits :: "string \<Rightarrow> int option" where
  "digits cs = (if cs = [] then None else digits_value 0 cs)"

definition parse_i64 :: "string \<Rightarrow> i64 option" where
  "parse_i64 s =
     (case (case s of
              [] \<Rightarrow> None
            | c # cs \<Rightarrow>
                if c = CHR ''-'' then map_option uminus (digits cs)
                else if c = CHR ''+'' then digits cs else digits s) of
        None \<Rightarrow> None | Some n \<Rightarrow> if in_i64 n then Some n else None)"

text \<open>The identities given so far, in the order of their keys.\<close>

type_synonym idents = "((string \<times> string) \<times> u64) list"

definition intern_ident :: "string \<times> string \<Rightarrow> idents \<Rightarrow> idents \<times> u64" where
  "intern_ident k ids =
     (case map_of ids k of
        Some x \<Rightarrow> (ids, x)
      | None \<Rightarrow> let x = of_nat (length ids + 1) in (insort_key fst (k, x) ids, x))"

definition import_scalar :: "json \<Rightarrow> val res" where
  "import_scalar j =
     rbind (j_string (jfield j ''sort'')) (\<lambda>sort.
     let v = jfield j ''value'' in
     if sort = ''String'' then rmap VText (j_string v)
     else if sort = ''f64'' then rmap VFloat (ok_or (as_i64 v) (Err ''f64 bits''))
     else rmap VInt (ok_or (case as_i64 v of
            Some n \<Rightarrow> Some n | None \<Rightarrow> Option.bind (as_str v) parse_i64) (Err ''initial scalar'')))"

definition import_key :: "(json \<Rightarrow> wire_key option) \<Rightarrow> json \<Rightarrow> val res" where
  "import_key wire j =
     rmap VKey (ok_or (Option.bind (wire (jfield j ''key'')) wire_tree) (Err ''key''))"

function import_value :: "(json \<Rightarrow> wire_key option) \<Rightarrow> json \<Rightarrow> idents \<Rightarrow> (idents \<times> val) res" where
  "import_value wire j ids =
     (if jget j ''key'' \<noteq> None then rmap (\<lambda>v. (ids, v)) (import_key wire j)
      else case as_str (jfield j ''eq'') of
        Some eq \<Rightarrow>
          if int (length ids) + 1 \<ge> 2 ^ 32 then Inl (Err ''initial identity capacity'')
          else rbind (j_string (jfield j ''sort'')) (\<lambda>sort.
            let (ids', x) = intern_ident (sort, eq) ids in Inr (ids', VEq x))
      | None \<Rightarrow>
     (case as_array (jfield j ''elements'') of
        Some xs \<Rightarrow>
          rbind (smapM (import_value wire) xs ids) (\<lambda>(ids', vs). Inr (ids', VSet (sort_dedup vs)))
      | None \<Rightarrow> rmap (\<lambda>v. (ids, v)) (import_scalar j)))"
  by pat_completeness auto
termination
  by (relation "measure (\<lambda>(_, j, _). size j)") (auto dest: size_jfield_arr)

declare import_value.simps [simp del]

section \<open>The empty graph\<close>

definition env_is :: "(string \<Rightarrow> string option) \<Rightarrow> string \<Rightarrow> string \<Rightarrow> bool" where
  "env_is env name v \<longleftrightarrow> env name = Some v"

definition marker_mode :: "(string \<Rightarrow> string option) \<Rightarrow> bool res" where
  "marker_mode env =
     (case env ''CELL_CPU_MARKER_FIELDS'' of
        None \<Rightarrow> Inr True
      | Some s \<Rightarrow>
          if s = ''copy'' then Inr True else if s = ''reference'' then Inr False
          else Inl (Err ''CELL_CPU_MARKER_FIELDS must be copy or reference''))"

definition known_mode_of :: "(string \<Rightarrow> string option) \<Rightarrow> known_mode res" where
  "known_mode_of env =
     (case env ''CELL_CPU_KNOWN_RESULTS'' of
        None \<Rightarrow> Inr KOff
      | Some s \<Rightarrow>
          if s = ''on'' \<or> s = ''1'' then Inr KOn
          else if s = ''observe'' then Inr KObserve
          else if s = ''value'' then Inr KValue
          else if s = ''static'' then Inr KStatic
          else if s = ''off'' \<or> s = ''0'' then Inr KOff
          else Inl (Err ''unknown CELL_CPU_KNOWN_RESULTS mode''))"

text \<open>With reference views, the marker tables become virtual; an index out of range panics.\<close>

definition mark_virtual :: "nat set \<Rightarrow> table list \<Rightarrow> table list res" where
  "mark_virtual ms ts =
     (if \<forall>t \<in> ms. t < length ts
      then Inr (map (\<lambda>i. if i \<in> ms then (ts ! i)\<lparr>t_virtual := True\<rparr> else ts ! i) [0..<length ts])
      else Inl Panic)"

definition no_layouts :: "program \<Rightarrow> bool" where
  "no_layouts p \<longleftrightarrow> list_all (\<lambda>t. v_layouts (p_views p) t = None) [0..<length (p_templates p)]"

definition lineage_wanted :: "(string \<Rightarrow> string option) \<Rightarrow> bool" where
  "lineage_wanted env \<longleftrightarrow> env_is env ''CELL_CPU_UNION_GRAFT'' ''1'' \<or>
     env_is env ''CELL_CPU_UNION_TRACE'' ''1'' \<or> env_is env ''CELL_CPU_UNION_IMPACT'' ''1''"

definition empty_graph :: "host \<Rightarrow> (nat \<Rightarrow> val list \<Rightarrow> u64) \<Rightarrow> nat \<Rightarrow> (string \<Rightarrow> string option) \<Rightarrow> program
    \<Rightarrow> bool \<Rightarrow> bool \<Rightarrow> known_mode \<Rightarrow> graph" where
  "empty_graph host hashkey fuel env p vie copied known =
     (let n = length (p_tables p) in
      \<lparr>g_host = host, g_hashkey = hashkey, g_fuel = fuel, g_known_mode = known,
       g_merge_programs_enabled = (\<not> env_is env ''CELL_CPU_MERGE_PROGRAMS'' ''0''),
       g_program = p, g_views_enabled = vie, g_marker_fields_copied = copied,
       g_absorption_enabled = (vie \<and> \<not> env_is env ''CELL_CPU_ABSORB'' ''0''),
       g_fact_forwards = Map.empty, g_reference_users = Map.empty, g_absorption_candidates = {},
       g_cells = Map.empty, g_functions = [], g_parents = Map.empty, g_epoch = 0, g_changed = False,
       g_unions = 0, g_function_updates = 0, g_pending_unions = [], g_lineage_enabled = lineage_wanted env,
       g_lineage = no_lineage, g_active_cause = None, g_pending_causes = [], g_old_keys = Map.empty,
       g_union_roots = {}, g_events = [], g_anchors = [], g_next_cell = 1,
       g_query_versions = replicate n 0, g_query_changes = Map.empty, g_receipt_tracking = False,
       g_receipt_forwards = Map.empty,
       g_congruence_enabled = (env_is env ''CELL_CPU_CONGRUENCE'' ''1'' \<and> cc_reorder_safe (p_congruence p)),
       g_congruence_dirty = {}, g_operators = replicate n {}, g_function_operators = replicate n {},
       g_intern = Map.empty, g_function_keys = Map.empty, g_uses = Map.empty, g_dependencies = Map.empty,
       g_dirty = {}, g_dirty_markers = {}, g_dirty_facts = replicate n {},
       g_deletion_epochs = replicate n 0, g_parent_users = Map.empty, g_garbage = {},
       g_retired = Map.empty\<rparr>)"

section \<open>Initial rows\<close>

definition insert_initial :: "nat \<Rightarrow> val list \<Rightarrow> bool \<Rightarrow> graph \<Rightarrow> graph res" where
  "insert_initial table vals subsumed g =
     rbind (idx (g_tables g) table) (\<lambda>t.
     if length vals \<noteq> length (t_schema t) then Inl (Err ''initial arity'')
     else if vals = [] then Inl Panic
     else if t_virtual t then
       rbind (idx (p_table_templates (g_program g)) table) (\<lambda>template.
       rbind (frame template (\<lambda>i. get_at vals i) g) (\<lambda>(g1, cell).
       activate (cell, 0) table (butlast vals) (last vals) subsumed g1))
     else rbind (set_function_inner table (butlast vals) (last vals) g) (\<lambda>(g1, _). Inr g1))"

definition initial_row :: "(json \<Rightarrow> wire_key option) \<Rightarrow> json \<Rightarrow> graph \<times> idents \<Rightarrow> (graph \<times> idents) res" where
  "initial_row wire r st =
     (let (g, ids) = st in
      rbind (ok_or (find (\<lambda>i. jfield r ''table'' = JStr (t_name (g_tables g ! i))) [0..<length (g_tables g)])
        (Err ''unknown initial operator'')) (\<lambda>table.
      rbind (j_array (jfield r ''values'')) (\<lambda>vs.
      rbind (smapM (import_value wire) vs ids) (\<lambda>(ids', vals).
      rbind (insert_initial table vals (as_bool (jfield r ''subsumed'') = Some True) g) (\<lambda>g1.
      Inr (g1, ids'))))))"

definition anchors_of :: "idents \<Rightarrow> (string \<times> string \<times> u64) list" where
  "anchors_of ids = map (\<lambda>((sort, old), x). (sort, old, x)) ids"

definition graph_new :: "host \<Rightarrow> (nat \<Rightarrow> val list \<Rightarrow> u64) \<Rightarrow> nat \<Rightarrow> (json \<Rightarrow> wire_key option)
    \<Rightarrow> (string \<Rightarrow> string option) \<Rightarrow> nat \<Rightarrow> program \<Rightarrow> bool \<Rightarrow> graph res" where
  "graph_new host hashkey fuel wire env turns p0 enabled =
     (let vie = enabled \<and> \<not> no_layouts p0 in
      rbind (if vie then marker_mode env else Inr False) (\<lambda>copied.
      rbind (if vie then mark_virtual (v_markers (p_views p0)) (p_tables p0) else Inr (p_tables p0)) (\<lambda>ts.
      rbind (known_mode_of env) (\<lambda>known.
      rbind (rfold (initial_row wire) (p_initial p0)
        (empty_graph host hashkey fuel env (p0\<lparr>p_tables := ts\<rparr>) vie copied known, [])) (\<lambda>(g, ids).
      rbind (repair turns (g\<lparr>g_anchors := anchors_of ids\<rparr>)) (\<lambda>g1.
      Inr (g1\<lparr>g_changed := False\<rparr>)))))))"

end
