(* ===== verification/GraphProps.thy ===== *)
theory GraphProps
  imports GraphNew
begin

text \<open>
  The properties of the graph: what one union does to the classes and to the facts that mention
  them, that repair settles, that its result does not depend on the fuel, that a new graph satisfies
  the invariant (what it holds is in \<open>InitialRows\<close>), and that every read is canonical. The witnesses run on a graph of one constructor.
\<close>

section \<open>A union returns\<close>

text \<open>The cells name templates of the program and the positions name tables of the index.\<close>

definition positions_ok :: "graph \<Rightarrow> bool" where
  "positions_ok g \<longleftrightarrow> (\<forall>i c. g_cells g i = Some c \<longrightarrow> c_template c < length (g_templates g)) \<and>
     (\<forall>d t. dependency_table g d = Inr (Some t) \<longrightarrow> t < length (g_dirty_facts g))"

lemma dependency_table_total: "positions_ok g \<Longrightarrow> \<exists>t. dependency_table g d = Inr t"
  by (auto simp: positions_ok_def dependency_table_def position_table_def carrier_at_def
      split: dependency.split option.split)

lemma dependency_table_cong:
  assumes "g_program h = g_program g" "g_functions h = g_functions g"
    and "\<And>i. map_option c_template (g_cells h i) = map_option c_template (g_cells g i)"
  shows "dependency_table h d = dependency_table g d"
proof (cases d)
  case (DFact f)
  then show ?thesis
    using assms(3) [of "fst f"] assms(1)
    by (cases "g_cells g (fst f)"; cases "g_cells h (fst f)")
      (auto simp: dependency_table_def position_table_def carrier_at_def)
qed (simp add: dependency_table_def assms)

definition same_positions :: "graph \<Rightarrow> graph \<Rightarrow> bool" where
  "same_positions g h \<longleftrightarrow> g_program h = g_program g \<and> g_functions h = g_functions g \<and>
     length (g_dirty_facts h) = length (g_dirty_facts g) \<and>
     (\<forall>i. map_option c_template (g_cells h i) = map_option c_template (g_cells g i))"

lemma positions_ok_same: "positions_ok g \<Longrightarrow> same_positions g h \<Longrightarrow> positions_ok h"
proof -
  assume ok: "positions_ok g" and s: "same_positions g h"
  have t: "dependency_table h d = dependency_table g d" for d
    by (rule dependency_table_cong) (use s in \<open>simp_all add: same_positions_def\<close>)
  have "c_template c < length (g_templates h)" if c: "g_cells h i = Some c" for i c
  proof -
    from s have "map_option c_template (g_cells h i) = map_option c_template (g_cells g i)"
      by (simp only: same_positions_def)
    with c obtain z where z: "g_cells g i = Some z" "c_template z = c_template c"
      by (cases "g_cells g i") auto
    with ok have "c_template z < length (g_templates g)" unfolding positions_ok_def by blast
    with s z(2) show ?thesis by (simp add: same_positions_def)
  qed
  with ok s show "positions_ok h" by (simp add: positions_ok_def same_positions_def t)
qed

lemma same_positions_stale: "same_positions g h \<Longrightarrow> same_positions g (stale_marker f h)"
  by (auto simp: same_positions_def stale_marker_def split: option.split) (metis option.map(2))

lemma mark_one_total:
  assumes "positions_ok g"
  shows "\<exists>h. mark_one d g = Inr h \<and> same_positions g h"
proof -
  obtain tb where tb: "dependency_table g d = Inr tb" using dependency_table_total [OF assms] by blast
  show ?thesis
  proof (cases d)
    case (DFunction i)
    with tb show ?thesis by (simp add: mark_one_def same_positions_def)
  next
    case (DFact f)
    let ?g1 = "if is_marker_fact g tb then g\<lparr>g_dirty_markers := insert f (g_dirty_markers g)\<rparr>
      else g\<lparr>g_dirty := insert (DFact f) (g_dirty g)\<rparr>"
    let ?g2 = "stale_marker f ?g1"
    let ?g3 = "if congruence_affects ?g2 (fst f)
      then ?g2\<lparr>g_congruence_dirty := insert (fst f) (g_congruence_dirty ?g2)\<rparr> else ?g2"
    have "same_positions g ?g2" by (rule same_positions_stale) (simp add: same_positions_def)
    then have "same_positions g ?g3" by (simp add: same_positions_def)
    moreover have "mark_one d g = (case tb of None \<Rightarrow> Inr ?g3
        | Some t \<Rightarrow> rbind (add_to f t (g_dirty_facts ?g3)) (\<lambda>df. Inr (?g3\<lparr>g_dirty_facts := df\<rparr>)))"
      using DFact tb by (simp add: mark_one_def Let_def)
    ultimately obtain k where s: "same_positions g k"
      and run: "mark_one d g = (case tb of None \<Rightarrow> Inr k
        | Some t \<Rightarrow> rbind (add_to f t (g_dirty_facts k)) (\<lambda>df. Inr (k\<lparr>g_dirty_facts := df\<rparr>)))"
      by blast
    show ?thesis
    proof (cases tb)
      case (Some t)
      with tb assms s have "t < length (g_dirty_facts k)" by (simp add: positions_ok_def same_positions_def)
      with run s Some show ?thesis by (simp add: add_to_def same_positions_def)
    qed (use run s in simp)
  qed
qed

lemma same_positions_trans: "same_positions g h \<Longrightarrow> same_positions h k \<Longrightarrow> same_positions g k"
  by (simp add: same_positions_def)

lemma mark_list_total: "positions_ok g \<Longrightarrow> \<exists>h. rfold mark_one ds g = Inr h \<and> same_positions g h"
proof (induction ds arbitrary: g)
  case Nil
  then show ?case by (simp add: same_positions_def)
next
  case (Cons d ds)
  from mark_one_total [OF Cons.prems] obtain k where k: "mark_one d g = Inr k" "same_positions g k" by blast
  from Cons.IH [OF positions_ok_same [OF Cons.prems k(2)]] k show ?case
    by (auto intro: same_positions_trans)
qed

lemma union_total:
  assumes "positions_ok g" "\<not> g_lineage_enabled g"
  shows "\<exists>h. union_ids a b cause g = Inr h"
proof -
  have "positions_ok (g\<lparr>g_parents := p, g_uses := u\<rparr>)" for p u
    by (rule positions_ok_same [OF assms(1)]) (simp add: same_positions_def)
  note total = mark_list_total [OF this]
  have "\<exists>h. union_roots lo hi g = Inr h" for lo hi
    using total [of "sorted_list_of_set (uses_of g hi)" "(g_uses g)(hi := None)" "(g_parents g)(hi \<mapsto> lo)"]
    by (auto simp: union_roots_def mark_affected_def Let_def)
  with assms(2) show ?thesis by (simp add: union_ids_def Let_def)
qed

section \<open>A graph for the witnesses\<close>

text \<open>One constructor of one argument, and two functions over identity 5.\<close>

definition unary :: table where
  "unary = \<lparr>t_name = ''f'', t_schema = [eq_sort, eq_sort], t_constructor = True, t_virtual = True,
     t_merge = JNull, t_internal = False\<rparr>"

definition unary_program :: program where
  "unary_program = \<lparr>p_known_results = no_known, p_merge_programs = no_merges, p_views = no_views,
     p_congruence = no_congruence, p_tables = [unary], p_templates = [import_template 0 unary], p_rules = [],
     p_sets = Map.empty, p_control = [], p_initial = [], p_table_templates = [0], p_artifact = JNull\<rparr>"

definition unary_empty :: graph where
  "unary_empty = empty_graph demo_host (\<lambda>t k. 0) 8 (\<lambda>_. None) unary_program False False KOff"

text \<open>A function whose key mentions identity 5.\<close>

definition unary_graph :: graph where
  "unary_graph = unary_empty\<lparr>
     g_functions := [\<lparr>fn_table = 0, fn_key = [VEq 5], fn_value = VInt 0, fn_epoch = 0, fn_live = True, fn_origin = None\<rparr>],
     g_uses := [5 \<mapsto> {DFunction 0}], g_dependencies := [DFunction 0 \<mapsto> {5}]\<rparr>"

lemma empty_graph_ok: "classes_ok (empty_graph host hk fuel env p vie copied known)"
  by (simp add: classes_ok_def empty_graph_def Let_def lineage_ok_def no_lineage_def validate_lineage_ok
      all_caused_def causes_below_def uses_ok_def)

lemma unary_ok: "classes_ok unary_graph" "\<not> g_lineage_enabled unary_graph" "positions_ok unary_graph"
proof -
  show "\<not> g_lineage_enabled unary_graph"
    by (simp add: unary_graph_def unary_empty_def empty_graph_def Let_def lineage_wanted_def env_is_def)
  then show "classes_ok unary_graph"
    by (simp add: classes_ok_def lineage_ok_def causes_below_def uses_ok_def uses_of_def unary_graph_def
        unary_empty_def empty_graph_def Let_def)
  show "positions_ok unary_graph"
    by (auto simp: positions_ok_def unary_graph_def unary_empty_def empty_graph_def Let_def unary_program_def
        dependency_table_def split: dependency.splits)
qed

section \<open>Properties\<close>

text \<open>
  C4. A union that returns merges exactly the two classes: afterwards two identities are in one class
  when they were before, or when one was with the first argument and the other with the second. The
  invariant is kept: parents decrease, the lineage stays valid and the reverse index complete; and
  every fact that mentions the displaced root is marked for repair.
\<close>

theorem union_merges_classes:
  assumes ok: "classes_ok g" and run: "union_ids a b cause g = Inr h"
    and "g_lineage_enabled g \<longrightarrow> cause_below (length (ln_events (g_lineage g))) cause"
    and "finite (uses_of g (displaced (g_parents g) a b))"
  shows "classes_ok h \<and>
    (same_class h x y \<longleftrightarrow> same_class g x y \<or> same_class g x a \<and> same_class g y b \<or>
       same_class g x b \<and> same_class g y a) \<and>
    (\<not> same_class g a b \<longrightarrow> (\<forall>d \<in> uses_of g (displaced (g_parents g) a b). is_dirty h d))"
proof -
  have dec: "decreasing (g_parents g)" using ok by (simp add: classes_ok_def)
  have c: "g_lineage_enabled g \<Longrightarrow> cause_below (length (ln_events (g_lineage g))) cause" using assms(3) by simp
  from ensuresD [OF union_ids_spec [OF ok c] run] assms(4) have u: "unioned a b g h"
    and d: "\<not> same_class g a b \<longrightarrow> (\<forall>d \<in> uses_of g (displaced (g_parents g) a b). is_dirty h d)" by blast+
  have "root (g_parents h) z = (if root (g_parents g) z = root (g_parents g) a \<or> root (g_parents g) z = root (g_parents g) b
      then min (root (g_parents g) a) (root (g_parents g) b) else root (g_parents g) z)" for z
    using u by (simp add: unioned_def linked_facts(3) [OF dec])
  then have "same_class h x y \<longleftrightarrow> same_class g x y \<or> same_class g x a \<and> same_class g y b \<or>
       same_class g x b \<and> same_class g y a"
    by (auto simp: same_class_def min_def)
  with d unioned_ok [OF ok u] show ?thesis by blast
qed

lemma union_merges_classes_witness:
  "\<exists>h. union_ids 5 3 External unary_graph = Inr h \<and> same_class h 5 3 \<and> is_dirty h (DFunction 0)"
proof -
  have p: "g_parents unary_graph = Map.empty" by (simp add: unary_graph_def unary_empty_def empty_graph_def Let_def)
  obtain h where h: "union_ids 5 3 External unary_graph = Inr h"
    using union_total [OF unary_ok(3,2)] by blast
  have m: "displaced (g_parents unary_graph) 5 3 = 5" by (simp add: displaced_def p)
  have u: "uses_of unary_graph 5 = {DFunction 0}" by (simp add: uses_of_def unary_graph_def)
  have "\<not> same_class unary_graph 5 3" by (simp add: same_class_def p)
  with union_merges_classes [OF unary_ok(1) h, of 5 3] unary_ok(2) u m h show ?thesis
    by (auto simp: same_class_def)
qed

text \<open>
  Without a lineage to record, a union always returns when the cells and positions of the graph
  name templates and tables of the program; and a union of two identities of one class changes nothing.
\<close>

theorem union_returns:
  assumes "positions_ok g" "\<not> g_lineage_enabled g"
  shows "(\<exists>h. union_ids a b cause g = Inr h) \<and> (same_class g a b \<longrightarrow> union_ids a b cause g = Inr g)"
  using union_total [OF assms] by (simp add: same_class_def union_ids_def Let_def)

lemma union_returns_witness: "\<exists>h. union_ids 9 5 LocalCongruence unary_graph = Inr h"
  using union_returns [OF unary_ok(3,2)] by blast

text \<open>
  C5. Repair that returns leaves no work: no queued union, no marked fact, no local congruence to try.
  Every union that was queued has been performed, classes only grew, and the invariant of the classes,
  the lineage and the reverse index holds again.
\<close>

theorem repair_settles:
  assumes "classes_ok g" "repair n g = Inr h"
  shows "classes_ok h \<and> quiet h \<and> g_old_keys h = Map.empty \<and> coarser (g_parents g) (g_parents h) \<and>
    (\<forall>a b. (a, b) \<in> set (g_pending_unions g) \<longrightarrow> same_class h a b)"
proof -
  from assms(2) obtain k where k: "repair_loop n g = Inr k" and h: "h = k\<lparr>g_old_keys := Map.empty\<rparr>"
    by (auto simp: repair_def rbind_eq_Inr)
  from repair_loop_settles [OF assms(1) k] have "advances g k" "quiet k" by auto
  moreover from this have "advances g h"
    using kept_advances [of k h] advances_ok [of g k] advances_trans [of g k h] by (simp add: h)
  ultimately show ?thesis by (auto simp: advances_def quiet_def h same_class_def)
qed

lemma unary_empty_fields:
  "g_parents unary_empty = Map.empty" "g_uses unary_empty = Map.empty" "\<not> g_lineage_enabled unary_empty"
  "g_congruence_dirty unary_empty = {}" "g_dirty unary_empty = {}" "g_dirty_markers unary_empty = {}"
  by (simp_all add: unary_empty_def empty_graph_def Let_def lineage_wanted_def env_is_def)

lemma union_unused: "a \<noteq> b \<Longrightarrow> g_parents g a = None \<Longrightarrow> g_parents g b = None \<Longrightarrow> g_uses g = Map.empty \<Longrightarrow>
  \<not> g_lineage_enabled g \<Longrightarrow> union_ids a b c g = Inr (g\<lparr>g_parents := (g_parents g)(max a b \<mapsto> min a b),
    g_uses := [min a b \<mapsto> {}], g_unions := g_unions g + 1, g_changed := True\<rparr>)"
  by (simp add: union_ids_def union_roots_def uses_of_def mark_affected_def Let_def)

lemma repair_settles_witness: "\<exists>h. repair 2 (unary_empty\<lparr>g_pending_unions := [(5, 3)]\<rparr>) = Inr h \<and> quiet h \<and> same_class h 5 3"
proof -
  let ?g = "unary_empty\<lparr>g_pending_unions := [(5, 3)]\<rparr>"
  have ok: "classes_ok ?g"
    by (simp add: classes_ok_def lineage_ok_def causes_below_def uses_ok_def unary_empty_fields)
      (simp add: unary_empty_def empty_graph_def Let_def)
  have "\<exists>h. repair 2 ?g = Inr h"
    by (simp add: numeral_2_eq_2 repair_def repair_step_def rmap_def union_unused unary_empty_fields pop_dirty_def)
  then obtain h where h: "repair 2 ?g = Inr h" by blast
  with repair_settles [OF ok h] show ?thesis by auto
qed

text \<open>
  The result of a repair does not depend on the bound on its turns: when a bound suffices, every
  larger bound gives the same state or the same error.
\<close>

theorem repair_fuel_irrelevant:
  assumes "repair_loop n g \<noteq> Inl Diverge" "n \<le> m"
  shows "repair m g = repair n g"
  using repair_loop_more [OF assms(1), of "m - n"] assms(2) by (simp add: repair_def)

lemma repair_fuel_irrelevant_witness: "repair 100 unary_empty = repair 1 unary_empty"
proof -
  have "repair_loop 1 unary_empty \<noteq> Inl Diverge"
  proof -
    have "quiet unary_empty"
      by (simp add: quiet_def unary_empty_fields) (simp add: unary_empty_def empty_graph_def Let_def)
    then have "repair_step unary_empty = Inr None" by (simp add: repair_step_ends)
    then show ?thesis by simp
  qed
  from repair_fuel_irrelevant [OF this, of 100] show ?thesis by simp
qed

text \<open>
  C39. Garbage collection terminates: with finitely many Cells and candidates some bound on its turns
  suffices and every larger one gives the same result; when it succeeds, no candidate is left.
\<close>

theorem garbage_collection_terminates:
  assumes "finite (dom (g_cells g))" "finite (g_garbage g)"
  shows "\<exists>n. \<forall>m \<ge> n. collect_garbage m g \<noteq> Inl Diverge \<and> collect_garbage m g = collect_garbage n g \<and>
    (\<forall>h. collect_garbage m g = Inr h \<longrightarrow> g_garbage h = {})"
proof -
  from collect_returns [OF assms] obtain n where n: "collect_garbage n g \<noteq> Inl Diverge" by blast
  then show ?thesis using collect_more [OF n] collect_empties by metis
qed

definition unary_cell :: cell where
  "unary_cell = \<lparr>c_known_results = Map.empty, c_completed_prefix = 0, c_started_epoch = 0, c_completed = False,
     c_template = 0, c_parent = None, c_values = Map.empty, c_facts = Map.empty, c_recipe_depth = 0,
     c_providers = Map.empty\<rparr>"

lemma garbage_collection_terminates_witness:
  "\<exists>n h. collect_garbage n (unary_empty\<lparr>g_cells := [1 \<mapsto> unary_cell], g_garbage := {1, 4}\<rparr>) = Inr h \<and>
     g_cells h = Map.empty \<and> g_garbage h = {}"
proof -
  let ?g = "unary_empty\<lparr>g_cells := [1 \<mapsto> unary_cell], g_garbage := {1, 4}\<rparr>"
  have p: "g_program unary_empty = unary_program" "g_parent_users unary_empty = Map.empty"
    by (simp_all add: unary_empty_def empty_graph_def Let_def)
  have "collect_garbage 3 ?g = Inr (?g\<lparr>g_garbage := {}, g_cells := Map.empty, g_parent_users := Map.empty\<rparr>)"
    by (simp add: numeral_3_eq_3 retire_empty_def unary_cell_def users_def p provider_bound_def unary_program_def
        no_views_def insert_Diff_if list_all_iff)
  moreover from garbage_collection_terminates [of ?g] obtain n where
    "\<forall>m \<ge> n. collect_garbage m ?g \<noteq> Inl Diverge \<and> collect_garbage m ?g = collect_garbage n ?g" by auto
  ultimately show ?thesis by fastforce
qed

text \<open>
  C40. Every value read through a slot, an argument or a column is canonical for the current classes,
  whatever chain of parents, providers and copies it comes through.
\<close>

theorem reads_are_canonical:
  assumes "decreasing (g_parents g)"
  shows "(argument g cell a = Inr v \<longrightarrow> canon_in g v = v) \<and> (slot g cell i = Inr v \<longrightarrow> canon_in g v = v) \<and>
    (fact_column g f col = Inr v \<longrightarrow> canon_in g v = v)"
  using canonical_read [OF assms, of "g_fuel g"]
  by (auto simp: argument_def slot_def fact_column_def canonical_res_def)

lemma reads_are_canonical_witness:
  "argument (unary_empty\<lparr>g_parents := [5 \<mapsto> 3]\<rparr>) 1 (Literal (VEq 5)) = Inr (VEq 3) \<and>
   canon (VEq 3) [5 \<mapsto> 3] = VEq 3"
proof -
  let ?g = "unary_empty\<lparr>g_parents := [5 \<mapsto> 3]\<rparr>"
  have d: "decreasing (g_parents ?g)" by (simp add: decreasing_def)
  have "root [5 \<mapsto> 3] 5 = 3"
    using root_Some [of "[5 \<mapsto> 3]" 5 3] d by simp
  moreover have "g_fuel unary_empty = 8" by (simp add: unary_empty_def empty_graph_def Let_def)
  ultimately have "argument ?g 1 (Literal (VEq 5)) = Inr (VEq 3)"
    by (simp add: argument_def argument_step_def eval_nat_numeral)
  with reads_are_canonical [OF d, of 1 "Literal (VEq 5)" "VEq 3"] show ?thesis by simp
qed

text \<open>Every fact of a table is in the bucket of its key, or marked.\<close>

definition indexed :: "graph \<Rightarrow> nat \<Rightarrow> bool" where
  "indexed g t \<longleftrightarrow> (\<forall>f r key. fact g f = Inr (Some r) \<longrightarrow> rw_table r = t \<longrightarrow>
     take (length key) (rw_values r) = key \<longrightarrow> Suc (length key) = length (rw_values r) \<longrightarrow>
     f \<in> bucket g (g_hashkey g t key) \<union> g_dirty_facts g ! t) \<and>
   (\<forall>h. finite (bucket g h)) \<and> finite (g_dirty_facts g ! t)"

text \<open>
  C12. A keyed lookup in a virtual table is sound and, relative to its buckets, complete: a row it
  returns is a fact of the graph, of the table, with the canonical key and canonical values; and when
  every fact of the table is in the bucket of its key or marked, it returns nothing only when no fact
  of the table has the key.
\<close>

theorem lookup_exact:
  assumes "decreasing (g_parents g)" "markers_canonical g"
    and "t < length (g_tables g)" "t_virtual (g_tables g ! t)" "lookup g t key = Inr found"
  shows "(case found of
      Some r \<Rightarrow> \<exists>f. rw_witness r = DFact f \<and> fact g f = Inr (Some r) \<and> rw_table r = t \<and>
        take (length key) (rw_values r) = map (canon_in g) key \<and> canonical_values g (rw_values r)
    | None \<Rightarrow> indexed g t \<longrightarrow> (\<forall>f r. fact g f = Inr (Some r) \<longrightarrow> rw_table r = t \<longrightarrow>
        Suc (length key) = length (rw_values r) \<longrightarrow> take (length key) (rw_values r) \<noteq> map (canon_in g) key))"
proof -
  let ?key = "map (canon_in g) key"
  let ?fs = "bucket g (g_hashkey g t ?key) \<union> g_dirty_facts g ! t"
  have run: "find_fact g t ?key (sorted_list_of_set ?fs) = Inr found"
    using assms(3-5) by (auto simp: lookup_def Let_def rbind_eq_Inr idx_def split: if_splits)
  show ?thesis
  proof (cases found)
    case (Some r)
    with find_fact_sound [of g t ?key "sorted_list_of_set ?fs" r] run
    obtain f where "fact g f = Inr (Some r)" "rw_table r = t" "take (length key) (rw_values r) = ?key" by auto
    with fact_canonical [OF assms(1,2)] Some show ?thesis by auto
  next
    case None
    have "take (length key) (rw_values r) \<noteq> ?key"
      if "indexed g t" "fact g f = Inr (Some r)" "rw_table r = t" "Suc (length key) = length (rw_values r)" for f r
    proof
      assume k: "take (length key) (rw_values r) = ?key"
      have "finite ?fs" using that(1) by (simp add: indexed_def)
      moreover have "f \<in> ?fs"
        using that k unfolding indexed_def by (metis length_map)
      ultimately show False using find_fact_None [OF run [unfolded None], of f r] that k by simp
    qed
    with None show ?thesis by simp
  qed
qed

definition unary_live :: cell where
  "unary_live = unary_cell\<lparr>c_values := [0 \<mapsto> VEq 1, 1 \<mapsto> VEq 2], c_facts := [0 \<mapsto>
     \<lparr>fs_marker_row = None, fs_entry = None, fs_hidden = False, fs_epoch = 0, fs_born = 0, fs_hash = 0\<rparr>]\<rparr>"

definition unary_fact :: graph where
  "unary_fact = unary_empty\<lparr>g_cells := [1 \<mapsto> unary_live], g_intern := [0 \<mapsto> {(1, 0)}], g_parents := [5 \<mapsto> 1]\<rparr>"

lemma lookup_exact_witness:
  "\<exists>r. lookup unary_fact 0 [VEq 5] = Inr (Some r) \<and> rw_values r = [VEq 1, VEq 2]"
proof -
  have fields: "g_program unary_fact = unary_program" "g_parents unary_fact = [5 \<mapsto> 1]" "g_fuel unary_fact = 8"
    "g_dirty_facts unary_fact = [{}]" "g_hashkey unary_fact = (\<lambda>t k. 0)"
    "g_cells unary_fact = [1 \<mapsto> unary_live]" "g_intern unary_fact = [0 \<mapsto> {(1, 0)}]"
    by (simp_all add: unary_fact_def unary_empty_def empty_graph_def Let_def unary_program_def)
  have live: "c_template unary_live = 0" "c_values unary_live = [0 \<mapsto> VEq 1, 1 \<mapsto> VEq 2]"
    "c_facts unary_live = [0 \<mapsto>
     \<lparr>fs_marker_row = None, fs_entry = None, fs_hidden = False, fs_epoch = 0, fs_born = 0, fs_hash = 0\<rparr>]"
    by (simp_all add: unary_live_def unary_cell_def)
  have d: "decreasing (g_parents unary_fact)" by (simp add: fields decreasing_def)
  have m: "markers_canonical unary_fact"
    by (auto simp: markers_canonical_def fields live split: if_splits)
  have root: "root [5 \<mapsto> 1] 5 = 1" "root [5 \<mapsto> 1] 1 = 1" "root [5 \<mapsto> 1] 2 = 2"
    using root_Some [of "[5 \<mapsto> 1]" 5 1] d fields by simp_all
  have fact: "fact unary_fact (Suc 0, 0) = Inr (Some \<lparr>rw_table = 0, rw_values = [VEq 1, VEq 2], rw_hidden = False,
      rw_epoch = 0, rw_witness = DFact (1, 0)\<rparr>)"
    by (simp add: fact_def fact_columns_def carrier_at_def views_carrier_def fields unary_program_def no_views_def
        import_template_def unary_def root arguments_in_def argument_in_def argument_in_step_def slot_in_step_def
        eval_nat_numeral Let_def live get_at_def)
  have run: "lookup unary_fact 0 [VEq 5] = Inr (Some \<lparr>rw_table = 0, rw_values = [VEq 1, VEq 2], rw_hidden = False,
      rw_epoch = 0, rw_witness = DFact (1, 0)\<rparr>)"
    by (simp add: lookup_def fields root unary_program_def unary_def fact row_prefix_def bucket_def Let_def)
  from lookup_exact [OF d m _ _ run] run show ?thesis
    by (simp add: fields unary_program_def unary_def)
qed

lemma min_by_key_mem: "min_by_key f xs = Some y \<Longrightarrow> y \<in> set xs"
  by (induction xs arbitrary: y) (auto split: option.splits if_splits)

lemma rfilter_mem: "rfilter p xs = Inr ys \<Longrightarrow> x \<in> set xs \<Longrightarrow> p x = Inr True \<Longrightarrow> x \<in> set ys"
  by (induction xs arbitrary: ys) (auto simp: rbind_eq_Inr split: if_splits)

text \<open>
  The candidates of a query are a superset of its answers: when a column of the query is bound to
  an identity, every indexed fact of the table that mentions the class of that identity is a
  candidate, whichever index the code chooses to walk.
\<close>

theorem candidates_superset:
  assumes "uses_ok g" and "\<forall>x. finite (uses_of g x)"
    and run: "candidates g table bound = Inr ws"
    and mentions: "g_dependencies g d = Some ids"
      "\<forall>x. Some (VEq x) \<in> set bound \<longrightarrow> (\<exists>y \<in> ids. same_class g x y)"
    and listed: "witnesses g table = Inr all" "d \<in> set all" "candidate_in g table d = Inr True"
  shows "d \<in> set ws"
proof (cases "bound_uses g bound")
  case None
  with run listed show ?thesis by (simp add: candidates_def)
next
  case (Some u)
  from min_by_key_mem [OF Some [unfolded bound_uses_def]] obtain x where
    x: "Some (VEq x) \<in> set bound" "u = uses_of g (root (g_parents g) x)"
    by (auto simp: map_filter_def split: option.splits val.splits)
  from mentions(2) x(1) obtain y where "y \<in> ids" "same_class g x y" by blast
  then have "d \<in> u" using assms(1) mentions(1) x(2) by (auto simp: uses_ok_def same_class_def)
  then have "d \<in> set (sorted_list_of_set u)" using assms(2) x(2) by simp
  with run listed Some show ?thesis
    by (auto simp: candidates_def rbind_eq_Inr intro: rfilter_mem split: if_splits)
qed

lemma candidates_superset_witness:
  "\<exists>ws. candidates (unary_graph\<lparr>g_program := unary_program\<lparr>p_tables := [unary\<lparr>t_virtual := False\<rparr>]\<rparr>,
     g_function_operators := [{0}]\<rparr>) 0 [Some (VEq 5), None] = Inr ws \<and> DFunction 0 \<in> set ws"
proof -
  let ?g = "unary_graph\<lparr>g_program := unary_program\<lparr>p_tables := [unary\<lparr>t_virtual := False\<rparr>]\<rparr>, g_function_operators := [{0}]\<rparr>"
  have ok: "uses_ok ?g" by (simp add: uses_ok_def uses_of_def unary_graph_def unary_empty_def empty_graph_def Let_def)
  have p: "g_parents unary_graph = Map.empty" by (simp add: unary_graph_def unary_empty_def empty_graph_def Let_def)
  have fin: "\<forall>x. finite (uses_of ?g x)" by (simp add: uses_of_def unary_graph_def)
  have u: "bound_uses ?g [Some (VEq 5), None] = Some {DFunction 0}"
    by (simp add: bound_uses_def map_filter_def p uses_of_def unary_graph_def unary_empty_fields)
  have all: "witnesses ?g 0 = Inr [DFunction 0]" by (simp add: witnesses_def unary_program_def rmap_def)
  have n: "witness_count ?g 0 = Inr 1" by (simp add: witness_count_def unary_program_def rmap_def)
  have run: "candidates ?g 0 [Some (VEq 5), None] = Inr [DFunction 0]"
    using all by (simp add: candidates_def u n)
  have "candidate_in ?g 0 (DFunction 0) = Inr True" by (simp add: candidate_in_def unary_graph_def)
  then have "DFunction 0 \<in> set [DFunction 0]"
    by (intro candidates_superset [OF ok fin run, of "DFunction 0" "{5}"])
      (simp_all add: all, simp_all add: p same_class_def, simp_all add: unary_graph_def)
  with run show ?thesis by blast
qed

lemma kept_insert_initial: "keeping (insert_initial table vals sub g) g"
proof -
  have new: "keeping (rbind (frame template vs g) (\<lambda>(g1, cell). activate (cell, 0) table key v sub g1)) g"
    for template vs key v
    by (rule keep_fst_bind, rule keeps, simp, simp, rule keep_at, rule keeps)
  have fn: "keeping (rbind (set_function_inner table key v g) (\<lambda>(g1, _). Inr g1)) g" for key v
    by (rule keep_fst_bind, rule keeps) simp_all
  show ?thesis
    unfolding insert_initial_def
    by (rule ensures_bind) (auto intro!: new fn ensures_bind [where m = "idx q table" for q])
qed

lemma initial_rows_advance:
  assumes "rfold (initial_row wire) rows (g, ids) = Inr (h, ids')" "classes_ok g"
  shows "advances g h"
proof -
  have "initial_row wire r (k, is) = Inr (k', is') \<Longrightarrow> advances g k \<Longrightarrow> advances g k'" for r k "is" k' is'
    using ensuresD [OF kept_insert_initial] kept_advances [of k k'] advances_ok [of g k] advances_trans [of g k k']
    by (auto simp: initial_row_def rbind_eq_Inr)
  then show ?thesis
    using rfold_invariant [OF assms(1), where P = "\<lambda>st. advances g (fst st)"] advances_refl [OF assms(2)] by auto
qed

text \<open>
  A graph built from a program and its initial rows satisfies the invariant of the classes, the
  lineage and the reverse index, and has no work left to repair.
\<close>

lemma new_graph_settled:
  assumes "graph_new host hk fuel wire env turns p enabled = Inr g"
  shows "classes_ok g \<and> quiet g"
proof -
  from assms obtain ts copied known h ids k where
    rows: "rfold (initial_row wire) (p_initial p) (empty_graph host hk fuel env (p\<lparr>p_tables := ts\<rparr>)
      (enabled \<and> \<not> no_layouts p) copied known, []) = Inr (h, ids)"
    and r: "repair turns (h\<lparr>g_anchors := anchors_of ids\<rparr>) = Inr k" and g: "g = k\<lparr>g_changed := False\<rparr>"
    by (auto simp: graph_new_def Let_def rbind_eq_Inr)
  have eq: "classes_ok (h\<lparr>g_anchors := a\<rparr>) = classes_ok h" for h a
    by (simp add: classes_ok_def lineage_ok_def causes_below_def uses_ok_def uses_of_def)
  have "classes_ok h" using initial_rows_advance [OF rows empty_graph_ok] by (simp add: advances_def)
  then have "classes_ok (h\<lparr>g_anchors := anchors_of ids\<rparr>)" by (simp add: eq)
  moreover from r obtain k' where "repair_loop turns (h\<lparr>g_anchors := anchors_of ids\<rparr>) = Inr k'"
    and k: "k = k'\<lparr>g_old_keys := Map.empty\<rparr>" by (auto simp: repair_def rbind_eq_Inr)
  ultimately have "classes_ok k'" "quiet k'" using repair_loop_settles by (auto simp: advances_def)
  then show ?thesis
    using kept_advances [of k' g] by (simp add: g k quiet_def advances_def)
qed

lemma new_graph_settled_witness:
  "\<exists>g. graph_new demo_host (\<lambda>t k. 0) 8 (\<lambda>_. None) (\<lambda>_. None) 1 unary_program False = Inr g \<and> classes_ok g \<and> quiet g"
proof -
  have "\<exists>g. graph_new demo_host (\<lambda>t k. 0) 8 (\<lambda>_. None) (\<lambda>_. None) 1 unary_program False = Inr g"
    by (simp add: graph_new_def known_mode_of_def unary_program_def Let_def repair_def repair_step_def
        empty_graph_def pop_dirty_def)
  with new_graph_settled show ?thesis by blast
qed

end
