(* ===== verification/MergeCorrect.thy ===== *)
theory MergeCorrect
  imports MergePrograms GraphProps
begin

text \<open>
  The merge compiler is correct: running the program that \<open>lower\<close> emits gives what evaluating the
  expression gives, on every graph, with the same effects and the same error. The proof carries the
  operations that follow, so that the programs of subexpressions compose.
\<close>

section \<open>Names and literals\<close>

text \<open>A literal of the expression must not also look like a slot, which \<open>arg\<close> reads first.\<close>

function plain :: "json \<Rightarrow> bool" where
  "plain e \<longleftrightarrow>
     (if as_str (jfield e ''var'') \<noteq> None then True
      else if jget e ''literal'' \<noteq> None then as_u64 (jfield e ''slot'') = None
      else case as_array (jfield e ''args'') of None \<Rightarrow> True | Some aa \<Rightarrow> list_all plain aa)"
  by pat_completeness auto
termination
  by (relation "measure size") (auto dest: size_jfield_arr)

declare plain.simps [simp del]

definition fits :: "(string \<rightharpoonup> nat) \<Rightarrow> graph \<Rightarrow> bool" where
  "fits names g \<longleftrightarrow> (\<forall>name. table_position (g_tables g) name = names name)"

lemma fits_kept: "fits names g \<Longrightarrow> kept g h \<Longrightarrow> fits names h"
  by (simp add: fits_def kept_def)

text \<open>
  \<open>compiled names es n m os as\<close>: with \<open>n\<close> values in the slots, the operations \<open>os\<close> do what evaluating
  the expressions \<open>es\<close> in order does, fill the slots up to \<open>m\<close> and leave the results at \<open>as\<close>.
\<close>

abbreviation evaluate :: "json list \<Rightarrow> val \<Rightarrow> val \<Rightarrow> graph \<Rightarrow> (graph \<times> val list) res" where
  "evaluate es old new g \<equiv> smapM (\<lambda>e g. merge_expression e old new g) es g"

definition compiled :: "(string \<rightharpoonup> nat) \<Rightarrow> json list \<Rightarrow> nat \<Rightarrow> nat \<Rightarrow> op list \<Rightarrow> arg list \<Rightarrow> bool" where
  "compiled names es n m os as \<longleftrightarrow> (\<forall>g vs rest. fits names g \<longrightarrow> length vs = n \<longrightarrow>
     (case evaluate es (vs ! 0) (vs ! 1) g of
        Inl er \<Rightarrow> run_merge_ops (os @ rest) vs g = Inl er
      | Inr (g1, ws) \<Rightarrow> \<exists>us. length vs + length us = m \<and> rmapM (operand (vs @ us)) as = Inr ws \<and>
          run_merge_ops (os @ rest) vs g = run_merge_ops rest (vs @ us) g1))"

lemma compiledI:
  assumes "\<And>g vs rest er. fits names g \<Longrightarrow> length vs = n \<Longrightarrow> evaluate es (vs ! 0) (vs ! 1) g = Inl er \<Longrightarrow>
      run_merge_ops (os @ rest) vs g = Inl er"
    and "\<And>g vs rest g1 ws. fits names g \<Longrightarrow> length vs = n \<Longrightarrow>
      evaluate es (vs ! 0) (vs ! 1) g = Inr (g1, ws) \<Longrightarrow>
      \<exists>us. length vs + length us = m \<and> rmapM (operand (vs @ us)) as = Inr ws \<and>
        run_merge_ops (os @ rest) vs g = run_merge_ops rest (vs @ us) g1"
  shows "compiled names es n m os as"
  using assms unfolding compiled_def by (auto split: sum.split)

lemma compiled_error: "compiled names es n m os as \<Longrightarrow> fits names g \<Longrightarrow> length vs = n \<Longrightarrow>
    evaluate es (vs ! 0) (vs ! 1) g = Inl er \<Longrightarrow> run_merge_ops (os @ rest) vs g = Inl er"
  unfolding compiled_def by fastforce

lemma compiled_result: "compiled names es n m os as \<Longrightarrow> fits names g \<Longrightarrow> length vs = n \<Longrightarrow>
    evaluate es (vs ! 0) (vs ! 1) g = Inr (g1, ws) \<Longrightarrow>
    \<exists>us. length vs + length us = m \<and> rmapM (operand (vs @ us)) as = Inr ws \<and>
        run_merge_ops (os @ rest) vs g = run_merge_ops rest (vs @ us) g1"
  unfolding compiled_def by fastforce

lemma operand_append: "operand vs a = Inr v \<Longrightarrow> operand (vs @ us) a = Inr v"
  by (auto simp: operand_def res_simps nth_append split: arg.splits)

lemma operands_append: "rmapM (operand vs) as = Inr ws \<Longrightarrow> rmapM (operand (vs @ us)) as = Inr ws"
  by (induction as arbitrary: ws) (auto simp: res_simps operand_append)

lemma merge_expression_kept: "merge_expression e old new g = Inr (h, v) \<Longrightarrow> kept g h"
  using ensuresD [OF kept_merge_expression] by fastforce

lemma evaluate_kept: "evaluate es old new g = Inr (g1, ws) \<Longrightarrow> kept g g1"
  by (rule smapM_invariant [where P = "kept g"], assumption, simp)
    (blast intro: kept_trans merge_expression_kept)

lemma compiled_Nil: "compiled names [] n n [] []"
  by (rule compiledI) auto

lemma evaluate_append: "evaluate (es @ fs) old new g =
    rbind (evaluate es old new g) (\<lambda>(g1, vs). rbind (evaluate fs old new g1) (\<lambda>(g2, ws). Inr (g2, vs @ ws)))"
  by (induction es arbitrary: g) (auto simp: rbind_def split: sum.split)

lemma compiled_append:
  assumes 1: "compiled names es n k os as" and 2: "compiled names fs k m ps bs" and n: "2 \<le> n"
  shows "compiled names (es @ fs) n m (os @ ps) (as @ bs)"
proof (rule compiledI)
  fix g vs rest er
  assume g: "fits names g" and vs: "length vs = n"
    and run: "evaluate (es @ fs) (vs ! 0) (vs ! 1) g = Inl er"
  show "run_merge_ops ((os @ ps) @ rest) vs g = Inl er"
  proof (cases "evaluate es (vs ! 0) (vs ! 1) g")
    case (Inl e)
    with run compiled_error [OF 1 g vs Inl, of "ps @ rest"] show ?thesis by (simp add: evaluate_append)
  next
    case (Inr r)
    obtain g1 ws where r: "r = (g1, ws)" by (cases r)
    from compiled_result [OF 1 g vs, of g1 ws "ps @ rest"] Inr r obtain us
      where us: "length vs + length us = k"
        "run_merge_ops (os @ ps @ rest) vs g = run_merge_ops (ps @ rest) (vs @ us) g1" by auto
    have "evaluate fs (vs ! 0) (vs ! 1) g1 = Inl er"
      using run Inr r by (auto simp: evaluate_append rbind_eq_Inl)
    then have "run_merge_ops (ps @ rest) (vs @ us) g1 = Inl er"
      using n vs us(1) by (intro compiled_error [OF 2 fits_kept [OF g evaluate_kept]])
        (use Inr r in \<open>auto simp: nth_append\<close>)
    with us(2) show ?thesis by simp
  qed
next
  fix g vs rest g2 xs
  assume g: "fits names g" and vs: "length vs = n"
    and run: "evaluate (es @ fs) (vs ! 0) (vs ! 1) g = Inr (g2, xs)"
  from run obtain g1 ws ys where ev: "evaluate es (vs ! 0) (vs ! 1) g = Inr (g1, ws)"
    "evaluate fs (vs ! 0) (vs ! 1) g1 = Inr (g2, ys)" "xs = ws @ ys"
    by (auto simp: evaluate_append rbind_eq_Inr)
  from compiled_result [OF 1 g vs ev(1), of "ps @ rest"] obtain us
    where us: "length vs + length us = k" "rmapM (operand (vs @ us)) as = Inr ws"
      "run_merge_ops (os @ ps @ rest) vs g = run_merge_ops (ps @ rest) (vs @ us) g1" by auto
  have "\<exists>us'. length (vs @ us) + length us' = m \<and> rmapM (operand ((vs @ us) @ us')) bs = Inr ys \<and>
      run_merge_ops (ps @ rest) (vs @ us) g1 = run_merge_ops rest ((vs @ us) @ us') g2"
    using n vs us(1) ev(2) by (intro compiled_result [OF 2 fits_kept [OF g evaluate_kept [OF ev(1)]]])
      (auto simp: nth_append)
  then obtain us' where us': "length vs + length us + length us' = m"
    "rmapM (operand (vs @ us @ us')) bs = Inr ys"
    "run_merge_ops (ps @ rest) (vs @ us) g1 = run_merge_ops rest (vs @ us @ us') g2" by auto
  have "rmapM (operand (vs @ us @ us')) (as @ bs) = Inr xs"
    using operands_append [OF us(2), of us'] us'(2) ev(3) by (simp add: rmapM_append)
  then show "\<exists>us. length vs + length us = m \<and> rmapM (operand (vs @ us)) (as @ bs) = Inr xs \<and>
      run_merge_ops ((os @ ps) @ rest) vs g = run_merge_ops rest (vs @ us) g2"
    using us(3) us' by (intro exI [of _ "us @ us'"]) simp
qed

lemma evaluate_one: "evaluate [e] old new g = rmap (\<lambda>(h, v). (h, [v])) (merge_expression e old new g)"
  by (simp add: rmap_def rbind_def split: sum.split)

lemma compiled_var:
  assumes "as_str (jfield e ''var'') = Some v" "i = (if v = ''old'' then 0 else 1)"
    "v = ''old'' \<or> v = ''new''" "2 \<le> n"
  shows "compiled names [e] n n [] [Slot i]"
proof (rule compiledI)
  fix g :: graph and vs rest g1 ws
  assume vs: "length vs = n" and "evaluate [e] (vs ! 0) (vs ! 1) g = Inr (g1, ws)"
  then have "g1 = g" "ws = [vs ! i]"
    using assms(1-3) by (auto simp: merge_expression.simps [of e] split: if_splits)
  then show "\<exists>us. length vs + length us = n \<and> rmapM (operand (vs @ us)) [Slot i] = Inr ws \<and>
      run_merge_ops ([] @ rest) vs g = run_merge_ops rest (vs @ us) g1"
    using vs assms(2,4) by (intro exI [of _ "[]"]) (simp add: operand_def)
qed (use assms in \<open>auto simp: merge_expression.simps [of e] split: if_splits\<close>)

lemma literal_null: "jfield e ''literal'' = JNull \<Longrightarrow> literal e \<noteq> Inr v"
  by (auto simp: literal_def res_simps Let_def rmap_def)

lemma compiled_literal:
  assumes "as_str (jfield e ''var'') = None" "literal e = Inr v"
  shows "compiled names [e] n n [] [Literal v]"
proof -
  have "merge_expression e old new g = Inr (g, v)" for old new g
  proof -
    have "jfield e ''literal'' \<noteq> JNull" using assms(2) literal_null by blast
    then show ?thesis using assms by (simp add: merge_expression.simps [of e])
  qed
  then show ?thesis
    by (intro compiledI) (auto simp: operand_def)
qed

lemma call_step:
  assumes "as_str (jfield e ''var'') = None" "jget e ''literal'' = None" "jfield e ''args'' = JArr es"
    "load_call (jfield e ''call'') names = Inr c" "fits names g"
  shows "merge_expression e old new g = rbind (evaluate es old new g) (\<lambda>(g1, ws). merge_call c ws g1)"
proof -
  have "jfield e ''literal'' = JNull" using assms(2) by (simp add: jfield_def)
  then have "merge_expression e old new g = rbind (evaluate es old new g) (\<lambda>(g1, ws).
      case as_str (jfield (jfield e ''call'') ''table'') of
        Some name \<Rightarrow> rbind (ok_or (table_position (g_tables g1) name) (Err ''merge operator'')) (\<lambda>t.
          merge_table t ws g1)
      | None \<Rightarrow> rbind (j_string (jfield (jfield e ''call'') ''primitive'')) (\<lambda>name.
          rbind (j_string (jfield (jfield e ''call'') ''output'')) (\<lambda>out.
          rmap (\<lambda>v. (g1, v)) (run_primitive g1 name ws out))))"
    using assms(1,3) by (simp add: merge_expression.simps [of e] del: as_str_Some)
  also have "\<dots> = rbind (evaluate es old new g) (\<lambda>(g1, ws). merge_call c ws g1)"
  proof (rule rbind_cong, rule refl, clarify)
    fix g1 ws
    assume "evaluate es old new g = Inr (g1, ws)"
    from fits_kept [OF assms(5) evaluate_kept [OF this]]
    have "table_position (g_tables g1) name = names name" for name by (simp add: fits_def)
    then show "(case as_str (jfield (jfield e ''call'') ''table'') of
        Some name \<Rightarrow> rbind (ok_or (table_position (g_tables g1) name) (Err ''merge operator'')) (\<lambda>t.
          merge_table t ws g1)
      | None \<Rightarrow> rbind (j_string (jfield (jfield e ''call'') ''primitive'')) (\<lambda>name.
          rbind (j_string (jfield (jfield e ''call'') ''output'')) (\<lambda>out.
          rmap (\<lambda>v. (g1, v)) (run_primitive g1 name ws out)))) = merge_call c ws g1"
      using assms(4) by (auto simp: load_call_def merge_call_def res_simps rmap_def j_string_def simp del: as_str_Some
          split: option.splits)
  qed
  finally show ?thesis .
qed

lemma compiled_call:
  assumes e: "as_str (jfield e ''var'') = None" "jget e ''literal'' = None" "jfield e ''args'' = JArr es"
      "load_call (jfield e ''call'') names = Inr c"
    and es: "compiled names es n m os as"
  shows "compiled names [e] n (Suc m) (os @ [OpLet m c as]) [Slot m]"
proof (rule compiledI)
  fix g vs rest er
  assume g: "fits names g" and vs: "length vs = n" and run: "evaluate [e] (vs ! 0) (vs ! 1) g = Inl er"
  show "run_merge_ops ((os @ [OpLet m c as]) @ rest) vs g = Inl er"
  proof (cases "evaluate es (vs ! 0) (vs ! 1) g")
    case (Inl e')
    with run compiled_error [OF es g vs Inl, of "OpLet m c as # rest"] show ?thesis
      by (simp add: evaluate_one call_step [OF e g] del: smapM.simps)
  next
    case (Inr r)
    obtain g1 ws where r: "r = (g1, ws)" by (cases r)
    from compiled_result [OF es g vs, of g1 ws "OpLet m c as # rest"] Inr r obtain us
      where us: "length vs + length us = m" "rmapM (operand (vs @ us)) as = Inr ws"
        "run_merge_ops (os @ OpLet m c as # rest) vs g = run_merge_ops (OpLet m c as # rest) (vs @ us) g1"
      by auto
    have "merge_call c ws g1 = Inl er"
      using run Inr r by (simp add: evaluate_one call_step [OF e g] rmap_def rbind_eq_Inl split: prod.splits del: smapM.simps)
    with us show ?thesis by simp
  qed
next
  fix g vs rest g2 xs
  assume g: "fits names g" and vs: "length vs = n"
    and run: "evaluate [e] (vs ! 0) (vs ! 1) g = Inr (g2, xs)"
  from run obtain g1 ws v where ev: "evaluate es (vs ! 0) (vs ! 1) g = Inr (g1, ws)"
    "merge_call c ws g1 = Inr (g2, v)" "xs = [v]"
    by (auto simp: evaluate_one call_step [OF e g] rmap_def rbind_eq_Inr simp del: smapM.simps)
  from compiled_result [OF es g vs ev(1), of "OpLet m c as # rest"] obtain us
    where us: "length vs + length us = m" "rmapM (operand (vs @ us)) as = Inr ws"
      "run_merge_ops (os @ OpLet m c as # rest) vs g = run_merge_ops (OpLet m c as # rest) (vs @ us) g1"
    by auto
  then show "\<exists>us. length vs + length us = Suc m \<and> rmapM (operand (vs @ us)) [Slot m] = Inr xs \<and>
      run_merge_ops ((os @ [OpLet m c as]) @ rest) vs g = run_merge_ops rest (vs @ us) g2"
    using ev by (intro exI [of _ "us @ [v]"]) (auto simp: operand_def nth_append idx_def)
qed

section \<open>Lowering is sound\<close>

definition lowers :: "(string \<rightharpoonup> nat) \<Rightarrow> json list \<Rightarrow> lowering \<Rightarrow> lowering \<Rightarrow> json list \<Rightarrow> bool" where
  "lowers names es st st' rs \<longleftrightarrow> (\<exists>js. lw_ops st' = lw_ops st @ js \<and>
     length (lw_sorts st) \<le> length (lw_sorts st') \<and>
     (\<forall>os as. rmapM (parse_operation names) js = Inr os \<longrightarrow> rmapM load_arg rs = Inr as \<longrightarrow>
        compiled names es (length (lw_sorts st)) (length (lw_sorts st')) os as))"

lemma lowers_Nil: "lowers names [] st st []"
  by (simp add: lowers_def compiled_Nil)

lemma lowers_append:
  assumes "lowers names es st1 st2 rs" "lowers names fs st2 st3 ts" "2 \<le> length (lw_sorts st1)"
  shows "lowers names (es @ fs) st1 st3 (rs @ ts)"
proof -
  from assms(1,2) obtain js ks where js: "lw_ops st2 = lw_ops st1 @ js" "lw_ops st3 = lw_ops st2 @ ks"
    "length (lw_sorts st1) \<le> length (lw_sorts st2)" "length (lw_sorts st2) \<le> length (lw_sorts st3)"
    "\<forall>os as. rmapM (parse_operation names) js = Inr os \<longrightarrow> rmapM load_arg rs = Inr as \<longrightarrow>
        compiled names es (length (lw_sorts st1)) (length (lw_sorts st2)) os as"
    "\<forall>os as. rmapM (parse_operation names) ks = Inr os \<longrightarrow> rmapM load_arg ts = Inr as \<longrightarrow>
        compiled names fs (length (lw_sorts st2)) (length (lw_sorts st3)) os as"
    unfolding lowers_def by blast
  have "compiled names (es @ fs) (length (lw_sorts st1)) (length (lw_sorts st3)) os as"
    if "rmapM (parse_operation names) (js @ ks) = Inr os" "rmapM load_arg (rs @ ts) = Inr as" for os as
    using that js(5,6) compiled_append assms(3) by (fastforce simp: rmapM_append res_simps)
  then show ?thesis
    unfolding lowers_def using js by (intro exI [of _ "js @ ks"]) simp
qed

lemma lowers_list:
  assumes "\<And>e st st' r. e \<in> set es \<Longrightarrow> f e st = Inr (st', r) \<Longrightarrow> 2 \<le> length (lw_sorts st) \<Longrightarrow>
      lowers names [e] st st' [r]"
    and "smapM f es st = Inr (st', rs)" "2 \<le> length (lw_sorts st)"
  shows "lowers names es st st' rs"
  using assms
proof (induction es arbitrary: st rs)
  case (Cons e es)
  from Cons.prems(2) obtain st1 r rs' where run: "f e st = Inr (st1, r)" "smapM f es st1 = Inr (st', rs')"
    "rs = r # rs'"
    by (auto simp: rbind_eq_Inr)
  have 1: "lowers names [e] st st1 [r]"
    using Cons.prems(1,3) run(1) by simp
  then have "2 \<le> length (lw_sorts st1)"
    using Cons.prems(3) unfolding lowers_def by auto
  then have "lowers names es st1 st' rs'"
    using Cons.IH [OF Cons.prems(1)] run(2) by simp
  from lowers_append [OF 1 this Cons.prems(3)] show ?case by (simp add: run(3))
qed (simp add: lowers_Nil)

lemma lower_call_state:
  "lower_call tables types e args st = Inr (st1, out, kind) \<Longrightarrow>
   lw_sorts st1 = lw_sorts st \<and> lw_ops st1 = lw_ops st"
  by (auto simp: lower_call_def res_simps split: option.splits if_splits)

lemma load_slot: "load_arg (slot_json i) = Inr a \<Longrightarrow> a = Slot i"
  by (auto simp: load_arg_def slot_json_def literal_def jfield_def res_simps split: option.splits if_splits)

lemma parse_op_json:
  "parse_operation names (op_json dst c args kind) = Inr p \<Longrightarrow>
   \<exists>k aa. load_call c names = Inr k \<and> rmapM load_arg args = Inr aa \<and> p = OpLet dst k aa"
  by (auto simp: parse_operation_def op_json_def jfield_def load_args_def j_array_def as_u64_Some res_simps
      split: if_splits)

lemma load_literal:
  "plain e \<Longrightarrow> as_str (jfield e ''var'') = None \<Longrightarrow> jget e ''literal'' \<noteq> None \<Longrightarrow> load_arg e = Inr a \<Longrightarrow>
   \<exists>v. literal e = Inr v \<and> a = Literal v"
  by (auto simp: plain.simps [of e] load_arg_def rmap_def res_simps)

lemma lower_sound:
  "lower tables types e st = Inr (st', r) \<Longrightarrow> plain e \<Longrightarrow> 2 \<le> length (lw_sorts st) \<Longrightarrow>
   lowers names [e] st st' [r]"
proof (induction e arbitrary: st st' r rule: measure_induct_rule [where f = size])
  case (less e)
  note run = less.prems(1) [unfolded lower.simps [of _ _ e]]
  show ?case
  proof (cases "as_str (jfield e ''var'')")
    case (Some v)
    then have "lower_var e v st = Inr (st', r)" using run by simp
    then obtain i where i: "st' = st" "r = slot_json i" "i = (if v = ''old'' then 0 else 1)"
      "v = ''old'' \<or> v = ''new''"
      by (auto simp: lower_var_def res_simps split: if_splits)
    then show ?thesis
      using compiled_var [OF Some i(3,4) less.prems(3)]
      by (auto simp: lowers_def res_simps dest: load_slot)
  next
    case var: None
    show ?thesis
    proof (cases "jget e ''literal'' = None")
      case False
      then have "st' = st" "r = e" using run var by (auto simp del: as_str_Some)
      then show ?thesis
        using load_literal [OF less.prems(2) var False] compiled_literal [OF var]
        by (fastforce simp: lowers_def res_simps)
    next
      case True
      from run var True obtain es st1 rs c where args: "jfield e ''args'' = JArr es"
        and es: "smapM (lower tables types) es st = Inr (st1, rs)"
        and call: "lower_call tables types e rs st1 = Inr c" and emit: "lower_emit e rs c = Inr (st', r)"
        by (auto simp: res_simps simp del: as_str_Some split: option.splits)
      obtain st2 out kind where c: "c = (st2, out, kind)" by (cases c) auto
      have plain: "plain x" if "x \<in> set es" for x
        using less.prems(2) var True args that
        by (auto simp: plain.simps [of e] list_all_iff simp del: as_str_Some)
      have "lowers names es st st1 rs"
        by (rule lowers_list [OF less.IH es less.prems(3)]) (auto intro: size_jfield_arr [OF args] plain)
      then obtain js where js: "lw_ops st1 = lw_ops st @ js" "length (lw_sorts st) \<le> length (lw_sorts st1)"
        "\<And>os as. rmapM (parse_operation names) js = Inr os \<Longrightarrow> rmapM load_arg rs = Inr as \<Longrightarrow>
          compiled names es (length (lw_sorts st)) (length (lw_sorts st1)) os as"
        unfolding lowers_def by blast
      let ?m = "length (lw_sorts st1)" and ?op = "op_json (length (lw_sorts st1)) (jfield e ''call'') rs kind"
      have st': "lw_ops st' = lw_ops st @ js @ [?op]" "length (lw_sorts st') = Suc ?m" "r = slot_json ?m"
        using emit lower_call_state [OF call [unfolded c]] js(1)
        by (auto simp: lower_emit_def c Let_def split: if_splits)
      have "compiled names [e] (length (lw_sorts st)) (Suc ?m) os as"
        if os: "rmapM (parse_operation names) (js @ [?op]) = Inr os" and as: "rmapM load_arg [r] = Inr as" for os as
      proof -
        from os obtain ps p where ps: "rmapM (parse_operation names) js = Inr ps"
          "parse_operation names ?op = Inr p" "os = ps @ [p]"
          by (auto simp: rmapM_append res_simps)
        from parse_op_json [OF ps(2)] obtain k aa where k: "load_call (jfield e ''call'') names = Inr k"
          "rmapM load_arg rs = Inr aa" "p = OpLet ?m k aa" by blast
        have "as = [Slot ?m]" using as st'(3) by (auto simp: res_simps dest: load_slot)
        then show ?thesis
          using compiled_call [OF var True args k(1) js(3) [OF ps(1) k(2)]] ps(3) k(3) by simp
      qed
      then show ?thesis
        unfolding lowers_def using st' js(2) by (intro exI [of _ "js @ [?op]"]) simp
    qed
  qed
qed

section \<open>Accepted plans\<close>

lemma find_app: "find P (xs @ ys) = (case find P xs of None \<Rightarrow> find P ys | Some x \<Rightarrow> Some x)"
  by (induction xs) auto

lemma table_position_Some: "table_position ts n = Some i \<Longrightarrow> i < length ts \<and> t_name (ts ! i) = n"
  by (auto simp: table_position_def find_Some_iff)

lemma table_position_snoc:
  "table_position (ts @ [t]) n = (case table_position ts n of None \<Rightarrow> if t_name t = n then Some (length ts) else None
     | Some i \<Rightarrow> Some i)"
proof -
  have "find (\<lambda>i. t_name ((ts @ [t]) ! i) = n) [0..<length ts] = find (\<lambda>i. t_name (ts ! i) = n) [0..<length ts]"
    by (intro find_cong) (auto simp: nth_append)
  then show ?thesis by (simp add: table_position_def find_app split: option.split)
qed

lemma table_position_none: "n \<notin> t_name ` set ts \<Longrightarrow> table_position ts n = None"
  using table_position_Some [of ts n] by (cases "table_position ts n") (auto simp: image_iff)

lemma table_names_position: "distinct (map t_name ts) \<Longrightarrow> table_names ts = table_position ts"
proof (induction ts rule: rev_induct)
  case Nil
  show ?case by (auto simp: table_names_def table_position_def)
next
  case (snoc t ts)
  have "table_names (ts @ [t]) = (table_names ts)(t_name t \<mapsto> length ts)"
    by (simp add: table_names_def enumerate_append_eq)
  with snoc show ?case
    by (auto simp: table_position_snoc fun_eq_iff table_position_none split: option.split)
qed

lemma table_position_nth:
  assumes "distinct (map t_name ts)" "i < length ts"
  shows "table_position ts (t_name (ts ! i)) = Some i"
proof -
  have "table_position ts (t_name (ts ! i)) \<noteq> None"
    using assms(2) by (auto simp: table_position_def find_None_iff)
  then obtain j where j: "table_position ts (t_name (ts ! i)) = Some j" by blast
  from table_position_Some [OF this] have "j = i"
    using nth_eq_iff_index_eq [OF assms(1), of j i] assms(2) by simp
  with j show ?thesis by simp
qed

definition has_merge :: "table \<Rightarrow> bool" where
  "has_merge t \<longleftrightarrow> \<not> t_constructor t \<and> t_merge t \<noteq> JNull"

definition program_of :: "table list \<Rightarrow> (string \<rightharpoonup> json) \<Rightarrow> table \<Rightarrow> json \<Rightarrow> bool" where
  "program_of tables types t m \<longleftrightarrow> (\<exists>lw0 lw r. m = program_json t (lw_sorts lw) (lw_ops lw) r \<and>
     lower tables types (t_merge t) lw0 = Inr (lw, r) \<and> length (lw_sorts lw0) = 2 \<and> lw_ops lw0 = [])"

lemma compile_tables:
  "rfold (compile_table tables types) ts (ps, b) = Inr (ps', b') \<Longrightarrow>
   \<exists>qs. ps' = ps @ qs \<and> list_all2 (program_of tables types) (filter has_merge ts) qs"
proof (induction ts arbitrary: ps b)
  case (Cons t ts)
  from Cons.prems obtain ps1 b1 where run: "compile_table tables types t (ps, b) = Inr (ps1, b1)"
    "rfold (compile_table tables types) ts (ps1, b1) = Inr (ps', b')"
    by (auto simp: rbind_eq_Inr)
  from Cons.IH [OF run(2)] obtain qs where qs: "ps' = ps1 @ qs"
    "list_all2 (program_of tables types) (filter has_merge ts) qs" by blast
  show ?case
  proof (cases "has_merge t")
    case True
    with run(1) obtain s lw r where
      "lower tables types (t_merge t) \<lparr>lw_sorts = [s, s], lw_ops = [], lw_built = b\<rparr> = Inr (lw, r)"
      "ps1 = ps @ [program_json t (lw_sorts lw) (lw_ops lw) r]"
      by (auto simp: compile_table_def has_merge_def rbind_eq_Inr split: if_splits)
    then have "\<exists>m. ps1 = ps @ [m] \<and> program_of tables types t m"
      unfolding program_of_def by (intro exI [of _ "program_json t (lw_sorts lw) (lw_ops lw) r"]) fastforce
    then obtain m where "ps1 = ps @ [m]" "program_of tables types t m" by blast
    with True qs show ?thesis by auto
  next
    case False
    with run(1) have "ps1 = ps" by (auto simp: compile_table_def has_merge_def)
    with False qs show ?thesis by auto
  qed
qed simp

text \<open>What the parser makes of one program.\<close>

definition parsed_as :: "program \<Rightarrow> json \<Rightarrow> merge_prog \<Rightarrow> bool" where
  "parsed_as p m q \<longleftrightarrow> (\<exists>os. jfield m ''operations'' = JArr os \<and>
     rmapM (parse_operation (table_names (p_tables p))) os = Inr (mp_operations q) \<and>
     load_arg (jfield m ''result'') = Inr (mp_result q))"

lemma table_index_position: "table_index ts (JStr n) = ok_or (table_position ts n) Panic"
proof -
  have "(\<lambda>i. as_str (JStr n) = Some (t_name (ts ! i))) = (\<lambda>i. t_name (ts ! i) = n)" by auto
  then show ?thesis by (simp add: table_index_def table_position_def)
qed

lemma parse_program_step:
  assumes "parse_program p m out = Inr out'" "jfield m ''table'' = JStr n"
  shows "\<exists>i q. table_position (p_tables p) n = Some i \<and> parsed_as p m q \<and>
    mp_merges out' = (mp_merges out)(i \<mapsto> q)"
proof -
  from assms obtain i os ops r where run: "table_position (p_tables p) n = Some i"
    "jfield m ''operations'' = JArr os" "rmapM (parse_operation (table_names (p_tables p))) os = Inr ops"
    "load_arg (jfield m ''result'') = Inr r"
    "out' = out\<lparr>mp_merges := (mp_merges out)(i \<mapsto> \<lparr>mp_operations = ops, mp_result = r\<rparr>)\<rparr>"
    by (auto simp: parse_program_def table_index_position rbind_eq_Inr ok_or_eq_Inr j_array_Inr)
  then have "parsed_as p m \<lparr>mp_operations = ops, mp_result = r\<rparr>"
    by (simp add: parsed_as_def)
  with run show ?thesis by auto
qed

lemma parse_programs:
  assumes "list_all2 (program_of tables types) ts ms" "distinct (map t_name ts)"
    and "rfold (parse_program p) ms out = Inr out'" "t \<in> set ts"
  shows "\<exists>i q m. table_position (p_tables p) (t_name t) = Some i \<and> program_of tables types t m \<and>
    parsed_as p m q \<and> mp_merges out' i = Some q"
  using assms
proof (induction ts arbitrary: ms out' rule: rev_induct)
  case (snoc u us)
  from snoc.prems(1) obtain ns m where ms: "ms = ns @ [m]" "list_all2 (program_of tables types) us ns"
    "program_of tables types u m"
    by (auto simp: list_all2_append1 list_all2_Cons1)
  from snoc.prems(3) obtain out1 where run: "rfold (parse_program p) ns out = Inr out1"
    "parse_program p m out1 = Inr out'"
    by (auto simp: ms(1) rfold_append res_simps)
  have "jfield m ''table'' = JStr (t_name u)"
    using ms(3) by (auto simp: program_of_def program_json_def jfield_def)
  from parse_program_step [OF run(2) this] obtain i q
    where i: "table_position (p_tables p) (t_name u) = Some i" "parsed_as p m q"
      "mp_merges out' = (mp_merges out1)(i \<mapsto> q)" by blast
  show ?case
  proof (cases "t = u")
    case True
    with i ms(3) show ?thesis by fastforce
  next
    case False
    then have t: "t \<in> set us" using snoc.prems(4) by simp
    from snoc.IH [OF ms(2) _ run(1) t] snoc.prems(2) obtain j r n
      where j: "table_position (p_tables p) (t_name t) = Some j" "program_of tables types t n"
        "parsed_as p n r" "mp_merges out1 j = Some r" by auto
    have "t_name t \<noteq> t_name u" using snoc.prems(2) t by (auto simp: image_iff)
    then have "j \<noteq> i" using table_position_Some [OF i(1)] table_position_Some [OF j(1)] by auto
    with i(3) j show ?thesis by fastforce
  qed
qed simp

lemma parse_entry_orders: "rfold parse_entry_order es out = Inr out' \<Longrightarrow> mp_merges out' = mp_merges out"
  by (rule rfold_invariant [where P = "\<lambda>o'. mp_merges o' = mp_merges out"])
    (auto simp: parse_entry_order_def res_simps)

lemma accepted_program:
  assumes "parse_merges p raw = Inr ms" "raw \<noteq> JNull" "distinct (map t_name (p_tables p))"
    and "i < length (p_tables p)" "t = p_tables p ! i" "has_merge t"
  shows "\<exists>types m q. program_of (p_tables p) types t m \<and> parsed_as p m q \<and> mp_merges ms i = Some q"
proof -
  from assms(1,2) obtain es out ps where c: "compile_merges p = Inr raw"
    and ps: "jfield raw ''programs'' = JArr ps" "rfold (parse_program p) ps no_merges = Inr out"
    and es: "rfold parse_entry_order es out = Inr ms"
    by (auto simp: parse_merges_def res_simps split: if_splits)
  from c ps(1) obtain types built where run: "rfold (compile_table (p_tables p) types) (p_tables p) ([], {}) = Inr (ps, built)"
    by (fastforce simp: compile_merges_def res_simps jfield_def)
  from compile_tables [OF run] have all: "list_all2 (program_of (p_tables p) types) (filter has_merge (p_tables p)) ps"
    by simp
  have "t \<in> set (filter has_merge (p_tables p))" "distinct (map t_name (filter has_merge (p_tables p)))"
    using assms by (simp_all add: distinct_map_filter)
  from parse_programs [OF all this(2) ps(2) this(1)] show ?thesis
    using table_position_nth [OF assms(3,4)] parse_entry_orders [OF es] assms(5) by auto
qed

lemma compiled_program:
  assumes "compiled names [e] 2 n (mp_operations q) [mp_result q]" "fits names g"
  shows "run_merge_program q old new g = merge_expression e old new g"
proof (cases "merge_expression e old new g")
  case (Inl er)
  with compiled_error [OF assms, of "[old, new]" er "[]"]
  have "run_merge_ops (mp_operations q) [old, new] g = Inl er" by (simp add: evaluate_one del: smapM.simps)
  then show ?thesis using Inl by (cases "mp_operations q") (auto simp: run_merge_program_def)
next
  case (Inr r)
  obtain g1 v where r: "r = (g1, v)" by (cases r)
  with compiled_result [OF assms, of "[old, new]" g1 "[v]" "[]"] Inr obtain us
    where us: "operand (old # new # us) (mp_result q) = Inr v"
      "run_merge_ops (mp_operations q) [old, new] g = Inr (g1, old # new # us)"
    by (auto simp: evaluate_one res_simps simp del: smapM.simps)
  show ?thesis
  proof (cases "mp_operations q = []")
    case True
    with us Inr r show ?thesis
      by (auto simp: run_merge_program_def operand_def res_simps less_Suc_eq_0_disj numeral_2_eq_2 split: arg.splits)
  qed (use us Inr r in \<open>simp add: run_merge_program_def\<close>)
qed

lemma accepted_runs:
  assumes "program_of (p_tables p) types t m" "parsed_as p m q" "plain (t_merge t)"
    and "distinct (map t_name (p_tables p))" "p_tables (g_program g) = p_tables p"
  shows "run_merge_program q old new g = merge_expression (t_merge t) old new g"
proof -
  from assms(1) obtain lw0 lw r where m: "m = program_json t (lw_sorts lw) (lw_ops lw) r"
    and lw: "lower (p_tables p) types (t_merge t) lw0 = Inr (lw, r)" "length (lw_sorts lw0) = 2" "lw_ops lw0 = []"
    by (auto simp: program_of_def)
  let ?names = "table_names (p_tables p)"
  have ops: "rmapM (parse_operation ?names) (lw_ops lw) = Inr (mp_operations q)"
    "load_arg r = Inr (mp_result q)"
    using assms(2) by (auto simp: parsed_as_def m program_json_def jfield_def)
  have "compiled ?names [t_merge t] 2 (length (lw_sorts lw)) (mp_operations q) [mp_result q]"
    using lower_sound [OF lw(1) assms(3), of ?names] lw(2,3) ops by (auto simp: lowers_def)
  moreover have "fits ?names g"
    using assms(4,5) by (simp add: fits_def table_names_position)
  ultimately show ?thesis by (rule compiled_program)
qed

text \<open>
  C9. An accepted merge plan computes what the merge expressions say. When the plan in the artifact was
  accepted against the program, a table whose expression is not absent gets a compiled program, and a
  write that collides with a different value evaluates, with compiled programs on, to exactly what
  interpreting the expression gives: the same value, the same requested facts and the same error.
\<close>

theorem compiled_merges_agree:
  assumes "parse_merges p raw = Inr ms" "raw \<noteq> JNull" "distinct (map t_name (p_tables p))"
    and "i < length (p_tables p)" "\<not> t_constructor (p_tables p ! i)" "t_merge (p_tables p ! i) \<noteq> JNull"
    and "plain (t_merge (p_tables p ! i))"
    and "g_program g = p\<lparr>p_merge_programs := ms\<rparr>" "g_merge_programs_enabled g" "old \<noteq> new"
  shows "merge_value i old new g = merge_expression (t_merge (p_tables p ! i)) old new g"
proof -
  from accepted_program [OF assms(1-4) refl] assms(5,6) obtain types m q
    where q: "program_of (p_tables p) types (p_tables p ! i) m" "parsed_as p m q" "mp_merges ms i = Some q"
    by (auto simp: has_merge_def)
  have "run_merge_program q old new g = merge_expression (t_merge (p_tables p ! i)) old new g"
    using accepted_runs [OF q(1,2) assms(7,3)] assms(8) by simp
  then show ?thesis
    using assms(4,6,8-10) q(3) by (simp add: merge_value_def)
qed

definition i64_sort :: json where
  "i64_sort = JObj [(''kind'', JStr ''i64''), (''name'', JStr ''i64'')]"

definition min_merge :: json where
  "min_merge = JObj [(''args'', JArr [JObj [(''var'', JStr ''old'')], JObj [(''var'', JStr ''new'')]]),
     (''call'', JObj [(''inputs'', JArr [JStr ''i64'', JStr ''i64'']), (''output'', JStr ''i64''),
        (''primitive'', JStr ''min'')])]"

definition min_table :: table where
  "min_table = \<lparr>t_name = ''F'', t_schema = [i64_sort], t_constructor = False, t_virtual = False,
     t_merge = min_merge, t_internal = False\<rparr>"

definition min_program :: program where
  "min_program = \<lparr>p_known_results = no_known, p_merge_programs = no_merges, p_views = no_views,
     p_congruence = no_congruence, p_tables = [min_table], p_templates = [], p_rules = [], p_sets = Map.empty,
     p_control = [], p_initial = [], p_table_templates = [], p_artifact = JNull\<rparr>"

definition min_plan :: json where
  "min_plan = (case compile_merges min_program of Inr j \<Rightarrow> j | Inl _ \<Rightarrow> JNull)"

lemma min_accepted: "case parse_merges min_program min_plan of
    Inr ms \<Rightarrow> (case mp_merges ms 0 of None \<Rightarrow> False | Some q \<Rightarrow> mp_result q = Slot 2) | Inl _ \<Rightarrow> False" "min_plan \<noteq> JNull"
  by code_simp+

definition min_graph :: "merge_programs \<Rightarrow> graph" where
  "min_graph ms = empty_graph demo_host (\<lambda>t k. 0) 8 (\<lambda>_. None) (min_program\<lparr>p_merge_programs := ms\<rparr>) False False KOff"

lemma compiled_merges_agree_witness:
  "\<exists>ms. parse_merges min_program min_plan = Inr ms \<and>
     merge_value 0 (VInt 3) (VInt 2) (min_graph ms) = merge_expression min_merge (VInt 3) (VInt 2) (min_graph ms)"
proof -
  obtain ms where ms: "parse_merges min_program min_plan = Inr ms"
    using min_accepted(1) by (auto split: sum.splits)
  have p: "plain (t_merge (p_tables min_program ! 0))" by code_simp
  have t: "\<not> t_constructor (p_tables min_program ! 0)" "t_merge (p_tables min_program ! 0) = min_merge"
    by (simp_all add: min_program_def min_table_def)
  have "merge_value 0 (VInt 3) (VInt 2) (min_graph ms) =
      merge_expression (t_merge (p_tables min_program ! 0)) (VInt 3) (VInt 2) (min_graph ms)"
    by (rule compiled_merges_agree [OF ms min_accepted(2) _ _ t(1) _ p])
      (simp_all add: min_program_def min_table_def min_merge_def min_graph_def empty_graph_def env_is_def Let_def)
  with ms show ?thesis by (auto simp: t(2))
qed

end
