(* ===== verification/MergeContracts.thy ===== *)
theory MergeContracts
  imports MergeCorrect Loader "HOL-Library.Multiset"
begin

text \<open>
  Merge contracts, \<open>engine/cell-runtime/src/merge_contract.rs\<close>: \<open>table\<close> classifies the merge expression
  of a table and lists the tables it reads and constructs; \<open>load\<close> compares the contracts of an
  artifact with what \<open>table\<close> gives. The lemmas show what a contract promises: merges of the kinds
  \<open>lattice\<close> and \<open>key-min\<close> may be done in any order, and a merge without reads and constructs is a
  function of its two inputs.
\<close>

section \<open>The contract of a table\<close>

text \<open>A missing or malformed array iterates as empty (\<open>as_array().into_iter().flatten()\<close>).\<close>

definition args_of :: "json \<Rightarrow> json list" where
  "args_of j = (case as_array (jfield j ''args'') of None \<Rightarrow> [] | Some aa \<Rightarrow> aa)"

definition merge_vars :: "json \<Rightarrow> string list" where
  "merge_vars e =
     sort (map (\<lambda>a. case as_str (jfield a ''var'') of None \<Rightarrow> '''' | Some s \<Rightarrow> s) (args_of e))"

definition call_primitive :: "json \<Rightarrow> string option" where
  "call_primitive e = as_str (jfield (jfield e ''call'') ''primitive'')"

definition contract_kind :: "table \<Rightarrow> string \<times> string" where
  "contract_kind t =
     (let e = t_merge t; op = call_primitive e in
      if t_constructor t then (''congruence'', ''exact equality propagation'')
      else if e = JNull then (''unique'', ''conflicting values remain an error'')
      else if merge_vars e = [''new'', ''old''] \<and>
        op \<in> Some ` {''min'', ''max'', ''or'', ''and'', ''cell-key-min''} then
        (if op = Some ''cell-key-min'' then ''key-min'' else ''lattice'',
         ''associative commutative idempotent on declared value domain'')
      else if op = Some ''cell-key-select'' \<and>
        jfield (jat (jfield e ''args'') 0) ''var'' = JStr ''old'' \<and>
        jfield (jat (jfield e ''args'') 1) ''var'' = JStr ''new'' \<and>
        jfield (jfield (jat (jfield e ''args'') 2) ''call'') ''primitive'' = JStr ''cell-key-prefer-left'' then
        (''ranked-selection'',
         ''ordered reads; reassociation needs frozen port versions and equivalent equal-rank candidates'')
      else (''ordered'', ''original submission order''))"

lemma size_args_of: "a \<in> set (args_of j) \<Longrightarrow> size a < size j"
  by (auto simp: args_of_def eq_commute [of "Some _"] dest: size_jfield_arr split: option.splits)

text \<open>\<open>visit\<close> collects the names of the tables an expression calls, constructors apart.\<close>

definition visit_call :: "table list \<Rightarrow> json \<Rightarrow> string set \<times> string set \<Rightarrow> (string set \<times> string set) res" where
  "visit_call tables j st =
     (case as_str (jfield (jfield j ''call'') ''table'') of
        None \<Rightarrow> Inr st
      | Some n \<Rightarrow>
          rbind (ok_or (find (\<lambda>t. t_name t = n) tables) (Err ''unknown merge port'')) (\<lambda>t.
          Inr (if t_constructor t then (fst st, insert n (snd st)) else (insert n (fst st), snd st))))"

function visit :: "table list \<Rightarrow> json \<Rightarrow> string set \<times> string set \<Rightarrow> (string set \<times> string set) res" where
  "visit tables j st =
     rbind (visit_call tables j st) (\<lambda>st1. rfold (visit tables) (args_of j) st1)"
  by pat_completeness auto
termination
  by (relation "measure (\<lambda>(_, j, _). size j)") (auto dest: size_args_of)

declare visit.simps [simp del]

definition names_json :: "string set \<Rightarrow> json" where
  "names_json ns = JArr (map JStr (sorted_list_of_set ns))"

definition contract_table :: "table list \<Rightarrow> table \<Rightarrow> json res" where
  "contract_table tables t =
     (let e = t_merge t; (kind, permission) = contract_kind t in
      rbind (visit tables e ({}, {})) (\<lambda>(reads, constructs).
      Inr (JObj [(''constructs'', names_json constructs), (''equal_inputs'', JStr (merge_equal_inputs t)),
        (''expression'', e), (''kind'', JStr kind), (''permission'', JStr permission),
        (''reads'', names_json reads), (''table'', JStr (t_name t))])))"

section \<open>The check of the contracts of an artifact\<close>

definition differs_in :: "string list \<Rightarrow> json \<Rightarrow> json \<Rightarrow> bool" where
  "differs_in ks c d \<longleftrightarrow> (\<exists>k \<in> set ks. jfield c k \<noteq> jfield d k)"

definition check_contract :: "table list \<Rightarrow> table \<times> json \<Rightarrow> unit res" where
  "check_contract tables tc =
     (case tc of (t, c) \<Rightarrow>
       rbind (contract_table tables t) (\<lambda>expected.
       if differs_in [''reads'', ''constructs''] c expected then Inl (Err ''merge contract footprint differs'')
       else if differs_in [''table'', ''expression'', ''kind'', ''equal_inputs''] c expected
       then Inl (Err ''merge contract differs from source'') else Inr ()))"

definition check_contracts :: "program \<Rightarrow> unit res" where
  "check_contracts p =
     (let mc = jfield (p_artifact p) ''merge_contracts''; cs = as_array (jfield mc ''tables'') in
      if jget (p_artifact p) ''merge_contracts'' \<noteq> None \<and> cs = None then Inl (Err ''merge contract schema'')
      else case cs of
        None \<Rightarrow> Inr ()
      | Some cs \<Rightarrow>
          if jfield mc ''schema'' \<noteq> JStr ''eggfuse-merge-contracts/v1'' \<or> length cs \<noteq> length (p_tables p)
          then Inl (Err ''merge contract schema'')
          else rfold (\<lambda>tc _. check_contract (p_tables p) tc) (zip (p_tables p) cs) ())"

text \<open>The emitter, \<open>compile\<close> of \<open>compiler/mod.rs\<close>.\<close>

definition emit_contracts :: "program \<Rightarrow> json res" where
  "emit_contracts p =
     rbind (rmapM (contract_table (p_tables p)) (p_tables p)) (\<lambda>cs.
     Inr (JObj [(''schema'', JStr ''eggfuse-merge-contracts/v1''), (''tables'', JArr cs)]))"

lemma emitted_contracts_accepted:
  assumes "emit_contracts p = Inr mc" "jget (p_artifact p) ''merge_contracts'' = Some mc"
  shows "check_contracts p = Inr ()"
proof -
  from assms(1) obtain cs where cs: "rmapM (contract_table (p_tables p)) (p_tables p) = Inr cs"
    and mc: "mc = JObj [(''schema'', JStr ''eggfuse-merge-contracts/v1''), (''tables'', JArr cs)]"
    by (auto simp: emit_contracts_def res_simps)
  have same: "rmapM f ts = Inr cs \<Longrightarrow> (\<And>t c. f t = Inr c \<Longrightarrow> h (t, c) = Inr ()) \<Longrightarrow>
      length cs = length ts \<and> rfold (\<lambda>tc _. h tc) (zip ts cs) () = Inr ()"
    for f :: "table \<Rightarrow> json res" and h ts cs
    by (induction ts arbitrary: cs) (auto simp: res_simps)
  have "check_contract (p_tables p) (t, c) = Inr ()" if "contract_table (p_tables p) t = Inr c" for t c
    using that by (simp add: check_contract_def differs_in_def)
  from same [OF cs, of "check_contract (p_tables p)", OF this] show ?thesis
    using assms(2) by (simp add: check_contracts_def mc jfield_def)
qed

section \<open>Merges in any order\<close>

text \<open>Values merged one after the other; an error ends the sequence.\<close>

locale commuting_merge =
  fixes m :: "'a \<Rightarrow> 'a \<Rightarrow> 'a res"
  assumes comm: "m a b = m b a"
    and assoc: "rbind (m a b) (\<lambda>x. m x c) = rbind (m b c) (m a)"
    and absorb: "m a b = Inr c \<Longrightarrow> m c a = Inr c"
begin

primrec merge_all :: "'a \<Rightarrow> 'a list \<Rightarrow> 'a res" where
  "merge_all v [] = Inr v"
| "merge_all v (x # xs) = rbind (m v x) (\<lambda>w. merge_all w xs)"

lemma merge_all_swap: "merge_all v (x # y # xs) = merge_all v (y # x # xs)"
proof -
  have "rbind (m v x) (\<lambda>w. m w y) = rbind (m v y) (\<lambda>w. m w x)"
    by (simp only: assoc) (simp only: comm [of x y])
  then show ?thesis by (simp flip: rbind_assoc)
qed

lemma merge_all_insert: "merge_all v (xs @ y # ys) = merge_all v (y # xs @ ys)"
proof (induction xs arbitrary: v)
  case (Cons x xs)
  have "merge_all v ((x # xs) @ y # ys) = merge_all v (x # y # xs @ ys)" by (simp add: Cons.IH)
  then show ?case by (simp only: merge_all_swap append_Cons)
qed simp

lemma merge_all_tail: "mset xs = mset ys \<Longrightarrow> merge_all v xs = merge_all v ys"
proof (induction xs arbitrary: v ys)
  case (Cons x xs)
  from Cons.prems have "x \<in> set ys" by (metis list.set_intros(1) mset_eq_setD)
  then obtain us zs where ys: "ys = us @ x # zs" by (meson split_list)
  with Cons.prems have "mset xs = mset (us @ zs)" by simp
  from Cons.IH [OF this] have "merge_all v (x # xs) = merge_all v (x # us @ zs)" by simp
  then show ?case by (simp only: ys merge_all_insert)
qed simp

lemma merge_all_perm:
  assumes "mset (v # vs) = mset (w # ws)"
  shows "merge_all v vs = merge_all w ws"
proof (cases "v = w")
  case False
  from assms have "w \<in> set (v # vs)" by (metis list.set_intros(1) mset_eq_setD)
  with False obtain us zs where vs: "vs = us @ w # zs" by (auto dest: split_list)
  have "merge_all v vs = merge_all v (w # us @ zs)" unfolding vs by (rule merge_all_insert)
  also have "\<dots> = merge_all w (v # us @ zs)" by (simp add: comm [of v w])
  also have "\<dots> = merge_all w ws" by (rule merge_all_tail) (use assms vs in simp)
  finally show ?thesis .
qed (use assms in \<open>auto intro: merge_all_tail\<close>)

lemma absorbed: "m a b = Inr c \<Longrightarrow> m c a = Inr c \<and> m c b = Inr c"
  using absorb comm by metis

lemma absorbed_later:
  assumes "m w x = Inr w" "m w y = Inr z"
  shows "m z x = Inr z"
proof -
  have "m z x = rbind (m w y) (\<lambda>u. m u x)" by (simp add: assms)
  also have "\<dots> = rbind (m y x) (m w)" by (simp only: assoc)
  also have "\<dots> = rbind (m x y) (m w)" by (simp only: comm [of x y])
  also have "\<dots> = rbind (m w x) (\<lambda>u. m u y)" by (simp only: assoc)
  finally show ?thesis by (simp add: assms)
qed

lemma merge_all_absorbs_old: "merge_all v xs = Inr w \<Longrightarrow> m v x = Inr v \<Longrightarrow> m w x = Inr w"
proof (induction xs arbitrary: v)
  case (Cons y ys)
  then obtain z where z: "m v y = Inr z" "merge_all z ys = Inr w" by (auto simp: res_simps)
  show ?case by (rule Cons.IH [OF z(2) absorbed_later [OF Cons.prems(2) z(1)]])
qed simp

lemma merge_all_absorbs: "merge_all v xs = Inr w \<Longrightarrow> x \<in> set xs \<Longrightarrow> m w x = Inr w"
proof (induction xs arbitrary: v)
  case (Cons y ys)
  then obtain z where z: "m v y = Inr z" "merge_all z ys = Inr w" by (auto simp: res_simps)
  show ?case
  proof (cases "x \<in> set ys")
    case False
    with Cons.prems have "x = y" by simp
    with absorbed [OF z(1)] show ?thesis by (intro merge_all_absorbs_old [OF z(2)]) simp
  qed (rule Cons.IH [OF z(2)])
qed simp

end

text \<open>The meaning of the five primitives a contract may call a lattice.\<close>

definition lattice_join :: "string \<Rightarrow> val \<Rightarrow> val \<Rightarrow> val res" where
  "lattice_join name a b =
     (if name = ''cell-key-min'' then
        (case (a, b) of (VKey k, VKey l) \<Rightarrow> Inr (VKey (min k l)) | _ \<Rightarrow> Inl (Err ''expected structural key''))
      else case (a, b) of
        (VInt x, VInt y) \<Rightarrow>
          Inr (if name = ''min'' then VInt (min x y) else if name = ''max'' then VInt (max x y)
               else if name = ''and'' then bool_value (x \<noteq> 0 \<and> y \<noteq> 0) else bool_value (x \<noteq> 0 \<or> y \<noteq> 0))
      | _ \<Rightarrow> Inl (Err ''expected integer''))"

definition lattice_primitives :: "string set" where
  "lattice_primitives = {''min'', ''max'', ''or'', ''and'', ''cell-key-min''}"

lemma two_ints_pair:
  "two_ints [a, b] f = (case (a, b) of (VInt x, VInt y) \<Rightarrow> f x y | _ \<Rightarrow> Inl (Err ''expected integer''))"
  by (cases a; cases b) (simp_all add: two_ints_def arg_at_def idx_def integer_def)

lemma key_arg_pair:
  "rbind (key_arg [a, b] 0) (\<lambda>k. rbind (key_arg [a, b] 1) (f k)) =
   (case (a, b) of (VKey k, VKey l) \<Rightarrow> f k l | _ \<Rightarrow> Inl (Err ''expected structural key''))"
  by (cases a; cases b) (simp_all add: key_arg_def get_at_def)

lemma min_if: "(if l < k then l else k) = min k (l :: 'a :: linorder)"
  by (simp add: min_def) (meson leD le_less_linear)

lemma primitive_lattice:
  assumes "name \<in> lattice_primitives"
  shows "primitive h name [a, b] out nodes = rmap Some (lattice_join name a b)"
proof -
  consider "name = ''cell-key-min''" | "name = ''min''" | "name = ''max''" | "name = ''and''" | "name = ''or''"
    using assms by (auto simp: lattice_primitives_def)
  then show ?thesis
  proof cases
    case 1
    then have "primitive h name [a, b] out nodes =
        rbind (key_arg [a, b] 0) (\<lambda>k. rbind (key_arg [a, b] 1) (\<lambda>l. Inr (Some (VKey (if l < k then l else k)))))"
      by (simp add: primitive_def starts_with_def key_primitive_def)
    also have "(\<lambda>k. rbind (key_arg [a, b] 1) (\<lambda>l. Inr (Some (VKey (if l < k then l else k))))) =
        (\<lambda>k. rbind (key_arg [a, b] 1) (\<lambda>l. Inr (Some (VKey (min k l)))))"
      by (simp add: min_if)
    finally show ?thesis
      unfolding key_arg_pair using 1 by (cases a; cases b) (simp_all add: lattice_join_def)
  next
    case 2
    then have "primitive h name [a, b] out nodes = two_ints [a, b] (\<lambda>x y. Inr (Some (VInt (min x y))))"
      by (simp add: primitive_def starts_with_def strip_prefix_def plain_primitive_def arith_op_def Let_def)
    with 2 show ?thesis by (simp only: two_ints_pair) (cases a; cases b; simp add: lattice_join_def)
  next
    case 3
    then have "primitive h name [a, b] out nodes = two_ints [a, b] (\<lambda>x y. Inr (Some (VInt (max x y))))"
      by (simp add: primitive_def starts_with_def strip_prefix_def plain_primitive_def arith_op_def Let_def)
    with 3 show ?thesis by (simp only: two_ints_pair) (cases a; cases b; simp add: lattice_join_def)
  next
    case 4
    then have "primitive h name [a, b] out nodes = two_ints [a, b] (\<lambda>x y. Inr (Some (bool_value (x \<noteq> 0 \<and> y \<noteq> 0))))"
      by (simp add: primitive_def starts_with_def strip_prefix_def plain_primitive_def arith_op_def Let_def)
    with 4 show ?thesis by (simp only: two_ints_pair) (cases a; cases b; simp add: lattice_join_def)
  next
    case 5
    then have "primitive h name [a, b] out nodes = two_ints [a, b] (\<lambda>x y. Inr (Some (bool_value (x \<noteq> 0 \<or> y \<noteq> 0))))"
      by (simp add: primitive_def starts_with_def strip_prefix_def plain_primitive_def arith_op_def Let_def)
    with 5 show ?thesis by (simp only: two_ints_pair) (cases a; cases b; simp add: lattice_join_def)
  qed
qed

lemma lattice_assoc:
  "rbind (lattice_join name a b) (\<lambda>x. lattice_join name x c) = rbind (lattice_join name b c) (lattice_join name a)"
  by (cases a; cases b; cases c)
    (auto simp: lattice_join_def bool_value_def min.assoc max.assoc split: if_splits)

interpretation lattice: commuting_merge "lattice_join name" for name
proof
  fix a b c
  show "lattice_join name a b = lattice_join name b a"
    by (cases a; cases b) (auto simp: lattice_join_def min.commute max.commute conj_commute disj_commute)
  show "rbind (lattice_join name a b) (\<lambda>x. lattice_join name x c) =
      rbind (lattice_join name b c) (lattice_join name a)"
    by (rule lattice_assoc)
  show "lattice_join name c a = Inr c" if "lattice_join name a b = Inr c"
    using that by (cases a; cases b) (auto simp: lattice_join_def bool_value_def split: if_splits)
qed

section \<open>What a lattice contract promises\<close>

text \<open>An expression that is a call of a primitive and nothing else.\<close>

definition proper_merge :: "json \<Rightarrow> bool" where
  "proper_merge e \<longleftrightarrow> as_str (jfield e ''var'') = None \<and> jget e ''literal'' = None \<and>
     as_str (jfield (jfield e ''call'') ''table'') = None"

definition lattice_kinds :: "string set" where
  "lattice_kinds = {''lattice'', ''key-min''}"

lemma lattice_kindD:
  assumes "fst (contract_kind t) \<in> lattice_kinds"
  shows "\<not> t_constructor t \<and> t_merge t \<noteq> JNull \<and> merge_vars (t_merge t) = [''new'', ''old''] \<and>
    (\<exists>name \<in> lattice_primitives. call_primitive (t_merge t) = Some name)"
  using assms by (auto simp: contract_kind_def lattice_kinds_def lattice_primitives_def Let_def split: if_splits)

lemma sorted_pair:
  assumes "sort xs = [a, b :: 'a :: linorder]"
  shows "xs = [a, b] \<or> xs = [b, a]"
proof -
  have m: "mset xs = {#a, b#}" using assms by (metis mset_sort mset.simps)
  then have "size (mset xs) = 2" by simp
  then obtain x y where xs: "xs = [x, y]" by (auto simp: numeral_2_eq_2 length_Suc_conv)
  with m have "x = a \<and> y = b \<or> x = b \<and> y = a" by (auto simp: add_eq_conv_ex)
  with xs show ?thesis by auto
qed

lemma merge_vars_pair:
  assumes "merge_vars e = [''new'', ''old'']"
  obtains x y where "as_array (jfield e ''args'') = Some [x, y]"
    "as_str (jfield x ''var'') = Some ''old'' \<and> as_str (jfield y ''var'') = Some ''new'' \<or>
     as_str (jfield x ''var'') = Some ''new'' \<and> as_str (jfield y ''var'') = Some ''old''"
proof -
  let ?var = "\<lambda>a. case as_str (jfield a ''var'') of None \<Rightarrow> '''' | Some s \<Rightarrow> s"
  have v: "map ?var (args_of e) = [''old'', ''new''] \<or> map ?var (args_of e) = [''new'', ''old'']"
    using sorted_pair assms unfolding merge_vars_def by blast
  then have "length (map ?var (args_of e)) = 2" by auto
  then obtain x y where xy: "args_of e = [x, y]" by (auto simp: numeral_2_eq_2 length_Suc_conv)
  then have "as_array (jfield e ''args'') = Some [x, y]" by (auto simp: args_of_def split: option.splits)
  then show thesis by (rule that) (use v xy in \<open>auto split: option.splits\<close>)
qed

lemma merge_expression_lattice:
  assumes "proper_merge e" "merge_vars e = [''new'', ''old'']" "call_primitive e = Some name"
    "name \<in> lattice_primitives"
  shows "merge_expression e old new g =
    rbind (j_string (jfield (jfield e ''call'') ''output'')) (\<lambda>_. rmap (Pair g) (lattice_join name old new))"
proof -
  from merge_vars_pair [OF assms(2)] obtain x y where args: "as_array (jfield e ''args'') = Some [x, y]"
    and vars: "as_str (jfield x ''var'') = Some ''old'' \<and> as_str (jfield y ''var'') = Some ''new'' \<or>
      as_str (jfield x ''var'') = Some ''new'' \<and> as_str (jfield y ''var'') = Some ''old''" .
  from vars have ev: "smapM (\<lambda>a g. merge_expression a old new g) [x, y] g = Inr (g, [old, new]) \<or>
      smapM (\<lambda>a g. merge_expression a old new g) [x, y] g = Inr (g, [new, old])"
    by (auto simp: merge_expression.simps [of x] merge_expression.simps [of y])
  have nolit: "jfield e ''literal'' = JNull" using assms(1) by (simp add: proper_merge_def jfield_def)
  have "merge_expression e old new g =
      rbind (smapM (\<lambda>a g. merge_expression a old new g) [x, y] g) (\<lambda>(g1, args).
      rbind (j_string (jfield (jfield e ''call'') ''output'')) (\<lambda>out.
      rmap (\<lambda>v. (g1, v)) (run_primitive g1 name args out)))"
    using assms(1,3) args nolit
    by (simp add: merge_expression.simps [of e] proper_merge_def call_primitive_def j_string_def
        del: smapM.simps as_str_Some as_array_Some)
  moreover have "run_primitive g name [a, b] out = lattice_join name a b" for a b out
    by (simp add: run_primitive_def primitive_lattice [OF assms(4)] rmap_def rbind_def split: sum.split)
  ultimately show ?thesis using ev by (auto simp: lattice.comm [of name new old])
qed

text \<open>The contract that an artifact gives for a table.\<close>

definition given_contract :: "program \<Rightarrow> nat \<Rightarrow> json" where
  "given_contract p i = jat (jfield (jfield (p_artifact p) ''merge_contracts'') ''tables'') i"

definition of_kind :: "json \<Rightarrow> string set \<Rightarrow> bool" where
  "of_kind c ks \<longleftrightarrow> (case as_str (jfield c ''kind'') of None \<Rightarrow> False | Some k \<Rightarrow> k \<in> ks)"

lemma contract_table_fields:
  "contract_table tables t = Inr d \<Longrightarrow>
   jfield d ''kind'' = JStr (fst (contract_kind t)) \<and> jfield d ''equal_inputs'' = JStr (merge_equal_inputs t)"
  by (auto simp: contract_table_def Let_def res_simps jfield_def split: prod.splits)

lemma given_contract_checked:
  assumes "check_contracts p = Inr u" "i < length (p_tables p)" "of_kind (given_contract p i) ks"
  shows "fst (contract_kind (p_tables p ! i)) \<in> ks \<and>
    jfield (given_contract p i) ''equal_inputs'' = JStr (merge_equal_inputs (p_tables p ! i))"
proof -
  let ?ts = "jfield (jfield (p_artifact p) ''merge_contracts'') ''tables''"
  from assms(3) have "given_contract p i \<noteq> JNull" by (auto simp: of_kind_def jfield_def)
  then obtain cs where cs: "as_array ?ts = Some cs" "i < length cs" "given_contract p i = cs ! i"
    by (cases ?ts) (auto simp: given_contract_def split: if_splits)
  with assms(1) have len: "length cs = length (p_tables p)"
    and fold: "rfold (\<lambda>tc _. check_contract (p_tables p) tc) (zip (p_tables p) cs) () = Inr u"
    by (auto simp: check_contracts_def split: if_splits)
  have "(p_tables p ! i, cs ! i) \<in> set (zip (p_tables p) cs)"
    using assms(2) len by (auto simp: in_set_zip)
  from rfold_all_Inr [OF fold this] obtain d where d: "contract_table (p_tables p) (p_tables p ! i) = Inr d"
    and same: "jfield (cs ! i) ''kind'' = jfield d ''kind''" "jfield (cs ! i) ''equal_inputs'' = jfield d ''equal_inputs''"
    by (auto simp: check_contract_def differs_in_def res_simps split: if_splits)
  with contract_table_fields [OF d] assms(3) cs(3) show ?thesis by (auto simp: of_kind_def)
qed

text \<open>A colliding write either runs the accepted program or interprets the expression.\<close>

lemma proper_plain:
  assumes "proper_merge e" "merge_vars e = [''new'', ''old'']"
  shows "plain e"
proof -
  from merge_vars_pair [OF assms(2)] obtain x y where args: "as_array (jfield e ''args'') = Some [x, y]"
    and vars: "as_str (jfield x ''var'') = Some ''old'' \<and> as_str (jfield y ''var'') = Some ''new'' \<or>
      as_str (jfield x ''var'') = Some ''new'' \<and> as_str (jfield y ''var'') = Some ''old''" .
  then have "as_str (jfield x ''var'') \<noteq> None" "as_str (jfield y ''var'') \<noteq> None"
    by (auto simp del: as_str_Some)
  then show ?thesis
    using assms(1) args by (simp add: plain.simps [of e] plain.simps [of x] plain.simps [of y] proper_merge_def
        del: as_str_Some as_array_Some)
qed

lemma merge_value_lattice:
  assumes "check_contracts p = Inr u" "i < length (p_tables p)" "of_kind (given_contract p i) lattice_kinds"
    and e: "e = t_merge (p_tables p ! i)" "proper_merge e"
    and plan: "parse_merges p raw = Inr ms" "raw \<noteq> JNull" "distinct (map t_name (p_tables p))"
    and g: "g_program g = p\<lparr>p_merge_programs := ms\<rparr>"
    and name: "call_primitive e = Some name"
  shows "merge_value i old new g =
    rbind (j_string (jfield (jfield e ''call'') ''output'')) (\<lambda>_. rmap (Pair g) (lattice_join name old new))"
proof -
  note given = given_contract_checked [OF assms(1-3)]
  note kind = lattice_kindD [OF conjunct1 [OF given]]
  from kind name e(1) have vars: "merge_vars e = [''new'', ''old'']" and n: "name \<in> lattice_primitives" by auto
  have table: "\<not> equal_returns_old g i (p_tables p ! i)"
  proof -
    have "merge_equal_inputs (p_tables p ! i) = ''evaluate''"
      using e by (simp add: merge_equal_inputs_def proper_merge_def)
    moreover have "jfield (p_artifact p) ''merge_contracts'' \<noteq> JNull"
      using assms(3) by (auto simp: of_kind_def given_contract_def jfield_def)
    ultimately show ?thesis
      using given g by (simp add: equal_returns_old_def given_contract_def)
  qed
  from accepted_program [OF plan assms(2) refl] kind obtain types m q
    where q: "program_of (p_tables p) types (p_tables p ! i) m" "parsed_as p m q" "mp_merges ms i = Some q"
    by (auto simp: has_merge_def)
  have "run_merge_program q old new g = merge_expression e old new g"
    using accepted_runs [OF q(1,2)] proper_plain [OF e(2) vars] plan(3) g e(1) by simp
  then have "merge_value i old new g = merge_expression e old new g"
    using table kind q(3) g e(1) assms(2) by (simp add: merge_value_def)
  then show ?thesis using merge_expression_lattice [OF e(2) vars name n] by simp
qed

text \<open>Writes to one key of a function table, merged one after the other.\<close>

primrec merge_writes :: "nat \<Rightarrow> val \<Rightarrow> val list \<Rightarrow> graph \<Rightarrow> (graph \<times> val) res" where
  "merge_writes i old [] g = Inr (g, old)"
| "merge_writes i old (v # vs) g = rbind (merge_value i old v g) (\<lambda>(g1, w). merge_writes i w vs g1)"

lemma merge_writes_join:
  assumes "\<And>a b. merge_value i a b g = rmap (Pair g) (lattice_join name a b)"
  shows "merge_writes i v vs g = rmap (Pair g) (lattice.merge_all name v vs)"
  by (induction vs arbitrary: v) (simp_all add: assms rmap_def rbind_def split: sum.split)

text \<open>
  C10. A contract of kind \<open>lattice\<close> or \<open>key-min\<close> means that writes may be merged in any order. When the
  contracts and the merge plan of an artifact were accepted and the contract of a table has one of these
  kinds, merging values that collide at one key gives the same result, or the same error, for every order
  of the values, with compiled merge programs or interpreted expressions; the graph is untouched, and
  merging a value again that was merged before changes nothing.
\<close>

theorem lattice_merges_commute:
  assumes "check_contracts p = Inr ()" "i < length (p_tables p)" "of_kind (given_contract p i) lattice_kinds"
    and "proper_merge (t_merge (p_tables p ! i))"
    and "parse_merges p raw = Inr ms" "raw \<noteq> JNull" "distinct (map t_name (p_tables p))"
    and "g_program g = p\<lparr>p_merge_programs := ms\<rparr>"
  shows "(mset (v # vs) = mset (w # ws) \<longrightarrow> merge_writes i v vs g = merge_writes i w ws g) \<and>
    (\<forall>h z. merge_writes i v vs g = Inr (h, z) \<longrightarrow> h = g \<and> (\<forall>x \<in> set vs. merge_value i z x g = Inr (g, z)))"
proof -
  let ?e = "t_merge (p_tables p ! i)"
  from lattice_kindD [OF conjunct1 [OF given_contract_checked [OF assms(1-3)]]]
  obtain name where name: "call_primitive ?e = Some name" by auto
  note val = merge_value_lattice [OF assms(1-3) refl assms(4-8) name]
  show ?thesis
  proof (cases "j_string (jfield (jfield ?e ''call'') ''output'')")
    case (Inl er)
    have "merge_value i a b g = Inl er" for a b using val [of a b] Inl by simp
    then have all: "merge_writes i a bs g = (if bs = [] then Inr (g, a) else Inl er)" for a bs
      by (cases bs) simp_all
    show ?thesis
    proof (intro conjI impI)
      assume m: "mset (v # vs) = mset (w # ws)"
      then have "length vs = length ws" using mset_eq_length by fastforce
      then have "vs = [] \<longleftrightarrow> ws = []" by auto
      with m show "merge_writes i v vs g = merge_writes i w ws g" unfolding all by auto
    qed (unfold all, auto split: if_splits)
  next
    case (Inr out)
    then have val: "merge_value i a b g = rmap (Pair g) (lattice_join name a b)" for a b
      using val [of a b] by simp
    note all = merge_writes_join [OF val]
    show ?thesis
    proof (intro conjI allI impI)
      assume "mset (v # vs) = mset (w # ws)"
      then have "lattice.merge_all name v vs = lattice.merge_all name w ws" by (rule lattice.merge_all_perm)
      then show "merge_writes i v vs g = merge_writes i w ws g" unfolding all by simp
    next
      fix h z
      assume "merge_writes i v vs g = Inr (h, z)"
      then have z: "h = g" "lattice.merge_all name v vs = Inr z" by (auto simp: all rmap_def res_simps)
      show "h = g" by (rule z(1))
      show "\<forall>x \<in> set vs. merge_value i z x g = Inr (g, z)"
        using lattice.merge_all_absorbs [OF z(2)] by (simp add: val rmap_def)
    qed
  qed
qed

section \<open>What a contract without constructs promises\<close>

lemma visit_call_mono:
  "visit_call tables j st = Inr st' \<Longrightarrow> fst st \<subseteq> fst st' \<and> snd st \<subseteq> snd st'"
  by (auto simp: visit_call_def res_simps split: option.splits if_splits)

lemma visit_mono: "visit tables j st = Inr st' \<Longrightarrow> fst st \<subseteq> fst st' \<and> snd st \<subseteq> snd st'"
proof (induction "size j" arbitrary: j st st' rule: less_induct)
  case less
  from less.prems obtain st1 where st1: "visit_call tables j st = Inr st1"
    "rfold (visit tables) (args_of j) st1 = Inr st'" by (auto simp: visit.simps [of _ j] res_simps)
  have "fst st1 \<subseteq> fst st' \<and> snd st1 \<subseteq> snd st'"
    by (rule rfold_invariant [OF st1(2)]) (use less.hyps [OF size_args_of] in \<open>blast+\<close>)
  then show ?case using visit_call_mono [OF st1(1)] by auto
qed

lemma find_position:
  assumes "find (\<lambda>t. t_name t = n) ts = Some t"
  shows "\<exists>i. table_position ts n = Some i \<and> i < length ts \<and> ts ! i = t"
proof -
  from assms obtain i where i: "i < length ts" "t_name (ts ! i) = n" "ts ! i = t" "\<forall>j < i. t_name (ts ! j) \<noteq> n"
    by (auto simp: find_Some_iff)
  then have "table_position ts n = Some i"
    unfolding table_position_def find_Some_iff by (intro exI [of _ i]) simp
  with i show ?thesis by blast
qed

lemma evaluate_reads_only:
  assumes "rfold (visit tables) es st = Inr (R, {})" "smapM (\<lambda>e g. merge_expression e old new g) es g = Inr (h, vs)"
    and step: "\<And>e st st' g h v. e \<in> set es \<Longrightarrow> visit tables e st = Inr st' \<Longrightarrow> fst st' \<subseteq> R \<Longrightarrow> snd st' = {} \<Longrightarrow>
      g_tables g = tables \<Longrightarrow> merge_expression e old new g = Inr (h, v) \<Longrightarrow> h = g"
    and "g_tables g = tables"
  shows "h = g"
  using assms
proof (induction es arbitrary: st g vs)
  case (Cons e es)
  from Cons.prems(1) obtain st1 where st1: "visit tables e st = Inr st1" "rfold (visit tables) es st1 = Inr (R, {})"
    by (auto simp: res_simps)
  from Cons.prems(2) obtain g1 v ws where g1: "merge_expression e old new g = Inr (g1, v)"
    "smapM (\<lambda>e g. merge_expression e old new g) es g1 = Inr (h, ws)" by (auto simp: res_simps)
  have "fst st1 \<subseteq> fst (R, {} :: string set) \<and> snd st1 \<subseteq> snd (R, {} :: string set)"
    by (rule rfold_invariant [OF st1(2)]) (use visit_mono in \<open>blast+\<close>)
  then have "g1 = g"
    using Cons.prems(3) [OF _ st1(1) _ _ Cons.prems(4) g1(1)] by simp
  with Cons.IH [OF st1(2) g1(2)] Cons.prems(3,4) show ?case by fastforce
qed simp

text \<open>
  An expression whose contract has no constructs, and whose reads are functions, leaves the graph as it
  is. (A relation that is called in an expression is requested like a constructor, though its contract
  lists it under the reads.)
\<close>

lemma merge_reads_only:
  "visit tables e st = Inr (R, {}) \<Longrightarrow> \<forall>t \<in> set tables. t_name t \<in> R \<longrightarrow> \<not> t_virtual t \<Longrightarrow> g_tables g = tables \<Longrightarrow>
   merge_expression e old new g = Inr (h, v) \<Longrightarrow> h = g"
proof (induction "size e" arbitrary: e st R g h v rule: less_induct)
  case less
  show ?case
  proof (cases "as_str (jfield e ''var'') = None \<and> jfield e ''literal'' = JNull")
    case True
    with less.prems(4) obtain aa g1 args where aa: "as_array (jfield e ''args'') = Some aa"
      "smapM (\<lambda>a g. merge_expression a old new g) aa g = Inr (g1, args)"
      and call: "(case as_str (jfield (jfield e ''call'') ''table'') of
          Some name \<Rightarrow> rbind (ok_or (table_position (g_tables g1) name) (Err ''merge operator'')) (\<lambda>t. merge_table t args g1)
        | None \<Rightarrow> rbind (j_string (jfield (jfield e ''call'') ''primitive'')) (\<lambda>name.
            rbind (j_string (jfield (jfield e ''call'') ''output'')) (\<lambda>out.
            rmap (\<lambda>v. (g1, v)) (run_primitive g1 name args out)))) = Inr (h, v)"
      by (auto simp: merge_expression.simps [of e] res_simps simp del: as_str_Some as_array_Some
          split: option.splits)
    from less.prems(1) obtain st1 where st1: "visit_call tables e st = Inr st1" "rfold (visit tables) aa st1 = Inr (R, {})"
      using aa(1) by (auto simp: visit.simps [of _ e] args_of_def res_simps)
    have g1: "g1 = g"
    proof (rule evaluate_reads_only [OF st1(2) aa(2)])
      fix a st st' g h v
      assume a: "a \<in> set aa" "visit tables a st = Inr st'" "fst st' \<subseteq> R" "snd st' = {}" "g_tables g = tables"
        "merge_expression a old new g = Inr (h, v)"
      have "size a < size e" using aa(1) a(1) by (auto dest: size_jfield_arr)
      then show "h = g"
        using less.hyps [of a st "fst st'" g h v] a less.prems(2) by (metis prod.collapse subsetD)
    qed (rule less.prems(3))
    show ?thesis
    proof (cases "as_str (jfield (jfield e ''call'') ''table'')")
      case None
      with call g1 show ?thesis by (auto simp: rmap_def res_simps simp del: as_str_Some)
    next
      case (Some n)
      with st1(1) obtain t where t: "find (\<lambda>t. t_name t = n) tables = Some t"
        "st1 = (if t_constructor t then (fst st, insert n (snd st)) else (insert n (fst st), snd st))"
        by (auto simp: visit_call_def res_simps simp del: as_str_Some)
      from find_position [OF t(1)] obtain i where i: "table_position tables n = Some i" "i < length tables" "tables ! i = t"
        by blast
      have "fst st1 \<subseteq> fst (R, {} :: string set) \<and> snd st1 \<subseteq> snd (R, {} :: string set)"
        by (rule rfold_invariant [OF st1(2)]) (use visit_mono in \<open>blast+\<close>)
      then have "n \<in> R" using t(2) by (auto split: if_splits)
      moreover have "t_name t = n" using t(1) by (auto simp: find_Some_iff)
      ultimately have "\<not> t_virtual t" using less.prems(2) i by auto
      with call Some i g1 less.prems(3) show ?thesis
        by (auto simp: merge_table_def idx_def res_simps simp del: as_str_Some)
    qed
  next
    case False
    with less.prems(4) show ?thesis
      by (auto simp: merge_expression.simps [of e] rmap_def res_simps simp del: as_str_Some
          split: if_splits option.splits)
  qed
qed

section \<open>A program with an accepted contract\<close>

definition contracted_program :: program where
  "contracted_program =
     min_program\<lparr>p_artifact := JObj [(''merge_contracts'', case emit_contracts min_program of Inr j \<Rightarrow> j | Inl _ \<Rightarrow> JNull)]\<rparr>"

definition contracted_plan :: json where
  "contracted_plan = (case compile_merges contracted_program of Inr j \<Rightarrow> j | Inl _ \<Rightarrow> JNull)"

lemma contracted_accepted:
  "check_contracts contracted_program = Inr ()"
  "of_kind (given_contract contracted_program 0) lattice_kinds"
  "proper_merge (t_merge (p_tables contracted_program ! 0))"
  "case parse_merges contracted_program contracted_plan of Inr _ \<Rightarrow> True | Inl _ \<Rightarrow> False"
  "contracted_plan \<noteq> JNull"
  by code_simp+

definition contracted_graph :: "merge_programs \<Rightarrow> graph" where
  "contracted_graph ms = empty_graph demo_host (\<lambda>t k. 0) 8 (\<lambda>_. None)
     (contracted_program\<lparr>p_merge_programs := ms\<rparr>) False False KOff"

lemma lattice_merges_commute_witness:
  "\<exists>ms. parse_merges contracted_program contracted_plan = Inr ms \<and>
     merge_writes 0 (VInt 3) [VInt 5, VInt 2] (contracted_graph ms) =
     merge_writes 0 (VInt 2) [VInt 3, VInt 5] (contracted_graph ms)"
proof -
  obtain ms where ms: "parse_merges contracted_program contracted_plan = Inr ms"
    using contracted_accepted(4) by (auto split: sum.splits)
  have t: "p_tables contracted_program = [min_table]"
    by (simp add: contracted_program_def min_program_def)
  have g: "g_program (contracted_graph ms) = contracted_program\<lparr>p_merge_programs := ms\<rparr>"
    by (simp add: contracted_graph_def empty_graph_def Let_def)
  have "merge_writes 0 (VInt 3) [VInt 5, VInt 2] (contracted_graph ms) =
      merge_writes 0 (VInt 2) [VInt 3, VInt 5] (contracted_graph ms)"
    by (rule lattice_merges_commute [OF contracted_accepted(1) _ contracted_accepted(2,3) ms contracted_accepted(5) _ g,
        THEN conjunct1, rule_format]) (simp_all add: t)
  with ms show ?thesis by blast
qed

end
