(* ===== verification/MergeOrders.thy ===== *)
theory MergeOrders
  imports MergePrograms "HOL-Library.Multiset"
begin

text \<open>
  The fixed entry orders of the merge plan and the loops that compute it. An order is usable when every
  atom, at its turn, has its key or its result known; the greedy loop finds such an order whenever one
  exists. The relay loop ends within as many passes as there are tables.
\<close>

section \<open>Usable orders\<close>

definition atom_ready :: "table list \<Rightarrow> nat set \<Rightarrow> atom \<Rightarrow> bool" where
  "atom_ready tables known q \<longleftrightarrow> key_known known q = Inr True \<or> result_known tables known q = Inr True"

fun usable :: "table list \<Rightarrow> atom list \<Rightarrow> nat set \<Rightarrow> nat list \<Rightarrow> bool" where
  "usable tables query known [] = True"
| "usable tables query known (i # js) \<longleftrightarrow> i < length query \<and> atom_ready tables known (query ! i) \<and>
     usable tables query (known \<union> slots_of (a_args (query ! i))) js"

lemma key_known_mono: "key_known known q = Inr True \<Longrightarrow> known \<subseteq> wider \<Longrightarrow> key_known wider q = Inr True"
  by (auto simp: key_known_def slot_unknown_def list_all_iff split: if_splits arg.splits)

lemma result_known_mono:
  "result_known tables known q = Inr True \<Longrightarrow> known \<subseteq> wider \<Longrightarrow> result_known tables wider q = Inr True"
  by (auto simp: result_known_def slot_unknown_def res_simps split: if_splits arg.splits call.splits)

lemma atom_ready_mono: "atom_ready tables known q \<Longrightarrow> known \<subseteq> wider \<Longrightarrow> atom_ready tables wider q"
  unfolding atom_ready_def by (blast intro: key_known_mono result_known_mono)

lemma atom_rank_ready:
  assumes "atom_rank tables query known i = Inr r"
  shows "i < length query" "(r \<noteq> None) = atom_ready tables known (query ! i)" "\<forall>p. r = Some p \<longrightarrow> snd p = i"
  using assms by (auto simp: atom_rank_def atom_ready_def res_simps split: if_splits)

lemma next_atom_some:
  assumes "next_atom tables query known remaining = Inr (Some (k, i))"
  shows "i \<in> set remaining \<and> i < length query \<and> atom_ready tables known (query ! i)"
proof -
  from assms obtain rs where rs: "rmapM (atom_rank tables query known) remaining = Inr rs"
    and ne: "List.map_filter id rs \<noteq> []" and m: "(k, i) = Min (set (List.map_filter id rs))"
    by (auto simp: next_atom_def rmap_def rbind_eq_Inr Let_def split: if_splits)
  have "(k, i) \<in> set (List.map_filter id rs)"
    using Min_in [of "set (List.map_filter id rs)"] ne by (simp add: m)
  then have "Some (k, i) \<in> set rs" by (auto simp: map_filter_def)
  from rmapM_mem [OF rs this] obtain j where "j \<in> set remaining" "atom_rank tables query known j = Inr (Some (k, i))"
    by blast
  then show ?thesis using atom_rank_ready [of tables query known j] by force
qed

lemma next_atom_none:
  assumes "next_atom tables query known remaining = Inr None" "i \<in> set remaining"
  shows "i < length query \<and> \<not> atom_ready tables known (query ! i)"
proof -
  from assms(1) obtain rs where rs: "rmapM (atom_rank tables query known) remaining = Inr rs"
    and e: "List.map_filter id rs = []"
    by (auto simp: next_atom_def rmap_def rbind_eq_Inr Let_def split: if_splits)
  from rmapM_Inr [OF rs] assms(2) obtain r where r: "r \<in> set rs" "atom_rank tables query known i = Inr r"
    by (auto simp: list_all2_conv_all_nth in_set_conv_nth) blast
  have "r = None" using e r(1) by (cases r) (force simp: map_filter_def filter_empty_conv)+
  with atom_rank_ready [OF r(2)] show ?thesis by simp
qed

text \<open>What the loop returns: a usable order, and atoms of which none is ready at the end.\<close>

fun known_after :: "atom list \<Rightarrow> nat set \<Rightarrow> nat list \<Rightarrow> nat set" where
  "known_after query known [] = known"
| "known_after query known (i # js) = known_after query (known \<union> slots_of (a_args (query ! i))) js"

lemma known_after_Un: "known_after query known js = known \<union> (\<Union>i \<in> set js. slots_of (a_args (query ! i)))"
  by (induction js arbitrary: known) auto

lemma entry_order_result:
  "entry_order n tables query known remaining order = Inr (order', rest) \<Longrightarrow> length remaining \<le> n \<Longrightarrow>
   \<exists>js. order' = order @ js \<and> mset js + mset rest = mset remaining \<and> usable tables query known js \<and>
     (\<forall>i \<in> set rest. \<not> atom_ready tables (known_after query known js) (query ! i))"
proof (induction n tables query known remaining order rule: entry_order.induct)
  case (2 n tables query known remaining order)
  from 2(2) obtain nx where nx: "next_atom tables query known remaining = Inr nx"
    by (auto simp: rbind_eq_Inr)
  show ?case
  proof (cases nx)
    case None
    with nx 2(2) next_atom_none [of tables query known remaining] show ?thesis by auto
  next
    case (Some p)
    obtain k i where p: "p = (k, i)" by (cases p)
    note i = next_atom_some [OF nx [unfolded Some p]]
    have run: "entry_order n tables query (known \<union> slots_of (a_args (query ! i))) (remove1 i remaining) (order @ [i])
        = Inr (order', rest)"
      using 2(2) nx Some p i by simp
    have "length (remove1 i remaining) \<le> n"
      using 2(3) i by (simp add: length_remove1)
    from 2(1) [OF nx Some p [symmetric] _ run this] i obtain js where js: "order' = order @ i # js"
      "mset js + mset rest = mset (remove1 i remaining)"
      "usable tables query (known \<union> slots_of (a_args (query ! i))) js"
      "\<forall>j \<in> set rest. \<not> atom_ready tables (known_after query (known \<union> slots_of (a_args (query ! i))) js) (query ! j)"
      by (auto simp: p)
    have "mset (i # js) + mset rest = mset remaining"
      using js(2) i by (simp add: insert_DiffM)
    with js i show ?thesis by (intro exI [of _ "i # js"]) simp
  qed
qed auto

text \<open>No usable order of all atoms exists when the loop stops early.\<close>

lemma usable_reaches:
  assumes "usable tables query known os" "\<forall>i \<in> set rest. \<not> atom_ready tables all (query ! i)"
    and "known \<union> (\<Union>i \<in> set os - set rest. slots_of (a_args (query ! i))) \<subseteq> all"
  shows "set os \<inter> set rest = {}"
  using assms
proof (induction os arbitrary: known)
  case (Cons i os)
  have "atom_ready tables all (query ! i)"
    using Cons.prems(1,3) by (auto intro: atom_ready_mono)
  with Cons.prems(2) have i: "i \<notin> set rest" by blast
  then have "set os \<inter> set rest = {}"
    using Cons.prems by (intro Cons.IH [of "known \<union> slots_of (a_args (query ! i))"]) auto
  with i show ?case by simp
qed simp

text \<open>
  C29. The greedy choice of an entry order is sound and complete. The loop splits the other atoms into
  an order and a residue; the order is usable, so every lookup it schedules has a bound key or a bound
  constructor result, and the residue is empty exactly when some usable order of all of them exists, so
  an anchor is reported as unsupported only if no order could have worked.
\<close>

theorem entry_order_greedy:
  assumes "entry_order (length remaining) tables query known remaining [] = Inr (order, rest)"
  shows "mset order + mset rest = mset remaining \<and> usable tables query known order \<and>
    (rest = [] \<longleftrightarrow> (\<exists>os. mset os = mset remaining \<and> usable tables query known os))"
proof -
  from entry_order_result [OF assms]
  have r: "mset order + mset rest = mset remaining" "usable tables query known order"
    "\<forall>i \<in> set rest. \<not> atom_ready tables (known_after query known order) (query ! i)" by auto
  have "rest = []" if os: "mset os = mset remaining" "usable tables query known os" for os
  proof -
    have sets: "set os = set order \<union> set rest"
      using os(1) r(1) by (metis set_mset_mset set_mset_union)
    then have "set os \<inter> set rest = {}"
      by (intro usable_reaches [OF os(2) r(3)]) (auto simp: known_after_Un)
    with sets show ?thesis by auto
  qed
  moreover have "mset order = mset remaining" if "rest = []" using r(1) that by simp
  ultimately show ?thesis using r(1,2) by blast
qed

text \<open>The query \<open>f(x, y), r(y, z)\<close> with \<open>x\<close> known: \<open>f\<close> is looked up, then \<open>r\<close> by its first column.\<close>

definition chain_query :: "atom list" where
  "chain_query = [\<lparr>a_call = CTable 0, a_args = [Slot 0, Slot 1]\<rparr>, \<lparr>a_call = CTable 0, a_args = [Slot 1, Slot 2]\<rparr>]"

definition chain_table :: table where
  "chain_table = \<lparr>t_name = ''f'', t_schema = [JNull, JNull], t_constructor = False, t_virtual = False,
     t_merge = JNull, t_internal = False\<rparr>"

lemma entry_order_greedy_witness:
  "entry_order (length [1, 0]) [chain_table] chain_query {0} [1, 0] [] = Inr ([0, 1], []) \<and>
   usable [chain_table] chain_query {0} [0, 1]"
proof -
  have "entry_order (length [1, 0]) [chain_table] chain_query {0} [1, 0] [] = Inr ([0, 1], [])"
    by code_simp
  from entry_order_greedy [OF this] this show ?thesis by blast
qed

section \<open>The passes end\<close>

named_theorems halts_rules \<open>operations that never report exhausted fuel\<close>

definition halts :: "'a res \<Rightarrow> bool" where
  "halts m \<longleftrightarrow> m \<noteq> Inl Diverge"

lemma halts_simps [simp]: "halts (Inr x)" "halts (Inl e) \<longleftrightarrow> e \<noteq> Diverge"
  by (simp_all add: halts_def)

lemma halts_bind: "halts m \<Longrightarrow> (\<And>x. m = Inr x \<Longrightarrow> halts (f x)) \<Longrightarrow> halts (rbind m f)"
  by (cases m) auto

lemma halts_if [halts_rules]: "(b \<Longrightarrow> halts x) \<Longrightarrow> (\<not> b \<Longrightarrow> halts y) \<Longrightarrow> halts (if b then x else y)"
  by simp

lemma halts_base [halts_rules]:
  "e \<noteq> Diverge \<Longrightarrow> halts (ok_or x e)" "halts (idx xs i)" "halts (j_array j)" "halts (j_string j)"
  by (auto simp: halts_def ok_or_def idx_def j_array_def j_string_def split: option.splits)

lemma halts_rmap [halts_rules]: "halts m \<Longrightarrow> halts (rmap f m)"
  by (cases m) auto

lemma halts_rmapM [halts_rules]: "(\<And>x. x \<in> set xs \<Longrightarrow> halts (f x)) \<Longrightarrow> halts (rmapM f xs)"
  by (induction xs) (auto intro!: halts_bind)

lemma halts_rfold [halts_rules]: "(\<And>x s. x \<in> set xs \<Longrightarrow> halts (f x s)) \<Longrightarrow> halts (rfold f xs s)"
  by (induction xs arbitrary: s) (auto intro!: halts_bind)

lemma halts_smapM [halts_rules]: "(\<And>x s. x \<in> set xs \<Longrightarrow> halts (f x s)) \<Longrightarrow> halts (smapM f xs s)"
  by (induction xs arbitrary: s) (auto intro!: halts_bind)

lemma halts_last_sort [halts_rules]: "halts (last_sort t)"
  by (simp add: last_sort_def)

lemma halts_arg_type [halts_rules]: "halts (arg_type sorts a)"
  by (auto simp: arg_type_def intro: halts_rules split: option.split)

lemma halts_types_differ [halts_rules]: "halts (types_differ sorts xs)"
  by (induction sorts xs rule: types_differ.induct) (auto intro!: halts_bind halts_rules)

lemma halts_lower_call [halts_rules]: "halts (lower_call tables types e args st)"
  by (auto simp: lower_call_def intro!: halts_bind halts_rules split: option.split)

lemma halts_lower_var [halts_rules]: "halts (lower_var e v st)"
  by (auto simp: lower_var_def intro!: halts_bind halts_rules)

lemma halts_lower_emit [halts_rules]: "halts (lower_emit e args r)"
  by (auto simp: lower_emit_def Let_def split: prod.split)

lemma halts_lower [halts_rules]: "halts (lower tables types e st)"
proof (induction e arbitrary: st rule: measure_induct_rule [where f = size])
  case (less e)
  have "halts (smapM (lower tables types) aa st)" if "jfield e ''args'' = JArr aa" for aa st
    by (rule halts_smapM, rule less.IH) (rule size_jfield_arr [OF that])
  then show ?case
    by (auto simp: lower.simps [of _ _ e] intro!: halts_bind intro: halts_rules split: option.split)
qed

lemma halts_compile_table [halts_rules]: "halts (compile_table tables types t st)"
  by (auto simp: compile_table_def result_type_def split_beta intro!: halts_bind halts_rules)

lemma halts_any_reads [halts_rules]: "halts (any_reads tables built as)"
proof (induction "as")
  case (Cons a as)
  have "halts (reads_built tables built a)"
    by (auto simp: reads_built_def intro!: halts_rules split: call.split)
  with Cons show ?case by (auto intro!: halts_bind)
qed simp

lemma halts_relay_targets [halts_rules]: "halts (relay_targets tables es acc)"
proof (induction es arbitrary: acc)
  case (Cons e es)
  then show ?case
    by (auto simp: unit_marker_def intro!: halts_bind halts_rules split: op.split arg.split val.split)
qed simp

lemma halts_relay_pass [halts_rules]: "halts (relay_pass p built rs)"
  unfolding relay_pass_def
  by (rule halts_rfold) (auto simp: relay_rule_def split_beta intro!: halts_bind halts_rules)

lemma relay_targets_tables:
  "relay_targets tables es acc = Inr (Some names) \<Longrightarrow> set acc \<subseteq> t_name ` set tables \<Longrightarrow>
   set names \<subseteq> t_name ` set tables"
proof (induction es arbitrary: acc)
  case (Cons e es)
  then show ?case
    by (auto simp: res_simps split: op.splits arg.splits val.splits if_splits) fastforce+
qed auto

text \<open>A pass keeps the set within the tables, and one that reports a fresh relay enlarged it.\<close>

definition grows :: "string set \<Rightarrow> relays \<Rightarrow> bool" where
  "grows built st \<longleftrightarrow> built \<subseteq> fst st \<and> (snd (snd st) \<longrightarrow> built \<noteq> fst st)"

lemma grows_add: "grows built st \<Longrightarrow> grows built (add_relay rid name st)"
  by (auto simp: grows_def add_relay_def split: prod.splits)

lemma add_within: "fst st \<subseteq> T \<Longrightarrow> name \<in> T \<Longrightarrow> fst (add_relay rid name st) \<subseteq> T"
  by (auto simp: add_relay_def split: prod.splits)

lemma relay_rule_step:
  assumes "relay_rule p x st = Inr st'" "grows built st" "fst st \<subseteq> built \<union> t_name ` set (p_tables p)"
  shows "grows built st' \<and> fst st' \<subseteq> built \<union> t_name ` set (p_tables p)"
proof -
  let ?T = "built \<union> t_name ` set (p_tables p)"
  have fold: "grows built (fold (add_relay r) names s) \<and> fst (fold (add_relay r) names s) \<subseteq> ?T"
    if "set names \<subseteq> ?T" "grows built s" "fst s \<subseteq> ?T" for r names s
    using that by (induction names arbitrary: s) (auto simp: grows_add add_within)
  obtain rid r where x: "x = (rid, r)" by (cases x)
  from assms(1) have "st' = st \<or> (\<exists>(t :: template) names. relay_targets (p_tables p) (tm_ops t) [] = Inr (Some names) \<and>
      st' = fold (add_relay rid) names st)"
    by (auto simp: relay_rule_def x rbind_eq_Inr split: if_splits option.splits)
  then consider "st' = st" | t :: template and names where "relay_targets (p_tables p) (tm_ops t) [] = Inr (Some names)"
      "st' = fold (add_relay rid) names st" by blast
  then show ?thesis
  proof cases
    case 2
    have "set names \<subseteq> t_name ` set (p_tables p)"
      by (rule relay_targets_tables [OF 2(1)]) simp
    then show ?thesis using fold [of names st rid] assms(2,3) 2(2) by blast
  qed (use assms in simp)
qed

lemma relay_pass_grows:
  assumes "relay_pass p built rs = Inr st"
  shows "grows built st \<and> fst st \<subseteq> built \<union> t_name ` set (p_tables p)"
  by (rule rfold_invariant [OF assms [unfolded relay_pass_def]])
    (auto simp: grows_def dest!: relay_rule_step [where built = built])

lemma halts_relay_loop:
  "card (t_name ` set (p_tables p) - built) < n \<Longrightarrow> halts (relay_loop n p built rs)"
proof (induction n arbitrary: built rs)
  case (Suc n)
  have "halts (relay_loop n p b r)" if pass: "relay_pass p built rs = Inr (b, r, True)" for b r
  proof (rule Suc.IH)
    let ?T = "t_name ` set (p_tables p)"
    from relay_pass_grows [OF pass] have "built \<subset> b" "b \<subseteq> built \<union> ?T" by (auto simp: grows_def)
    then have "?T - b \<subset> ?T - built" by blast
    from psubset_card_mono [OF _ this] Suc.prems show "card (?T - b) < n" by simp
  qed
  then show ?case
    by (auto intro!: halts_bind halts_relay_pass)
qed simp

lemma halts_atom_rank [halts_rules]: "halts (atom_rank tables query known i)"
  by (auto simp: atom_rank_def key_known_def result_known_def intro!: halts_bind halts_rules split: call.split)

lemma halts_entry_order [halts_rules]: "halts (entry_order n tables query known remaining order)"
  by (induction n tables query known remaining order rule: entry_order.induct)
    (auto simp: next_atom_def intro!: halts_bind halts_rules split: option.split)

lemma halts_compile_anchor [halts_rules]: "halts (compile_anchor p built rid query x st)"
  by (auto simp: compile_anchor_def split_beta Let_def reads_built_def intro!: halts_bind halts_rules split: call.split)

text \<open>
  Compiling the merge plan always ends, with a plan or an error, whatever the program: the loop over
  the rules that adds relays is left after at most as many passes as the program has table names that
  were not constructed yet, since every pass that repeats the loop has added one.
\<close>

theorem compile_merges_ends:
  "compile_merges p \<noteq> Inl Diverge \<and> relay_loop (Suc (length (p_tables p))) p built rs \<noteq> Inl Diverge"
proof -
  have loop: "halts (relay_loop n p built rs)" if "length (p_tables p) < n" for n built rs
  proof (rule halts_relay_loop)
    have "card (t_name ` set (p_tables p) - built) \<le> card (t_name ` set (p_tables p))"
      by (rule card_mono) auto
    also have "\<dots> \<le> length (p_tables p)"
      by (rule le_trans [OF card_image_le card_length]) simp
    finally show "card (t_name ` set (p_tables p) - built) < n" using that by simp
  qed
  have "halts (compile_merges p)"
    unfolding compile_merges_def merge_types_def add_type_def compile_entries_def
    by (auto intro!: halts_bind halts_rules loop simp: split_beta simp del: relay_loop.simps)
  with loop [of "Suc (length (p_tables p))"] show ?thesis by (simp add: halts_def del: relay_loop.simps)
qed

section \<open>Accepted orders\<close>

definition good_order :: "program \<Rightarrow> nat \<Rightarrow> nat \<Rightarrow> nat list \<Rightarrow> bool" where
  "good_order p r a order \<longleftrightarrow> r < length (p_rules p) \<and>
     (let q = r_query (p_rules p ! r) in a < length q \<and>
        mset order = mset (filter (\<lambda>i. i \<noteq> a) [0..<length q]) \<and>
        usable (p_tables p) q (slots_of (a_args (q ! a))) order)"

definition good_entry :: "program \<Rightarrow> json \<Rightarrow> bool" where
  "good_entry p j \<longleftrightarrow> (\<exists>r a order. good_order p r a order \<and>
     j = JObj [(''anchor'', JNum (int a)), (''atoms'', nats_json order), (''rule'', JNum (int r))])"

lemma in_enumerate: "x \<in> set (enumerate 0 xs) \<Longrightarrow> fst x < length xs \<and> x = (fst x, xs ! fst x)"
  by (auto simp: in_set_enumerate_eq prod_eq_iff)

lemma compile_anchor_good:
  assumes "compile_anchor p built r (r_query (p_rules p ! r)) x st = Inr st'"
    and "x \<in> set (enumerate 0 (r_query (p_rules p ! r)))" "r < length (p_rules p)"
    and "\<forall>j \<in> set (fst st). good_entry p j"
  shows "\<forall>j \<in> set (fst st'). good_entry p j"
proof -
  let ?q = "r_query (p_rules p ! r)"
  obtain i a where x: "x = (i, a)" "i < length ?q" "a = ?q ! i"
    using in_enumerate [OF assms(2)] by blast
  let ?rest = "filter (\<lambda>j. j \<noteq> i) [0..<length ?q]"
  have good: "good_order p r i order"
    if "entry_order (length ?rest) (p_tables p) ?q (slots_of (a_args a)) ?rest [] = Inr (order, [])" for order
    using entry_order_result [OF that] x assms(3) by (auto simp: good_order_def Let_def)
  show ?thesis
    using assms(1,4) good
    by (auto simp: compile_anchor_def x(1) Let_def split_beta rbind_eq_Inr good_entry_def split: if_splits) blast
qed

lemma compile_entries_good:
  assumes "compile_entries p built = Inr (entries, unsupported)"
  shows "\<forall>j \<in> set entries. good_entry p j"
proof -
  have "\<forall>j \<in> set (fst (entries, unsupported)). good_entry p j"
  proof (rule rfold_invariant [OF assms [unfolded compile_entries_def]])
    fix x s t
    assume x: "x \<in> set (enumerate 0 (p_rules p))" and s: "\<forall>j \<in> set (fst s). good_entry p j"
      and run: "(\<lambda>(rid, r). rfold (compile_anchor p built rid (r_query r)) (enumerate 0 (r_query r))) x s = Inr t"
    obtain r where r: "x = (r, p_rules p ! r)" "r < length (p_rules p)"
      using in_enumerate [OF x] by blast
    show "\<forall>j \<in> set (fst t). good_entry p j"
      by (rule rfold_invariant [OF run [unfolded r(1) prod.case], where P = "\<lambda>s. \<forall>j \<in> set (fst s). good_entry p j"])
        (rule s, rule compile_anchor_good [OF _ _ r(2)])
  qed simp
  then show ?thesis by simp
qed

lemma nat_of_json_nat: "nat_of_json (JNum (int n)) = Inr m \<Longrightarrow> m = n"
  by (auto simp: nat_of_json_def res_simps split: if_splits)

lemma nat_of_json_nats: "rmapM nat_of_json (map (\<lambda>n. JNum (int n)) ns) = Inr ms \<Longrightarrow> ms = ns"
  by (induction ns arbitrary: ms) (auto simp: res_simps dest: nat_of_json_nat)

definition good_orders :: "program \<Rightarrow> merge_programs \<Rightarrow> bool" where
  "good_orders p ms \<longleftrightarrow> (\<forall>r a order. mp_entries ms (r, a) = Some order \<longrightarrow> good_order p r a order)"

lemma parse_entry_good:
  assumes "parse_entry_order j out = Inr out'" "good_entry p j" "good_orders p out"
  shows "good_orders p out'"
proof -
  from assms(2) obtain r a order where j: "good_order p r a order"
    "j = JObj [(''anchor'', JNum (int a)), (''atoms'', nats_json order), (''rule'', JNum (int r))]"
    by (auto simp: good_entry_def)
  have "mp_entries out' = (mp_entries out)((r, a) \<mapsto> order)"
    using assms(1) by (auto simp: parse_entry_order_def j(2) jfield_def nats_json_def res_simps
        dest!: nat_of_json_nat nat_of_json_nats)
  with j(1) assms(3) show ?thesis by (auto simp: good_orders_def)
qed

lemma parse_merges_good:
  assumes "parse_merges p raw = Inr ms"
  shows "good_orders p ms"
proof (cases "raw = JNull")
  case True
  with assms show ?thesis by (auto simp: parse_merges_def good_orders_def no_merges_def)
next
  case False
  with assms obtain ps es out where c: "compile_merges p = Inr raw"
    and ps: "rfold (parse_program p) ps no_merges = Inr out"
    and es: "jfield raw ''entries'' = JArr es" "rfold parse_entry_order es out = Inr ms"
    by (auto simp: parse_merges_def res_simps split: if_splits)
  from c es(1) obtain built uns where "compile_entries p built = Inr (es, uns)"
    by (fastforce simp: compile_merges_def res_simps jfield_def)
  note good = compile_entries_good [OF this]
  have "mp_entries out = Map.empty"
    by (rule rfold_invariant [OF ps]) (auto simp: no_merges_def parse_program_def res_simps)
  then have "good_orders p out" by (simp add: good_orders_def)
  then show ?thesis
    by (rule rfold_invariant [OF es(2)]) (use good in \<open>blast intro: parse_entry_good\<close>)
qed

text \<open>
  C28. Every entry order the runtime takes from an accepted merge plan is one it can run: it belongs to
  an atom of a rule of the program, it visits every other atom of that rule exactly once, and each atom
  has, when its turn comes, all its key columns or its constructor result bound by the anchor and the
  atoms before it.
\<close>

theorem accepted_orders_usable:
  assumes "parse_merges p raw = Inr ms" "mp_entries ms (r, a) = Some order"
  shows "good_order p r a order"
  using parse_merges_good [OF assms(1)] assms(2) by (simp add: good_orders_def)

text \<open>
  A function \<open>F\<close> that merges by requesting \<open>G(old)\<close>, and a rule with the query \<open>G(x, y), G(y, z)\<close>: from
  the second atom, the first is reached through the result of its constructor.
\<close>

definition eq_s :: json where
  "eq_s = JObj [(''kind'', JStr ''eq''), (''name'', JStr ''E'')]"

definition g_table :: table where
  "g_table = \<lparr>t_name = ''G'', t_schema = [eq_s, eq_s], t_constructor = True, t_virtual = True,
     t_merge = JNull, t_internal = False\<rparr>"

definition f_table :: table where
  "f_table = \<lparr>t_name = ''F'', t_schema = [eq_s], t_constructor = False, t_virtual = False,
     t_merge = JObj [(''args'', JArr [JObj [(''var'', JStr ''old'')]]), (''call'', JObj [(''table'', JStr ''G'')])],
     t_internal = False\<rparr>"

definition chain_program :: program where
  "chain_program = \<lparr>p_known_results = no_known, p_merge_programs = no_merges, p_views = no_views,
     p_congruence = no_congruence, p_tables = [g_table, f_table],
     p_templates = [\<lparr>tm_name = ''t'', tm_sorts = [eq_s, eq_s, eq_s], tm_defs = Map.empty, tm_ops = [OpPanic],
       tm_parent_columns = Map.empty\<rparr>],
     p_rules = [\<lparr>r_constructor_only = False, r_template = 0, r_query = chain_query, r_inputs = [0, 1, 2],
       r_seminaive = True, r_direct = None\<rparr>],
     p_sets = Map.empty, p_control = [], p_initial = [], p_table_templates = [], p_artifact = JNull\<rparr>"

definition chain_plan :: json where
  "chain_plan = (case compile_merges chain_program of Inr j \<Rightarrow> j | Inl _ \<Rightarrow> JNull)"

definition chain_entry :: "nat \<Rightarrow> nat list option" where
  "chain_entry a = (case parse_merges chain_program chain_plan of Inr ms \<Rightarrow> mp_entries ms (0, a) | Inl _ \<Rightarrow> None)"

lemma accepted_orders_usable_witness: "chain_entry 1 = Some [0] \<and> good_order chain_program 0 1 [0]"
proof -
  have e: "chain_entry 1 = Some [0]" by code_simp
  then obtain ms where "parse_merges chain_program chain_plan = Inr ms" "mp_entries ms (0, 1) = Some [0]"
    by (auto simp: chain_entry_def split: sum.splits)
  from accepted_orders_usable [OF this] e show ?thesis by simp
qed

end
