(* ===== verification/QueryIndex.thy ===== *)
theory QueryIndex
  imports GraphProps
begin

text \<open>
  The column indexes of the matcher, \<open>engine/cell-runtime/src/query.rs\<close>: for each table, per column a
  map from the fingerprint of a value to the witnesses of the rows that have it there. Counters, the
  revision and the notifications for retained contexts are left out; \<open>qi_hash\<close> is the hasher of the
  standard library, \<open>watch_reads\<close> the flag under which equal fingerprints still drop cached views.
\<close>

section \<open>State and operations\<close>

record posting =
  bk_facts :: "dependency set"
  bk_view :: "dependency list option"
  bk_refinements :: "(nat \<times> u64) list \<rightharpoonup> dependency list"

record columns =
  co_values :: "(u64 \<rightharpoonup> posting) list"
  co_keys :: "dependency \<rightharpoonup> u64 list"
  co_version :: nat

record query_indexes =
  qi_hash :: "val \<Rightarrow> u64"
  qi_bits :: nat
  qi_intersection :: bool
  qi_watch_reads :: bool
  qi_tables :: "nat \<rightharpoonup> columns"

definition fingerprint :: "query_indexes \<Rightarrow> val \<Rightarrow> u64" where
  "fingerprint q v =
     (if qi_bits q = 64 then qi_hash q v else qi_hash q v AND (push_bit (qi_bits q) 1 - 1))"

definition no_bucket :: posting where
  "no_bucket = \<lparr>bk_facts = {}, bk_view = None, bk_refinements = Map.empty\<rparr>"

definition with_facts :: "dependency set \<Rightarrow> posting" where
  "with_facts s = \<lparr>bk_facts = s, bk_view = None, bk_refinements = Map.empty\<rparr>"

definition remove_at :: "dependency \<Rightarrow> nat \<times> u64 \<Rightarrow> (u64 \<rightharpoonup> posting) list \<Rightarrow> (u64 \<rightharpoonup> posting) list res" where
  "remove_at w ck vs =
     (let (col, key) = ck in
      rbind (idx vs col) (\<lambda>m.
      rbind (ok_or (m key) Panic) (\<lambda>b.
      let s = bk_facts b - {w} in
      Inr (vs[col := if s = {} then m(key := None) else m(key \<mapsto> with_facts s)]))))"

definition columns_remove :: "dependency \<Rightarrow> columns \<Rightarrow> columns res" where
  "columns_remove w c =
     (case co_keys c w of
        None \<Rightarrow> Inr c
      | Some keys \<Rightarrow>
          rbind (rfold (remove_at w) (enumerate 0 keys) (co_values c)) (\<lambda>vs.
          Inr (c\<lparr>co_values := vs, co_keys := (co_keys c)(w := None)\<rparr>)))"

definition insert_at :: "dependency \<Rightarrow> nat \<times> u64 \<Rightarrow> (u64 \<rightharpoonup> posting) list \<Rightarrow> (u64 \<rightharpoonup> posting) list res" where
  "insert_at w ck vs =
     (let (col, key) = ck in
      rbind (idx vs col) (\<lambda>m.
      Inr (vs[col := m(key \<mapsto> with_facts (insert w (case m key of None \<Rightarrow> {} | Some b \<Rightarrow> bk_facts b)))])))"

definition forget_at :: "nat \<times> u64 \<Rightarrow> (u64 \<rightharpoonup> posting) list \<Rightarrow> (u64 \<rightharpoonup> posting) list res" where
  "forget_at ck vs =
     (let (col, key) = ck in
      rbind (idx vs col) (\<lambda>m.
      rbind (ok_or (m key) Panic) (\<lambda>b. Inr (vs[col := m(key \<mapsto> with_facts (bk_facts b))]))))"

definition columns_put :: "query_indexes \<Rightarrow> row \<Rightarrow> columns \<Rightarrow> columns res" where
  "columns_put q r c =
     (if rw_hidden r then columns_remove (rw_witness r) c
      else
        let keys = map (fingerprint q) (rw_values r) in
        if co_keys c (rw_witness r) = Some keys then
          (if qi_watch_reads q then
             rbind (rfold forget_at (enumerate 0 keys) (co_values c)) (\<lambda>vs. Inr (c\<lparr>co_values := vs\<rparr>))
           else Inr c)
        else
          rbind (columns_remove (rw_witness r) c) (\<lambda>c1.
          rbind (rfold (insert_at (rw_witness r)) (enumerate 0 keys) (co_values c1)) (\<lambda>vs.
          Inr (c1\<lparr>co_values := vs, co_keys := (co_keys c1)(rw_witness r \<mapsto> keys)\<rparr>))))"

text \<open>The bound column with the fewest witnesses, the first of several.\<close>

definition bucket_size :: "columns \<Rightarrow> nat \<Rightarrow> u64 \<Rightarrow> nat" where
  "bucket_size c col key = (case (co_values c ! col) key of None \<Rightarrow> 0 | Some b \<Rightarrow> card (bk_facts b))"

definition best_step :: "query_indexes \<Rightarrow> columns \<Rightarrow> nat \<times> val option \<Rightarrow> (nat \<times> u64 \<times> nat) option
    \<Rightarrow> (nat \<times> u64 \<times> nat) option res" where
  "best_step q c cv best =
     (case cv of
        (col, None) \<Rightarrow> Inr best
      | (col, Some v) \<Rightarrow>
          if col \<ge> length (co_values c) then Inl Panic
          else
            let key = fingerprint q v; size = bucket_size c col key in
            Inr (case best of
              None \<Rightarrow> Some (col, key, size)
            | Some (_, _, n) \<Rightarrow> if size < n then Some (col, key, size) else best))"

definition best :: "query_indexes \<Rightarrow> columns \<Rightarrow> val option list \<Rightarrow> (nat \<times> u64 \<times> nat) option res" where
  "best q c bound = rfold (best_step q c) (enumerate 0 bound) None"

definition put_witness :: "graph \<Rightarrow> query_indexes \<Rightarrow> dependency \<Rightarrow> columns \<Rightarrow> columns res" where
  "put_witness g q w c =
     rbind (row_of g w) (\<lambda>r. case r of None \<Rightarrow> Inr c | Some r \<Rightarrow> columns_put q r c)"

definition build_columns :: "graph \<Rightarrow> nat \<Rightarrow> query_indexes \<Rightarrow> columns res" where
  "build_columns g table q =
     rbind (idx (g_tables g) table) (\<lambda>t.
     rbind (idx (g_query_versions g) table) (\<lambda>v.
     rbind (witnesses g table) (\<lambda>ws.
     rfold (put_witness g q) ws
       \<lparr>co_values = replicate (length (t_schema t)) Map.empty, co_keys = Map.empty, co_version = v\<rparr>)))"

text \<open>An index of an older version of the table is dropped and built again.\<close>

definition ensure :: "graph \<Rightarrow> nat \<Rightarrow> query_indexes \<Rightarrow> (query_indexes \<times> columns) res" where
  "ensure g table q =
     rbind (case qi_tables q table of
         None \<Rightarrow> Inr None
       | Some c \<Rightarrow> rbind (idx (g_query_versions g) table) (\<lambda>v. Inr (if co_version c = v then Some c else None))) (\<lambda>old.
     case old of
       Some c \<Rightarrow> Inr (q, c)
     | None \<Rightarrow> rbind (build_columns g table q) (\<lambda>c. Inr (q\<lparr>qi_tables := (qi_tables q)(table \<mapsto> c)\<rparr>, c)))"

definition update_one :: "graph \<Rightarrow> dependency \<times> nat \<Rightarrow> query_indexes \<Rightarrow> query_indexes res" where
  "update_one g wt q =
     (let (w, table) = wt in
      case qi_tables q table of
        None \<Rightarrow> Inr q
      | Some c \<Rightarrow>
          rbind (row_of g w) (\<lambda>r.
          rbind (case r of Some r \<Rightarrow> columns_put q r c | None \<Rightarrow> columns_remove w c) (\<lambda>c1.
          Inr (q\<lparr>qi_tables := (qi_tables q)(table \<mapsto> c1)\<rparr>))))"

definition change_list :: "graph \<Rightarrow> (dependency \<times> nat) list" where
  "change_list g = map (\<lambda>w. (w, the (g_query_changes g w))) (sorted_list_of_set (dom (g_query_changes g)))"

definition set_versions :: "graph \<Rightarrow> query_indexes \<Rightarrow> query_indexes res" where
  "set_versions g q =
     (if \<exists>t \<in> dom (qi_tables q). length (g_query_versions g) \<le> t then Inl Panic
      else Inr (q\<lparr>qi_tables := (\<lambda>t. map_option (\<lambda>c. c\<lparr>co_version := g_query_versions g ! t\<rparr>) (qi_tables q t))\<rparr>))"

definition update_indexes :: "graph \<Rightarrow> query_indexes \<Rightarrow> (graph \<times> query_indexes) res" where
  "update_indexes g q =
     rbind (rfold (update_one g) (change_list g) q) (\<lambda>q1.
     rbind (set_versions g q1) (\<lambda>q2. Inr (g\<lparr>g_query_changes := Map.empty\<rparr>, q2)))"

definition clear_indexes :: "query_indexes \<Rightarrow> query_indexes" where
  "clear_indexes q = q\<lparr>qi_tables := Map.empty\<rparr>"

definition invalidate_indexes :: "graph \<Rightarrow> query_indexes \<Rightarrow> query_indexes res" where
  "invalidate_indexes g q =
     (if \<exists>t \<in> dom (qi_tables q). length (g_query_versions g) \<le> t then Inl Panic
      else Inr (q\<lparr>qi_tables := (\<lambda>t. case qi_tables q t of None \<Rightarrow> None
        | Some c \<Rightarrow> if co_version c = g_query_versions g ! t then Some c else None)\<rparr>))"

section \<open>Reading candidates\<close>

definition any_bound :: "val option list \<Rightarrow> bool" where
  "any_bound bound \<longleftrightarrow> (\<exists>v \<in> set bound. v \<noteq> None)"

definition count :: "graph \<Rightarrow> nat \<Rightarrow> val option list \<Rightarrow> query_indexes \<Rightarrow> (query_indexes \<times> nat) res" where
  "count g table bound q =
     (if \<not> any_bound bound then rmap (\<lambda>n. (q, n)) (witness_count g table)
      else
        rbind (ensure g table q) (\<lambda>(q1, c).
        rbind (best q1 c bound) (\<lambda>b.
        rbind (ok_or b Panic) (\<lambda>(_, _, n). Inr (q1, n)))))"

definition view_of :: "posting \<Rightarrow> dependency list" where
  "view_of b = (case bk_view b of Some v \<Rightarrow> v | None \<Rightarrow> sorted_list_of_set (bk_facts b))"

definition selectors :: "query_indexes \<Rightarrow> nat \<Rightarrow> val option list \<Rightarrow> (nat \<times> u64) list" where
  "selectors q col bound = List.map_filter
     (\<lambda>(c, v). if c = col then None else map_option (\<lambda>v. (c, fingerprint q v)) v) (enumerate 0 bound)"

text \<open>\<open>index.keys[w][c] == k\<close>, with its panics\<close>

fun selected :: "columns \<Rightarrow> dependency \<Rightarrow> (nat \<times> u64) list \<Rightarrow> bool res" where
  "selected c w [] = Inr True"
| "selected c w ((col, k) # sel) =
     rbind (ok_or (co_keys c w) Panic) (\<lambda>ks.
     rbind (idx ks col) (\<lambda>k'. if k' \<noteq> k then Inr False else selected c w sel))"

definition set_bucket :: "nat \<Rightarrow> nat \<Rightarrow> u64 \<Rightarrow> posting \<Rightarrow> columns \<Rightarrow> query_indexes \<Rightarrow> query_indexes" where
  "set_bucket table col key b c q =
     q\<lparr>qi_tables := (qi_tables q)(table \<mapsto>
        c\<lparr>co_values := (co_values c)[col := (co_values c ! col)(key \<mapsto> b)]\<rparr>)\<rparr>"

definition refine :: "nat \<Rightarrow> nat \<Rightarrow> u64 \<Rightarrow> posting \<Rightarrow> columns \<Rightarrow> (nat \<times> u64) list \<Rightarrow> query_indexes
    \<Rightarrow> (query_indexes \<times> dependency list) res" where
  "refine table col key b c sel q =
     (case bk_refinements b sel of
        Some hit \<Rightarrow> Inr (set_bucket table col key b c q, hit)
      | None \<Rightarrow>
          rbind (rfilter (\<lambda>w. selected c w sel) (view_of b)) (\<lambda>ws.
          let b1 = (if ws \<noteq> [] \<and> length ws < length (view_of b)
                then b\<lparr>bk_refinements := (bk_refinements b)(sel \<mapsto> ws)\<rparr> else b) in
          Inr (set_bucket table col key b1 c q, ws)))"

definition index_candidates :: "graph \<Rightarrow> nat \<Rightarrow> val option list \<Rightarrow> query_indexes
    \<Rightarrow> (query_indexes \<times> dependency list) res" where
  "index_candidates g table bound q =
     (if \<not> any_bound bound then rmap (\<lambda>ws. (q, ws)) (witnesses g table)
      else
        rbind (ensure g table q) (\<lambda>(q1, c).
        rbind (best q1 c bound) (\<lambda>b.
        rbind (ok_or b Panic) (\<lambda>(col, key, size).
        if size = 0 then Inr (q1, [])
        else
          rbind (ok_or ((co_values c ! col) key) Panic) (\<lambda>b0.
          let b = b0\<lparr>bk_view := Some (view_of b0)\<rparr>; sel = selectors q1 col bound in
          if \<not> qi_intersection q1 \<or> sel = [] then Inr (set_bucket table col key b c q1, view_of b)
          else refine table col key b c sel q1)))))"

datatype domain = DomEmpty | DomOne dependency | DomMany

definition column_domain :: "graph \<Rightarrow> nat \<Rightarrow> val option list \<Rightarrow> query_indexes \<Rightarrow> (query_indexes \<times> domain) res" where
  "column_domain g table bound q =
     rbind (ensure g table q) (\<lambda>(q1, c).
     rbind (best q1 c bound) (\<lambda>b.
     let ws = (case b of
         Some (col, key, _) \<Rightarrow> (case (co_values c ! col) key of None \<Rightarrow> {} | Some b \<Rightarrow> bk_facts b)
       | None \<Rightarrow> dom (co_keys c)) in
     Inr (q1, if card ws = 0 then DomEmpty else if card ws = 1 then DomOne (Min ws) else DomMany)))"

section \<open>The index is a map from witnesses to fingerprints\<close>

text \<open>
  The abstract content of an index is \<open>co_keys\<close>. The witnesses with a fingerprint in a column are the
  \<open>holders\<close>; a bucket holds exactly these, with a cached view and cached refinements computed from them.
\<close>

definition holders :: "columns \<Rightarrow> nat \<Rightarrow> u64 \<Rightarrow> dependency set" where
  "holders c col k = {w. \<exists>ks. co_keys c w = Some ks \<and> col < length ks \<and> ks ! col = k}"

definition carries :: "(dependency \<rightharpoonup> u64 list) \<Rightarrow> (nat \<times> u64) list \<Rightarrow> dependency \<Rightarrow> bool" where
  "carries keys sel w \<longleftrightarrow> (\<forall>(col, k) \<in> set sel. \<exists>ks. keys w = Some ks \<and> col < length ks \<and> ks ! col = k)"

definition bucket_ok :: "columns \<Rightarrow> dependency set \<Rightarrow> posting option \<Rightarrow> bool" where
  "bucket_ok c s b \<longleftrightarrow> (case b of None \<Rightarrow> s = {} | Some b \<Rightarrow> s \<noteq> {} \<and> bk_facts b = s \<and>
     (bk_view b = None \<or> bk_view b = Some (sorted_list_of_set s)) \<and>
     (\<forall>sel ws. bk_refinements b sel = Some ws \<longrightarrow>
        ws = filter (carries (co_keys c) sel) (sorted_list_of_set s)))"

definition columns_ok :: "nat \<Rightarrow> columns \<Rightarrow> bool" where
  "columns_ok n c \<longleftrightarrow> length (co_values c) = n \<and> finite (dom (co_keys c)) \<and>
     (\<forall>w ks. co_keys c w = Some ks \<longrightarrow> length ks \<le> n) \<and>
     (\<forall>col < n. \<forall>k. bucket_ok c (holders c col k) ((co_values c ! col) k))"

lemma holders_finite: "columns_ok n c \<Longrightarrow> finite (holders c col k)"
  unfolding columns_ok_def holders_def by (rule finite_subset [of _ "dom (co_keys c)"]) auto

lemma bucket_okD: "columns_ok n c \<Longrightarrow> col < n \<Longrightarrow> bucket_ok c (holders c col k) ((co_values c ! col) k)"
  by (simp add: columns_ok_def)

lemma view_of_ok: "bucket_ok c s (Some b) \<Longrightarrow> view_of b = sorted_list_of_set s"
  by (auto simp: bucket_ok_def view_of_def split: option.splits)

lemma with_facts_ok: "bucket_ok c s (if s = {} then None else Some (with_facts s))"
  by (simp add: bucket_ok_def with_facts_def)

text \<open>A fold over the columns changes each column by itself.\<close>

lemma rfold_columns:
  assumes "\<And>col key vs. f (col, key) vs = rbind (idx vs col) (\<lambda>m. rbind (step key m) (\<lambda>m'. Inr (vs[col := m'])))"
    and "i + length ks \<le> length vs" "\<And>j. j < length ks \<Longrightarrow> step (ks ! j) (vs ! (i + j)) = Inr (h (ks ! j) (vs ! (i + j)))"
  shows "\<exists>vs'. rfold f (enumerate i ks) vs = Inr vs' \<and> length vs' = length vs \<and>
    (\<forall>c < length vs. vs' ! c = (if i \<le> c \<and> c < i + length ks then h (ks ! (c - i)) (vs ! c) else vs ! c))"
  using assms(2,3)
proof (induction ks arbitrary: i vs)
  case (Cons k ks)
  have first: "f (i, k) vs = Inr (vs[i := h k (vs ! i)])"
    using Cons.prems(1) Cons.prems(2) [of 0] by (simp add: assms(1))
  have "\<exists>vs'. rfold f (enumerate (Suc i) ks) (vs[i := h k (vs ! i)]) = Inr vs' \<and> length vs' = length vs \<and>
    (\<forall>c < length vs. vs' ! c = (if Suc i \<le> c \<and> c < Suc i + length ks
       then h (ks ! (c - Suc i)) (vs[i := h k (vs ! i)] ! c) else vs[i := h k (vs ! i)] ! c))"
    using Cons.IH [of "Suc i" "vs[i := h k (vs ! i)]"] Cons.prems(1) Cons.prems(2) [of "Suc j" for j] by simp
  then obtain vs' where vs': "rfold f (enumerate (Suc i) ks) (vs[i := h k (vs ! i)]) = Inr vs'" "length vs' = length vs"
    "\<forall>c < length vs. vs' ! c = (if Suc i \<le> c \<and> c < Suc i + length ks
       then h (ks ! (c - Suc i)) (vs[i := h k (vs ! i)] ! c) else vs[i := h k (vs ! i)] ! c)" by blast
  have "vs' ! c = (if i \<le> c \<and> c < i + length (k # ks) then h ((k # ks) ! (c - i)) (vs ! c) else vs ! c)"
    if "c < length vs" for c
    using vs'(3) that by (cases "c = i") (auto simp: nth_list_update nth_Cons')
  with first vs'(1,2) show ?case by simp
qed auto

definition dropped :: "dependency \<Rightarrow> u64 \<Rightarrow> (u64 \<rightharpoonup> posting) \<Rightarrow> (u64 \<rightharpoonup> posting)" where
  "dropped w key m = (let s = bk_facts (the (m key)) - {w} in if s = {} then m(key := None) else m(key \<mapsto> with_facts s))"

definition added :: "dependency \<Rightarrow> u64 \<Rightarrow> (u64 \<rightharpoonup> posting) \<Rightarrow> (u64 \<rightharpoonup> posting)" where
  "added w key m = m(key \<mapsto> with_facts (insert w (case m key of None \<Rightarrow> {} | Some b \<Rightarrow> bk_facts b)))"

lemma bucket_ok_change:
  assumes "bucket_ok c s b" "\<And>w. w \<in> s \<Longrightarrow> co_keys c' w = co_keys c w" "finite s"
  shows "bucket_ok c' s b"
proof -
  have "filter (carries (co_keys c') sel) (sorted_list_of_set s) = filter (carries (co_keys c) sel) (sorted_list_of_set s)" for sel
    by (intro filter_cong) (auto simp: carries_def assms(2,3))
  with assms(1) show ?thesis by (auto simp: bucket_ok_def split: option.splits)
qed

lemma columns_remove_ok:
  assumes "columns_ok n c"
  shows "\<exists>c'. columns_remove w c = Inr c' \<and> columns_ok n c' \<and> co_keys c' = (co_keys c)(w := None) \<and>
    co_version c' = co_version c"
proof (cases "co_keys c w")
  case None
  then show ?thesis using assms by (auto simp: columns_remove_def fun_upd_idem)
next
  case (Some ks)
  have n: "length (co_values c) = n" "length ks \<le> n"
    using assms Some by (auto simp: columns_ok_def)
  have hold: "w \<in> holders c j (ks ! j)" if "j < length ks" for j
    using Some that by (auto simp: holders_def)
  have b: "\<exists>b. (co_values c ! j) (ks ! j) = Some b \<and> bk_facts b = holders c j (ks ! j)" if "j < length ks" for j
    using bucket_okD [OF assms, of j "ks ! j"] hold [OF that] that n
    by (auto simp: bucket_ok_def split: option.splits)
  have "\<exists>vs'. rfold (remove_at w) (enumerate 0 ks) (co_values c) = Inr vs' \<and> length vs' = length (co_values c) \<and>
    (\<forall>j < length (co_values c). vs' ! j =
      (if 0 \<le> j \<and> j < 0 + length ks then dropped w (ks ! (j - 0)) (co_values c ! j) else co_values c ! j))"
  proof (rule rfold_columns [where step = "\<lambda>key m. rbind (ok_or (m key) Panic) (\<lambda>b. Inr (dropped w key m))"])
    show "remove_at w (col, key) vs = rbind (idx vs col) (\<lambda>m. rbind (rbind (ok_or (m key) Panic) (\<lambda>b. Inr (dropped w key m)))
        (\<lambda>m'. Inr (vs[col := m'])))" for col key vs
      by (auto simp: remove_at_def dropped_def Let_def rbind_def ok_or_def split: sum.splits option.splits)
  qed (use n b in fastforce)+
  then obtain vs where vs: "rfold (remove_at w) (enumerate 0 ks) (co_values c) = Inr vs" "length vs = n"
    "\<And>j. j < n \<Longrightarrow> vs ! j = (if j < length ks then dropped w (ks ! j) (co_values c ! j) else co_values c ! j)"
    using n(1) by auto
  let ?c = "c\<lparr>co_values := vs, co_keys := (co_keys c)(w := None)\<rparr>"
  have h: "holders ?c col k = holders c col k - {w}" for col k
    by (auto simp: holders_def)
  have "bucket_ok ?c (holders ?c col k) ((vs ! col) k)" if col: "col < n" for col k
  proof (cases "col < length ks \<and> ks ! col = k")
    case True
    from b [of col] True have eq: "(vs ! col) k = (if holders c col k - {w} = {} then None else Some (with_facts (holders c col k - {w})))"
      by (auto simp: vs(3) [OF col] dropped_def Let_def)
    show ?thesis unfolding h eq by (rule with_facts_ok)
  next
    case False
    then have "w \<notin> holders c col k" using Some by (auto simp: holders_def)
    moreover have "(vs ! col) k = (co_values c ! col) k"
      using False by (auto simp: vs(3) [OF col] dropped_def Let_def)
    moreover have "bucket_ok ?c (holders c col k) ((co_values c ! col) k)"
      by (rule bucket_ok_change [OF bucket_okD [OF assms col] _ holders_finite [OF assms]]) (use calculation(1) in auto)
    ultimately show ?thesis by (simp add: h)
  qed
  moreover have "finite (dom ((co_keys c)(w := None)))" "\<forall>v l. ((co_keys c)(w := None)) v = Some l \<longrightarrow> length l \<le> n"
    using assms by (auto simp: columns_ok_def)
  ultimately have "columns_ok n ?c" using vs(2) by (simp add: columns_ok_def)
  with vs(1) Some show ?thesis by (auto simp: columns_remove_def)
qed

lemma columns_insert_ok:
  assumes "columns_ok n c" "co_keys c w = None" "length ks \<le> n"
  shows "\<exists>vs. rfold (insert_at w) (enumerate 0 ks) (co_values c) = Inr vs \<and>
    columns_ok n (c\<lparr>co_values := vs, co_keys := (co_keys c)(w \<mapsto> ks)\<rparr>)"
proof -
  have n: "length (co_values c) = n" using assms(1) by (simp add: columns_ok_def)
  have "\<exists>vs'. rfold (insert_at w) (enumerate 0 ks) (co_values c) = Inr vs' \<and> length vs' = length (co_values c) \<and>
    (\<forall>j < length (co_values c). vs' ! j =
      (if 0 \<le> j \<and> j < 0 + length ks then added w (ks ! (j - 0)) (co_values c ! j) else co_values c ! j))"
    by (rule rfold_columns [where step = "\<lambda>key m. Inr (added w key m)"])
      (use n assms(3) in \<open>auto simp: insert_at_def added_def\<close>)
  then obtain vs where vs: "rfold (insert_at w) (enumerate 0 ks) (co_values c) = Inr vs" "length vs = n"
    "\<And>j. j < n \<Longrightarrow> vs ! j = (if j < length ks then added w (ks ! j) (co_values c ! j) else co_values c ! j)"
    using n by auto
  let ?c = "c\<lparr>co_values := vs, co_keys := (co_keys c)(w \<mapsto> ks)\<rparr>"
  have w: "w \<notin> holders c col k" for col k using assms(2) by (simp add: holders_def)
  have h: "holders ?c col k = (if col < length ks \<and> ks ! col = k then insert w (holders c col k) else holders c col k)" for col k
    using assms(2) by (auto simp: holders_def)
  have "bucket_ok ?c (holders ?c col k) ((vs ! col) k)" if col: "col < n" for col k
  proof (cases "col < length ks \<and> ks ! col = k")
    case True
    have "(case (co_values c ! col) k of None \<Rightarrow> {} | Some b \<Rightarrow> bk_facts b) = holders c col k"
      using bucket_okD [OF assms(1) col, of k] by (auto simp: bucket_ok_def split: option.splits)
    then have "(vs ! col) k = Some (with_facts (insert w (holders c col k)))"
      using True by (simp add: vs(3) [OF col] added_def)
    then show ?thesis using True by (simp add: h bucket_ok_def with_facts_def)
  next
    case False
    then have "(vs ! col) k = (co_values c ! col) k"
      by (auto simp: vs(3) [OF col] added_def)
    moreover have "bucket_ok ?c (holders c col k) ((co_values c ! col) k)"
      by (rule bucket_ok_change [OF bucket_okD [OF assms(1) col] _ holders_finite [OF assms(1)]]) (use w in auto)
    moreover have "holders ?c col k = holders c col k" using False by (auto simp: h)
    ultimately show ?thesis by simp
  qed
  moreover have "finite (dom ((co_keys c)(w \<mapsto> ks)))" "\<forall>v l. ((co_keys c)(w \<mapsto> ks)) v = Some l \<longrightarrow> length l \<le> n"
    using assms by (auto simp: columns_ok_def)
  ultimately have "columns_ok n ?c" using vs(2) by (simp add: columns_ok_def)
  with vs(1) show ?thesis by blast
qed

lemma columns_forget_ok:
  assumes "columns_ok n c" "co_keys c w = Some ks"
  shows "\<exists>vs. rfold forget_at (enumerate 0 ks) (co_values c) = Inr vs \<and> columns_ok n (c\<lparr>co_values := vs\<rparr>)"
proof -
  have n: "length (co_values c) = n" "length ks \<le> n" using assms by (auto simp: columns_ok_def)
  let ?h = "\<lambda>key m. m(key \<mapsto> with_facts (bk_facts (the (m key))))"
  have hold: "w \<in> holders c j (ks ! j)" if "j < length ks" for j
    using assms(2) that by (auto simp: holders_def)
  have b: "\<exists>b. (co_values c ! j) (ks ! j) = Some b \<and> bk_facts b = holders c j (ks ! j)" if "j < length ks" for j
    using bucket_okD [OF assms(1), of j "ks ! j"] hold [OF that] that n
    by (auto simp: bucket_ok_def split: option.splits)
  have "\<exists>vs'. rfold forget_at (enumerate 0 ks) (co_values c) = Inr vs' \<and> length vs' = length (co_values c) \<and>
    (\<forall>j < length (co_values c). vs' ! j =
      (if 0 \<le> j \<and> j < 0 + length ks then ?h (ks ! (j - 0)) (co_values c ! j) else co_values c ! j))"
  proof (rule rfold_columns [where step = "\<lambda>key m. rbind (ok_or (m key) Panic) (\<lambda>b. Inr (?h key m))"])
    show "forget_at (col, key) vs = rbind (idx vs col) (\<lambda>m. rbind (rbind (ok_or (m key) Panic) (\<lambda>b. Inr (?h key m)))
        (\<lambda>m'. Inr (vs[col := m'])))" for col key vs
      by (auto simp: forget_at_def rbind_def ok_or_def split: sum.splits option.splits)
  qed (use n b in fastforce)+
  then obtain vs where vs: "rfold forget_at (enumerate 0 ks) (co_values c) = Inr vs" "length vs = n"
    "\<And>j. j < n \<Longrightarrow> vs ! j = (if j < length ks then ?h (ks ! j) (co_values c ! j) else co_values c ! j)"
    using n(1) by auto
  let ?c = "c\<lparr>co_values := vs\<rparr>"
  have h: "holders ?c col k = holders c col k" for col k by (simp add: holders_def)
  have "bucket_ok ?c (holders ?c col k) ((vs ! col) k)" if col: "col < n" for col k
  proof (cases "col < length ks \<and> ks ! col = k")
    case True
    with b [of col] hold [of col] show ?thesis
      by (auto simp: h vs(3) [OF col] bucket_ok_def with_facts_def)
  next
    case False
    then have "(vs ! col) k = (co_values c ! col) k" by (auto simp: vs(3) [OF col])
    moreover have "bucket_ok ?c (holders c col k) ((co_values c ! col) k)"
      by (rule bucket_ok_change [OF bucket_okD [OF assms(1) col] _ holders_finite [OF assms(1)]]) simp
    ultimately show ?thesis by (simp add: h)
  qed
  then have "columns_ok n ?c" using vs(2) assms(1) by (simp add: columns_ok_def)
  with vs(1) show ?thesis by blast
qed

text \<open>What putting a row means for the content.\<close>

definition put_content :: "query_indexes \<Rightarrow> row \<Rightarrow> (dependency \<rightharpoonup> u64 list) \<Rightarrow> (dependency \<rightharpoonup> u64 list)" where
  "put_content q r keys =
     keys(rw_witness r := if rw_hidden r then None else Some (map (fingerprint q) (rw_values r)))"

lemma columns_put_ok:
  assumes "columns_ok n c" "\<not> rw_hidden r \<longrightarrow> length (rw_values r) \<le> n"
  shows "\<exists>c'. columns_put q r c = Inr c' \<and> columns_ok n c' \<and> co_keys c' = put_content q r (co_keys c) \<and>
    co_version c' = co_version c"
proof (cases "rw_hidden r")
  case True
  with columns_remove_ok [OF assms(1), of "rw_witness r"] show ?thesis
    by (auto simp: columns_put_def put_content_def)
next
  case False
  let ?w = "rw_witness r" and ?ks = "map (fingerprint q) (rw_values r)"
  show ?thesis
  proof (cases "co_keys c ?w = Some ?ks")
    case True
    with columns_forget_ok [OF assms(1) True] False assms(1) show ?thesis
      by (auto simp: columns_put_def put_content_def fun_upd_idem)
  next
    case new: False
    from columns_remove_ok [OF assms(1), of ?w] obtain c1 where c1: "columns_remove ?w c = Inr c1" "columns_ok n c1"
      "co_keys c1 = (co_keys c)(?w := None)" "co_version c1 = co_version c" by blast
    from columns_insert_ok [OF c1(2), of ?w ?ks] c1(3) False assms(2) obtain vs
      where "rfold (insert_at ?w) (enumerate 0 ?ks) (co_values c1) = Inr vs"
      "columns_ok n (c1\<lparr>co_values := vs, co_keys := (co_keys c1)(?w \<mapsto> ?ks)\<rparr>)" by auto
    with c1 new False show ?thesis by (auto simp: columns_put_def put_content_def)
  qed
qed

text \<open>
  C24. The column index refines a map from witnesses to the fingerprints of their columns. From a
  consistent index no operation panics: putting a row replaces the entry of its witness, removing one
  erases it, every other entry is untouched, and afterwards each bucket again holds exactly the
  witnesses with its fingerprint, with caches that agree with it.
\<close>

theorem index_refines_map:
  assumes "columns_ok n c" "\<not> rw_hidden r \<longrightarrow> length (rw_values r) \<le> n"
  shows "(\<exists>c'. columns_put q r c = Inr c' \<and> columns_ok n c' \<and> co_keys c' = put_content q r (co_keys c)) \<and>
    (\<exists>c'. columns_remove w c = Inr c' \<and> columns_ok n c' \<and> co_keys c' = (co_keys c)(w := None))"
  using columns_put_ok [OF assms] columns_remove_ok [OF assms(1)] by blast

definition small_index :: query_indexes where
  "small_index = \<lparr>qi_hash = (\<lambda>v. case v of VInt n \<Rightarrow> of_int n | _ \<Rightarrow> 0), qi_bits = 4, qi_intersection = True,
     qi_watch_reads = False, qi_tables = Map.empty\<rparr>"

definition no_columns :: "nat \<Rightarrow> columns" where
  "no_columns n = \<lparr>co_values = replicate n Map.empty, co_keys = Map.empty, co_version = 0\<rparr>"

lemma no_columns_ok: "columns_ok n (no_columns n\<lparr>co_version := v\<rparr>)"
  by (simp add: columns_ok_def no_columns_def holders_def bucket_ok_def)

lemma index_refines_map_witness:
  "\<exists>c'. columns_put small_index \<lparr>rw_table = 0, rw_values = [VInt 3, VInt 5], rw_hidden = False, rw_epoch = 0,
       rw_witness = DFunction 7\<rparr> (no_columns 2) = Inr c' \<and> co_keys c' = [DFunction 7 \<mapsto> [3, 5]]"
proof -
  have "columns_ok 2 (no_columns 2)"
    using no_columns_ok [of 2 0] by (simp add: no_columns_def)
  from index_refines_map [OF this, of "\<lparr>rw_table = 0, rw_values = [VInt 3, VInt 5], rw_hidden = False, rw_epoch = 0,
       rw_witness = DFunction 7\<rparr>" small_index] show ?thesis
    by (auto simp: put_content_def fingerprint_def small_index_def no_columns_def)
qed

section \<open>Building and updating\<close>

lemma insert_at_range: "rfold (insert_at w) (enumerate i ks) vs = Inr vs' \<Longrightarrow> ks = [] \<or> i + length ks \<le> length vs"
proof (induction ks arbitrary: i vs)
  case (Cons k ks)
  from Cons.prems obtain v1 where "insert_at w (i, k) vs = Inr v1" "rfold (insert_at w) (enumerate (Suc i) ks) v1 = Inr vs'"
    by (auto simp: rbind_eq_Inr)
  then have "i < length vs" "length v1 = length vs" by (auto simp: insert_at_def rbind_eq_Inr idx_eq_Inr)
  with Cons.IH [of "Suc i" v1] \<open>rfold (insert_at w) (enumerate (Suc i) ks) v1 = Inr vs'\<close> show ?case by auto
qed simp

lemma put_result:
  assumes "columns_ok n c" "columns_put q r c = Inr c'"
  shows "columns_ok n c' \<and> co_keys c' = put_content q r (co_keys c) \<and> co_version c' = co_version c"
proof -
  have "\<not> rw_hidden r \<longrightarrow> length (rw_values r) \<le> n"
  proof
    assume vis: "\<not> rw_hidden r"
    let ?ks = "map (fingerprint q) (rw_values r)"
    show "length (rw_values r) \<le> n"
    proof (cases "co_keys c (rw_witness r) = Some ?ks")
      case True
      then have "length ?ks \<le> n" using assms(1) unfolding columns_ok_def by blast
      then show ?thesis by simp
    next
      case False
      with assms(2) vis obtain c1 vs where "columns_remove (rw_witness r) c = Inr c1"
        and f: "rfold (insert_at (rw_witness r)) (enumerate 0 ?ks) (co_values c1) = Inr vs"
        by (auto simp: columns_put_def rbind_eq_Inr Let_def)
      with columns_remove_ok [OF assms(1), of "rw_witness r"] have "length (co_values c1) = n"
        by (auto simp: columns_ok_def)
      with insert_at_range [OF f] show ?thesis by auto
    qed
  qed
  from columns_put_ok [OF assms(1) this, of q] assms(2) show ?thesis by auto
qed

lemma row_of_witness: "row_of g w = Inr (Some r) \<Longrightarrow> rw_witness r = w"
  by (auto simp: row_of_def fact_def function_row_def res_simps split: dependency.splits option.splits if_splits)

text \<open>The entry an index should have for a witness.\<close>

definition row_content :: "graph \<Rightarrow> query_indexes \<Rightarrow> dependency \<Rightarrow> u64 list option" where
  "row_content g q w =
     (case row_of g w of
        Inr (Some r) \<Rightarrow> if rw_hidden r then None else Some (map (fingerprint q) (rw_values r))
      | _ \<Rightarrow> None)"

lemma put_witness_result:
  assumes "columns_ok n c" "put_witness g q w c = Inr c'" "co_keys c w = None \<or> co_keys c w = row_content g q w"
  shows "columns_ok n c' \<and> co_keys c' = (co_keys c)(w := row_content g q w) \<and> co_version c' = co_version c"
proof -
  from assms(2) obtain r where r: "row_of g w = Inr r" "(case r of None \<Rightarrow> Inr c | Some r \<Rightarrow> columns_put q r c) = Inr c'"
    by (auto simp: put_witness_def rbind_eq_Inr)
  show ?thesis
  proof (cases r)
    case None
    then have "row_content g q w = None" using r(1) by (simp add: row_content_def)
    with None r assms(1,3) show ?thesis by (auto simp: fun_upd_idem)
  next
    case (Some x)
    with put_result [OF assms(1), of q x c'] r row_of_witness [of g w x] show ?thesis
      by (simp add: row_content_def put_content_def)
  qed
qed

lemma put_witnesses_result:
  assumes "columns_ok n c" "rfold (put_witness g q) ws c = Inr c'"
    "\<forall>w. co_keys c w = None \<or> co_keys c w = row_content g q w"
  shows "columns_ok n c' \<and> co_version c' = co_version c \<and>
    (\<forall>w. co_keys c' w = (if w \<in> set ws then row_content g q w else co_keys c w))"
  using assms
proof (induction ws arbitrary: c)
  case (Cons w ws)
  from Cons.prems(2) obtain c1 where c1: "put_witness g q w c = Inr c1" "rfold (put_witness g q) ws c1 = Inr c'"
    by (auto simp: rbind_eq_Inr)
  from put_witness_result [OF Cons.prems(1) c1(1)] Cons.prems(3)
  have c1': "columns_ok n c1" "co_keys c1 = (co_keys c)(w := row_content g q w)" "co_version c1 = co_version c" by auto
  have "\<forall>v. co_keys c1 v = None \<or> co_keys c1 v = row_content g q v"
    using Cons.prems(3) c1'(2) by auto
  from Cons.IH [OF c1'(1) c1(2) this] c1' show ?case by auto
qed simp

definition arity :: "graph \<Rightarrow> nat \<Rightarrow> nat" where
  "arity g t = length (t_schema (g_tables g ! t))"

text \<open>The content of an index is what the graph says of the listed witnesses, and nothing else.\<close>

definition synced :: "graph \<Rightarrow> query_indexes \<Rightarrow> nat \<Rightarrow> columns \<Rightarrow> bool" where
  "synced g q t c \<longleftrightarrow> (\<exists>ws. witnesses g t = Inr ws \<and> (\<forall>w. co_keys c w = (if w \<in> set ws then row_content g q w else None)))"

definition indexes_ok :: "graph \<Rightarrow> query_indexes \<Rightarrow> bool" where
  "indexes_ok g q \<longleftrightarrow> (\<forall>t c. qi_tables q t = Some c \<longrightarrow> columns_ok (arity g t) c \<and>
     (g_query_versions g ! t = co_version c \<longrightarrow> synced g q t c))"

lemma fingerprint_tables [simp]: "fingerprint (q\<lparr>qi_tables := m\<rparr>) = fingerprint q"
  by (simp add: fun_eq_iff fingerprint_def)

lemma row_content_tables [simp]: "row_content g (q\<lparr>qi_tables := m\<rparr>) = row_content g q"
  unfolding row_content_def fingerprint_tables ..

lemma synced_tables [simp]: "synced g (q\<lparr>qi_tables := m\<rparr>) = synced g q"
  by (simp add: fun_eq_iff synced_def)

lemma build_columns_result:
  assumes "build_columns g t q = Inr c"
  shows "columns_ok (arity g t) c \<and> synced g q t c \<and> co_version c = g_query_versions g ! t"
proof -
  from assms obtain ws where ws: "witnesses g t = Inr ws" and t: "t < length (g_tables g)"
    and f: "rfold (put_witness g q) ws (no_columns (arity g t)\<lparr>co_version := g_query_versions g ! t\<rparr>) = Inr c"
    by (auto simp: build_columns_def rbind_eq_Inr idx_eq_Inr no_columns_def arity_def)
  from put_witnesses_result [OF no_columns_ok f] ws show ?thesis
    by (auto simp: synced_def no_columns_def)
qed

lemma ensure_result:
  assumes "indexes_ok g q" "ensure g t q = Inr (q1, c)"
  shows "indexes_ok g q1 \<and> qi_tables q1 t = Some c \<and> columns_ok (arity g t) c \<and> synced g q1 t c \<and>
    q1 = q\<lparr>qi_tables := qi_tables q1\<rparr>"
proof -
  from assms(2) consider "q1 = q" "qi_tables q t = Some c" "g_query_versions g ! t = co_version c"
    | "build_columns g t q = Inr c" "q1 = q\<lparr>qi_tables := (qi_tables q)(t \<mapsto> c)\<rparr>"
  proof (cases "qi_tables q t")
    case None
    with assms(2) that(2) show ?thesis by (auto simp: ensure_def rbind_eq_Inr)
  next
    case (Some c0)
    show ?thesis
    proof (cases "co_version c0 = g_query_versions g ! t")
      case True
      with Some assms(2) have "q1 = q" "c0 = c" by (auto simp: ensure_def rbind_eq_Inr idx_eq_Inr)
      with Some True show ?thesis by (intro that(1)) simp_all
    next
      case False
      with Some assms(2) have "build_columns g t q = Inr c" "q1 = q\<lparr>qi_tables := (qi_tables q)(t \<mapsto> c)\<rparr>"
        by (auto simp: ensure_def rbind_eq_Inr idx_eq_Inr)
      then show ?thesis by (rule that(2))
    qed
  qed
  then show ?thesis
  proof cases
    case 1
    with assms(1) show ?thesis by (simp add: indexes_ok_def)
  next
    case 2
    from build_columns_result [OF 2(1)] have c: "columns_ok (arity g t) c" "synced g q t c" by blast+
    with assms(1) have "indexes_ok g q1"
      unfolding indexes_ok_def 2(2) by simp
    with c show ?thesis by (simp add: 2(2))
  qed
qed

section \<open>Candidates\<close>

lemma best_fold:
  assumes "rfold (best_step q c) (enumerate i xs) b = Inr b'"
  shows "b' = b \<or> (\<exists>j v. j < length xs \<and> xs ! j = Some v \<and> i + j < length (co_values c) \<and>
      b' = Some (i + j, fingerprint q v, bucket_size c (i + j) (fingerprint q v)))"
    "(\<exists>v \<in> set xs. v \<noteq> None) \<or> b \<noteq> None \<Longrightarrow> b' \<noteq> None"
proof -
  have "(b' = b \<or> (\<exists>j v. j < length xs \<and> xs ! j = Some v \<and> i + j < length (co_values c) \<and>
      b' = Some (i + j, fingerprint q v, bucket_size c (i + j) (fingerprint q v)))) \<and>
    ((\<exists>v \<in> set xs. v \<noteq> None) \<or> b \<noteq> None \<longrightarrow> b' \<noteq> None)"
    using assms
  proof (induction xs arbitrary: i b)
    case (Cons x xs)
    from Cons.prems obtain b1 where b1: "best_step q c (i, x) b = Inr b1"
      "rfold (best_step q c) (enumerate (Suc i) xs) b1 = Inr b'"
      by (auto simp: rbind_eq_Inr)
    have step: "b1 = b \<or> (\<exists>v. x = Some v \<and> i < length (co_values c) \<and>
        b1 = Some (i, fingerprint q v, bucket_size c i (fingerprint q v)))" "x \<noteq> None \<or> b \<noteq> None \<longrightarrow> b1 \<noteq> None"
      using b1(1) by (auto simp: best_step_def Let_def split: option.splits if_splits)
    from Cons.IH [OF b1(2)] have IH: "b' = b1 \<or> (\<exists>j v. j < length xs \<and> xs ! j = Some v \<and> Suc i + j < length (co_values c) \<and>
        b' = Some (Suc i + j, fingerprint q v, bucket_size c (Suc i + j) (fingerprint q v)))"
      "(\<exists>v \<in> set xs. v \<noteq> None) \<or> b1 \<noteq> None \<longrightarrow> b' \<noteq> None" by blast+
    from IH(1) show ?case
    proof
      assume "b' = b1"
      with step IH(2) show ?thesis by (auto intro: exI [of _ 0])
    next
      assume "\<exists>j v. j < length xs \<and> xs ! j = Some v \<and> Suc i + j < length (co_values c) \<and>
        b' = Some (Suc i + j, fingerprint q v, bucket_size c (Suc i + j) (fingerprint q v))"
      then obtain j v where "j < length xs" "xs ! j = Some v" "Suc i + j < length (co_values c)"
        "b' = Some (Suc i + j, fingerprint q v, bucket_size c (Suc i + j) (fingerprint q v))" by blast
      then show ?thesis by (auto intro!: exI [of _ "Suc j"])
    qed
  qed simp
  then show "b' = b \<or> (\<exists>j v. j < length xs \<and> xs ! j = Some v \<and> i + j < length (co_values c) \<and>
      b' = Some (i + j, fingerprint q v, bucket_size c (i + j) (fingerprint q v)))"
    "(\<exists>v \<in> set xs. v \<noteq> None) \<or> b \<noteq> None \<Longrightarrow> b' \<noteq> None" by blast+
qed

text \<open>The fingerprints that the bound columns ask for.\<close>

definition bound_keys :: "query_indexes \<Rightarrow> val option list \<Rightarrow> (nat \<times> u64) list" where
  "bound_keys q bound = List.map_filter (\<lambda>(c, v). map_option (\<lambda>v. (c, fingerprint q v)) v) (enumerate 0 bound)"

lemma set_bound_keys: "set (bound_keys q bound) = {(j, fingerprint q v) | j v. j < length bound \<and> bound ! j = Some v}"
  by (auto simp: bound_keys_def map_filter_def in_set_enumerate_eq image_iff split: option.splits) force

lemma set_selectors: "set (selectors q col bound) = {(j, fingerprint q v) | j v. j < length bound \<and> bound ! j = Some v \<and> j \<noteq> col}"
  by (auto simp: selectors_def map_filter_def in_set_enumerate_eq image_iff split: option.splits if_splits) force

lemma selected_carries: "selected c w sel = Inr b \<Longrightarrow> b = carries (co_keys c) sel w"
proof (induction sel arbitrary: b)
  case (Cons x sel)
  obtain col k where x: "x = (col, k)" by (cases x)
  from Cons.prems obtain ks k' where "co_keys c w = Some ks" "col < length ks" "ks ! col = k'"
    "(if k' \<noteq> k then Inr False else selected c w sel) = Inr b"
    by (auto simp: x rbind_eq_Inr ok_or_eq_Inr idx_eq_Inr)
  with Cons.IH [of b] show ?case by (auto simp: x carries_def split: if_splits)
qed (simp add: carries_def)

lemma rfilter_filter:
  "rfilter p xs = Inr ys \<Longrightarrow> (\<And>x b. x \<in> set xs \<Longrightarrow> p x = Inr b \<Longrightarrow> b = P x) \<Longrightarrow> ys = filter P xs"
  by (induction xs arbitrary: ys) (auto simp: rbind_eq_Inr)

lemma set_bucket_ok:
  assumes "indexes_ok g q" "qi_tables q t = Some c" "col < arity g t" "bucket_ok c (holders c col k) (Some b)"
  shows "indexes_ok g (set_bucket t col k b c q)"
proof -
  have c: "columns_ok (arity g t) c" and s: "g_query_versions g ! t = co_version c \<longrightarrow> synced g q t c"
    using assms(1,2) by (auto simp: indexes_ok_def)
  let ?c = "c\<lparr>co_values := (co_values c)[col := (co_values c ! col)(k \<mapsto> b)]\<rparr>"
  have b: "bucket_ok ?c s x = bucket_ok c s x" and h: "holders ?c i l = holders c i l" for s x i l
    by (simp_all add: bucket_ok_def holders_def split: option.split)
  have "columns_ok (arity g t) ?c"
    using c assms(3,4) by (auto simp: columns_ok_def b h nth_list_update)
  then show ?thesis
    using assms(1) s by (auto simp: indexes_ok_def set_bucket_def synced_def)
qed

lemma carries_bound: "carries keys (bound_keys q bound) w \<longleftrightarrow>
    (\<forall>j < length bound. \<forall>v. bound ! j = Some v \<longrightarrow> (\<exists>ks. keys w = Some ks \<and> j < length ks \<and> ks ! j = fingerprint q v))"
  by (auto simp: carries_def set_bound_keys)

lemma carries_split:
  assumes "col < length bound" "bound ! col = Some v"
  shows "carries keys (bound_keys q bound) w \<longleftrightarrow>
    carries keys (selectors q col bound) w \<and> (\<exists>ks. keys w = Some ks \<and> col < length ks \<and> ks ! col = fingerprint q v)"
  unfolding carries_def set_bound_keys set_selectors using assms by (auto; metis option.inject)

text \<open>What the candidates are, in terms of the content of the index.\<close>

definition answers_of :: "query_indexes \<Rightarrow> columns \<Rightarrow> val option list \<Rightarrow> dependency set" where
  "answers_of q c bound = {w. carries (co_keys c) (bound_keys q bound) w}"

lemma refine_result:
  assumes "bucket_ok c s (Some b)" "refine t col key b c sel q = Inr (q', ws)"
  shows "ws = filter (carries (co_keys c) sel) (sorted_list_of_set s) \<and>
    (\<exists>b'. bucket_ok c s (Some b') \<and> q' = set_bucket t col key b' c q)"
proof (cases "bk_refinements b sel")
  case None
  from assms(2) None obtain us where us: "rfilter (\<lambda>w. selected c w sel) (view_of b) = Inr us" "us = ws"
    and q': "q' = set_bucket t col key (if us \<noteq> [] \<and> length us < length (view_of b)
        then b\<lparr>bk_refinements := (bk_refinements b)(sel \<mapsto> us)\<rparr> else b) c q"
    by (auto simp: refine_def rbind_eq_Inr Let_def)
  have ws: "ws = filter (carries (co_keys c) sel) (sorted_list_of_set s)"
    using rfilter_filter [OF us(1)] selected_carries us(2) view_of_ok [OF assms(1)] by metis
  moreover have "bucket_ok c s (Some (b\<lparr>bk_refinements := (bk_refinements b)(sel \<mapsto> us)\<rparr>))"
    using assms(1) ws us(2) by (auto simp: bucket_ok_def)
  ultimately show ?thesis using q' assms(1) by (auto split: if_splits)
next
  case (Some hit)
  with assms show ?thesis by (auto simp: refine_def bucket_ok_def)
qed

lemma index_candidates_result:
  assumes "indexes_ok g q" "any_bound bound" "index_candidates g t bound q = Inr (q', ws)"
  shows "\<exists>q1 c. ensure g t q = Inr (q1, c) \<and> synced g q t c \<and> indexes_ok g q' \<and> distinct ws \<and>
    answers_of q c bound \<subseteq> set ws \<and> set ws \<subseteq> dom (co_keys c) \<and>
    (qi_intersection q \<longrightarrow> set ws = answers_of q c bound)"
proof -
  from assms(2,3) obtain q1 c where e: "ensure g t q = Inr (q1, c)"
    and rest: "rbind (best q1 c bound) (\<lambda>b. rbind (ok_or b Panic) (\<lambda>(col, key, size).
        if size = 0 then Inr (q1, [])
        else rbind (ok_or ((co_values c ! col) key) Panic) (\<lambda>b0.
          let b = b0\<lparr>bk_view := Some (view_of b0)\<rparr>; sel = selectors q1 col bound in
          if \<not> qi_intersection q1 \<or> sel = [] then Inr (set_bucket t col key b c q1, view_of b)
          else refine t col key b c sel q1))) = Inr (q', ws)"
    by (auto simp: index_candidates_def rbind_eq_Inr)
  note er = ensure_result [OF assms(1) e]
  have q1: "indexes_ok g q1" "qi_tables q1 t = Some c" "columns_ok (arity g t) c" "synced g q1 t c" using er by blast+
  have q1q: "q1 = q\<lparr>qi_tables := qi_tables q1\<rparr>" using er by blast
  have fp: "fingerprint q1 = fingerprint q" and isec: "qi_intersection q1 = qi_intersection q"
    by (subst q1q, simp)+
  have sq: "synced g q t c" using q1(4) by (subst (asm) q1q) simp
  have bk: "bound_keys q1 bound = bound_keys q bound" by (simp add: bound_keys_def fp)
  from rest obtain col key size where b: "best q1 c bound = Inr (Some (col, key, size))"
    and r2: "(if size = 0 then Inr (q1, [])
        else rbind (ok_or ((co_values c ! col) key) Panic) (\<lambda>b0.
          let b = b0\<lparr>bk_view := Some (view_of b0)\<rparr>; sel = selectors q1 col bound in
          if \<not> qi_intersection q1 \<or> sel = [] then Inr (set_bucket t col key b c q1, view_of b)
          else refine t col key b c sel q1)) = Inr (q', ws)"
    by (auto simp: rbind_eq_Inr ok_or_eq_Inr)
  from best_fold(1) [OF b [unfolded best_def]] obtain v where v: "col < length bound" "bound ! col = Some v"
    "col < length (co_values c)" "key = fingerprint q1 v" "size = bucket_size c col key" by auto
  have col: "col < arity g t" using v(3) q1(3) by (simp add: columns_ok_def)
  note bo = bucket_okD [OF q1(3) col, of key]
  have fin: "finite (holders c col key)" by (rule holders_finite [OF q1(3)])
  have ans: "answers_of q c bound = {w \<in> holders c col key. carries (co_keys c) (selectors q1 col bound) w}"
    using carries_split [OF v(1,2), of "co_keys c" q1] by (auto simp: answers_of_def holders_def bk v(4))
  have "indexes_ok g q' \<and> distinct ws \<and> answers_of q c bound \<subseteq> set ws \<and> set ws \<subseteq> holders c col key \<and>
    (qi_intersection q \<longrightarrow> set ws = answers_of q c bound)"
  proof (cases "(co_values c ! col) key")
    case None
    then have "holders c col key = {}" "size = 0" using bo v(5) by (auto simp: bucket_ok_def bucket_size_def)
    with r2 q1(1) ans show ?thesis by auto
  next
    case (Some b0)
    with bo fin v(5) have "size \<noteq> 0" by (auto simp: bucket_ok_def bucket_size_def)
    let ?b = "b0\<lparr>bk_view := Some (view_of b0)\<rparr>"
    have ok: "bucket_ok c (holders c col key) (Some ?b)" and vw: "view_of ?b = sorted_list_of_set (holders c col key)"
      using bo Some view_of_ok [of c "holders c col key" b0] by (auto simp: bucket_ok_def view_of_def)
    show ?thesis
    proof (cases "\<not> qi_intersection q1 \<or> selectors q1 col bound = []")
      case True
      with r2 Some \<open>size \<noteq> 0\<close> have "q' = set_bucket t col key ?b c q1" "ws = view_of ?b"
        by (auto simp: Let_def)
      with set_bucket_ok [OF q1(1,2) col ok] vw fin ans True show ?thesis by (auto simp: isec carries_def)
    next
      case False
      with r2 Some \<open>size \<noteq> 0\<close> have "refine t col key ?b c (selectors q1 col bound) q1 = Inr (q', ws)"
        by (auto simp: Let_def)
      from refine_result [OF ok this] obtain b' where ws: "ws = filter (carries (co_keys c) (selectors q1 col bound))
          (sorted_list_of_set (holders c col key))"
        and b': "bucket_ok c (holders c col key) (Some b')" "q' = set_bucket t col key b' c q1" by blast
      with set_bucket_ok [OF q1(1,2) col b'(1)] fin ans show ?thesis by auto
    qed
  qed
  moreover have "holders c col key \<subseteq> dom (co_keys c)" by (auto simp: holders_def)
  ultimately show ?thesis using e sq by blast
qed

text \<open>
  C25. A query through the column index misses nothing. From consistent indexes, the candidates of a
  query with a bound column contain every listed witness whose row is visible and has the bound values,
  whether or not fingerprints collide and whichever column the index picks; no witness comes twice, the
  indexes stay consistent, and with the intersection of columns switched on the candidates are exactly
  the indexed witnesses whose fingerprints agree on all bound columns.
\<close>

theorem index_misses_nothing:
  assumes "indexes_ok g q" "any_bound bound" "index_candidates g t bound q = Inr (q', ws)"
    and "witnesses g t = Inr all" "w \<in> set all" "row_of g w = Inr (Some r)" "\<not> rw_hidden r"
    and "length bound \<le> length (rw_values r)" "\<forall>i < length bound. \<forall>v. bound ! i = Some v \<longrightarrow> rw_values r ! i = v"
  shows "w \<in> set ws \<and> distinct ws \<and> indexes_ok g q' \<and>
    (\<exists>c. synced g q t c \<and> answers_of q c bound \<subseteq> set ws \<and> (qi_intersection q \<longrightarrow> set ws = answers_of q c bound))"
proof -
  from index_candidates_result [OF assms(1-3)] obtain c where c: "synced g q t c" "indexes_ok g q'" "distinct ws"
    "answers_of q c bound \<subseteq> set ws" "qi_intersection q \<longrightarrow> set ws = answers_of q c bound" by blast
  have "co_keys c w = Some (map (fingerprint q) (rw_values r))"
    using c(1) assms(4-7) by (simp add: synced_def row_content_def)
  then have "w \<in> answers_of q c bound"
    using assms(8,9) by (auto simp: answers_of_def carries_bound)
  with c show ?thesis by blast
qed

text \<open>One function table of two columns with the row \<open>F(5) = 0\<close>, and a rule with the query \<open>F(x, 0)\<close>.\<close>

definition port_table :: table where
  "port_table = unary\<lparr>t_constructor := False, t_virtual := False\<rparr>"

definition port_query :: "atom list" where
  "port_query = [\<lparr>a_call = CTable 0, a_args = [Slot 0, Literal (VInt 0)]\<rparr>]"

definition port_rule :: rule where
  "port_rule = \<lparr>r_constructor_only = False, r_template = 0, r_query = port_query, r_inputs = [0], r_seminaive = True,
     r_direct = Some 0\<rparr>"

definition port_graph :: graph where
  "port_graph = unary_empty\<lparr>g_program := unary_program\<lparr>p_tables := [port_table], p_rules := [port_rule]\<rparr>, g_function_operators := [{0}],
     g_functions := [\<lparr>fn_table = 0, fn_key = [VEq 5], fn_value = VInt 0, fn_epoch = 0, fn_live = True, fn_origin = None\<rparr>],
     g_function_keys := [(0, [VEq 5]) \<mapsto> 0]\<rparr>"

definition port_row :: row where
  "port_row = \<lparr>rw_table = 0, rw_values = [VEq 5, VInt 0], rw_hidden = False, rw_epoch = 0, rw_witness = DFunction 0\<rparr>"

lemma port_graph_simps:
  "g_tables port_graph = [port_table]" "g_query_versions port_graph = [0]" "g_parents port_graph = Map.empty"
  "witnesses port_graph 0 = Inr [DFunction 0]" "row_of port_graph (DFunction 0) = Inr (Some port_row)"
  "witness_count port_graph 0 = Inr 1" "lookup port_graph 0 [VEq 5] = Inr (Some port_row)"
proof -
  show e: "g_tables port_graph = [port_table]" "g_query_versions port_graph = [0]" "g_parents port_graph = Map.empty"
    by (simp_all add: port_graph_def unary_program_def unary_empty_def empty_graph_def Let_def)
  show "witnesses port_graph 0 = Inr [DFunction 0]" "witness_count port_graph 0 = Inr 1"
    by (simp_all add: witnesses_def witness_count_def e port_table_def) (simp_all add: port_graph_def)
  show r: "row_of port_graph (DFunction 0) = Inr (Some port_row)"
    by (simp add: row_of_def function_row_def e port_row_def)
      (simp add: port_graph_def get_at_def unary_empty_fields)
  have "g_function_keys port_graph (0, [VEq 5]) = Some 0" by (simp add: port_graph_def)
  then show "lookup port_graph 0 [VEq 5] = Inr (Some port_row)"
    using r by (simp add: lookup_def e port_table_def Let_def row_of_def)
qed

lemma index_misses_nothing_witness:
  "\<exists>q' ws. index_candidates port_graph 0 [None, Some (VInt 0)] small_index = Inr (q', ws) \<and> DFunction 0 \<in> set ws"
proof -
  let ?b = "[None, Some (VInt 0)]"
  have build: "build_columns port_graph 0 small_index = Inr
      \<lparr>co_values = [[0 \<mapsto> with_facts {DFunction 0}], [0 \<mapsto> with_facts {DFunction 0}]], co_keys = [DFunction 0 \<mapsto> [0, 0]],
       co_version = 0\<rparr>"
    by (simp add: build_columns_def port_graph_simps put_witness_def columns_put_def port_row_def columns_remove_def
        insert_at_def fingerprint_def small_index_def Let_def port_table_def unary_def)
  have ens: "ensure port_graph 0 small_index = Inr (small_index\<lparr>qi_tables := [0 \<mapsto>
      \<lparr>co_values = [[0 \<mapsto> with_facts {DFunction 0}], [0 \<mapsto> with_facts {DFunction 0}]], co_keys = [DFunction 0 \<mapsto> [0, 0]],
       co_version = 0\<rparr>]\<rparr>, \<lparr>co_values = [[0 \<mapsto> with_facts {DFunction 0}], [0 \<mapsto> with_facts {DFunction 0}]],
       co_keys = [DFunction 0 \<mapsto> [0, 0]], co_version = 0\<rparr>)"
  proof -
    have "qi_tables small_index = Map.empty" by (simp add: small_index_def)
    then show ?thesis by (simp add: ensure_def build)
  qed
  have fp: "fingerprint small_index (VInt 0) = 0" and isec: "qi_intersection small_index"
    by (simp_all add: fingerprint_def small_index_def)
  obtain r where run: "index_candidates port_graph 0 ?b small_index = Inr r"
    by (cases "index_candidates port_graph 0 ?b small_index")
      (auto simp: index_candidates_def any_bound_def ens best_def best_step_def fp isec Let_def
        bucket_size_def with_facts_def selectors_def map_filter_def)
  obtain q' ws where r: "r = (q', ws)" by (cases r)
  have "indexes_ok port_graph small_index" by (simp add: indexes_ok_def small_index_def)
  from index_misses_nothing [OF this _ run [unfolded r] port_graph_simps(4) _ port_graph_simps(5)]
  have "DFunction 0 \<in> set ws" by (auto simp: any_bound_def port_row_def nth_Cons' split: if_splits)
  with run r show ?thesis by blast
qed

end
