(* ===== verification/Matcher.thy ===== *)
theory Matcher
  imports QueryIndex
begin

text \<open>
  The matcher of \<open>engine/cell-runtime/src/runtime.rs\<close>: the binding workspace \<open>QueryEnv\<close> with its trail,
  and the backtracking join \<open>solve_inner\<close>, with the optional caches (refutation, search contexts, local
  saturation, sieve) switched off, as they are by default. A workspace that owns its slots reads an
  absent slot as unassigned, so it is a map. The graph is not changed while matching; the column indexes
  are, and are threaded.
\<close>

section \<open>Workspace\<close>

datatype matched = MFNone | MFOwners "nat list" | MFRows "dependency option list"

definition matched_new :: "nat \<Rightarrow> bool \<Rightarrow> matched" where
  "matched_new atoms full =
     (if atoms = 0 then MFNone else if full then MFRows (replicate atoms None) else MFOwners (replicate atoms 0))"

definition owner_of :: "dependency option \<Rightarrow> nat" where
  "owner_of w = (case w of Some (DFact f) \<Rightarrow> fst f | _ \<Rightarrow> 0)"

fun matched_record :: "nat \<Rightarrow> dependency option \<Rightarrow> matched \<Rightarrow> matched" where
  "matched_record i w MFNone = MFNone"
| "matched_record i w (MFRows rows) = MFRows (rows[i := w])"
| "matched_record i w (MFOwners os) = MFOwners (os[i := owner_of w])"

fun matched_get :: "matched \<Rightarrow> nat \<Rightarrow> dependency option" where
  "matched_get (MFRows rows) i = (case get_at rows i of None \<Rightarrow> None | Some w \<Rightarrow> w)"
| "matched_get _ i = None"

record env =
  ev_values :: "nat \<rightharpoonup> val"
  ev_trail :: "nat list"
  ev_witnesses :: matched
  ev_known :: "fact_ref option list option"

record binding =
  bd_known :: "fact_ref option list option"
  bd_witnesses :: matched
  bd_values :: "nat \<rightharpoonup> val"
  bd_epoch :: nat
  bd_parent :: "fact_ref option"
  bd_continuation :: "(nat \<times> nat \<times> bool) option"
  bd_compiled :: bool

definition env_new :: "nat \<Rightarrow> bool \<Rightarrow> nat \<Rightarrow> env" where
  "env_new witness_slots full known =
     \<lparr>ev_values = Map.empty, ev_trail = [], ev_witnesses = matched_new witness_slots full,
      ev_known = (if known > 0 then Some (replicate known None) else None)\<rparr>"

definition fact_witness :: "dependency option \<Rightarrow> fact_ref option" where
  "fact_witness w = (case w of Some (DFact f) \<Rightarrow> Some f | _ \<Rightarrow> None)"

definition env_record :: "nat \<Rightarrow> dependency option \<Rightarrow> env \<Rightarrow> env" where
  "env_record i w e = e\<lparr>ev_witnesses := matched_record i w (ev_witnesses e),
     ev_known := map_option (\<lambda>rows. rows[i := fact_witness w]) (ev_known e)\<rparr>"

text \<open>Undo the assignments made since the trail had \<open>mark\<close> entries, the latest first.\<close>

definition rollback :: "nat \<Rightarrow> env \<Rightarrow> env" where
  "rollback mark e = e\<lparr>ev_values := fold (\<lambda>i m. m(i := None)) (rev (drop mark (ev_trail e))) (ev_values e),
     ev_trail := take mark (ev_trail e)\<rparr>"

definition binding_of :: "env \<Rightarrow> nat \<Rightarrow> bool \<Rightarrow> binding" where
  "binding_of e epoch by_program = \<lparr>bd_known = ev_known e, bd_witnesses = ev_witnesses e, bd_values = ev_values e,
     bd_epoch = epoch, bd_parent = None, bd_continuation = None, bd_compiled = by_program\<rparr>"

fun env_operand :: "graph \<Rightarrow> env \<Rightarrow> arg \<Rightarrow> val option" where
  "env_operand g e (Literal v) = Some (canon_in g v)"
| "env_operand g e (Slot i) = ev_values e i"

fun bind :: "graph \<Rightarrow> arg \<Rightarrow> val \<Rightarrow> env \<Rightarrow> env \<times> bool" where
  "bind g (Literal l) v e = (e, canon_in g l = v)"
| "bind g (Slot i) v e =
     (case ev_values e i of
        Some old \<Rightarrow> (e, old = v)
      | None \<Rightarrow> (e\<lparr>ev_values := (ev_values e)(i \<mapsto> v), ev_trail := ev_trail e @ [i]\<rparr>, True))"

text \<open>\<open>args.iter().zip(&row.values).all(|(a, v)| bind(a, v, env, g))\<close>\<close>

fun bind_all :: "graph \<Rightarrow> (arg \<times> val) list \<Rightarrow> env \<Rightarrow> env \<times> bool" where
  "bind_all g [] e = (e, True)"
| "bind_all g ((a, v) # avs) e =
     (let (e1, ok) = bind g a v e in if ok then bind_all g avs e1 else (e1, False))"

section \<open>Access to rows\<close>

text \<open>The query modes \<open>scan\<close>, \<open>reverse\<close> and the column indexes.\<close>

datatype access = Scan | Reverse | Columns

definition table_count :: "access \<Rightarrow> graph \<Rightarrow> nat \<Rightarrow> val option list \<Rightarrow> query_indexes \<Rightarrow> (query_indexes \<times> nat) res" where
  "table_count mode g t bound q =
     (case mode of
        Scan \<Rightarrow> rmap (\<lambda>n. (q, n)) (witness_count g t)
      | Columns \<Rightarrow> count g t bound q
      | Reverse \<Rightarrow> rmap (\<lambda>n. (q, n)) (candidate_count g t bound))"

definition table_candidates :: "access \<Rightarrow> graph \<Rightarrow> nat \<Rightarrow> val option list \<Rightarrow> query_indexes
    \<Rightarrow> (query_indexes \<times> dependency list) res" where
  "table_candidates mode g t bound q =
     (case mode of
        Scan \<Rightarrow> rmap (\<lambda>ws. (q, ws)) (witnesses g t)
      | Columns \<Rightarrow> index_candidates g t bound q
      | Reverse \<Rightarrow> rmap (\<lambda>ws. (q, ws)) (candidates g t bound))"

text \<open>A full key goes through the keyed lookup.\<close>

definition full_key :: "graph \<Rightarrow> env \<Rightarrow> atom \<Rightarrow> val list option res" where
  "full_key g e a =
     (if a_args a = [] then Inl Panic
      else let ks = map (env_operand g e) (butlast (a_args a)) in
        Inr (if None \<in> set ks then None else Some (map the ks)))"

definition row_witnesses :: "access \<Rightarrow> graph \<Rightarrow> nat \<Rightarrow> atom \<Rightarrow> env \<Rightarrow> query_indexes
    \<Rightarrow> (query_indexes \<times> dependency list) res" where
  "row_witnesses mode g t a e q =
     rbind (full_key g e a) (\<lambda>key. case key of
       Some key \<Rightarrow>
         rbind (lookup g t key) (\<lambda>r. Inr (q, case r of None \<Rightarrow> [] | Some r \<Rightarrow> [rw_witness r]))
     | None \<Rightarrow> table_candidates mode g t (map (env_operand g e) (a_args a)) q)"

section \<open>Choosing an atom\<close>

definition atom_cost :: "access \<Rightarrow> graph \<Rightarrow> atom \<Rightarrow> env \<Rightarrow> query_indexes \<Rightarrow> (query_indexes \<times> nat option) res" where
  "atom_cost mode g a e q =
     rbind (full_key g e a) (\<lambda>key.
     case a_call a of
       CPrim _ _ \<Rightarrow> Inr (q, if key \<noteq> None then Some 0 else None)
     | CTable t \<Rightarrow>
         if key \<noteq> None then Inr (q, Some 1)
         else rbind (table_count mode g t (map (env_operand g e) (a_args a)) q) (\<lambda>(q1, n). Inr (q1, Some (2 + n))))"

definition choose_step :: "access \<Rightarrow> graph \<Rightarrow> atom list \<Rightarrow> bool list \<Rightarrow> env \<Rightarrow> nat
    \<Rightarrow> query_indexes \<times> (nat \<times> nat) option \<Rightarrow> (query_indexes \<times> (nat \<times> nat) option) res" where
  "choose_step mode g query remaining e i st =
     (let (q, best) = st in
      rbind (idx remaining i) (\<lambda>p.
      if \<not> p then Inr st
      else
        rbind (atom_cost mode g (query ! i) e q) (\<lambda>(q1, cost).
        Inr (q1, case cost of
          None \<Rightarrow> best
        | Some c \<Rightarrow>
            (case best of
               None \<Rightarrow> Some (c, i)
             | Some (c0, i0) \<Rightarrow> if c < c0 \<or> c = c0 \<and> i < i0 then Some (c, i) else best)))))"

definition choose_atom :: "access \<Rightarrow> graph \<Rightarrow> atom list \<Rightarrow> bool list \<Rightarrow> env \<Rightarrow> query_indexes \<Rightarrow> (query_indexes \<times> nat) res" where
  "choose_atom mode g query remaining e q =
     rbind (rfold (choose_step mode g query remaining e) [0..<length query] (q, None)) (\<lambda>(q1, best).
     rbind (ok_or best (Err ''unbound primitive query cycle'')) (\<lambda>(_, i). Inr (q1, i)))"

section \<open>The join\<close>

type_synonym delta = "(nat \<times> nat \<times> dependency) option"

text \<open>A row later than the seed, or the seed's own row at an earlier atom, belongs to another seed.\<close>

definition delta_blocks :: "delta \<Rightarrow> nat \<Rightarrow> row \<Rightarrow> bool" where
  "delta_blocks d i r \<longleftrightarrow> (case d of None \<Rightarrow> False
   | Some (pivot, epoch, w) \<Rightarrow>
       epoch < rw_epoch r \<or> epoch = rw_epoch r \<and> w < rw_witness r \<or>
       epoch = rw_epoch r \<and> w = rw_witness r \<and> i < pivot)"

definition primitive_inputs :: "graph \<Rightarrow> env \<Rightarrow> atom \<Rightarrow> val list res" where
  "primitive_inputs g e a =
     (if a_args a = [] then Inl Panic
      else rmapM (\<lambda>x. ok_or (env_operand g e x) (Err ''unbound primitive input'')) (butlast (a_args a)))"

type_synonym found = "query_indexes \<times> binding list"

text \<open>The visible row of a candidate that the seed does not leave to another one.\<close>

definition live_row :: "graph \<Rightarrow> delta \<Rightarrow> nat \<Rightarrow> dependency \<Rightarrow> row option res" where
  "live_row g d i w =
     rbind (row_of g w) (\<lambda>r. case r of
       None \<Rightarrow> Inr None
     | Some r \<Rightarrow> Inr (if rw_hidden r \<or> delta_blocks d i r then None else Some r))"

definition pending :: "bool list \<Rightarrow> nat" where
  "pending remaining = length (filter id remaining)"

text \<open>
  \<open>solve_inner\<close>, with the number of pending atoms as its first argument. The workspace is
  bound in place, undone by the trail and returned with the result. The slice \<open>remaining\<close>, in which the code
  clears the chosen atom before it goes on and sets it again before it returns, is a list that is passed on.
\<close>

fun solve :: "nat \<Rightarrow> access \<Rightarrow> graph \<Rightarrow> atom list \<Rightarrow> delta \<Rightarrow> bool list \<Rightarrow> env \<Rightarrow> nat \<Rightarrow> found \<Rightarrow> (env \<times> found) res" where
  "solve 0 mode g query d remaining e epoch st = Inr (e, fst st, snd st @ [binding_of e epoch False])"
| "solve (Suc n) mode g query d remaining e epoch st =
     rbind (choose_atom mode g query remaining e (fst st)) (\<lambda>(q1, i).
     let a = query ! i; rest = remaining[i := False]; mark = length (ev_trail e) in
     case a_call a of
       CPrim name output \<Rightarrow>
         rbind (primitive_inputs g e a) (\<lambda>vals.
         rbind (primitive (g_host g) name vals output (key_nodes g)) (\<lambda>v. case v of
           None \<Rightarrow> Inr (e, q1, snd st)
         | Some v \<Rightarrow>
             let (e1, ok) = bind g (last (a_args a)) v e in
             rbind (if ok then solve n mode g query d rest e1 epoch (q1, snd st) else Inr (e1, q1, snd st)) (\<lambda>(e2, st2).
             Inr (rollback mark e2, st2))))
     | CTable t \<Rightarrow>
         rbind (row_witnesses mode g t a e q1) (\<lambda>(q2, ws).
         rfold (\<lambda>w (e, st).
           rbind (live_row g d i w) (\<lambda>r. case r of
             None \<Rightarrow> Inr (e, st)
           | Some r \<Rightarrow>
               let (e1, ok) = bind_all g (zip (a_args a) (rw_values r)) e in
               rbind (if ok then
                   rbind (solve n mode g query d rest (env_record i (Some (rw_witness r)) e1)
                     (max epoch (rw_epoch r)) st) (\<lambda>(e2, st2). Inr (env_record i None e2, st2))
                 else Inr (e1, st)) (\<lambda>(e2, st2).
               Inr (rollback mark e2, st2)))) ws (e, q2, snd st)))"

definition solve_inner :: "access \<Rightarrow> graph \<Rightarrow> atom list \<Rightarrow> delta \<Rightarrow> bool list \<Rightarrow> env \<Rightarrow> nat \<Rightarrow> found \<Rightarrow> (env \<times> found) res" where
  "solve_inner mode g query d remaining e epoch st = solve (pending remaining) mode g query d remaining e epoch st"

section \<open>Running a fixed order\<close>

text \<open>\<open>merge_points\<close>: the order of an accepted merge plan, with its errors for an unbound atom.\<close>

definition guard_inputs :: "graph \<Rightarrow> env \<Rightarrow> atom \<Rightarrow> val list res" where
  "guard_inputs g e a =
     (if a_args a = [] then Inl Panic
      else rmapM (\<lambda>x. ok_or (env_operand g e x) (Err ''merge guard input'')) (butlast (a_args a)))"

fun present_rows :: "graph \<Rightarrow> dependency list \<Rightarrow> row list res" where
  "present_rows g [] = Inr []"
| "present_rows g (w # ws) =
     rbind (row_of g w) (\<lambda>r. rbind (present_rows g ws) (\<lambda>rs. Inr (case r of None \<Rightarrow> rs | Some r \<Rightarrow> r # rs)))"

definition port_rows :: "graph \<Rightarrow> nat \<Rightarrow> atom \<Rightarrow> env \<Rightarrow> query_indexes \<Rightarrow> (query_indexes \<times> row list) res" where
  "port_rows g t a e q =
     rbind (full_key g e a) (\<lambda>key. case key of
       Some key \<Rightarrow> rbind (lookup g t key) (\<lambda>r. Inr (q, case r of None \<Rightarrow> [] | Some r \<Rightarrow> [r]))
     | None \<Rightarrow>
         (case env_operand g e (last (a_args a)) of
            Some (VEq x) \<Rightarrow>
              rbind (index_candidates g t (replicate (length (a_args a) - 1) None @ [Some (VEq x)]) q) (\<lambda>(q1, ws).
              rbind (present_rows g ws) (\<lambda>rs. Inr (q1, rs)))
          | _ \<Rightarrow> Inl (Err ''merge port has no fixed key or output'')))"

fun merge_points :: "graph \<Rightarrow> atom list \<Rightarrow> nat list \<Rightarrow> delta \<Rightarrow> env \<Rightarrow> nat \<Rightarrow> found \<Rightarrow> (env \<times> found) res" where
  "merge_points g query [] d e epoch st = Inr (e, fst st, snd st @ [binding_of e epoch True])"
| "merge_points g query (i # order) d e epoch st =
     rbind (idx query i) (\<lambda>a.
     let mark = length (ev_trail e) in
     rbind (case a_call a of
         CPrim name output \<Rightarrow>
           rbind (guard_inputs g e a) (\<lambda>vals.
           rbind (primitive (g_host g) name vals output (key_nodes g)) (\<lambda>v. case v of
             None \<Rightarrow> Inr (e, st)
           | Some v \<Rightarrow>
               let (e1, ok) = bind g (last (a_args a)) v e in
               if ok then merge_points g query order d e1 epoch st else Inr (e1, st)))
       | CTable t \<Rightarrow>
           rbind (port_rows g t a e (fst st)) (\<lambda>(q1, rows).
           rfold (\<lambda>r (e, st).
             if rw_hidden r \<or> delta_blocks d i r then Inr (e, st)
             else
               let (e1, ok) = bind_all g (zip (a_args a) (rw_values r)) e in
               rbind (if ok then
                   rbind (merge_points g query order d (env_record i (Some (rw_witness r)) e1)
                     (max epoch (rw_epoch r)) st) (\<lambda>(e2, st2). Inr (env_record i None e2, st2))
                 else Inr (e1, st)) (\<lambda>(e2, st2).
               Inr (rollback mark e2, st2))) rows (e, q1, snd st))) (\<lambda>(e2, st2).
     Inr (rollback mark e2, st2)))"

end
