(* ===== verification/Absorb.thy ===== *)
theory Absorb
  imports GraphSettle GraphNew Matcher
begin

text \<open>
  Reference Cells, \<open>engine/cell-runtime/src/reference_storage.rs\<close>: the frame of a reference rule, which
  keeps handles to the matched facts instead of copies of their columns, and the absorption of a source
  Cell into a later one that carries all its facts. The carriers of a layout and the positions of a Cell
  are walked up to the bounds of their template. Counters are left out.
\<close>

section \<open>Frames\<close>

text \<open>The handle of one matched carrier, which has to give the columns that the binding has.\<close>

definition take_carrier :: "nat \<Rightarrow> matched \<Rightarrow> carrier \<Rightarrow> graph \<Rightarrow> graph res" where
  "take_carrier cid ws ca g =
     (case matched_get ws (ca_atom ca) of
        Some (DFact f0) \<Rightarrow>
          let f = resolve_reference g f0 in
          rbind (arguments g cid (ca_columns ca)) (\<lambda>expected.
          rbind (rmapM (fact_column g f) [0..<length expected]) (\<lambda>actual.
          if actual \<noteq> expected then Inl (Err ''matched reference projection differs'')
          else
            rbind (modify_cell cid (\<lambda>c. c\<lparr>c_providers := (c_providers c)(ca_atom ca \<mapsto> f)\<rparr>) g) (\<lambda>g1.
            Inr (retain_reference f g1))))
      | _ \<Rightarrow> Inr g)"

text \<open>Slots that a handle provides are not stored.\<close>

definition drop_projected :: "layout \<Rightarrow> cell \<Rightarrow> cell" where
  "drop_projected l c = c\<lparr>c_values := (\<lambda>s.
     case l_slots l s of
       None \<Rightarrow> c_values c s
     | Some (atom, _) \<Rightarrow> if c_providers c atom \<noteq> None then None else c_values c s)\<rparr>"

definition reference_frame :: "nat \<Rightarrow> (nat \<rightharpoonup> val) \<Rightarrow> fact_ref option \<Rightarrow> matched \<Rightarrow> graph \<Rightarrow> (graph \<times> nat) res" where
  "reference_frame template vals parent ws g =
     (if \<not> g_views_enabled g then linked_frame template vals parent g
      else case v_layouts (p_views (g_program g)) template of
        None \<Rightarrow> linked_frame template vals parent g
      | Some l \<Rightarrow>
          if \<not> l_reference_only l then linked_frame template vals parent g
          else if g_marker_fields_copied g then frame template vals g
          else
            rbind (frame template vals g) (\<lambda>(g1, cid).
            rbind (rfold (take_carrier cid ws) (l_carriers l) g1) (\<lambda>g2.
            rbind (modify_cell cid (drop_projected l) g2) (\<lambda>g3. Inr (g3, cid)))))"

section \<open>Candidates\<close>

definition fact_positions :: "graph \<Rightarrow> cell \<Rightarrow> nat list" where
  "fact_positions g c = filter (\<lambda>k. c_facts c k \<noteq> None) [0..<fact_bound g c]"

text \<open>The owners of the matched rows, or the owners of the matched carriers.\<close>

definition absorption_sources :: "graph \<Rightarrow> nat \<Rightarrow> nat \<Rightarrow> matched \<Rightarrow> nat list" where
  "absorption_sources g target template ws =
     (case ws of
        MFOwners owners \<Rightarrow> filter (\<lambda>source. 0 < source \<and> source < target) owners
      | _ \<Rightarrow>
          (case v_layouts (p_views (g_program g)) template of
             None \<Rightarrow> []
           | Some l \<Rightarrow> filter (\<lambda>source. source < target) (List.map_filter (\<lambda>ca.
               case matched_get ws (ca_atom ca) of
                 Some (DFact f) \<Rightarrow> Some (fst (resolve_reference g f)) | _ \<Rightarrow> None) (l_carriers l))))"

definition queue_absorption :: "nat \<Rightarrow> matched \<Rightarrow> graph \<Rightarrow> graph" where
  "queue_absorption target ws g =
     (if \<not> g_absorption_enabled g then g
      else case g_cells g target of
        None \<Rightarrow> g
      | Some c \<Rightarrow>
          if fact_positions g c = [] then g
          else g\<lparr>g_absorption_candidates := g_absorption_candidates g \<union>
            Pair target ` set (absorption_sources g target (c_template c) ws)\<rparr>)"

section \<open>Detaching a target\<close>

text \<open>The slots of the layout that can be read; an error of a read is ignored, a panic is not.\<close>

definition read_slot :: "graph \<Rightarrow> nat \<Rightarrow> nat \<Rightarrow> (nat \<rightharpoonup> val) \<Rightarrow> (nat \<rightharpoonup> val) res" where
  "read_slot g target s m =
     (case slot g target s of
        Inr v \<Rightarrow> Inr (m(s \<mapsto> v))
      | Inl (Err _) \<Rightarrow> Inr m
      | Inl e \<Rightarrow> Inl e)"

definition layout_slots :: "graph \<Rightarrow> nat \<Rightarrow> nat list res" where
  "layout_slots g template =
     (case v_layouts (p_views (g_program g)) template of
        None \<Rightarrow> Inr []
      | Some l \<Rightarrow> rbind (idx (g_templates g) template) (\<lambda>t.
          Inr (filter (\<lambda>s. l_slots l s \<noteq> None) [0..<length (tm_sorts t)])))"

definition release_all :: "cell \<Rightarrow> graph \<Rightarrow> graph res" where
  "release_all c g =
     rbind (case c_parent c of None \<Rightarrow> Inr g | Some f \<Rightarrow> release_reference f g) (\<lambda>g1.
     rfold (\<lambda>atom g. case c_providers c atom of None \<Rightarrow> Inr g | Some f \<Rightarrow> release_reference f g)
       [0..<provider_bound g c] g1)"

definition no_providers :: "graph \<Rightarrow> cell \<Rightarrow> bool" where
  "no_providers g c \<longleftrightarrow> list_all (\<lambda>atom. c_providers c atom = None) [0..<provider_bound g c]"

definition detach_parameters :: "nat \<Rightarrow> graph \<Rightarrow> graph res" where
  "detach_parameters target g =
     rbind (get_cell g target) (\<lambda>c.
     if c_parent c = None \<and> no_providers g c then Inr g
     else
       rbind (layout_slots g (c_template c)) (\<lambda>slots.
       rbind (rfold (read_slot g target) slots Map.empty) (\<lambda>vals.
       rbind (modify_cell target (\<lambda>c. c\<lparr>c_values := c_values c ++ vals, c_parent := None, c_providers := Map.empty\<rparr>) g)
         (release_all c))))"

section \<open>Absorption\<close>

text \<open>References into a Cell that are in use: positions, and how many users they have.\<close>

definition pinned_positions :: "graph \<Rightarrow> nat \<Rightarrow> cell \<Rightarrow> nat list" where
  "pinned_positions g cid c = filter (\<lambda>k. g_reference_users g (cid, k) \<noteq> None) [0..<fact_bound g c]"

definition pins :: "graph \<Rightarrow> nat \<Rightarrow> cell \<Rightarrow> nat" where
  "pins g cid c = sum_list (map (\<lambda>k. users (g_reference_users g) (cid, k)) (pinned_positions g cid c))"

definition needed_facts :: "graph \<Rightarrow> nat \<Rightarrow> cell \<Rightarrow> fact_ref list" where
  "needed_facts g cid c = map (Pair cid)
     (filter (\<lambda>k. c_facts c k \<noteq> None \<or> g_reference_users g (cid, k) \<noteq> None) [0..<fact_bound g c])"

text \<open>A fact whose table no carrier has.\<close>

fun uncovered :: "graph \<Rightarrow> carrier list \<Rightarrow> fact_ref list \<Rightarrow> bool res" where
  "uncovered g cas [] = Inr False"
| "uncovered g cas (f # fs) =
     rbind (dependency_table g (DFact f)) (\<lambda>t.
     if (case t of None \<Rightarrow> True | Some t \<Rightarrow> t \<notin> ca_table ` set cas) then Inr True else uncovered g cas fs)"

text \<open>The carriers of the target by table and columns; the first of equal ones counts.\<close>

type_synonym carried = "nat \<times> val list \<rightharpoonup> fact_ref"

definition add_target :: "graph \<Rightarrow> nat \<Rightarrow> nat \<Rightarrow> nat \<times> carrier \<Rightarrow> carried \<Rightarrow> carried res" where
  "add_target g target base ica ts =
     rbind (arguments g target (ca_columns (snd ica))) (\<lambda>vals.
     let key = (ca_table (snd ica), vals) in
     Inr (if ts key = None then ts(key \<mapsto> (target, base + fst ica)) else ts))"

text \<open>Where each fact goes, or \<open>None\<close> when one has no carrier with its columns or lost its key.\<close>

definition old_columns :: "graph \<Rightarrow> nat \<Rightarrow> fact_ref \<Rightarrow> val list res" where
  "old_columns g t f =
     rbind (fact g f) (\<lambda>r. case r of
       Some r \<Rightarrow> Inr (rw_values r)
     | None \<Rightarrow> rbind (idx (g_tables g) t) (\<lambda>tb. rmapM (fact_column g f) [0..<length (t_schema tb)]))"

definition owns_key :: "graph \<Rightarrow> nat \<Rightarrow> val list \<Rightarrow> fact_ref \<Rightarrow> bool res" where
  "owns_key g t vals f =
     (if vals = [] then Inl Panic
      else rbind (lookup g t (butlast vals)) (\<lambda>r.
        Inr (case r of None \<Rightarrow> False | Some r \<Rightarrow> rw_witness r = DFact f)))"

fun plan_moves :: "graph \<Rightarrow> cell \<Rightarrow> carried \<Rightarrow> fact_ref list \<Rightarrow> (fact_ref \<times> fact_ref) list option res" where
  "plan_moves g c ts [] = Inr (Some [])"
| "plan_moves g c ts (f # fs) =
     rbind (dependency_table g (DFact f)) (\<lambda>t. case t of
       None \<Rightarrow> Inr None
     | Some t \<Rightarrow>
         rbind (old_columns g t f) (\<lambda>vals. case ts (t, vals) of
           None \<Rightarrow> Inr None
         | Some new \<Rightarrow>
             rbind (if c_facts c (snd f) = None then Inr True else owns_key g t vals f) (\<lambda>own.
             if \<not> own then Inr None
             else rbind (plan_moves g c ts fs) (\<lambda>ms. Inr (map_option (Cons (f, new)) ms)))))"

text \<open>The state of \<open>absorb_ready\<close>; the carriers are kept while the target stays the same.\<close>

record absorbing =
  ab_graph :: graph
  ab_moved :: "fact_ref \<rightharpoonup> fact_ref"
  ab_target :: "nat option"
  ab_carried :: carried

definition move_state :: "fact_ref \<Rightarrow> fact_ref \<Rightarrow> fact_state \<Rightarrow> graph \<Rightarrow> graph res" where
  "move_state old new s g =
     (let s1 = (if fs_entry s = None then s\<lparr>fs_entry := Some old\<rparr> else s) in
      rbind (modify_cell (fst old) (\<lambda>c. c\<lparr>c_facts := (c_facts c)(snd old := None)\<rparr>) g) (\<lambda>g1.
      rbind (dependency_table g1 (DFact old)) (\<lambda>t.
      rbind (ok_or t (Err ''absorption table'')) (\<lambda>t.
      rbind (remove_from old t (g_operators g1)) (\<lambda>ops0.
      rbind (add_to new t ops0) (\<lambda>ops.
      if g_intern g1 (fs_hash s1) = None then Inl (Err ''absorption hash'')
      else
        let g2 = g1\<lparr>g_operators := ops, g_intern := bucket_add (bucket_remove (g_intern g1) (fs_hash s1) old) (fs_hash s1) new\<rparr> in
        rbind (get_cell g2 (fst new)) (\<lambda>c.
        if c_facts c (snd new) \<noteq> None then Inl (Err ''absorption overwrites live carrier'')
        else
          rbind (modify_cell (fst new) (\<lambda>c. c\<lparr>c_facts := (c_facts c)(snd new \<mapsto> s1)\<rparr>) g2) (\<lambda>g3.
          rbind (subscribe (DFact old) [] g3) (\<lambda>g4.
          rbind (fact g4 new) (\<lambda>r.
          rbind (ok_or r (Err ''missing transferred row'')) (\<lambda>r.
          subscribe (DFact new) (rw_values r) g4)))))))))))"

text \<open>Users keep the old handle; their pins move with the fact.\<close>

definition move_users :: "fact_ref \<Rightarrow> fact_ref \<Rightarrow> graph \<Rightarrow> graph res" where
  "move_users old new g =
     (let n = users (g_reference_users g) old; ru = (g_reference_users g)(old := None) in
      if n = 0 then Inr (g\<lparr>g_reference_users := ru\<rparr>)
      else case g_parent_users g (fst old) of
        None \<Rightarrow> Inl Panic
      | Some m \<Rightarrow>
          if m < n then Inl Panic
          else
            let pu = (g_parent_users g)(fst old \<mapsto> m - n) in
            Inr (g\<lparr>g_parent_users := pu(fst new \<mapsto> users pu (fst new) + n),
                   g_reference_users := ru(new \<mapsto> users ru new + n)\<rparr>))"

definition move_fact :: "fact_ref \<times> fact_ref \<Rightarrow> absorbing \<Rightarrow> absorbing res" where
  "move_fact on st =
     (let (old, new) = on; g = ab_graph st in
      rbind (get_cell g (fst old)) (\<lambda>c.
      rbind (case c_facts c (snd old) of
          None \<Rightarrow> Inr (g, ab_moved st)
        | Some s \<Rightarrow> rmap (\<lambda>g1. (g1, (ab_moved st)(old \<mapsto> new))) (move_state old new s g)) (\<lambda>(g1, moved).
      rbind (move_users old new g1) (\<lambda>g2.
      Inr (st\<lparr>ab_graph := g2\<lparr>g_fact_forwards := (g_fact_forwards g2)(old \<mapsto> new)\<rparr>, ab_moved := moved\<rparr>)))))"

definition absorb_facts :: "nat \<Rightarrow> nat \<Rightarrow> (fact_ref \<times> fact_ref) list \<Rightarrow> absorbing \<Rightarrow> absorbing res" where
  "absorb_facts target source ms st =
     rbind (detach_parameters target (ab_graph st)) (\<lambda>g.
     rbind (rfold move_fact ms (st\<lparr>ab_graph := g\<rparr>)) (\<lambda>st1.
     rbind (get_cell (ab_graph st1) source) (\<lambda>c.
     let g1 = (ab_graph st1)\<lparr>g_retired := (g_retired (ab_graph st1))(source \<mapsto>
       \<lparr>rt_completed = c_completed c, rt_template = c_template c, rt_depth = c_recipe_depth c\<rparr>)\<rparr> in
     rbind (retire_empty source g1) (\<lambda>g2.
     if g_cells g2 source \<noteq> None then Inl (Err ''absorbed source remained pinned'')
     else Inr (st1\<lparr>ab_graph := g2\<rparr>)))))"

definition absorb_one :: "nat \<times> nat \<Rightarrow> absorbing \<Rightarrow> absorbing res" where
  "absorb_one candidate st =
     (let (target, source) = candidate; g = ab_graph st in
      case (g_cells g target, g_cells g source) of
        (Some tc, Some sc) \<Rightarrow>
          if target = source \<or> fact_positions g tc = [] \<or> users (g_parent_users g) source > pins g source sc then Inr st
          else
            rbind (idx (g_templates g) (c_template tc)) (\<lambda>t.
            case v_layouts (p_views (g_program g)) (c_template tc) of
              None \<Rightarrow> Inr st
            | Some l \<Rightarrow>
                rbind (uncovered g (l_carriers l) (needed_facts g source sc)) (\<lambda>no.
                if no then Inr st
                else
                  rbind (if ab_target st = Some target then Inr st
                    else rbind (rfold (add_target g target (length (tm_ops t))) (enumerate 0 (l_carriers l)) Map.empty) (\<lambda>ts.
                      Inr (st\<lparr>ab_target := Some target, ab_carried := ts\<rparr>))) (\<lambda>st1.
                  rbind (plan_moves g sc (ab_carried st1) (needed_facts g source sc)) (\<lambda>ms. case ms of
                    None \<Rightarrow> Inr st1
                  | Some ms \<Rightarrow> absorb_facts target source ms st1))))
      | _ \<Rightarrow> Inr st)"

definition absorb_ready :: "graph \<Rightarrow> (graph \<times> (fact_ref \<rightharpoonup> fact_ref)) res" where
  "absorb_ready g =
     rbind (rfold absorb_one (sorted_list_of_set (g_absorption_candidates g))
       \<lparr>ab_graph = g\<lparr>g_absorption_candidates := {}\<rparr>, ab_moved = Map.empty, ab_target = None, ab_carried = Map.empty\<rparr>) (\<lambda>st.
     Inr (ab_graph st, ab_moved st))"

end
