(* ===== verification/MatchSearch.thy ===== *)
theory MatchSearch
  imports Matcher
begin

text \<open>
  The matcher computes a plain backtracking search: \<open>search\<close> is \<open>solve\<close> with a workspace that is never
  changed in place, and the two agree, errors included, because the trail undoes every assignment. What
  the search finds is then compared with the matches of the query.
\<close>

section \<open>The search\<close>

fun search :: "nat \<Rightarrow> access \<Rightarrow> graph \<Rightarrow> atom list \<Rightarrow> delta \<Rightarrow> bool list \<Rightarrow> env \<Rightarrow> nat \<Rightarrow> found \<Rightarrow> found res" where
  "search 0 mode g query d remaining e epoch st = Inr (fst st, snd st @ [binding_of e epoch False])"
| "search (Suc n) mode g query d remaining e epoch st =
     rbind (choose_atom mode g query remaining e (fst st)) (\<lambda>(q1, i).
     let a = query ! i; rest = remaining[i := False] in
     case a_call a of
       CPrim name output \<Rightarrow>
         rbind (primitive_inputs g e a) (\<lambda>vals.
         rbind (primitive (g_host g) name vals output (key_nodes g)) (\<lambda>v. case v of
           None \<Rightarrow> Inr (q1, snd st)
         | Some v \<Rightarrow>
             let (e1, ok) = bind g (last (a_args a)) v e in
             if ok then search n mode g query d rest e1 epoch (q1, snd st) else Inr (q1, snd st)))
     | CTable t \<Rightarrow>
         rbind (row_witnesses mode g t a e q1) (\<lambda>(q2, ws).
         rfold (\<lambda>w st.
           rbind (live_row g d i w) (\<lambda>r. case r of
             None \<Rightarrow> Inr st
           | Some r \<Rightarrow>
               let (e1, ok) = bind_all g (zip (a_args a) (rw_values r)) e in
               if ok then search n mode g query d rest (env_record i (Some (rw_witness r)) e1)
                   (max epoch (rw_epoch r)) st
               else Inr st)) ws (q2, snd st)))"

section \<open>The trail undoes what was bound\<close>

lemma fold_unset: "fold (\<lambda>i m. m(i := None)) xs m = m |` (- set xs)"
  by (induction xs arbitrary: m) (auto simp: fun_eq_iff restrict_map_def)

definition extends :: "env \<Rightarrow> env \<Rightarrow> bool" where
  "extends e e1 \<longleftrightarrow> (\<exists>is m. e1 = e\<lparr>ev_values := m, ev_trail := ev_trail e @ is\<rparr> \<and>
     m |` (- set is) = ev_values e \<and> set is \<inter> dom (ev_values e) = {} \<and> set is \<subseteq> dom m)"

lemma extends_refl [simp]: "extends e e"
  unfolding extends_def by (intro exI [of _ "[]"] exI [of _ "ev_values e"]) (simp add: restrict_map_def)

lemma extends_trans:
  assumes "extends e e1" "extends e1 e2"
  shows "extends e e2"
proof -
  from assms obtain as m bs k where 1: "e1 = e\<lparr>ev_values := m, ev_trail := ev_trail e @ as\<rparr>"
    "m |` (- set as) = ev_values e" "set as \<inter> dom (ev_values e) = {}" "set as \<subseteq> dom m"
    and 2: "e2 = e1\<lparr>ev_values := k, ev_trail := ev_trail e1 @ bs\<rparr>"
    "k |` (- set bs) = ev_values e1" "set bs \<inter> dom (ev_values e1) = {}" "set bs \<subseteq> dom k"
    unfolding extends_def by blast
  have km: "k |` (- set bs) = m" using 2(2) by (simp add: 1(1))
  have "k |` (- set (as @ bs)) = ev_values e"
    unfolding 1(2) [symmetric] km [symmetric] by (auto simp: restrict_map_def fun_eq_iff)
  note kv = this
  have "set bs \<inter> dom m = {}" using 2(3) by (simp add: 1(1))
  moreover have "dom (ev_values e) \<subseteq> dom m" "dom m \<subseteq> dom k"
    unfolding 1(2) [symmetric] km [symmetric] by (auto simp: restrict_map_def split: if_splits)
  ultimately have "set bs \<inter> dom (ev_values e) = {}" "set as \<subseteq> dom k" using 1(4) by blast+
  then have "set (as @ bs) \<inter> dom (ev_values e) = {}" "set (as @ bs) \<subseteq> dom k"
    using 1(3) 2(4) by (simp_all add: Int_Un_distrib2)
  with kv show ?thesis
    unfolding extends_def using 1(1) 2(1)
    by (intro exI [of _ "as @ bs"] exI [of _ k]) simp
qed

lemma rollback_restores: "extends e e1 \<Longrightarrow> rollback (length (ev_trail e)) e1 = e"
  by (auto simp: extends_def rollback_def fold_unset)

lemma extends_bind: "bind g a v e = (e1, ok) \<Longrightarrow> extends e e1"
proof (cases a)
  case (Slot i)
  assume b: "bind g a v e = (e1, ok)"
  show ?thesis
  proof (cases "ev_values e i")
    case None
    then have "((ev_values e)(i \<mapsto> v)) |` (- {i}) = ev_values e" by (auto simp: restrict_map_def fun_eq_iff)
    with b Slot None show ?thesis
      unfolding extends_def by (intro exI [of _ "[i]"] exI [of _ "(ev_values e)(i \<mapsto> v)"]) (auto simp: domIff)
  qed (use b Slot in auto)
qed auto

lemma extends_bind_all: "bind_all g avs e = (e1, ok) \<Longrightarrow> extends e e1"
proof (induction g avs e rule: bind_all.induct)
  case (2 g a v avs e)
  then show ?case
    by (auto simp: Let_def split: prod.splits if_splits intro: extends_trans extends_bind)
qed auto

text \<open>The provenance of a pending atom is not recorded.\<close>

fun matched_unset :: "nat \<Rightarrow> matched \<Rightarrow> bool" where
  "matched_unset i MFNone = True"
| "matched_unset i (MFRows rows) \<longleftrightarrow> (i < length rows \<longrightarrow> rows ! i = None)"
| "matched_unset i (MFOwners os) \<longleftrightarrow> (i < length os \<longrightarrow> os ! i = 0)"

definition unset :: "nat \<Rightarrow> env \<Rightarrow> bool" where
  "unset i e \<longleftrightarrow> matched_unset i (ev_witnesses e) \<and>
     (\<forall>rows. ev_known e = Some rows \<longrightarrow> i < length rows \<longrightarrow> rows ! i = None)"

definition clean :: "bool list \<Rightarrow> env \<Rightarrow> bool" where
  "clean remaining e \<longleftrightarrow> (\<forall>i < length remaining. remaining ! i \<longrightarrow> unset i e)"

lemma list_update_back: "(i < length xs \<Longrightarrow> xs ! i = x) \<Longrightarrow> xs[i := x] = xs"
  by (cases "i < length xs") (auto simp: list_update_beyond)

lemma pending_rest: "j < length remaining \<Longrightarrow> remaining[i := False] ! j \<longleftrightarrow> j \<noteq> i \<and> remaining ! j"
  by (cases "j = i") auto

lemma record_back: "unset i e \<Longrightarrow> env_record i None (env_record i w e) = e"
proof -
  assume u: "unset i e"
  have "matched_record i None (matched_record i w (ev_witnesses e)) = ev_witnesses e"
    using u by (cases "ev_witnesses e") (auto simp: unset_def owner_of_def list_update_back)
  moreover have "map_option (\<lambda>rows. rows[i := None]) (map_option (\<lambda>rows. rows[i := fact_witness w]) (ev_known e)) = ev_known e"
    using u by (cases "ev_known e") (auto simp: unset_def list_update_back)
  ultimately show ?thesis
    by (cases e) (simp add: env_record_def fact_witness_def option.map_comp comp_def)
qed

lemma matched_unset_record: "i \<noteq> j \<Longrightarrow> matched_unset i m \<Longrightarrow> matched_unset i (matched_record j w m)"
  by (cases m) auto

lemma unset_record: "i \<noteq> j \<Longrightarrow> unset i e \<Longrightarrow> unset i (env_record j w e)"
  by (auto simp: unset_def env_record_def matched_unset_record)

lemma unset_extends: "extends e e1 \<Longrightarrow> unset i e1 = unset i e"
  by (auto simp: extends_def unset_def)

lemma clean_extends: "extends e e1 \<Longrightarrow> clean remaining e1 = clean remaining e"
  by (auto simp: clean_def unset_extends)

lemma clean_rest: "clean remaining e \<Longrightarrow> clean (remaining[i := False]) e"
  by (auto simp: clean_def pending_rest)

lemma clean_record: "clean remaining e \<Longrightarrow> clean (remaining[i := False]) (env_record i w e)"
  by (auto simp: clean_def pending_rest intro!: unset_record)

lemma extends_record: "extends e e1 \<Longrightarrow> extends (env_record i w e) (env_record i w e1)"
proof -
  assume "extends e e1"
  then obtain as m where "e1 = e\<lparr>ev_values := m, ev_trail := ev_trail e @ as\<rparr>"
    "m |` (- set as) = ev_values e" "set as \<inter> dom (ev_values e) = {}" "set as \<subseteq> dom m"
    unfolding extends_def by blast
  then show ?thesis
    unfolding extends_def by (intro exI [of _ as] exI [of _ m]) (simp add: env_record_def)
qed

text \<open>The chosen atom is pending.\<close>

lemma choose_pending:
  assumes "choose_atom mode g query remaining e q = Inr (q1, i)"
  shows "i < length query \<and> i < length remaining \<and> remaining ! i"
proof -
  from assms obtain b where f: "rfold (choose_step mode g query remaining e) [0..<length query] (q, None) = Inr (q1, Some (b, i))"
    by (auto simp: choose_atom_def rbind_eq_Inr ok_or_eq_Inr)
  let ?P = "\<lambda>st. \<forall>c j. snd st = Some (c, j) \<longrightarrow> j < length query \<and> j < length remaining \<and> remaining ! j"
  have "?P (q1, Some (b, i))"
  proof (rule rfold_invariant [OF f])
    show "?P st'" if x: "x \<in> set [0..<length query]" and st: "?P st"
      and run: "choose_step mode g query remaining e x st = Inr st'" for x st st'
    proof -
      obtain q best where s: "st = (q, best)" by (cases st)
      show ?thesis
      proof (cases "st' = st")
        case False
        with run s obtain q1 cost where c: "x < length remaining" "remaining ! x"
          "st' = (q1, case cost of None \<Rightarrow> best | Some c \<Rightarrow> (case best of None \<Rightarrow> Some (c, x)
             | Some (c0, i0) \<Rightarrow> if c < c0 \<or> c = c0 \<and> x < i0 then Some (c, x) else best))"
          by (auto simp: choose_step_def rbind_eq_Inr idx_eq_Inr split: if_splits)
        with x st s show ?thesis by (auto split: option.splits if_splits)
      qed (use st in simp)
    qed
  qed simp
  then show ?thesis by simp
qed

lemma rfold_fixed:
  assumes "\<And>x s. x \<in> set xs \<Longrightarrow> f x (e, s) = rmap (Pair e) (h x s)"
  shows "rfold f xs (e, s) = rmap (Pair e) (rfold h xs s)"
  using assms
proof (induction xs arbitrary: s)
  case (Cons x xs)
  then show ?case by (cases "h x s") simp_all
qed simp

lemma solve_search:
  "clean remaining e \<Longrightarrow> solve n mode g query d remaining e epoch st =
     rmap (Pair e) (search n mode g query d remaining e epoch st)"
proof (induction n arbitrary: remaining e epoch st)
  case (Suc n)
  let ?mark = "length (ev_trail e)"
  show ?case
  proof (cases "choose_atom mode g query remaining e (fst st)")
    case (Inr r)
    obtain q1 i where r: "r = (q1, i)" by (cases r)
    note i = choose_pending [OF Inr [unfolded r]]
    let ?rest = "remaining[i := False]" and ?a = "query ! i"
    have u: "unset i e" using Suc.prems i by (simp add: clean_def)
    show ?thesis
    proof (cases "a_call ?a")
      case (CPrim name sort)
      have sub: "rbind (if ok then solve n mode g query d ?rest e1 epoch (q1, snd st) else Inr (e1, q1, snd st))
          (\<lambda>(e2, st2). Inr (rollback ?mark e2, st2)) =
        rmap (Pair e) (if ok then search n mode g query d ?rest e1 epoch (q1, snd st) else Inr (q1, snd st))"
        if "bind g (last (a_args ?a)) v e = (e1, ok)" for v e1 ok
      proof -
        note x = extends_bind [OF that]
        have "clean ?rest e1" using Suc.prems x by (simp add: clean_extends clean_rest)
        from Suc.IH [OF this, of epoch "(q1, snd st)"] show ?thesis
          by (cases "search n mode g query d ?rest e1 epoch (q1, snd st)") (auto simp: rollback_restores [OF x])
      qed
      show ?thesis
        using CPrim Inr r sub
        by (auto simp: Let_def rmap_def rbind_assoc split: option.split prod.split intro!: rbind_cong)
    next
      case (CTable t)
      let ?step = "\<lambda>w (e, st).
           rbind (live_row g d i w) (\<lambda>r. case r of
             None \<Rightarrow> Inr (e, st)
           | Some r \<Rightarrow>
               let (e1, ok) = bind_all g (zip (a_args ?a) (rw_values r)) e in
               rbind (if ok then
                   rbind (solve n mode g query d ?rest (env_record i (Some (rw_witness r)) e1)
                     (max epoch (rw_epoch r)) st) (\<lambda>(e2, st2). Inr (env_record i None e2, st2))
                 else Inr (e1, st)) (\<lambda>(e2, st2). Inr (rollback ?mark e2, st2)))"
      let ?pure = "\<lambda>w st.
           rbind (live_row g d i w) (\<lambda>r. case r of
             None \<Rightarrow> Inr st
           | Some r \<Rightarrow>
               let (e1, ok) = bind_all g (zip (a_args ?a) (rw_values r)) e in
               if ok then search n mode g query d ?rest (env_record i (Some (rw_witness r)) e1)
                   (max epoch (rw_epoch r)) st
               else Inr st)"
      have step: "?step w (e, s) = rmap (Pair e) (?pure w s)" for w s
      proof (cases "live_row g d i w")
        case lr: (Inr r')
        show ?thesis
        proof (cases r')
          case (Some r)
          obtain e1 ok where b: "bind_all g (zip (a_args ?a) (rw_values r)) e = (e1, ok)"
            by (cases "bind_all g (zip (a_args ?a) (rw_values r)) e")
          note x = extends_bind_all [OF b]
          let ?e2 = "env_record i (Some (rw_witness r)) e1"
          have "clean remaining e1" using Suc.prems by (simp add: clean_extends [OF x])
          then have "clean ?rest ?e2" by (rule clean_record)
          note IH = Suc.IH [OF this, of "max epoch (rw_epoch r)" s]
          have undone: "env_record i None ?e2 = e1" using u by (intro record_back) (simp add: unset_extends [OF x])
          show ?thesis
            by (cases "search n mode g query d ?rest ?e2 (max epoch (rw_epoch r)) s")
              (auto simp: lr Some b IH undone rollback_restores [OF x])
        qed (simp add: lr)
      qed simp
      have all: "rfold ?step ws (e, s) = rmap (Pair e) (rfold ?pure ws s)" for ws s
        by (rule rfold_fixed) (rule step)
      have "solve (Suc n) mode g query d remaining e epoch st =
          rbind (row_witnesses mode g t ?a e q1) (\<lambda>(q2, ws). rfold ?step ws (e, q2, snd st))"
        by (simp only: solve.simps Inr r rbind_Inr Let_def case_prod_conv CTable call.case)
      also have "\<dots> = rmap (Pair e) (rbind (row_witnesses mode g t ?a e q1) (\<lambda>(q2, ws). rfold ?pure ws (q2, snd st)))"
        by (cases "row_witnesses mode g t ?a e q1") (simp_all only: all rbind_Inl rbind_Inr rmap_simps split_beta fst_conv snd_conv)
      also have "rbind (row_witnesses mode g t ?a e q1) (\<lambda>(q2, ws). rfold ?pure ws (q2, snd st)) =
          search (Suc n) mode g query d remaining e epoch st"
        by (simp only: search.simps Inr r rbind_Inr Let_def case_prod_conv CTable call.case)
      finally show ?thesis .
    qed
  qed simp
qed simp

text \<open>
  C19. The matcher's mutable workspace is invisible. From a workspace in which no pending atom is
  recorded, the join that binds in place, backtracks through its trail and records provenance computes
  what the search with a persistent workspace computes, with the same bindings in the same order and the
  same error, and it hands the workspace back unchanged.
\<close>

theorem matcher_is_search:
  assumes "clean remaining e"
  shows "solve_inner mode g query d remaining e epoch st =
    rmap (Pair e) (search (pending remaining) mode g query d remaining e epoch st)"
  by (simp add: solve_inner_def solve_search [OF assms])

lemma env_new_clean: "clean remaining (env_new n full k)"
  by (auto simp: clean_def unset_def env_new_def matched_new_def)

lemma matcher_is_search_witness:
  "\<exists>b. solve_inner Scan port_graph port_query None [True] (env_new (Suc 0) True 0) 0 (small_index, []) =
       Inr (env_new (Suc 0) True 0, small_index, [b]) \<and>
     bd_values b = [0 \<mapsto> VEq 5] \<and> bd_witnesses b = MFRows [Some (DFunction 0)]"
proof -
  have a: "a_call (port_query ! 0) = CTable 0" "a_args (port_query ! 0) = [Slot 0, Literal (VInt 0)]"
    by (simp_all add: port_query_def)
  have step: "bind_all port_graph [(Slot 0, VEq 5), (Literal (VInt 0), VInt 0)] (env_new (Suc 0) True 0) =
      ((env_new (Suc 0) True 0)\<lparr>ev_values := [0 \<mapsto> VEq 5], ev_trail := [0]\<rparr>, True)"
    by (simp add: env_new_def)
  have pick: "choose_atom Scan port_graph port_query [True] (env_new (Suc 0) True 0) small_index = Inr (small_index, 0)"
    by (simp add: choose_atom_def choose_step_def atom_cost_def full_key_def port_query_def env_new_def idx_def
        get_at_def table_count_def port_graph_simps)
  have rows: "row_witnesses Scan port_graph 0 (port_query ! 0) (env_new (Suc 0) True 0) small_index =
      Inr (small_index, [DFunction 0])"
    by (simp add: row_witnesses_def full_key_def port_query_def env_new_def table_candidates_def port_graph_simps)
  have live: "live_row port_graph None 0 (DFunction 0) = Inr (Some port_row)"
    by (simp add: live_row_def port_graph_simps delta_blocks_def port_row_def)
  have "search (pending [True]) Scan port_graph port_query None [True] (env_new (Suc 0) True 0) 0 (small_index, []) =
      Inr (small_index, [binding_of (env_record 0 (Some (DFunction 0))
        ((env_new (Suc 0) True 0)\<lparr>ev_values := [0 \<mapsto> VEq 5], ev_trail := [0]\<rparr>)) 0 False])"
    using rows step
    by (simp add: pending_def pick live a port_row_def del: bind_all.simps)
  then show ?thesis
    using matcher_is_search [OF env_new_clean, of Scan port_graph port_query None "[True]" "Suc 0" True 0 0 "(small_index, [])"]
    by (simp add: binding_of_def env_record_def env_new_def matched_new_def)
qed

end
