(* ===== verification/RowSource.thy ===== *)
theory RowSource
  imports MatchSearch
begin

text \<open>
  The rows a query ranges over, and the contract of an access path. \<open>visible\<close> is the relational reading
  of the graph: the listed, present and not hidden rows of a table. An access path (scan, reverse uses,
  column index) promises to list only rows of the table and every visible row that agrees with the bound
  columns; what the matcher needs of it is stated as a locale, interpreted once for each path of the code.
\<close>

section \<open>Relations of a graph\<close>

definition listed :: "graph \<Rightarrow> nat \<Rightarrow> dependency \<Rightarrow> bool" where
  "listed g t w \<longleftrightarrow> (\<exists>all. witnesses g t = Inr all \<and> w \<in> set all)"

definition visible :: "graph \<Rightarrow> nat \<Rightarrow> row \<Rightarrow> bool" where
  "visible g t r \<longleftrightarrow> listed g t (rw_witness r) \<and> row_of g (rw_witness r) = Inr (Some r) \<and> \<not> rw_hidden r"

lemma visibleI: "listed g t w \<Longrightarrow> row_of g w = Inr (Some r) \<Longrightarrow> \<not> rw_hidden r \<Longrightarrow> visible g t r \<and> rw_witness r = w"
  using row_of_witness [of g w r] by (simp add: visible_def)

text \<open>
  Visible rows have the arity of their table, the keyed lookup finds exactly them, and a present fact is
  listed in its table.
\<close>

definition keyed :: "graph \<Rightarrow> bool" where
  "keyed g \<longleftrightarrow>
     (\<forall>t r. visible g t r \<longrightarrow> rw_values r \<noteq> [] \<and> length (rw_values r) = arity g t \<and>
        lookup g t (butlast (rw_values r)) = Inr (Some r)) \<and>
     (\<forall>t key r. lookup g t key = Inr (Some r) \<longrightarrow>
        row_of g (rw_witness r) = Inr (Some r) \<and> (rw_hidden r \<or> listed g t (rw_witness r))) \<and>
     (\<forall>f r. fact g f = Inr (Some r) \<longrightarrow> listed g (rw_table r) (DFact f))"

lemma keyed_row:
  assumes "keyed g" "visible g t r"
  shows "rw_values r \<noteq> []" "length (rw_values r) = arity g t" "lookup g t (butlast (rw_values r)) = Inr (Some r)"
proof -
  from assms(1) have "\<forall>t r. visible g t r \<longrightarrow> rw_values r \<noteq> [] \<and> length (rw_values r) = arity g t \<and>
      lookup g t (butlast (rw_values r)) = Inr (Some r)" unfolding keyed_def by (rule conjunct1)
  with assms(2) show "rw_values r \<noteq> []" "length (rw_values r) = arity g t"
    "lookup g t (butlast (rw_values r)) = Inr (Some r)" by blast+
qed

lemma keyed_lookup:
  assumes "keyed g" "lookup g t key = Inr (Some r)"
  shows "row_of g (rw_witness r) = Inr (Some r)" "\<not> rw_hidden r \<Longrightarrow> visible g t r"
proof -
  from assms(1) have "\<forall>t key r. lookup g t key = Inr (Some r) \<longrightarrow>
      row_of g (rw_witness r) = Inr (Some r) \<and> (rw_hidden r \<or> listed g t (rw_witness r))"
    unfolding keyed_def by (elim conjE) assumption
  with assms(2) have "row_of g (rw_witness r) = Inr (Some r) \<and> (rw_hidden r \<or> listed g t (rw_witness r))" by blast
  then show "row_of g (rw_witness r) = Inr (Some r)" "\<not> rw_hidden r \<Longrightarrow> visible g t r"
    by (simp_all add: visible_def)
qed

lemma keyed_fact:
  assumes "keyed g" "fact g f = Inr (Some r)" "\<not> rw_hidden r"
  shows "visible g (rw_table r) r \<and> rw_witness r = DFact f"
proof -
  have "\<forall>f r. fact g f = Inr (Some r) \<longrightarrow> listed g (rw_table r) (DFact f)"
    using assms(1) unfolding keyed_def by (elim conjE) assumption
  with assms(2) have "listed g (rw_table r) (DFact f)" by blast
  with assms(2,3) show ?thesis using visibleI [of g "rw_table r" "DFact f" r] by (simp add: row_of_def)
qed

lemma keyed_functional:
  assumes "keyed g" "visible g t r" "visible g t s" "butlast (rw_values r) = butlast (rw_values s)"
  shows "r = s"
proof -
  have "Inr (Some r) = (Inr (Some s) :: row option res)"
    unfolding keyed_row(3) [OF assms(1,2), symmetric] keyed_row(3) [OF assms(1,3), symmetric] assms(4) ..
  then show ?thesis by simp
qed

text \<open>A row agrees with the bound columns of a query.\<close>

definition agrees :: "val option list \<Rightarrow> val list \<Rightarrow> bool" where
  "agrees bound vs \<longleftrightarrow> length bound = length vs \<and> (\<forall>i < length bound. \<forall>v. bound ! i = Some v \<longrightarrow> vs ! i = v)"

section \<open>The contract of an access path\<close>

locale access_path =
  fixes mode :: access and ok :: "graph \<Rightarrow> query_indexes \<Rightarrow> bool"
  assumes counting: "ok g q \<Longrightarrow> table_count mode g t bound q = Inr (q', n) \<Longrightarrow> ok g q'"
    and keeps: "ok g q \<Longrightarrow> table_candidates mode g t bound q = Inr (q', ws) \<Longrightarrow> ok g q'"
    and sound: "ok g q \<Longrightarrow> table_candidates mode g t bound q = Inr (q', ws) \<Longrightarrow> w \<in> set ws \<Longrightarrow> listed g t w"
    and complete: "ok g q \<Longrightarrow> table_candidates mode g t bound q = Inr (q', ws) \<Longrightarrow> visible g t r \<Longrightarrow>
      agrees bound (rw_values r) \<Longrightarrow> rw_witness r \<in> set ws"
begin

lemma cost_keeps: "ok g q \<Longrightarrow> atom_cost mode g a e q = Inr (q', c) \<Longrightarrow> ok g q'"
  by (cases "a_call a") (auto simp: atom_cost_def rbind_eq_Inr split: if_splits dest: counting)

lemma choice_keeps:
  assumes "ok g q" "choose_atom mode g query remaining e q = Inr (q', i)"
  shows "ok g q'"
proof -
  from assms(2) obtain b where f: "rfold (choose_step mode g query remaining e) [0..<length query] (q, None) = Inr (q', b)"
    by (auto simp: choose_atom_def rbind_eq_Inr)
  have "ok g (fst (q', b))"
  proof (rule rfold_invariant [OF f])
    show "ok g (fst st')" if "ok g (fst st)" "choose_step mode g query remaining e x st = Inr st'" for x st st'
      using that by (cases st) (auto simp: choose_step_def rbind_eq_Inr dest: cost_keeps split: if_splits)
  qed (simp add: assms(1))
  then show ?thesis by simp
qed

end

section \<open>The access paths of the code\<close>

interpretation scan: access_path Scan "\<lambda>g q. True"
proof
  fix g q t bound q' ws w r
  assume run: "table_candidates Scan g t bound q = Inr (q', ws)"
  show "listed g t w" if "w \<in> set ws"
    using run that by (auto simp: table_candidates_def listed_def rmap_def rbind_eq_Inr)
  show "rw_witness r \<in> set ws" if "visible g t r"
    using run that by (auto simp: table_candidates_def visible_def listed_def rmap_def rbind_eq_Inr)
qed simp_all

lemma count_keeps: "indexes_ok g q \<Longrightarrow> count g t bound q = Inr (q', n) \<Longrightarrow> indexes_ok g q'"
  by (auto simp: count_def rmap_def rbind_eq_Inr split: if_splits dest: ensure_result)

lemma index_candidates_listed:
  assumes "indexes_ok g q" "index_candidates g t bound q = Inr (q', ws)" "w \<in> set ws"
  shows "listed g t w"
proof (cases "any_bound bound")
  case True
  from index_candidates_result [OF assms(1) True assms(2)] obtain c where
    c: "synced g q t c" "set ws \<subseteq> dom (co_keys c)" by blast
  from c(2) assms(3) have "co_keys c w \<noteq> None" by blast
  with c(1) show ?thesis by (auto simp: synced_def listed_def split: if_splits)
qed (use assms in \<open>auto simp: index_candidates_def rmap_def rbind_eq_Inr listed_def\<close>)

interpretation indexed: access_path Columns indexes_ok
proof
  fix g q t bound q' ws w r n
  assume ok: "indexes_ok g q"
  show "indexes_ok g q'" if "table_count Columns g t bound q = Inr (q', n)"
    using that ok by (auto simp: table_count_def dest: count_keeps)
  assume run: "table_candidates Columns g t bound q = Inr (q', ws)"
  then have ic: "index_candidates g t bound q = Inr (q', ws)" by (simp add: table_candidates_def)
  show "indexes_ok g q'"
    using ok ic index_candidates_result [OF ok _ ic]
    by (cases "any_bound bound") (auto simp: index_candidates_def rmap_def rbind_eq_Inr)
  show "listed g t w" if "w \<in> set ws"
    using index_candidates_listed [OF ok ic that] .
  show "rw_witness r \<in> set ws" if v: "visible g t r" and a: "agrees bound (rw_values r)"
  proof (cases "any_bound bound")
    case True
    from index_candidates_result [OF ok True ic] obtain c where
      c: "synced g q t c" "answers_of q c bound \<subseteq> set ws" by blast
    have "co_keys c (rw_witness r) = Some (map (fingerprint q) (rw_values r))"
      using c(1) v by (auto simp: synced_def visible_def listed_def row_content_def)
    with a have "rw_witness r \<in> answers_of q c bound"
      by (auto simp: answers_of_def carries_bound agrees_def)
    with c(2) show ?thesis by blast
  qed (use ic v in \<open>auto simp: index_candidates_def rmap_def rbind_eq_Inr visible_def listed_def\<close>)
qed

text \<open>
  The reverse index: every visible row is subscribed to the class of each identity it mentions, and a
  candidate that the table filter accepts is listed.
\<close>

definition reverse_ok :: "graph \<Rightarrow> bool" where
  "reverse_ok g \<longleftrightarrow>
     (\<forall>x. finite (uses_of g x)) \<and>
     (\<forall>t w. candidate_in g t w = Inr True \<longrightarrow> w \<in> \<Union> (range (uses_of g)) \<longrightarrow> listed g t w) \<and>
     (\<forall>t r x. visible g t r \<longrightarrow> VEq x \<in> set (rw_values r) \<longrightarrow>
        candidate_in g t (rw_witness r) = Inr True \<and> rw_witness r \<in> uses_of g (root (g_parents g) x))"

lemma reverse_okD:
  assumes "reverse_ok g"
  shows "finite (uses_of g x)"
    and "candidate_in g t w = Inr True \<Longrightarrow> w \<in> uses_of g x \<Longrightarrow> listed g t w"
    and "visible g t r \<Longrightarrow> VEq x \<in> set (rw_values r) \<Longrightarrow>
      candidate_in g t (rw_witness r) = Inr True \<and> rw_witness r \<in> uses_of g (root (g_parents g) x)"
  using assms unfolding reverse_ok_def by blast+

lemma rfilter_true: "rfilter p xs = Inr ys \<Longrightarrow> x \<in> set ys \<Longrightarrow> x \<in> set xs \<and> p x = Inr True"
  by (induction xs arbitrary: ys) (auto simp: rbind_eq_Inr split: if_splits)

lemma bound_uses_Some:
  assumes "bound_uses g bound = Some u"
  shows "\<exists>x. Some (VEq x) \<in> set bound \<and> u = uses_of g (root (g_parents g) x)"
proof -
  let ?f = "\<lambda>v. case v of Some (VEq x) \<Rightarrow> Some (uses_of g (root (g_parents g) x)) | _ \<Rightarrow> None"
  from min_by_key_mem [OF assms [unfolded bound_uses_def]] obtain v where v: "v \<in> set bound" and "?f v = Some u"
    by (auto simp: map_filter_def)
  then obtain x where "v = Some (VEq x)" "u = uses_of g (root (g_parents g) x)"
    by (simp split: option.splits val.splits)
  with v show ?thesis by blast
qed

interpretation reverse: access_path Reverse "\<lambda>g q. reverse_ok g"
proof
  fix g q t bound q' ws w r
  assume ok: "reverse_ok g" and "table_candidates Reverse g t bound q = Inr (q', ws)"
  then have run: "candidates g t bound = Inr ws" by (auto simp: table_candidates_def rmap_def rbind_eq_Inr)
  have uses: "\<exists>x. Some (VEq x) \<in> set bound \<and> u = uses_of g (root (g_parents g) x)" if "bound_uses g bound = Some u" for u
    using bound_uses_Some [OF that] .
  show "listed g t w" if w: "w \<in> set ws"
  proof (cases "bound_uses g bound")
    case (Some u)
    with uses obtain x where u: "u = uses_of g (root (g_parents g) x)" by blast
    have "finite u" using reverse_okD(1) [OF ok] u by simp
    show ?thesis
    proof (cases "rfilter (candidate_in g t) (sorted_list_of_set u) = Inr ws")
      case True
      from rfilter_true [OF this w] \<open>finite u\<close> have "w \<in> u" "candidate_in g t w = Inr True" by simp_all
      with reverse_okD(2) [OF ok] u show ?thesis by blast
    next
      case False
      with run Some have "witnesses g t = Inr ws" by (auto simp: candidates_def rbind_eq_Inr split: if_splits)
      with w show ?thesis by (auto simp: listed_def)
    qed
  qed (use run w in \<open>simp add: candidates_def listed_def\<close>)
  show "rw_witness r \<in> set ws" if v: "visible g t r" and a: "agrees bound (rw_values r)"
  proof (cases "bound_uses g bound")
    case (Some u)
    with uses obtain x where u: "Some (VEq x) \<in> set bound" "u = uses_of g (root (g_parents g) x)" by blast
    from u(1) obtain i where "i < length bound" "bound ! i = Some (VEq x)" unfolding in_set_conv_nth by blast
    with a have "i < length (rw_values r)" "rw_values r ! i = VEq x" by (simp_all add: agrees_def)
    then have "VEq x \<in> set (rw_values r)" by (metis nth_mem)
    from reverse_okD(3) [OF ok v this] reverse_okD(1) [OF ok] u(2)
    have "candidate_in g t (rw_witness r) = Inr True" "rw_witness r \<in> set (sorted_list_of_set u)" by simp_all
    moreover from run Some have "rfilter (candidate_in g t) (sorted_list_of_set u) = Inr ws \<or> witnesses g t = Inr ws"
      by (auto simp: candidates_def rbind_eq_Inr split: if_splits)
    moreover have "rw_witness r \<in> set ws" if "witnesses g t = Inr ws"
      using that v by (auto simp: visible_def listed_def)
    ultimately show ?thesis by (blast intro: rfilter_mem)
  qed (use run v in \<open>auto simp: candidates_def visible_def listed_def\<close>)
qed

end
