(* ===== verification/Answers.thy ===== *)
theory Answers
  imports RowSource
begin

text \<open>
  What a query means, and that the matcher computes it. An answer is an assignment of the query's slots
  with a visible row for every table atom; with a seed, no row may be one that the seed leaves to another
  seed. Every access path finds exactly the answers.
\<close>

section \<open>Answers\<close>

fun arg_in :: "graph \<Rightarrow> (nat \<rightharpoonup> val) \<Rightarrow> arg \<Rightarrow> val option" where
  "arg_in g m (Literal v) = Some (canon_in g v)"
| "arg_in g m (Slot i) = m i"

lemma env_operand_arg [simp]: "env_operand g e = arg_in g (ev_values e)"
proof
  show "env_operand g e a = arg_in g (ev_values e) a" for a by (cases a) simp_all
qed

fun arg_slots :: "arg \<Rightarrow> nat set" where
  "arg_slots (Literal v) = {}"
| "arg_slots (Slot i) = {i}"

definition atom_slots :: "atom \<Rightarrow> nat set" where
  "atom_slots a = (\<Union>x \<in> set (a_args a). arg_slots x)"

definition table_true :: "graph \<Rightarrow> delta \<Rightarrow> nat \<Rightarrow> nat \<Rightarrow> atom \<Rightarrow> (nat \<rightharpoonup> val) \<Rightarrow> row \<Rightarrow> bool" where
  "table_true g d i t a m r \<longleftrightarrow> visible g t r \<and> \<not> delta_blocks d i r \<and> map (arg_in g m) (a_args a) = map Some (rw_values r)"

definition prim_true :: "graph \<Rightarrow> string \<Rightarrow> string \<Rightarrow> atom \<Rightarrow> (nat \<rightharpoonup> val) \<Rightarrow> bool" where
  "prim_true g name out a m \<longleftrightarrow>
     (\<exists>vs v. map (arg_in g m) (butlast (a_args a)) = map Some vs \<and>
       primitive (g_host g) name vs out (key_nodes g) = Inr (Some v) \<and> arg_in g m (last (a_args a)) = Some v)"

definition atom_true :: "graph \<Rightarrow> delta \<Rightarrow> nat \<Rightarrow> atom \<Rightarrow> (nat \<rightharpoonup> val) \<Rightarrow> row option \<Rightarrow> bool" where
  "atom_true g d i a m r =
     (case a_call a of
        CTable t \<Rightarrow> (\<exists>x. r = Some x \<and> table_true g d i t a m x)
      | CPrim name out \<Rightarrow> r = None \<and> prim_true g name out a m)"

abbreviation waiting :: "bool list \<Rightarrow> nat set" where
  "waiting remaining \<equiv> {i. i < length remaining \<and> remaining ! i}"

definition answer :: "graph \<Rightarrow> delta \<Rightarrow> atom list \<Rightarrow> nat set \<Rightarrow> (nat \<rightharpoonup> val) \<Rightarrow> (nat \<rightharpoonup> val) \<Rightarrow> (nat \<rightharpoonup> row) \<Rightarrow> bool" where
  "answer g d query todo m0 m rows \<longleftrightarrow>
     m0 \<subseteq>\<^sub>m m \<and> dom m = dom m0 \<union> (\<Union>i \<in> todo. atom_slots (query ! i)) \<and>
     dom rows \<subseteq> todo \<and> (\<forall>i \<in> todo. atom_true g d i (query ! i) m (rows i))"

definition latest :: "nat \<Rightarrow> (nat \<rightharpoonup> row) \<Rightarrow> nat" where
  "latest epoch rows = Max (insert epoch (rw_epoch ` ran rows))"

definition answers :: "graph \<Rightarrow> delta \<Rightarrow> atom list \<Rightarrow> nat set \<Rightarrow> (nat \<rightharpoonup> val) \<Rightarrow> nat \<Rightarrow> ((nat \<rightharpoonup> val) \<times> nat) set" where
  "answers g d query todo m0 epoch = {(m, latest epoch rows) | m rows. answer g d query todo m0 m rows}"

text \<open>What a query is expected to look like: every atom has a result column, a table atom all columns.\<close>

definition atoms_ok :: "graph \<Rightarrow> atom list \<Rightarrow> bool" where
  "atoms_ok g query \<longleftrightarrow> (\<forall>a \<in> set query. a_args a \<noteq> [] \<and>
     (\<forall>t. a_call a = CTable t \<longrightarrow> length (a_args a) = arity g t))"

section \<open>Binding\<close>

lemma map_leD: "m \<subseteq>\<^sub>m n \<Longrightarrow> m i = Some v \<Longrightarrow> n i = Some v"
  by (auto simp: map_le_def dom_def)

lemma arg_in_mono: "m \<subseteq>\<^sub>m n \<Longrightarrow> arg_in g m a = Some v \<Longrightarrow> arg_in g n a = Some v"
  by (cases a) (auto dest: map_leD)

definition fits :: "graph \<Rightarrow> (nat \<rightharpoonup> val) \<Rightarrow> (arg \<times> val) list \<Rightarrow> bool" where
  "fits g m avs \<longleftrightarrow> (\<forall>(a, v) \<in> set avs. arg_in g m a = Some v)"

text \<open>\<open>m1\<close> is the least extension of \<open>m0\<close> that gives every argument its value.\<close>

definition binds :: "graph \<Rightarrow> (nat \<rightharpoonup> val) \<Rightarrow> (arg \<times> val) list \<Rightarrow> (nat \<rightharpoonup> val) \<Rightarrow> bool" where
  "binds g m0 avs m1 \<longleftrightarrow> m0 \<subseteq>\<^sub>m m1 \<and> fits g m1 avs \<and> dom m1 = dom m0 \<union> (\<Union>x \<in> fst ` set avs. arg_slots x) \<and>
     (\<forall>m. m0 \<subseteq>\<^sub>m m \<longrightarrow> fits g m avs \<longrightarrow> m1 \<subseteq>\<^sub>m m)"

definition unfit :: "graph \<Rightarrow> (nat \<rightharpoonup> val) \<Rightarrow> (arg \<times> val) list \<Rightarrow> bool" where
  "unfit g m0 avs \<longleftrightarrow> (\<forall>m. m0 \<subseteq>\<^sub>m m \<longrightarrow> \<not> fits g m avs)"

lemma fits_simps [simp]: "fits g m []" "fits g m ((a, v) # avs) \<longleftrightarrow> arg_in g m a = Some v \<and> fits g m avs"
  by (auto simp: fits_def)

lemma fits_mono: "m \<subseteq>\<^sub>m n \<Longrightarrow> fits g m avs \<Longrightarrow> fits g n avs"
  by (auto simp: fits_def dest: arg_in_mono)

lemma binds_Nil [simp]: "binds g m [] m"
  by (simp add: binds_def)

lemma binds_Cons:
  assumes "binds g m0 [(a, v)] m1" "binds g m1 avs m2"
  shows "binds g m0 ((a, v) # avs) m2"
proof -
  have 1: "m0 \<subseteq>\<^sub>m m1" "arg_in g m1 a = Some v" "dom m1 = dom m0 \<union> arg_slots a"
    "m0 \<subseteq>\<^sub>m m \<Longrightarrow> arg_in g m a = Some v \<Longrightarrow> m1 \<subseteq>\<^sub>m m" for m
    using assms(1) by (simp_all add: binds_def)
  have 2: "m1 \<subseteq>\<^sub>m m2" "fits g m2 avs" "dom m2 = dom m1 \<union> (\<Union>x \<in> fst ` set avs. arg_slots x)"
    "m1 \<subseteq>\<^sub>m m \<Longrightarrow> fits g m avs \<Longrightarrow> m2 \<subseteq>\<^sub>m m" for m
    using assms(2) by (simp_all add: binds_def)
  show ?thesis
    unfolding binds_def using 1 2 by (auto intro: map_le_trans arg_in_mono)
qed

lemma unfit_Cons:
  "unfit g m0 [(a, v)] \<Longrightarrow> unfit g m0 ((a, v) # avs)"
  "binds g m0 [(a, v)] m1 \<Longrightarrow> unfit g m1 avs \<Longrightarrow> unfit g m0 ((a, v) # avs)"
  by (auto simp: unfit_def binds_def)

lemma bind_meaning:
  assumes "bind g a v e = (e1, ok)"
  shows "if ok then binds g (ev_values e) [(a, v)] (ev_values e1) else unfit g (ev_values e) [(a, v)]"
proof (cases a)
  case (Slot i)
  show ?thesis
  proof (cases "ev_values e i")
    case None
    with assms Slot show ?thesis by (auto simp: binds_def map_le_def dom_def split: if_splits)
  next
    case (Some x)
    with assms Slot show ?thesis by (auto simp: binds_def unfit_def dest: map_leD)
  qed
qed (use assms in \<open>auto simp: binds_def unfit_def\<close>)

lemma bind_all_meaning:
  "bind_all g avs e = (e1, ok) \<Longrightarrow>
     if ok then binds g (ev_values e) avs (ev_values e1) else unfit g (ev_values e) avs"
proof (induction avs arbitrary: e)
  case (Cons av avs)
  obtain a v where av: "av = (a, v)" by (cases av)
  obtain e2 ok2 where b: "bind g a v e = (e2, ok2)" by (cases "bind g a v e")
  note bm = bind_meaning [OF b]
  show ?case
  proof (cases ok2)
    case True
    with Cons.prems b have run: "bind_all g avs e2 = (e1, ok)" by (simp add: av)
    from Cons.IH [OF run] bm True show ?thesis
      by (auto simp: av intro: binds_Cons unfit_Cons split: if_splits)
  next
    case False
    with Cons.prems b bm show ?thesis by (auto simp: av intro: unfit_Cons)
  qed
qed auto

lemma binds_exists: "m0 \<subseteq>\<^sub>m m \<Longrightarrow> fits g m avs \<Longrightarrow> \<exists>m1. binds g m0 avs m1 \<and> m1 \<subseteq>\<^sub>m m"
proof -
  assume m: "m0 \<subseteq>\<^sub>m m" "fits g m avs"
  obtain e1 ok where b: "bind_all g avs ((env_new 0 False 0)\<lparr>ev_values := m0\<rparr>) = (e1, ok)"
    by (cases "bind_all g avs ((env_new 0 False 0)\<lparr>ev_values := m0\<rparr>)")
  from bind_all_meaning [OF b] m have "binds g m0 avs (ev_values e1)"
    by (auto simp: unfit_def split: if_splits)
  with m show ?thesis by (auto simp: binds_def)
qed

lemma binds_unique: "binds g m0 avs m1 \<Longrightarrow> binds g m0 avs m2 \<Longrightarrow> m1 = m2"
  by (auto simp: binds_def intro: map_le_antisym)

section \<open>Answers, one atom at a time\<close>

lemma fits_zip: "length xs = length vs \<Longrightarrow> fits g m (zip xs vs) \<longleftrightarrow> map (arg_in g m) xs = map Some vs"
  by (induction xs vs rule: list_induct2) auto

lemma zip_slots: "length (a_args a) = length vs \<Longrightarrow> (\<Union>x \<in> set (zip (a_args a) vs). arg_slots (fst x)) = atom_slots a"
  by (auto simp: atom_slots_def set_zip in_set_conv_nth image_iff) fastforce+

lemma latest_upd: "finite (ran (rows(i := None))) \<Longrightarrow>
    latest epoch (rows(i \<mapsto> r)) = latest (max epoch (rw_epoch r)) (rows(i := None))"
proof -
  assume f: "finite (ran (rows(i := None)))"
  have "ran (rows(i \<mapsto> r)) = insert r (ran (rows(i := None)))" by (auto simp: ran_def)
  with f show ?thesis by (cases "ran (rows(i := None)) = {}") (simp_all add: latest_def ac_simps insert_commute)
qed

lemma finite_rows: "finite todo \<Longrightarrow> dom rows \<subseteq> todo \<Longrightarrow> finite (ran rows)"
  by (metis finite_subset finite_ran)

lemma map_le_dom: "m0 \<subseteq>\<^sub>m m \<Longrightarrow> dom m = dom m0 \<Longrightarrow> m = m0"
  by (rule map_le_antisym) (auto simp: map_le_def)

lemma answer_done: "answer g d query {} m0 m rows \<longleftrightarrow> m = m0 \<and> rows = Map.empty"
  using map_le_dom [of m0 m] by (auto simp: answer_def)

lemma answers_done: "answers g d query {} m0 epoch = {(m0, epoch)}"
  by (simp add: answers_def answer_done latest_def)

lemma atom_true_upd: "i \<noteq> j \<Longrightarrow> atom_true g d i a m ((rows(j := x)) i) = atom_true g d i a m (rows i)"
  by simp

lemma answer_table:
  assumes "i \<in> todo" "a_call (query ! i) = CTable t" "binds g m0 (zip (a_args (query ! i)) (rw_values r)) m1"
    and "length (a_args (query ! i)) = length (rw_values r)" "visible g t r" "\<not> delta_blocks d i r" "rows i = None"
  shows "answer g d query (todo - {i}) m1 m rows \<longleftrightarrow> answer g d query todo m0 m (rows(i \<mapsto> r))"
proof
  have m1: "m0 \<subseteq>\<^sub>m m1" "fits g m1 (zip (a_args (query ! i)) (rw_values r))" "dom m1 = dom m0 \<union> atom_slots (query ! i)"
    "m0 \<subseteq>\<^sub>m m \<Longrightarrow> fits g m (zip (a_args (query ! i)) (rw_values r)) \<Longrightarrow> m1 \<subseteq>\<^sub>m m" for m
    using assms(3) unfolding binds_def by (simp_all add: zip_slots [OF assms(4)])
  {
    assume a: "answer g d query (todo - {i}) m1 m rows"
    then have "fits g m (zip (a_args (query ! i)) (rw_values r))"
      using m1(2) by (auto simp: answer_def intro: fits_mono)
    with assms(2,4,5,6) have "atom_true g d i (query ! i) m (Some r)"
      by (simp add: atom_true_def table_true_def fits_zip)
    with a m1(1,3) assms(1) show "answer g d query todo m0 m (rows(i \<mapsto> r))"
      by (auto simp: answer_def intro: map_le_trans)
  next
    assume a: "answer g d query todo m0 m (rows(i \<mapsto> r))"
    then have "atom_true g d i (query ! i) m (Some r)" using assms(1) by (auto simp: answer_def)
    with assms(2,4) have "fits g m (zip (a_args (query ! i)) (rw_values r))"
      by (simp add: atom_true_def table_true_def fits_zip)
    with a have "m1 \<subseteq>\<^sub>m m" using m1(4) by (simp add: answer_def)
    moreover have "\<forall>j \<in> todo - {i}. atom_true g d j (query ! j) m (rows j)"
    proof
      fix j assume j: "j \<in> todo - {i}"
      with a have "atom_true g d j (query ! j) m ((rows(i \<mapsto> r)) j)" unfolding answer_def by blast
      with j show "atom_true g d j (query ! j) m (rows j)" by simp
    qed
    moreover have "dom rows \<subseteq> todo - {i}" using a assms(7) by (auto simp: answer_def dom_def)
    moreover have "dom m = dom m1 \<union> (\<Union>j \<in> todo - {i}. atom_slots (query ! j))"
      using a m1(3) assms(1) by (auto simp: answer_def)
    ultimately show "answer g d query (todo - {i}) m1 m rows" by (simp add: answer_def)
  }
qed

lemma answers_table:
  assumes "finite todo" "i \<in> todo" "a_call (query ! i) = CTable t"
  shows "answers g d query todo m0 epoch = (\<Union>(r, m1) \<in> {(r, m1). visible g t r \<and> \<not> delta_blocks d i r \<and>
      length (a_args (query ! i)) = length (rw_values r) \<and> binds g m0 (zip (a_args (query ! i)) (rw_values r)) m1}.
    answers g d query (todo - {i}) m1 (max epoch (rw_epoch r)))"
    (is "_ = ?R")
proof (intro set_eqI iffI)
  fix x assume "x \<in> answers g d query todo m0 epoch"
  then obtain m rows where x: "x = (m, latest epoch rows)" and a: "answer g d query todo m0 m rows"
    by (auto simp: answers_def)
  from a assms(2,3) obtain r where r: "rows i = Some r" "table_true g d i t (query ! i) m r"
    unfolding answer_def atom_true_def by fastforce
  from r(2) have l: "length (a_args (query ! i)) = length (rw_values r)"
    unfolding table_true_def by (metis length_map)
  with r(2) have "fits g m (zip (a_args (query ! i)) (rw_values r))" by (simp add: fits_zip table_true_def)
  moreover have "m0 \<subseteq>\<^sub>m m" using a by (simp add: answer_def)
  ultimately obtain m1 where m1: "binds g m0 (zip (a_args (query ! i)) (rw_values r)) m1"
    using binds_exists by blast
  let ?rows = "rows(i := None)"
  have upd: "rows = ?rows(i \<mapsto> r)" using r(1) by auto
  have "answer g d query (todo - {i}) m1 m ?rows"
    using answer_table [of i todo query t g m0 r m1 d ?rows m] assms(2,3) m1 l r(2) a upd
    by (simp add: table_true_def)
  moreover have "finite (ran ?rows)" using a assms(1) by (intro finite_rows [of todo]) (auto simp: answer_def)
  then have "latest epoch rows = latest (max epoch (rw_epoch r)) ?rows" by (subst upd) (simp add: latest_upd)
  ultimately show "x \<in> ?R" using x m1 l r(2) by (auto simp: answers_def table_true_def)
next
  fix x assume "x \<in> ?R"
  then obtain r m1 m rows where r: "visible g t r" "\<not> delta_blocks d i r" "length (a_args (query ! i)) = length (rw_values r)"
    "binds g m0 (zip (a_args (query ! i)) (rw_values r)) m1"
    and a: "answer g d query (todo - {i}) m1 m rows" and x: "x = (m, latest (max epoch (rw_epoch r)) rows)"
    by (auto simp: answers_def)
  have n: "rows i = None" using a by (auto simp: answer_def)
  then have upd: "rows(i := None) = rows" by auto
  have "finite (ran rows)" using a assms(1) by (intro finite_rows [of todo]) (auto simp: answer_def)
  then have "latest epoch (rows(i \<mapsto> r)) = latest (max epoch (rw_epoch r)) rows"
    using latest_upd [of rows i epoch r] upd by simp
  with a x answer_table [of i todo query t g m0 r m1 d rows m] assms(2,3) r n
  show "x \<in> answers g d query todo m0 epoch" unfolding answers_def by force
qed

lemma answers_prim:
  assumes "i \<in> todo" "a_call (query ! i) = CPrim name out" "a_args (query ! i) \<noteq> []"
    and vs: "map (arg_in g m0) (butlast (a_args (query ! i))) = map Some vs"
  shows "answers g d query todo m0 epoch = (\<Union>m1 \<in> {m1. \<exists>v. primitive (g_host g) name vs out (key_nodes g) = Inr (Some v) \<and>
      binds g m0 [(last (a_args (query ! i)), v)] m1}. answers g d query (todo - {i}) m1 epoch)"
    (is "_ = ?R")
proof -
  let ?a = "query ! i"
  have split: "a_args ?a = butlast (a_args ?a) @ [last (a_args ?a)]" using assms(3) by simp
  have bound: "arg_slots x \<subseteq> dom m0" if "x \<in> set (butlast (a_args ?a))" for x
  proof -
    from that vs obtain v where "arg_in g m0 x = Some v"
      by (metis (no_types, lifting) in_set_conv_nth length_map nth_map)
    then show ?thesis by (cases x) auto
  qed
  have slots: "dom m0 \<union> atom_slots ?a = dom m0 \<union> arg_slots (last (a_args ?a))"
    unfolding atom_slots_def by (subst split) (use bound in auto)
  have same: "map (arg_in g m) (butlast (a_args ?a)) = map Some vs" if "m0 \<subseteq>\<^sub>m m" for m
    using vs that by (auto simp: list_eq_iff_nth_eq intro: arg_in_mono)
  have step: "answer g d query todo m0 m rows \<longleftrightarrow> (\<exists>v m1. primitive (g_host g) name vs out (key_nodes g) = Inr (Some v) \<and>
      binds g m0 [(last (a_args ?a), v)] m1 \<and> answer g d query (todo - {i}) m1 m rows)" for m rows
  proof
    assume a: "answer g d query todo m0 m rows"
    then have m: "m0 \<subseteq>\<^sub>m m" and p: "prim_true g name out ?a m" "rows i = None"
      using assms(1,2) by (auto simp: answer_def atom_true_def)
    from p(1) same [OF m] obtain v where v: "primitive (g_host g) name vs out (key_nodes g) = Inr (Some v)"
      "arg_in g m (last (a_args ?a)) = Some v" by (auto simp: prim_true_def)
    from binds_exists [OF m, of g "[(last (a_args ?a), v)]"] v(2) obtain m1 where
      m1: "binds g m0 [(last (a_args ?a), v)] m1" "m1 \<subseteq>\<^sub>m m" by auto
    have "dom m1 = dom m0 \<union> atom_slots ?a" using m1(1) slots by (simp add: binds_def)
    with a m1 p(2) assms(1) have "answer g d query (todo - {i}) m1 m rows" by (auto simp: answer_def)
    with v m1 show "\<exists>v m1. primitive (g_host g) name vs out (key_nodes g) = Inr (Some v) \<and>
      binds g m0 [(last (a_args ?a), v)] m1 \<and> answer g d query (todo - {i}) m1 m rows" by blast
  next
    assume "\<exists>v m1. primitive (g_host g) name vs out (key_nodes g) = Inr (Some v) \<and>
      binds g m0 [(last (a_args ?a), v)] m1 \<and> answer g d query (todo - {i}) m1 m rows"
    then obtain v m1 where v: "primitive (g_host g) name vs out (key_nodes g) = Inr (Some v)"
      and m1: "m0 \<subseteq>\<^sub>m m1" "arg_in g m1 (last (a_args ?a)) = Some v" "dom m1 = dom m0 \<union> atom_slots ?a"
      and a: "answer g d query (todo - {i}) m1 m rows"
      using slots by (auto simp: binds_def)
    from a m1(1) have m: "m0 \<subseteq>\<^sub>m m" "m1 \<subseteq>\<^sub>m m" by (auto simp: answer_def intro: map_le_trans)
    have "prim_true g name out ?a m"
      unfolding prim_true_def using same [OF m(1)] v arg_in_mono [OF m(2) m1(2)] by blast
    moreover have "rows i = None" using a by (auto simp: answer_def)
    ultimately have "atom_true g d i ?a m (rows i)" using assms(2) by (simp add: atom_true_def)
    with a m m1(3) assms(1) show "answer g d query todo m0 m rows" by (auto simp: answer_def)
  qed
  show ?thesis unfolding answers_def step by blast
qed

section \<open>The matcher finds the answers\<close>

lemma pending_card: "pending remaining = card (waiting remaining)"
  unfolding pending_def by (simp add: length_filter_conv_card)

lemma waiting_rest: "waiting (remaining[i := False]) = waiting remaining - {i}"
  by (auto simp: pending_rest)

lemma waiting_finite [simp]: "finite (waiting remaining)"
  by simp

lemma pending_pick: "i < length remaining \<Longrightarrow> remaining ! i \<Longrightarrow> pending remaining = Suc n \<Longrightarrow>
    pending (remaining[i := False]) = n"
  unfolding pending_card waiting_rest by simp

lemma full_key_Some:
  assumes "full_key g e a = Inr (Some key)" "ev_values e \<subseteq>\<^sub>m m"
    and "map (arg_in g m) (a_args a) = map Some vs"
  shows "key = butlast vs"
proof -
  from assms(1) have k: "None \<notin> set (map (arg_in g (ev_values e)) (butlast (a_args a)))"
    and key: "key = map (\<lambda>x. the (arg_in g (ev_values e) x)) (butlast (a_args a))"
    by (auto simp: full_key_def Let_def split: if_splits)
  have "map Some (butlast vs) = map (arg_in g m) (butlast (a_args a))"
    using assms(3) by (metis map_butlast)
  also have "\<dots> = map (arg_in g (ev_values e)) (butlast (a_args a))"
    using k assms(2) by (auto simp: image_iff) (metis arg_in_mono not_None_eq)
  also have "\<dots> = map Some key" using k unfolding key by (auto simp: image_iff)
  finally show ?thesis by (simp add: inj_map_eq_map)
qed

lemma rmapM_ok_or: "rmapM (\<lambda>x. ok_or (f x) err) xs = Inr ys \<longleftrightarrow> map f xs = map Some ys"
  by (induction xs arbitrary: ys) (auto simp: rbind_eq_Inr ok_or_eq_Inr)

context access_path
begin

lemma rows_found:
  assumes "keyed g" "ok g q" "row_witnesses mode g t a e q = Inr (q', ws)"
  shows "ok g q'"
    and "w \<in> set ws \<Longrightarrow> row_of g w = Inr (Some r) \<Longrightarrow> \<not> rw_hidden r \<Longrightarrow> visible g t r"
    and "visible g t r \<Longrightarrow> ev_values e \<subseteq>\<^sub>m m \<Longrightarrow> map (arg_in g m) (a_args a) = map Some (rw_values r) \<Longrightarrow>
      rw_witness r \<in> set ws"
proof -
  from assms(3) obtain k where k: "full_key g e a = Inr k" and run: "(case k of
      Some key \<Rightarrow> rbind (lookup g t key) (\<lambda>r. Inr (q, case r of None \<Rightarrow> [] | Some r \<Rightarrow> [rw_witness r]))
    | None \<Rightarrow> table_candidates mode g t (map (env_operand g e) (a_args a)) q) = Inr (q', ws)"
    by (auto simp: row_witnesses_def rbind_eq_Inr)
  show "ok g q'"
    using run assms(2) by (cases k) (auto simp: rbind_eq_Inr dest: keeps)
  show "visible g t r" if w: "w \<in> set ws" "row_of g w = Inr (Some r)" "\<not> rw_hidden r"
  proof (cases k)
    case None
    with run have "listed g t w" using w(1) sound [OF assms(2)] by simp
    with w show ?thesis using visibleI by blast
  next
    case (Some key)
    with run obtain x where x: "lookup g t key = Inr (Some x)" "w = rw_witness x"
      using w(1) by (auto simp: rbind_eq_Inr split: option.splits)
    from keyed_lookup [OF assms(1) x(1)] w x(2) show ?thesis by simp
  qed
  show "rw_witness r \<in> set ws"
    if v: "visible g t r" "ev_values e \<subseteq>\<^sub>m m" "map (arg_in g m) (a_args a) = map Some (rw_values r)"
  proof (cases k)
    case None
    have "agrees (map (arg_in g (ev_values e)) (a_args a)) (rw_values r)"
      using v(2,3) by (auto simp: agrees_def list_eq_iff_nth_eq dest: arg_in_mono)
    with None run v(1) complete [OF assms(2)] show ?thesis by simp
  next
    case (Some key)
    with k full_key_Some [OF _ v(2,3)] have "key = butlast (rw_values r)" by simp
    with run Some keyed_row(3) [OF assms(1) v(1)] show ?thesis by auto
  qed
qed


lemma search_answers:
  assumes "keyed g" "atoms_ok g query" "search n mode g query d remaining e epoch st = Inr st'" "n = pending remaining" "ok g (fst st)"
  shows "ok g (fst st') \<and> (\<exists>bs. snd st' = snd st @ bs \<and>
    (\<lambda>b. (bd_values b, bd_epoch b)) ` set bs = answers g d query (waiting remaining) (ev_values e) epoch)"
  using assms(3-5)
proof (induction n arbitrary: remaining e epoch st st')
  case 0
  then have w: "waiting remaining = {}" by (simp add: pending_card)
  from 0 have "st' = (fst st, snd st @ [binding_of e epoch False])" by simp
  with 0 show ?case unfolding w answers_done by (auto simp: binding_of_def)
next
  case (Suc n)
  let ?A = "\<lambda>todo m epoch. answers g d query todo m epoch"
  let ?ans = "\<lambda>bs. (\<lambda>b. (bd_values b, bd_epoch b)) ` set bs"
  from Suc.prems(1) obtain q1 i where c: "choose_atom mode g query remaining e (fst st) = Inr (q1, i)"
    by (auto simp: rbind_eq_Inr)
  have q1: "ok g q1" by (rule choice_keeps [OF Suc.prems(3) c])
  note i = choose_pending [OF c]
  let ?a = "query ! i" and ?rest = "remaining[i := False]"
  have rest: "n = pending ?rest" using pending_pick [of i remaining n] i Suc.prems(2) by simp
  note IH = Suc.IH [OF _ rest, unfolded waiting_rest]
  have iw: "i \<in> waiting remaining" using i by simp
  have args: "a_args ?a \<noteq> []" and ar: "\<And>t. a_call ?a = CTable t \<Longrightarrow> length (a_args ?a) = arity g t"
    using assms(2) i by (auto simp: atoms_ok_def)
  show ?case
  proof (cases "a_call ?a")
    case (CPrim name out)
    from Suc.prems(1) c CPrim obtain vals v where vals: "primitive_inputs g e ?a = Inr vals"
      and v: "primitive (g_host g) name vals out (key_nodes g) = Inr v"
      and run: "(case v of None \<Rightarrow> Inr (q1, snd st)
         | Some v \<Rightarrow> case bind g (last (a_args ?a)) v e of (e1, ok) \<Rightarrow>
             if ok then search n mode g query d ?rest e1 epoch (q1, snd st) else Inr (q1, snd st)) = Inr st'"
      by (auto simp: rbind_eq_Inr Let_def)
    have m: "map (arg_in g (ev_values e)) (butlast (a_args ?a)) = map Some vals"
      using vals args by (simp add: primitive_inputs_def rmapM_ok_or)
    note A = answers_prim [where d = d and epoch = epoch, OF iw CPrim args m]
    show ?thesis
    proof (cases v)
      case None
      with A v have "?A (waiting remaining) (ev_values e) epoch = {}" by simp
      with None run q1 show ?thesis by auto
    next
      case (Some x)
      obtain e1 okb where b: "bind g (last (a_args ?a)) x e = (e1, okb)" by (cases "bind g (last (a_args ?a)) x e")
      note bm = bind_meaning [OF b]
      show ?thesis
      proof (cases okb)
        case True
        with bm have bi: "binds g (ev_values e) [(last (a_args ?a), x)] (ev_values e1)" by simp
        have "{m1. \<exists>v. primitive (g_host g) name vals out (key_nodes g) = Inr (Some v) \<and>
            binds g (ev_values e) [(last (a_args ?a), v)] m1} = {ev_values e1}"
          using v Some bi by (auto dest: binds_unique [OF bi])
        then have "?A (waiting remaining) (ev_values e) epoch = ?A (waiting remaining - {i}) (ev_values e1) epoch"
          unfolding A by simp
        moreover have "search n mode g query d ?rest e1 epoch (q1, snd st) = Inr st'"
          using run Some b True by simp
        from IH [OF this] q1 have "ok g (fst st') \<and> (\<exists>bs. snd st' = snd st @ bs \<and>
            ?ans bs = ?A (waiting remaining - {i}) (ev_values e1) epoch)" by simp
        ultimately show ?thesis by simp
      next
        case False
        with bm have "unfit g (ev_values e) [(last (a_args ?a), x)]" by simp
        then have "?A (waiting remaining) (ev_values e) epoch = {}"
          using A v Some by (auto simp: unfit_def binds_def)
        with run Some b False q1 show ?thesis by auto
      qed
    qed
  next
    case (CTable t)
    let ?step = "\<lambda>w st. rbind (live_row g d i w) (\<lambda>r. case r of
        None \<Rightarrow> Inr st
      | Some r \<Rightarrow> case bind_all g (zip (a_args ?a) (rw_values r)) e of (e1, ok) \<Rightarrow>
          if ok then search n mode g query d ?rest (env_record i (Some (rw_witness r)) e1) (max epoch (rw_epoch r)) st
          else Inr st)"
    let ?from = "\<lambda>w. {(r, m1). row_of g w = Inr (Some r) \<and> \<not> rw_hidden r \<and> \<not> delta_blocks d i r \<and>
        binds g (ev_values e) (zip (a_args ?a) (rw_values r)) m1}"
    let ?B = "\<lambda>w. \<Union>(r, m1) \<in> ?from w. ?A (waiting remaining - {i}) m1 (max epoch (rw_epoch r))"
    from Suc.prems(1) c CTable obtain q2 ws where rw: "row_witnesses mode g t ?a e q1 = Inr (q2, ws)"
      and run: "rfold ?step ws (q2, snd st) = Inr st'"
      by (auto simp: rbind_eq_Inr Let_def)
    note found = rows_found [OF assms(1) q1 rw]
    have one: "ok g (fst s') \<and> (\<exists>bs. snd s' = snd s @ bs \<and> ?ans bs = ?B w)"
      if "?step w s = Inr s'" "ok g (fst s)" for w s s'
    proof -
      from that(1) obtain r where lr: "live_row g d i w = Inr r" and step: "(case r of
          None \<Rightarrow> Inr s
        | Some r \<Rightarrow> case bind_all g (zip (a_args ?a) (rw_values r)) e of (e1, ok) \<Rightarrow>
            if ok then search n mode g query d ?rest (env_record i (Some (rw_witness r)) e1) (max epoch (rw_epoch r)) s
            else Inr s) = Inr s'" by (auto simp: rbind_eq_Inr)
      show ?thesis
      proof (cases r)
        case None
        with lr have "?from w = {}" by (auto simp: live_row_def rbind_eq_Inr split: option.splits if_splits)
        with None step that(2) show ?thesis by auto
      next
        case (Some r)
        with lr have r: "row_of g w = Inr (Some r)" "\<not> rw_hidden r" "\<not> delta_blocks d i r"
          by (auto simp: live_row_def rbind_eq_Inr split: option.splits if_splits)
        obtain e1 okb where b: "bind_all g (zip (a_args ?a) (rw_values r)) e = (e1, okb)"
          by (cases "bind_all g (zip (a_args ?a) (rw_values r)) e")
        note bm = bind_all_meaning [OF b]
        show ?thesis
        proof (cases okb)
          case True
          with bm have bi: "binds g (ev_values e) (zip (a_args ?a) (rw_values r)) (ev_values e1)" by simp
          have "?from w = {(r, ev_values e1)}" using r bi by (auto dest: binds_unique [OF bi])
          moreover have "search n mode g query d ?rest (env_record i (Some (rw_witness r)) e1) (max epoch (rw_epoch r)) s = Inr s'"
            using step Some b True by simp
          note IH [OF this that(2)]
          ultimately show ?thesis by (simp add: env_record_def)
        next
          case False
          with bm have "?from w = {}" using r by (auto simp: unfit_def binds_def)
          with Some step b False that(2) show ?thesis by auto
        qed
      qed
    qed
    have "ok g (fst s') \<and> (\<exists>bs. snd s' = snd s @ bs \<and> ?ans bs = (\<Union>w \<in> set ws. ?B w))"
      if "rfold ?step ws s = Inr s'" "ok g (fst s)" for ws s s'
      using that
    proof (induction ws arbitrary: s)
      case (Cons w ws)
      then obtain s1 where s1: "?step w s = Inr s1" "rfold ?step ws s1 = Inr s'" by (auto simp: rbind_eq_Inr)
      from one [OF s1(1) Cons.prems(2)] obtain bs where 1: "ok g (fst s1)" "snd s1 = snd s @ bs" "?ans bs = ?B w" by blast
      from Cons.IH [OF s1(2) 1(1)] obtain cs where
        2: "ok g (fst s')" "snd s' = snd s1 @ cs" "?ans cs = (\<Union>w \<in> set ws. ?B w)" by blast
      have "?ans (bs @ cs) = (\<Union>w \<in> set (w # ws). ?B w)"
        unfolding set_append image_Un 1(3) 2(3) by simp
      with 1(2) 2(1,2) show ?case by auto
    qed simp
    from this [OF run] found(1) have res: "ok g (fst st') \<and> (\<exists>bs. snd st' = snd st @ bs \<and> ?ans bs = (\<Union>w \<in> set ws. ?B w))"
      by simp
    have "(\<Union>w \<in> set ws. ?B w) = ?A (waiting remaining) (ev_values e) epoch"
    proof -
      have "(\<Union>w \<in> set ws. ?from w) = {(r, m1). visible g t r \<and> \<not> delta_blocks d i r \<and>
          length (a_args ?a) = length (rw_values r) \<and> binds g (ev_values e) (zip (a_args ?a) (rw_values r)) m1}"
        (is "?L = ?R")
      proof (intro set_eqI iffI)
        fix x assume "x \<in> ?L"
        then show "x \<in> ?R" using found(2) keyed_row(2) [OF assms(1)] ar [OF CTable] by force
      next
        fix x assume "x \<in> ?R"
        then obtain r m1 where x: "x = (r, m1)" "visible g t r" "\<not> delta_blocks d i r"
          "length (a_args ?a) = length (rw_values r)" "binds g (ev_values e) (zip (a_args ?a) (rw_values r)) m1" by auto
        have "rw_witness r \<in> set ws"
          using x(5) by (intro found(3) [OF x(2), of m1]) (simp_all add: binds_def fits_zip [OF x(4)])
        with x show "x \<in> ?L" by (auto simp: visible_def)
      qed
      then show ?thesis
        unfolding answers_table [where d = d, OF waiting_finite iw CTable] by (simp only: UN_UN_flatten [symmetric])
    qed
    with res show ?thesis by simp
  qed
qed

end

end
