(* ===== verification/Seeds.thy ===== *)
theory Seeds
  imports Answers
begin

text \<open>
  Semi-naive evaluation. A run matches a rule once per changed row and atom: the row is the seed, the atom
  its pivot, and a row later than the seed, or the seed itself at an earlier atom, is left to another
  seed. This partitions the answers: every answer that reads a table belongs to exactly one seed.
\<close>

definition seed_of :: "(nat \<rightharpoonup> row) \<Rightarrow> nat \<Rightarrow> delta" where
  "seed_of rows p = (case rows p of None \<Rightarrow> None | Some r \<Rightarrow> Some (p, rw_epoch r, rw_witness r))"

definition stamp :: "row \<Rightarrow> nat \<times> dependency" where
  "stamp r = (rw_epoch r, rw_witness r)"

lemma blocks_stamp:
  "rows p = Some s \<Longrightarrow> delta_blocks (seed_of rows p) i r \<longleftrightarrow> stamp s < stamp r \<or> stamp s = stamp r \<and> i < p"
  by (auto simp: delta_blocks_def seed_of_def stamp_def)

definition owns :: "(nat \<rightharpoonup> row) \<Rightarrow> nat \<Rightarrow> bool" where
  "owns rows p \<longleftrightarrow> p \<in> dom rows \<and> (\<forall>i r. rows i = Some r \<longrightarrow> \<not> delta_blocks (seed_of rows p) i r)"

lemma owner_exists:
  assumes "finite (dom rows)" "dom rows \<noteq> {}"
  shows "\<exists>p. owns rows p"
proof -
  let ?S = "\<lambda>i. stamp (the (rows i))"
  let ?top = "Max (?S ` dom rows)"
  have "?top \<in> ?S ` dom rows" using assms by (intro Max_in) auto
  then obtain j where j: "j \<in> dom rows" "?S j = ?top" by force
  obtain p where p: "p = (LEAST i. i \<in> dom rows \<and> ?S i = ?top)" by blast
  have p1: "p \<in> dom rows \<and> ?S p = ?top" unfolding p by (rule LeastI [of _ j]) (use j in simp)
  have p2: "p \<le> i" if "i \<in> dom rows" "?S i = ?top" for i unfolding p by (rule Least_le) (use that in simp)
  from p1 obtain s where s: "rows p = Some s" "stamp s = ?top" by auto
  have "\<not> delta_blocks (seed_of rows p) i r" if "rows i = Some r" for i r
  proof -
    have i: "i \<in> dom rows" "?S i = stamp r" using that by auto
    then have "stamp r \<le> ?top" using assms(1) by (metis Max_ge finite_imageI imageI)
    then show ?thesis using p2 [OF i(1)] i(2) s by (auto simp: blocks_stamp [of rows p s, OF s(1)])
  qed
  with p1 show ?thesis by (auto simp: owns_def)
qed

lemma owner_unique: "owns rows p \<Longrightarrow> owns rows q \<Longrightarrow> p = q"
proof -
  assume o: "owns rows p" "owns rows q"
  then obtain s r where sr: "rows p = Some s" "rows q = Some r" by (auto simp: owns_def)
  from o sr have "\<not> (stamp s < stamp r \<or> stamp s = stamp r \<and> q < p)" "\<not> (stamp r < stamp s \<or> stamp r = stamp s \<and> p < q)"
    by (auto simp: owns_def blocks_stamp [of rows p s, OF sr(1)] blocks_stamp [of rows q r, OF sr(2)])
  then show "p = q" by auto
qed

text \<open>The seed's row is the latest of an answer it owns.\<close>

lemma owner_latest:
  assumes "owns rows p" "finite (dom rows)" "rows p = Some s"
  shows "latest 0 rows = rw_epoch s"
  unfolding latest_def
proof (rule Max_eqI)
  show "finite (insert 0 (rw_epoch ` ran rows))" using assms(2) by (simp add: finite_ran)
  show "rw_epoch s \<in> insert 0 (rw_epoch ` ran rows)" using assms(3) by (auto simp: ran_def)
  show "y \<le> rw_epoch s" if "y \<in> insert 0 (rw_epoch ` ran rows)" for y
  proof (cases "y = 0")
    case False
    with that obtain i r where r: "rows i = Some r" "y = rw_epoch r" by (auto simp: ran_def)
    with assms(1,3) have "\<not> stamp s < stamp r" by (auto simp: owns_def blocks_stamp [of rows p s, OF assms(3)])
    then show ?thesis using r(2) by (auto simp: stamp_def)
  qed simp
qed

text \<open>Answers under a seed are the answers it owns.\<close>

lemma answer_seed:
  assumes "rows p = Some s"
  shows "answer g (seed_of rows p) query todo m0 m rows \<longleftrightarrow> answer g None query todo m0 m rows \<and>
    (\<forall>i r. rows i = Some r \<longrightarrow> \<not> delta_blocks (seed_of rows p) i r)"
proof -
  have "atom_true g (seed_of rows p) i a m (rows i) \<longleftrightarrow> atom_true g None i a m (rows i) \<and>
      (\<forall>r. rows i = Some r \<longrightarrow> \<not> delta_blocks (seed_of rows p) i r)" for i a
    by (auto simp: atom_true_def table_true_def delta_blocks_def split: call.split)
  then show ?thesis by (auto simp: answer_def)
qed

lemma answer_rows:
  assumes "answer g d query todo m0 m rows" "i \<in> todo"
  shows "i \<in> dom rows \<longleftrightarrow> (\<exists>t. a_call (query ! i) = CTable t)"
proof -
  from assms have "atom_true g d i (query ! i) m (rows i)" by (simp add: answer_def)
  then show ?thesis by (cases "a_call (query ! i)") (auto simp: atom_true_def)
qed

text \<open>
  C21. Semi-naive evaluation partitions the answers of a rule. An answer with at least one table atom is an
  answer under the seed of exactly one of its own rows, and that row carries the answer's epoch; so
  matching every seed once finds every answer, none twice, and the epoch of an answer tells whether its
  seed changed.
\<close>

theorem seeds_partition:
  assumes "answer g None query todo m0 m rows" "finite todo" "i \<in> todo" "a_call (query ! i) = CTable t"
  shows "(\<exists>!p. p \<in> dom rows \<and> answer g (seed_of rows p) query todo m0 m rows) \<and>
    (\<forall>p s. rows p = Some s \<longrightarrow> answer g (seed_of rows p) query todo m0 m rows \<longrightarrow> latest 0 rows = rw_epoch s)"
proof -
  have f: "finite (dom rows)" using assms(1,2) by (auto simp: answer_def intro: finite_subset)
  have ne: "dom rows \<noteq> {}" using answer_rows [OF assms(1,3)] assms(4) by blast
  have own: "p \<in> dom rows \<and> answer g (seed_of rows p) query todo m0 m rows \<longleftrightarrow> owns rows p" for p
    using answer_seed [of rows p _ g query todo m0 m] assms(1) by (auto simp: owns_def)
  have "\<exists>!p. p \<in> dom rows \<and> answer g (seed_of rows p) query todo m0 m rows"
    unfolding own using owner_exists [OF f ne] owner_unique by blast
  moreover have "latest 0 rows = rw_epoch s" if "rows p = Some s" "answer g (seed_of rows p) query todo m0 m rows" for p s
    using that own [of p] owner_latest [OF _ f that(1)] by blast
  ultimately show ?thesis by blast
qed

section \<open>The example graph\<close>

lemma port_listed: "listed port_graph t w \<longleftrightarrow> t = 0 \<and> w = DFunction 0"
  using port_graph_simps(4)
  by (cases "t = 0") (auto simp: listed_def witnesses_def port_graph_simps idx_def)

lemma port_visible: "visible port_graph t r \<longleftrightarrow> t = 0 \<and> r = port_row"
  using port_graph_simps(5) by (auto simp: visible_def port_listed port_row_def)

lemma port_lookup: "lookup port_graph t key = Inr (Some r) \<Longrightarrow> t = 0 \<and> r = port_row"
proof -
  assume l: "lookup port_graph t key = Inr (Some r)"
  then have t: "t = 0" by (cases "t = 0") (auto simp: lookup_def port_graph_simps idx_def Let_def)
  with l obtain i where "g_function_keys port_graph (0, map (canon_in port_graph) key) = Some i" "function_row port_graph i = Some r"
    by (auto simp: lookup_def port_graph_simps idx_def Let_def port_table_def split: option.splits)
  moreover from this(1) have "i = 0" by (auto simp: port_graph_def split: if_splits)
  ultimately show ?thesis using t port_graph_simps(5) by (simp add: row_of_def)
qed

lemma port_keyed: "keyed port_graph"
proof -
  have "lookup port_graph 0 (butlast (rw_values port_row)) = Inr (Some port_row)"
    using port_graph_simps(7) by (simp add: port_row_def)
  moreover have "g_cells port_graph = Map.empty"
    by (simp add: port_graph_def unary_empty_def empty_graph_def Let_def)
  then have "fact port_graph f = Inr None" for f by (simp add: fact_def)
  ultimately show ?thesis
    unfolding keyed_def port_visible
    using port_graph_simps(5) port_lookup
    by (auto simp: port_row_def arity_def port_graph_simps port_table_def unary_def port_listed dest!: port_lookup)
qed

lemma port_answer: "answer port_graph None port_query {0} Map.empty [0 \<mapsto> VEq 5] [0 \<mapsto> port_row]"
  by (simp add: answer_def port_query_def atom_slots_def atom_true_def table_true_def port_visible delta_blocks_def port_row_def)

lemma seeds_partition_witness:
  "\<exists>!p. p \<in> dom [0 \<mapsto> port_row] \<and> answer port_graph (seed_of [0 \<mapsto> port_row] p) port_query {0} Map.empty [0 \<mapsto> VEq 5] [0 \<mapsto> port_row]"
  using seeds_partition [OF port_answer, of 0 0] by (simp add: port_query_def)

end
