(* ===== verification/Narrow.thy ===== *)
theory Narrow
  imports Seeds
begin

text \<open>
  The entry programs of \<open>runtime.rs\<close>: before the join, a seed is narrowed along a compiled order of atoms.
  An atom is taken when its key is bound (a keyed read) or, on request, when its result is bound and the
  column index knows at most one candidate (an inverse read). The order is only a hint: whatever it is,
  narrowing neither loses nor adds an answer.
\<close>

section \<open>The entry program\<close>

text \<open>The workspace, the pending atoms, the epoch of the binding, and the column indexes.\<close>

record narrowing =
  nw_env :: env
  nw_remaining :: "bool list"
  nw_epoch :: nat
  nw_indexes :: query_indexes

datatype reading = Unread | Absent | Present row

definition read_point :: "graph \<Rightarrow> bool \<Rightarrow> nat \<Rightarrow> atom \<Rightarrow> val list option \<Rightarrow> env \<Rightarrow> query_indexes \<Rightarrow> (query_indexes \<times> reading) res" where
  "read_point g backward t a key e q =
     (case key of
        Some key \<Rightarrow> rbind (lookup g t key) (\<lambda>r. Inr (q, case r of None \<Rightarrow> Absent | Some r \<Rightarrow> Present r))
      | None \<Rightarrow>
          if backward \<and> (case env_operand g e (last (a_args a)) of Some (VEq x) \<Rightarrow> True | _ \<Rightarrow> False) then
            rbind (column_domain g t (map (env_operand g e) (a_args a)) q) (\<lambda>(q1, dm).
            case dm of
              DomEmpty \<Rightarrow> Inr (q1, Absent)
            | DomMany \<Rightarrow> Inr (q1, Unread)
            | DomOne w \<Rightarrow> rbind (row_of g w) (\<lambda>r. Inr (q1, case r of None \<Rightarrow> Absent | Some r \<Rightarrow> Present r)))
          else Inr (q, Unread))"

text \<open>
  The atom is satisfied by a row: bind it, record it, and it is no longer pending. The flag is false when
  no answer can exist; the caller then drops the workspace as it is.
\<close>

definition take_row :: "graph \<Rightarrow> delta \<Rightarrow> nat \<Rightarrow> atom \<Rightarrow> row \<Rightarrow> narrowing \<Rightarrow> bool \<times> narrowing" where
  "take_row g d i a r st =
     (if rw_hidden r \<or> delta_blocks d i r then (False, st)
      else let (e1, ok) = bind_all g (zip (a_args a) (rw_values r)) (nw_env st) in
        if ok then (True, st\<lparr>nw_env := env_record i (Some (rw_witness r)) e1,
          nw_remaining := (nw_remaining st)[i := False], nw_epoch := max (nw_epoch st) (rw_epoch r)\<rparr>)
        else (False, st\<lparr>nw_env := e1\<rparr>))"

definition take_value :: "graph \<Rightarrow> nat \<Rightarrow> atom \<Rightarrow> val \<Rightarrow> narrowing \<Rightarrow> bool \<times> narrowing" where
  "take_value g i a v st =
     (let (e1, ok) = bind g (last (a_args a)) v (nw_env st) in
      if ok then (True, st\<lparr>nw_env := e1, nw_remaining := (nw_remaining st)[i := False]\<rparr>)
      else (False, st\<lparr>nw_env := e1\<rparr>))"

definition point :: "graph \<Rightarrow> atom list \<Rightarrow> delta \<Rightarrow> bool \<Rightarrow> nat \<Rightarrow> narrowing \<Rightarrow> (bool \<times> narrowing) res" where
  "point g query d backward i st =
     rbind (idx (nw_remaining st) i) (\<lambda>p.
     if \<not> p then Inr (True, st)
     else
       rbind (idx query i) (\<lambda>a.
       rbind (full_key g (nw_env st) a) (\<lambda>key.
       case a_call a of
         CPrim name out \<Rightarrow>
           (case key of
              None \<Rightarrow> Inr (True, st)
            | Some vals \<Rightarrow>
                rbind (primitive (g_host g) name vals out (key_nodes g)) (\<lambda>v.
                Inr (case v of None \<Rightarrow> (False, st) | Some v \<Rightarrow> take_value g i a v st)))
       | CTable t \<Rightarrow>
           rbind (read_point g backward t a key (nw_env st) (nw_indexes st)) (\<lambda>(q, r).
           let st1 = st\<lparr>nw_indexes := q\<rparr> in
           Inr (case r of Unread \<Rightarrow> (True, st1) | Absent \<Rightarrow> (False, st1) | Present r \<Rightarrow> take_row g d i a r st1)))))"

fun points :: "graph \<Rightarrow> atom list \<Rightarrow> delta \<Rightarrow> bool \<Rightarrow> nat list \<Rightarrow> narrowing \<Rightarrow> (bool \<times> narrowing) res" where
  "points g query d backward [] st = Inr (True, st)"
| "points g query d backward (i # order) st =
     rbind (point g query d backward i st) (\<lambda>(live, st1).
     if live then points g query d backward order st1 else Inr (False, st1))"

section \<open>Inverse reads\<close>

lemma column_domain_result:
  assumes "indexes_ok g q" "column_domain g t bound q = Inr (q', dm)"
  shows "indexes_ok g q'"
    and "visible g t r \<Longrightarrow> agrees bound (rw_values r) \<Longrightarrow> dm = DomMany \<or> dm = DomOne (rw_witness r)"
    and "dm = DomOne w \<Longrightarrow> listed g t w"
proof -
  from assms(2) obtain q1 c b hold where e: "ensure g t q = Inr (q1, c)" and b: "best q1 c bound = Inr b"
    and q': "q' = q1" and hold: "hold = (case b of
         Some (col, key, _) \<Rightarrow> (case (co_values c ! col) key of None \<Rightarrow> {} | Some b \<Rightarrow> bk_facts b)
       | None \<Rightarrow> dom (co_keys c))"
    and dm: "dm = (if card hold = 0 then DomEmpty else if card hold = 1 then DomOne (Min hold) else DomMany)"
    by (auto simp: column_domain_def rbind_eq_Inr Let_def)
  note er = ensure_result [OF assms(1) e]
  show "indexes_ok g q'" using er q' by blast
  have c: "columns_ok (arity g t) c" "synced g q1 t c" using er by blast+
  have ws: "hold \<subseteq> dom (co_keys c) \<and> (\<forall>r. visible g t r \<longrightarrow> agrees bound (rw_values r) \<longrightarrow> rw_witness r \<in> hold)"
  proof -
    have content: "co_keys c (rw_witness r) = Some (map (fingerprint q1) (rw_values r))" if "visible g t r" for r
      using c(2) that by (auto simp: synced_def visible_def listed_def row_content_def)
    show ?thesis
    proof (cases b)
      case None
      with content hold show ?thesis by auto
    next
      case (Some x)
      obtain col key n where x: "x = (col, key, n)" by (cases x)
      from best_fold(1) [OF b [unfolded best_def]] Some x obtain v where
        v: "col < length bound" "bound ! col = Some v" "col < length (co_values c)" "key = fingerprint q1 v" by auto
      have "col < arity g t" using v(3) c(1) by (simp add: columns_ok_def)
      from bucket_okD [OF c(1) this, of key] have ws: "hold = holders c col key"
        by (auto simp: hold Some x bucket_ok_def split: option.splits)
      have "rw_witness r \<in> holders c col key" if "visible g t r" "agrees bound (rw_values r)" for r
        using content [OF that(1)] that(2) v by (auto simp: holders_def agrees_def)
      then show ?thesis unfolding ws by (auto simp: holders_def)
    qed
  qed
  have fin: "finite hold" using c(1) ws by (auto simp: columns_ok_def intro: finite_subset)
  show "dm = DomMany \<or> dm = DomOne (rw_witness r)" if "visible g t r" "agrees bound (rw_values r)"
  proof -
    have "rw_witness r \<in> hold" using ws that by blast
    then have "card hold \<noteq> 0" "card hold = 1 \<Longrightarrow> hold = {rw_witness r}"
      using fin by (auto simp: card_1_singleton_iff)
    then show ?thesis unfolding dm by auto
  qed
  show "listed g t w" if "dm = DomOne w"
  proof -
    from that have "card hold = 1" "w = Min hold" unfolding dm by (auto split: if_splits)
    then have "w \<in> hold" using fin by (metis Min_in card.empty zero_neq_one)
    then have "co_keys c w \<noteq> None" using ws by blast
    with c(2) show ?thesis by (auto simp: synced_def listed_def split: if_splits)
  qed
qed

section \<open>Narrowing keeps the answers\<close>

definition reach :: "graph \<Rightarrow> delta \<Rightarrow> atom list \<Rightarrow> narrowing \<Rightarrow> ((nat \<rightharpoonup> val) \<times> nat) set" where
  "reach g d query st = answers g d query (waiting (nw_remaining st)) (ev_values (nw_env st)) (nw_epoch st)"

text \<open>The state that a step may leave: usable indexes, no provenance of a pending atom.\<close>

definition sane :: "graph \<Rightarrow> atom list \<Rightarrow> narrowing \<Rightarrow> bool" where
  "sane g query st \<longleftrightarrow> indexes_ok g (nw_indexes st) \<and> clean (nw_remaining st) (nw_env st) \<and>
     length (nw_remaining st) = length query"

text \<open>A live step keeps the answers; a dead one had none.\<close>

definition narrows :: "graph \<Rightarrow> delta \<Rightarrow> atom list \<Rightarrow> narrowing \<Rightarrow> bool \<times> narrowing \<Rightarrow> bool" where
  "narrows g d query st res \<longleftrightarrow> indexes_ok g (nw_indexes (snd res)) \<and>
     (if fst res then sane g query (snd res) \<and> reach g d query (snd res) = reach g d query st
      else reach g d query st = {})"

lemma narrows_refl: "sane g query st \<Longrightarrow> narrows g d query st (True, st)"
  by (simp add: narrows_def sane_def)

lemma narrows_trans: "narrows g d query st (True, st1) \<Longrightarrow> narrows g d query st1 res \<Longrightarrow> narrows g d query st res"
  by (auto simp: narrows_def split: if_splits)

lemma atoms_okD: "atoms_ok g query \<Longrightarrow> i < length query \<Longrightarrow> a_args (query ! i) \<noteq> [] \<and>
    (a_call (query ! i) = CTable t \<longrightarrow> length (a_args (query ! i)) = arity g t)"
  by (auto simp: atoms_ok_def)

definition only_row :: "graph \<Rightarrow> nat \<Rightarrow> atom \<Rightarrow> (nat \<rightharpoonup> val) \<Rightarrow> row option \<Rightarrow> bool" where
  "only_row g t a m0 r \<longleftrightarrow> (\<forall>s m. visible g t s \<longrightarrow> m0 \<subseteq>\<^sub>m m \<longrightarrow> map (arg_in g m) (a_args a) = map Some (rw_values s) \<longrightarrow> r = Some s)"

lemma only_none:
  assumes "only_row g t (query ! i) m0 r" "r = None \<or> \<not> visible g t (the r) \<or> delta_blocks d i (the r)"
    "i \<in> todo" "a_call (query ! i) = CTable t"
  shows "answers g d query todo m0 epoch = {}"
proof -
  have "\<not> answer g d query todo m0 m rows" for m rows
  proof
    assume a: "answer g d query todo m0 m rows"
    with assms(3,4) obtain s where s: "table_true g d i t (query ! i) m s"
      unfolding answer_def atom_true_def by fastforce
    with a assms(1) have "r = Some s" by (auto simp: only_row_def answer_def table_true_def)
    with assms(2) s show False by (auto simp: table_true_def)
  qed
  then show ?thesis by (simp add: answers_def)
qed

lemma clean_take: "clean remaining e \<Longrightarrow> extends e e1 \<Longrightarrow> clean (remaining[i := False]) (env_record i w e1)"
  by (simp add: clean_extends clean_record)

lemma reach_take:
  "reach g d query (st\<lparr>nw_env := e, nw_remaining := (nw_remaining st)[i := False], nw_epoch := epoch\<rparr>) =
     answers g d query (waiting (nw_remaining st) - {i}) (ev_values e) epoch"
  "reach g d query (st\<lparr>nw_env := e, nw_remaining := (nw_remaining st)[i := False]\<rparr>) =
     answers g d query (waiting (nw_remaining st) - {i}) (ev_values e) (nw_epoch st)"
  unfolding waiting_rest [symmetric] by (simp_all add: reach_def)

lemma take_row_narrows:
  assumes "sane g query st" "keyed g" "atoms_ok g query" "i \<in> waiting (nw_remaining st)" "a_call (query ! i) = CTable t"
    and only: "only_row g t (query ! i) (ev_values (nw_env st)) (Some r)" and vis: "\<not> rw_hidden r \<Longrightarrow> visible g t r"
  shows "narrows g d query st (take_row g d i (query ! i) r st)"
proof (cases "rw_hidden r \<or> delta_blocks d i r")
  case True
  then have "\<not> visible g t r \<or> delta_blocks d i r" by (auto simp: visible_def)
  with only_none [OF only _ assms(4,5)] True assms(1) show ?thesis
    by (simp add: take_row_def narrows_def reach_def sane_def)
next
  case False
  let ?a = "query ! i" and ?e = "nw_env st"
  let ?avs = "zip (a_args ?a) (rw_values r)"
  have i: "i < length query" using assms(1,4) by (simp add: sane_def)
  have v: "visible g t r" using False vis by blast
  have l: "length (a_args ?a) = length (rw_values r)"
    using keyed_row(2) [OF assms(2) v] atoms_okD [OF assms(3) i] assms(5) by simp
  obtain e1 okb where b: "bind_all g ?avs ?e = (e1, okb)" by (cases "bind_all g ?avs ?e")
  note bm = bind_all_meaning [OF b] and ex = extends_bind_all [OF b]
  have set: "{(s, m1). visible g t s \<and> \<not> delta_blocks d i s \<and> length (a_args ?a) = length (rw_values s) \<and>
      binds g (ev_values ?e) (zip (a_args ?a) (rw_values s)) m1} = {(s, m1). s = r \<and> binds g (ev_values ?e) ?avs m1}"
  proof -
    have "s = r" if "visible g t s" "length (a_args ?a) = length (rw_values s)"
      "binds g (ev_values ?e) (zip (a_args ?a) (rw_values s)) m1" for s m1
      using only that by (auto simp: only_row_def binds_def fits_zip)
    then show ?thesis using v l False by auto
  qed
  note A = answers_table [where d = d, OF waiting_finite assms(4,5), of g "ev_values ?e" "nw_epoch st", unfolded set]
  show ?thesis
  proof (cases okb)
    case True
    with bm have bi: "binds g (ev_values ?e) ?avs (ev_values e1)" by simp
    have "{(s, m1). s = r \<and> binds g (ev_values ?e) ?avs m1} = {(r, ev_values e1)}"
      using bi by (auto dest: binds_unique [OF bi])
    then have "reach g d query st = answers g d query (waiting (nw_remaining st) - {i}) (ev_values e1)
        (max (nw_epoch st) (rw_epoch r))"
      unfolding reach_def A by simp
    moreover have "sane g query (st\<lparr>nw_env := env_record i (Some (rw_witness r)) e1,
        nw_remaining := (nw_remaining st)[i := False], nw_epoch := max (nw_epoch st) (rw_epoch r)\<rparr>)"
      using assms(1) clean_take [OF _ ex] by (simp add: sane_def)
    ultimately show ?thesis
      using True False b by (simp add: take_row_def narrows_def reach_take sane_def) (simp add: env_record_def)
  next
    case okb: False
    with bm have "unfit g (ev_values ?e) ?avs" by simp
    then have "{(s, m1). s = r \<and> binds g (ev_values ?e) ?avs m1} = {}" by (auto simp: unfit_def binds_def)
    then have "reach g d query st = {}" unfolding reach_def A by simp
    with False b okb assms(1) show ?thesis by (simp add: take_row_def narrows_def sane_def)
  qed
qed

lemma take_value_narrows:
  assumes "sane g query st" "atoms_ok g query" "i \<in> waiting (nw_remaining st)" "a_call (query ! i) = CPrim name out"
    and key: "map (arg_in g (ev_values (nw_env st))) (butlast (a_args (query ! i))) = map Some vals"
    and v: "primitive (g_host g) name vals out (key_nodes g) = Inr v"
  shows "narrows g d query st (case v of None \<Rightarrow> (False, st) | Some v \<Rightarrow> take_value g i (query ! i) v st)"
proof -
  let ?a = "query ! i" and ?e = "nw_env st"
  have i: "i < length query" using assms(1,3) by (simp add: sane_def)
  have args: "a_args ?a \<noteq> []" using atoms_okD [OF assms(2) i] by simp
  note A = answers_prim [where d = d and epoch = "nw_epoch st", OF assms(3,4) args key]
  show ?thesis
  proof (cases v)
    case None
    with A v assms(1) show ?thesis by (simp add: narrows_def sane_def reach_def)
  next
    case (Some x)
    obtain e1 okb where b: "bind g (last (a_args ?a)) x ?e = (e1, okb)" by (cases "bind g (last (a_args ?a)) x ?e")
    note bm = bind_meaning [OF b] and ex = extends_bind [OF b]
    show ?thesis
    proof (cases okb)
      case True
      with bm have bi: "binds g (ev_values ?e) [(last (a_args ?a), x)] (ev_values e1)" by simp
      have "{m1. \<exists>v. primitive (g_host g) name vals out (key_nodes g) = Inr (Some v) \<and>
          binds g (ev_values ?e) [(last (a_args ?a), v)] m1} = {ev_values e1}"
        using v Some bi by (auto dest: binds_unique [OF bi])
      then have "reach g d query st = answers g d query (waiting (nw_remaining st) - {i}) (ev_values e1) (nw_epoch st)"
        unfolding reach_def A by simp
      moreover have "sane g query (st\<lparr>nw_env := e1, nw_remaining := (nw_remaining st)[i := False]\<rparr>)"
        using assms(1) by (simp add: sane_def clean_extends [OF ex] clean_rest)
      ultimately show ?thesis
        using Some True b by (simp add: take_value_def narrows_def reach_take sane_def)
    next
      case False
      with bm have "unfit g (ev_values ?e) [(last (a_args ?a), x)]" by simp
      then have "{m1. \<exists>v. primitive (g_host g) name vals out (key_nodes g) = Inr (Some v) \<and>
          binds g (ev_values ?e) [(last (a_args ?a), v)] m1} = {}"
        using v Some by (auto simp: unfit_def binds_def)
      then have "reach g d query st = {}" unfolding reach_def A by (simp only: UN_empty)
      with Some False b assms(1) show ?thesis by (simp add: take_value_def narrows_def sane_def)
    qed
  qed
qed

lemma full_key_bound: "full_key g e a = Inr (Some key) \<Longrightarrow> map (arg_in g (ev_values e)) (butlast (a_args a)) = map Some key"
  by (auto simp: full_key_def Let_def image_iff split: if_splits) (metis option.collapse)

lemma read_point_only:
  assumes "keyed g" "indexes_ok g q" "full_key g e a = Inr key" "read_point g backward t a key e q = Inr (q', r)"
  shows "indexes_ok g q'"
    and "r = Absent \<Longrightarrow> only_row g t a (ev_values e) None"
    and "r = Present x \<Longrightarrow> only_row g t a (ev_values e) (Some x)"
    and "r = Present x \<Longrightarrow> \<not> rw_hidden x \<Longrightarrow> visible g t x"
proof -
  have "indexes_ok g q' \<and> (r = Absent \<longrightarrow> only_row g t a (ev_values e) None) \<and>
    (\<forall>x. r = Present x \<longrightarrow> only_row g t a (ev_values e) (Some x) \<and> (\<not> rw_hidden x \<longrightarrow> visible g t x))"
  proof (cases key)
    case (Some k)
    with assms(4) obtain o' where l: "lookup g t k = Inr o'" "q' = q" "r = (case o' of None \<Rightarrow> Absent | Some x \<Rightarrow> Present x)"
      by (auto simp: read_point_def rbind_eq_Inr)
    have "o' = Some s" if "visible g t s" "ev_values e \<subseteq>\<^sub>m m" "map (arg_in g m) (a_args a) = map Some (rw_values s)" for s m
      using keyed_row(3) [OF assms(1) that(1)] full_key_Some [OF _ that(2,3)] assms(3) Some l(1) by simp
    then have "only_row g t a (ev_values e) o'" by (auto simp: only_row_def)
    with l assms(2) keyed_lookup(2) [OF assms(1)] show ?thesis by (auto split: option.splits)
  next
    case None
    show ?thesis
    proof (cases "r = Unread")
      case True
      with assms(2,4) None column_domain_result(1) [OF assms(2)] show ?thesis
        by (auto simp: read_point_def rbind_eq_Inr split: if_splits option.splits val.splits domain.splits)
    next
      case False
      with assms(4) None obtain dm where dm: "column_domain g t (map (arg_in g (ev_values e)) (a_args a)) q = Inr (q', dm)"
        and r: "dm = DomEmpty \<and> r = Absent \<or> (\<exists>w o'. dm = DomOne w \<and> row_of g w = Inr o' \<and>
          r = (case o' of None \<Rightarrow> Absent | Some x \<Rightarrow> Present x))"
        by (auto simp: read_point_def rbind_eq_Inr split: if_splits option.splits domain.splits)
      note dr = column_domain_result [OF assms(2) dm]
      have only: "dm = DomMany \<or> dm = DomOne (rw_witness s)"
        if "visible g t s" "ev_values e \<subseteq>\<^sub>m m" "map (arg_in g m) (a_args a) = map Some (rw_values s)" for s m
      proof (rule dr(2) [OF that(1)])
        show "agrees (map (arg_in g (ev_values e)) (a_args a)) (rw_values s)"
          using that(2,3) by (auto simp: agrees_def list_eq_iff_nth_eq dest: arg_in_mono)
      qed
      from r show ?thesis
      proof
        assume e: "dm = DomEmpty \<and> r = Absent"
        with only have "only_row g t a (ev_values e) None" by (auto simp: only_row_def)
        with e dr(1) show ?thesis by simp
      next
        assume "\<exists>w o'. dm = DomOne w \<and> row_of g w = Inr o' \<and> r = (case o' of None \<Rightarrow> Absent | Some x \<Rightarrow> Present x)"
        then obtain w o' where w: "dm = DomOne w" "row_of g w = Inr o'" "r = (case o' of None \<Rightarrow> Absent | Some x \<Rightarrow> Present x)"
          by blast
        have "o' = Some s" if "visible g t s" "ev_values e \<subseteq>\<^sub>m m" "map (arg_in g m) (a_args a) = map Some (rw_values s)" for s m
          using only [OF that] w(1,2) that(1) by (auto simp: visible_def)
        then have "only_row g t a (ev_values e) o'" by (auto simp: only_row_def)
        moreover have "visible g t x" if "o' = Some x" "\<not> rw_hidden x" for x
          using visibleI [OF dr(3) [OF w(1)]] w(2) that by simp
        ultimately show ?thesis using w(3) dr(1) by (auto split: option.splits)
      qed
    qed
  qed
  then show "indexes_ok g q'" "r = Absent \<Longrightarrow> only_row g t a (ev_values e) None"
    "r = Present x \<Longrightarrow> only_row g t a (ev_values e) (Some x)" "r = Present x \<Longrightarrow> \<not> rw_hidden x \<Longrightarrow> visible g t x"
    by blast+
qed

lemma only_agrees:
  "only_row g t (query ! i) m0 None \<Longrightarrow> i \<in> todo \<Longrightarrow> a_call (query ! i) = CTable t \<Longrightarrow> answers g d query todo m0 epoch = {}"
  using only_none [of g t query i m0 None d todo epoch] by simp

lemma point_narrows:
  assumes "keyed g" "atoms_ok g query" "sane g query st" "point g query d backward i st = Inr res"
  shows "narrows g d query st res"
proof (cases "nw_remaining st ! i")
  case False
  with assms(4) have "res = (True, st)" by (auto simp: point_def rbind_eq_Inr idx_eq_Inr)
  with assms(3) show ?thesis by (simp add: narrows_refl)
next
  case True
  with assms(3,4) obtain key where i: "i < length query" "i \<in> waiting (nw_remaining st)"
    and key: "full_key g (nw_env st) (query ! i) = Inr key"
    and run: "(case a_call (query ! i) of
         CPrim name out \<Rightarrow>
           (case key of
              None \<Rightarrow> Inr (True, st)
            | Some vals \<Rightarrow>
                rbind (primitive (g_host g) name vals out (key_nodes g)) (\<lambda>v.
                Inr (case v of None \<Rightarrow> (False, st) | Some v \<Rightarrow> take_value g i (query ! i) v st)))
       | CTable t \<Rightarrow>
           rbind (read_point g backward t (query ! i) key (nw_env st) (nw_indexes st)) (\<lambda>(q, r).
           let st1 = st\<lparr>nw_indexes := q\<rparr> in
           Inr (case r of Unread \<Rightarrow> (True, st1) | Absent \<Rightarrow> (False, st1) | Present r \<Rightarrow> take_row g d i (query ! i) r st1))) = Inr res"
    by (auto simp: point_def rbind_eq_Inr idx_eq_Inr sane_def)
  show ?thesis
  proof (cases "a_call (query ! i)")
    case (CPrim name out)
    show ?thesis
    proof (cases key)
      case None
      with CPrim run assms(3) show ?thesis by (auto intro: narrows_refl)
    next
      case (Some vals)
      with CPrim run obtain v where v: "primitive (g_host g) name vals out (key_nodes g) = Inr v"
        "res = (case v of None \<Rightarrow> (False, st) | Some v \<Rightarrow> take_value g i (query ! i) v st)"
        by (auto simp: rbind_eq_Inr)
      from take_value_narrows [OF assms(3,2) i(2) CPrim full_key_bound v(1)] key Some v(2) show ?thesis by simp
    qed
  next
    case (CTable t)
    with run obtain q r where rp: "read_point g backward t (query ! i) key (nw_env st) (nw_indexes st) = Inr (q, r)"
      and res: "res = (let st1 = st\<lparr>nw_indexes := q\<rparr> in
        case r of Unread \<Rightarrow> (True, st1) | Absent \<Rightarrow> (False, st1) | Present r \<Rightarrow> take_row g d i (query ! i) r st1)"
      by (auto simp: rbind_eq_Inr Let_def)
    have qok: "indexes_ok g (nw_indexes st)" using assms(3) by (simp add: sane_def)
    note only = read_point_only [OF assms(1) qok key rp]
    let ?st = "st\<lparr>nw_indexes := q\<rparr>"
    have sane: "sane g query ?st" and reach: "reach g d query ?st = reach g d query st"
      using assms(3) only(1) by (simp_all add: sane_def reach_def)
    have same: "narrows g d query st res = narrows g d query ?st res" for res
      by (simp add: narrows_def reach)
    show ?thesis
    proof (cases r)
      case Unread
      with res sane show ?thesis by (simp add: same narrows_refl Let_def)
    next
      case Absent
      from only_agrees [OF only(2) [OF Absent] i(2) CTable] res Absent only(1) show ?thesis
        by (simp add: narrows_def reach_def Let_def)
    next
      case (Present x)
      have "narrows g d query ?st (take_row g d i (query ! i) x ?st)"
        using only(3,4) [OF Present] i(2) by (intro take_row_narrows [OF sane assms(1,2) _ CTable]) simp_all
      with res Present show ?thesis by (simp add: same Let_def)
    qed
  qed
qed

lemma points_narrow:
  assumes "keyed g" "atoms_ok g query"
  shows "sane g query st \<Longrightarrow> points g query d backward order st = Inr res \<Longrightarrow> narrows g d query st res"
proof (induction order arbitrary: st)
  case Nil
  then show ?case by (auto intro: narrows_refl)
next
  case (Cons i order)
  from Cons.prems(2) obtain live st1 where p: "point g query d backward i st = Inr (live, st1)"
    and run: "(if live then points g query d backward order st1 else Inr (False, st1)) = Inr res"
    by (auto simp: rbind_eq_Inr)
  note n = point_narrows [OF assms Cons.prems(1) p]
  show ?case
  proof (cases live)
    case True
    with n have "sane g query st1" by (simp add: narrows_def)
    with Cons.IH run True n show ?thesis by (auto intro: narrows_trans)
  qed (use n run in auto)
qed

end
