(* ===== verification/Continue.thy ===== *)
theory Continue
  imports Narrow
begin

text \<open>
  Producer-local continuations: \<open>continuation_context\<close> and \<open>context_arguments\<close> of \<open>reference_storage.rs\<close> and
  \<open>continue_local\<close> of \<open>runtime.rs\<close>. A seed that a recipe produced is narrowed with the slots of that
  recipe: a route says which atom of the consumer each fact of the producer should satisfy. The code never
  trusts a route; every read is checked against the snapshot, so that continuing is one more narrowing.
\<close>

section \<open>Contexts\<close>

record origin_context =
  cx_completed :: bool
  cx_cell :: nat
  cx_template :: nat
  cx_depth :: nat
  cx_op :: nat

text \<open>The Cell that a witness started from: its own, the one before an absorption, or the owner of a function row.\<close>

definition entry_fact :: "graph \<Rightarrow> dependency \<Rightarrow> fact_ref option" where
  "entry_fact g w =
     (case w of
        DFunction i \<Rightarrow> origin g w
      | DFact f \<Rightarrow>
          (case g_cells g (fst f) of
             None \<Rightarrow> None
           | Some c \<Rightarrow>
               (case c_facts c (snd f) of
                  None \<Rightarrow> None
                | Some s \<Rightarrow> Some (case fs_entry s of None \<Rightarrow> f | Some e \<Rightarrow> e))))"

definition continuation_context :: "graph \<Rightarrow> dependency \<Rightarrow> origin_context option" where
  "continuation_context g w =
     (case entry_fact g w of
        None \<Rightarrow> None
      | Some f \<Rightarrow>
          (case g_cells g (fst f) of
             Some c \<Rightarrow> Some \<lparr>cx_completed = c_completed c, cx_cell = fst f, cx_template = c_template c,
               cx_depth = c_recipe_depth c, cx_op = snd f\<rparr>
           | None \<Rightarrow>
               map_option (\<lambda>c. \<lparr>cx_completed = rt_completed c, cx_cell = fst f, cx_template = rt_template c,
                 cx_depth = rt_depth c, cx_op = snd f\<rparr>) (g_retired g (fst f))))"

text \<open>A slot of a retired Cell is read through a relocated fact that exports it.\<close>

definition exported_column :: "graph \<Rightarrow> nat \<Rightarrow> nat \<times> nat \<Rightarrow> (fact_ref \<times> nat) option" where
  "exported_column g cell source =
     (let f = (cell, fst source); moved = resolve_reference g f in
      if g_fact_forwards g f \<noteq> None \<and> g_cells g (fst moved) \<noteq> None then Some (moved, snd source) else None)"

definition exports_of :: "graph \<Rightarrow> nat \<Rightarrow> nat \<Rightarrow> (nat \<times> nat) list" where
  "exports_of g template s =
     (case v_exports (p_views (g_program g)) template of
        None \<Rightarrow> []
      | Some m \<Rightarrow> (case m s of None \<Rightarrow> [] | Some sources \<Rightarrow> sources))"

fun context_argument :: "nat \<Rightarrow> graph \<Rightarrow> origin_context \<Rightarrow> arg \<Rightarrow> val res" where
  "context_argument n g cx (Literal v) = Inr (canon_in g v)"
| "context_argument n g cx (Slot s) =
     (if g_cells g (cx_cell cx) \<noteq> None then slot g (cx_cell cx) s
      else
        case List.map_filter (exported_column g (cx_cell cx)) (exports_of g (cx_template cx) s) of
          (f, col) # _ \<Rightarrow> fact_column g f col
        | [] \<Rightarrow>
            rbind (idx (g_templates g) (cx_template cx)) (\<lambda>t.
            case Option.bind (tm_defs t s) (get_at (tm_ops t)) of
              Some (OpCopy _ a) \<Rightarrow> (case n of 0 \<Rightarrow> Inl Diverge | Suc k \<Rightarrow> context_argument k g cx a)
            | _ \<Rightarrow> Inl (Err ''unavailable retired context slot'')))"

definition context_arguments :: "graph \<Rightarrow> origin_context \<Rightarrow> arg list \<Rightarrow> val list res" where
  "context_arguments g cx aa = rmapM (context_argument (g_fuel g) g cx) aa"

definition context_fact :: "graph \<Rightarrow> origin_context \<Rightarrow> nat \<Rightarrow> fact_ref" where
  "context_fact g cx i = resolve_reference g (cx_cell cx, i)"

section \<open>Routes\<close>

record local_read =
  lr_atom :: nat
  lr_table :: nat
  lr_columns :: "arg list"
  lr_effect :: "nat option"

record continuation =
  ct_producer :: nat
  ct_consumer :: nat
  ct_anchor :: nat
  ct_reads :: "local_read list"

section \<open>One read\<close>

text \<open>The row of the producer's own fact, when it can be the answer of the atom.\<close>

definition local_fact :: "graph \<Rightarrow> origin_context \<Rightarrow> local_read \<Rightarrow> val list option \<Rightarrow> dependency option \<Rightarrow> row option res" where
  "local_fact g cx rd key expected =
     (case lr_effect rd of
        None \<Rightarrow> Inr None
      | Some i \<Rightarrow>
          let f = context_fact g cx i in
          if expected \<noteq> None \<and> expected \<noteq> Some (DFact f) then Inr None
          else rbind (fact g f) (\<lambda>r. case r of
            None \<Rightarrow> Inr None
          | Some r \<Rightarrow>
              if rw_hidden r \<or> rw_table r \<noteq> lr_table rd then Inr None
              else (case key of
                None \<Rightarrow> Inr (Some r)
              | Some k \<Rightarrow> rbind (row_prefix r (length k)) (\<lambda>p. Inr (if p = k then Some r else None)))))"

text \<open>The key of the atom, from the binding or from the slots of the producer; \<open>None\<close> when a slot is unavailable.\<close>

definition route_key :: "graph \<Rightarrow> origin_context \<Rightarrow> local_read \<Rightarrow> val list option \<Rightarrow> val list option res" where
  "route_key g cx rd key =
     (case key of
        Some k \<Rightarrow> Inr (Some k)
      | None \<Rightarrow>
          if lr_columns rd = [] then Inl Panic
          else (case context_arguments g cx (butlast (lr_columns rd)) of
            Inr k \<Rightarrow> Inr (Some k)
          | Inl (Err _) \<Rightarrow> Inr None
          | Inl e \<Rightarrow> Inl e))"

definition keyed_read :: "graph \<Rightarrow> origin_context \<Rightarrow> local_read \<Rightarrow> val list option \<Rightarrow> dependency option \<Rightarrow> reading res" where
  "keyed_read g cx rd key expected =
     rbind (route_key g cx rd key) (\<lambda>k. case k of
       None \<Rightarrow> Inr Unread
     | Some k \<Rightarrow>
         rbind (lookup g (lr_table rd) k) (\<lambda>r. Inr (case r of
           None \<Rightarrow> if expected = None then Absent else Unread
         | Some r \<Rightarrow> if expected \<noteq> None \<and> expected \<noteq> Some (rw_witness r) then Unread else Present r)))"

definition expected_witness :: "graph \<Rightarrow> nat \<Rightarrow> val list option \<Rightarrow> val option list \<Rightarrow> query_indexes
    \<Rightarrow> (query_indexes \<times> domain option) res" where
  "expected_witness g t key bound q =
     (case key of
        Some _ \<Rightarrow> Inr (q, None)
      | None \<Rightarrow> rbind (column_domain g t bound q) (\<lambda>(q1, dm). Inr (q1, Some dm)))"

definition project_read :: "graph \<Rightarrow> origin_context \<Rightarrow> local_read \<Rightarrow> atom \<Rightarrow> env \<Rightarrow> query_indexes \<Rightarrow> (query_indexes \<times> reading) res" where
  "project_read g cx rd a e q =
     rbind (full_key g e a) (\<lambda>key.
     rbind (expected_witness g (lr_table rd) key (map (env_operand g e) (a_args a)) q) (\<lambda>(q1, dm).
     case dm of
       Some DomEmpty \<Rightarrow> Inr (q1, Absent)
     | Some DomMany \<Rightarrow> Inr (q1, Unread)
     | _ \<Rightarrow>
         let expected = (case dm of Some (DomOne w) \<Rightarrow> Some w | _ \<Rightarrow> None) in
         rbind (local_fact g cx rd key expected) (\<lambda>r. case r of
           Some r \<Rightarrow> Inr (q1, Present r)
         | None \<Rightarrow> rbind (keyed_read g cx rd key expected) (\<lambda>r. Inr (q1, r)))))"

text \<open>A read that does not fit ends the seed; the bindings it made are undone first.\<close>

definition route_step :: "graph \<Rightarrow> atom list \<Rightarrow> delta \<Rightarrow> origin_context \<Rightarrow> local_read \<Rightarrow> narrowing \<Rightarrow> (bool \<times> narrowing) res" where
  "route_step g query d cx rd st =
     rbind (idx (nw_remaining st) (lr_atom rd)) (\<lambda>p.
     if \<not> p then Inr (True, st)
     else
       rbind (idx query (lr_atom rd)) (\<lambda>a.
       rbind (project_read g cx rd a (nw_env st) (nw_indexes st)) (\<lambda>(q, r).
       let st1 = st\<lparr>nw_indexes := q\<rparr> in
       Inr (case r of
           Unread \<Rightarrow> (True, st1)
         | Absent \<Rightarrow> (False, st1)
         | Present r \<Rightarrow>
             (let (live, st2) = take_row g d (lr_atom rd) a r st1 in
              if live then (True, st2)
              else (False, st2\<lparr>nw_env := rollback (length (ev_trail (nw_env st))) (nw_env st2)\<rparr>))))))"

fun route_steps :: "graph \<Rightarrow> atom list \<Rightarrow> delta \<Rightarrow> origin_context \<Rightarrow> local_read list \<Rightarrow> narrowing \<Rightarrow> (bool \<times> narrowing) res" where
  "route_steps g query d cx [] st = Inr (True, st)"
| "route_steps g query d cx (rd # rds) st =
     rbind (route_step g query d cx rd st) (\<lambda>(live, st1).
     if live then route_steps g query d cx rds st1 else Inr (False, st1))"

section \<open>Continuing a seed\<close>

type_synonym routes = "nat \<times> nat \<times> nat \<times> nat \<Rightarrow> continuation option"

text \<open>The seed, its pivot, and the atoms of the rule; the result names the producer and the depth of the recipe.\<close>

definition continue_local :: "graph \<Rightarrow> routes \<Rightarrow> bool \<Rightarrow> atom list \<Rightarrow> nat \<Rightarrow> nat \<Rightarrow> row \<Rightarrow> narrowing
    \<Rightarrow> (bool \<times> narrowing \<times> (nat \<times> nat) option) res" where
  "continue_local g routes enabled query rid pivot seed st =
     (if \<not> enabled then Inr (True, st, None)
      else case continuation_context g (rw_witness seed) of
        None \<Rightarrow> Inr (True, st, None)
      | Some cx \<Rightarrow>
     (case routes (cx_template cx, cx_op cx, rid, pivot) of
        None \<Rightarrow> Inr (True, st, None)
      | Some route \<Rightarrow>
          if cx_depth cx + 1 \<ge> 2 ^ 32 then Inl (Err ''recipe depth exhausted'')
          else
            rbind (route_steps g query (Some (pivot, rw_epoch seed, rw_witness seed)) cx (ct_reads route) st) (\<lambda>(live, st1).
            Inr (live, st1, if live then Some (ct_producer route, cx_depth cx + 1) else None))))"

section \<open>A route is never trusted\<close>

definition route_ok :: "atom list \<Rightarrow> continuation \<Rightarrow> bool" where
  "route_ok query route \<longleftrightarrow>
     (\<forall>rd \<in> set (ct_reads route). lr_atom rd < length query \<and> a_call (query ! lr_atom rd) = CTable (lr_table rd))"

text \<open>Whatever a read returns is the only row that can answer the atom.\<close>

definition pinned :: "graph \<Rightarrow> nat \<Rightarrow> atom \<Rightarrow> (nat \<rightharpoonup> val) \<Rightarrow> reading \<Rightarrow> bool" where
  "pinned g t a m0 r \<longleftrightarrow>
     (case r of
        Unread \<Rightarrow> True
      | Absent \<Rightarrow> only_row g t a m0 None
      | Present x \<Rightarrow> only_row g t a m0 (Some x) \<and> (\<not> rw_hidden x \<longrightarrow> visible g t x))"

lemma pinned_key:
  assumes "keyed g" "full_key g e a = Inr (Some k)" "lookup g t k = Inr r"
  shows "only_row g t a (ev_values e) r"
  unfolding only_row_def
proof (intro allI impI)
  fix s m assume s: "visible g t s" "ev_values e \<subseteq>\<^sub>m m" "map (arg_in g m) (a_args a) = map Some (rw_values s)"
  from full_key_Some [OF assms(2) s(2,3)] keyed_row(3) [OF assms(1) s(1)] assms(3) show "r = Some s" by simp
qed

lemma pinned_witness:
  assumes "\<And>s. visible g t s \<Longrightarrow> agrees (map (arg_in g (ev_values e)) (a_args a)) (rw_values s) \<Longrightarrow> rw_witness s = w"
    and "row_of g w = Inr r"
  shows "only_row g t a (ev_values e) r"
  unfolding only_row_def
proof (intro allI impI)
  fix s m assume s: "visible g t s" "ev_values e \<subseteq>\<^sub>m m" "map (arg_in g m) (a_args a) = map Some (rw_values s)"
  then have "agrees (map (arg_in g (ev_values e)) (a_args a)) (rw_values s)"
    by (auto simp: agrees_def list_eq_iff_nth_eq dest: arg_in_mono)
  with assms s(1) have "row_of g w = Inr (Some s)" by (auto simp: visible_def)
  with assms(2) show "r = Some s" by simp
qed

lemma keyed_read_key:
  "keyed_read g cx rd (Some k) None =
     rbind (lookup g (lr_table rd) k) (\<lambda>r. Inr (case r of None \<Rightarrow> Absent | Some r \<Rightarrow> Present r))"
  by (simp add: keyed_read_def route_key_def cong: option.case_cong)

lemma project_read_pinned:
  assumes "keyed g" "indexes_ok g q" "project_read g cx rd a e q = Inr (q', r)" "length (a_args a) = arity g (lr_table rd)"
  shows "indexes_ok g q' \<and> pinned g (lr_table rd) a (ev_values e) r"
proof -
  let ?t = "lr_table rd" and ?bound = "map (arg_in g (ev_values e)) (a_args a)"
  from assms(3) obtain key q1 dm where key: "full_key g e a = Inr key"
    and dm: "expected_witness g ?t key ?bound q = Inr (q1, dm)"
    and run: "(case dm of
       Some DomEmpty \<Rightarrow> Inr (q1, Absent)
     | Some DomMany \<Rightarrow> Inr (q1, Unread)
     | _ \<Rightarrow>
         let expected = (case dm of Some (DomOne w) \<Rightarrow> Some w | _ \<Rightarrow> None) in
         rbind (local_fact g cx rd key expected) (\<lambda>r. case r of
           Some r \<Rightarrow> Inr (q1, Present r)
         | None \<Rightarrow> rbind (keyed_read g cx rd key expected) (\<lambda>r. Inr (q1, r)))) = Inr (q', r)"
    by (auto simp: project_read_def rbind_eq_Inr)
  show ?thesis
  proof (cases key)
    case (Some k)
    with dm have d: "dm = None" "q1 = q" by (simp_all add: expected_witness_def)
    from run d obtain lf where lf: "local_fact g cx rd key None = Inr lf"
      and rest: "(case lf of Some r \<Rightarrow> Inr (q, Present r)
         | None \<Rightarrow> rbind (keyed_read g cx rd key None) (\<lambda>r. Inr (q, r))) = Inr (q', r)"
      by (auto simp: rbind_eq_Inr Let_def)
    show ?thesis
    proof (cases lf)
      case None
      with rest Some obtain lr where "lookup g ?t k = Inr lr" "q' = q" "r = (case lr of None \<Rightarrow> Absent | Some r \<Rightarrow> Present r)"
        by (auto simp: keyed_read_key rbind_eq_Inr)
      with pinned_key [OF assms(1), of e a k ?t lr] key Some assms(2) keyed_lookup(2) [OF assms(1), of ?t k]
      show ?thesis by (auto simp: pinned_def split: option.splits)
    next
      case (Some x)
      with lf \<open>key = Some k\<close> obtain f where f: "fact g f = Inr (Some x)" "\<not> rw_hidden x" "rw_table x = ?t"
        "row_prefix x (length k) = Inr k"
        by (auto simp: local_fact_def Let_def rbind_eq_Inr split: option.splits if_splits)
      from keyed_fact [OF assms(1) f(1,2)] f(3) have v: "visible g ?t x" by simp
      have "length (butlast (a_args a)) = length k"
        using map_eq_imp_length_eq [OF full_key_bound [of g e a k]] key \<open>key = Some k\<close> by simp
      moreover have "arity g ?t \<noteq> 0" using keyed_row(1,2) [OF assms(1) v] by (metis length_0_conv)
      ultimately have l: "Suc (length k) = length (rw_values x)"
        using keyed_row(2) [OF assms(1) v] assms(4) by simp
      then have "length (rw_values x) - 1 = length k" by simp
      with f(4) have "butlast (rw_values x) = k" by (auto simp: row_prefix_def butlast_conv_take split: if_splits)
      with keyed_row(3) [OF assms(1) v] have "lookup g ?t k = Inr (Some x)" by simp
      from pinned_key [OF assms(1) _ this] key \<open>key = Some k\<close> v rest Some assms(2) show ?thesis
        by (auto simp: pinned_def)
    qed
  next
    case None
    with dm obtain dm1 where d: "column_domain g ?t ?bound q = Inr (q1, dm1)" "dm = Some dm1"
      by (auto simp: expected_witness_def rbind_eq_Inr)
    note dr = column_domain_result [OF assms(2) d(1)]
    show ?thesis
    proof (cases dm1)
      case DomEmpty
      have "only_row g ?t a (ev_values e) None"
        unfolding only_row_def
      proof (intro allI impI)
        fix s m assume s: "visible g ?t s" "ev_values e \<subseteq>\<^sub>m m" "map (arg_in g m) (a_args a) = map Some (rw_values s)"
        then have "agrees ?bound (rw_values s)" by (auto simp: agrees_def list_eq_iff_nth_eq dest: arg_in_mono)
        from dr(2) [OF s(1) this] DomEmpty show "None = Some s" by simp
      qed
      with run d DomEmpty dr(1) show ?thesis by (auto simp: pinned_def)
    next
      case DomMany
      with run d dr(1) show ?thesis by (auto simp: pinned_def)
    next
      case (DomOne w)
      have one: "rw_witness s = w" if "visible g ?t s" "agrees ?bound (rw_values s)" for s
        using dr(2) [OF that] DomOne by simp
      have vis: "visible g ?t x" if "row_of g w = Inr (Some x)" "\<not> rw_hidden x" for x
        using visibleI [OF dr(3) [OF DomOne] that] by simp
      have pin: "pinned g ?t a (ev_values e) (Present x)" if "row_of g w = Inr (Some x)" for x
        using pinned_witness [where w = w, OF one that] vis [OF that] by (simp add: pinned_def)
      from run d DomOne obtain lf where lf: "local_fact g cx rd None (Some w) = Inr lf"
        and rest: "(case lf of Some r \<Rightarrow> Inr (q1, Present r)
           | None \<Rightarrow> rbind (keyed_read g cx rd None (Some w)) (\<lambda>r. Inr (q1, r))) = Inr (q', r)"
        using None by (auto simp: rbind_eq_Inr Let_def)
      show ?thesis
      proof (cases lf)
        case None
        with rest obtain kr where kr: "keyed_read g cx rd None (Some w) = Inr kr" "q' = q1" "r = kr"
          by (auto simp: rbind_eq_Inr)
        from kr(1) have "kr = Unread \<or> (\<exists>k x. lookup g ?t k = Inr (Some x) \<and> rw_witness x = w \<and> kr = Present x)"
          by (auto simp: keyed_read_def rbind_eq_Inr split: option.splits if_splits)
        with kr dr(1) pin keyed_lookup(1) [OF assms(1)] show ?thesis by (auto simp: pinned_def)
      next
        case (Some x)
        with lf obtain f where "fact g f = Inr (Some x)" "w = DFact f"
          by (auto simp: local_fact_def Let_def rbind_eq_Inr split: option.splits if_splits)
        with pin rest Some dr(1) show ?thesis by (auto simp: row_of_def)
      qed
    qed
  qed
qed

lemma route_step_narrows:
  assumes "keyed g" "atoms_ok g query" "sane g query st" "route_step g query d cx rd st = Inr res"
    and "lr_atom rd < length query" "a_call (query ! lr_atom rd) = CTable (lr_table rd)"
  shows "narrows g d query st res"
proof (cases "nw_remaining st ! lr_atom rd")
  case False
  with assms(4) have "res = (True, st)" by (auto simp: route_step_def rbind_eq_Inr idx_eq_Inr)
  with assms(3) show ?thesis by (simp add: narrows_refl)
next
  case True
  let ?i = "lr_atom rd" and ?t = "lr_table rd"
  have i: "?i \<in> waiting (nw_remaining st)" using assms(3,5) True by (simp add: sane_def)
  from True assms(4) obtain q r where pr: "project_read g cx rd (query ! ?i) (nw_env st) (nw_indexes st) = Inr (q, r)"
    and res: "res = (let st1 = st\<lparr>nw_indexes := q\<rparr> in case r of
           Unread \<Rightarrow> (True, st1)
         | Absent \<Rightarrow> (False, st1)
         | Present r \<Rightarrow>
             (let (live, st2) = take_row g d ?i (query ! ?i) r st1 in
              if live then (True, st2)
              else (False, st2\<lparr>nw_env := rollback (length (ev_trail (nw_env st))) (nw_env st2)\<rparr>)))"
    by (auto simp: route_step_def rbind_eq_Inr idx_eq_Inr Let_def)
  have qok: "indexes_ok g (nw_indexes st)" using assms(3) by (simp add: sane_def)
  have "length (a_args (query ! ?i)) = arity g ?t" using atoms_okD [OF assms(2,5)] assms(6) by simp
  note pin = project_read_pinned [OF assms(1) qok pr this]
  let ?st = "st\<lparr>nw_indexes := q\<rparr>"
  have sane: "sane g query ?st" and reach: "reach g d query ?st = reach g d query st"
    using assms(3) pin by (simp_all add: sane_def reach_def)
  have same: "narrows g d query st res = narrows g d query ?st res" for res
    by (simp add: narrows_def reach)
  show ?thesis
  proof (cases r)
    case Unread
    with res sane show ?thesis by (simp add: same narrows_refl Let_def)
  next
    case Absent
    with pin have "only_row g ?t (query ! ?i) (ev_values (nw_env st)) None" by (simp add: pinned_def)
    from only_agrees [OF this i assms(6)] res Absent pin show ?thesis by (simp add: narrows_def reach_def Let_def)
  next
    case (Present x)
    have n: "narrows g d query ?st (take_row g d ?i (query ! ?i) x ?st)"
      using pin Present i by (intro take_row_narrows [OF sane assms(1,2) _ assms(6)]) (simp_all add: pinned_def)
    obtain live st2 where t: "take_row g d ?i (query ! ?i) x ?st = (live, st2)"
      by (cases "take_row g d ?i (query ! ?i) x ?st")
    have "res = (if live then (True, st2)
        else (False, st2\<lparr>nw_env := rollback (length (ev_trail (nw_env st))) (nw_env st2)\<rparr>))"
      using res Present t by (simp add: Let_def)
    with n t show ?thesis unfolding same by (cases live) (simp_all add: narrows_def)
  qed
qed

lemma route_steps_narrow:
  assumes "keyed g" "atoms_ok g query"
  shows "sane g query st \<Longrightarrow> route_steps g query d cx rds st = Inr res \<Longrightarrow>
    \<forall>rd \<in> set rds. lr_atom rd < length query \<and> a_call (query ! lr_atom rd) = CTable (lr_table rd) \<Longrightarrow>
    narrows g d query st res"
proof (induction rds arbitrary: st)
  case Nil
  then show ?case by (auto intro: narrows_refl)
next
  case (Cons rd rds)
  from Cons.prems(2) obtain live st1 where p: "route_step g query d cx rd st = Inr (live, st1)"
    and run: "(if live then route_steps g query d cx rds st1 else Inr (False, st1)) = Inr res"
    by (auto simp: rbind_eq_Inr)
  note n = route_step_narrows [OF assms Cons.prems(1) p]
  show ?case
  proof (cases live)
    case True
    with n Cons.prems(3) have "sane g query st1" by (simp add: narrows_def)
    with Cons.IH run True n Cons.prems(3) show ?thesis by (auto intro: narrows_trans)
  qed (use n run Cons.prems(3) in auto)
qed

text \<open>The seed's own delta.\<close>

definition seed_delta :: "nat \<Rightarrow> row \<Rightarrow> delta" where
  "seed_delta pivot seed = Some (pivot, rw_epoch seed, rw_witness seed)"

lemma continue_narrows:
  assumes "keyed g" "atoms_ok g query" "sane g query st" "\<forall>k route. routes k = Some route \<longrightarrow> fst (snd (snd k)) = rid \<longrightarrow> route_ok query route"
    and "continue_local g routes enabled query rid pivot seed st = Inr (live, st', src)"
  shows "narrows g (seed_delta pivot seed) query st (live, st')"
proof (cases "live \<and> st' = st")
  case True
  with assms(3) show ?thesis by (simp add: narrows_refl)
next
  case False
  with assms(5) obtain cx route where r: "routes (cx_template cx, cx_op cx, rid, pivot) = Some route"
    and run: "route_steps g query (seed_delta pivot seed) cx (ct_reads route) st = Inr (live, st')"
    by (auto simp: continue_local_def seed_delta_def rbind_eq_Inr split: if_splits option.splits)
  from r assms(4) have "route_ok query route" by fastforce
  with route_steps_narrow [OF assms(1,2,3) run] show ?thesis by (simp add: route_ok_def)
qed

text \<open>
  C18. Narrowing is exact. On a graph whose lookup finds its visible rows, running an entry program along
  any order, or continuing a seed along any route whose reads name tables of the query, keeps exactly the
  answers of the seed when it reports that the seed is live, and reports it dead only when the seed has no
  answer: wrong orders, stale routes, retired contexts, hidden rows and colliding fingerprints change how
  many reads are made, never the bindings.
\<close>

theorem narrowing_exact:
  assumes "keyed g" "atoms_ok g query" "sane g query st"
    and "\<forall>k route. routes k = Some route \<longrightarrow> fst (snd (snd k)) = rid \<longrightarrow> route_ok query route"
    and "points g query d backward order st = Inr (live, st') \<or>
      d = seed_delta pivot seed \<and> continue_local g routes enabled query rid pivot seed st = Inr (live, st', src)"
  shows "(live \<longrightarrow> reach g d query st' = reach g d query st \<and> sane g query st') \<and> (\<not> live \<longrightarrow> reach g d query st = {})"
proof -
  from assms(5) have "narrows g d query st (live, st')"
    using points_narrow [OF assms(1-3)] continue_narrows [OF assms(1-4)] by blast
  then show ?thesis by (auto simp: narrows_def)
qed

definition bound_state :: narrowing where
  "bound_state = \<lparr>nw_env = (env_new 1 True 0)\<lparr>ev_values := [0 \<mapsto> VEq 5]\<rparr>, nw_remaining = [True], nw_epoch = 3,
     nw_indexes = small_index\<rparr>"

lemma narrowing_exact_witness:
  "\<exists>st'. points port_graph port_query None False [0] bound_state = Inr (True, st') \<and>
     nw_remaining st' = [False] \<and> reach port_graph None port_query bound_state = {([0 \<mapsto> VEq 5], 3)}"
proof -
  have a: "a_call (port_query ! 0) = CTable 0" "a_args (port_query ! 0) = [Slot 0, Literal (VInt 0)]" "length port_query = 1"
    by (simp_all add: port_query_def)
  have ok: "atoms_ok port_graph port_query"
    by (simp add: atoms_ok_def port_query_def arity_def port_graph_simps port_table_def unary_def)
  have sane: "sane port_graph port_query bound_state"
    using env_new_clean [of "[True]" 1 True 0]
    by (simp add: sane_def bound_state_def indexes_ok_def small_index_def a(3) clean_def unset_def)
  have key: "full_key port_graph (nw_env bound_state) (port_query ! 0) = Inr (Some [VEq 5])"
    by (simp add: full_key_def a bound_state_def)
  have rows: "bind_all port_graph [(Slot 0, VEq 5), (Literal (VInt 0), VInt 0)] (nw_env bound_state) = (nw_env bound_state, True)"
    by (simp add: bound_state_def)
  let ?st = "bound_state\<lparr>nw_env := env_record 0 (Some (DFunction 0)) (nw_env bound_state), nw_remaining := [False], nw_epoch := 3\<rparr>"
  have fields: "nw_remaining bound_state = [True]" "nw_epoch bound_state = 3" by (simp_all add: bound_state_def)
  have run: "points port_graph port_query None False [0] bound_state = Inr (True, ?st)"
    using rows by (simp add: point_def fields idx_def get_at_def a key read_point_def port_graph_simps take_row_def port_row_def
        delta_blocks_def Let_def del: bind_all.simps)
  have "waiting [False] = {}" by auto
  then have "reach port_graph None port_query ?st = {([0 \<mapsto> VEq 5], 3)}"
    by (simp add: reach_def answers_done env_record_def bound_state_def del: Collect_empty_eq)
  moreover have "reach port_graph None port_query ?st = reach port_graph None port_query bound_state"
    using narrowing_exact [OF port_keyed ok sane, of "\<lambda>_. None" 0 None False "[0]" True ?st] run by simp
  ultimately show ?thesis using run by auto
qed

end
