(* ===== verification/InitialRows.thy ===== *)
theory InitialRows
  imports GraphProps
begin

text \<open>
  What \<open>Graph::new_with_reference_views\<close> of \<open>engine/cell-runtime/src/graph.rs\<close> makes of the initial rows
  of an artifact: each row becomes one live row of the new graph, a fact of a Cell of its own or a function
  entry, with the imported values and its visibility, and there are no other rows.
\<close>

section \<open>Imported rows\<close>

type_synonym initial = "nat \<times> val list \<times> bool"

definition import_row :: "(json \<Rightarrow> wire_key option) \<Rightarrow> table list \<Rightarrow> json \<Rightarrow> idents \<Rightarrow> (idents \<times> initial) res" where
  "import_row wire tables r ids =
     rbind (ok_or (find (\<lambda>i. jfield r ''table'' = JStr (t_name (tables ! i))) [0..<length tables])
       (Err ''unknown initial operator'')) (\<lambda>t.
     rbind (j_array (jfield r ''values'')) (\<lambda>vs.
     rbind (smapM (import_value wire) vs ids) (\<lambda>(ids', vals).
     Inr (ids', (t, vals, as_bool (jfield r ''subsumed'') = Some True)))))"

lemma initial_row_parts:
  "initial_row wire r (g, ids) =
     rbind (import_row wire (g_tables g) r ids) (\<lambda>(ids', t, vals, sub). rbind (insert_initial t vals sub g) (\<lambda>g1. Inr (g1, ids')))"
  by (simp add: initial_row_def import_row_def rbind_assoc split_def)

text \<open>Imported values are canonical: without unions nothing changes them.\<close>

abbreviation fixed :: "val \<Rightarrow> bool" where
  "fixed v \<equiv> canon v Map.empty = v"

lemma smapM_all:
  assumes "smapM f xs s = Inr (t, ys)" "\<And>x a b y. x \<in> set xs \<Longrightarrow> f x a = Inr (b, y) \<Longrightarrow> Q y"
  shows "\<forall>y \<in> set ys. Q y"
  using assms
proof (induction xs arbitrary: s ys)
  case (Cons x xs)
  then show ?case by (auto simp: rbind_eq_Inr) blast+
qed simp

lemma root_empty: "root Map.empty x = x"
  by simp

lemma import_fixed: "import_value wire j ids = Inr (ids', v) \<Longrightarrow> fixed v"
proof (induction wire j ids arbitrary: ids' v rule: import_value.induct)
  case (1 wire j ids)
  show ?case
  proof (cases "jget j ''key'' \<noteq> None")
    case True
    with "1.prems" show ?thesis
      by (auto simp: import_value.simps [of wire j] import_key_def rmap_def rbind_eq_Inr)
  next
    case key: False
    show ?thesis
    proof (cases "as_str (jfield j ''eq'')")
      case (Some eq)
      with key "1.prems" show ?thesis
        by (auto simp: import_value.simps [of wire j] rbind_eq_Inr root_empty Let_def split_def split: if_splits)
    next
      case eq: None
      show ?thesis
      proof (cases "as_array (jfield j ''elements'')")
        case (Some xs)
        with key eq "1.prems" obtain vs where vs: "smapM (import_value wire) xs ids = Inr (ids', vs)" "v = VSet (sort_dedup vs)"
          by (auto simp: import_value.simps [of wire j] rbind_eq_Inr)
        have "\<forall>v \<in> set vs. fixed v"
          by (rule smapM_all [OF vs(1)]) (use "1.IH" key eq Some in auto)
        then have "map (\<lambda>x. canon x Map.empty) (sort_dedup vs) = sort_dedup vs" by (intro map_idI) simp
        then show ?thesis by (simp add: vs(2) sort_dedup_id sort_dedup_strict)
      next
        case None
        with key eq "1.prems" show ?thesis
          by (auto simp: import_value.simps [of wire j] import_scalar_def rmap_def rbind_eq_Inr Let_def split: if_splits)
      qed
    qed
  qed
qed


section \<open>What inserting a row changes\<close>

text \<open>Everything but the indexes, the events and the change flag.\<close>

definition same_content :: "graph \<Rightarrow> graph \<Rightarrow> bool" where
  "same_content g h \<longleftrightarrow> g_program h = g_program g \<and> g_parents h = g_parents g \<and> g_fuel h = g_fuel g \<and>
     g_epoch h = g_epoch g \<and> g_pending_unions h = g_pending_unions g \<and> g_congruence_dirty h = g_congruence_dirty g \<and>
     g_dirty h = g_dirty g \<and> g_dirty_markers h = g_dirty_markers g \<and> g_cells h = g_cells g \<and>
     g_functions h = g_functions g \<and> g_function_keys h = g_function_keys g \<and> g_next_cell h = g_next_cell g \<and>
     g_known_mode h = g_known_mode g \<and> g_fact_forwards h = g_fact_forwards g"

lemma same_content_refl: "same_content g g"
  by (simp add: same_content_def)

lemma touch_same: "touch t d g = Inr h \<Longrightarrow> same_content g h"
  unfolding touch_def rbind_eq_Inr sum.inject by (elim exE conjE, hypsubst) (simp add: same_content_def)

lemma subscribe_same:
  assumes "subscribe d vs g = Inr h"
  shows "same_content g h"
proof -
  from assms obtain tb g1 u dp where g1: "(case tb of None \<Rightarrow> Inr g | Some table \<Rightarrow> touch table d g) = Inr g1"
    and h: "g1\<lparr>g_uses := u, g_dependencies := dp\<rparr> = h"
    unfolding subscribe_def Let_def rbind_eq_Inr sum.inject by blast
  from g1 have "same_content g g1" by (cases tb) (auto dest: touch_same simp: same_content_refl)
  then show ?thesis by (simp add: same_content_def flip: h)
qed

lemma activate_content:
  assumes "activate f t key v hid g = Inr h"
  obtains c m where "g_cells g (fst f) = Some c" "m = None \<or> m = Some \<lparr>mk_table = t, mk_values = key @ [v], mk_canonical = True\<rparr>"
    "same_content (g\<lparr>g_cells := (g_cells g)(fst f \<mapsto> c\<lparr>c_facts := (c_facts c)(snd f \<mapsto> \<lparr>fs_marker_row = m, fs_entry = None,
       fs_hidden = hid, fs_epoch = g_epoch g, fs_born = g_epoch g, fs_hash = g_hashkey g t key\<rparr>)\<rparr>)\<rparr>) h"
proof -
  let ?m = "if g_marker_fields_copied g \<and> t \<in> v_markers (p_views (g_program g))
    then Some \<lparr>mk_table = t, mk_values = key @ [v], mk_canonical = True\<rparr> else None"
  let ?s = "\<lparr>fs_marker_row = ?m, fs_entry = None, fs_hidden = hid, fs_epoch = g_epoch g, fs_born = g_epoch g, fs_hash = g_hashkey g t key\<rparr>"
  have "\<exists>g1 ops g3. modify_cell (fst f) (\<lambda>c. c\<lparr>c_facts := (c_facts c)(snd f \<mapsto> ?s)\<rparr>) g = Inr g1 \<and>
      subscribe (DFact f) (key @ [v]) (g1\<lparr>g_operators := ops, g_intern := bucket_add (g_intern g1) (g_hashkey g t key) f\<rparr>) = Inr g3 \<and>
      (push_event (DFact f) g3)\<lparr>g_changed := True\<rparr> = h"
    using assms unfolding activate_def Let_def rbind_eq_Inr sum.inject
    by (elim exE conjE) (intro exI conjI, assumption+)
  then obtain g1 ops g3 where g1: "modify_cell (fst f) (\<lambda>c. c\<lparr>c_facts := (c_facts c)(snd f \<mapsto> ?s)\<rparr>) g = Inr g1"
    and g3: "subscribe (DFact f) (key @ [v]) (g1\<lparr>g_operators := ops, g_intern := bucket_add (g_intern g1) (g_hashkey g t key) f\<rparr>) = Inr g3"
    and h: "(push_event (DFact f) g3)\<lparr>g_changed := True\<rparr> = h"
    by (elim exE conjE)
  from g1 obtain c where c: "g_cells g (fst f) = Some c" and eq: "g1 = g\<lparr>g_cells := (g_cells g)(fst f \<mapsto> c\<lparr>c_facts := (c_facts c)(snd f \<mapsto>
      \<lparr>fs_marker_row = ?m, fs_entry = None, fs_hidden = hid, fs_epoch = g_epoch g, fs_born = g_epoch g, fs_hash = g_hashkey g t key\<rparr>)\<rparr>)\<rparr>"
    by (auto simp: modify_cell_def split: option.splits)
  have "same_content g1 h" using subscribe_same [OF g3] by (simp add: same_content_def h [symmetric] push_event_def)
  with eq have "same_content (g\<lparr>g_cells := (g_cells g)(fst f \<mapsto> c\<lparr>c_facts := (c_facts c)(snd f \<mapsto> \<lparr>fs_marker_row = ?m, fs_entry = None,
       fs_hidden = hid, fs_epoch = g_epoch g, fs_born = g_epoch g, fs_hash = g_hashkey g t key\<rparr>)\<rparr>)\<rparr>) h" by simp
  then show thesis by (rule that [OF c, rotated]) simp
qed

text \<open>The Cell of a fact, and the entry of a function.\<close>

definition fact_cell :: "program \<Rightarrow> initial \<Rightarrow> cell \<Rightarrow> bool" where
  "fact_cell p row c \<longleftrightarrow> (case row of (t, vals, sub) \<Rightarrow>
     c_template c = p_table_templates p ! t \<and> c_values c = get_at vals \<and>
     (\<exists>s. c_facts c = [0 \<mapsto> s] \<and> fs_hidden s = sub \<and> fs_epoch s = 0 \<and>
        (fs_marker_row s = None \<or> fs_marker_row s = Some \<lparr>mk_table = t, mk_values = vals, mk_canonical = True\<rparr>)))"

definition function_entry :: "initial \<Rightarrow> func \<Rightarrow> bool" where
  "function_entry row f \<longleftrightarrow> (case row of (t, vals, sub) \<Rightarrow>
     fn_table f = t \<and> fn_key f = butlast vals \<and> fn_value f = last vals \<and> fn_epoch f = 0 \<and> fn_live f)"

definition stored :: "graph \<Rightarrow> initial \<Rightarrow> dependency \<Rightarrow> bool" where
  "stored g row w \<longleftrightarrow> fst row < length (g_tables g) \<and> length (fst (snd row)) = length (t_schema (g_tables g ! fst row)) \<and>
     fst (snd row) \<noteq> [] \<and>
     (case w of
        DFact f \<Rightarrow> t_virtual (g_tables g ! fst row) \<and> snd f = 0 \<and> (\<exists>c. g_cells g (fst f) = Some c \<and> fact_cell (g_program g) row c)
      | DFunction i \<Rightarrow> \<not> t_virtual (g_tables g ! fst row) \<and> i < length (g_functions g) \<and> function_entry row (g_functions g ! i))"

text \<open>The state after some rows: their witnesses hold them, and nothing else is there.\<close>

definition initial_key :: "initial \<Rightarrow> nat \<times> val list" where
  "initial_key row = (fst row, butlast (fst (snd row)))"

definition holds_rows :: "program \<Rightarrow> initial list \<Rightarrow> dependency list \<Rightarrow> graph \<Rightarrow> bool" where
  "holds_rows p rows ws g \<longleftrightarrow>
     g_program g = p \<and> 2 \<le> g_fuel g \<and> g_parents g = Map.empty \<and> g_epoch g = 0 \<and> quiet g \<and>
     list_all2 (stored g) rows ws \<and> distinct ws \<and>
     (\<forall>cid. g_cells g cid \<noteq> None \<longleftrightarrow> DFact (cid, 0) \<in> set ws) \<and> (\<forall>cid op. DFact (cid, op) \<in> set ws \<longrightarrow> cid < g_next_cell g) \<and>
     (\<forall>i. DFunction i \<in> set ws \<longleftrightarrow> i < length (g_functions g)) \<and>
     (\<forall>k i. g_function_keys g k = Some i \<longrightarrow> k \<in> initial_key ` {row \<in> set rows. \<not> t_virtual (p_tables p ! fst row)})"


lemma stored_mono:
  assumes "stored g row w" "g_program h = g_program g"
    and "\<And>cid. g_cells g cid \<noteq> None \<Longrightarrow> g_cells h cid = g_cells g cid"
    and "\<exists>fs. g_functions h = g_functions g @ fs"
  shows "stored h row w"
proof -
  have "g_cells h cid = Some c" if "g_cells g cid = Some c" for cid c using assms(3) [of cid] that by simp
  with assms(1,2,4) show ?thesis by (auto simp: stored_def nth_append split: dependency.splits)
qed

lemma frame_content:
  assumes "frame template vals g = Inr (h, cid)"
  obtains c where "cid = g_next_cell g" "c_template c = template" "c_values c = vals" "c_facts c = Map.empty"
    "h = g\<lparr>g_next_cell := cid + 1, g_cells := (g_cells g)(cid \<mapsto> c)\<rparr>"
proof -
  let ?c = "\<lparr>c_known_results = Map.empty, c_completed_prefix = 0, c_started_epoch = g_epoch g, c_completed = False,
    c_template = template, c_parent = None, c_values = vals, c_facts = Map.empty, c_recipe_depth = 0, c_providers = Map.empty\<rparr>"
  from assms have "cid = g_next_cell g" "h = g\<lparr>g_next_cell := cid + 1, g_cells := (g_cells g)(cid \<mapsto> ?c)\<rparr>"
    by (auto simp: frame_def linked_frame_def reserve_cell_id_def new_cell_def store_cell_def Let_def rbind_eq_Inr split: if_splits)
  then show thesis by (intro that [of ?c]) simp_all
qed

lemma insert_fact_row:
  assumes rows: "holds_rows p rows ws g" and ins: "insert_initial t vals sub g = Inr h"
    and virt: "t_virtual (p_tables p ! t)" and tt: "length (p_table_templates p) = length (p_tables p)"
  shows "\<exists>w. holds_rows p (rows @ [(t, vals, sub)]) (ws @ [w]) h"
proof -
  note r = rows [unfolded holds_rows_def]
  from ins r virt tt obtain g1 cid where shape: "t < length (p_tables p)" "length vals = length (t_schema (p_tables p ! t))" "vals \<noteq> []"
    and fr: "frame (p_table_templates p ! t) (\<lambda>i. get_at vals i) g = Inr (g1, cid)"
    and act: "activate (cid, 0) t (butlast vals) (last vals) sub g1 = Inr h"
    by (auto simp: insert_initial_def rbind_eq_Inr idx_eq_Inr split: if_splits)
  from frame_content [OF fr] obtain c where c: "cid = g_next_cell g" "c_template c = p_table_templates p ! t"
    "c_values c = get_at vals" "c_facts c = Map.empty" "g1 = g\<lparr>g_next_cell := cid + 1, g_cells := (g_cells g)(cid \<mapsto> c)\<rparr>" by blast
  from activate_content [OF act] obtain c' m where c': "g_cells g1 cid = Some c'"
    and m: "m = None \<or> m = Some \<lparr>mk_table = t, mk_values = vals, mk_canonical = True\<rparr>"
    and same: "same_content (g1\<lparr>g_cells := (g_cells g1)(cid \<mapsto> c'\<lparr>c_facts := (c_facts c')(0 \<mapsto> \<lparr>fs_marker_row = m, fs_entry = None,
       fs_hidden = sub, fs_epoch = g_epoch g1, fs_born = g_epoch g1, fs_hash = g_hashkey g1 t (butlast vals)\<rparr>)\<rparr>)\<rparr>) h"
    using shape(3) by (auto simp: append_butlast_last_id)
  have "c' = c" using c' c(5) by simp
  let ?s = "\<lparr>fs_marker_row = m, fs_entry = None, fs_hidden = sub, fs_epoch = g_epoch g1, fs_born = g_epoch g1, fs_hash = g_hashkey g1 t (butlast vals)\<rparr>"
  have h: "g_program h = p" "2 \<le> g_fuel h" "g_parents h = Map.empty" "g_epoch h = 0" "quiet h" "g_functions h = g_functions g"
    "g_function_keys h = g_function_keys g" "g_next_cell h = Suc cid"
    "g_cells h = (g_cells g)(cid \<mapsto> c\<lparr>c_facts := [0 \<mapsto> ?s]\<rparr>)"
    using same r by (simp_all add: same_content_def c(4,5) \<open>c' = c\<close> quiet_def)
  have new: "DFact (cid, 0) \<notin> set ws" "g_cells g cid = None" using r c(1) by blast+
  have st: "stored h (t, vals, sub) (DFact (cid, 0))"
    using shape virt m r by (auto simp: stored_def h fact_cell_def c(2,3,5))
  have old: "list_all2 (stored h) rows ws"
  proof (rule list_all2_mono)
    show "list_all2 (stored g) rows ws" using r by blast
  next
    fix row w assume "stored g row w"
    then show "stored h row w" by (rule stored_mono) (use new r in \<open>auto simp: h\<close>)
  qed
  have "holds_rows p (rows @ [(t, vals, sub)]) (ws @ [DFact (cid, 0)]) h"
    unfolding holds_rows_def
  proof (intro conjI)
    show "list_all2 (stored h) (rows @ [(t, vals, sub)]) (ws @ [DFact (cid, 0)])"
      using old st by (simp add: list_all2_appendI)
    show "\<forall>cid' op. DFact (cid', op) \<in> set (ws @ [DFact (cid, 0)]) \<longrightarrow> cid' < g_next_cell h"
      using r c(1) by (auto simp: h less_Suc_eq)
    show "\<forall>k i. g_function_keys h k = Some i \<longrightarrow>
        k \<in> initial_key ` {row \<in> set (rows @ [(t, vals, sub)]). \<not> t_virtual (p_tables p ! fst row)}"
      using r unfolding h(7) by fastforce
  qed (use r new in \<open>auto simp: h\<close>)
  then show ?thesis by blast
qed

definition with_function :: "nat \<Rightarrow> val list \<Rightarrow> val \<Rightarrow> nat set list \<Rightarrow> graph \<Rightarrow> graph" where
  "with_function t key v fo g =
     (let i = length (g_functions g);
          g1 = g\<lparr>g_functions := g_functions g @ [\<lparr>fn_table = t, fn_key = key, fn_value = v,
                  fn_epoch = g_epoch g, fn_live = True, fn_origin = None\<rparr>]\<rparr>
      in push_event (DFunction i) (g1\<lparr>g_function_operators := fo, g_function_keys := (g_function_keys g1)((t, key) \<mapsto> i),
           g_changed := True, g_function_updates := g_function_updates g1 + 1\<rparr>))"

lemma set_function_new:
  assumes "set_function_inner t key v g = Inr (h, i)" "map (canon_in g) key = key" "canon_in g v = v"
    and "g_function_keys g (t, key) = None"
  shows "i = length (g_functions g) \<and> (\<exists>fo. same_content (with_function t key v fo g) h)"
proof -
  let ?i = "length (g_functions g)"
  have "set_function_inner t key v g =
      rbind (add_to ?i t (g_function_operators g)) (\<lambda>fo. rbind (subscribe_function ?i (with_function t key v fo g)) (\<lambda>g2. Inr (g2, ?i)))"
    unfolding set_function_inner_def Let_def assms(2-4) option.case with_function_def by simp
  with assms(1) obtain fo where "subscribe_function ?i (with_function t key v fo g) = Inr h" "i = ?i"
    by (auto simp: rbind_eq_Inr)
  then show ?thesis by (auto simp: subscribe_function_def rbind_eq_Inr dest: subscribe_same)
qed

lemma insert_function_row:
  assumes rows: "holds_rows p rows ws g" and ins: "insert_initial t vals sub g = Inr h"
    and virt: "\<not> t_virtual (p_tables p ! t)" and fixed: "\<forall>v \<in> set vals. fixed v"
    and fresh: "initial_key (t, vals, sub) \<notin> initial_key ` {row \<in> set rows. \<not> t_virtual (p_tables p ! fst row)}"
  shows "\<exists>w. holds_rows p (rows @ [(t, vals, sub)]) (ws @ [w]) h"
proof -
  note r = rows [unfolded holds_rows_def]
  from ins r virt obtain i where shape: "t < length (p_tables p)" "length vals = length (t_schema (p_tables p ! t))" "vals \<noteq> []"
    and set: "set_function_inner t (butlast vals) (last vals) g = Inr (h, i)"
    by (auto simp: insert_initial_def rbind_eq_Inr idx_eq_Inr split: if_splits)
  have key: "map (canon_in g) (butlast vals) = butlast vals" "canon_in g (last vals) = last vals"
    using fixed r shape(3) by (auto intro!: map_idI dest: in_set_butlastD)
  have "g_function_keys g (t, butlast vals) = None"
    using fresh r by (cases "g_function_keys g (t, butlast vals)") (auto simp: initial_key_def)
  from set_function_new [OF set key this] obtain fo where i: "i = length (g_functions g)"
    and same: "same_content (with_function t (butlast vals) (last vals) fo g) h" by blast
  let ?f = "\<lparr>fn_table = t, fn_key = butlast vals, fn_value = last vals, fn_epoch = g_epoch g, fn_live = True, fn_origin = None\<rparr>"
  from same have h: "g_program h = p" "2 \<le> g_fuel h" "g_parents h = Map.empty" "g_epoch h = 0" "quiet h"
    "g_functions h = g_functions g @ [?f]" "g_function_keys h = (g_function_keys g)((t, butlast vals) \<mapsto> i)"
    "g_next_cell h = g_next_cell g" "g_cells h = g_cells g"
    using r by (simp_all add: same_content_def with_function_def Let_def push_event_def quiet_def i)
  have new: "DFunction i \<notin> set ws" using r i by simp
  have st: "stored h (t, vals, sub) (DFunction i)"
    using shape virt r by (simp add: stored_def h i function_entry_def)
  have old: "list_all2 (stored h) rows ws"
  proof (rule list_all2_mono)
    show "list_all2 (stored g) rows ws" using r by blast
  next
    fix row w assume "stored g row w"
    then show "stored h row w" by (rule stored_mono) (use r in \<open>auto simp: h\<close>)
  qed
  have "holds_rows p (rows @ [(t, vals, sub)]) (ws @ [DFunction i]) h"
    unfolding holds_rows_def
  proof (intro conjI)
    show "list_all2 (stored h) (rows @ [(t, vals, sub)]) (ws @ [DFunction i])"
      using old st by (simp add: list_all2_appendI)
    show "\<forall>j. DFunction j \<in> set (ws @ [DFunction i]) \<longleftrightarrow> j < length (g_functions h)"
      using r by (auto simp: h(6) i less_Suc_eq)
    show "\<forall>k j. g_function_keys h k = Some j \<longrightarrow>
        k \<in> initial_key ` {row \<in> set (rows @ [(t, vals, sub)]). \<not> t_virtual (p_tables p ! fst row)}"
    proof (intro allI impI)
      fix k j assume k: "g_function_keys h k = Some j"
      show "k \<in> initial_key ` {row \<in> set (rows @ [(t, vals, sub)]). \<not> t_virtual (p_tables p ! fst row)}"
      proof (cases "k = (t, butlast vals)")
        case True
        then show ?thesis using virt by (intro image_eqI [of _ _ "(t, vals, sub)"]) (simp_all add: initial_key_def)
      next
        case False
        with k have "g_function_keys g k = Some j" by (simp add: h(7))
        with r have "k \<in> initial_key ` {row \<in> set rows. \<not> t_virtual (p_tables p ! fst row)}" by blast
        then show ?thesis by auto
      qed
    qed
    show "distinct (ws @ [DFunction i])" using r new by simp
    show "\<forall>cid. (g_cells h cid \<noteq> None) = (DFact (cid, 0) \<in> set (ws @ [DFunction i]))" using r unfolding h(9) by simp
    show "\<forall>cid op. DFact (cid, op) \<in> set (ws @ [DFunction i]) \<longrightarrow> cid < g_next_cell h" using r unfolding h(8) by simp
  qed (rule h)+
  then show ?thesis by blast
qed


section \<open>The new graph\<close>

lemma holds_rows_same:
  assumes "holds_rows p rows ws g" "same_content g h"
  shows "holds_rows p rows ws h"
proof -
  note r = assms(1) [unfolded holds_rows_def] and s = assms(2) [unfolded same_content_def]
  have "stored h = stored g" using s by (auto simp: stored_def fun_eq_iff split: dependency.splits)
  with r s show ?thesis by (simp add: holds_rows_def quiet_def)
qed

definition imports_ok :: "program \<Rightarrow> bool" where
  "imports_ok p \<longleftrightarrow> length (p_table_templates p) = length (p_tables p) \<and>
     (\<forall>t < length (p_tables p). p_table_templates p ! t < length (p_templates p) \<and>
        p_templates p ! (p_table_templates p ! t) = import_template t (p_tables p ! t))"

lemma stored_fact:
  assumes h: "holds_rows p rows ws g" and p: "imports_ok p" and st: "stored g (t, vals, sub) (DFact f)" and fx: "\<forall>v \<in> set vals. fixed v"
  shows "fact g f = Inr (Some \<lparr>rw_table = t, rw_values = vals, rw_hidden = sub, rw_epoch = 0, rw_witness = DFact f\<rparr>)"
proof -
  from h have g: "g_program g = p" "2 \<le> g_fuel g" "g_parents g = Map.empty" by (simp_all add: holds_rows_def)
  from st obtain c s where c: "g_cells g (fst f) = Some c" "snd f = 0" "c_template c = p_table_templates p ! t" "c_values c = get_at vals"
      "c_facts c = [0 \<mapsto> s]" "fs_hidden s = sub" "fs_epoch s = 0"
      "fs_marker_row s = None \<or> fs_marker_row s = Some \<lparr>mk_table = t, mk_values = vals, mk_canonical = True\<rparr>"
    and t: "t < length (p_tables p)" "length vals = length (t_schema (p_tables p ! t))" "vals \<noteq> []"
    by (auto simp: stored_def g fact_cell_def)
  let ?n = "length vals - 1"
  have tm: "c_template c < length (p_templates p)" "p_templates p ! c_template c = import_template t (p_tables p ! t)"
    using p t(1) c(3) by (simp_all add: imports_ok_def)
  have cols: "fact_columns g c 0 = Inr (t, map Slot [0..<?n] @ [Slot ?n])"
    by (simp add: fact_columns_def carrier_at_def views_carrier_def g tm import_template_def Let_def t(2) get_at_def)
  obtain n where n: "g_fuel g = Suc (Suc n)" using g(2) by (metis add_2_eq_Suc le_Suc_ex)
  have slot: "argument_in g (fst f) c (Slot i) = Inr (vals ! i)" if "i < length vals" for i
    using that fx by (simp add: argument_in_def n argument_in_step_def slot_in_step_def c(4) get_at_def g(3))
  have "arguments_in g (fst f) c (map Slot [0..<length vals]) = Inr (map ((!) vals) [0..<length vals])"
    unfolding arguments_in_def by (subst rmapM_map [where g = "\<lambda>a. case a of Slot i \<Rightarrow> vals ! i"]) (auto simp: slot)
  moreover have "map Slot [0..<length vals] = map Slot [0..<?n] @ [Slot ?n]"
    using t(3) by (metis Suc_pred' length_greater_0_conv list.simps(8,9) map_append upt_Suc_append zero_le)
  ultimately have "arguments_in g (fst f) c (map Slot [0..<?n] @ [Slot ?n]) = Inr vals"
    by (simp add: map_nth)
  with c cols show ?thesis by (auto simp: fact_def)
qed

lemma stored_row:
  assumes h: "holds_rows p rows ws g" and p: "imports_ok p" and st: "stored g (t, vals, sub) w" and fx: "\<forall>v \<in> set vals. fixed v"
  shows "row_of g w = Inr (Some \<lparr>rw_table = t, rw_values = vals, rw_hidden = (sub \<and> t_virtual (p_tables p ! t)), rw_epoch = 0, rw_witness = w\<rparr>)"
proof (cases w)
  case (DFact f)
  with stored_fact [OF h p _ fx] st h show ?thesis by (auto simp: row_of_def stored_def holds_rows_def)
next
  case (DFunction i)
  have fx': "map (\<lambda>v. canon v Map.empty) (butlast vals) = butlast vals" using fx by (intro map_idI) (auto dest: in_set_butlastD)
  from st h DFunction have g: "g_program g = p" "g_parents g = Map.empty" and f: "\<not> t_virtual (p_tables p ! t)" "i < length (g_functions g)"
    "vals \<noteq> []" "function_entry (t, vals, sub) (g_functions g ! i)"
    by (auto simp: stored_def holds_rows_def)
  with fx fx' show ?thesis
    by (simp add: row_of_def DFunction function_row_def get_at_def function_entry_def)
qed

lemma holds_rows_only:
  assumes h: "holds_rows p rows ws g" and r: "row_of g w = Inr (Some r)"
  shows "w \<in> set ws"
proof (cases w)
  case (DFunction i)
  with r h show ?thesis by (auto simp: row_of_def function_row_def holds_rows_def get_at_def split: if_splits option.splits)
next
  case (DFact f)
  with r obtain c s where c: "g_cells g (fst f) = Some c" "c_facts c (snd f) = Some s"
    by (auto simp: row_of_def fact_def split: option.splits)
  with h have "DFact (fst f, 0) \<in> set ws" unfolding holds_rows_def by blast
  moreover from h have "list_all2 (stored g) rows ws" by (simp add: holds_rows_def)
  ultimately obtain row where "stored g row (DFact (fst f, 0))" by (metis in_set_conv_nth list_all2_conv_all_nth)
  with c have "snd f = 0" by (auto simp: stored_def fact_cell_def split: if_splits)
  with \<open>DFact (fst f, 0) \<in> set ws\<close> DFact show ?thesis by (metis prod.collapse)
qed

definition function_keys_distinct :: "table list \<Rightarrow> initial list \<Rightarrow> bool" where
  "function_keys_distinct tables rows \<longleftrightarrow> distinct (map initial_key (filter (\<lambda>row. \<not> t_virtual (tables ! fst row)) rows))"

lemma initial_rows_hold:
  assumes "rfold (initial_row wire) js (g, ids) = Inr (h, ids')" "smapM (import_row wire (p_tables p)) js ids = Inr (ids2, new)"
    and "holds_rows p rows ws g" "imports_ok p" "function_keys_distinct (p_tables p) (rows @ new)"
  shows "ids' = ids2 \<and> (\<forall>row \<in> set new. \<forall>v \<in> set (fst (snd row)). fixed v) \<and> (\<exists>ws'. holds_rows p (rows @ new) (ws @ ws') h)"
  using assms
proof (induction js arbitrary: g ids rows ws new)
  case Nil
  then show ?case by (auto intro: exI [of _ "[]"])
next
  case (Cons j js)
  have tabs: "g_tables g = p_tables p" using Cons.prems(3) by (simp add: holds_rows_def)
  from Cons.prems(2) obtain ids1 t vals sub rest where imp: "import_row wire (p_tables p) j ids = Inr (ids1, t, vals, sub)"
    and more: "smapM (import_row wire (p_tables p)) js ids1 = Inr (ids2, rest)" and new: "new = (t, vals, sub) # rest"
    by (auto simp: rbind_eq_Inr)
  with Cons.prems(1) tabs obtain g1 where ins: "insert_initial t vals sub g = Inr g1"
    and run: "rfold (initial_row wire) js (g1, ids1) = Inr (h, ids')"
    by (auto simp: rbind_eq_Inr initial_row_parts)
  have fx: "\<forall>v \<in> set vals. fixed v"
    using imp by (auto simp: import_row_def rbind_eq_Inr dest!: smapM_all [where Q = fixed] intro: import_fixed)
  have "\<exists>w. holds_rows p (rows @ [(t, vals, sub)]) (ws @ [w]) g1"
  proof (cases "t_virtual (p_tables p ! t)")
    case True
    with insert_fact_row [OF Cons.prems(3) ins] Cons.prems(4) show ?thesis by (simp add: imports_ok_def)
  next
    case False
    moreover have "initial_key (t, vals, sub) \<notin> initial_key ` {row \<in> set rows. \<not> t_virtual (p_tables p ! fst row)}"
      using Cons.prems(5) False by (auto simp: function_keys_distinct_def new)
    ultimately show ?thesis using insert_function_row [OF Cons.prems(3) ins _ fx] by blast
  qed
  then obtain w where w: "holds_rows p (rows @ [(t, vals, sub)]) (ws @ [w]) g1" by blast
  from Cons.IH [OF run more w Cons.prems(4)] Cons.prems(5) obtain ws' where "ids' = ids2"
    "\<forall>row \<in> set rest. \<forall>v \<in> set (fst (snd row)). fixed v" "holds_rows p (rows @ new) (ws @ w # ws') h"
    by (auto simp: new)
  with fx show ?case by (auto simp: new)
qed


lemma mark_virtual_imports:
  assumes "mark_virtual ms (p_tables p) = Inr ts" "wf_program p"
  shows "imports_ok (p\<lparr>p_tables := ts\<rparr>)"
proof -
  from assms(1) have ts: "ts = map (\<lambda>i. if i \<in> ms then (p_tables p ! i)\<lparr>t_virtual := True\<rparr> else p_tables p ! i) [0..<length (p_tables p)]"
    by (auto simp: mark_virtual_def split: if_splits)
  then have "import_template i (ts ! i) = import_template i (p_tables p ! i)" if "i < length (p_tables p)" for i
    using that by (simp add: import_template_def)
  with assms(2) ts show ?thesis by (simp add: imports_ok_def wf_program_def)
qed

lemma no_rows: "2 \<le> fuel \<Longrightarrow> holds_rows p [] [] (empty_graph host hk fuel env p vie copied known)"
  by (simp add: holds_rows_def empty_graph_def Let_def quiet_def)

text \<open>
  C32. A new graph holds exactly the initial rows of the artifact. Import the rows in order, each value with
  the identities given so far; when no two rows of a function table have one key, the new graph has for
  each row a live row of its own with the same table and the imported values, hidden exactly when the row is a
  subsumed fact, and no other row; the anchors name every imported identity; the invariant of the
  classes, the lineage and the reverse index holds and no repair is left to do. (Two rows of a function
  table with one key are merged: see C10 for what a merge gives.)
\<close>

theorem new_graph_holds_initial_rows:
  assumes "wf_program p" "2 \<le> fuel" "graph_new host hk fuel wire env turns p enabled = Inr g"
    and "smapM (import_row wire (g_tables g)) (p_initial p) [] = Inr (ids, rows)"
    and "function_keys_distinct (g_tables g) rows"
  shows "classes_ok g \<and> quiet g \<and> g_anchors g = anchors_of ids \<and>
    (\<exists>ws. distinct ws \<and>
       list_all2 (\<lambda>(t, vals, sub) w. row_of g w = Inr (Some \<lparr>rw_table = t, rw_values = vals,
         rw_hidden = (sub \<and> t_virtual (g_tables g ! t)), rw_epoch = 0, rw_witness = w\<rparr>)) rows ws \<and>
       (\<forall>w r. row_of g w = Inr (Some r) \<longrightarrow> w \<in> set ws))"
proof -
  let ?vie = "enabled \<and> \<not> no_layouts p"
  from assms(3) obtain copied ts known h ids' k where
    ts: "(if ?vie then mark_virtual (v_markers (p_views p)) (p_tables p) else Inr (p_tables p)) = Inr ts"
    and run: "rfold (initial_row wire) (p_initial p) (empty_graph host hk fuel env (p\<lparr>p_tables := ts\<rparr>) ?vie copied known, []) = Inr (h, ids')"
    and rep: "repair turns (h\<lparr>g_anchors := anchors_of ids'\<rparr>) = Inr k" and g: "g = k\<lparr>g_changed := False\<rparr>"
    by (auto simp: graph_new_def Let_def rbind_eq_Inr)
  let ?p = "p\<lparr>p_tables := ts\<rparr>"
  have ok: "imports_ok ?p"
  proof (cases ?vie)
    case True
    with ts mark_virtual_imports [OF _ assms(1)] show ?thesis by simp
  next
    case False
    with ts assms(1) show ?thesis by (simp add: imports_ok_def wf_program_def)
  qed
  from rep obtain k' where loop: "repair_loop turns (h\<lparr>g_anchors := anchors_of ids'\<rparr>) = Inr k'" and k: "k = k'\<lparr>g_old_keys := Map.empty\<rparr>"
    by (auto simp: repair_def rbind_eq_Inr)
  have "advances (empty_graph host hk fuel env ?p ?vie copied known) h" by (rule initial_rows_advance [OF run empty_graph_ok])
  then have prog: "g_program h = ?p" by (simp add: advances_def empty_graph_def Let_def)
  have settled: "classes_ok g" "quiet g" using new_graph_settled [OF assms(3)] by simp_all
  have quiet_end: "k' = h\<lparr>g_anchors := anchors_of ids'\<rparr>" if "quiet h"
    using loop that repair_step_ends [of "h\<lparr>g_anchors := anchors_of ids'\<rparr>"] by (cases turns) (auto simp: quiet_def)
  have eq: "classes_ok (h\<lparr>g_anchors := a\<rparr>) = classes_ok h" for a
    by (simp add: classes_ok_def lineage_ok_def causes_below_def uses_ok_def uses_of_def)
  have "classes_ok h" using initial_rows_advance [OF run empty_graph_ok] by (simp add: advances_def)
  then have "advances (h\<lparr>g_anchors := anchors_of ids'\<rparr>) k'" using repair_loop_settles [OF _ loop] by (simp add: eq)
  then have "g_program g = ?p" using prog by (simp add: g k advances_def)
  then have tabs: "g_tables g = ts" by simp
  have "imports_ok ?p" "function_keys_distinct (p_tables ?p) ([] @ rows)" "smapM (import_row wire (p_tables ?p)) (p_initial p) [] = Inr (ids, rows)"
    using ok assms(4,5) tabs by simp_all
  from initial_rows_hold [OF run this(3) no_rows [OF assms(2)] this(1,2)] obtain ws where
    ids: "ids' = ids" and fx: "\<forall>row \<in> set rows. \<forall>v \<in> set (fst (snd row)). fixed v" and held: "holds_rows ?p rows ws h" by auto
  then have "quiet h" by (simp add: holds_rows_def)
  from quiet_end [OF this] have "same_content h g" by (simp add: g k same_content_def)
  from holds_rows_same [OF held this] have rows: "holds_rows ?p rows ws g" .
  have "list_all2 (\<lambda>(t, vals, sub) w. row_of g w = Inr (Some \<lparr>rw_table = t, rw_values = vals,
      rw_hidden = (sub \<and> t_virtual (g_tables g ! t)), rw_epoch = 0, rw_witness = w\<rparr>)) rows ws"
  proof -
    from rows have st: "list_all2 (stored g) rows ws" by (simp add: holds_rows_def)
    show ?thesis
    proof (rule list_all2_all_nthI)
      fix n assume n: "n < length rows"
      obtain t vals sub where r: "rows ! n = (t, vals, sub)" by (cases "rows ! n")
      have "stored g (t, vals, sub) (ws ! n)" using list_all2_nthD [OF st n] by (simp add: r)
      moreover have "\<forall>v \<in> set vals. fixed v" using bspec [OF fx nth_mem [OF n]] by (simp add: r)
      ultimately show "(case rows ! n of (t, vals, sub) \<Rightarrow> \<lambda>w. row_of g w = Inr (Some \<lparr>rw_table = t, rw_values = vals,
          rw_hidden = (sub \<and> t_virtual (g_tables g ! t)), rw_epoch = 0, rw_witness = w\<rparr>)) (ws ! n)"
        using stored_row [OF rows ok] by (simp add: r tabs)
    qed (rule list_all2_lengthD [OF st])
  qed
  moreover have "distinct ws" using rows by (simp add: holds_rows_def)
  moreover have "g_anchors g = anchors_of ids" using quiet_end [OF \<open>quiet h\<close>] by (simp add: g k ids)
  ultimately show ?thesis using settled holds_rows_only [OF rows] by blast
qed


text \<open>The constructor \<open>f\<close> with the subsumed row \<open>f(x) = y\<close>.\<close>

definition eq_json :: "string \<Rightarrow> json" where
  "eq_json n = JObj [(''eq'', JStr n), (''sort'', JStr ''E'')]"

definition rows_program :: program where
  "rows_program = unary_program\<lparr>p_initial :=
     [JObj [(''subsumed'', JBool True), (''table'', JStr ''f''), (''values'', JArr [eq_json ''x'', eq_json ''y''])]]\<rparr>"

definition rows_graph :: "graph res" where
  "rows_graph = graph_new demo_host (\<lambda>t k. 0) 8 (\<lambda>_. None) (\<lambda>_. None) 1 rows_program False"

lemma rows_imported: "smapM (import_row (\<lambda>_. None) [unary]) (p_initial rows_program) [] =
    Inr ([((''E'', ''x''), 1), ((''E'', ''y''), 2)], [(0, [VEq 1, VEq 2], True)])"
  by code_simp

lemma rows_graph_ok: "case rows_graph of Inl e \<Rightarrow> False | Inr g \<Rightarrow> g_tables g = [unary]"
  by code_simp

lemma rows_program_wf: "wf_program rows_program"
  by (simp add: wf_program_def rows_program_def unary_program_def unary_def)

lemma new_graph_holds_initial_rows_witness:
  "\<exists>g w. rows_graph = Inr g \<and> (\<forall>w' r. row_of g w' = Inr (Some r) \<longrightarrow> w' = w) \<and>
     row_of g w = Inr (Some \<lparr>rw_table = 0, rw_values = [VEq 1, VEq 2], rw_hidden = True, rw_epoch = 0, rw_witness = w\<rparr>)"
proof -
  obtain g where g: "rows_graph = Inr g" "g_tables g = [unary]"
    using rows_graph_ok by (auto split: sum.splits)
  have keys: "function_keys_distinct (g_tables g) [(0, [VEq 1, VEq 2], True)]"
    by (simp add: g function_keys_distinct_def unary_def)
  from new_graph_holds_initial_rows [OF rows_program_wf _ g(1) [unfolded rows_graph_def] rows_imported [folded g(2)] keys]
  obtain ws where all: "list_all2 (\<lambda>(t, vals, sub) w. row_of g w = Inr (Some \<lparr>rw_table = t, rw_values = vals,
      rw_hidden = (sub \<and> t_virtual (g_tables g ! t)), rw_epoch = 0, rw_witness = w\<rparr>)) [(0, [VEq 1, VEq 2], True)] ws"
    and only: "\<forall>w r. row_of g w = Inr (Some r) \<longrightarrow> w \<in> set ws" by auto
  from all obtain w where ws: "ws = [w]" and row: "row_of g w = Inr (Some \<lparr>rw_table = 0, rw_values = [VEq 1, VEq 2],
      rw_hidden = (True \<and> t_virtual (g_tables g ! 0)), rw_epoch = 0, rw_witness = w\<rparr>)"
    unfolding list_all2_Cons1 list.rel_distinct list_all2_Nil prod.case by blast
  have "t_virtual (g_tables g ! 0)" by (simp add: g unary_def)
  with g(1) only row show ?thesis by (auto simp: ws)
qed

end
