(* ===== verification/Views.thy ===== *)
theory Views
  imports Absorb Continue InitialRows "HOL-Library.AList"
begin

text \<open>
  Reference views, \<open>engine/cell-runtime/src/views.rs\<close>: \<open>Views::parse\<close> derives from the recipe which tables are
  markers, which rules keep references only, from which matched column each slot can be read and at which
  fact positions a slot is exported, and refuses a document that says otherwise. An accepted layout reads
  every slot from a column that the match has bound to it, and an exported position shows its slot: always
  for rows that are read from their columns, and for copied marker rows when they have been written.
\<close>

section \<open>Markers\<close>

text \<open>A document that names a table.\<close>

fun mentions :: "json \<Rightarrow> string \<Rightarrow> bool" where
  "mentions (JObj kvs) n \<longleftrightarrow> jfield (JObj kvs) ''table'' = JStr n \<or> (\<exists>kv \<in> set kvs. mentions (snd kv) n)"
| "mentions (JArr xs) n \<longleftrightarrow> (\<exists>x \<in> set xs. mentions x n)"
| "mentions _ n \<longleftrightarrow> False"

fun reads_or_hides :: "nat \<Rightarrow> op \<Rightarrow> bool" where
  "reads_or_hides t (OpLet _ (CTable i) _) \<longleftrightarrow> i = t"
| "reads_or_hides t (OpHide i _ _) \<longleftrightarrow> i = t"
| "reads_or_hides t _ \<longleftrightarrow> False"

definition safe_marker :: "table \<Rightarrow> bool res" where
  "safe_marker tb =
     (if t_constructor tb then Inr False
      else if t_schema tb = [] then Inl Panic
      else Inr (jfield (last (t_schema tb)) ''kind'' = JStr ''Unit'' \<and> t_merge tb = JObj [(''var'', JStr ''old'')]))"

definition observable :: "program \<Rightarrow> nat \<Rightarrow> bool res" where
  "observable p t =
     (if \<exists>x \<in> set (p_tables p). mentions (t_merge x) (t_name (p_tables p ! t)) then Inr True
      else if length (p_templates p) < length (p_rules p) then Inl Panic
      else Inr (\<exists>r \<in> set (take (length (p_rules p)) (p_templates p)). \<exists>op \<in> set (tm_ops r). reads_or_hides t op))"

definition marker_table :: "program \<Rightarrow> json \<Rightarrow> nat set \<Rightarrow> nat set res" where
  "marker_table p name ms =
     rbind (ok_or (find (\<lambda>i. name = JStr (t_name (p_tables p ! i))) [0..<length (p_tables p)]) (Err ''unknown marker table'')) (\<lambda>t.
     rbind (safe_marker (p_tables p ! t)) (\<lambda>safe.
     if \<not> safe then Inl (Err ''unsafe reference marker'')
     else
       rbind (observable p t) (\<lambda>seen.
       if seen then Inl (Err ''observable marker read/removal'') else Inr (insert t ms))))"

section \<open>Layouts\<close>

definition sets_marker :: "nat set \<Rightarrow> op \<Rightarrow> bool" where
  "sets_marker ms op = (case op of OpSet t _ _ \<Rightarrow> t \<in> ms | _ \<Rightarrow> False)"

definition private_op :: "op \<Rightarrow> bool" where
  "private_op op = (case op of OpCopy _ _ \<Rightarrow> True | OpLet _ (CPrim _ _) _ \<Rightarrow> True | _ \<Rightarrow> False)"

definition reference_only :: "nat set \<Rightarrow> op list \<Rightarrow> bool" where
  "reference_only ms ops \<longleftrightarrow> (\<exists>e \<in> set ops. sets_marker ms e) \<and> (\<forall>e \<in> set ops. private_op e \<or> sets_marker ms e)"

text \<open>The columns of a stored atom that hold a slot. Of several columns of one slot the first counts.\<close>

type_synonym slot_list = "(nat \<times> nat \<times> nat) list"

definition slot_columns :: "nat \<Rightarrow> arg list \<Rightarrow> slot_list" where
  "slot_columns ai cols = List.map_filter (\<lambda>(c, a). case a of Slot s \<Rightarrow> Some (s, ai, c) | Literal _ \<Rightarrow> None) (enumerate 0 cols)"

definition add_carrier :: "program \<Rightarrow> nat set \<Rightarrow> nat \<times> atom \<Rightarrow> slot_list \<times> carrier list \<Rightarrow> (slot_list \<times> carrier list) res" where
  "add_carrier p ms ia st =
     (case a_call (snd ia) of
        CPrim _ _ \<Rightarrow> Inr st
      | CTable t \<Rightarrow>
          rbind (idx (p_tables p) t) (\<lambda>tb.
          if \<not> (t_virtual tb \<or> t \<in> ms) then Inr st
          else Inr (fst st @ slot_columns (fst ia) (a_args (snd ia)),
            snd st @ [\<lparr>ca_atom = fst ia, ca_table = t, ca_columns = a_args (snd ia)\<rparr>])))"

definition derive_layout :: "program \<Rightarrow> nat set \<Rightarrow> rule \<Rightarrow> (slot_list \<times> carrier list) res" where
  "derive_layout p ms r =
     rmap (\<lambda>(ss, cs). (AList.clearjunk ss, cs)) (rfold (add_carrier p ms) (enumerate 0 (r_query r)) ([], []))"

definition check_carrier :: "program \<Rightarrow> json \<times> carrier \<Rightarrow> unit res" where
  "check_carrier p sc =
     (let (s, c) = sc in
      if as_u64 (jfield s ''atom'') \<noteq> Some (ca_atom c) \<or> jfield s ''table'' \<noteq> JStr (t_name (p_tables p ! ca_table c))
      then Inl (Err ''carrier wiring differs from query'')
      else
        rbind (load_args (jfield s ''columns'')) (\<lambda>cols.
        ensure_res (cols = ca_columns c) (Err ''carrier wiring differs from query'')))"

definition projection_field :: "json \<Rightarrow> string \<Rightarrow> nat res" where
  "projection_field s k = ok_or (as_u64 (jfield s k)) (Err ''invalid projection'')"

definition parse_slot :: "json \<Rightarrow> slot_list \<Rightarrow> slot_list res" where
  "parse_slot s ss =
     rbind (projection_field s ''slot'') (\<lambda>i.
     rbind (projection_field s ''atom'') (\<lambda>a.
     rbind (projection_field s ''column'') (\<lambda>c.
     if i \<in> fst ` set ss then Inl (Err ''duplicate projection'') else Inr (ss @ [(i, a, c)]))))"

definition storage_role :: "bool \<Rightarrow> json" where
  "storage_role only = JStr (if only then ''reference-view'' else ''owned-recipe'')"

definition parse_layout :: "program \<Rightarrow> json \<Rightarrow> nat set \<Rightarrow> nat \<times> rule \<Rightarrow> (nat \<rightharpoonup> layout) \<Rightarrow> (nat \<rightharpoonup> layout) res" where
  "parse_layout p j ms ir ls =
     (let (rid, r) = ir; spec = jat (jfield j ''rules'') rid in
      if as_u64 (jfield spec ''rule'') \<noteq> Some rid then Inl (Err ''reference rule order'')
      else
        rbind (idx (p_templates p) (r_template r)) (\<lambda>t.
        let only = reference_only ms (tm_ops t) in
        if jfield spec ''storage'' \<noteq> storage_role only then Inl (Err ''reference storage role differs'')
        else
          rbind (derive_layout p ms r) (\<lambda>(slots, carriers).
          rbind (j_array (jfield spec ''carriers'')) (\<lambda>cs.
          if length cs \<noteq> length carriers then Inl (Err ''carrier count mismatch'')
          else
            rbind (rmapM (check_carrier p) (zip cs carriers)) (\<lambda>_.
            rbind (j_array (jfield spec ''slots'')) (\<lambda>ss.
            rbind (rfold parse_slot ss []) (\<lambda>given.
            if set given \<noteq> set slots then Inl (Err ''slot projection differs from query'')
            else Inr (ls(r_template r \<mapsto> \<lparr>l_reference_only = only, l_slots = map_of slots, l_carriers = carriers\<rparr>)))))))))"

section \<open>Exports\<close>

text \<open>The positions of a template that hold facts with their columns: its effects, then its carriers.\<close>

definition export_row :: "program \<Rightarrow> nat set \<Rightarrow> nat \<times> op \<Rightarrow> (nat \<times> arg list) list res" where
  "export_row p ms ie =
     (let row = (\<lambda>t cols. rbind (idx (p_tables p) t) (\<lambda>tb. Inr (if t_virtual tb \<or> t \<in> ms then [(fst ie, cols)] else []))) in
      case snd ie of
        OpLet dst (CTable t) aa \<Rightarrow> row t (aa @ [Slot dst])
      | OpSet t aa v \<Rightarrow> row t (aa @ [v])
      | _ \<Rightarrow> Inr [])"

definition carrier_rows :: "template \<Rightarrow> layout option \<Rightarrow> (nat \<times> arg list) list" where
  "carrier_rows t l =
     (case l of None \<Rightarrow> []
      | Some l \<Rightarrow> map (\<lambda>(i, c). (length (tm_ops t) + i, ca_columns c)) (enumerate 0 (l_carriers l)))"

definition export_rows :: "program \<Rightarrow> nat set \<Rightarrow> layout option \<Rightarrow> template \<Rightarrow> (nat \<times> arg list) list res" where
  "export_rows p ms l t = rmap (\<lambda>rows. concat rows @ carrier_rows t l) (rmapM (export_row p ms) (enumerate 0 (tm_ops t)))"

definition slot_sources :: "nat \<Rightarrow> (nat \<times> arg list) list \<Rightarrow> (nat \<times> nat) list" where
  "slot_sources s rows = concat (map (\<lambda>(op, cols). map (\<lambda>ca. (op, fst ca)) (filter (\<lambda>ca. snd ca = Slot s) (enumerate 0 cols))) rows)"

definition row_slots :: "(nat \<times> arg list) list \<Rightarrow> nat list" where
  "row_slots rows = sort (remdups (List.map_filter (\<lambda>a. case a of Slot s \<Rightarrow> Some s | Literal _ \<Rightarrow> None) (concat (map snd rows))))"

definition exports_of_rows :: "(nat \<times> arg list) list \<Rightarrow> (nat \<rightharpoonup> (nat \<times> nat) list)" where
  "exports_of_rows rows = map_of (map (\<lambda>s. (s, slot_sources s rows)) (row_slots rows))"

definition exports_json :: "(nat \<times> arg list) list \<Rightarrow> json" where
  "exports_json rows = JArr (map (\<lambda>s. JObj [(''slot'', JNum (int s)), (''sources'', JArr (map (\<lambda>(op, col).
     JObj [(''column'', JNum (int col)), (''op'', JNum (int op))]) (slot_sources s rows)))]) (row_slots rows))"

type_synonym export_map = "nat \<rightharpoonup> (nat \<rightharpoonup> (nat \<times> nat) list)"

definition parse_exports :: "program \<Rightarrow> json \<Rightarrow> nat set \<Rightarrow> (nat \<rightharpoonup> layout) \<Rightarrow> nat \<times> template \<Rightarrow> export_map \<Rightarrow> export_map res" where
  "parse_exports p j ms ls it ex =
     rbind (export_rows p ms (ls (fst it)) (snd it)) (\<lambda>rows.
     if fst it < length (p_rules p) \<and> jfield (jat (jfield j ''rules'') (fst it)) ''continuation_slots'' \<noteq> exports_json rows
     then Inl (Err ''continuation slot certificate differs'')
     else Inr (ex(fst it \<mapsto> exports_of_rows rows)))"

section \<open>The parser\<close>

definition parse_views :: "program \<Rightarrow> json \<Rightarrow> views res" where
  "parse_views p j =
     (if j = JNull then Inr no_views
      else if jfield j ''schema'' \<noteq> JStr ''eggfuse-reference-views/v1'' \<or>
        jfield j ''recipe_sha256'' \<noteq> jfield (jfield (p_artifact p) ''recipe'') ''sha256''
      then Inl (Err ''reference view recipe mismatch'')
      else
        rbind (j_array (jfield j ''marker_tables'')) (\<lambda>names.
        rbind (rfold (marker_table p) names {}) (\<lambda>ms.
        rbind (j_array (jfield j ''rules'')) (\<lambda>specs.
        if length specs \<noteq> length (p_rules p) then Inl (Err ''missing reference rule'')
        else
          rbind (rfold (parse_layout p j ms) (enumerate 0 (p_rules p)) Map.empty) (\<lambda>ls.
          rbind (rfold (parse_exports p j ms ls) (enumerate 0 (p_templates p)) Map.empty) (\<lambda>ex.
          Inr \<lparr>v_layouts = ls, v_markers = ms, v_exports = ex\<rparr>))))))"

section \<open>What an accepted plan guarantees\<close>

lemma rfold_upd_at:
  assumes "rfold f (enumerate n xs) m = Inr m'"
    and "\<And>i m m'. i < length xs \<Longrightarrow> f (n + i, xs ! i) m = Inr m' \<Longrightarrow> \<exists>v. m' = m(n + i \<mapsto> v) \<and> Q (n + i) (xs ! i) v"
  shows "(\<forall>i < length xs. \<exists>v. m' (n + i) = Some v \<and> Q (n + i) (xs ! i) v) \<and> (\<forall>k < n. m' k = m k)"
  using assms
proof (induction xs arbitrary: n m)
  case (Cons x xs)
  from Cons.prems(1) obtain m1 where one: "f (n, x) m = Inr m1" and rest: "rfold f (enumerate (Suc n) xs) m1 = Inr m'"
    by (auto simp: rbind_eq_Inr)
  from Cons.prems(2) [of 0 m m1] one have "\<exists>v. m1 = m(n \<mapsto> v) \<and> Q n x v" by (simp add: fun_upd_def)
  then obtain v where v: "m1 = m(n \<mapsto> v)" "Q n x v" by blast
  have "\<exists>v. m2 = m(Suc n + i \<mapsto> v) \<and> Q (Suc n + i) (xs ! i) v" if "i < length xs" "f (Suc n + i, xs ! i) m = Inr m2" for i m m2
    using Cons.prems(2) [of "Suc i" m m2] that by (simp add: fun_upd_def)
  with Cons.IH [OF rest] have "\<forall>i < length xs. \<exists>v. m' (Suc n + i) = Some v \<and> Q (Suc n + i) (xs ! i) v" "\<forall>k < Suc n. m' k = m1 k"
    by blast+
  moreover from this(2) v have "m' n = Some v" "\<forall>k < n. m' k = m k" by (simp_all add: less_Suc_eq)
  ultimately show ?case using v(2) by (auto simp: less_Suc_eq_0_disj)
qed simp

text \<open>The atoms whose facts a Cell can stand for: facts of virtual tables and of markers.\<close>

definition stored_atom :: "program \<Rightarrow> nat set \<Rightarrow> atom \<Rightarrow> bool" where
  "stored_atom p ms a \<longleftrightarrow> (case a_call a of CTable t \<Rightarrow> t < length (p_tables p) \<and> (t_virtual (p_tables p ! t) \<or> t \<in> ms) | CPrim _ _ \<Rightarrow> False)"

lemma set_map_filter: "set (List.map_filter f xs) = {y. \<exists>x \<in> set xs. f x = Some y}"
  by (induction xs) (auto split: option.splits)

lemma slot_columns_set: "(s, i, c) \<in> set (slot_columns j cols) \<longleftrightarrow> i = j \<and> c < length cols \<and> cols ! c = Slot s"
  unfolding slot_columns_def set_map_filter
  by (auto simp: in_set_enumerate_eq split: arg.splits intro!: bexI [of _ "(c, Slot s)"])

lemma add_carriers:
  assumes "rfold (add_carrier p ms) (enumerate n query) (ss, cs) = Inr (ss', cs')"
  shows "set ss' = set ss \<union> {(s, n + i, c) | s i c. i < length query \<and> stored_atom p ms (query ! i) \<and>
       c < length (a_args (query ! i)) \<and> a_args (query ! i) ! c = Slot s} \<and>
     set cs' = set cs \<union> {\<lparr>ca_atom = n + i, ca_table = t, ca_columns = a_args (query ! i)\<rparr> | i t.
       i < length query \<and> stored_atom p ms (query ! i) \<and> a_call (query ! i) = CTable t}"
  using assms
proof (induction query arbitrary: n ss cs)
  case (Cons a query)
  from Cons.prems obtain ss1 cs1 where one: "add_carrier p ms (n, a) (ss, cs) = Inr (ss1, cs1)"
    and rest: "rfold (add_carrier p ms) (enumerate (Suc n) query) (ss1, cs1) = Inr (ss', cs')"
    by (auto simp: rbind_eq_Inr)
  have ss1: "set ss1 = set ss \<union> {(s, n, c) | s c. stored_atom p ms a \<and> c < length (a_args a) \<and> a_args a ! c = Slot s}"
    using one by (auto simp: add_carrier_def stored_atom_def slot_columns_set rbind_eq_Inr idx_eq_Inr split: call.splits if_splits)
  have cs1: "set cs1 = set cs \<union> {\<lparr>ca_atom = n, ca_table = t, ca_columns = a_args a\<rparr> | t. stored_atom p ms a \<and> a_call a = CTable t}"
    using one by (auto simp: add_carrier_def stored_atom_def rbind_eq_Inr idx_eq_Inr split: call.splits if_splits)
  show ?case
    unfolding conjunct1 [OF Cons.IH [OF rest]] conjunct2 [OF Cons.IH [OF rest]] ss1 cs1
    by (auto simp: less_Suc_eq_0_disj) 
qed simp

text \<open>What a layout of a rule says, and what the exports of a template say.\<close>

definition layout_good :: "program \<Rightarrow> nat set \<Rightarrow> rule \<Rightarrow> op list \<Rightarrow> layout \<Rightarrow> bool" where
  "layout_good p ms r ops l \<longleftrightarrow> l_reference_only l = reference_only ms ops \<and>
     (\<forall>s i c. l_slots l s = Some (i, c) \<longrightarrow> i < length (r_query r) \<and> stored_atom p ms (r_query r ! i) \<and>
       c < length (a_args (r_query r ! i)) \<and> a_args (r_query r ! i) ! c = Slot s) \<and>
     (\<forall>i < length (r_query r). stored_atom p ms (r_query r ! i) \<longrightarrow>
       (\<forall>s. Slot s \<in> set (a_args (r_query r ! i)) \<longrightarrow> l_slots l s \<noteq> None) \<and>
       (\<exists>ca \<in> set (l_carriers l). ca_atom ca = i \<and> a_call (r_query r ! i) = CTable (ca_table ca))) \<and>
     (\<forall>ca \<in> set (l_carriers l). ca_atom ca < length (r_query r) \<and> stored_atom p ms (r_query r ! ca_atom ca) \<and>
       a_call (r_query r ! ca_atom ca) = CTable (ca_table ca) \<and> ca_columns ca = a_args (r_query r ! ca_atom ca))"

lemma derive_layout_good:
  assumes "derive_layout p ms r = Inr (ss, cs)"
  shows "layout_good p ms r ops \<lparr>l_reference_only = reference_only ms ops, l_slots = map_of ss, l_carriers = cs\<rparr>"
proof -
  from assms obtain ss0 where run: "rfold (add_carrier p ms) (enumerate 0 (r_query r)) ([], []) = Inr (ss0, cs)"
    and ss: "ss = AList.clearjunk ss0" by (auto simp: derive_layout_def rmap_def rbind_eq_Inr)
  note res = conjunct1 [OF add_carriers [OF run], simplified]
  note carriers = conjunct2 [OF add_carriers [OF run], simplified]
  have m: "map_of ss = map_of ss0" by (simp add: ss map_of_clearjunk)
  have dom: "s \<in> fst ` set ss0 \<Longrightarrow> map_of ss0 s \<noteq> None" for s by (simp add: map_of_eq_None_iff)
  show ?thesis
    unfolding layout_good_def layout.simps m
  proof (intro conjI allI impI ballI)
    fix s i c assume "map_of ss0 s = Some (i, c)"
    then have "(s, i, c) \<in> set ss0" by (rule map_of_SomeD)
    then show "i < length (r_query r)" "stored_atom p ms (r_query r ! i)" "c < length (a_args (r_query r ! i))"
      "a_args (r_query r ! i) ! c = Slot s" using res by auto
  next
    fix i s assume i: "i < length (r_query r)" "stored_atom p ms (r_query r ! i)" and "Slot s \<in> set (a_args (r_query r ! i))"
    then obtain c where "c < length (a_args (r_query r ! i))" "a_args (r_query r ! i) ! c = Slot s" by (auto simp: in_set_conv_nth)
    with i have "(s, i, c) \<in> set ss0" using res by auto
    then show "map_of ss0 s \<noteq> None" by (intro dom) force
  next
    fix i assume i: "i < length (r_query r)" "stored_atom p ms (r_query r ! i)"
    then obtain t where "a_call (r_query r ! i) = CTable t" by (auto simp: stored_atom_def split: call.splits)
    with i carriers show "\<exists>ca \<in> set cs. ca_atom ca = i \<and> a_call (r_query r ! i) = CTable (ca_table ca)" by fastforce
  next
    fix ca assume "ca \<in> set cs"
    then obtain i t where "i < length (r_query r)" "stored_atom p ms (r_query r ! i)" "a_call (r_query r ! i) = CTable t"
      "ca = \<lparr>ca_atom = i, ca_table = t, ca_columns = a_args (r_query r ! i)\<rparr>" unfolding carriers by blast
    then show "ca_atom ca < length (r_query r)" "stored_atom p ms (r_query r ! ca_atom ca)"
      "a_call (r_query r ! ca_atom ca) = CTable (ca_table ca)" "ca_columns ca = a_args (r_query r ! ca_atom ca)" by simp_all
  qed (rule refl)
qed

lemma parse_layout_good:
  assumes "parse_layout p j ms (rid, r) ls = Inr ls'"
  shows "\<exists>l. ls' = ls(r_template r \<mapsto> l) \<and> layout_good p ms r (tm_ops (p_templates p ! r_template r)) l"
  using assms
  by (auto simp: parse_layout_def Let_def rbind_eq_Inr idx_eq_Inr split: if_splits intro!: derive_layout_good)

definition exports_good :: "program \<Rightarrow> nat set \<Rightarrow> layout option \<Rightarrow> template \<Rightarrow> (nat \<rightharpoonup> (nat \<times> nat) list) \<Rightarrow> bool" where
  "exports_good p ms l t ex \<longleftrightarrow> (\<forall>s srcs op c. ex s = Some srcs \<longrightarrow> (op, c) \<in> set srcs \<longrightarrow>
     (\<exists>cols. c < length cols \<and> cols ! c = Slot s \<and>
       (op < length (tm_ops t) \<and> (\<exists>dst tb aa. tm_ops t ! op = OpLet dst (CTable tb) aa \<and> cols = aa @ [Slot dst] \<or>
          (\<exists>v. tm_ops t ! op = OpSet tb aa v \<and> cols = aa @ [v])) \<or>
        (\<exists>l' i. l = Some l' \<and> op = length (tm_ops t) + i \<and> i < length (l_carriers l') \<and> cols = ca_columns (l_carriers l' ! i)))))"

lemma export_row_at:
  assumes "export_row p ms (i, e) = Inr rows" "(op, cols) \<in> set rows"
  shows "op = i \<and> (\<exists>dst tb aa. e = OpLet dst (CTable tb) aa \<and> cols = aa @ [Slot dst] \<or> (\<exists>v. e = OpSet tb aa v \<and> cols = aa @ [v]))"
  using assms by (cases e) (auto simp: export_row_def rbind_eq_Inr split: call.splits if_splits)

lemma parse_exports_good:
  assumes "parse_exports p j ms ls (i, t) ex = Inr ex'"
  shows "\<exists>e. ex' = ex(i \<mapsto> e) \<and> exports_good p ms (ls i) t e"
proof -
  from assms obtain rows where rows: "export_rows p ms (ls i) t = Inr rows" and ex': "ex' = ex(i \<mapsto> exports_of_rows rows)"
    by (auto simp: parse_exports_def rbind_eq_Inr split: if_splits)
  from rows obtain rs where rs: "rmapM (export_row p ms) (enumerate 0 (tm_ops t)) = Inr rs" and r: "rows = concat rs @ carrier_rows t (ls i)"
    by (auto simp: export_rows_def rmap_def rbind_eq_Inr)
  have at: "op < length (tm_ops t) \<and> (\<exists>dst tb aa. tm_ops t ! op = OpLet dst (CTable tb) aa \<and> cols = aa @ [Slot dst] \<or>
          (\<exists>v. tm_ops t ! op = OpSet tb aa v \<and> cols = aa @ [v])) \<or>
        (\<exists>l' k. ls i = Some l' \<and> op = length (tm_ops t) + k \<and> k < length (l_carriers l') \<and> cols = ca_columns (l_carriers l' ! k))"
    if "(op, cols) \<in> set rows" for op cols
  proof (cases "(op, cols) \<in> set (concat rs)")
    case True
    then obtain row where row: "row \<in> set rs" "(op, cols) \<in> set row" by auto
    from rmapM_mem [OF rs row(1)] obtain k e where "(k, e) \<in> set (enumerate 0 (tm_ops t))" "export_row p ms (k, e) = Inr row"
      by auto
    with export_row_at [OF this(2) row(2)] show ?thesis by (auto simp: in_set_enumerate_eq)
  next
    case False
    with that r show ?thesis by (auto simp: carrier_rows_def in_set_enumerate_eq split: option.splits)
  qed
  have "exports_good p ms (ls i) t (exports_of_rows rows)"
    unfolding exports_good_def
  proof (intro allI impI)
    fix s srcs op c assume "exports_of_rows rows s = Some srcs" "(op, c) \<in> set srcs"
    then have "(op, c) \<in> set (slot_sources s rows)"
      by (auto simp: exports_of_rows_def map_of_map_restrict restrict_map_def split: if_splits dest!: map_of_SomeD)
    then obtain cols where "(op, cols) \<in> set rows" "c < length cols" "cols ! c = Slot s"
      by (auto simp: slot_sources_def in_set_enumerate_eq)
    with at [OF this(1)] show "\<exists>cols. c < length cols \<and> cols ! c = Slot s \<and>
       (op < length (tm_ops t) \<and> (\<exists>dst tb aa. tm_ops t ! op = OpLet dst (CTable tb) aa \<and> cols = aa @ [Slot dst] \<or>
          (\<exists>v. tm_ops t ! op = OpSet tb aa v \<and> cols = aa @ [v])) \<or>
        (\<exists>l' k. ls i = Some l' \<and> op = length (tm_ops t) + k \<and> k < length (l_carriers l') \<and> cols = ca_columns (l_carriers l' ! k)))"
      by blast
  qed
  with ex' show ?thesis by blast
qed


section \<open>What an accepted document says\<close>

lemma parse_views_good:
  assumes "parse_views p j = Inr v" "j \<noteq> JNull" "wf_program p"
  shows "i < length (p_rules p) \<Longrightarrow> \<exists>l. v_layouts v i = Some l \<and>
      layout_good p (v_markers v) (p_rules p ! i) (tm_ops (p_templates p ! i)) l"
    and "i < length (p_templates p) \<Longrightarrow> \<exists>e. v_exports v i = Some e \<and>
      exports_good p (v_markers v) (v_layouts v i) (p_templates p ! i) e"
proof -
  from assms(1,2) obtain names ms ls ex where
    ls: "rfold (parse_layout p j ms) (enumerate 0 (p_rules p)) Map.empty = Inr ls" and
    ex: "rfold (parse_exports p j ms ls) (enumerate 0 (p_templates p)) Map.empty = Inr ex" and
    v: "v = \<lparr>v_layouts = ls, v_markers = ms, v_exports = ex\<rparr>"
    by (auto simp: parse_views_def rbind_eq_Inr split: if_splits)
  have "\<exists>l. m' = m(0 + k \<mapsto> l) \<and> layout_good p ms (p_rules p ! k) (tm_ops (p_templates p ! (0 + k))) l"
    if "k < length (p_rules p)" "parse_layout p j ms (0 + k, p_rules p ! k) m = Inr m'" for k m m'
    using parse_layout_good [OF that(2)] assms(3) that(1) by (simp add: wf_program_def)
  from rfold_upd_at [OF ls this] v
  show "i < length (p_rules p) \<Longrightarrow> \<exists>l. v_layouts v i = Some l \<and>
      layout_good p (v_markers v) (p_rules p ! i) (tm_ops (p_templates p ! i)) l" by simp
  have "\<exists>e. m' = m(0 + k \<mapsto> e) \<and> exports_good p ms (ls (0 + k)) (p_templates p ! k) e"
    if "k < length (p_templates p)" "parse_exports p j ms ls (0 + k, p_templates p ! k) m = Inr m'" for k m m'
    using parse_exports_good [OF that(2)] by simp
  from rfold_upd_at [OF ex this] v
  show "i < length (p_templates p) \<Longrightarrow> \<exists>e. v_exports v i = Some e \<and>
      exports_good p (v_markers v) (v_layouts v i) (p_templates p ! i) e" by simp
qed

section \<open>Reads that do not meet a Cell\<close>

text \<open>Every reference is to a Cell below the next number, and a relocation goes upwards.\<close>

definition cell_below :: "nat \<Rightarrow> cell \<Rightarrow> bool" where
  "cell_below n c \<longleftrightarrow> (\<forall>f. c_parent c = Some f \<longrightarrow> fst f < n) \<and> (\<forall>a f. c_providers c a = Some f \<longrightarrow> fst f < n)"

definition references_below :: "nat \<Rightarrow> graph \<Rightarrow> bool" where
  "references_below n g \<longleftrightarrow> (\<forall>k c. k < n \<longrightarrow> g_cells g k = Some c \<longrightarrow> cell_below n c) \<and>
     (\<forall>f m. g_fact_forwards g f = Some m \<longrightarrow> fst f < fst m \<and> fst m < n)"

lemma resolve_below:
  assumes "\<And>f m. fw f = Some m \<Longrightarrow> fst f < fst m \<and> fst m < n" "fst f < n"
  shows "fst (resolve fw f) < n"
  unfolding resolve_def
proof (rule while_rule [where P = "\<lambda>f. fst f < n" and r = "measure (\<lambda>f. n - fst f)"])
  fix f assume "fst f < n" "fw f \<noteq> None"
  then show "fst (the (fw f)) < n" "(the (fw f), f) \<in> measure (\<lambda>f. n - fst f)" using assms(1) by fastforce+
qed (use assms(2) in auto)

lemma reference_below: "references_below n g \<Longrightarrow> fst f < n \<Longrightarrow> fst (resolve_reference g f) < n"
  unfolding resolve_reference_def references_below_def by (rule resolve_below) blast+

definition same_but :: "nat \<Rightarrow> graph \<Rightarrow> graph \<Rightarrow> bool" where
  "same_but cid g h \<longleftrightarrow> g_program h = g_program g \<and> g_parents h = g_parents g \<and> g_known_mode h = g_known_mode g \<and>
     g_fact_forwards h = g_fact_forwards g \<and> g_fuel h = g_fuel g \<and> (\<forall>k. k \<noteq> cid \<longrightarrow> g_cells h k = g_cells g k)"

fun request_below :: "nat \<Rightarrow> request \<Rightarrow> bool" where
  "request_below n (RArgIn k c a) \<longleftrightarrow> cell_below n c"
| "request_below n (RSlotIn k c i) \<longleftrightarrow> cell_below n c"
| "request_below n (RColumn f col) \<longleftrightarrow> fst f < n"
| "request_below n (RArg k a) \<longleftrightarrow> k < n"

lemma read_same:
  assumes "same_but cid g h" "references_below cid g" "request_below cid r"
  shows "read n h r = read n g r"
  using assms(3)
proof (induction n arbitrary: r)
  case (Suc n)
  have s: "g_program h = g_program g" "g_parents h = g_parents g" "g_known_mode h = g_known_mode g"
    "g_fact_forwards h = g_fact_forwards g" "\<And>k. k < cid \<Longrightarrow> g_cells h k = g_cells g k"
    using assms(1) by (auto simp: same_but_def)
  show ?case
  proof (cases r)
    case (RArgIn k c a)
    then show ?thesis using Suc by (auto simp: argument_in_step_def s split: arg.splits)
  next
    case (RSlotIn k c i)
    with Suc.prems have "cell_below cid c" by simp
    then have below: "\<And>f. c_parent c = Some f \<Longrightarrow> fst f < cid" "\<And>a f. c_providers c a = Some f \<Longrightarrow> fst f < cid"
      unfolding cell_below_def by blast+
    have "provider_slot h c i = provider_slot g c i" "static_slot h c i = static_slot g c i"
      by (simp_all add: provider_slot_def static_slot_def s)
    moreover have "fst (fst x) < cid" if "provider_slot g c i = Some x" for x
      using that below(2) by (auto simp: provider_slot_def split: option.splits prod.splits)
    moreover have "fst (fst x) < cid" if "parent_slot c t i = Some x" for t x
      using that below(1) by (auto simp: parent_slot_def split: option.splits)
    ultimately show ?thesis using RSlotIn Suc
      by (auto simp: slot_in_step_def defined_slot_def s intro!: rbind_cong split: option.splits op.splits call.splits)
  next
    case (RColumn f col)
    have f: "fst (resolve_reference g f) < cid" using assms(2) Suc.prems RColumn by (simp add: reference_below)
    have "resolve_reference h f = resolve_reference g f" by (simp add: resolve_reference_def s)
    moreover have "carrier_of h (resolve_reference g f) = carrier_of g (resolve_reference g f)"
      by (simp add: carrier_of_def carrier_at_def s(1) s(5) [OF f] split: option.split)
    ultimately show ?thesis using RColumn f Suc.IH
      by (auto simp: fact_column_step_def Let_def s(1) s(5) [OF f] intro!: rbind_cong split: option.splits)
  next
    case (RArg k a)
    have "cell_below cid c" if "g_cells g k = Some c" for c
      using assms(2) that Suc.prems RArg by (auto simp: references_below_def)
    then show ?thesis using RArg Suc
      by (auto simp: argument_step_def s ok_or_def intro!: rbind_cong split: arg.splits option.splits)
  qed
qed simp


section \<open>Reference frames\<close>

text \<open>
  The frame while its handles are taken: the values are all there, and every handle reads at each of its
  columns the value of the slot that stands there.
\<close>

definition provides :: "graph \<Rightarrow> (nat \<rightharpoonup> val) \<Rightarrow> carrier \<Rightarrow> fact_ref \<Rightarrow> bool" where
  "provides g vals ca f \<longleftrightarrow> (\<forall>k s x. k < length (ca_columns ca) \<longrightarrow> ca_columns ca ! k = Slot s \<longrightarrow> vals s = Some x \<longrightarrow>
     fact_column g f k = Inr (canon_in g x))"

definition taking :: "graph \<Rightarrow> nat \<Rightarrow> nat \<Rightarrow> (nat \<rightharpoonup> val) \<Rightarrow> carrier set \<Rightarrow> graph \<Rightarrow> bool" where
  "taking g cid t vals cs h \<longleftrightarrow> same_but cid g h \<and> g_next_cell h = Suc cid \<and>
     (\<exists>c. g_cells h cid = Some c \<and> c_template c = t \<and> c_values c = vals \<and> c_parent c = None \<and>
       (\<forall>a f. c_providers c a = Some f \<longrightarrow> fst f < cid \<and> (\<exists>ca \<in> cs. ca_atom ca = a \<and> provides g vals ca f)))"

lemma rmapM_nth: "rmapM f xs = Inr ys \<Longrightarrow> i < length xs \<Longrightarrow> f (xs ! i) = Inr (ys ! i)"
  using rmapM_Inr list_all2_nthD by fast

lemma stored_argument:
  assumes "g_cells h k = Some c" "c_values c s = Some x" "argument h k (Slot s) = Inr y"
  shows "y = canon_in h x"
proof -
  from assms(3) obtain n where "g_fuel h = Suc n" by (cases "g_fuel h") (auto simp: argument_def)
  with assms show ?thesis by (cases n) (auto simp: argument_def argument_step_def slot_in_step_def)
qed

lemma take_carrier_taking:
  assumes "take_carrier cid ws ca h = Inr h'" "taking g cid t vals cs h" "ca \<in> cs" "references_below cid g"
    and "\<And>a f. matched_get ws a = Some (DFact f) \<Longrightarrow> fst f < cid"
  shows "taking g cid t vals cs h'"
proof (cases "\<exists>f0. matched_get ws (ca_atom ca) = Some (DFact f0)")
  case False
  then have "take_carrier cid ws ca h = Inr h"
    by (auto simp: take_carrier_def split: option.split dependency.split)
  with assms(1,2) show ?thesis by simp
next
  case True
  then obtain f0 where f0: "matched_get ws (ca_atom ca) = Some (DFact f0)" ..
  from assms(2) obtain c where same: "same_but cid g h" and nx: "g_next_cell h = Suc cid" and
    c: "g_cells h cid = Some c" "c_template c = t" "c_values c = vals" "c_parent c = None" and
    ps: "\<forall>a f. c_providers c a = Some f \<longrightarrow> fst f < cid \<and> (\<exists>ca \<in> cs. ca_atom ca = a \<and> provides g vals ca f)"
    by (auto simp: taking_def)
  have fwd: "resolve_reference h f = resolve_reference g f" for f using same by (simp add: resolve_reference_def same_but_def)
  let ?f = "resolve_reference g f0"
  have f: "fst ?f < cid" by (rule reference_below [OF assms(4)]) (rule assms(5) [OF f0])
  from assms(1) f0 obtain expected where args: "arguments h cid (ca_columns ca) = Inr expected"
    and cols: "rmapM (fact_column h ?f) [0..<length expected] = Inr expected"
    and h': "h' = retain_reference ?f (h\<lparr>g_cells := (g_cells h)(cid \<mapsto> c\<lparr>c_providers := (c_providers c)(ca_atom ca \<mapsto> ?f)\<rparr>)\<rparr>)"
    by (auto simp: take_carrier_def Let_def fwd rbind_eq_Inr modify_cell_def c(1) split: if_splits)
  have "provides g vals ca ?f"
    unfolding provides_def
  proof (intro allI impI)
    fix k s x assume k: "k < length (ca_columns ca)" "ca_columns ca ! k = Slot s" "vals s = Some x"
    have l: "length expected = length (ca_columns ca)" using args by (simp add: arguments_def rmapM_length)
    have "argument h cid (Slot s) = Inr (expected ! k)"
      using rmapM_nth [OF args [unfolded arguments_def] k(1)] k(2) by simp
    then have e: "expected ! k = canon_in g x"
      using stored_argument [OF c(1), of s x "expected ! k"] c(3) k(3) same by (simp add: same_but_def)
    have "fact_column h ?f k = Inr (expected ! k)" using rmapM_nth [OF cols, of k] k(1) l by simp
    then show "fact_column g ?f k = Inr (canon_in g x)"
      using read_same [OF same assms(4), of "RColumn ?f k"] f same by (simp add: fact_column_def e same_but_def)
  qed
  with ps f assms(3) have "\<forall>a f. ((c_providers c)(ca_atom ca \<mapsto> ?f)) a = Some f \<longrightarrow>
      fst f < cid \<and> (\<exists>ca \<in> cs. ca_atom ca = a \<and> provides g vals ca f)" by auto
  then show ?thesis using same nx c unfolding h' taking_def
    by (auto simp: retain_reference_def Let_def same_but_def)
qed

lemma take_carriers_taking:
  assumes "rfold (take_carrier cid ws) cas h = Inr h'" "taking g cid t vals cs h" "set cas \<subseteq> cs" "references_below cid g"
    and "\<And>a f. matched_get ws a = Some (DFact f) \<Longrightarrow> fst f < cid"
  shows "taking g cid t vals cs h'"
  using assms(1-3)
proof (induction cas arbitrary: h)
  case (Cons ca cas)
  then show ?case using take_carrier_taking [OF _ _ _ assms(4,5)] by (auto simp: rbind_eq_Inr)
qed simp


lemma frame_taking:
  assumes "frame t vals g = Inr (h, cid)"
  shows "cid = g_next_cell g \<and> taking g cid t vals cs h"
proof -
  from assms have "cid = g_next_cell g" and h: "h = g\<lparr>g_next_cell := Suc cid, g_cells := (g_cells g)(cid \<mapsto>
      \<lparr>c_known_results = Map.empty, c_completed_prefix = 0, c_started_epoch = g_epoch g, c_completed = False, c_template = t,
        c_parent = None, c_values = vals, c_facts = Map.empty, c_recipe_depth = 0, c_providers = Map.empty\<rparr>)\<rparr>"
    by (auto simp: frame_def linked_frame_def reserve_cell_id_def new_cell_def store_cell_def Let_def rbind_eq_Inr split: if_splits)
  then show ?thesis by (auto simp: taking_def same_but_def)
qed

lemma dropped_reads:
  assumes "taking g cid t vals (set (l_carriers l)) h" "references_below cid g" "vals s = Some x"
    and "v_layouts (p_views (g_program g)) t = Some l"
    and "\<And>s i c ca. l_slots l s = Some (i, c) \<Longrightarrow> ca \<in> set (l_carriers l) \<Longrightarrow> ca_atom ca = i \<Longrightarrow>
      c < length (ca_columns ca) \<and> ca_columns ca ! c = Slot s"
    and "modify_cell cid (drop_projected l) h = Inr h'"
  shows "read (Suc (Suc (g_fuel g))) h' (RArg cid (Slot s)) = Inr (canon_in g x)"
proof -
  from assms(1) obtain c where same: "same_but cid g h" and c: "g_cells h cid = Some c" "c_template c = t" "c_values c = vals"
    and ps: "\<forall>a f. c_providers c a = Some f \<longrightarrow> fst f < cid \<and> (\<exists>ca \<in> set (l_carriers l). ca_atom ca = a \<and> provides g vals ca f)"
    by (auto simp: taking_def)
  let ?c = "drop_projected l c"
  from assms(6) c(1) have h': "h' = h\<lparr>g_cells := (g_cells h)(cid \<mapsto> ?c)\<rparr>" by (simp add: modify_cell_def)
  have same': "same_but cid g h'" using same by (simp add: h' same_but_def)
  have prov: "c_providers ?c = c_providers c" "c_template ?c = t" by (simp_all add: drop_projected_def c(2))
  show ?thesis
  proof (cases "\<exists>i k f. l_slots l s = Some (i, k) \<and> c_providers c i = Some f")
    case True
    then obtain i k f where s: "l_slots l s = Some (i, k)" "c_providers c i = Some f" by blast
    with ps obtain ca where ca: "fst f < cid" "ca \<in> set (l_carriers l)" "ca_atom ca = i" "provides g vals ca f" by blast
    from assms(5) [OF s(1) ca(2,3)] have "c_values ?c s = None" "fact_column g f k = Inr (canon_in g x)"
      using ca(4) assms(3) s by (auto simp: provides_def drop_projected_def)
    moreover have "provider_slot h' ?c s = Some (f, k)"
      using same' s assms(4) by (simp add: provider_slot_def prov same_but_def)
    moreover have "read (g_fuel g) h' (RColumn f k) = fact_column g f k"
      unfolding fact_column_def by (rule read_same [OF same' assms(2)]) (simp add: ca(1))
    ultimately show ?thesis by (simp add: argument_step_def h' slot_in_step_def)
  next
    case False
    then have "c_values ?c s = Some x" using assms(3) c(3) by (auto simp: drop_projected_def split: option.split)
    with same show ?thesis by (simp add: argument_step_def h' slot_in_step_def same_but_def)
  qed
qed

lemma drop_taking:
  assumes "taking g cid t vals cs h" "modify_cell cid (drop_projected l) h = Inr h'"
  shows "\<exists>vals'. taking g cid t vals' cs h'"
proof -
  from assms(1) obtain c where same: "same_but cid g h" and nx: "g_next_cell h = Suc cid"
    and c: "g_cells h cid = Some c" "c_template c = t" "c_values c = vals" "c_parent c = None"
    and ps: "\<forall>a f. c_providers c a = Some f \<longrightarrow> fst f < cid \<and> (\<exists>ca \<in> cs. ca_atom ca = a \<and> provides g vals ca f)"
    by (auto simp: taking_def)
  let ?c = "drop_projected l c"
  have less: "c_values ?c s = Some x \<Longrightarrow> vals s = Some x" for s x
    using c(3) by (auto simp: drop_projected_def split: option.splits if_splits)
  have kept: "c_template ?c = t" "c_parent ?c = None" "c_providers ?c = c_providers c" using c by (simp_all add: drop_projected_def)
  have "provides g (c_values ?c) ca f" if "provides g vals ca f" for ca f
    using that less unfolding provides_def by blast
  with ps have "\<forall>a f. c_providers ?c a = Some f \<longrightarrow> fst f < cid \<and> (\<exists>ca \<in> cs. ca_atom ca = a \<and> provides g (c_values ?c) ca f)"
    unfolding kept by blast
  moreover from assms(2) c(1) have "h' = h\<lparr>g_cells := (g_cells h)(cid \<mapsto> ?c)\<rparr>" by (simp add: modify_cell_def)
  ultimately have "taking g cid t (c_values ?c) cs h'" using same nx kept unfolding taking_def by (auto simp: same_but_def)
  then show ?thesis by blast
qed

lemma taking_below:
  assumes "taking g cid t vals cs h" "references_below cid g"
  shows "references_below (Suc cid) h"
proof -
  from assms(1) obtain c where same: "same_but cid g h" and c: "g_cells h cid = Some c" "cell_below cid c"
    unfolding taking_def cell_below_def by (metis option.distinct(1))
  have up: "cell_below cid c' \<Longrightarrow> cell_below (Suc cid) c'" for c'
    unfolding cell_below_def using less_SucI by blast
  have "cell_below (Suc cid) c'" if "k < Suc cid" "g_cells h k = Some c'" for k c'
  proof (cases "k = cid")
    case False
    with that same have "k < cid" "g_cells g k = Some c'" by (auto simp: same_but_def)
    with assms(2) show ?thesis by (intro up) (auto simp: references_below_def)
  qed (use that c up in auto)
  moreover have "g_fact_forwards h f = Some m \<Longrightarrow> fst f < fst m \<and> fst m < Suc cid" for f m
    using same assms(2) unfolding same_but_def references_below_def by (metis less_SucI)
  ultimately show ?thesis by (simp add: references_below_def)
qed

section \<open>Properties\<close>

text \<open>
  C13. References instead of copies lose nothing. Under an accepted document of reference views the frame of a
  rule's binding may keep handles to the matched facts and drop the values that they provide: every slot that
  the binding gives a value is still read, with two more calls than the columns that were checked, as that
  value, in its canonical form. And the references of the new graph stay below its Cell number.
\<close>

theorem reference_frames_lossless:
  assumes "parse_views p j = Inr v" "j \<noteq> JNull" "wf_program p"
    and "p_views (g_program g) = v" "p_templates (g_program g) = p_templates p" "i < length (p_rules p)"
    and "g_views_enabled g" "v_layouts v i = Some l" "l_reference_only l"
    and "reference_frame i vals parent ws g = Inr (h, cid)"
    and "references_below (g_next_cell g) g" "\<And>a f. matched_get ws a = Some (DFact f) \<Longrightarrow> fst f < g_next_cell g"
  shows "(\<forall>s x. vals s = Some x \<longrightarrow> read (Suc (Suc (g_fuel g))) h (RArg cid (Slot s)) = Inr (canon_in g x)) \<and>
    references_below (g_next_cell h) h"
proof -
  from parse_views_good(1) [OF assms(1-3,6)] assms(8)
  have good: "layout_good p (v_markers v) (p_rules p ! i) (tm_ops (p_templates p ! i)) l" by simp
  have at: "c < length (ca_columns ca) \<and> ca_columns ca ! c = Slot s"
    if "l_slots l s = Some (k, c)" "ca \<in> set (l_carriers l)" "ca_atom ca = k" for s k c ca
    using good that by (auto simp: layout_good_def)
  let ?cs = "set (l_carriers l)"
  show ?thesis
  proof (cases "g_marker_fields_copied g")
    case True
    with assms(4,7-10) have "frame i vals g = Inr (h, cid)" by (simp add: reference_frame_def)
    from frame_taking [OF this] have cid: "cid = g_next_cell g" and t: "taking g cid i vals {} h" by auto
    then obtain c where c: "g_cells h cid = Some c" "c_values c = vals" "g_parents h = g_parents g" "g_next_cell h = Suc cid"
      by (auto simp: taking_def same_but_def)
    then have "read (Suc (Suc (g_fuel g))) h (RArg cid (Slot s)) = Inr (canon_in g x)" if "vals s = Some x" for s x
      using that by (simp add: argument_step_def slot_in_step_def)
    with taking_below [OF t] assms(11) c(4) cid show ?thesis by simp
  next
    case False
    with assms(4,7-10) obtain g1 g2 where fr: "frame i vals g = Inr (g1, cid)"
      and take: "rfold (take_carrier cid ws) (l_carriers l) g1 = Inr g2" and drop: "modify_cell cid (drop_projected l) g2 = Inr h"
      by (auto simp: reference_frame_def rbind_eq_Inr)
    from frame_taking [OF fr] have cid: "cid = g_next_cell g" and t1: "taking g cid i vals ?cs g1" by auto
    have t2: "taking g cid i vals ?cs g2" using take_carriers_taking [OF take t1] assms(11,12) cid by simp
    obtain vals' where t3: "taking g cid i vals' ?cs h" using drop_taking [OF t2 drop] by blast
    then have "g_next_cell h = Suc cid" by (simp add: taking_def)
    with taking_below [OF t3] assms(11) cid have "references_below (g_next_cell h) h" by simp
    with dropped_reads [OF t2 _ _ _ at drop] assms(4,8,11) cid show ?thesis by simp
  qed
qed


text \<open>The rule \<open>r(a, b) \<Longrightarrow> m(a)\<close> with the marker \<open>m\<close>, and the fact \<open>r(5, 7)\<close>.\<close>

definition view_rule :: rule where
  "view_rule = \<lparr>r_constructor_only = False, r_template = 0,
     r_query = [\<lparr>a_call = CTable 0, a_args = [Slot 0, Slot 1, Literal (VInt 0)]\<rparr>], r_inputs = [0, 1], r_seminaive = True, r_direct = Some 0\<rparr>"

definition view_tables :: "table list" where
  "view_tables = [\<lparr>t_name = ''r'', t_schema = [eq_sort, eq_sort, unit_sort], t_constructor = False, t_virtual = True,
      t_merge = JNull, t_internal = False\<rparr>,
    \<lparr>t_name = ''m'', t_schema = [eq_sort, unit_sort], t_constructor = False, t_virtual = False,
      t_merge = JObj [(''var'', JStr ''old'')], t_internal = False\<rparr>]"

definition view_program :: program where
  "view_program = \<lparr>p_known_results = no_known, p_merge_programs = no_merges, p_views = no_views,
     p_congruence = no_congruence, p_tables = view_tables,
     p_templates = \<lparr>tm_name = ''mark'', tm_sorts = [eq_sort, eq_sort], tm_defs = Map.empty,
       tm_ops = [OpSet 1 [Slot 0] (Literal (VInt 0))], tm_parent_columns = Map.empty\<rparr> #
       map (\<lambda>i. import_template i (view_tables ! i)) [0..<2],
     p_rules = [view_rule], p_sets = [''m'' \<mapsto> [0]], p_control = [], p_initial = [], p_table_templates = [1, 2],
     p_artifact = JObj [(''recipe'', JObj [(''sha256'', JStr ''d1'')])]\<rparr>"

definition view_document :: json where
  "view_document = JObj [(''marker_tables'', JArr [JStr ''m'']), (''recipe_sha256'', JStr ''d1''),
     (''rules'', JArr [JObj [
       (''carriers'', JArr [JObj [(''atom'', JNum 0), (''columns'', JArr [slot_ref 0, slot_ref 1, unit_literal]), (''table'', JStr ''r'')]]),
       (''continuation_slots'', JArr [
         JObj [(''slot'', JNum 0), (''sources'', JArr [JObj [(''column'', JNum 0), (''op'', JNum 0)], JObj [(''column'', JNum 0), (''op'', JNum 1)]])],
         JObj [(''slot'', JNum 1), (''sources'', JArr [JObj [(''column'', JNum 1), (''op'', JNum 1)]])]]),
       (''rule'', JNum 0),
       (''slots'', JArr [JObj [(''atom'', JNum 0), (''column'', JNum 0), (''slot'', JNum 0)],
         JObj [(''atom'', JNum 0), (''column'', JNum 1), (''slot'', JNum 1)]]),
       (''storage'', JStr ''reference-view'')]]),
     (''schema'', JStr ''eggfuse-reference-views/v1'')]"

definition view_result :: views where
  "view_result = projr (parse_views view_program view_document)"

lemma view_parses: "parse_views view_program view_document = Inr view_result"
proof -
  have "\<not> isl (parse_views view_program view_document)" by code_simp
  then show ?thesis by (cases "parse_views view_program view_document") (simp_all add: view_result_def)
qed

lemma view_wf: "wf_program view_program"
  by (auto simp: wf_program_def view_program_def view_tables_def view_rule_def wf_rule_def Let_def ssa_defs_def well_scoped_def
      slots_in_def wf_query_atom_def less_Suc_eq upt_rec nth_Cons' split: if_splits)

definition view_fact :: cell where
  "view_fact = \<lparr>c_known_results = Map.empty, c_completed_prefix = 1, c_started_epoch = 0, c_completed = True, c_template = 1,
     c_parent = None, c_values = [0 \<mapsto> VEq 5, 1 \<mapsto> VEq 7, 2 \<mapsto> VInt 0], c_facts = [0 \<mapsto> \<lparr>fs_marker_row = None, fs_entry = None,
       fs_hidden = False, fs_epoch = 0, fs_born = 0, fs_hash = 0\<rparr>], c_recipe_depth = 0, c_providers = Map.empty\<rparr>"

definition view_graph :: graph where
  "view_graph = (empty_graph demo_host (\<lambda>t k. 0) 8 (\<lambda>_. None) (view_program\<lparr>p_views := view_result\<rparr>) True False KOff)
     \<lparr>g_cells := [1 \<mapsto> view_fact], g_next_cell := 2\<rparr>"

definition view_frame :: "(graph \<times> nat) res" where
  "view_frame = reference_frame 0 [0 \<mapsto> VEq 5, 1 \<mapsto> VEq 7] None (MFRows [Some (DFact (1, 0))]) view_graph"

lemma view_frame_ok: "case view_frame of Inl e \<Rightarrow> False | Inr (h, cid) \<Rightarrow> cid = 2 \<and> c_values (the (g_cells h 2)) 0 = None"
  by code_simp


lemma reference_frames_lossless_witness:
  "\<exists>h. view_frame = Inr (h, 2) \<and> c_values (the (g_cells h 2)) 0 = None \<and> read 10 h (RArg 2 (Slot 0)) = Inr (VEq 5)"
proof -
  from view_frame_ok obtain h where run: "view_frame = Inr (h, 2)" and gone: "c_values (the (g_cells h 2)) 0 = None"
    by (auto split: sum.splits)
  have fields: "p_views (g_program view_graph) = view_result" "p_templates (g_program view_graph) = p_templates view_program"
    "g_views_enabled view_graph" "g_next_cell view_graph = 2" "g_fuel view_graph = 8" "g_parents view_graph = Map.empty"
    "g_cells view_graph = [1 \<mapsto> view_fact]" "g_fact_forwards view_graph = Map.empty"
    by (simp_all add: view_graph_def empty_graph_def Let_def)
  have one: "0 < length (p_rules view_program)" "view_document \<noteq> JNull" by (simp_all add: view_program_def view_document_def)
  from parse_views_good(1) [OF view_parses one(2) view_wf one(1)] obtain l where l: "v_layouts view_result 0 = Some l" by blast
  have "case v_layouts view_result 0 of None \<Rightarrow> False | Some l \<Rightarrow> l_reference_only l" by code_simp
  with l have only: "l_reference_only l" by simp
  have below: "references_below (g_next_cell view_graph) view_graph"
    by (auto simp: references_below_def fields cell_below_def view_fact_def split: if_splits)
  have handles: "fst f < g_next_cell view_graph" if "matched_get (MFRows [Some (DFact (1, 0))]) a = Some (DFact f)" for a f
    using that by (cases a) (auto simp: fields get_at_def split: if_splits)
  from reference_frames_lossless [OF view_parses one(2) view_wf fields(1,2) one(1) fields(3) l only run [unfolded view_frame_def] below handles]
  have "read 10 h (RArg 2 (Slot 0)) = Inr (VEq 5)" by (auto simp: fields)
  with run gone show ?thesis by blast
qed

text \<open>
  Reading does not look at the facts of a Cell: two graphs that differ only in them, in the indexes and in
  the events give every request the same answer.
\<close>

definition erase_facts :: "cell \<Rightarrow> cell" where
  "erase_facts c = c\<lparr>c_facts := Map.empty\<rparr>"

definition facts_aside :: "graph \<Rightarrow> graph \<Rightarrow> bool" where
  "facts_aside g h \<longleftrightarrow> g_program h = g_program g \<and> g_parents h = g_parents g \<and> g_known_mode h = g_known_mode g \<and>
     g_fact_forwards h = g_fact_forwards g \<and> (\<forall>i. map_option erase_facts (g_cells h i) = map_option erase_facts (g_cells g i))"

fun erase_request :: "request \<Rightarrow> request" where
  "erase_request (RArgIn i c a) = RArgIn i (erase_facts c) a"
| "erase_request (RSlotIn i c s) = RSlotIn i (erase_facts c) s"
| "erase_request r = r"

lemma erase_facts_eq:
  assumes "erase_facts c = erase_facts c'"
  shows "c_template c = c_template c'" "c_values c = c_values c'" "c_providers c = c_providers c'" "c_parent c = c_parent c'"
  using arg_cong [OF assms, of c_template] arg_cong [OF assms, of c_values] arg_cong [OF assms, of c_providers]
    arg_cong [OF assms, of c_parent] by (simp_all add: erase_facts_def)

lemma facts_aside_cell:
  "facts_aside g h \<Longrightarrow> rel_option (\<lambda>c d. erase_facts c = erase_facts d) (g_cells h i) (g_cells g i)"
  unfolding facts_aside_def by (cases "g_cells h i"; cases "g_cells g i") (auto dest: spec [of _ i])

lemma read_aside:
  assumes "facts_aside g h"
  shows "erase_request r' = erase_request r \<Longrightarrow> read n h r' = read n g r"
proof (induction n arbitrary: r r')
  case (Suc n)
  note same = assms [unfolded facts_aside_def]
  have cell: "rel_option (\<lambda>c d. erase_facts c = erase_facts d) (g_cells h i) (g_cells g i)" for i
    by (rule facts_aside_cell [OF assms])
  have rec: "read n h (RArgIn i c a) = read n g (RArgIn i c' a)" "read n h (RSlotIn i c s) = read n g (RSlotIn i c' s)"
    "read n h (RColumn f col) = read n g (RColumn f col)" "read n h (RArg i a) = read n g (RArg i a)"
    if "erase_facts c = erase_facts c'" for i c c' a s f col
    using that by (intro Suc.IH; simp)+
  show ?case
  proof (cases r)
    case (RArgIn i c a)
    with Suc.prems obtain c' where r': "r' = RArgIn i c' a" "erase_facts c' = erase_facts c" by (cases r') auto
    show ?thesis using same rec(2) [OF r'(2)] by (simp add: RArgIn r'(1) argument_in_step_def split: arg.splits)
  next
    case (RSlotIn i c s)
    with Suc.prems obtain c' where r': "r' = RSlotIn i c' s" "erase_facts c' = erase_facts c" by (cases r') auto
    note f = erase_facts_eq [OF r'(2)]
    from same have g: "g_program h = g_program g" "g_parents h = g_parents g" "g_known_mode h = g_known_mode g" by blast+
    have slots: "provider_slot h c' s = provider_slot g c s" "static_slot h c' s = static_slot g c s" "parent_slot c' t s = parent_slot c t s"
      "defined_slot h i s tb = defined_slot g i s tb" for t tb
      unfolding provider_slot_def static_slot_def parent_slot_def defined_slot_def f g by (rule refl)+
    show ?thesis unfolding RSlotIn r'(1) read.simps read_step.simps slot_in_step_def slots f g rec [OF r'(2)] by (rule refl)
  next
    case (RColumn f col)
    with Suc.prems have r': "r' = RColumn f col" by (cases r') auto
    have res: "resolve_reference h f = resolve_reference g f" using same by (simp add: resolve_reference_def)
    show ?thesis
      using same rec(4) [OF refl] cell [of "fst (resolve_reference g f)"]
      by (auto simp: RColumn r' fact_column_step_def Let_def res carrier_of_def carrier_at_def rel_option_iff
          dest: erase_facts_eq split: option.splits)
  next
    case (RArg i a)
    with Suc.prems have r': "r' = RArg i a" by (cases r') auto
    show ?thesis
    proof (cases "g_cells g i")
      case (Some d)
      with cell [of i] obtain c where c: "g_cells h i = Some c" "erase_facts c = erase_facts d"
        by (auto simp: rel_option_iff split: option.splits)
      with same Some rec(2) [OF c(2)] show ?thesis by (simp add: RArg r' argument_step_def split: arg.splits)
    qed (use same cell [of i] in \<open>auto simp: RArg r' argument_step_def rel_option_iff split: arg.splits option.splits\<close>)
  qed
qed simp

text \<open>The columns of an exported position.\<close>

lemma exported_columns:
  assumes "parse_views p j = Inr v" "j \<noteq> JNull" "wf_program p"
    and "p_views (g_program g) = v" "p_templates (g_program g) = p_templates p"
    and "c_template c < length (p_templates p)" "(k, col) \<in> set (exports_of g (c_template c) s)"
  shows "\<exists>tb cols. fact_columns g c k = Inr (tb, cols) \<and> col < length cols \<and> cols ! col = Slot s"
proof -
  let ?t = "p_templates p ! c_template c"
  from parse_views_good(2) [OF assms(1-3,6)] obtain e where e: "v_exports v (c_template c) = Some e"
    and good: "exports_good p (v_markers v) (v_layouts v (c_template c)) ?t e" by blast
  from assms(7) e assms(4) obtain srcs where srcs: "e s = Some srcs" "(k, col) \<in> set srcs"
    by (cases "e s") (auto simp: exports_of_def)
  from good [unfolded exports_good_def, rule_format, OF srcs] obtain cols where cols: "col < length cols" "cols ! col = Slot s" and
    src: "k < length (tm_ops ?t) \<and> (\<exists>dst tb aa. tm_ops ?t ! k = OpLet dst (CTable tb) aa \<and> cols = aa @ [Slot dst] \<or>
        (\<exists>v. tm_ops ?t ! k = OpSet tb aa v \<and> cols = aa @ [v])) \<or>
      (\<exists>l i. v_layouts v (c_template c) = Some l \<and> k = length (tm_ops ?t) + i \<and> i < length (l_carriers l) \<and>
        cols = ca_columns (l_carriers l ! i))"
    by (elim exE conjE)
  have "\<exists>tb. fact_columns g c k = Inr (tb, cols)"
  proof (cases "k < length (tm_ops ?t)")
    case True
    then have "carrier_at g (c_template c) k = Inr None" by (simp add: carrier_at_def views_carrier_def assms(5,6))
    with src True show ?thesis by (auto simp: fact_columns_def assms(5,6) get_at_def)
  next
    case False
    with src obtain l i where "v_layouts v (c_template c) = Some l" "k = length (tm_ops ?t) + i" "i < length (l_carriers l)"
      "cols = ca_columns (l_carriers l ! i)" by blast
    then have "carrier_at g (c_template c) k = Inr (Some (l_carriers l ! i))"
      by (simp add: carrier_at_def views_carrier_def assms(4-6) get_at_def)
    with \<open>cols = _\<close> show ?thesis by (simp add: fact_columns_def)
  qed
  with cols show ?thesis by blast
qed

text \<open>\<open>set\<close> writes a new fact of a virtual table with the values of its arguments, and only the facts change.\<close>

lemma set_writes_fact:
  assumes "set_inner cid k t aa a g0 = Inr (g, d)" "t_virtual (g_tables g0 ! t)"
    and "g_cells g0 cid = Some c0" "c_facts c0 k = None" "g_cells g cid = Some c" "c_facts c k = Some s" "fs_marker_row s = Some m"
  shows "facts_aside g0 g \<and> g_fuel g = g_fuel g0 \<and> mk_canonical m \<and> arguments g0 cid (aa @ [a]) = Inr (mk_values m)"
proof -
  from assms(1,2) obtain key x r where vals: "arguments g0 cid aa = Inr key" "argument g0 cid a = Inr x"
    and run: "(case r of
         Some old \<Rightarrow>
           rbind (last_value old) (\<lambda>ov.
           rbind (if t_constructor (g_tables g0 ! t) then enqueue_union ov x g0
             else if ov \<noteq> x then Inl (Err ''relation output conflict'') else Inr g0) (\<lambda>g1.
           Inr (g1, \<lparr>sd_visible = (\<not> rw_hidden old \<and> (t_constructor (g_tables g0 ! t) \<longrightarrow> ov = x)), sd_receipt = rw_witness old\<rparr>)))
       | None \<Rightarrow> rbind (activate (cid, k) t key x False g0) (\<lambda>g1. Inr (g1, \<lparr>sd_visible = True, sd_receipt = DFact (cid, k)\<rparr>))) = Inr (g, d)"
    by (auto simp: set_inner_def rbind_eq_Inr idx_eq_Inr)
  show ?thesis
  proof (cases r)
    case (Some old)
    with run have "g_cells g = g_cells g0"
      by (auto simp: rbind_eq_Inr enqueue_union_def split: if_splits val.splits)
    with assms(3-6) show ?thesis by simp
  next
    case None
    with run have "activate (cid, k) t key x False g0 = Inr g" by (auto simp: rbind_eq_Inr)
    then obtain c1 mk where "g_cells g0 cid = Some c1" and mk: "mk = None \<or> mk = Some \<lparr>mk_table = t, mk_values = key @ [x], mk_canonical = True\<rparr>"
      and same: "same_content (g0\<lparr>g_cells := (g_cells g0)(cid \<mapsto> c1\<lparr>c_facts := (c_facts c1)(k \<mapsto> \<lparr>fs_marker_row = mk, fs_entry = None,
         fs_hidden = False, fs_epoch = g_epoch g0, fs_born = g_epoch g0, fs_hash = g_hashkey g0 t key\<rparr>)\<rparr>)\<rparr>) g"
      by (rule activate_content) simp
    then have c1: "c1 = c0" using assms(3) by simp
    have "facts_aside g0 g" "g_fuel g = g_fuel g0"
      using same assms(3) by (simp_all add: facts_aside_def same_content_def erase_facts_def c1)
    moreover have "mk = Some m" using same assms(5-7) by (auto simp: same_content_def)
    then have "mk_canonical m" "mk_values m = key @ [x]" using mk by auto
    moreover have "arguments g0 cid (aa @ [a]) = Inr (key @ [x])"
      using vals by (simp add: arguments_def rmapM_append)
    ultimately show ?thesis by simp
  qed
qed

lemma argument_aside:
  assumes "facts_aside g0 g" "g_fuel g = g_fuel g0" "g_cells g0 cid = Some c0" "g_cells g cid = Some c" "argument g0 cid a = Inr x"
  shows "argument_in g cid c a = Inr x"
proof -
  from assms(5) obtain n where n: "g_fuel g0 = Suc n" by (cases "g_fuel g0") (auto simp: argument_def)
  have "erase_facts c = erase_facts c0" using facts_aside_cell [OF assms(1), of cid] assms(3,4) by (simp add: rel_option_iff)
  then have "read n g (RSlotIn cid c s) = read n g0 (RSlotIn cid c0 s)" for s by (intro read_aside [OF assms(1)]) simp
  with assms(1,2,3,5) n show ?thesis
    by (cases a) (auto simp: argument_def argument_in_def argument_step_def argument_in_step_def facts_aside_def)
qed

text \<open>
  C30. An exported position shows its slot. Under an accepted document of reference views, a fact of a Cell at
  a position that the document exports for a slot has, in the exported column, the value that the Cell reads
  for this slot; so a slot of a Cell that is gone is read through the facts that were moved out of it. The
  theorem is for two kinds of facts: those whose row is read from the columns, that is every fact without a
  copied marker row, and facts whose row is copied (markers in the default mode), at the time when \<open>set\<close> has
  written them at an operation of the template. It does not follow a copied row through later unions.
\<close>

theorem exported_positions_show_slot:
  assumes "parse_views p j = Inr v" "j \<noteq> JNull" "wf_program p"
    and "p_views (g_program g) = v" "p_templates (g_program g) = p_templates p"
    and "g_cells g cid = Some c" "c_template c < length (p_templates p)"
    and "(k, col) \<in> set (exports_of g (c_template c) s)"
    and "fact g (cid, k) = Inr (Some r)"
    and "fs_marker_row (the (c_facts c k)) = None \<or>
      (\<exists>g0 t aa a d c0. set_inner cid k t aa a g0 = Inr (g, d) \<and> t_virtual (g_tables g0 ! t) \<and>
         k < length (tm_ops (p_templates p ! c_template c)) \<and> tm_ops (p_templates p ! c_template c) ! k = OpSet t aa a \<and>
         g_cells g0 cid = Some c0 \<and> c_facts c0 k = None)"
  shows "col < length (rw_values r) \<and> argument_in g cid c (Slot s) = Inr (rw_values r ! col)"
proof -
  from exported_columns [OF assms(1-5,7,8)] obtain tb cols where fc: "fact_columns g c k = Inr (tb, cols)"
    and cols: "col < length cols" "cols ! col = Slot s" by blast
  show ?thesis
  proof (cases "fs_marker_row (the (c_facts c k))")
    case None
    with fc assms(6,9) have "arguments_in g cid c cols = Inr (rw_values r)"
      by (auto simp: fact_def rbind_eq_Inr split: option.splits)
    then show ?thesis using rmapM_nth [of "argument_in g cid c" cols "rw_values r" col]
        rmapM_length [of "argument_in g cid c" cols "rw_values r"] cols
      by (simp add: arguments_in_def)
  next
    case (Some m)
    with assms(10) obtain g0 t aa a d c0 where set: "set_inner cid k t aa a g0 = Inr (g, d)" "t_virtual (g_tables g0 ! t)"
      and op: "k < length (tm_ops (p_templates p ! c_template c))" "tm_ops (p_templates p ! c_template c) ! k = OpSet t aa a"
      and c0: "g_cells g0 cid = Some c0" "c_facts c0 k = None" by auto
    from assms(6,9) obtain st where st: "c_facts c k = Some st" by (auto simp: fact_def split: option.splits)
    with Some have m: "fs_marker_row st = Some m" by simp
    from set_writes_fact [OF set c0 assms(6) st m] have w: "facts_aside g0 g" "g_fuel g = g_fuel g0" "mk_canonical m"
      "arguments g0 cid (aa @ [a]) = Inr (mk_values m)" by auto
    have "carrier_at g (c_template c) k = Inr None" using op(1) by (simp add: carrier_at_def views_carrier_def assms(5,7))
    then have "cols = aa @ [a]" using fc op by (auto simp: fact_columns_def assms(5,7) get_at_def)
    moreover have "rw_values r = mk_values m" using assms(6,9) st m w(3) by (auto simp: fact_def)
    ultimately have vals: "rmapM (argument g0 cid) cols = Inr (rw_values r)" using w(4) by (simp add: arguments_def)
    from rmapM_nth [OF vals cols(1)] rmapM_length [OF vals] cols argument_aside [OF w(1,2) c0(1) assms(6)]
    show ?thesis by simp
  qed
qed

lemma exported_positions_show_slot_witness:
  "(0, 1) \<in> set (exports_of view_graph 1 1) \<and>
   (\<exists>r. fact view_graph (1, 0) = Inr (Some r) \<and> argument_in view_graph 1 view_fact (Slot 1) = Inr (rw_values r ! 1))"
proof -
  have e: "(0, 1) \<in> set (exports_of view_graph 1 1)" by code_simp
  have "\<not> isl (fact view_graph (1, 0)) \<and> projr (fact view_graph (1, 0)) \<noteq> None" by code_simp
  then obtain r where r: "fact view_graph (1, 0) = Inr (Some r)" by (cases "fact view_graph (1, 0)") auto
  have fields: "p_views (g_program view_graph) = view_result" "p_templates (g_program view_graph) = p_templates view_program"
    "g_cells view_graph 1 = Some view_fact" "c_template view_fact = 1" "fs_marker_row (the (c_facts view_fact 0)) = None"
    "view_document \<noteq> JNull" "length (p_templates view_program) = 3"
    by (simp_all add: view_graph_def empty_graph_def Let_def view_fact_def view_document_def view_program_def)
  from exported_positions_show_slot [OF view_parses fields(6) view_wf fields(1-3) _ _ r disjI1 [OF fields(5)], where col = 1 and s = 1] e r
  show ?thesis by (simp add: fields)
qed

end
