(* ===== verification/Multistage.thy ===== *)
theory Multistage
  imports Continue CongruencePlan MergePrograms GraphNew
begin

text \<open>
  The continuation plan of \<open>engine/cell-runtime/src/multistage.rs\<close>: entry orders, finishes and routes, and
  the parser that checks them against the recipe, with the two compilers whose output it compares
  (\<open>union_graft::compile\<close> and \<open>stage_spine::compile_entries\<close>).
\<close>

record multi_stage =
  ms_stage_entries :: "(nat \<times> nat \<times> nat list) list"
  ms_routes :: routes
  ms_entries :: "nat \<times> nat \<rightharpoonup> nat list"
  ms_finishes :: "nat list list"

definition no_stages :: multi_stage where
  "no_stages = \<lparr>ms_stage_entries = [], ms_routes = Map.empty, ms_entries = Map.empty, ms_finishes = []\<rparr>"

section \<open>Sources\<close>

text \<open>\<open>normalize\<close> follows copies as \<open>congruence::norm\<close> does.\<close>

definition normalize :: "template \<Rightarrow> arg \<Rightarrow> arg res" where
  "normalize t a = norm (Suc (length (tm_ops t))) t a"

text \<open>The table and the normal columns of a fact that a producer reads or writes.\<close>

definition effect_columns :: "program \<Rightarrow> op \<Rightarrow> (nat \<times> arg list) res" where
  "effect_columns p e =
     (case e of
        OpLet dst (CTable t) args \<Rightarrow>
          rbind (idx (p_tables p) t) (\<lambda>tb.
          if t_virtual tb then Inr (t, args @ [Slot dst]) else Inl (Err ''effect cannot provide a local fact''))
      | OpSet t args v \<Rightarrow> Inr (t, args @ [v])
      | _ \<Rightarrow> Inl (Err ''effect cannot provide a local fact''))"

definition local_source :: "program \<Rightarrow> nat \<Rightarrow> string \<Rightarrow> nat \<Rightarrow> (nat \<times> arg list) res" where
  "local_source p producer kind i =
     rbind (ok_or (get_at (p_rules p) producer) (Err ''continuation producer'')) (\<lambda>r.
     rbind (idx (p_templates p) (r_template r)) (\<lambda>t.
     rbind (if kind = ''query'' then
         rbind (ok_or (get_at (r_query r) i) (Err ''continuation query source'')) (\<lambda>a.
         case a_call a of
           CTable tb \<Rightarrow> Inr (tb, a_args a)
         | CPrim _ _ \<Rightarrow> Inl (Err ''primitive is not a local fact''))
       else if kind = ''effect'' then
         rbind (ok_or (get_at (tm_ops t) i) (Err ''continuation effect source'')) (effect_columns p)
       else Inl (Err ''unknown local fact source'')) (\<lambda>(tb, cols).
     rbind (rmapM (normalize t) cols) (\<lambda>cols. Inr (tb, cols)))))"

section \<open>Mappings\<close>

fun map_column :: "arg \<times> arg \<Rightarrow> (nat \<rightharpoonup> arg) \<Rightarrow> (nat \<rightharpoonup> arg) res" where
  "map_column (Slot s, src) m =
     (case m s of
        Some old \<Rightarrow> if old \<noteq> src then Inl (Err ''continuation relative binding differs'') else Inr m
      | None \<Rightarrow> Inr (m(s \<mapsto> src)))"
| "map_column (to, src) m = (if to \<noteq> src then Inl (Err ''continuation literal differs'') else Inr m)"

definition extend_mapping :: "atom \<Rightarrow> nat \<Rightarrow> arg list \<Rightarrow> (nat \<rightharpoonup> arg) \<Rightarrow> (nat \<rightharpoonup> arg) res" where
  "extend_mapping a tb cols m =
     (if a_call a \<noteq> CTable tb \<or> length (a_args a) \<noteq> length cols then Inl (Err ''continuation operator/arity differs'')
      else rfold map_column (zip (a_args a) cols) m)"

section \<open>The compilers it compares with\<close>

text \<open>\<open>union_graft::compile\<close>: for two constructor atoms, the shared slots with their first equality column in each.\<close>

definition eq_columns :: "table \<Rightarrow> atom \<Rightarrow> (nat \<rightharpoonup> nat) res" where
  "eq_columns tb a =
     rfold (\<lambda>(col, x) m. case x of
         Literal _ \<Rightarrow> Inr m
       | Slot s \<Rightarrow>
           rbind (idx (t_schema tb) col) (\<lambda>k.
           Inr (if jfield k ''kind'' = JStr ''eq'' \<and> m s = None then m(s \<mapsto> col) else m)))
       (enumerate 0 (a_args a)) Map.empty"

text \<open>The second table is not looked at when the first is no constructor.\<close>

definition graft_columns :: "program \<Rightarrow> atom \<Rightarrow> (nat \<rightharpoonup> nat) option res" where
  "graft_columns p a =
     (case a_call a of
        CPrim _ _ \<Rightarrow> Inl Panic
      | CTable t \<Rightarrow>
          rbind (idx (p_tables p) t) (\<lambda>tb.
          if \<not> t_constructor tb then Inr None else rmap Some (eq_columns tb a)))"

definition shared_slots :: "arg list \<Rightarrow> (nat \<rightharpoonup> nat) \<Rightarrow> (nat \<rightharpoonup> nat) \<Rightarrow> nat list" where
  "shared_slots args m n = filter (\<lambda>s. m s \<noteq> None \<and> n s \<noteq> None)
     (sort (remdups (List.map_filter (\<lambda>a. case a of Slot s \<Rightarrow> Some s | Literal _ \<Rightarrow> None) args)))"

definition graft_json :: "nat \<Rightarrow> nat \<Rightarrow> nat \<Rightarrow> arg list \<Rightarrow> (nat \<rightharpoonup> nat) \<Rightarrow> (nat \<rightharpoonup> nat) \<Rightarrow> json list" where
  "graft_json rid i j args m n = map (\<lambda>s. JObj
     [(''atoms'', nats_json [i, j]), (''columns'', nats_json [the (m s), the (n s)]),
      (''rule'', JNum (int rid)), (''slot'', JNum (int s))]) (shared_slots args m n)"

definition table_atoms :: "atom list \<Rightarrow> nat list" where
  "table_atoms query = filter (\<lambda>i. case a_call (query ! i) of CTable _ \<Rightarrow> True | CPrim _ _ \<Rightarrow> False) [0..<length query]"

definition compile_graft :: "program \<Rightarrow> nat \<times> rule \<Rightarrow> json list res" where
  "compile_graft p ir =
     (case table_atoms (r_query (snd ir)) of
        [i, j] \<Rightarrow>
          rbind (graft_columns p (r_query (snd ir) ! i)) (\<lambda>m. case m of
            None \<Rightarrow> Inr []
          | Some m \<Rightarrow>
              rbind (graft_columns p (r_query (snd ir) ! j)) (\<lambda>n. case n of
                None \<Rightarrow> Inr [] | Some n \<Rightarrow> Inr (graft_json (fst ir) i j (a_args (r_query (snd ir) ! i)) m n)))
      | _ \<Rightarrow> Inr [])"

definition compile_grafts :: "program \<Rightarrow> json res" where
  "compile_grafts p = rbind (rmapM (compile_graft p) (enumerate 0 (p_rules p))) (\<lambda>es. Inr (JArr (concat es)))"

text \<open>\<open>stage_spine::order\<close>: the first pending atom whose key is known, primitives before tables.\<close>

definition key_rank :: "atom list \<Rightarrow> nat set \<Rightarrow> nat \<Rightarrow> (nat \<times> nat) option res" where
  "key_rank query known i =
     rbind (idx query i) (\<lambda>a.
     rbind (key_known known a) (\<lambda>full.
     Inr (if full then Some (case a_call a of CPrim _ _ \<Rightarrow> 0 | CTable _ \<Rightarrow> 1, i) else None)))"

fun key_order :: "nat \<Rightarrow> atom list \<Rightarrow> nat set \<Rightarrow> nat list \<Rightarrow> nat list \<Rightarrow> (nat list \<times> nat set) option res" where
  "key_order 0 query known todo out = Inr (Some (out, known))"
| "key_order (Suc n) query known todo out =
     rbind (rmapM (key_rank query known) todo) (\<lambda>rs.
     case List.map_filter id rs of
       [] \<Rightarrow> Inr None
     | c # cs \<Rightarrow>
         let i = snd (Min (set (c # cs))) in
         rbind (idx query i) (\<lambda>a. key_order n query (known \<union> slots_of (a_args a)) (remove1 i todo) (out @ [i])))"

definition stage_order :: "rule \<Rightarrow> nat \<Rightarrow> nat list option res" where
  "stage_order r pivot =
     rbind (idx (r_query r) pivot) (\<lambda>a.
     let todo = filter (\<lambda>i. i \<noteq> pivot) [0..<length (r_query r)] in
     rbind (key_order (length todo) (r_query r) (slots_of (a_args a)) todo []) (\<lambda>o'. Inr (case o' of
       None \<Rightarrow> None
     | Some (out, known) \<Rightarrow> if set (r_inputs r) \<subseteq> known then Some out else None)))"

definition stage_entry :: "program \<Rightarrow> nat \<Rightarrow> rule \<Rightarrow> nat \<times> atom \<Rightarrow> json list res" where
  "stage_entry p rid r ia =
     (case a_call (snd ia) of
        CPrim _ _ \<Rightarrow> Inr []
      | CTable t \<Rightarrow>
          rbind (stage_order r (fst ia)) (\<lambda>o'. case o' of
            None \<Rightarrow> Inr []
          | Some atoms \<Rightarrow>
              rbind (idx (p_tables p) t) (\<lambda>tb.
              Inr [JObj [(''anchor'', JNum (int (fst ia))), (''atoms'', nats_json atoms),
                (''rule'', JNum (int rid)), (''table'', JStr (t_name tb))]])))"

definition compile_stage_rule :: "program \<Rightarrow> nat \<times> rule \<Rightarrow> json list res" where
  "compile_stage_rule p ir =
     (if \<not> r_seminaive (snd ir) then Inr []
      else rmap concat (rmapM (stage_entry p (fst ir) (snd ir)) (enumerate 0 (r_query (snd ir)))))"

definition compile_stage_entries :: "program \<Rightarrow> json res" where
  "compile_stage_entries p =
     rbind (rmapM (compile_stage_rule p) (enumerate 0 (p_rules p))) (\<lambda>es. Inr (JArr (concat es)))"

section \<open>Point orders\<close>

text \<open>The state of \<open>verify_points\<close>: covered atoms, known slots and the order so far.\<close>

type_synonym point_state = "nat set \<times> nat set \<times> nat list"

definition is_table :: "atom \<Rightarrow> bool" where
  "is_table a = (case a_call a of CTable _ \<Rightarrow> True | CPrim _ _ \<Rightarrow> False)"

definition starts :: "nat option \<Rightarrow> nat \<Rightarrow> atom \<Rightarrow> bool" where
  "starts anchor i a \<longleftrightarrow> anchor = Some i \<or> anchor = None \<and> is_table a"

definition start_points :: "nat option \<Rightarrow> atom list \<Rightarrow> point_state" where
  "start_points anchor query =
     (let started = set (filter (\<lambda>i. starts anchor i (query ! i)) [0..<length query]) in
      (started, \<Union>i \<in> started. slots_of (a_args (query ! i)), []))"

text \<open>A result column of an equality sort with a known slot.\<close>

definition inverse_known :: "table list \<Rightarrow> nat set \<Rightarrow> atom \<Rightarrow> bool res" where
  "inverse_known tables known a =
     (case a_call a of
        CPrim _ _ \<Rightarrow> Inr False
      | CTable t \<Rightarrow>
          rbind (idx tables t) (\<lambda>tb.
          rbind (last_sort tb) (\<lambda>s.
          Inr (jfield s ''kind'' = JStr ''eq'' \<and>
            (a_args a \<noteq> [] \<and> (case last (a_args a) of Slot s \<Rightarrow> s \<in> known | Literal _ \<Rightarrow> False))))))"

definition check_point :: "table list \<Rightarrow> atom list \<Rightarrow> nat option \<Rightarrow> json \<Rightarrow> point_state \<Rightarrow> point_state res" where
  "check_point tables query anchor j st =
     (let (covered, known, order) = st in
      rbind (ok_or (as_u64 j) (Err ''point instruction'')) (\<lambda>i.
      rbind (ok_or (get_at query i) (Err ''point instruction range'')) (\<lambda>a.
      if i \<in> covered \<or> anchor = None \<and> is_table a then Inl (Err ''invalid point instruction domain'')
      else
        rbind (key_known known a) (\<lambda>full.
        rbind (inverse_known tables known a) (\<lambda>inverse.
        if \<not> full \<and> \<not> inverse then Inl (Err ''point read has unbound inputs'')
        else Inr (insert i covered, known \<union> slots_of (a_args a), order @ [i]))))))"

definition verify_points :: "program \<Rightarrow> nat \<Rightarrow> nat option \<Rightarrow> json \<Rightarrow> nat list res" where
  "verify_points p rid anchor raw =
     rbind (ok_or (get_at (p_rules p) rid) (Err ''point program rule'')) (\<lambda>r.
     rbind (j_array raw) (\<lambda>js.
     rbind (rfold (check_point (p_tables p) (r_query r) anchor) js (start_points anchor (r_query r))) (\<lambda>(_, _, order).
     Inr order)))"

section \<open>The parser\<close>

definition u64_or :: "string \<Rightarrow> json \<Rightarrow> nat res" where
  "u64_or e j = ok_or (as_u64 j) (Err e)"

definition parse_stage_entry :: "json \<Rightarrow> (nat \<times> nat \<times> nat list) res" where
  "parse_stage_entry e =
     rbind (nat_of_json (jfield e ''rule'')) (\<lambda>r.
     rbind (nat_of_json (jfield e ''anchor'')) (\<lambda>a.
     rbind (ok_or (as_array (jfield e ''atoms'')) Panic) (\<lambda>js.
     rbind (rmapM nat_of_json js) (\<lambda>order. Inr (r, a, order)))))"

definition parse_point_entry :: "program \<Rightarrow> json \<Rightarrow> multi_stage \<Rightarrow> multi_stage res" where
  "parse_point_entry p e ms =
     rbind (u64_or ''point rule'' (jfield e ''rule'')) (\<lambda>rid.
     rbind (u64_or ''point anchor'' (jfield e ''anchor'')) (\<lambda>anchor.
     if \<not> (case Option.bind (get_at (p_rules p) rid) (\<lambda>r. get_at (r_query r) anchor) of
           None \<Rightarrow> False | Some a \<Rightarrow> is_table a) then Inl (Err ''point entry is not a fact'')
     else
       rbind (verify_points p rid (Some anchor) (jfield e ''atoms'')) (\<lambda>order.
       if ms_entries ms (rid, anchor) \<noteq> None then Inl (Err ''duplicate point entry'')
       else Inr (ms\<lparr>ms_entries := (ms_entries ms)((rid, anchor) \<mapsto> order)\<rparr>))))"

text \<open>A route under construction: covered atoms, mapping, reads.\<close>

type_synonym route_state = "nat set \<times> (nat \<rightharpoonup> arg) \<times> local_read list"

definition parse_read :: "program \<Rightarrow> nat \<Rightarrow> atom list \<Rightarrow> json \<Rightarrow> route_state \<Rightarrow> route_state res" where
  "parse_read p producer query j st =
     (let (covered, m, reads) = st in
      rbind (u64_or ''continuation atom'' (jfield j ''atom'')) (\<lambda>i.
      rbind (u64_or ''continuation source index'' (jfield j ''source_index'')) (\<lambda>k.
      rbind (j_string (jfield j ''source_kind'')) (\<lambda>kind.
      if i \<in> covered then Inl (Err ''duplicate continuation atom'')
      else
        rbind (local_source p producer kind k) (\<lambda>(t, cols).
        rbind (ok_or (get_at query i) (Err ''continuation atom index'')) (\<lambda>a.
        rbind (extend_mapping a t cols m) (\<lambda>m1.
        Inr (insert i covered, m1, reads @ [\<lparr>lr_atom = i, lr_table = t, lr_columns = cols,
          lr_effect = (if kind = ''effect'' then Some k else None)\<rparr>]))))))))"

definition residual_json :: "atom list \<Rightarrow> nat set \<Rightarrow> json" where
  "residual_json query covered = nats_json (filter (\<lambda>i. i \<notin> covered) [0..<length query])"

definition parse_route :: "program \<Rightarrow> json \<Rightarrow> multi_stage \<Rightarrow> multi_stage res" where
  "parse_route p j ms =
     rbind (u64_or ''invalid continuation producer'' (jfield j ''producer'')) (\<lambda>producer.
     rbind (u64_or ''invalid continuation effect'' (jfield j ''effect'')) (\<lambda>effect.
     rbind (u64_or ''invalid continuation consumer'' (jfield j ''consumer'')) (\<lambda>consumer.
     rbind (u64_or ''invalid continuation anchor'' (jfield j ''anchor'')) (\<lambda>anchor.
     rbind (ok_or (get_at (p_rules p) consumer) (Err ''continuation consumer'')) (\<lambda>target.
     rbind (local_source p producer ''effect'' effect) (\<lambda>(t, cols).
     rbind (ok_or (get_at (r_query target) anchor) (Err ''continuation anchor'')) (\<lambda>a.
     rbind (extend_mapping a t cols Map.empty) (\<lambda>m.
     rbind (j_array (jfield j ''steps'')) (\<lambda>steps.
     rbind (rfold (parse_read p producer (r_query target)) steps ({anchor}, m, [])) (\<lambda>(covered, _, reads).
     if jfield j ''residual'' \<noteq> residual_json (r_query target) covered then Inl (Err ''continuation residual domain differs'')
     else
       rbind (idx (p_rules p) producer) (\<lambda>r.
       let key = (r_template r, effect, consumer, anchor) in
       if ms_routes ms key \<noteq> None then Inl (Err ''duplicate continuation'')
       else Inr (ms\<lparr>ms_routes := (ms_routes ms)(key \<mapsto> \<lparr>ct_producer = producer, ct_consumer = consumer,
         ct_anchor = anchor, ct_reads = reads\<rparr>)\<rparr>))))))))))))"

text \<open>The rule sets the plan was compiled for.\<close>

definition sets_json :: "json \<Rightarrow> json res" where
  "sets_json recipe =
     rbind (ok_or (as_array (jfield recipe ''rulesets'')) (Err ''recipe sets'')) (\<lambda>sets.
     Inr (JArr (map (\<lambda>s. JObj [(''name'', jfield s ''name''), (''rule_ids'', jfield s ''rule_ids'')]) sets)))"

definition check_union_entries :: "program \<Rightarrow> json \<Rightarrow> unit res" where
  "check_union_entries p raw =
     (if jfield raw ''union_entries'' = JNull then Inr ()
      else rbind (compile_grafts p) (\<lambda>c.
        if jfield raw ''union_entries'' \<noteq> c then Inl (Err ''union Spine entry differs from typed source query'') else Inr ()))"

definition check_stage_entries :: "(string \<Rightarrow> string option) \<Rightarrow> program \<Rightarrow> json \<Rightarrow> unit res" where
  "check_stage_entries env p raw =
     (if jfield raw ''stage_entries'' = JNull then
        (if env_is env ''CELL_CPU_STAGE_SPINE'' ''1''
         then Inl (Err ''stage Spine programs require compiler stage_entries; recompile source_sk_mk through the Cell CPU target'')
         else Inr ())
      else rbind (compile_stage_entries p) (\<lambda>c.
        if jfield raw ''stage_entries'' \<noteq> c then Inl (Err ''stage entry program differs from exhaustive typed key flow'') else Inr ()))"

definition parse_multistage :: "(string \<Rightarrow> string option) \<Rightarrow> program \<Rightarrow> json \<Rightarrow> multi_stage res" where
  "parse_multistage env p raw =
     (if raw = JNull then Inr no_stages
      else
        let recipe = jfield (p_artifact p) ''recipe'' in
        rbind (check_union_entries p raw) (\<lambda>_.
        if jfield raw ''schema'' \<noteq> JStr ''eggfuse-multistage/v1'' \<or> jfield raw ''recipe_sha256'' \<noteq> jfield recipe ''sha256'' \<or>
           jfield raw ''control'' \<noteq> jfield recipe ''control'' then Inl (Err ''multi-stage source/control differs'')
        else
          rbind (sets_json recipe) (\<lambda>sets.
          if jfield raw ''rule_sets'' \<noteq> sets then Inl (Err ''multi-stage permissions differ'')
          else
            rbind (check_stage_entries env p raw) (\<lambda>_.
            rbind (case as_array (jfield raw ''stage_entries'') of
                None \<Rightarrow> Inr [] | Some es \<Rightarrow> rmapM parse_stage_entry es) (\<lambda>stage.
            rbind (j_array (jfield raw ''entries'')) (\<lambda>entries.
            rbind (rfold (parse_point_entry p) entries (no_stages\<lparr>ms_stage_entries := stage\<rparr>)) (\<lambda>ms1.
            rbind (j_array (jfield raw ''finishes'')) (\<lambda>finishes.
            if length finishes \<noteq> length (p_rules p) then Inl (Err ''point finishes differ'')
            else
              rbind (rmapM (\<lambda>(rid, f). verify_points p rid None f) (enumerate 0 finishes)) (\<lambda>fs.
              rbind (j_array (jfield raw ''routes'')) (\<lambda>rs.
              rfold (parse_route p) rs (ms1\<lparr>ms_finishes := fs\<rparr>)))))))))))"

end
