(* ===== verification/KnownResults.thy ===== *)
theory KnownResults
  imports Multistage
begin

text \<open>
  Known results, \<open>engine/cell-runtime/src/known_results.rs\<close>: from a rule alone, \<open>Plans::derive\<close> finds the constructor
  effects whose row the query or an earlier effect has, and, for the static mode, the ones that need not run
  at all because their result is the value of another slot. \<open>Plans::parse\<close> accepts the derived document only.
\<close>

section \<open>Copies\<close>

text \<open>\<open>normalize\<close>: the loop has no bound in the code; a chain of copies without a cycle is not longer than the map.\<close>

fun norm_arg :: "nat \<Rightarrow> (nat \<rightharpoonup> arg) \<Rightarrow> arg \<Rightarrow> arg res" where
  "norm_arg 0 m a = Inl Diverge"
| "norm_arg (Suc n) m a =
     (case a of
        Literal _ \<Rightarrow> Inr a
      | Slot s \<Rightarrow> (case m s of None \<Rightarrow> Inr a | Some b \<Rightarrow> norm_arg n m b))"

definition norm_args :: "nat \<Rightarrow> (nat \<rightharpoonup> arg) \<Rightarrow> arg list \<Rightarrow> arg list res" where
  "norm_args n m aa = rmapM (norm_arg n m) aa"

definition copies_of :: "op list \<Rightarrow> (nat \<rightharpoonup> arg)" where
  "copies_of ops = fold (\<lambda>e m. case e of OpCopy d a \<Rightarrow> m(d \<mapsto> a) | _ \<Rightarrow> m) ops Map.empty"

definition copy_fuel :: "op list \<Rightarrow> nat" where
  "copy_fuel ops = Suc (length ops)"

section \<open>Rows that a rule has\<close>

text \<open>A row of the query or of an effect: where it comes from, its table, its normal columns.\<close>

type_synonym known_row = "source \<times> nat \<times> arg list"

definition query_row :: "nat \<Rightarrow> (nat \<rightharpoonup> arg) \<Rightarrow> nat \<times> atom \<Rightarrow> known_row list res" where
  "query_row n m ia =
     (case a_call (snd ia) of
        CPrim _ _ \<Rightarrow> Inr []
      | CTable t \<Rightarrow> rbind (norm_args n m (a_args (snd ia))) (\<lambda>aa. Inr [(SQuery (fst ia), t, aa)]))"

definition effect_row :: "table list \<Rightarrow> nat \<Rightarrow> (nat \<rightharpoonup> arg) \<Rightarrow> nat \<times> op \<Rightarrow> known_row list res" where
  "effect_row tables n m ie =
     (case snd ie of
        OpLet dst (CTable t) aa \<Rightarrow>
          rbind (idx tables t) (\<lambda>tb.
          if \<not> t_virtual tb then Inr []
          else
            rbind (norm_args n m aa) (\<lambda>aa.
            rbind (norm_arg n m (Slot dst)) (\<lambda>d. Inr [(SEffect (fst ie), t, aa @ [d])])))
      | OpSet t aa v \<Rightarrow>
          rbind (norm_args n m aa) (\<lambda>aa.
          rbind (norm_arg n m v) (\<lambda>v. Inr [(SEffect (fst ie), t, aa @ [v])]))
      | _ \<Rightarrow> Inr [])"

definition known_rows :: "table list \<Rightarrow> nat \<Rightarrow> (nat \<rightharpoonup> arg) \<Rightarrow> atom list \<Rightarrow> op list \<Rightarrow> known_row list res" where
  "known_rows tables n m query ops =
     rbind (rmapM (query_row n m) (enumerate 0 query)) (\<lambda>qs.
     rbind (rmapM (effect_row tables n m) (enumerate 0 ops)) (\<lambda>es. Inr (concat qs @ concat es)))"

text \<open>The first earlier row with the table and the key.\<close>

definition later :: "nat \<Rightarrow> source \<Rightarrow> bool" where
  "later op s = (case s of SEffect i \<Rightarrow> op \<le> i | SQuery _ \<Rightarrow> False)"

fun find_row :: "nat \<Rightarrow> nat \<Rightarrow> arg list \<Rightarrow> known_row list \<Rightarrow> (source \<times> arg list) option res" where
  "find_row op t key [] = Inr None"
| "find_row op t key ((s, table, vals) # rows) =
     (if later op s \<or> table \<noteq> t then find_row op t key rows
      else if vals = [] then Inl Panic
      else if butlast vals = key then Inr (Some (s, vals)) else find_row op t key rows)"

section \<open>Plans\<close>

definition plan_json :: "nat \<Rightarrow> nat \<Rightarrow> source \<Rightarrow> json" where
  "plan_json rid op s =
     (let (kind, i) = (case s of SQuery i \<Rightarrow> (''query'', i) | SEffect i \<Rightarrow> (''effect'', i))
      in JObj [(''operation'', JNum (int op)), (''rule'', JNum (int rid)), (''source_index'', JNum (int i)), (''source_kind'', JStr kind)])"

definition at_op :: "'a option list option \<Rightarrow> nat \<Rightarrow> nat \<Rightarrow> 'a option \<Rightarrow> 'a option list" where
  "at_op xs n op x = (case xs of None \<Rightarrow> replicate n None | Some xs \<Rightarrow> xs)[op := x]"

text \<open>A query row and a constructed row have a value that can stand for the result.\<close>

definition has_value :: "op list \<Rightarrow> source \<Rightarrow> bool res" where
  "has_value ops s =
     (case s of
        SQuery _ \<Rightarrow> Inr True
      | SEffect i \<Rightarrow> rbind (idx ops i) (\<lambda>e. Inr (case e of OpLet _ _ _ \<Rightarrow> True | _ \<Rightarrow> False)))"

definition add_plan :: "nat \<Rightarrow> op list \<Rightarrow> nat \<Rightarrow> source \<times> arg list \<Rightarrow> json list \<times> known_plans \<Rightarrow> (json list \<times> known_plans) res" where
  "add_plan rid ops op found st =
     (let (plans, kp) = st; (s, vals) = found;
          kp1 = (case s of
             SQuery i \<Rightarrow> kp\<lparr>kp_queries := insert rid (kp_queries kp)\<rparr>
           | SEffect i \<Rightarrow> kp\<lparr>kp_remember := (kp_remember kp)(rid \<mapsto>
               insert i (case kp_remember kp rid of None \<Rightarrow> {} | Some is \<Rightarrow> is))\<rparr>);
          kp2 = kp1\<lparr>kp_rules := (kp_rules kp1)(rid \<mapsto> at_op (kp_rules kp1 rid) (length ops) op (Some s))\<rparr>
      in
      rbind (has_value ops s) (\<lambda>h.
      Inr (plans @ [plan_json rid op s],
        if h then kp2\<lparr>kp_values := (kp_values kp2)(rid \<mapsto>
          at_op (kp_values kp2 rid) (length ops) op (if vals = [] then None else Some (last vals)))\<rparr> else kp2)))"

definition derive_op :: "table list \<Rightarrow> nat \<Rightarrow> (nat \<rightharpoonup> arg) \<Rightarrow> nat \<Rightarrow> op list \<Rightarrow> known_row list \<Rightarrow> nat \<times> op
    \<Rightarrow> json list \<times> known_plans \<Rightarrow> (json list \<times> known_plans) res" where
  "derive_op tables n m rid ops rows ie st =
     (case snd ie of
        OpLet _ (CTable t) aa \<Rightarrow>
          rbind (idx tables t) (\<lambda>tb.
          if \<not> t_virtual tb then Inr st
          else
            rbind (norm_args n m aa) (\<lambda>key.
            rbind (find_row (fst ie) t key rows) (\<lambda>found. case found of
              None \<Rightarrow> Inr st | Some f \<Rightarrow> add_plan rid ops (fst ie) f st)))
      | _ \<Rightarrow> Inr st)"

definition derive_rule :: "program \<Rightarrow> nat \<times> rule \<Rightarrow> json list \<times> known_plans \<Rightarrow> (json list \<times> known_plans) res" where
  "derive_rule p ir st =
     (let (rid, r) = ir in
      rbind (idx (p_templates p) (r_template r)) (\<lambda>t.
      let ops = tm_ops t; m = copies_of ops; n = copy_fuel ops in
      rbind (known_rows (p_tables p) n m (r_query r) ops) (\<lambda>rows.
      rfold (derive_op (p_tables p) n m rid ops rows) (enumerate 0 ops) st)))"

section \<open>Static aliases\<close>

text \<open>The state of the pass over the effects of a rule.\<close>

record static_state =
  ss_aliases :: "nat \<rightharpoonup> arg"
  ss_known :: "nat \<times> arg list \<rightharpoonup> arg \<times> json"
  ss_slots :: "arg option list"
  ss_skip :: "bool list"
  ss_json :: "json list"

definition rule_deletes :: "template \<Rightarrow> nat set" where
  "rule_deletes t = set (List.map_filter (\<lambda>e. case e of OpHide t _ del \<Rightarrow> if del then Some t else None | _ \<Rightarrow> None) (tm_ops t))"

definition deleted_tables :: "program \<Rightarrow> nat set res" where
  "deleted_tables p = rmap (\<lambda>ts. \<Union>t \<in> set ts. rule_deletes t) (rmapM (\<lambda>r. idx (p_templates p) (r_template r)) (p_rules p))"

text \<open>The result column of a query atom as the artifact writes it.\<close>

definition result_json :: "program \<Rightarrow> nat \<Rightarrow> nat \<Rightarrow> json res" where
  "result_json p rid i =
     (let q = jat (jfield (jat (jfield (jfield (p_artifact p) ''recipe'') ''rules'') rid) ''query'') i in
      rbind (ok_or (as_array (jfield q ''args'')) Panic) (\<lambda>js. if js = [] then Inl Panic else Inr (last js)))"

definition know_atom :: "program \<Rightarrow> nat set \<Rightarrow> nat \<Rightarrow> nat \<times> atom \<Rightarrow> static_state \<Rightarrow> static_state res" where
  "know_atom p deleted rid ia st =
     (case a_call (snd ia) of
        CPrim _ _ \<Rightarrow> Inr st
      | CTable t \<Rightarrow>
          rbind (idx (p_tables p) t) (\<lambda>tb.
          if \<not> t_constructor tb \<or> t \<in> deleted then Inr st
          else if a_args (snd ia) = [] then Inl Panic
          else
            rbind (result_json p rid (fst ia)) (\<lambda>j.
            let key = (t, butlast (a_args (snd ia))) in
            Inr (if ss_known st key = None then st\<lparr>ss_known := (ss_known st)(key \<mapsto> (last (a_args (snd ia)), j))\<rparr> else st))))"

definition static_json :: "nat \<Rightarrow> nat \<Rightarrow> nat \<Rightarrow> json \<Rightarrow> json" where
  "static_json rid op dst j = JObj [(''dst'', JNum (int dst)), (''operation'', JNum (int op)), (''rule'', JNum (int rid)), (''value'', j)]"

definition static_op :: "table list \<Rightarrow> nat \<Rightarrow> nat \<Rightarrow> nat \<times> op \<Rightarrow> static_state \<Rightarrow> static_state res" where
  "static_op tables n rid ie st =
     (case snd ie of
        OpCopy dst a \<Rightarrow> rbind (norm_arg n (ss_aliases st) a) (\<lambda>a. Inr (st\<lparr>ss_aliases := (ss_aliases st)(dst \<mapsto> a)\<rparr>))
      | OpHide t _ del \<Rightarrow>
          Inr (if del then st\<lparr>ss_known := (\<lambda>k. if fst k = t then None else ss_known st k)\<rparr> else st)
      | OpLet dst (CTable t) aa \<Rightarrow>
          rbind (idx tables t) (\<lambda>tb.
          if \<not> t_constructor tb then Inr st
          else
            rbind (norm_args n (ss_aliases st) aa) (\<lambda>key.
            case ss_known st (t, key) of
              Some (v, j) \<Rightarrow>
                if dst < length (ss_slots st)
                then Inr (st\<lparr>ss_slots := (ss_slots st)[dst := Some v], ss_skip := (ss_skip st)[fst ie := True],
                  ss_aliases := (ss_aliases st)(dst \<mapsto> v), ss_json := ss_json st @ [static_json rid (fst ie) dst j]\<rparr>)
                else Inl Panic
            | None \<Rightarrow> Inr (st\<lparr>ss_known := (ss_known st)((t, key) \<mapsto> (Slot dst, JObj [(''slot'', JNum (int dst))]))\<rparr>)))
      | _ \<Rightarrow> Inr st)"

definition static_start :: "template \<Rightarrow> json list \<Rightarrow> static_state" where
  "static_start t js = \<lparr>ss_aliases = Map.empty, ss_known = Map.empty, ss_slots = replicate (length (tm_sorts t)) None,
     ss_skip = replicate (length (tm_ops t)) False, ss_json = js\<rparr>"

definition static_rule :: "program \<Rightarrow> nat set \<Rightarrow> nat \<Rightarrow> rule \<Rightarrow> json list \<Rightarrow> static_state res" where
  "static_rule p deleted rid r js =
     rbind (idx (p_templates p) (r_template r)) (\<lambda>t.
     rbind (rfold (know_atom p deleted rid) (enumerate 0 (r_query r)) (static_start t js)) (\<lambda>st.
     rfold (static_op (p_tables p) (copy_fuel (tm_ops t)) rid) (enumerate 0 (tm_ops t)) st))"

definition derive_static :: "program \<Rightarrow> nat set \<Rightarrow> nat \<times> rule \<Rightarrow> json list \<times> known_plans \<Rightarrow> (json list \<times> known_plans) res" where
  "derive_static p deleted ir acc =
     rbind (static_rule p deleted (fst ir) (snd ir) (fst acc)) (\<lambda>st.
     Inr (ss_json st, (snd acc)\<lparr>kp_static_slots := kp_static_slots (snd acc) @ [ss_slots st],
       kp_static_skip := kp_static_skip (snd acc) @ [ss_skip st]\<rparr>))"

section \<open>The document and the parser\<close>

definition known_contract :: json where
  "known_contract = JStr ''live canonical FactRef with identical full constructor key; dirty domains fall back; never skip set/union/guard''"

definition known_document :: "program \<Rightarrow> json list \<Rightarrow> json list \<Rightarrow> (string \<times> json) list" where
  "known_document p plans statics =
     [(''contract'', known_contract), (''plans'', JArr plans), (''recipe_sha256'', jfield (jfield (p_artifact p) ''recipe'') ''sha256''),
      (''schema'', JStr ''eggfuse-known-results/v1''), (''static_aliases'', JArr statics)]"

definition derive_known :: "program \<Rightarrow> (known_plans \<times> (string \<times> json) list) res" where
  "derive_known p =
     rbind (rfold (derive_rule p) (enumerate 0 (p_rules p)) ([], no_known)) (\<lambda>(plans, kp).
     rbind (deleted_tables p) (\<lambda>deleted.
     rbind (rfold (derive_static p deleted) (enumerate 0 (p_rules p)) ([], kp)) (\<lambda>(statics, kp1).
     Inr (kp1, known_document p plans statics))))"

definition parse_known :: "(string \<Rightarrow> string option) \<Rightarrow> program \<Rightarrow> json \<Rightarrow> known_plans res" where
  "parse_known env p raw =
     (if raw = JNull then
        (if env ''CELL_CPU_KNOWN_RESULTS'' \<in> Some ` {''on'', ''observe'', ''1'', ''value'', ''static''}
         then Inl (Err ''known results require re-emitting the CPU artifact'') else Inr no_known)
      else
        rbind (derive_known p) (\<lambda>(kp, doc).
        if jget raw ''static_aliases'' = None \<and> env_is env ''CELL_CPU_KNOWN_RESULTS'' ''static''
        then Inl (Err ''static aliases require re-emitting the CPU artifact'')
        else
          let expected = (if jget raw ''static_aliases'' = None then filter (\<lambda>kv. fst kv \<noteq> ''static_aliases'') doc else doc) in
          if raw \<noteq> JObj expected then Inl (Err ''known result projections differ from typed recipe'')
          else rbind (j_array (jfield raw ''plans'')) (\<lambda>_. Inr kp)))"


section \<open>What an effect may do\<close>

text \<open>
  The value that each constructor table gives a key, and the values of the slots. Nothing but a delete of a
  table removes a row of a constructor: a set or a construction only adds rows, and unions wait for repair.
\<close>

type_synonym rows = "nat \<Rightarrow> (val list \<rightharpoonup> val)"

definition keeps :: "table list \<Rightarrow> op \<Rightarrow> rows \<Rightarrow> rows \<Rightarrow> bool" where
  "keeps tables op S S' \<longleftrightarrow> (\<forall>t. t < length tables \<longrightarrow> t_constructor (tables ! t) \<longrightarrow> (\<forall>aa. op \<noteq> OpHide t aa True) \<longrightarrow> S t \<subseteq>\<^sub>m S' t)"

definition effect_may :: "table list \<Rightarrow> op \<Rightarrow> rows \<times> (nat \<Rightarrow> val) \<Rightarrow> rows \<times> (nat \<Rightarrow> val) \<Rightarrow> bool" where
  "effect_may tables op x y \<longleftrightarrow> keeps tables op (fst x) (fst y) \<and> (\<forall>s. op_dst op \<noteq> Some s \<longrightarrow> snd y s = snd x s) \<and>
     (case op of
        OpCopy d a \<Rightarrow> snd y d = arg_val (snd x) a
      | OpLet d (CTable t) aa \<Rightarrow> t_constructor (tables ! t) \<longrightarrow> fst y t (map (arg_val (snd x)) aa) = Some (snd y d)
      | _ \<Rightarrow> True)"

inductive effects_may :: "table list \<Rightarrow> op list \<Rightarrow> rows \<times> (nat \<Rightarrow> val) \<Rightarrow> nat \<Rightarrow> rows \<times> (nat \<Rightarrow> val) \<Rightarrow> bool"
  for tables ops x where
  start: "effects_may tables ops x 0 x"
| step: "effects_may tables ops x k y \<Longrightarrow> k < length ops \<Longrightarrow> effect_may tables (ops ! k) y z \<Longrightarrow> effects_may tables ops x (Suc k) z"

inductive_cases effects_may_0E: "effects_may tables ops x 0 z"
inductive_cases effects_may_SucE: "effects_may tables ops x (Suc k) z"

text \<open>The effects of other bindings between the match and the first effect of this one.\<close>

definition other_effect :: "program \<Rightarrow> rows \<Rightarrow> rows \<Rightarrow> bool" where
  "other_effect p S S' \<longleftrightarrow> (\<exists>r \<in> set (p_rules p). \<exists>op \<in> set (tm_ops (p_templates p ! r_template r)). keeps (p_tables p) op S S')"

definition query_holds :: "program \<Rightarrow> rule \<Rightarrow> rows \<Rightarrow> (nat \<Rightarrow> val) \<Rightarrow> bool" where
  "query_holds p r S e \<longleftrightarrow> (\<forall>a \<in> set (r_query r). \<forall>t. a_call a = CTable t \<longrightarrow> t < length (p_tables p) \<longrightarrow> t_constructor (p_tables p ! t) \<longrightarrow>
     S t (map (arg_val e) (butlast (a_args a))) = Some (arg_val e (last (a_args a))))"

section \<open>The pass over the effects\<close>

definition within :: "nat set \<Rightarrow> arg \<Rightarrow> bool" where
  "within U a \<longleftrightarrow> (\<forall>s. a = Slot s \<longrightarrow> s \<in> U)"

lemma within_same: "within U a \<Longrightarrow> (\<And>s. s \<in> U \<Longrightarrow> e' s = e s) \<Longrightarrow> arg_val e' a = arg_val e a"
  by (cases a) (auto simp: within_def)

lemma within_mono: "within U a \<Longrightarrow> U \<subseteq> V \<Longrightarrow> within V a"
  by (auto simp: within_def)

lemma norm_arg_within:
  "norm_arg n m a = Inr b \<Longrightarrow> (\<And>d c. m d = Some c \<Longrightarrow> within U c) \<Longrightarrow> within U a \<Longrightarrow> within U b"
proof (induction n m a rule: norm_arg.induct)
  case (2 n m a)
  show ?case
  proof (cases "\<exists>s c. a = Slot s \<and> m s = Some c")
    case True
    then obtain s c where s: "a = Slot s" "m s = Some c" by blast
    with 2(2) have run: "norm_arg n m c = Inr b" by simp
    show ?thesis by (rule 2(1) [OF s run]) (use 2(3) s(2) in blast)+
  next
    case False
    with 2(2) have "b = a" by (auto split: arg.splits option.splits)
    with 2(4) show ?thesis by simp
  qed
qed simp

lemma norm_arg_val: "norm_arg n m a = Inr b \<Longrightarrow> (\<And>d c. m d = Some c \<Longrightarrow> e d = arg_val e c) \<Longrightarrow> arg_val e b = arg_val e a"
proof (induction n m a rule: norm_arg.induct)
  case (2 n m a)
  show ?case
  proof (cases "\<exists>s c. a = Slot s \<and> m s = Some c")
    case True
    then obtain s c where s: "a = Slot s" "m s = Some c" by blast
    with 2(2) have run: "norm_arg n m c = Inr b" by simp
    from 2(1) [OF s run 2(3)] 2(3) [OF s(2)] show ?thesis by (simp add: s(1))
  next
    case False
    with 2(2) show ?thesis by (auto split: arg.splits option.splits)
  qed
qed simp

lemma norm_args_within:
  "norm_args n m as = Inr bs \<Longrightarrow> (\<And>d c. m d = Some c \<Longrightarrow> within U c) \<Longrightarrow> \<forall>a \<in> set as. within U a \<Longrightarrow> \<forall>b \<in> set bs. within U b"
  unfolding norm_args_def by (auto dest!: rmapM_mem intro: norm_arg_within)

lemma norm_args_val:
  assumes "norm_args n m as = Inr bs" "\<And>d c. m d = Some c \<Longrightarrow> e d = arg_val e c"
  shows "map (arg_val e) bs = map (arg_val e) as"
proof -
  have "list_all2 (\<lambda>a b. arg_val e b = arg_val e a) as bs"
    by (rule list_all2_mono [OF rmapM_Inr [OF assms(1) [unfolded norm_args_def]]]) (rule norm_arg_val [OF _ assms(2)])
  then show ?thesis by (induction rule: list_all2_induct) simp_all
qed

text \<open>What the state says after \<open>k\<close> effects: of every execution that begins in \<open>x\<close>.\<close>

definition static_inv :: "table list \<Rightarrow> op list \<Rightarrow> rows \<times> (nat \<Rightarrow> val) \<Rightarrow> nat set \<Rightarrow> nat \<Rightarrow> static_state \<Rightarrow> bool" where
  "static_inv tables ops x D k st \<longleftrightarrow>
     (let U = D \<union> defined_before ops k in
      (\<forall>d a. ss_aliases st d = Some a \<longrightarrow> d \<in> U \<and> within U a) \<and>
      (\<forall>t key a j. ss_known st (t, key) = Some (a, j) \<longrightarrow> t < length tables \<and> t_constructor (tables ! t) \<and> within U a \<and> (\<forall>b \<in> set key. within U b)) \<and>
      (\<forall>S e. effects_may tables ops x k (S, e) \<longrightarrow>
        (\<forall>d a. ss_aliases st d = Some a \<longrightarrow> e d = arg_val e a) \<and>
        (\<forall>t key a j. ss_known st (t, key) = Some (a, j) \<longrightarrow> S t (map (arg_val e) key) = Some (arg_val e a))))"

lemma defined_before_next: "k < length ops \<Longrightarrow> defined_before ops (Suc k) = defined_before ops k \<union> {d. op_dst (ops ! k) = Some d}"
  by (auto simp: defined_before_def less_Suc_eq)

lemma fresh_dst:
  assumes "ssa_template p D t" "k < length (tm_ops t)" "op_dst (tm_ops t ! k) = Some d"
  shows "d \<notin> D \<union> defined_before (tm_ops t) k"
proof -
  have k: "tm_defs t d = Some k" using assms by (simp add: ssa_template_def ssa_defs_def)
  then have "d \<notin> D" using assms(1) by (auto simp: ssa_template_def)
  moreover have "d \<notin> defined_before (tm_ops t) k"
  proof
    assume "d \<in> defined_before (tm_ops t) k"
    then obtain m where "m < k" "m < length (tm_ops t)" "op_dst (tm_ops t ! m) = Some d" by (auto simp: defined_before_def)
    then have "tm_defs t d = Some m" using assms(1) by (simp add: ssa_template_def ssa_defs_def)
    with k \<open>m < k\<close> show False by simp
  qed
  ultimately show ?thesis by simp
qed

text \<open>One effect keeps the knowledge that is not about a deleted table.\<close>

lemma effect_keeps_known:
  assumes "effect_may tables op (S, e) (S', e')" "\<And>d. op_dst op = Some d \<Longrightarrow> d \<notin> U" "t < length tables" "t_constructor (tables ! t)"
    and "\<And>aa. op \<noteq> OpHide t aa True" "within U a" "\<forall>b \<in> set key. within U b" "S t (map (arg_val e) key) = Some (arg_val e a)"
  shows "S' t (map (arg_val e') key) = Some (arg_val e' a)"
proof -
  have same: "e' s = e s" if "s \<in> U" for s using assms(1,2) that by (auto simp: effect_may_def)
  have "S t \<subseteq>\<^sub>m S' t" using assms(1,3,4,5) by (auto simp: effect_may_def keeps_def)
  moreover have "map (arg_val e') key = map (arg_val e) key" "arg_val e' a = arg_val e a"
    using assms(6,7) same by (auto intro: within_same)
  ultimately show ?thesis using assms(8) by (metis map_leD)
qed

lemma effect_keeps_alias:
  assumes "effect_may tables op (S, e) (S', e')" "\<And>d. op_dst op = Some d \<Longrightarrow> d \<notin> U" "d \<in> U" "within U a" "e d = arg_val e a"
  shows "e' d = arg_val e' a"
proof -
  have same: "e' s = e s" if "s \<in> U" for s using assms(1,2) that by (auto simp: effect_may_def)
  with assms(3,4,5) show ?thesis using within_same [of U a e' e] by simp
qed


text \<open>The aliases and the knowledge that an effect leaves valid, with one new alias or entry.\<close>

lemma static_inv_step:
  assumes "static_inv tables ops x D k st" "k < length ops"
    and fresh: "\<And>d. op_dst (ops ! k) = Some d \<Longrightarrow> d \<notin> D \<union> defined_before ops k"
    and al: "\<And>d a. ss_aliases st' d = Some a \<Longrightarrow> ss_aliases st d = Some a \<or>
      op_dst (ops ! k) = Some d \<and> within (D \<union> defined_before ops k) a \<and>
      (\<forall>S e S' e'. effects_may tables ops x k (S, e) \<longrightarrow> effect_may tables (ops ! k) (S, e) (S', e') \<longrightarrow> e' d = arg_val e a)"
    and kn: "\<And>t key a j. ss_known st' (t, key) = Some (a, j) \<Longrightarrow> (ss_known st (t, key) = Some (a, j) \<and> (\<forall>aa. ops ! k \<noteq> OpHide t aa True)) \<or>
      t < length tables \<and> t_constructor (tables ! t) \<and> (\<forall>b \<in> set key. within (D \<union> defined_before ops k) b) \<and>
      (\<exists>d. op_dst (ops ! k) = Some d \<and> a = Slot d) \<and>
      (\<forall>S e S' e'. effects_may tables ops x k (S, e) \<longrightarrow> effect_may tables (ops ! k) (S, e) (S', e') \<longrightarrow>
         S' t (map (arg_val e) key) = Some (arg_val e' a))"
  shows "static_inv tables ops x D (Suc k) st'"
proof -
  let ?U = "D \<union> defined_before ops k" and ?V = "D \<union> defined_before ops (Suc k)"
  have V: "?V = ?U \<union> {d. op_dst (ops ! k) = Some d}" by (auto simp: defined_before_next [OF assms(2)])
  have up: "?U \<subseteq> ?V" using V by blast
  from assms(1) have
    a0: "\<And>d a. ss_aliases st d = Some a \<Longrightarrow> d \<in> ?U \<and> within ?U a" and
    k0: "\<And>t key a j. ss_known st (t, key) = Some (a, j) \<Longrightarrow> t < length tables \<and> t_constructor (tables ! t) \<and> within ?U a \<and> (\<forall>b \<in> set key. within ?U b)" and
    v0: "\<And>S e. effects_may tables ops x k (S, e) \<Longrightarrow> (\<forall>d a. ss_aliases st d = Some a \<longrightarrow> e d = arg_val e a) \<and>
        (\<forall>t key a j. ss_known st (t, key) = Some (a, j) \<longrightarrow> S t (map (arg_val e) key) = Some (arg_val e a))"
    unfolding static_inv_def Let_def by blast+
  show ?thesis
    unfolding static_inv_def Let_def
  proof (intro conjI allI impI)
    fix d a assume "ss_aliases st' d = Some a"
    from al [OF this] a0 [of d a] show "d \<in> ?V" "within ?V a" using V within_mono [OF _ up] by auto
  next
    fix t key a j assume "ss_known st' (t, key) = Some (a, j)"
    from kn [OF this] k0 [of t key a j] show "t < length tables" "t_constructor (tables ! t)" "within ?V a"
      using V within_mono [OF _ up] by (auto simp: within_def)
  next
    fix t key a j assume "ss_known st' (t, key) = Some (a, j)"
    from kn [OF this] k0 [of t key a j] show "\<forall>b \<in> set key. within ?V b" using within_mono [OF _ up] by blast
  next
    fix S' e' d a assume run: "effects_may tables ops x (Suc k) (S', e')" and d: "ss_aliases st' d = Some a"
    from run obtain S e where pre: "effects_may tables ops x k (S, e)" "effect_may tables (ops ! k) (S, e) (S', e')"
      by (auto elim: effects_may_SucE)
    have same: "e' s = e s" if "s \<in> ?U" for s using pre(2) fresh that by (auto simp: effect_may_def)
    from al [OF d] show "e' d = arg_val e' a"
    proof
      assume old: "ss_aliases st d = Some a"
      with effect_keeps_alias [OF pre(2) fresh] a0 [OF old] v0 [OF pre(1)] show ?thesis by blast
    next
      assume new: "op_dst (ops ! k) = Some d \<and> within ?U a \<and>
        (\<forall>S e S' e'. effects_may tables ops x k (S, e) \<longrightarrow> effect_may tables (ops ! k) (S, e) (S', e') \<longrightarrow> e' d = arg_val e a)"
      with pre have "e' d = arg_val e a" by blast
      with within_same [of ?U a e' e] same new show ?thesis by simp
    qed
  next
    fix S' e' t key a j assume run: "effects_may tables ops x (Suc k) (S', e')" and d: "ss_known st' (t, key) = Some (a, j)"
    from run obtain S e where pre: "effects_may tables ops x k (S, e)" "effect_may tables (ops ! k) (S, e) (S', e')"
      by (auto elim: effects_may_SucE)
    have same: "e' s = e s" if "s \<in> ?U" for s using pre(2) fresh that by (auto simp: effect_may_def)
    from kn [OF d] show "S' t (map (arg_val e') key) = Some (arg_val e' a)"
    proof
      assume old: "ss_known st (t, key) = Some (a, j) \<and> (\<forall>aa. ops ! k \<noteq> OpHide t aa True)"
      then show ?thesis using effect_keeps_known [OF pre(2) fresh] k0 [of t key a j] v0 [OF pre(1)] by blast
    next
      assume new: "t < length tables \<and> t_constructor (tables ! t) \<and> (\<forall>b \<in> set key. within ?U b) \<and>
        (\<exists>d. op_dst (ops ! k) = Some d \<and> a = Slot d) \<and>
        (\<forall>S e S' e'. effects_may tables ops x k (S, e) \<longrightarrow> effect_may tables (ops ! k) (S, e) (S', e') \<longrightarrow>
           S' t (map (arg_val e) key) = Some (arg_val e' a))"
      with pre have "S' t (map (arg_val e) key) = Some (arg_val e' a)" by blast
      moreover have "map (arg_val e') key = map (arg_val e) key" using new same by (auto intro: within_same)
      ultimately show ?thesis by (simp only:)
    qed
  qed
qed

text \<open>The effects that the pass marks: one of two constructions of the same row.\<close>

definition skip_sound :: "table list \<Rightarrow> op list \<Rightarrow> rows \<times> (nat \<Rightarrow> val) \<Rightarrow> nat \<Rightarrow> static_state \<Rightarrow> bool" where
  "skip_sound tables ops x k st \<longleftrightarrow> length (ss_skip st) = length ops \<and> (\<forall>i < length ops. ss_skip st ! i \<longrightarrow> i < k \<and>
     (\<exists>d t aa v. ops ! i = OpLet d (CTable t) aa \<and> t < length tables \<and> t_constructor (tables ! t) \<and> d < length (ss_slots st) \<and> ss_slots st ! d = Some v \<and>
       (\<forall>S e. effects_may tables ops x i (S, e) \<longrightarrow> S t (map (arg_val e) aa) = Some (arg_val e v))))"

lemma static_op_step:
  assumes "static_op tables n rid (k, tm_ops tm ! k) st = Inr st'" "k < length (tm_ops tm)"
    and "ssa_template p D tm" "tables = p_tables p"
    and "static_inv tables (tm_ops tm) x D k st" "skip_sound tables (tm_ops tm) x k st"
  shows "static_inv tables (tm_ops tm) x D (Suc k) st' \<and> skip_sound tables (tm_ops tm) x (Suc k) st'"
proof -
  let ?ops = "tm_ops tm" let ?op = "?ops ! k" let ?U = "D \<union> defined_before ?ops k"
  note fresh = fresh_dst [OF assms(3,2)]
  have scope: "within ?U a" if "a \<in> set (op_args ?op)" for a
    using assms(2,3) that by (auto simp: ssa_template_def well_scoped_def slots_in_def within_def)
  from assms(5) have al: "\<And>d c. ss_aliases st d = Some c \<Longrightarrow> within ?U c"
    and val: "\<And>S e. effects_may tables ?ops x k (S, e) \<Longrightarrow> (\<forall>d a. ss_aliases st d = Some a \<longrightarrow> e d = arg_val e a) \<and>
        (\<forall>t key a j. ss_known st (t, key) = Some (a, j) \<longrightarrow> S t (map (arg_val e) key) = Some (arg_val e a))"
    and kn: "\<And>t key a j. ss_known st (t, key) = Some (a, j) \<Longrightarrow> within ?U a"
    unfolding static_inv_def Let_def by blast+
  have later: "skip_sound tables ?ops x (Suc k) st" using assms(6) by (auto simp: skip_sound_def)
  have keep: "static_inv tables ?ops x D (Suc k) st"  if "\<And>t aa. ?op = OpHide t aa True \<Longrightarrow> False"
    by (rule static_inv_step [OF assms(5,2) fresh]) (use that in blast)+
  show ?thesis
  proof (cases ?op)
    case (OpCopy d a)
    with assms(1) obtain a' where a': "norm_arg n (ss_aliases st) a = Inr a'" and st': "st' = st\<lparr>ss_aliases := (ss_aliases st)(d \<mapsto> a')\<rparr>"
      by (auto simp: static_op_def rbind_eq_Inr)
    have w: "within ?U a" by (rule scope) (simp add: OpCopy)
    have new: "within ?U a'" by (rule norm_arg_within [OF a' al w])
    have same: "arg_val e a' = arg_val e a" if "effects_may tables ?ops x k (S, e)" for S e
      by (rule norm_arg_val [OF a']) (use val [OF that] in blast)
    have "static_inv tables ?ops x D (Suc k) st'"
    proof (rule static_inv_step [OF assms(5,2) fresh])
      fix d' c assume "ss_aliases st' d' = Some c"
      then show "ss_aliases st d' = Some c \<or> op_dst ?op = Some d' \<and> within ?U c \<and>
          (\<forall>S e S' e'. effects_may tables ?ops x k (S, e) \<longrightarrow> effect_may tables ?op (S, e) (S', e') \<longrightarrow> e' d' = arg_val e c)"
        using new same by (auto simp: st' OpCopy effect_may_def split: if_splits)
    qed (use OpCopy in \<open>simp_all add: st'\<close>)
    then show ?thesis using later by (simp add: skip_sound_def st')
  next
    case (OpHide t aa del)
    with assms(1) have st': "st' = (if del then st\<lparr>ss_known := (\<lambda>k. if fst k = t then None else ss_known st k)\<rparr> else st)"
      by (simp add: static_op_def)
    have "static_inv tables ?ops x D (Suc k) st'"
      by (rule static_inv_step [OF assms(5,2) fresh]) (use OpHide in \<open>auto simp: st' split: if_splits\<close>)
    then show ?thesis using later by (simp add: skip_sound_def st')
  next
    case (OpLet d c aa)
    show ?thesis
    proof (cases "\<exists>t. c = CTable t \<and> t < length tables \<and> t_constructor (tables ! t)")
      case False
      with assms(1) OpLet have "st' = st" by (auto simp: static_op_def rbind_eq_Inr idx_eq_Inr split: call.splits if_splits)
      with keep later OpLet show ?thesis by simp
    next
      case True
      then obtain t where t: "c = CTable t" "t < length tables" "t_constructor (tables ! t)" by blast
      with assms(1) OpLet obtain key where key: "norm_args n (ss_aliases st) aa = Inr key"
        by (auto simp: static_op_def rbind_eq_Inr)
      have w: "\<And>a. a \<in> set aa \<Longrightarrow> within ?U a" by (rule scope) (simp add: OpLet)
      have kw: "\<forall>b \<in> set key. within ?U b" by (rule norm_args_within [OF key]) (use al w in blast)+
      have kv: "map (arg_val e) key = map (arg_val e) aa" if "effects_may tables ?ops x k (S, e)" for S e
        by (rule norm_args_val [OF key]) (use val [OF that] in blast)
      have made: "S t \<subseteq>\<^sub>m S' t \<and> S' t (map (arg_val e) key) = Some (e' d)"
        if "effects_may tables ?ops x k (S, e)" "effect_may tables ?op (S, e) (S', e')" for S e S' e'
        using that(2) t kv [OF that(1)] by (auto simp: OpLet effect_may_def keeps_def)
      show ?thesis
      proof (cases "ss_known st (t, key)")
        case None
        with assms(1) OpLet t key have st': "st' = st\<lparr>ss_known := (ss_known st)((t, key) \<mapsto> (Slot d, JObj [(''slot'', JNum (int d))]))\<rparr>"
          by (simp add: static_op_def)
        have "static_inv tables ?ops x D (Suc k) st'"
        proof (rule static_inv_step [OF assms(5,2) fresh])
          fix t' key' a j assume "ss_known st' (t', key') = Some (a, j)"
          then consider "t' = t" "key' = key" "a = Slot d" | "ss_known st (t', key') = Some (a, j)"
            by (auto simp: st' split: if_splits)
          then show "(ss_known st (t', key') = Some (a, j) \<and> (\<forall>aa. ?op \<noteq> OpHide t' aa True)) \<or>
              t' < length tables \<and> t_constructor (tables ! t') \<and> (\<forall>b \<in> set key'. within ?U b) \<and>
              (\<exists>d. op_dst ?op = Some d \<and> a = Slot d) \<and>
              (\<forall>S e S' e'. effects_may tables ?ops x k (S, e) \<longrightarrow> effect_may tables ?op (S, e) (S', e') \<longrightarrow>
                 S' t' (map (arg_val e) key') = Some (arg_val e' a))"
            by cases (use OpLet t kw made in simp_all)
        qed (simp_all add: st')
        then show ?thesis using later by (simp add: skip_sound_def st')
      next
        case (Some vj)
        obtain v j where vj: "vj = (v, j)" by (cases vj)
        with assms(1) OpLet t key Some have d: "d < length (ss_slots st)" and
          st': "st' = st\<lparr>ss_slots := (ss_slots st)[d := Some v], ss_skip := (ss_skip st)[k := True],
                  ss_aliases := (ss_aliases st)(d \<mapsto> v), ss_json := ss_json st @ [static_json rid k d j]\<rparr>"
          by (auto simp: static_op_def split: if_splits)
        have known: "S t (map (arg_val e) key) = Some (arg_val e v)" if "effects_may tables ?ops x k (S, e)" for S e
          using val [OF that] Some vj by blast
        have v: "within ?U v" using kn Some vj by blast
        have "static_inv tables ?ops x D (Suc k) st'"
        proof (rule static_inv_step [OF assms(5,2) fresh])
          fix d' c assume c: "ss_aliases st' d' = Some c"
          have "e' d = arg_val e v" if "effects_may tables ?ops x k (S, e)" "effect_may tables ?op (S, e) (S', e')" for S e S' e'
            using made [OF that] known [OF that(1)] by (auto dest: map_leD)
          with c v show "ss_aliases st d' = Some c \<or> op_dst ?op = Some d' \<and> within ?U c \<and>
              (\<forall>S e S' e'. effects_may tables ?ops x k (S, e) \<longrightarrow> effect_may tables ?op (S, e) (S', e') \<longrightarrow> e' d' = arg_val e c)"
            by (auto simp: st' OpLet split: if_splits)
        qed (use OpLet in \<open>simp_all add: st'\<close>)
        moreover have "skip_sound tables ?ops x (Suc k) st'"
          unfolding skip_sound_def
        proof (intro conjI allI impI)
          show "length (ss_skip st') = length ?ops" using assms(6) by (simp add: skip_sound_def st')
          fix i assume i: "i < length ?ops" "ss_skip st' ! i"
          have l: "length (ss_skip st) = length ?ops" using assms(6) by (simp add: skip_sound_def)
          show "i < Suc k" using i l assms(6) by (cases "i = k") (auto simp: skip_sound_def st')
          show "\<exists>d t aa v. ?ops ! i = OpLet d (CTable t) aa \<and> t < length tables \<and> t_constructor (tables ! t) \<and> d < length (ss_slots st') \<and>
              ss_slots st' ! d = Some v \<and> (\<forall>S e. effects_may tables ?ops x i (S, e) \<longrightarrow> S t (map (arg_val e) aa) = Some (arg_val e v))"
          proof (cases "i = k")
            case True
            have "\<forall>S e. effects_may tables ?ops x k (S, e) \<longrightarrow> S t (map (arg_val e) aa) = Some (arg_val e v)" using known kv by metis
            with True OpLet t d show ?thesis by (intro exI [of _ d] exI [of _ t] exI [of _ aa] exI [of _ v]) (simp add: st')
          next
            case False
            with i l have "ss_skip st ! i" by (simp add: st')
            with assms(6) i(1) obtain d0 t0 aa0 v0 where old: "i < k" "?ops ! i = OpLet d0 (CTable t0) aa0" "t0 < length tables"
                "t_constructor (tables ! t0)" "d0 < length (ss_slots st)" "ss_slots st ! d0 = Some v0"
                "\<forall>S e. effects_may tables ?ops x i (S, e) \<longrightarrow> S t0 (map (arg_val e) aa0) = Some (arg_val e v0)"
              unfolding skip_sound_def by blast
            have "d0 \<in> defined_before ?ops k" using old(1,2) i(1) by (auto simp: defined_before_def)
            then have "d0 \<noteq> d" using fresh [of d] OpLet by auto
            with old show ?thesis by (intro exI [of _ d0] exI [of _ t0] exI [of _ aa0] exI [of _ v0]) (simp add: st')
          qed
        qed
        ultimately show ?thesis by blast
      qed
    qed
  qed (use assms(1) keep later in \<open>auto simp: static_op_def\<close>)
qed


section \<open>The whole pass\<close>

lemma rfold_enumerate:
  assumes "rfold f (enumerate n xs) s = Inr s'" "P n s"
    and "\<And>k s s'. k < length xs \<Longrightarrow> P (n + k) s \<Longrightarrow> f (n + k, xs ! k) s = Inr s' \<Longrightarrow> P (Suc (n + k)) s'"
  shows "P (n + length xs) s'"
  using assms
proof (induction xs arbitrary: n s)
  case (Cons x xs)
  then obtain s1 where s1: "f (n, x) s = Inr s1" "rfold f (enumerate (Suc n) xs) s1 = Inr s'" by (auto simp: rbind_eq_Inr)
  have "P (Suc n) s1" using Cons.prems(3) [of 0 s s1] Cons.prems(2) s1(1) by simp
  moreover have "P (Suc (Suc n + k)) t" if "k < length xs" "P (Suc n + k) u" "f (Suc n + k, xs ! k) u = Inr t" for k u t
    using Cons.prems(3) [of "Suc k" u t] that by simp
  ultimately show ?case using Cons.IH [OF s1(2)] by simp
qed simp

definition query_known :: "program \<Rightarrow> nat set \<Rightarrow> rule \<Rightarrow> static_state \<Rightarrow> bool" where
  "query_known p deleted r st \<longleftrightarrow> (\<forall>t key a j. ss_known st (t, key) = Some (a, j) \<longrightarrow> t < length (p_tables p) \<and> t_constructor (p_tables p ! t) \<and>
     t \<notin> deleted \<and> (\<exists>q \<in> set (r_query r). a_call q = CTable t \<and> a_args q \<noteq> [] \<and> key = butlast (a_args q) \<and> a = last (a_args q)))"

lemma know_atom_result:
  assumes "know_atom p deleted rid (k, q) st = Inr st'"
  shows "st' = st \<or> (\<exists>t j. a_call q = CTable t \<and> t < length (p_tables p) \<and> t_constructor (p_tables p ! t) \<and> t \<notin> deleted \<and> a_args q \<noteq> [] \<and>
    st' = st\<lparr>ss_known := (ss_known st)((t, butlast (a_args q)) \<mapsto> (last (a_args q), j))\<rparr>)"
  using assms by (auto simp: know_atom_def rbind_eq_Inr idx_eq_Inr Let_def split: call.splits if_splits)

lemma query_known_add:
  assumes "query_known p deleted r st" "q \<in> set (r_query r)" "a_call q = CTable t" "t < length (p_tables p)" "t_constructor (p_tables p ! t)"
    and "t \<notin> deleted" "a_args q \<noteq> []"
  shows "query_known p deleted r (st\<lparr>ss_known := (ss_known st)((t, butlast (a_args q)) \<mapsto> (last (a_args q), j))\<rparr>)"
  unfolding query_known_def
proof (intro allI impI)
  fix t' key a j'
  assume "ss_known (st\<lparr>ss_known := (ss_known st)((t, butlast (a_args q)) \<mapsto> (last (a_args q), j))\<rparr>) (t', key) = Some (a, j')"
  then consider "t' = t" "key = butlast (a_args q)" "a = last (a_args q)" | "ss_known st (t', key) = Some (a, j')"
    by (auto split: if_splits)
  then show "t' < length (p_tables p) \<and> t_constructor (p_tables p ! t') \<and> t' \<notin> deleted \<and>
      (\<exists>q \<in> set (r_query r). a_call q = CTable t' \<and> a_args q \<noteq> [] \<and> key = butlast (a_args q) \<and> a = last (a_args q))"
  proof cases
    case 1
    then show ?thesis using assms(2-) by blast
  next
    case 2
    then show ?thesis using assms(1) unfolding query_known_def by blast
  qed
qed

lemma know_atoms:
  assumes "rfold (know_atom p deleted rid) (enumerate 0 (r_query r)) (static_start t js) = Inr st"
  shows "query_known p deleted r st \<and> ss_aliases st = Map.empty \<and> ss_skip st = replicate (length (tm_ops t)) False"
proof -
  let ?P = "\<lambda>k::nat. \<lambda>st. query_known p deleted r st \<and> ss_aliases st = Map.empty \<and> ss_skip st = replicate (length (tm_ops t)) False"
  have "?P (0 + length (r_query r)) st"
  proof (rule rfold_enumerate [OF assms])
    show "?P 0 (static_start t js)" by (simp add: static_start_def query_known_def)
    fix k st st' assume k: "k < length (r_query r)" and P: "?P (0 + k) st" and run: "know_atom p deleted rid (0 + k, r_query r ! k) st = Inr st'"
    from know_atom_result [OF run] show "?P (Suc (0 + k)) st'"
    proof
      assume "\<exists>t j. a_call (r_query r ! k) = CTable t \<and> t < length (p_tables p) \<and> t_constructor (p_tables p ! t) \<and> t \<notin> deleted \<and>
        a_args (r_query r ! k) \<noteq> [] \<and>
        st' = st\<lparr>ss_known := (ss_known st)((t, butlast (a_args (r_query r ! k))) \<mapsto> (last (a_args (r_query r ! k)), j))\<rparr>"
      then show ?thesis using query_known_add [of p deleted r st "r_query r ! k"] P nth_mem [OF k] by auto
    qed (use P in simp)
  qed
  then show ?thesis by simp
qed

lemma deleted_kept:
  assumes "deleted_tables p = Inr deleted" "(other_effect p)\<^sup>*\<^sup>* S S'" "t \<notin> deleted" "t < length (p_tables p)" "t_constructor (p_tables p ! t)"
  shows "S t \<subseteq>\<^sub>m S' t"
  using assms(2)
proof (induction rule: rtranclp_induct)
  case (step S1 S2)
  from step(2) obtain r op where r: "r \<in> set (p_rules p)" "op \<in> set (tm_ops (p_templates p ! r_template r))" "keeps (p_tables p) op S1 S2"
    by (auto simp: other_effect_def)
  have "op \<noteq> OpHide t aa True" for aa
  proof
    assume op: "op = OpHide t aa True"
    from assms(1) obtain ts where ts: "rmapM (\<lambda>r. idx (p_templates p) (r_template r)) (p_rules p) = Inr ts" "deleted = (\<Union>t \<in> set ts. rule_deletes t)"
      by (auto simp: deleted_tables_def rmap_def rbind_eq_Inr)
    from rmapM_Inr [OF ts(1)] r(1) have "p_templates p ! r_template r \<in> set ts"
      by (auto simp: list_all2_conv_all_nth in_set_conv_nth idx_eq_Inr)
    moreover have "t \<in> rule_deletes (p_templates p ! r_template r)"
      using r(2) op by (force simp: rule_deletes_def map_filter_def)
    ultimately show False using assms(3) ts(2) by blast
  qed
  then have "S1 t \<subseteq>\<^sub>m S2 t" using r(3) assms(4,5) by (auto simp: keeps_def)
  with step(3) show ?case by (rule map_le_trans)
qed simp

lemma static_rule_sound:
  assumes "static_rule p deleted rid r js = Inr st" "deleted_tables p = Inr deleted" "wf_rule p r"
    and "\<forall>s \<in> set (r_inputs r). tm_defs (p_templates p ! r_template r) s = None"
    and "query_holds p r S0 e0" "(other_effect p)\<^sup>*\<^sup>* S0 S1"
  shows "skip_sound (p_tables p) (tm_ops (p_templates p ! r_template r)) (S1, e0) (length (tm_ops (p_templates p ! r_template r))) st"
proof -
  let ?t = "p_templates p ! r_template r" let ?D = "set (r_inputs r)" let ?ops = "tm_ops ?t" let ?x = "(S1, e0)"
  from assms(3,4) have ssa: "ssa_template p ?D ?t" by (simp add: wf_rule_def ssa_template_def Let_def)
  from assms(1) obtain st0 where st0: "rfold (know_atom p deleted rid) (enumerate 0 (r_query r)) (static_start ?t js) = Inr st0"
    and run: "rfold (static_op (p_tables p) (copy_fuel ?ops) rid) (enumerate 0 ?ops) st0 = Inr st"
    by (auto simp: static_rule_def rbind_eq_Inr idx_eq_Inr)
  note know = know_atoms [OF st0]
  have slots: "within ?D a" if "q \<in> set (r_query r)" "a \<in> set (a_args q)" for q a
    using assms(3) that by (auto simp: wf_rule_def Let_def wf_query_atom_def slots_in_def within_def)
  have zero: "static_inv (p_tables p) ?ops ?x ?D 0 st0"
    unfolding static_inv_def Let_def
  proof (intro conjI allI impI)
    fix t key a j assume k: "ss_known st0 (t, key) = Some (a, j)"
    with know obtain q where q: "q \<in> set (r_query r)" "a_call q = CTable t" "a_args q \<noteq> []" "key = butlast (a_args q)" "a = last (a_args q)"
      and t: "t < length (p_tables p)" "t_constructor (p_tables p ! t)" "t \<notin> deleted" unfolding query_known_def by blast
    show "t < length (p_tables p)" "t_constructor (p_tables p ! t)" by (rule t)+
    have "within ?D b" if "b \<in> insert a (set key)" for b
      using that q(3-5) by (auto dest: in_set_butlastD intro!: slots [OF q(1)])
    then show "within (?D \<union> defined_before ?ops 0) a" "\<forall>b \<in> set key. within (?D \<union> defined_before ?ops 0) b"
      by (blast intro: within_mono)+
    fix S e assume "effects_may (p_tables p) ?ops ?x 0 (S, e)"
    then have S: "S = S1" "e = e0" by (auto elim: effects_may_0E)
    have "S0 t (map (arg_val e0) key) = Some (arg_val e0 a)" using assms(5) q t unfolding query_holds_def by blast
    with deleted_kept [OF assms(2,6) t(3,1,2)] show "S t (map (arg_val e) key) = Some (arg_val e a)" unfolding S by (rule map_leD)
  qed (use know in simp_all)
  let ?P = "\<lambda>k st. static_inv (p_tables p) ?ops ?x ?D k st \<and> skip_sound (p_tables p) ?ops ?x k st"
  have "?P (0 + length ?ops) st"
  proof (rule rfold_enumerate [OF run])
    show "?P 0 st0" using zero know by (simp add: skip_sound_def)
    fix k st st' assume "k < length ?ops" "?P (0 + k) st" "static_op (p_tables p) (copy_fuel ?ops) rid (0 + k, ?ops ! k) st = Inr st'"
    then show "?P (Suc (0 + k)) st'" using static_op_step [OF _ _ ssa refl] by auto
  qed
  then show ?thesis by simp
qed


section \<open>The accepted plan\<close>

lemma derive_statics:
  assumes "rfold (derive_static p deleted) (enumerate n rs) (js, kp) = Inr (js', kp')"
  shows "\<exists>sk sl. kp_static_skip kp' = kp_static_skip kp @ sk \<and> kp_static_slots kp' = kp_static_slots kp @ sl \<and>
    length sk = length rs \<and> length sl = length rs \<and>
    (\<forall>i < length rs. \<exists>js st. static_rule p deleted (n + i) (rs ! i) js = Inr st \<and> sk ! i = ss_skip st \<and> sl ! i = ss_slots st)"
  using assms
proof (induction rs arbitrary: n js kp)
  case (Cons r rs)
  then obtain s1 where s1: "derive_static p deleted (n, r) (js, kp) = Inr s1" "rfold (derive_static p deleted) (enumerate (Suc n) rs) s1 = Inr (js', kp')"
    by (auto simp: rbind_eq_Inr)
  then obtain st where st: "static_rule p deleted n r js = Inr st" and
    rest: "rfold (derive_static p deleted) (enumerate (Suc n) rs) (ss_json st, kp\<lparr>kp_static_slots := kp_static_slots kp @ [ss_slots st],
       kp_static_skip := kp_static_skip kp @ [ss_skip st]\<rparr>) = Inr (js', kp')"
    by (auto simp: derive_static_def rbind_eq_Inr)
  from Cons.IH [OF rest] obtain sk sl where ih: "kp_static_skip kp' = kp_static_skip kp @ ss_skip st # sk"
    "kp_static_slots kp' = kp_static_slots kp @ ss_slots st # sl" "length sk = length rs" "length sl = length rs"
    "\<forall>i < length rs. \<exists>js st. static_rule p deleted (Suc n + i) (rs ! i) js = Inr st \<and> sk ! i = ss_skip st \<and> sl ! i = ss_slots st"
    by auto
  have "\<exists>js st'. static_rule p deleted (n + i) ((r # rs) ! i) js = Inr st' \<and> (ss_skip st # sk) ! i = ss_skip st' \<and> (ss_slots st # sl) ! i = ss_slots st'"
    if "i < length (r # rs)" for i
  proof (cases i)
    case 0
    then show ?thesis using st by auto
  next
    case (Suc k)
    then show ?thesis using ih(5) that by simp
  qed
  with ih show ?case by (intro exI [of _ "ss_skip st # sk"] exI [of _ "ss_slots st # sl"]) simp
qed simp

lemma add_plan_statics:
  "add_plan rid ops op found st = Inr st' \<Longrightarrow> kp_static_skip (snd st') = kp_static_skip (snd st) \<and>
    kp_static_slots (snd st') = kp_static_slots (snd st)"
  by (cases st; cases found; cases "fst found") (auto simp: add_plan_def rbind_eq_Inr Let_def)

lemma derive_op_statics:
  "derive_op tables n m rid ops rows ie st = Inr st' \<Longrightarrow> kp_static_skip (snd st') = kp_static_skip (snd st) \<and>
    kp_static_slots (snd st') = kp_static_slots (snd st)"
  by (auto simp: derive_op_def rbind_eq_Inr dest: add_plan_statics split: op.splits call.splits if_splits option.splits)

lemma derive_rules_statics:
  assumes "rfold (derive_rule p) irs (js, kp) = Inr (js', kp')"
  shows "kp_static_skip kp' = kp_static_skip kp \<and> kp_static_slots kp' = kp_static_slots kp"
proof -
  let ?P = "\<lambda>st :: json list \<times> known_plans. kp_static_skip (snd st) = kp_static_skip kp \<and> kp_static_slots (snd st) = kp_static_slots kp"
  have "?P (js', kp')"
  proof (rule rfold_invariant [OF assms])
    fix ir a b assume a: "?P a" and "derive_rule p ir a = Inr b"
    then obtain n m rid ops rows where run: "rfold (derive_op (p_tables p) n m rid ops rows) (enumerate 0 ops) a = Inr b"
      by (auto simp: derive_rule_def rbind_eq_Inr Let_def split: prod.splits)
    show "?P b" by (rule rfold_invariant [OF run]) (use a derive_op_statics in auto)
  qed simp
  then show ?thesis by simp
qed

lemma parse_known_statics:
  assumes "parse_known env p raw = Inr kp" "raw \<noteq> JNull" "rid < length (p_rules p)"
  shows "\<exists>deleted js st. deleted_tables p = Inr deleted \<and> static_rule p deleted rid (p_rules p ! rid) js = Inr st \<and>
    kp_static_skip kp ! rid = ss_skip st \<and> kp_static_slots kp ! rid = ss_slots st"
proof -
  from assms(1,2) obtain doc where "derive_known p = Inr (kp, doc)"
    by (auto simp: parse_known_def rbind_eq_Inr Let_def split: if_splits)
  then obtain plans kp0 deleted statics where
    plans: "rfold (derive_rule p) (enumerate 0 (p_rules p)) ([], no_known) = Inr (plans, kp0)" and del: "deleted_tables p = Inr deleted" and
    statics: "rfold (derive_static p deleted) (enumerate 0 (p_rules p)) ([], kp0) = Inr (statics, kp)"
    by (auto simp: derive_known_def rbind_eq_Inr)
  have "kp_static_skip kp0 = []" "kp_static_slots kp0 = []" using derive_rules_statics [OF plans] by (simp_all add: no_known_def)
  with derive_statics [OF statics] del assms(3) show ?thesis by auto
qed

text \<open>
  C14. Skipping a constructor that is statically known changes nothing. Under an accepted known result plan, let
  the query of a rule hold when it was matched, let effects of any rules happen before its own, and let its
  effects run up to one that the plan skips: then this effect constructs a row that exists already, and the
  value of this row is the value of the alias from which the slot is read instead. No input of the rule may be
  the destination of one of its effects, and the effects (\<open>effects_may\<close>, \<open>other_effect\<close>) are an abstraction that
  allows any result the operation may have on the rows.
\<close>

theorem static_skip_sound:
  assumes "parse_known env p raw = Inr kp" "raw \<noteq> JNull" "wf_program p" "rid < length (p_rules p)"
    and "p_rules p ! rid = r" "p_templates p ! rid = tm" "\<forall>s \<in> set (r_inputs r). tm_defs tm s = None"
    and "query_holds p r S0 e0" "(other_effect p)\<^sup>*\<^sup>* S0 S1"
    and "effects_may (p_tables p) (tm_ops tm) (S1, e0) i (S, e)" "i < length (tm_ops tm)" "kp_static_skip kp ! rid ! i"
  shows "\<exists>d t aa v. tm_ops tm ! i = OpLet d (CTable t) aa \<and> t_constructor (p_tables p ! t) \<and>
    kp_static_slots kp ! rid ! d = Some v \<and> S t (map (arg_val e) aa) = Some (arg_val e v)"
proof -
  from assms(3-6) have t: "p_templates p ! r_template r = tm" "wf_rule p r" by (auto simp: wf_program_def)
  from parse_known_statics [OF assms(1,2,4)] obtain deleted js st where
    st: "deleted_tables p = Inr deleted" "static_rule p deleted rid r js = Inr st"
      "kp_static_skip kp ! rid = ss_skip st" "kp_static_slots kp ! rid = ss_slots st" unfolding assms(5) by blast
  have "skip_sound (p_tables p) (tm_ops tm) (S1, e0) (length (tm_ops tm)) st"
    using static_rule_sound [OF st(2,1) t(2) _ assms(8,9)] assms(7) unfolding t(1) by blast
  then show ?thesis using assms(10-12) unfolding skip_sound_def st(3,4) by blast
qed

text \<open>The rule \<open>F(a) = b \<Longrightarrow> c = F(a)\<close>, whose construction is skipped.\<close>

definition alias_program :: program where
  "alias_program = \<lparr>p_known_results = no_known, p_merge_programs = no_merges, p_views = no_views,
     p_congruence = no_congruence, p_tables = [unary],
     p_templates = [\<lparr>tm_name = ''again'', tm_sorts = [eq_sort, eq_sort, eq_sort], tm_defs = [2 \<mapsto> 0],
       tm_ops = [OpLet 2 (CTable 0) [Slot 0]], tm_parent_columns = Map.empty\<rparr>, import_template 0 unary],
     p_rules = [\<lparr>r_constructor_only = True, r_template = 0, r_query = [\<lparr>a_call = CTable 0, a_args = [Slot 0, Slot 1]\<rparr>],
       r_inputs = [0, 1], r_seminaive = True, r_direct = Some 0\<rparr>],
     p_sets = Map.empty, p_control = [], p_initial = [], p_table_templates = [1],
     p_artifact = JObj [(''recipe'', JObj [(''rules'', JArr [JObj [(''query'', JArr [JObj [(''args'', JArr [slot_ref 0, slot_ref 1])]])]])])]\<rparr>"

definition alias_document :: json where
  "alias_document = (case derive_known alias_program of Inr (kp, doc) \<Rightarrow> JObj doc | Inl _ \<Rightarrow> JNull)"

definition alias_plans :: known_plans where
  "alias_plans = projr (parse_known (\<lambda>_. None) alias_program alias_document)"

lemma alias_parses: "parse_known (\<lambda>_. None) alias_program alias_document = Inr alias_plans" "alias_document \<noteq> JNull"
  "kp_static_skip alias_plans = [[True]]"
proof -
  have "\<not> isl (parse_known (\<lambda>_. None) alias_program alias_document)" by code_simp
  then show "parse_known (\<lambda>_. None) alias_program alias_document = Inr alias_plans"
    by (cases "parse_known (\<lambda>_. None) alias_program alias_document") (simp_all add: alias_plans_def)
  show "alias_document \<noteq> JNull" "kp_static_skip alias_plans = [[True]]" by code_simp+
qed

lemma alias_wf: "wf_program alias_program"
  by (auto simp: wf_program_def alias_program_def unary_def wf_rule_def Let_def ssa_defs_def well_scoped_def defined_before_def
      slots_in_def wf_query_atom_def less_Suc_eq split: if_splits)

lemma static_skip_sound_witness:
  "\<exists>v. kp_static_slots alias_plans ! 0 ! 2 = Some v \<and> arg_val (\<lambda>s. if s = 0 then VEq 5 else VEq 7) v = VEq 7"
proof -
  let ?e = "\<lambda>s :: nat. if s = 0 then VEq 5 else VEq 7"
  let ?S = "\<lambda>t :: nat. [[VEq 5] \<mapsto> VEq 7]"
  have p: "0 < length (p_rules alias_program)" "\<forall>s \<in> set (r_inputs (p_rules alias_program ! 0)). tm_defs (p_templates alias_program ! 0) s = None"
    "0 < length (tm_ops (p_templates alias_program ! 0))" "kp_static_skip alias_plans ! 0 ! 0"
    "tm_ops (p_templates alias_program ! 0) = [OpLet 2 (CTable 0) [Slot 0]]"
    by (simp_all add: alias_program_def alias_parses(3))
  have "query_holds alias_program (p_rules alias_program ! 0) ?S ?e" by (simp add: query_holds_def alias_program_def)
  from static_skip_sound [OF alias_parses(1,2) alias_wf p(1) refl refl p(2) this rtranclp.rtrancl_refl effects_may.start p(3,4)]
  show ?thesis by (auto simp: p(5))
qed

end
