(* ===== verification/EntrySchedule.thy ===== *)
theory EntrySchedule
  imports RowSource Multistage
begin

text \<open>
  Shared entry nodes, \<open>engine/cell-runtime/src/entry_schedule.rs\<close>. The plan gives one node to all atoms
  of semi-naive rules that have the same table and the same pattern; \<open>derive\<close> computes it and \<open>parse\<close>
  accepts exactly what \<open>derive\<close> gives. The scheduler keeps for each node the rows that match its
  pattern with the values they bind (packets); \<open>publish\<close> marks the witnesses that changed, \<open>refresh\<close>
  decodes only those, and \<open>seeds\<close> gives a rule the packets since its watermark. Counters are left out;
  the sharing of packets by reference counts is equality of values here.
\<close>

section \<open>The plan\<close>

record entry_node =
  en_table :: nat
  en_args :: "arg list"
  en_ports :: nat
  en_literal_identity :: bool

record consumer =
  ec_node :: nat
  ec_atom :: nat
  ec_projection :: "nat option list"

record entry_plan =
  ep_nodes :: "entry_node list"
  ep_rules :: "consumer list list"
  ep_tables :: "nat list list"

fun identity :: "val \<Rightarrow> bool" where
  "identity (VEq _) = True"
| "identity (VSet xs) = (\<exists>x \<in> set xs. identity x)"
| "identity _ = False"

text \<open>The pattern of an atom: slots are numbered by their first occurrence.\<close>

record pattern =
  pt_slots :: "nat list"
  pt_projection :: "nat option list"
  pt_pairs :: "json list"
  pt_args :: "arg list"
  pt_json :: "json list"

text \<open>
  The map \<open>slots\<close> gives each slot the number of slots before it, so it is kept as the list of its keys in
  the order of their numbers.
\<close>

definition port_of :: "nat list \<Rightarrow> nat \<Rightarrow> nat option" where
  "port_of slots i = find (\<lambda>n. slots ! n = i) [0..<length slots]"

definition port_json :: "nat \<Rightarrow> nat \<Rightarrow> json" where
  "port_json i port = JObj [(''port'', JNum (int port)), (''slot'', JNum (int i))]"

definition pattern_slot :: "nat \<Rightarrow> pattern \<Rightarrow> pattern res" where
  "pattern_slot i pt =
     (let (port, slots) = (case port_of (pt_slots pt) i of
            Some n \<Rightarrow> (n, pt_slots pt) | None \<Rightarrow> (length (pt_slots pt), pt_slots pt @ [i])) in
      rbind (idx (pt_projection pt) i) (\<lambda>old.
      Inr \<lparr>pt_slots = slots,
        pt_projection = (if old = None then (pt_projection pt)[i := Some port] else pt_projection pt),
        pt_pairs = (if old = None then pt_pairs pt @ [port_json i port] else pt_pairs pt),
        pt_args = pt_args pt @ [Slot port], pt_json = pt_json pt @ [JObj [(''slot'', JNum (int port))]]\<rparr>))"

definition pattern_literal :: "val \<Rightarrow> json \<Rightarrow> pattern \<Rightarrow> pattern res" where
  "pattern_literal v j pt = Inr (pt\<lparr>pt_args := pt_args pt @ [Literal v], pt_json := pt_json pt @ [j]\<rparr>)"

definition literal_json :: "json \<Rightarrow> nat \<Rightarrow> nat \<Rightarrow> nat \<Rightarrow> json" where
  "literal_json artifact rid atom col =
     jat (jfield (jat (jfield (jat (jfield (jfield artifact ''recipe'') ''rules'') rid) ''query'') atom) ''args'') col"

definition pattern_arg :: "json \<Rightarrow> nat \<Rightarrow> nat \<Rightarrow> nat \<times> arg \<Rightarrow> pattern \<Rightarrow> pattern res" where
  "pattern_arg artifact rid atom cv pt =
     (case snd cv of
        Slot i \<Rightarrow> pattern_slot i pt
      | Literal v \<Rightarrow> pattern_literal v (literal_json artifact rid atom (fst cv)) pt)"

definition pattern_of :: "json \<Rightarrow> nat \<Rightarrow> nat \<Rightarrow> nat \<Rightarrow> arg list \<Rightarrow> pattern res" where
  "pattern_of artifact rid atom n args =
     rfold (pattern_arg artifact rid atom) (enumerate 0 args)
       \<lparr>pt_slots = [], pt_projection = replicate n None, pt_pairs = [], pt_args = [], pt_json = []\<rparr>"

text \<open>
  The state of \<open>derive\<close>: the nodes (a node's number is its position), the numbers of the patterns, the
  nodes of each table, and the parts of the document: table, arguments and ports of each node and the
  list of its consumers. A pattern gets a number exactly when its node is pushed, so the number of
  patterns is the number of nodes.
\<close>

record deriving =
  dv_nodes :: "entry_node list"
  dv_ids :: "nat \<times> arg list \<rightharpoonup> nat"
  dv_tables :: "nat list list"
  dv_headers :: "(string \<times> json list \<times> nat) list"
  dv_consumers :: "json list list"

definition consumer_json :: "nat \<Rightarrow> nat \<Rightarrow> json list \<Rightarrow> json" where
  "consumer_json rid atom pairs =
     JObj [(''atom'', JNum (int atom)), (''rule'', JNum (int rid)), (''slots'', JArr pairs)]"

definition literal_identities :: "arg list \<Rightarrow> bool" where
  "literal_identities args = list_ex (\<lambda>a. case a of Literal v \<Rightarrow> identity v | Slot _ \<Rightarrow> False) args"

definition push_at :: "nat \<Rightarrow> 'a \<Rightarrow> 'a list list \<Rightarrow> 'a list list res" where
  "push_at i x xss = rbind (idx xss i) (\<lambda>xs. Inr (xss[i := xs @ [x]]))"

definition node_of :: "program \<Rightarrow> nat \<Rightarrow> arg list \<Rightarrow> pattern \<Rightarrow> deriving \<Rightarrow> (deriving \<times> nat) res" where
  "node_of p t args pt dv =
     (case dv_ids dv (t, pt_args pt) of
        Some i \<Rightarrow> Inr (dv, i)
      | None \<Rightarrow>
          let i = length (dv_nodes dv) in
          rbind (push_at t i (dv_tables dv)) (\<lambda>tables.
          rbind (idx (p_tables p) t) (\<lambda>tb.
          Inr (\<lparr>dv_nodes = dv_nodes dv @ [\<lparr>en_table = t, en_args = pt_args pt, en_ports = length (pt_slots pt),
                   en_literal_identity = literal_identities args\<rparr>],
                 dv_ids = (dv_ids dv)((t, pt_args pt) \<mapsto> i), dv_tables = tables,
                 dv_headers = dv_headers dv @ [(t_name tb, pt_json pt, length (pt_slots pt))],
                 dv_consumers = dv_consumers dv @ [[]]\<rparr>, i))))"

definition derive_atom :: "program \<Rightarrow> nat \<Rightarrow> rule \<Rightarrow> nat \<times> atom \<Rightarrow> deriving \<times> consumer list
    \<Rightarrow> (deriving \<times> consumer list) res" where
  "derive_atom p rid r ia st =
     (case a_call (snd ia) of
        CPrim _ _ \<Rightarrow> Inr st
      | CTable t \<Rightarrow>
          rbind (idx (p_templates p) (r_template r)) (\<lambda>tm.
          rbind (pattern_of (p_artifact p) rid (fst ia) (length (tm_sorts tm)) (a_args (snd ia))) (\<lambda>pt.
          rbind (node_of p t (a_args (snd ia)) pt (fst st)) (\<lambda>(dv, i).
          rbind (push_at i (consumer_json rid (fst ia) (pt_pairs pt)) (dv_consumers dv)) (\<lambda>cs.
          Inr (dv\<lparr>dv_consumers := cs\<rparr>,
               snd st @ [\<lparr>ec_node = i, ec_atom = fst ia, ec_projection = pt_projection pt\<rparr>]))))))"

definition derive_entry_rule :: "program \<Rightarrow> nat \<times> rule \<Rightarrow> deriving \<times> consumer list list
    \<Rightarrow> (deriving \<times> consumer list list) res" where
  "derive_entry_rule p ir st =
     (if \<not> r_seminaive (snd ir) then Inr (fst st, snd st @ [[]])
      else
        rbind (rfold (derive_atom p (fst ir) (snd ir)) (enumerate 0 (r_query (snd ir))) (fst st, [])) (\<lambda>(dv, cs).
        Inr (dv, snd st @ [cs])))"

definition entry_contract :: json where
  "entry_contract =
     JObj [(''delivery'', JStr ''independent consumer watermarks; original RHS publication''),
       (''input'', JStr ''committed current row changes, coalesced before a legal consumer Run''),
       (''invalidation'', JStr ''old/new witnesses, visibility, canonical identities and same-key forwarding''),
       (''result'', JStr ''complete correlated entry parameters and witness epoch''),
       (''scope'', JStr ''table entry nodes; residual queries and guards remain exact'')]"

definition node_json :: "nat \<times> (string \<times> json list \<times> nat) \<times> json list \<Rightarrow> json" where
  "node_json ihc =
     (case ihc of (i, (name, args, ports), consumers) \<Rightarrow>
       JObj [(''args'', JArr args), (''consumers'', JArr consumers), (''id'', JNum (int i)),
         (''ports'', JNum (int ports)), (''table'', JStr name)])"

definition entry_document :: "program \<Rightarrow> deriving \<Rightarrow> json" where
  "entry_document p dv =
     (let recipe = jfield (p_artifact p) ''recipe'' in
      JObj [(''contract'', entry_contract), (''control'', jfield recipe ''control''),
        (''nodes'', JArr (map node_json (enumerate 0 (zip (dv_headers dv) (dv_consumers dv))))),
        (''recipe_sha256'', jfield recipe ''sha256''), (''schema'', JStr ''eggfuse-entry-schedule/v1'')])"

definition derive_entries :: "program \<Rightarrow> (entry_plan \<times> json) res" where
  "derive_entries p =
     rbind (rfold (derive_entry_rule p) (enumerate 0 (p_rules p))
       (\<lparr>dv_nodes = [], dv_ids = Map.empty, dv_tables = replicate (length (p_tables p)) [], dv_headers = [],
         dv_consumers = []\<rparr>, [])) (\<lambda>(dv, rules).
     Inr (\<lparr>ep_nodes = dv_nodes dv, ep_rules = rules, ep_tables = dv_tables dv\<rparr>, entry_document p dv))"

definition no_entries :: entry_plan where
  "no_entries = \<lparr>ep_nodes = [], ep_rules = [], ep_tables = []\<rparr>"

definition parse_entries :: "(string \<Rightarrow> string option) \<Rightarrow> program \<Rightarrow> json \<Rightarrow> entry_plan res" where
  "parse_entries env p raw =
     (if raw = JNull then
        (if env ''CELL_CPU_SHARED_NODE_SCHEDULE'' = Some ''1''
         then Inl (Err ''shared node schedule requires compiler entry_schedule; re-emit the Cell CPU artifact'')
         else Inr no_entries)
      else
        rbind (derive_entries p) (\<lambda>(plan, expected).
        if raw \<noteq> expected then Inl (Err ''shared entry schedule differs from typed query wiring/control'')
        else Inr plan))"

section \<open>Packets and inputs\<close>

record packet =
  pk_row :: row
  pk_values :: "val option list"

record seed =
  sd_atom :: nat
  sd_packet :: packet
  sd_projection :: "nat option list"

text \<open>Writes of a consumer over the packet it borrows.\<close>

record inputs =
  in_own :: "val option list"
  in_base :: "seed option"

definition inputs_owned :: "nat \<Rightarrow> inputs" where
  "inputs_owned n = \<lparr>in_own = replicate n None, in_base = None\<rparr>"

definition inputs_shared :: "seed \<Rightarrow> inputs" where
  "inputs_shared s = \<lparr>in_own = [], in_base = Some s\<rparr>"

definition inputs_len :: "inputs \<Rightarrow> nat" where
  "inputs_len x = max (length (in_own x)) (case in_base x of None \<Rightarrow> 0 | Some s \<Rightarrow> length (sd_projection s))"

definition inputs_at :: "inputs \<Rightarrow> nat \<Rightarrow> val option res" where
  "inputs_at x i =
     (case get_at (in_own x) i of
        Some (Some v) \<Rightarrow> Inr (Some v)
      | _ \<Rightarrow>
          (case in_base x of
             None \<Rightarrow> Inr None
           | Some s \<Rightarrow>
               (case get_at (sd_projection s) i of
                  Some (Some port) \<Rightarrow> idx (pk_values (sd_packet s)) port
                | _ \<Rightarrow> Inr None)))"

definition inputs_set :: "nat \<Rightarrow> val option \<Rightarrow> inputs \<Rightarrow> inputs" where
  "inputs_set i v x =
     x\<lparr>in_own := (if length (in_own x) \<le> i then in_own x @ replicate (i + 1 - length (in_own x)) None else in_own x)[i := v]\<rparr>"

definition inputs_materialize :: "inputs \<Rightarrow> val option list res" where
  "inputs_materialize x = rmapM (inputs_at x) [0..<inputs_len x]"

section \<open>The scheduler\<close>

record entry_state =
  es_cold :: bool
  es_pending :: "dependency set"
  es_rows :: "dependency \<rightharpoonup> packet"
  es_epochs :: "(nat \<times> dependency) set"

record scheduler =
  sc_enabled :: bool
  sc_plan :: entry_plan
  sc_states :: "entry_state list"
  sc_rows :: "dependency \<rightharpoonup> row option"
  sc_unions :: nat

definition scheduler_new :: "entry_plan \<Rightarrow> bool \<Rightarrow> scheduler" where
  "scheduler_new plan enabled =
     \<lparr>sc_enabled = enabled, sc_plan = plan,
      sc_states = map (\<lambda>_. \<lparr>es_cold = True, es_pending = {}, es_rows = Map.empty, es_epochs = {}\<rparr>) (ep_nodes plan),
      sc_rows = Map.empty, sc_unions = 0\<rparr>"

definition scheduler_accepts :: "scheduler \<Rightarrow> nat \<Rightarrow> bool" where
  "scheduler_accepts s rid \<longleftrightarrow>
     sc_enabled s \<and> (case get_at (ep_rules (sc_plan s)) rid of None \<Rightarrow> False | Some cs \<Rightarrow> cs \<noteq> [])"

text \<open>\<open>publish\<close>: the witnesses that changed since the last one, with their tables.\<close>

definition add_live :: "graph \<Rightarrow> dependency \<Rightarrow> (dependency \<rightharpoonup> nat) \<Rightarrow> (dependency \<rightharpoonup> nat) res" where
  "add_live g w m = rbind (live_table g w) (\<lambda>t. Inr (case t of None \<Rightarrow> m | Some t \<Rightarrow> m(w \<mapsto> t)))"

definition add_forward :: "graph \<Rightarrow> dependency \<times> dependency \<Rightarrow> (dependency \<rightharpoonup> nat) \<Rightarrow> (dependency \<rightharpoonup> nat) res" where
  "add_forward g on m =
     (let new = resolve_receipt g (snd on) in
      rbind (live_table g new) (\<lambda>t. Inr (case t of None \<Rightarrow> m | Some t \<Rightarrow> m(fst on \<mapsto> t, new \<mapsto> t))))"

definition forward_list :: "graph \<Rightarrow> (dependency \<times> dependency) list" where
  "forward_list g =
     map (\<lambda>w. (w, the (g_receipt_forwards g w))) (sorted_list_of_set (dom (g_receipt_forwards g)))"

definition changed_witnesses :: "graph \<Rightarrow> (dependency \<rightharpoonup> nat) res" where
  "changed_witnesses g =
     rbind (rfold (add_live g) (g_events g) (g_query_changes g)) (rfold (add_forward g) (forward_list g))"

definition mark_pending :: "dependency \<Rightarrow> nat \<Rightarrow> entry_state list \<Rightarrow> entry_state list res" where
  "mark_pending w i states =
     rbind (idx states i) (\<lambda>st.
     Inr (if es_cold st then states else states[i := st\<lparr>es_pending := insert w (es_pending st)\<rparr>]))"

definition mark_changed :: "nat list list \<Rightarrow> dependency \<times> nat \<Rightarrow> entry_state list \<Rightarrow> entry_state list res" where
  "mark_changed tables wt states =
     rbind (idx tables (snd wt)) (\<lambda>ids. rfold (mark_pending (fst wt)) ids states)"

definition set_cold :: "nat \<times> entry_node \<Rightarrow> entry_state list \<Rightarrow> entry_state list res" where
  "set_cold inode states =
     (if en_literal_identity (snd inode)
      then rbind (idx states (fst inode)) (\<lambda>st. Inr (states[fst inode := st\<lparr>es_cold := True\<rparr>]))
      else Inr states)"

definition entry_publish :: "graph \<Rightarrow> scheduler \<Rightarrow> scheduler res" where
  "entry_publish g s =
     (if \<not> sc_enabled s then Inr s
      else
        rbind (changed_witnesses g) (\<lambda>changed.
        rbind (rfold (mark_changed (ep_tables (sc_plan s)))
          (map (\<lambda>w. (w, the (changed w))) (sorted_list_of_set (dom changed))) (sc_states s)) (\<lambda>states.
        if sc_unions s = g_unions g then Inr (s\<lparr>sc_rows := Map.empty, sc_states := states\<rparr>)
        else
          rbind (rfold set_cold (enumerate 0 (ep_nodes (sc_plan s))) states) (\<lambda>states.
          Inr (s\<lparr>sc_rows := Map.empty, sc_states := states, sc_unions := g_unions g\<rparr>)))))"

text \<open>The values a row binds at the ports of a node, if it matches the pattern.\<close>

fun fill_ports :: "graph \<Rightarrow> (arg \<times> val) list \<Rightarrow> val option list \<Rightarrow> val option list option res" where
  "fill_ports g [] vs = Inr (Some vs)"
| "fill_ports g ((a, v) # rest) vs =
     (case a of
        Literal l \<Rightarrow> if canon_in g l = v then fill_ports g rest vs else Inr None
      | Slot i \<Rightarrow>
          rbind (idx vs i) (\<lambda>old. case old of
            Some w \<Rightarrow> if w = v then fill_ports g rest vs else Inr None
          | None \<Rightarrow> fill_ports g rest (vs[i := Some v])))"

definition row_ports :: "graph \<Rightarrow> entry_node \<Rightarrow> row \<Rightarrow> val option list option res" where
  "row_ports g n r = fill_ports g (zip (en_args n) (rw_values r)) (replicate (en_ports n) None)"

record refreshing =
  rf_rows :: "dependency \<rightharpoonup> packet"
  rf_epochs :: "(nat \<times> dependency) set"
  rf_old :: "dependency \<rightharpoonup> packet"
  rf_cache :: "dependency \<rightharpoonup> row option"

definition cached_row :: "graph \<Rightarrow> dependency \<Rightarrow> refreshing \<Rightarrow> (refreshing \<times> row option) res" where
  "cached_row g w rf =
     (case rf_cache rf w of
        Some r \<Rightarrow> Inr (rf, r)
      | None \<Rightarrow> rbind (row_of g w) (\<lambda>r. Inr (rf\<lparr>rf_cache := (rf_cache rf)(w \<mapsto> r)\<rparr>, r)))"

definition take_previous :: "bool \<Rightarrow> dependency \<Rightarrow> refreshing \<Rightarrow> refreshing \<times> packet option" where
  "take_previous full w rf =
     (let prev = (if full then rf_old rf w else rf_rows rf w);
          rf1 = (if full then rf\<lparr>rf_old := (rf_old rf)(w := None)\<rparr> else rf\<lparr>rf_rows := (rf_rows rf)(w := None)\<rparr>) in
      (case prev of None \<Rightarrow> rf1 | Some p \<Rightarrow> rf1\<lparr>rf_epochs := rf_epochs rf1 - {(rw_epoch (pk_row p), w)}\<rparr>, prev))"

definition keep_packet :: "dependency \<Rightarrow> row \<Rightarrow> val option list \<Rightarrow> refreshing \<Rightarrow> refreshing" where
  "keep_packet w r vs rf =
     rf\<lparr>rf_rows := (rf_rows rf)(w \<mapsto> \<lparr>pk_row = r, pk_values = vs\<rparr>), rf_epochs := insert (rw_epoch r, w) (rf_epochs rf)\<rparr>"

definition refresh_one :: "graph \<Rightarrow> entry_node \<Rightarrow> bool \<Rightarrow> dependency \<Rightarrow> refreshing \<Rightarrow> refreshing res" where
  "refresh_one g n full w rf0 =
     (let (rf1, prev) = take_previous full w rf0 in
      rbind (cached_row g w rf1) (\<lambda>(rf, row).
      case row of
        None \<Rightarrow> Inr rf
      | Some r \<Rightarrow>
          if rw_table r \<noteq> en_table n \<or> rw_hidden r then Inr rf
          else
            (case (if en_literal_identity n then None else prev) of
               Some p \<Rightarrow>
                 if rw_values (pk_row p) = rw_values r then Inr (keep_packet w r (pk_values p) rf)
                 else rbind (row_ports g n r) (\<lambda>vs. Inr (case vs of None \<Rightarrow> rf | Some vs \<Rightarrow> keep_packet w r vs rf))
             | None \<Rightarrow>
                 rbind (row_ports g n r) (\<lambda>vs. Inr (case vs of None \<Rightarrow> rf | Some vs \<Rightarrow> keep_packet w r vs rf)))))"

definition entry_refresh :: "graph \<Rightarrow> nat \<Rightarrow> scheduler \<Rightarrow> scheduler res" where
  "entry_refresh g i s =
     rbind (idx (sc_states s) i) (\<lambda>st.
     if \<not> es_cold st \<and> es_pending st = {} then Inr s
     else
       rbind (idx (ep_nodes (sc_plan s)) i) (\<lambda>n.
       rbind (if es_cold st then witnesses g (en_table n) else Inr (sorted_list_of_set (es_pending st))) (\<lambda>ws.
       rbind (rfold (refresh_one g n (es_cold st)) ws
         \<lparr>rf_rows = (if es_cold st then Map.empty else es_rows st),
          rf_epochs = (if es_cold st then {} else es_epochs st),
          rf_old = (if es_cold st then es_rows st else Map.empty), rf_cache = sc_rows s\<rparr>) (\<lambda>rf.
       Inr (s\<lparr>sc_states := (sc_states s)[i := \<lparr>es_cold = False, es_pending = {}, es_rows = rf_rows rf, es_epochs = rf_epochs rf\<rparr>],
              sc_rows := rf_cache rf\<rparr>)))))"

definition make_seed :: "consumer \<Rightarrow> entry_state \<Rightarrow> dependency \<Rightarrow> seed res" where
  "make_seed c st w =
     rbind (ok_or (es_rows st w) Panic) (\<lambda>pk.
     Inr \<lparr>sd_atom = ec_atom c, sd_packet = pk, sd_projection = ec_projection c\<rparr>)"

definition consumer_seeds :: "graph \<Rightarrow> nat \<Rightarrow> (nat \<Rightarrow> nat \<Rightarrow> dependency \<Rightarrow> bool) \<Rightarrow> consumer \<Rightarrow> scheduler
    \<Rightarrow> (scheduler \<times> seed list) res" where
  "consumer_seeds g watermark allow c s0 =
     rbind (entry_refresh g (ec_node c) s0) (\<lambda>s.
     rbind (idx (sc_states s) (ec_node c)) (\<lambda>st.
     rbind (idx (ep_nodes (sc_plan s)) (ec_node c)) (\<lambda>n.
     rbind (rmapM (make_seed c st) (map snd (filter
         (\<lambda>ew. (watermark, DFact (0, 0)) \<le> ew \<and> allow (ec_atom c) (en_table n) (snd ew))
         (sorted_list_of_set (es_epochs st))))) (\<lambda>out.
     Inr (s, out)))))"

definition seeds_where :: "graph \<Rightarrow> nat \<Rightarrow> nat \<Rightarrow> (nat \<Rightarrow> nat \<Rightarrow> dependency \<Rightarrow> bool) \<Rightarrow> scheduler
    \<Rightarrow> (scheduler \<times> seed list) res" where
  "seeds_where g rid watermark allow s =
     rbind (idx (ep_rules (sc_plan s)) rid) (\<lambda>cs.
     rmap (\<lambda>(s, xs). (s, concat xs)) (smapM (consumer_seeds g watermark allow) cs s))"

definition entry_seeds :: "graph \<Rightarrow> nat \<Rightarrow> nat \<Rightarrow> scheduler \<Rightarrow> (scheduler \<times> seed list) res" where
  "entry_seeds g rid watermark = seeds_where g rid watermark (\<lambda>_ _ _. True)"

end
