(* ===== verification/EntryPatterns.thy ===== *)
theory EntryPatterns
  imports EntrySchedule
begin

text \<open>
  What \<open>derive\<close> of \<open>engine/cell-runtime/src/entry_schedule.rs\<close> gives: the pattern of an atom is its
  arguments with the slots renamed to ports, nodes with the same table and pattern are shared, and a
  consumer of a node reads for each slot of its atom what the atom binds on the row.
\<close>

section \<open>What a pattern is\<close>

definition renamed :: "nat list \<Rightarrow> arg \<Rightarrow> arg" where
  "renamed slots a = (case a of Slot i \<Rightarrow> Slot (the (port_of slots i)) | Literal v \<Rightarrow> Literal v)"

definition patterned :: "arg list \<Rightarrow> pattern \<Rightarrow> bool" where
  "patterned args pt \<longleftrightarrow> distinct (pt_slots pt) \<and> set (pt_slots pt) = slots_of args \<and>
     pt_args pt = map (renamed (pt_slots pt)) args \<and>
     (\<forall>i \<in> slots_of args. i < length (pt_projection pt)) \<and>
     (\<forall>i < length (pt_projection pt). pt_projection pt ! i = port_of (pt_slots pt) i)"

lemma in_slots_of [simp]: "j \<in> slots_of aa \<longleftrightarrow> Slot j \<in> set aa"
  by (induction aa) (auto simp: slots_of_def List.map_filter_simps split: arg.splits)

lemma port_of_None: "port_of slots i = None \<longleftrightarrow> i \<notin> set slots"
  by (auto simp: port_of_def find_None_iff in_set_conv_nth)

lemma port_of_Some: "distinct slots \<Longrightarrow> port_of slots i = Some n \<longleftrightarrow> n < length slots \<and> slots ! n = i"
  by (auto simp: port_of_def find_Some_iff nth_eq_iff_index_eq)

lemma port_of_append:
  assumes "distinct (slots @ [i])"
  shows "port_of (slots @ [i]) j = (if j = i then Some (length slots) else port_of slots j)"
proof (cases "j = i")
  case False
  show ?thesis
  proof (cases "port_of slots j")
    case None
    then have "port_of (slots @ [i]) j = None" using False by (simp add: port_of_None)
    with None False show ?thesis by simp
  next
    case (Some n)
    with assms have "n < length slots" "slots ! n = j" by (simp_all add: port_of_Some)
    then have "port_of (slots @ [i]) j = Some n"
      using assms by (simp only: port_of_Some) (simp add: nth_append)
    with Some False show ?thesis by simp
  qed
qed (use assms in \<open>simp add: port_of_Some\<close>)

lemma renamed_append:
  assumes "distinct (slots @ [i])" "slots_of args \<subseteq> set slots"
  shows "map (renamed (slots @ [i])) args = map (renamed slots) args"
proof (rule map_cong [OF refl])
  fix a assume "a \<in> set args"
  then have "a = Slot j \<Longrightarrow> j \<noteq> i" for j
    using assms by (auto simp: in_slots_of)
  then show "renamed (slots @ [i]) a = renamed slots a"
    by (cases a) (simp_all add: renamed_def port_of_append [OF assms(1)])
qed


lemma pattern_arg_step:
  assumes "pattern_arg artifact rid atom (col, a) pt = Inr pt'" "patterned args pt"
  shows "patterned (args @ [a]) pt' \<and> length (pt_projection pt') = length (pt_projection pt)"
proof (cases a)
  case (Literal v)
  with assms show ?thesis
    by (auto simp: pattern_arg_def pattern_literal_def patterned_def renamed_def)
next
  case (Slot i)
  let ?new = "case port_of (pt_slots pt) i of Some n \<Rightarrow> (n, pt_slots pt) | None \<Rightarrow> (length (pt_slots pt), pt_slots pt @ [i])"
  have old: "distinct (pt_slots pt)" "set (pt_slots pt) = slots_of args"
    "pt_args pt = map (renamed (pt_slots pt)) args" "\<forall>i \<in> slots_of args. i < length (pt_projection pt)"
    "\<forall>i < length (pt_projection pt). pt_projection pt ! i = port_of (pt_slots pt) i"
    using assms(2) by (auto simp: patterned_def)
  from assms(1) Slot have i: "i < length (pt_projection pt)"
    and pt': "pt_slots pt' = snd ?new" "pt_args pt' = pt_args pt @ [Slot (fst ?new)]"
      "pt_projection pt' = (if pt_projection pt ! i = None then (pt_projection pt)[i := Some (fst ?new)] else pt_projection pt)"
    by (auto simp: pattern_arg_def pattern_slot_def res_simps Let_def split: prod.splits)
  have same: "pt_projection pt ! i = port_of (pt_slots pt) i" using old(5) i by blast
  show ?thesis
  proof (cases "port_of (pt_slots pt) i")
    case (Some n)
    then have "i \<in> slots_of args" using port_of_None [of "pt_slots pt" i] old(2) by auto
    with Some same i pt' old show ?thesis
      unfolding patterned_def Slot by (auto simp: renamed_def)
  next
    case None
    then have fresh: "i \<notin> set (pt_slots pt)" by (simp add: port_of_None)
    then have d: "distinct (pt_slots pt @ [i])" using old(1) by simp
    have p: "pt_slots pt' = pt_slots pt @ [i]" "pt_args pt' = pt_args pt @ [Slot (length (pt_slots pt))]"
      "pt_projection pt' = (pt_projection pt)[i := Some (length (pt_slots pt))]"
      using pt' None same by simp_all
    have "pt_projection pt' ! j = port_of (pt_slots pt') j" if "j < length (pt_projection pt')" for j
      using that old(5) by (simp add: p port_of_append [OF d] nth_list_update)
    moreover have "pt_args pt' = map (renamed (pt_slots pt')) (args @ [a])"
      using renamed_append [OF d, of args] old(2,3) by (simp add: p Slot renamed_def port_of_append [OF d])
    ultimately show ?thesis
      using old d i unfolding patterned_def by (auto simp: p Slot)
  qed
qed

lemma pattern_fold:
  "rfold (pattern_arg artifact rid atom) (enumerate k args) pt = Inr pt' \<Longrightarrow> patterned before pt \<Longrightarrow>
   patterned (before @ args) pt' \<and> length (pt_projection pt') = length (pt_projection pt)"
proof (induction args arbitrary: k pt before)
  case (Cons a args)
  then obtain pt1 where "pattern_arg artifact rid atom (k, a) pt = Inr pt1"
    "rfold (pattern_arg artifact rid atom) (enumerate (Suc k) args) pt1 = Inr pt'" by (auto simp: res_simps)
  with pattern_arg_step [OF this(1) Cons.prems(2)] Cons.IH [of "Suc k" pt1 "before @ [a]"] show ?case by auto
qed simp

lemma pattern_of_patterned:
  assumes "pattern_of artifact rid atom n args = Inr pt"
  shows "patterned args pt" "length (pt_projection pt) = n"
proof -
  have "patterned [] \<lparr>pt_slots = [], pt_projection = replicate n None, pt_pairs = [], pt_args = [], pt_json = []\<rparr>"
    by (simp add: patterned_def slots_of_def List.map_filter_simps port_of_def)
  from pattern_fold [OF assms [unfolded pattern_of_def] this] show "patterned args pt" "length (pt_projection pt) = n"
    by simp_all
qed

section \<open>What a derived plan is\<close>

text \<open>A consumer's node has the pattern of its atom, and its projection finds the ports of the slots.\<close>

definition serves_atom :: "entry_node list \<Rightarrow> nat \<Rightarrow> nat \<times> atom \<Rightarrow> consumer \<Rightarrow> bool" where
  "serves_atom nodes n ia c \<longleftrightarrow> ec_atom c = fst ia \<and> ec_node c < length nodes \<and>
     (let node = nodes ! ec_node c in
      a_call (snd ia) = CTable (en_table node) \<and> length (ec_projection c) = n \<and>
      (\<exists>pt. patterned (a_args (snd ia)) pt \<and> pt_projection pt = ec_projection c \<and> pt_args pt = en_args node \<and>
        length (pt_slots pt) = en_ports node))"

definition node_fits :: "entry_node \<Rightarrow> bool" where
  "node_fits n \<longleftrightarrow> slots_of (en_args n) = {..<en_ports n} \<and>
     en_literal_identity n = literal_identities (en_args n)"

definition deriving_ok :: "nat \<Rightarrow> deriving \<Rightarrow> bool" where
  "deriving_ok ntables dv \<longleftrightarrow> length (dv_tables dv) = ntables \<and> (\<forall>n \<in> set (dv_nodes dv). node_fits n \<and> en_table n < ntables) \<and>
     (\<forall>t < ntables. \<forall>i. i \<in> set (dv_tables dv ! t) \<longleftrightarrow> i < length (dv_nodes dv) \<and> en_table (dv_nodes dv ! i) = t) \<and>
     (\<forall>t args i. dv_ids dv (t, args) = Some i \<longrightarrow> i < length (dv_nodes dv) \<and>
        en_table (dv_nodes dv ! i) = t \<and> en_args (dv_nodes dv ! i) = args)"


lemma pattern_ports:
  assumes "patterned args pt"
  shows "slots_of (pt_args pt) = {..<length (pt_slots pt)}"
    "literal_identities (pt_args pt) = literal_identities args"
proof -
  from assms have d: "distinct (pt_slots pt)" and slots: "set (pt_slots pt) = slots_of args"
    and args: "pt_args pt = map (renamed (pt_slots pt)) args" by (auto simp: patterned_def)
  have "n \<in> slots_of (pt_args pt) \<longleftrightarrow> (\<exists>i \<in> slots_of args. port_of (pt_slots pt) i = Some n)" for n
  proof -
    have "Slot n = renamed (pt_slots pt) a \<longleftrightarrow> (\<exists>i. a = Slot i \<and> port_of (pt_slots pt) i = Some n)" if a: "a \<in> set args" for a
    proof (cases a)
      case (Slot j)
      with a slots have "port_of (pt_slots pt) j \<noteq> None" by (simp add: port_of_None)
      then show ?thesis by (auto simp: renamed_def Slot)
    qed (simp add: renamed_def)
    then have "(\<exists>a \<in> set args. Slot n = renamed (pt_slots pt) a) \<longleftrightarrow>
        (\<exists>a \<in> set args. \<exists>i. a = Slot i \<and> port_of (pt_slots pt) i = Some n)" by blast
    moreover have "n \<in> slots_of (pt_args pt) \<longleftrightarrow> (\<exists>a \<in> set args. Slot n = renamed (pt_slots pt) a)"
      by (auto simp: args)
    ultimately show ?thesis by auto
  qed
  then show "slots_of (pt_args pt) = {..<length (pt_slots pt)}"
    using slots by (auto simp: port_of_Some [OF d] simp del: in_slots_of)
  have "(case renamed (pt_slots pt) a of Literal v \<Rightarrow> identity v | Slot _ \<Rightarrow> False) =
      (case a of Literal v \<Rightarrow> identity v | Slot _ \<Rightarrow> False)" for a
    by (cases a) (simp_all add: renamed_def)
  then show "literal_identities (pt_args pt) = literal_identities args"
    by (simp add: literal_identities_def args list_ex_iff)
qed

lemma serves_atom_more:
  "serves_atom nodes n ia c \<Longrightarrow> serves_atom (nodes @ more_nodes) n ia c"
  by (auto simp: serves_atom_def nth_append Let_def)

definition extends_nodes :: "deriving \<Rightarrow> deriving \<Rightarrow> bool" where
  "extends_nodes dv dv' \<longleftrightarrow> (\<exists>ns. dv_nodes dv' = dv_nodes dv @ ns)"

lemma more_nodes_refl [simp]: "extends_nodes dv dv"
  by (simp add: extends_nodes_def)

lemma more_nodes_trans: "extends_nodes a b \<Longrightarrow> extends_nodes b c \<Longrightarrow> extends_nodes a c"
  by (auto simp: extends_nodes_def)

lemma extends_serves: "extends_nodes dv dv' \<Longrightarrow> serves_atom (dv_nodes dv) n ia c \<Longrightarrow> serves_atom (dv_nodes dv') n ia c"
  by (auto simp: extends_nodes_def serves_atom_more)

lemma node_of_ok:
  assumes "node_of p t args pt dv = Inr (dv', i)" "deriving_ok (length (p_tables p)) dv" "patterned args pt"
  shows "deriving_ok (length (p_tables p)) dv' \<and> extends_nodes dv dv' \<and> i < length (dv_nodes dv') \<and>
    en_table (dv_nodes dv' ! i) = t \<and> en_args (dv_nodes dv' ! i) = pt_args pt \<and>
    en_ports (dv_nodes dv' ! i) = length (pt_slots pt)"
proof (cases "dv_ids dv (t, pt_args pt)")
  case (Some j)
  with assms(1) have e: "dv' = dv" "i = j" by (auto simp: node_of_def)
  from Some assms(2) have j: "j < length (dv_nodes dv)" "en_table (dv_nodes dv ! j) = t" "en_args (dv_nodes dv ! j) = pt_args pt"
    by (auto simp: deriving_ok_def)
  with assms(2) have "slots_of (pt_args pt) = {..<en_ports (dv_nodes dv ! j)}"
    by (metis deriving_ok_def node_fits_def nth_mem)
  with pattern_ports(1) [OF assms(3)] have "en_ports (dv_nodes dv ! j) = length (pt_slots pt)"
    by (metis card_lessThan)
  with e j assms(2) show ?thesis by simp
next
  case None
  let ?n = "\<lparr>en_table = t, en_args = pt_args pt, en_ports = length (pt_slots pt),
     en_literal_identity = literal_identities args\<rparr>"
  from assms(1) None have i: "i = length (dv_nodes dv)" and t: "t < length (p_tables p)" "t < length (dv_tables dv)"
    and dv': "dv_nodes dv' = dv_nodes dv @ [?n]" "dv_ids dv' = (dv_ids dv)((t, pt_args pt) \<mapsto> length (dv_nodes dv))"
      "dv_tables dv' = (dv_tables dv)[t := dv_tables dv ! t @ [length (dv_nodes dv)]]"
    by (auto simp: node_of_def push_at_def res_simps Let_def)
  have fits: "node_fits ?n" using pattern_ports [OF assms(3)] by (simp add: node_fits_def)
  have old: "length (dv_tables dv) = length (p_tables p)"
    "\<And>n. n \<in> set (dv_nodes dv) \<Longrightarrow> node_fits n \<and> en_table n < length (p_tables p)"
    "\<And>t i. t < length (p_tables p) \<Longrightarrow> i \<in> set (dv_tables dv ! t) \<longleftrightarrow> i < length (dv_nodes dv) \<and> en_table (dv_nodes dv ! i) = t"
    "\<And>t args i. dv_ids dv (t, args) = Some i \<Longrightarrow> i < length (dv_nodes dv) \<and> en_table (dv_nodes dv ! i) = t \<and>
       en_args (dv_nodes dv ! i) = args"
    using assms(2) by (auto simp: deriving_ok_def)
  have "deriving_ok (length (p_tables p)) dv'"
    unfolding deriving_ok_def
  proof (intro conjI ballI allI impI)
    show "length (dv_tables dv') = length (p_tables p)" by (simp add: dv' old(1))
    show "node_fits n" "en_table n < length (p_tables p)" if "n \<in> set (dv_nodes dv')" for n
      using that old(2) fits t by (auto simp: dv')
    show "(j \<in> set (dv_tables dv' ! u)) = (j < length (dv_nodes dv') \<and> en_table (dv_nodes dv' ! j) = u)"
      if "u < length (p_tables p)" for u j
      using that old(3) [OF that, of j] t by (auto simp: dv' nth_list_update nth_append less_Suc_eq)
    show "j < length (dv_nodes dv')" "en_table (dv_nodes dv' ! j) = u" "en_args (dv_nodes dv' ! j) = aa"
      if "dv_ids dv' (u, aa) = Some j" for u aa j
      using that old(4) [of u aa j] by (auto simp: dv' nth_append split: if_splits)
  qed
  then show ?thesis by (auto simp: extends_nodes_def dv' i)
qed


text \<open>The consumers of a rule serve its table atoms in order.\<close>

definition entry_atoms :: "rule \<Rightarrow> (nat \<times> atom) list" where
  "entry_atoms r = filter (\<lambda>ia. is_table (snd ia)) (enumerate 0 (r_query r))"

lemma derive_atom_ok:
  assumes "derive_atom p rid r ia (dv, cs) = Inr (dv', cs')" "deriving_ok (length (p_tables p)) dv"
  shows "deriving_ok (length (p_tables p)) dv' \<and> extends_nodes dv dv' \<and>
    (\<exists>new. cs' = cs @ new \<and> list_all2 (serves_atom (dv_nodes dv') (length (tm_sorts (p_templates p ! r_template r))))
       (filter (\<lambda>ia. is_table (snd ia)) [ia]) new)"
proof (cases "a_call (snd ia)")
  case (CPrim n o')
  with assms show ?thesis by (simp add: derive_atom_def is_table_def)
next
  case (CTable t)
  let ?n = "length (tm_sorts (p_templates p ! r_template r))"
  from assms(1) CTable obtain pt dv1 i ks where
    pt: "pattern_of (p_artifact p) rid (fst ia) ?n (a_args (snd ia)) = Inr pt"
    and node: "node_of p t (a_args (snd ia)) pt dv = Inr (dv1, i)"
    and dv': "dv' = dv1\<lparr>dv_consumers := ks\<rparr>"
      "cs' = cs @ [\<lparr>ec_node = i, ec_atom = fst ia, ec_projection = pt_projection pt\<rparr>]"
    by (auto simp: derive_atom_def res_simps)
  note pat = pattern_of_patterned [OF pt]
  note ok = node_of_ok [OF node assms(2) pat(1)]
  have "serves_atom (dv_nodes dv') ?n ia \<lparr>ec_node = i, ec_atom = fst ia, ec_projection = pt_projection pt\<rparr>"
    using ok pat CTable by (auto simp: serves_atom_def dv' Let_def)
  moreover have "deriving_ok (length (p_tables p)) dv'" "extends_nodes dv dv'"
    using ok by (auto simp: dv' deriving_ok_def extends_nodes_def)
  ultimately show ?thesis using CTable by (auto simp: dv' is_table_def)
qed

lemma derive_atoms_ok:
  "rfold (derive_atom p rid r) ias (dv, cs) = Inr (dv', cs') \<Longrightarrow> deriving_ok (length (p_tables p)) dv \<Longrightarrow>
   deriving_ok (length (p_tables p)) dv' \<and> extends_nodes dv dv' \<and>
    (\<exists>new. cs' = cs @ new \<and> list_all2 (serves_atom (dv_nodes dv') (length (tm_sorts (p_templates p ! r_template r))))
       (filter (\<lambda>ia. is_table (snd ia)) ias) new)"
proof (induction ias arbitrary: dv cs)
  case (Cons ia ias)
  let ?S = "\<lambda>dv. serves_atom (dv_nodes dv) (length (tm_sorts (p_templates p ! r_template r)))"
  from Cons.prems(1) obtain dv1 cs1 where one: "derive_atom p rid r ia (dv, cs) = Inr (dv1, cs1)"
    and rest: "rfold (derive_atom p rid r) ias (dv1, cs1) = Inr (dv', cs')" by (auto simp: res_simps)
  from derive_atom_ok [OF one Cons.prems(2)] obtain new1 where
    ok1: "deriving_ok (length (p_tables p)) dv1" "extends_nodes dv dv1"
    and new1: "cs1 = cs @ new1" "list_all2 (?S dv1) (filter (\<lambda>ia. is_table (snd ia)) [ia]) new1" by blast
  from Cons.IH [OF rest ok1(1)] obtain new2 where
    ok2: "deriving_ok (length (p_tables p)) dv'" "extends_nodes dv1 dv'"
    and new2: "cs' = cs1 @ new2" "list_all2 (?S dv') (filter (\<lambda>ia. is_table (snd ia)) ias) new2" by blast
  have "list_all2 (?S dv') (filter (\<lambda>ia. is_table (snd ia)) [ia]) new1"
    using new1(2) by (rule list_all2_mono) (rule extends_serves [OF ok2(2)])
  from list_all2_appendI [OF this new2(2)]
  have "list_all2 (?S dv') (filter (\<lambda>ia. is_table (snd ia)) (ia # ias)) (new1 @ new2)"
    by (cases "is_table (snd ia)") simp_all
  then show ?case using ok2 more_nodes_trans [OF ok1(2) ok2(2)] new1(1) new2(1) by auto
qed simp

definition plan_serves :: "program \<Rightarrow> entry_node list \<Rightarrow> rule \<Rightarrow> consumer list \<Rightarrow> bool" where
  "plan_serves p nodes r cs \<longleftrightarrow>
     list_all2 (serves_atom nodes (length (tm_sorts (p_templates p ! r_template r))))
       (if r_seminaive r then entry_atoms r else []) cs"

lemma derive_entry_rule_ok:
  assumes "derive_entry_rule p (rid, r) (dv, css) = Inr (dv', css')" "deriving_ok (length (p_tables p)) dv"
  shows "deriving_ok (length (p_tables p)) dv' \<and> extends_nodes dv dv' \<and>
    (\<exists>cs. css' = css @ [cs] \<and> plan_serves p (dv_nodes dv') r cs)"
proof (cases "r_seminaive r")
  case True
  with assms(1) obtain cs where cs: "rfold (derive_atom p rid r) (enumerate 0 (r_query r)) (dv, []) = Inr (dv', cs)"
    "css' = css @ [cs]" by (auto simp: derive_entry_rule_def res_simps)
  from derive_atoms_ok [OF cs(1) assms(2)] cs(2) True show ?thesis
    by (auto simp: plan_serves_def entry_atoms_def)
qed (use assms in \<open>auto simp: derive_entry_rule_def plan_serves_def\<close>)

lemma derive_rules_ok:
  "rfold (derive_entry_rule p) (enumerate k rs) (dv, css) = Inr (dv', css') \<Longrightarrow> deriving_ok (length (p_tables p)) dv \<Longrightarrow>
   deriving_ok (length (p_tables p)) dv' \<and> extends_nodes dv dv' \<and>
   (\<exists>new. css' = css @ new \<and> list_all2 (plan_serves p (dv_nodes dv')) rs new)"
proof (induction rs arbitrary: k dv css)
  case (Cons r rs)
  from Cons.prems(1) obtain dv1 css1 where one: "derive_entry_rule p (k, r) (dv, css) = Inr (dv1, css1)"
    and rest: "rfold (derive_entry_rule p) (enumerate (Suc k) rs) (dv1, css1) = Inr (dv', css')" by (auto simp: res_simps)
  from derive_entry_rule_ok [OF one Cons.prems(2)] obtain cs where
    ok1: "deriving_ok (length (p_tables p)) dv1" "extends_nodes dv dv1" "css1 = css @ [cs]" "plan_serves p (dv_nodes dv1) r cs"
    by blast
  from Cons.IH [OF rest ok1(1)] obtain new where
    ok2: "deriving_ok (length (p_tables p)) dv'" "extends_nodes dv1 dv'" "css' = css1 @ new"
      "list_all2 (plan_serves p (dv_nodes dv')) rs new" by blast
  have "plan_serves p (dv_nodes dv') r cs"
    using ok1(4) unfolding plan_serves_def by (rule list_all2_mono) (rule extends_serves [OF ok2(2)])
  then show ?case using ok2 more_nodes_trans [OF ok1(2) ok2(2)] ok1(3) by auto
qed simp

definition entry_plan_ok :: "program \<Rightarrow> entry_plan \<Rightarrow> bool" where
  "entry_plan_ok p plan \<longleftrightarrow> list_all2 (plan_serves p (ep_nodes plan)) (p_rules p) (ep_rules plan) \<and>
     (\<forall>n \<in> set (ep_nodes plan). node_fits n \<and> en_table n < length (p_tables p)) \<and>
     length (ep_tables plan) = length (p_tables p) \<and>
     (\<forall>t < length (p_tables p). \<forall>i. i \<in> set (ep_tables plan ! t) \<longleftrightarrow>
        i < length (ep_nodes plan) \<and> en_table (ep_nodes plan ! i) = t)"

lemma derived_entry_plan:
  assumes "derive_entries p = Inr (plan, doc)"
  shows "entry_plan_ok p plan"
proof -
  from assms obtain dv where fold: "rfold (derive_entry_rule p) (enumerate 0 (p_rules p))
      (\<lparr>dv_nodes = [], dv_ids = Map.empty, dv_tables = replicate (length (p_tables p)) [], dv_headers = [],
        dv_consumers = []\<rparr>, []) = Inr (dv, ep_rules plan)"
    and plan: "ep_nodes plan = dv_nodes dv" "ep_tables plan = dv_tables dv"
    by (auto simp: derive_entries_def res_simps)
  have "deriving_ok (length (p_tables p)) \<lparr>dv_nodes = [], dv_ids = Map.empty,
      dv_tables = replicate (length (p_tables p)) [], dv_headers = [], dv_consumers = []\<rparr>"
    by (simp add: deriving_ok_def)
  from derive_rules_ok [OF fold this] show ?thesis
    by (auto simp: entry_plan_ok_def deriving_ok_def plan)
qed


section \<open>What a packet binds\<close>

text \<open>The values of the slots of an atom when it is matched with a row.\<close>

definition column_binds :: "graph \<Rightarrow> (nat \<rightharpoonup> val) \<Rightarrow> arg \<times> val \<Rightarrow> bool" where
  "column_binds g \<sigma> av = (case fst av of Literal l \<Rightarrow> canon_in g l = snd av | Slot i \<Rightarrow> \<sigma> i = Some (snd av))"

definition atom_binds :: "graph \<Rightarrow> arg list \<Rightarrow> val list \<Rightarrow> (nat \<rightharpoonup> val) \<Rightarrow> bool" where
  "atom_binds g args vals \<sigma> \<longleftrightarrow>
     (\<forall>av \<in> set (zip args vals). column_binds g \<sigma> av) \<and> dom \<sigma> = slots_of (map fst (zip args vals))"

definition at_ports :: "val option list \<Rightarrow> nat \<Rightarrow> val option" where
  "at_ports vs i = (case get_at vs i of None \<Rightarrow> None | Some v \<Rightarrow> v)"

lemma at_ports_update: "i < length vs \<Longrightarrow> at_ports (vs[i := Some v]) = (at_ports vs)(i \<mapsto> v)"
  by (rule ext) (simp add: at_ports_def get_at_def nth_list_update)

lemma at_ports_eqI: "length vs = length ws \<Longrightarrow> at_ports vs = at_ports ws \<Longrightarrow> vs = ws"
  by (rule nth_equalityI) (auto simp: at_ports_def get_at_def fun_eq_iff split: if_splits)

lemma fill_ports_exact:
  assumes "\<forall>i. Slot i \<in> fst ` set avs \<longrightarrow> i < length vs"
  shows "\<exists>o'. fill_ports g avs vs = Inr o' \<and>
    (\<forall>ws. o' = Some ws \<longleftrightarrow> length ws = length vs \<and> (\<forall>av \<in> set avs. column_binds g (at_ports ws) av) \<and>
       at_ports vs \<subseteq>\<^sub>m at_ports ws \<and> dom (at_ports ws) = dom (at_ports vs) \<union> {i. Slot i \<in> fst ` set avs})"
  using assms
proof (induction avs arbitrary: vs)
  case Nil
  have "vs = ws \<longleftrightarrow> length ws = length vs \<and> at_ports vs \<subseteq>\<^sub>m at_ports ws \<and> dom (at_ports ws) = dom (at_ports vs)" for ws
    by (auto intro!: at_ports_eqI map_le_antisym [of "at_ports vs"] simp: map_le_def domIff) (metis domIff)
  then show ?case by auto
next
  case (Cons av avs)
  obtain a v where av: "av = (a, v)" by (cases av)
  from Cons.prems have tail: "\<forall>i. Slot i \<in> fst ` set avs \<longrightarrow> i < length vs" by auto
  show ?case
  proof (cases a)
    case (Literal l)
    from Cons.IH [OF tail] obtain o' where "fill_ports g avs vs = Inr o'"
      "\<forall>ws. o' = Some ws \<longleftrightarrow> length ws = length vs \<and> (\<forall>av \<in> set avs. column_binds g (at_ports ws) av) \<and>
       at_ports vs \<subseteq>\<^sub>m at_ports ws \<and> dom (at_ports ws) = dom (at_ports vs) \<union> {i. Slot i \<in> fst ` set avs}" by blast
    then show ?thesis
      by (cases "canon_in g l = v") (auto simp: av Literal column_binds_def)
  next
    case (Slot i)
    with Cons.prems have i: "i < length vs" by (simp add: av)
    show ?thesis
    proof (cases "vs ! i")
      case None
      let ?vs = "vs[i := Some v]"
      from Cons.IH [of ?vs] tail obtain o' where o': "fill_ports g avs ?vs = Inr o'"
        "\<And>ws. o' = Some ws \<longleftrightarrow> length ws = length vs \<and> (\<forall>av \<in> set avs. column_binds g (at_ports ws) av) \<and>
         at_ports ?vs \<subseteq>\<^sub>m at_ports ws \<and> dom (at_ports ws) = dom (at_ports ?vs) \<union> {i. Slot i \<in> fst ` set avs}" by auto
      have none: "at_ports vs i = None" using None i by (simp add: at_ports_def get_at_def)
      have le: "at_ports ?vs \<subseteq>\<^sub>m m \<longleftrightarrow> at_ports vs \<subseteq>\<^sub>m m \<and> m i = Some v" for m
        using none by (auto simp: at_ports_update [OF i] map_le_def)
      have "fill_ports g (av # avs) vs = Inr o'" using o'(1) i None by (simp add: av Slot idx_def)
      moreover have "o' = Some ws \<longleftrightarrow> length ws = length vs \<and> (\<forall>av \<in> set (av # avs). column_binds g (at_ports ws) av) \<and>
         at_ports vs \<subseteq>\<^sub>m at_ports ws \<and> dom (at_ports ws) = dom (at_ports vs) \<union> {i. Slot i \<in> fst ` set (av # avs)}" for ws
        unfolding o'(2) le by (auto simp: av Slot column_binds_def at_ports_update [OF i])
      ultimately show ?thesis by blast
    next
      case (Some w)
      from Cons.IH [OF tail] obtain o' where o': "fill_ports g avs vs = Inr o'"
        "\<And>ws. o' = Some ws \<longleftrightarrow> length ws = length vs \<and> (\<forall>av \<in> set avs. column_binds g (at_ports ws) av) \<and>
         at_ports vs \<subseteq>\<^sub>m at_ports ws \<and> dom (at_ports ws) = dom (at_ports vs) \<union> {i. Slot i \<in> fst ` set avs}" by blast
      have some: "at_ports vs i = Some w" using Some i by (simp add: at_ports_def get_at_def)
      have "fill_ports g (av # avs) vs = Inr (if w = v then o' else None)"
        using o'(1) i Some by (simp add: av Slot idx_def)
      moreover have "(if w = v then o' else None) = Some ws \<longleftrightarrow> length ws = length vs \<and>
         (\<forall>av \<in> set (av # avs). column_binds g (at_ports ws) av) \<and>
         at_ports vs \<subseteq>\<^sub>m at_ports ws \<and> dom (at_ports ws) = dom (at_ports vs) \<union> {i. Slot i \<in> fst ` set (av # avs)}" for ws
      proof -
        have "at_ports vs \<subseteq>\<^sub>m at_ports ws \<Longrightarrow> at_ports ws i = Some w"
          using some by (auto simp: map_le_def dom_def)
        with some o'(2) [of ws] show ?thesis by (auto simp: av Slot column_binds_def)
      qed
      ultimately show ?thesis by blast
    qed
  qed
qed

lemma slots_of_zip: "slots_of (map fst avs) = {i. Slot i \<in> fst ` set avs}"
proof -
  have "Slot i \<in> set (map fst avs) \<longleftrightarrow> Slot i \<in> fst ` set avs" for i by (simp only: set_map)
  then show ?thesis by (simp add: set_eq_iff)
qed

lemma row_ports_exact:
  assumes "node_fits n"
  shows "\<exists>o'. row_ports g n r = Inr o' \<and>
    (\<forall>ws. o' = Some ws \<longleftrightarrow> length ws = en_ports n \<and> atom_binds g (en_args n) (rw_values r) (at_ports ws))"
proof -
  have none: "at_ports (replicate k None) = Map.empty" for k
    by (rule ext) (simp add: at_ports_def get_at_def)
  have "\<forall>i. Slot i \<in> fst ` set (zip (en_args n) (rw_values r)) \<longrightarrow> i < length (replicate (en_ports n) None)"
  proof (intro allI impI)
    fix i assume "Slot i \<in> fst ` set (zip (en_args n) (rw_values r))"
    then have "i \<in> slots_of (en_args n)" by (auto dest: set_zip_leftD)
    then show "i < length (replicate (en_ports n) None)"
      using assms by (simp add: node_fits_def del: in_slots_of)
  qed
  from fill_ports_exact [OF this, of g] show ?thesis
    by (simp add: row_ports_def atom_binds_def none slots_of_zip)
qed


definition port_value :: "nat option list \<Rightarrow> val option list \<Rightarrow> nat \<Rightarrow> val option" where
  "port_value projection ws i =
     (case get_at projection i of Some (Some port) \<Rightarrow> at_ports ws port | _ \<Rightarrow> None)"

lemma port_value_pattern:
  assumes "patterned args pt"
  shows "port_value (pt_projection pt) ws i = (case port_of (pt_slots pt) i of None \<Rightarrow> None | Some n \<Rightarrow> at_ports ws n)"
proof (cases "i < length (pt_projection pt)")
  case True
  with assms show ?thesis by (simp add: port_value_def get_at_def patterned_def)
next
  case False
  with assms have "i \<notin> set (pt_slots pt)" unfolding patterned_def by blast
  then have "port_of (pt_slots pt) i = None" by (simp add: port_of_None)
  with False show ?thesis by (simp add: port_value_def get_at_def)
qed

lemma renamed_binds:
  assumes "patterned args pt" "length ws = length (pt_slots pt)"
  shows "atom_binds g args vals (port_value (pt_projection pt) ws) \<longleftrightarrow> atom_binds g (pt_args pt) vals (at_ports ws)"
proof -
  let ?\<sigma> = "port_value (pt_projection pt) ws" and ?R = "renamed (pt_slots pt)"
  have d: "distinct (pt_slots pt)" and slots: "set (pt_slots pt) = slots_of args" and pargs: "pt_args pt = map ?R args"
    using assms(1) by (auto simp: patterned_def)
  have bound: "at_ports ws n = None" if "\<not> n < length (pt_slots pt)" for n
    using that assms(2) by (simp add: at_ports_def get_at_def)
  have zips: "zip (map ?R args) vals = map (\<lambda>(a, v). (?R a, v)) (zip args vals)"
    by (rule zip_map1)
  have port: "\<exists>n. port_of (pt_slots pt) i = Some n \<and> ?R (Slot i) = Slot n \<and> ?\<sigma> i = at_ports ws n" if "Slot i \<in> set args" for i
  proof -
    from that slots have "port_of (pt_slots pt) i \<noteq> None" by (simp add: port_of_None)
    then show ?thesis by (auto simp: renamed_def port_value_pattern [OF assms(1)])
  qed
  have cols: "column_binds g ?\<sigma> (a, v) \<longleftrightarrow> column_binds g (at_ports ws) (?R a, v)" if "(a, v) \<in> set (zip args vals)" for a v
  proof (cases a)
    case (Slot i)
    with that have "Slot i \<in> set args" by (auto dest: set_zip_leftD)
    from port [OF this] show ?thesis by (auto simp: column_binds_def Slot)
  qed (simp add: column_binds_def renamed_def)
  have slot_iff: "Slot n \<in> ?R ` fst ` set (zip args vals) \<longleftrightarrow>
      n < length (pt_slots pt) \<and> Slot (pt_slots pt ! n) \<in> fst ` set (zip args vals)" for n
  proof
    assume "Slot n \<in> ?R ` fst ` set (zip args vals)"
    then obtain a where a: "a \<in> fst ` set (zip args vals)" "?R a = Slot n" by (metis imageE)
    then obtain i where i: "a = Slot i" by (cases a) (auto simp: renamed_def)
    with a have "Slot i \<in> set args" by (auto dest: set_zip_leftD)
    from port [OF this] a i have "port_of (pt_slots pt) i = Some n" by auto
    with a i show "n < length (pt_slots pt) \<and> Slot (pt_slots pt ! n) \<in> fst ` set (zip args vals)"
      by (auto simp: port_of_Some [OF d])
  next
    assume n: "n < length (pt_slots pt) \<and> Slot (pt_slots pt ! n) \<in> fst ` set (zip args vals)"
    then have "port_of (pt_slots pt) (pt_slots pt ! n) = Some n" by (simp add: port_of_Some [OF d])
    then have "?R (Slot (pt_slots pt ! n)) = Slot n" by (simp add: renamed_def)
    with n show "Slot n \<in> ?R ` fst ` set (zip args vals)" by (metis imageI)
  qed
  have doms: "dom ?\<sigma> = {i. Slot i \<in> fst ` set (zip args vals)} \<longleftrightarrow>
      dom (at_ports ws) = {n. Slot n \<in> ?R ` fst ` set (zip args vals)}"
  proof -
    have s: "i \<in> dom ?\<sigma> \<longleftrightarrow> (\<exists>n. n < length (pt_slots pt) \<and> pt_slots pt ! n = i \<and> n \<in> dom (at_ports ws))" for i
    proof (cases "port_of (pt_slots pt) i")
      case None
      then have "i \<notin> set (pt_slots pt)" by (simp add: port_of_None)
      with None show ?thesis by (auto simp: port_value_pattern [OF assms(1)] domIff)
    next
      case (Some m)
      then have m: "m < length (pt_slots pt)" "pt_slots pt ! m = i" by (simp_all add: port_of_Some [OF d])
      then have "n < length (pt_slots pt) \<and> pt_slots pt ! n = i \<longleftrightarrow> n = m" for n
        using d by (auto simp: nth_eq_iff_index_eq)
      then have "(\<exists>n. n < length (pt_slots pt) \<and> pt_slots pt ! n = i \<and> n \<in> dom (at_ports ws)) \<longleftrightarrow> m \<in> dom (at_ports ws)"
        by (metis (no_types))
      moreover have "i \<in> dom ?\<sigma> \<longleftrightarrow> m \<in> dom (at_ports ws)"
        using Some by (simp add: port_value_pattern [OF assms(1)] domIff)
      ultimately show ?thesis by (simp only:)
    qed
    have inj: "pt_slots pt ! n = pt_slots pt ! m \<longleftrightarrow> n = m" if "n < length (pt_slots pt)" "m < length (pt_slots pt)" for n m
      using that d by (simp add: nth_eq_iff_index_eq)
    have covered: "Slot i \<in> fst ` set (zip args vals) \<Longrightarrow> \<exists>n < length (pt_slots pt). pt_slots pt ! n = i" for i
      using slots by (metis in_set_conv_nth in_slots_of imageE set_zip_leftD prod.collapse)
    show ?thesis
    proof
      assume l: "dom ?\<sigma> = {i. Slot i \<in> fst ` set (zip args vals)}"
      show "dom (at_ports ws) = {n. Slot n \<in> ?R ` fst ` set (zip args vals)}"
      proof (rule set_eqI)
        fix n
        show "n \<in> dom (at_ports ws) \<longleftrightarrow> n \<in> {n. Slot n \<in> ?R ` fst ` set (zip args vals)}"
        proof (cases "n < length (pt_slots pt)")
          case True
          with s [of "pt_slots pt ! n"] inj have "n \<in> dom (at_ports ws) \<longleftrightarrow> pt_slots pt ! n \<in> dom ?\<sigma>" by blast
          with l True show ?thesis by (simp add: slot_iff)
        qed (use bound slot_iff in auto)
      qed
    next
      assume l: "dom (at_ports ws) = {n. Slot n \<in> ?R ` fst ` set (zip args vals)}"
      show "dom ?\<sigma> = {i. Slot i \<in> fst ` set (zip args vals)}"
      proof (rule set_eqI)
        fix i
        show "i \<in> dom ?\<sigma> \<longleftrightarrow> i \<in> {i. Slot i \<in> fst ` set (zip args vals)}"
          unfolding s l mem_Collect_eq slot_iff using covered by (metis (no_types))
      qed
    qed
  qed
  have "(\<forall>av \<in> set (zip args vals). column_binds g ?\<sigma> av) \<longleftrightarrow>
      (\<forall>av \<in> set (zip (map ?R args) vals). column_binds g (at_ports ws) av)"
    unfolding zips using cols by fastforce
  then show ?thesis
    unfolding atom_binds_def pargs slots_of_zip doms by (simp add: zips image_image split_beta)
qed


lemma binds_ports:
  assumes "patterned args pt" "atom_binds g args vals \<sigma>"
  obtains ws where "length ws = length (pt_slots pt)" "port_value (pt_projection pt) ws = \<sigma>"
proof
  let ?ws = "map \<sigma> (pt_slots pt)"
  have d: "distinct (pt_slots pt)" and slots: "set (pt_slots pt) = slots_of args"
    using assms(1) by (auto simp: patterned_def)
  show "length ?ws = length (pt_slots pt)" by simp
  show "port_value (pt_projection pt) ?ws = \<sigma>"
  proof (rule ext)
    fix i
    show "port_value (pt_projection pt) ?ws i = \<sigma> i"
    proof (cases "port_of (pt_slots pt) i")
      case None
      then have "Slot i \<notin> set args" using slots by (simp add: port_of_None)
      then have "i \<notin> dom \<sigma>"
        using assms(2) by (auto simp: atom_binds_def slots_of_zip dest: set_zip_leftD)
      with None show ?thesis by (simp add: port_value_pattern [OF assms(1)] domIff)
    next
      case (Some n)
      then have "n < length (pt_slots pt)" "pt_slots pt ! n = i" by (simp_all add: port_of_Some [OF d])
      with Some show ?thesis by (simp add: port_value_pattern [OF assms(1)] at_ports_def get_at_def)
    qed
  qed
qed

text \<open>A consumer reads from a packet of its node exactly what its atom binds on the row.\<close>

lemma consumer_binds:
  assumes "serves_atom nodes m (i, a) c" "node_fits (nodes ! ec_node c)"
  shows "(\<exists>ws. row_ports g (nodes ! ec_node c) r = Inr (Some ws) \<and> port_value (ec_projection c) ws = \<sigma>) \<longleftrightarrow>
    atom_binds g (a_args a) (rw_values r) \<sigma>"
proof -
  let ?n = "nodes ! ec_node c"
  from assms(1) obtain pt where pt: "patterned (a_args a) pt" "pt_projection pt = ec_projection c"
    "pt_args pt = en_args ?n" "length (pt_slots pt) = en_ports ?n" by (auto simp: serves_atom_def Let_def)
  from row_ports_exact [OF assms(2), of g r] have ports: "row_ports g ?n r = Inr (Some ws) \<longleftrightarrow>
      length ws = en_ports ?n \<and> atom_binds g (en_args ?n) (rw_values r) (at_ports ws)" for ws
    by (elim exE conjE) (simp only: sum.inject)
  show ?thesis
  proof
    assume "\<exists>ws. row_ports g ?n r = Inr (Some ws) \<and> port_value (ec_projection c) ws = \<sigma>"
    then obtain ws where "length ws = length (pt_slots pt)" "atom_binds g (pt_args pt) (rw_values r) (at_ports ws)"
      "port_value (pt_projection pt) ws = \<sigma>" using pt ports by auto
    with renamed_binds [OF pt(1), of ws g "rw_values r"] show "atom_binds g (a_args a) (rw_values r) \<sigma>" by simp
  next
    assume b: "atom_binds g (a_args a) (rw_values r) \<sigma>"
    from binds_ports [OF pt(1) b] obtain ws where ws: "length ws = length (pt_slots pt)"
      "port_value (pt_projection pt) ws = \<sigma>" .
    with renamed_binds [OF pt(1) ws(1), of g "rw_values r"] b
    have "atom_binds g (pt_args pt) (rw_values r) (at_ports ws)" by simp
    then have "row_ports g ?n r = Inr (Some ws)" using ws(1) by (simp add: ports pt(3,4))
    with ws(2) show "\<exists>ws. row_ports g ?n r = Inr (Some ws) \<and> port_value (ec_projection c) ws = \<sigma>"
      unfolding pt(2) by blast
  qed
qed

lemma shared_reads:
  assumes "patterned args pt" "length (pk_values pk) = length (pt_slots pt)"
  shows "inputs_at (inputs_shared \<lparr>sd_atom = i, sd_packet = pk, sd_projection = pt_projection pt\<rparr>) k =
    Inr (port_value (pt_projection pt) (pk_values pk) k)"
proof (cases "get_at (pt_projection pt) k")
  case None
  then show ?thesis by (simp add: inputs_at_def inputs_shared_def port_value_def get_at_def)
next
  case (Some o')
  then have k: "k < length (pt_projection pt)" "pt_projection pt ! k = o'" by simp_all
  with assms(1) have "o' = port_of (pt_slots pt) k" "distinct (pt_slots pt)" unfolding patterned_def by blast+
  then have "o' = Some n \<Longrightarrow> n < length (pk_values pk)" for n using assms(2) by (simp add: port_of_Some)
  with k show ?thesis
    by (cases o') (auto simp: inputs_at_def inputs_shared_def port_value_def get_at_def at_ports_def idx_def)
qed

end
