(* ===== verification/EntrySeeds.thy ===== *)
theory EntrySeeds
  imports EntryPatterns Seeds
begin

text \<open>
  The scheduler of \<open>engine/cell-runtime/src/entry_schedule.rs\<close> is exact. A refreshed node holds a packet for
  each row that matches its pattern, whatever it held before; publishing marks every packet that may have
  changed; so the seeds of a rule are its fresh matches.
\<close>

section \<open>A refreshed node holds the rows that match\<close>

definition packet_at :: "graph \<Rightarrow> entry_node \<Rightarrow> dependency \<Rightarrow> packet option" where
  "packet_at g n w =
     (case row_of g w of
        Inr (Some r) \<Rightarrow>
          if rw_table r \<noteq> en_table n \<or> rw_hidden r then None
          else (case row_ports g n r of Inr (Some vs) \<Rightarrow> Some \<lparr>pk_row = r, pk_values = vs\<rparr> | _ \<Rightarrow> None)
      | _ \<Rightarrow> None)"

lemma canon_no_identity: "\<not> identity v \<Longrightarrow> canon v p = canon v q"
proof (induction v)
  case (VSet xs)
  then have "map (\<lambda>x. canon x p) xs = map (\<lambda>x. canon x q) xs" by auto
  then show ?case by (simp only: canon.simps)
qed simp_all

lemma fill_ports_graph:
  "(\<And>l. Literal l \<in> fst ` set avs \<Longrightarrow> canon_in g l = canon_in h l) \<Longrightarrow> fill_ports g avs vs = fill_ports h avs vs"
proof (induction avs arbitrary: vs)
  case (Cons av avs)
  obtain a v where av: "av = (a, v)" by (cases av)
  have rest: "fill_ports g avs ws = fill_ports h avs ws" for ws by (rule Cons.IH) (rule Cons.prems, simp)
  show ?case
  proof (cases a)
    case (Literal l)
    then have "canon_in g l = canon_in h l" by (intro Cons.prems) (simp add: av)
    then show ?thesis using rest by (simp add: av Literal)
  qed (auto simp: av rest intro!: rbind_cong split: option.split)
qed simp

lemma row_ports_graph:
  assumes "\<not> en_literal_identity n \<or> g_parents g = g_parents h" "node_fits n" "rw_values r = rw_values s"
  shows "row_ports g n r = row_ports h n s"
  unfolding row_ports_def assms(3)
proof (rule fill_ports_graph)
  fix l assume "Literal l \<in> fst ` set (zip (en_args n) (rw_values s))"
  then have "Literal l \<in> set (en_args n)" by (auto dest: set_zip_leftD)
  then have "\<not> en_literal_identity n \<Longrightarrow> \<not> identity l"
    using assms(2) by (auto simp: node_fits_def literal_identities_def list_ex_iff)
  then show "canon_in g l = canon_in h l" using assms(1) by (cases "identity l") (auto intro: canon_no_identity)
qed

definition packets_valid :: "entry_node \<Rightarrow> (dependency \<rightharpoonup> packet) \<Rightarrow> bool" where
  "packets_valid n rows \<longleftrightarrow>
     (\<not> en_literal_identity n \<longrightarrow> (\<forall>w p. rows w = Some p \<longrightarrow> (\<forall>g. row_ports g n (pk_row p) = Inr (Some (pk_values p)))))"

definition epochs_of :: "(dependency \<rightharpoonup> packet) \<Rightarrow> (nat \<times> dependency) set" where
  "epochs_of rows = {(rw_epoch (pk_row p), w) | w p. rows w = Some p}"

lemma in_epochs_of: "(e, w) \<in> epochs_of rows \<longleftrightarrow> (\<exists>p. rows w = Some p \<and> e = rw_epoch (pk_row p))"
  by (auto simp: epochs_of_def)

lemma epochs_of_upd: "rows w = None \<Longrightarrow> epochs_of (rows(w \<mapsto> p)) = insert (rw_epoch (pk_row p), w) (epochs_of rows)"
  by (rule set_eqI) (auto simp: in_epochs_of split: if_splits)

lemma epochs_of_del: "epochs_of (rows(w := None)) =
    epochs_of rows - (case rows w of None \<Rightarrow> {} | Some p \<Rightarrow> {(rw_epoch (pk_row p), w)})"
  by (rule set_eqI) (auto simp: in_epochs_of split: if_splits option.splits)

lemma epochs_of_finite: "finite (dom rows) \<Longrightarrow> finite (epochs_of rows)"
proof -
  assume "finite (dom rows)"
  moreover have "epochs_of rows \<subseteq> (\<lambda>w. (rw_epoch (pk_row (the (rows w))), w)) ` dom rows"
    by (auto simp: epochs_of_def image_iff dom_def)
  ultimately show ?thesis by (meson finite_imageI finite_subset)
qed

definition cache_valid :: "graph \<Rightarrow> (dependency \<rightharpoonup> row option) \<Rightarrow> bool" where
  "cache_valid g cache \<longleftrightarrow> (\<forall>w r. cache w = Some r \<longrightarrow> row_of g w = Inr r)"

definition refreshing_ok :: "graph \<Rightarrow> entry_node \<Rightarrow> refreshing \<Rightarrow> bool" where
  "refreshing_ok g n rf \<longleftrightarrow> packets_valid n (rf_rows rf) \<and> packets_valid n (rf_old rf) \<and>
     rf_epochs rf = epochs_of (rf_rows rf) \<and> finite (dom (rf_rows rf)) \<and> cache_valid g (rf_cache rf)"

lemma packets_valid_upd:
  "packets_valid n rows \<Longrightarrow> (\<And>p g. o' = Some p \<Longrightarrow> \<not> en_literal_identity n \<Longrightarrow> row_ports g n (pk_row p) = Inr (Some (pk_values p)))
   \<Longrightarrow> packets_valid n (rows(w := o'))"
  by (auto simp: packets_valid_def)

lemma refresh_one_exact:
  assumes "refreshing_ok g n rf" "node_fits n" "row_of g w = Inr o'" "full \<Longrightarrow> rf_rows rf w = None"
  shows "\<exists>rf'. refresh_one g n full w rf = Inr rf' \<and> refreshing_ok g n rf' \<and> rf_rows rf' = (rf_rows rf)(w := packet_at g n w)"
proof -
  have ok: "packets_valid n (rf_rows rf)" "packets_valid n (rf_old rf)" "rf_epochs rf = epochs_of (rf_rows rf)"
    "finite (dom (rf_rows rf))" "cache_valid g (rf_cache rf)" using assms(1) by (simp_all add: refreshing_ok_def)
  obtain rf1 prev where tp: "take_previous full w rf = (rf1, prev)" by (cases "take_previous full w rf")
  have prev: "prev = (if full then rf_old rf w else rf_rows rf w)"
    using tp by (auto simp: take_previous_def Let_def)
  have rows1: "rf_rows rf1 = (rf_rows rf)(w := None)" and cache1: "rf_cache rf1 = rf_cache rf"
    using tp assms(4) by (auto simp: take_previous_def Let_def fun_upd_idem_iff split: option.splits if_splits)
  have old1: "packets_valid n (rf_old rf1)"
    using tp ok(2) by (auto simp: take_previous_def Let_def packets_valid_def split: option.splits if_splits)
  have ep1: "rf_epochs rf1 = epochs_of (rf_rows rf1)"
  proof (cases full)
    case True
    with assms(4) have "rf_rows rf w = None" by simp
    then have "(x, w) \<notin> epochs_of (rf_rows rf)" for x by (auto simp: epochs_of_def)
    with True tp ok(3) \<open>rf_rows rf w = None\<close> show ?thesis
      by (auto simp: rows1 epochs_of_del take_previous_def Let_def split: option.splits)
  next
    case False
    with tp ok(3) show ?thesis
      by (auto simp: epochs_of_del take_previous_def Let_def split: option.splits)
  qed
  have prev_ok: "row_ports g n (pk_row p) = Inr (Some (pk_values p))" if "prev = Some p" "\<not> en_literal_identity n" for p
    using that ok(1,2) prev by (auto simp: packets_valid_def split: if_splits)
  have fin1: "finite (dom (rf_rows rf1))" using ok(4) by (simp add: rows1)
  have val1: "packets_valid n (rf_rows rf1)" using ok(1) by (auto simp: rows1 packets_valid_def)
  obtain rf2 where c: "cached_row g w rf1 = Inr (rf2, o')"
    and rf2: "rf_rows rf2 = rf_rows rf1" "rf_old rf2 = rf_old rf1" "rf_epochs rf2 = rf_epochs rf1" "cache_valid g (rf_cache rf2)"
  proof (cases "rf_cache rf1 w")
    case None
    then show thesis
      using assms(3) ok(5) cache1 by (intro that [of "rf1\<lparr>rf_cache := (rf_cache rf1)(w \<mapsto> o')\<rparr>"])
        (auto simp: cached_row_def cache_valid_def)
  next
    case (Some r)
    then have "r = o'" using ok(5) assms(3) by (simp add: cache_valid_def cache1)
    with Some show thesis using ok(5) cache1 by (intro that [of rf1]) (auto simp: cached_row_def)
  qed
  have stop: "refreshing_ok g n rf2 \<and> rf_rows rf2 = (rf_rows rf)(w := None)"
    using rf2 old1 ep1 fin1 val1 rows1 by (simp add: refreshing_ok_def)
  have keep: "refreshing_ok g n (keep_packet w r vs rf2) \<and> rf_rows (keep_packet w r vs rf2) = (rf_rows rf)(w \<mapsto> \<lparr>pk_row = r, pk_values = vs\<rparr>)"
    if "row_ports g n r = Inr (Some vs)" for r vs
  proof -
    have "row_ports h n r = Inr (Some vs)" if "\<not> en_literal_identity n" for h
      using row_ports_graph [of n h g r r] that \<open>row_ports g n r = Inr (Some vs)\<close> assms(2) by simp
    then have "packets_valid n ((rf_rows rf)(w \<mapsto> \<lparr>pk_row = r, pk_values = vs\<rparr>))"
      by (intro packets_valid_upd [OF ok(1)]) auto
    moreover have "epochs_of ((rf_rows rf)(w \<mapsto> \<lparr>pk_row = r, pk_values = vs\<rparr>)) = insert (rw_epoch r, w) (rf_epochs rf1)"
      using epochs_of_upd [of "rf_rows rf1" w "\<lparr>pk_row = r, pk_values = vs\<rparr>"] by (simp add: ep1 rows1)
    ultimately show ?thesis
      using rf2 old1 ep1 fin1 rows1 by (simp add: refreshing_ok_def keep_packet_def)
  qed
  have run: "refresh_one g n full w rf = (case o' of
        None \<Rightarrow> Inr rf2
      | Some r \<Rightarrow>
          if rw_table r \<noteq> en_table n \<or> rw_hidden r then Inr rf2
          else
            (case (if en_literal_identity n then None else prev) of
               Some p \<Rightarrow>
                 if rw_values (pk_row p) = rw_values r then Inr (keep_packet w r (pk_values p) rf2)
                 else rbind (row_ports g n r) (\<lambda>vs. Inr (case vs of None \<Rightarrow> rf2 | Some vs \<Rightarrow> keep_packet w r vs rf2))
             | None \<Rightarrow>
                 rbind (row_ports g n r) (\<lambda>vs. Inr (case vs of None \<Rightarrow> rf2 | Some vs \<Rightarrow> keep_packet w r vs rf2))))"
    by (simp only: refresh_one_def tp c Let_def prod.case rbind_Inr)
  show ?thesis
  proof (cases o')
    case None
    with run stop assms(3) show ?thesis by (simp add: packet_at_def)
  next
    case (Some r)
    show ?thesis
    proof (cases "rw_table r \<noteq> en_table n \<or> rw_hidden r")
      case True
      with Some run stop assms(3) show ?thesis by (auto simp: packet_at_def)
    next
      case False
      from row_ports_exact [OF assms(2), of g r] obtain o2 where o2: "row_ports g n r = Inr o2" by blast
      have at: "packet_at g n w = map_option (\<lambda>vs. \<lparr>pk_row = r, pk_values = vs\<rparr>) o2"
        using False o2 assms(3) Some by (auto simp: packet_at_def split: option.splits)
      have fresh: "\<exists>rf'. Inr (case o2 of None \<Rightarrow> rf2 | Some vs \<Rightarrow> keep_packet w r vs rf2) = (Inr rf' :: refreshing res) \<and>
          refreshing_ok g n rf' \<and> rf_rows rf' = (rf_rows rf)(w := packet_at g n w)"
        using stop keep o2 at by (cases o2) auto
      show ?thesis
      proof (cases "\<exists>p. prev = Some p \<and> \<not> en_literal_identity n \<and> rw_values (pk_row p) = rw_values r")
        case True
        then obtain p where p: "prev = Some p" "\<not> en_literal_identity n" "rw_values (pk_row p) = rw_values r" by blast
        have "row_ports g n r = Inr (Some (pk_values p))"
          using prev_ok [OF p(1,2)] row_ports_graph [of n g g "pk_row p" r] assms(2) p(3) by simp
        with keep [OF this] o2 at p False run Some show ?thesis by auto
      next
        case no: False
        then have "refresh_one g n full w rf = Inr (case o2 of None \<Rightarrow> rf2 | Some vs \<Rightarrow> keep_packet w r vs rf2)"
          using run Some False o2 by (auto split: option.split)
        with fresh show ?thesis by simp
      qed
    qed
  qed
qed

lemma refresh_fold:
  "refreshing_ok g n rf \<Longrightarrow> node_fits n \<Longrightarrow> (\<And>w. w \<in> set ws \<Longrightarrow> \<exists>o'. row_of g w = Inr o') \<Longrightarrow> distinct ws \<Longrightarrow>
   (\<And>w. full \<Longrightarrow> w \<in> set ws \<Longrightarrow> rf_rows rf w = None) \<Longrightarrow>
   \<exists>rf'. rfold (refresh_one g n full) ws rf = Inr rf' \<and> refreshing_ok g n rf' \<and>
     rf_rows rf' = (\<lambda>w. if w \<in> set ws then packet_at g n w else rf_rows rf w)"
proof (induction ws arbitrary: rf)
  case (Cons w ws)
  from Cons.prems(3) obtain o' where "row_of g w = Inr o'" by auto
  from refresh_one_exact [OF Cons.prems(1,2) this, of full] Cons.prems(5) obtain rf1
    where rf1: "refresh_one g n full w rf = Inr rf1" "refreshing_ok g n rf1" "rf_rows rf1 = (rf_rows rf)(w := packet_at g n w)"
    by auto
  have "\<exists>rf'. rfold (refresh_one g n full) ws rf1 = Inr rf' \<and> refreshing_ok g n rf' \<and>
      rf_rows rf' = (\<lambda>v. if v \<in> set ws then packet_at g n v else rf_rows rf1 v)"
  proof (rule Cons.IH [OF rf1(2) Cons.prems(2)])
    show "rf_rows rf1 v = None" if "full" "v \<in> set ws" for v
      using that Cons.prems(4,5) by (auto simp: rf1(3))
  qed (use Cons.prems(3,4) in auto)
  then show ?case using rf1(1,3) by (fastforce simp: fun_eq_iff)
qed auto

definition readable :: "graph \<Rightarrow> bool" where
  "readable g \<longleftrightarrow> (\<forall>w. \<exists>r. row_of g w = Inr r) \<and> (\<forall>t < length (g_tables g). \<exists>ws. witnesses g t = Inr ws) \<and>
     (\<forall>w r. row_of g w = Inr (Some r) \<longrightarrow> \<not> rw_hidden r \<longrightarrow> listed g (rw_table r) w)"

lemma witnesses_distinct: "witnesses g t = Inr ws \<Longrightarrow> distinct ws"
  by (auto simp: witnesses_def res_simps distinct_map inj_on_def rmap_def split: if_splits)

definition state_ok :: "graph \<Rightarrow> entry_node \<Rightarrow> entry_state \<Rightarrow> bool" where
  "state_ok g n st \<longleftrightarrow> packets_valid n (es_rows st) \<and> finite (es_pending st) \<and> finite (dom (es_rows st)) \<and>
     (\<not> es_cold st \<longrightarrow> es_epochs st = epochs_of (es_rows st) \<and>
       (\<forall>w. w \<notin> es_pending st \<longrightarrow> es_rows st w = packet_at g n w))"

text \<open>
  A scheduler follows a graph: nodes that are not cold hold the packets of the graph, apart from the
  pending witnesses. It tracks the graph when also its decoded rows and its count of unions are current.
\<close>

definition follows :: "program \<Rightarrow> graph \<Rightarrow> scheduler \<Rightarrow> bool" where
  "follows p g s \<longleftrightarrow> sc_enabled s \<and> entry_plan_ok p (sc_plan s) \<and> g_tables g = p_tables p \<and>
     length (sc_states s) = length (ep_nodes (sc_plan s)) \<and>
     (\<forall>i < length (sc_states s). state_ok g (ep_nodes (sc_plan s) ! i) (sc_states s ! i) \<and>
       (en_literal_identity (ep_nodes (sc_plan s) ! i) \<longrightarrow> \<not> es_cold (sc_states s ! i) \<longrightarrow> sc_unions s = g_unions g))"

definition tracks :: "program \<Rightarrow> graph \<Rightarrow> scheduler \<Rightarrow> bool" where
  "tracks p g s \<longleftrightarrow> follows p g s \<and> cache_valid g (sc_rows s) \<and> sc_unions s = g_unions g"

lemma packet_at_listed:
  assumes "readable g" "packet_at g n w = Some pk"
  shows "listed g (en_table n) w \<and> row_of g w = Inr (Some (pk_row pk)) \<and> \<not> rw_hidden (pk_row pk) \<and>
    rw_table (pk_row pk) = en_table n \<and> row_ports g n (pk_row pk) = Inr (Some (pk_values pk))"
proof -
  from assms(2) have r: "row_of g w = Inr (Some (pk_row pk)) \<and> \<not> rw_hidden (pk_row pk) \<and>
    rw_table (pk_row pk) = en_table n \<and> row_ports g n (pk_row pk) = Inr (Some (pk_values pk))"
    by (auto simp: packet_at_def split: sum.splits option.splits if_splits)
  with assms(1) have "listed g (rw_table (pk_row pk)) w" unfolding readable_def by blast
  with r show ?thesis by simp
qed

lemma entry_refresh_exact:
  assumes "tracks p g s" "readable g" "i < length (ep_nodes (sc_plan s))"
  shows "\<exists>s' st. entry_refresh g i s = Inr s' \<and> tracks p g s' \<and> sc_plan s' = sc_plan s \<and> sc_states s' ! i = st \<and>
    \<not> es_cold st \<and> es_rows st = packet_at g (ep_nodes (sc_plan s) ! i) \<and> es_epochs st = epochs_of (es_rows st) \<and>
    finite (dom (es_rows st))"
proof -
  let ?n = "ep_nodes (sc_plan s) ! i" and ?st = "sc_states s ! i"
  have f: "follows p g s" "cache_valid g (sc_rows s)" "sc_unions s = g_unions g" using assms(1) by (simp_all add: tracks_def)
  then have len: "i < length (sc_states s)" and st: "state_ok g ?n ?st" and plan: "entry_plan_ok p (sc_plan s)"
    using assms(3) by (simp_all add: follows_def)
  have n: "node_fits ?n" "en_table ?n < length (g_tables g)"
    using plan assms(3) f(1) by (simp_all add: entry_plan_ok_def follows_def)
  show ?thesis
  proof (cases "\<not> es_cold ?st \<and> es_pending ?st = {}")
    case True
    with st have "es_rows ?st = packet_at g ?n" by (auto simp: state_ok_def)
    with True st len assms(1) show ?thesis by (auto simp: entry_refresh_def idx_def state_ok_def)
  next
    case False
    obtain all where "witnesses g (en_table ?n) = Inr all"
      using assms(2) n(2) unfolding readable_def by blast
    then obtain ws where
      ws: "(if es_cold ?st then witnesses g (en_table ?n) else Inr (sorted_list_of_set (es_pending ?st))) = Inr ws"
      by (cases "es_cold ?st") auto
    have dist: "distinct ws" using ws witnesses_distinct by (auto split: if_splits)
    let ?rf = "\<lparr>rf_rows = (if es_cold ?st then Map.empty else es_rows ?st),
        rf_epochs = (if es_cold ?st then {} else es_epochs ?st),
        rf_old = (if es_cold ?st then es_rows ?st else Map.empty), rf_cache = sc_rows s\<rparr>"
    have rf: "refreshing_ok g ?n ?rf"
      using st f(2) by (auto simp: refreshing_ok_def state_ok_def packets_valid_def epochs_of_def)
    have "\<exists>rf'. rfold (refresh_one g ?n (es_cold ?st)) ws ?rf = Inr rf' \<and> refreshing_ok g ?n rf' \<and>
        rf_rows rf' = (\<lambda>w. if w \<in> set ws then packet_at g ?n w else rf_rows ?rf w)"
      by (rule refresh_fold [OF rf n(1) _ dist]) (use assms(2) in \<open>auto simp: readable_def\<close>)
    then obtain rf' where rf': "rfold (refresh_one g ?n (es_cold ?st)) ws ?rf = Inr rf'" "refreshing_ok g ?n rf'"
      "rf_rows rf' = (\<lambda>w. if w \<in> set ws then packet_at g ?n w else rf_rows ?rf w)" by blast
    have rows: "rf_rows rf' = packet_at g ?n"
    proof (rule ext)
      fix w
      show "rf_rows rf' w = packet_at g ?n w"
      proof (cases "w \<in> set ws")
        case out: False
        show ?thesis
        proof (cases "es_cold ?st")
          case True
          have "packet_at g ?n w = None"
          proof (rule ccontr)
            assume "packet_at g ?n w \<noteq> None"
            then obtain pk where "packet_at g ?n w = Some pk" by blast
            from packet_at_listed [OF assms(2) this] ws True out show False by (auto simp: listed_def)
          qed
          with True out show ?thesis by (simp add: rf'(3))
        next
          case warm: False
          with ws have "set ws = es_pending ?st" using st by (auto simp: state_ok_def)
          with out warm st show ?thesis by (simp add: rf'(3) state_ok_def)
        qed
      qed (simp add: rf'(3))
    qed
    let ?st' = "\<lparr>es_cold = False, es_pending = {}, es_rows = rf_rows rf', es_epochs = rf_epochs rf'\<rparr>"
    let ?s' = "s\<lparr>sc_states := (sc_states s)[i := ?st'], sc_rows := rf_cache rf'\<rparr>"
    have run: "entry_refresh g i s = Inr ?s'"
      unfolding entry_refresh_def idx_def
      using len assms(3) ws rf'(1) by simp (use False in blast)
    have ok': "state_ok g ?n ?st'" using rf'(2) rows by (simp add: state_ok_def refreshing_ok_def)
    have "state_ok g (ep_nodes (sc_plan s) ! j) ((sc_states s)[i := ?st'] ! j)" if "j < length (sc_states s)" for j
      using f(1) ok' that by (cases "j = i") (simp_all add: follows_def)
    then have "tracks p g ?s'"
      using f rf'(2) by (simp add: tracks_def follows_def refreshing_ok_def)
    moreover have "sc_states ?s' ! i = ?st'" using len by simp
    ultimately show ?thesis
      using run rows rf'(2) by (intro exI [of _ ?s'] exI [of _ ?st']) (simp add: refreshing_ok_def)
  qed
qed

section \<open>Publishing keeps the nodes current\<close>

lemma packet_at_same:
  assumes "row_of g w = row_of h w" "node_fits n" "\<not> en_literal_identity n \<or> g_parents g = g_parents h"
  shows "packet_at g n w = packet_at h n w"
proof -
  have "row_ports g n = row_ports h n" by (rule ext) (rule row_ports_graph [OF assms(3,2) refl])
  then show ?thesis by (simp only: packet_at_def assms(1))
qed

lemma packet_at_none: "(\<And>r. row_of g w \<noteq> Inr (Some r)) \<Longrightarrow> packet_at g n w = None"
  by (auto simp: packet_at_def split: sum.splits option.splits)

text \<open>
  What a change of the graph must report: a witness whose row differs, with the table of the old and the
  new row, and a new count of unions when the classes differ.
\<close>

definition reported :: "graph \<Rightarrow> graph \<Rightarrow> bool" where
  "reported g h \<longleftrightarrow> g_program h = g_program g \<and> (g_unions g = g_unions h \<longrightarrow> g_parents g = g_parents h) \<and>
     (\<exists>m. changed_witnesses h = Inr m \<and> finite (dom m) \<and> (\<forall>t \<in> ran m. t < length (g_tables h)) \<and>
        (\<forall>w r. row_of g w \<noteq> row_of h w \<longrightarrow> row_of g w = Inr (Some r) \<or> row_of h w = Inr (Some r) \<longrightarrow> m w = Some (rw_table r)))"

lemma reported_packet:
  assumes "reported g h" "changed_witnesses h = Inr m" "node_fits n" "m w \<noteq> Some (en_table n)"
    and "\<not> en_literal_identity n \<or> g_unions g = g_unions h"
  shows "packet_at g n w = packet_at h n w"
proof (cases "row_of g w = row_of h w")
  case True
  with assms show ?thesis by (intro packet_at_same) (auto simp: reported_def)
next
  case False
  with assms(1,2) have t: "row_of g w = Inr (Some r) \<or> row_of h w = Inr (Some r) \<Longrightarrow> m w = Some (rw_table r)" for r
    unfolding reported_def by auto
  have "packet_at k n w = None" if "k = g \<or> k = h" for k
  proof (cases "\<exists>r. row_of k w = Inr (Some r)")
    case True
    then obtain r where r: "row_of k w = Inr (Some r)" by blast
    with t [of r] that assms(4) have "rw_table r \<noteq> en_table n" by auto
    with r show ?thesis by (simp add: packet_at_def)
  qed (auto intro: packet_at_none)
  then show ?thesis by simp
qed

definition marked :: "dependency set \<Rightarrow> entry_state \<Rightarrow> entry_state" where
  "marked ws st = (if es_cold st then st else st\<lparr>es_pending := es_pending st \<union> ws\<rparr>)"

lemma marked_empty [simp]: "marked {} st = st"
  by (simp add: marked_def)

lemma marked_marked: "marked us (marked ws st) = marked (ws \<union> us) st"
  by (simp add: marked_def Un_assoc)

lemma mark_pending_all:
  "(\<And>i. i \<in> set ids \<Longrightarrow> i < length states) \<Longrightarrow>
   rfold (mark_pending w) ids states =
     Inr (map (\<lambda>i. marked (if i \<in> set ids then {w} else {}) (states ! i)) [0..<length states])"
proof (induction ids arbitrary: states)
  case Nil
  then show ?case by (simp add: map_nth)
next
  case (Cons i ids)
  then have i: "i < length states" by simp
  have one: "mark_pending w i states = Inr (states[i := marked {w} (states ! i)])"
    using i by (auto simp: mark_pending_def idx_def marked_def)
  have "rfold (mark_pending w) ids (states[i := marked {w} (states ! i)]) =
      Inr (map (\<lambda>j. marked (if j \<in> set ids then {w} else {}) (states[i := marked {w} (states ! i)] ! j))
        [0..<length (states[i := marked {w} (states ! i)])])"
    by (rule Cons.IH) (use Cons.prems in simp)
  also have "\<dots> = Inr (map (\<lambda>j. marked (if j \<in> set (i # ids) then {w} else {}) (states ! j)) [0..<length states])"
    using i by (auto simp: nth_list_update marked_marked)
  finally show ?case using one by simp
qed

text \<open>The witnesses that a list of changes reports for a table.\<close>

definition changes_of :: "(dependency \<times> nat) list \<Rightarrow> nat \<Rightarrow> dependency set" where
  "changes_of cs t = {w. (w, t) \<in> set cs}"

lemma mark_changed_all:
  assumes "entry_plan_ok p plan"
  shows "(\<And>w t. (w, t) \<in> set cs \<Longrightarrow> t < length (p_tables p)) \<Longrightarrow> length states = length (ep_nodes plan) \<Longrightarrow>
   rfold (mark_changed (ep_tables plan)) cs states =
     Inr (map (\<lambda>i. marked (changes_of cs (en_table (ep_nodes plan ! i))) (states ! i)) [0..<length states])"
proof (induction cs arbitrary: states)
  case Nil
  then show ?case by (auto simp: changes_of_def intro!: nth_equalityI)
next
  case (Cons c cs)
  obtain w t where c: "c = (w, t)" by (cases c)
  have t: "t < length (p_tables p)" by (rule Cons.prems(1) [of w]) (simp add: c)
  let ?ids = "ep_tables plan ! t"
  let ?states = "map (\<lambda>i. marked (if i \<in> set ?ids then {w} else {}) (states ! i)) [0..<length states]"
  have ids: "i \<in> set ?ids \<longleftrightarrow> i < length states \<and> en_table (ep_nodes plan ! i) = t" for i
    using assms t Cons.prems(2) by (simp add: entry_plan_ok_def)
  have one: "mark_changed (ep_tables plan) c states = Inr ?states"
    using mark_pending_all [of ?ids states w] ids assms t
    by (simp add: mark_changed_def c idx_def entry_plan_ok_def)
  have "rfold (mark_changed (ep_tables plan)) cs ?states =
      Inr (map (\<lambda>i. marked (changes_of cs (en_table (ep_nodes plan ! i))) (?states ! i)) [0..<length ?states])"
    by (rule Cons.IH) (use Cons.prems in auto)
  also have "\<dots> = Inr (map (\<lambda>i. marked (changes_of (c # cs) (en_table (ep_nodes plan ! i))) (states ! i)) [0..<length states])"
  proof -
    have "marked (changes_of cs u) (marked (if en_table (ep_nodes plan ! i) = t then {w} else {}) (states ! i)) =
        marked (changes_of (c # cs) u) (states ! i)" if "u = en_table (ep_nodes plan ! i)" for u i
      using that by (auto simp: marked_marked changes_of_def c intro: arg_cong2 [of _ _ _ _ marked])
    then show ?thesis by (auto simp: ids)
  qed
  finally show ?case using one by simp
qed

definition cooled :: "bool \<Rightarrow> entry_state \<Rightarrow> entry_state" where
  "cooled b st = (if b then st\<lparr>es_cold := True\<rparr> else st)"

lemma set_cold_all:
  "length states = k + length nodes \<Longrightarrow>
   rfold set_cold (enumerate k nodes) states =
     Inr (map (\<lambda>i. cooled (k \<le> i \<and> en_literal_identity (nodes ! (i - k))) (states ! i)) [0..<length states])"
proof (induction nodes arbitrary: k states)
  case Nil
  then show ?case by (auto simp: cooled_def map_nth intro!: nth_equalityI)
next
  case (Cons n nodes)
  then have k: "k < length states" by simp
  have one: "set_cold (k, n) states = Inr (states[k := cooled (en_literal_identity n) (states ! k)])"
    using k by (simp add: set_cold_def idx_def cooled_def)
  have "rfold set_cold (enumerate (Suc k) nodes) (states[k := cooled (en_literal_identity n) (states ! k)]) =
      Inr (map (\<lambda>i. cooled (Suc k \<le> i \<and> en_literal_identity (nodes ! (i - Suc k)))
        (states[k := cooled (en_literal_identity n) (states ! k)] ! i)) [0..<length states])"
    using Cons.IH [of "states[k := cooled (en_literal_identity n) (states ! k)]" "Suc k"] Cons.prems by simp
  also have "\<dots> = Inr (map (\<lambda>i. cooled (k \<le> i \<and> en_literal_identity ((n # nodes) ! (i - k))) (states ! i)) [0..<length states])"
    using k by (auto simp: nth_list_update cooled_def nth_Cons' Suc_le_eq not_less)
  finally show ?case using one by simp
qed


lemma publish_tracks:
  assumes "follows p g s" "reported g h" "entry_publish h s = Inr s'"
  shows "tracks p h s'"
proof -
  let ?nodes = "ep_nodes (sc_plan s)"
  from assms(1) have en: "sc_enabled s" and plan: "entry_plan_ok p (sc_plan s)" and tables: "g_tables g = p_tables p"
    and len: "length (sc_states s) = length ?nodes"
    and states: "\<And>i. i < length ?nodes \<Longrightarrow> state_ok g (?nodes ! i) (sc_states s ! i) \<and>
      (en_literal_identity (?nodes ! i) \<longrightarrow> \<not> es_cold (sc_states s ! i) \<longrightarrow> sc_unions s = g_unions g)"
    by (auto simp: follows_def)
  from assms(2) obtain m where m: "changed_witnesses h = Inr m" "finite (dom m)" "\<forall>t \<in> ran m. t < length (g_tables h)"
    by (auto simp: reported_def)
  let ?cs = "map (\<lambda>w. (w, the (m w))) (sorted_list_of_set (dom m))"
  have cs: "(w, t) \<in> set ?cs \<longleftrightarrow> m w = Some t" for w t using m(2) by auto
  have "rfold (mark_changed (ep_tables (sc_plan s))) ?cs (sc_states s) =
      Inr (map (\<lambda>i. marked (changes_of ?cs (en_table (?nodes ! i))) (sc_states s ! i)) [0..<length (sc_states s)])"
    (is "_ = Inr ?marked")
    by (rule mark_changed_all [OF plan _ len])
      (use m(3) assms(2) tables in \<open>auto simp: cs ran_def reported_def simp del: set_map\<close>)
  note marks = this
  have cold: "rfold set_cold (enumerate 0 ?nodes) ?marked =
      Inr (map (\<lambda>i. cooled (en_literal_identity (?nodes ! i)) (?marked ! i)) [0..<length ?marked])"
    using set_cold_all [of ?marked 0 ?nodes] len by simp
  let ?cool = "\<lambda>i. sc_unions s \<noteq> g_unions h \<and> en_literal_identity (?nodes ! i)"
  have s': "sc_plan s' = sc_plan s" "sc_enabled s'" "sc_rows s' = Map.empty" "sc_unions s' = g_unions h"
    "length (sc_states s') = length ?nodes"
    "\<And>i. i < length ?nodes \<Longrightarrow> sc_states s' ! i =
       cooled (?cool i) (marked (changes_of ?cs (en_table (?nodes ! i))) (sc_states s ! i))"
    using assms(3) en m(1) marks cold len
    by (auto simp: entry_publish_def cooled_def split: if_splits)
  have "state_ok h (?nodes ! i) (sc_states s' ! i)" if i: "i < length ?nodes" for i
  proof -
    let ?n = "?nodes ! i" and ?st = "sc_states s ! i"
    let ?ws = "changes_of ?cs (en_table ?n)"
    have fits: "node_fits ?n" using plan i by (simp add: entry_plan_ok_def)
    have fin: "finite ?ws"
    proof (rule finite_subset)
      show "?ws \<subseteq> dom m" by (auto simp: changes_of_def cs simp del: set_map)
    qed (rule m(2))
    from states [OF i] have st: "state_ok g ?n ?st" by simp
    have "es_rows ?st w = packet_at h ?n w"
      if warm: "\<not> es_cold ?st" "\<not> ?cool i" and w: "w \<notin> es_pending ?st" "w \<notin> ?ws" for w
    proof -
      have "es_rows ?st w = packet_at g ?n w" using st warm(1) w(1) by (simp add: state_ok_def)
      also have "\<dots> = packet_at h ?n w"
      proof (rule reported_packet [OF assms(2) m(1) fits])
        show "m w \<noteq> Some (en_table ?n)" using w(2) by (simp add: changes_of_def cs del: set_map)
        show "\<not> en_literal_identity ?n \<or> g_unions g = g_unions h" using warm states [OF i] by auto
      qed
      finally show ?thesis .
    qed
    then show ?thesis
      using st fin unfolding s'(6) [OF i] by (auto simp: state_ok_def cooled_def marked_def)
  qed
  then show ?thesis
    using plan tables assms(2) s' by (auto simp: tracks_def follows_def cache_valid_def reported_def)
qed

section \<open>The seeds of a rule\<close>

lemma first_dependency [simp]: "DFact (0, 0) \<le> (w :: dependency)"
  by (cases w) (auto simp: less_eq_dependency_def cmp_lin_def less_prod_def)

lemma since_watermark: "(e, DFact (0, 0)) \<le> (e', w) \<longleftrightarrow> e \<le> (e' :: nat)"
  using first_dependency by auto

definition seeds_of :: "graph \<Rightarrow> nat \<Rightarrow> (nat \<Rightarrow> nat \<Rightarrow> dependency \<Rightarrow> bool) \<Rightarrow> entry_node list \<Rightarrow> consumer \<Rightarrow> seed set" where
  "seeds_of g watermark allow nodes c =
     {\<lparr>sd_atom = ec_atom c, sd_packet = pk, sd_projection = ec_projection c\<rparr> | pk w.
        packet_at g (nodes ! ec_node c) w = Some pk \<and> watermark \<le> rw_epoch (pk_row pk) \<and>
        allow (ec_atom c) (en_table (nodes ! ec_node c)) w}"

abbreviation seed_name :: "seed \<Rightarrow> nat \<times> dependency" where
  "seed_name sd \<equiv> (sd_atom sd, rw_witness (pk_row (sd_packet sd)))"

lemma consumer_seeds_exact:
  assumes "tracks p g s" "readable g" "ec_node c < length (ep_nodes (sc_plan s))"
  shows "\<exists>s' out. consumer_seeds g watermark allow c s = Inr (s', out) \<and> tracks p g s' \<and> sc_plan s' = sc_plan s \<and>
    set out = seeds_of g watermark allow (ep_nodes (sc_plan s)) c \<and> distinct (map seed_name out)"
proof -
  let ?n = "ep_nodes (sc_plan s) ! ec_node c"
  from entry_refresh_exact [OF assms] obtain s' st where run: "entry_refresh g (ec_node c) s = Inr s'"
    and s': "tracks p g s'" "sc_plan s' = sc_plan s" "sc_states s' ! ec_node c = st"
    and st: "es_rows st = packet_at g ?n" "es_epochs st = epochs_of (packet_at g ?n)" "finite (dom (packet_at g ?n))"
    by fastforce
  have len: "ec_node c < length (sc_states s')"
    using s'(1,2) assms(3) by (simp add: tracks_def follows_def)
  let ?ok = "\<lambda>ew. (watermark, DFact (0, 0)) \<le> ew \<and> allow (ec_atom c) (en_table ?n) (snd ew)"
  let ?ews = "filter ?ok (sorted_list_of_set (es_epochs st))"
  have fin: "finite (es_epochs st)" unfolding st(2) by (rule epochs_of_finite [OF st(3)])
  let ?seed = "\<lambda>w. \<lparr>sd_atom = ec_atom c, sd_packet = the (packet_at g ?n w), sd_projection = ec_projection c\<rparr>"
  have ews: "(e, w) \<in> set ?ews \<longleftrightarrow> (\<exists>pk. packet_at g ?n w = Some pk \<and> e = rw_epoch (pk_row pk) \<and> watermark \<le> e \<and>
      allow (ec_atom c) (en_table ?n) w)" for e w
    using fin by (auto simp: st(2) in_epochs_of since_watermark)
  have out: "rmapM (make_seed c st) (map snd ?ews) = Inr (map ?seed (map snd ?ews))"
  proof (rule rmapM_map)
    fix w assume "w \<in> set (map snd ?ews)"
    then obtain e where "(e, w) \<in> set ?ews" by (metis (no_types, lifting) imageE prod.collapse set_map)
    with ews obtain pk where "packet_at g ?n w = Some pk" by blast
    then show "make_seed c st w = Inr (?seed w)" by (simp add: make_seed_def st(1))
  qed
  have wit: "rw_witness (pk_row (the (packet_at g ?n w))) = w" if "packet_at g ?n w = Some pk" for w pk
    using packet_at_listed [OF assms(2) that] row_of_witness that by fastforce
  have "set (map ?seed (map snd ?ews)) = seeds_of g watermark allow (ep_nodes (sc_plan s)) c"
  proof (rule set_eqI)
    fix sd
    have "sd \<in> set (map ?seed (map snd ?ews)) \<longleftrightarrow> (\<exists>e w. (e, w) \<in> set ?ews \<and> sd = ?seed w)" by force
    also have "\<dots> \<longleftrightarrow> sd \<in> seeds_of g watermark allow (ep_nodes (sc_plan s)) c"
      unfolding ews seeds_of_def by force
    finally show "sd \<in> set (map ?seed (map snd ?ews)) \<longleftrightarrow> sd \<in> seeds_of g watermark allow (ep_nodes (sc_plan s)) c" .
  qed
  moreover have "distinct (map seed_name (map ?seed (map snd ?ews)))"
  proof -
    have d: "distinct ?ews" by simp
    have "inj_on snd (set ?ews)"
    proof (rule inj_onI)
      fix x y assume xy: "x \<in> set ?ews" "y \<in> set ?ews" "snd x = snd y"
      obtain e e' w where e: "x = (e, w)" "y = (e', w)" using xy(3) by (cases x; cases y) auto
      from xy(1) [unfolded e ews] xy(2) [unfolded e ews] show "x = y" by (auto simp: e)
    qed
    with d have dw: "distinct (map snd ?ews)" by (simp add: distinct_map)
    have "map seed_name (map ?seed (map snd ?ews)) = map (Pair (ec_atom c)) (map snd ?ews)"
    proof (simp only: map_map, rule map_cong [OF refl])
      fix ew assume ew: "ew \<in> set ?ews"
      obtain e w where [simp]: "ew = (e, w)" by (cases ew)
      from ew ews [of e w] obtain pk where "packet_at g ?n w = Some pk" by auto
      from wit [OF this] show "(seed_name \<circ> (?seed \<circ> snd)) ew = (Pair (ec_atom c) \<circ> snd) ew" by simp
    qed
    moreover have "distinct (map (Pair (ec_atom c)) (map snd ?ews))"
      by (subst distinct_map) (intro conjI dw inj_onI, simp)
    ultimately show ?thesis by (simp only:)
  qed
  moreover have "consumer_seeds g watermark allow c s = Inr (s', map ?seed (map snd ?ews))"
    using run s' len assms(3) out by (simp add: consumer_seeds_def idx_def)
  ultimately show ?thesis using s' by blast
qed


lemma all_seeds_exact:
  "tracks p g s \<Longrightarrow> readable g \<Longrightarrow> (\<And>c. c \<in> set cs \<Longrightarrow> ec_node c < length (ep_nodes (sc_plan s))) \<Longrightarrow>
   distinct (map ec_atom cs) \<Longrightarrow>
   \<exists>s' outs. smapM (consumer_seeds g watermark allow) cs s = Inr (s', outs) \<and> tracks p g s' \<and> sc_plan s' = sc_plan s \<and>
     set (concat outs) = (\<Union>c \<in> set cs. seeds_of g watermark allow (ep_nodes (sc_plan s)) c) \<and>
     distinct (map seed_name (concat outs))"
proof (induction cs arbitrary: s)
  case (Cons c cs)
  from consumer_seeds_exact [OF Cons.prems(1,2), of c watermark allow] Cons.prems(3) obtain s1 out where
    one: "consumer_seeds g watermark allow c s = Inr (s1, out)" "tracks p g s1" "sc_plan s1 = sc_plan s"
      "set out = seeds_of g watermark allow (ep_nodes (sc_plan s)) c" "distinct (map seed_name out)" by auto
  have "\<exists>s' outs. smapM (consumer_seeds g watermark allow) cs s1 = Inr (s', outs) \<and> tracks p g s' \<and> sc_plan s' = sc_plan s1 \<and>
      set (concat outs) = (\<Union>c \<in> set cs. seeds_of g watermark allow (ep_nodes (sc_plan s1)) c) \<and>
      distinct (map seed_name (concat outs))"
    by (rule Cons.IH [OF one(2) Cons.prems(2)]) (use Cons.prems(3,4) one(3) in auto)
  then obtain s' outs where rest: "smapM (consumer_seeds g watermark allow) cs s1 = Inr (s', outs)" "tracks p g s'"
    "sc_plan s' = sc_plan s" "set (concat outs) = (\<Union>c \<in> set cs. seeds_of g watermark allow (ep_nodes (sc_plan s)) c)"
    "distinct (map seed_name (concat outs))" unfolding one(3) by blast
  have "seed_name ` set out \<inter> seed_name ` set (concat outs) = {}"
    using Cons.prems(4) unfolding one(4) rest(4) by (fastforce simp: seeds_of_def)
  then have "distinct (map seed_name (concat (out # outs)))"
    using one(5) rest(5) by simp
  then show ?case using one rest by (intro exI [of _ s'] exI [of _ "out # outs"]) simp
qed auto

text \<open>
  The life of a scheduler: it is made and published once, then publishes and delivers seeds as the graph
  changes.
\<close>

inductive scheduled :: "program \<Rightarrow> entry_plan \<Rightarrow> graph \<Rightarrow> scheduler \<Rightarrow> bool" for p plan where
  start: "g_tables g = p_tables p \<Longrightarrow> reported g g \<Longrightarrow> entry_publish g (scheduler_new plan True) = Inr s \<Longrightarrow> scheduled p plan g s"
| change: "scheduled p plan g s \<Longrightarrow> reported g h \<Longrightarrow> entry_publish h s = Inr s' \<Longrightarrow> scheduled p plan h s'"
| deliver: "scheduled p plan g s \<Longrightarrow> readable g \<Longrightarrow> rid < length (ep_rules plan) \<Longrightarrow>
    seeds_where g rid watermark allow s = Inr (s', out) \<Longrightarrow> scheduled p plan g s'"

lemma plan_consumers:
  assumes "entry_plan_ok p plan" "rid < length (p_rules p)"
  shows "rid < length (ep_rules plan)" "plan_serves p (ep_nodes plan) (p_rules p ! rid) (ep_rules plan ! rid)"
  using assms by (auto simp: entry_plan_ok_def list_all2_conv_all_nth)

lemma served_consumers:
  assumes "plan_serves p nodes r cs"
  shows "c \<in> set cs \<Longrightarrow> ec_node c < length nodes" "distinct (map ec_atom cs)"
proof -
  have all: "list_all2 (serves_atom nodes (length (tm_sorts (p_templates p ! r_template r))))
      (if r_seminaive r then entry_atoms r else []) cs" using assms by (simp add: plan_serves_def)
  then show "c \<in> set cs \<Longrightarrow> ec_node c < length nodes"
    by (auto simp: serves_atom_def list_all2_conv_all_nth in_set_conv_nth)
  have "map ec_atom cs = map fst (if r_seminaive r then entry_atoms r else [])"
    using all by (induction rule: list_all2_induct) (auto simp: serves_atom_def)
  moreover have "distinct (map fst (filter P (enumerate 0 xs)))" for P and xs :: "atom list"
    by (rule distinct_map_filter) simp
  ultimately show "distinct (map ec_atom cs)" by (simp add: entry_atoms_def)
qed

lemma new_follows:
  assumes "entry_plan_ok p plan" "g_tables g = p_tables p"
  shows "follows p g (scheduler_new plan True)"
  using assms by (simp add: follows_def scheduler_new_def state_ok_def packets_valid_def)

lemma scheduled_tracks:
  assumes "entry_plan_ok p plan"
  shows "scheduled p plan g s \<Longrightarrow> tracks p g s \<and> sc_plan s = plan"
proof (induction rule: scheduled.induct)
  case (start g s)
  from publish_tracks [OF new_follows [OF assms start(1)] start(2,3)] show ?case
    using start(3) by (auto simp: entry_publish_def scheduler_new_def res_simps split: if_splits)
next
  case (change g s h s')
  then have "follows p g s" by (simp add: tracks_def)
  from publish_tracks [OF this change.hyps(2,3)] show ?case
    using change.IH change.hyps(3) by (auto simp: entry_publish_def res_simps split: if_splits)
next
  case (deliver g s rid watermark allow s' out)
  have len: "length (ep_rules plan) = length (p_rules p)"
    using assms by (auto simp: entry_plan_ok_def dest: list_all2_lengthD)
  note sv = served_consumers [OF plan_consumers(2) [OF assms]]
  from all_seeds_exact [of p g s "ep_rules plan ! rid" watermark allow] deliver sv [of rid] len obtain s1 outs
    where "smapM (consumer_seeds g watermark allow) (ep_rules plan ! rid) s = Inr (s1, outs)" "tracks p g s1" "sc_plan s1 = plan"
    by (auto simp del: smapM.simps)
  with deliver show ?case by (auto simp: seeds_where_def idx_def rmap_def)
qed


lemma seeds_of_binds:
  assumes "readable g" "serves_atom nodes m (i, a) c" "node_fits (nodes ! ec_node c)"
  shows "(\<exists>sd \<in> seeds_of g watermark allow nodes c. sd_atom sd = j \<and> pk_row (sd_packet sd) = r \<and>
      (\<forall>k. inputs_at (inputs_shared sd) k = Inr (\<sigma> k))) \<longleftrightarrow>
    j = i \<and> (\<exists>t. a_call a = CTable t \<and> visible g t r \<and> rw_table r = t \<and> watermark \<le> rw_epoch r \<and>
      allow i t (rw_witness r) \<and> atom_binds g (a_args a) (rw_values r) \<sigma>)"
proof -
  let ?n = "nodes ! ec_node c"
  from assms(2) obtain pt where c: "ec_atom c = i" "a_call a = CTable (en_table ?n)"
    and pt: "patterned (a_args a) pt" "pt_projection pt = ec_projection c" "length (pt_slots pt) = en_ports ?n"
    by (auto simp: serves_atom_def Let_def)
  have reads: "inputs_at (inputs_shared \<lparr>sd_atom = i, sd_packet = pk, sd_projection = ec_projection c\<rparr>) k =
      Inr (port_value (ec_projection c) (pk_values pk) k)"
    if "row_ports g ?n (pk_row pk) = Inr (Some (pk_values pk))" for pk k
  proof -
    have "length (pk_values pk) = en_ports ?n" using row_ports_exact [OF assms(3), of g "pk_row pk"] that by auto
    with shared_reads [OF pt(1), of pk i k] pt(2,3) show ?thesis by simp
  qed
  note binds = consumer_binds [OF assms(2,3), of g r \<sigma>]
  show ?thesis
  proof
    assume "\<exists>sd \<in> seeds_of g watermark allow nodes c. sd_atom sd = j \<and> pk_row (sd_packet sd) = r \<and>
      (\<forall>k. inputs_at (inputs_shared sd) k = Inr (\<sigma> k))"
    then obtain pk w where pk: "packet_at g ?n w = Some pk" "watermark \<le> rw_epoch (pk_row pk)" "allow i (en_table ?n) w"
      and j: "j = i" "pk_row pk = r"
      and all: "\<And>k. inputs_at (inputs_shared \<lparr>sd_atom = i, sd_packet = pk, sd_projection = ec_projection c\<rparr>) k = Inr (\<sigma> k)"
      by (auto simp: seeds_of_def c(1))
    note row = packet_at_listed [OF assms(1) pk(1)]
    have "port_value (ec_projection c) (pk_values pk) = \<sigma>"
      using reads [of pk] all row by (intro ext) simp
    then have "atom_binds g (a_args a) (rw_values r) \<sigma>" using binds row j(2) by blast
    moreover have "visible g (en_table ?n) r \<and> rw_witness r = w" using visibleI row j(2) by metis
    ultimately show "j = i \<and> (\<exists>t. a_call a = CTable t \<and> visible g t r \<and> rw_table r = t \<and> watermark \<le> rw_epoch r \<and>
      allow i t (rw_witness r) \<and> atom_binds g (a_args a) (rw_values r) \<sigma>)"
      using pk row j c(2) by auto
  next
    assume "j = i \<and> (\<exists>t. a_call a = CTable t \<and> visible g t r \<and> rw_table r = t \<and> watermark \<le> rw_epoch r \<and>
      allow i t (rw_witness r) \<and> atom_binds g (a_args a) (rw_values r) \<sigma>)"
    then have j: "j = i" and v: "visible g (en_table ?n) r" "rw_table r = en_table ?n" "watermark \<le> rw_epoch r"
      "allow i (en_table ?n) (rw_witness r)" "atom_binds g (a_args a) (rw_values r) \<sigma>" using c(2) by auto
    from binds v(5) obtain ws where ws: "row_ports g ?n r = Inr (Some ws)" "port_value (ec_projection c) ws = \<sigma>" by blast
    let ?pk = "\<lparr>pk_row = r, pk_values = ws\<rparr>"
    let ?sd = "\<lparr>sd_atom = i, sd_packet = ?pk, sd_projection = ec_projection c\<rparr>"
    have "packet_at g ?n (rw_witness r) = Some ?pk"
      using v(1,2) ws(1) by (simp add: packet_at_def visible_def)
    then have "?sd \<in> seeds_of g watermark allow nodes c"
      using v(3,4) unfolding seeds_of_def c(1) by fastforce
    moreover have "inputs_at (inputs_shared ?sd) k = Inr (\<sigma> k)" for k
      using reads [of ?pk k] ws by simp
    ultimately show "\<exists>sd \<in> seeds_of g watermark allow nodes c. sd_atom sd = j \<and> pk_row (sd_packet sd) = r \<and>
        (\<forall>k. inputs_at (inputs_shared sd) k = Inr (\<sigma> k))"
      unfolding j by (intro bexI [of _ ?sd]) simp_all
  qed
qed

text \<open>
  C20. The scheduler of shared entries delivers exactly the fresh matches. After any sequence of publishes
  and deliveries, as long as every change of the graph was reported to it, asking for the seeds of a rule
  since a watermark returns, and gives one seed for each table atom of the rule and each visible row of
  its table that is not older than the watermark, is allowed and matches the pattern of the atom; the
  seed's inputs read for each slot the value that matching the atom with the row binds, and nothing for
  the other slots. Packets reused from earlier refreshes change nothing.
\<close>

theorem entry_seeds_exact:
  assumes "derive_entries p = Inr (plan, doc)" "scheduled p plan g s" "readable g"
    and "rid < length (p_rules p)" "r_seminaive (p_rules p ! rid)"
  shows "\<exists>s' out. seeds_where g rid watermark allow s = Inr (s', out) \<and>
    distinct (map (\<lambda>sd. (sd_atom sd, rw_witness (pk_row (sd_packet sd)))) out) \<and>
    (\<forall>i r \<sigma>.
      (\<exists>sd \<in> set out. sd_atom sd = i \<and> pk_row (sd_packet sd) = r \<and> (\<forall>k. inputs_at (inputs_shared sd) k = Inr (\<sigma> k))) \<longleftrightarrow>
      (\<exists>t a. i < length (r_query (p_rules p ! rid)) \<and> r_query (p_rules p ! rid) ! i = a \<and> a_call a = CTable t \<and>
         visible g t r \<and> rw_table r = t \<and> watermark \<le> rw_epoch r \<and> allow i t (rw_witness r) \<and>
         atom_binds g (a_args a) (rw_values r) \<sigma>))"
proof -
  note plan = derived_entry_plan [OF assms(1)]
  let ?r = "p_rules p ! rid" and ?cs = "ep_rules plan ! rid" and ?nodes = "ep_nodes plan"
  from scheduled_tracks [OF plan assms(2)] have s: "tracks p g s" "sc_plan s = plan" by simp_all
  note cs = plan_consumers [OF plan assms(4)]
  from all_seeds_exact [OF s(1) assms(3), of ?cs watermark allow] served_consumers [OF cs(2)] s(2) obtain s' outs
    where run: "smapM (consumer_seeds g watermark allow) ?cs s = Inr (s', outs)"
    and out: "set (concat outs) = (\<Union>c \<in> set ?cs. seeds_of g watermark allow ?nodes c)" "distinct (map seed_name (concat outs))"
    by (metis (no_types, lifting))
  have seeds: "seeds_where g rid watermark allow s = Inr (s', concat outs)"
    using run cs(1) s(2) by (simp add: seeds_where_def idx_def rmap_def)
  have all2: "list_all2 (serves_atom ?nodes (length (tm_sorts (p_templates p ! r_template ?r)))) (entry_atoms ?r) ?cs"
    using cs(2) assms(5) by (simp add: plan_serves_def)
  have fits: "node_fits (?nodes ! ec_node c)" if "c \<in> set ?cs" for c
    using plan served_consumers(1) [OF cs(2) that] by (simp add: entry_plan_ok_def)
  have atoms: "(i, a) \<in> set (entry_atoms ?r) \<longleftrightarrow> i < length (r_query ?r) \<and> r_query ?r ! i = a \<and> is_table a" for i a
    by (auto simp: entry_atoms_def in_set_enumerate_eq)
  have exact: "(\<exists>sd \<in> set (concat outs). sd_atom sd = i \<and> pk_row (sd_packet sd) = r \<and>
        (\<forall>k. inputs_at (inputs_shared sd) k = Inr (\<sigma> k))) \<longleftrightarrow>
      (\<exists>t a. i < length (r_query ?r) \<and> r_query ?r ! i = a \<and> a_call a = CTable t \<and>
         visible g t r \<and> rw_table r = t \<and> watermark \<le> rw_epoch r \<and> allow i t (rw_witness r) \<and>
         atom_binds g (a_args a) (rw_values r) \<sigma>)" (is "?L \<longleftrightarrow> ?R") for i r \<sigma>
  proof
    assume ?L
    then obtain c where c: "c \<in> set ?cs" and sd: "\<exists>sd \<in> seeds_of g watermark allow ?nodes c. sd_atom sd = i \<and>
        pk_row (sd_packet sd) = r \<and> (\<forall>k. inputs_at (inputs_shared sd) k = Inr (\<sigma> k))" unfolding out(1) by blast
    from c all2 obtain j a where ja: "(j, a) \<in> set (entry_atoms ?r)"
      "serves_atom ?nodes (length (tm_sorts (p_templates p ! r_template ?r))) (j, a) c"
      by (metis (no_types, lifting) in_set_conv_nth list_all2_conv_all_nth prod.collapse)
    from sd [unfolded seeds_of_binds [OF assms(3) ja(2) fits [OF c]]] ja(1) [unfolded atoms] show ?R by blast
  next
    assume R: ?R
    then obtain a where ia: "(i, a) \<in> set (entry_atoms ?r)"
      and t: "\<exists>t. a_call a = CTable t \<and> visible g t r \<and> rw_table r = t \<and> watermark \<le> rw_epoch r \<and>
        allow i t (rw_witness r) \<and> atom_binds g (a_args a) (rw_values r) \<sigma>"
      unfolding atoms by (auto simp: is_table_def)
    from ia all2 obtain c where c: "c \<in> set ?cs"
      "serves_atom ?nodes (length (tm_sorts (p_templates p ! r_template ?r))) (i, a) c"
      by (metis (no_types, lifting) in_set_conv_nth list_all2_conv_all_nth)
    from t seeds_of_binds [OF assms(3) c(2) fits [OF c(1)], of watermark allow i r \<sigma>]
    show ?L unfolding out(1) using c(1) by blast
  qed
  show ?thesis
    by (intro exI [of _ s'] exI [of _ "concat outs"] conjI allI seeds out(2) exact)
qed

section \<open>An example\<close>

definition port_program :: program where
  "port_program = unary_program\<lparr>p_tables := [port_table], p_rules := [port_rule]\<rparr>"

definition port_plan :: entry_plan where
  "port_plan = \<lparr>ep_nodes = [\<lparr>en_table = 0, en_args = [Slot 0, Literal (VInt 0)], en_ports = 1, en_literal_identity = False\<rparr>],
     ep_rules = [[\<lparr>ec_node = 0, ec_atom = 0, ec_projection = Some 0 # replicate (length (tm_sorts (p_templates port_program ! 0)) - 1) None\<rparr>]],
     ep_tables = [[0]]\<rparr>"

lemma port_derived: "\<exists>doc. derive_entries port_program = Inr (port_plan, doc)"
proof -
  have "map_sum id fst (derive_entries port_program) = Inr port_plan" by code_simp
  then show ?thesis by (cases "derive_entries port_program") auto
qed


definition port_scheduler :: scheduler where
  "port_scheduler = (scheduler_new port_plan True)\<lparr>sc_unions := g_unions port_graph\<rparr>"

lemma port_rows: "row_of port_graph w = Inr (if w = DFunction 0 then Some port_row else None)"
proof (cases w)
  case (DFact f)
  then show ?thesis by (simp add: row_of_def fact_def port_graph_def unary_empty_def empty_graph_def Let_def)
next
  case (DFunction i)
  have "length (g_functions port_graph) = 1" by (simp add: port_graph_def)
  then show ?thesis
    using port_graph_simps(5) by (cases "i = 0") (simp_all add: DFunction row_of_def function_row_def get_at_def)
qed

lemma port_readable: "readable port_graph"
proof -
  have "witnesses port_graph t = Inr [DFunction 0]" if "t < length (g_tables port_graph)" for t
    using that port_graph_simps(1,4) by simp
  then show ?thesis
    by (auto simp: readable_def port_rows port_listed port_row_def)
qed

lemma port_reported: "reported port_graph port_graph"
proof -
  have "changed_witnesses port_graph = Inr Map.empty"
    by (simp add: changed_witnesses_def forward_list_def port_graph_def unary_empty_def empty_graph_def Let_def)
  then show ?thesis by (auto simp: reported_def)
qed

lemma port_published: "entry_publish port_graph (scheduler_new port_plan True) = Inr port_scheduler"
proof -
  have "changed_witnesses port_graph = Inr Map.empty" "g_unions port_graph = 0"
    by (simp_all add: changed_witnesses_def forward_list_def port_graph_def unary_empty_def empty_graph_def Let_def)
  then show ?thesis by (simp add: entry_publish_def scheduler_new_def port_scheduler_def)
qed

lemma entry_seeds_exact_witness:
  "\<exists>s' out sd. seeds_where port_graph 0 0 (\<lambda>_ _ _. True) port_scheduler = Inr (s', out) \<and> sd \<in> set out \<and>
     pk_row (sd_packet sd) = port_row \<and> inputs_at (inputs_shared sd) 0 = Inr (Some (VEq 5))"
proof -
  obtain doc where d: "derive_entries port_program = Inr (port_plan, doc)" using port_derived by blast
  have t: "g_tables port_graph = p_tables port_program"
    by (simp add: port_graph_simps port_program_def)
  have s: "scheduled port_program port_plan port_graph port_scheduler"
    by (rule scheduled.start [OF t port_reported port_published])
  have r: "p_rules port_program = [port_rule]" by (simp add: port_program_def)
  have b: "atom_binds port_graph (a_args (port_query ! 0)) (rw_values port_row) [0 \<mapsto> VEq 5]"
    by (auto simp: atom_binds_def column_binds_def port_query_def port_row_def)
  obtain s' out where run: "seeds_where port_graph 0 0 (\<lambda>_ _ _. True) port_scheduler = Inr (s', out)"
    and exact: "\<And>i r \<sigma>. (\<exists>sd \<in> set out. sd_atom sd = i \<and> pk_row (sd_packet sd) = r \<and>
        (\<forall>k. inputs_at (inputs_shared sd) k = Inr (\<sigma> k))) \<longleftrightarrow>
      (\<exists>t a. i < length (r_query (p_rules port_program ! 0)) \<and> r_query (p_rules port_program ! 0) ! i = a \<and>
         a_call a = CTable t \<and> visible port_graph t r \<and> rw_table r = t \<and> 0 \<le> rw_epoch r \<and> True \<and>
         atom_binds port_graph (a_args a) (rw_values r) \<sigma>)"
    using entry_seeds_exact [OF d s port_readable, of 0 0 "\<lambda>_ _ _. True"] r by (auto simp: port_rule_def)
  have "\<exists>sd \<in> set out. sd_atom sd = 0 \<and> pk_row (sd_packet sd) = port_row \<and>
      (\<forall>k. inputs_at (inputs_shared sd) k = Inr ([0 \<mapsto> VEq 5] k))"
    unfolding exact using b by (auto simp: r port_rule_def port_query_def port_visible port_row_def fun_upd_def)
  with run show ?thesis by fastforce
qed

end
