(* ===== verification/SourceRecipe.thy ===== *)
theory SourceRecipe
  imports Demo
begin

text \<open>
  What the source check of the loader, \<open>verify_source\<close> of \<open>engine/cell-runtime/src/program.rs\<close>, is for: the
  rules that the engine runs are the rules of the typed source that the artifact embeds. The relations
  below read a loaded argument, call, atom, operation and rule against the text of the source, without
  the decoder; the theorem says that the loader only accepts programs that pass them, rule by rule.
\<close>

section \<open>Reading a loaded rule against the source\<close>









section \<open>Fields of decoded objects\<close>













section \<open>Effects\<close>








section \<open>Rules\<close>






section \<open>Tables and rulesets\<close>















section \<open>What the source check does not see\<close>

text \<open>
  \<open>verify_source\<close> writes slots as their names and does not ask that the names differ, and \<open>load\<close> takes a
  destination that is no position for slot 0. So two artifacts are accepted whose loaded rule is not the
  rule of the source: the first source matches \<open>r(a, a)\<close> and the loaded query also \<open>r(a, b)\<close>; the second
  source defines a variable \<open>c\<close> and the loaded operation writes the query input \<open>a\<close>.
\<close>

definition source_artifact :: "json \<Rightarrow> json \<Rightarrow> json" where
  "source_artifact recipe_rule source_rule = JObj
     [(''initial'', JArr []),
      (''recipe'', JObj [(''control'', JArr []), (''rules'', JArr [recipe_rule]),
         (''rulesets'', JArr [JObj [(''name'', JStr ''main''), (''rule_ids'', JArr [JNum 0])]]),
         (''schema'', JStr ''eggfuse-recipe/v1''), (''scope'', JStr ''original_program''), (''tables'', demo_tables)]),
      (''schema'', JStr ''eggfuse-cell-runtime/v1''),
      (''source_core'', JObj [(''initial'', JArr []),
         (''rulesets'', JArr [JObj [(''name'', JStr ''main''), (''rules'', JArr [source_rule])]]),
         (''schedule'', JArr []), (''tables'', demo_tables)])]"

definition query_rule :: "json list \<Rightarrow> json list \<Rightarrow> json" where
  "query_rule slots effects = JObj
     [(''effects'', JArr effects), (''metadata'', JObj []),
      (''query'', JArr [JObj [(''args'', JArr [slot_ref 0, slot_ref 1, unit_literal]), (''call'', table_call ''r'')]]),
      (''slots'', JArr slots)]"

definition query_source :: "string \<Rightarrow> string \<Rightarrow> json list \<Rightarrow> json" where
  "query_source x y head = JObj
     [(''body'', JArr [JObj [(''args'', JArr [var_ref x, var_ref y, unit_literal]), (''call'', table_call ''r'')]]),
      (''head'', JArr head)]"

lemma duplicate_names_accepted:
  "case load_checked (\<lambda>_. None) (source_artifact
       (query_rule [demo_slot ''a'' ''query'', demo_slot ''a'' ''query''] []) (query_source ''a'' ''a'' [])) False of
     Inl e \<Rightarrow> False
   | Inr p \<Rightarrow> r_query (p_rules p ! 0) = [\<lparr>a_call = CTable 2, a_args = [Slot 0, Slot 1, Literal (VInt 0)]\<rparr>]"
  by code_simp

lemma unplaced_destination_accepted:
  "case load_checked (\<lambda>_. None) (source_artifact
       (query_rule [demo_slot ''a'' ''query'', demo_slot ''b'' ''query'', demo_slot ''c'' ''effect'']
         [let_effect ''f'' [slot_ref 1] (JStr ''c'')])
       (query_source ''a'' ''b'' [let_effect ''f'' [var_ref ''b''] (JStr ''c'')])) False of
     Inl e \<Rightarrow> False
   | Inr p \<Rightarrow> tm_ops (p_templates p ! 0) = [OpLet 0 (CTable 0) [Slot 1]]"
  by code_simp

end
