(* ===== verification/RouteCorrect.thy ===== *)
theory RouteCorrect
  imports Multistage MergeOrders
begin

text \<open>
  What an accepted continuation plan promises: every route is one substitution of the consumer's slots by
  the producer's, and every entry order can be run from its anchor.
\<close>

section \<open>Mappings\<close>

text \<open>The columns instantiate the arguments of an atom under a mapping of its slots.\<close>

definition covers :: "(nat \<rightharpoonup> arg) \<Rightarrow> atom \<Rightarrow> nat \<times> arg list \<Rightarrow> bool" where
  "covers m a f \<longleftrightarrow> a_call a = CTable (fst f) \<and>
     list_all2 (\<lambda>x y. case x of Slot s \<Rightarrow> m s = Some y | Literal _ \<Rightarrow> y = x) (a_args a) (snd f)"

lemma covers_mono:
  assumes "covers m a f" "m \<subseteq>\<^sub>m m'"
  shows "covers m' a f"
  using assms unfolding covers_def
  by (auto elim!: list_all2_mono split: arg.splits intro: map_leD)

lemma map_column_covers:
  "map_column (x, y) m = Inr m1 \<Longrightarrow> m \<subseteq>\<^sub>m m1 \<and> (case x of Slot s \<Rightarrow> m1 s = Some y | Literal _ \<Rightarrow> y = x)"
  by (cases x) (auto split: option.splits if_splits simp: map_le_def)

lemma map_columns_cover:
  assumes "rfold map_column (zip xs ys) m = Inr m'" "length xs = length ys"
  shows "m \<subseteq>\<^sub>m m' \<and> list_all2 (\<lambda>x y. case x of Slot s \<Rightarrow> m' s = Some y | Literal _ \<Rightarrow> y = x) xs ys"
  using assms
proof (induction xs ys arbitrary: m rule: list_induct2')
  case (4 x xs y ys)
  then obtain m1 where m1: "map_column (x, y) m = Inr m1" "rfold map_column (zip xs ys) m1 = Inr m'"
    by (auto simp: res_simps)
  from 4(1) [OF m1(2)] 4(3) have ih: "m1 \<subseteq>\<^sub>m m'"
    "list_all2 (\<lambda>x y. case x of Slot s \<Rightarrow> m' s = Some y | Literal _ \<Rightarrow> y = x) xs ys" by auto
  with map_column_covers [OF m1(1)] ih show ?case by (auto intro: map_le_trans map_leD split: arg.splits)
qed auto

lemma extend_covers:
  "extend_mapping a t cols m = Inr m' \<Longrightarrow> m \<subseteq>\<^sub>m m' \<and> covers m' a (t, cols)"
  using map_columns_cover [of "a_args a" cols m m']
  by (auto simp: extend_mapping_def covers_def split: if_splits)

section \<open>Sources\<close>

text \<open>A fact of the producer as its recipe writes it: an atom of its query, or one of its effects.\<close>

definition producer_fact :: "program \<Rightarrow> nat \<Rightarrow> nat option \<Rightarrow> nat \<times> arg list \<Rightarrow> bool" where
  "producer_fact p producer e f \<longleftrightarrow>
     (case e of
        None \<Rightarrow> \<exists>a \<in> set (r_query (p_rules p ! producer)). a_call a = CTable (fst f) \<and> snd f = a_args a
      | Some k \<Rightarrow>
          let t = p_templates p ! r_template (p_rules p ! producer) in
          k < length (tm_ops t) \<and> effect_columns p (tm_ops t ! k) = Inr f)"

definition normal_of :: "program \<Rightarrow> nat \<Rightarrow> nat \<times> arg list \<Rightarrow> nat \<times> arg list \<Rightarrow> bool" where
  "normal_of p producer f f' \<longleftrightarrow> fst f' = fst f \<and>
     rmapM (normalize (p_templates p ! r_template (p_rules p ! producer))) (snd f) = Inr (snd f')"

lemma local_source_fact:
  assumes "local_source p producer kind k = Inr f'"
  shows "\<exists>f. producer_fact p producer (if kind = ''effect'' then Some k else None) f \<and> normal_of p producer f f'"
proof -
  from assms obtain r t f where r: "get_at (p_rules p) producer = Some r" "idx (p_templates p) (r_template r) = Inr t"
    and src: "(if kind = ''query'' then
         rbind (ok_or (get_at (r_query r) k) (Err ''continuation query source'')) (\<lambda>a.
         case a_call a of
           CTable tb \<Rightarrow> Inr (tb, a_args a)
         | CPrim _ _ \<Rightarrow> Inl (Err ''primitive is not a local fact''))
       else if kind = ''effect'' then
         rbind (ok_or (get_at (tm_ops t) k) (Err ''continuation effect source'')) (effect_columns p)
       else Inl (Err ''unknown local fact source'')) = Inr f"
    and n: "fst f' = fst f" "rmapM (normalize t) (snd f) = Inr (snd f')"
    unfolding local_source_def rbind_eq_Inr ok_or_eq_Inr by (cases f') (auto simp: rbind_eq_Inr)
  have t: "p_templates p ! r_template (p_rules p ! producer) = t" and q: "p_rules p ! producer = r"
    using r by (auto simp: idx_eq_Inr)
  have "normal_of p producer f f'" using n by (simp add: normal_of_def t)
  moreover have "producer_fact p producer (if kind = ''effect'' then Some k else None) f"
    using src t by (auto simp: producer_fact_def q Let_def rbind_eq_Inr ok_or_eq_Inr
        split: if_splits call.splits)
  ultimately show ?thesis by blast
qed

section \<open>Routes\<close>

text \<open>One mapping covers the anchor and every read; the reads are of distinct atoms.\<close>

definition reads_covered :: "program \<Rightarrow> nat \<Rightarrow> atom list \<Rightarrow> nat \<Rightarrow> (nat \<rightharpoonup> arg) \<Rightarrow> local_read list \<Rightarrow> bool" where
  "reads_covered p producer query anchor m reads \<longleftrightarrow> distinct (anchor # map lr_atom reads) \<and>
     (\<forall>rd \<in> set reads. lr_atom rd < length query \<and> covers m (query ! lr_atom rd) (lr_table rd, lr_columns rd) \<and>
        (\<exists>f. producer_fact p producer (lr_effect rd) f \<and> normal_of p producer f (lr_table rd, lr_columns rd)))"

lemma parse_read_covered:
  assumes "parse_read p producer query j (covered, m, reads) = Inr (covered', m', reads')"
    and "covered = set (anchor # map lr_atom reads)" "reads_covered p producer query anchor m reads"
  shows "covered' = set (anchor # map lr_atom reads') \<and> reads_covered p producer query anchor m' reads' \<and> m \<subseteq>\<^sub>m m'"
proof -
  from assms(1) obtain i k kind t cols a where
    new: "i \<notin> covered" "local_source p producer kind k = Inr (t, cols)" "i < length query"
      "extend_mapping (query ! i) t cols m = Inr m'" "covered' = insert i covered"
      "reads' = reads @ [\<lparr>lr_atom = i, lr_table = t, lr_columns = cols, lr_effect = (if kind = ''effect'' then Some k else None)\<rparr>]"
    by (auto simp: parse_read_def rbind_eq_Inr ok_or_eq_Inr split: if_splits prod.splits)
  from extend_covers [OF new(4)] have ext: "m \<subseteq>\<^sub>m m'" "covers m' (query ! i) (t, cols)" by auto
  show ?thesis
    using assms(2,3) new(1,3,5,6) ext local_source_fact [OF new(2)] covers_mono [OF _ ext(1)]
    unfolding reads_covered_def by auto
qed

definition route_covered :: "program \<Rightarrow> nat \<Rightarrow> nat \<Rightarrow> nat \<Rightarrow> nat \<Rightarrow> continuation \<Rightarrow> bool" where
  "route_covered p tmpl effect consumer anchor c \<longleftrightarrow>
     (let query = r_query (p_rules p ! consumer) in
      ct_consumer c = consumer \<and> ct_anchor c = anchor \<and> consumer < length (p_rules p) \<and> anchor < length query \<and>
      ct_producer c < length (p_rules p) \<and> r_template (p_rules p ! ct_producer c) = tmpl \<and>
      (\<exists>m f f'. producer_fact p (ct_producer c) (Some effect) f \<and> normal_of p (ct_producer c) f f' \<and>
         covers m (query ! anchor) f' \<and> reads_covered p (ct_producer c) query anchor m (ct_reads c)))"

lemma parse_route_covered:
  assumes "parse_route p j ms = Inr ms'"
    and old: "\<And>t e k a c. ms_routes ms (t, e, k, a) = Some c \<Longrightarrow> route_covered p t e k a c"
    and "ms_routes ms' (t, e, k, a) = Some c"
  shows "route_covered p t e k a c"
proof (cases "ms_routes ms (t, e, k, a) = Some c")
  case False
  from assms(1) obtain producer effect consumer anchor target tb cols m steps covered m' reads where
    r: "consumer < length (p_rules p)" "p_rules p ! consumer = target"
      "local_source p producer ''effect'' effect = Inr (tb, cols)" "anchor < length (r_query target)"
      "extend_mapping (r_query target ! anchor) tb cols Map.empty = Inr m"
      "rfold (parse_read p producer (r_query target)) steps ({anchor}, m, []) = Inr (covered, m', reads)"
      "producer < length (p_rules p)"
      "ms_routes ms' = (ms_routes ms)((r_template (p_rules p ! producer), effect, consumer, anchor) \<mapsto>
         \<lparr>ct_producer = producer, ct_consumer = consumer, ct_anchor = anchor, ct_reads = reads\<rparr>)"
    by (auto simp: parse_route_def rbind_eq_Inr ok_or_eq_Inr idx_eq_Inr Let_def split: if_splits)
  let ?P = "\<lambda>(covered, m1, reads). covered = set (anchor # map lr_atom reads) \<and>
    reads_covered p producer (r_query target) anchor m1 reads \<and> m \<subseteq>\<^sub>m m1"
  have "?P (covered, m', reads)"
    by (rule rfold_invariant [OF r(6)])
      (auto simp: reads_covered_def [of _ _ _ _ _ "[]"] dest: parse_read_covered intro: map_le_trans)
  then have reads: "reads_covered p producer (r_query target) anchor m' reads" "m \<subseteq>\<^sub>m m'" by simp_all
  have anchor: "covers m' (r_query target ! anchor) (tb, cols)"
    using extend_covers [OF r(5)] reads(2) by (blast intro: covers_mono)
  obtain f where f: "producer_fact p producer (Some effect) f" "normal_of p producer f (tb, cols)"
    using local_source_fact [OF r(3)] by auto
  have "route_covered p (r_template (p_rules p ! producer)) effect consumer anchor
      \<lparr>ct_producer = producer, ct_consumer = consumer, ct_anchor = anchor, ct_reads = reads\<rparr>"
    unfolding route_covered_def Let_def continuation.simps using r(1,4,7) reads(1) anchor f unfolding r(2) by blast
  with False assms(3) r(8) show ?thesis by (auto split: if_splits)
qed (rule old)

section \<open>The accepted plan\<close>

lemma parse_point_entry_routes: "parse_point_entry p e ms = Inr ms' \<Longrightarrow> ms_routes ms' = ms_routes ms"
  by (auto simp: parse_point_entry_def rbind_eq_Inr split: if_splits)

lemma parse_multistage_parts:
  assumes "parse_multistage env p raw = Inr ms"
  shows "ms = no_stages \<or> (\<exists>stage es ms1 fs rs finishes.
     rfold (parse_point_entry p) es (no_stages\<lparr>ms_stage_entries := stage\<rparr>) = Inr ms1 \<and>
     length finishes = length (p_rules p) \<and>
     rmapM (\<lambda>(rid, f). verify_points p rid None f) (enumerate 0 finishes) = Inr fs \<and>
     rfold (parse_route p) rs (ms1\<lparr>ms_finishes := fs\<rparr>) = Inr ms)"
  using assms unfolding parse_multistage_def by (auto simp: rbind_eq_Inr Let_def split: if_splits)

lemma accepted_covered:
  assumes "parse_multistage env p raw = Inr ms" "ms_routes ms (t, e, k, a) = Some c"
  shows "route_covered p t e k a c"
proof (cases "ms = no_stages")
  case False
  with parse_multistage_parts [OF assms(1)] obtain stage es ms1 fs rs where
    pts: "rfold (parse_point_entry p) es (no_stages\<lparr>ms_stage_entries := stage\<rparr>) = Inr ms1"
    and rts: "rfold (parse_route p) rs (ms1\<lparr>ms_finishes := fs\<rparr>) = Inr ms" by blast
  have "ms_routes ms1 = Map.empty"
    by (rule rfold_invariant [OF pts]) (simp_all add: no_stages_def parse_point_entry_routes)
  then have "\<forall>t e k a c. ms_routes (ms1\<lparr>ms_finishes := fs\<rparr>) (t, e, k, a) = Some c \<longrightarrow> route_covered p t e k a c" by simp
  then have "\<forall>t e k a c. ms_routes ms (t, e, k, a) = Some c \<longrightarrow> route_covered p t e k a c"
    by (rule rfold_invariant [OF rts]) (blast intro: parse_route_covered)
  with assms(2) show ?thesis by blast
qed (use assms(2) in \<open>simp add: no_stages_def\<close>)

text \<open>A fact of the producer, read with the values of its slots, is the atom read with a substitution.\<close>

definition instance_of :: "(nat \<Rightarrow> val) \<Rightarrow> (nat \<Rightarrow> val) \<Rightarrow> atom \<Rightarrow> nat \<times> arg list \<Rightarrow> bool" where
  "instance_of vals sub a f \<longleftrightarrow> a_call a = CTable (fst f) \<and> map (arg_val sub) (a_args a) = map (arg_val vals) (snd f)"

definition substitution :: "(nat \<Rightarrow> val) \<Rightarrow> (nat \<rightharpoonup> arg) \<Rightarrow> nat \<Rightarrow> val" where
  "substitution vals m s = (case m s of Some a \<Rightarrow> arg_val vals a | None \<Rightarrow> VInt 0)"

lemma covers_instance:
  assumes "covers m a f'" "normal_of p producer f f'" "copies_hold vals t" "ssa_defs (tm_ops t) (tm_defs t)"
    and "p_templates p ! r_template (p_rules p ! producer) = t"
  shows "instance_of vals (substitution vals m) a f"
proof -
  from assms(2,5) have n: "list_all2 (\<lambda>x y. normalize t x = Inr y) (snd f) (snd f')"
    by (auto simp: normal_of_def intro: rmapM_Inr)
  have "list_all2 (\<lambda>x y. arg_val vals x = arg_val vals y) (snd f) (snd f')"
    by (rule list_all2_mono [OF n]) (metis normalize_def norm_val [OF assms(3,4)])
  moreover have "list_all2 (\<lambda>x y. arg_val (substitution vals m) x = arg_val vals y) (a_args a) (snd f')"
  proof (rule list_all2_mono)
    show "list_all2 (\<lambda>x y. case x of Slot s \<Rightarrow> m s = Some y | Literal _ \<Rightarrow> y = x) (a_args a) (snd f')"
      using assms(1) by (simp add: covers_def)
  qed (simp add: substitution_def split: arg.splits)
  ultimately have "map (arg_val (substitution vals m)) (a_args a) = map (arg_val vals) (snd f)"
    by (auto simp: list_all2_conv_all_nth intro!: nth_equalityI)
  with assms(1,2) show ?thesis by (simp add: instance_of_def covers_def normal_of_def)
qed

text \<open>
  C15. A route of an accepted continuation plan is a substitution. In the recipe of the producer the copies
  hold; then one substitution of the consumer's slots turns the anchor into the fact that the effect
  writes, and each covered atom into a fact that the producer has read or writes, with the same table and
  columns; every read names an atom of the query with the table of its fact, and no atom is covered twice.
\<close>

theorem accepted_routes_substitute:
  assumes "parse_multistage env p raw = Inr ms" "ms_routes ms (tmpl, effect, consumer, anchor) = Some c"
    and "copies_hold vals (p_templates p ! tmpl)"
    and "ssa_defs (tm_ops (p_templates p ! tmpl)) (tm_defs (p_templates p ! tmpl))"
  shows "route_ok (r_query (p_rules p ! consumer)) c \<and> distinct (anchor # map lr_atom (ct_reads c)) \<and>
     r_template (p_rules p ! ct_producer c) = tmpl \<and>
     (\<exists>sub f. producer_fact p (ct_producer c) (Some effect) f \<and>
        instance_of vals sub (r_query (p_rules p ! consumer) ! anchor) f \<and>
        (\<forall>rd \<in> set (ct_reads c). \<exists>f. producer_fact p (ct_producer c) (lr_effect rd) f \<and>
           instance_of vals sub (r_query (p_rules p ! consumer) ! lr_atom rd) f))"
proof -
  let ?q = "r_query (p_rules p ! consumer)"
  from accepted_covered [OF assms(1,2)] obtain m f f' where
    c: "r_template (p_rules p ! ct_producer c) = tmpl" and anchor: "producer_fact p (ct_producer c) (Some effect) f"
      "normal_of p (ct_producer c) f f'" "covers m (?q ! anchor) f'"
    and reads: "reads_covered p (ct_producer c) ?q anchor m (ct_reads c)"
    by (auto simp: route_covered_def Let_def)
  have inst: "instance_of vals (substitution vals m) a f" if "covers m a f'" "normal_of p (ct_producer c) f f'" for a f f'
    by (rule covers_instance [OF that assms(3,4)]) (simp add: c)
  have "route_ok ?q c" "distinct (anchor # map lr_atom (ct_reads c))"
    using reads by (auto simp: route_ok_def reads_covered_def covers_def)
  moreover have "\<forall>rd \<in> set (ct_reads c). \<exists>f. producer_fact p (ct_producer c) (lr_effect rd) f \<and>
      instance_of vals (substitution vals m) (?q ! lr_atom rd) f"
    using reads inst unfolding reads_covered_def by blast
  ultimately show ?thesis using c anchor(1) inst [OF anchor(3,2)] by blast
qed

text \<open>
  A producer \<open>R(x, y) => c = F(x); d = c; e = G(d)\<close> and a consumer with the query \<open>F(a, b), G(b, z)\<close>: when the
  producer has written \<open>F\<close>, its own \<open>G\<close> answers the second atom, through the copy.
\<close>

definition stage_table :: "string \<Rightarrow> bool \<Rightarrow> table" where
  "stage_table n b = \<lparr>t_name = n, t_schema = [eq_s, eq_s], t_constructor = b, t_virtual = b, t_merge = JNull, t_internal = False\<rparr>"

definition stage_template :: "op list \<Rightarrow> (nat \<rightharpoonup> nat) \<Rightarrow> template" where
  "stage_template ops defs = \<lparr>tm_name = ''t'', tm_sorts = [eq_s, eq_s, eq_s, eq_s, eq_s], tm_defs = defs, tm_ops = ops,
     tm_parent_columns = Map.empty\<rparr>"

definition stage_rule :: "nat \<Rightarrow> atom list \<Rightarrow> nat list \<Rightarrow> rule" where
  "stage_rule t query ins = \<lparr>r_constructor_only = False, r_template = t, r_query = query, r_inputs = ins,
     r_seminaive = True, r_direct = None\<rparr>"

definition producer_ops :: "op list" where
  "producer_ops = [OpLet 2 (CTable 1) [Slot 0], OpCopy 3 (Slot 2), OpLet 4 (CTable 2) [Slot 3]]"

definition stage_program :: program where
  "stage_program = \<lparr>p_known_results = no_known, p_merge_programs = no_merges, p_views = no_views,
     p_congruence = no_congruence, p_tables = [stage_table ''R'' False, stage_table ''F'' True, stage_table ''G'' True],
     p_templates = [stage_template producer_ops [2 \<mapsto> 0, 3 \<mapsto> 1, 4 \<mapsto> 2], stage_template [] Map.empty],
     p_rules = [stage_rule 0 [\<lparr>a_call = CTable 0, a_args = [Slot 0, Slot 1]\<rparr>] [0, 1],
       stage_rule 1 [\<lparr>a_call = CTable 1, a_args = [Slot 0, Slot 1]\<rparr>, \<lparr>a_call = CTable 2, a_args = [Slot 1, Slot 2]\<rparr>] [0, 1, 2]],
     p_sets = Map.empty, p_control = [], p_initial = [], p_table_templates = [],
     p_artifact = JObj [(''recipe'', JObj [(''rulesets'', JArr [])])]\<rparr>"

definition stage_plan :: json where
  "stage_plan = JObj
     [(''entries'', JArr [JObj [(''anchor'', JNum 0), (''atoms'', nats_json [1]), (''rule'', JNum 1)]]),
      (''finishes'', JArr [nats_json [], nats_json []]),
      (''routes'', JArr [JObj [(''anchor'', JNum 0), (''consumer'', JNum 1), (''effect'', JNum 0), (''producer'', JNum 0),
         (''residual'', nats_json []),
         (''steps'', JArr [JObj [(''atom'', JNum 1), (''source_index'', JNum 2), (''source_kind'', JStr ''effect'')]])]]),
      (''rule_sets'', JArr []), (''schema'', JStr ''eggfuse-multistage/v1'')]"

definition stage_route :: "continuation option" where
  "stage_route = (case parse_multistage (\<lambda>_. None) stage_program stage_plan of
     Inr ms \<Rightarrow> ms_routes ms (0, 0, 1, 0) | Inl _ \<Rightarrow> None)"

lemma stage_route_value: "stage_route = Some \<lparr>ct_producer = 0, ct_consumer = 1, ct_anchor = 0,
    ct_reads = [\<lparr>lr_atom = 1, lr_table = 2, lr_columns = [Slot 2, Slot 4], lr_effect = Some 2\<rparr>]\<rparr>"
  by code_simp

definition stage_vals :: "nat \<Rightarrow> val" where
  "stage_vals s = VEq (if s = 3 then 2 else word_of_nat s)"

lemma accepted_routes_substitute_witness:
  "\<exists>sub f h. producer_fact stage_program 0 (Some 0) f \<and>
     instance_of stage_vals sub \<lparr>a_call = CTable 1, a_args = [Slot 0, Slot 1]\<rparr> f \<and>
     producer_fact stage_program 0 (Some 2) h \<and>
     instance_of stage_vals sub \<lparr>a_call = CTable 2, a_args = [Slot 1, Slot 2]\<rparr> h"
proof -
  obtain ms where ms: "parse_multistage (\<lambda>_. None) stage_program stage_plan = Inr ms"
    "ms_routes ms (0, 0, 1, 0) = Some \<lparr>ct_producer = 0, ct_consumer = 1, ct_anchor = 0,
      ct_reads = [\<lparr>lr_atom = 1, lr_table = 2, lr_columns = [Slot 2, Slot 4], lr_effect = Some 2\<rparr>]\<rparr>"
    using stage_route_value by (auto simp: stage_route_def split: sum.splits)
  have t: "p_templates stage_program ! 0 = stage_template producer_ops [2 \<mapsto> 0, 3 \<mapsto> 1, 4 \<mapsto> 2]"
    and q: "r_query (p_rules stage_program ! 1) =
      [\<lparr>a_call = CTable 1, a_args = [Slot 0, Slot 1]\<rparr>, \<lparr>a_call = CTable 2, a_args = [Slot 1, Slot 2]\<rparr>]"
    by (simp_all add: stage_program_def stage_rule_def)
  have copies: "copies_hold stage_vals (p_templates stage_program ! 0)"
    by (simp add: t copies_hold_def stage_template_def producer_ops_def stage_vals_def)
  have ssa: "ssa_defs (tm_ops (p_templates stage_program ! 0)) (tm_defs (p_templates stage_program ! 0))"
    unfolding t ssa_defs_def stage_template_def producer_ops_def by (auto simp: less_Suc_eq nth_Cons')
  show ?thesis
    using accepted_routes_substitute [OF ms copies ssa] unfolding q by auto
qed

end
