(* ===== verification/Compositions.thy ===== *)
theory Compositions
  imports RouteCorrect Loader
begin

text \<open>
  The parser of multi-rule programs, \<open>engine/cell-runtime/src/compositions.rs\<close>. A composition edge lets a
  consumer continue from one effect of a producer across the repair between two Runs: its instructions
  cover the other atoms of the consumer by queries with bound keys or by facts of the producer, and its
  reuses name producer facts that the consumer's own constructions would give. The parser recomputes
  every list of effects, guards, equalities and marker entries and rechecks every edge. The digest of the
  document (\<open>sha2\<close> over a \<open>serde_json\<close> text) is a parameter.
\<close>

section \<open>State\<close>

record instruction =
  in_atom :: nat
  in_columns :: "arg list option"

record comp_edge =
  cg_id :: nat
  cg_program :: nat
  cg_producer :: nat
  cg_consumer :: nat
  cg_instructions :: "instruction list"
  cg_reuse :: "nat \<rightharpoonup> arg list"

record compositions =
  cp_edges :: "nat \<times> nat \<times> nat \<times> nat \<rightharpoonup> comp_edge"
  cp_rule_program :: "nat \<rightharpoonup> nat"
  cp_marker_entries :: "nat set"
  cp_programs :: nat

definition no_compositions :: compositions where
  "no_compositions = \<lparr>cp_edges = Map.empty, cp_rule_program = Map.empty, cp_marker_entries = {}, cp_programs = 0\<rparr>"

definition comp_num :: "json \<Rightarrow> string \<Rightarrow> nat res" where
  "comp_num j k = ok_or (as_u64 (jfield j k)) (Err (''composition '' @ k))"

section \<open>Aliases\<close>

text \<open>\<open>norm\<close> follows the map to its end; an alias always leads to a smaller argument.\<close>

definition alias_norm :: "(arg \<rightharpoonup> arg) \<Rightarrow> arg \<Rightarrow> arg" where
  "alias_norm m a = while (\<lambda>a. m a \<noteq> None) (\<lambda>a. the (m a)) a"

definition add_alias :: "template \<Rightarrow> op \<Rightarrow> (arg \<rightharpoonup> arg) \<Rightarrow> (arg \<rightharpoonup> arg) res" where
  "add_alias t e m =
     (case e of
        OpUnion a b \<Rightarrow>
          rbind (normalize t a) (\<lambda>a. rbind (normalize t b) (\<lambda>b.
          let x = alias_norm m a; y = alias_norm m b in
          Inr (if x \<noteq> y then m(max x y \<mapsto> min x y) else m)))
      | _ \<Rightarrow> Inr m)"

definition union_aliases :: "template \<Rightarrow> (arg \<rightharpoonup> arg) res" where
  "union_aliases t = rfold (add_alias t) (tm_ops t) Map.empty"

text \<open>Tables whose rows stay: never hidden by a rule, and constructors without merge or markers.\<close>

definition removed_tables :: "program \<Rightarrow> nat set" where
  "removed_tables p =
     (\<Union>tm \<in> set (p_templates p). \<Union>e \<in> set (tm_ops tm). case e of OpHide t _ _ \<Rightarrow> {t} | _ \<Rightarrow> {})"

definition immutable_table :: "program \<Rightarrow> nat \<Rightarrow> bool res" where
  "immutable_table p t =
     (if t \<in> removed_tables p then Inr False
      else rbind (idx (p_tables p) t) (\<lambda>tb.
        Inr (t_constructor tb \<and> t_merge tb = JNull \<or> t \<in> v_markers (p_views p))))"

section \<open>Programs\<close>

definition equality_json :: "program \<Rightarrow> nat \<times> json \<Rightarrow> json list" where
  "equality_json p ie =
     (let e = snd ie in
      if jfield e ''op'' = JStr ''union'' then
        [JObj [(''activation'', JStr ''after-source-Run-repair''), (''args'', jfield e ''args''),
           (''kind'', JStr ''union''), (''op'', JNum (int (fst ie)))]]
      else if jfield e ''op'' = JStr ''set'' \<and>
        (\<exists>t \<in> set (p_tables p). t_constructor t \<and> jfield (jfield e ''call'') ''table'' = JStr (t_name t)) then
        [JObj [(''activation'', JStr ''after-source-Run-repair''), (''args'', jfield e ''args''),
           (''kind'', JStr ''constructor-result''), (''op'', JNum (int (fst ie))), (''result'', jfield e ''value''),
           (''table'', jfield (jfield e ''call'') ''table'')]]
      else [])"

definition recipe_rule :: "program \<Rightarrow> nat \<Rightarrow> json" where
  "recipe_rule p r = jat (jfield (jfield (p_artifact p) ''recipe'') ''rules'') r"

definition helper_rule :: "json \<Rightarrow> bool" where
  "helper_rule j \<longleftrightarrow>
     (case as_str (jfield (jfield j ''metadata'') ''source_set'') of None \<Rightarrow> False | Some s \<Rightarrow> starts_with ''cell-'' s)"

definition guard_atoms :: "rule \<Rightarrow> nat list" where
  "guard_atoms r = filter (\<lambda>i. \<not> is_table (r_query r ! i)) [0..<length (r_query r)]"

definition parse_step :: "program \<Rightarrow> nat \<Rightarrow> json \<Rightarrow> compositions \<Rightarrow> compositions res" where
  "parse_step p pid step cp =
     rbind (comp_num step ''rule'') (\<lambda>r.
     rbind (ok_or (get_at (p_rules p) r) (Err ''composition step rule'')) (\<lambda>ru.
     if helper_rule (recipe_rule p r) then Inl (Err ''helper cannot count as multi-rule step'')
     else
       rbind (idx (p_templates p) (r_template ru)) (\<lambda>tm.
       rbind (j_array (jfield (recipe_rule p r) ''effects'')) (\<lambda>es.
       if jfield step ''effects'' \<noteq> nats_json [0..<length (tm_ops tm)] \<or>
         jfield step ''guards'' \<noteq> nats_json (guard_atoms ru) \<or>
         jfield step ''equalities'' \<noteq> JArr (concat (map (equality_json p) (enumerate 0 es))) \<or>
         cp_rule_program cp r \<noteq> None
       then Inl (Err ''composition dropped/reordered effect or condition'')
       else Inr (cp\<lparr>cp_rule_program := (cp_rule_program cp)(r \<mapsto> pid)\<rparr>)))))"

definition entry_json :: "program \<Rightarrow> nat \<Rightarrow> nat \<times> atom \<Rightarrow> json list res" where
  "entry_json p r ia =
     (case a_call (snd ia) of
        CPrim _ _ \<Rightarrow> Inr []
      | CTable t \<Rightarrow>
          if t \<notin> v_markers (p_views p) then Inr []
          else rbind (idx (p_tables p) t) (\<lambda>tb.
            Inr [JObj [(''arguments'', jfield (jat (jfield (recipe_rule p r) ''query'') (fst ia)) ''args''),
              (''atom'', JNum (int (fst ia))), (''marker'', JStr (t_name tb)), (''rule'', JNum (int r))]]))"

definition rule_entries :: "program \<Rightarrow> nat \<Rightarrow> json list res" where
  "rule_entries p r =
     rbind (idx (p_rules p) r) (\<lambda>ru. rmap concat (rmapM (entry_json p r) (enumerate 0 (r_query ru))))"

text \<open>The keys of \<open>rule_program\<close> are rules, in their order.\<close>

definition owned_rules :: "program \<Rightarrow> compositions \<Rightarrow> nat \<Rightarrow> nat list" where
  "owned_rules p cp pid = filter (\<lambda>r. cp_rule_program cp r = Some pid) [0..<length (p_rules p)]"

definition parse_comp_program :: "program \<Rightarrow> json \<Rightarrow> compositions \<Rightarrow> compositions res" where
  "parse_comp_program p j cp =
     rbind (comp_num j ''id'') (\<lambda>pid.
     if pid \<noteq> cp_programs cp then Inl (Err ''composition program order'')
     else
       rbind (j_array (jfield j ''steps'')) (\<lambda>steps.
       rbind (rfold (parse_step p pid) steps (cp\<lparr>cp_programs := cp_programs cp + 1\<rparr>)) (\<lambda>cp1.
       rbind (rmapM (rule_entries p) (owned_rules p cp1 pid)) (\<lambda>ess.
       let marked = map fst (filter (\<lambda>re. snd re \<noteq> []) (zip (owned_rules p cp1 pid) ess)) in
       if jfield j ''marker_entries'' \<noteq> JArr (concat ess) then Inl (Err ''composition marker projection differs'')
       else Inr (cp1\<lparr>cp_marker_entries := cp_marker_entries cp1 \<union> set marked\<rparr>)))))"

section \<open>Edges\<close>

text \<open>A fact of the producer in a table whose rows stay, its columns normal also across the unions.\<close>

definition comp_source :: "program \<Rightarrow> nat \<Rightarrow> (arg \<rightharpoonup> arg) \<Rightarrow> string \<Rightarrow> nat \<Rightarrow> (nat \<times> arg list) res" where
  "comp_source p producer m kind i =
     rbind (local_source p producer kind i) (\<lambda>(t, cols).
     rbind (immutable_table p t) (\<lambda>stays.
     if \<not> stays then Inl (Err ''composition depends on mutable/removable source'')
     else Inr (t, map (alias_norm m) cols)))"

text \<open>The columns of a known instruction are read from a source and extend the mapping.\<close>

definition known_columns :: "program \<Rightarrow> nat \<Rightarrow> (arg \<rightharpoonup> arg) \<Rightarrow> json \<Rightarrow> atom \<Rightarrow> (nat \<rightharpoonup> arg)
    \<Rightarrow> ((nat \<rightharpoonup> arg) \<times> arg list option) res" where
  "known_columns p producer aliases i a m =
     rbind (j_string (jfield i ''kind'')) (\<lambda>kind.
     if kind = ''query'' then Inr (m, None)
     else if kind = ''known'' then
       rbind (j_string (jfield i ''source_kind'')) (\<lambda>sk.
       rbind (comp_num i ''source_index'') (\<lambda>k.
       rbind (comp_source p producer aliases sk k) (\<lambda>(t, c).
       rbind (extend_mapping a t c m) (\<lambda>m1. Inr (m1, Some c)))))
     else Inl (Err ''composition instruction kind''))"

record edge_state =
  eg_covered :: "nat set"
  eg_known :: "nat set"
  eg_mapping :: "nat \<rightharpoonup> arg"
  eg_instructions :: "instruction list"

definition unknown_key :: "nat set \<Rightarrow> atom \<Rightarrow> bool res" where
  "unknown_key known a =
     (if a_args a = [] then Inl Panic else Inr (list_ex (slot_unknown known) (butlast (a_args a))))"

definition parse_instruction :: "program \<Rightarrow> nat \<Rightarrow> (arg \<rightharpoonup> arg) \<Rightarrow> atom list \<Rightarrow> json \<Rightarrow> edge_state \<Rightarrow> edge_state res" where
  "parse_instruction p producer aliases query i st =
     rbind (comp_num i ''atom'') (\<lambda>k.
     rbind (ok_or (get_at query k) (Err ''composition instruction atom'')) (\<lambda>a.
     rbind (if k \<in> eg_covered st then Inr True else unknown_key (eg_known st) a) (\<lambda>bad.
     if bad then Inl (Err ''composition has non-functional or duplicate query'')
     else
       rbind (known_columns p producer aliases i a (eg_mapping st)) (\<lambda>(m, cols).
       Inr \<lparr>eg_covered = insert k (eg_covered st), eg_known = eg_known st \<union> slots_of (a_args a), eg_mapping = m,
         eg_instructions = eg_instructions st @ [\<lparr>in_atom = k, in_columns = cols\<rparr>]\<rparr>))))"

section \<open>Reuse\<close>

definition add_declaration :: "json \<Rightarrow> (nat \<rightharpoonup> json) \<Rightarrow> (nat \<rightharpoonup> json) res" where
  "add_declaration j m =
     rbind (comp_num j ''op'') (\<lambda>k.
     if m k \<noteq> None then Inl (Err ''duplicate composition reuse'') else Inr (m(k \<mapsto> j)))"

definition mapped_arg :: "(nat \<rightharpoonup> arg) \<Rightarrow> arg \<Rightarrow> arg option" where
  "mapped_arg m a = (case a of Literal _ \<Rightarrow> Some a | Slot s \<Rightarrow> m s)"

definition copy_mapping :: "op \<Rightarrow> (nat \<rightharpoonup> arg) \<Rightarrow> (nat \<rightharpoonup> arg)" where
  "copy_mapping e m =
     (case e of
        OpCopy s a \<Rightarrow> (case mapped_arg m a of None \<Rightarrow> m | Some v \<Rightarrow> m(s \<mapsto> v))
      | _ \<Rightarrow> m)"

definition reuse_columns :: "program \<Rightarrow> nat \<Rightarrow> (arg \<rightharpoonup> arg) \<Rightarrow> json \<Rightarrow> op \<Rightarrow> (nat \<rightharpoonup> arg)
    \<Rightarrow> ((nat \<rightharpoonup> arg) \<times> arg list) res" where
  "reuse_columns p producer aliases spec e m =
     (case e of
        OpLet s (CTable t) args \<Rightarrow>
          rbind (idx (p_tables p) t) (\<lambda>tb.
          if \<not> t_constructor tb then Inl (Err ''reuse of function update'')
          else
            rbind (j_string (jfield spec ''source_kind'')) (\<lambda>sk.
            rbind (comp_num spec ''source_index'') (\<lambda>k.
            rbind (comp_source p producer aliases sk k) (\<lambda>(st, cols).
            rbind (rmapM (\<lambda>a. ok_or (mapped_arg m a) (Err ''unbound reuse key'')) args) (\<lambda>key.
            if st \<noteq> t then Inl (Err ''composition reuse key differs'')
            else if cols = [] then Inl Panic
            else if butlast cols \<noteq> key then Inl (Err ''composition reuse key differs'')
            else Inr (m(s \<mapsto> last cols), cols))))))
      | _ \<Rightarrow> Inl (Err ''reuse is not a construction''))"

record reuse_state =
  ru_declared :: "nat \<rightharpoonup> json"
  ru_mapping :: "nat \<rightharpoonup> arg"
  ru_reuse :: "nat \<rightharpoonup> arg list"

definition reuse_op :: "program \<Rightarrow> nat \<Rightarrow> (arg \<rightharpoonup> arg) \<Rightarrow> nat \<times> op \<Rightarrow> reuse_state \<Rightarrow> reuse_state res" where
  "reuse_op p producer aliases ke st =
     (let m = copy_mapping (snd ke) (ru_mapping st) in
      case ru_declared st (fst ke) of
        None \<Rightarrow> Inr (st\<lparr>ru_mapping := m\<rparr>)
      | Some spec \<Rightarrow>
          rbind (reuse_columns p producer aliases spec (snd ke) m) (\<lambda>(m1, cols).
          Inr \<lparr>ru_declared = (ru_declared st)(fst ke := None), ru_mapping = m1,
            ru_reuse = (ru_reuse st)(fst ke \<mapsto> cols)\<rparr>))"

definition parse_reuse :: "program \<Rightarrow> nat \<Rightarrow> (arg \<rightharpoonup> arg) \<Rightarrow> op list \<Rightarrow> json \<Rightarrow> (nat \<rightharpoonup> arg) \<Rightarrow> (nat \<rightharpoonup> arg list) res" where
  "parse_reuse p producer aliases ops j m =
     rbind (j_array (jfield j ''reuse'')) (\<lambda>rs.
     rbind (rfold add_declaration rs Map.empty) (\<lambda>decls.
     rbind (rfold (reuse_op p producer aliases) (enumerate 0 ops) \<lparr>ru_declared = decls, ru_mapping = m, ru_reuse = Map.empty\<rparr>) (\<lambda>st.
     if \<exists>j \<in> set rs. Option.bind (as_u64 (jfield j ''op'')) (ru_declared st) \<noteq> None
     then Inl (Err ''reuse operation out of range'') else Inr (ru_reuse st))))"

definition parse_edge :: "program \<Rightarrow> (nat \<times> nat) set \<Rightarrow> nat \<times> json \<Rightarrow> compositions \<Rightarrow> compositions res" where
  "parse_edge p observed je cp =
     (let e = snd je in
      rbind (comp_num e ''producer'') (\<lambda>producer.
      rbind (comp_num e ''consumer'') (\<lambda>consumer.
      rbind (comp_num e ''effect'') (\<lambda>effect.
      rbind (comp_num e ''anchor'') (\<lambda>anchor.
      rbind (comp_num e ''program'') (\<lambda>pid.
      if producer = consumer \<or> (producer, consumer) \<notin> observed \<or> cp_rule_program cp producer \<noteq> Some pid \<or>
        cp_rule_program cp consumer \<noteq> Some pid
      then Inl (Err ''unobserved composition edge'')
      else
        rbind (idx (p_rules p) producer) (\<lambda>pr.
        rbind (idx (p_templates p) (r_template pr)) (\<lambda>src.
        rbind (idx (p_rules p) consumer) (\<lambda>dst.
        rbind (union_aliases src) (\<lambda>aliases.
        rbind (comp_source p producer aliases ''effect'' effect) (\<lambda>(t, cols).
        rbind (ok_or (get_at (r_query dst) anchor) (Err ''composition anchor'')) (\<lambda>a.
        rbind (extend_mapping a t cols Map.empty) (\<lambda>m.
        rbind (j_array (jfield e ''instructions'')) (\<lambda>is.
        rbind (rfold (parse_instruction p producer aliases (r_query dst)) is
          \<lparr>eg_covered = {anchor}, eg_known = slots_of (a_args a), eg_mapping = m, eg_instructions = []\<rparr>) (\<lambda>st.
        if card (eg_covered st) \<noteq> length (r_query dst) then Inl (Err ''composition dropped a query condition'')
        else
          rbind (idx (p_templates p) (r_template dst)) (\<lambda>tm.
          rbind (parse_reuse p producer aliases (tm_ops tm) e (eg_mapping st)) (\<lambda>reuse.
          let key = (r_template pr, effect, consumer, anchor) in
          if cp_edges cp key \<noteq> None then Inl (Err ''duplicate composition edge'')
          else Inr (cp\<lparr>cp_edges := (cp_edges cp)(key \<mapsto> \<lparr>cg_id = fst je, cg_program = pid, cg_producer = producer,
            cg_consumer = consumer, cg_instructions = eg_instructions st, cg_reuse = reuse\<rparr>)\<rparr>))))))))))))))))))"

section \<open>The parser\<close>

definition observed_rule :: "program \<Rightarrow> json \<Rightarrow> nat res" where
  "observed_rule p v =
     (case as_u64 v of
        None \<Rightarrow> Inl (Err ''composition observed rule'')
      | Some n \<Rightarrow> if n < length (p_rules p) then Inr n else Inl (Err ''composition observed rule''))"

definition parse_observed :: "program \<Rightarrow> json \<Rightarrow> (nat \<times> nat) set \<Rightarrow> (nat \<times> nat) set res" where
  "parse_observed p j s =
     rbind (j_array j) (\<lambda>a.
     case a of
       [x, y] \<Rightarrow> rbind (observed_rule p x) (\<lambda>i. rbind (observed_rule p y) (\<lambda>k. Inr (insert (i, k) s)))
     | _ \<Rightarrow> Inl (Err ''composition observation arity''))"

definition marker_names :: "program \<Rightarrow> string set res" where
  "marker_names p =
     rmap (\<lambda>ts. t_name ` set ts) (rmapM (idx (p_tables p)) (sorted_list_of_set (v_markers (p_views p))))"

definition parse_compositions :: "(json \<Rightarrow> string) \<Rightarrow> program \<Rightarrow> json \<Rightarrow> compositions res" where
  "parse_compositions digest p raw =
     (if raw = JNull then Inr no_compositions
      else
        (case raw of
           JObj kvs \<Rightarrow>
             (let recipe = jfield (p_artifact p) ''recipe'' in
              if jget raw ''sha256'' \<noteq> Some (JStr (digest (JObj (del_field ''sha256'' kvs)))) \<or>
                jfield raw ''schema'' \<noteq> JStr ''eggfuse-compositions/v1'' \<or>
                jfield raw ''recipe_sha256'' \<noteq> jfield recipe ''sha256'' \<or>
                jfield raw ''control'' \<noteq> jfield recipe ''control'' \<or>
                jfield (jfield raw ''evidence'') ''recipe_sha256'' \<noteq> jfield raw ''recipe_sha256''
              then Inl (Err ''composition source/control/integrity differs'')
              else
                rbind (marker_names p) (\<lambda>names.
                rbind (j_array (jfield raw ''marker_tables'')) (\<lambda>js.
                rbind (rmapM j_string js) (\<lambda>raw_names.
                if names \<noteq> set raw_names then Inl (Err ''composition marker ABI differs'')
                else
                  rbind (j_array (jfield (jfield raw ''evidence'') ''pairs'')) (\<lambda>pairs.
                  rbind (rfold (parse_observed p) pairs {}) (\<lambda>observed.
                  rbind (j_array (jfield raw ''programs'')) (\<lambda>programs.
                  rbind (rfold (parse_comp_program p) programs no_compositions) (\<lambda>cp.
                  rbind (j_array (jfield raw ''edges'')) (\<lambda>edges.
                  rfold (parse_edge p observed) (enumerate 0 edges) cp)))))))))
         | _ \<Rightarrow> Inl (Err ''composition object'')))"

end
