(* ===== verification/CompositionCorrect.thy ===== *)
theory CompositionCorrect
  imports Compositions
begin

text \<open>
  What an accepted composition edge promises: it goes through the whole query of the consumer, and what it
  takes as known or reuses are facts of the producer that survive the repair between the two Runs.
\<close>

section \<open>Aliases keep values\<close>

text \<open>The unions of a recipe hold: after the repair both sides have the same value.\<close>

definition unions_hold :: "(nat \<Rightarrow> val) \<Rightarrow> template \<Rightarrow> bool" where
  "unions_hold vals t \<longleftrightarrow> (\<forall>a b. OpUnion a b \<in> set (tm_ops t) \<longrightarrow> arg_val vals a = arg_val vals b)"

definition aliases_ok :: "(nat \<Rightarrow> val) \<Rightarrow> (arg \<rightharpoonup> arg) \<Rightarrow> bool" where
  "aliases_ok vals m \<longleftrightarrow> finite (dom m) \<and> (\<forall>a b. m a = Some b \<longrightarrow> b < a \<and> arg_val vals a = arg_val vals b)"

lemma alias_norm_value:
  assumes "aliases_ok vals m"
  shows "arg_val vals (alias_norm m a) = arg_val vals a \<and> m (alias_norm m a) = None"
  unfolding alias_norm_def
proof (rule while_rule [where P = "\<lambda>x. arg_val vals x = arg_val vals a" and r = "measure (\<lambda>x. card {y \<in> dom m. y \<le> x})"])
  fix x assume x: "arg_val vals x = arg_val vals a" "m x \<noteq> None"
  then obtain y where y: "m x = Some y" by blast
  with assms have le: "y < x" "arg_val vals x = arg_val vals y" by (auto simp: aliases_ok_def)
  show "arg_val vals (the (m x)) = arg_val vals a" using x(1) y le(2) by simp
  have "{z \<in> dom m. z \<le> y} \<subset> {z \<in> dom m. z \<le> x}"
  proof (rule psubsetI)
    show "{z \<in> dom m. z \<le> y} \<subseteq> {z \<in> dom m. z \<le> x}" using le(1) by (auto intro: order_trans less_imp_le)
    have "x \<in> {z \<in> dom m. z \<le> x}" "x \<notin> {z \<in> dom m. z \<le> y}" using y le(1) by (auto dest: leD)
    then show "{z \<in> dom m. z \<le> y} \<noteq> {z \<in> dom m. z \<le> x}" by blast
  qed
  moreover have "finite {z \<in> dom m. z \<le> x}" using assms by (simp add: aliases_ok_def)
  ultimately show "(the (m x), x) \<in> measure (\<lambda>x. card {y \<in> dom m. y \<le> x})"
    using y by (simp add: psubset_card_mono)
qed auto

lemma normalize_val:
  "normalize t a = Inr b \<Longrightarrow> copies_hold vals t \<Longrightarrow> ssa_defs (tm_ops t) (tm_defs t) \<Longrightarrow> arg_val vals b = arg_val vals a"
  using norm_val [of vals t] by (metis normalize_def)

lemma union_aliases_ok:
  assumes "union_aliases t = Inr m" "copies_hold vals t" "unions_hold vals t" "ssa_defs (tm_ops t) (tm_defs t)"
  shows "aliases_ok vals m"
proof (rule rfold_invariant [OF assms(1) [unfolded union_aliases_def]])
  fix e m m'
  assume e: "e \<in> set (tm_ops t)" "aliases_ok vals m" "add_alias t e m = Inr m'"
  show "aliases_ok vals m'"
  proof (cases e)
    case (OpUnion a b)
    with e(3) obtain x y where n: "normalize t a = Inr x" "normalize t b = Inr y"
      and m': "m' = (if alias_norm m x \<noteq> alias_norm m y
        then m(max (alias_norm m x) (alias_norm m y) \<mapsto> min (alias_norm m x) (alias_norm m y)) else m)"
      by (auto simp: add_alias_def res_simps Let_def)
    have "arg_val vals (alias_norm m x) = arg_val vals (alias_norm m y)"
      using alias_norm_value [OF e(2)] normalize_val [OF n(1) assms(2,4)] normalize_val [OF n(2) assms(2,4)] assms(3) e(1) OpUnion
      by (auto simp: unions_hold_def)
    then have "arg_val vals (max (alias_norm m x) (alias_norm m y)) = arg_val vals (min (alias_norm m x) (alias_norm m y))"
      by (simp add: max_def min_def)
    moreover have "alias_norm m x \<noteq> alias_norm m y \<Longrightarrow> min (alias_norm m x) (alias_norm m y) < max (alias_norm m x) (alias_norm m y)"
      by (auto simp: min_def max_def)
    ultimately show ?thesis using e(2) by (auto simp: aliases_ok_def m')
  qed (use e in \<open>auto simp: add_alias_def\<close>)
qed (simp add: aliases_ok_def)


section \<open>Sources\<close>

text \<open>A fact of the producer in a table whose rows stay.\<close>

definition lasting_fact :: "program \<Rightarrow> nat \<Rightarrow> nat \<times> arg list \<Rightarrow> bool" where
  "lasting_fact p producer f \<longleftrightarrow> (\<exists>e. producer_fact p producer e f) \<and> immutable_table p (fst f) = Inr True"

definition same_values :: "(nat \<Rightarrow> val) \<Rightarrow> nat \<times> arg list \<Rightarrow> nat \<times> arg list \<Rightarrow> bool" where
  "same_values vals f g \<longleftrightarrow> fst g = fst f \<and> map (arg_val vals) (snd g) = map (arg_val vals) (snd f)"

lemma comp_source_fact:
  assumes "comp_source p producer m kind i = Inr g" "aliases_ok vals m" "copies_hold vals t"
    and "ssa_defs (tm_ops t) (tm_defs t)" "p_templates p ! r_template (p_rules p ! producer) = t"
  shows "\<exists>f. producer_fact p producer (if kind = ''effect'' then Some i else None) f \<and>
    immutable_table p (fst f) = Inr True \<and> same_values vals f g"
proof -
  from assms(1) obtain tb cols where src: "local_source p producer kind i = Inr (tb, cols)"
    and imm: "immutable_table p tb = Inr True" and g: "g = (tb, map (alias_norm m) cols)"
    by (auto simp: comp_source_def res_simps split: if_splits prod.splits)
  from local_source_fact [OF src] obtain f where f: "producer_fact p producer (if kind = ''effect'' then Some i else None) f"
    "normal_of p producer f (tb, cols)" by blast
  then have n: "list_all2 (\<lambda>x y. normalize t x = Inr y) (snd f) cols" "fst f = tb"
    using assms(5) by (auto simp: normal_of_def intro: rmapM_Inr)
  have "map (arg_val vals) cols = map (arg_val vals) (snd f)"
    using n(1) normalize_val [OF _ assms(3,4)] by (auto simp: list_all2_conv_all_nth intro!: nth_equalityI)
  then have "same_values vals f g"
    using n(2) alias_norm_value [OF assms(2)] by (simp add: same_values_def g comp_def)
  with f imm n(2) show ?thesis by blast
qed

lemma covers_same_values:
  assumes "covers m a g" "same_values vals f g"
  shows "instance_of vals (substitution vals m) a f"
proof -
  have "list_all2 (\<lambda>x y. arg_val (substitution vals m) x = arg_val vals y) (a_args a) (snd g)"
  proof (rule list_all2_mono)
    show "list_all2 (\<lambda>x y. case x of Slot s \<Rightarrow> m s = Some y | Literal _ \<Rightarrow> y = x) (a_args a) (snd g)"
      using assms(1) by (simp add: covers_def)
  qed (simp add: substitution_def split: arg.splits)
  then have "map (arg_val (substitution vals m)) (a_args a) = map (arg_val vals) (snd g)"
    by (auto simp: list_all2_conv_all_nth intro!: nth_equalityI)
  with assms show ?thesis by (simp add: instance_of_def covers_def same_values_def)
qed

section \<open>Instructions\<close>

text \<open>
  The instructions of an edge after its anchor: no atom twice, each with its key bound by the anchor and the
  earlier ones; a known instruction reads a lasting fact of the producer that instantiates its atom.
\<close>

definition bound_before :: "atom list \<Rightarrow> nat \<Rightarrow> instruction list \<Rightarrow> nat set" where
  "bound_before query anchor is = slots_of (a_args (query ! anchor)) \<union> (\<Union>i \<in> set is. slots_of (a_args (query ! in_atom i)))"

definition key_bound :: "nat set \<Rightarrow> atom \<Rightarrow> bool" where
  "key_bound known a \<longleftrightarrow> slots_of (butlast (a_args a)) \<subseteq> known"

definition known_read :: "program \<Rightarrow> nat \<Rightarrow> (nat \<Rightarrow> val) \<Rightarrow> (nat \<rightharpoonup> arg) \<Rightarrow> atom list \<Rightarrow> instruction \<Rightarrow> bool" where
  "known_read p producer vals m query i \<longleftrightarrow>
     (\<forall>cols. in_columns i = Some cols \<longrightarrow> (\<exists>f g. snd g = cols \<and> lasting_fact p producer f \<and> same_values vals f g \<and>
        covers m (query ! in_atom i) g))"

definition instructions_cover :: "atom list \<Rightarrow> nat \<Rightarrow> edge_state \<Rightarrow> bool" where
  "instructions_cover query anchor st \<longleftrightarrow>
     eg_covered st = insert anchor (set (map in_atom (eg_instructions st))) \<and>
     eg_known st = bound_before query anchor (eg_instructions st) \<and> dom (eg_mapping st) \<subseteq> eg_known st \<and>
     distinct (anchor # map in_atom (eg_instructions st)) \<and>
     (\<forall>k < length (eg_instructions st). in_atom (eg_instructions st ! k) < length query \<and>
        key_bound (bound_before query anchor (take k (eg_instructions st))) (query ! in_atom (eg_instructions st ! k)))"

lemma slots_of_mem: "j \<in> slots_of aa \<longleftrightarrow> Slot j \<in> set aa"
  by (induction aa) (auto simp: slots_of_def List.map_filter_simps split: arg.splits)

lemma unknown_key_False: "unknown_key known a = Inr False \<Longrightarrow> key_bound known a"
  by (auto simp: unknown_key_def key_bound_def list_ex_iff slot_unknown_def slots_of_mem
      split: if_splits arg.splits)

lemma known_columns_read:
  assumes "known_columns p producer m j a sub = Inr (sub', cols)" "aliases_ok vals m" "copies_hold vals t"
    and "ssa_defs (tm_ops t) (tm_defs t)" "p_templates p ! r_template (p_rules p ! producer) = t"
  shows "sub \<subseteq>\<^sub>m sub' \<and> (\<forall>c. cols = Some c \<longrightarrow> (\<exists>f g. snd g = c \<and> lasting_fact p producer f \<and> same_values vals f g \<and> covers sub' a g))"
proof (cases cols)
  case None
  with assms(1) show ?thesis by (auto simp: known_columns_def res_simps split: if_splits)
next
  case (Some c)
  with assms(1) obtain sk k tb where src: "comp_source p producer m sk k = Inr (tb, c)"
    and ext: "extend_mapping a tb c sub = Inr sub'"
    by (auto simp: known_columns_def res_simps split: if_splits)
  from comp_source_fact [OF src assms(2-5)] obtain f where "lasting_fact p producer f" "same_values vals f (tb, c)"
    unfolding lasting_fact_def by blast
  then have "\<exists>f g. snd g = c \<and> lasting_fact p producer f \<and> same_values vals f g \<and> covers sub' a g"
    using extend_covers [OF ext] by (intro exI [of _ f] exI [of _ "(tb, c)"]) simp
  with extend_covers [OF ext] Some show ?thesis by simp
qed

lemma known_read_mono: "known_read p producer vals m query i \<Longrightarrow> m \<subseteq>\<^sub>m m' \<Longrightarrow> known_read p producer vals m' query i"
  unfolding known_read_def by (metis covers_mono)

lemma map_columns_dom: "rfold map_column (zip xs ys) m = Inr m' \<Longrightarrow> dom m' \<subseteq> dom m \<union> slots_of xs"
proof (induction xs ys arbitrary: m rule: list_induct2')
  case (4 x xs y ys)
  then obtain m1 where m1: "map_column (x, y) m = Inr m1" "rfold map_column (zip xs ys) m1 = Inr m'"
    by (auto simp: res_simps)
  have "dom m1 \<subseteq> dom m \<union> slots_of [x]"
    using m1(1) by (cases x) (auto simp: slots_of_mem split: option.splits if_splits)
  with 4(1) [OF m1(2)] show ?case by (force simp: slots_of_mem)
qed auto

lemma extend_mapping_dom: "extend_mapping a t cols m = Inr m' \<Longrightarrow> dom m' \<subseteq> dom m \<union> slots_of (a_args a)"
  using map_columns_dom [of "a_args a" cols m m'] by (auto simp: extend_mapping_def split: if_splits)

lemma known_columns_dom: "known_columns p producer al j a m = Inr (m', cols) \<Longrightarrow> dom m' \<subseteq> dom m \<union> slots_of (a_args a)"
  by (auto simp: known_columns_def res_simps split: if_splits dest!: extend_mapping_dom)

lemma parse_instruction_parts:
  assumes "parse_instruction p producer al query j st = Inr st'"
  obtains k cols where "k < length query" "k \<notin> eg_covered st" "unknown_key (eg_known st) (query ! k) = Inr False"
    "known_columns p producer al j (query ! k) (eg_mapping st) = Inr (eg_mapping st', cols)"
    "eg_covered st' = insert k (eg_covered st)" "eg_known st' = eg_known st \<union> slots_of (a_args (query ! k))"
    "eg_instructions st' = eg_instructions st @ [\<lparr>in_atom = k, in_columns = cols\<rparr>]"
  using assms by (auto simp: parse_instruction_def res_simps split: if_splits prod.splits)

lemma parse_instruction_cover:
  assumes "parse_instruction p producer al query j st = Inr st'" "instructions_cover query anchor st"
  shows "instructions_cover query anchor st'"
  using assms(1)
proof (rule parse_instruction_parts)
  fix k cols
  assume k: "k < length query" "k \<notin> eg_covered st" "unknown_key (eg_known st) (query ! k) = Inr False"
    and cols: "known_columns p producer al j (query ! k) (eg_mapping st) = Inr (eg_mapping st', cols)"
    and st': "eg_covered st' = insert k (eg_covered st)" "eg_known st' = eg_known st \<union> slots_of (a_args (query ! k))"
      "eg_instructions st' = eg_instructions st @ [\<lparr>in_atom = k, in_columns = cols\<rparr>]"
  have old: "eg_covered st = insert anchor (set (map in_atom (eg_instructions st)))"
    "eg_known st = bound_before query anchor (eg_instructions st)" "distinct (anchor # map in_atom (eg_instructions st))"
    "dom (eg_mapping st) \<subseteq> eg_known st"
    "\<And>i. i < length (eg_instructions st) \<Longrightarrow> in_atom (eg_instructions st ! i) < length query \<and>
       key_bound (bound_before query anchor (take i (eg_instructions st))) (query ! in_atom (eg_instructions st ! i))"
    using assms(2) by (auto simp: instructions_cover_def)
  have "in_atom (eg_instructions st' ! i) < length query \<and>
      key_bound (bound_before query anchor (take i (eg_instructions st'))) (query ! in_atom (eg_instructions st' ! i))"
    if "i < length (eg_instructions st')" for i
  proof (cases "i < length (eg_instructions st)")
    case True
    with old(5) show ?thesis by (simp add: st' nth_append)
  next
    case False
    with that have "i = length (eg_instructions st)" by (simp add: st')
    with k(1) unknown_key_False [OF k(3)] old(2) show ?thesis by (simp add: st')
  qed
  moreover have "dom (eg_mapping st') \<subseteq> eg_known st'" using known_columns_dom [OF cols] old(4) by (auto simp: st')
  ultimately show ?thesis
    using old(1-3) k(2) unfolding instructions_cover_def by (auto simp: st' bound_before_def)
qed

lemma parse_instruction_read:
  assumes "parse_instruction p producer al query j st = Inr st'"
    and old: "\<forall>i \<in> set (eg_instructions st). known_read p producer vals (eg_mapping st) query i"
    and al: "aliases_ok vals al" "copies_hold vals t" "ssa_defs (tm_ops t) (tm_defs t)"
      "p_templates p ! r_template (p_rules p ! producer) = t"
  shows "eg_mapping st \<subseteq>\<^sub>m eg_mapping st' \<and> (\<forall>i \<in> set (eg_instructions st'). known_read p producer vals (eg_mapping st') query i)"
  using assms(1)
proof (rule parse_instruction_parts)
  fix k cols
  assume cols: "known_columns p producer al j (query ! k) (eg_mapping st) = Inr (eg_mapping st', cols)"
    and st': "eg_instructions st' = eg_instructions st @ [\<lparr>in_atom = k, in_columns = cols\<rparr>]"
  from known_columns_read [OF cols al] have sub: "eg_mapping st \<subseteq>\<^sub>m eg_mapping st'"
    and read: "known_read p producer vals (eg_mapping st') query \<lparr>in_atom = k, in_columns = cols\<rparr>"
    by (auto simp: known_read_def)
  with old known_read_mono [OF _ sub] show ?thesis by (auto simp: st')
qed

section \<open>Reuse\<close>

text \<open>
  The values of the consumer: its copies hold, and a construction with the key of a lasting fact of the
  same table has the result of that fact.
\<close>

definition constructions_agree :: "program \<Rightarrow> nat \<Rightarrow> (nat \<Rightarrow> val) \<Rightarrow> (nat \<Rightarrow> val) \<Rightarrow> op list \<Rightarrow> bool" where
  "constructions_agree p producer vals cv ops \<longleftrightarrow>
     (\<forall>s t args f. OpLet s (CTable t) args \<in> set ops \<longrightarrow> t_constructor (p_tables p ! t) \<longrightarrow> lasting_fact p producer f \<longrightarrow>
        fst f = t \<longrightarrow> map (arg_val cv) args = butlast (map (arg_val vals) (snd f)) \<longrightarrow>
        cv s = last (map (arg_val vals) (snd f)))"

definition mapped_values :: "(nat \<Rightarrow> val) \<Rightarrow> (nat \<Rightarrow> val) \<Rightarrow> (nat \<rightharpoonup> arg) \<Rightarrow> bool" where
  "mapped_values vals cv m \<longleftrightarrow> (\<forall>s v. m s = Some v \<longrightarrow> cv s = arg_val vals v)"

definition reuse_read :: "program \<Rightarrow> nat \<Rightarrow> (nat \<Rightarrow> val) \<Rightarrow> (nat \<Rightarrow> val) \<Rightarrow> op list \<Rightarrow> nat \<Rightarrow> arg list \<Rightarrow> bool" where
  "reuse_read p producer vals cv ops k cols \<longleftrightarrow> k < length ops \<and> cols \<noteq> [] \<and>
     (\<exists>s t args f. ops ! k = OpLet s (CTable t) args \<and> t_constructor (p_tables p ! t) \<and> lasting_fact p producer f \<and>
        fst f = t \<and> map (arg_val vals) cols = map (arg_val vals) (snd f) \<and>
        map (arg_val cv) args = map (arg_val vals) (butlast cols) \<and> cv s = arg_val vals (last cols))"

lemma mapped_arg_value: "mapped_values vals cv m \<Longrightarrow> mapped_arg m a = Some v \<Longrightarrow> arg_val cv a = arg_val vals v"
  by (cases a) (auto simp: mapped_arg_def mapped_values_def)

lemma copy_mapping_values:
  assumes "mapped_values vals cv m" "e \<in> set ops" "\<And>s a. OpCopy s a \<in> set ops \<Longrightarrow> cv s = arg_val cv a"
  shows "mapped_values vals cv (copy_mapping e m)"
proof (cases e)
  case (OpCopy s a)
  with assms(2,3) have "cv s = arg_val cv a" by blast
  with assms(1) mapped_arg_value [OF assms(1), of a] show ?thesis
    by (auto simp: copy_mapping_def OpCopy mapped_values_def split: option.splits)
qed (use assms(1) in \<open>simp_all add: copy_mapping_def\<close>)

lemma reuse_columns_read:
  assumes r: "reuse_columns p producer al spec (ops ! k) m = Inr (m', cols)" and k: "k < length ops"
    and m: "mapped_values vals cv m" and agree: "constructions_agree p producer vals cv ops"
    and al: "aliases_ok vals al" and t: "copies_hold vals t" "ssa_defs (tm_ops t) (tm_defs t)"
      "p_templates p ! r_template (p_rules p ! producer) = t"
  shows "mapped_values vals cv m' \<and> reuse_read p producer vals cv ops k cols"
proof -
  from r obtain s tb args where e: "ops ! k = OpLet s (CTable tb) args"
    by (auto simp: reuse_columns_def split: op.splits call.splits)
  with r obtain sk i key where c: "t_constructor (p_tables p ! tb)"
    and src: "comp_source p producer al sk i = Inr (tb, cols)"
    and key: "rmapM (\<lambda>a. ok_or (mapped_arg m a) (Err ''unbound reuse key'')) args = Inr key"
    and cols: "cols \<noteq> []" "butlast cols = key" "m' = m(s \<mapsto> last cols)"
    by (auto simp: reuse_columns_def res_simps idx_eq_Inr split: if_splits prod.splits)
  from comp_source_fact [OF src al t] obtain f where f: "lasting_fact p producer f" "same_values vals f (tb, cols)"
    unfolding lasting_fact_def by blast
  have vals: "fst f = tb" "map (arg_val vals) cols = map (arg_val vals) (snd f)"
    using f(2) by (simp_all add: same_values_def)
  have "list_all2 (\<lambda>a v. mapped_arg m a = Some v) args key"
    using rmapM_Inr [OF key] by (auto elim!: list_all2_mono simp: ok_or_eq_Inr)
  then have keys: "map (arg_val cv) args = map (arg_val vals) (butlast cols)"
    using mapped_arg_value [OF m] unfolding cols(2) by (auto simp: list_all2_conv_all_nth intro!: nth_equalityI)
  also have "\<dots> = butlast (map (arg_val vals) (snd f))"
    by (simp only: vals(2) [symmetric] map_butlast)
  finally have "cv s = last (map (arg_val vals) (snd f))"
    using agree e k c f(1) vals(1) unfolding constructions_agree_def by (metis nth_mem)
  then have res: "cv s = arg_val vals (last cols)"
    unfolding vals(2) [symmetric] using cols(1) by (simp add: last_map)
  have "mapped_values vals cv m'" using m res by (simp add: mapped_values_def cols(3))
  moreover have "reuse_read p producer vals cv ops k cols"
    unfolding reuse_read_def using k cols(1) e c f(1) vals keys res by blast
  ultimately show ?thesis by blast
qed

lemma parse_reuse_reads:
  assumes r: "parse_reuse p producer al ops j m = Inr reuse"
    and m: "mapped_values vals cv m" and agree: "constructions_agree p producer vals cv ops"
    and copies: "\<And>s a. OpCopy s a \<in> set ops \<Longrightarrow> cv s = arg_val cv a"
    and al: "aliases_ok vals al" and t: "copies_hold vals t" "ssa_defs (tm_ops t) (tm_defs t)"
      "p_templates p ! r_template (p_rules p ! producer) = t"
    and k: "reuse k = Some cols"
  shows "reuse_read p producer vals cv ops k cols"
proof -
  from r obtain decls st where st: "rfold (reuse_op p producer al) (enumerate 0 ops)
      \<lparr>ru_declared = decls, ru_mapping = m, ru_reuse = Map.empty\<rparr> = Inr st" and reuse: "reuse = ru_reuse st"
    by (auto simp: parse_reuse_def res_simps split: if_splits)
  have "mapped_values vals cv (ru_mapping st) \<and> (\<forall>k cols. ru_reuse st k = Some cols \<longrightarrow> reuse_read p producer vals cv ops k cols)"
  proof (rule rfold_invariant [OF st])
    fix ke st st'
    assume ke: "ke \<in> set (enumerate 0 ops)" and old: "mapped_values vals cv (ru_mapping st) \<and>
        (\<forall>k cols. ru_reuse st k = Some cols \<longrightarrow> reuse_read p producer vals cv ops k cols)"
      and step: "reuse_op p producer al ke st = Inr st'"
    obtain i where i: "i < length ops" "ke = (i, ops ! i)" using ke by (auto simp: in_set_enumerate_eq)
    then have "ops ! i \<in> set ops" by simp
    from copy_mapping_values [OF conjunct1 [OF old] this copies]
    have cm: "mapped_values vals cv (copy_mapping (ops ! i) (ru_mapping st))" .
    show "mapped_values vals cv (ru_mapping st') \<and>
        (\<forall>k cols. ru_reuse st' k = Some cols \<longrightarrow> reuse_read p producer vals cv ops k cols)"
    proof (cases "ru_declared st i")
      case None
      with step old cm show ?thesis by (auto simp: reuse_op_def i(2))
    next
      case (Some spec)
      with step obtain m1 c where c: "reuse_columns p producer al spec (ops ! i) (copy_mapping (ops ! i) (ru_mapping st)) = Inr (m1, c)"
        and st': "ru_mapping st' = m1" "ru_reuse st' = (ru_reuse st)(i \<mapsto> c)"
        by (auto simp: reuse_op_def i(2) res_simps)
      from reuse_columns_read [OF c i(1) cm agree al t] old show ?thesis by (auto simp: st')
    qed
  qed (use m in simp)
  with k reuse show ?thesis by blast
qed

section \<open>Edges\<close>

text \<open>
  One substitution of the consumer's slots covers the anchor by the effect and every known instruction by a
  lasting fact; and the stored columns of a reuse are what the consumer's construction gives.
\<close>

definition edge_reads :: "program \<Rightarrow> (nat \<Rightarrow> val) \<Rightarrow> nat \<Rightarrow> nat \<Rightarrow> comp_edge \<Rightarrow> (nat \<Rightarrow> val) \<Rightarrow> bool" where
  "edge_reads p vals effect anchor e sub \<longleftrightarrow>
     (let query = r_query (p_rules p ! cg_consumer e) in
      (\<exists>f. producer_fact p (cg_producer e) (Some effect) f \<and> lasting_fact p (cg_producer e) f \<and> instance_of vals sub (query ! anchor) f) \<and>
      (\<forall>i \<in> set (cg_instructions e). \<forall>cols. in_columns i = Some cols \<longrightarrow>
         (\<exists>f. lasting_fact p (cg_producer e) f \<and> map (arg_val vals) cols = map (arg_val vals) (snd f) \<and>
            instance_of vals sub (query ! in_atom i) f)))"

definition edge_reuses :: "program \<Rightarrow> (nat \<Rightarrow> val) \<Rightarrow> comp_edge \<Rightarrow> (nat \<Rightarrow> val) \<Rightarrow> bool" where
  "edge_reuses p vals e cv \<longleftrightarrow>
     (let ops = tm_ops (p_templates p ! r_template (p_rules p ! cg_consumer e)) in
      (\<forall>s a. OpCopy s a \<in> set ops \<longrightarrow> cv s = arg_val cv a) \<longrightarrow> constructions_agree p (cg_producer e) vals cv ops \<longrightarrow>
      (\<forall>k cols. cg_reuse e k = Some cols \<longrightarrow> reuse_read p (cg_producer e) vals cv ops k cols))"

definition edge_complete :: "program \<Rightarrow> nat \<Rightarrow> comp_edge \<Rightarrow> bool" where
  "edge_complete p anchor e \<longleftrightarrow>
     (let query = r_query (p_rules p ! cg_consumer e); js = cg_instructions e in
      distinct (anchor # map in_atom js) \<and> set (anchor # map in_atom js) = {..<length query} \<and>
      (\<forall>k < length js. key_bound (bound_before query anchor (take k js)) (query ! in_atom (js ! k))))"

definition query_slots :: "atom list \<Rightarrow> nat set" where
  "query_slots query = (\<Union>a \<in> set query. slots_of (a_args a))"

definition edge_sound :: "program \<Rightarrow> nat \<Rightarrow> nat \<Rightarrow> nat \<Rightarrow> nat \<Rightarrow> comp_edge \<Rightarrow> bool" where
  "edge_sound p tmpl effect consumer anchor e \<longleftrightarrow>
     cg_consumer e = consumer \<and> cg_producer e \<noteq> consumer \<and> r_template (p_rules p ! cg_producer e) = tmpl \<and> edge_complete p anchor e \<and>
     (\<forall>vals. copies_hold vals (p_templates p ! tmpl) \<longrightarrow> unions_hold vals (p_templates p ! tmpl) \<longrightarrow>
        ssa_defs (tm_ops (p_templates p ! tmpl)) (tm_defs (p_templates p ! tmpl)) \<longrightarrow>
        (\<exists>sub. edge_reads p vals effect anchor e sub \<and>
           (\<forall>cv. (\<forall>s \<in> query_slots (r_query (p_rules p ! consumer)). cv s = sub s) \<longrightarrow> edge_reuses p vals e cv)))"

lemma distinct_complete:
  assumes "distinct xs" "\<forall>x \<in> set xs. x < n" "length xs = n"
  shows "set xs = {..<n}"
  by (rule card_subset_eq) (use assms in \<open>auto simp: distinct_card\<close>)

lemma parse_edge_parts:
  assumes "parse_edge p observed je cp = Inr cp'"
  obtains producer consumer effect anchor pid al tb cols m js st reuse where
    "producer \<noteq> consumer" "producer < length (p_rules p)" "consumer < length (p_rules p)"
    "union_aliases (p_templates p ! r_template (p_rules p ! producer)) = Inr al"
    "comp_source p producer al ''effect'' effect = Inr (tb, cols)"
    "anchor < length (r_query (p_rules p ! consumer))"
    "extend_mapping (r_query (p_rules p ! consumer) ! anchor) tb cols Map.empty = Inr m"
    "rfold (parse_instruction p producer al (r_query (p_rules p ! consumer))) js
       \<lparr>eg_covered = {anchor}, eg_known = slots_of (a_args (r_query (p_rules p ! consumer) ! anchor)), eg_mapping = m, eg_instructions = []\<rparr> = Inr st"
    "card (eg_covered st) = length (r_query (p_rules p ! consumer))"
    "parse_reuse p producer al (tm_ops (p_templates p ! r_template (p_rules p ! consumer))) (snd je) (eg_mapping st) = Inr reuse"
    "cp_edges cp' = (cp_edges cp)((r_template (p_rules p ! producer), effect, consumer, anchor) \<mapsto>
       \<lparr>cg_id = fst je, cg_program = pid, cg_producer = producer, cg_consumer = consumer, cg_instructions = eg_instructions st, cg_reuse = reuse\<rparr>)"
  using assms unfolding parse_edge_def Let_def
  by (auto simp: res_simps idx_eq_Inr split: if_splits)

lemma parse_edge_sound:
  assumes "parse_edge p observed je cp = Inr cp'"
    and old: "\<And>t f c a e. cp_edges cp (t, f, c, a) = Some e \<Longrightarrow> edge_sound p t f c a e"
    and new: "cp_edges cp' (t, f, c, a) = Some e"
  shows "edge_sound p t f c a e"
  using assms(1)
proof (rule parse_edge_parts)
  fix producer consumer effect anchor pid al tb cols m js reuse and st :: edge_state
  let ?q = "r_query (p_rules p ! consumer)" and ?t = "p_templates p ! r_template (p_rules p ! producer)"
  let ?ops = "tm_ops (p_templates p ! r_template (p_rules p ! consumer))"
  let ?st0 = "\<lparr>eg_covered = {anchor}, eg_known = slots_of (a_args (?q ! anchor)), eg_mapping = m, eg_instructions = []\<rparr>"
  let ?e = "\<lparr>cg_id = fst je, cg_program = pid, cg_producer = producer, cg_consumer = consumer,
    cg_instructions = eg_instructions st, cg_reuse = reuse\<rparr>"
  assume ne: "producer \<noteq> consumer" and al: "union_aliases ?t = Inr al"
    and src: "comp_source p producer al ''effect'' effect = Inr (tb, cols)" and anchor: "anchor < length ?q"
    and ext: "extend_mapping (?q ! anchor) tb cols Map.empty = Inr m"
    and ins: "rfold (parse_instruction p producer al ?q) js ?st0 = Inr st" and card: "card (eg_covered st) = length ?q"
    and reuse: "parse_reuse p producer al ?ops (snd je) (eg_mapping st) = Inr reuse"
    and cp': "cp_edges cp' = (cp_edges cp)((r_template (p_rules p ! producer), effect, consumer, anchor) \<mapsto> ?e)"
  have cover0: "instructions_cover ?q anchor ?st0"
    using extend_mapping_dom [OF ext] by (simp add: instructions_cover_def bound_before_def)
  have cover: "instructions_cover ?q anchor st"
    by (rule rfold_invariant [where P = "instructions_cover ?q anchor", OF ins cover0]) (rule parse_instruction_cover)
  then have inj: "distinct (anchor # map in_atom (eg_instructions st))" "eg_covered st = set (anchor # map in_atom (eg_instructions st))"
    "\<forall>k \<in> set (anchor # map in_atom (eg_instructions st)). k < length ?q"
    using anchor by (auto simp: instructions_cover_def all_set_conv_all_nth)
  have full: "set (anchor # map in_atom (eg_instructions st)) = {..<length ?q}"
    by (rule distinct_complete [OF inj(1,3)]) (metis card inj(1,2) distinct_card)
  have complete: "edge_complete p anchor ?e"
    using cover full by (simp add: edge_complete_def Let_def instructions_cover_def)
  have "\<exists>sub. edge_reads p vals effect anchor ?e sub \<and>
      (\<forall>cv. (\<forall>s \<in> query_slots ?q. cv s = sub s) \<longrightarrow> edge_reuses p vals ?e cv)"
    if v: "copies_hold vals ?t" "unions_hold vals ?t" "ssa_defs (tm_ops ?t) (tm_defs ?t)" for vals
  proof -
    have al: "aliases_ok vals al" by (rule union_aliases_ok [OF al v])
    note t = al v(1,3) refl
    let ?sub = "substitution vals (eg_mapping st)"
    let ?P = "\<lambda>st1. m \<subseteq>\<^sub>m eg_mapping st1 \<and> (\<forall>i \<in> set (eg_instructions st1). known_read p producer vals (eg_mapping st1) ?q i)"
    have "?P st"
      by (rule rfold_invariant [where P = ?P, OF ins]) (auto dest: parse_instruction_read [OF _ _ t] intro: map_le_trans)
    then have reads: "m \<subseteq>\<^sub>m eg_mapping st" "\<And>i. i \<in> set (eg_instructions st) \<Longrightarrow> known_read p producer vals (eg_mapping st) ?q i"
      by auto
    obtain f where f: "producer_fact p producer (Some effect) f" "immutable_table p (fst f) = Inr True" "same_values vals f (tb, cols)"
      using comp_source_fact [OF src t] by auto
    have "covers (eg_mapping st) (?q ! anchor) (tb, cols)"
      using extend_covers [OF ext] reads(1) by (blast intro: covers_mono)
    then have anchor_read: "instance_of vals ?sub (?q ! anchor) f" by (rule covers_same_values [OF _ f(3)])
    have "edge_reads p vals effect anchor ?e ?sub"
      unfolding edge_reads_def Let_def comp_edge.simps
    proof (intro conjI ballI allI impI)
      show "\<exists>f. producer_fact p producer (Some effect) f \<and> lasting_fact p producer f \<and> instance_of vals ?sub (?q ! anchor) f"
        using f anchor_read unfolding lasting_fact_def by blast
      fix i c assume i: "i \<in> set (eg_instructions st)" "in_columns i = Some c"
      with reads(2) obtain h g where "snd g = c" "lasting_fact p producer h" "same_values vals h g"
        "covers (eg_mapping st) (?q ! in_atom i) g"
        unfolding known_read_def by blast
      then show "\<exists>f. lasting_fact p producer f \<and> map (arg_val vals) c = map (arg_val vals) (snd f) \<and>
          instance_of vals ?sub (?q ! in_atom i) f"
        using covers_same_values unfolding same_values_def by blast
    qed
    moreover have "edge_reuses p vals ?e cv" if cv: "\<forall>s \<in> query_slots ?q. cv s = ?sub s" for cv
    proof -
      have "bound_before ?q anchor (eg_instructions st) \<subseteq> query_slots ?q"
        using cover anchor by (force simp: bound_before_def query_slots_def instructions_cover_def in_set_conv_nth)
      moreover have "dom (eg_mapping st) \<subseteq> bound_before ?q anchor (eg_instructions st)"
        using cover unfolding instructions_cover_def by metis
      ultimately have "dom (eg_mapping st) \<subseteq> query_slots ?q" by (rule subset_trans [rotated])
      with cv have "mapped_values vals cv (eg_mapping st)" by (auto simp: mapped_values_def substitution_def)
      then show ?thesis
        unfolding edge_reuses_def Let_def comp_edge.simps using parse_reuse_reads [OF reuse _ _ _ t] by blast
    qed
    ultimately show ?thesis by blast
  qed
  then have "edge_sound p (r_template (p_rules p ! producer)) effect consumer anchor ?e"
    unfolding edge_sound_def using ne complete by simp
  with old new cp' show ?thesis by (auto split: if_splits)
qed


section \<open>The accepted programs\<close>

lemma comp_program_edges: "parse_comp_program p j cp = Inr cp' \<Longrightarrow> cp_edges cp' = cp_edges cp"
proof -
  have step: "parse_step p pid s a = Inr b \<Longrightarrow> cp_edges b = cp_edges a" for pid s a b
    by (auto simp: parse_step_def res_simps split: if_splits)
  have steps: "rfold (parse_step p pid) ss a = Inr b \<Longrightarrow> cp_edges b = cp_edges a" for pid ss a b
    by (erule rfold_invariant [where P = "\<lambda>x. cp_edges x = cp_edges a"]) (simp_all add: step)
  show "parse_comp_program p j cp = Inr cp' \<Longrightarrow> cp_edges cp' = cp_edges cp"
    by (auto simp: parse_comp_program_def res_simps Let_def split: if_splits dest!: steps)
qed

lemma parse_compositions_edges:
  assumes "parse_compositions digest p raw = Inr cp" "cp_edges cp (t, f, c, a) = Some e"
  shows "edge_sound p t f c a e"
proof (cases "raw = JNull")
  case False
  with assms(1) obtain ps cp0 observed es where
    ps: "rfold (parse_comp_program p) ps no_compositions = Inr cp0"
    and es: "rfold (parse_edge p observed) es cp0 = Inr cp"
    unfolding parse_compositions_def
    by (auto simp: res_simps Let_def split: if_splits json.splits)
  have "cp_edges cp0 = Map.empty"
    by (rule rfold_invariant [OF ps]) (simp_all add: no_compositions_def comp_program_edges)
  then have "\<forall>t f c a e. cp_edges cp0 (t, f, c, a) = Some e \<longrightarrow> edge_sound p t f c a e" by simp
  then have "\<forall>t f c a e. cp_edges cp (t, f, c, a) = Some e \<longrightarrow> edge_sound p t f c a e"
    by (rule rfold_invariant [OF es]) (blast intro: parse_edge_sound)
  with assms(2) show ?thesis by blast
qed (use assms in \<open>auto simp: parse_compositions_def no_compositions_def\<close>)


text \<open>
  C16. A composition edge that the parser accepts is sound. Its anchor and its instructions go through every
  atom of the consumer's query exactly once, each instruction with its key bound by the anchor and the
  earlier ones. For a producer whose template is in SSA form (\<open>loaded_program_wf\<close>), in a run of it in which
  its copies hold and its unions have been repaired, one
  substitution of the consumer's slots turns the anchor into the fact the effect writes, and every atom
  that the edge takes as known into a fact of the producer, with the stored columns, in a table whose rows
  stay. And for a consumer with these slots, whose constructions agree with the lasting facts, the stored
  columns of every reuse have the key and the result of the construction they stand for.
\<close>

theorem accepted_compositions_sound:
  assumes "parse_compositions digest p raw = Inr cp" "cp_edges cp (tmpl, effect, consumer, anchor) = Some e"
    and "copies_hold vals (p_templates p ! tmpl)" "unions_hold vals (p_templates p ! tmpl)"
    and "ssa_defs (tm_ops (p_templates p ! tmpl)) (tm_defs (p_templates p ! tmpl))"
  shows "cg_consumer e = consumer \<and> cg_producer e \<noteq> consumer \<and> r_template (p_rules p ! cg_producer e) = tmpl \<and>
    edge_complete p anchor e \<and>
    (\<exists>sub. edge_reads p vals effect anchor e sub \<and>
       (\<forall>cv. (\<forall>s \<in> query_slots (r_query (p_rules p ! consumer)). cv s = sub s) \<longrightarrow> edge_reuses p vals e cv))"
  using parse_compositions_edges [OF assms(1,2)] assms(3-5) by (auto simp: edge_sound_def)

text \<open>
  A producer \<open>R(x, y) => c = F(x); d = c; e = G(d); c = y\<close> and a consumer \<open>F(a, b), G(b, z) => w = G(b)\<close>:
  after the repair the producer's \<open>G\<close> answers both the second atom and the consumer's own construction.
\<close>

definition comp_ops :: "op list" where
  "comp_ops = producer_ops @ [OpUnion (Slot 2) (Slot 1)]"

definition comp_recipe :: json where
  "comp_recipe = JObj [(''rules'', JArr
     [JObj [(''effects'', JArr (replicate 3 (JObj [(''op'', JStr ''let'')]) @ [JObj [(''args'', nats_json [2, 1]), (''op'', JStr ''union'')]]))],
      JObj [(''effects'', JArr [JObj [(''op'', JStr ''let'')]])]])]"

definition composed_program :: program where
  "composed_program = stage_program\<lparr>
     p_templates := [stage_template comp_ops [2 \<mapsto> 0, 3 \<mapsto> 1, 4 \<mapsto> 2],
       stage_template [OpLet 3 (CTable 2) [Slot 1]] [3 \<mapsto> 0]],
     p_artifact := JObj [(''recipe'', comp_recipe)]\<rparr>"

definition comp_steps :: "json list" where
  "comp_steps =
     [JObj [(''effects'', nats_json [0, 1, 2, 3]),
        (''equalities'', JArr [JObj [(''activation'', JStr ''after-source-Run-repair''), (''args'', nats_json [2, 1]),
           (''kind'', JStr ''union''), (''op'', JNum 3)]]),
        (''guards'', JArr []), (''rule'', JNum 0)],
      JObj [(''effects'', nats_json [0]), (''equalities'', JArr []), (''guards'', JArr []), (''rule'', JNum 1)]]"

definition comp_edges_json :: "json list" where
  "comp_edges_json =
     [JObj [(''anchor'', JNum 0), (''consumer'', JNum 1), (''effect'', JNum 0),
        (''instructions'', JArr [JObj [(''atom'', JNum 1), (''kind'', JStr ''known''), (''source_index'', JNum 2),
           (''source_kind'', JStr ''effect'')]]),
        (''producer'', JNum 0), (''program'', JNum 0),
        (''reuse'', JArr [JObj [(''op'', JNum 0), (''source_index'', JNum 2), (''source_kind'', JStr ''effect'')]])]]"

definition comp_json :: json where
  "comp_json = JObj
     [(''edges'', JArr comp_edges_json), (''evidence'', JObj [(''pairs'', JArr [nats_json [0, 1]])]),
      (''marker_tables'', JArr []),
      (''programs'', JArr [JObj [(''id'', JNum 0), (''marker_entries'', JArr []), (''steps'', JArr comp_steps)]]),
      (''schema'', JStr ''eggfuse-compositions/v1''), (''sha256'', JStr ''digest'')]"

definition composed_edge :: "(nat \<times> instruction list \<times> arg list option) option" where
  "composed_edge = (case parse_compositions (\<lambda>_. ''digest'') composed_program comp_json of
     Inr cp \<Rightarrow> map_option (\<lambda>e. (cg_producer e, cg_instructions e, cg_reuse e 0)) (cp_edges cp (0, 0, 1, 0)) | Inl _ \<Rightarrow> None)"

lemma composed_edge_value: "composed_edge = Some (0, [\<lparr>in_atom = 1, in_columns = Some [Slot 1, Slot 4]\<rparr>], Some [Slot 1, Slot 4])"
  by code_simp

definition comp_vals :: "nat \<Rightarrow> val" where
  "comp_vals s = VEq (if s = 2 \<or> s = 3 then 1 else word_of_nat s)"


lemma accepted_compositions_sound_witness:
  "\<exists>sub f h. lasting_fact composed_program 0 f \<and> instance_of comp_vals sub \<lparr>a_call = CTable 1, a_args = [Slot 0, Slot 1]\<rparr> f \<and>
     lasting_fact composed_program 0 h \<and> instance_of comp_vals sub \<lparr>a_call = CTable 2, a_args = [Slot 1, Slot 2]\<rparr> h"
proof -
  obtain cp e where e: "parse_compositions (\<lambda>_. ''digest'') composed_program comp_json = Inr cp" "cp_edges cp (0, 0, 1, 0) = Some e"
    "cg_producer e = 0" "cg_instructions e = [\<lparr>in_atom = 1, in_columns = Some [Slot 1, Slot 4]\<rparr>]"
    using composed_edge_value by (auto simp: composed_edge_def split: sum.splits)
  have t: "p_templates composed_program ! 0 = stage_template comp_ops [2 \<mapsto> 0, 3 \<mapsto> 1, 4 \<mapsto> 2]"
    and q: "r_query (p_rules composed_program ! 1) =
      [\<lparr>a_call = CTable 1, a_args = [Slot 0, Slot 1]\<rparr>, \<lparr>a_call = CTable 2, a_args = [Slot 1, Slot 2]\<rparr>]"
    by (simp_all add: composed_program_def stage_program_def stage_rule_def)
  have copies: "copies_hold comp_vals (p_templates composed_program ! 0)"
    by (simp add: t copies_hold_def stage_template_def producer_ops_def comp_ops_def comp_vals_def)
  have unions: "unions_hold comp_vals (p_templates composed_program ! 0)"
    by (simp add: t unions_hold_def stage_template_def producer_ops_def comp_ops_def comp_vals_def)
  have ssa: "ssa_defs (tm_ops (p_templates composed_program ! 0)) (tm_defs (p_templates composed_program ! 0))"
    unfolding t ssa_defs_def stage_template_def producer_ops_def comp_ops_def by (auto simp: less_Suc_eq nth_Cons')
  from accepted_compositions_sound [OF e(1,2) copies unions ssa] obtain sub where
    c: "cg_consumer e = 1" and reads: "edge_reads composed_program comp_vals 0 0 e sub" by blast
  note r = reads [unfolded edge_reads_def Let_def e(3,4) c q, simplified]
  then show ?thesis unfolding One_nat_def by blast
qed

end
