(* ===== verification/CompileStages.thy ===== *)
theory CompileStages
  imports RouteCorrect
begin

text \<open>
  The emitter of the continuation plan, \<open>multistage\<close> of \<open>engine/cell-runtime/src/compiler/mod.rs\<close>: greedy point
  orders for every fact a rule can start from and for its end, and routes from the effects of a producer to
  the atoms of its consumers that the producer's own facts answer. What it emits, the parser of the runtime
  accepts.
\<close>

section \<open>Point orders\<close>

text \<open>The rank of an atom that can be read: a computation, a keyed read, an inverse read.\<close>

definition point_rank :: "table list \<Rightarrow> atom list \<Rightarrow> nat set \<Rightarrow> nat \<Rightarrow> (nat \<times> nat) option res" where
  "point_rank tables query known i =
     rbind (idx query i) (\<lambda>a.
     if a_args a = [] then Inr None
     else if list_all (\<lambda>v. \<not> slot_unknown known v) (butlast (a_args a)) then Inr (Some (if is_table a then 1 else 0, i))
     else rbind (inverse_known tables known a) (\<lambda>inverse. Inr (if inverse then Some (2, i) else None)))"

text \<open>A loop that takes an atom each turn; there are as many turns as atoms.\<close>

fun point_order :: "nat \<Rightarrow> table list \<Rightarrow> atom list \<Rightarrow> nat set \<Rightarrow> nat list \<Rightarrow> nat list \<Rightarrow> nat list res" where
  "point_order 0 tables query known left order = Inr order"
| "point_order (Suc n) tables query known left order =
     rbind (rmapM (point_rank tables query known) left) (\<lambda>rs.
     case List.map_filter id rs of
       [] \<Rightarrow> Inr order
     | c # cs \<Rightarrow>
         let i = snd (Min (set (c # cs))) in
         rbind (idx query i) (\<lambda>a.
         point_order n tables query (known \<union> slots_of (a_args a)) (remove1 i left) (order @ [i])))"

definition rule_points :: "program \<Rightarrow> rule \<Rightarrow> nat list \<Rightarrow> nat set \<Rightarrow> nat list res" where
  "rule_points p r left known = point_order (length left) (p_tables p) (r_query r) known left []"

definition compile_entry :: "program \<Rightarrow> nat \<Rightarrow> rule \<Rightarrow> nat \<times> atom \<Rightarrow> json list res" where
  "compile_entry p rid r ia =
     (case a_call (snd ia) of
        CPrim _ _ \<Rightarrow> Inr []
      | CTable t \<Rightarrow>
          rbind (idx (p_tables p) t) (\<lambda>_.
          rbind (rule_points p r (filter (\<lambda>i. i \<noteq> fst ia) [0..<length (r_query r)]) (slots_of (a_args (snd ia)))) (\<lambda>atoms.
          Inr (if atoms = [] then [] else
            [JObj [(''anchor'', JNum (int (fst ia))), (''atoms'', nats_json atoms), (''rule'', JNum (int rid))]]))))"

definition compile_finish :: "program \<Rightarrow> rule \<Rightarrow> json res" where
  "compile_finish p r =
     (let tables = filter is_table (r_query r);
          rest = filter (\<lambda>i. \<not> is_table (r_query r ! i)) [0..<length (r_query r)]
      in rmap nats_json (rule_points p r rest (\<Union>a \<in> set tables. slots_of (a_args a))))"

section \<open>Routes\<close>

text \<open>What the producer reads and writes: kind, position, table and normal columns. An error drops the source.\<close>

type_synonym local_facts = "(string \<times> nat \<times> nat \<times> arg list) list"

definition attempt :: "'a res \<Rightarrow> 'a option res" where
  "attempt m = (case m of Inr x \<Rightarrow> Inr (Some x) | Inl (Err _) \<Rightarrow> Inr None | Inl e \<Rightarrow> Inl e)"

definition local_fact_of :: "program \<Rightarrow> nat \<Rightarrow> string \<times> nat \<Rightarrow> (string \<times> nat \<times> nat \<times> arg list) option res" where
  "local_fact_of p producer ki =
     rmap (map_option (\<lambda>(t, cols). (fst ki, snd ki, t, cols))) (attempt (local_source p producer (fst ki) (snd ki)))"

definition facts_of :: "program \<Rightarrow> nat \<Rightarrow> rule \<Rightarrow> template \<Rightarrow> local_facts res" where
  "facts_of p producer r t =
     rmap (List.map_filter id) (rmapM (local_fact_of p producer)
       (map (Pair ''query'') [0..<length (r_query r)] @ map (Pair ''effect'') [0..<length (tm_ops t)]))"

definition touched :: "(nat \<rightharpoonup> arg) \<Rightarrow> atom \<Rightarrow> bool" where
  "touched m a \<longleftrightarrow> (\<exists>v \<in> set (a_args a). case v of Literal _ \<Rightarrow> True | Slot s \<Rightarrow> m s \<noteq> None)"

text \<open>The facts that an atom can be, with their columns and the mapping that results.\<close>

definition fitting :: "local_facts \<Rightarrow> atom \<Rightarrow> (nat \<rightharpoonup> arg) \<Rightarrow> (arg list \<times> string \<times> nat \<times> (nat \<rightharpoonup> arg)) list" where
  "fitting locals a m = List.map_filter (\<lambda>(kind, k, t, row).
     case extend_mapping a t row m of Inr m1 \<Rightarrow> Some (row, kind, k, m1) | Inl _ \<Rightarrow> None) locals"

text \<open>A route under construction: remaining atoms, mapping, steps.\<close>

type_synonym plan_state = "nat list \<times> (nat \<rightharpoonup> arg) \<times> json list"

definition step_json :: "nat \<Rightarrow> string \<Rightarrow> nat \<Rightarrow> json" where
  "step_json i kind k = JObj [(''atom'', JNum (int i)), (''source_index'', JNum (int k)), (''source_kind'', JStr kind)]"

definition route_atom :: "atom list \<Rightarrow> local_facts \<Rightarrow> nat \<Rightarrow> plan_state \<Rightarrow> plan_state" where
  "route_atom query locals i st =
     (let (rest, m, steps) = st in
      if \<not> touched m (query ! i) then st
      else case fitting locals (query ! i) m of
        [] \<Rightarrow> st
      | (row, kind, k, m1) # others \<Rightarrow>
          if list_all (\<lambda>x. fst x = row) others
          then (filter (\<lambda>j. j \<noteq> i) rest, m1, steps @ [step_json i kind k]) else st)"

definition route_pass :: "atom list \<Rightarrow> local_facts \<Rightarrow> plan_state \<Rightarrow> plan_state" where
  "route_pass query locals st = fold (route_atom query locals) (fst st) st"

lemma route_atom_shorter: "length (fst (route_atom query locals i st)) \<le> length (fst st)"
  by (auto simp: route_atom_def Let_def split: list.split prod.splits)

lemma route_pass_shorter: "length (fst (route_pass query locals st)) \<le> length (fst st)"
proof -
  have "length (fst (fold (route_atom query locals) is st)) \<le> length (fst st)" for "is"
  proof (induction "is" arbitrary: st)
    case (Cons i "is")
    show ?case using Cons [of "route_atom query locals i st"] route_atom_shorter [of query locals i st] by simp
  qed simp
  then show ?thesis by (simp add: route_pass_def)
qed

function route_loop :: "atom list \<Rightarrow> local_facts \<Rightarrow> plan_state \<Rightarrow> plan_state" where
  "route_loop query locals st =
     (let st' = route_pass query locals st in
      if length (fst st') = length (fst st) then st' else route_loop query locals st')"
  by pat_completeness auto
termination
  by (relation "measure (\<lambda>(query, locals, st). length (fst st))") (use route_pass_shorter in \<open>auto simp: le_neq_implies_less\<close>)

declare route_loop.simps [simp del]

definition compile_route :: "program \<Rightarrow> nat \<Rightarrow> local_facts \<Rightarrow> nat \<times> nat \<times> arg list \<Rightarrow> nat \<times> nat \<Rightarrow> json list" where
  "compile_route p producer locals f ca =
     (let (effect, t, cols) = f; (consumer, anchor) = ca; query = r_query (p_rules p ! consumer) in
      case extend_mapping (query ! anchor) t cols Map.empty of
        Inl _ \<Rightarrow> []
      | Inr m \<Rightarrow>
          let (rest, _, steps) = route_loop query locals (filter (\<lambda>i. i \<noteq> anchor) [0..<length query], m, []) in
          if steps \<noteq> [] \<or> length (table_atoms query) = 1 then
            [JObj [(''anchor'', JNum (int anchor)), (''consumer'', JNum (int consumer)), (''effect'', JNum (int effect)),
              (''producer'', JNum (int producer)), (''residual'', nats_json rest), (''steps'', JArr steps)]]
          else [])"

text \<open>\<open>readers[t]\<close>: the atoms that read a table.\<close>

definition table_readers :: "program \<Rightarrow> nat \<Rightarrow> (nat \<times> nat) list res" where
  "table_readers p t =
     rbind (idx (p_tables p) t) (\<lambda>_.
     Inr (concat (map (\<lambda>(rid, r). map (Pair rid) (filter (\<lambda>i. a_call (r_query r ! i) = CTable t) [0..<length (r_query r)]))
       (enumerate 0 (p_rules p)))))"

definition compile_effect :: "program \<Rightarrow> nat \<Rightarrow> local_facts \<Rightarrow> string \<times> nat \<times> nat \<times> arg list \<Rightarrow> json list res" where
  "compile_effect p producer locals f =
     rbind (table_readers p (fst (snd (snd f)))) (\<lambda>readers.
     Inr (concat (map (compile_route p producer locals (snd f)) readers)))"

text \<open>The routes of a producer, or its number when it reads no table.\<close>

definition compile_producer :: "program \<Rightarrow> nat \<times> rule \<Rightarrow> (nat list \<times> json list) res" where
  "compile_producer p pr =
     (let (producer, r) = pr in
      if \<not> list_ex is_table (r_query r) then Inr ([producer], [])
      else
        rbind (idx (p_templates p) (r_template r)) (\<lambda>t.
        rbind (facts_of p producer r t) (\<lambda>locals.
        rbind (rmapM (compile_effect p producer locals) (filter (\<lambda>f. fst f = ''effect'') locals)) (\<lambda>routes.
        Inr ([], concat routes)))))"

section \<open>The plan\<close>

definition stage_contract :: json where
  "stage_contract = JObj
     [(''activation'', JStr ''committed producer fact; current visible exhaustive projection''),
      (''alias_alternatives'', JStr ''residual matching whenever a projection is not exhaustive''),
      (''late_input'', JStr ''ordinary delta route remains authoritative''),
      (''publication'', JStr ''original Run occurrence, after all entry bindings are gathered'')]"

definition compile_multistage :: "program \<Rightarrow> json res" where
  "compile_multistage p =
     rbind (rmapM (\<lambda>(rid, r). rmap concat (rmapM (compile_entry p rid r) (enumerate 0 (r_query r)))) (enumerate 0 (p_rules p))) (\<lambda>entries.
     rbind (rmapM (compile_finish p) (p_rules p)) (\<lambda>finishes.
     rbind (rmapM (compile_producer p) (enumerate 0 (p_rules p))) (\<lambda>producers.
     let ir = jfield (p_artifact p) ''recipe'' in
     rbind (ok_or (as_array (jfield ir ''rulesets'')) Panic) (\<lambda>sets.
     rbind (compile_stage_entries p) (\<lambda>stage.
     rbind (compile_grafts p) (\<lambda>grafts.
     Inr (JObj [(''contract'', stage_contract), (''control'', jfield ir ''control''),
       (''data_loaders'', nats_json (concat (map fst producers))), (''entries'', JArr (concat entries)),
       (''finishes'', JArr finishes), (''recipe_sha256'', jfield ir ''sha256''), (''routes'', JArr (concat (map snd producers))),
       (''rule_sets'', JArr (map (\<lambda>s. JObj [(''name'', jfield s ''name''), (''rule_ids'', jfield s ''rule_ids'')]) sets)),
       (''schema'', JStr ''eggfuse-multistage/v1''), (''stage_entries'', stage), (''union_entries'', grafts)])))))))"


section \<open>Emitted orders are accepted\<close>

definition sound_query :: "table list \<Rightarrow> atom list \<Rightarrow> bool" where
  "sound_query tables query \<longleftrightarrow> int (length query) < 2 ^ 64 \<and>
     (\<forall>a \<in> set query. a_args a \<noteq> [] \<and> (case a_call a of CTable t \<Rightarrow> t < length tables \<and> t_schema (tables ! t) \<noteq> [] \<and>
       length (a_args a) = length (t_schema (tables ! t)) | CPrim _ _ \<Rightarrow> True))"

lemma sound_inverse:
  assumes "sound_query tables query" "i < length query"
  shows "\<exists>b. inverse_known tables known (query ! i) = Inr b"
  using assms by (auto simp: sound_query_def inverse_known_def last_sort_def dest!: bspec [OF _ nth_mem] split: call.split)

lemma rmapM_total:
  assumes "\<And>x. x \<in> set xs \<Longrightarrow> \<exists>y. f x = Inr y"
  shows "rmapM f xs = Inr (map (\<lambda>x. projr (f x)) xs)"
  by (rule rmapM_map) (use assms in force)

lemma point_rank_total:
  assumes "sound_query tables query" "i < length query"
  shows "\<exists>r. point_rank tables query known i = Inr r"
  using assms sound_inverse [OF assms, of known] by (auto simp: point_rank_def)

lemma point_rank_some:
  assumes "point_rank tables query known i = Inr (Some (k, j))" "sound_query tables query"
  shows "j = i \<and> i < length query \<and> (\<forall>covered order anchor. i \<notin> covered \<longrightarrow> (anchor = None \<longrightarrow> \<not> is_table (query ! i)) \<longrightarrow>
    check_point tables query anchor (JNum (int i)) (covered, known, order) =
      Inr (insert i covered, known \<union> slots_of (a_args (query ! i)), order @ [i]))"
proof -
  from assms(1) have i: "i < length query" and j: "j = i"
    by (auto simp: point_rank_def rbind_eq_Inr idx_eq_Inr split: if_splits)
  have u: "i < 18446744073709551616" using i assms(2) by (simp add: sound_query_def)
  from sound_inverse [OF assms(2) i] obtain b where b: "inverse_known tables known (query ! i) = Inr b" by blast
  from assms(1) i have ok: "a_args (query ! i) \<noteq> []" "list_all (\<lambda>v. \<not> slot_unknown known v) (butlast (a_args (query ! i))) \<or> b"
    using b by (auto simp: point_rank_def split: if_splits)
  then show ?thesis using i j b by (auto simp: check_point_def u key_known_def get_at_def)
qed

lemma point_order_accepted:
  assumes "sound_query tables query" "distinct left" "set left \<subseteq> {..<length query}"
    and "set left \<inter> covered = {}" "anchor = None \<Longrightarrow> \<forall>i \<in> set left. \<not> is_table (query ! i)"
  shows "\<exists>js cov kn. point_order n tables query known left order = Inr (order @ js) \<and> set js \<subseteq> set left \<and>
    rfold (check_point tables query anchor) (map (\<lambda>i. JNum (int i)) js) (covered, known, order) = Inr (cov, kn, order @ js)"
  using assms(2-)
proof (induction n arbitrary: known left order covered)
  case 0
  show ?case by (intro exI [of _ "[]"]) simp
next
  case (Suc n)
  from point_rank_total [OF assms(1)] Suc.prems(2) have "\<And>i. i \<in> set left \<Longrightarrow> \<exists>r. point_rank tables query known i = Inr r" by auto
  from rmapM_total [of left "point_rank tables query known", OF this] obtain rs where rs: "rmapM (point_rank tables query known) left = Inr rs" by blast
  show ?case
  proof (cases "List.map_filter id rs")
    case Nil
    with rs show ?thesis by (intro exI [of _ "[]"]) simp
  next
    case (Cons c cs)
    obtain k i where ki: "Min (set (c # cs)) = (k, i)" by (cases "Min (set (c # cs))")
    then have "(k, i) \<in> set (List.map_filter id rs)" unfolding Cons using Min_in [of "set (c # cs)"] by simp
    then have "Some (k, i) \<in> set rs" by (auto simp: map_filter_def)
    from rmapM_mem [OF rs this] obtain j where j: "j \<in> set left" "point_rank tables query known j = Inr (Some (k, i))" by blast
    from point_rank_some [OF j(2) assms(1)] j(1) have i: "i \<in> set left" "i < length query"
      and step: "check_point tables query anchor (JNum (int i)) (covered, known, order) =
        Inr (insert i covered, known \<union> slots_of (a_args (query ! i)), order @ [i])"
      using Suc.prems(3,4) by auto
    have "\<exists>js cov kn. point_order n tables query (known \<union> slots_of (a_args (query ! i))) (remove1 i left) (order @ [i]) = Inr ((order @ [i]) @ js) \<and>
        set js \<subseteq> set (remove1 i left) \<and> rfold (check_point tables query anchor) (map (\<lambda>i. JNum (int i)) js)
          (insert i covered, known \<union> slots_of (a_args (query ! i)), order @ [i]) = Inr (cov, kn, (order @ [i]) @ js)"
      by (rule Suc.IH) (use Suc.prems in \<open>auto dest: set_remove1_subset [THEN subsetD]\<close>)
    then obtain js cov kn where js: "point_order n tables query (known \<union> slots_of (a_args (query ! i))) (remove1 i left) (order @ [i]) = Inr ((order @ [i]) @ js)"
        "set js \<subseteq> set (remove1 i left)" "rfold (check_point tables query anchor) (map (\<lambda>i. JNum (int i)) js)
          (insert i covered, known \<union> slots_of (a_args (query ! i)), order @ [i]) = Inr (cov, kn, (order @ [i]) @ js)" by blast
    have "point_order (Suc n) tables query known left order = Inr (order @ i # js)"
      using js(1) i(2) by (simp add: rs Cons ki [unfolded list.set] Let_def)
    moreover have "set (i # js) \<subseteq> set left" using js(2) i(1) set_remove1_subset [of i left] by auto
    moreover have "rfold (check_point tables query anchor) (map (\<lambda>i. JNum (int i)) (i # js)) (covered, known, order) = Inr (cov, kn, order @ i # js)"
      using js(3) by (simp add: step)
    ultimately show ?thesis by blast
  qed
qed


definition compilable :: "program \<Rightarrow> bool" where
  "compilable p \<longleftrightarrow> wf_program p \<and> int (length (p_rules p)) < 2 ^ 64 \<and>
     as_array (jfield (jfield (p_artifact p) ''recipe'') ''rulesets'') \<noteq> None \<and>
     (\<forall>i < length (p_rules p). let r = p_rules p ! i; t = p_templates p ! i in
        int (length (r_query r)) < 2 ^ 64 \<and> int (length (tm_ops t)) < 2 ^ 64 \<and>
        (\<forall>a \<in> set (r_query r). a_args a \<noteq> []) \<and> (\<forall>s \<in> set (r_inputs r). tm_defs t s = None))"

lemma compilable_rule:
  assumes "compilable p" "rid < length (p_rules p)"
  shows "sound_query (p_tables p) (r_query (p_rules p ! rid))" "r_template (p_rules p ! rid) = rid"
    "ssa_template p (set (r_inputs (p_rules p ! rid))) (p_templates p ! rid)" "rid < length (p_templates p)"
    "int (length (tm_ops (p_templates p ! rid))) < 2 ^ 64"
proof -
  let ?r = "p_rules p ! rid"
  from assms have wf: "wf_program p" and
    ok: "int (length (r_query ?r)) < 2 ^ 64" "int (length (tm_ops (p_templates p ! rid))) < 2 ^ 64"
      "\<forall>a \<in> set (r_query ?r). a_args a \<noteq> []" "\<forall>s \<in> set (r_inputs ?r). tm_defs (p_templates p ! rid) s = None"
    by (simp_all add: compilable_def Let_def)
  from wf assms(2) have t: "r_template ?r = rid" "wf_rule p ?r" "\<forall>t \<in> set (p_tables p). t_schema t \<noteq> []"
    by (simp_all add: wf_program_def)
  then show "r_template ?r = rid" "rid < length (p_templates p)" by (simp_all add: wf_rule_def)
  show "ssa_template p (set (r_inputs ?r)) (p_templates p ! rid)"
    using t(1,2) ok(4) by (simp add: ssa_template_def wf_rule_def Let_def)
  show "int (length (tm_ops (p_templates p ! rid))) < 2 ^ 64" by (rule ok)
  have "case a_call a of CTable t \<Rightarrow> t < length (p_tables p) \<and> t_schema (p_tables p ! t) \<noteq> [] \<and>
      length (a_args a) = length (t_schema (p_tables p ! t)) | CPrim _ _ \<Rightarrow> True" if "a \<in> set (r_query ?r)" for a
  proof -
    have "wf_query_atom (p_tables p) (length (tm_sorts (p_templates p ! rid))) (set (r_inputs ?r)) a"
      using t(1,2) that by (simp add: wf_rule_def Let_def)
    then show ?thesis using t(3) by (auto simp: wf_query_atom_def split: call.splits)
  qed
  with ok(1,3) show "sound_query (p_tables p) (r_query ?r)" by (simp add: sound_query_def)
qed

lemma rule_points_accepted:
  assumes "compilable p" "rid < length (p_rules p)" "distinct left" "set left \<subseteq> {..<length (r_query (p_rules p ! rid))}"
    and "set left \<inter> fst (start_points anchor (r_query (p_rules p ! rid))) = {}"
    and "anchor = None \<Longrightarrow> \<forall>i \<in> set left. \<not> is_table (r_query (p_rules p ! rid) ! i)"
    and "known = fst (snd (start_points anchor (r_query (p_rules p ! rid))))"
  shows "\<exists>os. rule_points p (p_rules p ! rid) left known = Inr os \<and> verify_points p rid anchor (nats_json os) = Inr os"
proof -
  let ?q = "r_query (p_rules p ! rid)"
  obtain covered where st: "start_points anchor ?q = (covered, known, [])"
    using assms(7) by (auto simp: start_points_def Let_def)
  with point_order_accepted [OF compilable_rule(1) [OF assms(1,2)] assms(3,4), of covered anchor "length left" known "[]"] assms(5,6)
  show ?thesis by (auto simp: rule_points_def verify_points_def get_at_def assms(2) nats_json_def j_array_def)
qed

text \<open>A parser takes documents with keys of a set whose keys are free, and leaves the other keys alone.\<close>

definition accepts :: "(json \<Rightarrow> multi_stage \<Rightarrow> multi_stage res) \<Rightarrow> (multi_stage \<Rightarrow> 'k \<Rightarrow> 'v option) \<Rightarrow> json list \<Rightarrow> 'k set \<Rightarrow> bool" where
  "accepts parse get ds K \<longleftrightarrow> (\<forall>ms. (\<forall>k \<in> K. get ms k = None) \<longrightarrow>
     (\<exists>ms'. rfold parse ds ms = Inr ms' \<and> (\<forall>k. k \<notin> K \<longrightarrow> get ms' k = get ms k)))"

lemma accepts_Nil: "accepts parse get [] K"
  by (simp add: accepts_def)

lemma accepts_append:
  assumes "accepts parse get ds K" "accepts parse get es L" "K \<inter> L = {}"
  shows "accepts parse get (ds @ es) (K \<union> L)"
  unfolding accepts_def
proof (intro allI impI)
  fix ms :: multi_stage assume free: "\<forall>k \<in> K \<union> L. get ms k = None"
  with assms(1) obtain ms1 where 1: "rfold parse ds ms = Inr ms1" "\<forall>k. k \<notin> K \<longrightarrow> get ms1 k = get ms k"
    unfolding accepts_def by blast
  have "\<forall>k \<in> L. get ms1 k = None"
  proof
    fix k assume "k \<in> L"
    with assms(3) have "k \<notin> K" by blast
    with 1(2) free \<open>k \<in> L\<close> show "get ms1 k = None" by (metis UnI2)
  qed
  with assms(2) obtain ms2 where 2: "rfold parse es ms1 = Inr ms2" "\<forall>k. k \<notin> L \<longrightarrow> get ms2 k = get ms1 k"
    unfolding accepts_def by blast
  with 1 show "\<exists>ms'. rfold parse (ds @ es) ms = Inr ms' \<and> (\<forall>k. k \<notin> K \<union> L \<longrightarrow> get ms' k = get ms k)"
    by (simp add: rfold_append)
qed

lemma accepts_concat:
  assumes "\<And>x. x \<in> set xs \<Longrightarrow> accepts parse get (f x) (K x)" "distinct xs"
    and "\<And>x y. x \<in> set xs \<Longrightarrow> y \<in> set xs \<Longrightarrow> x \<noteq> y \<Longrightarrow> K x \<inter> K y = {}"
  shows "accepts parse get (concat (map f xs)) (\<Union>x \<in> set xs. K x)"
  using assms
proof (induction xs)
  case (Cons x xs)
  then have "accepts parse get (f x @ concat (map f xs)) (K x \<union> (\<Union>y \<in> set xs. K y))"
    by (intro accepts_append) auto
  then show ?case by simp
qed (simp add: accepts_Nil)

lemma accepts_mono: "accepts parse get ds K \<Longrightarrow> K \<subseteq> L \<Longrightarrow> accepts parse get ds L"
  unfolding accepts_def by (meson subsetD)

lemma entry_accepted:
  assumes "compilable p" "rid < length (p_rules p)" "i < length (r_query (p_rules p ! rid))"
  shows "\<exists>es. compile_entry p rid (p_rules p ! rid) (i, r_query (p_rules p ! rid) ! i) = Inr es \<and>
    accepts (parse_point_entry p) ms_entries es {(rid, i)}"
proof (cases "a_call (r_query (p_rules p ! rid) ! i)")
  case (CTable t)
  let ?q = "r_query (p_rules p ! rid)"
  from compilable_rule(1) [OF assms(1,2)] assms(3) CTable have t: "t < length (p_tables p)"
    by (auto simp: sound_query_def dest!: bspec [OF _ nth_mem])
  have u: "i < 18446744073709551616" "rid < 18446744073709551616"
    using compilable_rule(1) [OF assms(1,2)] assms by (auto simp: sound_query_def compilable_def)
  have st: "start_points (Some i) ?q = ({i}, slots_of (a_args (?q ! i)), [])"
  proof -
    have "filter (\<lambda>k. starts (Some i) k (?q ! k)) [0..<length ?q] = filter (\<lambda>k. k = i) [0..<length ?q]"
      by (rule filter_cong) (auto simp: starts_def)
    then show ?thesis using assms(3) by (simp add: start_points_def Let_def) auto
  qed
  from rule_points_accepted [OF assms(1,2), of "filter (\<lambda>k. k \<noteq> i) [0..<length ?q]" "Some i"] obtain os where
    os: "rule_points p (p_rules p ! rid) (filter (\<lambda>k. k \<noteq> i) [0..<length ?q]) (slots_of (a_args (?q ! i))) = Inr os"
      "verify_points p rid (Some i) (nats_json os) = Inr os" by (auto simp: st)
  have fact: "is_table (?q ! i)" by (simp add: is_table_def CTable)
  let ?j = "JObj [(''anchor'', JNum (int i)), (''atoms'', nats_json os), (''rule'', JNum (int rid))]"
  have f: "jfield ?j ''anchor'' = JNum (int i)" "jfield ?j ''atoms'' = nats_json os" "jfield ?j ''rule'' = JNum (int rid)"
    by (simp_all add: jfield_def)
  have "parse_point_entry p ?j ms = Inr (ms\<lparr>ms_entries := (ms_entries ms)((rid, i) \<mapsto> os)\<rparr>)" if "ms_entries ms (rid, i) = None" for ms
    using u assms(2,3) fact os(2) that unfolding parse_point_entry_def f u64_or_def by (simp add: get_at_def)
  then have "accepts (parse_point_entry p) ms_entries (if os = [] then [] else [?j]) {(rid, i)}"
    by (auto simp: accepts_def)
  moreover have "compile_entry p rid (p_rules p ! rid) (i, ?q ! i) = Inr (if os = [] then [] else [?j])"
    using os(1) t by (simp add: compile_entry_def CTable)
  ultimately show ?thesis by blast
qed (simp add: compile_entry_def accepts_Nil)


lemma finish_accepted:
  assumes "compilable p" "rid < length (p_rules p)"
  shows "\<exists>os. compile_finish p (p_rules p ! rid) = Inr (nats_json os) \<and> verify_points p rid None (nats_json os) = Inr os"
proof -
  let ?q = "r_query (p_rules p ! rid)"
  let ?left = "filter (\<lambda>i. \<not> is_table (?q ! i)) [0..<length ?q]"
  let ?known = "\<Union>a \<in> set (filter is_table ?q). slots_of (a_args a)"
  have k: "?known = fst (snd (start_points None ?q))"
    by (auto simp: start_points_def Let_def starts_def in_set_conv_nth)
  have d: "set ?left \<inter> fst (start_points None ?q) = {}"
    by (auto simp: start_points_def Let_def starts_def)
  have "\<exists>os. rule_points p (p_rules p ! rid) ?left ?known = Inr os \<and> verify_points p rid None (nats_json os) = Inr os"
    by (rule rule_points_accepted [OF assms _ _ d _ k]) auto
  then show ?thesis by (auto simp: compile_finish_def Let_def simp del: set_filter)
qed

section \<open>Emitted routes are accepted\<close>

lemma normalize_total:
  assumes "ssa_template p D t"
  shows "\<exists>ys. rmapM (normalize t) xs = Inr ys"
proof -
  have "\<exists>y. normalize t x = Inr y" for x
    using norm_returns [OF assms, of x "Suc (length (tm_ops t))"] arg_rank_le [OF assms, of x] unfolding normalize_def by force
  then show ?thesis using rmapM_total [of xs "normalize t"] by blast
qed

lemma source_attempt:
  assumes "compilable p" "producer < length (p_rules p)"
  shows "\<exists>f. attempt (local_source p producer kind k) = Inr f"
proof -
  let ?t = "p_templates p ! producer"
  note rule = compilable_rule [OF assms]
  have "\<exists>f. attempt (rbind m (\<lambda>(tb, cols). rbind (rmapM (normalize ?t) cols) (\<lambda>cols. Inr (tb, cols)))) = Inr f"
    if "\<exists>f. attempt m = Inr f" for m :: "(nat \<times> arg list) res"
  proof (cases m)
    case (Inr x)
    then show ?thesis using normalize_total [OF rule(3), of "snd x"] by (cases x) (auto simp: attempt_def)
  qed (use that in \<open>auto simp: attempt_def split: error.splits\<close>)
  moreover have "\<exists>f. attempt (effect_columns p (tm_ops ?t ! k)) = Inr f" if "k < length (tm_ops ?t)"
  proof -
    have "op_arity (p_tables p) (tm_ops ?t ! k)" using rule(3) that by (simp add: ssa_template_def well_scoped_def)
    then show ?thesis by (cases "tm_ops ?t ! k") (auto simp: effect_columns_def attempt_def split: call.split)
  qed
  then have "\<exists>f. attempt (if kind = ''query'' then
         rbind (ok_or (get_at (r_query (p_rules p ! producer)) k) (Err ''continuation query source'')) (\<lambda>a.
         case a_call a of
           CTable tb \<Rightarrow> Inr (tb, a_args a)
         | CPrim _ _ \<Rightarrow> Inl (Err ''primitive is not a local fact''))
       else if kind = ''effect'' then
         rbind (ok_or (get_at (tm_ops ?t) k) (Err ''continuation effect source'')) (effect_columns p)
       else Inl (Err ''unknown local fact source'')) = Inr f"
    by (auto simp: get_at_def attempt_def split: call.split)
  ultimately show ?thesis using assms(2) rule(2,4) by (simp add: local_source_def get_at_def)
qed

lemma local_facts_distinct:
  assumes "rmapM (local_fact_of p producer) ks = Inr fs" "distinct ks"
  shows "distinct (map (\<lambda>f. (fst f, fst (snd f))) (List.map_filter id fs)) \<and>
    set (map (\<lambda>f. (fst f, fst (snd f))) (List.map_filter id fs)) \<subseteq> set ks"
  using assms
proof (induction ks arbitrary: fs)
  case (Cons x ks)
  then obtain f fs' where f: "local_fact_of p producer x = Inr f" and fs: "fs = f # fs'" "rmapM (local_fact_of p producer) ks = Inr fs'"
    by (auto simp: rbind_eq_Inr)
  let ?keys = "\<lambda>fs. map (\<lambda>f. (fst f, fst (snd f))) (List.map_filter id fs)"
  have "f = None \<or> (\<exists>t cols. f = Some (fst x, snd x, t, cols))"
    using f by (auto simp: local_fact_of_def rmap_def rbind_eq_Inr map_option_case split: option.split)
  then have e: "?keys fs = (if f = None then [] else [x]) @ ?keys fs'" by (auto simp: fs(1))
  have gen: "distinct ((if f = None then [] else [x]) @ l) \<and> set ((if f = None then [] else [x]) @ l) \<subseteq> set (x # ks)"
    if "distinct l" "set l \<subseteq> set ks" for l using that Cons.prems(2) by auto
  have "distinct (?keys fs')" "set (?keys fs') \<subseteq> set ks"
    using Cons.IH [OF fs(2)] Cons.prems(2) unfolding distinct.simps by blast+
  from gen [OF this] show ?case unfolding e .
qed simp

lemma facts_of_sources:
  assumes "compilable p" "producer < length (p_rules p)"
  shows "\<exists>locals. facts_of p producer (p_rules p ! producer) (p_templates p ! producer) = Inr locals \<and>
    (\<forall>(kind, k, t, cols) \<in> set locals. local_source p producer kind k = Inr (t, cols) \<and> int k < 2 ^ 64) \<and>
    distinct (map (\<lambda>f. (fst f, fst (snd f))) locals)"
proof -
  let ?ks = "map (Pair ''query'') [0..<length (r_query (p_rules p ! producer))] @
    map (Pair ''effect'') [0..<length (tm_ops (p_templates p ! producer))]"
  have "\<exists>f. local_fact_of p producer ki = Inr f" for ki
    using source_attempt [OF assms, of "fst ki" "snd ki"] by (auto simp: local_fact_of_def)
  then obtain fs where fs: "rmapM (local_fact_of p producer) ?ks = Inr fs" using rmapM_total [of ?ks "local_fact_of p producer"] by blast
  have "local_source p producer kind k = Inr (t, cols) \<and> int k < 2 ^ 64" if f: "Some (kind, k, t, cols) \<in> set fs" for kind k t cols
  proof -
    from rmapM_mem [OF fs f] obtain ki where ki: "ki \<in> set ?ks" "local_fact_of p producer ki = Inr (Some (kind, k, t, cols))" by blast
    from ki(2) have "local_source p producer kind k = Inr (t, cols)" "snd ki = k"
      by (auto simp: local_fact_of_def rmap_def rbind_eq_Inr attempt_def split: sum.splits error.splits)
    then show ?thesis using ki(1) compilable_rule(1,5) [OF assms] by (auto simp: sound_query_def)
  qed
  then have "\<forall>(kind, k, t, cols) \<in> set (List.map_filter id fs). local_source p producer kind k = Inr (t, cols) \<and> int k < 2 ^ 64"
    by (auto simp: map_filter_def)
  moreover have "distinct ?ks" by (auto simp: distinct_map inj_on_def)
  from local_facts_distinct [OF fs this] have "distinct (map (\<lambda>f. (fst f, fst (snd f))) (List.map_filter id fs))" by simp
  ultimately show ?thesis using fs by (auto simp: facts_of_def)
qed

definition route_inv :: "program \<Rightarrow> nat \<Rightarrow> atom list \<Rightarrow> nat \<Rightarrow> (nat \<rightharpoonup> arg) \<Rightarrow> plan_state \<Rightarrow> bool" where
  "route_inv p producer query anchor m0 st \<longleftrightarrow> (\<exists>covered reads.
     rfold (parse_read p producer query) (snd (snd st)) ({anchor}, m0, []) = Inr (covered, fst (snd st), reads) \<and>
     fst st = filter (\<lambda>i. i \<notin> covered) [0..<length query])"

lemma route_atom_inv:
  assumes "route_inv p producer query anchor m0 st" "i \<in> set (fst st)" "int (length query) < 2 ^ 64"
    and locals: "\<forall>(kind, k, t, cols) \<in> set locals. local_source p producer kind k = Inr (t, cols) \<and> int k < 2 ^ 64"
  shows "route_inv p producer query anchor m0 (route_atom query locals i st) \<and>
    set (fst st) - {i} \<subseteq> set (fst (route_atom query locals i st))"
proof -
  obtain rest m steps where st: "st = (rest, m, steps)" by (cases st)
  show ?thesis
  proof (cases "\<exists>row kind k m1 others. fitting locals (query ! i) m = (row, kind, k, m1) # others \<and> route_atom query locals i st =
      (filter (\<lambda>j. j \<noteq> i) rest, m1, steps @ [step_json i kind k])")
    case False
    then have "route_atom query locals i st = st"
      unfolding route_atom_def st Let_def prod.case by (auto split: list.split prod.split)
    with assms(1) show ?thesis by simp
  next
    case True
    then obtain row kind k m1 others where fit: "fitting locals (query ! i) m = (row, kind, k, m1) # others"
      and new: "route_atom query locals i st = (filter (\<lambda>j. j \<noteq> i) rest, m1, steps @ [step_json i kind k])" by blast
    from fit have "(row, kind, k, m1) \<in> set (fitting locals (query ! i) m)" by simp
    then obtain t where t: "(kind, k, t, row) \<in> set locals" "extend_mapping (query ! i) t row m = Inr m1"
      by (auto simp: fitting_def map_filter_def split: sum.splits)
    then have src: "local_source p producer kind k = Inr (t, row)" "int k < 2 ^ 64" using locals by auto
    from assms(1) obtain covered reads where
      run: "rfold (parse_read p producer query) steps ({anchor}, m0, []) = Inr (covered, m, reads)"
      and rest: "rest = filter (\<lambda>i. i \<notin> covered) [0..<length query]" by (auto simp: route_inv_def st)
    have i: "i \<notin> covered" "i < length query" using assms(2) by (auto simp: st rest)
    have f: "jfield (step_json i kind k) ''atom'' = JNum (int i)" "jfield (step_json i kind k) ''source_index'' = JNum (int k)"
      "jfield (step_json i kind k) ''source_kind'' = JStr kind" by (simp_all add: step_json_def jfield_def)
    have "parse_read p producer query (step_json i kind k) (covered, m, reads) =
      Inr (insert i covered, m1, reads @ [\<lparr>lr_atom = i, lr_table = t, lr_columns = row, lr_effect = (if kind = ''effect'' then Some k else None)\<rparr>])"
      using i src t(2) assms(3) by (simp add: parse_read_def f u64_or_def j_string_def get_at_def)
    then have "route_inv p producer query anchor m0 (route_atom query locals i st)"
      unfolding route_inv_def new by (auto simp: rfold_append run rest intro!: filter_cong)
    moreover have "set (fst st) - {i} \<subseteq> set (fst (route_atom query locals i st))" unfolding new by (auto simp: st)
    ultimately show ?thesis by blast
  qed
qed

lemma route_atoms_inv:
  assumes "route_inv p producer query anchor m0 st" "distinct is" "set is \<subseteq> set (fst st)" "int (length query) < 2 ^ 64"
    and "\<forall>(kind, k, t, cols) \<in> set locals. local_source p producer kind k = Inr (t, cols) \<and> int k < 2 ^ 64"
  shows "route_inv p producer query anchor m0 (fold (route_atom query locals) is st)"
  using assms(1-3)
proof (induction "is" arbitrary: st)
  case (Cons i "is")
  from route_atom_inv [OF Cons.prems(1) _ assms(4,5), of i] Cons.prems(2,3)
  have "route_inv p producer query anchor m0 (route_atom query locals i st)" "set is \<subseteq> set (fst (route_atom query locals i st))" by auto
  with Cons show ?case by simp
qed simp

lemma route_loop_inv:
  assumes "route_inv p producer query anchor m0 st" "int (length query) < 2 ^ 64"
    and "\<forall>(kind, k, t, cols) \<in> set locals. local_source p producer kind k = Inr (t, cols) \<and> int k < 2 ^ 64"
  shows "route_inv p producer query anchor m0 (route_loop query locals st)"
  using assms
proof (induction query locals st rule: route_loop.induct)
  case (1 query locals st)
  have "distinct (fst st)" using 1(2) by (auto simp: route_inv_def)
  then have "route_inv p producer query anchor m0 (route_pass query locals st)"
    unfolding route_pass_def by (rule route_atoms_inv [OF 1(2) _ _ 1(3,4)]) simp
  with 1 show ?case by (subst route_loop.simps) (simp add: Let_def)
qed


lemma route_accepted:
  assumes "compilable p" "producer < length (p_rules p)" "consumer < length (p_rules p)"
    and "anchor < length (r_query (p_rules p ! consumer))" "local_source p producer ''effect'' e = Inr (t, cols)" "int e < 2 ^ 64"
    and "\<forall>(kind, k, t, cols) \<in> set locals. local_source p producer kind k = Inr (t, cols) \<and> int k < 2 ^ 64"
  shows "accepts (parse_route p) ms_routes (compile_route p producer locals (e, t, cols) (consumer, anchor)) {(producer, e, consumer, anchor)}"
proof (cases "extend_mapping (r_query (p_rules p ! consumer) ! anchor) t cols Map.empty")
  case (Inr m)
  let ?q = "r_query (p_rules p ! consumer)"
  have q: "int (length ?q) < 2 ^ 64" using compilable_rule(1) [OF assms(1,3)] by (simp add: sound_query_def)
  obtain rest m1 steps where loop: "route_loop ?q locals (filter (\<lambda>i. i \<noteq> anchor) [0..<length ?q], m, []) = (rest, m1, steps)"
    by (cases "route_loop ?q locals (filter (\<lambda>i. i \<noteq> anchor) [0..<length ?q], m, [])")
  have "route_inv p producer ?q anchor m (filter (\<lambda>i. i \<noteq> anchor) [0..<length ?q], m, [])" by (simp add: route_inv_def)
  from route_loop_inv [OF this q assms(7)] obtain covered reads where
    run: "rfold (parse_read p producer ?q) steps ({anchor}, m, []) = Inr (covered, m1, reads)"
    and rest: "rest = filter (\<lambda>i. i \<notin> covered) [0..<length ?q]" by (auto simp: route_inv_def loop)
  let ?j = "JObj [(''anchor'', JNum (int anchor)), (''consumer'', JNum (int consumer)), (''effect'', JNum (int e)),
    (''producer'', JNum (int producer)), (''residual'', nats_json rest), (''steps'', JArr steps)]"
  have f: "jfield ?j ''producer'' = JNum (int producer)" "jfield ?j ''effect'' = JNum (int e)" "jfield ?j ''consumer'' = JNum (int consumer)"
    "jfield ?j ''anchor'' = JNum (int anchor)" "jfield ?j ''steps'' = JArr steps" "jfield ?j ''residual'' = nats_json rest"
    by (simp_all add: jfield_def)
  have u: "producer < 18446744073709551616" "consumer < 18446744073709551616" "anchor < 18446744073709551616" "e < 18446744073709551616"
    using assms(1-4,6) q by (auto simp: compilable_def)
  have parts: "get_at (p_rules p) consumer = Some (p_rules p ! consumer)" "get_at ?q anchor = Some (?q ! anchor)"
    "j_array (JArr steps) = Inr steps" "residual_json ?q covered = nats_json rest"
    using assms(3,4) by (simp_all add: get_at_def j_array_def residual_json_def rest)
  let ?k = "(producer, e, consumer, anchor)"
  have "accepts (parse_route p) ms_routes [?j] {?k}"
    unfolding accepts_def
  proof (intro allI impI)
    fix ms :: multi_stage assume "\<forall>k \<in> {?k}. ms_routes ms k = None"
    then have free: "ms_routes ms ?k = None" by simp
    have "\<exists>c. parse_route p ?j ms = Inr (ms\<lparr>ms_routes := (ms_routes ms)(?k \<mapsto> c)\<rparr>)"
      using u assms(2,5) Inr run free compilable_rule(2) [OF assms(1,2)]
      unfolding parse_route_def f u64_or_def by (auto simp: parts Let_def)
    then show "\<exists>ms'. rfold (parse_route p) [?j] ms = Inr ms' \<and> (\<forall>k. k \<notin> {?k} \<longrightarrow> ms_routes ms' k = ms_routes ms k)" by auto
  qed
  then show ?thesis by (simp add: compile_route_def Let_def Inr loop accepts_Nil)
qed (simp add: compile_route_def Let_def accepts_Nil)

lemma readers_accepted:
  assumes "compilable p" "producer < length (p_rules p)" "local_source p producer ''effect'' e = Inr (t, cols)" "int e < 2 ^ 64"
    and "\<forall>(kind, k, t, cols) \<in> set locals. local_source p producer kind k = Inr (t, cols) \<and> int k < 2 ^ 64"
    and "t < length (p_tables p)"
  shows "\<exists>ds. compile_effect p producer locals (''effect'', e, t, cols) = Inr ds \<and> accepts (parse_route p) ms_routes ds ({producer} \<times> {e} \<times> UNIV)"
proof -
  let ?read = "\<lambda>(rid, r). map (Pair rid) (filter (\<lambda>i. a_call (r_query r ! i) = CTable t) [0..<length (r_query r)])"
  let ?readers = "concat (map ?read (enumerate 0 (p_rules p)))"
  have "table_readers p t = Inr ?readers" using assms(6) by (simp add: table_readers_def)
  moreover have "accepts (parse_route p) ms_routes (concat (map (compile_route p producer locals (e, t, cols)) ?readers))
      (\<Union>x \<in> set ?readers. {(producer, e, x)})"
  proof (rule accepts_concat)
    fix x assume "x \<in> set ?readers"
    then obtain c a where x: "x = (c, a)" "c < length (p_rules p)" "a < length (r_query (p_rules p ! c))"
      by (auto simp: in_set_enumerate_eq)
    show "accepts (parse_route p) ms_routes (compile_route p producer locals (e, t, cols) x) {(producer, e, x)}"
      unfolding x by (rule route_accepted [OF assms(1,2) x(2,3) assms(3,4,5)])
  next
    have "distinct (concat (map ?read xs))" if "distinct (map fst xs)" for xs :: "(nat \<times> rule) list"
      using that
    proof (induction xs)
      case (Cons x xs)
      then show ?case by (cases x) (auto simp: distinct_map inj_on_def image_iff)
    qed simp
    then show "distinct ?readers" by simp
  qed auto
  ultimately show ?thesis by (auto simp: compile_effect_def intro: accepts_mono)
qed


lemma effect_table:
  assumes "compilable p" "producer < length (p_rules p)" "local_source p producer ''effect'' k = Inr (t, cols)"
  shows "t < length (p_tables p)"
proof -
  note rule = compilable_rule [OF assms(1,2)]
  let ?t = "p_templates p ! producer"
  from assms(2,3) rule(2,4) obtain cols0 where k: "k < length (tm_ops ?t)" "effect_columns p (tm_ops ?t ! k) = Inr (t, cols0)"
    by (auto simp: local_source_def get_at_def rbind_eq_Inr split: if_splits)
  have "op_arity (p_tables p) (tm_ops ?t ! k)" using rule(3) k(1) by (simp add: ssa_template_def well_scoped_def)
  then show ?thesis using k(2) by (cases "tm_ops ?t ! k") (auto simp: effect_columns_def rbind_eq_Inr split: call.splits if_splits)
qed

lemma producer_accepted:
  assumes "compilable p" "producer < length (p_rules p)"
  shows "\<exists>ls ds. compile_producer p (producer, p_rules p ! producer) = Inr (ls, ds) \<and>
    accepts (parse_route p) ms_routes ds ({producer} \<times> UNIV)"
proof (cases "list_ex is_table (r_query (p_rules p ! producer))")
  case True
  note rule = compilable_rule [OF assms]
  from facts_of_sources [OF assms] obtain locals where
    locals: "facts_of p producer (p_rules p ! producer) (p_templates p ! producer) = Inr locals"
      "\<forall>(kind, k, t, cols) \<in> set locals. local_source p producer kind k = Inr (t, cols) \<and> int k < 2 ^ 64"
      "distinct (map (\<lambda>f. (fst f, fst (snd f))) locals)" by blast
  let ?effects = "filter (\<lambda>f. fst f = ''effect'') locals"
  let ?routes = "\<lambda>f. projr (compile_effect p producer locals f)"
  have one: "compile_effect p producer locals f = Inr (?routes f) \<and>
      accepts (parse_route p) ms_routes (?routes f) ({producer} \<times> {fst (snd f)} \<times> UNIV)" if "f \<in> set ?effects" for f
  proof -
    obtain a e t cols where "f = (a, e, t, cols)" by (cases f)
    with that have f: "f = (''effect'', e, t, cols)" "f \<in> set locals" by auto
    with locals(2) have src: "local_source p producer ''effect'' e = Inr (t, cols)" "int e < 2 ^ 64" by auto
    from readers_accepted [OF assms src locals(2) effect_table [OF assms src(1)]] f(1) show ?thesis by auto
  qed
  have "distinct ?effects" using locals(3) by (simp add: distinct_map)
  moreover have "fst (snd f) \<noteq> fst (snd h)" if "f \<in> set ?effects" "h \<in> set ?effects" "f \<noteq> h" for f h
    using locals(3) that by (auto simp: distinct_map inj_on_def)
  ultimately have "accepts (parse_route p) ms_routes (concat (map ?routes ?effects)) (\<Union>f \<in> set ?effects. {producer} \<times> {fst (snd f)} \<times> UNIV)"
    by (intro accepts_concat) (use one in blast)+
  then have "accepts (parse_route p) ms_routes (concat (map ?routes ?effects)) ({producer} \<times> UNIV)"
    by (rule accepts_mono) auto
  moreover have "rmapM (compile_effect p producer locals) ?effects = Inr (map ?routes ?effects)"
    by (rule rmapM_map) (use one in blast)
  ultimately show ?thesis using True rule(2,4) locals(1) by (auto simp: compile_producer_def)
qed (auto simp: compile_producer_def accepts_Nil)


section \<open>Stage entries and grafts\<close>

lemma key_rank_total:
  assumes "sound_query tables query" "i < length query"
  shows "\<exists>r. key_rank query known i = Inr r \<and> (\<forall>x. r = Some x \<longrightarrow> snd x = i)"
  using assms by (auto simp: key_rank_def key_known_def sound_query_def)

lemma key_order_total:
  assumes "sound_query tables query" "set todo \<subseteq> {..<length query}" "set out \<subseteq> {..<length query}"
  shows "\<exists>r. key_order n query known todo out = Inr r \<and> (\<forall>x. r = Some x \<longrightarrow> set (fst x) \<subseteq> {..<length query})"
  using assms(2-)
proof (induction n arbitrary: known todo out)
  case (Suc n)
  from key_rank_total [OF assms(1)] Suc.prems(1) have "\<And>i. i \<in> set todo \<Longrightarrow> \<exists>r. key_rank query known i = Inr r" by blast
  from rmapM_total [of todo "key_rank query known", OF this] obtain rs where rs: "rmapM (key_rank query known) todo = Inr rs" by blast
  show ?case
  proof (cases "List.map_filter id rs")
    case (Cons c cs)
    let ?m = "Min (set (c # cs))"
    have "?m \<in> set (List.map_filter id rs)" unfolding Cons by (rule Min_in) simp_all
    then have "Some ?m \<in> set rs" by (auto simp: map_filter_def)
    from rmapM_mem [OF rs this] obtain j where j: "j \<in> set todo" "key_rank query known j = Inr (Some ?m)" by blast
    then have m: "snd ?m = j" "j < length query"
      using key_rank_total [OF assms(1), of j known] Suc.prems(1) by (metis Inr_inject lessThan_iff subsetD)+
    have "set (remove1 j todo) \<subseteq> {..<length query}" "set (out @ [j]) \<subseteq> {..<length query}"
      using Suc.prems m(2) set_remove1_subset [of j todo] by auto
    from Suc.IH [OF this, of "known \<union> slots_of (a_args (query ! j))"] show ?thesis
      using m by (simp add: rs Cons Let_def)
  qed (simp add: rs)
qed simp

lemma stage_entry_parsed:
  assumes "compilable p" "rid < length (p_rules p)" "i < length (r_query (p_rules p ! rid))"
  shows "\<exists>es. stage_entry p rid (p_rules p ! rid) (i, r_query (p_rules p ! rid) ! i) = Inr es \<and> (\<forall>e \<in> set es. \<exists>s. parse_stage_entry e = Inr s)"
proof (cases "a_call (r_query (p_rules p ! rid) ! i)")
  case (CTable t)
  let ?r = "p_rules p ! rid"
  note sound = compilable_rule(1) [OF assms(1,2)]
  from sound assms(3) CTable have t: "t < length (p_tables p)" by (auto simp: sound_query_def dest!: bspec [OF _ nth_mem])
  have u: "i < 18446744073709551616" "rid < 18446744073709551616" "int (length (r_query ?r)) < 2 ^ 64"
    using sound assms by (auto simp: sound_query_def compilable_def)
  let ?todo = "filter (\<lambda>k. k \<noteq> i) [0..<length (r_query ?r)]"
  obtain o1 where o1: "key_order (length ?todo) (r_query ?r) (slots_of (a_args (r_query ?r ! i))) ?todo [] = Inr o1"
    "\<forall>x. o1 = Some x \<longrightarrow> set (fst x) \<subseteq> {..<length (r_query ?r)}"
    using key_order_total [OF sound, of ?todo "[]" "length ?todo" "slots_of (a_args (r_query ?r ! i))"] by auto
  have parsed: "\<exists>s. parse_stage_entry (JObj [(''anchor'', JNum (int i)), (''atoms'', nats_json os), (''rule'', JNum (int rid)), (''table'', n)]) = Inr s"
    if "set os \<subseteq> {..<length (r_query ?r)}" for os n
  proof -
    have "rmapM nat_of_json (map (\<lambda>k. JNum (int k)) os) = Inr os" using that u(3)
      by (induction os) (auto simp: nat_of_json_def)
    then show ?thesis using u(1,2) by (simp add: parse_stage_entry_def jfield_def nats_json_def nat_of_json_def)
  qed
  show ?thesis
  proof (cases "case o1 of None \<Rightarrow> None | Some (out, known) \<Rightarrow> if set (r_inputs ?r) \<subseteq> known then Some out else None")
    case None
    then have "stage_order ?r i = Inr None" using assms(3) o1(1) by (simp add: stage_order_def Let_def)
    then show ?thesis by (simp add: stage_entry_def CTable)
  next
    case (Some os)
    then have "stage_order ?r i = Inr (Some os)" using assms(3) o1(1) by (simp add: stage_order_def Let_def)
    moreover have "set os \<subseteq> {..<length (r_query ?r)}" using Some o1(2) by (auto split: option.splits if_splits)
    ultimately show ?thesis using parsed t by (simp add: stage_entry_def CTable)
  qed
qed (simp add: stage_entry_def)

lemma compile_stage_entries_parsed:
  assumes "compilable p"
  shows "\<exists>es ss. compile_stage_entries p = Inr (JArr es) \<and> rmapM parse_stage_entry es = Inr ss"
proof -
  have rule: "\<exists>es. compile_stage_rule p ir = Inr es \<and> (\<forall>e \<in> set es. \<exists>s. parse_stage_entry e = Inr s)"
    if "ir \<in> set (enumerate 0 (p_rules p))" for ir
  proof -
    from in_enumerate [OF that] obtain rid where rid: "ir = (rid, p_rules p ! rid)" "rid < length (p_rules p)" by blast
    let ?q = "r_query (p_rules p ! rid)"
    let ?f = "\<lambda>ia. projr (stage_entry p rid (p_rules p ! rid) ia)"
    have one: "stage_entry p rid (p_rules p ! rid) ia = Inr (?f ia) \<and> (\<forall>e \<in> set (?f ia). \<exists>s. parse_stage_entry e = Inr s)"
      if "ia \<in> set (enumerate 0 ?q)" for ia
    proof -
      from in_enumerate [OF that] obtain i where i: "ia = (i, ?q ! i)" "i < length ?q" by blast
      from stage_entry_parsed [OF assms rid(2) i(2)] show ?thesis by (auto simp: i(1))
    qed
    have "rmapM (stage_entry p rid (p_rules p ! rid)) (enumerate 0 ?q) = Inr (map ?f (enumerate 0 ?q))"
      by (rule rmapM_map) (use one in blast)
    then show ?thesis using one by (auto simp: compile_stage_rule_def rid(1))
  qed
  let ?g = "\<lambda>ir. projr (compile_stage_rule p ir)"
  have g: "compile_stage_rule p ir = Inr (?g ir)" "\<forall>e \<in> set (?g ir). \<exists>s. parse_stage_entry e = Inr s"
    if "ir \<in> set (enumerate 0 (p_rules p))" for ir using rule [OF that] by auto
  have "rmapM (compile_stage_rule p) (enumerate 0 (p_rules p)) = Inr (map ?g (enumerate 0 (p_rules p)))"
    by (rule rmapM_map) (rule g(1))
  moreover have "\<exists>s. parse_stage_entry e = Inr s" if "e \<in> set (concat (map ?g (enumerate 0 (p_rules p))))" for e
    using that g(2) by auto
  from rmapM_total [of _ parse_stage_entry, OF this] have "\<exists>ss. rmapM parse_stage_entry (concat (map ?g (enumerate 0 (p_rules p)))) = Inr ss"
    by blast
  ultimately show ?thesis by (auto simp: compile_stage_entries_def)
qed


lemma eq_columns_total:
  assumes "n + length xs \<le> length (t_schema tb)"
  shows "\<exists>m'. rfold (\<lambda>(col, x) m. case x of
         Literal _ \<Rightarrow> Inr m
       | Slot s \<Rightarrow>
           rbind (idx (t_schema tb) col) (\<lambda>k.
           Inr (if jfield k ''kind'' = JStr ''eq'' \<and> m s = None then m(s \<mapsto> col) else m)))
       (enumerate n xs) m = Inr m'"
  using assms by (induction xs arbitrary: n m) (auto split: arg.split)

lemma graft_columns_total:
  assumes "sound_query (p_tables p) query" "i \<in> set (table_atoms query)"
  shows "\<exists>m. graft_columns p (query ! i) = Inr m"
proof -
  from assms(2) obtain t where t: "a_call (query ! i) = CTable t" "i < length query"
    by (auto simp: table_atoms_def split: call.splits)
  with assms(1) have "t < length (p_tables p)" "length (a_args (query ! i)) = length (t_schema (p_tables p ! t))"
    by (auto simp: sound_query_def dest!: bspec [OF _ nth_mem])
  then show ?thesis using eq_columns_total [of 0 "a_args (query ! i)" "p_tables p ! t" Map.empty]
    by (auto simp: graft_columns_def t(1) eq_columns_def)
qed

lemma compile_graft_total:
  assumes "sound_query (p_tables p) (r_query r)"
  shows "\<exists>es. compile_graft p (rid, r) = Inr es"
proof (cases "\<exists>i j. table_atoms (r_query r) = [i, j]")
  case True
  then obtain i j where ij: "table_atoms (r_query r) = [i, j]" by blast
  then obtain m n where "graft_columns p (r_query r ! i) = Inr m" "graft_columns p (r_query r ! j) = Inr n"
    using graft_columns_total [OF assms, of i] graft_columns_total [OF assms, of j] by auto
  then show ?thesis by (cases m; cases n) (simp_all add: compile_graft_def ij)
next
  case False
  then have "compile_graft p (rid, r) = Inr []"
    unfolding compile_graft_def by (auto split: list.split)
  then show ?thesis by blast
qed

lemma compile_grafts_total:
  assumes "compilable p"
  shows "\<exists>es. compile_grafts p = Inr (JArr es)"
proof -
  have "\<exists>es. compile_graft p ir = Inr es" if "ir \<in> set (enumerate 0 (p_rules p))" for ir
    using in_enumerate [OF that] compile_graft_total [OF compilable_rule(1) [OF assms]] by (metis prod.collapse snd_conv)
  from rmapM_total [of _ "compile_graft p", OF this] show ?thesis by (auto simp: compile_grafts_def)
qed

section \<open>The emitted plan is accepted\<close>

lemma enumerate_fst_distinct: "x \<in> set (enumerate n xs) \<Longrightarrow> y \<in> set (enumerate n xs) \<Longrightarrow> x \<noteq> y \<Longrightarrow> fst x \<noteq> fst y"
  by (auto simp: in_set_enumerate_eq prod_eq_iff)

lemma enumerate_keys_disjoint:
  "x \<in> set (enumerate n xs) \<Longrightarrow> y \<in> set (enumerate n xs) \<Longrightarrow> x \<noteq> y \<Longrightarrow> ({fst x} \<times> A) \<inter> ({fst y} \<times> B) = {}"
  by (drule (2) enumerate_fst_distinct) auto

lemma finishes_accepted:
  assumes "compilable p"
  shows "\<exists>ns fs. rmapM (compile_finish p) (p_rules p) = Inr ns \<and> length ns = length (p_rules p) \<and>
    rmapM (\<lambda>(rid, f). verify_points p rid None f) (enumerate 0 ns) = Inr fs"
proof -
  have "\<exists>j. compile_finish p r = Inr j" if "r \<in> set (p_rules p)" for r
    using that finish_accepted [OF assms] by (auto simp: in_set_conv_nth)
  from rmapM_total [of "p_rules p" "compile_finish p", OF this] obtain ns where
    ns: "rmapM (compile_finish p) (p_rules p) = Inr ns" by blast
  then have l: "length ns = length (p_rules p)" by (rule rmapM_length)
  have "\<exists>os. (\<lambda>(rid, f). verify_points p rid None f) x = Inr os" if "x \<in> set (enumerate 0 ns)" for x
  proof -
    from in_enumerate [OF that] obtain rid where rid: "x = (rid, ns ! rid)" "rid < length ns" by blast
    with list_all2_nthD [OF rmapM_Inr [OF ns]] l have "compile_finish p (p_rules p ! rid) = Inr (ns ! rid)" by simp
    with finish_accepted [OF assms, of rid] rid l show ?thesis by auto
  qed
  from rmapM_total [of "enumerate 0 ns" "\<lambda>(rid, f). verify_points p rid None f", OF this] ns l show ?thesis by blast
qed

lemma entries_accepted:
  assumes "compilable p"
  shows "\<exists>es. rmapM (\<lambda>(rid, r). rmap concat (rmapM (compile_entry p rid r) (enumerate 0 (r_query r)))) (enumerate 0 (p_rules p)) = Inr es \<and>
    accepts (parse_point_entry p) ms_entries (concat es) UNIV"
proof -
  let ?rule = "\<lambda>(rid, r). rmap concat (rmapM (compile_entry p rid r) (enumerate 0 (r_query r)))"
  have rule: "\<exists>es. ?rule ir = Inr es \<and> accepts (parse_point_entry p) ms_entries es ({fst ir} \<times> UNIV)"
    if "ir \<in> set (enumerate 0 (p_rules p))" for ir
  proof -
    from in_enumerate [OF that] obtain rid where rid: "ir = (rid, p_rules p ! rid)" "rid < length (p_rules p)" by blast
    let ?q = "r_query (p_rules p ! rid)"
    let ?f = "\<lambda>ia. projr (compile_entry p rid (p_rules p ! rid) ia)"
    have one: "compile_entry p rid (p_rules p ! rid) ia = Inr (?f ia) \<and> accepts (parse_point_entry p) ms_entries (?f ia) {(rid, fst ia)}"
      if "ia \<in> set (enumerate 0 ?q)" for ia
    proof -
      from in_enumerate [OF that] obtain i where i: "ia = (i, ?q ! i)" "i < length ?q" by blast
      from entry_accepted [OF assms rid(2) i(2)] show ?thesis by (auto simp: i(1))
    qed
    have "accepts (parse_point_entry p) ms_entries (concat (map ?f (enumerate 0 ?q))) (\<Union>ia \<in> set (enumerate 0 ?q). {(rid, fst ia)})"
      by (rule accepts_concat [OF _ distinct_enumerate]) (use one enumerate_fst_distinct in \<open>blast, fastforce\<close>)
    then have "accepts (parse_point_entry p) ms_entries (concat (map ?f (enumerate 0 ?q))) ({rid} \<times> UNIV)"
      by (rule accepts_mono) auto
    moreover have "rmapM (compile_entry p rid (p_rules p ! rid)) (enumerate 0 ?q) = Inr (map ?f (enumerate 0 ?q))"
      by (rule rmapM_map) (use one in blast)
    ultimately show ?thesis by (simp add: rid(1))
  qed
  let ?g = "\<lambda>ir. projr (?rule ir)"
  have g: "?rule ir = Inr (?g ir)" "accepts (parse_point_entry p) ms_entries (?g ir) ({fst ir} \<times> UNIV)"
    if "ir \<in> set (enumerate 0 (p_rules p))" for ir using rule [OF that] by auto
  have "accepts (parse_point_entry p) ms_entries (concat (map ?g (enumerate 0 (p_rules p))))
      (\<Union>ir \<in> set (enumerate 0 (p_rules p)). {fst ir} \<times> UNIV)"
    by (rule accepts_concat [OF g(2) distinct_enumerate enumerate_keys_disjoint])
  then have "accepts (parse_point_entry p) ms_entries (concat (map ?g (enumerate 0 (p_rules p)))) UNIV"
    by (rule accepts_mono) simp
  moreover have "rmapM ?rule (enumerate 0 (p_rules p)) = Inr (map ?g (enumerate 0 (p_rules p)))"
    by (rule rmapM_map) (rule g(1))
  ultimately show ?thesis by blast
qed

lemma routes_accepted:
  assumes "compilable p"
  shows "\<exists>ps. rmapM (compile_producer p) (enumerate 0 (p_rules p)) = Inr ps \<and>
    accepts (parse_route p) ms_routes (concat (map snd ps)) UNIV"
proof -
  let ?g = "\<lambda>ir. projr (compile_producer p ir)"
  have g: "compile_producer p ir = Inr (?g ir)" "accepts (parse_route p) ms_routes (snd (?g ir)) ({fst ir} \<times> UNIV)"
    if "ir \<in> set (enumerate 0 (p_rules p))" for ir
  proof -
    from in_enumerate [OF that] obtain rid where rid: "ir = (rid, p_rules p ! rid)" "rid < length (p_rules p)" by blast
    from producer_accepted [OF assms rid(2)]
    show "compile_producer p ir = Inr (?g ir)" "accepts (parse_route p) ms_routes (snd (?g ir)) ({fst ir} \<times> UNIV)"
      by (auto simp: rid(1))
  qed
  have "accepts (parse_route p) ms_routes (concat (map (\<lambda>ir. snd (?g ir)) (enumerate 0 (p_rules p))))
      (\<Union>ir \<in> set (enumerate 0 (p_rules p)). {fst ir} \<times> UNIV)"
    by (rule accepts_concat [OF g(2) distinct_enumerate enumerate_keys_disjoint])
  then have "accepts (parse_route p) ms_routes (concat (map snd (map ?g (enumerate 0 (p_rules p))))) UNIV"
    by (auto intro: accepts_mono simp: comp_def)
  moreover have "rmapM (compile_producer p) (enumerate 0 (p_rules p)) = Inr (map ?g (enumerate 0 (p_rules p)))"
    by (rule rmapM_map) (rule g(1))
  ultimately show ?thesis by blast
qed


lemma parse_route_finishes: "parse_route p j ms = Inr ms' \<Longrightarrow> ms_finishes ms' = ms_finishes ms"
  by (auto simp: parse_route_def rbind_eq_Inr Let_def split: if_splits)

text \<open>
  C17. The runtime accepts what the compiler emits. For every well-formed program whose copies do not overwrite
  query inputs and whose sizes are machine integers, the emitter of the continuation plan returns a document,
  and the parser, which rechecks every point order, finish, route, stage entry and graft against the recipe,
  accepts it, whatever the environment. So no program is rejected for its own compiled plan.
\<close>

theorem emitted_stages_accepted:
  assumes "compilable p"
  shows "\<exists>doc plan. compile_multistage p = Inr doc \<and> parse_multistage env p doc = Inr plan \<and>
    length (ms_finishes plan) = length (p_rules p)"
proof -
  let ?ir = "jfield (p_artifact p) ''recipe''"
  from entries_accepted [OF assms] obtain es where
    es: "rmapM (\<lambda>(rid, r). rmap concat (rmapM (compile_entry p rid r) (enumerate 0 (r_query r)))) (enumerate 0 (p_rules p)) = Inr es"
      "accepts (parse_point_entry p) ms_entries (concat es) UNIV" by blast
  from routes_accepted [OF assms] obtain ps where
    ps: "rmapM (compile_producer p) (enumerate 0 (p_rules p)) = Inr ps" "accepts (parse_route p) ms_routes (concat (map snd ps)) UNIV" by blast
  from compile_stage_entries_parsed [OF assms] obtain st ss where
    st: "compile_stage_entries p = Inr (JArr st)" "rmapM parse_stage_entry st = Inr ss" by blast
  from compile_grafts_total [OF assms] obtain gs where gs: "compile_grafts p = Inr (JArr gs)" by blast
  from assms obtain sets where sets: "as_array (jfield ?ir ''rulesets'') = Some sets" by (auto simp: compilable_def)
  from finishes_accepted [OF assms] obtain ns fs where
    ns: "rmapM (compile_finish p) (p_rules p) = Inr ns" "length ns = length (p_rules p)"
      "rmapM (\<lambda>(rid, f). verify_points p rid None f) (enumerate 0 ns) = Inr fs" by blast
  let ?sets = "JArr (map (\<lambda>s. JObj [(''name'', jfield s ''name''), (''rule_ids'', jfield s ''rule_ids'')]) sets)"
  let ?doc = "JObj [(''contract'', stage_contract), (''control'', jfield ?ir ''control''),
       (''data_loaders'', nats_json (concat (map fst ps))), (''entries'', JArr (concat es)),
       (''finishes'', JArr ns), (''recipe_sha256'', jfield ?ir ''sha256''), (''routes'', JArr (concat (map snd ps))),
       (''rule_sets'', ?sets), (''schema'', JStr ''eggfuse-multistage/v1''), (''stage_entries'', JArr st), (''union_entries'', JArr gs)]"
  have doc: "compile_multistage p = Inr ?doc"
    by (simp add: compile_multistage_def es(1) ns(1) ps(1) sets st(1) gs Let_def)
  have f: "jfield ?doc ''union_entries'' = JArr gs" "jfield ?doc ''schema'' = JStr ''eggfuse-multistage/v1''"
    "jfield ?doc ''recipe_sha256'' = jfield ?ir ''sha256''" "jfield ?doc ''control'' = jfield ?ir ''control''" "jfield ?doc ''rule_sets'' = ?sets"
    "jfield ?doc ''stage_entries'' = JArr st" "jfield ?doc ''entries'' = JArr (concat es)" "jfield ?doc ''finishes'' = JArr ns"
    "jfield ?doc ''routes'' = JArr (concat (map snd ps))" by (simp_all add: jfield_def)
  let ?ms0 = "no_stages\<lparr>ms_stage_entries := ss\<rparr>"
  have "\<forall>k \<in> UNIV. ms_entries ?ms0 k = None" by (simp add: no_stages_def)
  from es(2) [unfolded accepts_def, rule_format, OF this [rule_format]] obtain ms1 where
    ms1: "rfold (parse_point_entry p) (concat es) ?ms0 = Inr ms1" by blast
  have "ms_routes ms1 = Map.empty"
    by (rule rfold_invariant [OF ms1]) (simp_all add: no_stages_def parse_point_entry_routes)
  then have free: "\<forall>k \<in> UNIV. ms_routes (ms1\<lparr>ms_finishes := fs\<rparr>) k = None" by simp
  from ps(2) [unfolded accepts_def, rule_format, OF free [rule_format]] obtain plan where
    plan: "rfold (parse_route p) (concat (map snd ps)) (ms1\<lparr>ms_finishes := fs\<rparr>) = Inr plan" by blast
  have "parse_multistage env p ?doc = Inr plan"
    unfolding parse_multistage_def check_union_entries_def check_stage_entries_def sets_json_def f
    by (simp add: gs st sets ns(2,3) ms1 plan j_array_def Let_def)
  moreover have "length (ms_finishes plan) = length (p_rules p)"
    by (rule rfold_invariant [OF plan, where P = "\<lambda>ms. length (ms_finishes ms) = length (p_rules p)"])
      (use rmapM_length [OF ns(3)] ns(2) in \<open>simp_all add: parse_route_finishes\<close>)
  ultimately show ?thesis using doc by blast
qed


text \<open>The program of \<open>stage_plan\<close> with its import templates: its compiled plan has the route through the copy.\<close>

definition emit_program :: program where
  "emit_program = stage_program\<lparr>
     p_templates := take 2 (p_templates stage_program) @ map (\<lambda>i. import_template i (p_tables stage_program ! i)) [0..<3],
     p_table_templates := [2, 3, 4]\<rparr>"

lemma emit_compilable: "compilable emit_program"
proof -
  have p: "p_rules emit_program = p_rules stage_program" "p_tables emit_program = p_tables stage_program"
    "p_table_templates emit_program = [2, 3, 4]" "p_sets emit_program = Map.empty"
    "p_artifact emit_program = JObj [(''recipe'', JObj [(''rulesets'', JArr [])])]"
    "p_templates emit_program = [stage_template producer_ops [2 \<mapsto> 0, 3 \<mapsto> 1, 4 \<mapsto> 2], stage_template [] Map.empty,
      import_template 0 (stage_table ''R'' False), import_template 1 (stage_table ''F'' True), import_template 2 (stage_table ''G'' True)]"
    by (simp_all add: emit_program_def stage_program_def upt_rec numeral_3_eq_3 numeral_2_eq_2)
  have r: "p_rules stage_program = [stage_rule 0 [\<lparr>a_call = CTable 0, a_args = [Slot 0, Slot 1]\<rparr>] [0, 1],
       stage_rule 1 [\<lparr>a_call = CTable 1, a_args = [Slot 0, Slot 1]\<rparr>, \<lparr>a_call = CTable 2, a_args = [Slot 1, Slot 2]\<rparr>] [0, 1, 2]]"
    "p_tables stage_program = [stage_table ''R'' False, stage_table ''F'' True, stage_table ''G'' True]"
    by (simp_all add: stage_program_def)
  have ssa: "ssa_defs producer_ops [2 \<mapsto> 0, 3 \<mapsto> 1, 4 \<mapsto> 2]"
    by (auto simp: ssa_defs_def producer_ops_def less_Suc_eq nth_Cons')
  have scoped: "well_scoped [stage_table ''R'' False, stage_table ''F'' True, stage_table ''G'' True] {0, 1}
      (stage_template producer_ops [2 \<mapsto> 0, 3 \<mapsto> 1, 4 \<mapsto> 2])"
    by (auto simp: well_scoped_def stage_template_def slots_in_def producer_ops_def stage_table_def defined_before_def less_Suc_eq)
  have rules: "wf_rule emit_program (p_rules emit_program ! i)" if "i < 2" for i
    using that scoped ssa by (auto simp: wf_rule_def p r less_Suc_eq numeral_2_eq_2 stage_rule_def Let_def stage_template_def
        ssa_defs_def [of "[]"] well_scoped_def [of _ _ "\<lparr>tm_name = _, tm_sorts = _, tm_defs = _, tm_ops = [], tm_parent_columns = _\<rparr>"]
        wf_query_atom_def slots_in_def stage_table_def)
  show ?thesis
    using rules by (auto simp: compilable_def wf_program_def p r less_Suc_eq stage_rule_def stage_template_def stage_table_def
        jfield_def Let_def producer_ops_def numeral_2_eq_2 numeral_3_eq_3)
qed

definition emitted_route :: "continuation option" where
  "emitted_route = (case compile_multistage emit_program of Inl _ \<Rightarrow> None | Inr doc \<Rightarrow>
     (case parse_multistage (\<lambda>_. None) emit_program doc of Inr ms \<Rightarrow> ms_routes ms (0, 0, 1, 0) | Inl _ \<Rightarrow> None))"

lemma emitted_route_value: "emitted_route = stage_route"
  unfolding stage_route_value by code_simp

lemma emitted_stages_accepted_witness:
  "\<exists>doc plan. compile_multistage emit_program = Inr doc \<and> parse_multistage (\<lambda>_. None) emit_program doc = Inr plan \<and>
     ms_routes plan (0, 0, 1, 0) = Some \<lparr>ct_producer = 0, ct_consumer = 1, ct_anchor = 0,
       ct_reads = [\<lparr>lr_atom = 1, lr_table = 2, lr_columns = [Slot 2, Slot 4], lr_effect = Some 2\<rparr>]\<rparr>"
proof -
  from emitted_stages_accepted [OF emit_compilable, of "\<lambda>_. None"] obtain doc plan where
    run: "compile_multistage emit_program = Inr doc" "parse_multistage (\<lambda>_. None) emit_program doc = Inr plan" by blast
  with emitted_route_value show ?thesis by (simp add: emitted_route_def stage_route_value)
qed

end
