(* ===== verification/SeedJoin.thy ===== *)
theory SeedJoin
  imports RouteCorrect
begin

text \<open>
  What the searches of a seed add to the bindings found so far: the join, and the fixed order of a merge
  program. Both add exactly the answers that extend the seed.
\<close>

section \<open>Adding answers\<close>

definition outcome :: "binding \<Rightarrow> (nat \<rightharpoonup> val) \<times> nat" where
  "outcome b = (bd_values b, bd_epoch b)"

definition finds :: "graph \<Rightarrow> found \<Rightarrow> found \<Rightarrow> ((nat \<rightharpoonup> val) \<times> nat) set \<Rightarrow> bool" where
  "finds g st st' A \<longleftrightarrow> indexes_ok g (fst st') \<and> (\<exists>bs. snd st' = snd st @ bs \<and> outcome ` set bs = A)"

lemma finds_none: "indexes_ok g q \<Longrightarrow> finds g st (q, snd st) {}"
  by (simp add: finds_def)

lemma finds_one: "indexes_ok g q \<Longrightarrow> finds g st (q, snd st @ [b]) {outcome b}"
  by (simp add: finds_def)

lemma finds_trans:
  assumes "finds g st st1 A" "finds g st1 st2 B"
  shows "finds g st st2 (A \<union> B)"
proof -
  from assms obtain bs cs where "snd st1 = snd st @ bs" "outcome ` set bs = A" "snd st2 = snd st1 @ cs" "outcome ` set cs = B"
    by (auto simp: finds_def)
  then have "snd st2 = snd st @ (bs @ cs) \<and> outcome ` set (bs @ cs) = A \<union> B" by (simp add: image_Un)
  with assms(2) show ?thesis unfolding finds_def by blast
qed

lemma finds_start: "finds g (q, snd st) st' A \<Longrightarrow> finds g st st' A"
  by (simp add: finds_def)

lemma finds_ok: "finds g st st' A \<Longrightarrow> indexes_ok g (fst st')"
  by (simp add: finds_def)

text \<open>A loop finds what its turns find; the workspace is handed on unchanged.\<close>

lemma finds_loop:
  assumes "rfold f xs (e, st) = Inr (e', st')" "indexes_ok g (fst st)"
    and turn: "\<And>x st e' st'. x \<in> set xs \<Longrightarrow> indexes_ok g (fst st) \<Longrightarrow> f x (e, st) = Inr (e', st') \<Longrightarrow> e' = e \<and> finds g st st' (B x)"
  shows "e' = e \<and> finds g st st' (\<Union>x \<in> set xs. B x)"
  using assms
proof (induction xs arbitrary: st)
  case (Cons x xs)
  then obtain e1 st1 where x: "f x (e, st) = Inr (e1, st1)" "rfold f xs (e1, st1) = Inr (e', st')"
    by (auto simp: rbind_eq_Inr)
  with Cons.prems(3) [OF _ Cons.prems(2) x(1)] have one: "e1 = e" "finds g st st1 (B x)" by auto
  have "e' = e \<and> finds g st1 st' (\<Union>x \<in> set xs. B x)"
    by (rule Cons.IH [OF x(2) [unfolded one(1)] finds_ok [OF one(2)]]) (rule Cons.prems(3), simp_all)
  with finds_trans [OF one(2)] show ?case by auto
qed (simp add: finds_def)

corollary finds_fold:
  assumes "rfold f xs st = Inr st'" "indexes_ok g (fst st)"
    and turn: "\<And>x st st'. x \<in> set xs \<Longrightarrow> indexes_ok g (fst st) \<Longrightarrow> f x st = Inr st' \<Longrightarrow> finds g st st' (B x)"
  shows "finds g st st' (\<Union>x \<in> set xs. B x)"
proof -
  have "rfold (\<lambda>x (u, st). rmap (Pair u) (f x st)) xs ((), st) = rmap (Pair ()) (rfold f xs st)"
    by (rule rfold_fixed) simp
  with assms(1) have "rfold (\<lambda>x (u, st). rmap (Pair u) (f x st)) xs ((), st) = Inr ((), st')" by simp
  from finds_loop [OF this assms(2), of B] turn show ?thesis by (auto simp: rmap_def rbind_eq_Inr)
qed

section \<open>The join\<close>

lemma join_finds:
  assumes "keyed g" "atoms_ok g query" "clean remaining e" "indexes_ok g (fst st)"
    and "solve_inner Columns g query d remaining e epoch st = Inr (e', st')"
  shows "e' = e \<and> finds g st st' (answers g d query (waiting remaining) (ev_values e) epoch)"
proof -
  from assms(5) have s: "search (pending remaining) Columns g query d remaining e epoch st = Inr st'" and e: "e' = e"
    unfolding matcher_is_search [OF assms(3)] by (auto simp: rmap_def rbind_eq_Inr)
  from indexed.search_answers [OF assms(1,2) s refl assms(4)] e show ?thesis
    by (auto simp: finds_def outcome_def)
qed

section \<open>The answers of a row\<close>

lemma answers_row:
  assumes "finite todo" "i \<in> todo" "a_call (query ! i) = CTable t" "visible g t r" "\<not> delta_blocks d i r"
    and l: "length (a_args (query ! i)) = length (rw_values r)"
  shows "{(m, latest epoch rows) | m rows. answer g d query todo m0 m rows \<and> rows i = Some r} =
    (\<Union>m1 \<in> {m1. binds g m0 (zip (a_args (query ! i)) (rw_values r)) m1}.
      answers g d query (todo - {i}) m1 (max epoch (rw_epoch r)))" (is "?L = ?R")
proof (intro set_eqI iffI)
  fix x assume "x \<in> ?L"
  then obtain m rows where x: "x = (m, latest epoch rows)" and a: "answer g d query todo m0 m rows" "rows i = Some r"
    by blast
  from a assms(2) have "atom_true g d i (query ! i) m (Some r)" by (metis answer_def)
  then have "fits g m (zip (a_args (query ! i)) (rw_values r))"
    using assms(3) l by (simp add: atom_true_def table_true_def fits_zip)
  moreover have "m0 \<subseteq>\<^sub>m m" using a(1) by (simp add: answer_def)
  ultimately obtain m1 where m1: "binds g m0 (zip (a_args (query ! i)) (rw_values r)) m1" using binds_exists by blast
  let ?rows = "rows(i := None)"
  have upd: "rows = ?rows(i \<mapsto> r)" using a(2) by auto
  have "answer g d query (todo - {i}) m1 m ?rows"
    using answer_table [OF assms(2,3) m1 l assms(4,5), of ?rows m] a(1) upd by simp
  moreover have "finite (ran ?rows)" using a(1) assms(1) by (intro finite_rows [of todo]) (auto simp: answer_def)
  then have "latest epoch rows = latest (max epoch (rw_epoch r)) ?rows" by (subst upd) (simp add: latest_upd)
  ultimately show "x \<in> ?R" using x m1 by (auto simp: answers_def)
next
  fix x assume "x \<in> ?R"
  then obtain m1 m rows where m1: "binds g m0 (zip (a_args (query ! i)) (rw_values r)) m1"
    and a: "answer g d query (todo - {i}) m1 m rows" and x: "x = (m, latest (max epoch (rw_epoch r)) rows)"
    by (auto simp: answers_def)
  have n: "rows i = None" using a by (auto simp: answer_def)
  then have upd: "rows(i := None) = rows" by auto
  have "finite (ran rows)" using a assms(1) by (intro finite_rows [of todo]) (auto simp: answer_def)
  then have "latest epoch (rows(i \<mapsto> r)) = latest (max epoch (rw_epoch r)) rows"
    using latest_upd [of rows i epoch r] upd by simp
  moreover have "answer g d query todo m0 m (rows(i \<mapsto> r))"
    using answer_table [where rows = rows, OF assms(2,3) m1 l assms(4,5) n] a by simp
  ultimately show "x \<in> ?L" using x by (metis (mono_tags, lifting) fun_upd_same mem_Collect_eq)
qed

text \<open>What binding the row to the atom leaves to be answered.\<close>

lemma row_bound:
  assumes "bind_all g (zip (a_args (query ! i)) (rw_values r)) e = (e1, ok)"
  shows "(\<Union>m1 \<in> {m1. binds g (ev_values e) (zip (a_args (query ! i)) (rw_values r)) m1}. A m1) = (if ok then A (ev_values e1) else {})"
proof (cases ok)
  case True
  with bind_all_meaning [OF assms] have "binds g (ev_values e) (zip (a_args (query ! i)) (rw_values r)) (ev_values e1)" by simp
  then have "{m1. binds g (ev_values e) (zip (a_args (query ! i)) (rw_values r)) m1} = {ev_values e1}"
    by (auto intro: binds_unique)
  with True show ?thesis by simp
next
  case False
  with bind_all_meaning [OF assms] show ?thesis by (auto simp: unfit_def binds_def)
qed

section \<open>A fixed order\<close>

lemma present_rows_set: "present_rows g ws = Inr rows \<Longrightarrow> set rows = {r. \<exists>w \<in> set ws. row_of g w = Inr (Some r)}"
  by (induction ws arbitrary: rows) (auto simp: rbind_eq_Inr split: option.splits)

lemma port_rows_found:
  assumes "keyed g" "a_args a \<noteq> []" "length (a_args a) = arity g t" "indexes_ok g q" "port_rows g t a e q = Inr (q', rows)"
  shows "indexes_ok g q'"
    and "r \<in> set rows \<Longrightarrow> \<not> rw_hidden r \<Longrightarrow> visible g t r"
    and "visible g t r \<Longrightarrow> ev_values e \<subseteq>\<^sub>m m \<Longrightarrow> map (arg_in g m) (a_args a) = map Some (rw_values r) \<Longrightarrow> r \<in> set rows"
proof -
  from assms(5) obtain k where k: "full_key g e a = Inr k" and run: "(case k of
      Some key \<Rightarrow> rbind (lookup g t key) (\<lambda>r. Inr (q, case r of None \<Rightarrow> [] | Some r \<Rightarrow> [r]))
    | None \<Rightarrow> (case arg_in g (ev_values e) (last (a_args a)) of
            Some (VEq x) \<Rightarrow>
              rbind (index_candidates g t (replicate (length (a_args a) - 1) None @ [Some (VEq x)]) q) (\<lambda>(q1, ws).
              rbind (present_rows g ws) (\<lambda>rs. Inr (q1, rs)))
          | _ \<Rightarrow> Inl (Err ''merge port has no fixed key or output''))) = Inr (q', rows)"
    using assms(5) unfolding port_rows_def env_operand_arg rbind_eq_Inr by blast
  have "indexes_ok g q' \<and> (r \<in> set rows \<longrightarrow> \<not> rw_hidden r \<longrightarrow> visible g t r) \<and>
    (visible g t r \<longrightarrow> ev_values e \<subseteq>\<^sub>m m \<longrightarrow> map (arg_in g m) (a_args a) = map Some (rw_values r) \<longrightarrow> r \<in> set rows)"
  proof (cases k)
    case (Some key)
    with run obtain s where s: "lookup g t key = Inr s" "q' = q" "rows = (case s of None \<Rightarrow> [] | Some r \<Rightarrow> [r])"
      by (auto simp: rbind_eq_Inr)
    have "r \<in> set rows" if "visible g t r" "ev_values e \<subseteq>\<^sub>m m" "map (arg_in g m) (a_args a) = map Some (rw_values r)"
    proof -
      have "key = butlast (rw_values r)" using full_key_Some [OF k [unfolded Some] that(2,3)] .
      with keyed_row(3) [OF assms(1) that(1)] s(1) have "s = Some r" by simp
      then show ?thesis by (simp add: s(3))
    qed
    then show ?thesis
      using assms(4) s keyed_lookup(2) [OF assms(1)] by (auto split: option.splits)
  next
    case None
    with run obtain x ws where x: "arg_in g (ev_values e) (last (a_args a)) = Some (VEq x)"
      and ws: "index_candidates g t (replicate (length (a_args a) - 1) None @ [Some (VEq x)]) q = Inr (q', ws)"
        "present_rows g ws = Inr rows"
      by (auto simp: rbind_eq_Inr split: option.splits val.splits)
    have tc: "table_candidates Columns g t (replicate (length (a_args a) - 1) None @ [Some (VEq x)]) q = Inr (q', ws)"
      using ws(1) by (simp add: table_candidates_def)
    note set = present_rows_set [OF ws(2)]
    have "visible g t r" if r: "r \<in> set rows" "\<not> rw_hidden r"
    proof -
      from r(1) set obtain w where w: "w \<in> set ws" "row_of g w = Inr (Some r)" by blast
      from visibleI [OF indexed.sound [OF assms(4) tc w(1)] w(2) r(2)] show ?thesis by simp
    qed
    moreover have "r \<in> set rows"
      if v: "visible g t r" "ev_values e \<subseteq>\<^sub>m m" "map (arg_in g m) (a_args a) = map Some (rw_values r)"
    proof -
      have l: "length (a_args a) = length (rw_values r)" using arg_cong [OF v(3), of length] by simp
      have "arg_in g m (last (a_args a)) = Some (last (rw_values r))"
        using arg_cong [OF v(3), of last] assms(2) l by (simp add: last_map) (metis last_map length_0_conv)
      with arg_in_mono [OF v(2) x] have "last (rw_values r) = VEq x" by simp
      then have "agrees (replicate (length (a_args a) - 1) None @ [Some (VEq x)]) (rw_values r)"
        using l assms(2) by (cases "rw_values r" rule: rev_cases) (auto simp: agrees_def nth_append)
      from indexed.complete [OF assms(4) tc v(1) this] v(1) show ?thesis unfolding set by (auto simp: visible_def)
    qed
    ultimately show ?thesis using indexed.keeps [OF assms(4) tc] by blast
  qed
  then show "indexes_ok g q'" "r \<in> set rows \<Longrightarrow> \<not> rw_hidden r \<Longrightarrow> visible g t r"
    "visible g t r \<Longrightarrow> ev_values e \<subseteq>\<^sub>m m \<Longrightarrow> map (arg_in g m) (a_args a) = map Some (rw_values r) \<Longrightarrow> r \<in> set rows"
    by blast+
qed

lemma merge_points_finds:
  assumes "keyed g" "atoms_ok g query" "merge_points g query order d e epoch st = Inr (e', st')" "indexes_ok g (fst st)"
    and "distinct order" "\<forall>i \<in> set order. unset i e"
  shows "e' = e \<and> finds g st st' (answers g d query (set order) (ev_values e) epoch)"
  using assms(3-6)
proof (induction order arbitrary: e epoch st e' st')
  case Nil
  then have "e' = e" "st' = (fst st, snd st @ [binding_of e epoch True])" by auto
  moreover have "outcome (binding_of e epoch True) = (ev_values e, epoch)" by (simp add: outcome_def binding_of_def)
  ultimately show ?case using finds_one [OF Nil(2), of st "binding_of e epoch True"] by (simp add: answers_done)
next
  case (Cons i order)
  let ?a = "query ! i" and ?mark = "length (ev_trail e)"
  let ?A = "\<lambda>m epoch. answers g d query (set order) m epoch"
  have rest: "set (i # order) - {i} = set order" using Cons.prems(3) by auto
  from Cons.prems(1) have i: "i < length query" by (auto simp: rbind_eq_Inr idx_eq_Inr)
  note a = atoms_okD [OF assms(2) i]
  have undone: "env_record i None (env_record i w e1) = e1" if "extends e e1" for w e1
    using Cons.prems(4) unset_extends [OF that] by (intro record_back) simp
  have clean: "\<forall>j \<in> set order. unset j e1" if "extends e e1" for e1
    using Cons.prems(4) unset_extends [OF that] by simp
  show ?case
  proof (cases "a_call ?a")
    case (CPrim name out)
    from Cons.prems(1) CPrim i obtain vals v e2 where vals: "guard_inputs g e ?a = Inr vals"
      and v: "primitive (g_host g) name vals out (key_nodes g) = Inr v"
      and run: "(case v of None \<Rightarrow> Inr (e, st)
         | Some v \<Rightarrow> case bind g (last (a_args ?a)) v e of (e1, ok) \<Rightarrow>
             if ok then merge_points g query order d e1 epoch st else Inr (e1, st)) = Inr (e2, st')"
      and e': "e' = rollback ?mark e2"
      by (auto simp: rbind_eq_Inr idx_eq_Inr Let_def)
    have m: "map (arg_in g (ev_values e)) (butlast (a_args ?a)) = map Some vals"
      using vals a by (simp add: guard_inputs_def rmapM_ok_or)
    note A = answers_prim [where d = d and epoch = epoch and todo = "set (i # order)", OF _ CPrim _ m, unfolded rest]
    show ?thesis
    proof (cases v)
      case None
      with A v a have "answers g d query (set (i # order)) (ev_values e) epoch = {}" by simp
      with None run e' finds_none [OF Cons.prems(2), of st] show ?thesis
        using rollback_restores [of e e] by simp
    next
      case (Some x)
      obtain e1 okb where b: "bind g (last (a_args ?a)) x e = (e1, okb)" by (cases "bind g (last (a_args ?a)) x e")
      note bm = bind_meaning [OF b] and ex = extends_bind [OF b]
      show ?thesis
      proof (cases okb)
        case True
        with bm have bi: "binds g (ev_values e) [(last (a_args ?a), x)] (ev_values e1)" by simp
        have "{m1. \<exists>v. primitive (g_host g) name vals out (key_nodes g) = Inr (Some v) \<and>
            binds g (ev_values e) [(last (a_args ?a), v)] m1} = {ev_values e1}"
          using v Some bi by (auto dest: binds_unique [OF bi])
        then have "answers g d query (set (i # order)) (ev_values e) epoch = ?A (ev_values e1) epoch"
          using A a by simp
        moreover have "merge_points g query order d e1 epoch st = Inr (e2, st')" using run Some b True by simp
        from Cons.IH [OF this Cons.prems(2) _ clean [OF ex]] Cons.prems(3)
        have "e2 = e1 \<and> finds g st st' (?A (ev_values e1) epoch)" by simp
        ultimately show ?thesis using e' rollback_restores [OF ex] by simp
      next
        case False
        with bm have "unfit g (ev_values e) [(last (a_args ?a), x)]" by simp
        then have "answers g d query (set (i # order)) (ev_values e) epoch = {}"
          using A v Some a by (auto simp: unfit_def binds_def)
        with run Some b False e' finds_none [OF Cons.prems(2), of st] show ?thesis
          using rollback_restores [OF ex] by auto
      qed
    qed
  next
    case (CTable t)
    let ?turn = "\<lambda>r (e, st).
       if rw_hidden r \<or> delta_blocks d i r then Inr (e, st)
       else
         let (e1, ok) = bind_all g (zip (a_args ?a) (rw_values r)) e in
         rbind (if ok then
             rbind (merge_points g query order d (env_record i (Some (rw_witness r)) e1) (max epoch (rw_epoch r)) st)
               (\<lambda>(e2, st2). Inr (env_record i None e2, st2))
           else Inr (e1, st)) (\<lambda>(e2, st2). Inr (rollback ?mark e2, st2))"
    let ?from = "\<lambda>r. {m1. \<not> rw_hidden r \<and> \<not> delta_blocks d i r \<and> binds g (ev_values e) (zip (a_args ?a) (rw_values r)) m1}"
    let ?B = "\<lambda>r. \<Union>m1 \<in> ?from r. ?A m1 (max epoch (rw_epoch r))"
    from Cons.prems(1) CTable i obtain q1 rows e2 where pr: "port_rows g t ?a e (fst st) = Inr (q1, rows)"
      and run: "rfold ?turn rows (e, (q1, snd st)) = Inr (e2, st')" and e': "e' = rollback ?mark e2"
      by (auto simp: rbind_eq_Inr idx_eq_Inr Let_def)
    note found = port_rows_found [OF assms(1) _ _ Cons.prems(2) pr]
    have turn: "e3 = e \<and> finds g s s' (?B r)" if "indexes_ok g (fst s)" "?turn r (e, s) = Inr (e3, s')" for r s e3 s'
    proof (cases "rw_hidden r \<or> delta_blocks d i r")
      case True
      with that finds_none [OF that(1), of s] show ?thesis by auto
    next
      case False
      obtain e1 okb where b: "bind_all g (zip (a_args ?a) (rw_values r)) e = (e1, okb)"
        by (cases "bind_all g (zip (a_args ?a) (rw_values r)) e")
      note ex = extends_bind_all [OF b]
      have B: "?B r = (if okb then ?A (ev_values e1) (max epoch (rw_epoch r)) else {})"
        using row_bound [OF b, of "\<lambda>m. ?A m (max epoch (rw_epoch r))"] False by simp
      show ?thesis
      proof (cases okb)
        case True
        with that(2) False b obtain e2 where
          "merge_points g query order d (env_record i (Some (rw_witness r)) e1) (max epoch (rw_epoch r)) s = Inr (e2, s')"
          "e3 = rollback ?mark (env_record i None e2)" by (auto simp: rbind_eq_Inr)
        note run = this
        have "\<forall>j \<in> set order. unset j (env_record i (Some (rw_witness r)) e1)"
          using clean [OF ex] Cons.prems(3) by (auto intro: unset_record)
        with Cons.IH [OF run(1) that(1)] Cons.prems(3)
        have "e2 = env_record i (Some (rw_witness r)) e1 \<and> finds g s s' (?A (ev_values e1) (max epoch (rw_epoch r)))"
          by (simp add: env_record_def)
        then show ?thesis using run(2) B True undone [OF ex] rollback_restores [OF ex] by simp
      next
        case nofit: False
        with that False b finds_none [OF that(1), of s] show ?thesis
          using B rollback_restores [OF ex] by auto
      qed
    qed
    have "e2 = e \<and> finds g (q1, snd st) st' (\<Union>r \<in> set rows. ?B r)"
      by (rule finds_loop [OF run]) (use found(1) a CTable turn in simp_all)
    moreover have "(\<Union>r \<in> set rows. ?B r) = answers g d query (set (i # order)) (ev_values e) epoch"
    proof -
      have l: "length (a_args ?a) = length (rw_values r)" if "visible g t r" for r
        using keyed_row(2) [OF assms(1) that] a CTable by simp
      have "(SIGMA r : set rows. ?from r) = {(r, m1). visible g t r \<and> \<not> delta_blocks d i r \<and>
          length (a_args ?a) = length (rw_values r) \<and> binds g (ev_values e) (zip (a_args ?a) (rw_values r)) m1}"
        (is "?L = ?R")
      proof (intro set_eqI iffI)
        fix x assume "x \<in> ?L"
        then show "x \<in> ?R" using found(2) l a CTable by auto
      next
        fix x assume "x \<in> ?R"
        then obtain r m1 where x: "x = (r, m1)" "visible g t r" "\<not> delta_blocks d i r"
          "length (a_args ?a) = length (rw_values r)" "binds g (ev_values e) (zip (a_args ?a) (rw_values r)) m1" by auto
        have "r \<in> set rows"
          using x(5) a CTable by (intro found(3) [OF _ _ x(2), of m1]) (simp_all add: binds_def fits_zip [OF x(4)])
        with x show "x \<in> ?L" by (auto simp: visible_def)
      qed
      note R = this
      have "answers g d query (set (i # order)) (ev_values e) epoch =
          (\<Union>(r, m1) \<in> ?L. ?A m1 (max epoch (rw_epoch r)))"
        unfolding R rest [symmetric] by (rule answers_table [OF _ _ CTable]) auto
      then show ?thesis by auto
    qed
    ultimately show ?thesis using e' rollback_restores [of e e] by (auto intro: finds_start)
  qed
qed

end
