(* ===== verification/RuleMatch.thy ===== *)
theory RuleMatch
  imports Multistage
begin

text \<open>
  The executor of \<open>engine/cell-runtime/src/runtime.rs\<close> and how it matches one rule: \<open>new\<close>, \<open>deliver\<close>,
  \<open>matches\<close> and \<open>probe\<close>. The optional features that an environment variable has to switch on (refutation,
  search contexts, local saturation, the sieve, stage programs, entry schedules, retained contexts, union
  grafts, compositions) are off, and counters and profiles are left out.
\<close>

section \<open>The executor\<close>

record settings =
  se_indexed :: bool
  se_columns :: bool
  se_delta :: bool
  se_multistage :: bool
  se_points :: bool
  se_projections :: bool
  se_scope :: "string option"

definition settings_of :: "(string \<Rightarrow> string option) \<Rightarrow> settings" where
  "settings_of env =
     (let mode = env_is env ''CELL_CPU_QUERY_MODE''; on = (\<lambda>name. \<not> env_is env name ''0'') in
      \<lparr>se_indexed = \<not> mode ''scan'', se_columns = \<not> mode ''reverse'', se_delta = \<not> mode ''scan'' \<and> \<not> mode ''indexed'',
       se_multistage = on ''CELL_CPU_MULTISTAGE'', se_points = on ''CELL_CPU_ENTRY_PROGRAMS'',
       se_projections = on ''CELL_CPU_LOCAL_PROJECTIONS'',
       se_scope = env ''CELL_CPU_QUERY_INDEX_SCOPE''\<rparr>)"

lemma default_settings: "settings_of (\<lambda>_. None) = \<lparr>se_indexed = True, se_columns = True, se_delta = True, se_multistage = True,
    se_points = True, se_projections = True, se_scope = None\<rparr>"
  by (simp add: settings_of_def env_is_def Let_def)

definition access_of :: "settings \<Rightarrow> access" where
  "access_of s = (if \<not> se_indexed s then Scan else if se_columns s then Columns else Reverse)"

text \<open>
  The plan is the field \<open>multi_stage\<close> of the program. A pending set holds the changed rows that a rule has
  not matched yet; a watermark is the epoch of the rule's last run.
\<close>

record executor =
  x_graph :: graph
  x_plan :: multi_stage
  x_settings :: settings
  x_watermarks :: "nat list"
  x_dirty :: "nat set"
  x_pending :: "dependency set list"
  x_readers :: "nat list list"
  x_indexes :: query_indexes

text \<open>Which rules read a table, each once, in rule order.\<close>

definition reads_table :: "rule \<Rightarrow> nat \<Rightarrow> bool" where
  "reads_table r t \<longleftrightarrow> CTable t \<in> a_call ` set (r_query r)"

definition readers_of :: "program \<Rightarrow> nat list list" where
  "readers_of p = map (\<lambda>t. filter (\<lambda>rid. reads_table (p_rules p ! rid) t) [0..<length (p_rules p)]) [0..<length (p_tables p)]"

text \<open>\<open>deliver\<close>: every event is handed to the readers of its table.\<close>

definition notify :: "nat \<Rightarrow> dependency \<Rightarrow> executor \<Rightarrow> executor res" where
  "notify rid w x =
     rbind (idx (p_rules (g_program (x_graph x))) rid) (\<lambda>r.
     rbind (idx (x_pending x) rid) (\<lambda>ws.
     Inr (x\<lparr>x_dirty := insert rid (x_dirty x),
       x_pending := (if r_direct r \<noteq> None \<or> se_delta (x_settings x) then (x_pending x)[rid := insert w ws] else x_pending x)\<rparr>)))"

definition deliver_event :: "dependency \<Rightarrow> executor \<Rightarrow> executor res" where
  "deliver_event w x =
     rbind (live_table (x_graph x) w) (\<lambda>t. case t of
       None \<Rightarrow> Inr x
     | Some t \<Rightarrow> rbind (idx (x_readers x) t) (\<lambda>rs. rfold (\<lambda>rid. notify rid w) rs x))"

definition deliver :: "executor \<Rightarrow> executor res" where
  "deliver x = rfold deliver_event (sorted_list_of_set (set (g_events (x_graph x))))
     (x\<lparr>x_graph := (x_graph x)\<lparr>g_events := []\<rparr>\<rparr>)"

text \<open>\<open>Executor::new\<close> starts with every rule dirty; the indexes are empty.\<close>

definition executor_new :: "(string \<Rightarrow> string option) \<Rightarrow> multi_stage \<Rightarrow> query_indexes \<Rightarrow> graph \<Rightarrow> executor res" where
  "executor_new env plan q g =
     (let n = length (p_rules (g_program g)) in
      rbind (deliver \<lparr>x_graph = g, x_plan = plan, x_settings = settings_of env, x_watermarks = replicate n 0,
        x_dirty = {..<n}, x_pending = replicate n {}, x_readers = readers_of (g_program g), x_indexes = q\<rparr>) (\<lambda>x.
      Inr (x\<lparr>x_graph := (x_graph x)\<lparr>g_query_changes := Map.empty\<rparr>\<rparr>)))"

section \<open>The workspace of a rule\<close>

definition rule_layout :: "graph \<Rightarrow> rule \<Rightarrow> layout option" where
  "rule_layout g r = v_layouts (p_views (g_program g)) (r_template r)"

definition reference_rule :: "graph \<Rightarrow> rule \<Rightarrow> bool" where
  "reference_rule g r = (case rule_layout g r of None \<Rightarrow> False | Some l \<Rightarrow> l_reference_only l)"

definition witness_slots :: "graph \<Rightarrow> rule \<Rightarrow> bool \<Rightarrow> nat" where
  "witness_slots g r probe =
     (if g_views_enabled g \<and> \<not> probe \<and>
         (case rule_layout g r of None \<Rightarrow> False
          | Some l \<Rightarrow> l_carriers l \<noteq> [] \<and> (g_absorption_enabled g \<or> l_reference_only l \<and> \<not> g_marker_fields_copied g))
      then length (r_query r) else 0)"

definition know_query :: "graph \<Rightarrow> nat \<Rightarrow> bool" where
  "know_query g rid \<longleftrightarrow> g_known_mode g \<in> {KObserve, KOn} \<and> rid \<in> kp_queries (p_known_results (g_program g))"

definition workspace :: "graph \<Rightarrow> nat \<Rightarrow> rule \<Rightarrow> bool \<Rightarrow> env res" where
  "workspace g rid r probe =
     rbind (idx (g_templates g) (r_template r)) (\<lambda>_.
     Inr (env_new (witness_slots g r probe) (\<not> g_marker_fields_copied g \<and> reference_rule g r)
       (if know_query g rid then length (r_query r) else 0)))"

section \<open>Completing a seed\<close>

definition run_entry :: "executor \<Rightarrow> atom list \<Rightarrow> delta \<Rightarrow> bool \<Rightarrow> nat list option \<Rightarrow> narrowing \<Rightarrow> (bool \<times> narrowing) res" where
  "run_entry x query d backward order st =
     (if se_multistage (x_settings x) \<and> se_points (x_settings x)
      then (case order of None \<Rightarrow> Inr (True, st) | Some ps \<Rightarrow> points (x_graph x) query d backward ps st)
      else Inr (True, st))"

text \<open>When no atom is left the binding is complete; otherwise the join completes it.\<close>

definition complete_seed :: "executor \<Rightarrow> atom list \<Rightarrow> delta \<Rightarrow> narrowing \<Rightarrow> binding list \<Rightarrow> found res" where
  "complete_seed x query d st out =
     (if se_multistage (x_settings x) \<and> True \<notin> set (nw_remaining st)
      then Inr (nw_indexes st, out @ [binding_of (nw_env st) (nw_epoch st) True])
      else rmap snd (solve_inner (access_of (x_settings x)) (x_graph x) query d (nw_remaining st) (nw_env st)
        (nw_epoch st) (nw_indexes st, out)))"

definition seed_start :: "atom list \<Rightarrow> nat \<Rightarrow> row \<Rightarrow> env \<Rightarrow> query_indexes \<Rightarrow> narrowing" where
  "seed_start query pivot row e q = \<lparr>nw_env = env_record pivot (Some (rw_witness row)) e,
     nw_remaining = map (\<lambda>i. i \<noteq> pivot) [0..<length query], nw_epoch = rw_epoch row, nw_indexes = q\<rparr>"

text \<open>Keep the first bindings, change the new ones.\<close>

definition on_new :: "nat \<Rightarrow> ('a list \<Rightarrow> 'a list res) \<Rightarrow> 'a list \<Rightarrow> 'a list res" where
  "on_new n f out = rmap (\<lambda>bs. take n out @ bs) (f (drop n out))"

section \<open>Rules with one fact\<close>

definition mark_origin :: "executor \<Rightarrow> nat \<Rightarrow> nat \<Rightarrow> row \<Rightarrow> fact_ref \<Rightarrow> binding \<Rightarrow> binding res" where
  "mark_origin x rid anchor row f b =
     (let b1 = (case rw_witness row of DFact _ \<Rightarrow> b\<lparr>bd_parent := Some f\<rparr> | DFunction _ \<Rightarrow> b) in
      rbind (ok_or (continuation_context (x_graph x) (rw_witness row)) (Err ''missing continuation context'')) (\<lambda>cx.
      if \<not> se_multistage (x_settings x) then Inr b1
      else case ms_routes (x_plan x) (cx_template cx, cx_op cx, rid, anchor) of
        None \<Rightarrow> Inr b1
      | Some route \<Rightarrow>
          if cx_depth cx + 1 \<ge> 2 ^ 32 then Inl (Err ''recipe depth exhausted'')
          else Inr (b1\<lparr>bd_continuation := Some (ct_producer route, cx_depth cx + 1, False)\<rparr>)))"

definition direct_row :: "executor \<Rightarrow> nat \<Rightarrow> rule \<Rightarrow> bool \<Rightarrow> nat \<Rightarrow> row \<Rightarrow> found \<Rightarrow> found res" where
  "direct_row x rid r probe anchor row st =
     rbind (workspace (x_graph x) rid r probe) (\<lambda>e0.
     let (e, ok) = bind_all (x_graph x) (zip (a_args (r_query r ! anchor)) (rw_values row)) e0 in
     if \<not> ok then Inr st
     else
       rbind (run_entry x (r_query r) None False (ms_entries (x_plan x) (rid, anchor))
         (seed_start (r_query r) anchor row e (fst st))) (\<lambda>(live, st1).
       if \<not> live then Inr (nw_indexes st1, snd st)
       else
         rbind (complete_seed x (r_query r) None st1 (snd st)) (\<lambda>(q, out).
         case origin (x_graph x) (rw_witness row) of
           None \<Rightarrow> Inr (q, out)
         | Some f \<Rightarrow> rmap (Pair q) (on_new (length (snd st)) (rmapM (mark_origin x rid anchor row f)) out))))"

definition direct_seed :: "executor \<Rightarrow> nat \<Rightarrow> rule \<Rightarrow> bool \<Rightarrow> nat \<Rightarrow> dependency \<Rightarrow> found \<Rightarrow> found res" where
  "direct_seed x rid r probe anchor w st =
     rbind (row_of (x_graph x) w) (\<lambda>row. case row of
       None \<Rightarrow> Inr st
     | Some row \<Rightarrow>
         if rw_hidden row \<or> \<not> probe \<and> r_seminaive r \<and> rw_epoch row < x_watermarks x ! rid then Inr st
         else direct_row x rid r probe anchor row st)"

section \<open>Seeds\<close>

definition merge_order :: "graph \<Rightarrow> nat \<Rightarrow> nat \<Rightarrow> nat list option" where
  "merge_order g rid pivot =
     (if g_merge_programs_enabled g then mp_entries (p_merge_programs (g_program g)) (rid, pivot) else None)"

text \<open>
  Narrowing of a seed: the entry program forwards, the producer's own facts, the entry program with inverse
  reads, and the finish when no table is left. The result also says where the seed came from and whether a
  table was left.
\<close>

definition narrow_seed :: "executor \<Rightarrow> nat \<Rightarrow> atom list \<Rightarrow> nat \<Rightarrow> row \<Rightarrow> narrowing
    \<Rightarrow> (bool \<times> narrowing \<times> (nat \<times> nat) option \<times> bool) res" where
  "narrow_seed x rid query pivot row st =
     (let d = seed_delta pivot row; s = x_settings x; order = ms_entries (x_plan x) (rid, pivot) in
      rbind (run_entry x query d False order st) (\<lambda>(live, st).
      if \<not> live then Inr (False, st, None, False)
      else
        rbind (continue_local (x_graph x) (ms_routes (x_plan x)) (se_multistage s \<and> se_projections s) query rid pivot row st)
          (\<lambda>(live, st, src).
        if \<not> live then Inr (False, st, None, False)
        else
          rbind (run_entry x query d True order st) (\<lambda>(live, st).
          if \<not> live then Inr (False, st, None, False)
          else
            let residual = (\<exists>i \<in> set [0..<length (nw_remaining st)]. nw_remaining st ! i \<and> is_table (query ! i)) in
            rbind (if residual then Inr (True, st)
              else run_entry x query d False (get_at (ms_finishes (x_plan x)) rid) st) (\<lambda>(live, st).
            Inr (live, st, src, residual))))))"

definition mark_continuation :: "(nat \<times> nat) option \<Rightarrow> bool \<Rightarrow> binding \<Rightarrow> binding" where
  "mark_continuation src residual b =
     (case src of None \<Rightarrow> b | Some (p, d) \<Rightarrow> b\<lparr>bd_continuation := Some (p, d, residual)\<rparr>)"

definition pivot_seed :: "executor \<Rightarrow> nat \<Rightarrow> rule \<Rightarrow> nat \<Rightarrow> row \<Rightarrow> found \<Rightarrow> found res" where
  "pivot_seed x rid r pivot row st =
     rbind (workspace (x_graph x) rid r False) (\<lambda>e0.
     let g = x_graph x; query = r_query r; d = seed_delta pivot row;
         (e, ok) = bind_all g (zip (a_args (query ! pivot)) (rw_values row)) e0 in
     if \<not> ok then Inr st
     else case merge_order g rid pivot of
       Some order \<Rightarrow> rmap snd (merge_points g query order d (env_record pivot (Some (rw_witness row)) e) (rw_epoch row) st)
     | None \<Rightarrow>
         rbind (narrow_seed x rid query pivot row (seed_start query pivot row e (fst st))) (\<lambda>(live, st1, src, residual).
         if \<not> live then Inr (nw_indexes st1, snd st)
         else
           rbind (complete_seed x query d st1 (snd st)) (\<lambda>(q, out).
           rmap (Pair q) (on_new (length (snd st)) (\<lambda>bs. Inr (map (mark_continuation src residual) bs)) out))))"

section \<open>Matching a rule\<close>

text \<open>A rule with an empty relation has no match.\<close>

fun empty_relation :: "graph \<Rightarrow> atom list \<Rightarrow> bool res" where
  "empty_relation g [] = Inr False"
| "empty_relation g (a # as) =
     (case a_call a of
        CPrim _ _ \<Rightarrow> empty_relation g as
      | CTable t \<Rightarrow> rbind (witness_count g t) (\<lambda>n. if n = 0 then Inr True else empty_relation g as))"

text \<open>The rows that changed since the rule last ran.\<close>

definition changed_rows :: "executor \<Rightarrow> nat \<Rightarrow> row list res" where
  "changed_rows x rid =
     rbind (present_rows (x_graph x) (sorted_list_of_set (x_pending x ! rid))) (\<lambda>rows.
     Inr (filter (\<lambda>r. \<not> rw_hidden r \<and> x_watermarks x ! rid \<le> rw_epoch r) rows))"

definition pivot_atom :: "executor \<Rightarrow> nat \<Rightarrow> rule \<Rightarrow> row list \<Rightarrow> nat \<Rightarrow> found \<Rightarrow> found res" where
  "pivot_atom x rid r rows pivot st =
     (case a_call (r_query r ! pivot) of
        CPrim _ _ \<Rightarrow> Inr st
      | CTable t \<Rightarrow> rfold (pivot_seed x rid r pivot) (filter (\<lambda>row. rw_table row = t) rows) st)"

definition direct_matches :: "executor \<Rightarrow> nat \<Rightarrow> rule \<Rightarrow> bool \<Rightarrow> nat \<Rightarrow> (executor \<times> found) res" where
  "direct_matches x rid r probe anchor =
     rbind (idx (r_query r) anchor) (\<lambda>a.
     case a_call a of
       CPrim _ _ \<Rightarrow> Inl Panic
     | CTable t \<Rightarrow>
         if probe \<or> \<not> r_seminaive r then
           rbind (witnesses (x_graph x) t) (\<lambda>ws.
           rmap (Pair x) (rfold (direct_seed x rid r probe anchor) ws (x_indexes x, [])))
         else
           rmap (Pair (x\<lparr>x_pending := (x_pending x)[rid := {}]\<rparr>))
             (rfold (direct_seed x rid r probe anchor) (sorted_list_of_set (x_pending x ! rid)) (x_indexes x, [])))"

definition delta_matches :: "executor \<Rightarrow> nat \<Rightarrow> rule \<Rightarrow> (executor \<times> found) res" where
  "delta_matches x rid r =
     rbind (changed_rows x rid) (\<lambda>rows.
     rmap (Pair (x\<lparr>x_pending := (x_pending x)[rid := {}]\<rparr>))
       (rfold (pivot_atom x rid r rows) [0..<length (r_query r)] (x_indexes x, [])))"

definition full_matches :: "executor \<Rightarrow> nat \<Rightarrow> rule \<Rightarrow> bool \<Rightarrow> (executor \<times> found) res" where
  "full_matches x rid r probe =
     rbind (workspace (x_graph x) rid r probe) (\<lambda>e.
     rmap (\<lambda>r. (x, snd r)) (solve_inner (access_of (x_settings x)) (x_graph x) (r_query r) None
       (replicate (length (r_query r)) True) e 0 (x_indexes x, [])))"

definition find_matches :: "executor \<Rightarrow> nat \<Rightarrow> rule \<Rightarrow> bool \<Rightarrow> (executor \<times> found) res" where
  "find_matches x rid r probe =
     (case r_direct r of
        Some anchor \<Rightarrow> direct_matches x rid r probe anchor
      | None \<Rightarrow>
          if se_delta (x_settings x) \<and> r_seminaive r \<and> \<not> probe \<and> (\<exists>a \<in> set (r_query r). is_table a)
          then delta_matches x rid r else full_matches x rid r probe)"

text \<open>One binding for each assignment of the inputs, in their order: the first that was found.\<close>

definition input_key :: "rule \<Rightarrow> binding \<Rightarrow> val list res" where
  "input_key r b = rmapM (\<lambda>i. ok_or (bd_values b i) (Err ''incomplete binding'')) (r_inputs r)"

definition fresh_binding :: "executor \<Rightarrow> nat \<Rightarrow> rule \<Rightarrow> bool \<Rightarrow> binding \<Rightarrow> bool" where
  "fresh_binding x rid r probe b \<longleftrightarrow> probe \<or> \<not> r_seminaive r \<or> x_watermarks x ! rid \<le> bd_epoch b"

definition unique_bindings :: "rule \<Rightarrow> binding list \<Rightarrow> binding list res" where
  "unique_bindings r bs =
     rbind (rmapM (\<lambda>b. rmap (\<lambda>k. (k, b)) (input_key r b)) bs) (\<lambda>kbs.
     Inr (map (\<lambda>k. the (map_of kbs k)) (sort (remdups (map fst kbs)))))"

definition matches :: "executor \<Rightarrow> nat \<Rightarrow> bool \<Rightarrow> (executor \<times> binding list) res" where
  "matches x rid probe =
     rbind (idx (p_rules (g_program (x_graph x))) rid) (\<lambda>r.
     let by_delta = (\<not> probe \<and> r_seminaive r) in
     if by_delta \<and> rid \<notin> x_dirty x then Inr (x, [])
     else
       let x0 = (if by_delta then x\<lparr>x_dirty := x_dirty x - {rid}\<rparr> else x) in
       rbind (if se_indexed (x_settings x) then empty_relation (x_graph x) (r_query r) else Inr False) (\<lambda>none.
       if none then Inr (if probe then x0 else x0\<lparr>x_pending := (x_pending x0)[rid := {}]\<rparr>, [])
       else
         rbind (find_matches x0 rid r probe) (\<lambda>(x1, q, found).
         rbind (unique_bindings r (filter (fresh_binding x rid r probe) found)) (\<lambda>bs.
         Inr (x1\<lparr>x_indexes := q\<rparr>, bs)))))"

text \<open>\<open>probe\<close>: whether a rule of a ruleset has a match at all.\<close>

fun probe_rules :: "nat list \<Rightarrow> executor \<Rightarrow> (executor \<times> bool) res" where
  "probe_rules [] x = Inr (x, False)"
| "probe_rules (rid # rids) x =
     rbind (matches x rid True) (\<lambda>(x1, bs). if bs \<noteq> [] then Inr (x1, True) else probe_rules rids x1)"

definition probe_rule_set :: "string \<Rightarrow> executor \<Rightarrow> (executor \<times> bool) res" where
  "probe_rule_set rules x =
     rbind (ok_or (p_sets (g_program (x_graph x)) rules) (Err ''unknown probe ruleset'')) (\<lambda>rids. probe_rules rids x)"

end
