(* ===== verification/MatchCorrect.thy ===== *)
theory MatchCorrect
  imports SeedJoin RuleMatch
begin

text \<open>
  Matching a rule is exact: whatever the entry programs, routes and merge programs do for a seed, the rule
  gets one binding for each assignment of its inputs that has an answer not older than its watermark.
\<close>

section \<open>One seed\<close>

definition seed_answers :: "graph \<Rightarrow> delta \<Rightarrow> atom list \<Rightarrow> nat \<Rightarrow> row \<Rightarrow> ((nat \<rightharpoonup> val) \<times> nat) set" where
  "seed_answers g d query i r =
     {(m, latest 0 rows) | m rows. answer g d query {..<length query} Map.empty m rows \<and> rows i = Some r}"

text \<open>Routes read atoms of the query; the order of a merge program visits every other atom once.\<close>

definition plan_ok :: "executor \<Rightarrow> nat \<Rightarrow> atom list \<Rightarrow> bool" where
  "plan_ok x rid query \<longleftrightarrow>
     (\<forall>k route. ms_routes (x_plan x) k = Some route \<longrightarrow> fst (snd (snd k)) = rid \<longrightarrow> route_ok query route) \<and>
     (\<forall>a order. merge_order (x_graph x) rid a = Some order \<longrightarrow> mset order = mset (filter (\<lambda>i. i \<noteq> a) [0..<length query]))"

lemma others_waiting: "waiting (map (\<lambda>i. i \<noteq> pivot) [0..<n]) = {..<n} - {pivot}"
  by auto

lemma seed_clean: "workspace g rid r probe = Inr e0 \<Longrightarrow> extends e0 e \<Longrightarrow> clean remaining e"
  by (auto simp: workspace_def rbind_eq_Inr clean_extends env_new_clean)

lemma seed_sane:
  assumes "workspace g rid r probe = Inr e0" "extends e0 e" "indexes_ok g q"
  shows "sane g query (seed_start query pivot row e q)"
proof -
  have "clean (replicate (length query) True) e" using assms(1,2) by (rule seed_clean)
  then have "\<forall>i < length query. unset i e" by (simp add: clean_def)
  then have "clean (map (\<lambda>i. i \<noteq> pivot) [0..<length query]) (env_record pivot (Some (rw_witness row)) e)"
    by (auto simp: clean_def intro: unset_record)
  with assms(3) show ?thesis by (simp add: sane_def seed_start_def)
qed

lemma seed_reach: "reach g d query (seed_start query pivot row e q) =
    answers g d query ({..<length query} - {pivot}) (ev_values e) (rw_epoch row)"
  unfolding reach_def seed_start_def narrowing.simps others_waiting by (simp add: env_record_def)

lemma workspace_empty: "workspace g rid r probe = Inr e0 \<Longrightarrow> ev_values e0 = Map.empty"
  by (auto simp: workspace_def rbind_eq_Inr env_new_def)

text \<open>The answers of a seed are what is left to answer once its row is bound.\<close>

lemma seed_answers_bound:
  assumes "workspace g rid r probe = Inr e0" "bind_all g (zip (a_args (query ! i)) (rw_values row)) e0 = (e, ok)"
    and "i < length query" "a_call (query ! i) = CTable t" "visible g t row" "\<not> delta_blocks d i row"
    and "keyed g" "atoms_ok g query"
  shows "seed_answers g d query i row =
    (if ok then answers g d query ({..<length query} - {i}) (ev_values e) (rw_epoch row) else {})"
proof -
  have l: "length (a_args (query ! i)) = length (rw_values row)"
    using keyed_row(2) [OF assms(7,5)] atoms_okD [OF assms(8,3)] assms(4) by simp
  have i: "i \<in> {..<length query}" using assms(3) by simp
  show ?thesis
    unfolding seed_answers_def answers_row [OF finite_lessThan i assms(4-6) l]
    using row_bound [OF assms(2), of "\<lambda>m1. answers g d query ({..<length query} - {i}) m1 (rw_epoch row)"]
    by (simp add: workspace_empty [OF assms(1)])
qed

lemma run_entry_narrows:
  assumes "keyed g" "atoms_ok g query" "sane g query st" "run_entry x query d backward order st = Inr res" "x_graph x = g"
  shows "narrows g d query st res"
  using assms(4) unfolding run_entry_def
  by (cases res) (auto simp: assms(5) narrows_refl [OF assms(3)] points_narrow [OF assms(1-3)]
      split: if_splits option.splits)

lemma narrow_seed_narrows:
  assumes "keyed g" "atoms_ok g query" "sane g query st" "plan_ok x rid query" and g: "x_graph x = g"
    and "narrow_seed x rid query pivot row st = Inr (live, st', src, residual)"
  shows "narrows g (seed_delta pivot row) query st (live, st')"
proof -
  let ?d = "seed_delta pivot row" and ?order = "ms_entries (x_plan x) (rid, pivot)"
  note entry = run_entry_narrows [OF assms(1,2) _ _ g]
  from assms(6) obtain l1 st1 where 1: "run_entry x query ?d False ?order st = Inr (l1, st1)"
    by (auto simp: narrow_seed_def Let_def rbind_eq_Inr)
  note n1 = entry [OF assms(3) 1]
  show ?thesis
  proof (cases l1)
    case False
    with assms(6) 1 n1 show ?thesis by (simp add: narrow_seed_def Let_def)
  next
    case True
    with n1 have n1': "narrows g ?d query st (True, st1)" by simp
    then have s1: "sane g query st1" by (simp add: narrows_def)
    from assms(6) 1 True obtain l2 st2 src2 where 2: "continue_local g (ms_routes (x_plan x))
        (se_multistage (x_settings x) \<and> se_projections (x_settings x)) query rid pivot row st1 = Inr (l2, st2, src2)"
      by (auto simp: narrow_seed_def Let_def rbind_eq_Inr g)
    have routes: "\<forall>k route. ms_routes (x_plan x) k = Some route \<longrightarrow> fst (snd (snd k)) = rid \<longrightarrow> route_ok query route"
      using assms(4) by (simp add: plan_ok_def)
    note n2 = narrows_trans [OF n1' continue_narrows [OF assms(1,2) s1 routes 2]]
    show ?thesis
    proof (cases l2)
      case False
      with assms(6) 1 2 True n2 show ?thesis by (simp add: narrow_seed_def Let_def g)
    next
      case l2: True
      with n2 have n2': "narrows g ?d query st (True, st2)" by simp
      then have s2: "sane g query st2" by (simp add: narrows_def)
      from assms(6) 1 2 True l2 obtain l3 st3 where 3: "run_entry x query ?d True ?order st2 = Inr (l3, st3)"
        by (auto simp: narrow_seed_def Let_def rbind_eq_Inr g)
      note n3 = narrows_trans [OF n2' entry [OF s2 3]]
      show ?thesis
      proof (cases l3)
        case False
        with assms(6) 1 2 3 True l2 n3 show ?thesis by (simp add: narrow_seed_def Let_def g)
      next
        case l3: True
        with n3 have n3': "narrows g ?d query st (True, st3)" by simp
        then have s3: "sane g query st3" by (simp add: narrows_def)
        from assms(6) 1 2 3 True l2 l3 have "(live, st') = (True, st3) \<or>
            run_entry x query ?d False (get_at (ms_finishes (x_plan x)) rid) st3 = Inr (live, st')"
          by (auto simp: narrow_seed_def Let_def rbind_eq_Inr g split: if_splits)
        then show ?thesis using n3' narrows_trans [OF n3' entry [OF s3]] by auto
      qed
    qed
  qed
qed

lemma complete_finds:
  assumes "keyed g" "atoms_ok g query" "sane g query st" "x_graph x = g" "access_of (x_settings x) = Columns"
    and "complete_seed x query d st out = Inr st'"
  shows "finds g (q, out) st' (reach g d query st)"
proof (cases "se_multistage (x_settings x) \<and> True \<notin> set (nw_remaining st)")
  case True
  then have w: "waiting (nw_remaining st) = {}" by (auto simp: in_set_conv_nth)
  from True assms(6) have "st' = (nw_indexes st, out @ [binding_of (nw_env st) (nw_epoch st) True])"
    by (auto simp: complete_seed_def)
  with assms(3) show ?thesis
    unfolding reach_def w answers_done by (simp add: finds_def sane_def outcome_def binding_of_def)
next
  case False
  with assms(4-6) obtain e' where
    "solve_inner Columns g query d (nw_remaining st) (nw_env st) (nw_epoch st) (nw_indexes st, out) = Inr (e', st')"
    by (auto simp: complete_seed_def rmap_def rbind_eq_Inr split: if_splits)
  from join_finds [OF assms(1,2) _ _ this] assms(3) show ?thesis by (simp add: finds_def sane_def reach_def)
qed

lemma on_new_finds:
  assumes "finds g st (q, out) A" "on_new (length (snd st)) f out = Inr out'"
    and "\<And>bs bs'. f bs = Inr bs' \<Longrightarrow> map outcome bs' = map outcome bs"
  shows "finds g st (q, out') A"
proof -
  from assms(1) obtain bs where bs: "indexes_ok g q" "out = snd st @ bs" "outcome ` set bs = A" by (auto simp: finds_def)
  from assms(2) obtain bs' where b: "f bs = Inr bs'" "out' = snd st @ bs'"
    by (auto simp: on_new_def rmap_def rbind_eq_Inr bs(2))
  have "outcome ` set bs' = outcome ` set bs" using arg_cong [OF assms(3) [OF b(1)], of set] by simp
  with bs b show ?thesis by (simp add: finds_def)
qed

lemma own_seed: "\<not> delta_blocks (seed_delta pivot row) pivot row" "\<not> delta_blocks None i row"
  by (simp_all add: delta_blocks_def seed_delta_def)

lemma narrowed_finds:
  assumes "keyed g" "atoms_ok g query" "x_graph x = g" "access_of (x_settings x) = Columns"
    and "sane g query st1" "narrows g d query st1 (live, st2)"
    and "(if \<not> live then Inr (nw_indexes st2, snd st)
      else rbind (complete_seed x query d st2 (snd st)) (\<lambda>(q, out). rmap (Pair q) (on_new (length (snd st)) (f q) out))) = Inr st'"
    and same: "\<And>q bs bs'. f q bs = Inr bs' \<Longrightarrow> map outcome bs' = map outcome bs"
  shows "finds g st st' (reach g d query st1)"
proof (cases live)
  case False
  with assms(6,7) have "indexes_ok g (nw_indexes st2)" "reach g d query st1 = {}" "st' = (nw_indexes st2, snd st)"
    by (auto simp: narrows_def)
  then show ?thesis using finds_none by metis
next
  case True
  with assms(6) have s: "sane g query st2" "reach g d query st2 = reach g d query st1" by (simp_all add: narrows_def)
  from assms(7) True obtain q out out' where run: "complete_seed x query d st2 (snd st) = Inr (q, out)"
    "on_new (length (snd st)) (f q) out = Inr out'" "st' = (q, out')"
    by (auto simp: rmap_def rbind_eq_Inr)
  have "finds g st (q, out) (reach g d query st1)"
    using complete_finds [OF assms(1,2) s(1) assms(3,4) run(1)] unfolding s(2) by (rule finds_start)
  from on_new_finds [OF this run(2) same] run(3) show ?thesis by simp
qed

lemma pivot_seed_finds:
  assumes "keyed g" "atoms_ok g (r_query r)" "plan_ok x rid (r_query r)" "x_graph x = g" "access_of (x_settings x) = Columns"
    and "pivot < length (r_query r)" "a_call (r_query r ! pivot) = CTable t" "visible g t row" "indexes_ok g (fst st)"
    and "pivot_seed x rid r pivot row st = Inr st'"
  shows "finds g st st' (seed_answers g (seed_delta pivot row) (r_query r) pivot row)"
proof -
  let ?q = "r_query r" and ?d = "seed_delta pivot row"
  from assms(10) obtain e0 where w: "workspace g rid r False = Inr e0" by (auto simp: pivot_seed_def rbind_eq_Inr assms(4))
  obtain e okb where b: "bind_all g (zip (a_args (?q ! pivot)) (rw_values row)) e0 = (e, okb)"
    by (cases "bind_all g (zip (a_args (?q ! pivot)) (rw_values row)) e0")
  note A = seed_answers_bound [OF w b assms(6-8) own_seed(1) assms(1,2)] and ex = extends_bind_all [OF b]
  show ?thesis
  proof (cases okb)
    case False
    with assms(10) w b have "st' = (fst st, snd st)" by (simp add: pivot_seed_def assms(4))
    with A False finds_none [OF assms(9), of st] show ?thesis by simp
  next
    case ok: True
    let ?start = "seed_start ?q pivot row e (fst st)"
    note start = seed_sane [OF w ex assms(9), of ?q pivot row]
    show ?thesis
    proof (cases "merge_order g rid pivot")
      case None
      with assms(10) w b ok obtain live st1 src residual where
        n: "narrow_seed x rid ?q pivot row ?start = Inr (live, st1, src, residual)"
        and run: "(if \<not> live then Inr (nw_indexes st1, snd st)
          else rbind (complete_seed x ?q ?d st1 (snd st)) (\<lambda>(q, out).
            rmap (Pair q) (on_new (length (snd st)) (\<lambda>bs. Inr (map (mark_continuation src residual) bs)) out))) = Inr st'"
        by (auto simp: pivot_seed_def Let_def rbind_eq_Inr assms(4))
      have "finds g st st' (reach g ?d ?q ?start)"
        by (rule narrowed_finds [OF assms(1,2,4,5) start narrow_seed_narrows [OF assms(1,2) start assms(3,4) n] run])
          (auto simp: mark_continuation_def outcome_def split: option.splits prod.splits)
      then show ?thesis using A ok by (simp add: seed_reach)
    next
      case (Some order)
      let ?e = "env_record pivot (Some (rw_witness row)) e"
      from assms(10) w b ok Some obtain e' where
        run: "merge_points g ?q order ?d ?e (rw_epoch row) st = Inr (e', st')"
        by (auto simp: pivot_seed_def Let_def rbind_eq_Inr rmap_def assms(4))
      have ord: "mset order = mset (filter (\<lambda>i. i \<noteq> pivot) [0..<length ?q])"
        using assms(3,4) Some unfolding plan_ok_def by blast
      have set: "set order = {..<length ?q} - {pivot}" using mset_eq_setD [OF ord] by auto
      have dist: "distinct order" using mset_eq_imp_distinct_iff [OF ord] by simp
      have "clean (replicate (length ?q) True) e" using w ex by (rule seed_clean)
      then have "\<forall>i \<in> set order. unset i ?e" by (auto simp: clean_def set intro: unset_record)
      from merge_points_finds [OF assms(1,2) run assms(9) dist this] A ok set show ?thesis
        by (simp add: env_record_def)
    qed
  qed
qed

lemma mark_origin_outcome: "mark_origin x rid anchor row f b = Inr b' \<Longrightarrow> outcome b' = outcome b"
  by (auto simp: mark_origin_def outcome_def rbind_eq_Inr Let_def split: dependency.splits if_splits option.splits)

lemma rmapM_same: "rmapM f bs = Inr bs' \<Longrightarrow> (\<And>b b'. f b = Inr b' \<Longrightarrow> h b' = h b) \<Longrightarrow> map h bs' = map h bs"
  by (induction bs arbitrary: bs') (auto simp: rbind_eq_Inr)

lemma direct_row_finds:
  assumes "keyed g" "atoms_ok g (r_query r)" "x_graph x = g" "access_of (x_settings x) = Columns"
    and "anchor < length (r_query r)" "a_call (r_query r ! anchor) = CTable t" "visible g t row" "indexes_ok g (fst st)"
    and "direct_row x rid r only anchor row st = Inr st'"
  shows "finds g st st' (seed_answers g None (r_query r) anchor row)"
proof -
  let ?q = "r_query r"
  from assms(9) obtain e0 where w: "workspace g rid r only = Inr e0" by (auto simp: direct_row_def rbind_eq_Inr assms(3))
  obtain e okb where b: "bind_all g (zip (a_args (?q ! anchor)) (rw_values row)) e0 = (e, okb)"
    by (cases "bind_all g (zip (a_args (?q ! anchor)) (rw_values row)) e0")
  note A = seed_answers_bound [OF w b assms(5-7) own_seed(2) assms(1,2)] and ex = extends_bind_all [OF b]
  show ?thesis
  proof (cases okb)
    case False
    with assms(9) w b have "st' = (fst st, snd st)" by (simp add: direct_row_def assms(3))
    with A False finds_none [OF assms(8), of st] show ?thesis by simp
  next
    case ok: True
    let ?start = "seed_start ?q anchor row e (fst st)"
    let ?f = "\<lambda>q. case origin g (rw_witness row) of None \<Rightarrow> Inr | Some f \<Rightarrow> rmapM (mark_origin x rid anchor row f)"
    note start = seed_sane [OF w ex assms(8), of ?q anchor row]
    from assms(9) w b ok obtain live st1 where
      n: "run_entry x ?q None False (ms_entries (x_plan x) (rid, anchor)) ?start = Inr (live, st1)"
      and run: "(if \<not> live then Inr (nw_indexes st1, snd st)
        else rbind (complete_seed x ?q None st1 (snd st)) (\<lambda>(q, out).
          case origin g (rw_witness row) of
            None \<Rightarrow> Inr (q, out)
          | Some f \<Rightarrow> rmap (Pair q) (on_new (length (snd st)) (rmapM (mark_origin x rid anchor row f)) out))) = Inr st'"
      by (auto simp: direct_row_def Let_def rbind_eq_Inr assms(3) cong: if_cong)
    have run': "(if \<not> live then Inr (nw_indexes st1, snd st)
        else rbind (complete_seed x ?q None st1 (snd st)) (\<lambda>(q, out). rmap (Pair q) (on_new (length (snd st)) (?f q) out))) = Inr st'"
      using run by (cases "origin g (rw_witness row)") (simp_all add: on_new_def cong: if_cong)
    have "finds g st st' (reach g None ?q ?start)"
      by (rule narrowed_finds [OF assms(1-4) start run_entry_narrows [OF assms(1,2) start n assms(3)] run'])
        (auto intro!: rmapM_same [where h = outcome] dest: mark_origin_outcome split: option.splits)
    then show ?thesis using A ok by (simp add: seed_reach)
  qed
qed

section \<open>All seeds\<close>

text \<open>
  The pending rows of a rule: rows of tables it reads, and every visible row that changed since its
  watermark. This is what \<open>deliver\<close> maintains.
\<close>

definition pending_ok :: "executor \<Rightarrow> nat \<Rightarrow> rule \<Rightarrow> bool" where
  "pending_ok x rid r \<longleftrightarrow>
     (let g = x_graph x; ws = x_pending x ! rid in finite ws \<and>
      (\<forall>w \<in> ws. \<forall>row. row_of g w = Inr (Some row) \<longrightarrow> \<not> rw_hidden row \<longrightarrow>
         visible g (rw_table row) row \<and> reads_table r (rw_table row)) \<and>
      (\<forall>t row. visible g t row \<longrightarrow> reads_table r t \<longrightarrow> x_watermarks x ! rid \<le> rw_epoch row \<longrightarrow>
         rw_table row = t \<and> rw_witness row \<in> ws))"

abbreviation rule_answers :: "graph \<Rightarrow> rule \<Rightarrow> ((nat \<rightharpoonup> val) \<times> nat) set" where
  "rule_answers g r \<equiv> answers g None (r_query r) {..<length (r_query r)} Map.empty 0"

text \<open>Rows of an answer.\<close>

lemma answer_row:
  assumes "answer g d query {..<n} m0 m rows" "rows i = Some row" "i < n"
  shows "\<exists>t. a_call (query ! i) = CTable t \<and> visible g t row \<and> \<not> delta_blocks d i row"
proof -
  from assms have "atom_true g d i (query ! i) m (Some row)" by (metis answer_def lessThan_iff)
  then show ?thesis by (cases "a_call (query ! i)") (auto simp: atom_true_def table_true_def)
qed

lemma answer_dom: "answer g d query {..<n} m0 m rows \<Longrightarrow> rows i = Some row \<Longrightarrow> i < n"
  by (auto simp: answer_def)

lemma reads_at: "i < length (r_query r) \<Longrightarrow> a_call (r_query r ! i) = CTable t \<Longrightarrow> reads_table r t"
  unfolding reads_table_def by (metis image_eqI nth_mem)

lemma seed_answers_answer:
  assumes "a \<in> seed_answers g (seed_delta p row) query p row"
  shows "a \<in> answers g None query {..<length query} Map.empty 0 \<and> snd a = rw_epoch row"
proof -
  from assms obtain m rows where a: "a = (m, latest 0 rows)" "rows p = Some row"
    and ans: "answer g (seed_of rows p) query {..<length query} Map.empty m rows"
    by (auto simp: seed_answers_def seed_of_def seed_delta_def)
  from ans answer_seed [of rows p row] a(2) have n: "answer g None query {..<length query} Map.empty m rows"
    "\<forall>i r. rows i = Some r \<longrightarrow> \<not> delta_blocks (seed_of rows p) i r" by blast+
  then have "owns rows p" using a(2) by (auto simp: owns_def)
  moreover have "finite (dom rows)" using ans by (auto simp: answer_def intro: finite_subset)
  ultimately have "latest 0 rows = rw_epoch row" using a(2) by (rule owner_latest)
  moreover have "a \<in> answers g None query {..<length query} Map.empty 0"
    unfolding answers_def a(1) using n(1) by blast
  ultimately show ?thesis using a(1) by simp
qed

lemma answer_has_seed:
  assumes "(m, e) \<in> answers g None query {..<length query} Map.empty 0" "a \<in> set query" "is_table a"
  obtains p t row where "p < length query" "a_call (query ! p) = CTable t" "visible g t row" "e = rw_epoch row"
    "(m, e) \<in> seed_answers g (seed_delta p row) query p row"
proof -
  from assms(1) obtain rows where rows: "answer g None query {..<length query} Map.empty m rows" "e = latest 0 rows"
    by (auto simp: answers_def)
  from assms(2,3) obtain i t where "i < length query" "a_call (query ! i) = CTable t"
    by (auto simp: in_set_conv_nth is_table_def split: call.splits)
  then have "dom rows \<noteq> {}" using answer_rows [OF rows(1), of i] by auto
  moreover have f: "finite (dom rows)" using rows(1) by (auto simp: answer_def intro: finite_subset)
  ultimately obtain p where p: "owns rows p" using owner_exists by blast
  then obtain row where row: "rows p = Some row" by (auto simp: owns_def)
  have "answer g (seed_of rows p) query {..<length query} Map.empty m rows"
    using answer_seed [of rows p row, OF row] rows(1) p by (auto simp: owns_def)
  moreover have "seed_of rows p = seed_delta p row" using row by (simp add: seed_of_def seed_delta_def)
  ultimately have "(m, e) \<in> seed_answers g (seed_delta p row) query p row"
    using rows(2) row by (auto simp: seed_answers_def)
  moreover note answer_dom [OF rows(1) row] answer_row [OF rows(1) row] owner_latest [OF p f row]
  ultimately show thesis using that rows(2) by metis
qed

lemma delta_matches_finds:
  assumes "keyed g" "atoms_ok g (r_query r)" "plan_ok x rid (r_query r)" "x_graph x = g" "access_of (x_settings x) = Columns"
    and "indexes_ok g (x_indexes x)" "pending_ok x rid r" "\<exists>a \<in> set (r_query r). is_table a"
    and "delta_matches x rid r = Inr (x', q, found)"
  shows "indexes_ok g q \<and> outcome ` set found = {a \<in> rule_answers g r. x_watermarks x ! rid \<le> snd a}"
proof -
  let ?q = "r_query r" and ?wm = "x_watermarks x ! rid"
  from assms(9) obtain rows where rows: "changed_rows x rid = Inr rows"
    and run: "rfold (pivot_atom x rid r rows) [0..<length ?q] (x_indexes x, []) = Inr (q, found)"
    by (auto simp: delta_matches_def rmap_def rbind_eq_Inr)
  from rows obtain all where all: "present_rows g (sorted_list_of_set (x_pending x ! rid)) = Inr all"
    "rows = filter (\<lambda>r. \<not> rw_hidden r \<and> ?wm \<le> rw_epoch r) all"
    by (auto simp: changed_rows_def rbind_eq_Inr assms(4))
  have fin: "finite (x_pending x ! rid)"
    and sound: "\<And>w row. w \<in> x_pending x ! rid \<Longrightarrow> row_of g w = Inr (Some row) \<Longrightarrow> \<not> rw_hidden row \<Longrightarrow>
      visible g (rw_table row) row \<and> reads_table r (rw_table row)"
    and comp: "\<And>t row. visible g t row \<Longrightarrow> reads_table r t \<Longrightarrow> ?wm \<le> rw_epoch row \<Longrightarrow>
      rw_table row = t \<and> rw_witness row \<in> x_pending x ! rid"
    using assms(7) unfolding pending_ok_def Let_def assms(4) by blast+
  have set: "row \<in> set rows \<longleftrightarrow> (\<exists>w \<in> x_pending x ! rid. row_of g w = Inr (Some row)) \<and> \<not> rw_hidden row \<and> ?wm \<le> rw_epoch row" for row
    unfolding all(2) using present_rows_set [OF all(1)] fin by auto
  let ?S = "\<lambda>p row. seed_answers g (seed_delta p row) ?q p row"
  let ?B = "\<lambda>p. case a_call (?q ! p) of CPrim _ _ \<Rightarrow> {} | CTable t \<Rightarrow> \<Union>row \<in> {row \<in> set rows. rw_table row = t}. ?S p row"
  have "finds g (x_indexes x, []) (q, found) (\<Union>p \<in> set [0..<length ?q]. ?B p)"
  proof (rule finds_fold [OF run])
    fix p st st' assume p: "p \<in> set [0..<length ?q]" and ok: "indexes_ok g (fst st)" and step: "pivot_atom x rid r rows p st = Inr st'"
    show "finds g st st' (?B p)"
    proof (cases "a_call (?q ! p)")
      case (CPrim n out)
      with step finds_none [OF ok, of st] show ?thesis by (auto simp: pivot_atom_def)
    next
      case (CTable t)
      with step have f: "rfold (pivot_seed x rid r p) (filter (\<lambda>row. rw_table row = t) rows) st = Inr st'"
        by (simp add: pivot_atom_def)
      have "finds g st st' (\<Union>row \<in> set (filter (\<lambda>row. rw_table row = t) rows). ?S p row)"
      proof (rule finds_fold [OF f ok])
        fix row s s' assume r: "row \<in> set (filter (\<lambda>row. rw_table row = t) rows)" "indexes_ok g (fst s)"
          and one: "pivot_seed x rid r p row s = Inr s'"
        from r(1) set sound have "visible g t row" by auto
        from pivot_seed_finds [OF assms(1-5) _ CTable this r(2) one] p show "finds g s s' (?S p row)" by simp
      qed
      then show ?thesis using CTable by simp
    qed
  qed (simp add: assms(6))
  moreover have "(\<Union>p \<in> set [0..<length ?q]. ?B p) = {a \<in> rule_answers g r. ?wm \<le> snd a}" (is "?L = ?R")
  proof (intro set_eqI iffI)
    fix a assume "a \<in> ?L"
    then obtain p where p: "a \<in> ?B p" by blast
    then obtain row where "row \<in> set rows" "a \<in> ?S p row" by (cases "a_call (?q ! p)") auto
    with seed_answers_answer [of a g p row ?q] set show "a \<in> ?R" by auto
  next
    fix a assume a: "a \<in> ?R"
    obtain m e where me: "a = (m, e)" by (cases a)
    from assms(8) obtain b where b: "b \<in> set ?q" "is_table b" by blast
    from a have "(m, e) \<in> rule_answers g r" by (simp add: me)
    from answer_has_seed [OF this b] obtain p t row where
      p: "p < length ?q" "a_call (?q ! p) = CTable t" "visible g t row" "e = rw_epoch row" "(m, e) \<in> ?S p row" by blast
    from a p(4) have wm: "?wm \<le> rw_epoch row" by (simp add: me)
    note c = comp [OF p(3) reads_at [OF p(1,2)] wm]
    have "row \<in> set rows" using set c p(3) wm by (auto simp: visible_def)
    with p c have "a \<in> ?B p" by (auto simp: me)
    with p(1) show "a \<in> ?L" by auto
  qed
  ultimately show ?thesis by (simp add: finds_def)
qed

text \<open>A rule with one fact: the anchor's rows are the seeds.\<close>

lemma direct_anchor:
  assumes "query_direct query = Some anchor"
  shows "anchor < length query" "\<exists>t. a_call (query ! anchor) = CTable t"
    and "i < length query \<Longrightarrow> a_call (query ! i) = CTable t \<Longrightarrow> i = anchor"
proof -
  let ?ts = "filter (\<lambda>i. is_table_call (a_call (query ! i))) [0..<length query]"
  from assms have ts: "?ts = [anchor]" by (auto simp: query_direct_def split: list.splits)
  then have set: "set ?ts = {anchor}" by simp
  then have "anchor \<in> set ?ts" by blast
  then show "anchor < length query" "\<exists>t. a_call (query ! anchor) = CTable t" by (auto split: call.splits elim: is_table_call.elims)
  show "i = anchor" if "i < length query" "a_call (query ! i) = CTable t"
  proof -
    have "i \<in> set ?ts" using that by simp
    with set show ?thesis by blast
  qed
qed

lemma direct_answers:
  assumes "query_direct query = Some anchor" "a_call (query ! anchor) = CTable t"
  shows "a \<in> seed_answers g None query anchor row \<Longrightarrow> a \<in> answers g None query {..<length query} Map.empty 0 \<and> snd a = rw_epoch row"
    and "a \<in> answers g None query {..<length query} Map.empty 0 \<Longrightarrow>
      \<exists>row. visible g t row \<and> snd a = rw_epoch row \<and> a \<in> seed_answers g None query anchor row"
proof -
  have one: "rows = [anchor \<mapsto> row]" if "answer g None query {..<length query} Map.empty m rows" "rows anchor = Some row" for m rows row
  proof
    fix i
    show "rows i = [anchor \<mapsto> row] i"
    proof (cases "rows i")
      case (Some r)
      from answer_dom [OF that(1) Some] answer_row [OF that(1) Some] direct_anchor(3) [OF assms(1)] have "i = anchor" by blast
      with that(2) show ?thesis by simp
    qed (use that(2) in auto)
  qed
  have late: "latest 0 [anchor \<mapsto> row] = rw_epoch row" for row :: row by (simp add: latest_def)
  show "a \<in> answers g None query {..<length query} Map.empty 0 \<and> snd a = rw_epoch row"
    if "a \<in> seed_answers g None query anchor row"
  proof -
    from that obtain m rows where a: "a = (m, latest 0 rows)" "answer g None query {..<length query} Map.empty m rows"
      "rows anchor = Some row" by (auto simp: seed_answers_def)
    from one [OF a(2,3)] late have "latest 0 rows = rw_epoch row" by simp
    moreover have "a \<in> answers g None query {..<length query} Map.empty 0" unfolding answers_def a(1) using a(2) by blast
    ultimately show ?thesis using a(1) by simp
  qed
  show "\<exists>row. visible g t row \<and> snd a = rw_epoch row \<and> a \<in> seed_answers g None query anchor row"
    if "a \<in> answers g None query {..<length query} Map.empty 0"
  proof -
    from that obtain m rows where a: "a = (m, latest 0 rows)" "answer g None query {..<length query} Map.empty m rows"
      by (auto simp: answers_def)
    note an = direct_anchor [OF assms(1)]
    from answer_rows [OF a(2), of anchor] an(1,2) obtain row where row: "rows anchor = Some row" by auto
    from answer_row [OF a(2) row an(1)] assms(2) have "visible g t row" by simp
    moreover have "latest 0 rows = rw_epoch row" using one [OF a(2) row] late by simp
    moreover have "a \<in> seed_answers g None query anchor row" unfolding seed_answers_def a(1) using a(2) row by blast
    ultimately show ?thesis using a(1) by auto
  qed
qed

text \<open>Which answers a run of the rule has to return.\<close>

definition due :: "executor \<Rightarrow> nat \<Rightarrow> rule \<Rightarrow> bool \<Rightarrow> nat \<Rightarrow> bool" where
  "due x rid r only e \<longleftrightarrow> only \<or> \<not> r_seminaive r \<or> x_watermarks x ! rid \<le> e"

lemma not_due: "\<not> only \<and> r_seminaive r \<and> e < x_watermarks x ! rid \<longleftrightarrow> \<not> due x rid r only e"
  by (auto simp: due_def)

lemma direct_seed_due: "direct_seed x rid r only anchor w st =
   rbind (row_of (x_graph x) w) (\<lambda>row. case row of
     None \<Rightarrow> Inr st
   | Some row \<Rightarrow> if rw_hidden row \<or> \<not> due x rid r only (rw_epoch row) then Inr st
       else direct_row x rid r only anchor row st)"
  unfolding direct_seed_def not_due ..

lemma direct_seeds_find:
  assumes "keyed g" "atoms_ok g (r_query r)" "x_graph x = g" "access_of (x_settings x) = Columns"
    and q: "query_direct (r_query r) = Some anchor" "a_call (r_query r ! anchor) = CTable t" and "indexes_ok g (fst st)"
    and run: "rfold (direct_seed x rid r only anchor) ws st = Inr st'"
    and sound: "\<And>w row. w \<in> set ws \<Longrightarrow> row_of g w = Inr (Some row) \<Longrightarrow> \<not> rw_hidden row \<Longrightarrow> visible g t row"
    and complete: "\<And>row. visible g t row \<Longrightarrow> due x rid r only (rw_epoch row) \<Longrightarrow> rw_witness row \<in> set ws"
  shows "finds g st st' {a \<in> rule_answers g r. due x rid r only (snd a)}"
proof -
  let ?S = "\<lambda>row. seed_answers g None (r_query r) anchor row"
  let ?B = "\<lambda>w. \<Union>row \<in> {row. row_of g w = Inr (Some row) \<and> \<not> rw_hidden row \<and> due x rid r only (rw_epoch row)}. ?S row"
  have "finds g st st' (\<Union>w \<in> set ws. ?B w)"
  proof (rule finds_fold [OF run assms(7)])
    fix w s s' assume w: "w \<in> set ws" "indexes_ok g (fst s)" "direct_seed x rid r only anchor w s = Inr s'"
    from w(3) obtain row where row: "row_of g w = Inr row" and go: "(case row of None \<Rightarrow> Inr s
      | Some row \<Rightarrow> if rw_hidden row \<or> \<not> due x rid r only (rw_epoch row) then Inr s
          else direct_row x rid r only anchor row s) = Inr s'"
      by (auto simp: direct_seed_due rbind_eq_Inr assms(3))
    show "finds g s s' (?B w)"
    proof (cases "\<exists>x'. row = Some x' \<and> \<not> rw_hidden x' \<and> due x rid r only (rw_epoch x')")
      case True
      then obtain x' where x': "row = Some x'" "\<not> rw_hidden x'" "due x rid r only (rw_epoch x')" by blast
      with sound [OF w(1)] row have "visible g t x'" by simp
      from direct_row_finds [OF assms(1-4) direct_anchor(1) [OF q(1)] q(2) this w(2)] go x' have "finds g s s' (?S x')" by simp
      moreover have "{row. row_of g w = Inr (Some row) \<and> \<not> rw_hidden row \<and> due x rid r only (rw_epoch row)} = {x'}"
        using row x' by auto
      ultimately show ?thesis by simp
    next
      case False
      then have B: "{row. row_of g w = Inr (Some row) \<and> \<not> rw_hidden row \<and> due x rid r only (rw_epoch row)} = {}" using row by auto
      from False go have "s' = (fst s, snd s)" by (auto split: option.splits if_splits)
      then show ?thesis unfolding B using finds_none [OF w(2), of s] by simp
    qed
  qed
  moreover have "(\<Union>w \<in> set ws. ?B w) = {a \<in> rule_answers g r. due x rid r only (snd a)}" (is "?L = ?R")
  proof (intro set_eqI iffI)
    fix a assume "a \<in> ?L"
    then show "a \<in> ?R" using direct_answers(1) [OF q] by fastforce
  next
    fix a assume a: "a \<in> ?R"
    with direct_answers(2) [OF q, of a g] obtain row where row: "visible g t row" "snd a = rw_epoch row" "a \<in> ?S row" by auto
    with a complete have "rw_witness row \<in> set ws" by simp
    with row a show "a \<in> ?L" by (auto simp: visible_def)
  qed
  ultimately show ?thesis by simp
qed

section \<open>The rule\<close>

lemma find_matches_finds:
  assumes "keyed g" "atoms_ok g (r_query r)" "plan_ok x rid (r_query r)" "x_graph x = g" "access_of (x_settings x) = Columns"
    and "indexes_ok g (x_indexes x)" "r_direct r = query_direct (r_query r)"
    and "only \<or> \<not> r_seminaive r \<or> pending_ok x rid r"
    and "find_matches x rid r only = Inr (x', q, found)"
  shows "indexes_ok g q \<and> outcome ` set (filter (fresh_binding x rid r only) found) = {a \<in> rule_answers g r. due x rid r only (snd a)}"
proof -
  have fresh: "outcome ` set (filter (fresh_binding x rid r only) found) = {a \<in> outcome ` set found. due x rid r only (snd a)}"
    by (auto simp: fresh_binding_def due_def outcome_def)
  have idem: "{a \<in> {a \<in> A. P a}. P a} = {a \<in> A. P a}" for A :: "((nat \<rightharpoonup> val) \<times> nat) set" and P by auto
  show ?thesis
  proof (cases "r_direct r")
    case (Some anchor)
    then have an: "query_direct (r_query r) = Some anchor" using assms(7) by simp
    from direct_anchor(2) [OF an] obtain t where t: "a_call (r_query r ! anchor) = CTable t" by blast
    have reads: "reads_table r s \<longleftrightarrow> s = t" for s
    proof
      assume "reads_table r s"
      then obtain i where "i < length (r_query r)" "a_call (r_query r ! i) = CTable s"
        by (auto simp: reads_table_def in_set_conv_nth)
      with direct_anchor(3) [OF an] t show "s = t" by auto
    next
      show "s = t \<Longrightarrow> reads_table r s" using reads_at [OF direct_anchor(1) [OF an] t] by simp
    qed
    obtain ws where run: "rfold (direct_seed x rid r only anchor) ws (x_indexes x, []) = Inr (q, found)"
      and sound: "\<And>w row. w \<in> set ws \<Longrightarrow> row_of g w = Inr (Some row) \<Longrightarrow> \<not> rw_hidden row \<Longrightarrow> visible g t row"
      and complete: "\<And>row. visible g t row \<Longrightarrow> due x rid r only (rw_epoch row) \<Longrightarrow> rw_witness row \<in> set ws"
    proof (cases "only \<or> \<not> r_seminaive r")
      case True
      with assms(9) Some t obtain ws where ws: "witnesses g t = Inr ws"
        "rfold (direct_seed x rid r only anchor) ws (x_indexes x, []) = Inr (q, found)"
        by (auto simp: find_matches_def direct_matches_def rbind_eq_Inr rmap_def idx_eq_Inr assms(4) split: if_splits)
      have "w \<in> set ws \<longleftrightarrow> listed g t w" for w using ws(1) by (simp add: listed_def)
      with that [OF ws(2)] show ?thesis using visibleI by (auto simp: visible_def)
    next
      case False
      with assms(8) have p: "pending_ok x rid r" by blast
      from False assms(9) Some t have run: "rfold (direct_seed x rid r only anchor)
          (sorted_list_of_set (x_pending x ! rid)) (x_indexes x, []) = Inr (q, found)"
        by (auto simp: find_matches_def direct_matches_def rbind_eq_Inr rmap_def idx_eq_Inr split: if_splits)
      have ps: "finite (x_pending x ! rid)"
        "\<And>w row. w \<in> x_pending x ! rid \<Longrightarrow> row_of g w = Inr (Some row) \<Longrightarrow> \<not> rw_hidden row \<Longrightarrow>
          visible g (rw_table row) row \<and> reads_table r (rw_table row)"
        "\<And>t row. visible g t row \<Longrightarrow> reads_table r t \<Longrightarrow> x_watermarks x ! rid \<le> rw_epoch row \<Longrightarrow>
          rw_table row = t \<and> rw_witness row \<in> x_pending x ! rid"
        using p unfolding pending_ok_def Let_def assms(4) by blast+
      show ?thesis
      proof (rule that [OF run])
        show "visible g t row" if "w \<in> set (sorted_list_of_set (x_pending x ! rid))" "row_of g w = Inr (Some row)" "\<not> rw_hidden row" for w row
          using ps(2) [of w row] that ps(1) reads by auto
        show "rw_witness row \<in> set (sorted_list_of_set (x_pending x ! rid))" if "visible g t row" "due x rid r only (rw_epoch row)" for row
          using ps(3) [OF that(1)] that(2) False ps(1) reads by (auto simp: due_def)
      qed
    qed
    from direct_seeds_find [OF assms(1,2,4,5) an t _ run sound complete] assms(6)
    have "indexes_ok g q" "outcome ` set found = {a \<in> rule_answers g r. due x rid r only (snd a)}" by (simp_all add: finds_def)
    then show ?thesis unfolding fresh by (simp only: idem simp_thms)
  next
    case None
    show ?thesis
    proof (cases "se_delta (x_settings x) \<and> r_seminaive r \<and> \<not> only \<and> (\<exists>a \<in> set (r_query r). is_table a)")
      case True
      with assms(9) None have run: "delta_matches x rid r = Inr (x', q, found)" by (simp add: find_matches_def)
      have "pending_ok x rid r" "\<exists>a \<in> set (r_query r). is_table a" using True assms(8) by blast+
      from delta_matches_finds [OF assms(1-6) this run] True
      have "indexes_ok g q" "outcome ` set found = {a \<in> rule_answers g r. due x rid r only (snd a)}" by (auto simp: due_def)
      then show ?thesis unfolding fresh by (simp only: idem simp_thms)
    next
      case False
      let ?rem = "replicate (length (r_query r)) True"
      from assms(9) None have "full_matches x rid r only = Inr (x', q, found)"
        unfolding find_matches_def if_not_P [OF False] by simp
      then obtain e e' where w: "workspace g rid r only = Inr e"
        and run: "solve_inner Columns g (r_query r) None ?rem e 0 (x_indexes x, []) = Inr (e', q, found)"
        by (auto simp: full_matches_def rmap_def rbind_eq_Inr assms(4,5))
      have "waiting ?rem = {..<length (r_query r)}" by auto
      with join_finds [OF assms(1,2) seed_clean [OF w extends_refl] _ run] assms(6)
      have "indexes_ok g q" "outcome ` set found = rule_answers g r"
        by (simp_all add: finds_def workspace_empty [OF w])
      then show ?thesis unfolding fresh by simp
    qed
  qed
qed

lemma empty_relation_answers:
  assumes "empty_relation g query = Inr True" "keyed g"
  shows "answers g None query {..<length query} Map.empty 0 = {}"
proof -
  have "\<exists>a \<in> set query. \<exists>t. a_call a = CTable t \<and> witness_count g t = Inr 0"
    using assms(1) by (induction g query rule: empty_relation.induct) (auto simp: rbind_eq_Inr split: call.splits if_splits)
  then obtain i t where i: "i < length query" "a_call (query ! i) = CTable t" "witness_count g t = Inr 0"
    by (auto simp: in_set_conv_nth)
  have empty: "\<not> listed g t w" for w
  proof
    assume "listed g t w"
    then obtain ws where ws: "witnesses g t = Inr ws" "w \<in> set ws" by (auto simp: listed_def)
    from i(3) ws show False
      by (auto simp: witness_count_def witnesses_def rbind_eq_Inr rmap_def split: if_splits)
        (metis card_eq_0_iff empty_iff list.set(1) sorted_list_of_set.fold_insort_key.infinite sorted_list_of_set.set_sorted_key_list_of_set)+
  qed
  have "\<not> answer g None query {..<length query} Map.empty m rows" for m rows
  proof
    assume a: "answer g None query {..<length query} Map.empty m rows"
    from answer_rows [OF a, of i] i(1,2) obtain row where row: "rows i = Some row" by auto
    from answer_row [OF a row i(1)] i(2) have "visible g t row" by simp
    with empty show False by (simp add: visible_def)
  qed
  then show ?thesis by (simp add: answers_def)
qed

text \<open>The inputs of the rule under an assignment.\<close>

definition inputs_in :: "rule \<Rightarrow> (nat \<rightharpoonup> val) \<Rightarrow> val list" where
  "inputs_in r m = map (\<lambda>i. the (m i)) (r_inputs r)"

lemma input_key_Inr: "input_key r b = Inr k \<Longrightarrow> k = inputs_in r (bd_values b)"
proof -
  assume "input_key r b = Inr k"
  then have "map (bd_values b) (r_inputs r) = map Some k" by (simp add: input_key_def rmapM_ok_or)
  then have "map the (map (bd_values b) (r_inputs r)) = map the (map Some k)" by simp
  then show ?thesis by (simp add: inputs_in_def comp_def)
qed

lemma unique_bindings_keys:
  assumes "unique_bindings r bs = Inr us"
  shows "map (inputs_in r \<circ> bd_values) us = sorted_list_of_set ((inputs_in r \<circ> bd_values) ` set bs)" "set us \<subseteq> set bs"
proof -
  from assms obtain kbs where k: "rmapM (\<lambda>b. rmap (\<lambda>k. (k, b)) (input_key r b)) bs = Inr kbs"
    and us: "us = map (\<lambda>k. the (map_of kbs k)) (sort (remdups (map fst kbs)))"
    by (auto simp: unique_bindings_def rbind_eq_Inr)
  from k have kbs: "kbs = map (\<lambda>b. (inputs_in r (bd_values b), b)) bs"
    by (induction bs arbitrary: kbs) (auto simp: rbind_eq_Inr rmap_def dest: input_key_Inr)
  have pick: "map_of kbs k \<noteq> None \<and> the (map_of kbs k) \<in> set bs \<and> inputs_in r (bd_values (the (map_of kbs k))) = k"
    if "k \<in> fst ` set kbs" for k
  proof -
    from that obtain b where b: "map_of kbs k = Some b" by (metis map_of_eq_None_iff not_None_eq)
    then have "(k, b) \<in> set kbs" by (rule map_of_SomeD)
    with b show ?thesis by (auto simp: kbs)
  qed
  have "map (inputs_in r \<circ> bd_values) us = sort (remdups (map fst kbs))"
    unfolding us map_map by (rule map_idI) (use pick in auto)
  also have "\<dots> = sorted_list_of_set (fst ` set kbs)" by (simp add: sorted_list_of_set_sort_remdups [symmetric])
  also have "fst ` set kbs = (inputs_in r \<circ> bd_values) ` set bs" by (force simp: kbs)
  finally show "map (inputs_in r \<circ> bd_values) us = sorted_list_of_set ((inputs_in r \<circ> bd_values) ` set bs)" .
  show "set us \<subseteq> set bs" unfolding us using pick by auto
qed

lemma accepted_plan_ok:
  assumes "parse_multistage env (g_program (x_graph x)) raw = Inr (x_plan x)"
    and "parse_merges p raw' = Inr (p_merge_programs (g_program (x_graph x)))"
    and "p_rules p = p_rules (g_program (x_graph x))"
  shows "plan_ok x rid (r_query (p_rules (g_program (x_graph x)) ! rid))"
  unfolding plan_ok_def
proof (intro conjI allI impI)
  fix k route assume "ms_routes (x_plan x) k = Some route" "fst (snd (snd k)) = rid"
  moreover obtain t e c a where "k = (t, e, c, a)" by (cases k)
  ultimately have "route_covered (g_program (x_graph x)) t e rid a route" using accepted_covered [OF assms(1)] by simp
  then show "route_ok (r_query (p_rules (g_program (x_graph x)) ! rid)) route"
    by (auto simp: route_covered_def reads_covered_def route_ok_def covers_def Let_def)
next
  fix a order assume "merge_order (x_graph x) rid a = Some order"
  then have "mp_entries (p_merge_programs (g_program (x_graph x))) (rid, a) = Some order"
    by (auto simp: merge_order_def split: if_splits)
  with parse_merges_good [OF assms(2)] have "good_order p rid a order" by (simp add: good_orders_def)
  then show "mset order = mset (filter (\<lambda>i. i \<noteq> a) [0..<length (r_query (p_rules (g_program (x_graph x)) ! rid))])"
    by (simp add: good_order_def Let_def assms(3))
qed

text \<open>
  C1. Matching a rule is exact. On a graph whose lookup finds its visible rows, with usable column indexes,
  accepted plans and the pending rows of the rule up to date, the bindings that \<open>matches\<close> returns are,
  one for each and in the order of the keys, the assignments of the rule's inputs that have an answer due:
  any answer for a probe or a rule that is not semi-naive, else an answer with a row not older than the
  watermark. Every binding is itself an answer with its epoch. This holds for all settings of entry
  programs, routes, finishes, merge programs and delta matching.
\<close>

theorem matches_exact:
  assumes "matches x rid only = Inr (x', bs)" and "p_rules (g_program g) ! rid = r" "x_graph x = g"
    and "keyed g" "atoms_ok g (r_query r)" "indexes_ok g (x_indexes x)" "access_of (x_settings x) = Columns"
    and "r_direct r = query_direct (r_query r)"
    and "parse_multistage env (g_program g) raw = Inr (x_plan x)"
    and "parse_merges p raw' = Inr (p_merge_programs (g_program g))" "p_rules p = p_rules (g_program g)"
    and "only \<or> \<not> r_seminaive r \<or> rid \<in> x_dirty x \<and> pending_ok x rid r"
  shows "map (inputs_in r \<circ> bd_values) bs =
      sorted_list_of_set ((inputs_in r \<circ> fst) ` {a \<in> rule_answers g r. due x rid r only (snd a)}) \<and>
    (\<forall>b \<in> set bs. (bd_values b, bd_epoch b) \<in> rule_answers g r) \<and> indexes_ok g (x_indexes x')"
proof -
  let ?A = "{a \<in> rule_answers g r. due x rid r only (snd a)}"
  let ?x = "if \<not> only \<and> r_seminaive r then x\<lparr>x_dirty := x_dirty x - {rid}\<rparr> else x"
  have same: "x_graph ?x = g" "x_plan ?x = x_plan x" "x_settings ?x = x_settings x" "x_indexes ?x = x_indexes x"
    "x_pending ?x = x_pending x" "x_watermarks ?x = x_watermarks x" using assms(3) by auto
  have "\<not> (\<not> only \<and> r_seminaive r \<and> rid \<notin> x_dirty x)" using assms(12) by blast
  with assms(1-3) obtain none where none: "(if se_indexed (x_settings x) then empty_relation g (r_query r) else Inr False) = Inr none"
    and run: "(if none then Inr (if only then ?x else ?x\<lparr>x_pending := (x_pending ?x)[rid := {}]\<rparr>, [])
       else rbind (find_matches ?x rid r only) (\<lambda>(x1, q, found).
         rbind (unique_bindings r (filter (fresh_binding x rid r only) found)) (\<lambda>bs. Inr (x1\<lparr>x_indexes := q\<rparr>, bs)))) = Inr (x', bs)"
    unfolding matches_def Let_def rbind_eq_Inr idx_eq_Inr by (auto simp: rbind_eq_Inr)
  show ?thesis
  proof (cases none)
    case True
    with none assms(4) have "rule_answers g r = {}" by (intro empty_relation_answers) (simp_all split: if_splits)
    moreover from run True same assms(6) have "bs = []" "indexes_ok g (x_indexes x')" by (auto split: if_splits)
    ultimately show ?thesis by simp
  next
    case False
    with run obtain x1 q found where f: "find_matches ?x rid r only = Inr (x1, q, found)"
      and u: "unique_bindings r (filter (fresh_binding x rid r only) found) = Inr bs" and x': "x' = x1\<lparr>x_indexes := q\<rparr>"
      by (auto simp: rbind_eq_Inr)
    have "plan_ok x rid (r_query r)" using accepted_plan_ok [of env x raw p raw' rid] assms(2,3,9-11) by simp
    then have plan: "plan_ok ?x rid (r_query r)" by (simp add: plan_ok_def)
    have pend: "only \<or> \<not> r_seminaive r \<or> pending_ok ?x rid r" using assms(12) by (auto simp: pending_ok_def)
    have due: "due ?x rid r only = due x rid r only" "fresh_binding ?x rid r only = fresh_binding x rid r only"
      by (auto simp: due_def fresh_binding_def fun_eq_iff)
    from find_matches_finds [OF assms(4,5) plan same(1) _ _ assms(8) pend f] assms(6,7) same
    have res: "indexes_ok g q" "outcome ` set (filter (fresh_binding x rid r only) found) = ?A"
      by (simp_all add: due)
    note us = unique_bindings_keys [OF u]
    have "(inputs_in r \<circ> bd_values) ` set (filter (fresh_binding x rid r only) found) = (inputs_in r \<circ> fst) ` ?A"
      unfolding res(2) [symmetric] image_image by (simp add: outcome_def)
    moreover have "\<forall>b \<in> set bs. (bd_values b, bd_epoch b) \<in> rule_answers g r"
    proof
      fix b assume "b \<in> set bs"
      then have "outcome b \<in> ?A" unfolding res(2) [symmetric] using us(2) by blast
      then show "(bd_values b, bd_epoch b) \<in> rule_answers g r" by (simp add: outcome_def)
    qed
    ultimately show ?thesis using us(1) res(1) x' by simp
  qed
qed

text \<open>The rule \<open>F(x, 0)\<close> after the row \<open>F(5) = 0\<close> was delivered.\<close>

definition port_executor :: executor where
  "port_executor = \<lparr>x_graph = port_graph, x_plan = no_stages, x_settings = settings_of (\<lambda>_. None), x_watermarks = [0],
     x_dirty = {0}, x_pending = [{DFunction 0}], x_readers = [[0]], x_indexes = small_index\<rparr>"

lemma port_fields: "g_views_enabled port_graph = False" "g_marker_fields_copied port_graph = False"
  "g_known_mode port_graph = KOff" "p_rules (g_program port_graph) = [port_rule]" "length (g_templates port_graph) = 1"
  "p_views (g_program port_graph) = no_views" "origin port_graph (DFunction 0) = None"
  "p_merge_programs (g_program port_graph) = no_merges"
  by (simp_all add: port_graph_def unary_empty_def empty_graph_def unary_program_def Let_def origin_def get_at_def)

lemma port_pending: "pending_ok port_executor 0 port_rule"
  unfolding pending_ok_def Let_def port_executor_def executor.simps
  by (auto simp: port_visible port_graph_simps(5) port_row_def reads_table_def port_rule_def port_query_def)

lemma matches_exact_witness:
  "\<exists>x' b. matches port_executor 0 False = Inr (x', [b]) \<and> bd_values b = [0 \<mapsto> VEq 5] \<and> x_pending x' = [{}] \<and>
     (inputs_in port_rule \<circ> fst) ` {a \<in> rule_answers port_graph port_rule. due port_executor 0 port_rule False (snd a)} = {[VEq 5]}"
proof -
  have q: "r_query port_rule = port_query" "r_direct port_rule = Some 0" "r_inputs port_rule = [0]" "r_seminaive port_rule"
    "r_template port_rule = 0" by (simp_all add: port_rule_def)
  have pq: "port_query ! 0 = \<lparr>a_call = CTable 0, a_args = [Slot 0, Literal (VInt 0)]\<rparr>" "length port_query = 1"
    by (simp_all add: port_query_def)
  have x: "x_graph port_executor = port_graph" "x_plan port_executor = no_stages" "x_settings port_executor = settings_of (\<lambda>_. None)"
    "x_watermarks port_executor = [0]" "x_dirty port_executor = {0}" "x_pending port_executor = [{DFunction 0}]"
    "x_indexes port_executor = small_index" by (simp_all add: port_executor_def)
  let ?x = "port_executor\<lparr>x_dirty := {}\<rparr>"
  have w: "workspace port_graph 0 port_rule False = Inr (env_new 0 False 0)"
    by (simp add: workspace_def port_fields q witness_slots_def know_query_def reference_rule_def rule_layout_def no_views_def)
  let ?e = "(env_new 0 False 0)\<lparr>ev_values := [0 \<mapsto> VEq 5], ev_trail := [0]\<rparr>"
  have b: "bind_all port_graph (zip (a_args (port_query ! 0)) (rw_values port_row)) (env_new 0 False 0) = (?e, True)"
    by (simp add: pq port_row_def env_new_def)
  let ?b = "binding_of (env_record 0 (Some (DFunction 0)) ?e) 0 True"
  have row: "direct_row ?x 0 port_rule False 0 port_row (small_index, []) = Inr (small_index, [?b])"
    using w b by (simp add: direct_row_def x q pq run_entry_def default_settings no_stages_def complete_seed_def seed_start_def
        port_row_def port_fields del: bind_all.simps)
  have "direct_seed ?x 0 port_rule False 0 (DFunction 0) (small_index, []) = Inr (small_index, [?b])"
    using row by (simp add: direct_seed_def x port_graph_simps port_row_def)
  then have "find_matches ?x 0 port_rule False = Inr (?x\<lparr>x_pending := [{}]\<rparr>, small_index, [?b])"
    by (simp add: find_matches_def direct_matches_def q pq idx_def get_at_def x)
  moreover have "unique_bindings port_rule [?b] = Inr [?b]"
    by (simp add: unique_bindings_def input_key_def q binding_of_def env_record_def)
  moreover have "empty_relation port_graph port_query = Inr False"
    by (simp add: port_query_def port_graph_simps)
  ultimately have run: "matches port_executor 0 False = Inr (?x\<lparr>x_pending := [{}], x_indexes := small_index\<rparr>, [?b])"
    by (simp add: matches_def x port_fields q idx_def get_at_def Let_def default_settings fresh_binding_def)
  let ?A = "(inputs_in port_rule \<circ> fst) ` {a \<in> rule_answers port_graph port_rule. due port_executor 0 port_rule False (snd a)}"
  have ok: "atoms_ok port_graph (r_query port_rule)"
    by (simp add: q atoms_ok_def port_query_def arity_def port_graph_simps port_table_def unary_def)
  have idx: "indexes_ok port_graph (x_indexes port_executor)" by (simp add: x indexes_ok_def small_index_def)
  have dir: "r_direct port_rule = query_direct (r_query port_rule)" by (simp add: q query_direct_def port_query_def)
  have plan: "parse_multistage (\<lambda>_. None) (g_program port_graph) JNull = Inr (x_plan port_executor)"
    by (simp add: parse_multistage_def x)
  have merges: "parse_merges (g_program port_graph) JNull = Inr (p_merge_programs (g_program port_graph))"
    by (simp add: parse_merges_def port_fields)
  have "map (inputs_in port_rule \<circ> bd_values) [?b] = sorted_list_of_set ?A"
    using matches_exact [OF run _ x(1) port_keyed ok idx _ dir plan merges refl] port_pending
    by (simp add: port_fields x default_settings access_of_def)
  moreover have "inputs_in port_rule (bd_values ?b) = [VEq 5]" by (simp add: inputs_in_def q binding_of_def env_record_def)
  ultimately have A: "sorted_list_of_set ?A = [[VEq 5]]" by simp
  have "finite ?A"
  proof (rule ccontr)
    assume "infinite ?A"
    then have "sorted_list_of_set ?A = []" by simp
    with A show False by simp
  qed
  with arg_cong [OF A, of set] have "?A = {[VEq 5]}" by (simp only: set_sorted_list_of_set list.set)
  moreover have "bd_values ?b = [0 \<mapsto> VEq 5]" by (simp add: binding_of_def env_record_def)
  moreover have "x_pending (?x\<lparr>x_pending := [{}], x_indexes := small_index\<rparr>) = [{}]" by simp
  ultimately show ?thesis using run by blast
qed

end
