(* ===== verification/Schedule.thy ===== *)
theory Schedule
  imports Json
begin

text \<open>
  The schedule interpreter: the tasks of \<open>engine/cell-runtime/src/schedule.rs\<close> and the loop
  \<open>execute_until\<close> of \<open>runtime.rs\<close>, which keeps a stack of tasks so that it can stop between two runs.
  The operations \<open>run\<close> and \<open>probe\<close> of the executor are arguments. The top of the stack is the head of
  the list; a step keeps the ruleset, its place in the
  schedule and the change flag, and not what the executor reports beside them (epoch, counts, times). The specification is a big-step
  semantics of the schedule document, and the interpreter refines it.
\<close>

section \<open>Tasks\<close>

datatype task =
    Eval json "nat list" "nat list"
  | Repeat json nat nat nat "nat list" "nat list"
  | Saturate json nat nat "nat list" "nat list"

record step =
  st_ruleset :: string
  st_path :: "nat list"
  st_iterations :: "nat list"
  st_changed :: bool

record 'e runner_ops =
  op_run :: "string \<Rightarrow> 'e \<Rightarrow> ('e \<times> bool) res"
  op_probe :: "string \<Rightarrow> 'e \<Rightarrow> ('e \<times> bool) res"

record 'e machine =
  m_exec :: 'e
  m_tasks :: "task list"
  m_steps :: "step list"

definition initial_tasks :: "json list \<Rightarrow> task list" where
  "initial_tasks control = map (\<lambda>(i, node). Eval node [i] []) (enumerate 0 control)"

definition push_tasks :: "task list \<Rightarrow> 'e machine \<Rightarrow> 'e machine" where
  "push_tasks ts m = m\<lparr>m_tasks := ts @ m_tasks m\<rparr>"

definition changed_since :: "nat \<Rightarrow> 'e machine \<Rightarrow> bool" where
  "changed_since start m \<longleftrightarrow> (\<exists>s \<in> set (drop start (m_steps m)). st_changed s)"

text \<open>A run of a ruleset, with the step it records.\<close>

definition run_set :: "'e runner_ops \<Rightarrow> string \<Rightarrow> nat list \<Rightarrow> nat list \<Rightarrow> 'e machine \<Rightarrow> 'e machine res" where
  "run_set ops set' path its m =
     rbind (op_run ops set' (m_exec m)) (\<lambda>(e, changed).
     Inr (m\<lparr>m_exec := e, m_steps := m_steps m @
       [\<lparr>st_ruleset = set', st_path = path, st_iterations = its, st_changed = changed\<rparr>]\<rparr>))"

definition probe_set :: "'e runner_ops \<Rightarrow> string \<Rightarrow> 'e machine \<Rightarrow> ('e machine \<times> bool) res" where
  "probe_set ops set' m = rbind (op_probe ops set' (m_exec m)) (\<lambda>(e, b). Inr (m\<lparr>m_exec := e\<rparr>, b))"

definition eval_run :: "'e runner_ops \<Rightarrow> string \<Rightarrow> json \<Rightarrow> nat list \<Rightarrow> nat list \<Rightarrow> 'e machine \<Rightarrow> 'e machine res" where
  "eval_run ops set' node path its m0 =
     rbind (case as_str (jfield node ''until_run'') of
         Some p \<Rightarrow> probe_set ops p m0 | None \<Rightarrow> Inr (m0, False)) (\<lambda>(m, done').
     if done' then Inr m
     else if as_bool (jfield node ''assert'') = Some True then
       rbind (probe_set ops set' m) (\<lambda>(m1, b).
       if b then Inr m1 else Inl (Err (''source check failed: '' @ set')))
     else if jfield node ''until'' \<noteq> JNull \<or> jfield node ''assert_table'' \<noteq> JNull then
       Inl (Err ''unlowered source probe'')
     else run_set ops set' path its m)"

definition eval_node :: "'e runner_ops \<Rightarrow> json \<Rightarrow> nat list \<Rightarrow> nat list \<Rightarrow> 'e machine \<Rightarrow> 'e machine res" where
  "eval_node ops node path its m =
     (case as_str (jfield node ''run'') of
        Some set' \<Rightarrow> eval_run ops set' node path its m
      | None \<Rightarrow>
     (case as_array (jfield node ''sequence'') of
        Some seq \<Rightarrow> Inr (push_tasks (map (\<lambda>(i, child). Eval child (path @ [i]) its) (enumerate 0 seq)) m)
      | None \<Rightarrow>
     (case as_u64 (jfield node ''repeat'') of
        Some count \<Rightarrow>
          Inr (if count > 0
            then push_tasks [Repeat (jfield node ''body'') count 0 (length (m_steps m)) path its] m else m)
      | None \<Rightarrow>
          if jfield node ''saturate'' \<noteq> JNull then
            (let body = jfield node ''saturate'' in
             Inr (push_tasks [Eval body path (its @ [0]), Saturate body 0 (length (m_steps m)) path its] m))
          else Inl (Err ''unknown schedule instruction''))))"

definition exec_task :: "'e runner_ops \<Rightarrow> task \<Rightarrow> 'e machine \<Rightarrow> 'e machine res" where
  "exec_task ops task m =
     (case task of
        Eval node path its \<Rightarrow> eval_node ops node path its m
      | Repeat body count nxt start path its \<Rightarrow>
          if nxt > 0 \<and> \<not> changed_since start m then Inr m
          else if nxt < count then
            Inr (push_tasks [Eval body path (its @ [nxt]),
              Repeat body count (nxt + 1) (length (m_steps m)) path its] m)
          else Inr m
      | Saturate body iteration start path its \<Rightarrow>
          if changed_since start m then
            if int iteration + 1 \<ge> 2 ^ 64 then Inl (Err ''saturation occurrence exhausted'')
            else Inr (push_tasks [Eval body path (its @ [iteration + 1]),
              Saturate body (iteration + 1) (length (m_steps m)) path its] m)
          else Inr m)"

definition exec_next :: "'e runner_ops \<Rightarrow> 'e machine \<Rightarrow> 'e machine res" where
  "exec_next ops m =
     (case m_tasks m of [] \<Rightarrow> Inr m | t # ts \<Rightarrow> exec_task ops t (m\<lparr>m_tasks := ts\<rparr>))"

definition halted :: "nat option \<Rightarrow> 'e machine \<Rightarrow> bool" where
  "halted stop m \<longleftrightarrow> m_tasks m = [] \<or> (\<exists>n. stop = Some n \<and> length (m_steps m) \<ge> n)"

text \<open>A saturation may never end; \<open>fuel\<close> bounds the turns of the loop.\<close>

fun execute_until :: "nat \<Rightarrow> 'e runner_ops \<Rightarrow> nat option \<Rightarrow> 'e machine \<Rightarrow> 'e machine res" where
  "execute_until fuel ops stop m =
     (if halted stop m then Inr m
      else case fuel of 0 \<Rightarrow> Inl Diverge
      | Suc n \<Rightarrow> rbind (exec_next ops m) (execute_until n ops stop))"

declare execute_until.simps [simp del]

definition execute :: "nat \<Rightarrow> 'e runner_ops \<Rightarrow> 'e machine \<Rightarrow> 'e machine res" where
  "execute fuel ops = execute_until fuel ops None"

section \<open>What a schedule means\<close>

text \<open>
  \<open>sem ops node path its e e' tr\<close>: the document \<open>node\<close> takes the executor from \<open>e\<close> to \<open>e'\<close> and records
  the steps \<open>tr\<close>. A repetition stops early after an iteration that changed nothing, a saturation after
  the first such iteration.
\<close>

definition changes :: "step list \<Rightarrow> bool" where
  "changes tr \<longleftrightarrow> (\<exists>s \<in> set tr. st_changed s)"

definition unless :: "'e runner_ops \<Rightarrow> json \<Rightarrow> 'e \<Rightarrow> 'e \<Rightarrow> bool" where
  "unless ops node e e1 \<longleftrightarrow> (case as_str (jfield node ''until_run'') of
     None \<Rightarrow> e1 = e | Some p \<Rightarrow> op_probe ops p e = Inr (e1, False))"

inductive sem :: "'e runner_ops \<Rightarrow> json \<Rightarrow> nat list \<Rightarrow> nat list \<Rightarrow> 'e \<Rightarrow> 'e \<Rightarrow> step list \<Rightarrow> bool"
  and sems :: "'e runner_ops \<Rightarrow> (nat \<times> json) list \<Rightarrow> nat list \<Rightarrow> nat list \<Rightarrow> 'e \<Rightarrow> 'e \<Rightarrow> step list \<Rightarrow> bool"
  and rep :: "'e runner_ops \<Rightarrow> json \<Rightarrow> nat \<Rightarrow> nat \<Rightarrow> nat list \<Rightarrow> nat list \<Rightarrow> 'e \<Rightarrow> 'e \<Rightarrow> step list \<Rightarrow> bool"
  and sat :: "'e runner_ops \<Rightarrow> json \<Rightarrow> nat \<Rightarrow> nat list \<Rightarrow> nat list \<Rightarrow> 'e \<Rightarrow> 'e \<Rightarrow> step list \<Rightarrow> bool"
  for ops :: "'e runner_ops"
where
  until: "jfield node ''run'' = JStr s \<Longrightarrow> jfield node ''until_run'' = JStr p \<Longrightarrow>
    op_probe ops p e = Inr (e', True) \<Longrightarrow> sem ops node path its e e' []"
| check: "jfield node ''run'' = JStr s \<Longrightarrow> unless ops node e e1 \<Longrightarrow> jfield node ''assert'' = JBool True \<Longrightarrow>
    op_probe ops s e1 = Inr (e', True) \<Longrightarrow> sem ops node path its e e' []"
| run: "jfield node ''run'' = JStr s \<Longrightarrow> unless ops node e e1 \<Longrightarrow> jfield node ''assert'' \<noteq> JBool True \<Longrightarrow>
    jfield node ''until'' = JNull \<Longrightarrow> jfield node ''assert_table'' = JNull \<Longrightarrow>
    op_run ops s e1 = Inr (e', c) \<Longrightarrow>
    sem ops node path its e e' [\<lparr>st_ruleset = s, st_path = path, st_iterations = its, st_changed = c\<rparr>]"
| seq: "as_str (jfield node ''run'') = None \<Longrightarrow> jfield node ''sequence'' = JArr ns \<Longrightarrow>
    sems ops (enumerate 0 ns) path its e e' tr \<Longrightarrow> sem ops node path its e e' tr"
| rep: "as_str (jfield node ''run'') = None \<Longrightarrow> as_array (jfield node ''sequence'') = None \<Longrightarrow>
    as_u64 (jfield node ''repeat'') = Some count \<Longrightarrow>
    rep ops (jfield node ''body'') count 0 path its e e' tr \<Longrightarrow> sem ops node path its e e' tr"
| sat: "as_str (jfield node ''run'') = None \<Longrightarrow> as_array (jfield node ''sequence'') = None \<Longrightarrow>
    as_u64 (jfield node ''repeat'') = None \<Longrightarrow> jfield node ''saturate'' \<noteq> JNull \<Longrightarrow>
    sat ops (jfield node ''saturate'') 0 path its e e' tr \<Longrightarrow> sem ops node path its e e' tr"
| sems_Nil: "sems ops [] path its e e []"
| sems_Cons: "sem ops n (path @ [i]) its e e1 tr1 \<Longrightarrow> sems ops ns path its e1 e2 tr2 \<Longrightarrow>
    sems ops ((i, n) # ns) path its e e2 (tr1 @ tr2)"
| rep_end: "count \<le> k \<Longrightarrow> rep ops body count k path its e e []"
| rep_stop: "k < count \<Longrightarrow> sem ops body path (its @ [k]) e e1 tr \<Longrightarrow> \<not> changes tr \<Longrightarrow>
    rep ops body count k path its e e1 tr"
| rep_next: "k < count \<Longrightarrow> sem ops body path (its @ [k]) e e1 tr1 \<Longrightarrow> changes tr1 \<Longrightarrow>
    rep ops body count (k + 1) path its e1 e2 tr2 \<Longrightarrow> rep ops body count k path its e e2 (tr1 @ tr2)"
| sat_stop: "sem ops body path (its @ [k]) e e1 tr \<Longrightarrow> \<not> changes tr \<Longrightarrow> sat ops body k path its e e1 tr"
| sat_next: "sem ops body path (its @ [k]) e e1 tr1 \<Longrightarrow> changes tr1 \<Longrightarrow> int k + 1 < 2 ^ 64 \<Longrightarrow>
    sat ops body (k + 1) path its e1 e2 tr2 \<Longrightarrow> sat ops body k path its e e2 (tr1 @ tr2)"

section \<open>The interpreter does what the schedule means\<close>

abbreviation mach :: "'e \<Rightarrow> task list \<Rightarrow> step list \<Rightarrow> 'e machine" where
  "mach e ts s \<equiv> \<lparr>m_exec = e, m_tasks = ts, m_steps = s\<rparr>"

definition seq_tasks :: "(nat \<times> json) list \<Rightarrow> nat list \<Rightarrow> nat list \<Rightarrow> task list" where
  "seq_tasks ns path its = map (\<lambda>(i, child). Eval child (path @ [i]) its) ns"

lemma seq_tasks_simps [simp]: "seq_tasks [] path its = []"
  "seq_tasks ((i, n) # ns) path its = Eval n (path @ [i]) its # seq_tasks ns path its"
  by (simp_all add: seq_tasks_def)

lemma as_bool_Some [simp]: "as_bool j = Some b \<longleftrightarrow> j = JBool b"
  by (cases j) auto

lemma changed_since_append [simp]: "changed_since (length s) (mach e ts (s @ tr)) = changes tr"
  by (simp add: changed_since_def changes_def)

lemma sem_run_cases:
  assumes "jfield node ''run'' = JStr r" "eval_run ops r node path its (mach e ts s) = Inr m"
  shows "\<exists>e1 tr. m = mach e1 ts (s @ tr) \<and> sem ops node path its e e1 tr"
proof -
  from assms(2) obtain m1 b where u: "(case as_str (jfield node ''until_run'') of
         Some p \<Rightarrow> probe_set ops p (mach e ts s) | None \<Rightarrow> Inr (mach e ts s, False)) = Inr (m1, b)"
    and rest: "(if b then Inr m1
     else if as_bool (jfield node ''assert'') = Some True then
       rbind (probe_set ops r m1) (\<lambda>(m1, b). if b then Inr m1 else Inl (Err (''source check failed: '' @ r)))
     else if jfield node ''until'' \<noteq> JNull \<or> jfield node ''assert_table'' \<noteq> JNull then
       Inl (Err ''unlowered source probe'')
     else run_set ops r path its m1) = Inr m"
    by (auto simp: eval_run_def rbind_eq_Inr)
  from u obtain e1 where m1: "m1 = mach e1 ts s"
    and e1: "if b then \<exists>p. jfield node ''until_run'' = JStr p \<and> op_probe ops p e = Inr (e1, True) else unless ops node e e1"
    by (auto simp: probe_set_def unless_def rbind_eq_Inr split: option.splits)
  show ?thesis
  proof (cases b)
    case True
    with e1 rest m1 assms(1) show ?thesis by (fastforce intro: until)
  next
    case False
    with rest m1 e1 assms(1) show ?thesis
      by (cases "jfield node ''assert'' = JBool True")
        (fastforce simp: probe_set_def run_set_def rbind_eq_Inr intro: check sem_sems_rep_sat.run split: if_splits)+
  qed
qed

lemma eval_run_sem:
  assumes "jfield node ''run'' = JStr r" "sem ops node path its e e' tr"
  shows "eval_run ops r node path its (mach e ts s) = Inr (mach e' ts (s @ tr))"
  using assms(2,1)
  by (cases rule: sem.cases)
    (auto simp: eval_run_def probe_set_def run_set_def unless_def split: option.splits)

definition next_task :: "'e runner_ops \<Rightarrow> 'e machine \<Rightarrow> 'e machine \<Rightarrow> bool" where
  "next_task ops m m' \<longleftrightarrow> m_tasks m \<noteq> [] \<and> exec_next ops m = Inr m'"

abbreviation reaches :: "'e runner_ops \<Rightarrow> 'e machine \<Rightarrow> 'e machine \<Rightarrow> bool" where
  "reaches ops \<equiv> (next_task ops)\<^sup>*\<^sup>*"

lemma next_eval: "eval_node ops node path its (mach e ts s) = Inr m \<Longrightarrow>
    next_task ops (mach e (Eval node path its # ts) s) m"
  by (simp add: next_task_def exec_next_def exec_task_def)

lemma run_reaches:
  assumes "jfield node ''run'' = JStr r" "sem ops node path its e e' tr"
  shows "reaches ops (mach e (Eval node path its # ts) s) (mach e' ts (s @ tr))"
  using eval_run_sem [OF assms] assms(1) by (intro r_into_rtranclp next_eval) (simp add: eval_node_def)

lemma sem_reaches:
  "sem ops node path its e e' tr \<Longrightarrow> reaches ops (mach e (Eval node path its # ts) s) (mach e' ts (s @ tr))"
  "sems ops ns path its e e' tr \<Longrightarrow> reaches ops (mach e (seq_tasks ns path its @ ts) s) (mach e' ts (s @ tr))"
  "rep ops body count k path its e e' tr \<Longrightarrow> k = 0 \<or> changed_since start (mach e [] s) \<Longrightarrow>
    reaches ops (mach e (Repeat body count k start path its # ts) s) (mach e' ts (s @ tr))"
  "sat ops body k path its e e' tr \<Longrightarrow>
    reaches ops (mach e (Eval body path (its @ [k]) # Saturate body k (length s) path its # ts) s) (mach e' ts (s @ tr))"
proof (induction arbitrary: ts s and ts s and ts s start and ts s rule: sem_sems_rep_sat.inducts)
  case (until node r p e e' path its)
  from run_reaches [OF this(1) sem_sems_rep_sat.until [OF this]] show ?case by simp
next
  case (check node r e e1 e' path its)
  from run_reaches [OF this(1) sem_sems_rep_sat.check [OF this(1,3,2,4)]] show ?case by simp
next
  case (run node r e e1 e' c path its)
  from run_reaches [OF this(1) sem_sems_rep_sat.run [OF this(1,5,2,3,4,6)]] show ?case by simp
next
  case (seq node ns path its e e' tr)
  then have "next_task ops (mach e (Eval node path its # ts) s) (mach e (seq_tasks (enumerate 0 ns) path its @ ts) s)"
    by (intro next_eval) (simp add: eval_node_def push_tasks_def seq_tasks_def del: as_str_Some)
  then show ?case using seq.IH(2) by (rule converse_rtranclp_into_rtranclp)
next
  case (rep node count path its e e' tr)
  show ?case
  proof (cases "count = 0")
    case True
    with rep have "next_task ops (mach e (Eval node path its # ts) s) (mach e ts s)"
      by (intro next_eval) (simp add: eval_node_def del: as_str_Some as_array_Some)
    moreover have "e' = e" "tr = []" using rep.IH(1) True by (auto elim: rep.cases)
    ultimately show ?thesis by auto
  next
    case False
    with rep have "next_task ops (mach e (Eval node path its # ts) s)
        (mach e (Repeat (jfield node ''body'') count 0 (length s) path its # ts) s)"
      by (intro next_eval) (simp add: eval_node_def push_tasks_def del: as_str_Some as_array_Some)
    then show ?thesis using rep.IH(2) by (rule converse_rtranclp_into_rtranclp) simp
  qed
next
  case (sat node path its e e' tr)
  then have "next_task ops (mach e (Eval node path its # ts) s)
      (mach e (Eval (jfield node ''saturate'') path (its @ [0]) # Saturate (jfield node ''saturate'') 0 (length s) path its # ts) s)"
    by (intro next_eval) (simp add: eval_node_def push_tasks_def Let_def del: as_str_Some as_array_Some)
  then show ?case using sat.IH(2) by (rule converse_rtranclp_into_rtranclp)
next
  case (sems_Cons n path i its e e1 tr1 ns e2 tr2)
  from sems_Cons.IH(2) [of "seq_tasks ns path its @ ts" s] sems_Cons.IH(4) [of ts "s @ tr1"]
  show ?case by simp
next
  case (rep_end count k body path its e)
  then have "next_task ops (mach e (Repeat body count k start path its # ts) s) (mach e ts s)"
    by (simp add: next_task_def exec_next_def exec_task_def)
  then show ?case by auto
next
  case (rep_stop k count body path its e e1 tr)
  let ?R = "Repeat body count (k + 1) (length s) path its"
  have "next_task ops (mach e (Repeat body count k start path its # ts) s) (mach e (Eval body path (its @ [k]) # ?R # ts) s)"
    using rep_stop.hyps rep_stop.prems by (auto simp: next_task_def exec_next_def exec_task_def push_tasks_def changed_since_def)
  moreover have "next_task ops (mach e1 (?R # ts) (s @ tr)) (mach e1 ts (s @ tr))"
    using rep_stop.hyps(2) by (simp add: next_task_def exec_next_def exec_task_def)
  ultimately show ?case
    using rep_stop.IH(2) [of "?R # ts" s] by (meson converse_rtranclp_into_rtranclp rtranclp.rtrancl_into_rtrancl)
next
  case (rep_next k count body path its e e1 tr1 e2 tr2)
  let ?R = "Repeat body count (k + 1) (length s) path its"
  have "next_task ops (mach e (Repeat body count k start path its # ts) s) (mach e (Eval body path (its @ [k]) # ?R # ts) s)"
    using rep_next.hyps rep_next.prems by (auto simp: next_task_def exec_next_def exec_task_def push_tasks_def changed_since_def)
  moreover have "reaches ops (mach e1 (?R # ts) (s @ tr1)) (mach e2 ts ((s @ tr1) @ tr2))"
    by (rule rep_next.IH(4)) (simp add: rep_next.hyps(2))
  ultimately show ?case
    using rep_next.IH(2) [of "?R # ts" s] by (auto intro: converse_rtranclp_into_rtranclp rtranclp_trans)
next
  case (sat_stop body path its k e e1 tr)
  have "next_task ops (mach e1 (Saturate body k (length s) path its # ts) (s @ tr)) (mach e1 ts (s @ tr))"
    using sat_stop.hyps(1) by (simp add: next_task_def exec_next_def exec_task_def)
  with sat_stop.IH(2) [of "Saturate body k (length s) path its # ts" s] show ?case
    by (rule rtranclp.rtrancl_into_rtrancl)
next
  case (sat_next body path its k e e1 tr1 e2 tr2)
  have "next_task ops (mach e1 (Saturate body k (length s) path its # ts) (s @ tr1))
      (mach e1 (Eval body path (its @ [k + 1]) # Saturate body (k + 1) (length (s @ tr1)) path its # ts) (s @ tr1))"
    using sat_next.hyps(1,2) by (simp add: next_task_def exec_next_def exec_task_def push_tasks_def)
  from rtranclp_trans [OF sat_next.IH(2) [where ts = "Saturate body k (length s) path its # ts" and s = s]
      converse_rtranclp_into_rtranclp [OF this sat_next.IH(4) [where ts = ts and s = "s @ tr1"]]]
  show ?case by simp
qed simp_all

lemma reaches_execute: "reaches ops m m' \<Longrightarrow> m_tasks m' = [] \<Longrightarrow> \<exists>n. execute n ops m = Inr m'"
proof (induction rule: converse_rtranclp_induct)
  case base
  then show ?case by (intro exI [of _ 0]) (simp add: execute_def execute_until.simps halted_def)
next
  case (step m m1)
  then obtain n where "execute n ops m1 = Inr m'" by blast
  with step.hyps(1) show ?case
    by (intro exI [of _ "Suc n"]) (simp add: next_task_def execute_def execute_until.simps [of "Suc n"] halted_def)
qed

lemma execute_task: "execute n ops (mach e (t # ts) s) = Inr m' \<Longrightarrow>
    \<exists>k m1. n = Suc k \<and> exec_task ops t (mach e ts s) = Inr m1 \<and> execute k ops m1 = Inr m'"
  by (cases n) (auto simp: execute_def execute_until.simps [of 0] execute_until.simps [of "Suc k" for k] halted_def
      exec_next_def rbind_eq_Inr)

text \<open>A run that ends has passed the point where its first task was done.\<close>

definition passes :: "'e runner_ops \<Rightarrow> nat \<Rightarrow> 'e machine \<Rightarrow> ('e \<Rightarrow> step list \<Rightarrow> bool) \<Rightarrow> task list \<Rightarrow> step list \<Rightarrow> bool" where
  "passes ops n m' R ts s \<longleftrightarrow> (\<exists>k e1 tr. k < n \<and> R e1 tr \<and> execute k ops (mach e1 ts (s @ tr)) = Inr m')"

lemma seq_passes:
  assumes "\<And>n node path its e ts s. n \<le> b \<Longrightarrow> execute n ops (mach e (Eval node path its # ts) s) = Inr m' \<Longrightarrow>
      passes ops n m' (sem ops node path its e) ts s"
    and "n \<le> b" "execute n ops (mach e (seq_tasks ns path its @ ts) s) = Inr m'"
  shows "passes ops (Suc n) m' (sems ops ns path its e) ts s"
  using assms(2,3)
proof (induction ns arbitrary: n e s)
  case Nil
  then show ?case
    unfolding passes_def by (intro exI [of _ n] exI [of _ e] exI [of _ "[]"]) (simp add: sems_Nil)
next
  case (Cons x ns)
  obtain i node where x: "x = (i, node)" by (cases x)
  have "passes ops n m' (sem ops node (path @ [i]) its e) (seq_tasks ns path its @ ts) s"
    by (rule assms(1)) (use Cons.prems in \<open>simp_all add: x\<close>)
  then obtain k e1 tr where k: "k < n" "sem ops node (path @ [i]) its e e1 tr"
    "execute k ops (mach e1 (seq_tasks ns path its @ ts) (s @ tr)) = Inr m'"
    unfolding passes_def by blast
  have "passes ops (Suc k) m' (sems ops ns path its e1) ts (s @ tr)"
    by (rule Cons.IH) (use k Cons.prems in simp_all)
  then obtain j e2 tr2 where j: "j < Suc k" "sems ops ns path its e1 e2 tr2"
    "execute j ops (mach e2 ts ((s @ tr) @ tr2)) = Inr m'"
    unfolding passes_def by blast
  show ?case
    unfolding passes_def x using k j
    by (intro exI [of _ j] exI [of _ e2] exI [of _ "tr @ tr2"]) (simp add: sems_Cons)
qed

definition evals_pass :: "'e runner_ops \<Rightarrow> 'e machine \<Rightarrow> nat \<Rightarrow> bool" where
  "evals_pass ops m' n \<longleftrightarrow> (\<forall>e node path its ts s. execute n ops (mach e (Eval node path its # ts) s) = Inr m' \<longrightarrow>
     passes ops n m' (sem ops node path its e) ts s)"

definition repeats_pass :: "'e runner_ops \<Rightarrow> 'e machine \<Rightarrow> nat \<Rightarrow> bool" where
  "repeats_pass ops m' n \<longleftrightarrow> (\<forall>e body count k start path its ts s. k = 0 \<or> changed_since start (mach e [] s) \<longrightarrow>
     execute n ops (mach e (Repeat body count k start path its # ts) s) = Inr m' \<longrightarrow>
     passes ops n m' (rep ops body count k path its e) ts s)"

definition saturates_pass :: "'e runner_ops \<Rightarrow> 'e machine \<Rightarrow> nat \<Rightarrow> bool" where
  "saturates_pass ops m' n \<longleftrightarrow> (\<forall>e body k path its ts s.
     execute n ops (mach e (Eval body path (its @ [k]) # Saturate body k (length s) path its # ts) s) = Inr m' \<longrightarrow>
     passes ops n m' (sat ops body k path its e) ts s)"

lemma passesI: "execute k ops (mach e1 ts (s @ tr)) = Inr m' \<Longrightarrow> R e1 tr \<Longrightarrow> k < n \<Longrightarrow> passes ops n m' R ts s"
  unfolding passes_def by blast

lemma passes_mono: "passes ops k m' R ts s \<Longrightarrow> k \<le> n \<Longrightarrow> (\<And>e tr. R e tr \<Longrightarrow> Q e tr) \<Longrightarrow> passes ops n m' Q ts s"
  unfolding passes_def by (meson less_le_trans)

lemma evals_passD: "evals_pass ops m' n \<Longrightarrow> execute n ops (mach e (Eval node path its # ts) s) = Inr m' \<Longrightarrow>
    passes ops n m' (sem ops node path its e) ts s"
  unfolding evals_pass_def by blast

lemma repeats_passD: "repeats_pass ops m' n \<Longrightarrow>
    execute n ops (mach e (Repeat body count k start path its # ts) s) = Inr m' \<Longrightarrow>
    k = 0 \<or> changed_since start (mach e [] s) \<Longrightarrow> passes ops n m' (rep ops body count k path its e) ts s"
  unfolding repeats_pass_def by blast

lemma saturates_passD: "saturates_pass ops m' n \<Longrightarrow>
    execute n ops (mach e (Eval body path (its @ [k]) # Saturate body k (length s) path its # ts) s) = Inr m' \<Longrightarrow>
    passes ops n m' (sat ops body k path its e) ts s"
  unfolding saturates_pass_def by blast

lemma passesE:
  assumes "passes ops n m' R ts s"
  obtains k e1 tr where "k < n" "R e1 tr" "execute k ops (mach e1 ts (s @ tr)) = Inr m'"
  using assms unfolding passes_def by blast

lemma evals_step:
  assumes IH: "\<forall>b < n. evals_pass ops m' b \<and> repeats_pass ops m' b \<and> saturates_pass ops m' b"
  shows "evals_pass ops m' n"
  unfolding evals_pass_def
proof (intro allI impI)
  fix e node path its ts s
  assume ex: "execute n ops (mach e (Eval node path its # ts) s) = Inr m'"
  from execute_task [OF ex] obtain b m1 where n: "n = Suc b" and m1: "eval_node ops node path its (mach e ts s) = Inr m1"
    "execute b ops m1 = Inr m'"
    by (auto simp: exec_task_def)
  show "passes ops n m' (sem ops node path its e) ts s"
  proof (cases "as_str (jfield node ''run'')")
    case (Some r)
    with m1(1) sem_run_cases [of node r ops path its e ts s m1] obtain e1 tr
      where "m1 = mach e1 ts (s @ tr)" "sem ops node path its e e1 tr" by (auto simp: eval_node_def)
    with m1(2) show ?thesis by (intro passesI [of b]) (simp_all add: n)
  next
    case run: None
    show ?thesis
    proof (cases "as_array (jfield node ''sequence'')")
      case (Some ns)
      with m1 run have "execute b ops (mach e (seq_tasks (enumerate 0 ns) path its @ ts) s) = Inr m'"
        by (auto simp: eval_node_def push_tasks_def seq_tasks_def simp del: as_str_Some)
      from seq_passes [OF _ order_refl this] IH have "passes ops (Suc b) m' (sems ops (enumerate 0 ns) path its e) ts s"
        by (auto simp: n evals_pass_def less_Suc_eq_le)
      then show ?thesis
        by (rule passes_mono) (use n run Some in \<open>auto intro: seq\<close>)
    next
      case seq: None
      show ?thesis
      proof (cases "as_u64 (jfield node ''repeat'')")
        case (Some count)
        note r = sem_sems_rep_sat.rep [OF run seq Some]
        show ?thesis
        proof (cases "count = 0")
          case True
          with m1 run seq Some have "execute b ops (mach e ts s) = Inr m'"
            by (auto simp: eval_node_def simp del: as_str_Some as_array_Some)
          then show ?thesis
            by (intro passesI [of b ops e ts s "[]"] r) (simp_all add: n True rep_end)
        next
          case False
          with m1 run seq Some have "execute b ops (mach e (Repeat (jfield node ''body'') count 0 (length s) path its # ts) s) = Inr m'"
            by (auto simp: eval_node_def push_tasks_def simp del: as_str_Some as_array_Some)
          with IH have "passes ops b m' (rep ops (jfield node ''body'') count 0 path its e) ts s"
            by (auto simp: n repeats_pass_def)
          then show ?thesis by (rule passes_mono) (simp_all add: n r)
        qed
      next
        case u: None
        with m1 run seq have nn: "jfield node ''saturate'' \<noteq> JNull"
          and ex: "execute b ops (mach e (Eval (jfield node ''saturate'') path (its @ [0])
            # Saturate (jfield node ''saturate'') 0 (length s) path its # ts) s) = Inr m'"
          by (auto simp: eval_node_def push_tasks_def Let_def simp del: as_str_Some as_array_Some split: if_splits)
        with IH have "passes ops b m' (sat ops (jfield node ''saturate'') 0 path its e) ts s"
          by (auto simp: n saturates_pass_def)
        then show ?thesis by (rule passes_mono) (simp_all add: n sem_sems_rep_sat.sat [OF run seq u nn])
      qed
    qed
  qed
qed

lemma repeats_step:
  assumes IH: "\<forall>b < n. evals_pass ops m' b \<and> repeats_pass ops m' b"
  shows "repeats_pass ops m' n"
  unfolding repeats_pass_def
proof (intro allI impI)
  fix e body count k start path its ts s
  assume start: "k = 0 \<or> changed_since start (mach e [] s)"
    and ex: "execute n ops (mach e (Repeat body count k start path its # ts) s) = Inr m'"
  from execute_task [OF ex] obtain b m1 where n: "n = Suc b"
    and m1: "exec_task ops (Repeat body count k start path its) (mach e ts s) = Inr m1" "execute b ops m1 = Inr m'"
    by blast
  have ch: "k = 0 \<or> changed_since start (mach e ts s)" using start by (auto simp: changed_since_def)
  show "passes ops n m' (rep ops body count k path its e) ts s"
  proof (cases "k < count")
    case False
    with m1 have "execute b ops (mach e ts s) = Inr m'" by (auto simp: exec_task_def split: if_splits)
    with False show ?thesis by (intro passesI [of b ops e ts s "[]"]) (simp_all add: n rep_end)
  next
    case True
    let ?R = "Repeat body count (k + 1) (length s) path its"
    from True m1 ch have "execute b ops (mach e (Eval body path (its @ [k]) # ?R # ts) s) = Inr m'"
      by (auto simp: exec_task_def push_tasks_def split: if_splits)
    from evals_passD [OF _ this] IH have "passes ops b m' (sem ops body path (its @ [k]) e) (?R # ts) s"
      by (simp add: n)
    then obtain j e1 tr where j: "j < b" "sem ops body path (its @ [k]) e e1 tr"
      "execute j ops (mach e1 (?R # ts) (s @ tr)) = Inr m'" by (rule passesE)
    show ?thesis
    proof (cases "changes tr")
      case False
      with execute_task [OF j(3)] obtain i where "j = Suc i" "execute i ops (mach e1 ts (s @ tr)) = Inr m'"
        by (auto simp: exec_task_def)
      then show ?thesis
        using j(1) n passesI [where R = "rep ops body count k path its e", OF _ rep_stop [OF True j(2) False], of i]
        by simp
    next
      case ch: True
      have "passes ops j m' (rep ops body count (k + 1) path its e1) ts (s @ tr)"
        by (rule repeats_passD [OF _ j(3)]) (use IH j(1) ch in \<open>simp_all add: n\<close>)
      then obtain i e2 tr2 where i: "i < j" "rep ops body count (k + 1) path its e1 e2 tr2"
        "execute i ops (mach e2 ts ((s @ tr) @ tr2)) = Inr m'" unfolding passes_def by blast
      with j(1) n show ?thesis
        by (intro passesI [of i ops e2 ts s "tr @ tr2"] rep_next [OF True j(2) ch]) simp_all
    qed
  qed
qed

lemma saturates_step:
  assumes IH: "evals_pass ops m' n" "\<forall>b < n. saturates_pass ops m' b"
  shows "saturates_pass ops m' n"
  unfolding saturates_pass_def
proof (intro allI impI)
  fix e body k path its ts and s :: "step list"
  let ?S = "Saturate body k (length s) path its"
  assume "execute n ops (mach e (Eval body path (its @ [k]) # ?S # ts) s) = Inr m'"
  from evals_passD [OF IH(1) this] obtain j e1 tr where j: "j < n" "sem ops body path (its @ [k]) e e1 tr"
    "execute j ops (mach e1 (?S # ts) (s @ tr)) = Inr m'" by (rule passesE)
  from execute_task [OF j(3)] obtain i m1 where i: "j = Suc i" "exec_task ops ?S (mach e1 ts (s @ tr)) = Inr m1"
    "execute i ops m1 = Inr m'" by blast
  show "passes ops n m' (sat ops body k path its e) ts s"
  proof (cases "changes tr")
    case False
    with i(2,3) have "execute i ops (mach e1 ts (s @ tr)) = Inr m'" by (auto simp: exec_task_def)
    with i(1) j(1) passesI [where R = "sat ops body k path its e", OF _ sat_stop [OF j(2) False], of i]
    show ?thesis by simp
  next
    case True
    with i(2,3) have k: "int k + 1 < 2 ^ 64" and ex: "execute i ops (mach e1 (Eval body path (its @ [k + 1]) #
        Saturate body (k + 1) (length (s @ tr)) path its # ts) (s @ tr)) = Inr m'"
      by (auto simp: exec_task_def push_tasks_def split: if_splits)
    from saturates_passD [OF _ ex] IH(2) i(1) j(1)
    have "passes ops i m' (sat ops body (k + 1) path its e1) ts (s @ tr)" by simp
    then obtain h e2 tr2 where h: "h < i" "sat ops body (k + 1) path its e1 e2 tr2"
      "execute h ops (mach e2 ts ((s @ tr) @ tr2)) = Inr m'" by (rule passesE)
    with i(1) j(1) show ?thesis
      by (intro passesI [of h ops e2 ts s "tr @ tr2"] sat_next [OF j(2) True k]) simp_all
  qed
qed

lemma execute_passes: "evals_pass ops m' n \<and> repeats_pass ops m' n \<and> saturates_pass ops m' n"
proof (induction n rule: less_induct)
  case (less n)
  have "evals_pass ops m' n" using less.IH by (intro evals_step) blast
  moreover have "repeats_pass ops m' n" using less.IH by (intro repeats_step) blast
  ultimately show ?case using less.IH by (simp add: saturates_step)
qed

text \<open>
  C7. The task stack refines the meaning of the schedule document. The interpreter, started on the
  control program of a recipe with some fuel, ends exactly when the big-step semantics has a result, and
  then in that executor state, with an empty stack, having recorded exactly the steps of the semantics,
  with their paths and iteration numbers: sequences in order, repetitions cut short by an iteration
  without change, saturations run to the first iteration without change.
\<close>

theorem schedule_refines:
  "(\<exists>n. execute n ops \<lparr>m_exec = e, m_tasks = initial_tasks control, m_steps = s\<rparr> = Inr m') \<longleftrightarrow>
   (\<exists>e' tr. sems ops (enumerate 0 control) [] [] e e' tr \<and>
      m' = \<lparr>m_exec = e', m_tasks = [], m_steps = s @ tr\<rparr>)"
proof -
  have start: "initial_tasks control = seq_tasks (enumerate 0 control) [] [] @ []"
    by (simp add: initial_tasks_def seq_tasks_def)
  show ?thesis
  proof
    assume "\<exists>n. execute n ops (mach e (initial_tasks control) s) = Inr m'"
    then obtain n where n: "execute n ops (mach e (seq_tasks (enumerate 0 control) [] [] @ []) s) = Inr m'"
      by (auto simp: start)
    have "passes ops (Suc n) m' (sems ops (enumerate 0 control) [] [] e) [] s"
      by (rule seq_passes [OF _ order_refl n]) (blast intro: evals_passD execute_passes [THEN conjunct1])
    then obtain k e1 tr where "sems ops (enumerate 0 control) [] [] e e1 tr"
      "execute k ops (mach e1 [] (s @ tr)) = Inr m'" unfolding passes_def by blast
    moreover from this(2) have "m' = mach e1 [] (s @ tr)"
      by (simp add: execute_def execute_until.simps [of k] halted_def)
    ultimately show "\<exists>e' tr. sems ops (enumerate 0 control) [] [] e e' tr \<and> m' = mach e' [] (s @ tr)" by blast
  next
    assume "\<exists>e' tr. sems ops (enumerate 0 control) [] [] e e' tr \<and> m' = mach e' [] (s @ tr)"
    then obtain e' tr where "sems ops (enumerate 0 control) [] [] e e' tr" "m' = mach e' [] (s @ tr)" by blast
    from sem_reaches(2) [OF this(1), of "[]" s] reaches_execute this(2)
    show "\<exists>n. execute n ops (mach e (initial_tasks control) s) = Inr m'" by (fastforce simp: start)
  qed
qed

text \<open>
  Stopping between runs does not change what a schedule does: a stack interrupted after any number
  of recorded steps and continued later ends in the same machine, executor, stack and steps, as one that
  was never interrupted.
\<close>

theorem interruption_transparent:
  "(\<exists>n. execute n ops m = Inr m') \<longleftrightarrow>
   (\<exists>a b m1. execute_until a ops (Some k) m = Inr m1 \<and> execute b ops m1 = Inr m')"
proof
  assume "\<exists>n. execute n ops m = Inr m'"
  then obtain n where "execute n ops m = Inr m'" by blast
  then show "\<exists>a b m1. execute_until a ops (Some k) m = Inr m1 \<and> execute b ops m1 = Inr m'"
  proof (induction n arbitrary: m)
    case 0
    then show ?case
      by (intro exI [of _ 0] exI [of _ m]) (auto simp: execute_def execute_until.simps [of 0] halted_def split: if_splits)
  next
    case (Suc n)
    show ?case
    proof (cases "halted (Some k) m")
      case True
      then have "execute_until 0 ops (Some k) m = Inr m" by (simp add: execute_until.simps)
      with Suc.prems show ?thesis by blast
    next
      case False
      then have "\<not> halted None m" by (auto simp: halted_def)
      with Suc.prems obtain m1 where m1: "exec_next ops m = Inr m1" "execute n ops m1 = Inr m'"
        by (auto simp: execute_def execute_until.simps [of "Suc n"] rbind_eq_Inr)
      from Suc.IH [OF m1(2)] obtain a b m2 where "execute_until a ops (Some k) m1 = Inr m2" "execute b ops m2 = Inr m'"
        by blast
      moreover from this(1) m1(1) False have "execute_until (Suc a) ops (Some k) m = Inr m2"
        by (simp add: execute_until.simps [of "Suc a"])
      ultimately show ?thesis by blast
    qed
  qed
next
  assume "\<exists>a b m1. execute_until a ops (Some k) m = Inr m1 \<and> execute b ops m1 = Inr m'"
  then obtain a b m1 where "execute_until a ops (Some k) m = Inr m1" and b: "execute b ops m1 = Inr m'" by blast
  then show "\<exists>n. execute n ops m = Inr m'"
  proof (induction a arbitrary: m)
    case 0
    then have "m1 = m" by (auto simp: execute_until.simps [of 0] split: if_splits)
    with b show ?case by blast
  next
    case (Suc a)
    show ?case
    proof (cases "halted (Some k) m")
      case True
      with Suc.prems(1) have "m1 = m" by (simp add: execute_until.simps [of "Suc a"])
      with b show ?thesis by blast
    next
      case False
      with Suc.prems(1) obtain m2 where "exec_next ops m = Inr m2" "execute_until a ops (Some k) m2 = Inr m1"
        by (auto simp: execute_until.simps [of "Suc a"] rbind_eq_Inr)
      moreover from Suc.IH [OF this(2) b] obtain n where "execute n ops m2 = Inr m'" by blast
      ultimately have "execute (Suc n) ops m = Inr m'"
        using False by (auto simp: execute_def execute_until.simps [of "Suc n"] halted_def)
      then show ?thesis by blast
    qed
  qed
qed

end
