(* ===== verification/Runs.thy ===== *)
theory Runs
  imports Absorb RuleMatch Schedule
begin

text \<open>
  One Run of a ruleset, \<open>engine/cell-runtime/src/runtime.rs\<close>: every rule is matched before any effect is
  made, the bindings are applied in order, then the graph is repaired, reference Cells are absorbed, the
  indexes are brought up to date, events are delivered and garbage is collected. \<open>executor_ops\<close> gives these
  to the schedule interpreter.
\<close>

section \<open>Applying a binding\<close>

text \<open>A rule that only constructs makes no Cell while all its facts exist.\<close>

definition start_frame :: "rule \<Rightarrow> binding \<Rightarrow> graph \<Rightarrow> (graph \<times> (nat \<times> nat) option) res" where
  "start_frame r b g =
     (if r_constructor_only r \<and> \<not> g_views_enabled g \<and> g_known_mode g = KOff \<and> bd_continuation b = None \<and> \<not> g_lineage_enabled g
      then start_constructor_rhs (r_template r) (bd_values b) (bd_parent b) g
      else rmap (\<lambda>(g1, cid). (g1, Some (cid, 0)))
        (reference_frame (r_template r) (bd_values b) (bd_parent b) (bd_witnesses b) g))"

text \<open>Facts of the match that answer a constructor of the effects.\<close>

definition known_source :: "nat \<Rightarrow> fact_ref option list option \<Rightarrow> nat \<times> source option \<Rightarrow> graph \<Rightarrow> graph res" where
  "known_source cid known plan g =
     (case (snd plan, known) of
        (Some (SQuery i), Some rows) \<Rightarrow>
          rbind (idx rows i) (\<lambda>f. case f of
            None \<Rightarrow> Inr g
          | Some f \<Rightarrow> modify_cell cid (\<lambda>c. c\<lparr>c_known_results := (c_known_results c)(fst plan \<mapsto> f)\<rparr>) g)
      | _ \<Rightarrow> Inr g)"

definition known_sources :: "nat \<Rightarrow> nat \<Rightarrow> binding \<Rightarrow> graph \<Rightarrow> graph res" where
  "known_sources rid cid b g =
     (if g_known_mode g \<in> {KObserve, KOn} then
        (case kp_rules (p_known_results (g_program g)) rid of
           None \<Rightarrow> Inr g
         | Some plans \<Rightarrow> rfold (known_source cid (bd_known b)) (enumerate 0 plans) g)
      else Inr g)"

definition static_skipped :: "nat \<Rightarrow> nat \<Rightarrow> graph \<Rightarrow> bool res" where
  "static_skipped rid i g =
     (case get_at (kp_static_skip (p_known_results (g_program g))) rid of
        None \<Rightarrow> Inr False | Some s \<Rightarrow> idx s i)"

text \<open>The copy that a known value plan names for a constructor.\<close>

definition value_plan :: "nat \<Rightarrow> nat \<Rightarrow> graph \<Rightarrow> arg option" where
  "value_plan rid i g =
     (if g_known_mode g = KValue
      then Option.bind (kp_values (p_known_results (g_program g)) rid) (\<lambda>vs. Option.bind (get_at vs i) id)
      else None)"

text \<open>Observing compares the static alias with the constructed value; only its reads can fail.\<close>

definition observe_static :: "nat \<Rightarrow> nat \<Rightarrow> nat \<Rightarrow> nat \<Rightarrow> nat \<Rightarrow> graph \<Rightarrow> unit res" where
  "observe_static rid template cid i dst g =
     (if g_known_mode g \<noteq> KObserve then Inr ()
      else rbind (static_skipped rid i g) (\<lambda>skip.
        if \<not> skip then Inr ()
        else
          rbind (idx (kp_static_slots (p_known_results (g_program g))) template) (\<lambda>slots.
          rbind (idx slots dst) (\<lambda>a.
          rbind (ok_or a Panic) (\<lambda>a. rmap (\<lambda>_. ()) (argument g cid a))))))"

definition set_slot :: "nat \<Rightarrow> nat \<Rightarrow> val \<Rightarrow> graph \<Rightarrow> graph res" where
  "set_slot cid dst v = modify_cell cid (\<lambda>c. c\<lparr>c_values := (c_values c)(dst \<mapsto> v)\<rparr>)"

definition apply_let :: "nat \<Rightarrow> nat \<Rightarrow> nat \<Rightarrow> nat \<Rightarrow> nat \<Rightarrow> nat \<Rightarrow> arg list \<Rightarrow> graph \<Rightarrow> graph res" where
  "apply_let rid template cid i dst t aa g =
     rbind (idx (g_tables g) t) (\<lambda>tb.
     if t_virtual tb then
       rbind (case value_plan rid i g of
           None \<Rightarrow> Inr (g, False) | Some a \<Rightarrow> reuse_result_slot cid t dst a g) (\<lambda>(g1, reused).
       if reused then Inr g1
       else
         rbind (construct cid i t aa dst g1) (\<lambda>(g2, _).
         rbind (observe_static rid template cid i dst g2) (\<lambda>_. Inr g2)))
     else
       rbind (arguments g cid aa) (\<lambda>key.
       rbind (lookup g t key) (\<lambda>r.
       rbind (ok_or r (Err (''missing function read '' @ t_name tb))) (\<lambda>r.
       rbind (last_value r) (\<lambda>v. set_slot cid dst v g)))))"

definition apply_primitive :: "nat \<Rightarrow> nat \<Rightarrow> string \<Rightarrow> string \<Rightarrow> arg list \<Rightarrow> graph \<Rightarrow> graph res" where
  "apply_primitive cid dst name out aa g =
     rbind (arguments g cid aa) (\<lambda>args.
     rbind (primitive (g_host g) name args out (key_nodes g)) (\<lambda>v.
     rbind (ok_or v (Err (''RHS primitive failed: '' @ name))) (\<lambda>v. set_slot cid dst v g)))"

text \<open>One effect; \<open>False\<close> when a hide found nothing to hide, which ends the recipe.\<close>

definition apply_effect :: "nat \<Rightarrow> nat \<Rightarrow> nat \<Rightarrow> nat \<times> op \<Rightarrow> graph \<Rightarrow> (graph \<times> bool) res" where
  "apply_effect rid template cid iop g =
     (case snd iop of
        OpCopy _ _ \<Rightarrow> Inr (g, True)
      | OpLet dst (CTable t) aa \<Rightarrow> rmap (\<lambda>g. (g, True)) (apply_let rid template cid (fst iop) dst t aa g)
      | OpLet dst (CPrim name out) aa \<Rightarrow> rmap (\<lambda>g. (g, True)) (apply_primitive cid dst name out aa g)
      | OpSet t aa v \<Rightarrow> rmap (\<lambda>(g, _). (g, True)) (set_inner cid (fst iop) t aa v g)
      | OpUnion a b \<Rightarrow>
          rbind (argument g cid a) (\<lambda>a. rbind (argument g cid b) (\<lambda>b. rmap (\<lambda>g. (g, True)) (enqueue_union a b g)))
      | OpHide t aa delete \<Rightarrow> rbind (arguments g cid aa) (\<lambda>key. hide (Suc (g_fuel g)) t key delete g)
      | OpPanic \<Rightarrow> Inl (Err ''source panic''))"

definition apply_op :: "nat \<Rightarrow> nat \<Rightarrow> nat \<Rightarrow> nat \<times> op \<Rightarrow> graph \<Rightarrow> (graph \<times> bool) res" where
  "apply_op rid template cid iop g =
     rbind (if g_known_mode g = KStatic then static_skipped rid (fst iop) g else Inr False) (\<lambda>skip.
     if skip then Inr (g, True)
     else apply_effect rid template cid iop
       (if g_lineage_enabled g then g\<lparr>g_active_cause := Some (Apply rid cid (fst iop))\<rparr> else g))"

text \<open>The effects in order, with the length of the completed prefix.\<close>

fun apply_ops :: "nat \<Rightarrow> nat \<Rightarrow> nat \<Rightarrow> (nat \<times> op) list \<Rightarrow> nat \<Rightarrow> graph \<Rightarrow> (graph \<times> bool \<times> nat) res" where
  "apply_ops rid template cid [] done g = Inr (g, True, done)"
| "apply_ops rid template cid (iop # iops) done g =
     rbind (apply_op rid template cid iop g) (\<lambda>(g1, more).
     if more then apply_ops rid template cid iops (Suc (fst iop)) g1 else Inr (g1, False, Suc (fst iop)))"

definition continued_depth :: "binding \<Rightarrow> nat \<Rightarrow> graph \<Rightarrow> graph res" where
  "continued_depth b cid g =
     (case bd_continuation b of
        None \<Rightarrow> Inr g
      | Some (producer, depth, residual) \<Rightarrow> modify_cell cid (\<lambda>c. c\<lparr>c_recipe_depth := depth\<rparr>) g)"

definition apply_binding :: "nat \<times> binding \<Rightarrow> graph \<Rightarrow> graph res" where
  "apply_binding rb g =
     (let (rid, b) = rb in
      rbind (idx (p_rules (g_program g)) rid) (\<lambda>r.
      rbind (start_frame r b g) (\<lambda>(g1, start). case start of
        None \<Rightarrow> Inr g1
      | Some (cid, first) \<Rightarrow>
          rbind (known_sources rid cid b g1) (\<lambda>g2.
          rbind (continued_depth b cid g2) (\<lambda>g3.
          rbind (idx (g_templates g3) (r_template r)) (\<lambda>t.
          rbind (apply_ops rid (r_template r) cid (drop first (enumerate 0 (tm_ops t))) first g3) (\<lambda>(g4, completed, prefix).
          rbind (modify_cell cid (\<lambda>c. c\<lparr>c_completed := completed, c_completed_prefix := prefix\<rparr>)
            (g4\<lparr>g_active_cause := None\<rparr>)) (\<lambda>g5.
          retire_empty cid (queue_absorption cid (bd_witnesses b) g5)))))))))"

section \<open>A Run\<close>

text \<open>The rules are matched on the same graph; their bindings are collected.\<close>

definition match_rule :: "nat \<Rightarrow> executor \<times> (nat \<times> binding) list \<Rightarrow> (executor \<times> (nat \<times> binding) list) res" where
  "match_rule rid st =
     (let (x, work) = st in
      rbind (matches x rid False) (\<lambda>(x1, bs).
      rbind (idx (x_watermarks x1) rid) (\<lambda>_.
      Inr (x1\<lparr>x_watermarks := (x_watermarks x1)[rid := g_epoch (x_graph x1)]\<rparr>, work @ map (Pair rid) bs))))"

text \<open>A moved fact is pending under its new handle.\<close>

definition retarget :: "fact_ref \<Rightarrow> executor \<Rightarrow> executor res" where
  "retarget old x =
     (let new = resolve_reference (x_graph x) old in
      rbind (dependency_table (x_graph x) (DFact new)) (\<lambda>t.
      rbind (ok_or t (Err ''relocated fact has no table'')) (\<lambda>t.
      rbind (idx (x_readers x) t) (\<lambda>rids.
      rfold (\<lambda>rid x. rbind (idx (x_pending x) rid) (\<lambda>ws.
        Inr (if DFact old \<in> ws then x\<lparr>x_pending := (x_pending x)[rid := insert (DFact new) (ws - {DFact old})]\<rparr> else x))) rids x))))"

definition moved_event :: "graph \<Rightarrow> dependency \<Rightarrow> dependency" where
  "moved_event g d = (case d of DFact f \<Rightarrow> DFact (resolve_reference g f) | DFunction i \<Rightarrow> DFunction i)"

definition absorb_run :: "executor \<Rightarrow> executor res" where
  "absorb_run x =
     rbind (absorb_ready (x_graph x)) (\<lambda>(g, moved).
     if moved = Map.empty then Inr (x\<lparr>x_graph := g\<rparr>)
     else
       rbind (rfold retarget (sorted_list_of_set (dom moved)) (x\<lparr>x_graph := g\<rparr>)) (\<lambda>x1.
       Inr (x1\<lparr>x_graph := (x_graph x1)\<lparr>g_events := map (moved_event (x_graph x1)) (g_events (x_graph x1))\<rparr>\<rparr>)))"

definition publish :: "executor \<Rightarrow> executor res" where
  "publish x =
     (let g = (x_graph x)\<lparr>g_receipt_forwards := Map.empty, g_union_roots := {}\<rparr> in
      if se_scope (x_settings x) = Some ''table'' then
        rbind (invalidate_indexes g (x_indexes x)) (\<lambda>q.
        Inr (x\<lparr>x_graph := g\<lparr>g_query_changes := Map.empty\<rparr>, x_indexes := q\<rparr>))
      else rmap (\<lambda>(g1, q). x\<lparr>x_graph := g1, x_indexes := q\<rparr>) (update_indexes g (x_indexes x)))"

definition start_run :: "string \<Rightarrow> executor \<Rightarrow> (executor \<times> nat list) res" where
  "start_run name x =
     (let g = x_graph x in
      if g_epoch g + 1 \<ge> 2 ^ 64 then Inl (Err ''epoch exhausted'')
      else
        rbind (ok_or (p_sets (g_program g) name) (Err (''unknown ruleset '' @ name))) (\<lambda>rids.
        Inr (x\<lparr>x_graph := g\<lparr>g_receipt_forwards := Map.empty, g_epoch := g_epoch g + 1, g_changed := False\<rparr>\<rparr>, rids)))"

text \<open>The fuel bounds the repair loop and the garbage loop.\<close>

definition finish_run :: "nat \<Rightarrow> executor \<Rightarrow> (executor \<times> bool) res" where
  "finish_run fuel x =
     rbind (repair fuel (x_graph x)) (\<lambda>g.
     rbind (absorb_run (x\<lparr>x_graph := g\<rparr>)) (\<lambda>x1.
     rbind (publish x1) (\<lambda>x2.
     rbind (deliver x2) (\<lambda>x3.
     rbind (collect_garbage fuel (x_graph x3)) (\<lambda>g1.
     Inr (x3\<lparr>x_graph := g1\<rparr>, g_changed g1))))))"

definition run :: "nat \<Rightarrow> string \<Rightarrow> executor \<Rightarrow> (executor \<times> bool) res" where
  "run fuel name x =
     rbind (start_run name x) (\<lambda>(x0, rids).
     rbind (rfold match_rule rids (x0, [])) (\<lambda>(x1, work).
     let x2 = (if se_scope (x_settings x1) = Some ''run'' then x1\<lparr>x_indexes := clear_indexes (x_indexes x1)\<rparr> else x1) in
     rbind (rfold apply_binding work (x_graph x2)) (\<lambda>g.
     finish_run fuel (x2\<lparr>x_graph := g\<rparr>))))"

section \<open>The whole program\<close>

definition executor_ops :: "nat \<Rightarrow> executor runner_ops" where
  "executor_ops fuel = \<lparr>op_run = run fuel, op_probe = probe_rule_set\<rparr>"

text \<open>From a program to the end of its schedule.\<close>

definition run_program :: "nat \<Rightarrow> (string \<Rightarrow> string option) \<Rightarrow> multi_stage \<Rightarrow> query_indexes \<Rightarrow> graph \<Rightarrow> executor machine res" where
  "run_program fuel env plan q g =
     rbind (executor_new env plan q g) (\<lambda>x.
     execute fuel (executor_ops fuel) \<lparr>m_exec = x, m_tasks = initial_tasks (p_control (g_program g)), m_steps = []\<rparr>)"

end
