(* ===== verification/RunCorrect.thy ===== *)
theory RunCorrect
  imports Runs
begin

text \<open>
  What a Run leaves behind. The effects of a binding keep the equality classes (\<open>kept\<close>); the steps after
  repair (absorption, index update, delivery, garbage collection) are \<open>calm\<close>: they also queue no union and
  mark nothing, so the graph stays repaired. A locale carries both relations through the code's loops.
\<close>

section \<open>Relations between states\<close>

locale state_order =
  fixes rel :: "'s \<Rightarrow> 's \<Rightarrow> bool"
  assumes order_refl: "rel g g"
    and order_trans: "rel g h \<Longrightarrow> rel h k \<Longrightarrow> rel g k"
begin

lemma order_bind: "ensures (rel h) m \<Longrightarrow> rel g h \<Longrightarrow> (\<And>k. rel g k \<Longrightarrow> ensures Q (f k)) \<Longrightarrow> ensures Q (rbind m f)"
  by (auto simp: ensures_def rbind_eq_Inr intro: order_trans)

lemma order_bind_fst:
  "ensures (\<lambda>r. rel h (fst r)) m \<Longrightarrow> rel g h \<Longrightarrow> (\<And>k x. rel g k \<Longrightarrow> ensures Q (f (k, x))) \<Longrightarrow> ensures Q (rbind m f)"
  by (cases m) (simp_all, metis order_trans prod.collapse)

lemma order_at: "ensures (rel h) m \<Longrightarrow> rel g h \<Longrightarrow> ensures (rel g) m"
  by (auto simp: ensures_def intro: order_trans)

lemma order_fold: "(\<And>x k. x \<in> set xs \<Longrightarrow> ensures (rel k) (f x k)) \<Longrightarrow> ensures (rel g) (rfold f xs g)"
proof (induction xs arbitrary: g)
  case (Cons x xs)
  then show ?case
    unfolding rfold.simps by (intro order_bind [where h = g and g = g]) (auto intro: order_at order_refl)
qed (simp add: order_refl)

end

text \<open>Relations that do not look at Cells and their users: garbage collection respects them.\<close>

locale cell_order = state_order rel for rel :: "graph \<Rightarrow> graph \<Rightarrow> bool" +
  assumes order_cells: "rel g (h\<lparr>g_cells := x1\<rparr>) = rel g h"
    and order_garbage: "rel g (h\<lparr>g_garbage := x2\<rparr>) = rel g h"
    and order_parents: "rel g (h\<lparr>g_parent_users := x3\<rparr>) = rel g h"
    and order_references: "rel g (h\<lparr>g_reference_users := x4\<rparr>) = rel g h"
begin

lemmas order_updates = order_cells order_garbage order_parents order_references order_refl

lemma order_release: "ensures (rel g) (release_reference f g)"
  by (auto simp: release_reference_def Let_def order_updates intro!: ensures_bind)

lemma order_release_at: "rel g k \<Longrightarrow> ensures (rel g) (case pa of None \<Rightarrow> Inr k | Some f \<Rightarrow> release_reference f k)"
  by (auto intro: order_at [OF order_release] split: option.split)

lemma order_releases:
  "rel g k \<Longrightarrow> ensures (rel g) (rfold (\<lambda>atom g. case m atom of None \<Rightarrow> Inr g | Some f \<Rightarrow> release_reference f g) xs k)"
  by (rule order_at, rule order_fold) (auto simp: order_refl intro: order_release split: option.split)

lemma order_retire_empty: "ensures (rel g) (retire_empty cell g)"
proof -
  have run: "ensures (rel g) (rbind (case pa of None \<Rightarrow> Inr k | Some f \<Rightarrow> release_reference f k) (\<lambda>g1.
      rbind (rfold (\<lambda>atom g. case m atom of None \<Rightarrow> Inr g | Some f \<Rightarrow> release_reference f g) xs g1) (\<lambda>g2.
      Inr (g2\<lparr>g_parent_users := w g2\<rparr>))))" if "rel g k" for pa k m xs w
    by (rule ensures_bind, drule ensuresD [OF order_release_at [OF that]], rule ensures_bind, drule ensuresD [OF order_releases])
      (simp_all add: order_updates)
  show ?thesis
    unfolding retire_empty_def
    by (cases "g_cells g cell", simp add: order_refl, simp only: option.case, rule ensures_if, simp add: order_refl,
      rule run, simp add: order_updates)
qed

lemma order_collect: "ensures (rel g) (collect_garbage n g)"
proof (induction n arbitrary: g)
  case (Suc n)
  have "ensures (rel g) (rbind (retire_empty c k) (collect_garbage n))" if "rel g k" for c k
    using that by (intro order_bind [OF order_retire_empty]) (auto intro: order_at [OF Suc.IH])
  then show ?case by (simp add: Let_def order_updates)
qed simp

end

interpretation keep: cell_order kept
  by unfold_locales (auto intro: kept_trans)

section \<open>Calm steps\<close>

named_theorems calms \<open>operations that keep the classes and leave no work\<close>

definition calm :: "graph \<Rightarrow> graph \<Rightarrow> bool" where
  "calm g h \<longleftrightarrow> kept g h \<and> g_pending_unions h = g_pending_unions g \<and> g_congruence_dirty h = g_congruence_dirty g \<and>
     g_dirty h = g_dirty g \<and> g_dirty_markers h = g_dirty_markers g"

abbreviation calming :: "graph res \<Rightarrow> graph \<Rightarrow> bool" where
  "calming m g \<equiv> ensures (calm g) m"

lemma calm_refl [simp]: "calm g g"
  by (simp add: calm_def)

lemma calm_quiet: "calm g h \<Longrightarrow> quiet g \<Longrightarrow> quiet h"
  by (simp add: calm_def quiet_def)

lemma kept_more [simp]:
  "kept g (h\<lparr>g_fact_forwards := x1\<rparr>) = kept g h" "kept g (h\<lparr>g_retired := x2\<rparr>) = kept g h"
  "kept g (h\<lparr>g_absorption_candidates := x3\<rparr>) = kept g h"
  by (simp_all add: kept_def causes_below_def uses_ok_def uses_of_def)

lemma calm_update [simp]:
  "calm g (h\<lparr>g_cells := x1\<rparr>) = calm g h" "calm g (h\<lparr>g_events := x2\<rparr>) = calm g h"
  "calm g (h\<lparr>g_garbage := x3\<rparr>) = calm g h" "calm g (h\<lparr>g_query_versions := x4\<rparr>) = calm g h"
  "calm g (h\<lparr>g_query_changes := x5\<rparr>) = calm g h" "calm g (h\<lparr>g_operators := x6\<rparr>) = calm g h"
  "calm g (h\<lparr>g_intern := x7\<rparr>) = calm g h" "calm g (h\<lparr>g_parent_users := x8\<rparr>) = calm g h"
  "calm g (h\<lparr>g_reference_users := x9\<rparr>) = calm g h" "calm g (h\<lparr>g_union_roots := x10\<rparr>) = calm g h"
  "calm g (h\<lparr>g_receipt_forwards := x11\<rparr>) = calm g h" "calm g (h\<lparr>g_fact_forwards := x12\<rparr>) = calm g h"
  "calm g (h\<lparr>g_retired := x13\<rparr>) = calm g h" "calm g (h\<lparr>g_absorption_candidates := x14\<rparr>) = calm g h"
  "calm g (h\<lparr>g_changed := x15\<rparr>) = calm g h"
  by (simp_all add: calm_def)

interpretation calm: cell_order calm
  by unfold_locales (auto simp: calm_def intro: kept_trans)

lemma calm_modify_cell [calms]: "calming (modify_cell i u g) g"
  by (auto simp: modify_cell_def split: option.split)

lemma calm_touch [calms]: "calming (touch t d g) g"
  by (auto simp: touch_def intro!: ensures_bind)

lemma calm_subscribe [calms]: "calming (subscribe d vs g) g"
proof -
  have "ensures (\<lambda>h. g_pending_unions h = g_pending_unions g \<and> g_congruence_dirty h = g_congruence_dirty g \<and>
     g_dirty h = g_dirty g \<and> g_dirty_markers h = g_dirty_markers g) (subscribe d vs g)"
    by (auto simp: subscribe_def touch_def rbind_eq_Inr Let_def intro!: ensures_bind split: option.splits)
  with kept_subscribe show ?thesis unfolding ensures_def calm_def by blast
qed

section \<open>Absorption\<close>

text \<open>The state of \<open>absorb_ready\<close> moves as its graph does.\<close>

definition calm_ab :: "absorbing \<Rightarrow> absorbing \<Rightarrow> bool" where
  "calm_ab s t \<longleftrightarrow> calm (ab_graph s) (ab_graph t)"

interpretation calm_ab: state_order calm_ab
  by unfold_locales (auto simp: calm_ab_def intro: calm.order_trans)

lemma calm_detach [calms]: "calming (detach_parameters target g) g"
proof -
  have out: "calming (rbind (case pa of None \<Rightarrow> Inr k | Some f \<Rightarrow> release_reference f k) (\<lambda>g1.
      rfold (\<lambda>atom g. case m atom of None \<Rightarrow> Inr g | Some f \<Rightarrow> release_reference f g) xs g1)) g"
    if "calm g k" for pa k m xs
    by (rule ensures_bind, drule ensuresD [OF calm.order_release_at [OF that]], rule calm.order_releases)
  have mod: "calming (rbind (modify_cell i u g) (release_all c)) g" for i u c
    by (rule calm.order_bind [OF calm_modify_cell calm_refl]) (simp add: release_all_def out)
  show ?thesis
    unfolding detach_parameters_def
    by (rule ensures_bind, rule ensures_if, simp) (auto intro!: ensures_bind mod)
qed

lemma calm_move_users [calms]: "calming (move_users old new g) g"
  by (auto simp: move_users_def Let_def split: option.split)

lemma calm_move_state [calms]: "calming (move_state old new s g) g"
proof -
  have sub: "calming (rbind (subscribe d [] k) (\<lambda>g4. rbind (fact g4 f) (\<lambda>r. rbind (ok_or r e) (\<lambda>r. subscribe d' (rw_values r) g4)))) g"
    if "calm g k" for d d' f e k
    by (rule calm.order_bind [OF calm_subscribe that]) (auto intro!: ensures_bind intro: calm.order_at [OF calm_subscribe])
  have place: "calming (rbind (get_cell k i) (\<lambda>c. if b c then Inl e else rbind (modify_cell i u k) (\<lambda>g3.
      rbind (subscribe d [] g3) (\<lambda>g4. rbind (fact g4 f) (\<lambda>r. rbind (ok_or r e') (\<lambda>r. subscribe d' (rw_values r) g4)))))) g"
    if "calm g k" for i b e u d d' f e' k
    by (rule ensures_bind, rule ensures_if, simp, rule calm.order_bind [OF calm_modify_cell that], rule sub)
  show ?thesis
    unfolding move_state_def Let_def
    by (rule calm.order_bind [OF calm_modify_cell calm_refl], (rule ensures_bind)+, rule ensures_if, simp, rule place) simp
qed

lemma calm_move_fact: "ensures (calm_ab st) (move_fact on st)"
proof -
  obtain old new where on: "on = (old, new)" by (cases on)
  have first: "ensures (\<lambda>r. calm (ab_graph st) (fst r)) (case q of None \<Rightarrow> Inr (ab_graph st, m)
      | Some s \<Rightarrow> rmap (\<lambda>g1. (g1, m')) (move_state old new s (ab_graph st)))" for q m m'
    using calm_move_state [where g = "ab_graph st"] by (auto simp: ensures_def rmap_def rbind_eq_Inr split: option.split)
  show ?thesis
    unfolding move_fact_def on Let_def prod.case
    by (rule ensures_bind, rule calm.order_bind_fst [OF first calm_refl], unfold prod.case,
      rule calm.order_bind [OF calm_move_users]) (simp_all add: calm_ab_def)
qed

lemma calm_absorb_facts: "ensures (calm_ab st) (absorb_facts target source ms st)"
proof -
  let ?g = "ab_graph st"
  have last: "ensures (calm_ab st) (rbind (retire_empty i k) (\<lambda>g2. if b g2 then Inl e else Inr (st1\<lparr>ab_graph := g2\<rparr>)))"
    if "calm ?g k" for i k b e st1
    by (rule calm.order_bind [OF calm.order_retire_empty that]) (auto simp: calm_ab_def)
  have moves: "ensures (calm_ab st) (rbind (rfold move_fact ms (st\<lparr>ab_graph := g\<rparr>)) (\<lambda>st1.
     rbind (get_cell (ab_graph st1) source) (\<lambda>c. rbind (retire_empty source ((ab_graph st1)\<lparr>g_retired := u st1 c\<rparr>)) (\<lambda>g2.
       if g_cells g2 source \<noteq> None then Inl e else Inr (st1\<lparr>ab_graph := g2\<rparr>)))))" if "calm ?g g" for g u e
  proof (rule calm_ab.order_bind [where h = "st\<lparr>ab_graph := g\<rparr>" and g = st])
    show "ensures (calm_ab (st\<lparr>ab_graph := g\<rparr>)) (rfold move_fact ms (st\<lparr>ab_graph := g\<rparr>))"
      by (rule calm_ab.order_fold, rule calm_move_fact)
    show "calm_ab st (st\<lparr>ab_graph := g\<rparr>)" using that by (simp add: calm_ab_def)
    fix k assume "calm_ab st k"
    then show "ensures (calm_ab st) (rbind (get_cell (ab_graph k) source) (\<lambda>c.
        rbind (retire_empty source ((ab_graph k)\<lparr>g_retired := u k c\<rparr>)) (\<lambda>g2.
          if g_cells g2 source \<noteq> None then Inl e else Inr (k\<lparr>ab_graph := g2\<rparr>))))"
      by (intro ensures_bind last) (simp add: calm_ab_def)
  qed
  show ?thesis
    unfolding absorb_facts_def Let_def
    by (rule calm.order_bind [OF calm_detach calm_refl], rule moves)
qed

lemma calm_absorb_one: "ensures (calm_ab st) (absorb_one candidate st)"
proof -
  have facts: "ensures (calm_ab st) (absorb_facts t s ms st1)" if "calm_ab st st1" for t s ms st1
    by (rule calm_ab.order_at [OF calm_absorb_facts that])
  show ?thesis
    unfolding absorb_one_def Let_def
    by (auto intro!: ensures_bind facts calm_ab.order_refl split: prod.split option.split)
      (auto simp: rbind_eq_Inr calm_ab_def intro!: facts [unfolded calm_ab_def])
qed

lemma calm_absorb_ready: "ensures (\<lambda>r. calm g (fst r)) (absorb_ready g)"
proof -
  have "ensures (calm_ab s) (rfold absorb_one cs s)" for cs s
    by (rule calm_ab.order_fold, rule calm_absorb_one)
  from this [of "\<lparr>ab_graph = g\<lparr>g_absorption_candidates := {}\<rparr>, ab_moved = Map.empty, ab_target = None, ab_carried = Map.empty\<rparr>"
      "sorted_list_of_set (g_absorption_candidates g)"] show ?thesis
    unfolding absorb_ready_def
    by (auto simp: ensures_def calm_ab_def rbind_eq_Inr intro: calm.order_trans [rotated])
qed

section \<open>The executor after repair\<close>

definition steady :: "executor \<Rightarrow> executor \<Rightarrow> bool" where
  "steady x y \<longleftrightarrow> calm (x_graph x) (x_graph y) \<and> x_watermarks y = x_watermarks x"

interpretation steady: state_order steady
  by unfold_locales (auto simp: steady_def intro: calm.order_trans)

lemma steady_pending [simp]: "steady x (y\<lparr>x_pending := ws\<rparr>) = steady x y" "steady x (y\<lparr>x_dirty := ds\<rparr>) = steady x y"
  by (simp_all add: steady_def)

lemma steady_retarget: "ensures (steady x) (retarget old x)"
proof -
  have "ensures (steady x) (rfold (\<lambda>rid x. rbind (idx (x_pending x) rid) (\<lambda>ws.
      Inr (if b ws then x\<lparr>x_pending := p rid ws x\<rparr> else x))) rids x)" for b p rids
    by (rule steady.order_fold) (auto intro!: ensures_bind simp: steady.order_refl)
  then show ?thesis unfolding retarget_def Let_def by (auto intro!: ensures_bind)
qed

lemma steady_absorb_run: "ensures (steady x) (absorb_run x)"
proof -
  have re: "ensures (\<lambda>y. steady x (y\<lparr>x_graph := (x_graph y)\<lparr>g_events := e y\<rparr>\<rparr>)) (rfold retarget fs (x\<lparr>x_graph := g\<rparr>))"
    if "calm (x_graph x) g" for e fs g
  proof -
    have "ensures (steady (x\<lparr>x_graph := g\<rparr>)) (rfold retarget fs (x\<lparr>x_graph := g\<rparr>))"
      by (rule steady.order_fold, rule steady_retarget)
    with that show ?thesis by (auto simp: ensures_def steady_def intro: calm.order_trans)
  qed
  have fin: "ensures (steady x) (if b then Inr (x\<lparr>x_graph := g\<rparr>) else
      rbind (rfold retarget fs (x\<lparr>x_graph := g\<rparr>)) (\<lambda>y. Inr (y\<lparr>x_graph := (x_graph y)\<lparr>g_events := e y\<rparr>\<rparr>)))"
    if "calm (x_graph x) g" for b g fs e
    using re [OF that] that by (auto simp: steady_def ensures_def rbind_eq_Inr)
  show ?thesis
    unfolding absorb_run_def
    by (rule calm.order_bind_fst [OF calm_absorb_ready calm_refl], unfold prod.case, rule fin)
qed

lemma steady_publish: "ensures (steady x) (publish x)"
  by (auto simp: publish_def Let_def update_indexes_def rmap_def rbind_eq_Inr ensures_def steady_def split: if_splits)

lemma steady_deliver: "ensures (steady x) (deliver x)"
proof -
  have "ensures (steady y) (deliver_event w y)" for w y
    unfolding deliver_event_def
    by (auto intro!: ensures_bind steady.order_fold simp: notify_def steady.order_refl split: option.split)
  then have "ensures (steady y) (rfold deliver_event ws y)" for ws y by (rule steady.order_fold)
  moreover have "steady x (x\<lparr>x_graph := (x_graph x)\<lparr>g_events := []\<rparr>\<rparr>)" by (simp add: steady_def)
  ultimately show ?thesis unfolding deliver_def by (blast intro: steady.order_at)
qed

text \<open>What delivery and garbage collection leave empty.\<close>

definition drained :: "graph \<Rightarrow> bool" where
  "drained g \<longleftrightarrow> g_events g = [] \<and> g_query_changes g = Map.empty"

lemma deliver_graph: "ensures (\<lambda>y. x_graph y = (x_graph x)\<lparr>g_events := []\<rparr>) (deliver x)"
proof -
  have one: "ensures (\<lambda>y. x_graph y = x_graph x) (notify rid w x)" for rid w x
    by (auto simp: notify_def intro!: ensures_bind)
  have every: "x_graph y = x_graph x" if "rfold (\<lambda>rid. notify rid w) rs x = Inr y" for w rs x y
    using that by (rule rfold_invariant) (auto dest: ensuresD [OF one])
  have event: "x_graph y = x_graph x" if "deliver_event w x = Inr y" for w x y
    using that by (auto simp: deliver_event_def rbind_eq_Inr every split: option.splits)
  have "x_graph y = (x_graph x)\<lparr>g_events := []\<rparr>" if "deliver x = Inr y" for y
    using that unfolding deliver_def by (rule rfold_invariant) (auto dest: event)
  then show ?thesis by (rule ensuresI)
qed

lemma publish_drains: "ensures (\<lambda>y. g_query_changes (x_graph y) = Map.empty) (publish x)"
  by (auto simp: publish_def Let_def update_indexes_def rmap_def rbind_eq_Inr ensures_def split: if_splits)

definition drains :: "graph \<Rightarrow> graph \<Rightarrow> bool" where
  "drains g h \<longleftrightarrow> (drained g \<longrightarrow> drained h)"

interpretation drains: cell_order drains
  by unfold_locales (auto simp: drains_def drained_def)

section \<open>Effects keep the classes\<close>

lemma kept_active: "(\<forall>n. cause_below n c) \<Longrightarrow> kept g h \<Longrightarrow> kept g (h\<lparr>g_active_cause := Some c\<rparr>)"
proof -
  assume c: "\<forall>n. cause_below n c" and k: "kept g h"
  have "causes_below h \<Longrightarrow> causes_below (h\<lparr>g_active_cause := Some c\<rparr>)" unfolding causes_below_def by (simp add: c)
  with k show "kept g (h\<lparr>g_active_cause := Some c\<rparr>)" unfolding kept_def by simp
qed

lemma kept_linked_frame [keeps]: "keeping_fst (linked_frame t vs parent g) g"
  unfolding linked_frame_def by (rule keep_fst_bind_fst, rule keeps) (auto intro!: ensures_bind)

lemma kept_take_carrier [keeps]: "keeping (take_carrier cid ws ca g) g"
  unfolding take_carrier_def Let_def
  by (auto intro!: ensures_bind dest!: ensuresD [OF kept_modify_cell] split: option.split dependency.split)

lemma kept_reference_frame [keeps]: "keeping_fst (reference_frame t vs parent ws g) g"
proof -
  have take: "keeping_fst (rbind (frame t vs g) (\<lambda>(g1, cid). rbind (rfold (take_carrier cid ws) cas g1) (\<lambda>g2.
      rbind (modify_cell cid (drop_projected l) g2) (\<lambda>g3. Inr (g3, cid))))) g" for cas l
    by (rule keep_fst_bind_fst [OF kept_frame kept_refl], unfold prod.case, rule keep_bind_fst, rule keep_rfold, rule keeps,
      assumption, rule keep_bind_fst, rule keeps) simp_all
  show ?thesis
    unfolding reference_frame_def by (auto simp: keeps take split: option.split)
qed

lemma kept_rhs_prefix: "kept g k \<Longrightarrow> keeping_fst (rhs_prefix cid ops c k) g"
proof (induction ops arbitrary: c)
  case (Cons iop ops)
  obtain i op where iop: "iop = (i, op)" by (cases iop)
  have ins: "keeping_fst (rbind (insert_constructor cid i t key dst (store_cell cid c k)) (\<lambda>(g1, _). Inr (g1, Some (cid, Suc i)))) g"
    for t key dst
    using Cons.prems by (intro keep_fst_bind_fst [OF kept_insert_constructor]) auto
  note rest = Cons.IH [OF Cons.prems]
  have row: "keeping_fst (case r of Some r \<Rightarrow> rbind (last_value r) (\<lambda>v. rhs_prefix cid ops (u v) k)
      | None \<Rightarrow> rbind (insert_constructor cid i t key dst (store_cell cid c k)) (\<lambda>(g1, _). Inr (g1, Some (cid, Suc i)))) g"
    for r u t key dst
    using rest ins by (auto intro: ensures_bind split: option.split)
  have "keeping_fst (rbind (arguments_in k cid c aa) (\<lambda>key. rbind (lookup k t key) (\<lambda>r. case r of
      Some r \<Rightarrow> rbind (last_value r) (\<lambda>v. rhs_prefix cid ops (c\<lparr>c_values := (c_values c)(dst \<mapsto> v)\<rparr>) k)
    | None \<Rightarrow> rbind (insert_constructor cid i t key dst (store_cell cid c k)) (\<lambda>(g1, _). Inr (g1, Some (cid, Suc i)))))) g" for aa t dst
    by (rule ensures_bind, rule ensures_bind, rule row)
  with rest show ?case by (cases op) (simp_all add: iop split: call.split)
qed simp

lemma kept_start_rhs [keeps]: "keeping_fst (start_constructor_rhs t vs parent g) g"
  unfolding start_constructor_rhs_def
  by (rule keep_fst_bind_fst [OF kept_reserve kept_refl]) (auto intro!: ensures_bind kept_rhs_prefix)

lemma kept_start_frame [keeps]: "keeping_fst (start_frame r b g) g"
proof -
  have "keeping_fst (rmap (\<lambda>(g1, cid). (g1, Some (cid, 0))) (reference_frame t vs pa ws g)) g" for t vs pa ws
    by (auto intro!: ensures_map dest!: ensuresD [OF kept_reference_frame])
  then show ?thesis unfolding start_frame_def by (auto intro: kept_start_rhs split del: if_split intro!: ensures_if)
qed

lemma kept_known_sources [keeps]: "keeping (known_sources rid cid b g) g"
proof -
  have "keeping (known_source cid kn plan k) k" for kn plan k
    by (auto simp: known_source_def intro!: ensures_bind kept_modify_cell split: option.split source.split)
  then show ?thesis
    unfolding known_sources_def by (auto intro: keep_rfold split: option.split)
qed

lemma kept_continued_depth [keeps]: "keeping (continued_depth b cid g) g"
  by (auto simp: continued_depth_def keeps split: option.split)

lemma kept_queue_absorption [simp]: "kept g (queue_absorption target ws h) = kept g h"
  by (simp add: queue_absorption_def split: option.split)

lemma kept_reuse [keeps]: "keeping_fst (reuse_result_slot cid t dst a g) g"
  unfolding reuse_result_slot_def
  by (auto intro!: ensures_bind dest!: ensuresD [OF kept_modify_cell])

lemma kept_apply_let [keeps]: "keeping (apply_let rid template cid i dst t aa g) g"
proof -
  have con: "keeping (rbind (construct cid i t aa dst k) (\<lambda>(g2, _). rbind (observe_static rid template cid i dst g2) (\<lambda>_. Inr g2))) g"
    if "kept g k" for k
    by (rule keep_fst_bind [OF kept_construct that], unfold prod.case, rule ensures_bind) simp
  have reuse: "keeping_fst (case q of None \<Rightarrow> Inr (g, False) | Some a \<Rightarrow> reuse_result_slot cid t dst a g) g" for q
    by (auto intro: keeps split: option.split)
  show ?thesis
    unfolding apply_let_def set_slot_def
    by (rule ensures_bind, rule ensures_if, rule keep_fst_bind [OF reuse kept_refl], unfold prod.case, rule ensures_if, simp,
      rule con, assumption) (auto intro!: ensures_bind kept_modify_cell)
qed

lemma kept_apply_effect [keeps]: "keeping_fst (apply_effect rid template cid iop g) g"
proof -
  have plain: "keeping_fst (rmap (\<lambda>g. (g, True)) m) g" if "keeping m g" for m
    using that by (cases m) simp_all
  have pair: "keeping_fst (rmap (\<lambda>(g, _). (g, True)) m) g" if "keeping_fst m g" for m :: "(graph \<times> 'a) res"
    using that by (cases m) auto
  show ?thesis
    unfolding apply_effect_def apply_primitive_def set_slot_def
    by (cases "snd iop") (auto intro!: plain pair keeps ensures_bind simp del: hide.simps split: call.split)
qed

lemma kept_apply_op: "keeping_fst (apply_op rid template cid iop g) g"
proof -
  have "keeping_fst (apply_effect rid template cid iop k) g" if "kept g k" for k
    by (rule keep_fst_at [OF kept_apply_effect that])
  then show ?thesis
    unfolding apply_op_def by (auto intro!: ensures_bind simp: kept_active cause_below_def)
qed

lemma kept_apply_ops: "keeping_fst (apply_ops rid template cid ops n g) g"
proof (induction ops arbitrary: n g)
  case (Cons op ops)
  show ?case
    unfolding apply_ops.simps
    by (rule keep_fst_bind_fst [OF kept_apply_op kept_refl]) (auto intro: keep_fst_at [OF Cons.IH])
qed simp

lemma kept_apply_binding: "keeping (apply_binding rb g) g"
proof -
  obtain rid b where rb: "rb = (rid, b)" by (cases rb)
  have fin: "keeping (rbind (modify_cell cid u (k\<lparr>g_active_cause := None\<rparr>)) (\<lambda>g5. retire_empty cid (queue_absorption cid ws g5))) g"
    if "kept g k" for cid u k ws
    by (rule keep_bind [OF kept_modify_cell kept_no_active [OF that]]) (auto intro: keep_at [OF kept_retire_empty])
  have ops: "keeping (rbind (apply_ops rid tp cid ops n k) (\<lambda>(g4, completed, prefix).
      rbind (modify_cell cid (u completed prefix) (g4\<lparr>g_active_cause := None\<rparr>)) (\<lambda>g5. retire_empty cid (queue_absorption cid ws g5)))) g"
    if "kept g k" for tp cid ops n k u ws
    by (rule keep_fst_bind [OF kept_apply_ops that]) (auto intro: fin)
  have body: "keeping (rbind (known_sources rid cid b k) (\<lambda>g2. rbind (continued_depth b cid g2) (\<lambda>g3.
      rbind (idx (g_templates g3) tp) (\<lambda>t. rbind (apply_ops rid tp cid (drop first (enumerate 0 (tm_ops t))) first g3)
        (\<lambda>(g4, completed, prefix). rbind (modify_cell cid (\<lambda>c. c\<lparr>c_completed := completed, c_completed_prefix := prefix\<rparr>)
          (g4\<lparr>g_active_cause := None\<rparr>)) (\<lambda>g5. retire_empty cid (queue_absorption cid (bd_witnesses b) g5))))))) g"
    if "kept g k" for cid k tp first
    by (rule keep_bind [OF kept_known_sources that], rule keep_bind [OF kept_continued_depth], assumption, rule ensures_bind, rule ops)
  show ?thesis
    unfolding apply_binding_def rb Let_def prod.case
    by (rule ensures_bind, rule keep_fst_bind [OF kept_start_frame kept_refl]) (auto intro: body split: option.split)
qed

section \<open>A Run\<close>

lemma direct_matches_state: "direct_matches x rid r probe a = Inr (y, st) \<Longrightarrow> x_graph y = x_graph x \<and> x_watermarks y = x_watermarks x"
  by (cases "a_call (r_query r ! a)") (auto simp: direct_matches_def rmap_def rbind_eq_Inr idx_eq_Inr split: if_splits)

lemma rbind_pairE: "rbind m (\<lambda>(a, b). f a b) = Inr y \<Longrightarrow> (\<And>a b. m = Inr (a, b) \<Longrightarrow> f a b = Inr y \<Longrightarrow> thesis) \<Longrightarrow> thesis"
  by (auto simp: rbind_eq_Inr)

lemma find_matches_state: "find_matches x rid r probe = Inr (y, st) \<Longrightarrow> x_graph y = x_graph x \<and> x_watermarks y = x_watermarks x"
  by (auto simp: find_matches_def delta_matches_def full_matches_def rmap_def rbind_eq_Inr dest: direct_matches_state
      split: option.splits if_splits)

lemma matches_state: "matches x rid probe = Inr (y, bs) \<Longrightarrow> x_graph y = x_graph x \<and> x_watermarks y = x_watermarks x"
  by (auto simp: matches_def Let_def rbind_eq_Inr dest!: find_matches_state split: if_splits)

lemma match_ruleE:
  assumes "match_rule rid (x, work) = Inr s"
  obtains x1 bs where "matches x rid False = Inr (x1, bs)" "rid < length (x_watermarks x1)"
    "s = (x1\<lparr>x_watermarks := (x_watermarks x1)[rid := g_epoch (x_graph x1)]\<rparr>, work @ map (Pair rid) bs)"
  using assms unfolding match_rule_def Let_def prod.case by (elim rbind_pairE) (auto simp: rbind_eq_Inr idx_eq_Inr)

lemma match_rules: "rfold match_rule rids (x, work) = Inr (y, work') \<Longrightarrow>
   x_graph y = x_graph x \<and> length (x_watermarks y) = length (x_watermarks x) \<and>
   (\<forall>rid < length (x_watermarks x). x_watermarks y ! rid = (if rid \<in> set rids then g_epoch (x_graph x) else x_watermarks x ! rid)) \<and>
   (\<forall>rid \<in> set rids. rid < length (x_watermarks x))"
proof (induction rids arbitrary: x work)
  case (Cons rid rids)
  from Cons.prems obtain s where one: "match_rule rid (x, work) = Inr s" and rest: "rfold match_rule rids s = Inr (y, work')"
    by (auto simp: rbind_eq_Inr)
  from one obtain x1 bs where m: "matches x rid False = Inr (x1, bs)" and i: "rid < length (x_watermarks x1)"
    and s: "s = (x1\<lparr>x_watermarks := (x_watermarks x1)[rid := g_epoch (x_graph x1)]\<rparr>, work @ map (Pair rid) bs)"
    by (rule match_ruleE)
  from matches_state [OF m] Cons.IH [OF rest [unfolded s]] i show ?case by (auto simp: nth_list_update)
qed simp

lemma apply_bindings_kept: "rfold apply_binding work g = Inr h \<Longrightarrow> kept g h"
  using keep.order_fold [where f = apply_binding and xs = work, OF kept_apply_binding] by (rule ensuresD)

text \<open>After repair the classes stay as repair left them.\<close>

lemma finish_run_steady:
  assumes "finish_run n x = Inr (y, changed)"
  obtains h where "repair n (x_graph x) = Inr h" "calm h (x_graph y)" "x_watermarks y = x_watermarks x"
    "drained (x_graph y)" "g_garbage (x_graph y) = {}" "changed = g_changed (x_graph y)"
proof -
  from assms obtain h x1 x2 x3 k where r: "repair n (x_graph x) = Inr h" and a: "absorb_run (x\<lparr>x_graph := h\<rparr>) = Inr x1"
    and p: "publish x1 = Inr x2" and d: "deliver x2 = Inr x3" and c: "collect_garbage n (x_graph x3) = Inr k"
    and y: "y = x3\<lparr>x_graph := k\<rparr>" "changed = g_changed k" by (auto simp: finish_run_def rbind_eq_Inr)
  have "steady (x\<lparr>x_graph := h\<rparr>) x3"
    using ensuresD [OF steady_absorb_run a] ensuresD [OF steady_publish p] ensuresD [OF steady_deliver d]
    by (blast intro: steady.order_trans)
  moreover have "calm (x_graph x3) k" by (rule ensuresD [OF calm.order_collect c])
  ultimately have "calm h k" "x_watermarks x3 = x_watermarks x" by (auto simp: steady_def intro: calm.order_trans)
  moreover have "drained (x_graph x3)"
    using ensuresD [OF publish_drains p] ensuresD [OF deliver_graph d] by (simp add: drained_def)
  then have "drained k" using ensuresD [OF drains.order_collect c] by (simp add: drains_def)
  ultimately show thesis using that [OF r] collect_empties [OF c] y by simp
qed

lemma classes_ok_start: "classes_ok (g\<lparr>g_receipt_forwards := m, g_epoch := e, g_changed := b\<rparr>) = classes_ok g"
  by (simp add: classes_ok_def lineage_ok_def causes_below_def uses_ok_def uses_of_def)

lemma run_classes:
  assumes "classes_ok (x_graph x)" "run n name x = Inr (y, changed)"
  shows "classes_ok (x_graph y) \<and> quiet (x_graph y) \<and> drained (x_graph y) \<and> g_garbage (x_graph y) = {} \<and>
    coarser (g_parents (x_graph x)) (g_parents (x_graph y)) \<and> changed = g_changed (x_graph y) \<and>
    (\<exists>rids. p_sets (g_program (x_graph x)) name = Some rids \<and> length (x_watermarks y) = length (x_watermarks x) \<and>
      (\<forall>rid < length (x_watermarks x). x_watermarks y ! rid =
        (if rid \<in> set rids then Suc (g_epoch (x_graph x)) else x_watermarks x ! rid)))"
proof -
  let ?g = "x_graph x"
  let ?g0 = "?g\<lparr>g_receipt_forwards := Map.empty, g_epoch := Suc (g_epoch ?g), g_changed := False\<rparr>"
  let ?ix = "\<lambda>x1. if se_scope (x_settings x1) = Some ''run'' then x1\<lparr>x_indexes := clear_indexes (x_indexes x1)\<rparr> else x1"
  from assms(2) obtain x0 rids where s: "start_run name x = Inr (x0, rids)"
    and "rbind (rfold match_rule rids (x0, [])) (\<lambda>(x1, work). let x2 = ?ix x1 in
      rbind (rfold apply_binding work (x_graph x2)) (\<lambda>g. finish_run n (x2\<lparr>x_graph := g\<rparr>))) = Inr (y, changed)"
    unfolding run_def by (rule rbind_pairE)
  from this(2) obtain x1 work where m': "rfold match_rule rids (x0, []) = Inr (x1, work)"
    and rest: "(let x2 = ?ix x1 in rbind (rfold apply_binding work (x_graph x2)) (\<lambda>g. finish_run n (x2\<lparr>x_graph := g\<rparr>))) = Inr (y, changed)"
    by (rule rbind_pairE)
  from s have sets: "p_sets (g_program ?g) name = Some rids" and "x0 = x\<lparr>x_graph := ?g0\<rparr>"
    by (auto simp: start_run_def Let_def rbind_eq_Inr ok_or_eq_Inr split: if_splits)
  with m' have m: "rfold match_rule rids (x\<lparr>x_graph := ?g0\<rparr>, []) = Inr (x1, work)" by simp
  obtain q where q: "?ix x1 = x1\<lparr>x_indexes := q\<rparr>"
    using that [of "if se_scope (x_settings x1) = Some ''run'' then clear_indexes (x_indexes x1) else x_indexes x1"] by simp
  with rest obtain g where b: "rfold apply_binding work (x_graph x1) = Inr g"
    and f: "finish_run n (x1\<lparr>x_indexes := q, x_graph := g\<rparr>) = Inr (y, changed)" by (auto simp: Let_def rbind_eq_Inr)
  note same = match_rules [OF m]
  from f obtain h where h: "repair n g = Inr h" "calm h (x_graph y)" "x_watermarks y = x_watermarks x1" "drained (x_graph y)"
      "g_garbage (x_graph y) = {}" "changed = g_changed (x_graph y)"
    by (rule finish_run_steady) simp
  from h(1) obtain k where k: "repair_loop n g = Inr k" "h = k\<lparr>g_old_keys := Map.empty\<rparr>"
    by (auto simp: repair_def rbind_eq_Inr)
  have "classes_ok ?g0" using assms(1) by (simp add: classes_ok_start)
  then have "advances ?g0 g" using kept_advances apply_bindings_kept [OF b] same by simp
  moreover from this have "advances g k" "quiet k" using repair_loop_settles [OF advances_ok k(1)] by auto
  moreover from this have "advances k (x_graph y)"
    using h(2) kept_advances [of k "x_graph y"] k(2) by (simp add: calm_def advances_ok)
  moreover have "quiet (x_graph y)" using \<open>quiet k\<close> calm_quiet [OF h(2)] k(2) by (simp add: quiet_def)
  ultimately have "advances ?g0 (x_graph y)" "quiet (x_graph y)" by (auto intro: advances_trans)
  with h same sets show ?thesis by (auto simp: advances_def)
qed

section \<open>A program to run\<close>

text \<open>A rule without premises that unites 5 with 3, in a program whose schedule runs it.\<close>

definition merge_program :: program where
  "merge_program = unary_program\<lparr>
     p_templates := [\<lparr>tm_name = ''m'', tm_sorts = [], tm_defs = Map.empty,
       tm_ops = [OpUnion (Literal (VEq 5)) (Literal (VEq 3))], tm_parent_columns = Map.empty\<rparr>],
     p_rules := [\<lparr>r_constructor_only = False, r_template = 0, r_query = [], r_inputs = [], r_seminaive = True, r_direct = None\<rparr>],
     p_sets := [''m'' \<mapsto> [0]], p_control := [JObj [(''run'', JStr ''m'')]]\<rparr>"

definition merge_graph :: graph where
  "merge_graph = unary_empty\<lparr>g_program := merge_program\<rparr>"

definition merge_executor :: executor where
  "merge_executor = \<lparr>x_graph = merge_graph, x_plan = no_stages, x_settings = settings_of (\<lambda>_. None),
     x_watermarks = [0], x_dirty = {0}, x_pending = [{}], x_readers = [[]], x_indexes = small_index\<rparr>"

lemma merge_fields:
  "g_program merge_graph = merge_program" "g_epoch merge_graph = 0" "g_known_mode merge_graph = KOff" "\<not> g_views_enabled merge_graph"
  "\<not> g_lineage_enabled merge_graph" "\<not> g_absorption_enabled merge_graph" "g_cells merge_graph = Map.empty"
  "g_next_cell merge_graph = 1" "g_pending_unions merge_graph = []" "g_pending_causes merge_graph = []" "g_fuel merge_graph = 8"
  "g_parents merge_graph = Map.empty" "g_uses merge_graph = Map.empty" "g_congruence_dirty merge_graph = {}"
  "g_dirty merge_graph = {}" "g_dirty_markers merge_graph = {}" "g_events merge_graph = []" "g_garbage merge_graph = {}"
  "g_query_changes merge_graph = Map.empty" "g_absorption_candidates merge_graph = {}" "g_parent_users merge_graph = Map.empty"
  "g_active_cause merge_graph = None"
  by (simp_all add: merge_graph_def unary_empty_fields) (simp_all add: unary_empty_def empty_graph_def Let_def)

lemma merge_program_fields:
  "p_rules merge_program = [\<lparr>r_constructor_only = False, r_template = 0, r_query = [], r_inputs = [], r_seminaive = True, r_direct = None\<rparr>]"
  "p_sets merge_program = [''m'' \<mapsto> [0]]" "p_views merge_program = no_views" 
  "p_templates merge_program = [\<lparr>tm_name = ''m'', tm_sorts = [], tm_defs = Map.empty,
       tm_ops = [OpUnion (Literal (VEq 5)) (Literal (VEq 3))], tm_parent_columns = Map.empty\<rparr>]"
  by (simp_all add: merge_program_def unary_program_def)

lemma merge_ok: "classes_ok merge_graph"
  by (simp add: classes_ok_def lineage_ok_def causes_below_def uses_ok_def merge_fields)
    (simp add: merge_graph_def unary_empty_def empty_graph_def Let_def)

definition merge_binding :: binding where
  "merge_binding = binding_of (env_new 0 False 0) 0 False"

abbreviation merge_start :: graph where
  "merge_start \<equiv> merge_graph\<lparr>g_receipt_forwards := Map.empty, g_epoch := 1, g_changed := False\<rparr>"

lemma merge_matches: "match_rule 0 (merge_executor\<lparr>x_graph := merge_start\<rparr>, []) =
  Inr (merge_executor\<lparr>x_graph := merge_start, x_watermarks := [1], x_dirty := {}\<rparr>, [(0, merge_binding)])"
  by (simp add: match_rule_def matches_def merge_executor_def merge_fields merge_program_fields Let_def
   find_matches_def full_matches_def workspace_def default_settings solve_inner_def unique_bindings_def input_key_def merge_binding_def
   pending_def idx_def get_at_def witness_slots_def know_query_def reference_rule_def rule_layout_def no_views_def
   merge_graph_def unary_empty_def empty_graph_def
   fresh_binding_def)

lemma argument_literal: "0 < g_fuel g \<Longrightarrow> argument g cid (Literal v) = Inr (canon_in g v)"
  by (cases "g_fuel g") (simp_all add: argument_def argument_step_def)

text \<open>The frame of the rule, and its only effect.\<close>

definition merge_cell :: cell where
  "merge_cell = \<lparr>c_known_results = Map.empty, c_completed_prefix = 0, c_started_epoch = 1, c_completed = False, c_template = 0,
     c_parent = None, c_values = Map.empty, c_facts = Map.empty, c_recipe_depth = 0, c_providers = Map.empty\<rparr>"

lemma merge_effect: "g_known_mode g = KOff \<Longrightarrow> \<not> g_lineage_enabled g \<Longrightarrow> 0 < g_fuel g \<Longrightarrow> g_parents g = Map.empty \<Longrightarrow>
  g_active_cause g = None \<Longrightarrow>
  apply_op rid t cid (0, OpUnion (Literal (VEq 5)) (Literal (VEq 3))) g = Inr (g\<lparr>g_pending_unions := g_pending_unions g @ [(5, 3)]\<rparr>, True)"
  by (simp add: apply_op_def apply_effect_def argument_literal enqueue_union_def)


abbreviation merge_framed :: graph where
  "merge_framed \<equiv> merge_start\<lparr>g_next_cell := 2, g_cells := [Suc 0 \<mapsto> merge_cell]\<rparr>"

lemma merge_frame: "start_frame (p_rules merge_program ! 0) merge_binding merge_start = Inr (merge_framed, Some (Suc 0, 0))"
  by (simp add: start_frame_def reference_frame_def linked_frame_def reserve_cell_id_def new_cell_def no_parent_columns_def
      store_cell_def merge_fields merge_program_fields Let_def merge_binding_def binding_of_def env_new_def merge_cell_def)

abbreviation merge_applied :: graph where
  "merge_applied \<equiv> merge_start\<lparr>g_next_cell := 2, g_cells := Map.empty, g_active_cause := None, g_pending_unions := [(5, 3)],
     g_parent_users := Map.empty\<rparr>"

lemma merge_applies: "apply_binding (0, merge_binding) merge_start = Inr merge_applied"
proof -
  let ?c = "merge_cell\<lparr>c_completed := True, c_completed_prefix := Suc 0\<rparr>"
  let ?g = "merge_framed\<lparr>g_pending_unions := [(5, 3)]\<rparr>"
  let ?g5 = "?g\<lparr>g_active_cause := None, g_cells := [Suc 0 \<mapsto> ?c]\<rparr>"
  have r: "idx (p_rules (g_program merge_start)) 0 = Inr (p_rules merge_program ! 0)" "r_template (p_rules merge_program ! 0) = 0"
    "idx (g_templates merge_framed) 0 = Inr (p_templates merge_program ! 0)"
    "tm_ops (p_templates merge_program ! 0) = [OpUnion (Literal (VEq 5)) (Literal (VEq 3))]"
    by (simp_all add: merge_fields merge_program_fields)
  have k: "known_sources 0 (Suc 0) merge_binding merge_framed = Inr merge_framed"
      "continued_depth merge_binding (Suc 0) merge_framed = Inr merge_framed"
    by (simp_all add: known_sources_def continued_depth_def merge_fields merge_binding_def binding_of_def)
  have ops: "apply_ops 0 0 (Suc 0) (drop 0 (enumerate 0 [OpUnion (Literal (VEq 5)) (Literal (VEq 3))])) 0 merge_framed = Inr (?g, True, Suc 0)"
    by (simp add: merge_effect merge_fields)
  have m: "modify_cell (Suc 0) (\<lambda>c. c\<lparr>c_completed := True, c_completed_prefix := Suc 0\<rparr>) (?g\<lparr>g_active_cause := None\<rparr>) = Inr ?g5"
    by (simp add: modify_cell_def)
  have e: "queue_absorption (Suc 0) (bd_witnesses merge_binding) ?g5 = ?g5" by (simp add: queue_absorption_def merge_fields)
  have "fact_bound ?g5 ?c = 1"
    by (simp add: fact_bound_def merge_fields merge_program_fields merge_cell_def get_at_def no_views_def)
  then have "retire_empty (Suc 0) ?g5 = Inr merge_applied"
    by (simp add: retire_empty_def users_def merge_fields merge_program_fields provider_bound_def no_views_def merge_cell_def)
  then show ?thesis
    unfolding apply_binding_def Let_def prod.case r rbind_Inr merge_frame option.case k ops m e .
qed

text \<open>With nothing to absorb, publish, deliver or collect, a Run ends with repair.\<close>

lemma finish_idle:
  assumes "repair (Suc n) (x_graph x) = Inr h" "g_absorption_candidates h = {}" "g_query_changes h = Map.empty" "g_events h = []"
    "g_garbage h = {}" "se_scope (x_settings x) = None" "qi_tables (x_indexes x) = Map.empty"
  shows "finish_run (Suc n) x = Inr (x\<lparr>x_graph := h\<lparr>g_receipt_forwards := Map.empty, g_union_roots := {}\<rparr>\<rparr>, g_changed h)"
proof -
  let ?h = "h\<lparr>g_receipt_forwards := Map.empty, g_union_roots := {}\<rparr>"
  have "absorb_ready h = Inr (h, Map.empty)" using assms(2) by (simp add: absorb_ready_def)
  then have a: "absorb_run (x\<lparr>x_graph := h\<rparr>) = Inr (x\<lparr>x_graph := h\<rparr>)" by (simp add: absorb_run_def)
  have "update_indexes ?h (x_indexes x) = Inr (?h, x_indexes x)"
    using assms(3,7) by (simp add: update_indexes_def change_list_def set_versions_def)
  then have p: "publish (x\<lparr>x_graph := h\<rparr>) = Inr (x\<lparr>x_graph := ?h\<rparr>)" using assms(6) by (simp add: publish_def Let_def)
  have d: "deliver (x\<lparr>x_graph := ?h\<rparr>) = Inr (x\<lparr>x_graph := ?h\<rparr>)" using assms(4) by (simp add: deliver_def)
  have c: "collect_garbage (Suc n) ?h = Inr ?h" using assms(5) by simp
  show ?thesis by (simp add: finish_run_def assms(1) a p d c del: collect_garbage.simps)
qed

lemma merge_runs: "\<exists>y. run 3 ''m'' merge_executor = Inr (y, True) \<and> g_parents (x_graph y) = [5 \<mapsto> 3] \<and> x_watermarks y = [1]"
proof -
  let ?h = "merge_applied\<lparr>g_pending_unions := [], g_pending_causes := [], g_parents := [5 \<mapsto> 3], g_uses := [3 \<mapsto> {}],
    g_unions := g_unions merge_graph + 1, g_changed := True, g_old_keys := Map.empty\<rparr>"
  let ?x = "merge_executor\<lparr>x_graph := merge_start, x_watermarks := [1], x_dirty := {}\<rparr>"
  let ?y = "?x\<lparr>x_graph := ?h\<lparr>g_receipt_forwards := Map.empty, g_union_roots := {}\<rparr>\<rparr>"
  have "repair 3 merge_applied = Inr ?h"
    by (simp add: numeral_3_eq_3 repair_def repair_step_def rmap_def union_unused merge_fields pop_dirty_def)
  then have f: "finish_run 3 (?x\<lparr>x_graph := merge_applied\<rparr>) = Inr (?y, True)"
    using finish_idle [of 2 "?x\<lparr>x_graph := merge_applied\<rparr>" ?h]
    by (simp add: merge_fields merge_executor_def default_settings small_index_def numeral_3_eq_3 numeral_2_eq_2)
  have s: "start_run ''m'' merge_executor = Inr (merge_executor\<lparr>x_graph := merge_start\<rparr>, [0])"
    by (simp add: start_run_def merge_executor_def merge_fields merge_program_fields)
  have x: "x_graph ?x = merge_start" "se_scope (x_settings merge_executor) = None" "x_graph merge_executor = merge_graph"
    by (simp_all add: merge_executor_def default_settings)
  have "rfold match_rule [0] (merge_executor\<lparr>x_graph := merge_start\<rparr>, []) = Inr (?x, [(0, merge_binding)])"
    unfolding rfold.simps merge_matches by simp
  moreover have "rfold apply_binding [(0, merge_binding)] merge_start = Inr merge_applied"
    unfolding rfold.simps merge_applies by simp
  ultimately have run: "run 3 ''m'' merge_executor = Inr (?y, True)"
    unfolding run_def s rbind_Inr prod.case Let_def x using f by (simp add: x)
  then show ?thesis by simp
qed

lemma merge_root: "root [5 \<mapsto> 3] 5 = (3 :: u64)"
  using root_Some [of "[5 \<mapsto> 3]" 5 3] by (simp add: decreasing_def)

section \<open>Properties\<close>

text \<open>
  C3. A Run that returns leaves a settled graph: the invariant of the classes, the lineage and the reverse
  index holds, no union is queued and nothing is marked, every event is delivered, the indexes are told of
  every change and no garbage is left. Classes only grew, and every rule of the ruleset has the epoch of
  this Run, one more than the last, as its watermark; the other rules keep theirs. The result says whether
  the graph changed.
\<close>

theorem run_settles:
  assumes "classes_ok (x_graph x)" "run n name x = Inr (y, changed)"
  shows "classes_ok (x_graph y) \<and> quiet (x_graph y) \<and> drained (x_graph y) \<and> g_garbage (x_graph y) = {} \<and>
    coarser (g_parents (x_graph x)) (g_parents (x_graph y)) \<and> changed = g_changed (x_graph y) \<and>
    (\<exists>rids. p_sets (g_program (x_graph x)) name = Some rids \<and> length (x_watermarks y) = length (x_watermarks x) \<and>
      (\<forall>rid < length (x_watermarks x). x_watermarks y ! rid =
        (if rid \<in> set rids then Suc (g_epoch (x_graph x)) else x_watermarks x ! rid)))"
  by (rule run_classes [OF assms])

lemma run_settles_witness:
  "\<exists>y. run 3 ''m'' merge_executor = Inr (y, True) \<and> quiet (x_graph y) \<and> root (g_parents (x_graph y)) 5 = 3 \<and> x_watermarks y = [1]"
proof -
  obtain y where run: "run 3 ''m'' merge_executor = Inr (y, True)" and y: "g_parents (x_graph y) = [5 \<mapsto> 3]" "x_watermarks y = [1]"
    using merge_runs by blast
  have "classes_ok (x_graph merge_executor)" using merge_ok by (simp add: merge_executor_def)
  with run_settles [OF _ run] y merge_root run show ?thesis by auto
qed

section \<open>Whole programs\<close>

text \<open>What every run and every probe keeps holds at the end of a schedule.\<close>

locale schedule_invariant =
  fixes ops :: "'e runner_ops" and inv :: "'e \<Rightarrow> bool"
  assumes run_keeps: "inv e \<Longrightarrow> op_run ops s e = Inr (e', b) \<Longrightarrow> inv e'"
    and probe_keeps: "inv e \<Longrightarrow> op_probe ops s e = Inr (e', b) \<Longrightarrow> inv e'"
begin

lemma probe_set_keeps: "inv (m_exec m) \<Longrightarrow> probe_set ops s m = Inr (m', b) \<Longrightarrow> inv (m_exec m')"
  by (auto simp: probe_set_def rbind_eq_Inr dest: probe_keeps)

lemma eval_run_keeps: "inv (m_exec m) \<Longrightarrow> eval_run ops s node path its m = Inr m' \<Longrightarrow> inv (m_exec m')"
  by (auto simp: eval_run_def run_set_def rbind_eq_Inr intro: probe_set_keeps run_keeps split: option.splits if_splits)

lemma task_keeps: "inv (m_exec m) \<Longrightarrow> exec_task ops t m = Inr m' \<Longrightarrow> inv (m_exec m')"
  by (auto simp: exec_task_def eval_node_def push_tasks_def Let_def dest: eval_run_keeps split: task.splits option.splits if_splits)

lemma execute_until_keeps: "inv (m_exec m) \<Longrightarrow> execute_until n ops stop m = Inr m' \<Longrightarrow> inv (m_exec m')"
proof (induction n arbitrary: m)
  case 0
  then show ?case by (simp add: execute_until.simps [of 0] split: if_splits)
next
  case (Suc n)
  show ?case
  proof (cases "halted stop m")
    case False
    with Suc.prems obtain m1 where m1: "exec_next ops m = Inr m1" and rest: "execute_until n ops stop m1 = Inr m'"
      by (auto simp: execute_until.simps [of "Suc n"] rbind_eq_Inr)
    from m1 have "inv (m_exec m1)"
      using Suc.prems(1) by (auto simp: exec_next_def dest: task_keeps [rotated] split: list.splits)
    from Suc.IH [OF this rest] show ?thesis .
  qed (use Suc.prems in \<open>simp add: execute_until.simps [of "Suc n"]\<close>)
qed

end

text \<open>The graph is settled and its classes are no finer than those of \<open>g\<close>.\<close>

definition grown :: "graph \<Rightarrow> executor \<Rightarrow> bool" where
  "grown g x \<longleftrightarrow> classes_ok (x_graph x) \<and> quiet (x_graph x) \<and> coarser (g_parents g) (g_parents (x_graph x))"

lemma probe_graph: "probe_rules rids x = Inr (y, b) \<Longrightarrow> x_graph y = x_graph x"
  by (induction rids arbitrary: x) (auto simp: rbind_eq_Inr dest!: matches_state split: if_splits)

lemma run_grown: "classes_ok (x_graph x) \<Longrightarrow> run n name x = Inr (y, b) \<Longrightarrow> coarser (g_parents g) (g_parents (x_graph x)) \<Longrightarrow> grown g y"
  unfolding grown_def by (blast dest: run_classes intro: coarser_trans)

interpretation program: schedule_invariant "executor_ops n" "grown g" for n g
proof
  show "grown g y" if "grown g x" "op_run (executor_ops n) s x = Inr (y, b)" for x s y b
  proof (rule run_grown)
    show "classes_ok (x_graph x)" "coarser (g_parents g) (g_parents (x_graph x))" using that(1) by (simp_all only: grown_def)
    show "run n s x = Inr (y, b)" using that(2) by (simp add: executor_ops_def)
  qed
  show "grown g y" if "grown g x" "op_probe (executor_ops n) s x = Inr (y, b)" for x s y b
    using that by (auto simp: executor_ops_def probe_rule_set_def grown_def rbind_eq_Inr dest!: probe_graph)
qed

lemma execute_done: "execute n ops m = Inr m' \<Longrightarrow> m_tasks m' = []"
  unfolding execute_def
proof (induction n arbitrary: m)
  case 0
  then show ?case by (simp add: execute_until.simps [of 0] halted_def split: if_splits)
next
  case (Suc n)
  then show ?case by (auto simp: execute_until.simps [of "Suc n"] halted_def rbind_eq_Inr split: if_splits)
qed

lemma executor_new_graph: "executor_new env plan q g = Inr x \<Longrightarrow> x_graph x = g\<lparr>g_events := [], g_query_changes := Map.empty\<rparr>"
  by (auto simp: executor_new_def Let_def rbind_eq_Inr dest!: ensuresD [OF deliver_graph])

text \<open>
  C2. A program that ends leaves a settled graph: whatever its schedule and its rules, from a settled start
  the invariant of the classes, the lineage and the reverse index holds at the end, no union is queued,
  nothing is marked, every task of the schedule is done, and classes have only grown.
\<close>

theorem program_settles:
  assumes "classes_ok g" "quiet g" "run_program n env plan q g = Inr m"
  shows "classes_ok (x_graph (m_exec m)) \<and> quiet (x_graph (m_exec m)) \<and>
    coarser (g_parents g) (g_parents (x_graph (m_exec m))) \<and> m_tasks m = []"
proof -
  from assms(3) obtain x where x: "executor_new env plan q g = Inr x" and e: "execute n (executor_ops n)
      \<lparr>m_exec = x, m_tasks = initial_tasks (p_control (g_program g)), m_steps = []\<rparr> = Inr m"
    by (auto simp: run_program_def rbind_eq_Inr)
  have "grown g x"
    using executor_new_graph [OF x] assms(1,2)
    by (simp add: grown_def quiet_def coarser_refl classes_ok_def lineage_ok_def causes_below_def uses_ok_def uses_of_def)
  then have "grown g (m_exec m)" using program.execute_until_keeps [OF _ e [unfolded execute_def]] by simp
  moreover have "m_tasks m = []" using execute_done [OF e] .
  ultimately show ?thesis by (simp add: grown_def)
qed

lemma merge_new: "executor_new (\<lambda>_. None) no_stages small_index merge_graph = Inr merge_executor"
proof -
  have "readers_of merge_program = [[]]" "length (p_rules merge_program) = 1"
    by (simp_all add: readers_of_def reads_table_def merge_program_def unary_program_def)
  moreover have "merge_graph\<lparr>g_events := [], g_query_changes := Map.empty\<rparr> = merge_graph"
    by (simp add: merge_graph_def unary_empty_def empty_graph_def Let_def)
  ultimately show ?thesis
    by (simp add: executor_new_def merge_fields deliver_def Let_def merge_executor_def lessThan_Suc)
qed

lemma program_settles_witness:
  "\<exists>m. run_program 3 (\<lambda>_. None) no_stages small_index merge_graph = Inr m \<and> quiet (x_graph (m_exec m)) \<and>
     root (g_parents (x_graph (m_exec m))) 5 = 3 \<and> map st_changed (m_steps m) = [True]"
proof -
  obtain y where run: "run 3 ''m'' merge_executor = Inr (y, True)" and y: "g_parents (x_graph y) = [5 \<mapsto> 3]"
    using merge_runs by blast
  let ?node = "JObj [(''run'', JStr ''m'')]"
  let ?m = "\<lparr>m_exec = y, m_tasks = [], m_steps = [\<lparr>st_ruleset = ''m'', st_path = [0], st_iterations = [], st_changed = True\<rparr>]\<rparr>"
  have "initial_tasks (p_control (g_program merge_graph)) = [Eval ?node [0] []]"
    by (simp add: initial_tasks_def merge_fields merge_program_def)
  moreover have "exec_next (executor_ops 3) \<lparr>m_exec = merge_executor, m_tasks = [Eval ?node [0] []], m_steps = []\<rparr> = Inr ?m"
    using run by (simp add: exec_next_def exec_task_def eval_node_def eval_run_def run_set_def executor_ops_def jfield_def)
  ultimately have e: "run_program 3 (\<lambda>_. None) no_stages small_index merge_graph = Inr ?m"
    by (simp add: run_program_def merge_new execute_def numeral_3_eq_3 execute_until.simps halted_def)
  have "quiet merge_graph" by (simp add: quiet_def merge_fields)
  with program_settles [OF merge_ok _ e] e y merge_root show ?thesis by auto
qed

end
