(* ===== verification/Spec2Isabelle.thy ===== *)
theory Spec2Isabelle
  imports CongruencePlan MergeContracts MergeOrders Views KnownResults EntrySeeds SourceRecipe CompositionCorrect CompileStages MatchCorrect RunCorrect
begin

text \<open>
  A verification development for the Cell CPU runtime of eggfuse: \<open>src/engine/cell-runtime\<close>, with the keys of
  \<open>src/engine/structural-key\<close>. The runtime loads an artifact that a compiler emitted (a Recipe and plans that
  speed it up), checks every plan against the Recipe, builds a graph of facts over equality classes, and runs
  the schedule of the program: each Run matches the rules of a ruleset on the committed graph, applies the
  effects of all matches, and repairs the graph. All paths below are under \<open>src/engine/cell-runtime/src/\<close>.

  \<^bold>\<open>Parts and theories.\<close>
  \<^item> Vocabulary: \<open>Prelude\<close> (the error monad \<open>res\<close>, checked indexing, orderings), \<open>Json\<close> (documents), \<open>Demo\<close> (a small
    artifact for witnesses).
  \<^item> Keys, \<open>structural-key/src/lib.rs\<close>: \<open>StructuralKey\<close> (allocation, comparison), \<open>KeyWire\<close> (the wire DAG), \<open>KeyText\<close>
    (text forms, ABI). Values and primitives, \<open>value.rs\<close>: \<open>Values\<close>, \<open>Primitives\<close>.
  \<^item> Loading, \<open>program.rs\<close>: \<open>Recipe\<close> (data and the reading of tables, templates, rules), \<open>Loader\<close> (\<open>load\<close>, \<open>validate\<close>,
    \<open>verify_source\<close>), \<open>SourceRecipe\<close> (what the source check guarantees, and what it lets through).
  \<^item> Plans and their checkers: \<open>CongruencePlan\<close> (\<open>congruence.rs\<close>), \<open>MergePrograms\<close>, \<open>MergeCorrect\<close>, \<open>MergeOrders\<close>
    (\<open>merge_programs.rs\<close>), \<open>MergeContracts\<close> (\<open>merge_contract.rs\<close>), \<open>Views\<close> (\<open>views.rs\<close>),
    \<open>KnownResults\<close> (\<open>known_results.rs\<close>), \<open>Multistage\<close>, \<open>RouteCorrect\<close> (\<open>multistage.rs\<close> and the compilers of \<open>union_graft.rs\<close> and
    \<open>stage_spine.rs\<close> it compares with), \<open>CompileStages\<close> (the emitter of that plan, \<open>compiler/mod.rs\<close>),
    \<open>Compositions\<close> and \<open>CompositionCorrect\<close> (the parser of multi-rule programs, \<open>compositions.rs\<close>).
  \<^item> Union causes, \<open>union_graft.rs\<close>: \<open>Lineage\<close>.
  \<^item> The graph, \<open>graph.rs\<close>: \<open>GraphState\<close> (state and reads), \<open>GraphIndex\<close> (lookups, reverse index), \<open>GraphWrite\<close> (Cells,
    facts, constructor requests), \<open>GraphUnion\<close> (unions, merges, sets, hides), \<open>GraphRepair\<close> (the repair loop, garbage),
    \<open>GraphNew\<close> (construction); \<open>Absorb\<close> (\<open>reference_storage.rs\<close>). What they guarantee: \<open>GraphClasses\<close>, \<open>GraphInvariant\<close>,
    \<open>GraphSettle\<close>, \<open>GraphProps\<close>, \<open>InitialRows\<close> (a new graph).
  \<^item> Matching, \<open>query.rs\<close> and \<open>runtime.rs\<close>: \<open>QueryIndex\<close> (column indexes), \<open>Matcher\<close> and \<open>MatchSearch\<close> (the join),
    \<open>RowSource\<close>, \<open>Answers\<close>, \<open>Seeds\<close> (what a query means), \<open>Narrow\<close> and \<open>Continue\<close> (entry programs, continuations),
    \<open>SeedJoin\<close>, \<open>RuleMatch\<close> (one rule), \<open>MatchCorrect\<close>.
  \<^item> Shared entries, \<open>entry_schedule.rs\<close>: \<open>EntrySchedule\<close> (the plan, packets, the scheduler), \<open>EntryPatterns\<close> (what a
    derived plan is), \<open>EntrySeeds\<close> (publishing and refreshing give exactly the fresh matches, as long as every change
    of the graph is reported: \<open>reported\<close>).
  \<^item> Running, \<open>schedule.rs\<close> and \<open>runtime.rs\<close>: \<open>Schedule\<close> (the interpreter of schedules), \<open>Runs\<close> (a Run, a program),
    \<open>RunCorrect\<close>.

  \<^bold>\<open>State and operations.\<close> A Rust struct is a record with its fields, a tagged union a datatype, a map a partial function,
  an ordered set that is iterated a sorted list of the set. 64-bit identities are words; epochs, depths and counters
  are naturals with the check of the code where it checks them. An operation that may fail returns \<open>error + 'a\<close>: \<open>Err\<close> is
  an \<open>Err\<close> of the code with the fixed part of its text, \<open>Panic\<close> a panic (an index out of range, an \<open>unwrap\<close>), \<open>Diverge\<close>
  an exhausted bound. State is passed explicitly.

  \<^bold>\<open>Parameters.\<close> What is not under \<open>src/\<close> is an argument: the hash of a row key (\<open>g_hashkey\<close>) and of a fingerprint
  (\<open>qi_hash\<close>), which no theorem assumes to be injective; the environment (\<open>env\<close>); \<open>serde_json\<close>'s reading of a text and the
  escaping of strings (\<open>host\<close>, \<open>wire\<close>), and the digest of a document (\<open>sha2\<close>, in \<open>parse_compositions\<close>). The schedule interpreter takes the executor's operations as a
  record (\<open>runner_ops\<close>); \<open>executor_ops\<close> instantiates it.

  \<^bold>\<open>Bounds.\<close> Loops of the code without a bound carry fuel. The reads of slots (\<open>g_fuel\<close>) and the repair loop, garbage
  collection and schedules (the argument of \<open>repair\<close>, \<open>collect_garbage\<close>, \<open>execute\<close>) may diverge in the model only; their
  results do not depend on the bound once it suffices (\<open>repair_fuel_irrelevant\<close>), and garbage collection has a sufficient
  bound (\<open>garbage_collection_terminates\<close>). \<open>norm\<close> and \<open>prove\<close> have enough fuel on SSA templates (\<open>prove_returns\<close>); on a rule
  whose copies lead to a query input that is copied back to itself the code itself does not return, and \<open>load\<close>
  accepts such a rule (\<open>norm_diverges_iff_input_copied\<close>). Compiling merge programs ends (\<open>compile_merges_ends\<close>), \<open>root\<close> ends on
  decreasing parents (\<open>root_terminates\<close>), and the greedy entry order takes as many turns as there are atoms.

  \<^bold>\<open>What the lemmas show.\<close>
  \<^item> A loaded program is well formed and its Recipe reads as the typed source, rule by rule; every accepted plan is what the compiler
    derives, and following it changes nothing: merge programs compute the merge expression, congruence plans unite
    only results that are equal, routes are substitutions, entry orders are usable; merges under a lattice contract
    commute, and frames that keep handles to
    matched facts read what copies would hold, constructors that are skipped would find their row, composition edges read facts of the producer
    that stay. The emitter of the continuation plan emits what the parser accepts.
  \<^item> The graph: classes only grow, parents decrease, the lineage explains exactly the unions, the reverse index is
    complete, reads are canonical, keyed lookups are exact whatever the hash, a new
    graph holds exactly the initial rows, and repair leaves no work (\<open>classes_ok\<close>, \<open>quiet\<close>).
  \<^item> Matching: the in-place join is a search; candidates lose nothing to fingerprint collisions; seeds partition the
    answers; narrowing and continuing keep exactly the answers of a seed; so a rule gets one binding for each assignment
    of its inputs with an answer due (\<open>matches_exact\<close>).
  \<^item> Running: the schedule interpreter refines a big-step meaning; a Run, and a whole program, leaves a settled graph
    (\<open>run_settles\<close>, \<open>program_settles\<close>).

  \<^bold>\<open>Interfaces.\<close> Locales state the contracts between parts: total orders on keys, values and arguments (\<open>ord_contract\<close>),
  relations that operations respect (\<open>state_order\<close>, \<open>cell_order\<close>), the row source of the join, invariants of a schedule
  (\<open>schedule_invariant\<close>); each is interpreted on the model's own definitions.

  \<^bold>\<open>Not modelled.\<close> Counters, timings, audits and reports. The optional features of the executor that are off unless an
  environment variable turns them on: refutation (\<open>refutation.rs\<close>), search contexts (\<open>search_context.rs\<close>), local saturation
  (\<open>local_sat.rs\<close>), the sieve (\<open>sieve.rs\<close>), retained contexts (\<open>retained.rs\<close>, \<open>retained_prefix.rs\<close>), the running of stage programs
  (\<open>stage_spine.rs\<close>), of union grafts (\<open>union_graft.rs\<close>) and of accepted composition edges
  (\<open>compositions.rs\<close>), the executor's use of the shared entry scheduler, and the survey of union impact (\<open>union_impact.rs\<close>); with them off the code modelled here is what runs.
  Checkpoints (\<open>image\<close>, \<open>restore\<close>, \<open>resume\<close>) and export (\<open>extract.rs\<close>) are serialisation through \<open>serde\<close>. The compilers
  and analyses under \<open>src/src\<close> and \<open>src/tools\<close> produce artifacts that the runtime does not trust; \<open>src/egglog\<close> is a vendored
  copy of egglog.
\<close>

end
